(* ===== verification/BM_Prelude.thy ===== *)
theory BM_Prelude
  imports Main "HOL-Library.Word" "HOL-Library.Monad_Syntax"
begin

unbundle bit_operations_syntax

text \<open>
  Shared vocabulary of the development: machine integers, the result type of fallible Rust
  functions, slices of byte buffers with Rust's indexing rules, and little- and big-endian
  fields.

  Panics. Rust indexing panics out of range, so every buffer access that is not already
  guaranteed by a type is modelled by a function into \<open>option\<close>, whose \<^const>\<open>None\<close>
  is the panic; the bodies that use them are written in the option monad. A theorem that
  such a function is \<^const>\<open>Some\<close> is the statement that it does not panic. An error
  value a function \<^emph>\<open>returns\<close> is a value \<open>Err e\<close> of \<open>result\<close>.
\<close>

section \<open>Types\<close>

type_synonym u8 = "8 word"
type_synonym u16 = "16 word"
type_synonym u32 = "32 word"
type_synonym u64 = "64 word"
type_synonym bytes = "8 word list"

datatype ('e, 'a) result = Ok (the_ok: 'a) | Err (the_err: 'e)

text \<open>\<open>BmWireError\<close> of \<open>bm-wire/src/lib.rs\<close>.\<close>

datatype BmWireError = Truncated | Invalid

named_theorems buf_simps \<open>evaluation of buffer accesses that are in range\<close>
named_theorems join_simps \<open>adjacent pieces of a buffer join\<close>
named_theorems wire_simps \<open>characterisations of the wire-format operations\<close>

section \<open>Slices\<close>

definition subslice :: "'a list \<Rightarrow> nat \<Rightarrow> nat \<Rightarrow> 'a list" where
  "subslice buf a n = take n (drop a buf)"

definition put :: "'a list \<Rightarrow> nat \<Rightarrow> 'a list \<Rightarrow> 'a list" where
  "put buf a xs = take a buf @ xs @ drop (a + length xs) buf"

text \<open>The panicking accesses: \<open>buf[i]\<close>, \<open>buf[i] = v\<close>, \<open>&buf[a..b]\<close> and
  \<open>buf[a..a + xs.len()].copy_from_slice(xs)\<close>. The checked \<open>buf.get(a..b)\<close> and
  \<open>buf.get_mut(a..b)\<close> are \<^term>\<open>range_at\<close> too, with \<open>None\<close> a value instead of
  a panic.\<close>

definition get_at :: "'a list \<Rightarrow> nat \<Rightarrow> 'a option" where
  "get_at buf i = (if i < length buf then Some (buf ! i) else None)"

definition set_at :: "'a list \<Rightarrow> nat \<Rightarrow> 'a \<Rightarrow> 'a list option" where
  "set_at buf i v = (if i < length buf then Some (buf[i := v]) else None)"

definition range_at :: "'a list \<Rightarrow> nat \<Rightarrow> nat \<Rightarrow> 'a list option" where
  "range_at buf a b = (if a \<le> b \<and> b \<le> length buf then Some (subslice buf a (b - a)) else None)"

definition copy_at :: "'a list \<Rightarrow> nat \<Rightarrow> 'a list \<Rightarrow> 'a list option" where
  "copy_at buf a xs = (if a + length xs \<le> length buf then Some (put buf a xs) else None)"

lemma get_at_in [buf_simps]: "i < length buf \<Longrightarrow> get_at buf i = Some (buf ! i)"
  by (simp add: get_at_def)

lemma set_at_in [buf_simps]: "i < length buf \<Longrightarrow> set_at buf i v = Some (buf[i := v])"
  by (simp add: set_at_def)

lemma range_at_in [buf_simps]:
  "a \<le> b \<Longrightarrow> b \<le> length buf \<Longrightarrow> range_at buf a b = Some (subslice buf a (b - a))"
  by (simp add: range_at_def)

lemma copy_at_in [buf_simps]:
  "a + length xs \<le> length buf \<Longrightarrow> copy_at buf a xs = Some (put buf a xs)"
  by (simp add: copy_at_def)

lemma length_subslice [simp]: "a + n \<le> length buf \<Longrightarrow> length (subslice buf a n) = n"
  by (simp add: subslice_def)

lemma length_put [simp]: "a + length xs \<le> length buf \<Longrightarrow> length (put buf a xs) = length buf"
  by (simp add: put_def)

lemma nth_subslice [simp]: "i < n \<Longrightarrow> a + n \<le> length buf \<Longrightarrow> subslice buf a n ! i = buf ! (a + i)"
  by (simp add: subslice_def)

lemma nth_put:
  assumes "a + length xs \<le> length buf"
  shows "put buf a xs ! i =
    (if i < a then buf ! i else if i < a + length xs then xs ! (i - a) else buf ! i)"
  using assms by (auto simp: put_def nth_append)

lemma subslice_put_same [simp]:
  "a + length xs \<le> length buf \<Longrightarrow> n = length xs \<Longrightarrow> subslice (put buf a xs) a n = xs"
  by (simp add: subslice_def put_def)

lemma subslice_put_before [simp]:
  "c + n \<le> a \<Longrightarrow> a \<le> length buf \<Longrightarrow> subslice (put buf a xs) c n = subslice buf c n"
  by (auto simp: subslice_def put_def drop_take min_def)

lemma subslice_put_after [simp]:
  "a + length xs \<le> c \<Longrightarrow> a + length xs \<le> length buf \<Longrightarrow>
   subslice (put buf a xs) c n = subslice buf c n"
  by (simp add: subslice_def put_def)

lemma subslice_update_other [simp]:
  "i < a \<or> a + n \<le> i \<Longrightarrow> subslice (buf[i := v]) a n = subslice buf a n"
  by (auto simp: subslice_def drop_update_swap take_update_cancel)

lemma subslice_update_same:
  "a \<le> i \<Longrightarrow> i < a + n \<Longrightarrow> subslice (buf[i := v]) a n = (subslice buf a n)[i - a := v]"
  by (simp add: subslice_def drop_update_swap take_update_swap)

lemma put_put_seq:
  "a + length xs = b \<Longrightarrow> a + length xs \<le> length buf \<Longrightarrow>
   put (put buf a xs) b ys = put buf a (xs @ ys)"
  by (auto simp: put_def add.commute add.left_commute)

lemma put_singleton: "i < length buf \<Longrightarrow> buf[i := v] = put buf i [v]"
  by (simp add: put_def upd_conv_take_nth_drop)

lemma put_update_seq:
  "a + length xs = i \<Longrightarrow> i < length buf \<Longrightarrow> (put buf a xs)[i := v] = put buf a (xs @ [v])"
  by (simp add: put_singleton put_put_seq)

lemma put_overwrite:
  "a + length xs \<le> length buf \<Longrightarrow> length ys = length xs \<Longrightarrow> put (put buf a xs) a ys = put buf a ys"
  by (simp add: put_def)

lemma put_self: "a + n \<le> length buf \<Longrightarrow> put buf a (subslice buf a n) = buf"
  using append_take_drop_id [of n "drop a buf"] append_take_drop_id [of a buf]
  by (simp add: put_def subslice_def add.commute)

lemma put_0: "length xs \<le> length buf \<Longrightarrow> put buf 0 xs = xs @ drop (length xs) buf"
  by (simp add: put_def)

lemma subslice_append_left [simp]: "a + n \<le> length xs \<Longrightarrow> subslice (xs @ ys) a n = subslice xs a n"
  by (simp add: subslice_def)

lemma subslice_append_right [simp]:
  "length xs \<le> a \<Longrightarrow> subslice (xs @ ys) a n = subslice ys (a - length xs) n"
  by (simp add: subslice_def)

lemma subslice_Cons_pos [simp]: "0 < a \<Longrightarrow> subslice (x # xs) a n = subslice xs (a - 1) n"
  by (cases a) (simp_all add: subslice_def)

lemma subslice_0_all [simp]: "n = length xs \<Longrightarrow> subslice xs 0 n = xs"
  by (simp add: subslice_def)

lemma subslice_0 [simp]: "subslice xs a 0 = []"
  by (simp add: subslice_def)

lemma subslice_subslice [simp]:
  "b + m \<le> n \<Longrightarrow> subslice (subslice buf a n) b m = subslice buf (a + b) m"
  by (simp add: subslice_def drop_take add.commute min_def)

lemma subslice_split: "subslice buf a (m + n) = subslice buf a m @ subslice buf (a + m) n"
  by (simp add: subslice_def take_add add.commute)

text \<open>Adjacent slices and bytes join; with these a fixed-length buffer is the concatenation of
  its fields.\<close>

lemma subslice_join [join_simps]:
  "b = a + m \<Longrightarrow> subslice buf a m @ subslice buf b n = subslice buf a (m + n)"
  "b = a + m \<Longrightarrow> subslice buf a m @ subslice buf b n @ r = subslice buf a (m + n) @ r"
  by (simp_all add: subslice_split)

lemma subslice_join_byte [join_simps]:
  assumes "b = a + m" "b < length buf"
  shows "subslice buf a m @ buf ! b # r = subslice buf a (Suc m) @ r"
proof -
  have "subslice buf b 1 = [buf ! b]"
    using assms(2) by (simp add: subslice_def take_Suc hd_drop_conv_nth)
  then show ?thesis using assms(1) subslice_split [of buf a m 1] by simp
qed

lemma byte_join_subslice [join_simps]:
  assumes "b = Suc a" "a < length buf"
  shows "buf ! a # subslice buf b n = subslice buf a (Suc n)"
    and "buf ! a # subslice buf b n @ r = subslice buf a (Suc n) @ r"
  using assms by (simp_all add: subslice_def Cons_nth_drop_Suc [symmetric])

lemma drop_split_at: "a \<le> b \<Longrightarrow> drop a xs = subslice xs a (b - a) @ drop b xs"
  using append_take_drop_id [of "b - a" "drop a xs"] by (simp add: subslice_def)

lemma take_subslice [simp]: "take m (subslice buf a n) = subslice buf a (min m n)"
  by (simp add: subslice_def)

lemma drop_subslice [simp]: "drop m (subslice buf a n) = subslice buf (a + m) (n - m)"
  by (simp add: subslice_def drop_take add.commute)

lemma subslice_2: "a + 2 \<le> length buf \<Longrightarrow> subslice buf a 2 = [buf ! a, buf ! Suc a]"
  by (auto simp: subslice_def numeral_2_eq_2 take_Suc_conv_app_nth nth_append)

lemma put_2: "a + 2 \<le> length buf \<Longrightarrow> put buf a [x, y] = buf[a := x, Suc a := y]"
  by (simp add: put_singleton put_put_seq)

section \<open>Byte order\<close>

text \<open>\<open>to_le_bytes\<close> and \<open>from_le_bytes\<close> of an integer of \<open>n\<close> bytes, and the
  big-endian pair.\<close>

primrec to_le :: "nat \<Rightarrow> 'a::len word \<Rightarrow> bytes" where
  "to_le 0 w = []"
| "to_le (Suc n) w = ucast w # to_le n (drop_bit 8 w)"

primrec from_le :: "bytes \<Rightarrow> 'a::len word" where
  "from_le [] = 0"
| "from_le (b # bs) = ucast b OR push_bit 8 (from_le bs)"

definition to_be :: "nat \<Rightarrow> 'a::len word \<Rightarrow> bytes" where
  "to_be n w = rev (to_le n w)"

definition from_be :: "bytes \<Rightarrow> 'a::len word" where
  "from_be bs = from_le (rev bs)"

lemma length_to_le [simp]: "length (to_le n w) = n"
  by (induction n arbitrary: w) simp_all

lemma length_to_be [simp]: "length (to_be n w) = n"
  by (simp add: to_be_def)

lemma to_le_numeral [simp]:
  "to_le (numeral k) w = ucast w # to_le (pred_numeral k) (drop_bit 8 w)"
  by (simp add: numeral_eq_Suc)

lemma to_le_1 [simp]: "to_le (Suc 0) w = [ucast w]"
  by simp

lemma from_to_le_take_bit: "from_le (to_le n w) = take_bit (8 * n) w"
proof (induction n arbitrary: w)
  case 0
  then show ?case by simp
next
  case (Suc n)
  have "ucast (ucast w :: u8) OR push_bit 8 (take_bit (8 * n) (drop_bit 8 w))
      = take_bit (8 * Suc n) w"
    by (rule bit_eqI) (auto simp: bit_simps)
  with Suc show ?case by simp
qed

lemma from_to_le: "LENGTH('a) \<le> 8 * n \<Longrightarrow> from_le (to_le n w) = (w :: 'a::len word)"
  by (simp add: from_to_le_take_bit take_bit_word_eq_self)

lemma bit_from_le:
  "bit (from_le bs :: 'a::len word) i \<longleftrightarrow>
     i < LENGTH('a) \<and> i div 8 < length bs \<and> bit (bs ! (i div 8)) (i mod 8)"
proof (induction bs arbitrary: i)
  case Nil
  then show ?case by simp
next
  case (Cons b bs)
  have small: "i < 8 \<Longrightarrow> i div 8 = 0 \<and> i mod 8 = i" by simp
  have big: "8 \<le> i \<Longrightarrow> i div 8 = Suc ((i - 8) div 8) \<and> i mod 8 = (i - 8) mod 8"
    by (simp add: le_div_geq le_mod_geq)
  show ?case
  proof (cases "i < 8")
    case True
    then show ?thesis using small by (auto simp: bit_simps)
  next
    case False
    then have b: "\<not> bit b i" by (auto dest: bit_imp_le_length)
    have "bit (from_le (b # bs) :: 'a word) i \<longleftrightarrow>
        i < LENGTH('a) \<and> bit (from_le bs :: 'a word) (i - 8)"
      using False b by (auto simp: bit_or_iff bit_push_bit_iff bit_ucast_iff)
    moreover have "(b # bs) ! (i div 8) = bs ! ((i - 8) div 8)"
      using False big by simp
    ultimately show ?thesis
      using False big Cons.IH [of "i - 8"] by auto
  qed
qed

lemma to_from_le_aux:
  "8 * length bs \<le> LENGTH('a) \<Longrightarrow> to_le (length bs) (from_le bs :: 'a::len word) = bs"
proof (induction bs)
  case Nil
  then show ?case by simp
next
  case (Cons b bs)
  let ?w = "from_le bs :: 'a word"
  have len: "8 + 8 * length bs \<le> LENGTH('a)" using Cons.prems by simp
  have low: "ucast (ucast b OR push_bit 8 ?w :: 'a word) = b"
    using len by (intro bit_word_eqI) (auto simp: bit_simps)
  have high: "drop_bit 8 (ucast b OR push_bit 8 ?w :: 'a word) = ?w"
  proof (rule bit_word_eqI)
    fix i assume "i < LENGTH('a)"
    have "bit ?w i \<Longrightarrow> 8 + i < LENGTH('a)"
    proof -
      assume "bit ?w i"
      then have "i div 8 < length bs" by (simp add: bit_from_le)
      then show ?thesis using len by (simp add: div_less_iff_less_mult)
    qed
    then show "bit (drop_bit 8 (ucast b OR push_bit 8 ?w :: 'a word)) i = bit ?w i"
      by (auto simp: bit_simps dest: bit_imp_le_length)
  qed
  from Cons have "to_le (length bs) ?w = bs" by simp
  with low high show ?case by simp
qed

lemma to_from_le:
  "n = length bs \<Longrightarrow> 8 * length bs \<le> LENGTH('a) \<Longrightarrow> to_le n (from_le bs :: 'a::len word) = bs"
  by (simp add: to_from_le_aux)

lemma from_to_be: "LENGTH('a) \<le> 8 * n \<Longrightarrow> from_be (to_be n w) = (w :: 'a::len word)"
  by (simp add: from_be_def to_be_def from_to_le)

lemma to_from_be:
  "n = length bs \<Longrightarrow> 8 * length bs \<le> LENGTH('a) \<Longrightarrow> to_be n (from_be bs :: 'a::len word) = bs"
  by (simp add: from_be_def to_be_def to_from_le)

lemma from_to_le_widths [simp]:
  "from_le (to_le 2 w2) = (w2 :: u16)"
  "from_le (to_le 4 w4) = (w4 :: u32)"
  "from_le (to_le 8 w8) = (w8 :: u64)"
  by (simp_all add: from_to_le del: to_le_numeral)

lemma from_to_be_widths [simp]:
  "from_be (to_be 2 w2) = (w2 :: u16)"
  "from_be (to_be 4 w4) = (w4 :: u32)"
  "from_be (to_be 8 w8) = (w8 :: u64)"
  by (simp_all add: from_to_be)

section \<open>Signed reading of 32-bit differences\<close>

lemma sint_neg_iff: "sint (x :: u32) < 0 \<longleftrightarrow> 2 ^ 31 \<le> unat x"
proof -
  have "sint x < 0 \<longleftrightarrow> bit (uint x) 31"
    by (simp add: sint_uint signed_take_bit_negative_iff)
  also have "\<dots> \<longleftrightarrow> odd (int (unat x) div 2 ^ 31)"
    by (simp add: bit_iff_odd)
  also have "\<dots> \<longleftrightarrow> odd (unat x div 2 ^ 31)"
    using even_of_nat_iff [of "unat x div 2 ^ 31", where ?'a = int] by (simp add: zdiv_int)
  also have "\<dots> \<longleftrightarrow> 2 ^ 31 \<le> unat x"
  proof -
    have "unat x < 2 ^ 32" using unsigned_less [of x] by simp
    then have "unat x div 2 ^ 31 < 2" by (simp add: less_mult_imp_div_less)
    then have "unat x div 2 ^ 31 = 0 \<or> unat x div 2 ^ 31 = 1" by linarith
    then show ?thesis by (auto simp: div_eq_0_iff)
  qed
  finally show ?thesis .
qed

end
