(* ===== verification/Util.thy ===== *)
theory Util
  imports BM_Prelude "HOL-Library.While_Combinator"
begin

text \<open>
  \<open>bm-wire/src/util.rs\<close>: IPv6 address predicates, the wrapping deadline arithmetic
  \<open>time_remaining\<close>, \<open>bm_strnlen\<close>, the wildcard matcher of topic subscriptions and
  the UTC date conversions. The lemmas show that a deadline within half the clock's range is
  read correctly across wrap-around, that the backtracking matcher terminates and decides
  a declarative glob semantics (with the prefix rule for patterns without a star), and that
  breaking a timestamp down never panics and is undone by \<open>utc_from_date_time\<close>.
\<close>

section \<open>Addresses\<close>

text \<open>\<open>BmIpAddr\<close> wraps \<open>[u8; 16]\<close>: a list with \<^term>\<open>wf_addr\<close>.\<close>

type_synonym BmIpAddr = bytes

definition wf_addr :: "BmIpAddr \<Rightarrow> bool" where
  "wf_addr a \<longleftrightarrow> length a = 16"

definition GLOBAL_MULTICAST :: BmIpAddr where
  "GLOBAL_MULTICAST = [0xFF, 0x03, 0, 0, 0, 0, 0, 0, 0, 0, 0, 0, 0, 0, 0, 0x01]"

definition LINK_LOCAL_MULTICAST :: BmIpAddr where
  "LINK_LOCAL_MULTICAST = [0xFF, 0x02, 0, 0, 0, 0, 0, 0, 0, 0, 0, 0, 0, 0, 0, 0x01]"

definition is_global_multicast :: "BmIpAddr \<Rightarrow> bool" where
  "is_global_multicast a \<longleftrightarrow> a ! 0 = 0xFF \<and> a ! 1 = 0x03 \<and> a ! 15 = 0x01"

definition is_link_local_multicast :: "BmIpAddr \<Rightarrow> bool" where
  "is_link_local_multicast a \<longleftrightarrow> a ! 0 = 0xFF \<and> a ! 1 = 0x02"

definition is_link_local_neighbor_multicast :: "BmIpAddr \<Rightarrow> bool" where
  "is_link_local_neighbor_multicast a \<longleftrightarrow> a ! 0 = 0xFF \<and> a ! 1 = 0x02 \<and> a ! 15 = 0x01"

definition to_node_id :: "BmIpAddr \<Rightarrow> u64" where
  "to_node_id a = from_be (subslice a 8 8)"

section \<open>Deadlines and strings\<close>

definition time_remaining :: "u32 \<Rightarrow> u32 \<Rightarrow> u32 \<Rightarrow> u32" where
  "time_remaining start current timeout =
     (let remaining = start + timeout - current in if sint remaining < 0 then 0 else remaining)"

text \<open>\<open>s.iter().take(max_length).position(|&b| b == 0)\<close>, or the capped length.\<close>

definition bm_strnlen :: "bytes \<Rightarrow> nat \<Rightarrow> nat" where
  "bm_strnlen s max_length =
     (let pre = take max_length s; n = length (takeWhile (\<lambda>b. b \<noteq> 0) pre)
      in if n < length pre then n else min max_length (length s))"

definition uint8_to_uint16 :: "bytes \<Rightarrow> u16" where
  "uint8_to_uint16 buf = from_be buf"

definition uint8_to_uint32 :: "bytes \<Rightarrow> u32" where
  "uint8_to_uint32 buf = from_be buf"

section \<open>The wildcard matcher\<close>

text \<open>\<open>bm_wildcard_match\<close> loops over indices \<open>i\<close> into the string and \<open>j\<close> into the
  pattern, remembering the last star and where its match was resumed. The loop body as a
  step that is \<open>None\<close> at the \<open>break\<close>; the loop itself is a \<open>while_option\<close>, whose
  termination is proved below.\<close>

record wild =
  w_star :: "nat option"
  w_match :: nat
  w_i :: nat
  w_j :: nat

definition wild_step :: "bytes \<Rightarrow> bytes \<Rightarrow> wild \<Rightarrow> wild option" where
  "wild_step s p w =
     (let i = w_i w; j = w_j w in
      if j < length p \<and> (p ! j = 63 \<or> s ! i = p ! j)
      then Some (w\<lparr>w_i := i + 1, w_j := j + 1\<rparr>)
      else if j < length p \<and> p ! j = 42
      then Some (w\<lparr>w_star := Some j, w_j := j + 1, w_match := i\<rparr>)
      else case w_star w of
        Some star \<Rightarrow> Some (w\<lparr>w_j := star + 1, w_match := w_match w + 1, w_i := w_match w + 1\<rparr>)
      | None \<Rightarrow> None)"

definition wild_loop :: "bytes \<Rightarrow> bytes \<Rightarrow> wild \<Rightarrow> wild option" where
  "wild_loop s p w =
     map_option fst (while_option
       (\<lambda>(w, running). running \<and> w_i w < length s)
       (\<lambda>(w, running). case wild_step s p w of Some w' \<Rightarrow> (w', True) | None \<Rightarrow> (w, False))
       (w, True))"

function skip_stars :: "bytes \<Rightarrow> nat \<Rightarrow> nat" where
  "skip_stars p j = (if j < length p \<and> p ! j = 42 then skip_stars p (j + 1) else j)"
  by pat_completeness auto
termination
  by (relation "measure (\<lambda>(p, j). length p - j)") auto

declare skip_stars.simps [simp del]

definition bm_wildcard_match :: "bytes \<Rightarrow> bytes \<Rightarrow> bool option" where
  "bm_wildcard_match s p =
     map_option (\<lambda>w. skip_stars p (w_j w) = length p)
       (wild_loop s p \<lparr>w_star = None, w_match = 0, w_i = 0, w_j = 0\<rparr>)"

section \<open>Dates\<close>

record UtcDateTime =
  year :: u16
  month :: u8
  day :: u8
  hour :: u8
  minute :: u8
  sec :: u8
  usec :: u32

definition MONTH_DAYS :: "nat list" where
  "MONTH_DAYS = [31, 28, 31, 30, 31, 30, 31, 31, 30, 31, 30, 31]"

definition MONTH_DAYS_LEAP_YEAR :: "nat list" where
  "MONTH_DAYS_LEAP_YEAR = [31, 29, 31, 30, 31, 30, 31, 31, 30, 31, 30, 31]"

definition is_leap_year :: "nat \<Rightarrow> bool" where
  "is_leap_year y \<longleftrightarrow> y > 0 \<and> y mod 4 = 0 \<and> (y mod 100 \<noteq> 0 \<or> y mod 400 = 0)"

definition days_in_year :: "nat \<Rightarrow> nat" where
  "days_in_year y = (if is_leap_year y then 366 else 365)"

definition days_per_month :: "nat \<Rightarrow> nat list" where
  "days_per_month y = (if is_leap_year y then MONTH_DAYS_LEAP_YEAR else MONTH_DAYS)"

text \<open>\<open>utc_from_date_time\<close>: 64-bit wrapping arithmetic, truncated to 32 bits at the end.
  The two loops are folds over their ranges.\<close>

definition utc_from_date_time :: "u16 \<Rightarrow> u8 \<Rightarrow> u8 \<Rightarrow> u8 \<Rightarrow> u8 \<Rightarrow> u8 \<Rightarrow> u32" where
  "utc_from_date_time y mo d h mi s =
     (let seconds = (of_int (uint y - 1970) :: u64) * (86400 * 365);
          seconds = fold (\<lambda>k acc. if is_leap_year k then acc + 86400 else acc)
                      [1970..<unat y] seconds;
          leap = is_leap_year (unat y);
          seconds = fold (\<lambda>m acc. acc + 86400 * of_nat (if m = 2 \<and> leap then 29 else MONTH_DAYS ! (m - 1)))
                      [1..<min (unat mo) 13] seconds;
          seconds = seconds + of_int (uint d - 1) * 86400;
          seconds = seconds + ucast h * 3600;
          seconds = seconds + ucast mi * 60;
          seconds = seconds + ucast s
      in ucast seconds)"

text \<open>The year loop wraps the year at 16 bits; the month loop indexes the month table and
  panics past its end.\<close>

function year_loop :: "nat \<Rightarrow> u16 \<Rightarrow> nat \<times> u16" where
  "year_loop days y =
     (if days \<ge> days_in_year (unat y) then year_loop (days - days_in_year (unat y)) (y + 1)
      else (days, y))"
  by pat_completeness auto
termination
  by (relation "measure fst") (auto simp: days_in_year_def split: if_splits)

declare year_loop.simps [simp del]

function month_loop :: "nat list \<Rightarrow> nat \<Rightarrow> nat \<Rightarrow> (nat \<times> nat) option" where
  "month_loop tab days m =
     (case get_at tab (m - 1) of
        None \<Rightarrow> None
      | Some k \<Rightarrow> if days \<ge> k then month_loop tab (days - k) (m + 1) else Some (days, m))"
  by pat_completeness auto
termination
  by (relation "measure (\<lambda>(tab, days, m). Suc (length tab) - m)")
     (auto simp: get_at_def split: if_splits)

declare month_loop.simps [simp del]

definition date_time_from_utc :: "u64 \<Rightarrow> UtcDateTime option" where
  "date_time_from_utc utc_us =
     (let total_secs = unat utc_us div 1000000;
          (days, y) = year_loop (total_secs div 86400) 1970
      in do {
        (days, m) \<leftarrow> month_loop (days_per_month (unat y)) days 1;
        let secs_remaining = total_secs mod 86400;
        Some \<lparr>year = y, month = of_nat m, day = of_nat (days + 1),
              hour = of_nat (secs_remaining div 3600),
              minute = of_nat ((secs_remaining div 60) mod 60),
              sec = of_nat (secs_remaining mod 60),
              usec = of_nat (unat utc_us mod 1000000)\<rparr>
      })"

section \<open>Facts about deadlines and strings\<close>

lemma wf_multicast [simp]: "wf_addr GLOBAL_MULTICAST" "wf_addr LINK_LOCAL_MULTICAST"
  by (simp_all add: wf_addr_def GLOBAL_MULTICAST_def LINK_LOCAL_MULTICAST_def)

lemma time_remaining_within:
  assumes "unat elapsed < 2 ^ 31" and "unat timeout < 2 ^ 31"
  shows "time_remaining start (start + elapsed) timeout =
    (if elapsed \<le> timeout then timeout - elapsed else 0)"
proof -
  have eq: "start + timeout - (start + elapsed) = timeout - elapsed" by simp
  have "(sint (timeout - elapsed) < 0) = (timeout < elapsed)"
  proof (cases "elapsed \<le> timeout")
    case True
    then have "unat (timeout - elapsed) = unat timeout - unat elapsed"
      by (simp add: unat_sub)
    with assms True show ?thesis by (auto simp: sint_neg_iff)
  next
    case False
    then have "unat (timeout - elapsed) = 2 ^ 32 + unat timeout - unat elapsed"
      using unat_sub_if' [of timeout elapsed] by (simp add: word_le_nat_alt)
    with assms False show ?thesis by (auto simp: sint_neg_iff)
  qed
  then show ?thesis by (auto simp: time_remaining_def eq)
qed

lemma bm_strnlen_eq: "bm_strnlen s m = length (takeWhile (\<lambda>b. b \<noteq> 0) (take m s))"
proof -
  let ?pre = "take m s"
  have "length (takeWhile (\<lambda>b. b \<noteq> 0) ?pre) \<le> length ?pre"
    by (rule length_takeWhile_le)
  moreover have "length ?pre = min m (length s)" by simp
  ultimately show ?thesis by (auto simp: bm_strnlen_def Let_def min_def)
qed

section \<open>The wildcard matcher decides a glob semantics\<close>

text \<open>The declarative meaning of a pattern: \<open>*\<close> (42) any run, \<open>?\<close> (63) any one byte.\<close>

fun glob :: "bytes \<Rightarrow> bytes \<Rightarrow> bool" where
  "glob [] s = (s = [])"
| "glob (c # p) s =
     (if c = 42 then \<exists>n\<le>length s. glob p (drop n s)
      else case s of [] \<Rightarrow> False | x # xs \<Rightarrow> (c = 63 \<or> x = c) \<and> glob p xs)"

definition lit :: "u8 \<Rightarrow> u8 \<Rightarrow> bool" where
  "lit c x \<longleftrightarrow> c \<noteq> 42 \<and> (c = 63 \<or> x = c)"

lemma glob_lits: "list_all2 lit q u \<Longrightarrow> glob (q @ p) (u @ s) = glob p s"
  by (induction q u rule: list_all2_induct) (auto simp: lit_def)

lemma glob_lits_iff:
  "42 \<notin> set q \<Longrightarrow> glob (q @ p) s \<longleftrightarrow>
     length q \<le> length s \<and> list_all2 lit q (take (length q) s) \<and> glob p (drop (length q) s)"
proof (induction q arbitrary: s)
  case Nil
  then show ?case by simp
next
  case (Cons c q)
  then show ?case by (cases s) (auto simp: lit_def)
qed

lemma glob_star_absorb:
  assumes "glob (42 # p) (drop m s)" and "i \<le> m"
  shows "glob (42 # p) (drop i s)"
proof -
  from assms(1) obtain n where n: "n \<le> length s - m" "glob p (drop n (drop m s))" by auto
  show ?thesis
  proof (cases "m \<le> length s")
    case True
    have "drop (n + (m - i)) (drop i s) = drop n (drop m s)" using assms(2) by simp
    moreover have "n + (m - i) \<le> length (drop i s)" using n True assms(2) by simp
    ultimately show ?thesis using n(2) by (metis glob.simps(2))
  next
    case False
    then have "drop (length s - i) (drop i s) = drop n (drop m s)" by simp
    then show ?thesis using n(2) by (metis glob.simps(2) le_refl length_drop)
  qed
qed

lemma glob_star_step:
  "glob (42 # p) (drop m s) \<longleftrightarrow> glob p (drop m s) \<or> (m < length s \<and> glob (42 # p) (drop (Suc m) s))"
proof
  assume "glob (42 # p) (drop m s)"
  then obtain n where n: "n \<le> length s - m" "glob p (drop n (drop m s))" by auto
  show "glob p (drop m s) \<or> (m < length s \<and> glob (42 # p) (drop (Suc m) s))"
  proof (cases n)
    case 0
    with n show ?thesis by simp
  next
    case (Suc k)
    with n have "k \<le> length (drop (Suc m) s)" "glob p (drop k (drop (Suc m) s))" by simp_all
    with Suc n(1) show ?thesis by auto
  qed
next
  assume "glob p (drop m s) \<or> (m < length s \<and> glob (42 # p) (drop (Suc m) s))"
  then show "glob (42 # p) (drop m s)"
  proof
    assume "glob p (drop m s)"
    then show ?thesis by (metis drop0 glob.simps(2) le0)
  next
    assume "m < length s \<and> glob (42 # p) (drop (Suc m) s)"
    then show ?thesis using glob_star_absorb [of p "Suc m" s m] by simp
  qed
qed

lemma skip_stars_glob: "j \<le> length p \<Longrightarrow> skip_stars p j = length p \<longleftrightarrow> glob (drop j p) []"
proof (induction p j rule: skip_stars.induct)
  case (1 p j)
  show ?case
  proof (cases "j < length p")
    case True
    then have d: "drop j p = p ! j # drop (Suc j) p" by (simp add: Cons_nth_drop_Suc)
    with True 1 show ?thesis
      by (cases "p ! j = 42") (auto simp: skip_stars.simps [of p j])
  next
    case False
    with 1 show ?thesis by (simp add: skip_stars.simps)
  qed
qed

text \<open>The loop invariant. Before the first star the two indices advance together; after it,
  the pattern from the star on decides the string from \<open>w_match\<close> on, and the bytes between
  have been matched one by one.\<close>

definition wild_inv :: "bytes \<Rightarrow> bytes \<Rightarrow> wild \<Rightarrow> bool" where
  "wild_inv s p w \<longleftrightarrow> w_i w \<le> length s \<and> w_j w \<le> length p \<and>
     (case w_star w of
        None \<Rightarrow> w_i w = w_j w \<and> list_all2 lit (take (w_j w) p) (take (w_i w) s)
      | Some k \<Rightarrow> p ! k = 42 \<and> k < w_j w \<and> w_match w \<le> w_i w \<and>
          w_j w - Suc k = w_i w - w_match w \<and>
          list_all2 lit (subslice p (Suc k) (w_j w - Suc k)) (subslice s (w_match w) (w_i w - w_match w)) \<and>
          glob p s = glob (drop k p) (drop (w_match w) s))"

lemma list_all2_slice_snoc:
  assumes "list_all2 P (subslice p a n) (subslice s b n)" "P (p ! (a + n)) (s ! (b + n))"
    "a + n < length p" "b + n < length s"
  shows "list_all2 P (subslice p a (Suc n)) (subslice s b (Suc n))"
  using assms by (auto simp: list_all2_conv_all_nth less_Suc_eq)

lemma list_all2_take_snoc:
  assumes "list_all2 P (take n p) (take n s)" "P (p ! n) (s ! n)" "n < length p" "n < length s"
  shows "list_all2 P (take (Suc n) p) (take (Suc n) s)"
  using assms by (simp add: take_Suc_conv_app_nth list_all2_appendI)

lemma wild_inv_None_glob:
  assumes "wild_inv s p w" "w_star w = None"
  shows "glob p s = glob (drop (w_j w) p) (drop (w_i w) s)"
proof -
  from assms have "list_all2 lit (take (w_j w) p) (take (w_i w) s)"
    by (auto simp: wild_inv_def)
  from glob_lits [OF this, of "drop (w_j w) p" "drop (w_i w) s"] show ?thesis by simp
qed

lemma wild_inv_Some_split:
  assumes "wild_inv s p w" "w_star w = Some k"
  defines "q \<equiv> subslice p (Suc k) (w_j w - Suc k)"
  shows "drop k p = 42 # q @ drop (w_j w) p"
    and "list_all2 lit q (subslice s (w_match w) (w_i w - w_match w))"
    and "42 \<notin> set q"
    and "drop (w_match w) s = subslice s (w_match w) (w_i w - w_match w) @ drop (w_i w) s"
    and "length q = w_i w - w_match w"
proof -
  from assms have I: "p ! k = 42" "k < w_j w" "w_match w \<le> w_i w" "w_i w \<le> length s"
    "w_j w \<le> length p" "w_j w - Suc k = w_i w - w_match w"
    and la: "list_all2 lit q (subslice s (w_match w) (w_i w - w_match w))"
    by (auto simp: wild_inv_def)
  have "drop (Suc k) p = q @ drop (w_j w) p"
    using I drop_split_at [of "Suc k" "w_j w" p] by (simp add: q_def)
  with I show "drop k p = 42 # q @ drop (w_j w) p"
    by (metis Cons_nth_drop_Suc order.strict_trans2)
  show "list_all2 lit q (subslice s (w_match w) (w_i w - w_match w))" by (rule la)
  then show "42 \<notin> set q"
    by (auto simp: list_all2_conv_all_nth in_set_conv_nth lit_def)
  show "drop (w_match w) s = subslice s (w_match w) (w_i w - w_match w) @ drop (w_i w) s"
    using I drop_split_at [of "w_match w" "w_i w" s] by simp
  show "length q = w_i w - w_match w" using I by (simp add: q_def)
qed

text \<open>The three kinds of step keep the invariant: a byte matched, a new star, a resumption of
  the last star one byte further on.\<close>

lemma wild_inv_lit:
  assumes inv: "wild_inv s p w" and run: "w_i w < length s" and j: "w_j w < length p"
    and l: "lit (p ! w_j w) (s ! w_i w)"
  shows "wild_inv s p (w\<lparr>w_i := w_i w + 1, w_j := w_j w + 1\<rparr>)"
proof (cases "w_star w")
  case None
  with inv l j run show ?thesis
    by (auto simp: wild_inv_def intro!: list_all2_take_snoc)
next
  case (Some k)
  let ?i = "w_i w" and ?j = "w_j w"
  from Some inv have I: "k < ?j" "w_match w \<le> ?i" "?j - Suc k = ?i - w_match w"
    "list_all2 lit (subslice p (Suc k) (?i - w_match w)) (subslice s (w_match w) (?i - w_match w))"
    by (auto simp: wild_inv_def)
  have "Suc k + (?i - w_match w) = ?j" "w_match w + (?i - w_match w) = ?i" using I by simp_all
  then have "list_all2 lit (subslice p (Suc k) (Suc (?i - w_match w)))
      (subslice s (w_match w) (Suc (?i - w_match w)))"
    using I(4) l j run by (intro list_all2_slice_snoc) simp_all
  moreover have "?j - k = Suc (?i - w_match w)" using I by simp
  ultimately show ?thesis using inv Some j run I
    by (auto simp: wild_inv_def Suc_diff_le)
qed

lemma wild_inv_glob_here:
  assumes inv: "wild_inv s p w" and star: "w_j w < length p" "p ! w_j w = 42"
  shows "glob p s = glob (drop (w_j w) p) (drop (w_i w) s)"
proof (cases "w_star w")
  case None
  with inv show ?thesis by (rule wild_inv_None_glob)
next
  case (Some k)
  let ?i = "w_i w" and ?j = "w_j w"
  note sp = wild_inv_Some_split [OF inv Some]
  let ?q = "subslice p (Suc k) (?j - Suc k)"
  have dj: "drop ?j p = 42 # drop (Suc ?j) p" using star by (metis Cons_nth_drop_Suc)
  from inv Some have mi: "w_match w \<le> ?i" and g: "glob p s = glob (drop k p) (drop (w_match w) s)"
    by (auto simp: wild_inv_def)
  have "glob (42 # ?q @ drop ?j p) (drop (w_match w) s) \<longleftrightarrow> glob (drop ?j p) (drop ?i s)"
  proof
    assume "glob (drop ?j p) (drop ?i s)"
    then have "glob (?q @ drop ?j p) (drop (w_match w) s)"
      using glob_lits [OF sp(2)] sp(4) by metis
    then show "glob (42 # ?q @ drop ?j p) (drop (w_match w) s)"
      by (subst glob_star_step) simp
  next
    assume "glob (42 # ?q @ drop ?j p) (drop (w_match w) s)"
    then obtain n where "glob (?q @ drop ?j p) (drop n (drop (w_match w) s))" by auto
    then have "glob (drop ?j p) (drop (length ?q) (drop n (drop (w_match w) s)))"
      using glob_lits_iff [OF sp(3)] by blast
    then have "glob (42 # drop (Suc ?j) p) (drop (n + ?i) s)"
      using sp(5) mi dj by (simp add: algebra_simps)
    then show "glob (drop ?j p) (drop ?i s)"
      using dj glob_star_absorb by (metis le_add2)
  qed
  then show ?thesis using g sp(1) by simp
qed

lemma wild_inv_resume:
  assumes inv: "wild_inv s p w" and run: "w_i w < length s" and Some: "w_star w = Some k"
    and nolit: "\<not> (w_j w < length p \<and> (p ! w_j w = 63 \<or> s ! w_i w = p ! w_j w))"
    and nostar: "\<not> (w_j w < length p \<and> p ! w_j w = 42)"
  shows "wild_inv s p (w\<lparr>w_j := k + 1, w_match := w_match w + 1, w_i := w_match w + 1\<rparr>)"
proof -
  let ?i = "w_i w" and ?j = "w_j w"
  note sp = wild_inv_Some_split [OF inv Some]
  let ?q = "subslice p (Suc k) (?j - Suc k)"
  from inv Some have I: "w_match w \<le> ?i" "k < ?j" "?j \<le> length p" "p ! k = 42"
    and g: "glob p s = glob (drop k p) (drop (w_match w) s)"
    by (auto simp: wild_inv_def)
  have "\<not> glob (drop ?j p) (drop ?i s)"
  proof (cases "?j < length p")
    case True
    then have "drop ?j p = p ! ?j # drop (Suc ?j) p" "drop ?i s = s ! ?i # drop (Suc ?i) s"
      using run by (simp_all add: Cons_nth_drop_Suc)
    with True nolit nostar show ?thesis by auto
  next
    case False
    with run show ?thesis by simp
  qed
  then have "\<not> glob (?q @ drop ?j p) (drop (w_match w) s)"
    using glob_lits [OF sp(2)] sp(4) by metis
  then have "glob (42 # ?q @ drop ?j p) (drop (w_match w) s) =
      glob (42 # ?q @ drop ?j p) (drop (Suc (w_match w)) s)"
    using glob_star_step I run by (metis order.strict_trans1)
  with g sp(1) have "glob p s = glob (drop k p) (drop (Suc (w_match w)) s)" by simp
  with I run Some show ?thesis by (auto simp: wild_inv_def)
qed

lemma wild_step_inv:
  assumes inv: "wild_inv s p w" and run: "w_i w < length s" and nostar: "42 \<notin> set s"
    and step: "wild_step s p w = Some w'"
  shows "wild_inv s p w'"
proof -
  have si: "s ! w_i w \<noteq> 42" using run nostar by (metis nth_mem)
  consider (byte) "w_j w < length p" "p ! w_j w = 63 \<or> s ! w_i w = p ! w_j w"
      "w' = w\<lparr>w_i := w_i w + 1, w_j := w_j w + 1\<rparr>"
    | (star) "w_j w < length p" "p ! w_j w = 42"
        "w' = w\<lparr>w_star := Some (w_j w), w_j := w_j w + 1, w_match := w_i w\<rparr>"
    | (resume) k where "w_star w = Some k"
        "\<not> (w_j w < length p \<and> (p ! w_j w = 63 \<or> s ! w_i w = p ! w_j w))"
        "\<not> (w_j w < length p \<and> p ! w_j w = 42)"
        "w' = w\<lparr>w_j := k + 1, w_match := w_match w + 1, w_i := w_match w + 1\<rparr>"
    using step by (auto simp: wild_step_def Let_def split: if_splits option.splits)
  then show ?thesis
  proof cases
    case byte
    then have "lit (p ! w_j w) (s ! w_i w)" using si by (auto simp: lit_def)
    with byte show ?thesis using wild_inv_lit [OF inv run] by simp
  next
    case star
    with wild_inv_glob_here [OF inv] inv run show ?thesis by (auto simp: wild_inv_def)
  next
    case (resume k)
    then show ?thesis using wild_inv_resume [OF inv run] by simp
  qed
qed

lemma wild_loop_result:
  assumes nostar: "42 \<notin> set s"
  obtains w where "wild_loop s p \<lparr>w_star = None, w_match = 0, w_i = 0, w_j = 0\<rparr> = Some w"
    and "wild_inv s p w" and "w_i w = length s \<or> wild_step s p w = None"
proof -
  let ?b = "\<lambda>(w, running). running \<and> w_i w < length s"
  let ?c = "\<lambda>(w, running). case wild_step s p w of Some w' \<Rightarrow> (w', True) | None \<Rightarrow> (w, False)"
  let ?w0 = "\<lparr>w_star = None, w_match = 0, w_i = 0, w_j = 0\<rparr>"
  let ?P = "\<lambda>(w, running). wild_inv s p w \<and> (\<not> running \<longrightarrow> wild_step s p w = None)"
  let ?stars = "\<lambda>(w, r). case w_star w of None \<Rightarrow> Suc (length p) | Some k \<Rightarrow> length p - k"
  let ?ms = "[?stars, \<lambda>(w, r). length s - w_match w, \<lambda>(w, r). length s - w_i w, \<lambda>(w, r). if r then 1 else 0]"
  have P0: "?P (?w0, True)" by (simp add: wild_inv_def)
  have Pc: "?P (?c x)" if "?P x" "?b x" for x
    using that wild_step_inv [OF _ _ nostar] by (auto split: option.splits prod.splits)
  have "{(t, x). (?P x \<and> ?b x) \<and> t = ?c x} \<subseteq> measures ?ms"
    by (auto simp: wild_step_def Let_def wild_inv_def split: if_splits option.splits)
  then have "wf {(t, x). (?P x \<and> ?b x) \<and> t = ?c x}"
    by (rule wf_subset [OF wf_measures])
  from wf_while_option_Some [OF this Pc P0] obtain w r
    where t: "while_option ?b ?c (?w0, True) = Some (w, r)" by force
  have "?P (w, r)" using while_option_rule [where P = ?P, OF _ t P0] Pc by blast
  moreover have "\<not> ?b (w, r)" using while_option_stop [OF t] .
  moreover have "wild_loop s p ?w0 = Some w" using t by (simp add: wild_loop_def)
  ultimately have "wild_inv s p w" "w_i w = length s \<or> wild_step s p w = None"
    "wild_loop s p ?w0 = Some w"
    by (auto simp: wild_inv_def)
  then show ?thesis by (rule that(1) [rotated])
qed

lemma glob_no_star: "42 \<notin> set p \<Longrightarrow> glob p s \<longleftrightarrow> list_all2 lit p s"
  using glob_lits_iff [of p "[]" s] by (auto simp: list_all2_conv_all_nth)

lemma skip_stars_end [simp]: "skip_stars p (length p) = length p"
  by (simp add: skip_stars.simps [of p "length p"])

lemma wild_end_None:
  assumes inv: "wild_inv s p w" and None: "w_star w = None"
    and fin: "w_i w = length s \<or> wild_step s p w = None"
  shows "skip_stars p (w_j w) = length p \<longleftrightarrow>
    glob p s \<or> (42 \<notin> set p \<and> (\<exists>n\<le>length s. glob p (take n s)))"
proof -
  let ?j = "w_j w"
  from inv None have ij: "w_i w = ?j" and js: "?j \<le> length s" and jp: "?j \<le> length p"
    and la: "list_all2 lit (take ?j p) (take ?j s)"
    by (auto simp: wild_inv_def)
  have g: "glob p s = glob (drop ?j p) (drop ?j s)"
    using wild_inv_None_glob [OF inv None] ij by simp
  have lits: "lit (p ! i) (s ! i)" if "i < ?j" for i
    using la that jp js by (auto simp: list_all2_conv_all_nth)
  consider (all) "?j = length s" | (out) "?j < length s" "?j = length p"
    | (clash) "?j < length s" "?j < length p" "\<not> lit (p ! ?j) (s ! ?j)" "p ! ?j \<noteq> 42"
    using fin None ij js [unfolded le_less] jp [unfolded le_less]
    by (auto simp: wild_step_def Let_def lit_def split: if_splits)
  then show ?thesis
  proof cases
    case all
    have "glob p s" if "42 \<notin> set p" "n \<le> length s" "glob p (take n s)" for n
    proof -
      have "length p \<le> length s"
        using that glob_no_star [of p "take n s"] by (auto dest!: list_all2_lengthD)
      with all jp have "take ?j p = p" "take ?j s = s" by simp_all
      with la that(1) show ?thesis by (simp add: glob_no_star)
    qed
    then show ?thesis using skip_stars_glob [OF jp] g all by auto
  next
    case out
    with lits have "42 \<notin> set p" by (auto simp: lit_def in_set_conv_nth)
    moreover from this have "glob p (take ?j s)"
      using la out glob_no_star [of p] by simp
    ultimately show ?thesis using out js by auto
  next
    case clash
    then have "drop ?j p = p ! ?j # drop (Suc ?j) p" "drop ?j s = s ! ?j # drop (Suc ?j) s"
      by (simp_all add: Cons_nth_drop_Suc)
    then have "\<not> glob p s" using clash g by (auto simp: lit_def)
    moreover have "\<not> glob p (take n s)" if "42 \<notin> set p" for n
      using that clash glob_no_star [of p] by (auto simp: list_all2_conv_all_nth)
    ultimately show ?thesis using clash by (auto simp: skip_stars.simps [of p ?j])
  qed
qed

lemma wild_end_Some:
  assumes inv: "wild_inv s p w" and Some: "w_star w = Some k" and fin: "w_i w = length s"
  shows "skip_stars p (w_j w) = length p \<longleftrightarrow> glob p s"
proof -
  let ?j = "w_j w" and ?m = "w_match w"
  note sp = wild_inv_Some_split [OF inv Some]
  let ?q = "subslice p (Suc k) (?j - Suc k)"
  from inv Some have mi: "?m \<le> w_i w" and jp: "?j \<le> length p"
    and g: "glob p s = glob (drop k p) (drop ?m s)" by (auto simp: wild_inv_def)
  have "glob (42 # ?q @ drop ?j p) (drop ?m s) \<longleftrightarrow> glob (drop ?j p) []"
  proof
    assume "glob (drop ?j p) []"
    then have "glob (?q @ drop ?j p) (drop ?m s)"
      using glob_lits [OF sp(2), of "drop ?j p" "[]"] sp(4) fin by simp
    then show "glob (42 # ?q @ drop ?j p) (drop ?m s)" by (subst glob_star_step) simp
  next
    assume "glob (42 # ?q @ drop ?j p) (drop ?m s)"
    then obtain n where "glob (?q @ drop ?j p) (drop n (drop ?m s))" by auto
    then have "length ?q \<le> length (drop n (drop ?m s))"
      and "glob (drop ?j p) (drop (length ?q) (drop n (drop ?m s)))"
      using glob_lits_iff [OF sp(3)] by blast+
    then show "glob (drop ?j p) []" using sp(5) fin mi by simp
  qed
  then show ?thesis using g sp(1) skip_stars_glob [OF jp] by simp
qed

lemma bm_wildcard_match_spec:
  assumes "42 \<notin> set s"
  shows "bm_wildcard_match s p =
    Some (glob p s \<or> (42 \<notin> set p \<and> (\<exists>n\<le>length s. glob p (take n s))))"
proof -
  obtain w where w: "wild_loop s p \<lparr>w_star = None, w_match = 0, w_i = 0, w_j = 0\<rparr> = Some w"
    and inv: "wild_inv s p w" and fin: "w_i w = length s \<or> wild_step s p w = None"
    using wild_loop_result [OF assms] .
  show ?thesis
  proof (cases "w_star w")
    case None
    with wild_end_None [OF inv None fin] w show ?thesis by (simp add: bm_wildcard_match_def)
  next
    case (Some k)
    then have "wild_step s p w \<noteq> None" by (simp add: wild_step_def Let_def)
    with fin have "w_i w = length s" by simp
    moreover have "42 \<in> set p"
      using wild_inv_Some_split(1) [OF inv Some] by (metis in_set_dropD list.set_intros(1))
    ultimately show ?thesis
      using wild_end_Some [OF inv Some] w by (simp add: bm_wildcard_match_def)
  qed
qed

section \<open>Breaking a timestamp down and putting it together\<close>

lemma year_loop_bound: "fst (year_loop days y) < days_in_year (unat (snd (year_loop days y)))"
proof (induction days y rule: year_loop.induct)
  case (1 days y)
  then show ?case by (subst (1 2) year_loop.simps) (auto simp: not_le)
qed

lemma year_loop_sum:
  assumes "unat y + days div 365 < 2 ^ 16" and "year_loop days y = (d, y')"
  shows "unat y \<le> unat y' \<and> days = (\<Sum>k = unat y..<unat y'. days_in_year k) + d"
  using assms
proof (induction days y arbitrary: d y' rule: year_loop.induct)
  case (1 days y)
  show ?case
  proof (cases "days_in_year (unat y) \<le> days")
    case True
    then have d365: "365 \<le> days" by (auto simp: days_in_year_def split: if_splits)
    have Suc: "unat (y + 1) = Suc (unat y)"
    proof -
      have "unat y + 1 < 2 ^ 16" using 1(2) d365 by linarith
      then show ?thesis by (simp add: unat_word_ariths)
    qed
    have "unat (y + 1) + (days - days_in_year (unat y)) div 365 < 2 ^ 16"
    proof -
      have "(days - days_in_year (unat y)) div 365 \<le> (days - 365) div 365"
        by (rule div_le_mono) (auto simp: days_in_year_def)
      also have "\<dots> = days div 365 - 1" using d365 by (simp add: le_div_geq)
      finally show ?thesis using 1(2) Suc d365 by simp
    qed
    moreover from True 1(3) have "year_loop (days - days_in_year (unat y)) (y + 1) = (d, y')"
      by (simp add: year_loop.simps [of days y])
    ultimately have "Suc (unat y) \<le> unat y' \<and>
        days - days_in_year (unat y) = (\<Sum>k = Suc (unat y)..<unat y'. days_in_year k) + d"
      using 1(1) [OF True] Suc by simp
    with True show ?thesis by (auto simp: sum.atLeast_Suc_lessThan)
  next
    case False
    with 1(3) show ?thesis by (simp add: year_loop.simps [of days y])
  qed
qed

lemma month_loop_spec:
  "0 < m \<Longrightarrow> m \<le> length tab \<Longrightarrow> days < sum_list (drop (m - 1) tab) \<Longrightarrow>
   \<exists>d m'. month_loop tab days m = Some (d, m') \<and> m \<le> m' \<and> m' \<le> length tab \<and> d < tab ! (m' - 1) \<and>
     days = sum_list (subslice tab (m - 1) (m' - m)) + d"
proof (induction tab days m rule: month_loop.induct)
  case (1 tab days m)
  from 1(2,3) have g: "get_at tab (m - 1) = Some (tab ! (m - 1))" by (simp add: get_at_def)
  have d: "drop (m - 1) tab = tab ! (m - 1) # drop m tab"
    using 1(2,3) Cons_nth_drop_Suc [of "m - 1" tab] by simp
  show ?case
  proof (cases "tab ! (m - 1) \<le> days")
    case True
    with 1(4) d have rest: "days - tab ! (m - 1) < sum_list (drop m tab)" by simp
    then have "m + 1 \<le> length tab" by (cases "m < length tab") auto
    with 1(1) [OF g True] rest obtain e m' where
      e: "month_loop tab (days - tab ! (m - 1)) (m + 1) = Some (e, m')" "m + 1 \<le> m'"
        "m' \<le> length tab" "e < tab ! (m' - 1)"
        "days - tab ! (m - 1) = sum_list (subslice tab m (m' - (m + 1))) + e"
      by auto
    have "subslice tab (m - 1) (m' - m) = tab ! (m - 1) # subslice tab m (m' - (m + 1))"
      using d e(2) by (simp add: subslice_def take_Cons' Suc_diff_Suc)
    with e True g show ?thesis by (auto simp: month_loop.simps [of tab days m])
  next
    case False
    with g 1(2,3) show ?thesis by (auto simp: month_loop.simps [of tab days m])
  qed
qed

lemma sum_list_days_per_month: "sum_list (days_per_month y) = days_in_year y"
  by (simp add: days_per_month_def days_in_year_def MONTH_DAYS_def MONTH_DAYS_LEAP_YEAR_def)

lemma length_days_per_month [simp]: "length (days_per_month y) = 12"
  by (simp add: days_per_month_def MONTH_DAYS_def MONTH_DAYS_LEAP_YEAR_def)

lemma date_time_from_utc_fields:
  obtains d m where
    "date_time_from_utc t = Some
       \<lparr>year = snd (year_loop (unat t div 1000000 div 86400) 1970), month = of_nat m,
        day = of_nat (d + 1),
        hour = of_nat (unat t div 1000000 mod 86400 div 3600),
        minute = of_nat (unat t div 1000000 mod 86400 div 60 mod 60),
        sec = of_nat (unat t div 1000000 mod 86400 mod 60),
        usec = of_nat (unat t mod 1000000)\<rparr>"
    and "1 \<le> m" "m \<le> 12" "d < 31"
    and "fst (year_loop (unat t div 1000000 div 86400) 1970) =
      sum_list (take (m - 1) (days_per_month (unat (snd (year_loop (unat t div 1000000 div 86400) 1970))))) + d"
proof -
  obtain days y where yl: "year_loop (unat t div 1000000 div 86400) 1970 = (days, y)" by force
  let ?tab = "days_per_month (unat y)"
  have "days < sum_list (drop (1 - 1) ?tab)"
    using year_loop_bound [of "unat t div 1000000 div 86400" 1970] yl
    by (simp add: sum_list_days_per_month)
  then obtain d m where m: "month_loop ?tab days 1 = Some (d, m)" "1 \<le> m" "m \<le> 12"
    "d < ?tab ! (m - 1)" "days = sum_list (subslice ?tab 0 (m - 1)) + d"
    using month_loop_spec [of 1 ?tab days] by auto
  have "?tab ! (m - 1) \<le> 31"
  proof -
    have "list_all (\<lambda>k. k \<le> 31) ?tab"
      by (simp add: days_per_month_def MONTH_DAYS_def MONTH_DAYS_LEAP_YEAR_def)
    then show ?thesis using m(2,3) by (simp add: list_all_length)
  qed
  with m(4) have "d < 31" by simp
  with m yl show ?thesis
    by (intro that [of m d]) (simp_all add: date_time_from_utc_def subslice_def Let_def)
qed

lemma fold_leap_days:
  "fold (\<lambda>k acc. if is_leap_year k then acc + 86400 else acc) ks (a :: u64) =
   a + 86400 * of_nat (length (filter is_leap_year ks))"
  by (induction ks arbitrary: a) (simp_all add: algebra_simps)

lemma fold_add_days:
  "fold (\<lambda>k acc. acc + 86400 * of_nat (f k)) ks (a :: u64) = a + 86400 * of_nat (sum_list (map f ks))"
  by (induction ks arbitrary: a) (simp_all add: algebra_simps)

lemma sum_days_in_year:
  "n \<le> m \<Longrightarrow> (\<Sum>k = n..<m. days_in_year k) = 365 * (m - n) + length (filter is_leap_year [n..<m])"
  by (induction m rule: dec_induct) (simp_all add: days_in_year_def Suc_diff_le)

lemma days_per_month_nth:
  "1 \<le> m \<Longrightarrow> m \<le> 12 \<Longrightarrow>
   (if m = 2 \<and> is_leap_year y then 29 else MONTH_DAYS ! (m - 1)) = days_per_month y ! (m - 1)"
proof -
  assume "1 \<le> m" "m \<le> 12"
  then have "m \<in> set [1..<13]" by simp
  moreover have "\<forall>m \<in> set [1..<13].
      (if m = 2 \<and> is_leap_year y then 29 else MONTH_DAYS ! (m - 1)) = days_per_month y ! (m - 1)"
    by (simp add: upt_rec days_per_month_def MONTH_DAYS_def MONTH_DAYS_LEAP_YEAR_def)
  ultimately show ?thesis by blast
qed

lemma month_days_take:
  assumes "1 \<le> m" "m \<le> 12"
  shows "map (\<lambda>k. if k = 2 \<and> is_leap_year y then 29 else MONTH_DAYS ! (k - 1)) [1..<m] =
    take (m - 1) (days_per_month y)"
proof (rule nth_equalityI)
  fix i assume "i < length (map (\<lambda>k. if k = 2 \<and> is_leap_year y then 29 else MONTH_DAYS ! (k - 1)) [1..<m])"
  then have i: "i < m - 1" by simp
  then show "map (\<lambda>k. if k = 2 \<and> is_leap_year y then 29 else MONTH_DAYS ! (k - 1)) [1..<m] ! i =
      take (m - 1) (days_per_month y) ! i"
    using days_per_month_nth [of "i + 1" y] assms by (auto split: if_splits)
qed (use assms in simp)

lemma year_loop_utc:
  assumes "n < 2 ^ 32" and "year_loop (n div 86400) 1970 = (d, y)"
  shows "1970 \<le> unat y" and
    "n div 86400 = 365 * (unat y - 1970) + length (filter is_leap_year [1970..<unat y]) + d"
proof -
  have "unat (1970 :: u16) = 1970" by simp
  moreover have "n div 86400 div 365 < 60000" using assms(1) by simp
  ultimately have "unat (1970 :: u16) + n div 86400 div 365 < 2 ^ 16" by simp
  from year_loop_sum [OF this assms(2)]
  show le: "1970 \<le> unat y" and
    "n div 86400 = 365 * (unat y - 1970) + length (filter is_leap_year [1970..<unat y]) + d"
    using sum_days_in_year [of 1970 "unat y"] by simp_all
qed

lemma ucast_of_nat_u64_u32: "ucast (of_nat n :: u64) = (of_nat n :: u32)"
  by (rule word_unat_eq_iff [THEN iffD2]) (simp add: unsigned_of_nat unsigned_ucast_eq)

lemma utc_from_date_time_value:
  assumes "1970 \<le> unat y" "1 \<le> m" "m \<le> 12" "d < 31" "h < 24" "mi < 60" "s < 60"
  shows "utc_from_date_time y (of_nat m) (of_nat (d + 1)) (of_nat h) (of_nat mi) (of_nat s) =
    of_nat (86400 * (365 * (unat y - 1970) + length (filter is_leap_year [1970..<unat y]) +
      (sum_list (take (m - 1) (days_per_month (unat y))) + d)) + 3600 * h + 60 * mi + s)"
proof -
  have y: "(of_int (uint y - 1970) :: u64) = of_nat (unat y - 1970)"
    using assms(1) by (simp add: of_nat_diff)
  have m: "min (unat (of_nat m :: u8)) 13 = m" using assms(3) by (simp add: unat_of_nat)
  have c: "(ucast (of_nat k :: u8) :: u64) = of_nat k" if "k < 60" for k
    using that by (intro word_unat_eq_iff [THEN iffD2]) (simp add: unsigned_of_nat unsigned_ucast_eq take_bit_nat_eq_self)
  have "(of_int (uint (of_nat (d + 1) :: u8) - 1) :: u64) = ucast (of_nat (d + 1) :: u8) - 1"
    by (simp only: of_int_diff of_int_uint of_int_1)
  then have d: "(of_int (uint (of_nat (d + 1) :: u8) - 1) :: u64) = of_nat d"
    using c [of "d + 1"] assms(4) by simp
  have h: "h < 60" using assms(5) by simp
  obtain k where k: "unat y - 1970 = k" by simp
  show ?thesis
    unfolding utc_from_date_time_def Let_def y m d k fold_leap_days fold_add_days
      month_days_take [OF assms(2,3)] c [OF h] c [OF assms(6)] c [OF assms(7)]
    by (simp add: algebra_simps flip: ucast_of_nat_u64_u32)
qed

lemma date_time_from_utc_undo:
  assumes "unat t div 1000000 < 2 ^ 32" and "date_time_from_utc t = Some dt"
  shows "utc_from_date_time (year dt) (month dt) (day dt) (hour dt) (minute dt) (sec dt) =
      of_nat (unat t div 1000000) \<and> unat (usec dt) = unat t mod 1000000"
proof -
  let ?n = "unat t div 1000000"
  obtain r y where yl: "year_loop (?n div 86400) 1970 = (r, y)" by force
  obtain d m where dt: "dt = \<lparr>year = y, month = of_nat m, day = of_nat (d + 1),
        hour = of_nat (?n mod 86400 div 3600), minute = of_nat (?n mod 86400 div 60 mod 60),
        sec = of_nat (?n mod 86400 mod 60), usec = of_nat (unat t mod 1000000)\<rparr>"
    and md: "1 \<le> m" "m \<le> 12" "d < 31"
    and r: "r = sum_list (take (m - 1) (days_per_month (unat y))) + d"
    using date_time_from_utc_fields [of t] assms(2) yl by (metis fst_conv snd_conv option.inject)
  note yr = year_loop_utc [OF assms(1) yl]
  let ?k = "?n mod 86400"
  have b: "?k div 3600 < 24" "?k div 60 mod 60 < 60" "?k mod 60 < 60" by auto
  have "utc_from_date_time y (of_nat m) (of_nat (d + 1)) (of_nat (?k div 3600))
      (of_nat (?k div 60 mod 60)) (of_nat (?k mod 60)) =
    of_nat (86400 * (?n div 86400) + 3600 * (?k div 3600) + 60 * (?k div 60 mod 60) + ?k mod 60)"
    using utc_from_date_time_value [OF yr(1) md b] yr(2) r by simp
  also have "86400 * (?n div 86400) + 3600 * (?k div 3600) + 60 * (?k div 60 mod 60) + ?k mod 60 = ?n"
  proof -
    have "?k div 3600 = ?k div 60 div 60" by (simp add: div_mult2_eq [symmetric])
    then have "3600 * (?k div 3600) + 60 * (?k div 60 mod 60) + ?k mod 60 = ?k"
      using div_mult_mod_eq [of ?k 60] div_mult_mod_eq [of "?k div 60" 60] by linarith
    then show ?thesis using div_mult_mod_eq [of ?n 86400] by linarith
  qed
  finally show ?thesis
    by (simp add: dt unat_of_nat)
qed

section \<open>Properties\<close>

text \<open>\<open>date_time_from_utc\<close> never panics (the month loop stays inside its table) and,
  for every timestamp whose seconds fit the 32-bit result, \<open>utc_from_date_time\<close> of the
  broken-down fields is the number of whole seconds again, the microseconds being kept apart.\<close>

theorem utc_roundtrip:
  assumes "unat t div 1000000 < 2 ^ 32"
  shows "\<exists>dt. date_time_from_utc t = Some dt \<and>
    utc_from_date_time (year dt) (month dt) (day dt) (hour dt) (minute dt) (sec dt) =
      of_nat (unat t div 1000000) \<and> unat (usec dt) = unat t mod 1000000"
  using date_time_from_utc_undo [OF assms] date_time_from_utc_fields [of t] by metis

theorem utc_roundtrip_witness:
  "\<exists>dt. date_time_from_utc 951868800000001 = Some dt \<and>
    utc_from_date_time (year dt) (month dt) (day dt) (hour dt) (minute dt) (sec dt) =
      951868800 \<and> unat (usec dt) = 1"
  using utc_roundtrip [of 951868800000001] by simp

text \<open>Property C38. \<open>bm_wildcard_match\<close> always terminates on a string without a star byte, and
  answers by the glob semantics (a question mark for one byte, a star for any run), except
  that a pattern without a star matches a prefix of the string.\<close>

theorem wildcard_match_correct:
  assumes "42 \<notin> set s"
  shows "bm_wildcard_match s p =
    Some (glob p s \<or> (42 \<notin> set p \<and> (\<exists>n\<le>length s. glob p (take n s))))"
  by (rule bm_wildcard_match_spec [OF assms])

theorem wildcard_match_correct_witness:
  "bm_wildcard_match [1, 2, 3, 4] [1, 42, 63, 4] =
    Some (glob [1, 42, 63, 4] [1, 2, 3, 4] \<or> (42 \<notin> set [1, 42, 63, 4 :: u8] \<and>
      (\<exists>n\<le>length [1, 2, 3, 4 :: u8]. glob [1, 42, 63, 4] (take n [1, 2, 3, 4]))))"
  by (rule wildcard_match_correct) simp

text \<open>A deadline is read correctly across the wrap of the 32-bit clock: while less than
  half the clock's range has elapsed since \<open>start\<close> and the timeout is below half the range,
  \<open>time_remaining\<close> is exactly what is left of the timeout, and 0 once it has passed.\<close>

theorem time_remaining_wraps:
  assumes "unat elapsed < 2 ^ 31" and "unat timeout < 2 ^ 31"
  shows "time_remaining start (start + elapsed) timeout =
    (if elapsed \<le> timeout then timeout - elapsed else 0)"
  by (rule time_remaining_within [OF assms])

theorem time_remaining_wraps_witness:
  "time_remaining 0xFFFFFFF0 (0xFFFFFFF0 + 0x20) 0x30 = 0x10 \<and>
   time_remaining 0xFFFFFFF0 (0xFFFFFFF0 + 0x50) 0x30 = 0"
  using time_remaining_wraps [where start = "0xFFFFFFF0" and elapsed = "0x20" and timeout = "0x30"]
    time_remaining_wraps [where start = "0xFFFFFFF0" and elapsed = "0x50" and timeout = "0x30"]
  by simp

end
