(* ===== verification/Crc.thy ===== *)
theory Crc
  imports BM_Prelude
begin

text \<open>
  \<open>bm-wire/src/crc.rs\<close>: the reflected CRC-16/CCITT that a DFU transfer accumulates chunk
  by chunk, and the nibble-table CRC-32/IEEE of the image and configuration records. Both
  optimised routines are proved equal to the bit-serial definition of the CRC (one shift
  per message bit, the reflected polynomial added when the bit shifted out is set), for
  every seed and message, and both chain across chunk boundaries.
\<close>

section \<open>The routines\<close>

definition crc16_step :: "u8 \<Rightarrow> u16 \<Rightarrow> u16" where
  "crc16_step byte crc =
     (let e = (ucast (crc XOR ucast byte) :: u8);
          f = (ucast (e XOR push_bit 4 e) :: u16)
      in drop_bit 8 crc XOR push_bit 8 f XOR push_bit 3 f XOR drop_bit 4 f)"

definition crc16_ccitt :: "u16 \<Rightarrow> bytes \<Rightarrow> u16" where
  "crc16_ccitt seed data = fold crc16_step data seed"

definition TABLE :: "u32 list" where
  "TABLE = [0x00000000, 0x1db71064, 0x3b6e20c8, 0x26d930ac, 0x76dc4190, 0x6b6b51f4,
    0x4db26158, 0x5005713c, 0xedb88320, 0xf00f9344, 0xd6d6a3e8, 0xcb61b38c, 0x9b64c2b0,
    0x86d3d2d4, 0xa00ae278, 0xbdbdf21c]"

definition crc32_step :: "u8 \<Rightarrow> u32 \<Rightarrow> u32" where
  "crc32_step byte crc =
     (let byte = (ucast byte :: u32);
          crc = drop_bit 4 crc XOR TABLE ! unat ((crc XOR byte) AND 0x0f)
      in drop_bit 4 crc XOR TABLE ! unat ((crc XOR drop_bit 4 byte) AND 0x0f))"

definition crc32_ieee_update :: "u32 \<Rightarrow> bytes \<Rightarrow> u32" where
  "crc32_ieee_update crc data = NOT (fold crc32_step data (NOT crc))"

definition crc32_ieee :: "bytes \<Rightarrow> u32" where
  "crc32_ieee data = crc32_ieee_update 0 data"

section \<open>The bit-serial reference\<close>

definition lfsr :: "'a::len word \<Rightarrow> 'a word \<Rightarrow> 'a word" where
  "lfsr poly x = drop_bit 1 x XOR (if bit x 0 then poly else 0)"

definition crc_serial :: "'a::len word \<Rightarrow> 'a word \<Rightarrow> bytes \<Rightarrow> 'a word" where
  "crc_serial poly seed data = fold (\<lambda>b crc. (lfsr poly ^^ 8) (crc XOR ucast b)) data seed"

lemma lfsr_xor: "lfsr poly (x XOR y) = lfsr poly x XOR lfsr poly y"
  by (rule bit_word_eqI) (auto simp: lfsr_def bit_simps)

lemma lfsr_pow_xor: "(lfsr poly ^^ n) (x XOR y) = (lfsr poly ^^ n) x XOR (lfsr poly ^^ n) y"
  by (induction n arbitrary: x y) (simp_all add: funpow_swap1 lfsr_xor)

lemma lfsr_push: "k + n \<le> LENGTH('a) \<Longrightarrow> (lfsr poly ^^ n) (push_bit n (take_bit k x)) = take_bit k (x :: 'a::len word)"
proof (induction n)
  case 0
  then show ?case by simp
next
  case (Suc n)
  have "lfsr poly (push_bit (Suc n) (take_bit k x)) = push_bit n (take_bit k x)"
  proof (rule bit_word_eqI)
    fix i assume "i < LENGTH('a)"
    then show "bit (lfsr poly (push_bit (Suc n) (take_bit k x))) i = bit (push_bit n (take_bit k x)) i"
      using Suc.prems by (auto simp: lfsr_def bit_simps Suc_diff_le simp del: push_bit_Suc)
  qed
  with Suc show ?case by (simp add: funpow_swap1)
qed

lemma lfsr_split:
  assumes "n \<le> LENGTH('a)"
  shows "(lfsr poly ^^ n) x = drop_bit n x XOR (lfsr poly ^^ n) (take_bit n (x :: 'a::len word))"
proof -
  let ?k = "LENGTH('a) - n"
  have "take_bit ?k (drop_bit n x) = drop_bit n x"
    using assms by (intro bit_word_eqI) (auto simp: bit_simps dest: bit_imp_le_length)
  then have hi: "(lfsr poly ^^ n) (push_bit n (drop_bit n x)) = drop_bit n x"
    using lfsr_push [of ?k n poly "drop_bit n x"] assms by simp
  have "x = push_bit n (drop_bit n x) XOR take_bit n x"
    by (rule bit_word_eqI) (auto simp: bit_simps)
  then have "(lfsr poly ^^ n) x = (lfsr poly ^^ n) (push_bit n (drop_bit n x) XOR take_bit n x)" by simp
  also have "\<dots> = drop_bit n x XOR (lfsr poly ^^ n) (take_bit n x)"
    by (simp add: lfsr_pow_xor hi)
  finally show ?thesis .
qed

section \<open>The routines compute it\<close>

lemma table_serial: "i < 16 \<Longrightarrow> TABLE ! i = (lfsr 0xedb88320 ^^ 4) (of_nat i)"
proof -
  assume "i < 16"
  then have "i \<in> set [0..<16]" by simp
  moreover have "\<forall>i \<in> set [0..<16]. TABLE ! i = (lfsr 0xedb88320 ^^ 4) (of_nat i)"
    by code_simp
  ultimately show ?thesis by blast
qed

lemma nibble_step:
  "drop_bit 4 x XOR TABLE ! unat (x AND 0x0f) = (lfsr 0xedb88320 ^^ 4) (x :: u32)"
proof -
  have "x AND 0x0f = take_bit 4 x" by (simp add: take_bit_eq_mask mask_numeral)
  moreover have "unat (take_bit 4 x) < 16"
    using take_bit_nat_less_exp [of 4 "unat x"] by (simp add: unsigned_take_bit_eq)
  ultimately show ?thesis
    using table_serial [of "unat (take_bit 4 x)"] lfsr_split [of 4 "0xedb88320" x] by simp
qed

lemma crc32_step_serial: "crc32_step b crc = (lfsr 0xedb88320 ^^ 8) (crc XOR ucast b)"
proof -
  let ?l = "lfsr (0xedb88320 :: u32)" and ?b = "ucast b :: u32"
  have cut: "drop_bit 4 crc XOR TABLE ! unat ((crc XOR ?b) AND 0x0f) = (?l ^^ 4) (crc XOR take_bit 4 ?b)"
  proof -
    have "(0x0f :: u32) = mask 4" by (simp add: mask_numeral)
    then have "(crc XOR take_bit 4 ?b) AND 0x0f = (crc XOR ?b) AND 0x0f"
      by (metis (no_types, opaque_lifting) take_bit_eq_mask take_bit_take_bit min.idem take_bit_xor)
    moreover have "drop_bit 4 (crc XOR take_bit 4 ?b) = drop_bit 4 crc"
      by (rule bit_word_eqI) (auto simp: bit_simps)
    ultimately show ?thesis using nibble_step [of "crc XOR take_bit 4 ?b"] by simp
  qed
  have hi: "drop_bit 4 (y XOR drop_bit 4 ?b) = drop_bit 4 y" for y
    by (rule bit_word_eqI) (auto simp: bit_simps dest: bit_imp_le_length)
  have step2: "drop_bit 4 y XOR TABLE ! unat ((y XOR drop_bit 4 ?b) AND 0x0f) =
      (?l ^^ 4) (y XOR drop_bit 4 ?b)" for y
    using nibble_step [of "y XOR drop_bit 4 ?b"] hi [of y] by simp
  have "(?l ^^ 4) (push_bit 4 (take_bit 28 (drop_bit 4 ?b))) = take_bit 28 (drop_bit 4 ?b)"
    by (rule lfsr_push) simp
  moreover have "take_bit 28 (drop_bit 4 ?b) = drop_bit 4 ?b"
    by (rule bit_word_eqI) (auto simp: bit_simps dest: bit_imp_le_length)
  ultimately have push: "(?l ^^ 4) (push_bit 4 (drop_bit 4 ?b)) = drop_bit 4 ?b" by simp
  have b: "?b = take_bit 4 ?b XOR push_bit 4 (drop_bit 4 ?b)"
    by (rule bit_word_eqI) (auto simp: bit_simps)
  have "crc32_step b crc = (?l ^^ 4) ((?l ^^ 4) (crc XOR take_bit 4 ?b) XOR drop_bit 4 ?b)"
    by (simp only: crc32_step_def Let_def cut step2)
  also have "\<dots> = (?l ^^ 4) ((?l ^^ 4) (crc XOR (take_bit 4 ?b XOR push_bit 4 (drop_bit 4 ?b))))"
    by (simp only: lfsr_pow_xor push xor.assoc)
  also have "\<dots> = (?l ^^ (4 + 4)) (crc XOR ?b)"
    using b by (simp only: funpow_add o_apply)
  finally show ?thesis by simp
qed

definition crc16_byte :: "u8 \<Rightarrow> u16" where
  "crc16_byte e = (let f = ucast (e XOR push_bit 4 e) in push_bit 8 f XOR push_bit 3 f XOR drop_bit 4 f)"

lemma crc16_byte_xor: "crc16_byte (x XOR y) = crc16_byte x XOR crc16_byte y"
  by (simp add: crc16_byte_def Let_def push_bit_xor drop_bit_xor unsigned_xor_eq ac_simps)

lemma crc16_byte_nibbles:
  "\<forall>i \<in> set [0..<16]. crc16_byte (of_nat i) = (lfsr 0x8408 ^^ 8) (ucast (of_nat i :: u8)) \<and>
     crc16_byte (push_bit 4 (of_nat i)) = (lfsr 0x8408 ^^ 8) (ucast (push_bit 4 (of_nat i :: u8)))"
  by code_simp

lemma crc16_low_byte: "crc16_byte e = (lfsr 0x8408 ^^ 8) (ucast e)"
proof -
  let ?lo = "take_bit 4 e" and ?hi = "drop_bit 4 e"
  have e: "e = ?lo XOR push_bit 4 ?hi"
    by (rule bit_word_eqI) (auto simp: bit_simps)
  have "unat ?lo < 16" using take_bit_nat_less_exp [of 4 "unat e"] by (simp add: unsigned_take_bit_eq)
  then have lo: "crc16_byte ?lo = (lfsr 0x8408 ^^ 8) (ucast ?lo)"
    using crc16_byte_nibbles [THEN bspec, of "unat ?lo"] by simp
  have "unat ?hi < 16" using unsigned_less [of e, where ?'a = nat]
    by (simp add: unsigned_drop_bit_eq drop_bit_eq_div unat_div)
  then have hi: "crc16_byte (push_bit 4 ?hi) = (lfsr 0x8408 ^^ 8) (ucast (push_bit 4 ?hi))"
    using crc16_byte_nibbles [THEN bspec, of "unat ?hi"] by simp
  have u: "(ucast e :: u16) = ucast ?lo XOR ucast (push_bit 4 ?hi)"
    by (rule bit_word_eqI) (auto simp: bit_simps dest: bit_imp_le_length)
  have "crc16_byte e = crc16_byte (?lo XOR push_bit 4 ?hi)" using e by simp
  then show ?thesis by (simp only: crc16_byte_xor lo hi u lfsr_pow_xor)
qed

lemma crc16_step_serial: "crc16_step b crc = (lfsr 0x8408 ^^ 8) (crc XOR ucast b)"
proof -
  let ?x = "crc XOR ucast b :: u16"
  have "take_bit 8 ?x = ucast (ucast ?x :: u8)"
    by (rule bit_word_eqI) (auto simp: bit_simps)
  moreover have "drop_bit 8 ?x = drop_bit 8 crc"
    by (rule bit_word_eqI) (auto simp: bit_simps dest: bit_imp_le_length)
  ultimately have "(lfsr 0x8408 ^^ 8) ?x = drop_bit 8 crc XOR (lfsr 0x8408 ^^ 8) (ucast (ucast ?x :: u8))"
    using lfsr_split [of 8 "0x8408" ?x] by simp
  then show ?thesis
    using crc16_low_byte [of "ucast ?x"] by (simp add: crc16_step_def crc16_byte_def Let_def xor.assoc)
qed

lemma crc16_ccitt_serial: "crc16_ccitt seed data = crc_serial 0x8408 seed data"
  by (simp add: crc16_ccitt_def crc_serial_def crc16_step_serial [abs_def])

lemma crc32_update_serial: "crc32_ieee_update crc data = NOT (crc_serial 0xedb88320 (NOT crc) data)"
  by (simp add: crc32_ieee_update_def crc_serial_def crc32_step_serial [abs_def])

text \<open>Chaining across chunk boundaries, the form the DFU client relies on.\<close>

lemma crc16_append: "crc16_ccitt seed (xs @ ys) = crc16_ccitt (crc16_ccitt seed xs) ys"
  by (simp add: crc16_ccitt_def)

lemma crc16_Nil [simp]: "crc16_ccitt seed [] = seed"
  by (simp add: crc16_ccitt_def)

lemma crc16_concat: "crc16_ccitt seed (concat chunks) = foldl crc16_ccitt seed chunks"
  by (induction chunks arbitrary: seed) (simp_all add: crc16_append)

lemma crc32_append: "crc32_ieee_update c (xs @ ys) = crc32_ieee_update (crc32_ieee_update c xs) ys"
  by (simp add: crc32_ieee_update_def)

section \<open>Properties\<close>

text \<open>Property C39. The shift-and-xor CRC-16 and the nibble-table CRC-32 compute, for every seed and
  message, the bit-serial CRC with the reflected polynomials 0x8408 and 0xedb88320.\<close>

theorem crc_equals_serial:
  "crc16_ccitt seed data = crc_serial 0x8408 seed data \<and>
   crc32_ieee_update crc data = NOT (crc_serial 0xedb88320 (NOT crc) data)"
  by (simp add: crc16_ccitt_serial crc32_update_serial)

text \<open>Both CRCs chain: the CRC of an image is the CRC accumulated over its chunks,
  whatever the chunk boundaries.\<close>

theorem crc_chains_over_chunks:
  "crc16_ccitt seed (concat chunks) = foldl crc16_ccitt seed chunks \<and>
   crc32_ieee_update crc (concat chunks) = foldl crc32_ieee_update crc chunks"
proof -
  have "crc32_ieee_update crc (concat chunks) = foldl crc32_ieee_update crc chunks"
    by (induction chunks arbitrary: crc) (simp_all add: crc32_append, simp add: crc32_ieee_update_def)
  then show ?thesis by (simp add: crc16_concat)
qed

end
