(* ===== verification/Checksum.thy ===== *)
theory Checksum
  imports Util
begin

text \<open>
  \<open>bm-wire/src/checksum.rs\<close>: the IPv6 pseudo-header checksum of BCMP frames. The loop that
  folds the carries is proved to terminate and to compute the one's-complement residue of
  the sum of the 16-bit words, for every upper-layer packet of up to 65535 bytes without
  overflow of the 32-bit accumulator.
\<close>

section \<open>The routine\<close>

text \<open>\<open>as_chunks::<2>()\<close>: the pairs, accumulated into the 32-bit sum, and the remainder.\<close>

fun add_pairs :: "u32 \<Rightarrow> bytes \<Rightarrow> u32" where
  "add_pairs acc (a # b # xs) = add_pairs (acc + ucast (from_be [a, b] :: u16)) xs"
| "add_pairs acc xs = acc"

fun pairs_remainder :: "bytes \<Rightarrow> bytes" where
  "pairs_remainder (a # b # xs) = pairs_remainder xs"
| "pairs_remainder xs = xs"

definition add_odd_byte :: "u32 \<Rightarrow> bytes \<Rightarrow> u32" where
  "add_odd_byte acc remainder = (case remainder of [b] \<Rightarrow> acc + push_bit 8 (ucast b) | _ \<Rightarrow> acc)"

lemma unat_low16: "unat (s AND 0xFFFF :: u32) = unat s mod 65536"
proof -
  have "s AND 0xFFFF = take_bit 16 s" by (simp add: take_bit_eq_mask mask_numeral)
  then show ?thesis by (simp add: unat_mod take_bit_eq_mod)
qed

lemma unat_high16: "unat (drop_bit 16 s :: u32) = unat s div 65536"
  by (simp only: unsigned_drop_bit_eq drop_bit_eq_div) (simp add: unat_div)

lemma fold_carry_less: "drop_bit 16 s \<noteq> (0 :: u32) \<Longrightarrow> unat ((s AND 0xFFFF) + drop_bit 16 s) < unat s"
proof -
  assume nz: "drop_bit 16 s \<noteq> 0"
  note lo = unat_low16 [of s] and hi = unat_high16 [of s]
  have "unat s div 65536 \<noteq> 0" using nz hi by (metis unsigned_0 word_unat_eq_iff)
  then have lt: "unat s mod 65536 + unat s div 65536 < unat s"
    using div_mult_mod_eq [of "unat s" 65536] by linarith
  then have "unat s mod 65536 + unat s div 65536 < 2 ^ 32"
    using unsigned_less [of s, where ?'a = nat] by simp
  with lo hi lt show ?thesis by (simp add: unat_word_ariths)
qed

function fold_carries :: "u32 \<Rightarrow> u32" where
  "fold_carries acc =
     (if drop_bit 16 acc \<noteq> 0 then fold_carries ((acc AND 0xFFFF) + drop_bit 16 acc) else acc)"
  by pat_completeness auto
termination
  by (relation "measure unat") (auto intro: fold_carry_less)

declare fold_carries.simps [simp del]

definition swap_bytes :: "u16 \<Rightarrow> u16" where
  "swap_bytes w = from_be (to_le 2 w)"

definition ipv6_pseudo_checksum :: "BmIpAddr \<Rightarrow> BmIpAddr \<Rightarrow> u8 \<Rightarrow> bytes \<Rightarrow> u16" where
  "ipv6_pseudo_checksum src dst next_header data =
     (let len = (of_nat (length data) :: u32);
          acc = add_pairs (add_pairs 0 src) dst;
          acc = acc + (drop_bit 16 len AND 0xFFFF);
          acc = acc + (len AND 0xFFFF);
          acc = acc + ucast next_header;
          acc = add_odd_byte (add_pairs acc data) (pairs_remainder data)
      in swap_bytes (NOT (ucast (fold_carries acc))))"

text \<open>That is the function of a build without overflow checks, whose \<open>+=\<close> wraps. In a build with them every
  addition panics when it overflows; \<open>ipv6_pseudo_checksum_run\<close> is that, \<^const>\<open>None\<close> the panic. The sum
  of a packet overflows only beyond 131000 bytes, and the two agree for every packet an IPv6 payload length
  can name (\<open>ipv6_pseudo_checksum_run_eq\<close>).\<close>

definition u32_plus :: "u32 \<Rightarrow> u32 \<Rightarrow> u32 option" where
  "u32_plus a b = (if unat a + unat b < 2 ^ 32 then Some (a + b) else None)"

fun add_pairs_run :: "u32 \<Rightarrow> bytes \<Rightarrow> u32 option" where
  "add_pairs_run acc (a # b # xs) = do { acc \<leftarrow> u32_plus acc (ucast (from_be [a, b] :: u16)); add_pairs_run acc xs }"
| "add_pairs_run acc xs = Some acc"

definition add_odd_byte_run :: "u32 \<Rightarrow> bytes \<Rightarrow> u32 option" where
  "add_odd_byte_run acc remainder = (case remainder of [b] \<Rightarrow> u32_plus acc (push_bit 8 (ucast b)) | _ \<Rightarrow> Some acc)"

definition ipv6_pseudo_checksum_run :: "BmIpAddr \<Rightarrow> BmIpAddr \<Rightarrow> u8 \<Rightarrow> bytes \<Rightarrow> u16 option" where
  "ipv6_pseudo_checksum_run src dst next_header data = do {
     let len = (of_nat (length data) :: u32);
     acc \<leftarrow> add_pairs_run 0 src;
     acc \<leftarrow> add_pairs_run acc dst;
     acc \<leftarrow> u32_plus acc (drop_bit 16 len AND 0xFFFF);
     acc \<leftarrow> u32_plus acc (len AND 0xFFFF);
     acc \<leftarrow> u32_plus acc (ucast next_header);
     acc \<leftarrow> add_pairs_run acc data;
     acc \<leftarrow> add_odd_byte_run acc (pairs_remainder data);
     Some (swap_bytes (NOT (ucast (fold_carries acc)))) }"

section \<open>The sum of words and its residue\<close>

fun wsum :: "bytes \<Rightarrow> nat" where
  "wsum (a # b # xs) = 256 * unat a + unat b + wsum xs"
| "wsum [a] = 256 * unat a"
| "wsum [] = 0"

definition oc16 :: "nat \<Rightarrow> nat" where
  "oc16 n = (if n = 0 then 0 else (n - 1) mod 65535 + 1)"

lemma oc16_bound: "oc16 n < 65536"
proof -
  have "(n - 1) mod 65535 < 65535" by simp
  then show ?thesis by (simp add: oc16_def)
qed

lemma oc16_small: "n < 65536 \<Longrightarrow> oc16 n = n"
  by (auto simp: oc16_def mod_less)

lemma oc16_add_65535: "0 < n \<Longrightarrow> oc16 (n + 65535 * k) = oc16 n"
proof -
  assume "0 < n"
  then have "n + 65535 * k - 1 = (n - 1) + k * 65535" by simp
  then have "(n + 65535 * k - 1) mod 65535 = (n - 1) mod 65535" by (metis mod_mult_self1)
  with \<open>0 < n\<close> show ?thesis by (simp add: oc16_def)
qed

lemma oc16_fold: "65536 \<le> n \<Longrightarrow> oc16 (n mod 65536 + n div 65536) = oc16 n"
proof -
  assume "65536 \<le> n"
  then have "0 < n div 65536" by (simp add: div_greater_zero_iff)
  moreover have "n = (n mod 65536 + n div 65536) + 65535 * (n div 65536)"
    using div_mult_mod_eq [of n 65536] by linarith
  ultimately show ?thesis using oc16_add_65535 [of "n mod 65536 + n div 65536" "n div 65536"] by simp
qed

lemma fold_carries_value: "unat (fold_carries s) = oc16 (unat s)"
proof (induction s rule: fold_carries.induct)
  case (1 s)
  show ?case
  proof (cases "drop_bit 16 s = 0")
    case True
    then have "unat s div 65536 = 0" using unat_high16 [of s] by simp
    then have "unat s < 65536" by (simp add: div_eq_0_iff)
    with True show ?thesis by (simp add: fold_carries.simps [of s] oc16_small)
  next
    case False
    have "unat s div 65536 \<noteq> 0" using False unat_high16 [of s] by (metis unsigned_0 word_unat_eq_iff)
    then have big: "65536 \<le> unat s" by (simp add: div_eq_0_iff)
    have "unat (s AND 0xFFFF) + unat (drop_bit 16 s) < 2 ^ 32"
      using div_mult_mod_eq [of "unat s" 65536] unsigned_less [of s, where ?'a = nat]
      unfolding unat_low16 unat_high16 by simp
    then have "unat ((s AND 0xFFFF) + drop_bit 16 s) = unat s mod 65536 + unat s div 65536"
      using unat_low16 [of s] unat_high16 [of s] by (simp add: unat_word_ariths)
    with 1 [OF False] False oc16_fold [OF big] show ?thesis
      by (simp add: fold_carries.simps [of s])
  qed
qed

lemma unat_be_pair: "unat (from_be [a, b] :: u16) = 256 * unat a + unat b"
proof -
  have "(from_be [a, b] :: u16) = ucast b + push_bit 8 (ucast a)"
    by (subst disjunctive_add_eq_or)
       (auto simp: from_be_def bit_eq_iff bit_simps dest: bit_imp_le_length)
  moreover have "unat (push_bit 8 (ucast a) :: u16) = 256 * unat a"
    using unsigned_less [of a, where ?'a = nat]
    by (simp add: push_bit_eq_mult unat_word_ariths unsigned_ucast_eq take_bit_nat_eq_self)
  ultimately show ?thesis
    using unsigned_less [of a, where ?'a = nat] unsigned_less [of b, where ?'a = nat]
    by (simp add: unat_word_ariths unsigned_ucast_eq take_bit_nat_eq_self)
qed

lemma add_pairs_value:
  "even (length xs) \<Longrightarrow> unat acc + wsum xs < 2 ^ 32 \<Longrightarrow> unat (add_pairs acc xs) = unat acc + wsum xs"
proof (induction acc xs rule: add_pairs.induct)
  case (1 acc a b xs)
  have "unat (acc + ucast (from_be [a, b] :: u16)) = unat acc + (256 * unat a + unat b)"
    using 1(3) by (simp add: unat_word_ariths unsigned_ucast_eq unat_be_pair take_bit_nat_eq_self)
  with 1 show ?case by simp
qed simp_all

lemmas add_pairs_cases = add_pairs.induct [case_names pair none odd]

lemma add_data_value:
  "unat acc + wsum xs < 2 ^ 32 \<Longrightarrow>
   unat (add_odd_byte (add_pairs acc xs) (pairs_remainder xs)) = unat acc + wsum xs"
proof (induction acc xs rule: add_pairs_cases)
  case (pair acc a b xs)
  have "unat (acc + ucast (from_be [a, b] :: u16)) = unat acc + (256 * unat a + unat b)"
    using pair(2) by (simp add: unat_word_ariths unsigned_ucast_eq unat_be_pair take_bit_nat_eq_self)
  with pair show ?case by simp
next
  case (odd acc a)
  have "unat (push_bit 8 (ucast a) :: u32) = 256 * unat a"
    using unsigned_less [of a, where ?'a = nat]
    by (simp add: push_bit_eq_mult unat_word_ariths unsigned_ucast_eq take_bit_nat_eq_self)
  with odd show ?case by (simp add: add_odd_byte_def unat_word_ariths)
qed (simp_all add: add_odd_byte_def)

lemma wsum_bound: "2 * wsum xs \<le> 65535 * (length xs + 1)"
proof (induction xs rule: wsum.induct)
  case (1 a b xs)
  then show ?case
    using unsigned_less [of a, where ?'a = nat] unsigned_less [of b, where ?'a = nat] by simp
next
  case (2 a)
  then show ?case using unsigned_less [of a, where ?'a = nat] by simp
qed simp

lemma wsum_append: "even (length xs) \<Longrightarrow> wsum (xs @ ys) = wsum xs + wsum ys"
  by (induction xs rule: wsum.induct) simp_all

definition pseudo_sum :: "BmIpAddr \<Rightarrow> BmIpAddr \<Rightarrow> u8 \<Rightarrow> bytes \<Rightarrow> nat" where
  "pseudo_sum src dst nh data = wsum src + wsum dst + length data + unat nh + wsum data"

lemma ipv6_pseudo_checksum_value:
  assumes "wf_addr src" "wf_addr dst" "length data < 65536"
  shows "ipv6_pseudo_checksum src dst nh data =
    swap_bytes (NOT (of_nat (oc16 (pseudo_sum src dst nh data))))"
proof -
  let ?len = "of_nat (length data) :: u32"
  have len: "unat ?len = length data" using assms(3) by (simp add: unat_of_nat)
  have w: "wsum src \<le> 557047" "wsum dst \<le> 557047" "wsum data \<le> 2147450880"
    using wsum_bound [of src] wsum_bound [of dst] wsum_bound [of data] assms
    by (simp_all add: wf_addr_def)
  have nh: "unat nh < 256" using unsigned_less [of nh, where ?'a = nat] by simp
  have a: "unat (add_pairs (add_pairs 0 src) dst) = wsum src + wsum dst"
    using w assms(1,2) by (simp add: add_pairs_value wf_addr_def)
  have hi: "drop_bit 16 ?len AND 0xFFFF = 0"
  proof -
    have "unat (drop_bit 16 ?len AND 0xFFFF) = 0"
      unfolding unat_low16 unat_high16 len using assms(3) by simp
    then show ?thesis by (simp add: unat_eq_zero)
  qed
  have lo: "unat (?len AND 0xFFFF) = length data" unfolding unat_low16 len using assms(3) by simp
  have s: "unat (add_pairs (add_pairs 0 src) dst + 0 + (?len AND 0xFFFF) + ucast nh) =
      wsum src + wsum dst + length data + unat nh"
    using a lo w nh assms(3)
    by (simp add: unat_word_ariths unsigned_ucast_eq take_bit_nat_eq_self)
  have d: "unat (add_odd_byte (add_pairs (add_pairs (add_pairs 0 src) dst + 0 +
      (?len AND 0xFFFF) + ucast nh) data) (pairs_remainder data)) = pseudo_sum src dst nh data"
    (is "unat ?acc = _")
  proof (subst add_data_value)
    show "unat (add_pairs (add_pairs 0 src) dst + 0 + (?len AND 0xFFFF) + ucast nh) + wsum data < 2 ^ 32"
      unfolding s using w nh assms(3) by simp
  qed (simp only: s pseudo_sum_def)
  have "(ucast (fold_carries ?acc) :: u16) = of_nat (oc16 (pseudo_sum src dst nh data))"
    using fold_carries_value [of ?acc] d by (metis of_nat_unat)
  then show ?thesis by (simp only: ipv6_pseudo_checksum_def Let_def hi)
qed

text \<open>The checked additions do not overflow: each is at most the whole sum.\<close>

lemma add_pairs_run_value:
  "unat acc + wsum xs < 2 ^ 32 \<Longrightarrow> add_pairs_run acc xs = Some (add_pairs acc xs) \<and>
   add_odd_byte_run (add_pairs acc xs) (pairs_remainder xs) = Some (add_odd_byte (add_pairs acc xs) (pairs_remainder xs))"
proof (induction acc xs rule: add_pairs_cases)
  case (pair acc a b xs)
  let ?w = "ucast (from_be [a, b] :: u16) :: u32"
  have w: "unat ?w = 256 * unat a + unat b"
    using unsigned_less [of a, where ?'a = nat] unsigned_less [of b, where ?'a = nat]
    by (simp add: unsigned_ucast_eq unat_be_pair take_bit_nat_eq_self)
  then have plus: "u32_plus acc ?w = Some (acc + ?w)" using pair(2) by (simp add: u32_plus_def)
  have "unat (acc + ?w) = unat acc + (256 * unat a + unat b)" using pair(2) w by (simp add: unat_word_ariths)
  then show ?case using pair plus by simp
next
  case (odd acc a)
  have "unat (push_bit 8 (ucast a) :: u32) = 256 * unat a"
    using unsigned_less [of a, where ?'a = nat]
    by (simp add: push_bit_eq_mult unat_word_ariths unsigned_ucast_eq take_bit_nat_eq_self)
  with odd show ?case by (simp add: add_odd_byte_run_def add_odd_byte_def u32_plus_def)
qed (simp_all add: add_odd_byte_run_def add_odd_byte_def)

lemma ipv6_pseudo_checksum_run_eq:
  assumes "wf_addr src" "wf_addr dst" "length data < 65536"
  shows "ipv6_pseudo_checksum_run src dst nh data = Some (ipv6_pseudo_checksum src dst nh data)"
proof -
  let ?len = "of_nat (length data) :: u32"
  have len: "unat ?len = length data" using assms(3) by (simp add: unat_of_nat)
  have w: "wsum src \<le> 557047" "wsum dst \<le> 557047" "wsum data \<le> 2147450880"
    using wsum_bound [of src] wsum_bound [of dst] wsum_bound [of data] assms by (simp_all add: wf_addr_def)
  have nh: "unat nh < 256" using unsigned_less [of nh, where ?'a = nat] by simp
  let ?s = "add_pairs 0 src" and ?d = "add_pairs (add_pairs 0 src) dst"
  have s: "unat ?s = wsum src" "unat ?d = wsum src + wsum dst" using w assms(1,2) by (simp_all add: add_pairs_value wf_addr_def)
  have r: "add_pairs_run 0 src = Some ?s" "add_pairs_run ?s dst = Some ?d"
    using add_pairs_run_value [of 0 src] add_pairs_run_value [of ?s dst] s w by simp_all
  have hi: "unat (drop_bit 16 ?len AND 0xFFFF) = 0" unfolding unat_low16 unat_high16 len using assms(3) by simp
  have lo: "unat (?len AND 0xFFFF) = length data" unfolding unat_low16 len using assms(3) by simp
  let ?a = "?d + (drop_bit 16 ?len AND 0xFFFF)" and ?b = "?d + (drop_bit 16 ?len AND 0xFFFF) + (?len AND 0xFFFF)"
  let ?c = "?b + ucast nh"
  have a: "unat ?a = wsum src + wsum dst" using s hi w by (simp add: unat_word_ariths)
  have b: "unat ?b = wsum src + wsum dst + length data"
    using a lo w assms(3) unat_word_ariths(1) [of ?a "?len AND 0xFFFF"] by simp
  have n: "unat (ucast nh :: u32) = unat nh" using nh by (simp add: unsigned_ucast_eq take_bit_nat_eq_self)
  have c: "unat ?c = wsum src + wsum dst + length data + unat nh"
    using b n nh w assms(3) unat_word_ariths(1) [of ?b "ucast nh"] by simp
  have p: "u32_plus ?d (drop_bit 16 ?len AND 0xFFFF) = Some ?a" "u32_plus ?a (?len AND 0xFFFF) = Some ?b"
      "u32_plus ?b (ucast nh) = Some ?c"
    unfolding u32_plus_def s a b hi lo n using w nh assms(3) by simp_all
  have "unat ?c + wsum data < 2 ^ 32" unfolding c using w nh assms(3) by simp
  note e = add_pairs_run_value [OF this]
  show ?thesis
    by (simp only: ipv6_pseudo_checksum_run_def ipv6_pseudo_checksum_def Let_def r p conjunct1 [OF e] conjunct2 [OF e] bind.bind_lunit)
qed

section \<open>Patching a checksum\<close>

text \<open>Adding a byte to the high half of a word of the data adds 256 times the byte to the
  sum; the egress stamping patches the stored checksum by adding the byte to its
  complemented, byte-swapped value instead of summing again.\<close>

lemma oc16_pos: "0 < n \<Longrightarrow> 0 < oc16 n"
  by (simp add: oc16_def)

lemma oc16_add: "0 < n \<Longrightarrow> oc16 (n + m) = oc16 (oc16 n + m)"
proof -
  assume n: "0 < n"
  have "n = oc16 n + 65535 * ((n - 1) div 65535)"
    using n div_mult_mod_eq [of "n - 1" 65535] by (simp add: oc16_def)
  then have "oc16 (n + m) = oc16 (oc16 n + m + 65535 * ((n - 1) div 65535))"
    by (metis add.assoc add.commute)
  also have "\<dots> = oc16 (oc16 n + m)" using oc16_pos [OF n] by (intro oc16_add_65535) simp
  finally show ?thesis .
qed

lemma unat_swap_bytes: "unat (swap_bytes w) = 256 * (unat w mod 256) + unat w div 256"
proof -
  have "swap_bytes w = from_be [ucast w, ucast (drop_bit 8 w)]"
    by (simp add: swap_bytes_def numeral_eq_Suc)
  moreover have "unat (ucast w :: u8) = unat w mod 256"
    by (simp add: unsigned_ucast_eq take_bit_eq_mod)
  moreover have "unat (ucast (drop_bit 8 w) :: u8) = unat w div 256"
  proof -
    have "unat w div 256 < 256" using unsigned_less [of w, where ?'a = nat] by (simp add: div_less_iff_less_mult)
    moreover have "unat (drop_bit 8 w) = unat w div 256" by (simp add: drop_bit_eq_div unat_div)
    ultimately show ?thesis by (simp add: unsigned_ucast_eq take_bit_nat_eq_self)
  qed
  ultimately show ?thesis by (simp add: unat_be_pair)
qed

lemma swap_bytes_eq: "swap_bytes w = push_bit 8 w OR drop_bit 8 w"
proof -
  have "swap_bytes w = ucast (ucast (drop_bit 8 w) :: u8) OR push_bit 8 (ucast (ucast w :: u8))"
    by (simp add: swap_bytes_def numeral_eq_Suc from_be_def)
  then show ?thesis
    by (simp only:) (rule bit_word_eqI, auto simp: bit_simps dest: bit_imp_le_length)
qed

lemma swap_bytes_NOT: "swap_bytes (NOT w) = NOT (swap_bytes w)"
  unfolding swap_bytes_eq by (rule bit_word_eqI) (auto simp: bit_simps dest: bit_imp_le_length)

lemma swapped_patch:
  assumes f: "0 < f" "f < 65536" and p: "p < 256"
  shows "swap_bytes (of_nat f) + of_nat p = swap_bytes (of_nat (oc16 (f + 256 * p))) \<longleftrightarrow>
    unat (swap_bytes (of_nat f :: u16)) + p < 65536"
proof -
  define h l where "h = f div 256" and "l = f mod 256"
  have f_hl: "f = 256 * h + l" and l: "l < 256" and h: "h < 256"
    using f by (simp_all add: h_def l_def div_less_iff_less_mult)
  have uf: "unat (of_nat f :: u16) = f" using f by (simp add: unat_of_nat)
  have s: "unat (swap_bytes (of_nat f :: u16)) = 256 * l + h"
    by (simp add: unat_swap_bytes uf h_def l_def)
  let ?g = "oc16 (f + 256 * p)"
  have "?g < 65536" by (rule oc16_bound)
  then have s': "unat (swap_bytes (of_nat ?g :: u16)) = 256 * (?g mod 256) + ?g div 256"
    by (simp add: unat_swap_bytes unat_of_nat)
  have lhs: "swap_bytes (of_nat f) + of_nat p = swap_bytes (of_nat ?g :: u16) \<longleftrightarrow>
      (256 * l + h + p) mod 65536 = 256 * (?g mod 256) + ?g div 256"
    using p by (simp add: word_unat_eq_iff unat_word_ariths s s' unat_of_nat)
  show ?thesis
  proof (cases "h + p < 256")
    case True
    obtain m where m: "h + p = m" by simp
    then have g: "?g = 256 * m + l" using True f_hl l oc16_small [of "f + 256 * p"] by simp
    have "?g mod 256 = l" "?g div 256 = h + p" using g l m by simp_all
    then show ?thesis unfolding lhs s using True l by simp
  next
    case False
    define k where "k = h + p - 256"
    have k: "h + p = 256 + k" "k < 255" using False h p by (auto simp: k_def)
    have sum: "f + 256 * p = (256 * k + l + 1) + 65535 * 1" using k f_hl by simp
    have g: "?g = 256 * k + l + 1"
      using oc16_add_65535 [of "256 * k + l + 1" 1] oc16_small [of "256 * k + l + 1"] sum k l by simp
    show ?thesis
    proof (cases "l = 255")
      case True
      then have "?g mod 256 = 0" "?g div 256 = k + 1" using g by simp_all
      moreover have "(256 * l + h + p) mod 65536 = k" using True k by (simp add: add.assoc)
      ultimately show ?thesis unfolding lhs s using True k by simp
    next
      case False
      then have "l + 1 < 256" using l by simp
      then have "?g mod 256 = l + 1" "?g div 256 = k" using g by simp_all
      moreover have "256 * l + h + p = 256 * (l + 1) + k" using k by simp
      ultimately show ?thesis unfolding lhs s using k \<open>l + 1 < 256\<close> by simp
    qed
  qed
qed

lemma wsum_set_high:
  assumes "even i" "i < length xs" "xs ! i = 0"
  shows "wsum (xs[i := v]) = wsum xs + 256 * unat v"
proof -
  have e: "even (length (take i xs))" using assms by simp
  have x: "wsum (v # drop (Suc i) xs) = wsum (0 # drop (Suc i) xs) + 256 * unat v" for v
    by (cases "drop (Suc i) xs") simp_all
  have "xs[i := v] = take i xs @ v # drop (Suc i) xs" using assms by (simp add: upd_conv_take_nth_drop)
  moreover have "xs = take i xs @ 0 # drop (Suc i) xs" using assms by (metis id_take_nth_drop)
  ultimately show ?thesis using wsum_append [OF e] x [of v] by (metis add.assoc)
qed

text \<open>The patched checksum is the checksum of the changed packet exactly when the patch does
  not carry out of the 16-bit word.\<close>

lemma patched_checksum:
  assumes a: "wf_addr src" "wf_addr dst" "length data < 65536" "nh \<noteq> 0"
    and i: "even i" "i < 16" "src ! i = 0" and p: "p < 256" "p = unat v"
  shows "ipv6_pseudo_checksum (src[i := v]) dst nh data =
      NOT (NOT (ipv6_pseudo_checksum src dst nh data) + of_nat p) \<longleftrightarrow>
    unat (NOT (ipv6_pseudo_checksum src dst nh data)) + p < 65536"
proof -
  let ?S = "pseudo_sum src dst nh data"
  have S: "0 < ?S" using a(4) by (simp add: pseudo_sum_def unat_gt_0)
  have S': "pseudo_sum (src[i := v]) dst nh data = ?S + 256 * p"
    using wsum_set_high [of i src v] a(1) i p by (simp add: pseudo_sum_def wf_addr_def)
  let ?f = "oc16 ?S"
  have c: "NOT (ipv6_pseudo_checksum src dst nh data) = swap_bytes (of_nat ?f)"
    by (simp add: ipv6_pseudo_checksum_value a swap_bytes_NOT)
  have "wf_addr (src[i := v])" using a(1) by (simp add: wf_addr_def)
  then have c': "ipv6_pseudo_checksum (src[i := v]) dst nh data =
      NOT (swap_bytes (of_nat (oc16 (?f + 256 * p))))"
    by (simp add: ipv6_pseudo_checksum_value a S' oc16_add [OF S] swap_bytes_NOT)
  have "NOT x = NOT y \<longleftrightarrow> x = (y :: u16)" for x y by (metis bit.double_compl)
  then show ?thesis
    using swapped_patch [OF oc16_pos [OF S] oc16_bound p(1)] unfolding c c' by auto
qed

section \<open>Properties\<close>

text \<open>Property C40. For every upper-layer packet of fewer than 65536 bytes \<open>ipv6_pseudo_checksum\<close>
  terminates without overflowing its 32-bit accumulator (the routine with checked additions does not panic and gives the
  same) and is the byte-swapped complement of
  the one's-complement residue (between 0 and 65535, 0 only for an all-zero sum) of the sum of
  the 16-bit words of the pseudo-header and the data.\<close>

theorem checksum_is_ones_complement:
  assumes "wf_addr src" "wf_addr dst" "length data < 65536"
  shows "ipv6_pseudo_checksum src dst nh data =
      swap_bytes (NOT (of_nat (oc16 (wsum src + wsum dst + length data + unat nh + wsum data)))) \<and>
    ipv6_pseudo_checksum_run src dst nh data = Some (ipv6_pseudo_checksum src dst nh data)"
  using ipv6_pseudo_checksum_value [OF assms] ipv6_pseudo_checksum_run_eq [OF assms] by (simp add: pseudo_sum_def)

theorem checksum_is_ones_complement_witness:
  "ipv6_pseudo_checksum LINK_LOCAL_MULTICAST LINK_LOCAL_MULTICAST 0xBC [1, 2, 3] =
     swap_bytes (NOT (of_nat (oc16 (wsum LINK_LOCAL_MULTICAST + wsum LINK_LOCAL_MULTICAST +
       length [1, 2, 3 :: u8] + unat (0xBC :: u8) + wsum [1, 2, 3])))) \<and>
   ipv6_pseudo_checksum_run LINK_LOCAL_MULTICAST LINK_LOCAL_MULTICAST 0xBC [1, 2, 3] =
     Some (ipv6_pseudo_checksum LINK_LOCAL_MULTICAST LINK_LOCAL_MULTICAST 0xBC [1, 2, 3])"
  by (rule checksum_is_ones_complement) (simp_all add: wf_addr_def LINK_LOCAL_MULTICAST_def)

end
