(* ===== verification/Addr.thy ===== *)
theory Addr
  imports Util "HOL-Library.While_Combinator"
begin

text \<open>
  \<open>bm-wire/src/addr.rs\<close>: the addresses derived from a node id, the Ethernet addresses
  derived from those, and the RFC 5952 rendering of an address into a 40-byte buffer.
\<close>

section \<open>Derived addresses\<close>

definition LINK_LOCAL_PREFIX :: u32 where "LINK_LOCAL_PREFIX = 0xFE800000"
definition UNIQUE_LOCAL_PREFIX :: u32 where "UNIQUE_LOCAL_PREFIX = 0xFD000000"
definition MAC_LEN :: nat where "MAC_LEN = 6"

definition nodeid_to_ip :: "u32 \<Rightarrow> u64 \<Rightarrow> BmIpAddr" where
  "nodeid_to_ip prefix nid =
     (let addr = replicate 16 0;
          addr = put addr 0 (to_be 4 prefix)
      in put addr 8 (to_be 8 nid))"

definition mac_from_nodeid :: "u64 \<Rightarrow> bytes" where
  "mac_from_nodeid nid =
     (let mac = put (replicate MAC_LEN 0) 0 (subslice (to_be 8 nid) 2 6);
          mac = mac[0 := mac ! 0 OR 0x02]
      in mac[0 := mac ! 0 AND NOT 0x01])"

definition mac_address :: "u64 \<Rightarrow> bytes" where
  "mac_address nid = put (replicate MAC_LEN 0) 2 (subslice (to_be 8 nid) 4 4)"

definition multicast_mac_from_ipv6 :: "BmIpAddr \<Rightarrow> bytes" where
  "multicast_mac_from_ipv6 dst = put (replicate MAC_LEN 0x33) 2 (subslice dst 12 4)"

definition is_multicast :: "BmIpAddr \<Rightarrow> bool" where
  "is_multicast a \<longleftrightarrow> a ! 0 = 0xFF"

section \<open>Rendering\<close>

definition IPV6_STR_LEN :: nat where "IPV6_STR_LEN = 40"

record Ipv6Str =
  s_buf :: bytes
  s_len :: nat

definition as_bytes :: "Ipv6Str \<Rightarrow> bytes" where
  "as_bytes out = take (s_len out) (s_buf out)"

definition push_byte :: "u8 \<Rightarrow> Ipv6Str \<Rightarrow> Ipv6Str" where
  "push_byte b out =
     (if s_len out < IPV6_STR_LEN
      then out\<lparr>s_buf := (s_buf out)[s_len out := b], s_len := s_len out + 1\<rparr>
      else out)"

definition hex_digit :: "u8 \<Rightarrow> u8" where
  "hex_digit nibble = (if nibble < 10 then 48 + nibble else 97 + nibble - 10)"

definition push_hex :: "u16 \<Rightarrow> Ipv6Str \<Rightarrow> Ipv6Str" where
  "push_hex w out =
     (if w = 0 then push_byte 48 out
      else fst (fold (\<lambda>shift (out, started).
          let nibble = (ucast (drop_bit shift w AND 0xF) :: u8) in
          if nibble \<noteq> 0 \<or> started then (push_byte (hex_digit nibble) out, True) else (out, started))
        [12, 8, 4, 0] (out, False)))"

record zero_run =
  zero_start :: int
  zero_len :: nat
  cur_start :: int
  cur_len :: nat

definition zero_step :: "nat \<times> u16 \<Rightarrow> zero_run \<Rightarrow> zero_run" where
  "zero_step iw r = (case iw of (i, w) \<Rightarrow>
     if w = 0 then
       (let r = (if cur_start r < 0 then r\<lparr>cur_start := int i, cur_len := 0\<rparr> else r);
            r = r\<lparr>cur_len := cur_len r + 1\<rparr>
        in if cur_len r > zero_len r then r\<lparr>zero_start := cur_start r, zero_len := cur_len r\<rparr> else r)
     else r\<lparr>cur_start := -1, cur_len := 0\<rparr>)"

definition longest_zero_run :: "u16 list \<Rightarrow> int \<times> nat" where
  "longest_zero_run ws =
     (let r = fold zero_step (enumerate 0 ws) \<lparr>zero_start = -1, zero_len = 0, cur_start = -1, cur_len = 0\<rparr>
      in (if zero_len r < 2 then -1 else zero_start r, zero_len r))"

text \<open>One turn of the rendering loop, on the index, the colon flag and the buffer.\<close>

definition render_step :: "u16 list \<Rightarrow> int \<Rightarrow> nat \<Rightarrow> nat \<times> bool \<times> Ipv6Str \<Rightarrow> nat \<times> bool \<times> Ipv6Str" where
  "render_step ws zs zl st = (case st of (i, need_colon, out) \<Rightarrow>
     if int i = zs then (i + zl, False, push_byte 58 (push_byte 58 out))
     else (i + 1, True, push_hex (ws ! i) (if need_colon then push_byte 58 out else out)))"

definition addr_words :: "BmIpAddr \<Rightarrow> u16 list" where
  "addr_words a = map (\<lambda>i. from_be [a ! (i * 2), a ! (i * 2 + 1)]) [0..<8]"

definition format_ipv6 :: "BmIpAddr \<Rightarrow> Ipv6Str option" where
  "format_ipv6 a =
     (let ws = addr_words a;
          (zs, zl) = longest_zero_run ws
      in map_option (\<lambda>(i, need_colon, out). out)
           (while_option (\<lambda>(i, need_colon, out). i < 8) (render_step ws zs zl)
             (0, False, \<lparr>s_buf = replicate IPV6_STR_LEN 0, s_len = 0\<rparr>)))"

section \<open>Facts about derived addresses\<close>

lemma nodeid_to_ip_eq: "nodeid_to_ip prefix nid = to_be 4 prefix @ [0, 0, 0, 0] @ to_be 8 nid"
  by (simp add: nodeid_to_ip_def put_def Let_def numeral_eq_Suc)

lemma wf_nodeid_to_ip [simp]: "wf_addr (nodeid_to_ip prefix nid)"
  by (simp add: wf_addr_def nodeid_to_ip_eq)

lemma to_node_id_nodeid_to_ip [simp]: "to_node_id (nodeid_to_ip prefix nid) = nid"
  by (simp add: to_node_id_def nodeid_to_ip_eq)

lemma length_macs [simp]:
  "length (mac_from_nodeid nid) = 6" "length (mac_address nid) = 6"
  "wf_addr dst \<Longrightarrow> length (multicast_mac_from_ipv6 dst) = 6"
  by (simp_all add: mac_from_nodeid_def mac_address_def multicast_mac_from_ipv6_def MAC_LEN_def
      Let_def wf_addr_def)

end
