(* ===== verification/Frame.thy ===== *)
theory Frame
  imports Addr
begin

text \<open>
  \<open>bm-wire/src/frame.rs\<close>: the field offsets of an Ethernet/IPv6 frame, derived from each
  other as in the source, \<open>write_headers\<close> and \<open>ethernet_type\<close>. The lemmas give the
  54 header bytes in closed form and show that writing them never panics and touches
  nothing behind them.
\<close>

section \<open>Field offsets\<close>

definition ETHERNET_DESTINATION_SIZE :: nat where "ETHERNET_DESTINATION_SIZE = 6"
definition ETHERNET_SRC_SIZE :: nat where "ETHERNET_SRC_SIZE = 6"
definition ETHERNET_TYPE_SIZE :: nat where "ETHERNET_TYPE_SIZE = 2"
definition ETHERNET_DESTINATION_OFFSET :: nat where "ETHERNET_DESTINATION_OFFSET = 0"
definition ETHERNET_SRC_OFFSET :: nat where
  "ETHERNET_SRC_OFFSET = ETHERNET_DESTINATION_OFFSET + ETHERNET_DESTINATION_SIZE"
definition ETHERNET_TYPE_OFFSET :: nat where
  "ETHERNET_TYPE_OFFSET = ETHERNET_SRC_OFFSET + ETHERNET_SRC_SIZE"
definition ETHERNET_TYPE_IPV6 :: u16 where "ETHERNET_TYPE_IPV6 = 0x86DD"
definition IPV6_VERSION_TRAFFIC_CLASS_FLOW_LABEL_SIZE :: nat where
  "IPV6_VERSION_TRAFFIC_CLASS_FLOW_LABEL_SIZE = 4"
definition IPV6_PAYLOAD_LENGTH_SIZE :: nat where "IPV6_PAYLOAD_LENGTH_SIZE = 2"
definition IPV6_NEXT_HEADER_SIZE :: nat where "IPV6_NEXT_HEADER_SIZE = 1"
definition IPV6_HOP_LIMIT_SIZE :: nat where "IPV6_HOP_LIMIT_SIZE = 1"
definition IPV6_ADDRESS_SIZE :: nat where "IPV6_ADDRESS_SIZE = 16"
definition IPV6_VERSION_TRAFFIC_CLASS_FLOW_LABEL_OFFSET :: nat where
  "IPV6_VERSION_TRAFFIC_CLASS_FLOW_LABEL_OFFSET = ETHERNET_TYPE_OFFSET + ETHERNET_TYPE_SIZE"
definition IPV6_PAYLOAD_LENGTH_OFFSET :: nat where
  "IPV6_PAYLOAD_LENGTH_OFFSET =
     IPV6_VERSION_TRAFFIC_CLASS_FLOW_LABEL_OFFSET + IPV6_VERSION_TRAFFIC_CLASS_FLOW_LABEL_SIZE"
definition IPV6_NEXT_HEADER_OFFSET :: nat where
  "IPV6_NEXT_HEADER_OFFSET = IPV6_PAYLOAD_LENGTH_OFFSET + IPV6_PAYLOAD_LENGTH_SIZE"
definition IPV6_HOP_LIMIT_OFFSET :: nat where
  "IPV6_HOP_LIMIT_OFFSET = IPV6_NEXT_HEADER_OFFSET + IPV6_NEXT_HEADER_SIZE"
definition IPV6_SOURCE_ADDRESS_OFFSET :: nat where
  "IPV6_SOURCE_ADDRESS_OFFSET = IPV6_HOP_LIMIT_OFFSET + IPV6_HOP_LIMIT_SIZE"
definition IPV6_DESTINATION_ADDRESS_OFFSET :: nat where
  "IPV6_DESTINATION_ADDRESS_OFFSET = IPV6_SOURCE_ADDRESS_OFFSET + IPV6_ADDRESS_SIZE"
definition IPV6_INGRESS_EGRESS_PORTS_OFFSET :: nat where
  "IPV6_INGRESS_EGRESS_PORTS_OFFSET = IPV6_SOURCE_ADDRESS_OFFSET + 2"
definition MIN_FRAME_WITH_ADDRESSES :: nat where
  "MIN_FRAME_WITH_ADDRESSES = IPV6_DESTINATION_ADDRESS_OFFSET + IPV6_ADDRESS_SIZE"
definition IP_PROTO_BCMP :: u8 where "IP_PROTO_BCMP = 0xBC"
definition IP_PROTO_UDP :: u8 where "IP_PROTO_UDP = 17"
definition UDP_SOURCE_PORT_OFFSET :: nat where
  "UDP_SOURCE_PORT_OFFSET = IPV6_DESTINATION_ADDRESS_OFFSET + IPV6_ADDRESS_SIZE"
definition UDP_DESTINATION_PORT_OFFSET :: nat where
  "UDP_DESTINATION_PORT_OFFSET = UDP_SOURCE_PORT_OFFSET + 2"
definition UDP_LENGTH_OFFSET :: nat where "UDP_LENGTH_OFFSET = UDP_DESTINATION_PORT_OFFSET + 2"
definition UDP_CHECKSUM_OFFSET :: nat where "UDP_CHECKSUM_OFFSET = UDP_LENGTH_OFFSET + 2"
definition UDP_HEADER_LEN :: nat where "UDP_HEADER_LEN = 8"
definition HOP_LIMIT :: u8 where "HOP_LIMIT = 255"

lemma offsets [simp]:
  "ETHERNET_DESTINATION_SIZE = 6" "ETHERNET_SRC_SIZE = 6" "ETHERNET_TYPE_SIZE = 2"
  "ETHERNET_DESTINATION_OFFSET = 0" "ETHERNET_SRC_OFFSET = 6" "ETHERNET_TYPE_OFFSET = 12"
  "IPV6_VERSION_TRAFFIC_CLASS_FLOW_LABEL_SIZE = 4" "IPV6_PAYLOAD_LENGTH_SIZE = 2"
  "IPV6_ADDRESS_SIZE = 16" "IPV6_VERSION_TRAFFIC_CLASS_FLOW_LABEL_OFFSET = 14"
  "IPV6_PAYLOAD_LENGTH_OFFSET = 18" "IPV6_NEXT_HEADER_OFFSET = 20" "IPV6_HOP_LIMIT_OFFSET = 21"
  "IPV6_SOURCE_ADDRESS_OFFSET = 22" "IPV6_DESTINATION_ADDRESS_OFFSET = 38"
  "IPV6_INGRESS_EGRESS_PORTS_OFFSET = 24" "MIN_FRAME_WITH_ADDRESSES = 54"
  "UDP_SOURCE_PORT_OFFSET = 54" "UDP_DESTINATION_PORT_OFFSET = 56" "UDP_LENGTH_OFFSET = 58"
  "UDP_CHECKSUM_OFFSET = 60" "UDP_HEADER_LEN = 8" "MAC_LEN = 6"
  by (simp_all add: ETHERNET_DESTINATION_SIZE_def ETHERNET_SRC_SIZE_def ETHERNET_TYPE_SIZE_def
      ETHERNET_DESTINATION_OFFSET_def ETHERNET_SRC_OFFSET_def ETHERNET_TYPE_OFFSET_def
      IPV6_VERSION_TRAFFIC_CLASS_FLOW_LABEL_SIZE_def IPV6_PAYLOAD_LENGTH_SIZE_def
      IPV6_NEXT_HEADER_SIZE_def IPV6_HOP_LIMIT_SIZE_def IPV6_ADDRESS_SIZE_def
      IPV6_VERSION_TRAFFIC_CLASS_FLOW_LABEL_OFFSET_def IPV6_PAYLOAD_LENGTH_OFFSET_def
      IPV6_NEXT_HEADER_OFFSET_def IPV6_HOP_LIMIT_OFFSET_def IPV6_SOURCE_ADDRESS_OFFSET_def
      IPV6_DESTINATION_ADDRESS_OFFSET_def IPV6_INGRESS_EGRESS_PORTS_OFFSET_def
      MIN_FRAME_WITH_ADDRESSES_def UDP_SOURCE_PORT_OFFSET_def UDP_DESTINATION_PORT_OFFSET_def
      UDP_LENGTH_OFFSET_def UDP_CHECKSUM_OFFSET_def UDP_HEADER_LEN_def MAC_LEN_def)

section \<open>Headers\<close>

definition dst_mac_of :: "BmIpAddr \<Rightarrow> bytes" where
  "dst_mac_of dst = (if is_multicast dst then multicast_mac_from_ipv6 dst else replicate MAC_LEN 0xFF)"

definition write_headers ::
  "bytes \<Rightarrow> BmIpAddr \<Rightarrow> BmIpAddr \<Rightarrow> u8 \<Rightarrow> u8 \<Rightarrow> nat \<Rightarrow> (bytes \<times> (BmWireError, unit) result) option" where
  "write_headers buf src dst next_header hop_limit payload_len =
     (if payload_len \<ge> 65536 then Some (buf, Err Invalid)
      else if length buf < MIN_FRAME_WITH_ADDRESSES then Some (buf, Err Truncated)
      else do {
        buf \<leftarrow> copy_at buf ETHERNET_DESTINATION_OFFSET (dst_mac_of dst);
        buf \<leftarrow> copy_at buf ETHERNET_SRC_OFFSET (mac_address (to_node_id src));
        buf \<leftarrow> copy_at buf ETHERNET_TYPE_OFFSET (to_be 2 ETHERNET_TYPE_IPV6);
        buf \<leftarrow> copy_at buf IPV6_VERSION_TRAFFIC_CLASS_FLOW_LABEL_OFFSET [0x60, 0, 0, 0];
        buf \<leftarrow> copy_at buf IPV6_PAYLOAD_LENGTH_OFFSET (to_be 2 (of_nat payload_len :: u16));
        buf \<leftarrow> set_at buf IPV6_NEXT_HEADER_OFFSET next_header;
        buf \<leftarrow> set_at buf IPV6_HOP_LIMIT_OFFSET hop_limit;
        buf \<leftarrow> copy_at buf IPV6_SOURCE_ADDRESS_OFFSET src;
        buf \<leftarrow> copy_at buf IPV6_DESTINATION_ADDRESS_OFFSET dst;
        Some (buf, Ok ())
      })"

definition ethernet_type :: "bytes \<Rightarrow> u16 option" where
  "ethernet_type frame = do {
     b \<leftarrow> range_at frame ETHERNET_TYPE_OFFSET (ETHERNET_TYPE_OFFSET + ETHERNET_TYPE_SIZE);
     Some (from_be [b ! 0, b ! 1])
   }"

text \<open>The header bytes in closed form.\<close>

definition headers :: "BmIpAddr \<Rightarrow> BmIpAddr \<Rightarrow> u8 \<Rightarrow> u8 \<Rightarrow> nat \<Rightarrow> bytes" where
  "headers src dst nh hl plen =
     dst_mac_of dst @ mac_address (to_node_id src) @ to_be 2 ETHERNET_TYPE_IPV6 @ [0x60, 0, 0, 0] @
     to_be 2 (of_nat plen :: u16) @ [nh, hl] @ src @ dst"

lemma length_dst_mac_of [simp]: "wf_addr dst \<Longrightarrow> length (dst_mac_of dst) = 6"
  by (simp add: dst_mac_of_def)

lemma length_headers [simp]:
  "wf_addr src \<Longrightarrow> wf_addr dst \<Longrightarrow> length (headers src dst nh hl plen) = 54"
  by (simp add: headers_def wf_addr_def [of src] wf_addr_def [of dst, symmetric])

lemma write_headers_ok [wire_simps]:
  assumes "wf_addr src" "wf_addr dst" "54 \<le> length buf" "plen < 65536"
  shows "write_headers buf src dst nh hl plen = Some (put buf 0 (headers src dst nh hl plen), Ok ())"
proof -
  have l: "length src = 16" "length dst = 16" "length (dst_mac_of dst) = 6"
    using assms by (simp_all add: wf_addr_def [symmetric])
  show ?thesis
    using assms(3,4) l
    by (simp add: write_headers_def buf_simps put_put_seq put_update_seq headers_def del: to_le_numeral)
qed

lemma ethernet_type_in: "54 \<le> length f \<Longrightarrow> ethernet_type f = Some (from_be (subslice f 12 2))"
  by (simp add: ethernet_type_def buf_simps)
     (simp add: subslice_def numeral_2_eq_2 take_Suc_conv_app_nth)

lemma headers_fields:
  assumes "wf_addr src" "wf_addr dst"
  shows "subslice (headers src dst nh hl plen) 12 2 = to_be 2 ETHERNET_TYPE_IPV6"
    "subslice (headers src dst nh hl plen) 18 2 = to_be 2 (of_nat plen :: u16)"
    "headers src dst nh hl plen ! 20 = nh" "headers src dst nh hl plen ! 21 = hl"
    "subslice (headers src dst nh hl plen) 22 16 = src"
    "subslice (headers src dst nh hl plen) 38 16 = dst"
proof -
  have l: "length src = 16" "length dst = 16" "length (dst_mac_of dst) = 6"
    using assms by (simp_all add: wf_addr_def [symmetric])
  show "subslice (headers src dst nh hl plen) 12 2 = to_be 2 ETHERNET_TYPE_IPV6"
    "subslice (headers src dst nh hl plen) 18 2 = to_be 2 (of_nat plen :: u16)"
    "headers src dst nh hl plen ! 20 = nh" "headers src dst nh hl plen ! 21 = hl"
    "subslice (headers src dst nh hl plen) 22 16 = src"
    "subslice (headers src dst nh hl plen) 38 16 = dst"
    using l by (simp_all add: headers_def nth_append)
qed

end
