(* ===== verification/Le.thy ===== *)
theory Le
  imports BM_Prelude
begin

text \<open>
  \<open>bm-wire/src/le.rs\<close>, the little-endian field reads the codecs share, and the interface
  of a fixed-length message codec: \<open>fixed_codec\<close> states what every \<open>encode\<close> and
  \<open>decode\<close> of the wire crate promises of its buffer, and its lemmas are proved once for
  all of them. The codecs interpret it in their own theories.
\<close>

section \<open>Field reads\<close>

definition prefix :: "nat \<Rightarrow> bytes \<Rightarrow> (BmWireError, bytes) result" where
  "prefix n buf = (if n \<le> length buf then Ok (take n buf) else Err Truncated)"

definition array_at :: "nat \<Rightarrow> bytes \<Rightarrow> nat \<Rightarrow> bytes option" where
  "array_at n buf at = range_at buf at (at + n)"

definition u16_at :: "bytes \<Rightarrow> nat \<Rightarrow> u16 option" where
  "u16_at buf at = map_option from_le (array_at 2 buf at)"

definition u32_at :: "bytes \<Rightarrow> nat \<Rightarrow> u32 option" where
  "u32_at buf at = map_option from_le (array_at 4 buf at)"

definition u64_at :: "bytes \<Rightarrow> nat \<Rightarrow> u64 option" where
  "u64_at buf at = map_option from_le (array_at 8 buf at)"

text \<open>The question-mark operator: an error value ends the function early.\<close>

definition try_ok :: "('e, 'a) result \<Rightarrow> ('a \<Rightarrow> ('e, 'b) result option) \<Rightarrow> ('e, 'b) result option" where
  "try_ok r f = (case r of Ok a \<Rightarrow> f a | Err e \<Rightarrow> Some (Err e))"

lemma try_ok_simps [simp]: "try_ok (Ok a) f = f a" "try_ok (Err e) f = Some (Err e)"
  by (simp_all add: try_ok_def)

lemma uN_at_in [buf_simps]:
  "at + 2 \<le> length buf \<Longrightarrow> u16_at buf at = Some (from_le (subslice buf at 2))"
  "at + 4 \<le> length buf \<Longrightarrow> u32_at buf at = Some (from_le (subslice buf at 4))"
  "at + 8 \<le> length buf \<Longrightarrow> u64_at buf at = Some (from_le (subslice buf at 8))"
  by (simp_all add: u16_at_def u32_at_def u64_at_def array_at_def range_at_def)

lemma prefix_simps [buf_simps]:
  "n \<le> length buf \<Longrightarrow> prefix n buf = Ok (take n buf)"
  "length buf < n \<Longrightarrow> prefix n buf = Err Truncated"
  by (simp_all add: prefix_def)

lemma to_from_le_widths [simp]:
  "length bs = 2 \<Longrightarrow> to_le 2 (from_le bs :: u16) = bs"
  "length bs = 4 \<Longrightarrow> to_le 4 (from_le bs :: u32) = bs"
  "length bs = 8 \<Longrightarrow> to_le 8 (from_le bs :: u64) = bs"
  by (simp_all add: to_from_le del: to_le_numeral)

section \<open>The interface of a fixed-length codec\<close>

type_synonym 'a encoder = "'a \<Rightarrow> bytes \<Rightarrow> (bytes \<times> (BmWireError, unit) result) option"
type_synonym 'a decoder = "bytes \<Rightarrow> (BmWireError, 'a) result option"

locale fixed_codec =
  fixes len :: nat
    and encode :: "'a encoder"
    and decode :: "'a decoder"
    and wire :: "'a \<Rightarrow> bytes"
  assumes length_wire: "length (wire v) = len"
    and encode_short: "length buf < len \<Longrightarrow> encode v buf = Some (buf, Err Truncated)"
    and encode_ok: "len \<le> length buf \<Longrightarrow> encode v buf = Some (put buf 0 (wire v), Ok ())"
    and decode_short: "length buf < len \<Longrightarrow> decode buf = Some (Err Truncated)"
    and decode_wire: "decode (wire v @ rest) = Some (Ok v)"
    and wire_surj: "length buf = len \<Longrightarrow> \<exists>v. wire v = buf"
begin

lemma decode_long:
  assumes "len \<le> length buf"
  shows "\<exists>v. decode buf = Some (Ok v) \<and> wire v = take len buf"
proof -
  obtain v where "wire v = take len buf" using wire_surj [of "take len buf"] assms by auto
  then show ?thesis using decode_wire [of v "drop len buf"] by auto
qed

lemma never_panics: "encode v buf \<noteq> None" "decode buf \<noteq> None"
  using encode_short encode_ok decode_short decode_long
  by (metis linorder_not_less option.distinct(1))+

lemma roundtrip:
  assumes "encode v buf = Some (buf', Ok ())"
  shows "decode buf' = Some (Ok v)" and "length buf' = length buf" and "drop len buf' = drop len buf"
proof -
  have "len \<le> length buf" using assms encode_short [of buf v] by force
  then show "decode buf' = Some (Ok v)" "length buf' = length buf" "drop len buf' = drop len buf"
    using assms encode_ok [of buf v] decode_wire [of v] length_wire [of v] by (auto simp: put_0)
qed

lemma reencode:
  assumes "decode buf = Some (Ok v)"
  shows "encode v buf = Some (buf, Ok ())"
proof -
  have len: "len \<le> length buf" using assms decode_short [of buf] by force
  then obtain v' where "decode buf = Some (Ok v')" "wire v' = take len buf"
    using decode_long by blast
  with assms have "wire v = take len buf" by simp
  then show ?thesis using encode_ok [OF len, of v] length_wire [of v] by (simp add: put_0)
qed

lemma wire_inject: "wire v = wire w \<longleftrightarrow> v = w"
  using decode_wire by (metis option.inject result.inject(1))

lemma decode_Err: "decode buf = Some (Err e) \<longleftrightarrow> length buf < len \<and> e = Truncated"
  using decode_short [of buf] decode_long [of buf] by (cases "length buf < len") auto

end

section \<open>The interface of a message codec of variable length\<close>

text \<open>A message whose length depends on its contents: \<open>encode\<close> returns the bytes written and
  refuses messages the length fields cannot describe.\<close>

type_synonym 'a msg_encoder = "'a \<Rightarrow> bytes \<Rightarrow> (bytes \<times> (BmWireError, nat) result) option"

locale message_codec =
  fixes encode :: "'a msg_encoder"
    and decode :: "'a decoder"
    and wire :: "'a \<Rightarrow> bytes"
    and encodable :: "'a \<Rightarrow> bool"
  assumes encode_ok: "encodable m \<Longrightarrow> length (wire m) \<le> length buf \<Longrightarrow>
      encode m buf = Some (put buf 0 (wire m), Ok (length (wire m)))"
    and encode_short: "encodable m \<Longrightarrow> length buf < length (wire m) \<Longrightarrow> encode m buf = Some (buf, Err Truncated)"
    and encode_refuses: "\<not> encodable m \<Longrightarrow> encode m buf = Some (buf, Err Invalid)"
    and decode_wire: "encodable m \<Longrightarrow> decode (wire m @ rest) = Some (Ok m)"
begin

lemma encode_total: "encode m buf \<noteq> None"
  using encode_ok encode_short encode_refuses by (metis linorder_not_less option.distinct(1))

lemma roundtrip:
  assumes "encode m buf = Some (buf', Ok n)"
  shows "decode (take n buf' @ rest) = Some (Ok m)" "length buf' = length buf" "drop n buf' = drop n buf"
    "take n buf' = wire m"
proof -
  have e: "encodable m" using assms encode_refuses by force
  have l: "length (wire m) \<le> length buf"
    using assms encode_short [OF e, of buf] by (cases "length buf < length (wire m)") auto
  show "decode (take n buf' @ rest) = Some (Ok m)" "length buf' = length buf" "drop n buf' = drop n buf"
    "take n buf' = wire m"
    using assms encode_ok [OF e l] decode_wire [OF e] l by (auto simp: put_0)
qed

lemma encode_length:
  assumes "encode m buf = Some (buf', Ok n)"
  shows "n = length (wire m)"
proof -
  have e: "encodable m" using assms encode_refuses by force
  then show ?thesis using assms encode_short [OF e, of buf] encode_ok [OF e, of buf]
    by (cases "length buf < length (wire m)") auto
qed

end

end
