(* ===== verification/Bcmp_Header.thy ===== *)
theory Bcmp_Header
  imports Frame Le
begin

text \<open>
  \<open>bm-wire/src/bcmp/header.rs\<close> and \<open>heartbeat.rs\<close>: the 13-byte BCMP header, the
  message types, and the heartbeat message. Both codecs interpret the interface
  \<open>fixed_codec\<close>, so round trips, re-encoding and panic freedom are its lemmas.
\<close>

section \<open>Message types\<close>

type_synonym MessageType = u16

definition ACK :: MessageType where "ACK = 0x00"
definition HEARTBEAT :: MessageType where "HEARTBEAT = 0x01"
definition ECHO_REQUEST :: MessageType where "ECHO_REQUEST = 0x02"
definition ECHO_REPLY :: MessageType where "ECHO_REPLY = 0x03"
definition DEVICE_INFO_REQUEST :: MessageType where "DEVICE_INFO_REQUEST = 0x04"
definition DEVICE_INFO_REPLY :: MessageType where "DEVICE_INFO_REPLY = 0x05"
definition PROTOCOL_CAPS_REQUEST :: MessageType where "PROTOCOL_CAPS_REQUEST = 0x06"
definition PROTOCOL_CAPS_REPLY :: MessageType where "PROTOCOL_CAPS_REPLY = 0x07"
definition NEIGHBOR_TABLE_REQUEST :: MessageType where "NEIGHBOR_TABLE_REQUEST = 0x08"
definition NEIGHBOR_TABLE_REPLY :: MessageType where "NEIGHBOR_TABLE_REPLY = 0x09"
definition RESOURCE_TABLE_REQUEST :: MessageType where "RESOURCE_TABLE_REQUEST = 0x0A"
definition RESOURCE_TABLE_REPLY :: MessageType where "RESOURCE_TABLE_REPLY = 0x0B"
definition NEIGHBOR_PROTO_REQUEST :: MessageType where "NEIGHBOR_PROTO_REQUEST = 0x0C"
definition NEIGHBOR_PROTO_REPLY :: MessageType where "NEIGHBOR_PROTO_REPLY = 0x0D"
definition SYSTEM_TIME_REQUEST :: MessageType where "SYSTEM_TIME_REQUEST = 0x10"
definition SYSTEM_TIME_RESPONSE :: MessageType where "SYSTEM_TIME_RESPONSE = 0x11"
definition SYSTEM_TIME_SET :: MessageType where "SYSTEM_TIME_SET = 0x12"
definition CONFIG_GET :: MessageType where "CONFIG_GET = 0xA0"
definition CONFIG_VALUE :: MessageType where "CONFIG_VALUE = 0xA1"
definition CONFIG_SET :: MessageType where "CONFIG_SET = 0xA2"
definition CONFIG_COMMIT :: MessageType where "CONFIG_COMMIT = 0xA3"
definition CONFIG_STATUS_REQUEST :: MessageType where "CONFIG_STATUS_REQUEST = 0xA4"
definition CONFIG_STATUS_RESPONSE :: MessageType where "CONFIG_STATUS_RESPONSE = 0xA5"
definition CONFIG_DELETE_REQUEST :: MessageType where "CONFIG_DELETE_REQUEST = 0xA6"
definition CONFIG_DELETE_RESPONSE :: MessageType where "CONFIG_DELETE_RESPONSE = 0xA7"
definition CONFIG_CLEAR_REQUEST :: MessageType where "CONFIG_CLEAR_REQUEST = 0xA8"
definition CONFIG_CLEAR_RESPONSE :: MessageType where "CONFIG_CLEAR_RESPONSE = 0xA9"
definition NET_STATE_REQUEST :: MessageType where "NET_STATE_REQUEST = 0xB0"
definition NET_STATE_REPLY :: MessageType where "NET_STATE_REPLY = 0xB1"
definition POWER_STATE_REQUEST :: MessageType where "POWER_STATE_REQUEST = 0xB2"
definition POWER_STATE_REPLY :: MessageType where "POWER_STATE_REPLY = 0xB3"
definition REBOOT_REQUEST :: MessageType where "REBOOT_REQUEST = 0xC0"
definition REBOOT_REPLY :: MessageType where "REBOOT_REPLY = 0xC1"
definition NET_ASSERT_QUIET :: MessageType where "NET_ASSERT_QUIET = 0xC2"
definition DFU_START :: MessageType where "DFU_START = 0xD0"
definition DFU_PAYLOAD_REQ :: MessageType where "DFU_PAYLOAD_REQ = 0xD1"
definition DFU_PAYLOAD :: MessageType where "DFU_PAYLOAD = 0xD2"
definition DFU_END :: MessageType where "DFU_END = 0xD3"
definition DFU_ACK :: MessageType where "DFU_ACK = 0xD4"
definition DFU_ABORT :: MessageType where "DFU_ABORT = 0xD5"
definition DFU_HEARTBEAT :: MessageType where "DFU_HEARTBEAT = 0xD6"
definition DFU_REBOOT_REQ :: MessageType where "DFU_REBOOT_REQ = 0xD7"
definition DFU_REBOOT :: MessageType where "DFU_REBOOT = 0xD8"
definition DFU_BOOT_COMPLETE :: MessageType where "DFU_BOOT_COMPLETE = 0xD9"
definition HEADER :: MessageType where "HEADER = 0xFFFF"

definition message_types :: "(MessageType \<times> string) list" where
  "message_types =
    [(ACK, ''Ack''),
     (HEARTBEAT, ''Heartbeat''),
     (ECHO_REQUEST, ''EchoRequest''),
     (ECHO_REPLY, ''EchoReply''),
     (DEVICE_INFO_REQUEST, ''DeviceInfoRequest''),
     (DEVICE_INFO_REPLY, ''DeviceInfoReply''),
     (PROTOCOL_CAPS_REQUEST, ''ProtocolCapsRequest''),
     (PROTOCOL_CAPS_REPLY, ''ProtocolCapsReply''),
     (NEIGHBOR_TABLE_REQUEST, ''NeighborTableRequest''),
     (NEIGHBOR_TABLE_REPLY, ''NeighborTableReply''),
     (RESOURCE_TABLE_REQUEST, ''ResourceTableRequest''),
     (RESOURCE_TABLE_REPLY, ''ResourceTableReply''),
     (NEIGHBOR_PROTO_REQUEST, ''NeighborProtoRequest''),
     (NEIGHBOR_PROTO_REPLY, ''NeighborProtoReply''),
     (SYSTEM_TIME_REQUEST, ''SystemTimeRequest''),
     (SYSTEM_TIME_RESPONSE, ''SystemTimeResponse''),
     (SYSTEM_TIME_SET, ''SystemTimeSet''),
     (CONFIG_GET, ''ConfigGet''),
     (CONFIG_VALUE, ''ConfigValue''),
     (CONFIG_SET, ''ConfigSet''),
     (CONFIG_COMMIT, ''ConfigCommit''),
     (CONFIG_STATUS_REQUEST, ''ConfigStatusRequest''),
     (CONFIG_STATUS_RESPONSE, ''ConfigStatusResponse''),
     (CONFIG_DELETE_REQUEST, ''ConfigDeleteRequest''),
     (CONFIG_DELETE_RESPONSE, ''ConfigDeleteResponse''),
     (CONFIG_CLEAR_REQUEST, ''ConfigClearRequest''),
     (CONFIG_CLEAR_RESPONSE, ''ConfigClearResponse''),
     (NET_STATE_REQUEST, ''NetStateRequest''),
     (NET_STATE_REPLY, ''NetStateReply''),
     (POWER_STATE_REQUEST, ''PowerStateRequest''),
     (POWER_STATE_REPLY, ''PowerStateReply''),
     (REBOOT_REQUEST, ''RebootRequest''),
     (REBOOT_REPLY, ''RebootReply''),
     (NET_ASSERT_QUIET, ''NetAssertQuiet''),
     (DFU_START, ''DfuStart''),
     (DFU_PAYLOAD_REQ, ''DfuPayloadReq''),
     (DFU_PAYLOAD, ''DfuPayload''),
     (DFU_END, ''DfuEnd''),
     (DFU_ACK, ''DfuAck''),
     (DFU_ABORT, ''DfuAbort''),
     (DFU_HEARTBEAT, ''DfuHeartbeat''),
     (DFU_REBOOT_REQ, ''DfuRebootReq''),
     (DFU_REBOOT, ''DfuReboot''),
     (DFU_BOOT_COMPLETE, ''DfuBootComplete''),
     (HEADER, ''Header'')]"

definition message_name :: "MessageType \<Rightarrow> string option" where
  "message_name t = map_of message_types t"

lemmas message_type_defs =
  ACK_def HEARTBEAT_def ECHO_REQUEST_def ECHO_REPLY_def DEVICE_INFO_REQUEST_def
  DEVICE_INFO_REPLY_def PROTOCOL_CAPS_REQUEST_def PROTOCOL_CAPS_REPLY_def
  NEIGHBOR_TABLE_REQUEST_def NEIGHBOR_TABLE_REPLY_def RESOURCE_TABLE_REQUEST_def
  RESOURCE_TABLE_REPLY_def NEIGHBOR_PROTO_REQUEST_def NEIGHBOR_PROTO_REPLY_def
  SYSTEM_TIME_REQUEST_def SYSTEM_TIME_RESPONSE_def SYSTEM_TIME_SET_def CONFIG_GET_def
  CONFIG_VALUE_def CONFIG_SET_def CONFIG_COMMIT_def CONFIG_STATUS_REQUEST_def
  CONFIG_STATUS_RESPONSE_def CONFIG_DELETE_REQUEST_def CONFIG_DELETE_RESPONSE_def
  CONFIG_CLEAR_REQUEST_def CONFIG_CLEAR_RESPONSE_def NET_STATE_REQUEST_def NET_STATE_REPLY_def
  POWER_STATE_REQUEST_def POWER_STATE_REPLY_def REBOOT_REQUEST_def REBOOT_REPLY_def
  NET_ASSERT_QUIET_def DFU_START_def DFU_PAYLOAD_REQ_def DFU_PAYLOAD_def DFU_END_def
  DFU_ACK_def DFU_ABORT_def DFU_HEARTBEAT_def DFU_REBOOT_REQ_def DFU_REBOOT_def
  DFU_BOOT_COMPLETE_def HEADER_def

section \<open>The header\<close>

definition BCMP_HEADER_LEN :: nat where "BCMP_HEADER_LEN = 13"
definition BCMP_HEADER_OFFSET :: nat where
  "BCMP_HEADER_OFFSET = IPV6_DESTINATION_ADDRESS_OFFSET + IPV6_ADDRESS_SIZE"
definition MIN_BCMP_FRAME_SIZE :: nat where
  "MIN_BCMP_FRAME_SIZE = BCMP_HEADER_OFFSET + BCMP_HEADER_LEN"
definition CHECKSUM_FIELD_OFFSET :: nat where "CHECKSUM_FIELD_OFFSET = 2"

lemma bcmp_offsets [simp]:
  "BCMP_HEADER_LEN = 13" "BCMP_HEADER_OFFSET = 54" "MIN_BCMP_FRAME_SIZE = 67" "CHECKSUM_FIELD_OFFSET = 2"
  by (simp_all add: BCMP_HEADER_LEN_def BCMP_HEADER_OFFSET_def MIN_BCMP_FRAME_SIZE_def
      CHECKSUM_FIELD_OFFSET_def)

record BcmpHeader =
  message_type :: MessageType
  checksum :: u16
  flags :: u8
  reserved :: u8
  seq_num :: u32
  frag_total :: u8
  frag_id :: u8
  next_header :: u8

definition header_decode :: "BcmpHeader decoder" where
  "header_decode buf = try_ok (prefix BCMP_HEADER_LEN buf) (\<lambda>buf. do {
     t \<leftarrow> u16_at buf 0;
     c \<leftarrow> u16_at buf 2;
     fl \<leftarrow> get_at buf 4;
     re \<leftarrow> get_at buf 5;
     sn \<leftarrow> u32_at buf 6;
     ft \<leftarrow> get_at buf 10;
     fi \<leftarrow> get_at buf 11;
     nh \<leftarrow> get_at buf 12;
     Some (Ok \<lparr>message_type = t, checksum = c, flags = fl, reserved = re, seq_num = sn,
               frag_total = ft, frag_id = fi, next_header = nh\<rparr>)
   })"

definition header_encode :: "BcmpHeader encoder" where
  "header_encode h buf =
     (if length buf < BCMP_HEADER_LEN then Some (buf, Err Truncated)
      else do {
        buf \<leftarrow> copy_at buf 0 (to_le 2 (message_type h));
        buf \<leftarrow> copy_at buf 2 (to_le 2 (checksum h));
        buf \<leftarrow> set_at buf 4 (flags h);
        buf \<leftarrow> set_at buf 5 (reserved h);
        buf \<leftarrow> copy_at buf 6 (to_le 4 (seq_num h));
        buf \<leftarrow> set_at buf 10 (frag_total h);
        buf \<leftarrow> set_at buf 11 (frag_id h);
        buf \<leftarrow> set_at buf 12 (next_header h);
        Some (buf, Ok ())
      })"

definition header_wire :: "BcmpHeader \<Rightarrow> bytes" where
  "header_wire h = to_le 2 (message_type h) @ to_le 2 (checksum h) @ [flags h, reserved h] @
     to_le 4 (seq_num h) @ [frag_total h, frag_id h, next_header h]"

lemma length_header_wire [simp]: "length (header_wire h) = 13"
  by (simp add: header_wire_def)

section \<open>The heartbeat\<close>

record Heartbeat =
  time_since_boot_us :: u64
  liveliness_lease_dur_s :: u32

definition HEARTBEAT_LEN :: nat where "HEARTBEAT_LEN = 12"

definition heartbeat_decode :: "Heartbeat decoder" where
  "heartbeat_decode buf = try_ok (prefix HEARTBEAT_LEN buf) (\<lambda>buf. do {
     t \<leftarrow> u64_at buf 0;
     l \<leftarrow> u32_at buf 8;
     Some (Ok \<lparr>time_since_boot_us = t, liveliness_lease_dur_s = l\<rparr>)
   })"

definition heartbeat_encode :: "Heartbeat encoder" where
  "heartbeat_encode h buf =
     (if length buf < HEARTBEAT_LEN then Some (buf, Err Truncated)
      else do {
        buf \<leftarrow> copy_at buf 0 (to_le 8 (time_since_boot_us h));
        buf \<leftarrow> copy_at buf 8 (to_le 4 (liveliness_lease_dur_s h));
        Some (buf, Ok ())
      })"

definition heartbeat_wire :: "Heartbeat \<Rightarrow> bytes" where
  "heartbeat_wire h = to_le 8 (time_since_boot_us h) @ to_le 4 (liveliness_lease_dur_s h)"

section \<open>Both are fixed-length codecs\<close>

lemma header_wire_surj: "length buf = 13 \<Longrightarrow> \<exists>h. header_wire h = buf"
proof -
  assume len: "length buf = 13"
  let ?h = "\<lparr>message_type = from_le (subslice buf 0 2), checksum = from_le (subslice buf 2 2),
    flags = buf ! 4, reserved = buf ! 5, seq_num = from_le (subslice buf 6 4),
    frag_total = buf ! 10, frag_id = buf ! 11, next_header = buf ! 12\<rparr>"
  have "header_wire ?h = buf"
    using len by (simp add: header_wire_def join_simps del: to_le_numeral)
  then show ?thesis by blast
qed

interpretation hdr: fixed_codec BCMP_HEADER_LEN header_encode header_decode header_wire
proof unfold_locales
  show "length (header_wire h) = BCMP_HEADER_LEN" for h by simp
  show "header_encode h buf = Some (buf, Err Truncated)" if "length buf < BCMP_HEADER_LEN" for h buf
    using that by (simp add: header_encode_def)
  show "header_encode h buf = Some (put buf 0 (header_wire h), Ok ())"
    if "BCMP_HEADER_LEN \<le> length buf" for h buf
    using that by (simp add: header_encode_def header_wire_def buf_simps put_put_seq put_update_seq
        del: to_le_numeral)
  show "header_decode buf = Some (Err Truncated)" if "length buf < BCMP_HEADER_LEN" for buf
    using that by (simp add: header_decode_def buf_simps)
  show "header_decode (header_wire h @ rest) = Some (Ok h)" for h rest
    by (simp add: header_decode_def header_wire_def buf_simps nth_append del: to_le_numeral)
  show "\<exists>h. header_wire h = buf" if "length buf = BCMP_HEADER_LEN" for buf
    using that header_wire_surj by simp
qed

interpretation hb: fixed_codec HEARTBEAT_LEN heartbeat_encode heartbeat_decode heartbeat_wire
proof unfold_locales
  have n: "HEARTBEAT_LEN = 12" by (simp add: HEARTBEAT_LEN_def)
  show "length (heartbeat_wire h) = HEARTBEAT_LEN" for h by (simp add: heartbeat_wire_def n)
  show "heartbeat_encode h buf = Some (buf, Err Truncated)" if "length buf < HEARTBEAT_LEN" for h buf
    using that by (simp add: heartbeat_encode_def)
  show "heartbeat_encode h buf = Some (put buf 0 (heartbeat_wire h), Ok ())"
    if "HEARTBEAT_LEN \<le> length buf" for h buf
    using that by (simp add: heartbeat_encode_def heartbeat_wire_def n buf_simps put_put_seq
        del: to_le_numeral)
  show "heartbeat_decode buf = Some (Err Truncated)" if "length buf < HEARTBEAT_LEN" for buf
    using that by (simp add: heartbeat_decode_def buf_simps)
  show "heartbeat_decode (heartbeat_wire h @ rest) = Some (Ok h)" for h rest
    by (simp add: heartbeat_decode_def heartbeat_wire_def n buf_simps del: to_le_numeral)
  show "\<exists>h. heartbeat_wire h = buf" if "length buf = HEARTBEAT_LEN" for buf
    using that
    by (intro exI [of _ "\<lparr>time_since_boot_us = from_le (subslice buf 0 8),
          liveliness_lease_dur_s = from_le (subslice buf 8 4)\<rparr>"])
       (simp add: heartbeat_wire_def n join_simps del: to_le_numeral)
qed

end
