(* ===== verification/Bcmp_Tx.thy ===== *)
theory Bcmp_Tx
  imports Bcmp_Header Checksum
begin

text \<open>
  \<open>bm-wire/src/bcmp/tx.rs\<close>: writing a BCMP header and checksum around a body, and building
  a whole frame. The lemmas give the bytes written in closed form. The \<open>checked_add\<close>s on
  \<open>usize\<close> are on unbounded naturals here: the branch a wrap would take returns the error
  that the length check behind it returns for the same argument.
\<close>

definition read_addr :: "bytes \<Rightarrow> nat \<Rightarrow> BmIpAddr option" where
  "read_addr frame offset = range_at frame offset (offset + IPV6_ADDRESS_SIZE)"

definition fresh_header :: "MessageType \<Rightarrow> u32 \<Rightarrow> BcmpHeader" where
  "fresh_header mt sn = \<lparr>message_type = mt, checksum = 0, flags = 0, reserved = 0, seq_num = sn,
     frag_total = 0, frag_id = 0, next_header = 0\<rparr>"

definition serialize_in_place ::
  "bytes \<Rightarrow> MessageType \<Rightarrow> u32 \<Rightarrow> nat \<Rightarrow> (bytes \<times> (BmWireError, unit) result) option" where
  "serialize_in_place frame mt sn body_len =
     (let end = BCMP_HEADER_OFFSET + (BCMP_HEADER_LEN + body_len) in
      if length frame < end then Some (frame, Err Truncated)
      else do {
        (sub, r) \<leftarrow> header_encode (fresh_header mt sn) (drop BCMP_HEADER_OFFSET frame);
        let frame = take BCMP_HEADER_OFFSET frame @ sub;
        case r of
          Err e \<Rightarrow> Some (frame, Err e)
        | Ok _ \<Rightarrow> do {
            src \<leftarrow> read_addr frame IPV6_SOURCE_ADDRESS_OFFSET;
            dst \<leftarrow> read_addr frame IPV6_DESTINATION_ADDRESS_OFFSET;
            data \<leftarrow> range_at frame BCMP_HEADER_OFFSET end;
            let c = ipv6_pseudo_checksum src dst IP_PROTO_BCMP data;
            frame \<leftarrow> copy_at frame (BCMP_HEADER_OFFSET + CHECKSUM_FIELD_OFFSET) (to_le 2 c);
            Some (frame, Ok ())
          }
      })"

definition serialize ::
  "bytes \<Rightarrow> MessageType \<Rightarrow> u32 \<Rightarrow> bytes \<Rightarrow> (bytes \<times> (BmWireError, unit) result) option" where
  "serialize frame mt sn body =
     (let end = BCMP_HEADER_OFFSET + BCMP_HEADER_LEN + length body in
      if length frame < end then Some (frame, Err Truncated)
      else do {
        frame \<leftarrow> copy_at frame (BCMP_HEADER_OFFSET + BCMP_HEADER_LEN) body;
        serialize_in_place frame mt sn (length body)
      })"

text \<open>\<open>build\<close> takes the writer of the body as a closure; it is given the rest of the buffer
  and returns it, written, with the number of bytes it used.\<close>

type_synonym body_writer = "bytes \<Rightarrow> bytes \<times> (BmWireError, nat) result"

definition build ::
  "bytes \<Rightarrow> u64 \<Rightarrow> BmIpAddr \<Rightarrow> MessageType \<Rightarrow> u32 \<Rightarrow> body_writer \<Rightarrow>
   (bytes \<times> (BmWireError, nat) result) option" where
  "build buf node_id dst mt sn body =
     (let body_at = BCMP_HEADER_OFFSET + BCMP_HEADER_LEN in
      if length buf < body_at then Some (buf, Err Truncated)
      else let (tail, r) = body (drop body_at buf); buf = take body_at buf @ tail in
        case r of
          Err e \<Rightarrow> Some (buf, Err e)
        | Ok body_len \<Rightarrow> do {
            let payload_len = BCMP_HEADER_LEN + body_len;
            let src = nodeid_to_ip LINK_LOCAL_PREFIX node_id;
            (buf, r) \<leftarrow> write_headers buf src dst IP_PROTO_BCMP HOP_LIMIT payload_len;
            case r of
              Err e \<Rightarrow> Some (buf, Err e)
            | Ok _ \<Rightarrow>
                (let end = MIN_FRAME_WITH_ADDRESSES + payload_len in
                 if length buf < end then Some (buf, Err Truncated)
                 else do {
                   (sub, r) \<leftarrow> serialize_in_place (take end buf) mt sn body_len;
                   let buf = sub @ drop end buf;
                   case r of Err e \<Rightarrow> Some (buf, Err e) | Ok _ \<Rightarrow> Some (buf, Ok end)
                 })
          })"

section \<open>The bytes written\<close>

definition bcmp_checksum :: "BmIpAddr \<Rightarrow> BmIpAddr \<Rightarrow> bytes \<Rightarrow> u16" where
  "bcmp_checksum src dst data = ipv6_pseudo_checksum src dst IP_PROTO_BCMP (put data 2 [0, 0])"

lemma header_wire_split:
  "header_wire h = to_le 2 (message_type h) @ to_le 2 (checksum h) @ drop 4 (header_wire h)"
  by (simp add: header_wire_def del: to_le_numeral)

lemma put_header_checksum:
  "put (header_wire h) 2 (to_le 2 c) = header_wire (h\<lparr>checksum := c\<rparr>)"
  by (simp add: header_wire_def put_def del: to_le_numeral)

lemma put_append_left: "a + length xs \<le> length ys \<Longrightarrow> put (ys @ zs) a xs = put ys a xs @ zs"
  by (simp add: put_def)

lemma put_append_right: "length ys \<le> a \<Longrightarrow> put (ys @ zs) a xs = ys @ put zs (a - length ys) xs"
  by (simp add: put_def)

lemma header_zero_checksum: "put (header_wire h) 2 [0, 0] = header_wire (h\<lparr>checksum := 0\<rparr>)"
  using put_header_checksum [of h 0] by (simp add: numeral_eq_Suc)

definition finished_header :: "BmIpAddr \<Rightarrow> BmIpAddr \<Rightarrow> BcmpHeader \<Rightarrow> bytes \<Rightarrow> BcmpHeader" where
  "finished_header src dst h body = h\<lparr>checksum := bcmp_checksum src dst (header_wire h @ body)\<rparr>"

lemma read_addr_in [buf_simps]:
  "offset + 16 \<le> length frame \<Longrightarrow> read_addr frame offset = Some (subslice frame offset 16)"
  by (simp add: read_addr_def buf_simps)

lemma serialize_in_place_ok [wire_simps]:
  assumes len: "67 + n \<le> length frame"
  shows "serialize_in_place frame mt sn n =
    Some (put frame 54 (header_wire (finished_header (subslice frame 22 16) (subslice frame 38 16)
      (fresh_header mt sn) (subslice frame 67 n))), Ok ())"
proof -
  let ?h = "fresh_header mt sn" and ?body = "subslice frame 67 n"
  let ?pre = "take 54 frame" and ?rest = "drop 67 frame"
  let ?src = "subslice frame 22 16" and ?dst = "subslice frame 38 16"
  have enc: "header_encode ?h (drop 54 frame) = Some (header_wire ?h @ ?rest, Ok ())"
    using hdr.encode_ok [of "drop 54 frame" ?h] len by (simp add: put_0)
  let ?f = "?pre @ header_wire ?h @ ?rest"
  have flen: "length ?f = length frame" using len by simp
  have addrs: "subslice ?f 22 16 = ?src" "subslice ?f 38 16 = ?dst"
    using len by (simp_all add: subslice_def drop_take min_def)
  have data: "subslice ?f 54 (13 + n) = header_wire ?h @ ?body"
    using len by (simp add: subslice_def)
  have zero: "header_wire (?h\<lparr>checksum := 0\<rparr>) = header_wire ?h" by (simp add: fresh_header_def)
  have sum: "ipv6_pseudo_checksum ?src ?dst IP_PROTO_BCMP (header_wire ?h @ ?body) =
      bcmp_checksum ?src ?dst (header_wire ?h @ ?body)"
    by (simp add: bcmp_checksum_def put_append_left header_zero_checksum zero)
  have "put ?f 56 (to_le 2 c) = ?pre @ header_wire (?h\<lparr>checksum := c\<rparr>) @ ?rest" for c
    using len by (simp add: put_append_right put_append_left put_header_checksum del: to_le_numeral)
  also have "?pre @ header_wire (?h\<lparr>checksum := c\<rparr>) @ ?rest =
      put frame 54 (header_wire (?h\<lparr>checksum := c\<rparr>))" for c
    using len by (simp add: put_def)
  finally have fin: "put ?f 56 (to_le 2 c) = put frame 54 (header_wire (?h\<lparr>checksum := c\<rparr>))" for c .
  have r: "read_addr ?f 22 = Some ?src" "read_addr ?f 38 = Some ?dst"
    "range_at ?f 54 (67 + n) = Some (header_wire ?h @ ?body)"
    using len flen addrs data by (simp_all only: buf_simps) (simp_all add: range_at_def)
  have "copy_at ?f 56 (to_le 2 c) = Some (put frame 54 (header_wire (?h\<lparr>checksum := c\<rparr>)))" for c
    using fin [of c] len flen by (simp add: copy_at_def del: to_le_numeral)
  with enc r sum len show ?thesis
    by (simp add: serialize_in_place_def finished_header_def del: to_le_numeral)
qed

lemma serialize_in_place_short:
  "length frame < 67 + n \<Longrightarrow> serialize_in_place frame mt sn n = Some (frame, Err Truncated)"
  by (simp add: serialize_in_place_def)

lemma serialize_ok [wire_simps]:
  assumes len: "67 + length body \<le> length frame"
  shows "serialize frame mt sn body =
    Some (put frame 54 (header_wire (finished_header (subslice frame 22 16) (subslice frame 38 16)
      (fresh_header mt sn) body) @ body), Ok ())"
proof -
  let ?f = "put frame 67 body"
  have f: "subslice ?f 22 16 = subslice frame 22 16" "subslice ?f 38 16 = subslice frame 38 16"
    "subslice ?f 67 (length body) = body"
    using len by simp_all
  have "put ?f 54 (header_wire h) = put frame 54 (header_wire h @ body)" for h
    using len by (simp add: put_def drop_take min_def)
  with f len serialize_in_place_ok [of "length body" ?f mt sn] show ?thesis
    by (simp add: serialize_def buf_simps)
qed

text \<open>A finished BCMP frame with its payload length field, in closed form.\<close>

definition bcmp_frame :: "BmIpAddr \<Rightarrow> BmIpAddr \<Rightarrow> BcmpHeader \<Rightarrow> bytes \<Rightarrow> bytes" where
  "bcmp_frame src dst h body =
     headers src dst IP_PROTO_BCMP HOP_LIMIT (13 + length body) @
     header_wire (finished_header src dst h body) @ body"

lemma build_ok [wire_simps]:
  assumes dst: "wf_addr dst" and buf: "67 \<le> length buf" and body: "body (drop 67 buf) = (tail, Ok n)"
    and tail: "length tail = length buf - 67" and n: "n \<le> length tail" "13 + n < 65536"
  shows "build buf nid dst mt sn body =
    Some (bcmp_frame (nodeid_to_ip LINK_LOCAL_PREFIX nid) dst (fresh_header mt sn) (take n tail) @
      drop n tail, Ok (67 + n))"
proof -
  let ?src = "nodeid_to_ip LINK_LOCAL_PREFIX nid"
  let ?hd = "headers ?src dst IP_PROTO_BCMP HOP_LIMIT (13 + n)"
  let ?buf = "take 67 buf @ tail"
  have lhd: "length ?hd = 54" using dst by simp
  have w: "write_headers ?buf ?src dst IP_PROTO_BCMP HOP_LIMIT (13 + n) =
      Some (?hd @ drop 54 (take 67 buf) @ tail, Ok ())"
    using dst buf n write_headers_ok [of ?src dst ?buf "13 + n"]
    by (simp add: put_def)
  let ?f = "?hd @ drop 54 (take 67 buf) @ take n tail"
  have f: "take (67 + n) (?hd @ drop 54 (take 67 buf) @ tail) = ?f"
    "drop (67 + n) (?hd @ drop 54 (take 67 buf) @ tail) = drop n tail"
    using buf lhd n by simp_all
  have fl: "length ?f = 67 + n" using buf lhd n by simp
  have s: "subslice ?f 22 16 = ?src" "subslice ?f 38 16 = dst" "subslice ?f 67 n = take n tail"
    using headers_fields(5,6) [of ?src dst] dst lhd buf n by simp_all
  have p: "put ?f 54 (header_wire h) = ?hd @ header_wire h @ take n tail" for h
    using lhd buf by (simp add: put_def)
  show ?thesis
    using body buf tail n w f serialize_in_place_ok [of n ?f mt sn] fl s p lhd
    by (simp add: build_def bcmp_frame_def Let_def)
qed

lemma build_short: "length buf < 67 \<Longrightarrow> build buf nid dst mt sn body = Some (buf, Err Truncated)"
  by (simp add: build_def)

end
