(* ===== verification/Bcmp_Rx.thy ===== *)
theory Bcmp_Rx
  imports Bcmp_Tx
begin

text \<open>
  \<open>bm-wire/src/bcmp/rx.rs\<close>: \<open>accept\<close> validates a received frame as BCMP and mutates
  it as it goes (the port nibble and the legacy port bytes are cleared, and the checksum
  field is left zeroed when it does not match). \<open>accept_cases\<close> gives its behaviour on
  every branch, for every frame; in particular it never panics.
\<close>

section \<open>The receiver\<close>

definition LEGACY_PORT_CLEAR_OFFSET :: nat where
  "LEGACY_PORT_CLEAR_OFFSET = IPV6_SOURCE_ADDRESS_OFFSET + 4"

datatype RxError = RxTruncated | NotIpv6 | NotBcmp | BadChecksum

record Received =
  rx_header :: BcmpHeader
  rx_payload :: bytes
  rx_src :: BmIpAddr
  rx_dst :: BmIpAddr
  rx_ingress_port :: u8

definition accept_bcmp :: "bytes \<Rightarrow> nat \<Rightarrow> (bytes \<times> (RxError, Received) result) option" where
  "accept_bcmp frame payload_len = do {
     p \<leftarrow> get_at frame IPV6_INGRESS_EGRESS_PORTS_OFFSET;
     let ingress_port = drop_bit 4 p AND 0x0F;
     frame \<leftarrow> set_at frame LEGACY_PORT_CLEAR_OFFSET 0;
     frame \<leftarrow> set_at frame (LEGACY_PORT_CLEAR_OFFSET + 1) 0;
     p \<leftarrow> get_at frame IPV6_INGRESS_EGRESS_PORTS_OFFSET;
     frame \<leftarrow> set_at frame IPV6_INGRESS_EGRESS_PORTS_OFFSET (p AND 0x0F);
     let checksum_offset = BCMP_HEADER_OFFSET + CHECKSUM_FIELD_OFFSET;
     checksum_read \<leftarrow> u16_at frame checksum_offset;
     frame \<leftarrow> set_at frame checksum_offset 0;
     frame \<leftarrow> set_at frame (checksum_offset + 1) 0;
     src \<leftarrow> read_addr frame IPV6_SOURCE_ADDRESS_OFFSET;
     dst \<leftarrow> read_addr frame IPV6_DESTINATION_ADDRESS_OFFSET;
     bcmp \<leftarrow> range_at frame BCMP_HEADER_OFFSET (BCMP_HEADER_OFFSET + payload_len);
     let checksum_calc = ipv6_pseudo_checksum src dst IP_PROTO_BCMP bcmp;
     if checksum_calc \<noteq> checksum_read then Some (frame, Err BadChecksum)
     else do {
       frame \<leftarrow> copy_at frame checksum_offset (to_le 2 checksum_read);
       bcmp \<leftarrow> range_at frame BCMP_HEADER_OFFSET (BCMP_HEADER_OFFSET + payload_len);
       d \<leftarrow> header_decode bcmp;
       h \<leftarrow> (case d of Ok h \<Rightarrow> Some h | Err _ \<Rightarrow> None);
       payload \<leftarrow> range_at bcmp BCMP_HEADER_LEN (length bcmp);
       Some (frame, Ok \<lparr>rx_header = h, rx_payload = payload, rx_src = src, rx_dst = dst,
                        rx_ingress_port = ingress_port\<rparr>)
     }
   }"

definition accept :: "bytes \<Rightarrow> (bytes \<times> (RxError, Received) result) option" where
  "accept frame =
     (if length frame < MIN_FRAME_WITH_ADDRESSES then Some (frame, Err RxTruncated)
      else if ethernet_type frame \<noteq> Some ETHERNET_TYPE_IPV6 then Some (frame, Err NotIpv6)
      else do {
        a \<leftarrow> get_at frame IPV6_PAYLOAD_LENGTH_OFFSET;
        b \<leftarrow> get_at frame (IPV6_PAYLOAD_LENGTH_OFFSET + 1);
        let payload_len = unat (from_be [a, b] :: u16);
        if payload_len + MIN_FRAME_WITH_ADDRESSES > length frame then Some (frame, Err RxTruncated)
        else do {
          nh \<leftarrow> get_at frame IPV6_NEXT_HEADER_OFFSET;
          if nh \<noteq> IP_PROTO_BCMP then Some (frame, Err NotBcmp)
          else if payload_len < BCMP_HEADER_LEN then Some (frame, Err RxTruncated)
          else accept_bcmp frame payload_len
        }
      })"

section \<open>Its behaviour on every branch\<close>

text \<open>The source address after the clears, the payload length a frame states, and the frame
  with its port bytes cleared.\<close>

definition clear_src_ports :: "BmIpAddr \<Rightarrow> BmIpAddr" where
  "clear_src_ports a = a[4 := 0, 5 := 0, 2 := a ! 2 AND 0x0F]"

definition clear_frame_ports :: "bytes \<Rightarrow> bytes" where
  "clear_frame_ports f = f[26 := 0, 27 := 0, 24 := f ! 24 AND 0x0F]"

definition stated_len :: "bytes \<Rightarrow> nat" where
  "stated_len f = unat (from_be (subslice f 18 2) :: u16)"

definition is_bcmp_frame :: "bytes \<Rightarrow> bool" where
  "is_bcmp_frame f \<longleftrightarrow> 54 \<le> length f \<and> from_be (subslice f 12 2) = ETHERNET_TYPE_IPV6 \<and>
     stated_len f + 54 \<le> length f \<and> f ! 20 = IP_PROTO_BCMP \<and> 13 \<le> stated_len f"

lemma accept_bcmp_eq:
  assumes n: "13 \<le> n" "n + 54 \<le> length f"
  defines "src \<equiv> clear_src_ports (subslice f 22 16)" and "dst \<equiv> subslice f 38 16"
    and "bcmp \<equiv> subslice f 54 n"
  shows "accept_bcmp f n =
    (if bcmp_checksum src dst bcmp = from_le (subslice bcmp 2 2) then
       Some (clear_frame_ports f,
         Ok \<lparr>rx_header = the_ok (the (header_decode bcmp)), rx_payload = drop 13 bcmp, rx_src = src,
             rx_dst = dst, rx_ingress_port = drop_bit 4 (f ! 24) AND 0x0F\<rparr>)
     else Some (put (clear_frame_ports f) 56 [0, 0], Err BadChecksum))"
proof -
  let ?c = "clear_frame_ports f"
  let ?z = "?c[56 := 0, 57 := 0]"
  have lc: "length ?c = length f" by (simp add: clear_frame_ports_def)
  have z: "?z = put ?c 56 [0, 0]" using n lc by (simp add: put_2)
  have rd: "u16_at ?c 56 = Some (from_le (subslice bcmp 2 2))"
    using n lc by (simp add: buf_simps bcmp_def clear_frame_ports_def)
  have a: "read_addr ?z 22 = Some src" "read_addr ?z 38 = Some dst"
    using n lc by (simp_all add: buf_simps src_def dst_def clear_src_ports_def clear_frame_ports_def
        subslice_update_same)
  have b: "range_at ?z 54 (54 + n) = Some (put bcmp 2 [0, 0])"
    using n lc by (simp add: buf_simps bcmp_def put_2 clear_frame_ports_def subslice_update_same)
  have r: "copy_at ?z 56 (to_le 2 (from_le (subslice bcmp 2 2) :: u16)) = Some ?c"
  proof -
    have s: "subslice bcmp 2 2 = [?c ! 56, ?c ! 57]"
      using n lc by (simp add: bcmp_def subslice_2 clear_frame_ports_def)
    then have "to_le 2 (from_le (subslice bcmp 2 2) :: u16) = [?c ! 56, ?c ! 57]"
      by (subst to_from_le_widths) (simp_all)
    moreover have "put ?z 56 [?c ! 56, ?c ! 57] = ?c"
      using n lc by (simp add: put_2 list_update_swap [of 56 57])
    ultimately show ?thesis using n lc by (simp add: copy_at_def)
  qed
  have b': "range_at ?c 54 (54 + n) = Some bcmp"
    using n lc by (simp add: buf_simps bcmp_def clear_frame_ports_def)
  obtain h where h: "header_decode bcmp = Some (Ok h)"
    using hdr.decode_long [of bcmp] n by (auto simp: bcmp_def)
  have p: "range_at bcmp 13 (length bcmp) = Some (drop 13 bcmp)"
    using n by (simp add: bcmp_def buf_simps)
  have c: "f[26 := 0, 27 := 0, 24 := f ! 24 AND 0xF] = ?c"
    by (simp add: clear_frame_ports_def)
  show ?thesis
    using n
    by (simp add: accept_bcmp_def LEGACY_PORT_CLEAR_OFFSET_def get_at_in set_at_in lc c rd a b r b' h p
        bcmp_checksum_def Let_def z [symmetric] del: to_le_numeral)
qed

lemma accept_cases:
  "accept f =
    (if length f < 54 then Some (f, Err RxTruncated)
     else if from_be (subslice f 12 2) \<noteq> ETHERNET_TYPE_IPV6 then Some (f, Err NotIpv6)
     else if length f < stated_len f + 54 then Some (f, Err RxTruncated)
     else if f ! 20 \<noteq> IP_PROTO_BCMP then Some (f, Err NotBcmp)
     else if stated_len f < 13 then Some (f, Err RxTruncated)
     else accept_bcmp f (stated_len f))"
  by (auto simp: accept_def ethernet_type_in get_at_in stated_len_def subslice_2 Let_def)

lemma accept_bcmp_frame: "is_bcmp_frame f \<Longrightarrow> accept f = accept_bcmp f (stated_len f)"
  by (simp add: accept_cases is_bcmp_frame_def)

lemma length_clear_frame_ports [simp]: "length (clear_frame_ports f) = length f"
  by (simp add: clear_frame_ports_def)

lemma accept_some: "\<exists>f' r. accept f = Some (f', r) \<and> length f' = length f"
  by (auto simp: accept_cases accept_bcmp_eq put_2)

section \<open>A built frame is accepted\<close>

lemma finished_header_checksum:
  "from_le (subslice (header_wire (finished_header src dst h body) @ rest) 2 2) =
     bcmp_checksum src dst (header_wire h @ body)"
  by (simp add: header_wire_def finished_header_def del: to_le_numeral)

lemma bcmp_checksum_finished:
  "bcmp_checksum src' dst' (header_wire (finished_header src dst h body) @ body) =
     bcmp_checksum src' dst' (header_wire h @ body)"
  by (simp add: bcmp_checksum_def put_append_left header_zero_checksum finished_header_def)

lemma length_bcmp_frame [simp]:
  "wf_addr src \<Longrightarrow> wf_addr dst \<Longrightarrow> length (bcmp_frame src dst h body) = 67 + length body"
  by (simp add: bcmp_frame_def)

lemma bcmp_frame_fields:
  fixes h :: BcmpHeader and rest :: bytes
  assumes "wf_addr src" "wf_addr dst" "13 + length body < 65536"
  defines "f \<equiv> bcmp_frame src dst h body @ rest"
  shows "is_bcmp_frame f" "stated_len f = 13 + length body"
    "subslice f 22 16 = src" "subslice f 38 16 = dst"
    "subslice f 54 (13 + length body) = header_wire (finished_header src dst h body) @ body"
proof -
  note hf = headers_fields [OF assms(1,2)]
  have lh: "length (headers src dst nh hl plen) = 54" for nh hl plen using assms by simp
  show s: "stated_len f = 13 + length body"
  proof -
    have "unat (of_nat (13 + length body) :: u16) = 13 + length body"
      using assms(3) by (simp only: unat_of_nat) simp
    then show ?thesis using assms(1,2) lh hf(2) f_def by (simp add: stated_len_def bcmp_frame_def del: of_nat_add)
  qed
  show "subslice f 22 16 = src" "subslice f 38 16 = dst"
    using assms lh hf(5,6) by (simp_all add: bcmp_frame_def)
  show "subslice f 54 (13 + length body) = header_wire (finished_header src dst h body) @ body"
    using assms lh by (simp add: bcmp_frame_def subslice_def)
  show "is_bcmp_frame f"
    using assms lh hf(1,3) s
    by (simp add: is_bcmp_frame_def bcmp_frame_def nth_append)
qed

lemma clear_frame_ports_id:
  assumes "length f \<ge> 54" "clear_src_ports (subslice f 22 16) = subslice f 22 16"
  shows "clear_frame_ports f = f"
proof -
  let ?s = "subslice f 22 16"
  have "clear_src_ports ?s ! 4 = 0" "clear_src_ports ?s ! 5 = 0" "clear_src_ports ?s ! 2 = ?s ! 2 AND 0x0F"
    using assms(1) by (simp_all add: clear_src_ports_def)
  then have "?s ! 4 = 0" "?s ! 5 = 0" "?s ! 2 = ?s ! 2 AND 0x0F" unfolding assms(2) .
  then have "f ! 26 = 0" "f ! 27 = 0" "f ! 24 AND 0x0F = f ! 24" using assms(1) by simp_all
  then show ?thesis by (metis clear_frame_ports_def list_update_id)
qed

lemma accept_built:
  assumes a: "wf_addr src" "wf_addr dst" "13 + length body < 65536"
    and src: "clear_src_ports src = src"
  shows "accept (bcmp_frame src dst h body @ rest) =
    Some (bcmp_frame src dst h body @ rest,
      Ok \<lparr>rx_header = finished_header src dst h body, rx_payload = body, rx_src = src, rx_dst = dst,
          rx_ingress_port = drop_bit 4 (src ! 2) AND 0x0F\<rparr>)"
proof -
  let ?f = "bcmp_frame src dst h body @ rest"
  note ff = bcmp_frame_fields [OF a, of h rest]
  have n: "13 \<le> 13 + length body" "13 + length body + 54 \<le> length ?f" using a by simp_all
  have c: "clear_frame_ports ?f = ?f" using a src ff(3) by (intro clear_frame_ports_id) simp_all
  have i: "?f ! 24 = src ! 2"
    using arg_cong [OF ff(3), of "\<lambda>xs. xs ! 2"] a by (simp add: nth_append)
  show ?thesis
    using accept_bcmp_eq [OF n] accept_bcmp_frame [OF ff(1)] ff(2-5) src c i
      finished_header_checksum [of src dst h body body] bcmp_checksum_finished [of src dst src dst h body]
      hdr.decode_wire [of "finished_header src dst h body" body]
    by simp
qed

lemma clear_link_local [simp]:
  "clear_src_ports (nodeid_to_ip LINK_LOCAL_PREFIX nid) = nodeid_to_ip LINK_LOCAL_PREFIX nid"
proof -
  have "to_be 4 LINK_LOCAL_PREFIX = [0xFE, 0x80, 0, 0]" unfolding LINK_LOCAL_PREFIX_def by code_simp
  then show ?thesis by (simp add: clear_src_ports_def nodeid_to_ip_eq numeral_eq_Suc)
qed

section \<open>Properties\<close>

text \<open>Property C4. In a buffer with room for the 67 bytes of headers and for the \<open>n\<close> bytes the body writer
  reports, and with a BCMP message shorter than 65536 bytes, \<open>build\<close> makes a frame for any 16-byte destination
  that \<open>accept\<close> accepts, at the receiving end of the wire and with whatever follows it in the
  buffer: the received header carries the message type and sequence number given to
  \<open>build\<close>, the payload is exactly what the body writer wrote, the source is the
  sender's link-local address, whose low half is the sender's node id, the destination is the one given, and the
  buffer is left unchanged.\<close>

theorem build_accept_roundtrip:
  assumes "wf_addr dst" "67 \<le> length buf" "body (drop 67 buf) = (tail, Ok n)"
    "length tail = length buf - 67" "n \<le> length tail" "13 + n < 65536"
  shows "\<exists>buf' rx. build buf nid dst mt sn body = Some (buf', Ok (67 + n)) \<and>
    accept buf' = Some (buf', Ok rx) \<and> accept (take (67 + n) buf') = Some (take (67 + n) buf', Ok rx) \<and>
    message_type (rx_header rx) = mt \<and> seq_num (rx_header rx) = sn \<and>
    rx_payload rx = take n tail \<and> rx_src rx = nodeid_to_ip LINK_LOCAL_PREFIX nid \<and> to_node_id (rx_src rx) = nid \<and>
    rx_dst rx = dst \<and> rx_ingress_port rx = 0"
proof -
  let ?src = "nodeid_to_ip LINK_LOCAL_PREFIX nid" and ?body = "take n tail"
  let ?f = "bcmp_frame ?src dst (fresh_header mt sn) ?body"
  have len: "13 + length ?body < 65536" "length ?f = 67 + n" using assms by simp_all
  have z: "?src ! 2 = 0"
    by (simp add: nodeid_to_ip_eq LINK_LOCAL_PREFIX_def to_be_def nth_append)
  note acc = accept_built [OF wf_nodeid_to_ip assms(1) len(1) clear_link_local,
      of nid "fresh_header mt sn"]
  show ?thesis
    using build_ok [OF assms(1,2), of body tail n nid mt sn] assms(3-) acc [of "drop n tail"] acc [of "[]"] len z
    by (simp add: finished_header_def fresh_header_def)
qed

theorem build_accept_roundtrip_witness:
  "\<exists>buf' rx. build (replicate 80 0) 0x1234 LINK_LOCAL_MULTICAST HEARTBEAT 7
      (\<lambda>t. (put t 0 [1, 2, 3], Ok 3)) = Some (buf', Ok 70) \<and>
    accept buf' = Some (buf', Ok rx) \<and> message_type (rx_header rx) = HEARTBEAT \<and>
    seq_num (rx_header rx) = 7 \<and> rx_payload rx = [1, 2, 3] \<and>
    rx_src rx = nodeid_to_ip LINK_LOCAL_PREFIX 0x1234"
proof -
  have "wf_addr LINK_LOCAL_MULTICAST" by (simp add: wf_addr_def LINK_LOCAL_MULTICAST_def)
  from build_accept_roundtrip [OF this, where buf = "replicate 80 0" and n = 3 and mt = HEARTBEAT and sn = 7
      and nid = "0x1234" and body = "\<lambda>t. (put t 0 [1, 2, 3], Ok 3)" and tail = "put (replicate 13 0) 0 [1, 2, 3]"]
  show ?thesis by (auto simp: put_0)
qed

text \<open>\<open>accept\<close> never panics on any frame, keeps its length, and leaves a rejected
  frame untouched except after a checksum mismatch, when exactly the port bytes are cleared
  and the checksum field is zeroed.\<close>

theorem accept_never_panics:
  "\<exists>f' r. accept f = Some (f', r) \<and> length f' = length f \<and>
    (case r of Ok rx \<Rightarrow> f' = clear_frame_ports f
     | Err BadChecksum \<Rightarrow> f' = put (clear_frame_ports f) 56 [0, 0]
     | Err _ \<Rightarrow> f' = f)"
  by (auto simp: accept_cases accept_bcmp_eq put_2)

end
