(* ===== verification/L2.thy ===== *)
theory L2
  imports Bcmp_Rx
begin

text \<open>
  \<open>bm-wire/src/l2.rs\<close> and \<open>l2_policy.rs\<close>: the receive policy (which ports a frame is
  flooded to and whether it goes up the local stack), the transmit classification, and the
  egress stamping that writes the port into the source address and patches the upper-layer
  checksum. The main results: the policy never forwards a frame back to its ingress port and
  changes one nibble of it; stamping, sending, clearing and un-patching restores the frame;
  and a stamped BCMP frame is accepted by a receiver exactly when the 16-bit patch does not
  carry out of its word.
\<close>

section \<open>The receive policy\<close>

record RxResult =
  should_submit :: bool
  egress_mask :: u16
  ingress_port_num :: u8

text \<open>The routing callback may rewrite the source address and chooses the egress mask.\<close>

type_synonym routing = "u8 \<Rightarrow> u16 \<Rightarrow> BmIpAddr \<Rightarrow> BmIpAddr \<Rightarrow> bool \<times> u16 \<times> BmIpAddr"

text \<open>\<open>trailing_zeros\<close> of a 16-bit word.\<close>

definition trailing_zeros :: "u16 \<Rightarrow> nat" where
  "trailing_zeros w = length (takeWhile (\<lambda>i. \<not> bit w i) [0..<16])"

definition rx_apply ::
  "bytes \<Rightarrow> u16 \<Rightarrow> u16 \<Rightarrow> routing option \<Rightarrow> (bytes \<times> RxResult) option" where
  "rx_apply frame ingress_port_mask all_ports_mask routing =
     (let result = \<lparr>should_submit = True, egress_mask = 0, ingress_port_num = 0\<rparr> in
      if length frame < MIN_FRAME_WITH_ADDRESSES then Some (frame, result)
      else if ethernet_type frame \<noteq> Some ETHERNET_TYPE_IPV6 then Some (frame, result)
      else if ingress_port_mask = 0 then Some (frame, result)
      else do {
        let port = (of_nat (trailing_zeros ingress_port_mask + 1) :: u8);
        let result = result\<lparr>ingress_port_num := port\<rparr>;
        ports \<leftarrow> get_at frame IPV6_INGRESS_EGRESS_PORTS_OFFSET;
        frame \<leftarrow> set_at frame IPV6_INGRESS_EGRESS_PORTS_OFFSET
                   ((ports AND 0x0F) OR push_bit 4 (port AND 0x0F));
        dst \<leftarrow> read_addr frame IPV6_DESTINATION_ADDRESS_OFFSET;
        if is_global_multicast dst
        then Some (frame, result\<lparr>egress_mask := all_ports_mask AND NOT ingress_port_mask\<rparr>)
        else case routing of
          None \<Rightarrow> Some (frame, result)
        | Some route \<Rightarrow>
            if is_link_local_neighbor_multicast dst then Some (frame, result)
            else do {
              src \<leftarrow> read_addr frame IPV6_SOURCE_ADDRESS_OFFSET;
              let (submit, egress, src) = route port 0 src dst;
              frame \<leftarrow> copy_at frame IPV6_SOURCE_ADDRESS_OFFSET src;
              Some (frame, result\<lparr>should_submit := submit, egress_mask := egress\<rparr>)
            }
      })"

definition prepare_forwarded_copy :: "bytes \<Rightarrow> bytes option" where
  "prepare_forwarded_copy frame =
     (if length frame < MIN_FRAME_WITH_ADDRESSES then Some frame
      else set_at frame IPV6_INGRESS_EGRESS_PORTS_OFFSET 0)"

section \<open>Transmit classification and requested ports\<close>

definition BCMP_CHECKSUM_OFFSET :: nat where
  "BCMP_CHECKSUM_OFFSET = BCMP_HEADER_OFFSET + CHECKSUM_FIELD_OFFSET"
definition MIN_STAMPABLE_FRAME :: nat where
  "MIN_STAMPABLE_FRAME = MIN_FRAME_WITH_ADDRESSES + 8"
definition REQUESTED_EGRESS_PORT_OFFSET :: nat where
  "REQUESTED_EGRESS_PORT_OFFSET = IPV6_DESTINATION_ADDRESS_OFFSET + 13"

lemma l2_offsets [simp]:
  "BCMP_CHECKSUM_OFFSET = 56" "MIN_STAMPABLE_FRAME = 62" "REQUESTED_EGRESS_PORT_OFFSET = 51"
  by (simp_all add: BCMP_CHECKSUM_OFFSET_def MIN_STAMPABLE_FRAME_def REQUESTED_EGRESS_PORT_OFFSET_def)

datatype TxKind = GlobalMulticast | LinkLocalMulticast | Dropped

definition tx_kind :: "bytes \<Rightarrow> TxKind option" where
  "tx_kind frame =
     (if length frame < MIN_FRAME_WITH_ADDRESSES then Some Dropped
      else do {
        dst \<leftarrow> read_addr frame IPV6_DESTINATION_ADDRESS_OFFSET;
        Some (if is_global_multicast dst then GlobalMulticast
              else if is_link_local_multicast dst then LinkLocalMulticast else Dropped)
      })"

definition all_ports_mask :: "u8 \<Rightarrow> u16" where
  "all_ports_mask num_ports = (if num_ports \<ge> 16 then 0xFFFF else push_bit (unat num_ports) 1 - 1)"

text \<open>A shift by the width of the type or more is an overflow, which panics.\<close>

definition take_requested_egress_port ::
  "bytes \<Rightarrow> u8 \<Rightarrow> (bytes \<times> (BmWireError, u16) result) option" where
  "take_requested_egress_port frame num_ports =
     (if length frame < MIN_FRAME_WITH_ADDRESSES then Some (frame, Err Truncated)
      else do {
        requested \<leftarrow> get_at frame REQUESTED_EGRESS_PORT_OFFSET;
        frame \<leftarrow> set_at frame REQUESTED_EGRESS_PORT_OFFSET 0;
        if requested > 0 \<and> requested \<le> num_ports then
          (if unat (requested - 1) < 16 then Some (frame, Ok (push_bit (unat (requested - 1)) 1)) else None)
        else Some (frame, Ok (all_ports_mask num_ports))
      })"

section \<open>Egress stamping\<close>

datatype Patch = Add | Subtract

definition patch :: "bytes \<Rightarrow> u8 \<Rightarrow> Patch \<Rightarrow> (bytes \<times> (BmWireError, unit) result) option" where
  "patch frame port op =
     (if length frame < MIN_STAMPABLE_FRAME then Some (frame, Err Truncated)
      else do {
        ports \<leftarrow> get_at frame IPV6_INGRESS_EGRESS_PORTS_OFFSET;
        frame \<leftarrow> (if op = Add then set_at frame IPV6_INGRESS_EGRESS_PORTS_OFFSET (ports OR port)
                  else Some frame);
        if ethernet_type frame \<noteq> Some ETHERNET_TYPE_IPV6 then Some (frame, Ok ())
        else do {
          nh \<leftarrow> get_at frame IPV6_NEXT_HEADER_OFFSET;
          if nh = IP_PROTO_UDP then do {
            byte \<leftarrow> get_at frame UDP_CHECKSUM_OFFSET;
            let byte = byte XOR 0xFF;
            let byte = (case op of Add \<Rightarrow> byte + port | Subtract \<Rightarrow> byte - port);
            frame \<leftarrow> set_at frame UDP_CHECKSUM_OFFSET (byte XOR 0xFF);
            Some (frame, Ok ())
          }
          else if nh = IP_PROTO_BCMP then do {
            c \<leftarrow> u16_at frame BCMP_CHECKSUM_OFFSET;
            let c = c XOR 0xFFFF;
            let c = (case op of Add \<Rightarrow> c + ucast port | Subtract \<Rightarrow> c - ucast port);
            frame \<leftarrow> copy_at frame BCMP_CHECKSUM_OFFSET (to_le 2 (c XOR 0xFFFF));
            Some (frame, Ok ())
          }
          else Some (frame, Ok ())
        }
      })"

definition add_egress_port :: "bytes \<Rightarrow> u8 \<Rightarrow> (bytes \<times> (BmWireError, unit) result) option" where
  "add_egress_port frame port = patch frame port Add"

definition revert_checksum :: "bytes \<Rightarrow> u8 \<Rightarrow> (bytes \<times> (BmWireError, unit) result) option" where
  "revert_checksum frame port = patch frame port Subtract"

definition clear_ports :: "bytes \<Rightarrow> (bytes \<times> (BmWireError, unit) result) option" where
  "clear_ports frame =
     (if length frame < MIN_FRAME_WITH_ADDRESSES then Some (frame, Err Truncated)
      else do {
        frame \<leftarrow> set_at frame IPV6_INGRESS_EGRESS_PORTS_OFFSET 0;
        Some (frame, Ok ())
      })"

record Stamped =
  st_frame :: bytes
  st_port :: u8

definition stamp_egress_port :: "bytes \<Rightarrow> u8 \<Rightarrow> (bytes \<times> (BmWireError, Stamped) result) option" where
  "stamp_egress_port frame port = do {
     (frame, r) \<leftarrow> add_egress_port frame port;
     case r of Err e \<Rightarrow> Some (frame, Err e) | Ok _ \<Rightarrow> Some (frame, Ok \<lparr>st_frame = frame, st_port = port\<rparr>)
   }"

definition drop_stamped :: "Stamped \<Rightarrow> bytes option" where
  "drop_stamped st = do {
     (frame, _) \<leftarrow> clear_ports (st_frame st);
     (frame, _) \<leftarrow> revert_checksum frame (st_port st);
     Some frame
   }"

definition with_egress_port :: "bytes \<Rightarrow> u8 \<Rightarrow> (bytes \<Rightarrow> 'r) \<Rightarrow> (bytes \<times> (BmWireError, 'r) result) option" where
  "with_egress_port frame port send = do {
     (frame, r) \<leftarrow> stamp_egress_port frame port;
     case r of
       Err e \<Rightarrow> Some (frame, Err e)
     | Ok st \<Rightarrow> do {
         let res = send (st_frame st);
         frame \<leftarrow> drop_stamped st;
         Some (frame, Ok res)
       }
   }"

section \<open>Stamping and restoring\<close>

lemma xor_all_ones: "x XOR 0xFF = NOT (x :: u8)" "y XOR 0xFFFF = NOT (y :: u16)"
proof -
  have "(0xFF :: u8) = - 1" "(0xFFFF :: u16) = - 1" by simp_all
  then show "x XOR 0xFF = NOT x" "y XOR 0xFFFF = NOT y" by (simp_all only: bit.xor_one_right)
qed

definition stamp_bytes :: "u8 \<Rightarrow> Patch \<Rightarrow> bytes \<Rightarrow> bytes" where
  "stamp_bytes port op f =
     (if from_be (subslice f 12 2) \<noteq> ETHERNET_TYPE_IPV6 then f
      else if f ! 20 = IP_PROTO_UDP then
        f[60 := NOT (case op of Add \<Rightarrow> NOT (f ! 60) + port | Subtract \<Rightarrow> NOT (f ! 60) - port)]
      else if f ! 20 = IP_PROTO_BCMP then
        put f 56 (to_le 2 (NOT (case op of Add \<Rightarrow> NOT (from_le (subslice f 56 2) :: u16) + ucast port
                               | Subtract \<Rightarrow> NOT (from_le (subslice f 56 2) :: u16) - ucast port)))
      else f)"

lemma patch_eq:
  assumes "62 \<le> length f"
  shows "patch f port op =
    Some (stamp_bytes port op (if op = Add then f[24 := f ! 24 OR port] else f), Ok ())"
proof -
  have l: "length (if op = Add then f[24 := f ! 24 OR port] else f) = length f" by simp
  show ?thesis
    using assms
    by (cases op) (auto simp: patch_def stamp_bytes_def buf_simps ethernet_type_in xor_all_ones Let_def
        simp del: to_le_numeral)
qed

lemma stamp_bytes_length [simp]: "62 \<le> length f \<Longrightarrow> length (stamp_bytes port op f) = length f"
  by (auto simp: stamp_bytes_def simp del: to_le_numeral)

lemma put_update_commute:
  assumes "i < a" "a + length xs \<le> length f"
  shows "put (f[i := v]) a xs = (put f a xs)[i := v]"
  using assms by (auto simp: put_def take_update_swap drop_update_cancel list_update_append1)

lemma stamp_bytes_commute:
  assumes "62 \<le> length f"
  shows "stamp_bytes port op (f[24 := v]) = (stamp_bytes port op f)[24 := v]"
  using assms
  by (auto simp: stamp_bytes_def put_update_commute list_update_swap [of 24 60] simp del: to_le_numeral
      split: Patch.splits)

lemma stamp_undo:
  assumes "62 \<le> length f"
  shows "stamp_bytes port Subtract (stamp_bytes port Add f) = f"
proof -
  consider (no) "from_be (subslice f 12 2) \<noteq> ETHERNET_TYPE_IPV6 \<or> f ! 20 \<noteq> IP_PROTO_UDP \<and> f ! 20 \<noteq> IP_PROTO_BCMP"
    | (udp) "from_be (subslice f 12 2) = ETHERNET_TYPE_IPV6" "f ! 20 = IP_PROTO_UDP"
    | (bcmp) "from_be (subslice f 12 2) = ETHERNET_TYPE_IPV6" "f ! 20 = IP_PROTO_BCMP" "f ! 20 \<noteq> IP_PROTO_UDP"
    by (auto simp: IP_PROTO_UDP_def IP_PROTO_BCMP_def)
  then show ?thesis
  proof cases
    case no
    then show ?thesis by (auto simp: stamp_bytes_def)
  next
    case udp
    then show ?thesis using assms by (simp add: stamp_bytes_def)
  next
    case bcmp
    let ?c = "from_le (subslice f 56 2) :: u16" and ?g = "stamp_bytes port Add f"
    have g: "?g = put f 56 (to_le 2 (NOT (NOT ?c + ucast port)))"
      using bcmp by (simp add: stamp_bytes_def del: to_le_numeral)
    then have "subslice ?g 12 2 = subslice f 12 2" "?g ! 20 = f ! 20"
      "from_le (subslice ?g 56 2) = NOT (NOT ?c + ucast port)"
      using assms by (simp_all add: nth_put del: to_le_numeral)
    then have "stamp_bytes port Subtract ?g = put ?g 56 (to_le 2 ?c)"
      using bcmp by (simp add: stamp_bytes_def [of port Subtract] del: to_le_numeral)
    also have "\<dots> = f"
      using assms g by (simp add: put_overwrite put_self del: to_le_numeral)
    finally show ?thesis .
  qed
qed

lemma with_egress_port_eq:
  assumes "62 \<le> length f"
  shows "with_egress_port f port send =
    Some (f[24 := 0], Ok (send (stamp_bytes port Add (f[24 := f ! 24 OR port]))))"
proof -
  let ?g = "stamp_bytes port Add (f[24 := f ! 24 OR port])"
  have g: "length ?g = length f" using assms by simp
  have "stamp_bytes port Subtract (?g[24 := 0]) = f[24 := 0]"
    using assms g stamp_undo [of f port] by (simp add: stamp_bytes_commute)
  then show ?thesis
    using assms g
    by (simp add: with_egress_port_def stamp_egress_port_def drop_stamped_def add_egress_port_def
        revert_checksum_def clear_ports_def patch_eq buf_simps)
qed

section \<open>What a receiver makes of a stamped frame\<close>

definition accepted :: "bytes \<Rightarrow> bool" where
  "accepted f \<longleftrightarrow> (\<exists>f' rx. accept f = Some (f', Ok rx))"

definition rx_sum :: "bytes \<Rightarrow> u16" where
  "rx_sum f = bcmp_checksum (clear_src_ports (subslice f 22 16)) (subslice f 38 16)
     (subslice f 54 (stated_len f))"

lemma accepted_iff: "accepted f \<longleftrightarrow> is_bcmp_frame f \<and> rx_sum f = from_le (subslice f 56 2)"
proof (cases "is_bcmp_frame f")
  case True
  then have "13 \<le> stated_len f" "stated_len f + 54 \<le> length f" by (simp_all add: is_bcmp_frame_def)
  with accept_bcmp_eq [OF this] accept_bcmp_frame [OF True] True show ?thesis
    by (simp add: accepted_def rx_sum_def)
next
  case False
  then show ?thesis by (auto simp: accepted_def accept_cases is_bcmp_frame_def split: if_splits)
qed

lemma low_nibble: "unat p < 16 \<Longrightarrow> p AND 0x0F = (p :: u8)"
proof -
  assume p: "unat p < 16"
  have "p AND 0x0F = take_bit 4 p" by (simp add: take_bit_eq_mask mask_numeral)
  moreover have "take_bit 4 p = p"
    using p by (simp add: word_unat_eq_iff unsigned_take_bit_eq take_bit_nat_eq_self)
  ultimately show ?thesis by simp
qed

lemma clear_src_ports_stamp:
  assumes "wf_addr s" "s ! 2 = 0" "unat p < 16"
  shows "clear_src_ports (s[2 := p]) = (clear_src_ports s)[2 := p]" "clear_src_ports s ! 2 = 0"
    "wf_addr (clear_src_ports s)"
  using assms low_nibble [of p] by (simp_all add: clear_src_ports_def wf_addr_def list_update_swap)

lemma stamped_fields:
  fixes p :: u8
  assumes f: "is_bcmp_frame f" "f ! 24 = 0"
  defines "c \<equiv> from_le (subslice f 56 2) :: u16" and "g \<equiv> stamp_bytes p Add (f[24 := p])"
  shows "is_bcmp_frame g" "stated_len g = stated_len f" "subslice g 22 16 = (subslice f 22 16)[2 := p]"
    "subslice g 38 16 = subslice f 38 16" "from_le (subslice g 56 2) = NOT (NOT c + ucast p)"
    "subslice g 54 (stated_len f) = put (subslice f 54 (stated_len f)) 2 (to_le 2 (NOT (NOT c + ucast p)))"
proof -
  have len: "67 \<le> length f" "13 \<le> stated_len f" "stated_len f + 54 \<le> length f"
    using f by (auto simp: is_bcmp_frame_def)
  have n: "IP_PROTO_BCMP \<noteq> IP_PROTO_UDP" by (simp add: IP_PROTO_BCMP_def IP_PROTO_UDP_def)
  have g: "g = put (f[24 := p]) 56 (to_le 2 (NOT (NOT c + ucast p)))"
    using f n by (simp add: g_def stamp_bytes_def c_def is_bcmp_frame_def del: to_le_numeral)
  show sl: "stated_len g = stated_len f" using len by (simp add: g stated_len_def del: to_le_numeral)
  show "subslice g 22 16 = (subslice f 22 16)[2 := p]" "subslice g 38 16 = subslice f 38 16"
    "from_le (subslice g 56 2) = NOT (NOT c + ucast p)"
    using len by (simp_all add: g subslice_update_same del: to_le_numeral)
  show "is_bcmp_frame g"
    using f len sl by (simp add: is_bcmp_frame_def g nth_put del: to_le_numeral)
  have ex: "drop 54 g = put (drop 54 f) 2 (to_le 2 (NOT (NOT c + ucast p)))"
    using len by (simp add: g put_def drop_take del: to_le_numeral)
  have tk: "take n (put xs 2 ys) = put (take n xs) 2 ys" if "2 + length ys \<le> n" "n \<le> length xs"
    for n and xs ys :: bytes
  proof -
    have "2 \<le> n" "2 \<le> length xs" "length ys \<le> n - 2" using that by auto
    then show ?thesis by (simp add: put_def drop_take)
  qed
  show "subslice g 54 (stated_len f) =
      put (subslice f 54 (stated_len f)) 2 (to_le 2 (NOT (NOT c + ucast p)))"
    using ex len tk [of "to_le 2 (NOT (NOT c + ucast p))" "stated_len f" "drop 54 f"]
    by (simp add: subslice_def del: to_le_numeral)
qed

lemma stamped_accepted_iff:
  assumes f: "accepted f" "f ! 24 = 0" and p: "unat p < 16"
  shows "accepted (stamp_bytes p Add (f[24 := p])) \<longleftrightarrow>
    unat (NOT (from_le (subslice f 56 2) :: u16)) + unat p < 65536"
proof -
  let ?g = "stamp_bytes p Add (f[24 := p])" and ?c = "from_le (subslice f 56 2) :: u16"
  let ?s = "subslice f 22 16" and ?d = "subslice f 38 16" and ?b = "subslice f 54 (stated_len f)"
  have bf: "is_bcmp_frame f" and c: "rx_sum f = ?c" using f(1) by (simp_all add: accepted_iff)
  note sf = stamped_fields [OF bf f(2), of p]
  have len: "67 \<le> length f" "13 \<le> stated_len f" "stated_len f + 54 \<le> length f"
    using bf by (auto simp: is_bcmp_frame_def)
  have lb: "length ?b = stated_len f" using len by simp
  have sl: "stated_len f < 65536"
    using unsigned_less [of "from_be (subslice f 18 2) :: u16", where ?'a = nat] by (simp add: stated_len_def)
  have wf: "wf_addr ?s" "wf_addr ?d" "?s ! 2 = 0" using len f(2) by (simp_all add: wf_addr_def)
  note cs = clear_src_ports_stamp [OF wf(1,3) p]
  have zero: "put (put ?b 2 (to_le 2 x)) 2 [0, 0] = put ?b 2 [0, 0]" for x :: u16
    using len lb by (simp add: put_overwrite del: to_le_numeral)
  let ?data = "put ?b 2 [0, 0]"
  have ld: "length ?data < 65536" using len lb sl by simp
  have sum_f: "ipv6_pseudo_checksum (clear_src_ports ?s) ?d IP_PROTO_BCMP ?data = ?c"
    using c by (simp add: rx_sum_def bcmp_checksum_def)
  have sum_g: "rx_sum ?g = ipv6_pseudo_checksum ((clear_src_ports ?s)[2 := p]) ?d IP_PROTO_BCMP ?data"
    by (simp only: rx_sum_def sf(2-4,6) bcmp_checksum_def cs(1) zero)
  have "rx_sum ?g = NOT (NOT ?c + of_nat (unat p)) \<longleftrightarrow> unat (NOT ?c) + unat p < 65536"
    unfolding sum_g
    using patched_checksum [OF cs(3) wf(2) ld, of IP_PROTO_BCMP 2 "unat p" p] cs(2) p
    unfolding sum_f by (simp add: IP_PROTO_BCMP_def)
  moreover have "(of_nat (unat p) :: u16) = ucast p" by simp
  ultimately show ?thesis using sf(1,5) by (simp add: accepted_iff)
qed

text \<open>A frame of the right shape is accepted or dropped for its checksum; there is no third outcome.\<close>

lemma bcmp_frame_verdict:
  assumes "is_bcmp_frame g"
  shows "(\<exists>rx. accept g = Some (clear_frame_ports g, Ok rx)) \<or>
    accept g = Some (put (clear_frame_ports g) 56 [0, 0], Err BadChecksum)"
  using assms accept_bcmp_frame [OF assms] accept_bcmp_eq [of "stated_len g" g] by (auto simp: is_bcmp_frame_def)

section \<open>What the receive policy does\<close>

definition wf_routing :: "routing option \<Rightarrow> bool" where
  "wf_routing routing \<longleftrightarrow>
     (\<forall>route p m s d. routing = Some route \<longrightarrow> wf_addr s \<longrightarrow> wf_addr (snd (snd (route p m s d))))"

definition mix_ports :: "u8 \<Rightarrow> u8 \<Rightarrow> u8" where
  "mix_ports x port = (x AND 0x0F) OR push_bit 4 (port AND 0x0F)"

definition ingress_stamp :: "u8 \<Rightarrow> bytes \<Rightarrow> bytes" where
  "ingress_stamp port f = f[24 := mix_ports (f ! 24) port]"

definition policy_acts :: "bytes \<Rightarrow> u16 \<Rightarrow> bool" where
  "policy_acts f ports \<longleftrightarrow> 54 \<le> length f \<and> from_be (subslice f 12 2) = ETHERNET_TYPE_IPV6 \<and> ports \<noteq> 0"

lemma rx_apply_passive:
  "\<not> policy_acts f ports \<Longrightarrow> rx_apply f ports all routing =
     Some (f, \<lparr>should_submit = True, egress_mask = 0, ingress_port_num = 0\<rparr>)"
  by (cases "length f < 54") (auto simp: policy_acts_def rx_apply_def ethernet_type_in Let_def)

lemma rx_apply_active:
  assumes "policy_acts f ports"
  defines "port \<equiv> of_nat (trailing_zeros ports + 1) :: u8"
    and "dst \<equiv> subslice f 38 16"
  shows "rx_apply f ports all routing =
    (let g = ingress_stamp port f;
         r = \<lparr>should_submit = True, egress_mask = 0, ingress_port_num = port\<rparr> in
     if is_global_multicast dst then Some (g, r\<lparr>egress_mask := all AND NOT ports\<rparr>)
     else case routing of
       None \<Rightarrow> Some (g, r)
     | Some route \<Rightarrow>
         if is_link_local_neighbor_multicast dst then Some (g, r)
         else case route port 0 (subslice g 22 16) dst of (submit, egress, src) \<Rightarrow>
           map_option (\<lambda>h. (h, r\<lparr>should_submit := submit, egress_mask := egress\<rparr>)) (copy_at g 22 src))"
  using assms
  by (auto simp: policy_acts_def rx_apply_def ethernet_type_in get_at_in set_at_in read_addr_in
      ingress_stamp_def mix_ports_def Let_def split: option.splits prod.splits bind_splits)

lemma length_ingress_stamp [simp]: "length (ingress_stamp p f) = length f"
  by (simp add: ingress_stamp_def)

lemma rx_apply_total:
  assumes "wf_routing routing"
  shows "\<exists>g r. rx_apply f ports all routing = Some (g, r) \<and> length g = length f"
proof (cases "policy_acts f ports")
  case False
  then show ?thesis by (simp add: rx_apply_passive)
next
  case True
  then have len: "54 \<le> length f" by (simp add: policy_acts_def)
  have c: "\<exists>h. copy_at g 22 (snd (snd (route p m s d))) = Some h \<and> length h = length g"
    if "routing = Some route" "length g = length f" "wf_addr s" for route g p m s d
    using assms that len by (simp add: wf_routing_def wf_addr_def copy_at_def)
  let ?g = "ingress_stamp (of_nat (trailing_zeros ports + 1)) f"
  have wf: "wf_addr (subslice ?g 22 16)" using len by (simp add: wf_addr_def)
  show ?thesis
  proof (cases routing)
    case None
    then show ?thesis by (simp add: rx_apply_active [OF True] Let_def)
  next
    case (Some route)
    obtain submit egress src where r:
      "route (of_nat (trailing_zeros ports + 1)) 0 (subslice ?g 22 16) (subslice f 38 16) = (submit, egress, src)"
      by (metis prod.exhaust)
    with c [OF Some, of ?g] wf obtain h where "copy_at ?g 22 src = Some h" "length h = length ?g"
      by (metis snd_conv length_ingress_stamp)
    with r Some show ?thesis by (simp add: rx_apply_active [OF True] Let_def)
  qed
qed

lemma trailing_zeros_single: "k < 16 \<Longrightarrow> trailing_zeros (push_bit k 1) = k"
proof -
  assume k: "k < 16"
  then have "k \<in> set [0..<16]" by simp
  moreover have "\<forall>k \<in> set [0..<16]. trailing_zeros (push_bit k 1) = k" by code_simp
  ultimately show ?thesis by blast
qed

text \<open>The ingress stamp is invisible to the checksum: the receiver reads the port out of the
  nibble and clears it before it sums.\<close>

lemma nibbles: "mix_ports x p AND 0x0F = x AND 0x0F" "drop_bit 4 (mix_ports x p) AND 0x0F = p AND 0x0F"
proof -
  have m: "(0x0F :: u8) = mask 4" by (simp add: mask_numeral)
  show "mix_ports x p AND 0x0F = x AND 0x0F" "drop_bit 4 (mix_ports x p) AND 0x0F = p AND 0x0F"
    unfolding m mix_ports_def by (rule bit_word_eqI, auto simp: bit_simps simp del: mask_numeral)+
qed

lemma accept_ingress_stamp:
  assumes "accept f = Some (f', Ok rx)"
  shows "accept (ingress_stamp port f) = Some (f', Ok (rx\<lparr>rx_ingress_port := port AND 0x0F\<rparr>))"
proof -
  have "accepted f" using assms by (auto simp: accepted_def)
  then have bf: "is_bcmp_frame f" by (simp add: accepted_iff)
  then have len: "13 \<le> stated_len f" "stated_len f + 54 \<le> length f" by (simp_all add: is_bcmp_frame_def)
  let ?g = "ingress_stamp port f"
  have sl: "stated_len ?g = stated_len f" by (simp add: stated_len_def ingress_stamp_def)
  have bg: "is_bcmp_frame ?g"
    using bf sl by (simp add: is_bcmp_frame_def ingress_stamp_def)
  have s: "clear_src_ports (subslice ?g 22 16) = clear_src_ports (subslice f 22 16)"
    using len by (simp add: clear_src_ports_def ingress_stamp_def subslice_update_same nibbles
        list_update_swap [of 2])
  have c: "clear_frame_ports ?g = clear_frame_ports f"
    using len by (simp add: clear_frame_ports_def ingress_stamp_def nibbles list_update_swap [of 24])
  have o: "subslice ?g 38 16 = subslice f 38 16" "subslice ?g 54 (stated_len f) = subslice f 54 (stated_len f)"
    "drop_bit 4 (?g ! 24) AND 0x0F = port AND 0x0F"
    using len by (simp_all add: ingress_stamp_def nibbles)
  show ?thesis
    using assms accept_bcmp_frame [OF bf] accept_bcmp_frame [OF bg] accept_bcmp_eq [OF len]
      accept_bcmp_eq [of "stated_len f" ?g] len sl s c o
    by (auto split: if_splits)
qed

section \<open>Properties\<close>

text \<open>Property C6. Egress stamping against the receiver. Take any frame a receiver accepts whose ports
  byte is clear, and stamp it for egress port 1 to 15: the stamped frame is accepted too
  exactly when adding the port to the complemented checksum, read little-endian, does not
  carry out of 16 bits. When it does carry the end-around carry is lost and
  \<open>accept\<close>, which is what every receiver runs, answers \<open>BadChecksum\<close> and nothing else.\<close>

theorem egress_stamp_accepted_iff:
  assumes "accept f = Some (f', Ok rx)" "f ! 24 = 0" "0 < p" "p < 16"
  shows "\<exists>g. add_egress_port f p = Some (g, Ok ()) \<and>
    (if unat (from_le (subslice f 56 2) XOR 0xFFFF :: u16) + unat p < 65536
     then \<exists>h rx'. accept g = Some (h, Ok rx')
     else \<exists>h. accept g = Some (h, Err BadChecksum))"
proof -
  have a: "accepted f" using assms(1) by (auto simp: accepted_def)
  then have len: "62 \<le> length f" by (auto simp: accepted_iff is_bcmp_frame_def)
  have "unat p < 16" using assms(4) by (simp add: word_less_nat_alt)
  note stamped = stamped_accepted_iff [OF a assms(2) this]
  have "is_bcmp_frame (stamp_bytes p Add (f[24 := p]))"
    using stamped_fields(1) a assms(2) by (simp add: accepted_iff)
  from bcmp_frame_verdict [OF this] stamped patch_eq [OF len, of p Add] assms(2)
  show ?thesis by (auto simp: add_egress_port_def accepted_def xor_all_ones)
qed

abbreviation sample_frame :: "u32 \<Rightarrow> bytes" where
  "sample_frame sn \<equiv> bcmp_frame (nodeid_to_ip LINK_LOCAL_PREFIX 1) LINK_LOCAL_MULTICAST
     (fresh_header HEARTBEAT sn) []"

lemma sample_frame_accepted: "\<exists>rx. accept (sample_frame sn) = Some (sample_frame sn, Ok rx)"
proof -
  have wf: "wf_addr LINK_LOCAL_MULTICAST" by (simp add: wf_addr_def LINK_LOCAL_MULTICAST_def)
  show ?thesis
    using accept_built [OF wf_nodeid_to_ip wf _ clear_link_local, of "[]" 1 "fresh_header HEARTBEAT sn" "[]"]
    by simp
qed

text \<open>A heartbeat with sequence number 0 survives the stamp for port 1; with sequence number
  45312 its folded sum is all ones and the stamp breaks it.\<close>

theorem egress_stamp_accepted_iff_witness:
  "(\<exists>g h rx. add_egress_port (sample_frame 0) 1 = Some (g, Ok ()) \<and> accept g = Some (h, Ok rx)) \<and>
   (\<exists>g h. add_egress_port (sample_frame 45312) 1 = Some (g, Ok ()) \<and> accept g = Some (h, Err BadChecksum))"
proof -
  have "sample_frame 0 ! 24 = 0" "sample_frame 45312 ! 24 = 0" by code_simp+
  moreover have "from_le (subslice (sample_frame 0) 56 2) = (0xB100 :: u16)"
    "from_le (subslice (sample_frame 45312) 56 2) = (0 :: u16)"
    by code_simp+
  moreover obtain rx rx' where "accept (sample_frame 0) = Some (sample_frame 0, Ok rx)"
    "accept (sample_frame 45312) = Some (sample_frame 45312, Ok rx')"
    using sample_frame_accepted by blast
  ultimately show ?thesis
    using egress_stamp_accepted_iff [of "sample_frame 0" "sample_frame 0" rx 1]
      egress_stamp_accepted_iff [of "sample_frame 45312" "sample_frame 45312" rx' 1] by auto
qed

text \<open>A frame long enough to be stamped is handed to \<open>send\<close> exactly once, stamped, and is
  then restored: the ports byte is zero again and every other byte, the patched checksum
  included, is what it was, whatever the protocol and port.\<close>

theorem with_egress_port_restores:
  assumes "62 \<le> length f"
  shows "\<exists>g. add_egress_port f port = Some (g, Ok ()) \<and> length g = length f \<and>
    with_egress_port f port send = Some (f[24 := 0], Ok (send g))"
  using assms by (simp add: with_egress_port_eq patch_eq add_egress_port_def)

theorem with_egress_port_restores_witness:
  "\<exists>g. add_egress_port (replicate 62 7) 2 = Some (g, Ok ()) \<and>
    with_egress_port (replicate 62 7) 2 length = Some ((replicate 62 7)[24 := 0], Ok 62)"
  using with_egress_port_restores [of "replicate 62 7" 2 length] by auto

text \<open>The receive policy never panics; a global multicast frame is flooded to all ports of
  the device but never back to the ingress ports and always goes up the local stack; and the
  ingress port is delivered: whatever \<open>accept\<close> made of the frame before the policy ran, it
  makes of it after, with the port the frame came in on as its ingress port.\<close>

theorem rx_policy_delivers_port:
  assumes "accept f = Some (f', Ok rx)" "k < 15"
  shows "\<exists>g r. rx_apply f (push_bit k 1) all None = Some (g, r) \<and> should_submit r \<and>
    ingress_port_num r = of_nat (k + 1) \<and>
    egress_mask r = (if is_global_multicast (rx_dst rx) then all AND NOT (push_bit k 1) else 0) \<and>
    accept g = Some (f', Ok (rx\<lparr>rx_ingress_port := of_nat (k + 1)\<rparr>))"
proof -
  have a: "accepted f" using assms(1) by (auto simp: accepted_def)
  then have bf: "is_bcmp_frame f" by (simp add: accepted_iff)
  have "bit (push_bit k 1 :: u16) k" using assms(2) by (simp add: bit_simps)
  then have acts: "policy_acts f (push_bit k 1)"
    using bf assms(2) by (auto simp: policy_acts_def is_bcmp_frame_def)
  have dst: "rx_dst rx = subslice f 38 16"
    using assms(1) accept_bcmp_frame [OF bf] accept_bcmp_eq [of "stated_len f" f] bf
    by (auto simp: is_bcmp_frame_def split: if_splits)
  have nib: "(of_nat (k + 1) :: u8) AND 0x0F = of_nat (k + 1)"
    using assms(2) by (intro low_nibble) (simp only: unat_of_nat, simp)
  have tz: "trailing_zeros (2 ^ k) = k" using trailing_zeros_single [of k] assms(2) by simp
  show ?thesis
    using rx_apply_active [OF acts, of all None] accept_ingress_stamp [OF assms(1), of "of_nat (k + 1)"]
      assms(2) dst nib by (simp add: tz Let_def del: of_nat_add of_nat_Suc)
qed

theorem rx_policy_delivers_port_witness:
  "\<exists>g r rx. rx_apply (sample_frame 0) 2 3 None = Some (g, r) \<and> egress_mask r = 0 \<and>
    accept g = Some (sample_frame 0, Ok rx) \<and> rx_ingress_port rx = 2"
proof -
  obtain rx where rx: "accept (sample_frame 0) = Some (sample_frame 0, Ok rx)"
    using sample_frame_accepted by blast
  have "rx_dst rx = LINK_LOCAL_MULTICAST"
    using rx accept_built [OF wf_nodeid_to_ip _ _ clear_link_local, of LINK_LOCAL_MULTICAST "[]" 1
        "fresh_header HEARTBEAT 0" "[]"]
    by (simp add: wf_addr_def LINK_LOCAL_MULTICAST_def)
  then have "\<not> is_global_multicast (rx_dst rx)"
    by (simp add: is_global_multicast_def LINK_LOCAL_MULTICAST_def)
  with rx_policy_delivers_port [OF rx, of 1 3] obtain g r where
    "rx_apply (sample_frame 0) 2 3 None = Some (g, r)" "egress_mask r = 0"
    "accept g = Some (sample_frame 0, Ok (rx\<lparr>rx_ingress_port := 2\<rparr>))"
    by auto
  then show ?thesis by fastforce
qed

end
