(* ===== verification/Bcmp_Forward.thy ===== *)
theory Bcmp_Forward
  imports L2
begin

text \<open>
  \<open>bm-wire/src/bcmp/forward.rs\<close>: re-flooding a link-local message. A forwarded copy is a
  fresh datagram of the forwarding node around the received header and body; its egress port
  travels to L2 in byte 13 of the destination address. The three steps, in the order the
  module documents, are shown to produce a frame the next node accepts.
\<close>

section \<open>The operations\<close>

definition egress_ports :: "u8 \<Rightarrow> u8 \<Rightarrow> u8 list" where
  "egress_ports num_ports ingress_port =
     filter (\<lambda>port. port \<noteq> ingress_port) (map of_nat [1..<unat num_ports + 1])"

definition ll_forward_is_a_no_op :: "u8 \<Rightarrow> u8 \<Rightarrow> bool" where
  "ll_forward_is_a_no_op num_ports ingress_port \<longleftrightarrow> egress_ports num_ports ingress_port = []"

definition port_specific_destination :: "u8 \<Rightarrow> BmIpAddr" where
  "port_specific_destination egress_port =
     (let dst = LINK_LOCAL_MULTICAST;
          w = (0x01000000 :: u32) OR push_bit 8 (ucast egress_port)
      in put dst 12 (to_le 4 w))"

definition serialize_forwarded :: "bytes \<Rightarrow> bytes \<Rightarrow> (bytes \<times> (BmWireError, nat) result) option" where
  "serialize_forwarded frame bcmp =
     (if length bcmp < BCMP_HEADER_LEN then Some (frame, Err Truncated)
      else let end = BCMP_HEADER_OFFSET + length bcmp in
      if length frame < end then Some (frame, Err Truncated)
      else do {
        frame \<leftarrow> copy_at frame BCMP_HEADER_OFFSET bcmp;
        let checksum_offset = BCMP_HEADER_OFFSET + CHECKSUM_FIELD_OFFSET;
        frame \<leftarrow> set_at frame checksum_offset 0;
        frame \<leftarrow> set_at frame (checksum_offset + 1) 0;
        src \<leftarrow> read_addr frame IPV6_SOURCE_ADDRESS_OFFSET;
        dst \<leftarrow> read_addr frame IPV6_DESTINATION_ADDRESS_OFFSET;
        data \<leftarrow> range_at frame BCMP_HEADER_OFFSET end;
        let c = ipv6_pseudo_checksum src dst IP_PROTO_BCMP data;
        frame \<leftarrow> copy_at frame checksum_offset (to_le 2 c);
        Some (frame, Ok end)
      })"

definition apply_port_specific_destination :: "bytes \<Rightarrow> u8 \<Rightarrow> (bytes \<times> (BmWireError, unit) result) option" where
  "apply_port_specific_destination frame egress_port =
     (if length frame < MIN_FRAME_WITH_ADDRESSES then Some (frame, Err Truncated)
      else do {
        let dst = port_specific_destination egress_port;
        frame \<leftarrow> copy_at frame IPV6_DESTINATION_ADDRESS_OFFSET dst;
        frame \<leftarrow> copy_at frame ETHERNET_DESTINATION_OFFSET (multicast_mac_from_ipv6 dst);
        Some (frame, Ok ())
      })"

definition take_egress_port :: "bytes \<Rightarrow> u8 \<Rightarrow> (bytes \<times> (BmWireError, u16) result) option" where
  "take_egress_port frame num_ports = take_requested_egress_port frame num_ports"

section \<open>Which ports\<close>

lemma set_egress_ports:
  "set (egress_ports n i) = {p. 1 \<le> unat p \<and> unat p \<le> unat n \<and> p \<noteq> i}"
proof -
  have "p \<in> of_nat ` {1..<unat n + 1} \<longleftrightarrow> 1 \<le> unat p \<and> unat p \<le> unat n" for p :: u8
  proof
    assume "p \<in> of_nat ` {1..<unat n + 1}"
    then obtain k where "p = of_nat k" "1 \<le> k" "k \<le> unat n" by auto
    moreover have "k < 256" using calculation unsigned_less [of n, where ?'a = nat] by simp
    ultimately show "1 \<le> unat p \<and> unat p \<le> unat n" by (simp add: unat_of_nat)
  next
    assume "1 \<le> unat p \<and> unat p \<le> unat n"
    then show "p \<in> of_nat ` {1..<unat n + 1}" by (intro image_eqI [of _ _ "unat p"]) auto
  qed
  then show ?thesis by (auto simp: egress_ports_def simp del: upt_Suc)
qed

lemma distinct_egress_ports: "distinct (egress_ports n i)"
proof -
  have "inj_on (of_nat :: nat \<Rightarrow> u8) {1..<unat n + 1}"
  proof (rule inj_onI)
    fix x y assume *: "x \<in> {1..<unat n + 1}" "y \<in> {1..<unat n + 1}" "(of_nat x :: u8) = of_nat y"
    have "unat (of_nat k :: u8) = k" if "k \<in> {1..<unat n + 1}" for k
      using that unsigned_less [of n, where ?'a = nat] by (simp add: unat_of_nat)
    with * show "x = y" by metis
  qed
  then show ?thesis by (simp add: egress_ports_def distinct_map del: upt_Suc)
qed

section \<open>The forwarded frame\<close>

lemma serialize_forwarded_ok:
  assumes "13 \<le> length bcmp" "54 + length bcmp \<le> length frame"
  shows "serialize_forwarded frame bcmp =
    Some (put frame 54 (put bcmp 2 (to_le 2 (bcmp_checksum (subslice frame 22 16) (subslice frame 38 16) bcmp))),
      Ok (54 + length bcmp))"
proof -
  let ?f = "put frame 54 bcmp" and ?z = "put frame 54 (put bcmp 2 [0, 0])"
  let ?src = "subslice frame 22 16" and ?dst = "subslice frame 38 16"
  have pp: "put (put frame 54 b) 56 xs = put frame 54 (put b 2 xs)"
    if "length b = length bcmp" "length xs = 2" for b xs
  proof -
    have "drop 54 (put frame 54 b) = b @ drop (54 + length bcmp) frame" "take 54 (put frame 54 b) = take 54 frame"
      using assms that by (simp_all add: put_def)
    moreover have "take 54 frame @ put (b @ drop (54 + length bcmp) frame) 2 xs = put frame 54 (put b 2 xs)"
      using assms that by (simp add: put_append_left) (simp add: put_def)
    moreover have "put (put frame 54 b) 56 xs =
        take 54 (put frame 54 b) @ put (drop 54 (put frame 54 b)) 2 xs"
      using put_append_right [of "take 54 (put frame 54 b)" 56 "drop 54 (put frame 54 b)" xs] assms that by simp
    ultimately show ?thesis by simp
  qed
  have z: "?f[56 := 0, 57 := 0] = ?z" using assms pp [of bcmp "[0, 0]"] by (simp add: put_2)
  have lz: "length ?z = length frame" "length ?f = length frame" using assms by simp_all
  have "read_addr ?z 22 = Some ?src" "read_addr ?z 38 = Some ?dst"
    "range_at ?z 54 (54 + length bcmp) = Some (put bcmp 2 [0, 0])"
    using assms by (simp_all add: read_addr_in range_at_in)
  moreover have "put ?z 56 (to_le 2 c) = put frame 54 (put bcmp 2 (to_le 2 c))" for c :: u16
    using assms pp [of "put bcmp 2 [0, 0]" "to_le 2 c"] by (simp add: put_overwrite del: to_le_numeral)
  ultimately show ?thesis
    using assms lz z
    by (simp add: serialize_forwarded_def copy_at_in set_at_in bcmp_checksum_def Let_def del: to_le_numeral)
qed

lemma put_mac_update:
  "length mac \<le> i \<Longrightarrow> length mac \<le> length xs \<Longrightarrow> put (xs[i := v]) 0 mac = (put xs 0 mac)[i := v]"
  by (auto simp: put_0 list_update_append drop_update_swap)

lemma accept_mac:
  assumes "accept f = Some (f', Ok rx)" "length mac = 6"
  shows "accept (put f 0 mac) = Some (put f' 0 mac, Ok rx)"
proof -
  have "accepted f" using assms by (auto simp: accepted_def)
  then have bf: "is_bcmp_frame f" by (simp add: accepted_iff)
  then have len: "13 \<le> stated_len f" "stated_len f + 54 \<le> length f" by (simp_all add: is_bcmp_frame_def)
  let ?g = "put f 0 mac"
  have sl: "stated_len ?g = stated_len f" using len assms(2) by (simp add: stated_len_def)
  have bg: "is_bcmp_frame ?g" using bf sl assms(2) by (simp add: is_bcmp_frame_def nth_put)
  have c: "clear_frame_ports ?g = put (clear_frame_ports f) 0 mac"
    using len assms(2) by (simp add: clear_frame_ports_def put_mac_update nth_put)
  have o: "subslice ?g 22 16 = subslice f 22 16" "subslice ?g 38 16 = subslice f 38 16"
    "subslice ?g 54 (stated_len f) = subslice f 54 (stated_len f)" "?g ! 24 = f ! 24"
    using len assms(2) by (simp_all add: nth_put)
  show ?thesis
    using assms accept_bcmp_frame [OF bf] accept_bcmp_frame [OF bg] accept_bcmp_eq [OF len]
      accept_bcmp_eq [of "stated_len f" ?g] len sl c o
    by (auto split: if_splits)
qed

lemma port_specific_destination_eq:
  "port_specific_destination p = LINK_LOCAL_MULTICAST[13 := p]"
proof -
  have w: "to_le 4 ((0x01000000 :: u32) OR push_bit 8 (ucast p)) = [0, p, 0, 1]"
  proof -
    let ?w = "(0x01000000 :: u32) OR push_bit 8 (ucast p)"
    have "from_le [0, p, 0, 1] = ?w"
      by (simp add: push_bit_or) (simp add: push_bit_eq_mult or.commute)
    then show ?thesis using to_from_le_widths(2) [of "[0, p, 0, 1]"] by (simp only: list.size)
  qed
  show ?thesis
    unfolding port_specific_destination_def Let_def w
    by (simp add: LINK_LOCAL_MULTICAST_def put_def numeral_eq_Suc)
qed

lemma forward_steps:
  assumes src: "src = nodeid_to_ip LINK_LOCAL_PREFIX nid"
    and len: "13 + length body < 65536" "67 + length body \<le> length buf"
    and port: "1 \<le> unat p" "p \<le> num_ports" "num_ports \<le> 16"
  shows "\<exists>b1 b2 b3 b4 rest.
    write_headers buf src LINK_LOCAL_MULTICAST IP_PROTO_BCMP HOP_LIMIT (13 + length body) = Some (b1, Ok ()) \<and>
    serialize_forwarded b1 (header_wire h @ body) = Some (b2, Ok (67 + length body)) \<and>
    apply_port_specific_destination b2 p = Some (b3, Ok ()) \<and>
    take_egress_port b3 num_ports = Some (b4, Ok (push_bit (unat p - 1) 1)) \<and>
    b4 = put (bcmp_frame src LINK_LOCAL_MULTICAST h body @ rest) 0 [0x33, 0x33, 0, p, 0, 1]"
proof -
  let ?dst = LINK_LOCAL_MULTICAST and ?n = "13 + length body"
  have wf: "wf_addr src" "wf_addr ?dst" by (simp_all add: src)
  let ?hd = "headers src ?dst IP_PROTO_BCMP HOP_LIMIT ?n"
  let ?b1 = "?hd @ drop 54 buf" and ?rest = "drop (67 + length body) buf"
  have b1: "write_headers buf src ?dst IP_PROTO_BCMP HOP_LIMIT ?n = Some (?b1, Ok ())"
    using write_headers_ok [OF wf, of buf ?n] wf len by (simp add: put_0)
  let ?b2 = "bcmp_frame src ?dst h body @ ?rest"
  have b2: "serialize_forwarded ?b1 (header_wire h @ body) = Some (?b2, Ok (67 + length body))"
  proof -
    have "subslice ?b1 22 16 = src" "subslice ?b1 38 16 = ?dst"
      using headers_fields(5,6) [OF wf] wf by simp_all
    moreover have "put (header_wire h @ body) 2 (to_le 2 c) = header_wire (h\<lparr>checksum := c\<rparr>) @ body" for c
      by (simp add: put_append_left put_header_checksum del: to_le_numeral)
    moreover have "put ?b1 54 xs = ?hd @ xs @ ?rest" if "length xs = ?n" for xs
      using wf that len by (simp add: put_def)
    ultimately show ?thesis
      using serialize_forwarded_ok [of "header_wire h @ body" ?b1] wf len
      by (simp add: bcmp_frame_def finished_header_def del: to_le_numeral)
  qed
  let ?mac = "[0x33, 0x33, 0, p, 0, 1] :: bytes" and ?d = "?dst[13 := p]"
  have mac: "multicast_mac_from_ipv6 ?d = ?mac"
    by (simp add: multicast_mac_from_ipv6_def LINK_LOCAL_MULTICAST_def subslice_def put_def numeral_eq_Suc)
  have l2: "length ?b2 \<ge> 67" "subslice ?b2 38 16 = ?dst"
    using bcmp_frame_fields(4) [OF wf len(1)] wf by simp_all
  let ?b3 = "put (put ?b2 38 ?d) 0 ?mac"
  have b3: "apply_port_specific_destination ?b2 p = Some (?b3, Ok ())"
    using l2 mac wf by (simp add: apply_port_specific_destination_def port_specific_destination_eq copy_at_in wf_addr_def)
  have d13: "?b3 ! 51 = p" using l2 wf by (simp add: nth_put wf_addr_def)
  have "?d[13 := 0] = ?dst" by (simp add: LINK_LOCAL_MULTICAST_def)
  then have "(put ?b2 38 ?d)[51 := 0] = put ?b2 38 ?dst"
    using l2 wf by (simp add: put_def list_update_append wf_addr_def)
  also have "\<dots> = ?b2" using l2 put_self [of 38 16 ?b2] by simp
  finally have b4: "?b3[51 := 0] = put ?b2 0 ?mac"
    using l2 wf put_mac_update [of ?mac 51 "put ?b2 38 ?d" 0] by (simp add: wf_addr_def)
  have "p > 0" "unat p < 17" "unat (p - 1) = unat p - 1"
    using port unat_sub [of 1 p] by (auto simp: word_le_nat_alt word_gt_0 unat_gt_0)
  then have "take_egress_port ?b3 num_ports = Some (put ?b2 0 ?mac, Ok (push_bit (unat p - 1) 1))"
    using l2 wf d13 b4 port by (simp add: take_egress_port_def take_requested_egress_port_def get_at_in set_at_in wf_addr_def)
  with b1 b2 b3 show ?thesis by blast
qed

section \<open>Properties\<close>

text \<open>Forwarding a message out of one port, by the three documented steps (headers and
  checksum with the plain multicast destination, then the port-specific destination, then
  the egress port taken out again), never fails or panics, selects exactly that port, and
  leaves a frame that the next node accepts: with the forwarder as its sender, the received
  header but for the checksum, and the received body.\<close>

theorem forwarded_frame_accepted:
  assumes "13 + length body < 65536" "67 + length body \<le> length buf"
    "p \<in> set (egress_ports num_ports ingress)" "num_ports \<le> 16"
  shows "\<exists>b1 b2 b3 b4 rx.
    write_headers buf (nodeid_to_ip LINK_LOCAL_PREFIX nid) LINK_LOCAL_MULTICAST IP_PROTO_BCMP HOP_LIMIT
      (13 + length body) = Some (b1, Ok ()) \<and>
    serialize_forwarded b1 (header_wire h @ body) = Some (b2, Ok (67 + length body)) \<and>
    apply_port_specific_destination b2 p = Some (b3, Ok ()) \<and>
    take_egress_port b3 num_ports = Some (b4, Ok (push_bit (unat p - 1) 1)) \<and>
    accept b4 = Some (b4, Ok rx) \<and> rx_header rx = h\<lparr>checksum := checksum (rx_header rx)\<rparr> \<and>
    rx_payload rx = body \<and> to_node_id (rx_src rx) = nid \<and> rx_dst rx = LINK_LOCAL_MULTICAST"
proof -
  let ?src = "nodeid_to_ip LINK_LOCAL_PREFIX nid"
  have "1 \<le> unat p" "p \<le> num_ports"
    using assms(3) by (auto simp: set_egress_ports word_le_nat_alt)
  from forward_steps [OF refl assms(1,2) this assms(4), of nid h] obtain b1 b2 b3 b4 rest where b:
    "write_headers buf ?src LINK_LOCAL_MULTICAST IP_PROTO_BCMP HOP_LIMIT (13 + length body) = Some (b1, Ok ())"
    "serialize_forwarded b1 (header_wire h @ body) = Some (b2, Ok (67 + length body))"
    "apply_port_specific_destination b2 p = Some (b3, Ok ())"
    "take_egress_port b3 num_ports = Some (b4, Ok (push_bit (unat p - 1) 1))"
    "b4 = put (bcmp_frame ?src LINK_LOCAL_MULTICAST h body @ rest) 0 [0x33, 0x33, 0, p, 0, 1]"
    by blast
  have "\<exists>rx. accept b4 = Some (b4, Ok rx) \<and> rx_header rx = h\<lparr>checksum := checksum (rx_header rx)\<rparr> \<and>
      rx_payload rx = body \<and> to_node_id (rx_src rx) = nid \<and> rx_dst rx = LINK_LOCAL_MULTICAST"
    using accept_mac [OF accept_built [OF wf_nodeid_to_ip _ assms(1) clear_link_local, of LINK_LOCAL_MULTICAST nid h rest]]
    by (simp add: b(5) finished_header_def)
  with b(1-4) show ?thesis by blast
qed

theorem forwarded_frame_accepted_witness:
  "\<exists>b1 b2 b3 b4 rx.
    write_headers (replicate 80 0) (nodeid_to_ip LINK_LOCAL_PREFIX 9) LINK_LOCAL_MULTICAST IP_PROTO_BCMP
      HOP_LIMIT 14 = Some (b1, Ok ()) \<and>
    serialize_forwarded b1 (header_wire (fresh_header DFU_START 3) @ [5]) = Some (b2, Ok 68) \<and>
    apply_port_specific_destination b2 2 = Some (b3, Ok ()) \<and>
    take_egress_port b3 2 = Some (b4, Ok 2) \<and> accept b4 = Some (b4, Ok rx) \<and> rx_payload rx = [5]"
proof -
  have "(2 :: u8) \<in> set (egress_ports 2 1)" by (simp add: set_egress_ports)
  from forwarded_frame_accepted [OF _ _ this, of "[5]" "replicate 80 0" 9 "fresh_header DFU_START 3"]
  show ?thesis by auto
qed

end
