(* ===== verification/Udp.thy ===== *)
theory Udp
  imports Frame Checksum Le
begin

text \<open>
  \<open>bm-wire/src/udp.rs\<close>: building the frame of a UDP datagram and accepting a received one.
  The lemmas give the built frame in closed form, show that \<open>accept\<close> returns what was
  built, that neither panics, and that the transmitted checksum is never zero.
\<close>

section \<open>The operations\<close>

definition PAYLOAD_OFFSET :: nat where "PAYLOAD_OFFSET = UDP_SOURCE_PORT_OFFSET + UDP_HEADER_LEN"
definition MAX_PAYLOAD_LEN :: nat where "MAX_PAYLOAD_LEN = 65535 - UDP_HEADER_LEN"
definition SCOPE_LINK_LOCAL :: u8 where "SCOPE_LINK_LOCAL = 2"

lemma udp_offsets [simp]: "PAYLOAD_OFFSET = 62" "MAX_PAYLOAD_LEN = 65527"
  by (simp_all add: PAYLOAD_OFFSET_def MAX_PAYLOAD_LEN_def)

definition has_link_local_scope :: "BmIpAddr \<Rightarrow> bool" where
  "has_link_local_scope a =
     (let link_local = (a ! 0 = 0xFE \<and> a ! 1 AND 0xC0 = 0x80);
          loopback = (list_all (\<lambda>b. b = 0) (take 15 a) \<and> a ! 15 = 1);
          multicast = (a ! 0 = 0xFF \<and> a ! 1 AND 0x0F \<le> SCOPE_LINK_LOCAL)
      in link_local \<or> loopback \<or> multicast)"

definition source_address :: "u64 \<Rightarrow> BmIpAddr \<Rightarrow> BmIpAddr" where
  "source_address node_id dst =
     (let prefix = (if has_link_local_scope dst then LINK_LOCAL_PREFIX else UNIQUE_LOCAL_PREFIX)
      in nodeid_to_ip prefix node_id)"

definition put_u16 :: "bytes \<Rightarrow> nat \<Rightarrow> u16 \<Rightarrow> bytes option" where
  "put_u16 buf at v = copy_at buf at (to_be 2 v)"

definition get_u16 :: "bytes \<Rightarrow> nat \<Rightarrow> u16 option" where
  "get_u16 buf at = do { a \<leftarrow> get_at buf at; b \<leftarrow> get_at buf (at + 1); Some (from_be [a, b]) }"

type_synonym payload_writer = "bytes \<Rightarrow> bytes \<times> (BmWireError, nat) result"

definition udp_build_with ::
  "bytes \<Rightarrow> BmIpAddr \<Rightarrow> BmIpAddr \<Rightarrow> u16 \<Rightarrow> u16 \<Rightarrow> payload_writer \<Rightarrow> (bytes \<times> (BmWireError, nat) result) option" where
  "udp_build_with buf src dst src_port dst_port payload =
     (if length buf < PAYLOAD_OFFSET then Some (buf, Err Truncated)
      else let (tail, r) = payload (drop PAYLOAD_OFFSET buf); buf = take PAYLOAD_OFFSET buf @ tail in
        case r of
          Err e \<Rightarrow> Some (buf, Err e)
        | Ok payload_len \<Rightarrow>
            if payload_len > MAX_PAYLOAD_LEN then Some (buf, Err Invalid)
            else let udp_len = UDP_HEADER_LEN + payload_len; end = MIN_FRAME_WITH_ADDRESSES + udp_len in
              if length buf < end then Some (buf, Err Truncated)
              else let (frame, rest) = (take end buf, drop end buf) in do {
                (frame, r) \<leftarrow> write_headers frame src dst IP_PROTO_UDP HOP_LIMIT udp_len;
                case r of
                  Err e \<Rightarrow> Some (frame @ rest, Err e)
                | Ok _ \<Rightarrow>
                    if udp_len \<ge> 65536 then Some (frame @ rest, Err Invalid)
                    else do {
                      frame \<leftarrow> put_u16 frame UDP_SOURCE_PORT_OFFSET src_port;
                      frame \<leftarrow> put_u16 frame UDP_DESTINATION_PORT_OFFSET dst_port;
                      frame \<leftarrow> put_u16 frame UDP_LENGTH_OFFSET (of_nat udp_len);
                      frame \<leftarrow> put_u16 frame UDP_CHECKSUM_OFFSET 0;
                      data \<leftarrow> range_at frame UDP_SOURCE_PORT_OFFSET (length frame);
                      let c = swap_bytes (ipv6_pseudo_checksum src dst IP_PROTO_UDP data);
                      let c = (if c = 0 then 0xFFFF else c);
                      frame \<leftarrow> put_u16 frame UDP_CHECKSUM_OFFSET c;
                      Some (frame @ rest, Ok end)
                    }
              })"

definition udp_build ::
  "bytes \<Rightarrow> BmIpAddr \<Rightarrow> BmIpAddr \<Rightarrow> u16 \<Rightarrow> u16 \<Rightarrow> bytes \<Rightarrow> (bytes \<times> (BmWireError, nat) result) option" where
  "udp_build buf src dst src_port dst_port payload =
     (if length payload > MAX_PAYLOAD_LEN then Some (buf, Err Invalid)
      else udp_build_with buf src dst src_port dst_port
        (\<lambda>out. if length out < length payload then (out, Err Truncated)
               else (put out 0 payload, Ok (length payload))))"

record Datagram =
  dg_src_port :: u16
  dg_dst_port :: u16
  dg_source :: u64
  dg_payload :: bytes

definition udp_accept :: "bytes \<Rightarrow> (BmWireError, Datagram) result option" where
  "udp_accept frame =
     (if length frame < MIN_FRAME_WITH_ADDRESSES then Some (Err Truncated)
      else if ethernet_type frame \<noteq> Some ETHERNET_TYPE_IPV6 then Some (Err Invalid)
      else do {
        l \<leftarrow> get_u16 frame IPV6_PAYLOAD_LENGTH_OFFSET;
        let ipv6_payload_len = unat l;
        let end = MIN_FRAME_WITH_ADDRESSES + ipv6_payload_len;
        if length frame < end then Some (Err Truncated)
        else do {
          let frame = take end frame;
          nh \<leftarrow> get_at frame IPV6_NEXT_HEADER_OFFSET;
          if nh \<noteq> IP_PROTO_UDP then Some (Err Invalid)
          else if ipv6_payload_len < UDP_HEADER_LEN then Some (Err Truncated)
          else do {
            src \<leftarrow> range_at frame IPV6_SOURCE_ADDRESS_OFFSET (IPV6_SOURCE_ADDRESS_OFFSET + IPV6_ADDRESS_SIZE);
            sp \<leftarrow> get_u16 frame UDP_SOURCE_PORT_OFFSET;
            dp \<leftarrow> get_u16 frame UDP_DESTINATION_PORT_OFFSET;
            payload \<leftarrow> range_at frame PAYLOAD_OFFSET (length frame);
            Some (Ok \<lparr>dg_src_port = sp, dg_dst_port = dp, dg_source = to_node_id src, dg_payload = payload\<rparr>)
          }
        }
      })"

section \<open>The built frame\<close>

definition udp_header :: "u16 \<Rightarrow> u16 \<Rightarrow> nat \<Rightarrow> u16 \<Rightarrow> bytes" where
  "udp_header sp dp n c = to_be 2 sp @ to_be 2 dp @ to_be 2 (of_nat (8 + n) :: u16) @ to_be 2 c"

lemma length_udp_header [simp]: "length (udp_header sp dp n c) = 8"
  by (simp add: udp_header_def)

definition udp_checksum :: "BmIpAddr \<Rightarrow> BmIpAddr \<Rightarrow> u16 \<Rightarrow> u16 \<Rightarrow> bytes \<Rightarrow> u16" where
  "udp_checksum src dst sp dp payload =
     (let c = swap_bytes (ipv6_pseudo_checksum src dst IP_PROTO_UDP (udp_header sp dp (length payload) 0 @ payload))
      in if c = 0 then 0xFFFF else c)"

definition udp_frame :: "BmIpAddr \<Rightarrow> BmIpAddr \<Rightarrow> u16 \<Rightarrow> u16 \<Rightarrow> bytes \<Rightarrow> bytes" where
  "udp_frame src dst sp dp payload =
     headers src dst IP_PROTO_UDP HOP_LIMIT (8 + length payload) @
     udp_header sp dp (length payload) (udp_checksum src dst sp dp payload) @ payload"

lemma put_within: "length xs = a \<Longrightarrow> length ys \<le> length zs \<Longrightarrow> put (xs @ zs) a ys = xs @ ys @ drop (length ys) zs"
  by (simp add: put_def)

lemma udp_build_with_ok:
  assumes wf: "wf_addr src" "wf_addr dst" and buf: "62 \<le> length buf"
    and body: "payload (drop 62 buf) = (tail, Ok n)"
    and tail: "length tail = length buf - 62" and n: "n \<le> length tail" "n \<le> 65527"
  shows "udp_build_with buf src dst sp dp payload =
    Some (udp_frame src dst sp dp (take n tail) @ drop n tail, Ok (62 + n))"
proof -
  let ?hd = "headers src dst IP_PROTO_UDP HOP_LIMIT (8 + n)"
  let ?pre = "take 62 buf" and ?t = "take n tail"
  let ?f = "?pre @ ?t"
  let ?uh = "udp_header sp dp n"
  have lh: "length ?hd = 54" using wf by simp
  have lt: "length ?t = n" using n by simp
  have cut: "take (62 + n) (?pre @ tail) = ?f" "drop (62 + n) (?pre @ tail) = drop n tail" using buf by simp_all
  have w: "write_headers ?f src dst IP_PROTO_UDP HOP_LIMIT (8 + n) = Some (?hd @ drop 54 ?pre @ ?t, Ok ())"
    using write_headers_ok [OF wf, of ?f "8 + n"] buf lh n by (simp add: put_0)
  let ?a = "to_be 2 sp" and ?b = "to_be 2 dp" and ?c = "to_be 2 (of_nat (8 + n) :: u16)"
  let ?g = "?hd @ drop 54 ?pre @ ?t"
  have lg: "length ?g = 62 + n" using buf lh lt by simp
  have chain: "put_u16 ?g 54 sp = Some (put ?g 54 ?a)"
    "put_u16 (put ?g 54 ?a) 56 dp = Some (put ?g 54 (?a @ ?b))"
    "put_u16 (put ?g 54 (?a @ ?b)) 58 (of_nat (8 + n)) = Some (put ?g 54 (?a @ ?b @ ?c))"
    "put_u16 (put ?g 54 (?a @ ?b @ ?c)) 60 c = Some (put ?g 54 (?uh c))" for c
    using lg by (simp_all add: put_u16_def copy_at_in put_put_seq udp_header_def)
  have closed: "put ?g 54 (?uh c) = ?hd @ ?uh c @ ?t" for c
    using lh buf by (simp add: put_def)
  have data: "range_at (?hd @ ?uh 0 @ ?t) 54 (length (?hd @ ?uh 0 @ ?t)) = Some (?uh 0 @ ?t)"
    using lh by (simp add: range_at_def)
  have last: "put_u16 (?hd @ ?uh 0 @ ?t) 60 c = Some (?hd @ ?uh c @ ?t)" for c
  proof -
    have "put (?hd @ ?uh 0 @ ?t) 60 (to_be 2 c) = ?hd @ ?uh c @ ?t"
      using lh by (simp add: put_def udp_header_def)
    then show ?thesis using lh by (simp add: put_u16_def copy_at_def)
  qed
  have "udp_frame src dst sp dp ?t = ?hd @ ?uh (udp_checksum src dst sp dp ?t) @ ?t"
    using lt by (simp add: udp_frame_def)
  then show ?thesis
    using buf body tail n cut w chain closed data last lt lh
    by (simp add: udp_build_with_def udp_checksum_def Let_def del: of_nat_add)
qed

lemma get_u16_in: "at + 2 \<le> length buf \<Longrightarrow> get_u16 buf at = Some (from_be (subslice buf at 2))"
  by (simp add: get_u16_def get_at_in subslice_2)

lemma udp_accept_eq:
  "udp_accept f =
    (let l = unat (from_be (subslice f 18 2) :: u16) in
     if length f < 54 then Some (Err Truncated)
     else if from_be (subslice f 12 2) \<noteq> ETHERNET_TYPE_IPV6 then Some (Err Invalid)
     else if length f < 54 + l then Some (Err Truncated)
     else if f ! 20 \<noteq> IP_PROTO_UDP then Some (Err Invalid)
     else if l < 8 then Some (Err Truncated)
     else Some (Ok \<lparr>dg_src_port = from_be (subslice f 54 2), dg_dst_port = from_be (subslice f 56 2),
       dg_source = to_node_id (subslice f 22 16), dg_payload = subslice f 62 (l - 8)\<rparr>))"
proof -
  let ?l = "unat (from_be (subslice f 18 2) :: u16)"
  have t: "subslice (take (54 + ?l) f) a m = subslice f a m" if "a + m \<le> 54 + ?l" for a m
    using that by (simp add: subslice_def drop_take min_def)
  show ?thesis
    using t [of 22 16] t [of 54 2] t [of 56 2] t [of 62 "?l - 8"]
    by (auto simp: udp_accept_def ethernet_type_in get_u16_in get_at_in range_at_in Let_def)
qed

lemma udp_accept_frame:
  assumes wf: "wf_addr src" "wf_addr dst" and n: "length payload \<le> 65527"
  shows "udp_accept (udp_frame src dst sp dp payload @ rest) =
    Some (Ok \<lparr>dg_src_port = sp, dg_dst_port = dp, dg_source = to_node_id src, dg_payload = payload\<rparr>)"
proof -
  note hf = headers_fields [OF wf]
  have lh: "length (headers src dst nh hl plen) = 54" for nh hl plen using wf by simp
  have u: "unat (of_nat (8 + length payload) :: u16) = 8 + length payload"
    using n by (simp only: unat_of_nat) simp
  let ?f = "udp_frame src dst sp dp payload @ rest"
  have f: "subslice ?f 18 2 = to_be 2 (of_nat (8 + length payload) :: u16)"
    "subslice ?f 12 2 = to_be 2 ETHERNET_TYPE_IPV6" "?f ! 20 = IP_PROTO_UDP" "subslice ?f 22 16 = src"
    "subslice ?f 54 2 = to_be 2 sp" "subslice ?f 56 2 = to_be 2 dp"
    "subslice ?f 62 (length payload) = payload" "62 + length payload \<le> length ?f"
    using lh hf by (simp_all add: udp_frame_def udp_header_def nth_append del: of_nat_add)
  show ?thesis
    unfolding udp_accept_eq Let_def f using f(7,8) u by (simp del: of_nat_add)
qed

lemma udp_checksum_nonzero: "udp_checksum src dst sp dp payload \<noteq> 0"
  by (simp add: udp_checksum_def Let_def)

section \<open>Properties\<close>

text \<open>A UDP datagram that \<open>build\<close> makes for a payload of at most 65527 bytes is what
  \<open>accept\<close> takes out of the frame, with the ports, the sender's node id and the payload,
  whatever follows it in the receiver's buffer; and the checksum on the wire is never zero.\<close>

theorem udp_roundtrip:
  assumes "wf_addr dst" "length payload \<le> 65527" "62 + length payload \<le> length buf"
  shows "\<exists>buf'. udp_build buf (source_address nid dst) dst sp dp payload = Some (buf', Ok (62 + length payload)) \<and>
    length buf' = length buf \<and> from_be (subslice buf' 60 2) \<noteq> (0 :: u16) \<and>
    udp_accept (take (62 + length payload) buf' @ rest) =
      Some (Ok \<lparr>dg_src_port = sp, dg_dst_port = dp, dg_source = nid, dg_payload = payload\<rparr>)"
proof -
  let ?src = "source_address nid dst"
  let ?f = "udp_frame ?src dst sp dp payload" and ?r = "drop (62 + length payload) buf"
  have wf: "wf_addr ?src" and nid: "to_node_id ?src = nid" by (simp_all add: source_address_def)
  have b: "udp_build buf ?src dst sp dp payload = Some (?f @ ?r, Ok (62 + length payload))"
    using assms udp_build_with_ok [OF wf assms(1), of buf _ "put (drop 62 buf) 0 payload" "length payload"]
    by (simp add: udp_build_def put_0 add.commute)
  have lh: "length (headers ?src dst nh hl plen) = 54" for nh hl plen using wf assms(1) by simp
  have lf: "length ?f = 62 + length payload" using lh by (simp add: udp_frame_def)
  have c: "subslice (?f @ ?r) 60 2 = to_be 2 (udp_checksum ?src dst sp dp payload)"
    using lh by (simp add: udp_frame_def udp_header_def)
  show ?thesis
    using b lf c udp_checksum_nonzero udp_accept_frame [OF wf assms(1,2), of sp dp rest] nid assms(3)
    by (simp add: from_to_be_widths)
qed

theorem udp_roundtrip_witness:
  "\<exists>buf'. udp_build (replicate 100 0) (source_address 5 GLOBAL_MULTICAST) GLOBAL_MULTICAST 2222 4321 [1, 2] = Some (buf', Ok 64) \<and>
    udp_accept (take 64 buf' @ [9]) =
      Some (Ok \<lparr>dg_src_port = 2222, dg_dst_port = 4321, dg_source = 5, dg_payload = [1, 2]\<rparr>)"
  using udp_roundtrip [of GLOBAL_MULTICAST "[1, 2]" "replicate 100 0" 5 2222 4321 "[9]"] by auto

text \<open>Taking a datagram out of a frame never panics, on any frame: a frame that is not a
  complete IPv6/UDP frame is an error value, and the payload of one that is stays within the
  length the IPv6 header states.\<close>

theorem udp_accept_never_panics:
  "\<exists>r. udp_accept f = Some r \<and>
    (case r of Ok d \<Rightarrow> 62 \<le> length f \<and> length (dg_payload d) + 8 = unat (from_be (subslice f 18 2) :: u16)
     | Err e \<Rightarrow> True)"
  by (auto simp: udp_accept_eq Let_def)

end
