(* ===== verification/Bounded_Array.thy ===== *)
theory Bounded_Array
  imports BM_Prelude
begin

text \<open>
  The fixed-capacity tables of the wire crate keep their entries in an array and count how
  many of its slots are live. This theory has what they share: the iterator search
  \<open>position\<close>, the removal that closes the gap with \<open>copy_within\<close>, appending, and the
  effect of each on the list of live entries.
\<close>

section \<open>Operations\<close>

text \<open>\<open>iter().position(p)\<close>.\<close>

definition find_index :: "('a \<Rightarrow> bool) \<Rightarrow> 'a list \<Rightarrow> nat option" where
  "find_index P xs = (let n = length (takeWhile (\<lambda>x. \<not> P x) xs) in if n < length xs then Some n else None)"

text \<open>\<open>entries.copy_within(index + 1..len, index)\<close>.\<close>

definition close_gap :: "'a list \<Rightarrow> nat \<Rightarrow> nat \<Rightarrow> 'a list option" where
  "close_gap xs n index = do {
     tail \<leftarrow> range_at xs (index + 1) n;
     copy_at xs index tail
   }"

text \<open>\<open>xs[a..b].rotate_left(1)\<close>.\<close>

definition rotate_range :: "'a list \<Rightarrow> nat \<Rightarrow> nat \<Rightarrow> 'a list option" where
  "rotate_range xs a b = do { part \<leftarrow> range_at xs a b; copy_at xs a (rotate1 part) }"

text \<open>\<open>as_chunks\<close> and \<open>chunks_exact\<close>: the whole chunks of \<open>n\<close> elements; what is left over is dropped.\<close>

function chunks :: "nat \<Rightarrow> 'a list \<Rightarrow> 'a list list" where
  "chunks n xs = (if n = 0 \<or> length xs < n then [] else take n xs # chunks n (drop n xs))"
  by pat_completeness auto
termination by (relation "measure (\<lambda>(n, xs). length xs)") auto

declare chunks.simps [simp del]

lemma chunks_concat:
  assumes "\<And>x. x \<in> set xs \<Longrightarrow> length (f x) = n" "0 < n"
  shows "chunks n (concat (map f xs)) = map f xs"
  using assms(1)
proof (induction xs)
  case Nil
  then show ?case using assms(2) by (simp add: chunks.simps)
next
  case (Cons x xs)
  then show ?case using assms(2) by (subst chunks.simps) simp
qed

section \<open>Removing and updating the first match of a list\<close>

fun remove_first :: "('a \<Rightarrow> bool) \<Rightarrow> 'a list \<Rightarrow> 'a list" where
  "remove_first P [] = []"
| "remove_first P (x # xs) = (if P x then xs else x # remove_first P xs)"

fun update_first :: "('a \<Rightarrow> bool) \<Rightarrow> ('a \<Rightarrow> 'a) \<Rightarrow> 'a list \<Rightarrow> 'a list" where
  "update_first P f [] = []"
| "update_first P f (x # xs) = (if P x then f x # xs else x # update_first P f xs)"

lemma find_index_None: "find_index P xs = None \<longleftrightarrow> (\<forall>x\<in>set xs. \<not> P x)"
proof -
  have "length (takeWhile (\<lambda>x. \<not> P x) xs) < length xs \<longleftrightarrow> (\<exists>x\<in>set xs. P x)"
    by (induction xs) auto
  then show ?thesis by (simp add: find_index_def Let_def)
qed

lemma find_index_Some:
  assumes "find_index P xs = Some i"
  shows "i < length xs" "P (xs ! i)" "update_first P f xs = xs[i := f (xs ! i)]"
    "remove_first P xs = take i xs @ drop (Suc i) xs"
  using assms
proof (induction xs arbitrary: i)
  case Nil
  { case 1 then show ?case by (simp add: find_index_def) }
  { case 2 then show ?case by (simp add: find_index_def) }
  { case 3 then show ?case by (simp add: find_index_def) }
  { case 4 then show ?case by (simp add: find_index_def) }
next
  case (Cons x xs)
  have step: "find_index P (x # xs) = (if P x then Some 0 else map_option Suc (find_index P xs))" for x and xs :: "'a list"
    by (simp add: find_index_def Let_def)
  { case 1 then show ?case using Cons(1) by (auto simp: step split: if_splits) }
  { case 2 then show ?case using Cons(2) by (auto simp: step split: if_splits) }
  { case 3 then show ?case using Cons(3) by (auto simp: step split: if_splits) }
  { case 4 then show ?case using Cons(4) by (auto simp: step split: if_splits) }
qed

lemma find_index_first: "find_index P xs = Some i \<Longrightarrow> j < i \<Longrightarrow> \<not> P (xs ! j)"
  using nth_length_takeWhile takeWhile_nth [of j "\<lambda>x. \<not> P x" xs] nth_mem [of j "takeWhile (\<lambda>x. \<not> P x) xs"]
  by (auto simp: find_index_def Let_def dest: set_takeWhileD split: if_splits)

lemma find_indexI:
  assumes "i < length xs" "P (xs ! i)" "\<And>j. j < i \<Longrightarrow> \<not> P (xs ! j)"
  shows "find_index P xs = Some i"
proof -
  have "takeWhile (\<lambda>x. \<not> P x) xs = take i xs"
    by (rule takeWhile_eq_take_P_nth) (use assms in auto)
  then have "length (takeWhile (\<lambda>x. \<not> P x) xs) = i" using assms(1) by simp
  then show ?thesis using assms(1) by (simp add: find_index_def Let_def)
qed

lemma those_map: "(\<And>x. x \<in> set xs \<Longrightarrow> f x = Some (g x)) \<Longrightarrow> those (map f xs) = Some (map g xs)"
  by (induction xs) auto

lemma find_index_map: "find_index P (map f xs) = find_index (\<lambda>x. P (f x)) xs"
  by (simp add: find_index_def takeWhile_map comp_def)

lemma find_index_find: "find_index P xs = Some j \<Longrightarrow> List.find P xs = Some (xs ! j)"
  by (induction xs arbitrary: j) (auto simp: find_index_def Let_def split: if_splits)

lemma map_update_first: "(\<And>x. g (f x) = g x) \<Longrightarrow> map g (update_first P f xs) = map g xs"
  by (induction xs) auto

lemma set_remove_first: "set (remove_first P xs) \<subseteq> set xs"
  by (induction xs) auto

lemma remove_first_absent: "\<forall>x\<in>set xs. \<not> P x \<Longrightarrow> remove_first P xs = xs"
  by (induction xs) auto

lemma remove_first_snoc: "\<forall>x\<in>set xs. \<not> P x \<Longrightarrow> P y \<Longrightarrow> remove_first P (xs @ [y]) = xs"
  by (induction xs) auto

lemma distinct_remove_first: "distinct (map f xs) \<Longrightarrow> distinct (map f (remove_first P xs))"
  using set_remove_first by (induction xs) fastforce+

lemma distinct_filter_remove_first:
  "distinct (filter Q (map f xs)) \<Longrightarrow> distinct (filter Q (map f (remove_first P xs)))"
  using set_remove_first by (induction xs) fastforce+

lemma remove_first_gone: "distinct (map f xs) \<Longrightarrow> y \<notin> f ` set (remove_first (\<lambda>x. f x = y) xs)"
  by (induction xs) auto

lemma length_remove_first:
  "length (remove_first P xs) = (if \<exists>x\<in>set xs. P x then length xs - 1 else length xs)"
  by (induction xs) (auto simp: length_pos_if_in_set, metis length_pos_if_in_set Suc_pred)

lemma find_update_first:
  "\<exists>x\<in>set xs. P x \<Longrightarrow> (\<And>x. P x \<Longrightarrow> P (f x)) \<Longrightarrow>
   \<exists>x\<in>set xs. P x \<and> List.find P (update_first P f xs) = Some (f x)"
  by (induction xs) auto

lemma update_first_snoc: "\<forall>x\<in>set xs. \<not> P x \<Longrightarrow> P y \<Longrightarrow> update_first P f (xs @ [y]) = xs @ [f y]"
  by (induction xs) auto

lemma find_snoc: "(\<forall>x\<in>set xs. \<not> P x) \<Longrightarrow> P y \<Longrightarrow> List.find P (xs @ [y]) = Some y"
  by (induction xs) auto

lemma find_update_first_Some:
  "List.find P xs = Some x \<Longrightarrow> (\<And>x. P x \<Longrightarrow> P (g x)) \<Longrightarrow> List.find P (update_first P g xs) = Some (g x)"
  by (induction xs) (auto split: if_splits)

section \<open>Effect on the live entries\<close>

lemma close_gap_live:
  assumes "n \<le> length xs" "i < n"
  shows "\<exists>ys. close_gap xs n i = Some ys \<and> length ys = length xs \<and>
    take (n - 1) ys = take i (take n xs) @ drop (Suc i) (take n xs)"
proof -
  let ?tail = "subslice xs (i + 1) (n - (i + 1))"
  have "range_at xs (i + 1) n = Some ?tail" "copy_at xs i ?tail = Some (put xs i ?tail)"
    using assms by (simp_all add: range_at_in copy_at_in)
  moreover have "take (n - 1) (put xs i ?tail) = take i (take n xs) @ drop (Suc i) (take n xs)"
  proof -
    obtain k where k: "n = Suc (i + k)" using assms(2) less_imp_Suc_add by blast
    with assms show ?thesis by (simp add: put_def subslice_def drop_take)
  qed
  ultimately show ?thesis using assms by (auto simp: close_gap_def)
qed

lemma append_live:
  "n < length xs \<Longrightarrow> take (Suc n) (xs[n := x]) = take n xs @ [x]"
  by (simp add: take_Suc_conv_app_nth)

lemma rotate_range_eq:
  assumes "a < n" "n \<le> length xs"
  shows "\<exists>ys. rotate_range xs a n = Some ys \<and> length ys = length xs \<and>
    take (n - 1) ys = take a xs @ drop (Suc a) (take n xs)"
proof -
  let ?p = "take (n - a) (drop a xs)"
  have p: "?p = xs ! a # take (n - Suc a) (drop (Suc a) xs)"
    using assms by (metis Cons_nth_drop_Suc Suc_diff_Suc less_le_trans take_Suc_Cons)
  have r: "rotate_range xs a n = Some (put xs a (rotate1 ?p))"
    using assms by (simp add: rotate_range_def range_at_def copy_at_def subslice_def)
  have l: "length (put xs a (rotate1 ?p)) = length xs" using assms by simp
  let ?rest = "take (n - Suc a) (drop (Suc a) xs)"
  have "put xs a (rotate1 ?p) = (take a xs @ ?rest) @ xs ! a # drop (a + length ?p) xs"
    unfolding put_def p by simp
  moreover have "length (take a xs @ ?rest) = n - 1" using assms by simp
  ultimately have "take (n - 1) (put xs a (rotate1 ?p)) = take a xs @ ?rest" by (metis append_eq_conv_conj)
  also have "?rest = drop (Suc a) (take n xs)" by (simp add: drop_take)
  finally show ?thesis using r l by blast
qed

lemma rotate_range_set:
  assumes "rotate_range xs a n = Some ys"
  shows "set ys = set xs"
proof -
  let ?p = "subslice xs a (n - a)"
  have a: "a \<le> n" "n \<le> length xs" "ys = put xs a (rotate1 ?p)"
    using assms by (auto simp: rotate_range_def range_at_def copy_at_def split: if_splits)
  have "xs = take a xs @ ?p @ drop (a + length ?p) xs"
    using a put_self [of a "n - a" xs] by (simp add: put_def)
  then show ?thesis unfolding a(3) put_def by (metis length_rotate1 set_append set_rotate1)
qed

section \<open>The interface of a counted list\<close>

lemma distinct_delete:
  assumes "distinct (map f xs)"
  shows "distinct (map f (take i xs @ drop (Suc i) xs))"
proof (cases "i < length xs")
  case True
  then have "map f xs = map f (take i xs) @ f (xs ! i) # map f (drop (Suc i) xs)"
    by (metis id_take_nth_drop list.simps(9) map_append)
  then show ?thesis using assms by simp
qed (use assms in simp)

text \<open>The tables that keep their order: \<open>push\<close> appends an entry that \<open>fits\<close>, which the callers do only
  when there is room, and \<open>delete\<close> closes the gap. A client that searches the live items and
  removes what it found removes the first match.\<close>

locale counted_list =
  fixes wf :: "'s \<Rightarrow> bool"
    and items :: "'s \<Rightarrow> 'e list"
    and capacity :: "'s \<Rightarrow> nat"
    and fits :: "'s \<Rightarrow> 'e \<Rightarrow> bool"
    and push :: "'e \<Rightarrow> 's \<Rightarrow> 's option"
    and delete :: "nat \<Rightarrow> 's \<Rightarrow> 's option"
  assumes bounded: "wf s \<Longrightarrow> length (items s) \<le> capacity s"
    and push_live: "wf s \<Longrightarrow> fits s e \<Longrightarrow> length (items s) < capacity s \<Longrightarrow>
      \<exists>s'. push e s = Some s' \<and> wf s' \<and> items s' = items s @ [e] \<and> capacity s' = capacity s"
    and delete_live: "wf s \<Longrightarrow> i < length (items s) \<Longrightarrow>
      \<exists>s'. delete i s = Some s' \<and> wf s' \<and> items s' = take i (items s) @ drop (Suc i) (items s) \<and>
        capacity s' = capacity s"
begin

lemma delete_first:
  assumes "wf s" "find_index P (items s) = Some i"
  shows "\<exists>s'. delete i s = Some s' \<and> wf s' \<and> items s' = remove_first P (items s) \<and> capacity s' = capacity s"
  using delete_live [OF assms(1) find_index_Some(1) [OF assms(2)]] find_index_Some(4) [OF assms(2)] by simp

lemma push_delete:
  assumes s: "wf s" "fits s e" "length (items s) < capacity s"
  shows "\<exists>s' s''. push e s = Some s' \<and> delete (length (items s)) s' = Some s'' \<and> items s'' = items s"
proof -
  obtain s' where s': "push e s = Some s'" "wf s'" "items s' = items s @ [e]" using push_live [OF s] by blast
  then have "length (items s) < length (items s')" by simp
  then show ?thesis using delete_live [OF s'(2)] s'(1,3) by fastforce
qed

end

end
