(* ===== verification/Neighbor.thy ===== *)
theory Neighbor
  imports Bcmp_Header Util Bounded_Array
begin

text \<open>
  \<open>bm-wire/src/neighbor.rs\<close>: the fixed-capacity neighbour table. The table is modelled as
  the code has it, an array of entries and a length with stale entries behind it, and is
  refined to a list of live neighbours. Reachable tables hold at most one neighbour per port
  and no non-zero node id twice; with one slot per port a heartbeat is never lost to a full
  table; and the liveliness check takes exactly the neighbours offline whose lease ran out,
  across wrap-around of the millisecond clock.
\<close>

section \<open>The table\<close>

definition HEARTBEAT_PERIOD_S :: u32 where "HEARTBEAT_PERIOD_S = 10"

record Neighbor =
  nb_node_id :: u64
  nb_port :: u8
  nb_last_heartbeat_ms :: u32
  nb_last_time_since_boot_us :: u64
  nb_heartbeat_period_s :: u32
  nb_online :: bool

definition neighbor_default :: Neighbor where
  "neighbor_default = \<lparr>nb_node_id = 0, nb_port = 0, nb_last_heartbeat_ms = 0,
     nb_last_time_since_boot_us = 0, nb_heartbeat_period_s = 0, nb_online = False\<rparr>"

definition lease_ms :: "Neighbor \<Rightarrow> u32" where
  "lease_ms n = nb_heartbeat_period_s n * 2 * 1000"

record HeartbeatOutcome =
  added :: bool
  evicted :: "u64 option"
  discovery_callbacks :: u8
  reset :: bool
  request_info :: bool
  table_full :: bool

definition outcome_default :: HeartbeatOutcome where
  "outcome_default = \<lparr>added = False, evicted = None, discovery_callbacks = 0, reset = False,
     request_info = False, table_full = False\<rparr>"

record NeighborTable =
  nt_len :: nat
  nt_entries :: "Neighbor list"

definition nt_new :: "nat \<Rightarrow> NeighborTable" where
  "nt_new n = \<lparr>nt_len = 0, nt_entries = replicate n neighbor_default\<rparr>"

definition nt_is_empty :: "NeighborTable \<Rightarrow> bool" where
  "nt_is_empty t \<longleftrightarrow> nt_len t = 0"

text \<open>\<open>&self.entries[..self.len]\<close>.\<close>

definition nt_neighbors :: "NeighborTable \<Rightarrow> Neighbor list option" where
  "nt_neighbors t = range_at (nt_entries t) 0 (nt_len t)"

definition nt_find :: "NeighborTable \<Rightarrow> u64 \<Rightarrow> Neighbor option option" where
  "nt_find t node_id =
     (if node_id = 0 then Some None
      else do { ns \<leftarrow> nt_neighbors t; Some (List.find (\<lambda>n. nb_node_id n = node_id) ns) })"

definition nt_position :: "NeighborTable \<Rightarrow> u64 \<Rightarrow> nat option option" where
  "nt_position t node_id =
     (if node_id = 0 then Some None
      else do { ns \<leftarrow> nt_neighbors t; Some (find_index (\<lambda>n. nb_node_id n = node_id) ns) })"

definition nt_remove :: "NeighborTable \<Rightarrow> nat \<Rightarrow> NeighborTable option" where
  "nt_remove t index = do {
     entries \<leftarrow> close_gap (nt_entries t) (nt_len t) index;
     Some (t\<lparr>nt_entries := entries, nt_len := nt_len t - 1\<rparr>)
   }"

section \<open>Heartbeats\<close>

text \<open>The part of \<open>on_heartbeat\<close> behind the match: the entry at \<open>index\<close> takes the heartbeat.\<close>

definition heartbeat_entry :: "u32 \<Rightarrow> Heartbeat \<Rightarrow> Neighbor \<Rightarrow> Neighbor" where
  "heartbeat_entry now_ms hb n = n\<lparr>nb_last_time_since_boot_us := time_since_boot_us hb,
     nb_heartbeat_period_s := liveliness_lease_dur_s hb, nb_last_heartbeat_ms := now_ms, nb_online := True\<rparr>"

definition heartbeat_outcome :: "Heartbeat \<Rightarrow> Neighbor \<Rightarrow> HeartbeatOutcome \<Rightarrow> HeartbeatOutcome" where
  "heartbeat_outcome hb n o0 =
     (let o1 = o0\<lparr>reset := time_since_boot_us hb < nb_last_time_since_boot_us n\<rparr>;
          o2 = (if \<not> nb_online n \<or> reset o1 then o1\<lparr>discovery_callbacks := discovery_callbacks o1 + 1\<rparr> else o1)
      in if reset o2 then o2\<lparr>request_info := True\<rparr> else o2)"

definition nt_touch ::
  "NeighborTable \<Rightarrow> nat \<Rightarrow> u32 \<Rightarrow> Heartbeat \<Rightarrow> HeartbeatOutcome \<Rightarrow> (NeighborTable \<times> HeartbeatOutcome) option" where
  "nt_touch t index now_ms hb o0 = do {
     n \<leftarrow> get_at (nt_entries t) index;
     entries \<leftarrow> set_at (nt_entries t) index (heartbeat_entry now_ms hb n);
     Some (t\<lparr>nt_entries := entries\<rparr>, heartbeat_outcome hb n o0)
   }"

definition nt_evict :: "NeighborTable \<Rightarrow> u8 \<Rightarrow> (NeighborTable \<times> u64 option) option" where
  "nt_evict t ingress_port = do {
     ns \<leftarrow> nt_neighbors t;
     case find_index (\<lambda>n. nb_port n = ingress_port) ns of
       None \<Rightarrow> Some (t, None)
     | Some occupant \<Rightarrow> do {
         e \<leftarrow> get_at (nt_entries t) occupant;
         t \<leftarrow> nt_remove t occupant;
         Some (t, Some (nb_node_id e))
       }
   }"

definition on_heartbeat ::
  "NeighborTable \<Rightarrow> u32 \<Rightarrow> u64 \<Rightarrow> u8 \<Rightarrow> Heartbeat \<Rightarrow> (NeighborTable \<times> HeartbeatOutcome) option" where
  "on_heartbeat t now_ms node_id ingress_port hb = do {
     pos \<leftarrow> nt_position t node_id;
     case pos of
       Some index \<Rightarrow> nt_touch t index now_ms hb outcome_default
     | None \<Rightarrow> do {
         (t, ev) \<leftarrow> nt_evict t ingress_port;
         let o1 = outcome_default\<lparr>evicted := ev\<rparr>;
         if nt_len t = length (nt_entries t) then Some (t, o1\<lparr>table_full := True\<rparr>)
         else do {
           entries \<leftarrow> set_at (nt_entries t) (nt_len t)
             (neighbor_default\<lparr>nb_node_id := node_id, nb_port := ingress_port\<rparr>);
           let t = t\<lparr>nt_entries := entries, nt_len := nt_len t + 1\<rparr>;
           nt_touch t (nt_len t - 1) now_ms hb
             (o1\<lparr>added := True, discovery_callbacks := discovery_callbacks o1 + 1, request_info := True\<rparr>)
         }
       }
   }"

section \<open>The liveliness check\<close>

definition lease_expired :: "u32 \<Rightarrow> Neighbor \<Rightarrow> bool" where
  "lease_expired now_ms n \<longleftrightarrow>
     nb_online n \<and> time_remaining (nb_last_heartbeat_ms n) now_ms (lease_ms n) = 0"

definition expire :: "u32 \<Rightarrow> Neighbor \<Rightarrow> Neighbor" where
  "expire now_ms n = (if lease_expired now_ms n then n\<lparr>nb_online := False\<rparr> else n)"

text \<open>\<open>check\<close> returns the table and the neighbours \<open>went_offline\<close> is called with, in order.\<close>

definition nt_check :: "NeighborTable \<Rightarrow> u32 \<Rightarrow> (NeighborTable \<times> Neighbor list) option" where
  "nt_check t now_ms = do {
     ns \<leftarrow> nt_neighbors t;
     entries \<leftarrow> copy_at (nt_entries t) 0 (map (expire now_ms) ns);
     Some (t\<lparr>nt_entries := entries\<rparr>, map (expire now_ms) (filter (lease_expired now_ms) ns))
   }"

definition heartbeat_for :: "u32 \<Rightarrow> u32 \<Rightarrow> Heartbeat" where
  "heartbeat_for uptime_ms lease_duration_s =
     \<lparr>time_since_boot_us = ucast uptime_ms * 1000, liveliness_lease_dur_s = lease_duration_s\<rparr>"

section \<open>Refinement to a list of live neighbours\<close>

definition live :: "NeighborTable \<Rightarrow> Neighbor list" where
  "live t = take (nt_len t) (nt_entries t)"

definition capacity :: "NeighborTable \<Rightarrow> nat" where
  "capacity t = length (nt_entries t)"

definition in_bounds :: "NeighborTable \<Rightarrow> bool" where
  "in_bounds t \<longleftrightarrow> nt_len t \<le> length (nt_entries t)"

text \<open>The specification of \<open>on_heartbeat\<close> on the live neighbours of a table of \<open>cap\<close> slots.\<close>

definition known :: "u64 \<Rightarrow> Neighbor \<Rightarrow> bool" where
  "known nid n \<longleftrightarrow> nid \<noteq> 0 \<and> nb_node_id n = nid"

definition spec_heartbeat ::
  "nat \<Rightarrow> Neighbor list \<Rightarrow> u32 \<Rightarrow> u64 \<Rightarrow> u8 \<Rightarrow> Heartbeat \<Rightarrow> Neighbor list" where
  "spec_heartbeat cap ns now nid port hb =
     (if \<exists>n\<in>set ns. known nid n then update_first (known nid) (heartbeat_entry now hb) ns
      else let ns' = remove_first (\<lambda>n. nb_port n = port) ns in
        if length ns' = cap then ns'
        else ns' @ [heartbeat_entry now hb (neighbor_default\<lparr>nb_node_id := nid, nb_port := port\<rparr>)])"

lemma nt_neighbors_live: "in_bounds t \<Longrightarrow> nt_neighbors t = Some (live t)"
  by (simp add: nt_neighbors_def in_bounds_def range_at_def live_def subslice_def)

lemma length_live: "in_bounds t \<Longrightarrow> length (live t) = nt_len t"
  by (simp add: live_def in_bounds_def)

lemma live_nth: "in_bounds t \<Longrightarrow> i < nt_len t \<Longrightarrow> live t ! i = nt_entries t ! i"
  by (simp add: live_def in_bounds_def)

lemma nt_position_eq: "in_bounds t \<Longrightarrow> nt_position t nid = Some (find_index (known nid) (live t))"
proof (cases "nid = 0")
  case True
  have "find_index (known 0) xs = None" for xs by (simp add: find_index_None known_def)
  with True show ?thesis by (simp add: nt_position_def)
next
  case False
  assume "in_bounds t"
  moreover from False have "known nid = (\<lambda>n. nb_node_id n = nid)" by (simp add: known_def fun_eq_iff)
  ultimately show ?thesis using False by (simp add: nt_position_def nt_neighbors_live)
qed

lemma nt_touch_eq:
  assumes "in_bounds t" "i < nt_len t"
  shows "\<exists>t'. nt_touch t i now hb o0 = Some (t', heartbeat_outcome hb (live t ! i) o0) \<and> in_bounds t' \<and>
    capacity t' = capacity t \<and> live t' = (live t)[i := heartbeat_entry now hb (live t ! i)]"
  using assms
  by (auto simp: nt_touch_def in_bounds_def get_at_in set_at_in live_def capacity_def take_update_swap)

lemma nt_remove_eq:
  assumes "in_bounds t" "i < nt_len t"
  shows "\<exists>t'. nt_remove t i = Some t' \<and> in_bounds t' \<and> capacity t' = capacity t \<and>
    live t' = take i (live t) @ drop (Suc i) (live t)"
  using close_gap_live [of "nt_len t" "nt_entries t" i] assms
  by (auto simp: nt_remove_def in_bounds_def capacity_def live_def)

lemma nt_evict_eq:
  assumes "in_bounds t"
  shows "\<exists>t' ev. nt_evict t port = Some (t', ev) \<and> in_bounds t' \<and> capacity t' = capacity t \<and>
    live t' = remove_first (\<lambda>n. nb_port n = port) (live t) \<and>
    ev = map_option nb_node_id (List.find (\<lambda>n. nb_port n = port) (live t))"
proof (cases "find_index (\<lambda>n. nb_port n = port) (live t)")
  case None
  then have no: "\<forall>n\<in>set (live t). nb_port n \<noteq> port" by (simp add: find_index_None)
  then have "remove_first (\<lambda>n. nb_port n = port) xs = xs" if "set xs \<subseteq> set (live t)" for xs
    using that by (induction xs) auto
  moreover have "List.find (\<lambda>n. nb_port n = port) (live t) = None" using no by (simp add: find_None_iff)
  ultimately show ?thesis using None assms by (simp add: nt_evict_def nt_neighbors_live)
next
  case (Some i)
  note fi = find_index_Some [OF Some]
  have i: "i < nt_len t" using fi(1) assms by (simp add: length_live)
  from nt_remove_eq [OF assms i] obtain t' where t': "nt_remove t i = Some t'" "in_bounds t'"
    "capacity t' = capacity t" "live t' = take i (live t) @ drop (Suc i) (live t)" by blast
  have g: "get_at (nt_entries t) i = Some (live t ! i)"
    using assms i by (simp add: get_at_in in_bounds_def live_nth)
  have "List.find (\<lambda>n. nb_port n = port) (live t) = Some (live t ! i)" using find_index_find [OF Some] .
  with t' g Some fi(4) assms show ?thesis by (simp add: nt_evict_def nt_neighbors_live)
qed

lemma nt_append_eq:
  assumes "in_bounds t" "nt_len t \<noteq> capacity t"
  shows "\<exists>e. set_at (nt_entries t) (nt_len t) n = Some e \<and> in_bounds (t\<lparr>nt_entries := e, nt_len := nt_len t + 1\<rparr>) \<and>
    length e = capacity t \<and> live (t\<lparr>nt_entries := e, nt_len := nt_len t + 1\<rparr>) = live t @ [n]"
  using assms
  by (auto simp: in_bounds_def capacity_def set_at_def live_def take_Suc_conv_app_nth)

lemma on_heartbeat_refines:
  assumes "in_bounds t"
  shows "\<exists>t' out. on_heartbeat t now nid port hb = Some (t', out) \<and> in_bounds t' \<and> capacity t' = capacity t \<and>
    live t' = spec_heartbeat (capacity t) (live t) now nid port hb \<and>
    (table_full out \<longleftrightarrow> (\<forall>n\<in>set (live t). \<not> known nid n) \<and>
       length (remove_first (\<lambda>n. nb_port n = port) (live t)) = capacity t) \<and>
    (added out \<longleftrightarrow> (\<forall>n\<in>set (live t). \<not> known nid n) \<and> \<not> table_full out)"
proof (cases "find_index (known nid) (live t)")
  case (Some i)
  note fi = find_index_Some [OF Some]
  have i: "i < nt_len t" using fi(1) assms by (simp add: length_live)
  have ex: "\<exists>n\<in>set (live t). known nid n" using fi(1,2) nth_mem by blast
  from nt_touch_eq [OF assms i, of now hb outcome_default] obtain t' where
    "nt_touch t i now hb outcome_default = Some (t', heartbeat_outcome hb (live t ! i) outcome_default)"
    "in_bounds t'" "capacity t' = capacity t" "live t' = (live t)[i := heartbeat_entry now hb (live t ! i)]"
    by blast
  moreover have "\<not> table_full (heartbeat_outcome hb n outcome_default)"
    "\<not> added (heartbeat_outcome hb n outcome_default)" for n
    by (simp_all add: heartbeat_outcome_def outcome_default_def Let_def)
  ultimately show ?thesis
    using Some ex fi(3) assms by (auto simp: on_heartbeat_def nt_position_eq spec_heartbeat_def)
next
  case None
  then have unk: "\<forall>n\<in>set (live t). \<not> known nid n" by (simp add: find_index_None)
  let ?ns = "remove_first (\<lambda>n. nb_port n = port) (live t)"
  let ?fresh = "neighbor_default\<lparr>nb_node_id := nid, nb_port := port\<rparr>"
  from nt_evict_eq [OF assms, of port] obtain t1 ev where t1: "nt_evict t port = Some (t1, ev)"
    "in_bounds t1" "capacity t1 = capacity t" "live t1 = ?ns" by blast
  have len: "nt_len t1 = length ?ns" using t1 length_live by metis
  show ?thesis
  proof (cases "nt_len t1 = capacity t1")
    case True
    with unk None t1 len assms show ?thesis
      by (auto simp: on_heartbeat_def nt_position_eq spec_heartbeat_def capacity_def outcome_default_def Let_def)
  next
    case False
    from nt_append_eq [OF t1(2) False, of ?fresh] obtain e where e:
      "set_at (nt_entries t1) (nt_len t1) ?fresh = Some e"
      "in_bounds (t1\<lparr>nt_entries := e, nt_len := nt_len t1 + 1\<rparr>)" "length e = capacity t1"
      "live (t1\<lparr>nt_entries := e, nt_len := nt_len t1 + 1\<rparr>) = ?ns @ [?fresh]"
      using t1(4) by metis
    let ?t2 = "t1\<lparr>nt_entries := e, nt_len := nt_len t1 + 1\<rparr>"
    let ?o = "outcome_default\<lparr>evicted := ev, added := True, discovery_callbacks := 1, request_info := True\<rparr>"
    from nt_touch_eq [OF e(2), of "nt_len t1" now hb ?o] obtain t' where t':
      "nt_touch ?t2 (nt_len t1) now hb ?o = Some (t', heartbeat_outcome hb ?fresh ?o)"
      "in_bounds t'" "capacity t' = capacity ?t2" "live t' = ?ns @ [heartbeat_entry now hb ?fresh]"
      using e(4) len by (auto simp: nth_append list_update_append)
    have "\<not> table_full (heartbeat_outcome hb n ?o)" "added (heartbeat_outcome hb n ?o)" for n
      by (simp_all add: heartbeat_outcome_def outcome_default_def Let_def)
    with unk None t1 e t' len False assms show ?thesis
      by (auto simp: on_heartbeat_def nt_position_eq spec_heartbeat_def capacity_def outcome_default_def Let_def)
  qed
qed

lemma nt_check_eq:
  assumes "in_bounds t"
  shows "\<exists>t'. nt_check t now = Some (t', map (expire now) (filter (lease_expired now) (live t))) \<and>
    in_bounds t' \<and> capacity t' = capacity t \<and>
    live t' = map (expire now) (live t)"
proof -
  let ?m = "map (expire now) (live t)"
  have "copy_at (nt_entries t) 0 ?m = Some (put (nt_entries t) 0 ?m)"
    using assms by (simp add: copy_at_in length_live in_bounds_def)
  moreover have "take (nt_len t) (put (nt_entries t) 0 ?m) = ?m" "length (put (nt_entries t) 0 ?m) = capacity t"
    using assms by (simp_all add: put_0 length_live in_bounds_def capacity_def)
  ultimately show ?thesis
    using assms by (simp add: nt_check_def nt_neighbors_live in_bounds_def capacity_def live_def [of "t\<lparr>nt_entries := _\<rparr>"])
qed

section \<open>Reachable tables\<close>

inductive nt_reachable :: "nat \<Rightarrow> NeighborTable \<Rightarrow> bool" for cap where
  init: "nt_reachable cap (nt_new cap)"
| heartbeat: "nt_reachable cap t \<Longrightarrow> on_heartbeat t now nid port hb = Some (t', out) \<Longrightarrow> nt_reachable cap t'"
| check: "nt_reachable cap t \<Longrightarrow> nt_check t now = Some (t', gone) \<Longrightarrow> nt_reachable cap t'"

definition nt_inv :: "nat \<Rightarrow> NeighborTable \<Rightarrow> bool" where
  "nt_inv cap t \<longleftrightarrow> in_bounds t \<and> capacity t = cap \<and> distinct (map nb_port (live t)) \<and>
     distinct (filter (\<lambda>i. i \<noteq> 0) (map nb_node_id (live t)))"

lemma heartbeat_entry_ids [simp]:
  "nb_port (heartbeat_entry now hb n) = nb_port n" "nb_node_id (heartbeat_entry now hb n) = nb_node_id n"
  by (simp_all add: heartbeat_entry_def)

lemma expire_ids [simp]:
  "nb_port (expire now n) = nb_port n" "nb_node_id (expire now n) = nb_node_id n"
  by (simp_all add: expire_def)

lemma spec_heartbeat_inv:
  assumes "distinct (map nb_port ns)" "distinct (filter (\<lambda>i. i \<noteq> 0) (map nb_node_id ns))"
  shows "distinct (map nb_port (spec_heartbeat cap ns now nid port hb))"
    "distinct (filter (\<lambda>i. i \<noteq> 0) (map nb_node_id (spec_heartbeat cap ns now nid port hb)))"
proof -
  let ?ns = "remove_first (\<lambda>n. nb_port n = port) ns"
  have "nid \<notin> nb_node_id ` set ?ns" if "\<not> (\<exists>n\<in>set ns. known nid n)" "nid \<noteq> 0"
    using that set_remove_first [of "\<lambda>n. nb_port n = port" ns] by (auto simp: known_def)
  then show "distinct (map nb_port (spec_heartbeat cap ns now nid port hb))"
    "distinct (filter (\<lambda>i. i \<noteq> 0) (map nb_node_id (spec_heartbeat cap ns now nid port hb)))"
    using assms distinct_remove_first [OF assms(1)] distinct_filter_remove_first [OF assms(2)]
      remove_first_gone [OF assms(1), of port]
    by (auto simp: spec_heartbeat_def map_update_first Let_def)
qed

lemma nt_reachable_inv: "nt_reachable cap t \<Longrightarrow> nt_inv cap t"
proof (induction rule: nt_reachable.induct)
  case init
  show ?case by (simp add: nt_inv_def nt_new_def in_bounds_def capacity_def live_def)
next
  case (heartbeat t now nid port hb t' out)
  then show ?case
    using on_heartbeat_refines [of t now nid port hb] spec_heartbeat_inv [of "live t"]
    by (auto simp: nt_inv_def)
next
  case (check t now t' gone)
  then show ?case using nt_check_eq [of t now] by (auto simp: nt_inv_def o_def)
qed

lemma nt_find_eq: "in_bounds t \<Longrightarrow> nt_find t nid = Some (List.find (known nid) (live t))"
proof -
  assume b: "in_bounds t"
  have "List.find (known 0) xs = None" for xs by (simp add: find_None_iff known_def)
  moreover have "nid \<noteq> 0 \<Longrightarrow> known nid = (\<lambda>n. nb_node_id n = nid)" by (simp add: known_def fun_eq_iff)
  ultimately show ?thesis using b by (simp add: nt_find_def nt_neighbors_live)
qed

lemma known_heartbeat_entry [simp]: "known nid (heartbeat_entry now hb n) = known nid n"
  by (simp add: known_def)

lemma not_full:
  assumes "nt_inv cap t" "finite P" "card P \<le> cap" "nb_port ` set (live t) \<subseteq> P" "port \<in> P"
  shows "length (remove_first (\<lambda>n. nb_port n = port) (live t)) \<noteq> cap"
proof -
  let ?ns = "remove_first (\<lambda>n. nb_port n = port) (live t)"
  have d: "distinct (map nb_port (live t))" using assms(1) by (simp add: nt_inv_def)
  have "set (map nb_port ?ns) \<subseteq> P - {port}"
    using remove_first_gone [OF d, of port] set_remove_first [of "\<lambda>n. nb_port n = port" "live t"] assms(4) by auto
  then have "card (set (map nb_port ?ns)) \<le> card (P - {port})" using assms(2) by (intro card_mono) simp
  moreover have "card (set (map nb_port ?ns)) = length ?ns"
    using distinct_card [OF distinct_remove_first [OF d, of "\<lambda>n. nb_port n = port"]] by simp
  moreover have "card (P - {port}) < card P" using assms(2,5) by (metis card_Diff1_less)
  ultimately show ?thesis using assms(3) by linarith
qed

section \<open>Properties\<close>

text \<open>Property C7. Every neighbour table the operations can reach stays within its capacity, holds at
  most one neighbour per port and no non-zero node id twice, and neither a heartbeat nor the
  liveliness check panics on it.\<close>

theorem neighbor_table_invariant:
  assumes "nt_reachable cap t"
  shows "nt_len t \<le> cap \<and> length (nt_entries t) = cap \<and> distinct (map nb_port (live t)) \<and>
    distinct (filter (\<lambda>i. i \<noteq> 0) (map nb_node_id (live t))) \<and>
    on_heartbeat t now nid port hb \<noteq> None \<and> nt_check t now \<noteq> None"
  using nt_reachable_inv [OF assms] on_heartbeat_refines [of t now nid port hb] nt_check_eq [of t now]
  by (auto simp: nt_inv_def in_bounds_def capacity_def)

theorem neighbor_table_invariant_witness:
  "nt_len (nt_new 3) \<le> 3 \<and> distinct (map nb_port (live (nt_new 3))) \<and> nt_check (nt_new 3) 5 \<noteq> None"
  using neighbor_table_invariant [OF nt_reachable.init [of 3], of 0 0 0 "heartbeat_for 0 10"]
    neighbor_table_invariant [OF nt_reachable.init [of 3], of 5]
  by simp

text \<open>With a slot for each of the device's ports no heartbeat is lost: after a heartbeat
  from a non-zero node id the table is not full and looking the node up finds it, online,
  with the time, uptime and lease of that heartbeat.\<close>

theorem heartbeat_then_find:
  assumes "nt_reachable cap t" "finite P" "card P \<le> cap" "nb_port ` set (live t) \<subseteq> P" "port \<in> P" "nid \<noteq> 0"
  shows "\<exists>t' out n. on_heartbeat t now nid port hb = Some (t', out) \<and> \<not> table_full out \<and>
    nt_find t' nid = Some (Some n) \<and> nb_node_id n = nid \<and> nb_online n \<and> nb_last_heartbeat_ms n = now \<and>
    nb_last_time_since_boot_us n = time_since_boot_us hb \<and> nb_heartbeat_period_s n = liveliness_lease_dur_s hb"
proof -
  have inv: "nt_inv cap t" using nt_reachable_inv [OF assms(1)] .
  then have b: "in_bounds t" "capacity t = cap" by (simp_all add: nt_inv_def)
  from on_heartbeat_refines [OF b(1), of now nid port hb] obtain t' out where r:
    "on_heartbeat t now nid port hb = Some (t', out)" "in_bounds t'"
    "live t' = spec_heartbeat cap (live t) now nid port hb" "\<not> table_full out"
    using not_full [OF inv assms(2-5)] b(2) by auto
  let ?f = "heartbeat_entry now hb"
  have "\<exists>m. List.find (known nid) (spec_heartbeat cap (live t) now nid port hb) = Some (?f m) \<and> known nid m"
  proof (cases "\<exists>n\<in>set (live t). known nid n")
    case True
    then show ?thesis using find_update_first [OF True, of ?f] by (auto simp: spec_heartbeat_def)
  next
    case False
    let ?fresh = "neighbor_default\<lparr>nb_node_id := nid, nb_port := port\<rparr>"
    have "known nid ?fresh" using assms(6) by (simp add: known_def)
    then show ?thesis
      using False not_full [OF inv assms(2-5)] set_remove_first [of "\<lambda>n. nb_port n = port" "live t"]
      by (auto simp: spec_heartbeat_def Let_def intro!: exI [of _ ?fresh] find_snoc)
  qed
  then show ?thesis
    using r nt_find_eq [OF r(2), of nid] by (auto simp: heartbeat_entry_def known_def)
qed

theorem heartbeat_then_find_witness:
  "\<exists>t' out n. on_heartbeat (nt_new 2) 7 5 1 (heartbeat_for 3 10) = Some (t', out) \<and> \<not> table_full out \<and>
    nt_find t' 5 = Some (Some n) \<and> nb_online n \<and> nb_last_heartbeat_ms n = 7"
  using heartbeat_then_find [OF nt_reachable.init [of 2], of "{1, 2}" 1 5 7 "heartbeat_for 3 10"]
  by (auto simp: nt_new_def live_def)

text \<open>The liveliness check is exact across wrap-around of the millisecond clock: when the
  leases and the times since the last heartbeats are below half the clock's range, a
  neighbour is online afterwards exactly when it was online and less time than its lease has
  passed, everything else of every entry is unchanged, and the callback is given exactly the
  neighbours that went offline.\<close>

theorem check_takes_expired_offline:
  assumes "nt_reachable cap t"
    and "\<forall>n\<in>set (live t). unat (now - nb_last_heartbeat_ms n) < 2 ^ 31 \<and> unat (lease_ms n) < 2 ^ 31"
  shows "\<exists>t' gone. nt_check t now = Some (t', gone) \<and>
    live t' = map (\<lambda>n. n\<lparr>nb_online := nb_online n \<and> now - nb_last_heartbeat_ms n < lease_ms n\<rparr>) (live t) \<and>
    gone = map (\<lambda>n. n\<lparr>nb_online := False\<rparr>)
      (filter (\<lambda>n. nb_online n \<and> lease_ms n \<le> now - nb_last_heartbeat_ms n) (live t))"
proof -
  have b: "in_bounds t" using nt_reachable_inv [OF assms(1)] by (simp add: nt_inv_def)
  have exp: "lease_expired now n \<longleftrightarrow> nb_online n \<and> lease_ms n \<le> now - nb_last_heartbeat_ms n"
    if "n \<in> set (live t)" for n
  proof -
    have "time_remaining (nb_last_heartbeat_ms n) (nb_last_heartbeat_ms n + (now - nb_last_heartbeat_ms n)) (lease_ms n) =
        (if now - nb_last_heartbeat_ms n \<le> lease_ms n then lease_ms n - (now - nb_last_heartbeat_ms n) else 0)"
      using assms(2) that by (intro time_remaining_within) auto
    then have "time_remaining (nb_last_heartbeat_ms n) now (lease_ms n) = 0 \<longleftrightarrow>
        lease_ms n \<le> now - nb_last_heartbeat_ms n"
      by (auto simp: not_le)
    then show ?thesis by (simp add: lease_expired_def)
  qed
  then have "map (expire now) (live t) =
      map (\<lambda>n. n\<lparr>nb_online := nb_online n \<and> now - nb_last_heartbeat_ms n < lease_ms n\<rparr>) (live t)"
    by (auto simp: expire_def not_le)
  moreover have "map (expire now) (filter (lease_expired now) (live t)) = map (\<lambda>n. n\<lparr>nb_online := False\<rparr>)
      (filter (\<lambda>n. nb_online n \<and> lease_ms n \<le> now - nb_last_heartbeat_ms n) (live t))"
    using exp by (auto simp: expire_def cong: filter_cong)
  ultimately show ?thesis using nt_check_eq [OF b, of now] by auto
qed

theorem check_takes_expired_offline_witness:
  "\<exists>t t' gone. on_heartbeat (nt_new 2) 0xFFFFFFF0 5 1 (heartbeat_for 3 10) = Some t \<and>
    nt_check (fst t) (0xFFFFFFF0 + 20000) = Some (t', gone) \<and> length gone = 1"
proof -
  let ?hb = "heartbeat_for 3 10"
  let ?n = "heartbeat_entry 0xFFFFFFF0 ?hb (neighbor_default\<lparr>nb_node_id := 5, nb_port := 1\<rparr>)"
  have e: "in_bounds (nt_new 2)" "capacity (nt_new 2) = 2" "live (nt_new 2) = []"
    by (simp_all add: nt_new_def in_bounds_def capacity_def live_def)
  with on_heartbeat_refines [OF e(1), of "0xFFFFFFF0" 5 1 ?hb] obtain t out where
    t: "on_heartbeat (nt_new 2) 0xFFFFFFF0 5 1 ?hb = Some (t, out)" "live t = [?n]"
    by (auto simp: spec_heartbeat_def)
  have r: "nt_reachable 2 t" by (rule nt_reachable.heartbeat [OF nt_reachable.init t(1)])
  have n: "nb_last_heartbeat_ms ?n = 0xFFFFFFF0" "lease_ms ?n = 20000" "nb_online ?n"
    by (simp_all add: heartbeat_entry_def heartbeat_for_def lease_ms_def)
  from check_takes_expired_offline [OF r, of "0xFFFFFFF0 + 20000"] t(2) n
  obtain t' gone where "nt_check t (0xFFFFFFF0 + 20000) = Some (t', gone)" "length gone = 1"
    by auto
  with t(1) show ?thesis by fastforce
qed

text \<open>A heartbeat from a known neighbour never changes the port recorded for it, even when
  it arrives on another port: the entry keeps the port the neighbour was first heard on.\<close>

theorem heartbeat_keeps_recorded_port:
  assumes "nt_reachable cap t" "nt_find t nid = Some (Some n)"
  shows "\<exists>t' out n'. on_heartbeat t now nid port hb = Some (t', out) \<and> nt_find t' nid = Some (Some n') \<and>
    nb_port n' = nb_port n \<and> map nb_port (live t') = map nb_port (live t)"
proof -
  have b: "in_bounds t" using nt_reachable_inv [OF assms(1)] by (simp add: nt_inv_def)
  let ?f = "heartbeat_entry now hb"
  have f: "List.find (known nid) (live t) = Some n" using assms(2) nt_find_eq [OF b] by simp
  then have ex: "\<exists>n\<in>set (live t). known nid n" by (auto simp: find_Some_iff)
  from find_update_first_Some [OF f, of ?f]
  have g: "List.find (known nid) (update_first (known nid) ?f (live t)) = Some (?f n)" by simp
  from on_heartbeat_refines [OF b, of now nid port hb] obtain t' out where
    "on_heartbeat t now nid port hb = Some (t', out)" "in_bounds t'" "live t' = update_first (known nid) ?f (live t)"
    using ex by (auto simp: spec_heartbeat_def)
  then show ?thesis using g nt_find_eq [of t' nid] by (auto simp: map_update_first)
qed

theorem heartbeat_keeps_recorded_port_witness:
  "\<exists>t1 t2 o1 o2 n. on_heartbeat (nt_new 2) 7 5 1 (heartbeat_for 3 10) = Some (t1, o1) \<and>
    on_heartbeat t1 8 5 2 (heartbeat_for 4 10) = Some (t2, o2) \<and> nt_find t2 5 = Some (Some n) \<and> nb_port n = 1"
proof -
  let ?hb = "heartbeat_for 3 10"
  let ?n = "heartbeat_entry 7 ?hb (neighbor_default\<lparr>nb_node_id := 5, nb_port := 1\<rparr>)"
  have e: "in_bounds (nt_new 2)" "capacity (nt_new 2) = 2" "live (nt_new 2) = []"
    by (simp_all add: nt_new_def in_bounds_def capacity_def live_def)
  with on_heartbeat_refines [OF e(1), of 7 5 1 ?hb] obtain t1 o1 where
    t1: "on_heartbeat (nt_new 2) 7 5 1 ?hb = Some (t1, o1)" "live t1 = [?n]" "in_bounds t1"
    by (auto simp: spec_heartbeat_def)
  have r: "nt_reachable 2 t1" by (rule nt_reachable.heartbeat [OF nt_reachable.init t1(1)])
  have "nt_find t1 5 = Some (Some ?n)" using nt_find_eq [OF t1(3), of 5] t1(2) by (simp add: known_def)
  from heartbeat_keeps_recorded_port [OF r this, of 8 2 "heartbeat_for 4 10"] t1(1)
  show ?thesis by fastforce
qed

end
