(* ===== verification/Registry.thy ===== *)
theory Registry
  imports Bcmp_Header Bounded_Array
begin

text \<open>
  \<open>bm-wire/src/bcmp/registry.rs\<close>: the message-type registry, the sequence counter and the
  outstanding requests with their retry sweep. The requests are refined to a list. Shown of
  every reachable registry: nothing panics, the tables stay in their bounds, outstanding
  requests have distinct sequence numbers until the counter wraps, so a reply is matched to
  the one request that carries its number and only once; a sweep is idempotent at one
  instant, which is what makes missed sweeps free to skip; an unanswered request is sent
  again exactly three times and then times out; and the sweep keeps its phase.
\<close>

section \<open>Types\<close>

definition DEFAULT_MESSAGE_TIMEOUT_MS :: u32 where "DEFAULT_MESSAGE_TIMEOUT_MS = 24"
definition MESSAGE_TIMER_EXPIRY_PERIOD_MS :: u32 where "MESSAGE_TIMER_EXPIRY_PERIOD_MS = 150"
definition PACKET_RETRY_COUNT :: u8 where "PACKET_RETRY_COUNT = 3"

record PacketCfg =
  sequenced_reply :: bool
  sequenced_request :: bool

definition CFG_UNSEQUENCED :: PacketCfg where
  "CFG_UNSEQUENCED = \<lparr>sequenced_reply = False, sequenced_request = False\<rparr>"
definition CFG_REQUEST :: PacketCfg where
  "CFG_REQUEST = \<lparr>sequenced_reply = False, sequenced_request = True\<rparr>"
definition CFG_REPLY :: PacketCfg where
  "CFG_REPLY = \<lparr>sequenced_reply = True, sequenced_request = False\<rparr>"

record PendingRequest =
  pr_message_type :: MessageType
  pr_seq_num :: u32
  pr_timestamp_ms :: u32
  pr_timeout_ms :: u32
  pr_retries :: u8

definition expired_at :: "PendingRequest \<Rightarrow> u32 \<Rightarrow> bool" where
  "expired_at q now_ms \<longleftrightarrow> now_ms - pr_timestamp_ms q \<ge> pr_timeout_ms q"

datatype Expiry = Retry PendingRequest | TimedOut PendingRequest

datatype RegistryError = UnknownType | Full

record Outgoing =
  out_seq_num :: u32
  tracked :: bool

datatype Delivery = Unregistered | SequencedReply PendingRequest | Process

record Registry =
  rg_types :: "(MessageType \<times> PacketCfg) list"
  rg_types_len :: nat
  rg_pending_len :: nat
  rg_message_count :: u32
  rg_next_sweep_ms :: u32
  rg_pending :: "PendingRequest list"

definition pending_default :: PendingRequest where
  "pending_default = \<lparr>pr_message_type = 0, pr_seq_num = 0, pr_timestamp_ms = 0, pr_timeout_ms = 0, pr_retries = 0\<rparr>"

section \<open>Operations\<close>

definition rg_resuming :: "nat \<Rightarrow> nat \<Rightarrow> u32 \<Rightarrow> u32 \<Rightarrow> Registry" where
  "rg_resuming types pending sequence_count next_sweep_ms =
     \<lparr>rg_types = replicate types (0, CFG_UNSEQUENCED), rg_types_len = 0, rg_pending_len = 0,
      rg_message_count = sequence_count, rg_next_sweep_ms = next_sweep_ms,
      rg_pending = replicate pending pending_default\<rparr>"

definition rg_new :: "nat \<Rightarrow> nat \<Rightarrow> Registry" where
  "rg_new types pending = rg_resuming types pending 0 MESSAGE_TIMER_EXPIRY_PERIOD_MS"

definition rg_started_at :: "nat \<Rightarrow> nat \<Rightarrow> u32 \<Rightarrow> Registry" where
  "rg_started_at types pending now_ms =
     rg_resuming types pending 0 (now_ms + MESSAGE_TIMER_EXPIRY_PERIOD_MS)"

definition rg_add :: "Registry \<Rightarrow> MessageType \<Rightarrow> PacketCfg \<Rightarrow> (Registry \<times> (RegistryError, unit) result) option" where
  "rg_add r mt cfg =
     (if rg_types_len r = length (rg_types r) then Some (r, Err Full)
      else do {
        types \<leftarrow> set_at (rg_types r) (rg_types_len r) (mt, cfg);
        Some (r\<lparr>rg_types := types, rg_types_len := rg_types_len r + 1\<rparr>, Ok ())
      })"

definition rg_registrations :: "Registry \<Rightarrow> (MessageType \<times> PacketCfg) list option" where
  "rg_registrations r = range_at (rg_types r) 0 (rg_types_len r)"

definition rg_remove :: "Registry \<Rightarrow> MessageType \<Rightarrow> (Registry \<times> bool) option" where
  "rg_remove r mt = do {
     ts \<leftarrow> rg_registrations r;
     case find_index (\<lambda>(ty, _). ty = mt) ts of
       None \<Rightarrow> Some (r, False)
     | Some index \<Rightarrow> do {
         types \<leftarrow> close_gap (rg_types r) (rg_types_len r) index;
         Some (r\<lparr>rg_types := types, rg_types_len := rg_types_len r - 1\<rparr>, True)
       }
   }"

definition rg_cfg :: "Registry \<Rightarrow> MessageType \<Rightarrow> PacketCfg option option" where
  "rg_cfg r mt = do {
     ts \<leftarrow> rg_registrations r;
     Some (map_option snd (List.find (\<lambda>(ty, _). ty = mt) ts))
   }"

definition rg_pending_requests :: "Registry \<Rightarrow> PendingRequest list option" where
  "rg_pending_requests r = range_at (rg_pending r) 0 (rg_pending_len r)"

definition rg_sequence_count :: "Registry \<Rightarrow> u32" where
  "rg_sequence_count r = rg_message_count r"

definition on_serialize ::
  "Registry \<Rightarrow> u32 \<Rightarrow> MessageType \<Rightarrow> u32 \<Rightarrow> (Registry \<times> (RegistryError, Outgoing) result) option" where
  "on_serialize r now_ms mt reply_seq_num = do {
     c \<leftarrow> rg_cfg r mt;
     case c of
       None \<Rightarrow> Some (r, Err UnknownType)
     | Some cfg \<Rightarrow>
         if sequenced_reply cfg then Some (r, Ok \<lparr>out_seq_num = reply_seq_num, tracked = False\<rparr>)
         else if \<not> sequenced_request cfg then Some (r, Ok \<lparr>out_seq_num = 0, tracked = False\<rparr>)
         else do {
           let sn = rg_message_count r;
           let r = r\<lparr>rg_message_count := rg_message_count r + 1\<rparr>;
           let tr = (rg_pending_len r < length (rg_pending r));
           if tr then do {
             pending \<leftarrow> set_at (rg_pending r) (rg_pending_len r)
               \<lparr>pr_message_type = mt, pr_seq_num = sn, pr_timestamp_ms = now_ms,
                pr_timeout_ms = DEFAULT_MESSAGE_TIMEOUT_MS, pr_retries = 0\<rparr>;
             Some (r\<lparr>rg_pending := pending, rg_pending_len := rg_pending_len r + 1\<rparr>,
                   Ok \<lparr>out_seq_num = sn, tracked = tr\<rparr>)
           }
           else Some (r, Ok \<lparr>out_seq_num = sn, tracked = tr\<rparr>)
         }
   }"

definition remove_pending :: "Registry \<Rightarrow> nat \<Rightarrow> Registry option" where
  "remove_pending r index = do {
     pending \<leftarrow> close_gap (rg_pending r) (rg_pending_len r) index;
     Some (r\<lparr>rg_pending := pending, rg_pending_len := rg_pending_len r - 1\<rparr>)
   }"

definition on_received :: "Registry \<Rightarrow> MessageType \<Rightarrow> u32 \<Rightarrow> (Registry \<times> Delivery) option" where
  "on_received r mt sn = do {
     c \<leftarrow> rg_cfg r mt;
     case c of
       None \<Rightarrow> Some (r, Unregistered)
     | Some cfg \<Rightarrow>
         if \<not> (sequenced_reply cfg \<and> \<not> sequenced_request cfg) then Some (r, Process)
         else do {
           ps \<leftarrow> rg_pending_requests r;
           case find_index (\<lambda>q. pr_seq_num q = sn) ps of
             None \<Rightarrow> Some (r, Process)
           | Some index \<Rightarrow> do {
               q \<leftarrow> get_at (rg_pending r) index;
               r \<leftarrow> remove_pending r index;
               Some (r, SequencedReply q)
             }
         }
   }"

lemma remove_pending_len: "remove_pending r i = Some r' \<Longrightarrow> rg_pending_len r' = rg_pending_len r - 1"
  by (auto simp: remove_pending_def split: bind_splits)

text \<open>The sweep's loop; the calls of the \<open>expired\<close> closure are collected in order.\<close>

function sweep_loop :: "u32 \<Rightarrow> Registry \<Rightarrow> nat \<Rightarrow> Expiry list \<Rightarrow> (Registry \<times> Expiry list) option" where
  "sweep_loop now_ms r index expired =
     (if index < rg_pending_len r then
        case get_at (rg_pending r) index of
          None \<Rightarrow> None
        | Some q \<Rightarrow>
            if \<not> expired_at q now_ms then sweep_loop now_ms r (index + 1) expired
            else if pr_retries q < PACKET_RETRY_COUNT then
              (let q = q\<lparr>pr_retries := pr_retries q + 1, pr_timestamp_ms := now_ms\<rparr> in
               case set_at (rg_pending r) index q of
                 None \<Rightarrow> None
               | Some pending \<Rightarrow> sweep_loop now_ms (r\<lparr>rg_pending := pending\<rparr>) (index + 1) (expired @ [Retry q]))
            else
              (case remove_pending r index of
                 None \<Rightarrow> None
               | Some r' \<Rightarrow> sweep_loop now_ms r' index (expired @ [TimedOut q]))
      else Some (r, expired))"
  by pat_completeness auto
termination
  by (relation "measure (\<lambda>(now, r, i, e). rg_pending_len r - i)") (auto dest: remove_pending_len)

declare sweep_loop.simps [simp del]

definition sweep :: "Registry \<Rightarrow> u32 \<Rightarrow> (Registry \<times> Expiry list) option" where
  "sweep r now_ms = sweep_loop now_ms r 0 []"

definition on_tick :: "Registry \<Rightarrow> u32 \<Rightarrow> (Registry \<times> Expiry list) option" where
  "on_tick r now_ms =
     (if sint (now_ms - rg_next_sweep_ms r) < 0 then Some (r, [])
      else
        let missed = (now_ms - rg_next_sweep_ms r) div MESSAGE_TIMER_EXPIRY_PERIOD_MS;
            r = r\<lparr>rg_next_sweep_ms := rg_next_sweep_ms r + MESSAGE_TIMER_EXPIRY_PERIOD_MS * (missed + 1)\<rparr>
        in sweep r now_ms)"

section \<open>Refinement to lists\<close>

definition types_of :: "Registry \<Rightarrow> (MessageType \<times> PacketCfg) list" where
  "types_of r = take (rg_types_len r) (rg_types r)"

definition requests :: "Registry \<Rightarrow> PendingRequest list" where
  "requests r = take (rg_pending_len r) (rg_pending r)"

definition rg_bounds :: "Registry \<Rightarrow> bool" where
  "rg_bounds r \<longleftrightarrow> rg_types_len r \<le> length (rg_types r) \<and> rg_pending_len r \<le> length (rg_pending r)"

definition cfg_of :: "Registry \<Rightarrow> MessageType \<Rightarrow> PacketCfg option" where
  "cfg_of r mt = map_option snd (List.find (\<lambda>(ty, _). ty = mt) (types_of r))"

definition sweep_keep :: "u32 \<Rightarrow> PendingRequest \<Rightarrow> PendingRequest list" where
  "sweep_keep now q =
     (if \<not> expired_at q now then [q]
      else if pr_retries q < 3 then [q\<lparr>pr_retries := pr_retries q + 1, pr_timestamp_ms := now\<rparr>]
      else [])"

definition sweep_event :: "u32 \<Rightarrow> PendingRequest \<Rightarrow> Expiry list" where
  "sweep_event now q =
     (if \<not> expired_at q now then []
      else if pr_retries q < 3 then [Retry (q\<lparr>pr_retries := pr_retries q + 1, pr_timestamp_ms := now\<rparr>)]
      else [TimedOut q])"

lemma rg_cfg_eq: "rg_bounds r \<Longrightarrow> rg_cfg r mt = Some (cfg_of r mt)"
  by (simp add: rg_cfg_def rg_registrations_def rg_bounds_def range_at_in cfg_of_def types_of_def subslice_def)

lemma length_requests: "rg_bounds r \<Longrightarrow> length (requests r) = rg_pending_len r"
  by (simp add: requests_def rg_bounds_def)

lemma requests_nth: "rg_bounds r \<Longrightarrow> i < rg_pending_len r \<Longrightarrow> get_at (rg_pending r) i = Some (requests r ! i)"
  by (simp add: requests_def rg_bounds_def get_at_in)

lemma remove_pending_eq:
  assumes "rg_bounds r" "i < rg_pending_len r"
  shows "\<exists>p. remove_pending r i = Some (r\<lparr>rg_pending := p, rg_pending_len := rg_pending_len r - 1\<rparr>) \<and>
    length p = length (rg_pending r) \<and> rg_bounds (r\<lparr>rg_pending := p, rg_pending_len := rg_pending_len r - 1\<rparr>) \<and>
    requests (r\<lparr>rg_pending := p, rg_pending_len := rg_pending_len r - 1\<rparr>) = take i (requests r) @ drop (Suc i) (requests r)"
  using close_gap_live [of "rg_pending_len r" "rg_pending r" i] assms
  by (auto simp: remove_pending_def rg_bounds_def requests_def)

text \<open>What a sweep and a delivery leave alone.\<close>

definition same_frame :: "Registry \<Rightarrow> Registry \<Rightarrow> bool" where
  "same_frame r r' \<longleftrightarrow> types_of r' = types_of r \<and> rg_types r' = rg_types r \<and> rg_types_len r' = rg_types_len r \<and>
     rg_message_count r' = rg_message_count r \<and> rg_next_sweep_ms r' = rg_next_sweep_ms r \<and>
     length (rg_pending r') = length (rg_pending r)"

lemma same_frame_refl [simp]: "same_frame r r"
  by (simp add: same_frame_def)

lemma same_frame_trans: "same_frame r s \<Longrightarrow> same_frame s t \<Longrightarrow> same_frame r t"
  by (simp add: same_frame_def)

lemma same_frame_pending [simp]:
  "length p = length (rg_pending r) \<Longrightarrow> same_frame r (r\<lparr>rg_pending := p\<rparr>)"
  "length p = length (rg_pending r) \<Longrightarrow> same_frame r (r\<lparr>rg_pending := p, rg_pending_len := n\<rparr>)"
  by (simp_all add: same_frame_def types_of_def)

lemma sweep_loop_eq:
  assumes "rg_bounds r" "i \<le> rg_pending_len r"
  shows "\<exists>r'. sweep_loop now r i acc = Some (r', acc @ concat (map (sweep_event now) (drop i (requests r)))) \<and>
    rg_bounds r' \<and> same_frame r r' \<and>
    requests r' = take i (requests r) @ concat (map (sweep_keep now) (drop i (requests r)))"
  using assms
proof (induction now r i acc rule: sweep_loop.induct)
  case (1 now r i acc)
  note b = 1(4)
  show ?case
  proof (cases "i < rg_pending_len r")
    case False
    then have "drop i (requests r) = []" "take i (requests r) = requests r"
      using 1(5) length_requests [OF b] by simp_all
    with False b show ?thesis by (simp add: sweep_loop.simps [of now r i])
  next
    case True
    let ?q = "requests r ! i"
    note g = requests_nth [OF b True]
    have d: "drop i (requests r) = ?q # drop (Suc i) (requests r)"
      using True length_requests [OF b] by (simp add: Cons_nth_drop_Suc)
    have tk: "take (Suc i) (requests r) = take i (requests r) @ [?q]"
      using True length_requests [OF b] by (simp add: take_Suc_conv_app_nth)
    consider (live) "\<not> expired_at ?q now" | (retry) "expired_at ?q now" "pr_retries ?q < 3"
      | (out) "expired_at ?q now" "\<not> pr_retries ?q < 3" by blast
    then show ?thesis
    proof cases
      case live
      then have "sweep_loop now r i acc = sweep_loop now r (i + 1) acc"
        using True g by (simp add: sweep_loop.simps [of now r i])
      then show ?thesis
        using 1(1) [OF True g live b] True live d tk by (simp add: sweep_event_def sweep_keep_def)
    next
      case retry
      let ?q' = "?q\<lparr>pr_retries := pr_retries ?q + 1, pr_timestamp_ms := now\<rparr>"
      let ?p = "(rg_pending r)[i := ?q']" and ?r = "r\<lparr>rg_pending := (rg_pending r)[i := ?q']\<rparr>"
      have st: "set_at (rg_pending r) i ?q' = Some ?p" using True b by (simp add: set_at_def rg_bounds_def)
      have b': "rg_bounds ?r" "i + 1 \<le> rg_pending_len ?r" using b True by (simp_all add: rg_bounds_def)
      have rq: "requests ?r = (requests r)[i := ?q']" by (simp add: requests_def take_update_swap)
      have "sweep_loop now r i acc = sweep_loop now ?r (i + 1) (acc @ [Retry ?q'])"
        using True g st retry by (simp add: sweep_loop.simps [of now r i] PACKET_RETRY_COUNT_def Let_def)
      moreover have "\<not> \<not> expired_at ?q now" "pr_retries ?q < PACKET_RETRY_COUNT"
        using retry by (simp_all add: PACKET_RETRY_COUNT_def)
      note ih = 1(2) [OF True g this refl st b']
      moreover have "take (Suc i) (requests ?r) = take i (requests r) @ [?q']"
        using True length_requests [OF b] by (simp add: rq take_Suc_conv_app_nth)
      moreover have "drop (Suc i) (requests ?r) = drop (Suc i) (requests r)" by (simp add: rq)
      ultimately show ?thesis
        using d retry same_frame_trans [of r ?r] by (auto simp: sweep_event_def sweep_keep_def)
    next
      case out
      from remove_pending_eq [OF b True] obtain p where p:
        "remove_pending r i = Some (r\<lparr>rg_pending := p, rg_pending_len := rg_pending_len r - 1\<rparr>)"
        "length p = length (rg_pending r)"
        "rg_bounds (r\<lparr>rg_pending := p, rg_pending_len := rg_pending_len r - 1\<rparr>)"
        "requests (r\<lparr>rg_pending := p, rg_pending_len := rg_pending_len r - 1\<rparr>) = take i (requests r) @ drop (Suc i) (requests r)"
        by blast
      let ?r = "r\<lparr>rg_pending := p, rg_pending_len := rg_pending_len r - 1\<rparr>"
      have i: "i \<le> rg_pending_len ?r" using True by simp
      have "sweep_loop now r i acc = sweep_loop now ?r i (acc @ [TimedOut ?q])"
        using True g p(1) out by (simp add: sweep_loop.simps [of now r i] PACKET_RETRY_COUNT_def)
      moreover have "\<not> \<not> expired_at ?q now" "\<not> pr_retries ?q < PACKET_RETRY_COUNT"
        using out by (simp_all add: PACKET_RETRY_COUNT_def)
      note ih = 1(3) [OF True g this p(1) p(3) i]
      moreover have "length (take i (requests r)) = i" using True length_requests [OF b] by simp
      ultimately show ?thesis
        using d out p(2,4) same_frame_trans [of r ?r] by (auto simp: sweep_event_def sweep_keep_def)
    qed
  qed
qed

lemma sweep_eq:
  assumes "rg_bounds r"
  shows "\<exists>r'. sweep r now = Some (r', concat (map (sweep_event now) (requests r))) \<and>
    rg_bounds r' \<and> same_frame r r' \<and> requests r' = concat (map (sweep_keep now) (requests r))"
  using sweep_loop_eq [OF assms, of 0 now "[]"] by (simp add: sweep_def)

lemma on_serialize_request:
  assumes "rg_bounds r" "cfg_of r mt = Some cfg" "\<not> sequenced_reply cfg" "sequenced_request cfg"
  shows "\<exists>r'. on_serialize r now mt rsn =
      Some (r', Ok \<lparr>out_seq_num = rg_message_count r, tracked = rg_pending_len r < length (rg_pending r)\<rparr>) \<and>
    rg_bounds r' \<and> types_of r' = types_of r \<and> rg_message_count r' = rg_message_count r + 1 \<and>
    rg_next_sweep_ms r' = rg_next_sweep_ms r \<and> length (rg_pending r') = length (rg_pending r) \<and>
    requests r' = requests r @ (if rg_pending_len r < length (rg_pending r) then
      [\<lparr>pr_message_type = mt, pr_seq_num = rg_message_count r, pr_timestamp_ms = now,
        pr_timeout_ms = DEFAULT_MESSAGE_TIMEOUT_MS, pr_retries = 0\<rparr>] else [])"
  using assms append_live [of "rg_pending_len r" "rg_pending r"]
  by (auto simp: on_serialize_def rg_cfg_eq set_at_in rg_bounds_def types_of_def requests_def Let_def)

lemma on_serialize_other:
  assumes "rg_bounds r" "\<not> (\<exists>cfg. cfg_of r mt = Some cfg \<and> \<not> sequenced_reply cfg \<and> sequenced_request cfg)"
  shows "on_serialize r now mt rsn = Some (r, case cfg_of r mt of None \<Rightarrow> Err UnknownType
    | Some cfg \<Rightarrow> Ok \<lparr>out_seq_num = (if sequenced_reply cfg then rsn else 0), tracked = False\<rparr>)"
  using assms by (auto simp: on_serialize_def rg_cfg_eq split: option.splits)

lemma on_received_eq:
  assumes "rg_bounds r"
  shows "\<exists>r' d. on_received r mt sn = Some (r', d) \<and> rg_bounds r' \<and> same_frame r r' \<and>
    (if cfg_of r mt = None then d = Unregistered \<and> r' = r
     else if cfg_of r mt = Some CFG_REPLY \<and> (\<exists>q\<in>set (requests r). pr_seq_num q = sn)
     then (\<exists>q. List.find (\<lambda>q. pr_seq_num q = sn) (requests r) = Some q \<and> d = SequencedReply q) \<and>
       requests r' = remove_first (\<lambda>q. pr_seq_num q = sn) (requests r)
     else d = Process \<and> r' = r)"
proof (cases "cfg_of r mt = Some CFG_REPLY")
  case True
  have pe: "rg_pending_requests r = Some (requests r)"
    using assms by (simp add: rg_pending_requests_def rg_bounds_def range_at_in requests_def subslice_def)
  show ?thesis
  proof (cases "find_index (\<lambda>q. pr_seq_num q = sn) (requests r)")
    case None
    then have "\<forall>q\<in>set (requests r). pr_seq_num q \<noteq> sn" by (simp add: find_index_None)
    with None True pe assms show ?thesis by (auto simp: on_received_def rg_cfg_eq CFG_REPLY_def)
  next
    case (Some i)
    note fi = find_index_Some [OF Some]
    have i: "i < rg_pending_len r" using fi(1) assms by (simp add: length_requests)
    from remove_pending_eq [OF assms i] obtain p where p:
      "remove_pending r i = Some (r\<lparr>rg_pending := p, rg_pending_len := rg_pending_len r - 1\<rparr>)"
      "length p = length (rg_pending r)"
      "rg_bounds (r\<lparr>rg_pending := p, rg_pending_len := rg_pending_len r - 1\<rparr>)"
      "requests (r\<lparr>rg_pending := p, rg_pending_len := rg_pending_len r - 1\<rparr>) = take i (requests r) @ drop (Suc i) (requests r)"
      by blast
    have "\<exists>q\<in>set (requests r). pr_seq_num q = sn" using fi(1,2) nth_mem by blast
    with Some True pe assms p requests_nth [OF assms i] fi(4) find_index_find [OF Some] show ?thesis
      by (auto simp: on_received_def rg_cfg_eq CFG_REPLY_def)
  qed
next
  case False
  have "cfg_of r mt = Some cfg \<Longrightarrow> \<not> (sequenced_reply cfg \<and> \<not> sequenced_request cfg)" for cfg
    using False by (cases cfg) (auto simp: CFG_REPLY_def)
  then show ?thesis using False assms by (auto simp: on_received_def rg_cfg_eq split: option.splits)
qed

section \<open>Reachable registries\<close>

text \<open>The registries a node can get to from one that resumes at counter \<open>c\<close>, with the number
  of requests serialized on the way.\<close>

inductive rg_reachable :: "u32 \<Rightarrow> nat \<Rightarrow> Registry \<Rightarrow> bool" for c where
  init: "rg_reachable c 0 (rg_resuming types pending c next)"
| add: "rg_reachable c n r \<Longrightarrow> rg_add r mt cfg = Some (r', res) \<Longrightarrow> rg_reachable c n r'"
| remove: "rg_reachable c n r \<Longrightarrow> rg_remove r mt = Some (r', found) \<Longrightarrow> rg_reachable c n r'"
| other: "rg_reachable c n r \<Longrightarrow> on_serialize r now mt rsn = Some (r', res) \<Longrightarrow>
    rg_message_count r' = rg_message_count r \<Longrightarrow> rg_reachable c n r'"
| request: "rg_reachable c n r \<Longrightarrow> on_serialize r now mt rsn = Some (r', res) \<Longrightarrow>
    rg_message_count r' \<noteq> rg_message_count r \<Longrightarrow> rg_reachable c (Suc n) r'"
| received: "rg_reachable c n r \<Longrightarrow> on_received r mt sn = Some (r', d) \<Longrightarrow> rg_reachable c n r'"
| tick: "rg_reachable c n r \<Longrightarrow> on_tick r now = Some (r', expired) \<Longrightarrow> rg_reachable c n r'"

definition issued :: "u32 \<Rightarrow> PendingRequest \<Rightarrow> nat" where
  "issued c q = unat (pr_seq_num q - c)"

definition older :: "u32 \<Rightarrow> PendingRequest \<Rightarrow> PendingRequest \<Rightarrow> bool" where
  "older c p q \<longleftrightarrow> issued c p < issued c q"

definition fair_request :: "PendingRequest \<Rightarrow> bool" where
  "fair_request q \<longleftrightarrow> pr_timeout_ms q = DEFAULT_MESSAGE_TIMEOUT_MS \<and> pr_retries q \<le> 3"

definition rg_inv :: "u32 \<Rightarrow> nat \<Rightarrow> Registry \<Rightarrow> bool" where
  "rg_inv c n r \<longleftrightarrow> rg_bounds r \<and> rg_message_count r = c + of_nat n \<and>
     (\<forall>q\<in>set (requests r). fair_request q) \<and>
     (n \<le> 2 ^ 32 \<longrightarrow> sorted_wrt (older c) (requests r) \<and> (\<forall>q\<in>set (requests r). issued c q < n))"

lemma sweep_keep_fields:
  assumes "q' \<in> set (sweep_keep now q)"
  shows "pr_seq_num q' = pr_seq_num q" "fair_request q \<Longrightarrow> fair_request q'"
proof -
  have "pr_retries q + 1 \<le> 3" if "pr_retries q < 3" using that by (simp add: inc_le)
  then show "pr_seq_num q' = pr_seq_num q" "fair_request q \<Longrightarrow> fair_request q'"
    using assms by (auto simp: sweep_keep_def fair_request_def split: if_splits)
qed

lemma sorted_sweep_keep:
  "sorted_wrt (older c) qs \<Longrightarrow> sorted_wrt (older c) (concat (map (sweep_keep now) qs))"
proof (induction qs)
  case Nil
  then show ?case by simp
next
  case (Cons q qs)
  have "older c p p'" if "p \<in> set (sweep_keep now q)" "q2 \<in> set qs" "p' \<in> set (sweep_keep now q2)" for p p' q2
    using that Cons.prems sweep_keep_fields(1) [OF that(1)] sweep_keep_fields(1) [OF that(3)]
    by (auto simp: older_def issued_def)
  moreover have "sorted_wrt (older c) (sweep_keep now q)" by (simp add: sweep_keep_def)
  ultimately show ?case using Cons by (auto simp: sorted_wrt_append)
qed

lemma sorted_remove_first: "sorted_wrt R xs \<Longrightarrow> sorted_wrt R (remove_first P xs)"
  using set_remove_first by (induction xs) fastforce+

lemma sweep_inv:
  assumes "rg_inv c n r" "sweep r now = Some (r', e)"
  shows "rg_inv c n r'"
proof -
  have b: "rg_bounds r" using assms(1) by (simp add: rg_inv_def)
  with sweep_eq [OF b, of now] assms(2) have r': "rg_bounds r'" "same_frame r r'"
    "requests r' = concat (map (sweep_keep now) (requests r))" by auto
  have "issued c q' = issued c q" if "q' \<in> set (sweep_keep now q)" for q q'
    using sweep_keep_fields(1) [OF that] by (simp add: issued_def)
  then show ?thesis
    using assms(1) r' sorted_sweep_keep [of c "requests r" now] sweep_keep_fields(2)
    by (fastforce simp: rg_inv_def same_frame_def)
qed

lemma on_tick_inv: "rg_inv c n r \<Longrightarrow> on_tick r now = Some (r', e) \<Longrightarrow> rg_inv c n r'"
proof -
  assume r: "rg_inv c n r" and t: "on_tick r now = Some (r', e)"
  have "rg_inv c n (r\<lparr>rg_next_sweep_ms := m\<rparr>)" for m
    using r by (simp add: rg_inv_def rg_bounds_def requests_def)
  then show ?thesis using r t by (auto simp: on_tick_def Let_def split: if_splits intro: sweep_inv)
qed

lemma on_serialize_inv:
  assumes r: "rg_inv c n r" and s: "on_serialize r now mt rsn = Some (r', res)"
  shows "rg_inv c (if rg_message_count r' = rg_message_count r then n else Suc n) r'"
proof (cases "\<exists>cfg. cfg_of r mt = Some cfg \<and> \<not> sequenced_reply cfg \<and> sequenced_request cfg")
  case False
  then show ?thesis using r s on_serialize_other [of r mt now rsn] by (auto simp: rg_inv_def)
next
  case True
  then obtain cfg where c: "cfg_of r mt = Some cfg" "\<not> sequenced_reply cfg" "sequenced_request cfg" by blast
  have b: "rg_bounds r" using r by (simp add: rg_inv_def)
  let ?new = "\<lparr>pr_message_type = mt, pr_seq_num = rg_message_count r, pr_timestamp_ms = now,
    pr_timeout_ms = DEFAULT_MESSAGE_TIMEOUT_MS, pr_retries = 0\<rparr>"
  from on_serialize_request [OF b c, of now rsn] s have r': "rg_bounds r'"
    "rg_message_count r' = rg_message_count r + 1"
    "requests r' = requests r @ (if rg_pending_len r < length (rg_pending r) then [?new] else [])"
    by auto
  have "issued c ?new = n" if "Suc n \<le> 2 ^ 32"
    using r that by (simp add: issued_def rg_inv_def unat_of_nat)
  moreover have "fair_request ?new" by (simp add: fair_request_def)
  ultimately show ?thesis
    using r r' by (auto simp: rg_inv_def sorted_wrt_append older_def less_Suc_eq)
qed

lemma rg_reachable_inv: "rg_reachable c n r \<Longrightarrow> rg_inv c n r"
proof (induction rule: rg_reachable.induct)
  case (init types pending nxt)
  show ?case by (simp add: rg_inv_def rg_resuming_def rg_bounds_def requests_def)
next
  case (add n r mt cfg r' res)
  then show ?case
    by (auto simp: rg_add_def rg_inv_def rg_bounds_def set_at_def requests_def split: if_splits)
next
  case (remove n r mt r' found)
  then have b: "rg_bounds r" by (simp add: rg_inv_def)
  have ts: "rg_registrations r = Some (types_of r)"
    using b by (simp add: rg_registrations_def rg_bounds_def range_at_in types_of_def subslice_def)
  show ?case
  proof (cases "find_index (\<lambda>(ty, _). ty = mt) (types_of r)")
    case None
    then show ?thesis using remove ts by (simp add: rg_remove_def)
  next
    case (Some i)
    have "i < rg_types_len r" using find_index_Some(1) [OF Some] by (simp add: types_of_def)
    with close_gap_live [of "rg_types_len r" "rg_types r" i] b Some ts remove show ?thesis
      by (auto simp: rg_remove_def rg_inv_def rg_bounds_def requests_def)
  qed
next
  case (other n r now mt rsn r' res)
  then show ?case using on_serialize_inv by fastforce
next
  case (request n r now mt rsn r' res)
  then show ?case using on_serialize_inv by fastforce
next
  case (received n r mt sn r' d)
  then have b: "rg_bounds r" by (simp add: rg_inv_def)
  have "requests r' = requests r \<or> requests r' = remove_first (\<lambda>q. pr_seq_num q = sn) (requests r)"
    "rg_bounds r'" "same_frame r r'"
    using on_received_eq [OF b, of mt sn] received(2) by (auto split: if_splits)
  then show ?case
    using received(3) set_remove_first [of "\<lambda>q. pr_seq_num q = sn" "requests r"]
      sorted_remove_first [of "older c" "requests r" "\<lambda>q. pr_seq_num q = sn"]
    by (auto simp: rg_inv_def same_frame_def)
next
  case (tick n r now r' expired)
  then show ?case by (blast intro: on_tick_inv)
qed

lemma sorted_distinct_seq: "sorted_wrt (older c) qs \<Longrightarrow> distinct (map pr_seq_num qs)"
  by (induction qs) (auto simp: older_def issued_def)

lemma rg_distinct_seq: "rg_inv c n r \<Longrightarrow> n \<le> 2 ^ 32 \<Longrightarrow> distinct (map pr_seq_num (requests r))"
  using sorted_distinct_seq by (auto simp: rg_inv_def)

section \<open>The life of a request\<close>

fun expiry_request :: "Expiry \<Rightarrow> PendingRequest" where
  "expiry_request (Retry q) = q"
| "expiry_request (TimedOut q) = q"

text \<open>The events a sweep reports for the request with a given sequence number.\<close>

definition events_for :: "u32 \<Rightarrow> Expiry list \<Rightarrow> Expiry list" where
  "events_for sn es = filter (\<lambda>e. pr_seq_num (expiry_request e) = sn) es"

fun sweeps :: "Registry \<Rightarrow> u32 list \<Rightarrow> (Registry \<times> Expiry list list) option" where
  "sweeps r [] = Some (r, [])"
| "sweeps r (t # ts) = do {
     (r, e) \<leftarrow> sweep r t;
     (r, es) \<leftarrow> sweeps r ts;
     Some (r, e # es)
   }"

lemma events_for_sweep:
  assumes "distinct (map pr_seq_num qs)" "q \<in> set qs"
  shows "events_for (pr_seq_num q) (concat (map (sweep_event now) qs)) = sweep_event now q"
    "filter (\<lambda>p. pr_seq_num p = pr_seq_num q) (concat (map (sweep_keep now) qs)) = sweep_keep now q"
proof -
  have seq: "pr_seq_num (expiry_request e) = pr_seq_num p" if "e \<in> set (sweep_event now p)" for e p
    using that by (auto simp: sweep_event_def split: if_splits)
  have none: "filter (\<lambda>e. pr_seq_num (expiry_request e) = pr_seq_num q) (concat (map (sweep_event now) ps)) = []"
    "filter (\<lambda>p. pr_seq_num p = pr_seq_num q) (concat (map (sweep_keep now) ps)) = []"
    if "pr_seq_num q \<notin> pr_seq_num ` set ps" for ps
    using that by (auto simp: filter_empty_conv seq sweep_keep_fields(1) image_iff)
  have all: "filter (\<lambda>e. pr_seq_num (expiry_request e) = pr_seq_num q) (sweep_event now q) = sweep_event now q"
    "filter (\<lambda>p. pr_seq_num p = pr_seq_num q) (sweep_keep now q) = sweep_keep now q"
    by (simp_all add: sweep_event_def sweep_keep_def)
  obtain a b where qs: "qs = a @ q # b" using assms(2) split_list by fastforce
  then have "pr_seq_num q \<notin> pr_seq_num ` set a" "pr_seq_num q \<notin> pr_seq_num ` set b"
    using assms(1) by auto
  then show "events_for (pr_seq_num q) (concat (map (sweep_event now) qs)) = sweep_event now q"
    "filter (\<lambda>p. pr_seq_num p = pr_seq_num q) (concat (map (sweep_keep now) qs)) = sweep_keep now q"
    using none [of a] none [of b] all by (simp_all add: qs events_for_def)
qed

text \<open>One sweep, seen from one request.\<close>

lemma sweep_request:
  assumes "rg_inv c n r" "n \<le> 2 ^ 32" "q \<in> set (requests r)"
  shows "\<exists>r' e. sweep r now = Some (r', e) \<and> rg_inv c n r' \<and> events_for (pr_seq_num q) e = sweep_event now q \<and>
    filter (\<lambda>p. pr_seq_num p = pr_seq_num q) (requests r') = sweep_keep now q"
proof -
  have b: "rg_bounds r" using assms(1) by (simp add: rg_inv_def)
  from sweep_eq [OF b, of now] obtain r' where r': "sweep r now = Some (r', concat (map (sweep_event now) (requests r)))"
    "requests r' = concat (map (sweep_keep now) (requests r))" by blast
  with sweep_inv [OF assms(1) r'(1)] events_for_sweep [OF rg_distinct_seq [OF assms(1,2)] assms(3)]
  show ?thesis by auto
qed

lemma sweep_retry:
  assumes "rg_inv c n r" "n \<le> 2 ^ 32" "q \<in> set (requests r)" "expired_at q now" "pr_retries q < 3"
  defines "q' \<equiv> q\<lparr>pr_retries := pr_retries q + 1, pr_timestamp_ms := now\<rparr>"
  shows "\<exists>r' e. sweep r now = Some (r', e) \<and> rg_inv c n r' \<and> events_for (pr_seq_num q) e = [Retry q'] \<and>
    q' \<in> set (requests r')"
proof -
  have q': "sweep_keep now q = [q']" "sweep_event now q = [Retry q']"
    using assms(4,5) by (simp_all add: sweep_keep_def sweep_event_def q'_def)
  then have m: "q' \<in> set (requests r')"
    if "filter (\<lambda>p. pr_seq_num p = pr_seq_num q) (requests r') = sweep_keep now q" for r'
    using that by (metis filter_is_subset list.set_intros(1) subset_iff)
  show ?thesis using sweep_request [OF assms(1-3), of now] q'(2) m by metis
qed

lemma sweep_timeout:
  assumes "rg_inv c n r" "n \<le> 2 ^ 32" "q \<in> set (requests r)" "expired_at q now" "\<not> pr_retries q < 3"
  shows "\<exists>r' e. sweep r now = Some (r', e) \<and> rg_inv c n r' \<and> events_for (pr_seq_num q) e = [TimedOut q] \<and>
    pr_seq_num q \<notin> pr_seq_num ` set (requests r')"
  using sweep_request [OF assms(1-3), of now] assms(4,5)
  by (fastforce simp: sweep_keep_def sweep_event_def filter_empty_conv)

lemma retry_three_times:
  assumes "rg_inv c n r" "n \<le> 2 ^ 32" "q \<in> set (requests r)" "pr_retries q = 0"
    "24 \<le> t1 - pr_timestamp_ms q" "24 \<le> t2 - t1" "24 \<le> t3 - t2" "24 \<le> t4 - t3"
  shows "\<exists>r' es. sweeps r [t1, t2, t3, t4] = Some (r', es) \<and>
    map (events_for (pr_seq_num q)) es =
      [[Retry (q\<lparr>pr_retries := 1, pr_timestamp_ms := t1\<rparr>)], [Retry (q\<lparr>pr_retries := 2, pr_timestamp_ms := t2\<rparr>)],
       [Retry (q\<lparr>pr_retries := 3, pr_timestamp_ms := t3\<rparr>)], [TimedOut (q\<lparr>pr_retries := 3, pr_timestamp_ms := t3\<rparr>)]] \<and>
    pr_seq_num q \<notin> pr_seq_num ` set (requests r')"
proof -
  have to: "pr_timeout_ms q = 24"
    using assms(1,3) by (auto simp: rg_inv_def fair_request_def DEFAULT_MESSAGE_TIMEOUT_MS_def)
  let ?q1 = "q\<lparr>pr_retries := 1, pr_timestamp_ms := t1\<rparr>" and ?q2 = "q\<lparr>pr_retries := 2, pr_timestamp_ms := t2\<rparr>"
  let ?q3 = "q\<lparr>pr_retries := 3, pr_timestamp_ms := t3\<rparr>"
  have x: "expired_at q t1" "expired_at ?q1 t2" "expired_at ?q2 t3" "expired_at ?q3 t4"
    using to assms(5-8) by (simp_all add: expired_at_def)
  from sweep_retry [OF assms(1-3) x(1)] assms(4) obtain r1 e1 where 1: "sweep r t1 = Some (r1, e1)"
    "rg_inv c n r1" "events_for (pr_seq_num q) e1 = [Retry ?q1]" "?q1 \<in> set (requests r1)" by auto
  from sweep_retry [OF 1(2) assms(2) 1(4) x(2)] obtain r2 e2 where 2: "sweep r1 t2 = Some (r2, e2)"
    "rg_inv c n r2" "events_for (pr_seq_num q) e2 = [Retry ?q2]" "?q2 \<in> set (requests r2)" by auto
  from sweep_retry [OF 2(2) assms(2) 2(4) x(3)] obtain r3 e3 where 3: "sweep r2 t3 = Some (r3, e3)"
    "rg_inv c n r3" "events_for (pr_seq_num q) e3 = [Retry ?q3]" "?q3 \<in> set (requests r3)" by auto
  from sweep_timeout [OF 3(2) assms(2) 3(4) x(4)] obtain r4 e4 where 4: "sweep r3 t4 = Some (r4, e4)"
    "events_for (pr_seq_num q) e4 = [TimedOut ?q3]" "pr_seq_num q \<notin> pr_seq_num ` set (requests r4)" by auto
  show ?thesis using 1 2 3 4 by simp
qed

lemma sweep_twice:
  assumes "rg_inv c n r" "sweep r now = Some (r', e)"
  shows "\<exists>r''. sweep r' now = Some (r'', []) \<and> requests r'' = requests r'"
proof -
  have b: "rg_bounds r" using assms(1) by (simp add: rg_inv_def)
  with sweep_eq [OF b, of now] assms(2) have r': "rg_bounds r'"
    "requests r' = concat (map (sweep_keep now) (requests r))" by auto
  have "\<not> expired_at p now" if "q \<in> set (requests r)" "p \<in> set (sweep_keep now q)" for p q
  proof -
    have "pr_timeout_ms q = 24"
      using assms(1) that(1) by (auto simp: rg_inv_def fair_request_def DEFAULT_MESSAGE_TIMEOUT_MS_def)
    with that(2) show ?thesis by (auto simp: sweep_keep_def expired_at_def split: if_splits)
  qed
  then have "\<forall>p\<in>set (requests r'). \<not> expired_at p now" by (auto simp: r'(2))
  then have "concat (map (sweep_event now) (requests r')) = []"
    "concat (map (sweep_keep now) (requests r')) = requests r'"
    by (auto simp: sweep_event_def sweep_keep_def concat_eq_Nil_conv cong: map_cong)
  with sweep_eq [OF r'(1), of now] show ?thesis by auto
qed

lemma on_tick_total: "rg_bounds r \<Longrightarrow> \<exists>r' e. on_tick r now = Some (r', e)"
proof -
  assume "rg_bounds r"
  then have "rg_bounds (r\<lparr>rg_next_sweep_ms := m\<rparr>)" for m by (simp add: rg_bounds_def)
  then show ?thesis using sweep_eq by (fastforce simp: on_tick_def Let_def)
qed

lemma on_tick_phase:
  assumes "rg_bounds r" "sint (now - rg_next_sweep_ms r) \<ge> 0" "on_tick r now = Some (r', e)"
  shows "\<exists>k. rg_next_sweep_ms r' = rg_next_sweep_ms r + 150 * of_nat (Suc k) \<and>
    0 < unat (rg_next_sweep_ms r' - now) \<and> unat (rg_next_sweep_ms r' - now) \<le> 150"
proof -
  let ?n = "rg_next_sweep_ms r" and ?d = "now - rg_next_sweep_ms r"
  let ?m = "?d div 150"
  have d: "unat ?d < 2 ^ 31" using assms(2) sint_neg_iff [of ?d] by linarith
  let ?r = "r\<lparr>rg_next_sweep_ms := ?n + 150 * (?m + 1)\<rparr>"
  have b: "rg_bounds ?r" using assms(1) by (simp add: rg_bounds_def)
  have "sweep ?r now = Some (r', e)"
    using assms(2,3) by (simp add: on_tick_def MESSAGE_TIMER_EXPIRY_PERIOD_MS_def Let_def)
  with sweep_eq [OF b, of now] have n': "rg_next_sweep_ms r' = ?n + 150 * (?m + 1)"
    by (auto simp: same_frame_def)
  define k where "k = unat ?m"
  have k: "k = unat ?d div 150" by (simp add: k_def unat_div)
  have mk: "?m + 1 = of_nat (Suc k)" by (simp add: k_def)
  obtain m where dm: "unat ?d = 150 * k + m" "m < 150"
    using k div_mult_mod_eq [of "unat ?d" 150] mod_less_divisor [of 150 "unat ?d"] by (metis mult.commute zero_less_numeral)
  have "rg_next_sweep_ms r' - now = of_nat (150 * Suc k) - of_nat (unat ?d)"
    unfolding n' mk by simp
  also have "\<dots> = of_nat (150 - m)"
    unfolding dm(1) using dm(2) by (simp add: of_nat_diff)
  finally have "unat (rg_next_sweep_ms r' - now) = 150 - m"
    by (simp only: unat_of_nat) simp
  then show ?thesis using n' mk dm(2) by (intro exI [of _ k]) simp
qed

section \<open>Properties\<close>

lemma rg_registrations_eq: "rg_bounds r \<Longrightarrow> rg_registrations r = Some (types_of r)"
  by (simp add: rg_registrations_def rg_bounds_def range_at_in types_of_def subslice_def)

lemma rg_add_total: "rg_bounds r \<Longrightarrow> \<exists>x. rg_add r mt cfg = Some x"
  by (auto simp: rg_add_def rg_bounds_def set_at_in)

lemma rg_remove_total:
  assumes "rg_bounds r"
  shows "\<exists>x. rg_remove r mt = Some x"
proof (cases "find_index (\<lambda>(ty, _). ty = mt) (types_of r)")
  case None
  then show ?thesis using rg_registrations_eq [OF assms] by (auto simp: rg_remove_def)
next
  case (Some i)
  have "i < rg_types_len r" using find_index_Some(1) [OF Some] by (simp add: types_of_def)
  with close_gap_live [of "rg_types_len r" "rg_types r" i] assms Some rg_registrations_eq [OF assms] show ?thesis
    by (auto simp: rg_remove_def rg_bounds_def)
qed

text \<open>Property C8. Every reachable registry is within its capacities; none of its operations panics, neither
  the changing ones (\<open>add\<close>, \<open>remove\<close>, \<open>on_serialize\<close>, \<open>on_received\<close>, \<open>sweep\<close>, \<open>on_tick\<close>) nor the queries
  (\<open>registrations\<close>, \<open>cfg\<close>, \<open>pending\<close>); its outstanding requests carry the default timeout and at most three
  retries; and until 2 to the 32 requests have been made no two of them share a sequence number.\<close>

theorem registry_invariant:
  assumes "rg_reachable c n r"
  shows "rg_types_len r \<le> length (rg_types r) \<and> rg_pending_len r \<le> length (rg_pending r) \<and>
    (\<forall>q\<in>set (requests r). pr_timeout_ms q = 24 \<and> pr_retries q \<le> 3) \<and>
    (n \<le> 2 ^ 32 \<longrightarrow> distinct (map pr_seq_num (requests r))) \<and>
    rg_add r mt cfg \<noteq> None \<and> rg_remove r mt \<noteq> None \<and> on_serialize r now mt rsn \<noteq> None \<and>
    on_received r mt sn \<noteq> None \<and> sweep r now \<noteq> None \<and> on_tick r now \<noteq> None \<and>
    rg_registrations r \<noteq> None \<and> rg_cfg r mt \<noteq> None \<and> rg_pending_requests r \<noteq> None"
proof -
  have inv: "rg_inv c n r" using rg_reachable_inv [OF assms] .
  then have b: "rg_bounds r" by (simp add: rg_inv_def)
  have "on_serialize r now mt rsn \<noteq> None"
    using on_serialize_other [OF b] on_serialize_request [OF b] by (metis option.distinct(1))
  moreover have "on_tick r now \<noteq> None" "sweep r now \<noteq> None"
    using on_tick_total [OF b, of now] sweep_eq [OF b, of now] by auto
  moreover have "rg_add r mt cfg \<noteq> None" "rg_remove r mt \<noteq> None"
    using rg_add_total [OF b, of mt cfg] rg_remove_total [OF b, of mt] by auto
  moreover have "rg_pending_requests r \<noteq> None"
    using b by (simp add: rg_pending_requests_def rg_bounds_def range_at_in)
  ultimately show ?thesis
    using rg_registrations_eq [OF b] rg_cfg_eq [OF b, of mt] inv rg_distinct_seq [OF inv] on_received_eq [OF b, of mt sn]
    by (auto simp: rg_inv_def rg_bounds_def fair_request_def DEFAULT_MESSAGE_TIMEOUT_MS_def)
qed

text \<open>Property C9. A reply is matched to the one outstanding request that carries its sequence number,
  which is removed and no other, and a second copy of the reply is handed on as an ordinary
  message.\<close>

theorem reply_matched_once:
  assumes "rg_reachable c n r" "n \<le> 2 ^ 32" "q \<in> set (requests r)" "cfg_of r mt = Some CFG_REPLY"
  shows "\<exists>r'. on_received r mt (pr_seq_num q) = Some (r', SequencedReply q) \<and>
    requests r' = remove1 q (requests r) \<and> on_received r' mt (pr_seq_num q) = Some (r', Process)"
proof -
  have inv: "rg_inv c n r" using rg_reachable_inv [OF assms(1)] .
  then have b: "rg_bounds r" by (simp add: rg_inv_def)
  note d = rg_distinct_seq [OF inv assms(2)]
  let ?P = "\<lambda>p. pr_seq_num p = pr_seq_num q"
  have u: "p = q" if "p \<in> set (requests r)" "?P p" for p
    using d that assms(3) by (auto simp: distinct_map inj_on_def)
  have f: "List.find ?P (requests r) = Some q"
    using assms(3) u by (metis (mono_tags, lifting) find_None_iff find_Some_iff nth_mem option.exhaust)
  have rf: "remove_first ?P xs = remove1 q xs" if "set xs \<subseteq> set (requests r)" for xs
    using that u by (induction xs) auto
  have ex: "\<exists>p\<in>set (requests r). ?P p" using assms(3) by blast
  from on_received_eq [OF b, of mt "pr_seq_num q"] assms(4) ex f obtain r' where r':
    "on_received r mt (pr_seq_num q) = Some (r', SequencedReply q)" "rg_bounds r'" "same_frame r r'"
    "requests r' = remove_first ?P (requests r)" by auto
  have gone: "\<not> (\<exists>p\<in>set (requests r'). ?P p)"
    using remove_first_gone [OF d, of "pr_seq_num q"] unfolding r'(4) by (metis (no_types, lifting) imageI)
  have "cfg_of r' mt = Some CFG_REPLY" using r'(3) assms(4) by (simp add: same_frame_def cfg_of_def)
  with on_received_eq [OF r'(2), of mt "pr_seq_num q"] gone have "on_received r' mt (pr_seq_num q) = Some (r', Process)"
    by (auto split: if_splits)
  with r' rf show ?thesis by auto
qed

text \<open>Property C5. An unanswered request is sent again exactly three times, once in each of the first three
  sweeps that find it expired, and times out and is removed in the fourth, when the sweeps
  are at least the message timeout apart, as the 150 ms period makes them; the clock may
  wrap at any point.\<close>

theorem request_retried_three_times:
  assumes "rg_reachable c n r" "n \<le> 2 ^ 32" "q \<in> set (requests r)" "pr_retries q = 0"
    "24 \<le> t1 - pr_timestamp_ms q" "24 \<le> t2 - t1" "24 \<le> t3 - t2" "24 \<le> t4 - t3"
  shows "\<exists>r' es. sweeps r [t1, t2, t3, t4] = Some (r', es) \<and>
    map (events_for (pr_seq_num q)) es =
      [[Retry (q\<lparr>pr_retries := 1, pr_timestamp_ms := t1\<rparr>)], [Retry (q\<lparr>pr_retries := 2, pr_timestamp_ms := t2\<rparr>)],
       [Retry (q\<lparr>pr_retries := 3, pr_timestamp_ms := t3\<rparr>)], [TimedOut (q\<lparr>pr_retries := 3, pr_timestamp_ms := t3\<rparr>)]] \<and>
    pr_seq_num q \<notin> pr_seq_num ` set (requests r')"
  using retry_three_times [OF rg_reachable_inv [OF assms(1)] assms(2-)] .

text \<open>A registry with one registered request and reply type and one request outstanding.\<close>

definition sample_registry :: Registry where
  "sample_registry = fst (the (on_serialize (fst (the (rg_add (fst (the (rg_add (rg_new 4 2) CONFIG_GET CFG_REQUEST)))
     CONFIG_VALUE CFG_REPLY))) 100 CONFIG_GET 0))"

lemma sample_registry:
  "rg_reachable 0 1 sample_registry" "cfg_of sample_registry CONFIG_VALUE = Some CFG_REPLY"
  "requests sample_registry = [\<lparr>pr_message_type = CONFIG_GET, pr_seq_num = 0, pr_timestamp_ms = 100,
     pr_timeout_ms = 24, pr_retries = 0\<rparr>]"
proof -
  let ?r0 = "rg_new 4 2"
  let ?r1 = "fst (the (rg_add ?r0 CONFIG_GET CFG_REQUEST))"
  let ?r2 = "fst (the (rg_add ?r1 CONFIG_VALUE CFG_REPLY))"
  have 0: "rg_reachable 0 0 ?r0" by (simp add: rg_new_def rg_reachable.init)
  have a: "rg_add ?r0 CONFIG_GET CFG_REQUEST = Some (?r1, Ok ())" by code_simp
  have b: "rg_add ?r1 CONFIG_VALUE CFG_REPLY = Some (?r2, Ok ())" by code_simp
  have s: "on_serialize ?r2 100 CONFIG_GET 0 = Some (sample_registry, Ok \<lparr>out_seq_num = 0, tracked = True\<rparr>)"
    by code_simp
  have m: "rg_message_count sample_registry \<noteq> rg_message_count ?r2" by code_simp
  show "rg_reachable 0 1 sample_registry"
    using rg_reachable.request [OF rg_reachable.add [OF rg_reachable.add [OF 0 a] b] s m] by simp
  show "cfg_of sample_registry CONFIG_VALUE = Some CFG_REPLY" by code_simp
  show "requests sample_registry = [\<lparr>pr_message_type = CONFIG_GET, pr_seq_num = 0, pr_timestamp_ms = 100,
     pr_timeout_ms = 24, pr_retries = 0\<rparr>]" by code_simp
qed

text \<open>The invariant of that registry, with its types and its request.\<close>

theorem registry_invariant_witness:
  "types_of sample_registry = [(CONFIG_GET, CFG_REQUEST), (CONFIG_VALUE, CFG_REPLY)] \<and> length (requests sample_registry) = 1 \<and>
    rg_remove sample_registry CONFIG_GET \<noteq> None \<and> rg_add sample_registry HEARTBEAT CFG_UNSEQUENCED \<noteq> None \<and>
    on_received sample_registry CONFIG_VALUE 0 \<noteq> None \<and> on_tick sample_registry 900 \<noteq> None"
proof -
  have "types_of sample_registry = [(CONFIG_GET, CFG_REQUEST), (CONFIG_VALUE, CFG_REPLY)]" by code_simp
  moreover have "length (requests sample_registry) = 1" by (simp add: sample_registry(3))
  moreover have "rg_remove sample_registry CONFIG_GET \<noteq> None" "rg_add sample_registry HEARTBEAT CFG_UNSEQUENCED \<noteq> None"
    "on_received sample_registry CONFIG_VALUE 0 \<noteq> None" "on_tick sample_registry 900 \<noteq> None"
    using registry_invariant [OF sample_registry(1)] by blast+
  ultimately show ?thesis by simp
qed

theorem reply_matched_once_witness:
  "\<exists>r'. on_received sample_registry CONFIG_VALUE 0 = Some (r', SequencedReply
      \<lparr>pr_message_type = CONFIG_GET, pr_seq_num = 0, pr_timestamp_ms = 100, pr_timeout_ms = 24, pr_retries = 0\<rparr>) \<and>
    requests r' = [] \<and> on_received r' CONFIG_VALUE 0 = Some (r', Process)"
  using reply_matched_once [OF sample_registry(1) _ _ sample_registry(2)] sample_registry(3) by simp

theorem request_retried_three_times_witness:
  "\<exists>r' es. sweeps sample_registry [150, 300, 450, 600] = Some (r', es) \<and>
    map (length \<circ> events_for 0) es = [1, 1, 1, 1] \<and> 0 \<notin> pr_seq_num ` set (requests r')"
proof -
  let ?q = "\<lparr>pr_message_type = CONFIG_GET, pr_seq_num = 0, pr_timestamp_ms = 100, pr_timeout_ms = 24, pr_retries = 0\<rparr>"
  have q: "?q \<in> set (requests sample_registry)" by (simp add: sample_registry(3))
  from request_retried_three_times [OF sample_registry(1) _ q, of 150 300 450 600]
  show ?thesis by (auto simp flip: map_map)
qed

text \<open>A sweep is idempotent at one instant: sweeping again at the same time reports nothing
  and changes no request, so the sweeps missed while the node was busy can be skipped.\<close>

theorem sweep_idempotent:
  assumes "rg_reachable c n r" "sweep r now = Some (r', e)"
  shows "\<exists>r''. sweep r' now = Some (r'', []) \<and> requests r'' = requests r'"
  using sweep_twice [OF rg_reachable_inv [OF assms(1)] assms(2)] .

theorem sweep_idempotent_witness:
  "\<exists>r' e r''. sweep sample_registry 150 = Some (r', e) \<and> e \<noteq> [] \<and> sweep r' 150 = Some (r'', [])"
proof -
  obtain r' e where "sweep sample_registry 150 = Some (r', e)" "e \<noteq> []"
    using sweep_eq [of sample_registry 150] rg_reachable_inv [OF sample_registry(1)]
    by (auto simp: rg_inv_def sample_registry(3) sweep_event_def expired_at_def)
  with sweep_idempotent [OF sample_registry(1)] show ?thesis by blast
qed

text \<open>The sweep keeps its phase: a tick before the sweep is due changes nothing; a tick that
  is late by less than half the clock's range sweeps once and moves the due time on by whole
  periods to strictly after the tick and at most one period after it.\<close>

theorem sweep_keeps_phase:
  assumes "rg_reachable c n r" "on_tick r now = Some (r', e)"
  shows "if sint (now - rg_next_sweep_ms r) < 0 then r' = r \<and> e = []
    else \<exists>k. rg_next_sweep_ms r' = rg_next_sweep_ms r + 150 * of_nat (Suc k) \<and>
      0 < unat (rg_next_sweep_ms r' - now) \<and> unat (rg_next_sweep_ms r' - now) \<le> 150"
proof -
  have "rg_bounds r" using rg_reachable_inv [OF assms(1)] by (simp add: rg_inv_def)
  from on_tick_phase [OF this _ assms(2)] assms(2) show ?thesis by (auto simp: on_tick_def)
qed

theorem sweep_keeps_phase_witness:
  "\<exists>r' e k. on_tick (rg_new 1 1) 1000 = Some (r', e) \<and> rg_next_sweep_ms r' = 150 + 150 * of_nat (Suc k)"
proof -
  have r: "rg_reachable 0 0 (rg_new 1 1)" by (simp add: rg_new_def rg_reachable.init)
  have n: "rg_next_sweep_ms (rg_new 1 1) = 150"
    by (simp add: rg_new_def rg_resuming_def MESSAGE_TIMER_EXPIRY_PERIOD_MS_def)
  have s: "\<not> sint (1000 - 150 :: u32) < 0" by (simp add: sint_neg_iff)
  obtain r' e where t: "on_tick (rg_new 1 1) 1000 = Some (r', e)"
    using rg_reachable_inv [OF r] on_tick_total [of "rg_new 1 1" 1000] by (auto simp: rg_inv_def)
  from sweep_keeps_phase [OF r t] t s n show ?thesis by auto
qed

end
