(* ===== verification/Dfu_Codec.thy ===== *)
theory Dfu_Codec
  imports Bcmp_Header
begin

text \<open>
  \<open>bm-wire/src/bcmp/dfu.rs\<close>: the ten firmware-update bodies. \<open>DfuAddress\<close> and
  \<open>ImgInfo\<close> interpret the fixed-length codec interface, the message as a whole the
  variable-length one.
\<close>

section \<open>Addresses and image info\<close>

definition DFU_MAX_CHUNK_SIZE :: nat where "DFU_MAX_CHUNK_SIZE = 1024"
definition IMG_INFO_FORCE_UPDATE :: u32 where "IMG_INFO_FORCE_UPDATE = 0x4CEDC0FE"
definition ADDRESS_OFFSET :: nat where "ADDRESS_OFFSET = 1"

record DfuAddress =
  src_node_id :: u64
  dst_node_id :: u64

definition DFU_ADDRESS_LEN :: nat where "DFU_ADDRESS_LEN = 16"

definition dfu_address_decode :: "DfuAddress decoder" where
  "dfu_address_decode buf = try_ok (prefix DFU_ADDRESS_LEN buf) (\<lambda>buf. do {
     s \<leftarrow> u64_at buf 0;
     d \<leftarrow> u64_at buf 8;
     Some (Ok \<lparr>src_node_id = s, dst_node_id = d\<rparr>)
   })"

definition dfu_address_encode :: "DfuAddress encoder" where
  "dfu_address_encode a buf =
     (if length buf < DFU_ADDRESS_LEN then Some (buf, Err Truncated)
      else do {
        buf \<leftarrow> copy_at buf 0 (to_le 8 (src_node_id a));
        buf \<leftarrow> copy_at buf 8 (to_le 8 (dst_node_id a));
        Some (buf, Ok ())
      })"

definition dfu_address_of_body :: "DfuAddress decoder" where
  "dfu_address_of_body body =
     (case range_at body ADDRESS_OFFSET (length body) of
        None \<Rightarrow> Some (Err Truncated)
      | Some b \<Rightarrow> dfu_address_decode b)"

definition dfu_address_wire :: "DfuAddress \<Rightarrow> bytes" where
  "dfu_address_wire a = to_le 8 (src_node_id a) @ to_le 8 (dst_node_id a)"

record ImgInfo =
  image_size :: u32
  chunk_size :: u16
  crc16 :: u16
  major_ver :: u8
  minor_ver :: u8
  filter_key :: u32
  git_sha :: u32

definition IMG_INFO_LEN :: nat where "IMG_INFO_LEN = 18"

definition img_info_decode :: "ImgInfo decoder" where
  "img_info_decode buf = try_ok (prefix IMG_INFO_LEN buf) (\<lambda>b. do {
     size \<leftarrow> u32_at b 0;
     chunk \<leftarrow> u16_at b 4;
     crc \<leftarrow> u16_at b 6;
     major \<leftarrow> get_at b 8;
     minor \<leftarrow> get_at b 9;
     key \<leftarrow> u32_at b 10;
     sha \<leftarrow> u32_at b 14;
     Some (Ok \<lparr>image_size = size, chunk_size = chunk, crc16 = crc, major_ver = major,
               minor_ver = minor, filter_key = key, git_sha = sha\<rparr>)
   })"

definition img_info_encode :: "ImgInfo encoder" where
  "img_info_encode i buf =
     (if length buf < IMG_INFO_LEN then Some (buf, Err Truncated)
      else do {
        b \<leftarrow> copy_at buf 0 (to_le 4 (image_size i));
        b \<leftarrow> copy_at b 4 (to_le 2 (chunk_size i));
        b \<leftarrow> copy_at b 6 (to_le 2 (crc16 i));
        b \<leftarrow> set_at b 8 (major_ver i);
        b \<leftarrow> set_at b 9 (minor_ver i);
        b \<leftarrow> copy_at b 10 (to_le 4 (filter_key i));
        b \<leftarrow> copy_at b 14 (to_le 4 (git_sha i));
        Some (b, Ok ())
      })"

definition img_info_wire :: "ImgInfo \<Rightarrow> bytes" where
  "img_info_wire i = to_le 4 (image_size i) @ to_le 2 (chunk_size i) @ to_le 2 (crc16 i) @
     [major_ver i, minor_ver i] @ to_le 4 (filter_key i) @ to_le 4 (git_sha i)"

lemma dfu_lens [simp]: "DFU_ADDRESS_LEN = 16" "IMG_INFO_LEN = 18" "ADDRESS_OFFSET = 1"
  by (simp_all add: DFU_ADDRESS_LEN_def IMG_INFO_LEN_def ADDRESS_OFFSET_def)

interpretation addr: fixed_codec DFU_ADDRESS_LEN dfu_address_encode dfu_address_decode dfu_address_wire
proof unfold_locales
  show "length (dfu_address_wire a) = DFU_ADDRESS_LEN" for a by (simp add: dfu_address_wire_def)
  show "dfu_address_encode a buf = Some (buf, Err Truncated)" if "length buf < DFU_ADDRESS_LEN" for a buf
    using that by (simp add: dfu_address_encode_def)
  show "dfu_address_encode a buf = Some (put buf 0 (dfu_address_wire a), Ok ())"
    if "DFU_ADDRESS_LEN \<le> length buf" for a buf
    using that by (simp add: dfu_address_encode_def dfu_address_wire_def buf_simps put_put_seq del: to_le_numeral)
  show "dfu_address_decode buf = Some (Err Truncated)" if "length buf < DFU_ADDRESS_LEN" for buf
    using that by (simp add: dfu_address_decode_def buf_simps)
  show "dfu_address_decode (dfu_address_wire a @ rest) = Some (Ok a)" for a rest
    by (simp add: dfu_address_decode_def dfu_address_wire_def buf_simps del: to_le_numeral)
  show "\<exists>a. dfu_address_wire a = buf" if "length buf = DFU_ADDRESS_LEN" for buf
    using that
    by (intro exI [of _ "\<lparr>src_node_id = from_le (subslice buf 0 8), dst_node_id = from_le (subslice buf 8 8)\<rparr>"])
       (simp add: dfu_address_wire_def join_simps del: to_le_numeral)
qed

interpretation img: fixed_codec IMG_INFO_LEN img_info_encode img_info_decode img_info_wire
proof unfold_locales
  show "length (img_info_wire i) = IMG_INFO_LEN" for i by (simp add: img_info_wire_def)
  show "img_info_encode i buf = Some (buf, Err Truncated)" if "length buf < IMG_INFO_LEN" for i buf
    using that by (simp add: img_info_encode_def)
  show "img_info_encode i buf = Some (put buf 0 (img_info_wire i), Ok ())"
    if "IMG_INFO_LEN \<le> length buf" for i buf
    using that by (simp add: img_info_encode_def img_info_wire_def buf_simps put_put_seq put_update_seq
        del: to_le_numeral)
  show "img_info_decode buf = Some (Err Truncated)" if "length buf < IMG_INFO_LEN" for buf
    using that by (simp add: img_info_decode_def buf_simps)
  show "img_info_decode (img_info_wire i @ rest) = Some (Ok i)" for i rest
    by (simp add: img_info_decode_def img_info_wire_def buf_simps nth_append del: to_le_numeral)
  show "\<exists>i. img_info_wire i = buf" if "length buf = IMG_INFO_LEN" for buf
    using that
    by (intro exI [of _ "\<lparr>image_size = from_le (subslice buf 0 4), chunk_size = from_le (subslice buf 4 2),
          crc16 = from_le (subslice buf 6 2), major_ver = buf ! 8, minor_ver = buf ! 9,
          filter_key = from_le (subslice buf 10 4), git_sha = from_le (subslice buf 14 4)\<rparr>"])
       (simp add: img_info_wire_def join_simps del: to_le_numeral)
qed

section \<open>The messages\<close>

record DfuStart =
  st_addresses :: DfuAddress
  st_img_info :: ImgInfo

record DfuChunkRequest =
  rq_addresses :: DfuAddress
  rq_seq_num :: u16

record DfuChunk =
  ch_addresses :: DfuAddress
  ch_payload :: bytes

definition CHUNK_MAX_PAYLOAD_LEN :: nat where "CHUNK_MAX_PAYLOAD_LEN = 65535"

record DfuResult =
  rs_addresses :: DfuAddress
  rs_success :: u8
  rs_err_code :: u8

datatype DfuMessage =
    DStart DfuStart
  | DPayloadReq DfuChunkRequest
  | DPayload DfuChunk
  | DEnd DfuResult
  | DAck DfuResult
  | DAbort DfuResult
  | DHeartbeat DfuAddress
  | DRebootReq DfuAddress
  | DReboot DfuAddress
  | DBootComplete DfuAddress

definition DFU_MIN_LEN :: nat where "DFU_MIN_LEN = ADDRESS_OFFSET + DFU_ADDRESS_LEN"
definition DFU_START_LEN :: nat where "DFU_START_LEN = DFU_MIN_LEN + IMG_INFO_LEN"
definition DFU_WITH_TWO_BYTES_LEN :: nat where "DFU_WITH_TWO_BYTES_LEN = DFU_MIN_LEN + 2"

lemma dfu_msg_lens [simp]:
  "DFU_MIN_LEN = 17" "DFU_START_LEN = 35" "DFU_WITH_TWO_BYTES_LEN = 19" "CHUNK_MAX_PAYLOAD_LEN = 65535"
  by (simp_all add: DFU_MIN_LEN_def DFU_START_LEN_def DFU_WITH_TWO_BYTES_LEN_def CHUNK_MAX_PAYLOAD_LEN_def)

fun dfu_message_type :: "DfuMessage \<Rightarrow> MessageType" where
  "dfu_message_type (DStart _) = DFU_START"
| "dfu_message_type (DPayloadReq _) = DFU_PAYLOAD_REQ"
| "dfu_message_type (DPayload _) = DFU_PAYLOAD"
| "dfu_message_type (DEnd _) = DFU_END"
| "dfu_message_type (DAck _) = DFU_ACK"
| "dfu_message_type (DAbort _) = DFU_ABORT"
| "dfu_message_type (DHeartbeat _) = DFU_HEARTBEAT"
| "dfu_message_type (DRebootReq _) = DFU_REBOOT_REQ"
| "dfu_message_type (DReboot _) = DFU_REBOOT"
| "dfu_message_type (DBootComplete _) = DFU_BOOT_COMPLETE"

fun dfu_addresses :: "DfuMessage \<Rightarrow> DfuAddress" where
  "dfu_addresses (DStart m) = st_addresses m"
| "dfu_addresses (DPayloadReq m) = rq_addresses m"
| "dfu_addresses (DPayload m) = ch_addresses m"
| "dfu_addresses (DEnd m) = rs_addresses m"
| "dfu_addresses (DAck m) = rs_addresses m"
| "dfu_addresses (DAbort m) = rs_addresses m"
| "dfu_addresses (DHeartbeat a) = a"
| "dfu_addresses (DRebootReq a) = a"
| "dfu_addresses (DReboot a) = a"
| "dfu_addresses (DBootComplete a) = a"

definition dfu_two :: "bytes \<Rightarrow> (BmWireError, bytes) result" where
  "dfu_two tail = prefix 2 tail"

definition dfu_result :: "DfuAddress \<Rightarrow> bytes \<Rightarrow> (BmWireError, DfuResult) result" where
  "dfu_result a tail = (case dfu_two tail of
     Err e \<Rightarrow> Err e
   | Ok b \<Rightarrow> Ok \<lparr>rs_addresses = a, rs_success = b ! 0, rs_err_code = b ! 1\<rparr>)"

text \<open>The match on the type of the body, given the addresses and what follows them.\<close>

definition dfu_decode_tail :: "MessageType \<Rightarrow> DfuAddress \<Rightarrow> bytes \<Rightarrow> (BmWireError, DfuMessage) result option" where
  "dfu_decode_tail t a tail =
     (if t = DFU_START then do {
        r \<leftarrow> img_info_decode tail;
        try_ok r (\<lambda>i. Some (Ok (DStart \<lparr>st_addresses = a, st_img_info = i\<rparr>)))
      }
      else if t = DFU_PAYLOAD_REQ then
        try_ok (dfu_two tail) (\<lambda>b. Some (Ok (DPayloadReq \<lparr>rq_addresses = a, rq_seq_num = from_le b\<rparr>)))
      else if t = DFU_PAYLOAD then
        try_ok (dfu_two tail) (\<lambda>b.
          let len = unat (from_le b :: u16) in
          case range_at tail 2 (2 + len) of
            None \<Rightarrow> Some (Err Truncated)
          | Some p \<Rightarrow> Some (Ok (DPayload \<lparr>ch_addresses = a, ch_payload = p\<rparr>)))
      else if t = DFU_END then try_ok (dfu_result a tail) (\<lambda>r. Some (Ok (DEnd r)))
      else if t = DFU_ACK then try_ok (dfu_result a tail) (\<lambda>r. Some (Ok (DAck r)))
      else if t = DFU_ABORT then try_ok (dfu_result a tail) (\<lambda>r. Some (Ok (DAbort r)))
      else if t = DFU_HEARTBEAT then Some (Ok (DHeartbeat a))
      else if t = DFU_REBOOT_REQ then Some (Ok (DRebootReq a))
      else if t = DFU_REBOOT then Some (Ok (DReboot a))
      else if t = DFU_BOOT_COMPLETE then Some (Ok (DBootComplete a))
      else Some (Err Invalid))"

definition dfu_decode :: "DfuMessage decoder" where
  "dfu_decode body =
     (case body of
        [] \<Rightarrow> Some (Err Truncated)
      | frame_type # _ \<Rightarrow> do {
          r \<leftarrow> dfu_address_of_body body;
          try_ok r (\<lambda>a. do {
            tail \<leftarrow> range_at body DFU_MIN_LEN (length body);
            dfu_decode_tail (ucast frame_type) a tail
          })
        })"

fun dfu_encoded_len :: "DfuMessage \<Rightarrow> nat" where
  "dfu_encoded_len (DStart _) = DFU_START_LEN"
| "dfu_encoded_len (DPayload m) = DFU_WITH_TWO_BYTES_LEN + length (ch_payload m)"
| "dfu_encoded_len (DPayloadReq _) = DFU_WITH_TWO_BYTES_LEN"
| "dfu_encoded_len (DEnd _) = DFU_WITH_TWO_BYTES_LEN"
| "dfu_encoded_len (DAck _) = DFU_WITH_TWO_BYTES_LEN"
| "dfu_encoded_len (DAbort _) = DFU_WITH_TWO_BYTES_LEN"
| "dfu_encoded_len (DHeartbeat _) = DFU_MIN_LEN"
| "dfu_encoded_len (DRebootReq _) = DFU_MIN_LEN"
| "dfu_encoded_len (DReboot _) = DFU_MIN_LEN"
| "dfu_encoded_len (DBootComplete _) = DFU_MIN_LEN"

definition dfu_encode_result :: "DfuResult \<Rightarrow> bytes \<Rightarrow> (bytes \<times> (BmWireError, unit) result) option" where
  "dfu_encode_result m tail = do {
     tail \<leftarrow> set_at tail 0 (rs_success m);
     tail \<leftarrow> set_at tail 1 (rs_err_code m);
     Some (tail, Ok ())
   }"

fun dfu_encode_tail :: "DfuMessage \<Rightarrow> bytes \<Rightarrow> (bytes \<times> (BmWireError, unit) result) option" where
  "dfu_encode_tail (DStart m) tail = img_info_encode (st_img_info m) tail"
| "dfu_encode_tail (DPayloadReq m) tail = do {
     tail \<leftarrow> copy_at tail 0 (to_le 2 (rq_seq_num m));
     Some (tail, Ok ())
   }"
| "dfu_encode_tail (DPayload m) tail = do {
     tail \<leftarrow> copy_at tail 0 (to_le 2 (of_nat (length (ch_payload m)) :: u16));
     tail \<leftarrow> (if length tail = 2 + length (ch_payload m) then copy_at tail 2 (ch_payload m) else None);
     Some (tail, Ok ())
   }"
| "dfu_encode_tail (DEnd m) tail = dfu_encode_result m tail"
| "dfu_encode_tail (DAck m) tail = dfu_encode_result m tail"
| "dfu_encode_tail (DAbort m) tail = dfu_encode_result m tail"
| "dfu_encode_tail (DHeartbeat _) tail = Some (tail, Ok ())"
| "dfu_encode_tail (DRebootReq _) tail = Some (tail, Ok ())"
| "dfu_encode_tail (DReboot _) tail = Some (tail, Ok ())"
| "dfu_encode_tail (DBootComplete _) tail = Some (tail, Ok ())"

definition dfu_encodable :: "DfuMessage \<Rightarrow> bool" where
  "dfu_encodable m \<longleftrightarrow> (case m of DPayload c \<Rightarrow> length (ch_payload c) \<le> CHUNK_MAX_PAYLOAD_LEN | _ \<Rightarrow> True)"

definition dfu_encode :: "DfuMessage msg_encoder" where
  "dfu_encode m buf =
     (if \<not> dfu_encodable m then Some (buf, Err Invalid)
      else let end = dfu_encoded_len m in
      if length buf < end then Some (buf, Err Truncated)
      else let (b, rest) = (take end buf, drop end buf) in do {
        b \<leftarrow> set_at b 0 (ucast (dfu_message_type m));
        (sub, r) \<leftarrow> dfu_address_encode (dfu_addresses m) (drop ADDRESS_OFFSET b);
        let b = take ADDRESS_OFFSET b @ sub;
        case r of
          Err e \<Rightarrow> Some (b @ rest, Err e)
        | Ok _ \<Rightarrow> do {
            (tail, r) \<leftarrow> dfu_encode_tail m (drop DFU_MIN_LEN b);
            let b = take DFU_MIN_LEN b @ tail;
            case r of Err e \<Rightarrow> Some (b @ rest, Err e) | Ok _ \<Rightarrow> Some (b @ rest, Ok end)
          }
      })"

section \<open>The messages form a codec\<close>

fun dfu_tail_wire :: "DfuMessage \<Rightarrow> bytes" where
  "dfu_tail_wire (DStart m) = img_info_wire (st_img_info m)"
| "dfu_tail_wire (DPayloadReq m) = to_le 2 (rq_seq_num m)"
| "dfu_tail_wire (DPayload m) = to_le 2 (of_nat (length (ch_payload m)) :: u16) @ ch_payload m"
| "dfu_tail_wire (DEnd m) = [rs_success m, rs_err_code m]"
| "dfu_tail_wire (DAck m) = [rs_success m, rs_err_code m]"
| "dfu_tail_wire (DAbort m) = [rs_success m, rs_err_code m]"
| "dfu_tail_wire _ = []"

definition dfu_wire :: "DfuMessage \<Rightarrow> bytes" where
  "dfu_wire m = ucast (dfu_message_type m) # dfu_address_wire (dfu_addresses m) @ dfu_tail_wire m"

lemma length_wires [simp]: "length (dfu_address_wire a) = 16" "length (img_info_wire i) = 18"
  using addr.length_wire img.length_wire by simp_all

lemma length_dfu_wire: "length (dfu_wire m) = dfu_encoded_len m"
  by (cases m) (simp_all add: dfu_wire_def)

lemma dfu_encode_tail_ok:
  "length tail = length (dfu_tail_wire m) \<Longrightarrow> dfu_encode_tail m tail = Some (dfu_tail_wire m, Ok ())"
proof (cases m)
  case (DStart s)
  assume "length tail = length (dfu_tail_wire m)"
  with DStart show ?thesis using img.encode_ok [of tail "st_img_info s"] by (simp add: put_0)
next
  case (DPayload c)
  assume l: "length tail = length (dfu_tail_wire m)"
  let ?h = "to_le 2 (of_nat (length (ch_payload c)) :: u16)"
  have "put (put tail 0 ?h) 2 (ch_payload c) = ?h @ ch_payload c"
  proof -
    have "put (put tail 0 ?h) 2 (ch_payload c) = put tail 0 (?h @ ch_payload c)"
      by (rule put_put_seq) (use l DPayload in simp_all)
    then show ?thesis using l DPayload by (simp add: put_0 del: to_le_numeral)
  qed
  then show ?thesis using l DPayload by (simp add: copy_at_in del: to_le_numeral)
qed (auto simp: copy_at_in set_at_in put_0 dfu_encode_result_def length_Suc_conv numeral_2_eq_2
    simp del: to_le_numeral)

lemma dfu_encode_ok:
  assumes "dfu_encodable m" "length (dfu_wire m) \<le> length buf"
  shows "dfu_encode m buf = Some (put buf 0 (dfu_wire m), Ok (length (dfu_wire m)))"
proof -
  let ?n = "dfu_encoded_len m" and ?ty = "ucast (dfu_message_type m) :: u8"
  let ?b = "(take (dfu_encoded_len m) buf)[0 := ?ty]"
  have n: "?n = 17 + length (dfu_tail_wire m)" by (simp add: length_dfu_wire [symmetric] dfu_wire_def)
  have len: "17 \<le> ?n" "?n \<le> length buf" using n assms(2) length_dfu_wire [of m] by simp_all
  have set: "set_at (take ?n buf) 0 ?ty = Some ?b" using len by (simp add: set_at_in)
  have t1: "take 1 ?b = [?ty]" using len by (cases "take ?n buf") auto
  let ?aw = "dfu_address_wire (dfu_addresses m)"
  have enc: "dfu_address_encode (dfu_addresses m) (drop 1 ?b) = Some (?aw @ drop 17 (take ?n buf), Ok ())"
    using addr.encode_ok [of "drop 1 ?b" "dfu_addresses m"] len by (simp add: put_0)
  have tl: "dfu_encode_tail m (drop 17 (take ?n buf)) = Some (dfu_tail_wire m, Ok ())"
    using n len by (intro dfu_encode_tail_ok) simp
  have w: "put buf 0 (dfu_wire m) = ?ty # ?aw @ dfu_tail_wire m @ drop ?n buf"
    using assms(2) by (simp add: put_0 length_dfu_wire) (simp add: dfu_wire_def)
  show ?thesis
    using assms(1) len set t1 enc tl
    by (simp add: dfu_encode_def w length_dfu_wire Let_def)
qed

lemma dfu_type_bytes:
  "ucast (ucast (dfu_message_type m) :: u8) = dfu_message_type m"
  by (cases m) (simp_all add: message_type_defs)

lemma dfu_address_of_wire: "dfu_address_of_body (b # dfu_address_wire a @ rest) = Some (Ok a)"
  using addr.decode_wire [of a rest]
  by (simp add: dfu_address_of_body_def range_at_in)

lemma dfu_decode_tail_wire:
  "dfu_encodable m \<Longrightarrow> dfu_decode_tail (dfu_message_type m) (dfu_addresses m) (dfu_tail_wire m @ rest) = Some (Ok m)"
proof (cases m)
  case (DPayload c)
  assume e: "dfu_encodable m"
  have len: "unat (of_nat (length (ch_payload c)) :: u16) = length (ch_payload c)"
    using e DPayload by (simp add: dfu_encodable_def unat_of_nat)
  with DPayload show ?thesis
    by (simp add: dfu_decode_tail_def dfu_two_def prefix_simps range_at_in message_type_defs Let_def
        del: to_le_numeral)
next
  case (DStart s)
  then show ?thesis using img.decode_wire [of "st_img_info s" rest] by (simp add: dfu_decode_tail_def)
qed (simp_all add: dfu_decode_tail_def dfu_two_def dfu_result_def prefix_simps message_type_defs del: to_le_numeral)

lemma dfu_decode_wire: "dfu_encodable m \<Longrightarrow> dfu_decode (dfu_wire m @ rest) = Some (Ok m)"
proof -
  assume e: "dfu_encodable m"
  let ?body = "ucast (dfu_message_type m) # dfu_address_wire (dfu_addresses m) @ (dfu_tail_wire m @ rest)"
  have tl: "range_at ?body 17 (length ?body) = Some (dfu_tail_wire m @ rest)" by (simp add: range_at_in)
  have "dfu_decode ?body = dfu_decode_tail (ucast (ucast (dfu_message_type m) :: u8)) (dfu_addresses m) (dfu_tail_wire m @ rest)"
    using tl dfu_address_of_wire [of "ucast (dfu_message_type m)" "dfu_addresses m" "dfu_tail_wire m @ rest"]
    by (simp add: dfu_decode_def del: append_assoc)
  then show ?thesis
    using dfu_decode_tail_wire [OF e, of rest] dfu_type_bytes [of m] by (simp add: dfu_wire_def)
qed

interpretation dfu: message_codec dfu_encode dfu_decode dfu_wire dfu_encodable
proof unfold_locales
  show "dfu_encode m buf = Some (put buf 0 (dfu_wire m), Ok (length (dfu_wire m)))"
    if "dfu_encodable m" "length (dfu_wire m) \<le> length buf" for m buf
    using dfu_encode_ok [OF that] .
  show "dfu_encode m buf = Some (buf, Err Truncated)" if "dfu_encodable m" "length buf < length (dfu_wire m)" for m buf
    using that by (simp add: dfu_encode_def length_dfu_wire)
  show "dfu_encode m buf = Some (buf, Err Invalid)" if "\<not> dfu_encodable m" for m buf
    using that by (simp add: dfu_encode_def)
  show "dfu_decode (dfu_wire m @ rest) = Some (Ok m)" if "dfu_encodable m" for m rest
    using dfu_decode_wire [OF that] .
qed

lemma dfu_address_of_body_total: "dfu_address_of_body body \<noteq> None"
  using addr.never_panics(2) by (auto simp: dfu_address_of_body_def split: option.splits)

lemma dfu_address_of_body_Ok: "dfu_address_of_body body = Some (Ok a) \<Longrightarrow> 17 \<le> length body"
proof (rule ccontr)
  assume a: "dfu_address_of_body body = Some (Ok a)" and "\<not> 17 \<le> length body"
  then have "length (drop 1 body) < 16" by auto
  then have "dfu_address_decode (drop 1 body) = Some (Err Truncated)" using addr.decode_short by simp
  with a show False by (auto simp: dfu_address_of_body_def range_at_def subslice_def split: if_splits)
qed

lemma try_ok_total: "(\<And>v. f v \<noteq> None) \<Longrightarrow> try_ok r f \<noteq> None"
  by (cases r) simp_all

lemma if_total: "x \<noteq> None \<Longrightarrow> y \<noteq> None \<Longrightarrow> (if c then x else y) \<noteq> None"
  by simp

lemma dfu_decode_tail_total: "dfu_decode_tail t a tail \<noteq> None"
proof -
  obtain r where r: "img_info_decode tail = Some r" using img.never_panics(2) [of tail] by blast
  have p: "(case range_at tail 2 (2 + n) of None \<Rightarrow> Some (Err Truncated) | Some p \<Rightarrow> Some (Ok (f p))) \<noteq> None"
    for n and f :: "bytes \<Rightarrow> DfuMessage" by (simp split: option.split)
  show ?thesis unfolding dfu_decode_tail_def r Let_def
    unfolding bind.simps by (intro if_total try_ok_total p option.distinct(2))
qed

section \<open>Properties\<close>

text \<open>Every DFU message that can be encoded decodes to itself, whatever follows it in the
  buffer; the encoder writes exactly its stated length and nothing behind it.\<close>

theorem dfu_message_roundtrip:
  assumes "dfu_encode m buf = Some (buf', Ok n)"
  shows "dfu_decode (take n buf' @ rest) = Some (Ok m) \<and> n = dfu_encoded_len m \<and>
    length buf' = length buf \<and> drop n buf' = drop n buf"
  using dfu.roundtrip [OF assms] length_dfu_wire [of m] dfu.encode_length [OF assms] by simp

theorem dfu_message_roundtrip_witness:
  "\<exists>buf' n. dfu_encode (DPayload \<lparr>ch_addresses = \<lparr>src_node_id = 1, dst_node_id = 2\<rparr>, ch_payload = [7, 8]\<rparr>)
      (replicate 30 0) = Some (buf', Ok n) \<and>
    dfu_decode (take n buf') = Some (Ok (DPayload \<lparr>ch_addresses = \<lparr>src_node_id = 1, dst_node_id = 2\<rparr>, ch_payload = [7, 8]\<rparr>))"
proof -
  let ?m = "DPayload \<lparr>ch_addresses = \<lparr>src_node_id = 1, dst_node_id = 2\<rparr>, ch_payload = [7, 8]\<rparr>"
  have "dfu_encodable ?m" by (simp add: dfu_encodable_def)
  moreover have "length (dfu_wire ?m) \<le> length (replicate 30 (0 :: u8))" by (simp add: length_dfu_wire)
  ultimately have "dfu_encode ?m (replicate 30 0) = Some (put (replicate 30 0) 0 (dfu_wire ?m), Ok (length (dfu_wire ?m)))"
    by (rule dfu.encode_ok)
  from this dfu_message_roundtrip [OF this, of "[]"] show ?thesis by auto
qed

text \<open>Decoding a DFU body never panics, whatever bytes arrive, and a body it accepts holds at
  least its type byte and both addresses.\<close>

theorem dfu_decode_never_panics:
  "\<exists>r. dfu_decode body = Some r \<and> (\<forall>m. r = Ok m \<longrightarrow> 17 \<le> length body)"
proof (cases body)
  case Nil
  then show ?thesis by (simp add: dfu_decode_def)
next
  case (Cons b bs)
  obtain r where r: "dfu_address_of_body body = Some r" using dfu_address_of_body_total [of body] by blast
  show ?thesis
  proof (cases r)
    case (Ok a)
    then have len: "17 \<le> length body" using r dfu_address_of_body_Ok by simp
    then have "range_at body 17 (length body) = Some (drop 17 body)" by (simp add: range_at_in subslice_def)
    with r Ok Cons len dfu_decode_tail_total [of "ucast b" a "drop 17 body"] show ?thesis
      by (auto simp: dfu_decode_def)
  next
    case (Err e)
    with r Cons show ?thesis by (simp add: dfu_decode_def)
  qed
qed

theorem dfu_decode_never_panics_witness: "\<exists>r. dfu_decode [0xD0, 1] = Some r"
  using dfu_decode_never_panics [of "[0xD0, 1]"] by blast

end
