(* ===== verification/Ring.thy ===== *)
theory Ring
  imports BM_Prelude
begin

text \<open>
  Ring buffers. Two components keep a FIFO in a fixed array with a head index and a count:
  the DFU event queue (\<open>bcmp/dfu_core.rs\<close>) and the host's byte stream
  (\<open>bcmp/dfu_host.rs\<close>). This theory holds the abstraction of such an array to the list of
  what it holds, oldest first, with the effect of writing behind the last element and of
  taking the first, and the interface of a bounded FIFO that clients reason against.
\<close>

section \<open>The contents of a ring\<close>

definition ring :: "'a list \<Rightarrow> nat \<Rightarrow> nat \<Rightarrow> nat \<Rightarrow> 'a list" where
  "ring slots cap head n = map (\<lambda>i. slots ! ((head + i) mod cap)) [0..<n]"

lemma length_ring [simp]: "length (ring slots cap head n) = n"
  by (simp add: ring_def)

lemma ring_0 [simp]: "ring slots cap head 0 = []"
  by (simp add: ring_def)

lemma ring_cong:
  "(\<And>i. i < n \<Longrightarrow> slots ! ((head + i) mod cap) = slots' ! ((head + i) mod cap)) \<Longrightarrow>
   ring slots cap head n = ring slots' cap head n"
  by (simp add: ring_def)

lemma mod_add_inject:
  fixes cap :: nat
  assumes "i < cap" "j < cap" "(h + i) mod cap = (h + j) mod cap"
  shows "i = j"
  using assms
proof (induction i j rule: linorder_wlog)
  case (le i j)
  then have "cap dvd (h + j) - (h + i)" by (metis add_le_cancel_left mod_eq_dvd_iff_nat)
  with le show ?case by (auto dest: dvd_imp_le)
qed simp

lemma ring_push:
  assumes "n < cap" "cap \<le> length slots"
  shows "ring (slots[(head + n) mod cap := x]) cap head (Suc n) = ring slots cap head n @ [x]"
proof -
  have "(head + n) mod cap < cap" using assms by simp
  then have "(head + n) mod cap < length slots" using assms(2) by (rule order.strict_trans2)
  moreover have "(head + i) mod cap \<noteq> (head + n) mod cap" if "i < n" for i
    using mod_add_inject [of i cap n head] that assms by auto
  ultimately show ?thesis by (auto simp: ring_def nth_list_update) metis
qed

lemma ring_drop:
  assumes "k \<le> n"
  shows "drop k (ring slots cap head n) = ring slots cap ((head + k) mod cap) (n - k)"
  using assms by (auto simp: ring_def drop_map intro!: nth_equalityI simp: mod_simps add.assoc)

lemma ring_first: "0 < n \<Longrightarrow> head < cap \<Longrightarrow> ring slots cap head n ! 0 = slots ! head"
  by (simp add: ring_def)

lemma ring_clear_first:
  assumes "0 < n" "n \<le> cap" "head < cap"
  shows "ring (slots[head := y]) cap ((head + 1) mod cap) (n - 1) = ring slots cap ((head + 1) mod cap) (n - 1)"
proof (rule ring_cong)
  fix i assume i: "i < n - 1"
  have "(head + (1 + i)) mod cap \<noteq> (head + 0) mod cap"
    using mod_add_inject [of "1 + i" cap 0 head] i assms by linarith
  then show "slots[head := y] ! (((head + 1) mod cap + i) mod cap) = slots ! (((head + 1) mod cap + i) mod cap)"
    using assms by (simp add: mod_simps add.assoc)
qed

lemma ring_pop:
  assumes "0 < n" "n \<le> cap" "head < cap"
  shows "ring slots cap head n = slots ! head # ring (slots[head := y]) cap ((head + 1) mod cap) (n - 1)"
proof -
  have "ring slots cap head n = ring slots cap head n ! 0 # drop 1 (ring slots cap head n)"
    using assms by (simp add: Cons_nth_drop_Suc)
  then show ?thesis using assms ring_first [of n head cap slots] ring_drop [of 1 n slots cap head]
      ring_clear_first [OF assms, of slots y] by simp
qed

section \<open>The interface of a bounded FIFO\<close>

text \<open>\<open>push\<close> answers whether there was room and changes nothing when there was none;
  \<open>pop\<close> answers the oldest element. \<open>None\<close> is the panic of an index out of range, which a
  well-formed queue never reaches.\<close>

locale bounded_fifo =
  fixes wf :: "'q \<Rightarrow> bool"
    and contents :: "'q \<Rightarrow> 'a list"
    and cap :: nat
    and push :: "'a \<Rightarrow> 'q \<Rightarrow> 'q \<times> bool"
    and pop :: "'q \<Rightarrow> ('q \<times> 'a option) option"
  assumes bounded: "wf q \<Longrightarrow> length (contents q) \<le> cap"
    and push_full: "wf q \<Longrightarrow> length (contents q) = cap \<Longrightarrow> push x q = (q, False)"
    and push_room: "wf q \<Longrightarrow> length (contents q) < cap \<Longrightarrow>
      \<exists>q'. push x q = (q', True) \<and> wf q' \<and> contents q' = contents q @ [x]"
    and pop_empty: "wf q \<Longrightarrow> contents q = [] \<Longrightarrow> pop q = Some (q, None)"
    and pop_first: "wf q \<Longrightarrow> contents q = x # xs \<Longrightarrow>
      \<exists>q'. pop q = Some (q', Some x) \<and> wf q' \<and> contents q' = xs"
begin

lemma push_wf [simp]: "wf q \<Longrightarrow> wf (fst (push x q))"
  using push_full [of q x] push_room [of q x] bounded [of q] by fastforce

lemma contents_push:
  "wf q \<Longrightarrow> contents (fst (push x q)) = take cap (contents q @ [x])"
  using push_full [of q x] push_room [of q x] bounded [of q] by fastforce

lemma push_accepts: "wf q \<Longrightarrow> snd (push x q) \<longleftrightarrow> length (contents q) < cap"
  using push_full [of q x] push_room [of q x] bounded [of q] by fastforce

text \<open>Pushing a batch: what does not fit is lost, what fits keeps its order behind what was there.\<close>

lemma push_all_wf: "wf q \<Longrightarrow> wf (fold (\<lambda>x q. fst (push x q)) xs q)"
  by (induction xs arbitrary: q) simp_all

lemma contents_push_all:
  "wf q \<Longrightarrow> contents (fold (\<lambda>x q. fst (push x q)) xs q) = take cap (contents q @ xs)"
proof (induction xs arbitrary: q)
  case Nil
  then show ?case by (simp add: bounded)
next
  case (Cons x xs)
  moreover have "cap - Suc (length (contents q)) = m" if "cap - length (contents q) = Suc m" for m
    using that by simp
  ultimately show ?case by (cases "cap - length (contents q)") (simp_all add: contents_push bounded min_def)
qed

lemma pop_total: "wf q \<Longrightarrow> \<exists>q' r. pop q = Some (q', r) \<and> wf q' \<and>
    contents q' = tl (contents q) \<and> r = (case contents q of [] \<Rightarrow> None | x # _ \<Rightarrow> Some x)"
  using pop_empty [of q] pop_first [of q] by (cases "contents q") auto

end

end
