(* ===== verification/Dfu_Core.thy ===== *)
theory Dfu_Core
  imports Dfu_Codec Ring "HOL-Library.Option_ord" "HOL-Library.Multiset"
begin

text \<open>
  \<open>bm-wire/src/bcmp/dfu_core.rs\<close>: the firmware-update state machine. Its event queue is a
  ring that interprets the bounded FIFO; its timers are deadlines against a wrapping 32-bit
  clock; \<open>Effects\<close> and \<open>Roles\<close>, traits in the code, are records of functions here, so every
  theorem holds for every implementation of them (the two the crate has are in
  \<open>Dfu_Client\<close> and \<open>Dfu_Host\<close>). A state change is requested by setting \<open>pending\<close> and taken
  at the end of the run. \<open>None\<close> is a panic.
\<close>

section \<open>States, events, errors and timers\<close>

definition EVENT_QUEUE_LEN :: nat where "EVENT_QUEUE_LEN = 5"
definition DFU_REBOOT_MAGIC :: u32 where "DFU_REBOOT_MAGIC = 0xBADC0FFE"
definition MAX_EVENT_BODY_LEN :: nat where
  "MAX_EVENT_BODY_LEN = 1514 - MIN_FRAME_WITH_ADDRESSES - BCMP_HEADER_LEN"

datatype State = Init | Idle | Error | ClientReceiving | ClientValidating | ClientRebootReq
  | ClientRebootDone | ClientActivating | HostReqUpdate | HostUpdate

definition STATE_ALL :: "State list" where
  "STATE_ALL = [Init, Idle, Error, ClientReceiving, ClientValidating, ClientRebootReq,
     ClientRebootDone, ClientActivating, HostReqUpdate, HostUpdate]"

definition state_from_u8 :: "u8 \<Rightarrow> State option" where
  "state_from_u8 v = get_at STATE_ALL (unat v)"

definition is_client :: "State \<Rightarrow> bool" where
  "is_client s \<longleftrightarrow> s \<in> {ClientReceiving, ClientValidating, ClientRebootReq, ClientRebootDone, ClientActivating}"

definition is_host :: "State \<Rightarrow> bool" where
  "is_host s \<longleftrightarrow> s \<in> {HostReqUpdate, HostUpdate}"

datatype EventType = EvNone | EvInitSuccess | EvReceivedUpdateRequest | EvChunkRequest | EvImageChunk
  | EvUpdateEnd | EvAckReceived | EvAckTimeout | EvChunkTimeout | EvHeartbeat | EvAbort | EvBeginHost
  | EvRebootRequest | EvReboot | EvBootComplete

definition for_frame_type :: "u8 \<Rightarrow> EventType option" where
  "for_frame_type frame_type = (let t = ucast frame_type in
     if t = DFU_START then Some EvReceivedUpdateRequest
     else if t = DFU_PAYLOAD then Some EvImageChunk
     else if t = DFU_END then Some EvUpdateEnd
     else if t = DFU_ACK then Some EvAckReceived
     else if t = DFU_ABORT then Some EvAbort
     else if t = DFU_HEARTBEAT then Some EvHeartbeat
     else if t = DFU_PAYLOAD_REQ then Some EvChunkRequest
     else if t = DFU_REBOOT_REQ then Some EvRebootRequest
     else if t = DFU_REBOOT then Some EvReboot
     else if t = DFU_BOOT_COMPLETE then Some EvBootComplete
     else None)"

type_synonym DfuErr = u8

definition ERR_NONE :: DfuErr where "ERR_NONE = 0"
definition ERR_TOO_LARGE :: DfuErr where "ERR_TOO_LARGE = 1"
definition ERR_SAME_VER :: DfuErr where "ERR_SAME_VER = 2"
definition ERR_MISMATCH_LEN :: DfuErr where "ERR_MISMATCH_LEN = 3"
definition ERR_BAD_CRC :: DfuErr where "ERR_BAD_CRC = 4"
definition ERR_IMG_CHUNK_ACCESS :: DfuErr where "ERR_IMG_CHUNK_ACCESS = 5"
definition ERR_TIMEOUT :: DfuErr where "ERR_TIMEOUT = 6"
definition ERR_BM_FRAME :: DfuErr where "ERR_BM_FRAME = 7"
definition ERR_ABORTED :: DfuErr where "ERR_ABORTED = 8"
definition ERR_WRONG_VER :: DfuErr where "ERR_WRONG_VER = 9"
definition ERR_IN_PROGRESS :: DfuErr where "ERR_IN_PROGRESS = 10"
definition ERR_CHUNK_SIZE :: DfuErr where "ERR_CHUNK_SIZE = 11"
definition ERR_UNKNOWN_NODE_ID :: DfuErr where "ERR_UNKNOWN_NODE_ID = 12"
definition ERR_CONFIRMATION_ABORT :: DfuErr where "ERR_CONFIRMATION_ABORT = 13"
definition ERR_FLASH_ACCESS :: DfuErr where "ERR_FLASH_ACCESS = 14"

definition is_fatal :: "DfuErr \<Rightarrow> bool" where
  "is_fatal e \<longleftrightarrow> ERR_FLASH_ACCESS \<le> e"

datatype Timer = Chunk | Ack | Update

definition TIMER_ALL :: "Timer list" where "TIMER_ALL = [Chunk, Ack, Update]"

fun period_ms :: "Timer \<Rightarrow> u32" where
  "period_ms Chunk = 2000"
| "period_ms Ack = 10000"
| "period_ms Update = 300000"

fun timer_event :: "Timer \<Rightarrow> EventType" where
  "timer_event Chunk = EvChunkTimeout"
| "timer_event Ack = EvAckTimeout"
| "timer_event Update = EvAbort"

section \<open>What a reboot keeps\<close>

record RebootInfo =
  ri_magic :: u32
  ri_major :: u8
  ri_minor :: u8
  ri_host_node_id :: u64
  ri_git_sha :: u32

definition REBOOT_INFO_LEN :: nat where "REBOOT_INFO_LEN = 18"

definition reboot_info_default :: RebootInfo where
  "reboot_info_default = \<lparr>ri_magic = 0, ri_major = 0, ri_minor = 0, ri_host_node_id = 0, ri_git_sha = 0\<rparr>"

definition reboot_info_decode :: "RebootInfo decoder" where
  "reboot_info_decode buf = try_ok (prefix REBOOT_INFO_LEN buf) (\<lambda>b. do {
     magic \<leftarrow> u32_at b 0;
     major \<leftarrow> get_at b 4;
     minor \<leftarrow> get_at b 5;
     host \<leftarrow> u64_at b 6;
     sha \<leftarrow> u32_at b 14;
     Some (Ok \<lparr>ri_magic = magic, ri_major = major, ri_minor = minor, ri_host_node_id = host,
               ri_git_sha = sha\<rparr>)
   })"

definition reboot_info_encode :: "RebootInfo encoder" where
  "reboot_info_encode i buf =
     (if length buf < REBOOT_INFO_LEN then Some (buf, Err Truncated)
      else do {
        b \<leftarrow> copy_at buf 0 (to_le 4 (ri_magic i));
        b \<leftarrow> set_at b 4 (ri_major i);
        b \<leftarrow> set_at b 5 (ri_minor i);
        b \<leftarrow> copy_at b 6 (to_le 8 (ri_host_node_id i));
        b \<leftarrow> copy_at b 14 (to_le 4 (ri_git_sha i));
        Some (b, Ok ())
      })"

section \<open>Events and their queue\<close>

record HostStart =
  hs_start :: DfuStart
  hs_notify :: bool
  hs_timeout_ms :: u32

text \<open>A message event holds the body followed by zeros up to the array's length; \<open>data_body\<close>
  is the part in use, by the slice \<open>&bytes[..*len]\<close>, which panics when \<open>len\<close> is more than the
  array holds. Its outer option is that panic.\<close>

datatype EventData = DataNone | DataMessage nat bytes | DataHostStart HostStart

fun data_body :: "EventData \<Rightarrow> bytes option option" where
  "data_body (DataMessage len bs) = do { body \<leftarrow> range_at bs 0 len; Some (Some body) }"
| "data_body _ = Some None"

record Event =
  ev_kind :: EventType
  ev_data :: EventData

definition event_bare :: "EventType \<Rightarrow> Event" where
  "event_bare kind = \<lparr>ev_kind = kind, ev_data = DataNone\<rparr>"

definition EVENT_NONE :: Event where "EVENT_NONE = event_bare EvNone"

definition event_message :: "EventType \<Rightarrow> bytes \<Rightarrow> (BmWireError, Event) result" where
  "event_message kind body =
     (case copy_at (replicate MAX_EVENT_BODY_LEN 0) 0 body of
        None \<Rightarrow> Err Invalid
      | Some bs \<Rightarrow> Ok \<lparr>ev_kind = kind, ev_data = DataMessage (length body) bs\<rparr>)"

definition event_body :: "Event \<Rightarrow> bytes option option" where
  "event_body e = data_body (ev_data e)"

definition message_body :: "Event \<Rightarrow> DfuMessage option option" where
  "message_body e = do {
     body \<leftarrow> event_body e;
     case body of
       None \<Rightarrow> Some None
     | Some b \<Rightarrow> do { r \<leftarrow> dfu_decode b; Some (case r of Ok m \<Rightarrow> Some m | Err _ \<Rightarrow> None) }
   }"

record EventQueue =
  q_slots :: "Event list"
  q_head :: nat
  q_len :: nat

definition queue_new :: EventQueue where
  "queue_new = \<lparr>q_slots = replicate EVENT_QUEUE_LEN EVENT_NONE, q_head = 0, q_len = 0\<rparr>"

definition queue_push :: "Event \<Rightarrow> EventQueue \<Rightarrow> EventQueue \<times> bool" where
  "queue_push e q =
     (if q_len q = EVENT_QUEUE_LEN then (q, False)
      else (q\<lparr>q_slots := (q_slots q)[(q_head q + q_len q) mod EVENT_QUEUE_LEN := e],
              q_len := q_len q + 1\<rparr>, True))"

definition queue_pop :: "EventQueue \<Rightarrow> (EventQueue \<times> Event option) option" where
  "queue_pop q =
     (if q_len q = 0 then Some (q, None)
      else do {
        e \<leftarrow> get_at (q_slots q) (q_head q);
        s \<leftarrow> set_at (q_slots q) (q_head q) EVENT_NONE;
        Some (q\<lparr>q_slots := s, q_head := (q_head q + 1) mod EVENT_QUEUE_LEN, q_len := q_len q - 1\<rparr>, Some e)
      })"

definition queue_iter :: "EventQueue \<Rightarrow> Event list" where
  "queue_iter q = ring (q_slots q) EVENT_QUEUE_LEN (q_head q) (q_len q)"

definition wf_queue :: "EventQueue \<Rightarrow> bool" where
  "wf_queue q \<longleftrightarrow> length (q_slots q) = EVENT_QUEUE_LEN \<and> q_head q < EVENT_QUEUE_LEN \<and> q_len q \<le> EVENT_QUEUE_LEN"

section \<open>What the machine does outside itself\<close>

text \<open>The trait \<open>Effects\<close>, implemented by the integrator: each method is a function on the
  integrator's state \<open>'fx\<close>. \<open>fx_get_uint\<close> and \<open>fx_set_uint\<close> are the two things the client does
  with the store that \<open>config()\<close> returns; a node without one answers \<open>None\<close> and ignores the
  write. \<open>fx_host_get_chunk\<close> fills a buffer of the given length.\<close>

datatype Partition = User | System | Hardware

record 'fx Effects =
  fx_send :: "DfuMessage \<Rightarrow> 'fx \<Rightarrow> 'fx"
  fx_lpm_peripheral_active :: "'fx \<Rightarrow> 'fx"
  fx_lpm_peripheral_inactive :: "'fx \<Rightarrow> 'fx"
  fx_update_finished :: "bool \<Rightarrow> DfuErr \<Rightarrow> u64 \<Rightarrow> 'fx \<Rightarrow> 'fx"
  fx_flash_open :: "'fx \<Rightarrow> bool \<times> 'fx"
  fx_flash_close :: "'fx \<Rightarrow> bool \<times> 'fx"
  fx_flash_size :: "'fx \<Rightarrow> u32 \<times> 'fx"
  fx_flash_erase :: "u32 \<Rightarrow> u32 \<Rightarrow> 'fx \<Rightarrow> bool \<times> 'fx"
  fx_flash_write :: "u32 \<Rightarrow> bytes \<Rightarrow> 'fx \<Rightarrow> bool \<times> 'fx"
  fx_host_get_chunk :: "u32 \<Rightarrow> nat \<Rightarrow> 'fx \<Rightarrow> bool \<times> bytes \<times> 'fx"
  fx_set_confirmed :: "'fx \<Rightarrow> 'fx"
  fx_set_pending_and_reset :: "'fx \<Rightarrow> 'fx"
  fx_fail_update_and_reset :: "'fx \<Rightarrow> 'fx"
  fx_git_sha :: "'fx \<Rightarrow> u32"
  fx_get_uint :: "Partition \<Rightarrow> bytes \<Rightarrow> 'fx \<Rightarrow> u32 option"
  fx_set_uint :: "Partition \<Rightarrow> bytes \<Rightarrow> u32 \<Rightarrow> 'fx \<Rightarrow> 'fx"
  fx_commit_config :: "Partition \<Rightarrow> 'fx \<Rightarrow> bool \<times> 'fx"

section \<open>The core\<close>

text \<open>The arrays indexed by \<open>timer as usize\<close> are functions of the timer.\<close>

record Core =
  co_state :: State
  co_current :: Event
  co_pending :: "State option"
  co_error :: DfuErr
  co_self_node_id :: u64
  co_client_node_id :: u64
  co_notify :: bool
  co_internal :: bool
  co_queue :: EventQueue
  co_reboot_info :: RebootInfo
  co_clock :: "u32 option"
  co_timers :: "Timer \<Rightarrow> u32 option"
  co_periods :: "Timer \<Rightarrow> u32"

definition post :: "Event \<Rightarrow> Core \<Rightarrow> Core \<times> bool" where
  "post e c = (let (q, ok) = queue_push e (co_queue c) in (c\<lparr>co_queue := q\<rparr>, ok))"

definition set_pending_state_change :: "State \<Rightarrow> Core \<Rightarrow> Core" where
  "set_pending_state_change s c = fst (post EVENT_NONE (c\<lparr>co_pending := Some s\<rparr>))"

definition set_error :: "DfuErr \<Rightarrow> Core \<Rightarrow> Core" where
  "set_error e c = c\<lparr>co_error := e\<rparr>"

definition core_now :: "Core \<Rightarrow> u32" where
  "core_now c = (case co_clock c of None \<Rightarrow> 0 | Some t \<Rightarrow> t)"

definition start_timer :: "Timer \<Rightarrow> Core \<Rightarrow> Core" where
  "start_timer t c = c\<lparr>co_timers := (co_timers c)(t := Some (core_now c + co_periods c t))\<rparr>"

definition change_period :: "Timer \<Rightarrow> u32 \<Rightarrow> Core \<Rightarrow> Core" where
  "change_period t p c = start_timer t (c\<lparr>co_periods := (co_periods c)(t := p)\<rparr>)"

definition stop_timer :: "Timer \<Rightarrow> Core \<Rightarrow> Core" where
  "stop_timer t c = c\<lparr>co_timers := (co_timers c)(t := None)\<rparr>"

text \<open>\<open>min_by_key\<close> of Rust's iterators: the first of the least elements.\<close>

fun min_by_key :: "('a \<Rightarrow> 'k::linorder) \<Rightarrow> 'a list \<Rightarrow> 'a option" where
  "min_by_key k [] = None"
| "min_by_key k (x # xs) =
     (case min_by_key k xs of None \<Rightarrow> Some x | Some y \<Rightarrow> Some (if k y < k x then y else x))"

definition timer_due :: "u32 \<Rightarrow> Core \<Rightarrow> Timer \<Rightarrow> bool" where
  "timer_due now c t \<longleftrightarrow> (case co_timers c t of None \<Rightarrow> False | Some d \<Rightarrow> sint (now - d) \<ge> 0)"

definition timer_key :: "u32 \<Rightarrow> Core \<Rightarrow> Timer \<Rightarrow> int option" where
  "timer_key now c t = map_option (\<lambda>d. sint (d - now)) (co_timers c t)"

definition next_due :: "u32 \<Rightarrow> Core \<Rightarrow> Timer option" where
  "next_due now c = min_by_key (timer_key now c) (filter (timer_due now c) TIMER_ALL)"

lemma min_by_key_mem: "min_by_key k xs = Some m \<Longrightarrow> m \<in> set xs"
  by (induction xs arbitrary: m) (auto split: option.splits if_splits)

lemma next_due_running: "next_due now c = Some t \<Longrightarrow> co_timers c t \<noteq> None"
  unfolding next_due_def by (drule min_by_key_mem) (auto simp: timer_due_def split: option.splits)

definition running :: "Core \<Rightarrow> Timer list" where
  "running c = filter (\<lambda>t. co_timers c t \<noteq> None) TIMER_ALL"

function fire_loop :: "u32 \<Rightarrow> Core \<Rightarrow> Core" where
  "fire_loop now c =
     (case next_due now c of
        None \<Rightarrow> c
      | Some t \<Rightarrow> fire_loop now (fst (post (event_bare (timer_event t)) (stop_timer t c))))"
  by auto

lemma post_timers [simp]: "co_timers (fst (post e c)) = co_timers c"
  by (simp add: post_def case_prod_beta)

lemma running_stop_timer:
  "co_timers c t \<noteq> None \<Longrightarrow> length (running (stop_timer t c)) < length (running c)"
  by (cases t) (auto simp: running_def stop_timer_def TIMER_ALL_def)

lemma running_post [simp]: "running (fst (post e c)) = running c"
  by (simp add: running_def)

termination fire_loop
  by (relation "measure (\<lambda>(_, c). length (running c))") (auto simp: next_due_running running_stop_timer)

declare fire_loop.simps [simp del]

definition fire_due :: "Core \<Rightarrow> Core" where
  "fire_due c = fire_loop (core_now c) c"

definition delay :: "u32 \<Rightarrow> Core \<Rightarrow> Core" where
  "delay ms c = fire_due (c\<lparr>co_clock := Some (core_now c + ms)\<rparr>)"

definition advance_to :: "u32 \<Rightarrow> Core \<Rightarrow> Core" where
  "advance_to now_ms c =
     (let ahead = (case co_clock c of None \<Rightarrow> False | Some t \<Rightarrow> sint (now_ms - t) < 0) in
      fire_due (if \<not> ahead then c\<lparr>co_clock := Some now_ms\<rparr> else c))"

definition core_next_deadline :: "Core \<Rightarrow> u32 option" where
  "core_next_deadline c =
     min_by_key (\<lambda>d. sint (d - core_now c)) (map the (filter (\<lambda>d. d \<noteq> None) (map (co_timers c) TIMER_ALL)))"

definition address_to :: "u64 \<Rightarrow> Core \<Rightarrow> DfuAddress" where
  "address_to dst c = \<lparr>src_node_id = co_self_node_id c, dst_node_id = dst\<rparr>"

definition send_ack :: "'fx Effects \<Rightarrow> u64 \<Rightarrow> u8 \<Rightarrow> DfuErr \<Rightarrow> Core \<Rightarrow> 'fx \<Rightarrow> 'fx" where
  "send_ack E dst success err c fx =
     fx_send E (DAck \<lparr>rs_addresses = address_to dst c, rs_success = success, rs_err_code = err\<rparr>) fx"

definition req_next_chunk :: "'fx Effects \<Rightarrow> u64 \<Rightarrow> u16 \<Rightarrow> Core \<Rightarrow> 'fx \<Rightarrow> 'fx" where
  "req_next_chunk E dst chunk_num c fx =
     fx_send E (DPayloadReq \<lparr>rq_addresses = address_to dst c, rq_seq_num = chunk_num\<rparr>) fx"

definition update_end :: "'fx Effects \<Rightarrow> u64 \<Rightarrow> u8 \<Rightarrow> DfuErr \<Rightarrow> Core \<Rightarrow> 'fx \<Rightarrow> 'fx" where
  "update_end E dst success err c fx =
     fx_send E (DEnd \<lparr>rs_addresses = address_to dst c, rs_success = success, rs_err_code = err\<rparr>) fx"

definition send_heartbeat :: "'fx Effects \<Rightarrow> u64 \<Rightarrow> Core \<Rightarrow> 'fx \<Rightarrow> 'fx" where
  "send_heartbeat E dst c fx = fx_send E (DHeartbeat (address_to dst c)) fx"

section \<open>The machine\<close>

text \<open>The trait \<open>Roles\<close>: the client and host states. Each method works on the roles' own state
  \<open>'r\<close>, the core and the effects, and may panic.\<close>

record ('r, 'fx) Roles =
  ro_entry :: "State \<Rightarrow> 'r \<Rightarrow> Core \<Rightarrow> 'fx \<Rightarrow> ('r \<times> Core \<times> 'fx) option"
  ro_run :: "State \<Rightarrow> 'r \<Rightarrow> Core \<Rightarrow> 'fx \<Rightarrow> ('r \<times> Core \<times> 'fx) option"
  ro_exit :: "State \<Rightarrow> 'r \<Rightarrow> Core \<Rightarrow> 'fx \<Rightarrow> ('r \<times> Core \<times> 'fx) option"
  ro_client_process_update_request :: "'r \<Rightarrow> Core \<Rightarrow> 'fx \<Rightarrow> ('r \<times> Core \<times> 'fx) option"
  ro_host_set_params :: "bool \<Rightarrow> u32 \<Rightarrow> 'r \<Rightarrow> 'r"
  ro_client_host_node_valid :: "u64 \<Rightarrow> 'r \<Rightarrow> bool"
  ro_host_client_node_valid :: "u64 \<Rightarrow> 'r \<Rightarrow> bool"

datatype Accepted = Queued EventType | NotForUs | WrongPeer | UnknownType | QueueFull | BodyTruncated | TooLong

record 'r Dfu =
  df_core :: Core
  df_roles :: 'r

definition dfu_new :: "u64 \<Rightarrow> RebootInfo \<Rightarrow> 'r \<Rightarrow> 'r Dfu" where
  "dfu_new self_node_id reboot_info roles =
     \<lparr>df_core =
        \<lparr>co_state = Init, co_current = EVENT_NONE, co_pending = None, co_error = ERR_NONE,
         co_self_node_id = self_node_id, co_client_node_id = 0, co_notify = False, co_internal = False,
         co_queue = fst (queue_push (event_bare EvInitSuccess) queue_new), co_reboot_info = reboot_info,
         co_clock = None, co_timers = (\<lambda>_. None), co_periods = period_ms\<rparr>,
      df_roles = roles\<rparr>"

definition peer_valid :: "('r, 'fx) Roles \<Rightarrow> u64 \<Rightarrow> 'r Dfu \<Rightarrow> bool" where
  "peer_valid R src d =
     (if is_client (co_state (df_core d)) then ro_client_host_node_valid R src (df_roles d)
      else if is_host (co_state (df_core d)) then ro_host_client_node_valid R src (df_roles d)
      else True)"

definition on_message :: "('r, 'fx) Roles \<Rightarrow> bytes \<Rightarrow> 'r Dfu \<Rightarrow> ('r Dfu \<times> Accepted) option" where
  "on_message R body d = do {
     r \<leftarrow> dfu_address_of_body body;
     case r of
       Err _ \<Rightarrow> Some (d, BodyTruncated)
     | Ok address \<Rightarrow>
         if dst_node_id address \<noteq> co_self_node_id (df_core d) then Some (d, NotForUs)
         else if \<not> peer_valid R (src_node_id address) d then Some (d, WrongPeer)
         else do {
           frame_type \<leftarrow> get_at body 0;
           case for_frame_type frame_type of
             None \<Rightarrow> Some (d, UnknownType)
           | Some kind \<Rightarrow>
               (case event_message kind body of
                  Err _ \<Rightarrow> Some (d, TooLong)
                | Ok event \<Rightarrow>
                    let (c, ok) = post event (df_core d) in
                    Some (d\<lparr>df_core := c\<rparr>, if ok then Queued kind else QueueFull))
         }
   }"

definition refuse_update :: "'fx Effects \<Rightarrow> bool \<Rightarrow> u64 \<Rightarrow> 'fx \<Rightarrow> 'fx" where
  "refuse_update E notify dst fx = (if notify then fx_update_finished E False ERR_IN_PROGRESS dst fx else fx)"

definition initiate_update ::
  "'fx Effects \<Rightarrow> ImgInfo \<Rightarrow> u64 \<Rightarrow> bool \<Rightarrow> u32 \<Rightarrow> bool \<Rightarrow> 'r Dfu \<Rightarrow> 'fx \<Rightarrow> 'r Dfu \<times> 'fx \<times> bool" where
  "initiate_update E info dst notify timeout_ms internal d fx =
     (if unat (chunk_size info) > DFU_MAX_CHUNK_SIZE then (d, fx, False)
      else if co_state (df_core d) \<noteq> Idle then (d, refuse_update E notify dst fx, False)
      else
        let start = \<lparr>hs_start = \<lparr>st_addresses = address_to dst (df_core d), st_img_info = info\<rparr>,
                     hs_notify = notify, hs_timeout_ms = timeout_ms\<rparr>;
            (c, ok) = post \<lparr>ev_kind = EvBeginHost, ev_data = DataHostStart start\<rparr> (df_core d)
        in if \<not> ok then (d\<lparr>df_core := c\<rparr>, refuse_update E notify dst fx, False)
           else (d\<lparr>df_core := c\<lparr>co_internal := internal\<rparr>\<rparr>, fx, True))"

definition poll :: "u32 \<Rightarrow> 'r Dfu \<Rightarrow> 'r Dfu" where
  "poll now_ms d = d\<lparr>df_core := advance_to now_ms (df_core d)\<rparr>"

definition lift_roles :: "('r \<times> Core \<times> 'fx) option \<Rightarrow> ('r Dfu \<times> 'fx) option" where
  "lift_roles x = do { (r, c, fx) \<leftarrow> x; Some (\<lparr>df_core = c, df_roles = r\<rparr>, fx) }"

definition run_state :: "('r, 'fx) Roles \<Rightarrow> State \<Rightarrow> 'r Dfu \<Rightarrow> 'fx \<Rightarrow> ('r Dfu \<times> 'fx) option" where
  "run_state R s d fx = (let c = df_core d in
     case s of
       Init \<Rightarrow>
         if ev_kind (co_current c) = EvInitSuccess then
           let next = (if ri_magic (co_reboot_info c) = DFU_REBOOT_MAGIC then ClientRebootDone else Idle)
           in Some (d\<lparr>df_core := set_pending_state_change next c\<rparr>, fx)
         else Some (d, fx)
     | Idle \<Rightarrow>
         (case ev_kind (co_current c) of
            EvReceivedUpdateRequest \<Rightarrow>
              lift_roles (ro_client_process_update_request R (df_roles d) c fx)
          | EvBeginHost \<Rightarrow>
              (case ev_data (co_current c) of
                 DataHostStart start \<Rightarrow>
                   let c = c\<lparr>co_notify := hs_notify start,
                             co_client_node_id := dst_node_id (st_addresses (hs_start start))\<rparr>;
                       r = ro_host_set_params R (hs_notify start) (hs_timeout_ms start) (df_roles d)
                   in Some (\<lparr>df_core = set_pending_state_change HostReqUpdate c, df_roles = r\<rparr>, fx)
               | _ \<Rightarrow> Some (d, fx))
          | _ \<Rightarrow> Some (d, fx))
     | Error \<Rightarrow> Some (d, fx)
     | _ \<Rightarrow> lift_roles (ro_run R s (df_roles d) c fx))"

definition enter_state :: "('r, 'fx) Roles \<Rightarrow> 'fx Effects \<Rightarrow> State \<Rightarrow> 'r Dfu \<Rightarrow> 'fx \<Rightarrow> ('r Dfu \<times> 'fx) option" where
  "enter_state R E s d fx = (let c = df_core d in
     case s of
       Init \<Rightarrow> Some (d, fx)
     | Idle \<Rightarrow> Some (d\<lparr>df_core := c\<lparr>co_reboot_info := reboot_info_default\<rparr>\<rparr>, fx_lpm_peripheral_inactive E fx)
     | Error \<Rightarrow>
         let fx = fx_lpm_peripheral_inactive E fx;
             fx = (if co_notify c then fx_update_finished E False (co_error c) (co_client_node_id c) fx else fx);
             c = (if \<not> is_fatal (co_error c) then set_pending_state_change Idle c else c)
         in Some (d\<lparr>df_core := c\<rparr>, fx)
     | _ \<Rightarrow> lift_roles (ro_entry R s (df_roles d) c fx))"

definition exit_state :: "('r, 'fx) Roles \<Rightarrow> 'fx Effects \<Rightarrow> State \<Rightarrow> 'r Dfu \<Rightarrow> 'fx \<Rightarrow> ('r Dfu \<times> 'fx) option" where
  "exit_state R E s d fx =
     (case s of
        Init \<Rightarrow> Some (d, fx)
      | Error \<Rightarrow> Some (d, fx)
      | Idle \<Rightarrow> Some (d, fx_lpm_peripheral_active E fx)
      | _ \<Rightarrow> lift_roles (ro_exit R s (df_roles d) (df_core d) fx))"

definition lib_sm_run :: "('r, 'fx) Roles \<Rightarrow> 'fx Effects \<Rightarrow> 'r Dfu \<Rightarrow> 'fx \<Rightarrow> ('r Dfu \<times> 'fx) option" where
  "lib_sm_run R E d fx = do {
     let s = co_state (df_core d);
     (d, fx) \<leftarrow> run_state R s d fx;
     case co_pending (df_core d) of
       None \<Rightarrow> Some (d, fx)
     | Some next \<Rightarrow> do {
         let d = d\<lparr>df_core := (df_core d)\<lparr>co_pending := None\<rparr>\<rparr>;
         if next = s then Some (d, fx)
         else do {
           (d, fx) \<leftarrow> exit_state R E s d fx;
           enter_state R E next (d\<lparr>df_core := (df_core d)\<lparr>co_state := next\<rparr>\<rparr>) fx
         }
       }
   }"

definition run_event :: "('r, 'fx) Roles \<Rightarrow> 'fx Effects \<Rightarrow> Event \<Rightarrow> u32 \<Rightarrow> 'r Dfu \<Rightarrow> 'fx \<Rightarrow> ('r Dfu \<times> 'fx) option" where
  "run_event R E event now_ms d fx = do {
     let d = poll now_ms d;
     (d, fx) \<leftarrow> lib_sm_run R E (d\<lparr>df_core := (df_core d)\<lparr>co_current := event\<rparr>\<rparr>) fx;
     Some (d\<lparr>df_core := (df_core d)\<lparr>co_current := EVENT_NONE\<rparr>\<rparr>, fx)
   }"

definition dfu_pop :: "'r Dfu \<Rightarrow> ('r Dfu \<times> Event option) option" where
  "dfu_pop d = do {
     (q, e) \<leftarrow> queue_pop (co_queue (df_core d));
     Some (d\<lparr>df_core := (df_core d)\<lparr>co_queue := q\<rparr>\<rparr>, e)
   }"

definition dfu_step :: "('r, 'fx) Roles \<Rightarrow> 'fx Effects \<Rightarrow> u32 \<Rightarrow> 'r Dfu \<Rightarrow> 'fx \<Rightarrow> ('r Dfu \<times> 'fx \<times> EventType option) option" where
  "dfu_step R E now_ms d fx = do {
     (d, e) \<leftarrow> dfu_pop (poll now_ms d);
     case e of
       None \<Rightarrow> Some (d, fx, None)
     | Some event \<Rightarrow> do {
         (d, fx) \<leftarrow> run_event R E event now_ms d fx;
         Some (d, fx, Some (ev_kind event))
       }
   }"

section \<open>The reboot record is a fixed-length codec\<close>

definition reboot_info_wire :: "RebootInfo \<Rightarrow> bytes" where
  "reboot_info_wire i = to_le 4 (ri_magic i) @ [ri_major i, ri_minor i] @ to_le 8 (ri_host_node_id i) @ to_le 4 (ri_git_sha i)"

interpretation reboot: fixed_codec REBOOT_INFO_LEN reboot_info_encode reboot_info_decode reboot_info_wire
proof unfold_locales
  note [simp] = REBOOT_INFO_LEN_def
  show "length (reboot_info_wire i) = REBOOT_INFO_LEN" for i by (simp add: reboot_info_wire_def)
  show "reboot_info_encode i buf = Some (buf, Err Truncated)" if "length buf < REBOOT_INFO_LEN" for i buf
    using that by (simp add: reboot_info_encode_def)
  show "reboot_info_encode i buf = Some (put buf 0 (reboot_info_wire i), Ok ())"
    if "REBOOT_INFO_LEN \<le> length buf" for i buf
    using that by (simp add: reboot_info_encode_def reboot_info_wire_def buf_simps put_put_seq put_update_seq
        del: to_le_numeral)
  show "reboot_info_decode buf = Some (Err Truncated)" if "length buf < REBOOT_INFO_LEN" for buf
    using that by (simp add: reboot_info_decode_def buf_simps)
  show "reboot_info_decode (reboot_info_wire i @ rest) = Some (Ok i)" for i rest
    by (simp add: reboot_info_decode_def reboot_info_wire_def buf_simps nth_append del: to_le_numeral)
  show "\<exists>i. reboot_info_wire i = buf" if "length buf = REBOOT_INFO_LEN" for buf
    using that
    by (intro exI [of _ "\<lparr>ri_magic = from_le (subslice buf 0 4), ri_major = buf ! 4, ri_minor = buf ! 5,
          ri_host_node_id = from_le (subslice buf 6 8), ri_git_sha = from_le (subslice buf 14 4)\<rparr>"])
       (simp add: reboot_info_wire_def join_simps del: to_le_numeral)
qed

section \<open>The event queue is a bounded FIFO\<close>

lemma EVENT_QUEUE_LEN_5 [simp]: "EVENT_QUEUE_LEN = 5"
  by (simp add: EVENT_QUEUE_LEN_def)

interpretation eq: bounded_fifo wf_queue queue_iter EVENT_QUEUE_LEN queue_push queue_pop
proof unfold_locales
  fix q :: EventQueue and x :: Event and xs :: "Event list"
  assume wf: "wf_queue q"
  have room: "0 < q_len q \<Longrightarrow> queue_iter q = q_slots q ! q_head q #
      ring ((q_slots q)[q_head q := EVENT_NONE]) 5 ((q_head q + 1) mod 5) (q_len q - 1)"
    using ring_pop [of "q_len q" 5 "q_head q" "q_slots q" EVENT_NONE] wf
    by (simp add: wf_queue_def queue_iter_def)
  show "length (queue_iter q) \<le> EVENT_QUEUE_LEN" using wf by (simp add: wf_queue_def queue_iter_def)
  show "length (queue_iter q) = EVENT_QUEUE_LEN \<Longrightarrow> queue_push x q = (q, False)"
    by (simp add: queue_push_def queue_iter_def)
  show "length (queue_iter q) < EVENT_QUEUE_LEN \<Longrightarrow>
      \<exists>q'. queue_push x q = (q', True) \<and> wf_queue q' \<and> queue_iter q' = queue_iter q @ [x]"
    using wf ring_push [of "q_len q" 5 "q_slots q" "q_head q" x]
    by (simp add: queue_push_def queue_iter_def wf_queue_def)
  show "queue_iter q = [] \<Longrightarrow> queue_pop q = Some (q, None)"
    by (cases "q_len q") (simp_all add: queue_pop_def queue_iter_def ring_def)
  show "queue_iter q = x # xs \<Longrightarrow> \<exists>q'. queue_pop q = Some (q', Some x) \<and> wf_queue q' \<and> queue_iter q' = xs"
    using wf room by (cases "q_len q") (auto simp: queue_pop_def queue_iter_def wf_queue_def buf_simps)
qed

lemma wf_queue_new [simp]: "wf_queue queue_new"
  by (simp add: wf_queue_def queue_new_def)

lemma queue_iter_new [simp]: "queue_iter queue_new = []"
  by (simp add: queue_iter_def queue_new_def)

definition push_all :: "Event list \<Rightarrow> EventQueue \<Rightarrow> EventQueue" where
  "push_all es q = fold (\<lambda>e q. fst (queue_push e q)) es q"

text \<open>The events whose body is within their array, so that reading it does not panic: the ones
  \<open>event_message\<close> makes and the ones without a body. A queue that holds only such events is
  \<open>queue_ok\<close>.\<close>

definition event_fits :: "Event \<Rightarrow> bool" where
  "event_fits e \<longleftrightarrow> (case ev_data e of DataMessage len bs \<Rightarrow> len \<le> length bs | _ \<Rightarrow> True)"

definition queue_ok :: "EventQueue \<Rightarrow> bool" where
  "queue_ok q \<longleftrightarrow> wf_queue q \<and> (\<forall>e\<in>set (queue_iter q). event_fits e)"

lemma event_fits_bare [simp]: "event_fits (event_bare k)" "event_fits EVENT_NONE"
  by (simp_all add: event_fits_def EVENT_NONE_def event_bare_def)

lemma event_fits_message: "event_message kind body = Ok e \<Longrightarrow> event_fits e"
  by (auto simp: event_message_def event_fits_def copy_at_def length_put split: option.splits if_splits)

lemma event_body_fits: "event_fits e \<Longrightarrow> \<exists>b. event_body e = Some b"
  by (cases "ev_data e") (simp_all add: event_fits_def event_body_def range_at_in)

lemma queue_ok_wf: "queue_ok q \<Longrightarrow> wf_queue q"
  by (simp add: queue_ok_def)

lemma queue_ok_push: "queue_ok q \<Longrightarrow> event_fits e \<Longrightarrow> queue_ok (fst (queue_push e q))"
  using eq.contents_push [of q e] eq.push_wf [of q e] set_take_subset [of 5 "queue_iter q @ [e]"]
  by (auto simp: queue_ok_def)

lemma queue_ok_push_all: "queue_ok q \<Longrightarrow> \<forall>e\<in>set es. event_fits e \<Longrightarrow> queue_ok (push_all es q)"
  by (induction es arbitrary: q) (auto simp: push_all_def queue_ok_push)

lemma queue_ok_pop:
  assumes "queue_ok q"
  shows "\<exists>q' e. queue_pop q = Some (q', e) \<and> queue_ok q' \<and> (\<forall>x. e = Some x \<longrightarrow> event_fits x)"
proof (cases "queue_iter q")
  case Nil
  then show ?thesis using assms eq.pop_empty [of q] by (auto simp: queue_ok_def)
next
  case (Cons x xs)
  then show ?thesis using assms eq.pop_first [of q x xs] by (auto simp: queue_ok_def)
qed

lemma queue_ok_new [simp]: "queue_ok queue_new"
  by (simp add: queue_ok_def)

section \<open>Firing the timers\<close>

lemma post_eq: "fst (post e c) = c\<lparr>co_queue := fst (queue_push e (co_queue c))\<rparr>"
  "snd (post e c) = snd (queue_push e (co_queue c))"
  by (simp_all add: post_def case_prod_beta)

text \<open>The loop takes the first of the earliest timers again and again; that is a stable sort.\<close>

lemma min_by_key_None [simp]: "min_by_key k xs = None \<longleftrightarrow> xs = []"
  by (cases xs) (auto split: option.splits)

lemma min_by_key_least: "min_by_key k xs = Some m \<Longrightarrow> x \<in> set xs \<Longrightarrow> k m \<le> k x"
  by (induction xs arbitrary: m) (auto split: option.splits if_splits; fastforce)+

lemma min_by_key_first:
  assumes "min_by_key k xs = Some m"
  shows "\<exists>ys zs. xs = ys @ m # zs \<and> (\<forall>y\<in>set ys. k m < k y)"
  using assms
proof (induction xs arbitrary: m)
  case (Cons x xs)
  show ?case
  proof (cases "min_by_key k xs")
    case None
    with Cons.prems show ?thesis by (intro exI [of _ "[]"]) auto
  next
    case (Some y)
    then obtain ys zs where *: "xs = ys @ y # zs" "\<forall>z\<in>set ys. k y < k z" using Cons.IH by blast
    show ?thesis
    proof (cases "k y < k x")
      case True
      with Cons.prems Some * show ?thesis by (intro exI [of _ "x # ys"] exI [of _ zs]) auto
    next
      case False
      with Cons.prems Some show ?thesis by (intro exI [of _ "[]"] exI [of _ xs]) auto
    qed
  qed
qed simp

lemma sort_key_min_by_key:
  assumes "min_by_key k xs = Some m"
  shows "sort_key k xs = m # sort_key k (remove1 m xs)"
proof (rule properties_for_sort_key)
  obtain ys zs where xs: "xs = ys @ m # zs" and ys: "\<forall>y\<in>set ys. k m < k y"
    using min_by_key_first [OF assms] by blast
  then have r: "remove1 m xs = ys @ zs" by (auto simp: remove1_append)
  show "mset (m # sort_key k (remove1 m xs)) = mset xs" using r xs by simp
  show "sorted (map k (m # sort_key k (remove1 m xs)))"
    using min_by_key_least [OF assms] by (auto dest: notin_set_remove1)
  show "filter (\<lambda>x. k j = k x) (m # sort_key k (remove1 m xs)) = filter (\<lambda>x. k j = k x) xs"
    if "j \<in> set (m # sort_key k (remove1 m xs))" for j
  proof -
    have "filter (\<lambda>x. k j = k x) (sort_key k (remove1 m xs)) = filter (\<lambda>x. k j = k x) (ys @ zs)"
      unfolding r using sort_key_stable [of k "k j" "ys @ zs"] by (simp add: eq_commute)
    moreover have "k j = k m \<Longrightarrow> filter (\<lambda>x. k j = k x) ys = []"
      using ys by (auto simp: filter_empty_conv)
    ultimately show ?thesis by (auto simp: xs)
  qed
qed

lemma insort_key_agree: "f x = g x \<Longrightarrow> (\<And>y. y \<in> set xs \<Longrightarrow> f y = g y) \<Longrightarrow> insort_key f x xs = insort_key g x xs"
  by (induction xs) auto

lemma sort_key_agree: "(\<And>x. x \<in> set xs \<Longrightarrow> f x = g x) \<Longrightarrow> sort_key f xs = sort_key g xs"
  by (induction xs) (auto intro!: insort_key_agree)

definition due_timers :: "u32 \<Rightarrow> Core \<Rightarrow> Timer list" where
  "due_timers now c = sort_key (timer_key now c) (filter (timer_due now c) TIMER_ALL)"

definition clear_due :: "u32 \<Rightarrow> Core \<Rightarrow> Core" where
  "clear_due now c = c\<lparr>co_timers := \<lambda>t. if timer_due now c t then None else co_timers c t\<rparr>"

lemma distinct_TIMER_ALL [simp]: "distinct TIMER_ALL"
  by (simp add: TIMER_ALL_def)

lemma due_timers_Cons:
  assumes "next_due now c = Some t"
  shows "due_timers now c = t # due_timers now (stop_timer t c)"
proof -
  let ?c = "stop_timer t c" and ?L = "filter (timer_due now c) TIMER_ALL"
  have "filter (timer_due now ?c) TIMER_ALL = filter (\<lambda>x. x \<noteq> t) ?L"
    by (auto simp: timer_due_def stop_timer_def split: if_splits intro!: filter_cong)
  then have "filter (timer_due now ?c) TIMER_ALL = remove1 t ?L"
    by (simp add: distinct_remove1_removeAll removeAll_filter_not_eq eq_commute [of t] del: filter_filter)
  moreover have "sort_key (timer_key now c) (remove1 t ?L) = sort_key (timer_key now ?c) (remove1 t ?L)"
    by (rule sort_key_agree) (auto simp: timer_key_def stop_timer_def)
  moreover have "min_by_key (timer_key now c) ?L = Some t" using assms by (simp add: next_due_def)
  ultimately show ?thesis by (simp add: due_timers_def sort_key_min_by_key)
qed

lemma due_timers_Nil: "next_due now c = None \<Longrightarrow> due_timers now c = [] \<and> clear_due now c = c"
proof -
  assume "next_due now c = None"
  then have f: "filter (timer_due now c) TIMER_ALL = []" by (simp add: next_due_def)
  have "\<not> timer_due now c t" for t
    using f by (cases t) (auto simp: TIMER_ALL_def filter_empty_conv split: if_splits)
  with f show ?thesis by (simp add: due_timers_def clear_due_def)
qed

lemma due_timers_queue [simp]: "due_timers now (c\<lparr>co_queue := q\<rparr>) = due_timers now c"
  "clear_due now (c\<lparr>co_queue := q\<rparr>) = (clear_due now c)\<lparr>co_queue := q\<rparr>"
  by (simp_all add: due_timers_def clear_due_def timer_due_def [abs_def] timer_key_def [abs_def] cong: if_cong)

lemma clear_due_stop: "next_due now c = Some t \<Longrightarrow> clear_due now (stop_timer t c) = clear_due now c"
  unfolding next_due_def by (drule min_by_key_mem) (auto simp: clear_due_def stop_timer_def timer_due_def fun_eq_iff)

lemma fire_loop_eq:
  "fire_loop now c = (clear_due now c)\<lparr>co_queue :=
     push_all (map (\<lambda>t. event_bare (timer_event t)) (due_timers now c)) (co_queue c)\<rparr>"
proof (induction now c rule: fire_loop.induct)
  case (1 now c)
  show ?case
  proof (cases "next_due now c")
    case None
    then show ?thesis using due_timers_Nil [OF None] by (simp add: fire_loop.simps [of now c] push_all_def)
  next
    case (Some t)
    then show ?thesis
      using 1 due_timers_Cons [OF Some] clear_due_stop [OF Some]
      by (simp add: fire_loop.simps [of now c] post_eq push_all_def) (simp add: stop_timer_def)
  qed
qed

lemma fire_due_fields [simp]:
  "co_state (fire_due c) = co_state c" "co_current (fire_due c) = co_current c"
  "co_pending (fire_due c) = co_pending c" "co_error (fire_due c) = co_error c"
  "co_self_node_id (fire_due c) = co_self_node_id c" "co_client_node_id (fire_due c) = co_client_node_id c"
  "co_notify (fire_due c) = co_notify c" "co_internal (fire_due c) = co_internal c"
  "co_reboot_info (fire_due c) = co_reboot_info c" "co_clock (fire_due c) = co_clock c"
  "co_periods (fire_due c) = co_periods c"
  by (simp_all add: fire_due_def fire_loop_eq clear_due_def)

lemma wf_fire_due [simp]: "wf_queue (co_queue c) \<Longrightarrow> wf_queue (co_queue (fire_due c))"
  by (simp add: fire_due_def fire_loop_eq push_all_def eq.push_all_wf)

lemma queue_ok_fire_due [simp]: "queue_ok (co_queue c) \<Longrightarrow> queue_ok (co_queue (fire_due c))"
  by (simp add: fire_due_def fire_loop_eq queue_ok_push_all)

lemma queue_fire_due:
  "wf_queue (co_queue c) \<Longrightarrow> queue_iter (co_queue (fire_due c)) =
     take 5 (queue_iter (co_queue c) @ map (\<lambda>t. event_bare (timer_event t)) (due_timers (core_now c) c))"
  using eq.contents_push_all by (simp add: fire_due_def fire_loop_eq push_all_def)

section \<open>What the core's operations keep\<close>

text \<open>The core as the roles may leave it: the queue well-formed, its events still fitting, and the
  fields only the machine writes unchanged.\<close>

definition core_keeps :: "Core \<Rightarrow> Core \<Rightarrow> bool" where
  "core_keeps c c' \<longleftrightarrow> (wf_queue (co_queue c) \<longrightarrow> wf_queue (co_queue c')) \<and>
     (queue_ok (co_queue c) \<longrightarrow> queue_ok (co_queue c')) \<and> co_state c' = co_state c \<and>
     co_self_node_id c' = co_self_node_id c \<and> co_current c' = co_current c \<and> co_internal c' = co_internal c"

lemma core_keeps_refl [simp]: "core_keeps c c"
  by (simp add: core_keeps_def)

lemma core_keeps_trans: "core_keeps a b \<Longrightarrow> core_keeps b c \<Longrightarrow> core_keeps a c"
  by (auto simp: core_keeps_def)

lemma core_keeps_ops:
  assumes "core_keeps a c"
  shows "event_fits e \<Longrightarrow> core_keeps a (fst (post e c))" "core_keeps a (set_pending_state_change s c)" "core_keeps a (set_error err c)"
    "core_keeps a (start_timer t c)" "core_keeps a (change_period t p c)" "core_keeps a (stop_timer t c)"
    "core_keeps a (delay ms c)" "core_keeps a (advance_to now c)" "core_keeps a (c\<lparr>co_reboot_info := ri\<rparr>)"
  using assms
  by (simp_all add: core_keeps_def post_eq queue_ok_push set_pending_state_change_def set_error_def start_timer_def
      change_period_def stop_timer_def delay_def advance_to_def)

lemma advance_to_pending [simp]: "co_pending (advance_to now c) = co_pending c"
  by (simp add: advance_to_def)

lemma set_pending_fields [simp]:
  "co_pending (set_pending_state_change s c) = Some s" "co_state (set_pending_state_change s c) = co_state c"
  "co_error (set_pending_state_change s c) = co_error c" "co_timers (set_pending_state_change s c) = co_timers c"
  "co_reboot_info (set_pending_state_change s c) = co_reboot_info c"
  by (simp_all add: set_pending_state_change_def post_eq)

section \<open>The contract of the roles, and what the machine makes of it\<close>

definition role_ok :: "('r \<Rightarrow> bool) \<Rightarrow> Core \<Rightarrow> ('r \<times> Core \<times> 'fx) option \<Rightarrow> bool" where
  "role_ok P c res \<longleftrightarrow> (\<exists>r' c' fx'. res = Some (r', c', fx') \<and> P r' \<and> core_keeps c c')"

definition machine_ok :: "('r \<Rightarrow> bool) \<Rightarrow> 'r Dfu \<Rightarrow> bool" where
  "machine_ok rinv d \<longleftrightarrow> queue_ok (co_queue (df_core d)) \<and> event_fits (co_current (df_core d)) \<and> rinv (df_roles d)"

text \<open>The moves of a machine in its environment: a body arrives, an update is started, the clock is
  read, an event is run.\<close>

inductive dfu_move :: "('r, 'fx) Roles \<Rightarrow> 'fx Effects \<Rightarrow> 'r Dfu \<times> 'fx \<Rightarrow> 'r Dfu \<times> 'fx \<Rightarrow> bool"
  for R :: "('r, 'fx) Roles" and E :: "'fx Effects" where
  message: "on_message R body d = Some (d', a) \<Longrightarrow> dfu_move R E (d, fx) (d', fx)"
| initiate: "initiate_update E info dst notify timeout internal d fx = (d', fx', ok) \<Longrightarrow> dfu_move R E (d, fx) (d', fx')"
| polled: "dfu_move R E (d, fx) (poll now d, fx)"
| stepped: "dfu_step R E now d fx = Some (d', fx', k) \<Longrightarrow> dfu_move R E (d, fx) (d', fx')"

inductive_cases dfu_moveE: "dfu_move R E (d, fx) (d', fx')"

locale dfu_roles =
  fixes R :: "('r, 'fx) Roles"
    and E :: "'fx Effects"
    and rinv :: "'r \<Rightarrow> bool"
  assumes entry: "rinv r \<Longrightarrow> event_fits (co_current c) \<Longrightarrow> role_ok rinv c (ro_entry R s r c fx)"
    and run: "rinv r \<Longrightarrow> event_fits (co_current c) \<Longrightarrow> role_ok rinv c (ro_run R s r c fx)"
    and exit: "rinv r \<Longrightarrow> event_fits (co_current c) \<Longrightarrow> role_ok rinv c (ro_exit R s r c fx)"
    and request: "rinv r \<Longrightarrow> event_fits (co_current c) \<Longrightarrow> role_ok rinv c (ro_client_process_update_request R r c fx)"
    and set_params: "rinv r \<Longrightarrow> rinv (ro_host_set_params R notify timeout r)"
begin

lemma lift_roles_ok:
  "role_ok rinv (df_core d) res \<Longrightarrow> machine_ok rinv d \<Longrightarrow>
   \<exists>d' fx'. lift_roles res = Some (d', fx') \<and> machine_ok rinv d' \<and> core_keeps (df_core d) (df_core d')"
  by (auto simp: role_ok_def lift_roles_def machine_ok_def core_keeps_def)

lemma machine_ok_core: "machine_ok rinv d \<Longrightarrow> core_keeps (df_core d) c \<Longrightarrow> machine_ok rinv (d\<lparr>df_core := c\<rparr>)"
  by (simp add: machine_ok_def core_keeps_def)

lemma run_state_ok:
  assumes "machine_ok rinv d"
  shows "\<exists>d' fx'. run_state R s d fx = Some (d', fx') \<and> machine_ok rinv d' \<and> core_keeps (df_core d) (df_core d')"
proof -
  have "rinv (df_roles d)" "event_fits (co_current (df_core d))" using assms by (simp_all add: machine_ok_def)
  note lift_roles_ok [OF run [OF this] assms] lift_roles_ok [OF request [OF this] assms]
  then show ?thesis using assms set_params [of "df_roles d"]
    by (cases s; cases "ev_kind (co_current (df_core d))"; cases "ev_data (co_current (df_core d))")
       (auto simp: run_state_def Let_def core_keeps_ops machine_ok_def core_keeps_def set_pending_state_change_def post_eq queue_ok_push)
qed

lemma enter_state_ok:
  assumes "machine_ok rinv d"
  shows "\<exists>d' fx'. enter_state R E s d fx = Some (d', fx') \<and> machine_ok rinv d' \<and> core_keeps (df_core d) (df_core d')"
proof -
  have "rinv (df_roles d)" "event_fits (co_current (df_core d))" using assms by (simp_all add: machine_ok_def)
  note lift_roles_ok [OF entry [OF this] assms]
  then show ?thesis using assms by (cases s) (auto simp: enter_state_def Let_def core_keeps_ops machine_ok_core)
qed

lemma exit_state_ok:
  assumes "machine_ok rinv d"
  shows "\<exists>d' fx'. exit_state R E s d fx = Some (d', fx') \<and> machine_ok rinv d' \<and> core_keeps (df_core d) (df_core d')"
proof -
  have "rinv (df_roles d)" "event_fits (co_current (df_core d))" using assms by (simp_all add: machine_ok_def)
  note lift_roles_ok [OF exit [OF this] assms]
  then show ?thesis using assms by (cases s) (auto simp: exit_state_def)
qed

lemma lib_sm_run_ok:
  assumes "machine_ok rinv d"
  shows "\<exists>d' fx'. lib_sm_run R E d fx = Some (d', fx') \<and> machine_ok rinv d'"
proof -
  let ?s = "co_state (df_core d)"
  obtain d1 fx1 where run: "run_state R ?s d fx = Some (d1, fx1)" and 1: "machine_ok rinv d1"
    using run_state_ok [OF assms] by blast
  show ?thesis
  proof (cases "co_pending (df_core d1)")
    case None
    with run 1 show ?thesis by (simp add: lib_sm_run_def)
  next
    case (Some nx)
    let ?d = "d1\<lparr>df_core := (df_core d1)\<lparr>co_pending := None\<rparr>\<rparr>"
    have "machine_ok rinv ?d" using 1 by (simp add: machine_ok_def)
    then obtain d2 fx2 where exit: "exit_state R E ?s ?d fx1 = Some (d2, fx2)" and 2: "machine_ok rinv d2"
      using exit_state_ok by blast
    let ?e = "d2\<lparr>df_core := (df_core d2)\<lparr>co_state := nx\<rparr>\<rparr>"
    have "machine_ok rinv ?e" using 2 by (simp add: machine_ok_def)
    then obtain d3 fx3 where "enter_state R E nx ?e fx2 = Some (d3, fx3)" "machine_ok rinv d3"
      using enter_state_ok by blast
    with run Some exit \<open>machine_ok rinv ?d\<close> show ?thesis by (simp add: lib_sm_run_def Let_def)
  qed
qed

lemma poll_ok: "machine_ok rinv d \<Longrightarrow> machine_ok rinv (poll now d)"
  using core_keeps_ops(8) [OF core_keeps_refl] by (simp add: machine_ok_def poll_def core_keeps_def)

lemma run_event_ok:
  assumes "machine_ok rinv d" "event_fits e"
  shows "\<exists>d' fx'. run_event R E e now d fx = Some (d', fx') \<and> machine_ok rinv d'"
proof -
  let ?d = "(poll now d)\<lparr>df_core := (df_core (poll now d))\<lparr>co_current := e\<rparr>\<rparr>"
  have "machine_ok rinv ?d" using poll_ok [OF assms(1)] assms(2) by (simp add: machine_ok_def)
  then show ?thesis using lib_sm_run_ok [of ?d fx] by (fastforce simp: run_event_def machine_ok_def)
qed

lemma step_ok:
  assumes "machine_ok rinv d"
  shows "\<exists>d' fx' k. dfu_step R E now d fx = Some (d', fx', k) \<and> machine_ok rinv d'"
proof -
  have p: "machine_ok rinv (poll now d)" using poll_ok [OF assms] .
  then obtain q r where q: "queue_pop (co_queue (df_core (poll now d))) = Some (q, r)" "queue_ok q"
    and r: "\<forall>e. r = Some e \<longrightarrow> event_fits e"
    using queue_ok_pop [of "co_queue (df_core (poll now d))"] by (auto simp: machine_ok_def)
  let ?d = "(poll now d)\<lparr>df_core := (df_core (poll now d))\<lparr>co_queue := q\<rparr>\<rparr>"
  have d: "machine_ok rinv ?d" using p q by (simp add: machine_ok_def)
  show ?thesis
  proof (cases r)
    case None
    with q d show ?thesis by (simp add: dfu_step_def dfu_pop_def)
  next
    case (Some e)
    with q r run_event_ok [OF d, of e now fx] show ?thesis by (auto simp: dfu_step_def dfu_pop_def)
  qed
qed

lemma on_message_ok:
  assumes "machine_ok rinv d"
  shows "\<exists>d' a. on_message R body d = Some (d', a) \<and> machine_ok rinv d'"
proof -
  obtain r where r: "dfu_address_of_body body = Some r" using dfu_address_of_body_total [of body] by blast
  show ?thesis
  proof (cases r)
    case (Ok address)
    then have "17 \<le> length body" using r dfu_address_of_body_Ok by blast
    then have "get_at body 0 = Some (body ! 0)" by (auto simp: get_at_def)
    with r Ok assms show ?thesis
      by (auto simp: on_message_def machine_ok_def post_def case_prod_beta queue_ok_push event_fits_message
          split: option.splits result.splits)
  next
    case (Err e)
    with r assms show ?thesis by (simp add: on_message_def)
  qed
qed

lemma initiate_update_ok:
  assumes "machine_ok rinv d" "initiate_update E info dst notify timeout internal d fx = (d', fx', ok)"
  shows "machine_ok rinv d'"
  using assms by (auto simp: initiate_update_def machine_ok_def Let_def post_def case_prod_beta queue_ok_push event_fits_def
      split: if_splits)

lemma move_ok:
  assumes "dfu_move R E x y" "machine_ok rinv (fst x)"
  shows "machine_ok rinv (fst y)"
  using assms
proof (cases rule: dfu_move.cases)
  case (message body d d' a fx)
  with on_message_ok [of d body] assms show ?thesis by auto
next
  case (stepped now d fx d' fx' k)
  with step_ok [of d now fx] assms show ?thesis by auto
qed (auto simp: poll_ok initiate_update_ok)

lemma reachable_ok: "(dfu_move R E)\<^sup>*\<^sup>* x y \<Longrightarrow> machine_ok rinv (fst x) \<Longrightarrow> machine_ok rinv (fst y)"
  by (induction rule: rtranclp_induct) (auto intro: move_ok)

lemma new_ok: "rinv r \<Longrightarrow> machine_ok rinv (dfu_new self info r)"
  by (simp add: machine_ok_def dfu_new_def queue_ok_push)

text \<open>No run of the machine panics, whatever arrives and whenever the clock is read.\<close>

lemma never_panics:
  assumes "(dfu_move R E)\<^sup>*\<^sup>* (dfu_new self info r, fx0) (d, fx)" "rinv r"
  shows "dfu_step R E now d fx \<noteq> None" "on_message R body d \<noteq> None" "length (queue_iter (co_queue (df_core d))) \<le> 5"
proof -
  have d: "machine_ok rinv d" using reachable_ok [OF assms(1)] new_ok [OF assms(2)] by simp
  show "dfu_step R E now d fx \<noteq> None" using step_ok [OF d, of now fx] by auto
  show "on_message R body d \<noteq> None" using on_message_ok [OF d, of body] by auto
  show "length (queue_iter (co_queue (df_core d))) \<le> 5" using d eq.bounded by (simp add: machine_ok_def queue_ok_def)
qed

end

section \<open>Properties\<close>

text \<open>Effects and roles for the examples below: messages sent are logged, every flash operation
  succeeds, the roles do nothing and accept node 2.\<close>

definition sample_effects :: "DfuMessage list Effects" where
  "sample_effects = \<lparr>fx_send = (\<lambda>m fx. m # fx), fx_lpm_peripheral_active = (\<lambda>fx. fx),
     fx_lpm_peripheral_inactive = (\<lambda>fx. fx), fx_update_finished = (\<lambda>_ _ _ fx. fx), fx_flash_open = (\<lambda>fx. (True, fx)),
     fx_flash_close = (\<lambda>fx. (True, fx)), fx_flash_size = (\<lambda>fx. (65536, fx)), fx_flash_erase = (\<lambda>_ _ fx. (True, fx)),
     fx_flash_write = (\<lambda>_ _ fx. (True, fx)), fx_host_get_chunk = (\<lambda>_ n fx. (True, replicate n 0, fx)),
     fx_set_confirmed = (\<lambda>fx. fx), fx_set_pending_and_reset = (\<lambda>fx. fx), fx_fail_update_and_reset = (\<lambda>fx. fx),
     fx_git_sha = (\<lambda>_. 0), fx_get_uint = (\<lambda>_ _ _. None), fx_set_uint = (\<lambda>_ _ _ fx. fx),
     fx_commit_config = (\<lambda>_ fx. (True, fx))\<rparr>"

definition sample_roles :: "(unit, DfuMessage list) Roles" where
  "sample_roles = \<lparr>ro_entry = (\<lambda>_ r c fx. Some (r, c, fx)), ro_run = (\<lambda>_ r c fx. Some (r, c, fx)),
     ro_exit = (\<lambda>_ r c fx. Some (r, c, fx)), ro_client_process_update_request = (\<lambda>r c fx. Some (r, c, fx)),
     ro_host_set_params = (\<lambda>_ _ r. r), ro_client_host_node_valid = (\<lambda>n _. n = 2),
     ro_host_client_node_valid = (\<lambda>n _. n = 2)\<rparr>"

definition sample_dfu :: "unit Dfu" where
  "sample_dfu = dfu_new 1 reboot_info_default ()"

lemma sample_queue: "queue_iter (co_queue (df_core sample_dfu)) = [event_bare EvInitSuccess]"
  "wf_queue (co_queue (df_core sample_dfu))"
  by (simp_all add: sample_dfu_def dfu_new_def eq.contents_push)

lemma MAX_EVENT_BODY_LEN_eq [simp]: "MAX_EVENT_BODY_LEN = 1447"
  by (simp add: MAX_EVENT_BODY_LEN_def)

lemma event_message_eq:
  "length body \<le> 1447 \<Longrightarrow> \<exists>e. event_message kind body = Ok e \<and> ev_kind e = kind \<and> event_body e = Some (Some body)"
  "1447 < length body \<Longrightarrow> event_message kind body = Err Invalid"
  by (simp_all add: event_message_def copy_at_def event_body_def put_0 range_at_def subslice_def)

text \<open>Where a body that is refused is refused, and what the one that is not becomes.\<close>

lemma on_message_eq:
  assumes "dfu_address_of_body body = Some (Ok a)"
  shows "on_message R body d =
    (if dst_node_id a \<noteq> co_self_node_id (df_core d) then Some (d, NotForUs)
     else if \<not> peer_valid R (src_node_id a) d then Some (d, WrongPeer)
     else case for_frame_type (body ! 0) of
       None \<Rightarrow> Some (d, UnknownType)
     | Some k \<Rightarrow> (case event_message k body of
         Err _ \<Rightarrow> Some (d, TooLong)
       | Ok e \<Rightarrow> Some (d\<lparr>df_core := fst (post e (df_core d))\<rparr>, if snd (post e (df_core d)) then Queued k else QueueFull)))"
proof -
  have "get_at body 0 = Some (body ! 0)" using dfu_address_of_body_Ok [OF assms] by (auto simp: get_at_def)
  with assms show ?thesis by (simp add: on_message_def case_prod_beta Let_def split: option.split result.split)
qed

lemma post_full: "wf_queue (co_queue c) \<Longrightarrow> \<not> snd (post e c) \<Longrightarrow> fst (post e c) = c"
  using eq.push_accepts eq.push_full eq.bounded by (fastforce simp: post_eq)

lemma post_room:
  "wf_queue (co_queue c) \<Longrightarrow> snd (post e c) \<Longrightarrow> queue_iter (co_queue (fst (post e c))) = queue_iter (co_queue c) @ [e]"
  using eq.push_accepts [of "co_queue c" e] eq.push_room [of "co_queue c" e] by (auto simp: post_eq)

lemma on_message_queue_only:
  assumes "on_message R body d = Some (d', a)"
  shows "df_roles d' = df_roles d \<and> co_state (df_core d') = co_state (df_core d) \<and>
    co_pending (df_core d') = co_pending (df_core d) \<and> co_error (df_core d') = co_error (df_core d)"
proof -
  obtain r where r: "dfu_address_of_body body = Some r" using dfu_address_of_body_total [of body] by blast
  show ?thesis
  proof (cases r)
    case (Ok address)
    with assms on_message_eq [of body address R d] r show ?thesis
      by (auto simp: post_eq split: if_splits option.splits result.splits)
  next
    case (Err e)
    with r assms show ?thesis by (simp add: on_message_def)
  qed
qed

text \<open>Property C36. Firing the timers always terminates. It posts exactly one event for every timer that is
  due, in the order of their deadlines and for equal deadlines in the order of the timers,
  behind the events already queued and as far as the queue of five has room; it stops exactly
  the due timers and leaves every other field of the core as it was. Deadlines are compared
  modulo the wrap of the 32-bit clock.\<close>

theorem fire_due_posts_in_deadline_order:
  assumes "wf_queue (co_queue c)"
  defines "due \<equiv> sort_key (timer_key (core_now c) c) (filter (timer_due (core_now c) c) [Chunk, Ack, Update])"
  shows "\<exists>q. wf_queue q \<and> queue_iter q = take 5 (queue_iter (co_queue c) @ map (\<lambda>t. event_bare (timer_event t)) due) \<and>
    fire_due c = c\<lparr>co_timers := \<lambda>t. if timer_due (core_now c) c t then None else co_timers c t, co_queue := q\<rparr>"
proof -
  let ?q = "co_queue (fire_due c)"
  have "due_timers (core_now c) c = due" by (simp add: due_def due_timers_def TIMER_ALL_def)
  moreover have "fire_due c = (clear_due (core_now c) c)\<lparr>co_queue := ?q\<rparr>" by (simp add: fire_due_def fire_loop_eq)
  ultimately show ?thesis
    using wf_fire_due [OF assms(1)] queue_fire_due [OF assms(1)] by (auto simp: clear_due_def)
qed

theorem fire_due_posts_in_deadline_order_witness:
  "queue_iter (co_queue (fire_due ((df_core sample_dfu)\<lparr>co_clock := Some 10,
     co_timers := (\<lambda>t. case t of Chunk \<Rightarrow> Some 4 | Ack \<Rightarrow> Some 0xFFFFFFF0 | Update \<Rightarrow> Some 4)\<rparr>))) =
   map event_bare [EvInitSuccess, EvAckTimeout, EvChunkTimeout, EvAbort]"
  using fire_due_posts_in_deadline_order [of "(df_core sample_dfu)\<lparr>co_clock := Some 10,
     co_timers := (\<lambda>t. case t of Chunk \<Rightarrow> Some 4 | Ack \<Rightarrow> Some 0xFFFFFFF0 | Update \<Rightarrow> Some 4)\<rparr>"]
  by (auto simp: sample_queue core_now_def timer_due_def timer_key_def)

text \<open>A received body is queued only if it is addressed to this node, comes from the peer of the
  update under way (any node when none is), carries a known type byte, fits an event and finds
  room in the queue; it then waits behind the events already queued, with the type its first
  byte names and the body as received. In every other case the machine is unchanged.\<close>

theorem on_message_queues_only_valid:
  assumes "on_message R body d = Some (d', a)" "wf_queue (co_queue (df_core d))"
  shows "(\<exists>k address e. a = Queued k \<and> dfu_address_of_body body = Some (Ok address) \<and>
      dst_node_id address = co_self_node_id (df_core d) \<and> peer_valid R (src_node_id address) d \<and>
      for_frame_type (body ! 0) = Some k \<and> length body \<le> 1447 \<and> ev_kind e = k \<and> event_body e = Some (Some body) \<and>
      queue_iter (co_queue (df_core d')) = queue_iter (co_queue (df_core d)) @ [e] \<and>
      d' = d\<lparr>df_core := (df_core d)\<lparr>co_queue := co_queue (df_core d')\<rparr>\<rparr>) \<or>
    (\<forall>k. a \<noteq> Queued k) \<and> d' = d"
proof -
  obtain r where r: "dfu_address_of_body body = Some r" using dfu_address_of_body_total [of body] by blast
  show ?thesis
  proof (cases r)
    case (Ok address)
    note eq = on_message_eq [OF r [unfolded Ok], of R d]
    show ?thesis
    proof (cases "\<exists>k. a = Queued k")
      case True
      then obtain k e where *: "a = Queued k" "dst_node_id address = co_self_node_id (df_core d)"
        "peer_valid R (src_node_id address) d" "for_frame_type (body ! 0) = Some k" "event_message k body = Ok e"
        "snd (post e (df_core d))" "d' = d\<lparr>df_core := fst (post e (df_core d))\<rparr>"
        using assms(1) eq by (auto split: if_splits option.splits result.splits)
      moreover have "length body \<le> 1447" using * event_message_eq(2) [of body k] by (cases "1447 < length body") auto
      moreover have "ev_kind e = k" "event_body e = Some (Some body)"
        using * event_message_eq(1) [OF \<open>length body \<le> 1447\<close>, of k] by auto
      moreover have "queue_iter (co_queue (df_core d')) = queue_iter (co_queue (df_core d)) @ [e]"
        using post_room [OF assms(2)] * by simp
      ultimately show ?thesis using r Ok by (auto simp: post_eq)
    next
      case False
      then show ?thesis using assms eq post_full [OF assms(2)] by (auto split: if_splits option.splits result.splits)
    qed
  next
    case (Err e)
    with r assms(1) show ?thesis by (simp add: on_message_def)
  qed
qed

theorem on_message_queues_only_valid_witness:
  "\<exists>d'. on_message sample_roles (dfu_wire (DHeartbeat \<lparr>src_node_id = 2, dst_node_id = 1\<rparr>)) sample_dfu =
      Some (d', Queued EvHeartbeat) \<and> length (queue_iter (co_queue (df_core d'))) = 2"
proof -
  let ?a = "\<lparr>src_node_id = 2, dst_node_id = 1\<rparr>" and ?b = "dfu_wire (DHeartbeat \<lparr>src_node_id = 2, dst_node_id = 1\<rparr>)"
  have a: "dfu_address_of_body ?b = Some (Ok ?a)"
    using dfu_address_of_wire [of _ ?a "[]"] by (simp add: dfu_wire_def)
  have h: "for_frame_type (?b ! 0) = Some EvHeartbeat" by (simp add: dfu_wire_def for_frame_type_def message_type_defs)
  have "length ?b \<le> 1447" by (simp add: length_dfu_wire)
  from event_message_eq(1) [OF this] obtain e where e: "event_message EvHeartbeat ?b = Ok e" by blast
  have self: "co_self_node_id (df_core sample_dfu) = 1" "peer_valid sample_roles 2 sample_dfu"
    by (simp_all add: sample_dfu_def dfu_new_def peer_valid_def is_client_def is_host_def)
  have "snd (post e (df_core sample_dfu))" using eq.push_accepts [OF sample_queue(2)] sample_queue(1) by (simp add: post_eq)
  then have m: "on_message sample_roles ?b sample_dfu =
      Some (sample_dfu\<lparr>df_core := fst (post e (df_core sample_dfu))\<rparr>, Queued EvHeartbeat)"
    using on_message_eq [OF a, of sample_roles sample_dfu] h e self by simp
  from on_message_queues_only_valid [OF m sample_queue(2)] sample_queue(1) m show ?thesis by auto
qed

lemma advance_to_fields [simp]: "co_state (advance_to now c) = co_state c" "co_error (advance_to now c) = co_error c"
  by (simp_all add: advance_to_def)

lemma error_run:
  assumes "co_state (df_core d) = Error" "co_pending (df_core d) = None"
  shows "run_event R E e now d fx =
    Some (d\<lparr>df_core := (advance_to now (df_core d))\<lparr>co_current := EVENT_NONE\<rparr>\<rparr>, fx)"
  using assms by (simp add: run_event_def lib_sm_run_def run_state_def poll_def)

lemma error_step:
  assumes "co_state (df_core d) = Error" "co_pending (df_core d) = None"
  shows "dfu_step R E now d fx = dfu_step R' E now d fx \<and>
    (\<forall>d' fx' k. dfu_step R E now d fx = Some (d', fx', k) \<longrightarrow> co_state (df_core d') = Error \<and> co_pending (df_core d') = None \<and>
       co_error (df_core d') = co_error (df_core d) \<and> df_roles d' = df_roles d \<and> fx' = fx)"
proof (cases "dfu_pop (poll now d)")
  case None
  then show ?thesis by (simp add: dfu_step_def)
next
  case (Some x)
  obtain d1 e where x: "x = (d1, e)" by (cases x)
  have d1: "co_state (df_core d1) = Error" "co_pending (df_core d1) = None" "co_error (df_core d1) = co_error (df_core d)"
      "df_roles d1 = df_roles d"
    using Some x assms by (auto simp: dfu_pop_def poll_def bind_eq_Some_conv)
  show ?thesis
  proof (cases e)
    case None
    with Some x d1 show ?thesis by (simp add: dfu_step_def)
  next
    case e: (Some ev)
    with Some x d1 show ?thesis by (simp add: dfu_step_def error_run)
  qed
qed

lemma error_move:
  assumes "dfu_move R E x y" "co_state (df_core (fst x)) = Error" "co_pending (df_core (fst x)) = None"
  shows "co_state (df_core (fst y)) = Error \<and> co_pending (df_core (fst y)) = None \<and>
    co_error (df_core (fst y)) = co_error (df_core (fst x)) \<and> df_roles (fst y) = df_roles (fst x)"
  using assms
proof (cases rule: dfu_move.cases)
  case (message body d d' a fx)
  then show ?thesis using assms(2,3) on_message_queue_only [of R body d d' a] by simp
next
  case (initiate info dst notify timeout internal d fx d' fx' ok)
  then show ?thesis using assms(2,3) by (auto simp: initiate_update_def split: if_splits)
next
  case (polled d fx now)
  then show ?thesis using assms(2,3) by (simp add: poll_def)
next
  case (stepped now d fx d' fx' k)
  then show ?thesis using assms(2,3) error_step [of d R E now fx R] by simp
qed

text \<open>Any lesser error is recovered from: the next event the machine runs, whatever it is,
  takes it back to the idle state; there always is one, the change to idle having queued a
  no-op unless the queue was full. Being idle clears what a reboot would have kept.\<close>

theorem lesser_error_recovers:
  assumes "enter_state R E Error d fx = Some (d1, fx1)" "\<not> is_fatal (co_error (df_core d))"
    "co_state (df_core d) = Error" "wf_queue (co_queue (df_core d))"
  shows "\<exists>d2 k. dfu_step R E now d1 fx1 = Some (d2, fx_lpm_peripheral_inactive E fx1, Some k) \<and>
    co_state (df_core d2) = Idle \<and> co_pending (df_core d2) = None \<and>
    co_reboot_info (df_core d2) = reboot_info_default \<and> df_roles d2 = df_roles d"
proof -
  let ?c = "set_pending_state_change Idle (df_core d)" and ?p = "advance_to now (set_pending_state_change Idle (df_core d))"
  have d1: "d1 = d\<lparr>df_core := ?c\<rparr>" using assms(1,2) by (simp add: enter_state_def Let_def)
  have wf: "wf_queue (co_queue ?c)" and wfp: "wf_queue (co_queue ?p)"
    using assms(4) core_keeps_ops [OF core_keeps_refl] by (auto simp: core_keeps_def)
  have "queue_iter (co_queue ?c) \<noteq> []"
    using assms(4) eq.contents_push by (simp add: set_pending_state_change_def post_eq)
  moreover have "\<exists>es. queue_iter (co_queue ?p) = take 5 (queue_iter (co_queue ?c) @ es)"
    using wf queue_fire_due [of "if _ then _ else ?c"] by (auto simp: advance_to_def queue_fire_due)
  ultimately obtain e es where "queue_iter (co_queue ?p) = e # es" by (cases "queue_iter (co_queue ?c)") auto
  then obtain q where "queue_pop (co_queue ?p) = Some (q, Some e)" using eq.pop_first [OF wfp] by blast
  then show ?thesis using assms(3)
    by (auto simp: d1 dfu_step_def dfu_pop_def poll_def run_event_def lib_sm_run_def run_state_def
        exit_state_def enter_state_def Let_def)
qed

theorem lesser_error_recovers_witness:
  "\<exists>d1 fx1 d2 k. enter_state sample_roles sample_effects Error
      (sample_dfu\<lparr>df_core := (df_core sample_dfu)\<lparr>co_state := Error, co_error := 6\<rparr>\<rparr>) [] = Some (d1, fx1) \<and>
    dfu_step sample_roles sample_effects 5 d1 fx1 = Some (d2, fx_lpm_peripheral_inactive sample_effects fx1, Some k) \<and>
    co_state (df_core d2) = Idle"
proof -
  let ?d = "sample_dfu\<lparr>df_core := (df_core sample_dfu)\<lparr>co_state := Error, co_error := 6\<rparr>\<rparr>"
  have n: "\<not> is_fatal (co_error (df_core ?d))" "wf_queue (co_queue (df_core ?d))"
    using sample_queue(2) by (simp_all add: is_fatal_def ERR_FLASH_ACCESS_def)
  then obtain d1 fx1 where e: "enter_state sample_roles sample_effects Error ?d [] = Some (d1, fx1)"
    by (simp add: enter_state_def Let_def)
  from lesser_error_recovers [OF e n(1) _ n(2), of 5] e show ?thesis by auto
qed

end
