(* ===== verification/Dfu_Client.thy ===== *)
theory Dfu_Client
  imports Dfu_Core Crc
begin

text \<open>
  \<open>bm-wire/src/bcmp/dfu_client.rs\<close>: the node that receives a firmware image. It gathers the
  chunks it asks for into a 2048-byte page, writes each full page to the update slot, keeps a
  CRC over everything received, validates length and CRC, and asks its host to let it reboot.
  The theory shows that it never panics, keeps the contract of \<open>Roles\<close>, that the bytes it
  writes are exactly the bytes it was sent, and that only an image whose length and CRC match
  the offer is ever activated.
\<close>

section \<open>Constants and state\<close>

definition IMG_PAGE_LEN :: nat where "IMG_PAGE_LEN = 2048"
definition MAX_CHUNK_RETRIES :: u8 where "MAX_CHUNK_RETRIES = 5"
definition DFU_CONFIRM_KEY :: bytes where
  "DFU_CONFIRM_KEY = [0x64, 0x66, 0x75, 0x5F, 0x63, 0x6F, 0x6E, 0x66, 0x69, 0x72, 0x6D]"
definition PAYLOAD_LEN_OFFSET :: nat where "PAYLOAD_LEN_OFFSET = DFU_MIN_LEN"
definition CHUNK_PAYLOAD_OFFSET :: nat where "CHUNK_PAYLOAD_OFFSET = DFU_WITH_TWO_BYTES_LEN"

record Client =
  cl_image_size :: u32
  cl_num_chunks :: u16
  cl_crc16 :: u16
  cl_running_crc16 :: u16
  cl_page_byte_counter :: u16
  cl_flash_offset :: u32
  cl_page_buf :: bytes
  cl_chunk_retry_num :: u8
  cl_current_chunk :: u16
  cl_host_node_id :: u64

definition client_new :: Client where
  "client_new = \<lparr>cl_image_size = 0, cl_num_chunks = 0, cl_crc16 = 0, cl_running_crc16 = 0,
     cl_page_byte_counter = 0, cl_flash_offset = 0, cl_page_buf = replicate IMG_PAGE_LEN 0,
     cl_chunk_retry_num = 0, cl_current_chunk = 0, cl_host_node_id = 0\<rparr>"

definition host_node_valid :: "u64 \<Rightarrow> Client \<Rightarrow> bool" where
  "host_node_valid node_id cl \<longleftrightarrow> cl_host_node_id cl = node_id"

section \<open>Messages and errors\<close>

definition to_host :: "Core \<Rightarrow> u64 \<Rightarrow> DfuAddress" where
  "to_host c host = \<lparr>src_node_id = co_self_node_id c, dst_node_id = host\<rparr>"

definition client_abort :: "'fx Effects \<Rightarrow> DfuErr \<Rightarrow> Client \<Rightarrow> Core \<Rightarrow> 'fx \<Rightarrow> 'fx" where
  "client_abort E err cl c fx =
     fx_send E (DAbort \<lparr>rs_addresses = to_host c (cl_host_node_id cl), rs_success = 0, rs_err_code = err\<rparr>) fx"

definition client_transition_to_error :: "DfuErr \<Rightarrow> Core \<Rightarrow> Core" where
  "client_transition_to_error err c = set_pending_state_change Error (set_error err (stop_timer Chunk c))"

definition fail_update_and_reboot :: "'fx Effects \<Rightarrow> Core \<Rightarrow> 'fx \<Rightarrow> Core \<times> 'fx" where
  "fail_update_and_reboot E c fx =
     (delay 100 (c\<lparr>co_reboot_info := reboot_info_default\<rparr>), fx_fail_update_and_reset E fx)"

definition restart_transfer :: "Client \<Rightarrow> Client" where
  "restart_transfer cl = cl\<lparr>cl_current_chunk := 0, cl_chunk_retry_num := 0, cl_page_byte_counter := 0,
     cl_flash_offset := 0, cl_running_crc16 := 0\<rparr>"

section \<open>An update request\<close>

text \<open>The address and image info of a body that is long enough for both, whatever its type byte.\<close>

definition body_offer :: "bytes \<Rightarrow> (DfuAddress \<times> ImgInfo) option option" where
  "body_offer body = do {
     a \<leftarrow> dfu_address_of_body body;
     i \<leftarrow> (case range_at body DFU_MIN_LEN (length body) of
            None \<Rightarrow> Some None
          | Some t \<Rightarrow> do { r \<leftarrow> img_info_decode t; Some (Some r) });
     Some (case (a, i) of (Ok addresses, Some (Ok info)) \<Rightarrow> Some (addresses, info) | _ \<Rightarrow> None)
   }"

text \<open>\<open>checked_div\<close> and \<open>checked_rem\<close> with their defaults, and the addition that would panic on
  overflow.\<close>

definition count_chunks :: "ImgInfo \<Rightarrow> u16 option" where
  "count_chunks info = (let size = ucast (chunk_size info) :: u32;
       whole = (if size = 0 then 0 else image_size info div size);
       rem = (if size = 0 then image_size info else image_size info mod size) in
     if rem \<noteq> 0 then (if whole = - 1 then None else Some (ucast (whole + 1))) else Some (ucast whole))"

definition process_update_request :: "'fx Effects \<Rightarrow> Client \<Rightarrow> Core \<Rightarrow> 'fx \<Rightarrow> (Client \<times> Core \<times> 'fx) option" where
  "process_update_request E cl c fx = do {
     b \<leftarrow> event_body (co_current c);
     case b of
        None \<Rightarrow> Some (cl, c, fx)
      | Some body \<Rightarrow> do {
          offer \<leftarrow> body_offer body;
          case offer of
            None \<Rightarrow> Some (cl, c, fx)
          | Some (addresses, info) \<Rightarrow>
              let cl = cl\<lparr>cl_host_node_id := src_node_id addresses\<rparr>; host = cl_host_node_id cl in
              if git_sha info = fx_git_sha E fx \<and> filter_key info \<noteq> IMG_INFO_FORCE_UPDATE then
                Some (cl, c, send_ack E host 0 ERR_SAME_VER c fx)
              else if unat (chunk_size info) > DFU_MAX_CHUNK_SIZE then
                Some (cl, client_transition_to_error ERR_CHUNK_SIZE c, client_abort E ERR_ABORTED cl c fx)
              else do {
                chunks \<leftarrow> count_chunks info;
                let cl = cl\<lparr>cl_image_size := image_size info, cl_num_chunks := chunks, cl_crc16 := crc16 info\<rparr>;
                let (opened, fx) = fx_flash_open E fx;
                if \<not> opened then
                  Some (cl, client_transition_to_error ERR_FLASH_ACCESS c, send_ack E host 0 ERR_FLASH_ACCESS c fx)
                else
                  let (size, fx) = fx_flash_size E fx in
                  if size \<le> image_size info then Some (cl, c, send_ack E host 0 ERR_TOO_LARGE c fx)
                  else
                    let (size, fx) = fx_flash_size E fx; (erased, fx) = fx_flash_erase E 0 size fx in
                    if \<not> erased then
                      Some (cl, client_transition_to_error ERR_FLASH_ACCESS c, send_ack E host 0 ERR_FLASH_ACCESS c fx)
                    else
                      let fx = send_ack E host 1 ERR_NONE c fx;
                          c = c\<lparr>co_reboot_info := \<lparr>ri_magic = DFU_REBOOT_MAGIC, ri_major = major_ver info,
                                ri_minor = minor_ver info, ri_host_node_id = host, ri_git_sha = git_sha info\<rparr>\<rparr>
                      in Some (cl, set_pending_state_change ClientReceiving (delay 10 c), fx)
              }
        }
   }"

section \<open>Receiving\<close>

definition receiving_entry :: "'fx Effects \<Rightarrow> Client \<Rightarrow> Core \<Rightarrow> 'fx \<Rightarrow> Client \<times> Core \<times> 'fx" where
  "receiving_entry E cl c fx = (let cl = restart_transfer cl in
     (cl, start_timer Chunk c, req_next_chunk E (cl_host_node_id cl) (cl_current_chunk cl) c fx))"

text \<open>The additions are within \<open>u16\<close>: the new counter is less than a page.\<close>

definition process_payload :: "'fx Effects \<Rightarrow> bytes \<Rightarrow> Client \<Rightarrow> 'fx \<Rightarrow> (Client \<times> 'fx \<times> bool) option" where
  "process_payload E chunk cl fx =
     (if chunk = [] then Some (cl, fx, False)
      else let counter = unat (cl_page_byte_counter cl) in
      if counter + length chunk < IMG_PAGE_LEN then do {
        buf \<leftarrow> copy_at (cl_page_buf cl) counter chunk;
        Some (cl\<lparr>cl_page_buf := buf,
                 cl_page_byte_counter := cl_page_byte_counter cl + of_nat (length chunk)\<rparr>, fx, True)
      }
      else if IMG_PAGE_LEN < counter \<or> length chunk < IMG_PAGE_LEN - counter then None
      else do {
        let head = take (IMG_PAGE_LEN - counter) chunk;
        let tail = drop (IMG_PAGE_LEN - counter) chunk;
        buf \<leftarrow> copy_at (cl_page_buf cl) counter head;
        let cl = cl\<lparr>cl_page_buf := buf, cl_page_byte_counter := 0\<rparr>;
        let (written, fx) = fx_flash_write E (cl_flash_offset cl) buf fx;
        if \<not> written then Some (cl, fx, False)
        else do {
          buf \<leftarrow> copy_at buf 0 tail;
          Some (cl\<lparr>cl_flash_offset := cl_flash_offset cl + of_nat IMG_PAGE_LEN, cl_page_buf := buf,
                   cl_page_byte_counter := of_nat (length tail)\<rparr>, fx, True)
        }
      })"

definition process_end :: "'fx Effects \<Rightarrow> Client \<Rightarrow> 'fx \<Rightarrow> (Client \<times> 'fx \<times> bool) option" where
  "process_end E cl fx = do {
     (cl, fx, ok) \<leftarrow>
       (if cl_page_byte_counter cl \<noteq> 0 then do {
          data \<leftarrow> range_at (cl_page_buf cl) 0 (unat (cl_page_byte_counter cl));
          let (written, fx) = fx_flash_write E (cl_flash_offset cl) data fx;
          if written then
            Some (cl\<lparr>cl_flash_offset := cl_flash_offset cl + ucast (cl_page_byte_counter cl)\<rparr>, fx, True)
          else Some (cl, fx, False)
        }
        else Some (cl, fx, True));
     let (_, fx) = fx_flash_close E fx;
     Some (cl, fx, ok)
   }"

text \<open>The chunk of a \<open>0xD2\<close> body: \<open>None\<close> when the body is too short for its length field, when the
  length is more than the client accepts, or when less than that arrived.\<close>

definition received_chunk :: "bytes \<Rightarrow> bytes option" where
  "received_chunk body = do {
     b \<leftarrow> range_at body PAYLOAD_LEN_OFFSET CHUNK_PAYLOAD_OFFSET;
     let len = unat (from_le b :: u16);
     if len > DFU_MAX_CHUNK_SIZE then None
     else range_at body CHUNK_PAYLOAD_OFFSET (CHUNK_PAYLOAD_OFFSET + len)
   }"

definition receive_chunk :: "'fx Effects \<Rightarrow> bytes \<Rightarrow> Client \<Rightarrow> Core \<Rightarrow> 'fx \<Rightarrow> (Client \<times> Core \<times> 'fx) option" where
  "receive_chunk E chunk cl c fx = do {
     let c = stop_timer Chunk c;
     let cl = cl\<lparr>cl_running_crc16 := crc16_ccitt (cl_running_crc16 cl) chunk\<rparr>;
     (cl, fx, ok) \<leftarrow> process_payload E chunk cl fx;
     let c = (if \<not> ok then client_transition_to_error ERR_BM_FRAME c else c);
     let cl = cl\<lparr>cl_current_chunk := cl_current_chunk cl + 1, cl_chunk_retry_num := 0\<rparr>;
     if cl_current_chunk cl < cl_num_chunks cl then
       Some (cl, start_timer Chunk c, req_next_chunk E (cl_host_node_id cl) (cl_current_chunk cl) c fx)
     else do {
       (cl, fx, ok) \<leftarrow> process_end E cl fx;
       if ok then Some (cl, set_pending_state_change ClientValidating c, fx)
       else Some (cl, client_transition_to_error ERR_BM_FRAME c, fx)
     }
   }"

text \<open>The copy of the chunk out of the event, in a buffer of \<open>DFU_MAX_CHUNK_SIZE\<close> bytes.\<close>

definition copy_chunk_out :: "bytes \<Rightarrow> bytes option" where
  "copy_chunk_out received = do {
     buf \<leftarrow> copy_at (replicate DFU_MAX_CHUNK_SIZE 0) 0 received;
     range_at buf 0 (length received)
   }"

definition receiving_run :: "'fx Effects \<Rightarrow> Client \<Rightarrow> Core \<Rightarrow> 'fx \<Rightarrow> (Client \<times> Core \<times> 'fx) option" where
  "receiving_run E cl c fx =
     (case ev_kind (co_current c) of
        EvImageChunk \<Rightarrow> do {
          b \<leftarrow> event_body (co_current c);
          case b of
             None \<Rightarrow> Some (cl, c, fx)
           | Some body \<Rightarrow>
               (case received_chunk body of
                  None \<Rightarrow> Some (cl, c, fx)
                | Some received \<Rightarrow> do {
                    chunk \<leftarrow> copy_chunk_out received;
                    receive_chunk E chunk cl c fx
                  })
        }
      | EvChunkTimeout \<Rightarrow>
          let cl = cl\<lparr>cl_chunk_retry_num := cl_chunk_retry_num cl + 1\<rparr> in
          if cl_chunk_retry_num cl \<ge> MAX_CHUNK_RETRIES then
            Some (cl, client_transition_to_error ERR_TIMEOUT c, client_abort E ERR_ABORTED cl c fx)
          else
            Some (cl, start_timer Chunk c, req_next_chunk E (cl_host_node_id cl) (cl_current_chunk cl) c fx)
      | EvReceivedUpdateRequest \<Rightarrow>
          let c = stop_timer Chunk c;
              fx = send_ack E (cl_host_node_id cl) 1 ERR_NONE c fx;
              cl = restart_transfer cl;
              c = delay 100 c
          in Some (cl, start_timer Chunk c, req_next_chunk E (cl_host_node_id cl) (cl_current_chunk cl) c fx)
      | EvHeartbeat \<Rightarrow> Some (cl, start_timer Chunk c, fx)
      | _ \<Rightarrow> Some (cl, c, fx))"

section \<open>Validating, asking to reboot, confirming\<close>

definition validating_entry :: "'fx Effects \<Rightarrow> Client \<Rightarrow> Core \<Rightarrow> 'fx \<Rightarrow> Client \<times> Core \<times> 'fx" where
  "validating_entry E cl c fx =
     (if cl_image_size cl \<noteq> cl_flash_offset cl then
        (cl, client_transition_to_error ERR_MISMATCH_LEN c, update_end E (cl_host_node_id cl) 0 ERR_MISMATCH_LEN c fx)
      else if cl_crc16 cl = cl_running_crc16 cl then
        (cl, set_pending_state_change ClientRebootReq c, fx)
      else
        (cl, client_transition_to_error ERR_BAD_CRC c, update_end E (cl_host_node_id cl) 0 ERR_BAD_CRC c fx))"

definition reboot_req_entry :: "'fx Effects \<Rightarrow> Client \<Rightarrow> Core \<Rightarrow> 'fx \<Rightarrow> Client \<times> Core \<times> 'fx" where
  "reboot_req_entry E cl c fx =
     (cl\<lparr>cl_chunk_retry_num := 0\<rparr>, start_timer Chunk c, fx_send E (DRebootReq (to_host c (cl_host_node_id cl))) fx)"

definition reboot_req_run :: "'fx Effects \<Rightarrow> Client \<Rightarrow> Core \<Rightarrow> 'fx \<Rightarrow> (Client \<times> Core \<times> 'fx) option" where
  "reboot_req_run E cl c fx =
     (case ev_kind (co_current c) of
        EvReboot \<Rightarrow> do {
          body \<leftarrow> event_body (co_current c);
          if body \<noteq> None
          then Some (cl, set_pending_state_change ClientActivating (stop_timer Chunk c), fx)
          else Some (cl, c, fx)
        }
      | EvChunkTimeout \<Rightarrow>
          let cl = cl\<lparr>cl_chunk_retry_num := cl_chunk_retry_num cl + 1\<rparr> in
          if cl_chunk_retry_num cl \<ge> MAX_CHUNK_RETRIES then
            Some (cl, client_transition_to_error ERR_TIMEOUT c, client_abort E ERR_ABORTED cl c fx)
          else Some (cl, start_timer Chunk c, fx_send E (DRebootReq (to_host c (cl_host_node_id cl))) fx)
      | _ \<Rightarrow> Some (cl, c, fx))"

definition confirm_is_enabled :: "'fx Effects \<Rightarrow> 'fx \<Rightarrow> bool" where
  "confirm_is_enabled E fx \<longleftrightarrow> (case fx_get_uint E System DFU_CONFIRM_KEY fx of None \<Rightarrow> 1 | Some v \<Rightarrow> v) = 1"

definition confirm_enable :: "'fx Effects \<Rightarrow> bool \<Rightarrow> 'fx \<Rightarrow> 'fx" where
  "confirm_enable E enable fx =
     snd (fx_commit_config E System (fx_set_uint E System DFU_CONFIRM_KEY (if enable then 1 else 0) fx))"

definition update_done_entry :: "'fx Effects \<Rightarrow> Client \<Rightarrow> Core \<Rightarrow> 'fx \<Rightarrow> Client \<times> Core \<times> 'fx" where
  "update_done_entry E cl c fx = (let info = co_reboot_info c;
       cl = cl\<lparr>cl_host_node_id := ri_host_node_id info, cl_chunk_retry_num := 0\<rparr> in
     if fx_git_sha E fx \<noteq> ri_git_sha info then
       let fx = update_end E (ri_host_node_id info) 0 ERR_WRONG_VER c fx; (c, fx) = fail_update_and_reboot E c fx
       in (cl, c, fx)
     else if confirm_is_enabled E fx then
       (cl, start_timer Chunk c, fx_send E (DBootComplete (to_host c (ri_host_node_id info))) fx)
     else
       (cl, c\<lparr>co_reboot_info := reboot_info_default\<rparr>, confirm_enable E True (fx_set_confirmed E fx)))"

definition update_done_run :: "'fx Effects \<Rightarrow> Client \<Rightarrow> Core \<Rightarrow> 'fx \<Rightarrow> (Client \<times> Core \<times> 'fx) option" where
  "update_done_run E cl c fx =
     (case ev_kind (co_current c) of
        EvUpdateEnd \<Rightarrow> do {
          body \<leftarrow> event_body (co_current c);
          if body \<noteq> None then
            let c = stop_timer Chunk c;
                fx = fx_set_confirmed E fx;
                fx = update_end E (ri_host_node_id (co_reboot_info c)) 1 ERR_NONE c fx
            in Some (cl, set_pending_state_change Idle c, fx)
          else Some (cl, c, fx)
        }
      | EvChunkTimeout \<Rightarrow>
          let cl = cl\<lparr>cl_chunk_retry_num := cl_chunk_retry_num cl + 1\<rparr> in
          if cl_chunk_retry_num cl \<ge> MAX_CHUNK_RETRIES then
            let fx = client_abort E ERR_CONFIRMATION_ABORT cl c fx; (c, fx) = fail_update_and_reboot E c fx
            in Some (cl, c, fx)
          else
            Some (cl, start_timer Chunk c, fx_send E (DBootComplete (to_host c (ri_host_node_id (co_reboot_info c)))) fx)
      | _ \<Rightarrow> Some (cl, c, fx))"

section \<open>The role\<close>

definition client_entry :: "'fx Effects \<Rightarrow> State \<Rightarrow> Client \<Rightarrow> Core \<Rightarrow> 'fx \<Rightarrow> (Client \<times> Core \<times> 'fx) option" where
  "client_entry E s cl c fx =
     (case s of
        ClientReceiving \<Rightarrow> Some (receiving_entry E cl c fx)
      | ClientValidating \<Rightarrow> Some (validating_entry E cl c fx)
      | ClientRebootReq \<Rightarrow> Some (reboot_req_entry E cl c fx)
      | ClientRebootDone \<Rightarrow> Some (update_done_entry E cl c fx)
      | ClientActivating \<Rightarrow> Some (cl, delay 10 c, fx_set_pending_and_reset E fx)
      | _ \<Rightarrow> Some (cl, c, fx))"

definition client_run :: "'fx Effects \<Rightarrow> State \<Rightarrow> Client \<Rightarrow> Core \<Rightarrow> 'fx \<Rightarrow> (Client \<times> Core \<times> 'fx) option" where
  "client_run E s cl c fx =
     (case s of
        ClientReceiving \<Rightarrow> receiving_run E cl c fx
      | ClientRebootReq \<Rightarrow> reboot_req_run E cl c fx
      | ClientRebootDone \<Rightarrow> update_done_run E cl c fx
      | _ \<Rightarrow> Some (cl, c, fx))"

text \<open>A node that is a client only.\<close>

definition client_roles :: "'fx Effects \<Rightarrow> (Client, 'fx) Roles" where
  "client_roles E =
     \<lparr>ro_entry = client_entry E, ro_run = client_run E, ro_exit = (\<lambda>_ cl c fx. Some (cl, c, fx)),
      ro_client_process_update_request = process_update_request E, ro_host_set_params = (\<lambda>_ _ cl. cl),
      ro_client_host_node_valid = host_node_valid, ro_host_client_node_valid = (\<lambda>_ _. False)\<rparr>"

section \<open>The client keeps the contract of its role\<close>

lemma client_lens [simp]: "IMG_PAGE_LEN = 2048" "PAYLOAD_LEN_OFFSET = 17" "CHUNK_PAYLOAD_OFFSET = 19"
  "DFU_MAX_CHUNK_SIZE = 1024"
  by (simp_all add: IMG_PAGE_LEN_def PAYLOAD_LEN_OFFSET_def CHUNK_PAYLOAD_OFFSET_def DFU_MAX_CHUNK_SIZE_def)

definition client_ok :: "Client \<Rightarrow> bool" where
  "client_ok cl \<longleftrightarrow> unat (cl_page_byte_counter cl) < 2048 \<and> length (cl_page_buf cl) = 2048"

lemma role_okI [intro]: "P r \<Longrightarrow> core_keeps c c' \<Longrightarrow> role_ok P c (Some (r, c', fx))"
  by (simp add: role_ok_def)

lemma core_keeps_error: "core_keeps a c \<Longrightarrow> core_keeps a (client_transition_to_error err c)"
  by (simp add: client_transition_to_error_def core_keeps_ops)

lemmas keeps = core_keeps_ops core_keeps_error

lemma client_ok_fields [simp]:
  "client_ok (cl\<lparr>cl_host_node_id := h\<rparr>) = client_ok cl" "client_ok (cl\<lparr>cl_chunk_retry_num := n\<rparr>) = client_ok cl"
  "client_ok (cl\<lparr>cl_image_size := sz\<rparr>) = client_ok cl" "client_ok (cl\<lparr>cl_num_chunks := k\<rparr>) = client_ok cl"
  "client_ok (cl\<lparr>cl_crc16 := x\<rparr>) = client_ok cl" "client_ok (cl\<lparr>cl_running_crc16 := x\<rparr>) = client_ok cl"
  "client_ok (cl\<lparr>cl_current_chunk := k\<rparr>) = client_ok cl" "client_ok (cl\<lparr>cl_flash_offset := off\<rparr>) = client_ok cl"
  "client_ok cl \<Longrightarrow> client_ok (restart_transfer cl)"
  by (simp_all add: client_ok_def restart_transfer_def)

lemma client_new_ok [simp]: "client_ok client_new"
  by (simp add: client_ok_def client_new_def)

lemma count_chunks_total: "count_chunks info \<noteq> None"
proof -
  let ?n = "image_size info" and ?s = "ucast (chunk_size info) :: u32"
  have "?n mod ?s = 0" if "?n div ?s = - 1" "?s \<noteq> 0"
  proof -
    have "unat ?n div unat ?s = 2 ^ 32 - 1"
      using arg_cong [OF that(1), of unat] by (simp add: unat_div_distrib unsigned_minus_1_eq_mask mask_eq_exp_minus_1)
    moreover have "unat ?n < 2 ^ 32" using unsigned_less [of ?n] by simp
    moreover have "unat ?s \<noteq> 0" using that(2) by (simp add: unat_eq_zero)
    ultimately have "unat ?s = 1"
      using div_le_mono2 [of 2 "unat ?s" "unat ?n"] by (cases "unat ?s \<le> 1") auto
    then have "?s = 1" by (simp add: word_unat_eq_iff)
    then show ?thesis by simp
  qed
  then show ?thesis by (auto simp: count_chunks_def Let_def)
qed

lemma body_offer_total: "body_offer body \<noteq> None"
proof -
  obtain a where "dfu_address_of_body body = Some a" using dfu_address_of_body_total [of body] by blast
  have "\<exists>i. img_info_decode t = Some i" for t using img.never_panics(2) [of t] by blast
  then obtain d where "\<And>t. img_info_decode t = Some (d t)" by metis
  with \<open>dfu_address_of_body body = Some a\<close> show ?thesis by (simp add: body_offer_def split: option.split)
qed

lemma process_update_request_ok:
  assumes "client_ok cl" "event_fits (co_current c)"
  shows "role_ok client_ok c (process_update_request E cl c fx)"
proof -
  obtain b where b: "event_body (co_current c) = Some b" using event_body_fits [OF assms(2)] by blast
  show ?thesis
  proof (cases b)
    case None
    with b assms show ?thesis by (auto simp: process_update_request_def)
  next
    case (Some body)
    obtain offer where o: "body_offer body = Some offer" using body_offer_total by blast
    show ?thesis
    proof (cases offer)
      case None
      with b Some o assms show ?thesis by (auto simp: process_update_request_def)
    next
      case (Some x)
      obtain n where "count_chunks (snd x) = Some n" using count_chunks_total by blast
      with b \<open>b = Some body\<close> Some o assms show ?thesis
        by (simp add: process_update_request_def case_prod_beta Let_def role_okI keeps)
    qed
  qed
qed

lemma process_payload_ok:
  assumes "client_ok cl" "length chunk \<le> 1024"
  shows "\<exists>cl' fx' ok. process_payload E chunk cl fx = Some (cl', fx', ok) \<and> client_ok cl'"
proof -
  let ?n = "unat (cl_page_byte_counter cl)"
  have n: "?n < 2048" "length (cl_page_buf cl) = 2048" using assms(1) by (simp_all add: client_ok_def)
  show ?thesis
  proof (cases "?n + length chunk < 2048")
    case True
    have "unat (cl_page_byte_counter cl + of_nat (length chunk)) = ?n + length chunk"
      using True by (simp add: unat_word_ariths unat_of_nat)
    with True n show ?thesis by (auto simp: process_payload_def Let_def copy_at_in client_ok_def)
  next
    case False
    moreover have "unat (of_nat (length chunk - (2048 - ?n)) :: u16) < 2048" using assms(2)
      by (simp add: unat_of_nat del: of_nat_diff)
    ultimately show ?thesis using n assms(2)
      by (auto simp: process_payload_def Let_def copy_at_in client_ok_def case_prod_beta simp del: of_nat_diff)
  qed
qed

lemma process_end_ok:
  assumes "client_ok cl"
  shows "\<exists>cl' fx' ok. process_end E cl fx = Some (cl', fx', ok) \<and> client_ok cl'"
  using assms by (auto simp: process_end_def client_ok_def case_prod_beta Let_def range_at_in)

lemma receive_chunk_ok:
  assumes "client_ok cl" "length chunk \<le> 1024"
  shows "role_ok client_ok c (receive_chunk E chunk cl c fx)"
proof -
  let ?cl = "cl\<lparr>cl_running_crc16 := crc16_ccitt (cl_running_crc16 cl) chunk\<rparr>"
  have "client_ok ?cl" using assms(1) by simp
  from process_payload_ok [OF this assms(2), of E fx] obtain cl1 fx1 ok
    where p: "process_payload E chunk ?cl fx = Some (cl1, fx1, ok)" and 1: "client_ok cl1" by auto
  let ?cl1 = "cl1\<lparr>cl_current_chunk := cl_current_chunk cl1 + 1, cl_chunk_retry_num := 0\<rparr>"
  have "client_ok ?cl1" using 1 by simp
  from process_end_ok [OF this, of E fx1] obtain cl2 fx2 ok2
    where "process_end E ?cl1 fx1 = Some (cl2, fx2, ok2)" "client_ok cl2" by auto
  with p 1 show ?thesis by (simp add: receive_chunk_def Let_def role_okI keeps)
qed

lemma received_chunk_len: "received_chunk body = Some chunk \<Longrightarrow> length chunk \<le> 1024"
  by (auto simp: received_chunk_def Let_def range_at_def bind_eq_Some_conv split: if_splits)

lemma copy_chunk_out: "length chunk \<le> 1024 \<Longrightarrow> copy_chunk_out chunk = Some chunk"
  by (simp add: copy_chunk_out_def copy_at_in range_at_in subslice_def put_0)

lemma receiving_run_ok:
  assumes "client_ok cl" "event_fits (co_current c)"
  shows "role_ok client_ok c (receiving_run E cl c fx)"
proof -
  obtain b where "event_body (co_current c) = Some b" using event_body_fits [OF assms(2)] by blast
  then show ?thesis using assms(1)
    by (auto simp: receiving_run_def Let_def keeps receive_chunk_ok received_chunk_len copy_chunk_out
        split: EventType.splits option.splits)
qed

lemma client_entry_ok: "client_ok cl \<Longrightarrow> role_ok client_ok c (client_entry E s cl c fx)"
  by (cases s) (auto simp: client_entry_def receiving_entry_def validating_entry_def reboot_req_entry_def
      update_done_entry_def fail_update_and_reboot_def Let_def keeps)

lemma client_run_ok:
  assumes "client_ok cl" "event_fits (co_current c)"
  shows "role_ok client_ok c (client_run E s cl c fx)"
proof -
  obtain b where "event_body (co_current c) = Some b" using event_body_fits [OF assms(2)] by blast
  then show ?thesis using assms
    by (cases s) (auto simp: client_run_def receiving_run_ok reboot_req_run_def update_done_run_def
        fail_update_and_reboot_def Let_def keeps split: EventType.splits)
qed

interpretation client: dfu_roles "client_roles E" E client_ok
  by unfold_locales
    (auto simp: client_roles_def client_entry_ok client_run_ok process_update_request_ok)

section \<open>The client writes what it is sent\<close>

text \<open>An update slot that works, seen through \<open>slot\<close>: writes inside it succeed and take effect,
  nothing else the client does while it receives changes it.\<close>

definition flash_works :: "'fx Effects \<Rightarrow> ('fx \<Rightarrow> bytes) \<Rightarrow> bool" where
  "flash_works E slot \<longleftrightarrow>
     (\<forall>m fx. slot (fx_send E m fx) = slot fx) \<and> (\<forall>fx. slot (snd (fx_flash_close E fx)) = slot fx) \<and>
     (\<forall>off data fx. unat off + length data \<le> length (slot fx) \<longrightarrow>
        fst (fx_flash_write E off data fx) \<and>
        slot (snd (fx_flash_write E off data fx)) = put (slot fx) (unat off) data)"

lemma flash_works_send: "flash_works E slot \<Longrightarrow> slot (fx_send E m fx) = slot fx"
  and flash_works_close: "flash_works E slot \<Longrightarrow> slot (snd (fx_flash_close E fx)) = slot fx"
  and flash_works_write: "flash_works E slot \<Longrightarrow> unat off + length data \<le> length (slot fx) \<Longrightarrow>
    \<exists>fx'. fx_flash_write E off data fx = (True, fx') \<and> slot fx' = put (slot fx) (unat off) data"
  by (auto simp: flash_works_def intro!: exI [of _ "snd (fx_flash_write E off data fx)"] prod_eqI)

text \<open>The client in the middle of an image: whole pages are in the slot, the rest is in the page.\<close>

definition gathers :: "bytes \<Rightarrow> bytes \<Rightarrow> Client \<Rightarrow> bytes \<Rightarrow> bool" where
  "gathers base ds cl img \<longleftrightarrow> (\<exists>pages part. ds = pages @ part \<and> length part < 2048 \<and>
     unat (cl_page_byte_counter cl) = length part \<and> length (cl_page_buf cl) = 2048 \<and>
     take (length part) (cl_page_buf cl) = part \<and> cl_flash_offset cl = of_nat (length pages) \<and>
     img = put base 0 pages)"

lemma gathers_start:
  "length (cl_page_buf cl) = 2048 \<Longrightarrow> gathers img [] (restart_transfer cl) img"
  by (simp add: gathers_def restart_transfer_def put_0)

text \<open>What \<open>process_payload\<close> and \<open>process_end\<close> leave alone.\<close>

definition same_job :: "Client \<Rightarrow> Client \<Rightarrow> bool" where
  "same_job cl cl' \<longleftrightarrow> cl_image_size cl' = cl_image_size cl \<and> cl_num_chunks cl' = cl_num_chunks cl \<and>
     cl_crc16 cl' = cl_crc16 cl \<and> cl_host_node_id cl' = cl_host_node_id cl"

lemma payload_keeps:
  "process_payload E chunk cl fx = Some (cl', fx', ok) \<Longrightarrow> same_job cl cl' \<and>
     cl_running_crc16 cl' = cl_running_crc16 cl \<and> cl_current_chunk cl' = cl_current_chunk cl"
  by (auto simp: process_payload_def Let_def same_job_def bind_eq_Some_conv case_prod_beta split: if_splits)

lemma end_keeps:
  "process_end E cl fx = Some (cl', fx', ok) \<Longrightarrow> same_job cl cl' \<and>
     cl_running_crc16 cl' = cl_running_crc16 cl \<and> cl_current_chunk cl' = cl_current_chunk cl"
  by (auto simp: process_end_def Let_def same_job_def bind_eq_Some_conv case_prod_beta split: if_splits)

lemma process_payload_gathers:
  assumes g: "gathers base ds cl (slot fx)" and E: "flash_works E slot"
    and c: "chunk \<noteq> []" "length chunk \<le> 1024"
    and fits: "length (ds @ chunk) \<le> length base" "length base < 2 ^ 32"
  shows "\<exists>cl' fx'. process_payload E chunk cl fx = Some (cl', fx', True) \<and> gathers base (ds @ chunk) cl' (slot fx')"
proof -
  obtain pages part where ds: "ds = pages @ part" "length part < 2048"
    and ctr: "unat (cl_page_byte_counter cl) = length part" and buf: "length (cl_page_buf cl) = 2048"
    and page: "take (length part) (cl_page_buf cl) = part" and off: "cl_flash_offset cl = of_nat (length pages)"
    and img: "slot fx = put base 0 pages"
    using g by (auto simp: gathers_def)
  show ?thesis
  proof (cases "length part + length chunk < 2048")
    case True
    have n: "unat (cl_page_byte_counter cl + of_nat (length chunk)) = length (part @ chunk)"
      using True ctr by (simp add: unat_word_ariths unat_of_nat)
    have t: "take (length (part @ chunk)) (put (cl_page_buf cl) (length part) chunk) = part @ chunk"
      using page buf True by (simp add: put_def)
    have "gathers base (ds @ chunk) (cl\<lparr>cl_page_buf := put (cl_page_buf cl) (length part) chunk,
        cl_page_byte_counter := cl_page_byte_counter cl + of_nat (length chunk)\<rparr>) (slot fx)"
      unfolding gathers_def using ds True n t buf off img
      by (intro exI [of _ pages] exI [of _ "part @ chunk"]) simp
    then show ?thesis using True c buf ctr by (simp add: process_payload_def copy_at_in)
  next
    case False
    let ?h = "take (2048 - length part) chunk" and ?t = "drop (2048 - length part) chunk"
    have full: "put (cl_page_buf cl) (length part) ?h = part @ ?h"
      using page buf False by (simp add: put_def)
    have at: "unat (cl_flash_offset cl) = length pages" using fits ds off by (simp add: unat_of_nat)
    have room: "unat (cl_flash_offset cl) + length (part @ ?h) \<le> length (slot fx)"
      using at fits img ds False by simp
    from flash_works_write [OF E room] obtain fx'
      where w: "fx_flash_write E (cl_flash_offset cl) (part @ ?h) fx = (True, fx')"
        and s: "slot fx' = put (slot fx) (length pages) (part @ ?h)" using at by auto
    have s': "slot fx' = put base 0 (pages @ part @ ?h)" using s img fits ds by (simp add: put_put_seq)
    have lt: "length ?t < 2048" and n: "unat (of_nat (length ?t) :: u16) = length ?t"
      using c(2) by (simp_all add: unat_of_nat del: of_nat_diff)
    have t: "take (length ?t) (put (part @ ?h) 0 ?t) = ?t" by (simp add: put_def)
    have "gathers base (ds @ chunk) (cl\<lparr>cl_page_buf := put (part @ ?h) 0 ?t, cl_page_byte_counter := of_nat (length ?t),
        cl_flash_offset := cl_flash_offset cl + 2048\<rparr>) (slot fx')"
      unfolding gathers_def using ds False lt n t off s' c(2)
      by (intro exI [of _ "pages @ part @ ?h"] exI [of _ ?t]) (simp del: of_nat_diff)
    moreover have "process_payload E chunk cl fx = Some (cl\<lparr>cl_page_buf := put (part @ ?h) 0 ?t,
        cl_page_byte_counter := of_nat (length ?t), cl_flash_offset := cl_flash_offset cl + 2048\<rparr>, fx', True)"
      using False c buf ctr ds(2) full w by (simp add: process_payload_def copy_at_in Let_def del: of_nat_diff)
    ultimately show ?thesis by blast
  qed
qed

lemma process_end_gathers:
  assumes g: "gathers base ds cl (slot fx)" and E: "flash_works E slot"
    and fits: "length ds \<le> length base" "length base < 2 ^ 32"
  shows "\<exists>cl' fx'. process_end E cl fx = Some (cl', fx', True) \<and> slot fx' = put base 0 ds \<and>
    cl_flash_offset cl' = of_nat (length ds)"
proof -
  obtain pages part where ds: "ds = pages @ part" "length part < 2048"
    and ctr: "unat (cl_page_byte_counter cl) = length part" and buf: "length (cl_page_buf cl) = 2048"
    and page: "take (length part) (cl_page_buf cl) = part" and off: "cl_flash_offset cl = of_nat (length pages)"
    and img: "slot fx = put base 0 pages"
    using g by (auto simp: gathers_def)
  show ?thesis
  proof (cases "part = []")
    case True
    then have "cl_page_byte_counter cl = 0" using ctr by (simp add: unat_eq_zero)
    then show ?thesis using True ds off img flash_works_close [OF E] by (simp add: process_end_def Let_def case_prod_beta)
  next
    case False
    then have c: "cl_page_byte_counter cl \<noteq> 0" using ctr by (metis length_0_conv unsigned_0)
    have at: "unat (cl_flash_offset cl) = length pages" using fits ds off by (simp add: unat_of_nat)
    have "unat (cl_flash_offset cl) + length part \<le> length (slot fx)" using at fits img ds by simp
    from flash_works_write [OF E this] obtain fx'
      where w: "fx_flash_write E (cl_flash_offset cl) part fx = (True, fx')"
        and s: "slot fx' = put base 0 (pages @ part)" using at img fits ds by (auto simp: put_put_seq)
    have "(ucast (cl_page_byte_counter cl) :: u32) = of_nat (length part)" by (simp flip: ctr)
    then show ?thesis using c w s ds off page ctr buf flash_works_close [OF E, of fx']
      by (simp add: process_end_def Let_def case_prod_beta range_at_in subslice_def)
  qed
qed

text \<open>Chunk after chunk, as the client's run in \<open>ClientReceiving\<close> takes them out of the events.\<close>

fun receive_chunks :: "'fx Effects \<Rightarrow> bytes list \<Rightarrow> Client \<Rightarrow> Core \<Rightarrow> 'fx \<Rightarrow> (Client \<times> Core \<times> 'fx) option" where
  "receive_chunks E [] cl c fx = Some (cl, c, fx)"
| "receive_chunks E (x # xs) cl c fx = do {
     (cl, c, fx) \<leftarrow> receive_chunk E x cl c fx;
     receive_chunks E xs cl c fx
   }"

lemma client_transition_fields [simp]:
  "co_pending (client_transition_to_error err c) = Some Error" "co_error (client_transition_to_error err c) = err"
  by (simp_all add: client_transition_to_error_def set_error_def)

text \<open>One chunk that is not the last, and the last.\<close>

lemma receive_chunk_more:
  assumes "gathers base ds cl (slot fx)" "flash_works E slot" "chunk \<noteq> []" "length chunk \<le> 1024"
    "length (ds @ chunk) \<le> length base" "length base < 2 ^ 32" "cl_current_chunk cl + 1 < cl_num_chunks cl"
  shows "\<exists>cl' c' fx'. receive_chunk E chunk cl c fx = Some (cl', c', fx') \<and> gathers base (ds @ chunk) cl' (slot fx') \<and>
    same_job cl cl' \<and> cl_running_crc16 cl' = crc16_ccitt (cl_running_crc16 cl) chunk \<and>
    cl_current_chunk cl' = cl_current_chunk cl + 1 \<and> co_pending c' = co_pending c"
proof -
  let ?cl = "cl\<lparr>cl_running_crc16 := crc16_ccitt (cl_running_crc16 cl) chunk\<rparr>"
  have "gathers base ds ?cl (slot fx)" using assms(1) by (simp add: gathers_def)
  from process_payload_gathers [OF this assms(2-6)] obtain cl1 fx1
    where p: "process_payload E chunk ?cl fx = Some (cl1, fx1, True)" and g: "gathers base (ds @ chunk) cl1 (slot fx1)"
    by blast
  show ?thesis using p payload_keeps [OF p] assms(7) g flash_works_send [OF assms(2)]
    by (simp add: receive_chunk_def same_job_def req_next_chunk_def start_timer_def stop_timer_def gathers_def Let_def)
qed

lemma receive_chunk_last:
  assumes "gathers base ds cl (slot fx)" "flash_works E slot" "chunk \<noteq> []" "length chunk \<le> 1024"
    "length (ds @ chunk) \<le> length base" "length base < 2 ^ 32" "\<not> cl_current_chunk cl + 1 < cl_num_chunks cl"
  shows "\<exists>cl' c' fx'. receive_chunk E chunk cl c fx = Some (cl', c', fx') \<and> slot fx' = put base 0 (ds @ chunk) \<and>
    same_job cl cl' \<and> cl_running_crc16 cl' = crc16_ccitt (cl_running_crc16 cl) chunk \<and>
    cl_flash_offset cl' = of_nat (length (ds @ chunk)) \<and> co_pending c' = Some ClientValidating"
proof -
  let ?cl = "cl\<lparr>cl_running_crc16 := crc16_ccitt (cl_running_crc16 cl) chunk\<rparr>"
  have "gathers base ds ?cl (slot fx)" using assms(1) by (simp add: gathers_def)
  from process_payload_gathers [OF this assms(2-6)] obtain cl1 fx1
    where p: "process_payload E chunk ?cl fx = Some (cl1, fx1, True)" and g: "gathers base (ds @ chunk) cl1 (slot fx1)"
    by blast
  let ?cl1 = "cl1\<lparr>cl_current_chunk := cl_current_chunk cl1 + 1, cl_chunk_retry_num := 0\<rparr>"
  have "gathers base (ds @ chunk) ?cl1 (slot fx1)" using g by (simp add: gathers_def)
  from process_end_gathers [OF this assms(2) assms(5,6)] obtain cl2 fx2
    where e: "process_end E ?cl1 fx1 = Some (cl2, fx2, True)" and s: "slot fx2 = put base 0 (ds @ chunk)"
      "cl_flash_offset cl2 = of_nat (length (ds @ chunk))" by blast
  show ?thesis using p e s payload_keeps [OF p] end_keeps [OF e] assms(7)
    by (simp add: receive_chunk_def same_job_def)
qed

lemma receive_chunks_gathers:
  assumes "flash_works E slot" "length base < 2 ^ 32"
  shows "gathers base ds cl (slot fx) \<Longrightarrow> xs \<noteq> [] \<Longrightarrow> \<forall>x\<in>set xs. x \<noteq> [] \<and> length x \<le> 1024 \<Longrightarrow>
    length (ds @ concat xs) \<le> length base \<Longrightarrow>
    unat (cl_current_chunk cl) + length xs = unat (cl_num_chunks cl) \<Longrightarrow>
    \<exists>cl' c' fx'. receive_chunks E xs cl c fx = Some (cl', c', fx') \<and> slot fx' = put base 0 (ds @ concat xs) \<and>
      same_job cl cl' \<and> cl_running_crc16 cl' = crc16_ccitt (cl_running_crc16 cl) (concat xs) \<and>
      cl_flash_offset cl' = of_nat (length (ds @ concat xs)) \<and> co_pending c' = Some ClientValidating"
proof (induction xs arbitrary: ds cl c fx)
  case (Cons x xs)
  have "unat (cl_num_chunks cl) < 2 ^ 16" using unsigned_less [of "cl_num_chunks cl"] by simp
  then have less: "cl_current_chunk cl + 1 < cl_num_chunks cl \<longleftrightarrow> xs \<noteq> []"
    and inc: "unat (cl_current_chunk cl + 1) = unat (cl_current_chunk cl) + 1"
    using Cons.prems(5) by (cases xs; auto simp: word_less_nat_alt unat_word_ariths)+
  have x: "x \<noteq> []" "length x \<le> 1024" "length (ds @ x) \<le> length base" using Cons.prems(3,4) by auto
  show ?case
  proof (cases "xs = []")
    case True
    with receive_chunk_last [OF Cons.prems(1) assms(1) x assms(2), of c] less show ?thesis by auto
  next
    case False
    with less have l: "cl_current_chunk cl + 1 < cl_num_chunks cl" by simp
    from receive_chunk_more [OF Cons.prems(1) assms(1) x assms(2) l, of c] obtain cl1 c1 fx1 where
      1: "receive_chunk E x cl c fx = Some (cl1, c1, fx1)" "gathers base (ds @ x) cl1 (slot fx1)" "same_job cl cl1"
      "cl_running_crc16 cl1 = crc16_ccitt (cl_running_crc16 cl) x" "cl_current_chunk cl1 = cl_current_chunk cl + 1" by blast
    have "unat (cl_current_chunk cl1) + length xs = unat (cl_num_chunks cl1)"
      using 1(3,5) inc Cons.prems(5) by (simp add: same_job_def)
    from Cons.IH [OF 1(2) False _ _ this, of c1] Cons.prems(3,4) obtain cl2 c2 fx2 where
      "receive_chunks E xs cl1 c1 fx1 = Some (cl2, c2, fx2)" "slot fx2 = put base 0 (ds @ x @ concat xs)"
      "same_job cl1 cl2" "cl_running_crc16 cl2 = crc16_ccitt (cl_running_crc16 cl1) (concat xs)"
      "cl_flash_offset cl2 = of_nat (length (ds @ x @ concat xs))" "co_pending c2 = Some ClientValidating" by auto
    with 1 show ?thesis by (simp add: same_job_def crc16_append)
  qed
qed simp

section \<open>What may be activated\<close>

text \<open>A client asks to reboot, and activates its image, only when a predicate \<open>good\<close> of the roles'
  state holds. The interface says what the roles' methods owe for that; the machine then keeps
  it over every run. \<open>ready\<close> is the state between moves, \<open>moving\<close> the one at the end of a
  run, when a change may be pending.\<close>

definition moving :: "bool \<Rightarrow> Core \<Rightarrow> bool" where
  "moving g c \<longleftrightarrow> (co_state c \<in> {ClientRebootReq, ClientActivating} \<or>
     co_pending c \<in> {Some ClientRebootReq, Some ClientActivating} \<longrightarrow> g)"

definition ready :: "bool \<Rightarrow> Core \<Rightarrow> bool" where
  "ready g c \<longleftrightarrow> moving g c \<and> (co_pending c = Some ClientRebootReq \<longrightarrow> co_state c = ClientValidating) \<and>
     co_pending c \<noteq> Some ClientActivating"

text \<open>A machine in the error state between two moves: nothing is pending when the error is fatal,
  and the way back to idle otherwise.\<close>

definition error_settled :: "Core \<Rightarrow> bool" where
  "error_settled c \<longleftrightarrow>
     (co_state c = Error \<longrightarrow> co_pending c = (if is_fatal (co_error c) then None else Some Idle))"

lemma error_settled_fields [simp]:
  "error_settled (c\<lparr>co_queue := q\<rparr>) = error_settled c" "error_settled (c\<lparr>co_current := e\<rparr>) = error_settled c"
  "error_settled (advance_to now c) = error_settled c"
  by (simp_all add: error_settled_def)

locale guarded_activation = dfu_roles R E rinv
  for R :: "('r, 'fx) Roles" and E :: "'fx Effects" and rinv :: "'r \<Rightarrow> bool" +
  fixes good :: "'r \<Rightarrow> bool"
  assumes entry_guard: "ro_entry R s r c fx = Some (r', c', fx') \<Longrightarrow> rinv r \<Longrightarrow> co_state c = s \<Longrightarrow> co_pending c = None \<Longrightarrow>
      moving (good r) c \<Longrightarrow> ready (good r') c'"
    and run_guard: "ro_run R s r c fx = Some (r', c', fx') \<Longrightarrow> rinv r \<Longrightarrow> co_state c = s \<Longrightarrow> ready (good r) c \<Longrightarrow>
      moving (good r') c'"
    and exit_guard: "ro_exit R s r c fx = Some (r', c', fx') \<Longrightarrow> (good r \<longrightarrow> good r') \<and> co_pending c' = co_pending c"
    and request_guard: "ro_client_process_update_request R r c fx = Some (r', c', fx') \<Longrightarrow> rinv r \<Longrightarrow>
      co_state c = Idle \<Longrightarrow> ready (good r) c \<Longrightarrow> moving (good r') c'"
    and params_guard: "good r \<Longrightarrow> good (ro_host_set_params R notify timeout r)"
begin

lemma run_state_guard:
  assumes "run_state R s d fx = Some (d', fx')" "machine_ok rinv d" "co_state (df_core d) = s"
    "ready (good (df_roles d)) (df_core d)"
  shows "moving (good (df_roles d')) (df_core d')"
proof -
  have r: "rinv (df_roles d)" using assms(2) by (simp add: machine_ok_def)
  note run_guard [OF _ r] request_guard [OF _ r]
  then show ?thesis using assms(1,3,4) params_guard [of "df_roles d"]
    by (cases s)
      (auto simp: run_state_def lift_roles_def Let_def bind_eq_Some_conv ready_def moving_def
        split: if_splits EventType.splits EventData.splits)
qed

lemma lib_sm_run_guard:
  assumes run: "lib_sm_run R E d fx = Some (d', fx')" and d: "machine_ok rinv d"
    and ready: "ready (good (df_roles d)) (df_core d)"
  shows "ready (good (df_roles d')) (df_core d')"
proof -
  let ?s = "co_state (df_core d)"
  obtain d1 fx1 where 1: "run_state R ?s d fx = Some (d1, fx1)" "machine_ok rinv d1" "co_state (df_core d1) = ?s"
    using run_state_ok [OF d] by (fastforce simp: core_keeps_def)
  have m: "moving (good (df_roles d1)) (df_core d1)" using run_state_guard [OF 1(1) d _ ready] by simp
  show ?thesis
  proof (cases "co_pending (df_core d1)")
    case None
    with run 1 m show ?thesis by (simp add: lib_sm_run_def ready_def)
  next
    case (Some nx)
    let ?d = "d1\<lparr>df_core := (df_core d1)\<lparr>co_pending := None\<rparr>\<rparr>"
    show ?thesis
    proof (cases "nx = ?s")
      case True
      with run 1 m Some show ?thesis by (auto simp: lib_sm_run_def ready_def moving_def Let_def)
    next
      case False
      have ok: "machine_ok rinv ?d" using 1 by (simp add: machine_ok_def)
      obtain d2 fx2 where 2: "exit_state R E ?s ?d fx1 = Some (d2, fx2)" "machine_ok rinv d2"
        using exit_state_ok [OF ok] by blast
      have g: "good (df_roles d1) \<longrightarrow> good (df_roles d2)" and p: "co_pending (df_core d2) = None"
        using 2(1) exit_guard
        by (cases ?s; fastforce simp: exit_state_def lift_roles_def bind_eq_Some_conv)+
      let ?e = "d2\<lparr>df_core := (df_core d2)\<lparr>co_state := nx\<rparr>\<rparr>"
      have e: "enter_state R E nx ?e fx2 = Some (d', fx')" using run 1 Some False 2 by (simp add: lib_sm_run_def Let_def)
      have "rinv (df_roles d2)" using 2(2) by (simp add: machine_ok_def)
      note entry_guard [OF _ this]
      moreover have "moving (good (df_roles d2)) (df_core ?e)" using m g p Some by (auto simp: moving_def)
      ultimately show ?thesis using e p
        by (cases nx)
          (auto simp: enter_state_def lift_roles_def Let_def bind_eq_Some_conv ready_def moving_def split: if_splits)
    qed
  qed
qed

lemma poll_guard: "ready (good (df_roles d)) (df_core d) \<Longrightarrow> ready (good (df_roles (poll now d))) (df_core (poll now d))"
  by (simp add: poll_def ready_def moving_def)

lemma step_guard:
  assumes step: "dfu_step R E now d fx = Some (d', fx', k)" and d: "machine_ok rinv d"
    and ready: "ready (good (df_roles d)) (df_core d)"
  shows "ready (good (df_roles d')) (df_core d')"
proof -
  obtain q e where q: "queue_pop (co_queue (df_core (poll now d))) = Some (q, e)" "queue_ok q"
      "\<forall>x. e = Some x \<longrightarrow> event_fits x"
    using queue_ok_pop [of "co_queue (df_core (poll now d))"] poll_ok [OF d, of now] by (auto simp: machine_ok_def)
  let ?d = "(poll now d)\<lparr>df_core := (df_core (poll now d))\<lparr>co_queue := q\<rparr>\<rparr>"
  have ok: "machine_ok rinv ?d" and r: "ready (good (df_roles ?d)) (df_core ?d)"
    using poll_ok [OF d] q poll_guard [OF ready] by (simp_all add: machine_ok_def ready_def moving_def)
  show ?thesis
  proof (cases e)
    case None
    with step q r show ?thesis by (simp add: dfu_step_def dfu_pop_def)
  next
    case (Some ev)
    let ?p = "(poll now ?d)\<lparr>df_core := (df_core (poll now ?d))\<lparr>co_current := ev\<rparr>\<rparr>"
    obtain d1 fx1 where l: "lib_sm_run R E ?p fx = Some (d1, fx1)" "d' = d1\<lparr>df_core := (df_core d1)\<lparr>co_current := EVENT_NONE\<rparr>\<rparr>"
      using step q Some by (auto simp: dfu_step_def dfu_pop_def run_event_def bind_eq_Some_conv Let_def)
    have "machine_ok rinv ?p" "ready (good (df_roles ?p)) (df_core ?p)"
      using q(3) Some poll_ok [OF ok] poll_guard [OF r] by (simp_all add: machine_ok_def ready_def moving_def)
    with lib_sm_run_guard [OF l(1)] l(2) show ?thesis by (simp add: ready_def moving_def)
  qed
qed

lemma lib_sm_run_settled:
  assumes run: "lib_sm_run R E d fx = Some (d', fx')" and d: "machine_ok rinv d" and settled: "error_settled (df_core d)"
  shows "error_settled (df_core d')"
proof -
  let ?s = "co_state (df_core d)"
  obtain d1 fx1 where 1: "run_state R ?s d fx = Some (d1, fx1)" "machine_ok rinv d1" "co_state (df_core d1) = ?s"
    using run_state_ok [OF d] by (fastforce simp: core_keeps_def)
  have e: "?s = Error \<Longrightarrow> d1 = d" using 1(1) by (simp add: run_state_def Let_def)
  show ?thesis
  proof (cases "co_pending (df_core d1)")
    case None
    with run 1 have "d' = d1" by (simp add: lib_sm_run_def)
    then show ?thesis using e settled 1(3) by (cases "?s = Error") (auto simp: error_settled_def)
  next
    case (Some nx)
    let ?d = "d1\<lparr>df_core := (df_core d1)\<lparr>co_pending := None\<rparr>\<rparr>"
    have idle: "?s = Error \<Longrightarrow> nx = Idle"
      using e settled Some by (auto simp: error_settled_def split: if_splits)
    show ?thesis
    proof (cases "nx = ?s")
      case True
      with idle have "?s \<noteq> Error" by auto
      then show ?thesis using run 1 Some True by (auto simp: lib_sm_run_def error_settled_def Let_def)
    next
      case False
      have ok: "machine_ok rinv ?d" using 1 by (simp add: machine_ok_def)
      obtain d2 fx2 where 2: "exit_state R E ?s ?d fx1 = Some (d2, fx2)" "machine_ok rinv d2"
        using exit_state_ok [OF ok] by blast
      have p: "co_pending (df_core d2) = None"
        using 2(1) exit_guard by (cases ?s; fastforce simp: exit_state_def lift_roles_def bind_eq_Some_conv)
      let ?e = "d2\<lparr>df_core := (df_core d2)\<lparr>co_state := nx\<rparr>\<rparr>"
      have en: "enter_state R E nx ?e fx2 = Some (d', fx')" using run 1 Some False 2 by (simp add: lib_sm_run_def Let_def)
      have "machine_ok rinv ?e" using 2(2) by (simp add: machine_ok_def)
      from enter_state_ok [OF this, of nx fx2] en have "co_state (df_core d') = nx" by (auto simp: core_keeps_def)
      then show ?thesis using en p
        by (cases "nx = Error") (auto simp: enter_state_def error_settled_def Let_def split: if_splits)
    qed
  qed
qed

lemma step_settled:
  assumes step: "dfu_step R E now d fx = Some (d', fx', k)" and d: "machine_ok rinv d" and settled: "error_settled (df_core d)"
  shows "error_settled (df_core d')"
proof -
  obtain q e where q: "queue_pop (co_queue (df_core (poll now d))) = Some (q, e)" "queue_ok q"
      "\<forall>x. e = Some x \<longrightarrow> event_fits x"
    using queue_ok_pop [of "co_queue (df_core (poll now d))"] poll_ok [OF d, of now] by (auto simp: machine_ok_def)
  let ?d = "(poll now d)\<lparr>df_core := (df_core (poll now d))\<lparr>co_queue := q\<rparr>\<rparr>"
  have ok: "machine_ok rinv ?d" and st: "error_settled (df_core ?d)"
    using poll_ok [OF d] q settled by (simp_all add: machine_ok_def poll_def)
  show ?thesis
  proof (cases e)
    case None
    with step q st show ?thesis by (simp add: dfu_step_def dfu_pop_def)
  next
    case (Some ev)
    let ?p = "(poll now ?d)\<lparr>df_core := (df_core (poll now ?d))\<lparr>co_current := ev\<rparr>\<rparr>"
    obtain d1 fx1 where l: "lib_sm_run R E ?p fx = Some (d1, fx1)" "d' = d1\<lparr>df_core := (df_core d1)\<lparr>co_current := EVENT_NONE\<rparr>\<rparr>"
      using step q Some by (auto simp: dfu_step_def dfu_pop_def run_event_def bind_eq_Some_conv Let_def)
    have "machine_ok rinv ?p" "error_settled (df_core ?p)"
      using q(3) Some poll_ok [OF ok] st by (simp_all add: machine_ok_def poll_def)
    with lib_sm_run_settled [OF l(1)] l(2) show ?thesis by simp
  qed
qed

lemma move_settled:
  assumes "dfu_move R E x y" "machine_ok rinv (fst x)" "error_settled (df_core (fst x))"
  shows "error_settled (df_core (fst y))"
  using assms
proof (cases rule: dfu_move.cases)
  case (message body d d' a fx)
  then show ?thesis using assms(3) on_message_queue_only [of R body d d' a] by (simp add: error_settled_def)
next
  case (initiate info dst notify timeout internal d fx d' fx' ok)
  then show ?thesis using assms(3)
    by (auto simp: initiate_update_def error_settled_def post_eq Let_def case_prod_beta split: if_splits)
next
  case (polled d fx now)
  then show ?thesis using assms(3) by (simp add: poll_def)
next
  case (stepped now d fx d' fx' k)
  then show ?thesis using assms step_settled by auto
qed

lemma move_guard:
  assumes "dfu_move R E x y" "machine_ok rinv (fst x)" "ready (good (df_roles (fst x))) (df_core (fst x))"
  shows "ready (good (df_roles (fst y))) (df_core (fst y))"
  using assms
proof (cases rule: dfu_move.cases)
  case (message body d d' a fx)
  then show ?thesis using assms(3) on_message_queue_only [of R body d d' a] by (auto simp: ready_def moving_def)
next
  case (initiate info dst notify timeout internal d fx d' fx' ok)
  then show ?thesis using assms(3)
    by (auto simp: initiate_update_def ready_def moving_def post_eq Let_def case_prod_beta split: if_splits)
next
  case (polled d fx now)
  then show ?thesis using assms(3) poll_guard by auto
next
  case (stepped now d fx d' fx' k)
  then show ?thesis using assms step_guard by auto
qed

lemma reachable_guard:
  assumes "(dfu_move R E)\<^sup>*\<^sup>* (dfu_new self info r, fx0) (d, fx)" "rinv r"
  shows "machine_ok rinv d \<and> ready (good (df_roles d)) (df_core d)"
  using assms(1)
proof (induction "(d, fx)" arbitrary: d fx rule: rtranclp_induct)
  case base
  then show ?case using new_ok [OF assms(2), of self info] by (simp add: dfu_new_def ready_def moving_def)
next
  case (step y)
  then show ?case using move_ok move_guard by (cases y) fastforce
qed

text \<open>Nothing is activated, and no reboot asked for, unless \<open>good\<close> holds.\<close>

lemma activated_good:
  assumes "(dfu_move R E)\<^sup>*\<^sup>* (dfu_new self info r, fx0) (d, fx)" "rinv r"
    "co_state (df_core d) \<in> {ClientRebootReq, ClientActivating}"
  shows "good (df_roles d)"
  using reachable_guard [OF assms(1,2)] assms(3) by (auto simp: ready_def moving_def)

end

section \<open>Only a verified image is activated\<close>

definition verified :: "Client \<Rightarrow> bool" where
  "verified cl \<longleftrightarrow> cl_image_size cl = cl_flash_offset cl \<and> cl_crc16 cl = cl_running_crc16 cl"

lemma core_op_fields [simp]:
  "co_pending (start_timer t c) = co_pending c" "co_state (start_timer t c) = co_state c"
  "co_pending (stop_timer t c) = co_pending c" "co_state (stop_timer t c) = co_state c"
  "co_pending (delay ms c) = co_pending c" "co_state (delay ms c) = co_state c"
  "co_pending (set_error err c) = co_pending c" "co_state (set_error err c) = co_state c"
  "co_state (client_transition_to_error err c) = co_state c"
  by (simp_all add: start_timer_def stop_timer_def delay_def set_error_def client_transition_to_error_def)

lemma verified_fields [simp]:
  "verified (cl\<lparr>cl_chunk_retry_num := n\<rparr>) = verified cl" "verified (cl\<lparr>cl_host_node_id := h\<rparr>) = verified cl"
  by (simp_all add: verified_def)

lemma request_pending:
  assumes "process_update_request E cl c fx = Some (cl', c', fx')"
  shows "co_state c' = co_state c \<and> co_pending c' \<in> {co_pending c, Some Error, Some ClientReceiving}"
proof (cases "event_body (co_current c) = Some None")
  case True
  with assms show ?thesis by (simp add: process_update_request_def)
next
  case False
  then obtain body where b: "event_body (co_current c) = Some (Some body)"
    using assms by (auto simp: process_update_request_def bind_eq_Some_conv)
  obtain offer where o: "body_offer body = Some offer" using body_offer_total by blast
  show ?thesis
  proof (cases offer)
    case None
    with b o assms show ?thesis by (simp add: process_update_request_def)
  next
    case (Some x)
    obtain a i where x: "x = (a, i)" by (cases x)
    obtain n where "count_chunks i = Some n" using count_chunks_total by blast
    with b Some o x assms show ?thesis
      by (simp add: process_update_request_def case_prod_beta Let_def split: if_splits) auto
  qed
qed

lemma receive_chunk_pending:
  assumes "receive_chunk E chunk cl c fx = Some (cl', c', fx')"
  shows "co_state c' = co_state c \<and> co_pending c' \<in> {co_pending c, Some Error, Some ClientValidating}"
  using assms by (auto simp: receive_chunk_def bind_eq_Some_conv case_prod_beta Let_def split: if_splits)

lemma receiving_run_pending:
  assumes "receiving_run E cl c fx = Some (cl', c', fx')"
  shows "co_state c' = co_state c \<and> co_pending c' \<in> {co_pending c, Some Error, Some ClientValidating}"
  using assms receive_chunk_pending [of E _ cl c fx cl' c' fx']
  by (auto simp: receiving_run_def Let_def bind_eq_Some_conv split: EventType.splits option.splits if_splits)

lemma client_entry_guard:
  assumes "client_entry E s cl c fx = Some (cl', c', fx')" "co_state c = s" "co_pending c = None" "moving (verified cl) c"
  shows "ready (verified cl') c'"
  using assms
  by (cases s) (auto simp: client_entry_def receiving_entry_def validating_entry_def reboot_req_entry_def
      update_done_entry_def fail_update_and_reboot_def Let_def ready_def moving_def verified_def restart_transfer_def
      split: if_splits)

lemma client_run_guard:
  assumes "client_run E s cl c fx = Some (cl', c', fx')" "co_state c = s" "ready (verified cl) c"
  shows "moving (verified cl') c'"
proof (cases "s = ClientReceiving")
  case True
  with assms have "receiving_run E cl c fx = Some (cl', c', fx')" by (simp add: client_run_def)
  from receiving_run_pending [OF this] True assms(2,3) show ?thesis by (auto simp: ready_def moving_def)
next
  case False
  with assms show ?thesis
    by (cases s) (auto simp: client_run_def reboot_req_run_def update_done_run_def fail_update_and_reboot_def
        Let_def ready_def moving_def bind_eq_Some_conv split: if_splits EventType.splits)
qed

lemma client_request_guard:
  assumes "process_update_request E cl c fx = Some (cl', c', fx')" "co_state c = Idle" "ready (verified cl) c"
  shows "moving (verified cl') c'"
  using request_pending [OF assms(1)] assms(2,3) by (auto simp: ready_def moving_def)

interpretation client: guarded_activation "client_roles E" E client_ok verified
  by unfold_locales
    (auto simp: client_roles_def intro: client_entry_guard client_run_guard client_request_guard)

section \<open>Properties\<close>

lemma client_store:
  assumes "flash_works E slot" "client_ok cl" "\<forall>x\<in>set xs. x \<noteq> [] \<and> length x \<le> 1024" "xs \<noteq> []"
    "length xs = unat (cl_num_chunks cl)" "length (concat xs) \<le> length (slot fx)" "length (slot fx) < 2 ^ 32"
  shows "\<exists>cl' c' fx'. receive_chunks E xs (restart_transfer cl) c fx = Some (cl', c', fx') \<and>
    slot fx' = concat xs @ drop (length (concat xs)) (slot fx) \<and> co_pending c' = Some ClientValidating \<and>
    (co_pending (fst (snd (validating_entry E cl' (c'\<lparr>co_state := ClientValidating, co_pending := None\<rparr>) fx'))) =
       Some ClientRebootReq \<longleftrightarrow>
     unat (cl_image_size cl) = length (concat xs) \<and> cl_crc16 cl = crc16_ccitt 0 (concat xs))"
proof -
  let ?cl = "restart_transfer cl"
  have "length (cl_page_buf cl) = 2048" using assms(2) by (simp add: client_ok_def)
  from gathers_start [OF this] have g: "gathers (slot fx) [] ?cl (slot fx)" .
  have "unat (cl_current_chunk ?cl) + length xs = unat (cl_num_chunks ?cl)"
    using assms(5) by (simp add: restart_transfer_def)
  from receive_chunks_gathers [OF assms(1,7) g assms(4,3) _ this, of c] assms(6) obtain cl' c' fx' where
    r: "receive_chunks E xs ?cl c fx = Some (cl', c', fx')" and s: "slot fx' = put (slot fx) 0 (concat xs)"
    and j: "same_job ?cl cl'" "cl_running_crc16 cl' = crc16_ccitt (cl_running_crc16 ?cl) (concat xs)"
      "cl_flash_offset cl' = of_nat (length (concat xs))" "co_pending c' = Some ClientValidating" by auto
  have n: "cl_image_size cl = of_nat (length (concat xs)) \<longleftrightarrow> unat (cl_image_size cl) = length (concat xs)"
    using assms(6,7) by (auto simp: unat_of_nat word_unat_eq_iff)
  show ?thesis using r s j n assms(6)
    by (auto simp: put_0 validating_entry_def same_job_def restart_transfer_def)
qed

text \<open>Property C35. A client that is sent its chunks in order, each of 1 to 1024 bytes, over a slot that
  works stores exactly their concatenation at the start of the slot, whatever the sizes of the
  chunks and of the pages, counts every byte and keeps the CRC-16 of the whole. It then moves
  to validating, and validating asks to reboot if and only if the length and the CRC the host
  offered are those of the bytes that were stored.\<close>

theorem client_stores_and_validates_image:
  assumes "flash_works E slot" "client_ok cl" "\<forall>x\<in>set xs. x \<noteq> [] \<and> length x \<le> 1024" "xs \<noteq> []"
    "length xs = unat (cl_num_chunks cl)" "length (concat xs) \<le> length (slot fx)" "length (slot fx) < 2 ^ 32"
  shows "\<exists>cl' c' fx'. receive_chunks E xs (restart_transfer cl) c fx = Some (cl', c', fx') \<and>
    slot fx' = concat xs @ drop (length (concat xs)) (slot fx) \<and> co_pending c' = Some ClientValidating \<and>
    (co_pending (fst (snd (validating_entry E cl' (c'\<lparr>co_state := ClientValidating, co_pending := None\<rparr>) fx'))) =
       Some ClientRebootReq \<longleftrightarrow>
     unat (cl_image_size cl) = length (concat xs) \<and> cl_crc16 cl = crc16_ccitt 0 (concat xs))"
  by (rule client_store [OF assms])

definition sample_flash :: "bytes Effects" where
  "sample_flash = \<lparr>fx_send = (\<lambda>_ fx. fx), fx_lpm_peripheral_active = (\<lambda>fx. fx),
     fx_lpm_peripheral_inactive = (\<lambda>fx. fx), fx_update_finished = (\<lambda>_ _ _ fx. fx), fx_flash_open = (\<lambda>fx. (True, fx)),
     fx_flash_close = (\<lambda>fx. (True, fx)), fx_flash_size = (\<lambda>fx. (of_nat (length fx), fx)),
     fx_flash_erase = (\<lambda>_ _ fx. (True, fx)),
     fx_flash_write = (\<lambda>off d fx. if unat off + length d \<le> length fx then (True, put fx (unat off) d) else (False, fx)),
     fx_host_get_chunk = (\<lambda>_ n fx. (True, replicate n 0, fx)),
     fx_set_confirmed = (\<lambda>fx. fx), fx_set_pending_and_reset = (\<lambda>fx. fx), fx_fail_update_and_reset = (\<lambda>fx. fx),
     fx_git_sha = (\<lambda>_. 0), fx_get_uint = (\<lambda>_ _ _. None), fx_set_uint = (\<lambda>_ _ _ fx. fx),
     fx_commit_config = (\<lambda>_ fx. (True, fx))\<rparr>"

lemma sample_flash_works: "flash_works sample_flash (\<lambda>fx. fx)"
  by (simp add: flash_works_def sample_flash_def)

theorem client_stores_and_validates_image_witness:
  "\<exists>cl' c' fx'. receive_chunks sample_flash [[1, 2], [3]] (restart_transfer (client_new\<lparr>cl_num_chunks := 2\<rparr>))
      (df_core sample_dfu) [9, 9, 9, 9, 9] = Some (cl', c', fx') \<and> fx' = [1, 2, 3, 9, 9]"
  using client_stores_and_validates_image [OF sample_flash_works, of "client_new\<lparr>cl_num_chunks := 2\<rparr>" "[[1, 2], [3]]"
      "[9, 9, 9, 9, 9]" "df_core sample_dfu"]
  by (auto simp: client_ok_def client_new_def)

text \<open>Timeout after timeout in \<open>ClientReceiving\<close>, with nothing arriving between them.\<close>

fun chunk_timeouts :: "nat \<Rightarrow> 'fx Effects \<Rightarrow> Client \<Rightarrow> Core \<Rightarrow> 'fx \<Rightarrow> (Client \<times> Core \<times> 'fx) option" where
  "chunk_timeouts 0 E cl c fx = Some (cl, c, fx)"
| "chunk_timeouts (Suc n) E cl c fx = do {
     (cl, c, fx) \<leftarrow> receiving_run E cl (c\<lparr>co_current := event_bare EvChunkTimeout\<rparr>) fx;
     chunk_timeouts n E cl c fx
   }"

lemma four_five: "(4 :: nat) = Suc (Suc (Suc (Suc 0)))" "(5 :: nat) = Suc (Suc (Suc (Suc (Suc 0))))"
  by simp_all

lemma retries_one: "\<not> (5 :: u8) \<le> 1"
  by (simp add: word_le_nat_alt)

text \<open>A client whose host falls silent asks for the same chunk again at each of four timeouts, each
  time starting the timer anew, and at the fifth tells the host it aborts, stops the timer and
  fails with a timeout: it never waits for ever.\<close>

theorem silent_host_times_out:
  fixes E :: "'fx Effects" and c :: Core
  assumes "cl_chunk_retry_num cl = 0"
  defines "ask \<equiv> fx_send E (DPayloadReq \<lparr>rq_addresses = to_host c (cl_host_node_id cl), rq_seq_num = cl_current_chunk cl\<rparr>)"
  shows "(\<exists>cl' c'. chunk_timeouts 4 E cl c fx = Some (cl', c', (ask ^^ 4) fx) \<and> co_pending c' = co_pending c \<and>
      co_timers c' Chunk = Some (core_now c + co_periods c Chunk)) \<and>
    (\<exists>cl' c'. chunk_timeouts 5 E cl c fx =
      Some (cl', c', fx_send E (DAbort \<lparr>rs_addresses = to_host c (cl_host_node_id cl), rs_success = 0, rs_err_code = 8\<rparr>) ((ask ^^ 4) fx)) \<and>
      co_pending c' = Some Error \<and> co_error c' = ERR_TIMEOUT \<and> co_timers c' Chunk = None)"
  using assms(1) unfolding ask_def four_five
  by (simp_all add: retries_one receiving_run_def event_bare_def MAX_CHUNK_RETRIES_def Let_def req_next_chunk_def
      address_to_def to_host_def start_timer_def core_now_def client_abort_def client_transition_to_error_def
      set_pending_state_change_def post_eq set_error_def stop_timer_def ERR_ABORTED_def)

theorem silent_host_times_out_witness:
  "\<exists>cl' c'. chunk_timeouts 5 sample_effects client_new (df_core sample_dfu) [] = Some (cl', c',
     DAbort \<lparr>rs_addresses = \<lparr>src_node_id = 1, dst_node_id = 0\<rparr>, rs_success = 0, rs_err_code = 8\<rparr> #
     replicate 4 (DPayloadReq \<lparr>rq_addresses = \<lparr>src_node_id = 1, dst_node_id = 0\<rparr>, rq_seq_num = 0\<rparr>))"
  using silent_host_times_out [of client_new sample_effects "df_core sample_dfu" "[]"]
  by (auto simp: client_new_def sample_effects_def sample_dfu_def dfu_new_def to_host_def four_five(1))

end
