(* ===== verification/Dfu_Host.thy ===== *)
theory Dfu_Host
  imports Dfu_Client
begin

text \<open>
  \<open>bm-wire/src/bcmp/dfu_host.rs\<close>: the node that offers an image and serves its chunks, either
  out of its own slot or out of a bounded byte stream the application feeds, and
  \<open>ClientHost\<close>, a node with both roles. The theory shows that the stream is a FIFO, that the
  host serves the image in order whatever is asked for, and that a node with both roles never
  panics, activates only what it has verified and stays in the error state after a fatal error.
\<close>

section \<open>The byte stream\<close>

definition MAX_ACK_RETRIES :: u8 where "MAX_ACK_RETRIES = 2"
definition SUCCESS_OFFSET :: nat where "SUCCESS_OFFSET = DFU_MIN_LEN"
definition ERR_CODE_OFFSET :: nat where "ERR_CODE_OFFSET = DFU_MIN_LEN + 1"

record StreamBuffer =
  sb_storage :: bytes
  sb_capacity :: nat
  sb_head :: nat
  sb_count :: nat

definition stream_new :: "nat \<Rightarrow> StreamBuffer option" where
  "stream_new capacity =
     (if 1 \<le> capacity \<and> capacity \<le> DFU_MAX_CHUNK_SIZE
      then Some \<lparr>sb_storage = replicate DFU_MAX_CHUNK_SIZE 0, sb_capacity = capacity, sb_head = 0, sb_count = 0\<rparr>
      else None)"

text \<open>The index of the loops, with the panic of a remainder by zero.\<close>

definition stream_index :: "StreamBuffer \<Rightarrow> nat \<Rightarrow> nat option" where
  "stream_index s i = (if sb_capacity s = 0 then None else Some ((sb_head s + i) mod sb_capacity s))"

fun stream_write :: "StreamBuffer \<Rightarrow> nat \<Rightarrow> bytes \<Rightarrow> StreamBuffer option" where
  "stream_write s i [] = Some s"
| "stream_write s i (b # bs) = do {
     k \<leftarrow> stream_index s (sb_count s + i);
     st \<leftarrow> set_at (sb_storage s) k b;
     stream_write (s\<lparr>sb_storage := st\<rparr>) (i + 1) bs
   }"

definition stream_send :: "bytes \<Rightarrow> StreamBuffer \<Rightarrow> (StreamBuffer \<times> bool) option" where
  "stream_send data s =
     (if sb_count s + length data > sb_capacity s then Some (s, False)
      else do {
        s \<leftarrow> stream_write s 0 data;
        Some (s\<lparr>sb_count := sb_count s + length data\<rparr>, True)
      })"

fun stream_read :: "StreamBuffer \<Rightarrow> nat \<Rightarrow> nat \<Rightarrow> bytes \<Rightarrow> bytes option" where
  "stream_read s i 0 buf = Some buf"
| "stream_read s i (Suc n) buf = do {
     k \<leftarrow> stream_index s i;
     b \<leftarrow> get_at (sb_storage s) k;
     buf \<leftarrow> set_at buf i b;
     stream_read s (i + 1) n buf
   }"

definition stream_receive :: "bytes \<Rightarrow> StreamBuffer \<Rightarrow> (StreamBuffer \<times> bytes \<times> nat option) option" where
  "stream_receive buf s =
     (if sb_count s = 0 then Some (s, buf, None)
      else let n = min (sb_count s) (length buf) in do {
        buf \<leftarrow> stream_read s 0 n buf;
        h \<leftarrow> stream_index s n;
        Some (s\<lparr>sb_head := h, sb_count := sb_count s - n\<rparr>, buf, Some n)
      })"

section \<open>The host\<close>

record Host =
  ho_img_info :: ImgInfo
  ho_client_node_id :: u64
  ho_bytes_remaining :: u32
  ho_ack_retry_num :: u8
  ho_notify :: bool
  ho_timeout_ms :: u32
  ho_stream :: "StreamBuffer option"

definition host_new :: Host where
  "host_new = \<lparr>ho_img_info = \<lparr>image_size = 0, chunk_size = 0, crc16 = 0, major_ver = 0, minor_ver = 0,
     filter_key = 0, git_sha = 0\<rparr>, ho_client_node_id = 0, ho_bytes_remaining = 0, ho_ack_retry_num = 0,
     ho_notify = False, ho_timeout_ms = 0, ho_stream = None\<rparr>"

definition next_chunk_len :: "Host \<Rightarrow> u32" where
  "next_chunk_len h = min (ho_bytes_remaining h) (ucast (chunk_size (ho_img_info h)))"

definition set_params :: "bool \<Rightarrow> u32 \<Rightarrow> Host \<Rightarrow> Host" where
  "set_params notify timeout_ms h = h\<lparr>ho_notify := notify, ho_timeout_ms := timeout_ms\<rparr>"

definition client_node_valid :: "u64 \<Rightarrow> Host \<Rightarrow> bool" where
  "client_node_valid node_id h \<longleftrightarrow> ho_client_node_id h = node_id"

definition queue_data :: "bytes \<Rightarrow> Host \<Rightarrow> (Host \<times> bool) option" where
  "queue_data data h =
     (case ho_stream h of
        None \<Rightarrow> Some (h, False)
      | Some s \<Rightarrow> do { (s, ok) \<leftarrow> stream_send data s; Some (h\<lparr>ho_stream := Some s\<rparr>, ok) })"

definition to_client :: "Core \<Rightarrow> Host \<Rightarrow> DfuAddress" where
  "to_client c h = \<lparr>src_node_id = co_self_node_id c, dst_node_id = ho_client_node_id h\<rparr>"

definition host_transition_to_error :: "DfuErr \<Rightarrow> Core \<Rightarrow> Core" where
  "host_transition_to_error err c =
     set_pending_state_change Error (set_error err (stop_timer Ack (stop_timer Update c)))"

definition req_update :: "'fx Effects \<Rightarrow> Host \<Rightarrow> Core \<Rightarrow> 'fx \<Rightarrow> 'fx" where
  "req_update E h c fx = fx_send E (DStart \<lparr>st_addresses = to_client c h, st_img_info = ho_img_info h\<rparr>) fx"

definition event_offer :: "Event \<Rightarrow> (DfuAddress \<times> ImgInfo) option option" where
  "event_offer e =
     (case ev_data e of
        DataNone \<Rightarrow> Some None
      | DataHostStart start \<Rightarrow> Some (Some (st_addresses (hs_start start), st_img_info (hs_start start)))
      | DataMessage len bs \<Rightarrow> do { body \<leftarrow> range_at bs 0 len; body_offer body })"

definition req_update_entry :: "'fx Effects \<Rightarrow> Host \<Rightarrow> Core \<Rightarrow> 'fx \<Rightarrow> (Host \<times> Core \<times> 'fx) option" where
  "req_update_entry E h c fx = do {
     offer \<leftarrow> event_offer (co_current c);
     case offer of
       None \<Rightarrow> Some (h, c, fx)
     | Some (addresses, info) \<Rightarrow>
         let h = h\<lparr>ho_img_info := info, ho_bytes_remaining := image_size info,
                   ho_client_node_id := dst_node_id addresses, ho_ack_retry_num := 0\<rparr>;
             fx = req_update E h c fx;
             h = (if \<not> co_internal c then h\<lparr>ho_stream := stream_new (unat (chunk_size info))\<rparr> else h)
         in Some (h, start_timer Ack c, fx)
   }"

text \<open>\<open>result\<close> and \<open>abort_error\<close> return an option; the outer one is the panic of the slice.\<close>

definition host_result :: "Core \<Rightarrow> (u8 \<times> u8) option option" where
  "host_result c = do {
     b \<leftarrow> event_body (co_current c);
     Some (do {
       body \<leftarrow> b;
       success \<leftarrow> get_at body SUCCESS_OFFSET;
       err_code \<leftarrow> get_at body ERR_CODE_OFFSET;
       Some (success, err_code)
     })
   }"

definition abort_error :: "Core \<Rightarrow> DfuErr option option" where
  "abort_error c = do {
     b \<leftarrow> event_body (co_current c);
     Some (case b of
        None \<Rightarrow> Some ERR_ABORTED
      | Some body \<Rightarrow> get_at body ERR_CODE_OFFSET)
   }"

definition req_update_run :: "'fx Effects \<Rightarrow> Host \<Rightarrow> Core \<Rightarrow> 'fx \<Rightarrow> (Host \<times> Core \<times> 'fx) option" where
  "req_update_run E h c fx =
     (case ev_kind (co_current c) of
        EvAckReceived \<Rightarrow>
          let c = stop_timer Ack c in do {
          res \<leftarrow> host_result c;
          case res of
             None \<Rightarrow> Some (h, c, fx)
           | Some (success, err_code) \<Rightarrow>
               if success \<noteq> 0 then Some (h, set_pending_state_change HostUpdate c, fx)
               else Some (h, host_transition_to_error err_code c, fx)
          }
      | EvAckTimeout \<Rightarrow>
          let h = h\<lparr>ho_ack_retry_num := ho_ack_retry_num h + 1\<rparr> in
          if ho_ack_retry_num h \<ge> MAX_ACK_RETRIES then Some (h, host_transition_to_error ERR_TIMEOUT c, fx)
          else Some (h, start_timer Ack c, req_update E h c fx)
      | EvAbort \<Rightarrow> do {
          res \<leftarrow> abort_error c;
          case res of
             None \<Rightarrow> Some (h, c, fx)
           | Some err \<Rightarrow> Some (h, host_transition_to_error err c, fx)
        }
      | _ \<Rightarrow> Some (h, c, fx))"

text \<open>The chunk's bytes in a buffer of zeros, and how many of them were read.\<close>

definition read_chunk :: "'fx Effects \<Rightarrow> nat \<Rightarrow> Host \<Rightarrow> Core \<Rightarrow> 'fx \<Rightarrow> (Host \<times> 'fx \<times> bytes \<times> nat option) option" where
  "read_chunk E len h c fx =
     (if co_internal c then
        let offset = of_nat IMG_INFO_LEN + image_size (ho_img_info h) - ho_bytes_remaining h;
            (ok, data, fx) = fx_host_get_chunk E offset len fx
        in Some (h, fx, put (replicate len 0) 0 (take len data), if ok then Some len else None)
      else
        (case ho_stream h of
           None \<Rightarrow> Some (h, fx, replicate len 0, None)
         | Some s \<Rightarrow> do {
             (s, buf, n) \<leftarrow> stream_receive (replicate len 0) s;
             Some (h\<lparr>ho_stream := Some s\<rparr>, fx, buf, n)
           }))"

definition send_chunk :: "'fx Effects \<Rightarrow> Host \<Rightarrow> Core \<Rightarrow> 'fx \<Rightarrow> (Host \<times> Core \<times> 'fx) option" where
  "send_chunk E h c fx = do {
     let len = min (unat (next_chunk_len h)) DFU_MAX_CHUNK_SIZE;
     (h, fx, buf, n) \<leftarrow> read_chunk E len h c fx;
     case n of
       None \<Rightarrow> Some (h, host_transition_to_error ERR_FLASH_ACCESS c, fx)
     | Some n \<Rightarrow>
         let fx = fx_send E (DPayload \<lparr>ch_addresses = to_client c h, ch_payload = buf\<rparr>) fx in
         if ho_bytes_remaining h < of_nat n then None
         else Some (h\<lparr>ho_bytes_remaining := ho_bytes_remaining h - of_nat n\<rparr>, c, fx)
   }"

definition update_run :: "'fx Effects \<Rightarrow> Host \<Rightarrow> Core \<Rightarrow> 'fx \<Rightarrow> (Host \<times> Core \<times> 'fx) option" where
  "update_run E h c fx = do {
     b \<leftarrow> event_body (co_current c);
     let has_body = (b \<noteq> None);
     case ev_kind (co_current c) of
       EvChunkRequest \<Rightarrow> if has_body then send_chunk E h c fx else Some (h, c, fx)
     | EvRebootRequest \<Rightarrow> Some (h, c, fx_send E (DReboot (to_client c h)) fx)
     | EvBootComplete \<Rightarrow>
         if has_body then Some (h, c, update_end E (ho_client_node_id h) 1 ERR_NONE c fx) else Some (h, c, fx)
     | EvUpdateEnd \<Rightarrow>
         let c = stop_timer Update c in do {
         res \<leftarrow> host_result c;
         case res of
            None \<Rightarrow> Some (h, c, fx)
          | Some (success, err_code) \<Rightarrow>
              let fx = (if ho_notify h then fx_update_finished E (success \<noteq> 0) err_code (ho_client_node_id h) fx else fx)
              in Some (h, set_pending_state_change Idle c, fx)
         }
     | EvAbort \<Rightarrow> do {
         res \<leftarrow> abort_error c;
         case res of
            None \<Rightarrow> Some (h, c, fx)
          | Some err \<Rightarrow> Some (h, host_transition_to_error err c, fx)
       }
     | _ \<Rightarrow> Some (h, c, fx)
   }"

definition host_entry :: "'fx Effects \<Rightarrow> State \<Rightarrow> Host \<Rightarrow> Core \<Rightarrow> 'fx \<Rightarrow> (Host \<times> Core \<times> 'fx) option" where
  "host_entry E s h c fx =
     (case s of
        HostReqUpdate \<Rightarrow> req_update_entry E h c fx
      | HostUpdate \<Rightarrow> Some (h, change_period Update (ho_timeout_ms h) c, fx)
      | _ \<Rightarrow> Some (h, c, fx))"

definition host_run :: "'fx Effects \<Rightarrow> State \<Rightarrow> Host \<Rightarrow> Core \<Rightarrow> 'fx \<Rightarrow> (Host \<times> Core \<times> 'fx) option" where
  "host_run E s h c fx =
     (case s of
        HostReqUpdate \<Rightarrow> req_update_run E h c fx
      | HostUpdate \<Rightarrow> update_run E h c fx
      | _ \<Rightarrow> Some (h, c, fx))"

definition host_exit :: "State \<Rightarrow> Host \<Rightarrow> Host" where
  "host_exit s h = (if s = HostUpdate then h\<lparr>ho_stream := None\<rparr> else h)"

section \<open>A node with both roles\<close>

record ClientHost =
  chst_client :: Client
  chst_host :: Host

definition client_host_new :: ClientHost where
  "client_host_new = \<lparr>chst_client = client_new, chst_host = host_new\<rparr>"

definition in_client :: "ClientHost \<Rightarrow> (Client \<times> Core \<times> 'fx) option \<Rightarrow> (ClientHost \<times> Core \<times> 'fx) option" where
  "in_client r x = do { (cl, c, fx) \<leftarrow> x; Some (r\<lparr>chst_client := cl\<rparr>, c, fx) }"

definition in_host :: "ClientHost \<Rightarrow> (Host \<times> Core \<times> 'fx) option \<Rightarrow> (ClientHost \<times> Core \<times> 'fx) option" where
  "in_host r x = do { (h, c, fx) \<leftarrow> x; Some (r\<lparr>chst_host := h\<rparr>, c, fx) }"

definition client_host_roles :: "'fx Effects \<Rightarrow> (ClientHost, 'fx) Roles" where
  "client_host_roles E =
     \<lparr>ro_entry = (\<lambda>s r c fx. if is_client s then in_client r (client_entry E s (chst_client r) c fx)
                             else in_host r (host_entry E s (chst_host r) c fx)),
      ro_run = (\<lambda>s r c fx. if is_client s then in_client r (client_run E s (chst_client r) c fx)
                           else in_host r (host_run E s (chst_host r) c fx)),
      ro_exit = (\<lambda>s r c fx. Some (r\<lparr>chst_host := host_exit s (chst_host r)\<rparr>, c, fx)),
      ro_client_process_update_request = (\<lambda>r c fx. in_client r (process_update_request E (chst_client r) c fx)),
      ro_host_set_params = (\<lambda>notify timeout r. r\<lparr>chst_host := set_params notify timeout (chst_host r)\<rparr>),
      ro_client_host_node_valid = (\<lambda>n r. host_node_valid n (chst_client r)),
      ro_host_client_node_valid = (\<lambda>n r. client_node_valid n (chst_host r))\<rparr>"

section \<open>The stream is a FIFO of bytes\<close>

definition wf_stream :: "StreamBuffer \<Rightarrow> bool" where
  "wf_stream s \<longleftrightarrow> 0 < sb_capacity s \<and> sb_capacity s \<le> 1024 \<and> sb_head s < sb_capacity s \<and>
     sb_count s \<le> sb_capacity s \<and> length (sb_storage s) = 1024"

definition stream_contents :: "StreamBuffer \<Rightarrow> bytes" where
  "stream_contents s = ring (sb_storage s) (sb_capacity s) (sb_head s) (sb_count s)"

text \<open>A send is all or nothing; a receive fills the front of its buffer with what there is.\<close>

locale byte_stream =
  fixes wf :: "'s \<Rightarrow> bool"
    and contents :: "'s \<Rightarrow> bytes"
    and cap :: "'s \<Rightarrow> nat"
    and send :: "bytes \<Rightarrow> 's \<Rightarrow> ('s \<times> bool) option"
    and receive :: "bytes \<Rightarrow> 's \<Rightarrow> ('s \<times> bytes \<times> nat option) option"
  assumes bounded: "wf s \<Longrightarrow> length (contents s) \<le> cap s"
    and send_full: "wf s \<Longrightarrow> cap s < length (contents s) + length d \<Longrightarrow> send d s = Some (s, False)"
    and send_room: "wf s \<Longrightarrow> length (contents s) + length d \<le> cap s \<Longrightarrow>
      \<exists>s'. send d s = Some (s', True) \<and> wf s' \<and> cap s' = cap s \<and> contents s' = contents s @ d"
    and receive_empty: "wf s \<Longrightarrow> contents s = [] \<Longrightarrow> receive buf s = Some (s, buf, None)"
    and receive_some: "wf s \<Longrightarrow> contents s \<noteq> [] \<Longrightarrow>
      \<exists>s'. receive buf s = Some (s', put buf 0 (take (length buf) (contents s)), Some (min (length (contents s)) (length buf))) \<and>
        wf s' \<and> cap s' = cap s \<and> contents s' = drop (length buf) (contents s)"
begin

lemma send_total: "wf s \<Longrightarrow> \<exists>s' ok. send d s = Some (s', ok) \<and> wf s' \<and> cap s' = cap s"
  using send_full [of s d] send_room [of s d] by (cases "cap s < length (contents s) + length d") auto

lemma receive_total:
  "wf s \<Longrightarrow> \<exists>s' buf' n. receive buf s = Some (s', buf', n) \<and> wf s' \<and> length buf' = length buf \<and>
     (\<forall>k. n = Some k \<longrightarrow> k \<le> length buf)"
  using receive_empty [of s buf] receive_some [of s buf]
  by (cases "contents s = []") (auto simp: length_put)

text \<open>What is fed in whole comes out in whole, and nothing stays behind.\<close>

lemma feed_read:
  assumes "wf s" "contents s = []" "d \<noteq> []" "length d \<le> cap s" "length buf = length d" "send d s = Some (s1, ok)"
  shows "ok \<and> (\<exists>s2. receive buf s1 = Some (s2, d, Some (length d)) \<and> wf s2 \<and> contents s2 = [])"
proof -
  have 1: "ok" "wf s1" "contents s1 = d" using send_room [OF assms(1), of d] assms by auto
  moreover have "put buf 0 d = d" using assms(5) by (simp add: put_def)
  ultimately show ?thesis using receive_some [OF 1(2), of buf] assms(3,5) by auto
qed

end

lemma stream_write_eq:
  assumes "sb_count s + i + length d \<le> sb_capacity s" "sb_capacity s \<le> length (sb_storage s)" "0 < sb_capacity s"
  shows "\<exists>st. stream_write s i d = Some (s\<lparr>sb_storage := st\<rparr>) \<and> length st = length (sb_storage s) \<and>
    ring st (sb_capacity s) (sb_head s) (sb_count s + i + length d) =
    ring (sb_storage s) (sb_capacity s) (sb_head s) (sb_count s + i) @ d"
  using assms
proof (induction d arbitrary: s i)
  case (Cons b bs)
  let ?k = "(sb_head s + (sb_count s + i)) mod sb_capacity s"
  let ?s = "s\<lparr>sb_storage := (sb_storage s)[?k := b]\<rparr>"
  have k: "?k < length (sb_storage s)" using mod_less_divisor [OF Cons.prems(3)] Cons.prems(2) by (rule order.strict_trans2)
  have push: "ring (sb_storage ?s) (sb_capacity s) (sb_head s) (Suc (sb_count s + i)) =
      ring (sb_storage s) (sb_capacity s) (sb_head s) (sb_count s + i) @ [b]"
    using ring_push [of "sb_count s + i" "sb_capacity s" "sb_storage s" "sb_head s" b] Cons.prems by simp
  obtain st where "stream_write ?s (i + 1) bs = Some (?s\<lparr>sb_storage := st\<rparr>)" "length st = length (sb_storage s)"
    "ring st (sb_capacity s) (sb_head s) (sb_count s + (i + 1) + length bs) =
     ring (sb_storage ?s) (sb_capacity s) (sb_head s) (sb_count s + (i + 1)) @ bs"
    using Cons.IH [of ?s "i + 1"] Cons.prems by auto
  with push k Cons.prems(3) show ?case by (auto simp: stream_index_def set_at_in intro!: exI [of _ st])
qed (auto intro!: exI [of _ "sb_storage _"])

lemma stream_read_eq:
  assumes "i + n \<le> length buf" "0 < sb_capacity s" "sb_capacity s \<le> length (sb_storage s)"
  shows "stream_read s i n buf = Some (put buf i (map (\<lambda>j. sb_storage s ! ((sb_head s + j) mod sb_capacity s)) [i..<i + n]))"
  using assms
proof (induction n arbitrary: i buf)
  case 0
  then show ?case by (simp add: put_def)
next
  case (Suc n)
  have "(sb_head s + i) mod sb_capacity s < length (sb_storage s)"
    using mod_less_divisor [OF Suc.prems(2)] Suc.prems(3) by (rule order.strict_trans2)
  moreover have "put (buf[i := b]) (i + 1) xs = put buf i (b # xs)" for b and xs :: bytes
    using Suc.prems(1) by (simp add: put_def take_Suc_conv_app_nth)
  moreover have "[i..<i + Suc n] = i # [i + 1..<i + 1 + n]" by (simp add: upt_rec [of i])
  ultimately show ?case using Suc by (simp add: stream_index_def get_at_in set_at_in)
qed

lemma take_upt_min: "take m [0..<n] = [0..<min n m]"
  by (cases "m \<le> n") (simp_all add: min_def)

interpretation stream: byte_stream wf_stream stream_contents sb_capacity stream_send stream_receive
proof unfold_locales
  fix s :: StreamBuffer and d buf :: bytes
  assume wf: "wf_stream s"
  show "length (stream_contents s) \<le> sb_capacity s" using wf by (simp add: wf_stream_def stream_contents_def)
  show "sb_capacity s < length (stream_contents s) + length d \<Longrightarrow> stream_send d s = Some (s, False)"
    by (simp add: stream_send_def stream_contents_def)
  show "length (stream_contents s) + length d \<le> sb_capacity s \<Longrightarrow>
      \<exists>s'. stream_send d s = Some (s', True) \<and> wf_stream s' \<and> sb_capacity s' = sb_capacity s \<and>
        stream_contents s' = stream_contents s @ d"
    using stream_write_eq [of s 0 d] wf by (auto simp: stream_send_def stream_contents_def wf_stream_def)
  show "stream_contents s = [] \<Longrightarrow> stream_receive buf s = Some (s, buf, None)"
    by (cases "sb_count s") (simp_all add: stream_contents_def ring_def stream_receive_def)
  show "stream_contents s \<noteq> [] \<Longrightarrow>
      \<exists>s'. stream_receive buf s = Some (s', put buf 0 (take (length buf) (stream_contents s)),
          Some (min (length (stream_contents s)) (length buf))) \<and>
        wf_stream s' \<and> sb_capacity s' = sb_capacity s \<and> stream_contents s' = drop (length buf) (stream_contents s)"
  proof -
    assume "stream_contents s \<noteq> []"
    then have c: "sb_count s \<noteq> 0" by (metis stream_contents_def ring_0)
    let ?n = "min (sb_count s) (length buf)"
    have "stream_read s 0 ?n buf = Some (put buf 0 (take (length buf) (stream_contents s)))"
      using stream_read_eq [of 0 ?n buf s] wf
      by (simp add: wf_stream_def stream_contents_def ring_def take_map take_upt_min)
    moreover have "drop (length buf) (stream_contents s) =
        ring (sb_storage s) (sb_capacity s) ((sb_head s + ?n) mod sb_capacity s) (sb_count s - ?n)"
      using ring_drop [of ?n "sb_count s" "sb_storage s" "sb_capacity s" "sb_head s"]
      by (cases "length buf \<le> sb_count s") (simp_all add: stream_contents_def min.absorb1 min.absorb2)
    ultimately show ?thesis using c wf
      by (auto simp: stream_receive_def stream_index_def wf_stream_def stream_contents_def Let_def)
  qed
qed

lemma stream_new_wf: "stream_new n = Some s \<Longrightarrow> wf_stream s \<and> stream_contents s = []"
  by (auto simp: stream_new_def wf_stream_def stream_contents_def split: if_splits)

section \<open>A node with both roles keeps the contract\<close>

definition host_ok :: "Host \<Rightarrow> bool" where
  "host_ok h \<longleftrightarrow> (\<forall>s. ho_stream h = Some s \<longrightarrow> wf_stream s)"

definition client_host_ok :: "ClientHost \<Rightarrow> bool" where
  "client_host_ok r \<longleftrightarrow> client_ok (chst_client r) \<and> host_ok (chst_host r)"

lemma host_ok_fields [simp]:
  "host_ok (h\<lparr>ho_img_info := i\<rparr>) = host_ok h" "host_ok (h\<lparr>ho_bytes_remaining := n\<rparr>) = host_ok h"
  "host_ok (h\<lparr>ho_client_node_id := k\<rparr>) = host_ok h" "host_ok (h\<lparr>ho_ack_retry_num := m\<rparr>) = host_ok h"
  "host_ok (set_params b t h) = host_ok h" "host_ok host_new" "host_ok h \<Longrightarrow> host_ok (host_exit st h)"
  by (simp_all add: host_ok_def set_params_def host_new_def host_exit_def)

lemma host_ok_stream [simp]: "host_ok (h\<lparr>ho_stream := stream_new n\<rparr>)"
  by (simp add: host_ok_def stream_new_wf)

lemma core_keeps_host_error: "core_keeps a c \<Longrightarrow> core_keeps a (host_transition_to_error err c)"
  by (simp add: host_transition_to_error_def core_keeps_ops)

lemma event_offer_total: "event_fits e \<Longrightarrow> event_offer e \<noteq> None"
  using body_offer_total by (auto simp: event_offer_def event_fits_def range_at_in split: EventData.split)

lemma req_update_entry_ok:
  assumes "host_ok h" "event_fits (co_current c)"
  shows "role_ok host_ok c (req_update_entry E h c fx)"
proof -
  obtain o' where o: "event_offer (co_current c) = Some o'" using event_offer_total [OF assms(2)] by blast
  show ?thesis
  proof (cases o')
    case None
    with o assms show ?thesis by (auto simp: req_update_entry_def)
  next
    case (Some x)
    with o assms show ?thesis
      by (auto simp: req_update_entry_def case_prod_beta Let_def keeps)
  qed
qed

text \<open>A read never takes more than was asked for, and what it yields is as long as was asked for.\<close>

lemma read_chunk_ok:
  assumes "host_ok h"
  shows "\<exists>h' fx' buf n. read_chunk E len h c fx = Some (h', fx', buf, n) \<and> host_ok h' \<and> length buf = len \<and>
    (\<forall>k. n = Some k \<longrightarrow> k \<le> len) \<and> ho_bytes_remaining h' = ho_bytes_remaining h \<and> ho_img_info h' = ho_img_info h \<and>
    ho_client_node_id h' = ho_client_node_id h"
proof (cases "co_internal c \<or> ho_stream h = None")
  case True
  with assms show ?thesis by (auto simp: read_chunk_def case_prod_beta Let_def length_put)
next
  case False
  then obtain s where s: "ho_stream h = Some s" "wf_stream s" using assms by (auto simp: host_ok_def)
  from stream.receive_total [OF s(2), of "replicate len 0"] False s assms show ?thesis
    by (auto simp: read_chunk_def host_ok_def)
qed

lemma send_chunk_ok:
  assumes "host_ok h"
  shows "role_ok host_ok c (send_chunk E h c fx)"
proof -
  let ?len = "min (unat (next_chunk_len h)) 1024"
  obtain h' fx' buf n where r: "read_chunk E ?len h c fx = Some (h', fx', buf, n)" "host_ok h'"
    "\<forall>k. n = Some k \<longrightarrow> k \<le> ?len" "ho_bytes_remaining h' = ho_bytes_remaining h"
    using read_chunk_ok [OF assms, of E ?len c fx] by blast
  have "\<not> ho_bytes_remaining h < of_nat k" if "k \<le> ?len" for k
  proof -
    have "k \<le> unat (ho_bytes_remaining h)" using that by (simp add: next_chunk_len_def min_def word_le_nat_alt split: if_splits)
    then show ?thesis using unsigned_less [of "ho_bytes_remaining h", where ?'a = nat]
      by (simp add: word_less_nat_alt unat_of_nat)
  qed
  with r show ?thesis
    by (cases n) (auto simp: send_chunk_def Let_def core_keeps_host_error)
qed

lemma host_entry_ok: "host_ok h \<Longrightarrow> event_fits (co_current c) \<Longrightarrow> role_ok host_ok c (host_entry E s h c fx)"
  by (cases s) (auto simp: host_entry_def req_update_entry_ok keeps)

lemma current_stop_timer [simp]: "co_current (stop_timer t c) = co_current c"
  by (simp add: stop_timer_def)

lemma host_run_ok:
  assumes "host_ok h" "event_fits (co_current c)"
  shows "role_ok host_ok c (host_run E s h c fx)"
proof -
  obtain b where "event_body (co_current c) = Some b" using event_body_fits [OF assms(2)] by blast
  then show ?thesis using assms(1)
    by (cases s) (auto simp: host_run_def req_update_run_def update_run_def host_result_def abort_error_def
        send_chunk_ok core_keeps_host_error keeps Let_def split: EventType.splits option.splits)
qed

lemma in_client_ok:
  "role_ok client_ok c x \<Longrightarrow> host_ok (chst_host r) \<Longrightarrow> role_ok client_host_ok c (in_client r x)"
  by (auto simp: role_ok_def in_client_def client_host_ok_def)

lemma in_host_ok:
  "role_ok host_ok c x \<Longrightarrow> client_ok (chst_client r) \<Longrightarrow> role_ok client_host_ok c (in_host r x)"
  by (auto simp: role_ok_def in_host_def client_host_ok_def)

lemma in_client_guard:
  "in_client r x = Some (r', c', fx') \<Longrightarrow> \<exists>cl. x = Some (cl, c', fx') \<and> chst_client r' = cl"
  by (auto simp: in_client_def bind_eq_Some_conv)

lemma in_host_guard:
  "in_host r x = Some (r', c', fx') \<Longrightarrow> \<exists>h. x = Some (h, c', fx') \<and> chst_client r' = chst_client r"
  by (auto simp: in_host_def bind_eq_Some_conv)

text \<open>The host asks for no client state but the error state.\<close>

lemma send_chunk_pending:
  "send_chunk E h c fx = Some (h', c', fx') \<Longrightarrow>
   co_state c' = co_state c \<and> co_pending c' \<in> {co_pending c, Some Error}"
  by (auto simp: send_chunk_def bind_eq_Some_conv Let_def host_transition_to_error_def
      split: option.splits if_splits)

lemma host_error_fields [simp]:
  "co_state (host_transition_to_error err c) = co_state c" "co_pending (host_transition_to_error err c) = Some Error"
  by (simp_all add: host_transition_to_error_def)

lemma req_update_run_pending:
  "req_update_run E h c fx = Some (h', c', fx') \<Longrightarrow>
   co_state c' = co_state c \<and> co_pending c' \<in> {co_pending c, Some Error, Some HostUpdate}"
  by (cases "ev_kind (co_current c)"; cases "the (host_result (stop_timer Ack c))"; cases "the (abort_error c)")
    (auto simp: req_update_run_def Let_def bind_eq_Some_conv split: if_splits)

lemma update_run_pending:
  "update_run E h c fx = Some (h', c', fx') \<Longrightarrow>
   co_state c' = co_state c \<and> co_pending c' \<in> {co_pending c, Some Error, Some Idle}"
  by (cases "ev_kind (co_current c)"; cases "the (host_result (stop_timer Update c))"; cases "the (abort_error c)")
    (auto simp: update_run_def Let_def bind_eq_Some_conv split: if_splits dest: send_chunk_pending)

lemma host_run_pending:
  "host_run E s h c fx = Some (h', c', fx') \<Longrightarrow>
   co_state c' = co_state c \<and> co_pending c' \<in> {co_pending c, Some Error, Some HostUpdate, Some Idle}"
  by (cases s) (auto simp: host_run_def dest: req_update_run_pending update_run_pending)

lemma host_entry_pending:
  "host_entry E s h c fx = Some (h', c', fx') \<Longrightarrow> co_state c' = co_state c \<and> co_pending c' = co_pending c"
  by (cases s) (auto simp: host_entry_def req_update_entry_def change_period_def bind_eq_Some_conv Let_def
      split: option.splits)

interpretation client_host: guarded_activation "client_host_roles E" E client_host_ok "\<lambda>r. verified (chst_client r)"
proof unfold_locales
  fix r :: ClientHost and s c and fx :: 'a and r' c' fx'
  let ?R = "client_host_roles E"
  show "client_host_ok r \<Longrightarrow> event_fits (co_current c) \<Longrightarrow> role_ok client_host_ok c (ro_entry ?R s r c fx)"
    by (simp add: client_host_roles_def client_host_ok_def in_client_ok in_host_ok client_entry_ok host_entry_ok)
  show "client_host_ok r \<Longrightarrow> event_fits (co_current c) \<Longrightarrow> role_ok client_host_ok c (ro_run ?R s r c fx)"
    by (simp add: client_host_roles_def client_host_ok_def in_client_ok in_host_ok client_run_ok host_run_ok)
  show "client_host_ok r \<Longrightarrow> event_fits (co_current c) \<Longrightarrow> role_ok client_host_ok c (ro_exit ?R s r c fx)"
    by (auto simp: client_host_roles_def client_host_ok_def)
  show "client_host_ok r \<Longrightarrow> event_fits (co_current c) \<Longrightarrow> role_ok client_host_ok c (ro_client_process_update_request ?R r c fx)"
    by (simp add: client_host_roles_def client_host_ok_def in_client_ok process_update_request_ok)
  show "client_host_ok r \<Longrightarrow> client_host_ok (ro_host_set_params ?R n t r)" for n t
    by (simp add: client_host_roles_def client_host_ok_def)
  show "ready (verified (chst_client r')) c'"
    if "ro_entry ?R s r c fx = Some (r', c', fx')" "client_host_ok r" "co_state c = s" "co_pending c = None"
      "moving (verified (chst_client r)) c"
  proof (cases "is_client s")
    case True
    with that client_entry_guard [OF _ that(3-5), of E] show ?thesis by (auto simp: client_host_roles_def dest!: in_client_guard)
  next
    case False
    with that obtain h where "host_entry E s (chst_host r) c fx = Some (h, c', fx')" "chst_client r' = chst_client r"
      by (auto simp: client_host_roles_def dest!: in_host_guard)
    with host_entry_pending [OF this(1)] that False show ?thesis by (auto simp: ready_def moving_def is_client_def)
  qed
  show "moving (verified (chst_client r')) c'"
    if "ro_run ?R s r c fx = Some (r', c', fx')" "client_host_ok r" "co_state c = s" "ready (verified (chst_client r)) c"
  proof (cases "is_client s")
    case True
    with that client_run_guard [OF _ that(3,4), of E] show ?thesis by (auto simp: client_host_roles_def dest!: in_client_guard)
  next
    case False
    with that obtain h where "host_run E s (chst_host r) c fx = Some (h, c', fx')" "chst_client r' = chst_client r"
      by (auto simp: client_host_roles_def dest!: in_host_guard)
    with host_run_pending [OF this(1)] that False show ?thesis by (auto simp: ready_def moving_def is_client_def)
  qed
  show "(verified (chst_client r) \<longrightarrow> verified (chst_client r')) \<and> co_pending c' = co_pending c"
    if "ro_exit ?R s r c fx = Some (r', c', fx')"
    using that by (auto simp: client_host_roles_def)
  show "moving (verified (chst_client r')) c'"
    if "ro_client_process_update_request ?R r c fx = Some (r', c', fx')" "client_host_ok r" "co_state c = Idle"
      "ready (verified (chst_client r)) c"
    using that client_request_guard [of E "chst_client r" c fx _ c' fx']
    by (auto simp: client_host_roles_def dest!: in_client_guard)
  show "verified (chst_client r) \<Longrightarrow> verified (chst_client (ro_host_set_params ?R n t r))" for n t
    by (simp add: client_host_roles_def)
qed

section \<open>The host serves its image in order\<close>

text \<open>The run of the host in \<open>HostUpdate\<close> for so many chunk requests, whatever they ask for.\<close>

fun serve :: "nat \<Rightarrow> 'fx Effects \<Rightarrow> Host \<Rightarrow> Core \<Rightarrow> 'fx \<Rightarrow> (Host \<times> Core \<times> 'fx) option" where
  "serve 0 E h c fx = Some (h, c, fx)"
| "serve (Suc n) E h c fx = do {
     (h, c, fx) \<leftarrow> send_chunk E h c fx;
     serve n E h c fx
   }"

text \<open>A slot whose image can be read, seen through what it holds, and the messages sent.\<close>

definition slot_reads :: "'fx Effects \<Rightarrow> bytes \<Rightarrow> bool" where
  "slot_reads E img \<longleftrightarrow> (\<forall>off n fx. 18 \<le> unat off \<and> unat off - 18 + n \<le> length img \<longrightarrow>
     fx_host_get_chunk E off n fx = (True, subslice img (unat off - 18) n, fx))"

text \<open>An image cut into pieces of \<open>k\<close> bytes, the last one shorter.\<close>

fun pieces :: "nat \<Rightarrow> nat \<Rightarrow> bytes \<Rightarrow> bytes list" where
  "pieces k 0 img = []"
| "pieces k (Suc n) img = take k img # pieces k n (drop k img)"

lemma concat_pieces: "concat (pieces k n img) = take (n * k) img"
  by (induction n arbitrary: img) (simp_all add: take_add)

lemma pieces_last: "length img \<le> n * k \<Longrightarrow> concat (pieces k n img) = img"
  by (simp add: concat_pieces)

lemma pieces_bounds:
  "x \<in> set (pieces k n img) \<Longrightarrow> length x \<le> k" "length (pieces k n img) = n"
  by (induction n arbitrary: img) auto

lemma pieces_nonempty: "0 < k \<Longrightarrow> (n - 1) * k < length img \<Longrightarrow> x \<in> set (pieces k n img) \<Longrightarrow> x \<noteq> []"
proof (induction n arbitrary: img)
  case (Suc n)
  show ?case
  proof (cases "x = take k img")
    case True
    with Suc.prems show ?thesis by auto
  next
    case False
    with Suc.prems have "x \<in> set (pieces k n (drop k img))" by simp
    moreover from this have "n \<noteq> 0" by (cases n) auto
    moreover have "(n - 1) * k < length (drop k img)"
      using Suc.prems(2) \<open>n \<noteq> 0\<close> by (cases n) (auto simp: less_diff_conv2)
    ultimately show ?thesis using Suc.IH Suc.prems(1) by blast
  qed
qed simp

definition chunk_message :: "Core \<Rightarrow> Host \<Rightarrow> bytes \<Rightarrow> DfuMessage" where
  "chunk_message c h p = DPayload \<lparr>ch_addresses = to_client c h, ch_payload = p\<rparr>"

lemma send_chunk_internal:
  assumes "slot_reads E img" "co_internal c" "ho_img_info h = info" "unat (chunk_size info) \<le> 1024"
    "unat (image_size info) = length img" "length img < 2 ^ 32 - 18"
    "unat (ho_bytes_remaining h) = length rest" "img = served @ rest"
  defines "p \<equiv> take (unat (chunk_size info)) rest"
  shows "send_chunk E h c fx =
    Some (h\<lparr>ho_bytes_remaining := of_nat (length (drop (unat (chunk_size info)) rest))\<rparr>, c, fx_send E (chunk_message c h p) fx)"
proof -
  let ?k = "unat (chunk_size info)" and ?off = "of_nat IMG_INFO_LEN + image_size info - ho_bytes_remaining h"
  have w: "of_nat (unat x) = x" for x :: u32 by simp
  have k: "unat (ucast (chunk_size info) :: u32) = ?k"
    using unsigned_less [of "chunk_size info", where ?'a = nat] by (simp add: unsigned_ucast_eq take_bit_nat_eq_self)
  have len: "min (unat (next_chunk_len h)) DFU_MAX_CHUNK_SIZE = length p"
    using assms(3,4,7) k by (auto simp: next_chunk_len_def p_def min_def word_le_nat_alt)
  have "image_size info = of_nat (length served) + ho_bytes_remaining h"
    using assms(5,7,8) by (metis length_append of_nat_add w)
  then have "?off = of_nat (18 + length served)" by simp
  then have off: "unat ?off = 18 + length served" using assms(6,8) by (simp add: unat_of_nat del: of_nat_add)
  have "fx_host_get_chunk E ?off (length p) fx = (True, p, fx)"
    using assms(1,8) off by (auto simp: slot_reads_def p_def subslice_def min_def)
  moreover have "\<not> ho_bytes_remaining h < of_nat (length p)"
    using assms(6,7,8) by (simp add: word_less_nat_alt unat_of_nat p_def)
  moreover have "ho_bytes_remaining h - of_nat (length p) = of_nat (length (drop ?k rest))"
  proof -
    have "ho_bytes_remaining h = of_nat (length p + length (drop ?k rest))"
      using assms(7) by (metis append_take_drop_id length_append p_def w)
    then show ?thesis by simp
  qed
  ultimately show ?thesis using assms(2,3) len
    by (simp add: send_chunk_def read_chunk_def Let_def put_def chunk_message_def)
qed

lemma serve_pieces:
  assumes "slot_reads E img" "co_internal c" "unat (chunk_size info) \<le> 1024"
    "unat (image_size info) = length img" "length img < 2 ^ 32 - 18"
  shows "ho_img_info h = info \<Longrightarrow> unat (ho_bytes_remaining h) = length rest \<Longrightarrow> img = served @ rest \<Longrightarrow>
    \<exists>h'. serve n E h c fx = Some (h', c, fold (\<lambda>p. fx_send E (chunk_message c h p)) (pieces (unat (chunk_size info)) n rest) fx) \<and>
      unat (ho_bytes_remaining h') = length rest - n * unat (chunk_size info)"
proof (induction n arbitrary: h rest served fx)
  case (Suc n)
  let ?k = "unat (chunk_size info)"
  let ?h = "h\<lparr>ho_bytes_remaining := of_nat (length (drop ?k rest))\<rparr>"
  have "unat (ho_bytes_remaining ?h) = length (drop ?k rest)"
    using assms(5) Suc.prems(3) by (simp add: unat_of_nat del: of_nat_diff)
  from Suc.IH [OF _ this, of "served @ take ?k rest"] Suc.prems
  show ?case using send_chunk_internal [OF assms(1,2) Suc.prems(1) assms(3-5) Suc.prems(2,3), of fx]
    by (simp add: chunk_message_def to_client_def algebra_simps)
qed auto

section \<open>Properties\<close>

text \<open>The moves of a node: those of its machine, and the application feeding the stream.\<close>

inductive node_move :: "'fx Effects \<Rightarrow> ClientHost Dfu \<times> 'fx \<Rightarrow> ClientHost Dfu \<times> 'fx \<Rightarrow> bool" for E :: "'fx Effects" where
  machine: "dfu_move (client_host_roles E) E x y \<Longrightarrow> node_move E x y"
| fed: "queue_data data (chst_host (df_roles d)) = Some (h, ok) \<Longrightarrow>
    node_move E (d, fx) (d\<lparr>df_roles := (df_roles d)\<lparr>chst_host := h\<rparr>\<rparr>, fx)"

lemma queue_data_total: "host_ok h \<Longrightarrow> \<exists>h' ok. queue_data data h = Some (h', ok) \<and> host_ok h'"
  using stream.send_total [of _ data] by (fastforce simp: queue_data_def host_ok_def split: option.split)

text \<open>A node in the error state has settled: nothing is pending there if the error is fatal.\<close>

lemma node_move_settled:
  assumes "node_move E x y" "machine_ok client_host_ok (fst x) \<and> error_settled (df_core (fst x))"
  shows "error_settled (df_core (fst y))"
  using assms
proof (cases rule: node_move.cases)
  case machine
  then show ?thesis using client_host.move_settled assms(2) by blast
qed simp

lemma node_move_error:
  assumes "node_move E x y" "co_state (df_core (fst x)) = Error" "co_pending (df_core (fst x)) = None"
  shows "co_state (df_core (fst y)) = Error \<and> co_pending (df_core (fst y)) = None \<and>
    co_error (df_core (fst y)) = co_error (df_core (fst x)) \<and> chst_client (df_roles (fst y)) = chst_client (df_roles (fst x))"
  using assms
proof (cases rule: node_move.cases)
  case machine
  from error_move [OF this assms(2,3)] show ?thesis by simp
qed simp

lemma node_moves_error:
  assumes "(node_move E)\<^sup>*\<^sup>* x y" "co_state (df_core (fst x)) = Error" "co_pending (df_core (fst x)) = None"
  shows "co_state (df_core (fst y)) = Error \<and> co_pending (df_core (fst y)) = None \<and>
    co_error (df_core (fst y)) = co_error (df_core (fst x)) \<and> chst_client (df_roles (fst y)) = chst_client (df_roles (fst x))"
  using assms by (induction rule: rtranclp_induct) (auto dest: node_move_error)

lemma node_move_ok:
  assumes "node_move E x y" "machine_ok client_host_ok (fst x) \<and> ready (verified (chst_client (df_roles (fst x)))) (df_core (fst x))"
  shows "machine_ok client_host_ok (fst y) \<and> ready (verified (chst_client (df_roles (fst y)))) (df_core (fst y))"
  using assms
proof (cases rule: node_move.cases)
  case machine
  then show ?thesis using client_host.move_ok client_host.move_guard assms(2) by blast
next
  case (fed data d h ok fx)
  then show ?thesis using assms(2) queue_data_total [of "chst_host (df_roles d)" data]
    by (auto simp: machine_ok_def client_host_ok_def)
qed

lemma node_reachable:
  assumes "(node_move E)\<^sup>*\<^sup>* (dfu_new self info client_host_new, fx0) (d, fx)"
  shows "machine_ok client_host_ok d \<and> ready (verified (chst_client (df_roles d))) (df_core d)"
  using assms
proof (induction "(d, fx)" arbitrary: d fx rule: rtranclp_induct)
  case base
  have "client_host_ok client_host_new" by (simp add: client_host_ok_def client_host_new_def)
  then show ?case using client_host.reachable_guard [OF rtranclp.rtrancl_refl] by blast
next
  case (step y)
  then show ?case using node_move_ok by (cases y) fastforce
qed

lemma node_settled:
  assumes "(node_move E)\<^sup>*\<^sup>* (dfu_new self info client_host_new, fx0) (d, fx)"
  shows "error_settled (df_core d)"
  using assms
proof (induction "(d, fx)" arbitrary: d fx rule: rtranclp_induct)
  case base
  then show ?case by (simp add: dfu_new_def error_settled_def)
next
  case (step y)
  obtain d1 fx1 where y: "y = (d1, fx1)" by (cases y)
  have "machine_ok client_host_ok d1" using node_reachable [OF step(1) [unfolded y]] by simp
  then show ?case using node_move_settled [OF step(2)] step(3) y by simp
qed

text \<open>Property C3. A node with both roles never panics: in every state it can reach from boot by messages of
  any content, update requests, feeding, the passing of time and runs of the machine, with any
  implementation of the effects, the next message, the next run and the next feed all return,
  and at most five events are ever queued.\<close>

theorem client_host_never_panics:
  assumes "(node_move E)\<^sup>*\<^sup>* (dfu_new self info client_host_new, fx0) (d, fx)"
  shows "on_message (client_host_roles E) body d \<noteq> None \<and> dfu_step (client_host_roles E) E now d fx \<noteq> None \<and>
    queue_data data (chst_host (df_roles d)) \<noteq> None \<and> length (queue_iter (co_queue (df_core d))) \<le> 5"
proof -
  have ok: "machine_ok client_host_ok d" using node_reachable [OF assms] by simp
  then have h: "host_ok (chst_host (df_roles d))" and q: "wf_queue (co_queue (df_core d))"
    by (simp_all add: machine_ok_def client_host_ok_def queue_ok_def)
  show ?thesis
    using client_host.on_message_ok [OF ok, of E body] client_host.step_ok [OF ok, of E now fx] queue_data_total [OF h, of data]
      eq.bounded [OF q] by auto
qed

text \<open>Property C2. A node asks its host to let it reboot, or activates the image it received, only while the
  number of bytes it stored is the size it was offered and the CRC it computed over them is
  the CRC it was offered. This holds in every reachable state, with any implementation of the
  effects and whatever arrives.\<close>

theorem only_verified_images_are_activated:
  assumes "(node_move E)\<^sup>*\<^sup>* (dfu_new self info client_host_new, fx0) (d, fx)"
    "co_state (df_core d) \<in> {ClientRebootReq, ClientActivating}"
  shows "cl_image_size (chst_client (df_roles d)) = cl_flash_offset (chst_client (df_roles d)) \<and>
    cl_crc16 (chst_client (df_roles d)) = cl_running_crc16 (chst_client (df_roles d))"
  using node_reachable [OF assms(1)] assms(2) by (auto simp: ready_def moving_def verified_def)

text \<open>A small update, run on the model: boot, the offer of a one-byte image, its chunk, and the runs
  in between. It ends with the client asking to reboot.\<close>

datatype input = Body bytes | Run u32

fun drive :: "'fx Effects \<Rightarrow> input list \<Rightarrow> ClientHost Dfu \<Rightarrow> 'fx \<Rightarrow> (ClientHost Dfu \<times> 'fx) option" where
  "drive E [] d fx = Some (d, fx)"
| "drive E (Body b # xs) d fx = do {
     (d, _) \<leftarrow> on_message (client_host_roles E) b d;
     drive E xs d fx
   }"
| "drive E (Run t # xs) d fx = do {
     (d, fx, _) \<leftarrow> dfu_step (client_host_roles E) E t d fx;
     drive E xs d fx
   }"

lemma drive_reaches: "drive E xs d fx = Some (d', fx') \<Longrightarrow> (node_move E)\<^sup>*\<^sup>* (d, fx) (d', fx')"
proof (induction xs arbitrary: d fx)
  case (Cons x xs)
  have "\<exists>d1 fx1. node_move E (d, fx) (d1, fx1) \<and> drive E xs d1 fx1 = Some (d', fx')"
  proof (cases x)
    case (Body b)
    with Cons.prems show ?thesis
      by (auto simp: bind_eq_Some_conv intro: node_move.machine dfu_move.message)
  next
    case (Run t)
    with Cons.prems show ?thesis
      by (auto simp: bind_eq_Some_conv intro: node_move.machine dfu_move.stepped)
  qed
  then show ?case using Cons.IH by (meson converse_rtranclp_into_rtranclp)
qed simp

definition sample_inputs :: "input list" where
  "sample_inputs = [Run 0,
     Body (dfu_wire (DStart \<lparr>st_addresses = \<lparr>src_node_id = 2, dst_node_id = 1\<rparr>,
       st_img_info = \<lparr>image_size = 1, chunk_size = 1, crc16 = crc16_ccitt 0 [7], major_ver = 1, minor_ver = 0,
                     filter_key = 0, git_sha = 5\<rparr>\<rparr>)),
     Run 1, Run 2,
     Body (dfu_wire (DPayload \<lparr>ch_addresses = \<lparr>src_node_id = 2, dst_node_id = 1\<rparr>, ch_payload = [7]\<rparr>)),
     Run 3, Run 4, Run 5, Run 6]"

lemma sample_run: "(case drive sample_effects sample_inputs (dfu_new 1 reboot_info_default client_host_new) [] of
    None \<Rightarrow> False | Some (d, fx) \<Rightarrow> co_state (df_core d) = ClientRebootReq)"
  by code_simp

text \<open>The first property at the end of that run.\<close>

theorem client_host_never_panics_witness:
  "\<exists>d fx. drive sample_effects sample_inputs (dfu_new 1 reboot_info_default client_host_new) [] = Some (d, fx) \<and>
    co_state (df_core d) = ClientRebootReq \<and> on_message (client_host_roles sample_effects) [0xD8, 1, 2] d \<noteq> None \<and>
    dfu_step (client_host_roles sample_effects) sample_effects 300000 d fx \<noteq> None \<and>
    queue_data [1, 2] (chst_host (df_roles d)) \<noteq> None"
proof -
  obtain d fx where d: "drive sample_effects sample_inputs (dfu_new 1 reboot_info_default client_host_new) [] = Some (d, fx)"
    "co_state (df_core d) = ClientRebootReq"
    using sample_run by (auto split: option.splits)
  from client_host_never_panics [OF drive_reaches [OF d(1)]] d show ?thesis by blast
qed

theorem only_verified_images_are_activated_witness:
  "\<exists>d fx. drive sample_effects sample_inputs (dfu_new 1 reboot_info_default client_host_new) [] = Some (d, fx) \<and>
    co_state (df_core d) = ClientRebootReq \<and>
    cl_crc16 (chst_client (df_roles d)) = cl_running_crc16 (chst_client (df_roles d))"
proof -
  obtain d fx where d: "drive sample_effects sample_inputs (dfu_new 1 reboot_info_default client_host_new) [] = Some (d, fx)"
    "co_state (df_core d) = ClientRebootReq"
    using sample_run by (auto split: option.splits)
  from only_verified_images_are_activated [OF drive_reaches [OF d(1)]] d show ?thesis by auto
qed

text \<open>Property C37. An error of 14 or more is final. A node with both roles that is in the error state
  with such an error, however it got there from boot, never leaves it again and keeps the error,
  whatever messages arrive, updates are asked for, data is fed, time passes and events are run: its
  client's state no longer changes, a run of the machine calls no role any more (it does the same
  whatever the roles are), and it has no effect outside the machine.\<close>

theorem fatal_error_is_final:
  assumes "(node_move E)\<^sup>*\<^sup>* (dfu_new self info client_host_new, fx0) (d, fx)"
    "co_state (df_core d) = Error" "is_fatal (co_error (df_core d))" "(node_move E)\<^sup>*\<^sup>* (d, fx) (d', fx')"
  shows "co_state (df_core d') = Error \<and> co_error (df_core d') = co_error (df_core d) \<and>
    chst_client (df_roles d') = chst_client (df_roles d) \<and>
    (\<forall>R now. dfu_step R E now d' fx' = dfu_step (client_host_roles E) E now d' fx') \<and>
    (\<exists>d'' k. dfu_step (client_host_roles E) E now d' fx' = Some (d'', fx', k) \<and> df_roles d'' = df_roles d')"
proof -
  have "co_pending (df_core d) = None" using node_settled [OF assms(1)] assms(2,3) by (simp add: error_settled_def)
  with node_moves_error [OF assms(4)] assms(2) have e: "co_state (df_core d') = Error" "co_pending (df_core d') = None"
    "co_error (df_core d') = co_error (df_core d)" "chst_client (df_roles d') = chst_client (df_roles d)" by auto
  note st = error_step [OF e(1,2)]
  have "machine_ok client_host_ok d'" using node_reachable [OF rtranclp_trans [OF assms(1,4)]] by simp
  then obtain d'' f k where s: "dfu_step (client_host_roles E) E now d' fx' = Some (d'', f, k)"
    using client_host.step_ok [of d' E now fx'] by blast
  with conjunct2 [OF st [of "client_host_roles E" E now fx' "client_host_roles E"]]
  have f: "f = fx'" "df_roles d'' = df_roles d'" by blast+
  have "dfu_step R E now d' fx' = dfu_step (client_host_roles E) E now d' fx'" for R now
    by (rule conjunct1 [OF st])
  then have same: "\<forall>R now. dfu_step R E now d' fx' = dfu_step (client_host_roles E) E now d' fx'" by blast
  have "\<exists>d'' k. dfu_step (client_host_roles E) E now d' fx' = Some (d'', fx', k) \<and> df_roles d'' = df_roles d'"
    using s [unfolded f(1)] f(2) by blast
  then show ?thesis by (intro conjI e same)
qed

text \<open>A client whose slot cannot be opened.\<close>

definition closed_slot :: "DfuMessage list Effects" where
  "closed_slot = sample_effects\<lparr>fx_flash_open := \<lambda>fx. (False, fx)\<rparr>"

lemma closed_slot_run: "(case drive closed_slot (take 4 sample_inputs) (dfu_new 1 reboot_info_default client_host_new) [] of
    None \<Rightarrow> False | Some (d, fx) \<Rightarrow> co_state (df_core d) = Error \<and> co_error (df_core d) = ERR_FLASH_ACCESS)"
  by code_simp

theorem fatal_error_is_final_witness:
  "\<exists>d fx. drive closed_slot (take 4 sample_inputs) (dfu_new 1 reboot_info_default client_host_new) [] = Some (d, fx) \<and>
    co_error (df_core d) = ERR_FLASH_ACCESS \<and> co_state (df_core (poll 300000 d)) = Error"
proof -
  obtain d fx where d: "drive closed_slot (take 4 sample_inputs) (dfu_new 1 reboot_info_default client_host_new) [] = Some (d, fx)"
    "co_state (df_core d) = Error" "co_error (df_core d) = ERR_FLASH_ACCESS"
    using closed_slot_run by (auto split: option.splits)
  have "node_move closed_slot (d, fx) (poll 300000 d, fx)" by (rule node_move.machine, rule dfu_move.polled)
  moreover have "is_fatal (co_error (df_core d))" by (simp add: d(3) is_fatal_def)
  ultimately show ?thesis using fatal_error_is_final [OF drive_reaches [OF d(1)] d(2)] d by blast
qed

text \<open>The byte stream is a bounded FIFO: a send that fits is appended in whole and one that does not
  changes nothing; a receive takes the oldest bytes, as many as there are or the buffer holds,
  and leaves the rest in order, across any number of wraps of the ring; neither panics.\<close>

theorem stream_is_bounded_fifo:
  assumes "wf_stream s"
  shows "(\<exists>s'. stream_send d s = Some (s', length (stream_contents s) + length d \<le> sb_capacity s) \<and> wf_stream s' \<and>
      stream_contents s' = stream_contents s @ (if length (stream_contents s) + length d \<le> sb_capacity s then d else [])) \<and>
    (\<exists>s' buf' n. stream_receive buf s = Some (s', buf', n) \<and> wf_stream s' \<and>
      stream_contents s' = drop (length buf) (stream_contents s) \<and>
      buf' = put buf 0 (take (length buf) (stream_contents s)) \<and>
      n = (if stream_contents s = [] then None else Some (min (length (stream_contents s)) (length buf))))"
  using stream.send_full [OF assms, of d] stream.send_room [OF assms, of d] stream.receive_empty [OF assms, of buf]
    stream.receive_some [OF assms, of buf] assms
  by (cases "length (stream_contents s) + length d \<le> sb_capacity s"; cases "stream_contents s = []")
    (auto simp: put_0)

theorem stream_is_bounded_fifo_witness:
  "\<exists>s s'. stream_new 4 = Some s \<and> stream_send [1, 2, 3] s = Some (s', True) \<and> stream_contents s' = [1, 2, 3]"
proof -
  obtain s where s: "stream_new 4 = Some s" by (simp add: stream_new_def)
  have c: "stream_contents s = []" "wf_stream s" "sb_capacity s = 4"
    using stream_new_wf [OF s] s by (auto simp: stream_new_def)
  from stream_is_bounded_fifo [OF c(2), of "[1, 2, 3]" "[]"] c s show ?thesis by auto
qed

end
