(* ===== verification/Dfu_Transfer.thy ===== *)
theory Dfu_Transfer
  imports Dfu_Host
begin

text \<open>
  The two ends of a firmware update together: what the host serves, as it is encoded on the
  wire, is what the client stores.
\<close>

lemma received_chunk_wire:
  assumes "length p \<le> 1024"
  shows "received_chunk (dfu_wire (DPayload \<lparr>ch_addresses = a, ch_payload = p\<rparr>) @ rest) = Some p"
proof -
  let ?h = "ucast (dfu_message_type (DPayload \<lparr>ch_addresses = a, ch_payload = p\<rparr>)) # dfu_address_wire a"
  let ?l = "to_le 2 (of_nat (length p) :: u16) :: bytes"
  have b: "dfu_wire (DPayload \<lparr>ch_addresses = a, ch_payload = p\<rparr>) @ rest = ?h @ ?l @ p @ rest"
    by (simp add: dfu_wire_def del: to_le_numeral)
  have h: "length ?h = 17" by (simp add: dfu_address_wire_def del: to_le_numeral)
  have "range_at (?h @ ?l @ p @ rest) 17 19 = Some ?l"
    using h by (simp add: range_at_def subslice_def del: to_le_numeral)
  moreover have "range_at (?h @ ?l @ p @ rest) 19 (19 + length p) = Some p"
    using h by (simp add: range_at_def subslice_def del: to_le_numeral)
  moreover have "unat (from_le ?l :: u16) = length p"
    using assms by (simp add: unat_of_nat del: to_le_numeral)
  ultimately show ?thesis using assms unfolding b by (simp add: received_chunk_def Let_def del: to_le_numeral)
qed

lemma count_chunks_value:
  assumes "count_chunks info = Some n" "0 < unat (chunk_size info)"
    "unat (image_size info) \<le> 65535 * unat (chunk_size info)"
  defines "m \<equiv> unat (image_size info)" and "k \<equiv> unat (chunk_size info)"
  shows "unat n = m div k + (if m mod k = 0 then 0 else 1)"
proof -
  let ?s = "ucast (chunk_size info) :: u32" and ?w = "image_size info div ucast (chunk_size info)"
  have k: "unat ?s = k"
    using unsigned_less [of "chunk_size info", where ?'a = nat] by (simp add: k_def unsigned_ucast_eq take_bit_nat_eq_self)
  then have s: "?s \<noteq> 0" using assms(2) unfolding k_def by (metis less_irrefl unsigned_0)
  have w: "unat ?w = m div k" using k by (simp add: unat_div_distrib m_def)
  have r: "unat (image_size info mod ?s) = m mod k" using k by (simp add: unat_mod_distrib m_def)
  have "m div k \<le> 65535 * k div k" using assms(3) unfolding m_def k_def by (rule div_le_mono)
  then have b: "m div k \<le> 65535" using assms(2) by (simp add: k_def)
  have b1: "m div k < 65535" if "m mod k \<noteq> 0"
  proof (rule ccontr)
    assume "\<not> m div k < 65535"
    with b have "m = 65535 * k + m mod k" by (metis div_mult_mod_eq le_antisym not_less)
    with that assms(3) show False by (simp add: m_def k_def)
  qed
  show ?thesis
  proof (cases "m mod k = 0")
    case True
    then have "image_size info mod ?s = 0" using r by (simp add: unat_eq_zero)
    then have "n = ucast ?w" using assms(1) s by (simp add: count_chunks_def Let_def)
    then show ?thesis using True w b by (simp add: unsigned_ucast_eq take_bit_nat_eq_self)
  next
    case False
    then have "image_size info mod ?s \<noteq> 0" using r by (metis unsigned_0)
    then have "n = ucast (?w + 1)" using assms(1) s by (auto simp: count_chunks_def Let_def split: if_splits)
    moreover have "unat (?w + 1) = m div k + 1" using w b by (simp add: unat_word_ariths)
    ultimately show ?thesis using False b1 by (simp add: unsigned_ucast_eq take_bit_nat_eq_self)
  qed
qed

lemma ceil_bounds:
  fixes m k :: nat
  assumes "0 < k"
  defines "n \<equiv> m div k + (if m mod k = 0 then 0 else 1)"
  shows "m \<le> n * k" and "0 < m \<Longrightarrow> (n - 1) * k < m" and "0 < m \<Longrightarrow> 0 < n"
proof -
  have m: "m = m div k * k + m mod k" and r: "m mod k < k" using assms(1) by simp_all
  have "m \<le> m div k * k + k" using m r by linarith
  then show "m \<le> n * k" using m by (cases "m mod k = 0") (simp_all add: n_def add_mult_distrib)
  show "(n - 1) * k < m" if "0 < m"
  proof (cases "m mod k = 0")
    case True
    then have "m = m div k * k" using m by simp
    with that assms(1) True show ?thesis by (cases "m div k") (auto simp: n_def)
  next
    case False
    moreover from this have "m div k * k < m" using m by linarith
    ultimately show ?thesis by (simp add: n_def)
  qed
  show "0 < n" if "0 < m" using that m by (auto simp: n_def intro: gr0I)
qed

section \<open>Properties\<close>

text \<open>A chunk, encoded into any buffer that has room, is what the client takes out of the encoded bytes.\<close>

lemma chunk_message_encoded:
  assumes "length p \<le> 1024" "19 + length p \<le> length buf"
  shows "\<exists>buf'. dfu_encode (chunk_message c h p) buf = Some (buf', Ok (19 + length p)) \<and>
    received_chunk (take (19 + length p) buf') = Some p"
proof -
  let ?m = "DPayload \<lparr>ch_addresses = to_client c h, ch_payload = p\<rparr>"
  have m: "dfu_encodable ?m" and l: "length (dfu_wire ?m) = 19 + length p"
    using assms(1) by (simp_all add: dfu_encodable_def length_dfu_wire)
  have "dfu_encode ?m buf = Some (put buf 0 (dfu_wire ?m), Ok (19 + length p))"
    using dfu.encode_ok [OF m, of buf] assms(2) l by simp
  moreover have "take (19 + length p) (put buf 0 (dfu_wire ?m)) = dfu_wire ?m" using l assms(2) by (simp add: put_0)
  ultimately show ?thesis using received_chunk_wire [OF assms(1), of "to_client c h" "[]"]
    by (simp add: chunk_message_def)
qed

text \<open>Property C1. A whole image crosses from host to client. The host serves an image out of its own slot
  (reads of the slot return its bytes) and has sent none of it yet; the client, in a well-formed state, has accepted the
  same offer (size, CRC and number of chunks), and its
  slot works: writes within it succeed and take effect, and it is large enough for the image and smaller than
  \<open>2 ^ 32\<close> bytes. The image is not
  empty, of any size the 16-bit chunk counter can describe at the offered chunk size of 1 to 1024 bytes, and
  need not be a multiple of the chunk or of the page. Then the host, asked once per chunk the client counts,
  sends messages that the codec encodes into any buffer with room for them, and what the client takes out of
  each encoded message is its piece of the image; the host has then sent everything, the client's slot starts
  with the image, byte for byte, and is unchanged behind it, and the client asks to reboot into the image
  exactly when the CRC offered is that of the image.\<close>

theorem update_delivers_image:
  assumes host: "slot_reads Eh img" "co_internal ch" "ho_img_info h = info" "ho_bytes_remaining h = image_size info"
    and client: "flash_works Ec slot" "client_ok cl" "count_chunks info = Some (cl_num_chunks cl)"
      "cl_image_size cl = image_size info" "cl_crc16 cl = crc16 info"
    and info: "unat (image_size info) = length img" "0 < length img" "0 < unat (chunk_size info)" "unat (chunk_size info) \<le> 1024"
      "length img \<le> 65535 * unat (chunk_size info)"
    and room: "length img \<le> length (slot fc)" "length (slot fc) < 2 ^ 32"
  shows "\<exists>ps h'. serve (unat (cl_num_chunks cl)) Eh h ch fh = Some (h', ch, fold (\<lambda>p. fx_send Eh (chunk_message ch h p)) ps fh) \<and>
      ho_bytes_remaining h' = 0 \<and>
      (\<forall>p\<in>set ps. \<forall>buf. 19 + length p \<le> length buf \<longrightarrow>
        (\<exists>buf'. dfu_encode (chunk_message ch h p) buf = Some (buf', Ok (19 + length p)) \<and>
          received_chunk (take (19 + length p) buf') = Some p)) \<and>
      (\<exists>cl' c' fc'. receive_chunks Ec ps (restart_transfer cl) cc fc = Some (cl', c', fc') \<and>
        slot fc' = img @ drop (length img) (slot fc) \<and> co_pending c' = Some ClientValidating \<and>
        (co_pending (fst (snd (validating_entry Ec cl' (c'\<lparr>co_state := ClientValidating, co_pending := None\<rparr>) fc'))) =
          Some ClientRebootReq \<longleftrightarrow> crc16 info = crc16_ccitt 0 img))"
proof -
  let ?k = "unat (chunk_size info)" and ?n = "unat (cl_num_chunks cl)"
  let ?ps = "pieces ?k ?n img"
  have n: "?n = length img div ?k + (if length img mod ?k = 0 then 0 else 1)"
    using count_chunks_value [OF client(3) info(3)] info(1,5) by simp
  note c = ceil_bounds [OF info(3), of "length img", folded n]
  have ps: "concat ?ps = img" using pieces_last [OF c(1)] .
  have small: "x \<noteq> [] \<and> length x \<le> 1024" if "x \<in> set ?ps" for x
    using pieces_bounds(1) [OF that] pieces_nonempty [OF info(3) c(2) [OF info(2)] that] info(4) by simp
  have size: "length img < 2 ^ 32 - 18"
    using info(5) mult_le_mono2 [OF info(4), of 65535] by simp
  obtain h' where s: "serve ?n Eh h ch fh = Some (h', ch, fold (\<lambda>p. fx_send Eh (chunk_message ch h p)) ?ps fh)"
    "unat (ho_bytes_remaining h') = length img - ?n * ?k"
    using serve_pieces [OF host(1,2) info(4,1) size host(3), of img "[]" ?n fh] host(4) info(1) by auto
  have rem: "ho_bytes_remaining h' = 0" using s(2) c(1) by (simp add: unat_eq_zero)
  have enc: "\<forall>p\<in>set ?ps. \<forall>buf. 19 + length p \<le> length buf \<longrightarrow>
      (\<exists>buf'. dfu_encode (chunk_message ch h p) buf = Some (buf', Ok (19 + length p)) \<and>
        received_chunk (take (19 + length p) buf') = Some p)"
    using small chunk_message_encoded by blast
  have ne: "?ps \<noteq> []" using pieces_bounds(2) [of ?k ?n img] c(3) [OF info(2)] by auto
  have all: "\<forall>x\<in>set ?ps. x \<noteq> [] \<and> length x \<le> 1024" using small by blast
  have "length (concat ?ps) \<le> length (slot fc)" using ps room(1) by simp
  from client_store [OF client(1,2) all ne pieces_bounds(2) this room(2), of cc]
  have "\<exists>cl' c' fc'. receive_chunks Ec ?ps (restart_transfer cl) cc fc = Some (cl', c', fc') \<and>
      slot fc' = img @ drop (length img) (slot fc) \<and> co_pending c' = Some ClientValidating \<and>
      (co_pending (fst (snd (validating_entry Ec cl' (c'\<lparr>co_state := ClientValidating, co_pending := None\<rparr>) fc'))) =
        Some ClientRebootReq \<longleftrightarrow> crc16 info = crc16_ccitt 0 img)"
    unfolding ps client(4,5) using info(1) by blast
  with s(1) rem enc show ?thesis by blast
qed

definition sample_info :: ImgInfo where
  "sample_info = \<lparr>image_size = 3, chunk_size = 2, crc16 = crc16_ccitt 0 [7, 8, 9], major_ver = 1, minor_ver = 0,
     filter_key = 0, git_sha = 5\<rparr>"

definition sample_host_effects :: "bytes Effects" where
  "sample_host_effects = sample_flash\<lparr>fx_host_get_chunk := \<lambda>off n fx. (True, subslice [7, 8, 9] (unat off - 18) n, fx)\<rparr>"

theorem update_delivers_image_witness:
  "\<exists>ps cl' c' fc'. receive_chunks sample_flash ps (restart_transfer (client_new\<lparr>cl_num_chunks := 2, cl_image_size := 3,
      cl_crc16 := crc16 sample_info\<rparr>)) (df_core sample_dfu) [0, 0, 0, 0] = Some (cl', c', fc') \<and> fc' = [7, 8, 9, 0] \<and>
    co_pending (fst (snd (validating_entry sample_flash cl' (c'\<lparr>co_state := ClientValidating, co_pending := None\<rparr>) fc'))) =
      Some ClientRebootReq"
proof -
  let ?h = "host_new\<lparr>ho_img_info := sample_info, ho_bytes_remaining := 3\<rparr>"
  let ?c = "(df_core sample_dfu)\<lparr>co_internal := True\<rparr>"
  let ?cl = "client_new\<lparr>cl_num_chunks := 2, cl_image_size := 3, cl_crc16 := crc16 sample_info\<rparr>"
  have "slot_reads sample_host_effects [7, 8, 9]" by (simp add: slot_reads_def sample_host_effects_def)
  moreover have "count_chunks sample_info = Some (cl_num_chunks ?cl)"
    by (simp add: count_chunks_def sample_info_def)
  moreover have "client_ok ?cl" by (simp add: client_ok_def client_new_def)
  ultimately show ?thesis
    using update_delivers_image [of sample_host_effects "[7, 8, 9]" ?c ?h sample_info sample_flash "\<lambda>fx. fx" ?cl
        "[0, 0, 0, 0]" "[]" "df_core sample_dfu"] sample_flash_works
    by (auto simp: sample_info_def)
qed

end
