(* ===== verification/Cbor.thy ===== *)
theory Cbor
  imports BM_Prelude
begin

text \<open>
  \<open>cbor/parser.rs\<close>: the CBOR iterator. A \<open>Value\<close> is positioned on one item of a buffer;
  its methods step over items, enter and leave containers, read numbers and strings. A method
  taking \<open>&mut self\<close> returns the value as it left it beside its result, also when the result
  is an error; one taking \<open>&self\<close> returns the result. \<open>None\<close> is a panic (a slice out of
  range) and, for the two loops that are partial functions, also not ending; the lemmas at
  the end exclude both for every value a program can obtain. \<open>um\<close> is \<open>usize::MAX\<close> of the
  target.
\<close>

section \<open>Errors, constants and the iterator\<close>

datatype CborError = UnknownLength | AdvancePastEof | GarbageAtEnd | UnexpectedEof
  | UnexpectedBreak | UnknownType | IllegalType | IllegalNumber | IllegalSimpleType
  | ImproperValue | TooFewItems | DataTooLarge | NestingTooDeep | UnsupportedType | OutOfMemory
  | Unreachable

fun cbor_error_code :: "CborError \<Rightarrow> int option" where
  "cbor_error_code UnknownLength = Some 2"
| "cbor_error_code AdvancePastEof = Some 3"
| "cbor_error_code GarbageAtEnd = Some 256"
| "cbor_error_code UnexpectedEof = Some 257"
| "cbor_error_code UnexpectedBreak = Some 258"
| "cbor_error_code UnknownType = Some 259"
| "cbor_error_code IllegalType = Some 260"
| "cbor_error_code IllegalNumber = Some 261"
| "cbor_error_code IllegalSimpleType = Some 262"
| "cbor_error_code ImproperValue = Some 519"
| "cbor_error_code TooFewItems = Some 769"
| "cbor_error_code DataTooLarge = Some 1024"
| "cbor_error_code NestingTooDeep = Some 1025"
| "cbor_error_code UnsupportedType = Some 1026"
| "cbor_error_code OutOfMemory = Some (- 2147483648)"
| "cbor_error_code Unreachable = None"

datatype Chunk = More nat nat | End

definition MAX_RECURSIONS :: nat where "MAX_RECURSIONS = 10"

definition INTEGER :: u8 where "INTEGER = 0x00"
definition BYTE_STRING :: u8 where "BYTE_STRING = 0x40"
definition TEXT_STRING :: u8 where "TEXT_STRING = 0x60"
definition ARRAY :: u8 where "ARRAY = 0x80"
definition MAP :: u8 where "MAP = 0xa0"
definition TAG :: u8 where "TAG = 0xc0"
definition SIMPLE :: u8 where "SIMPLE = 0xe0"
definition BOOLEAN :: u8 where "BOOLEAN = 0xf5"
definition FLOAT :: u8 where "FLOAT = 0xfa"
definition DOUBLE :: u8 where "DOUBLE = 0xfb"
definition INVALID :: u8 where "INVALID = 0xff"

definition INTEGER_IS_64_BIT :: u8 where "INTEGER_IS_64_BIT = 0x01"
definition INTEGER_TOO_LARGE :: u8 where "INTEGER_TOO_LARGE = 0x02"
definition NEGATIVE_INTEGER :: u8 where "NEGATIVE_INTEGER = 0x04"
definition BEFORE_FIRST_STRING_CHUNK :: u8 where "BEFORE_FIRST_STRING_CHUNK = 0x04"
definition ITERATING_STRING_CHUNKS :: u8 where "ITERATING_STRING_CHUNKS = 0x08"
definition UNKNOWN_LENGTH :: u8 where "UNKNOWN_LENGTH = 0x10"
definition CONTAINER_IS_MAP :: u8 where "CONTAINER_IS_MAP = 0x20"
definition NEXT_IS_MAP_KEY :: u8 where "NEXT_IS_MAP_KEY = 0x40"

definition BREAK :: u8 where "BREAK = 0xff"

lemmas cbor_consts = INTEGER_def BYTE_STRING_def TEXT_STRING_def ARRAY_def MAP_def TAG_def
  SIMPLE_def BOOLEAN_def FLOAT_def DOUBLE_def INVALID_def BREAK_def

lemmas cbor_flags = INTEGER_IS_64_BIT_def INTEGER_TOO_LARGE_def NEGATIVE_INTEGER_def
  BEFORE_FIRST_STRING_CHUNK_def ITERATING_STRING_CHUNKS_def UNKNOWN_LENGTH_def
  CONTAINER_IS_MAP_def NEXT_IS_MAP_KEY_def

record Value =
  v_buf :: bytes
  v_pos :: nat
  v_remaining :: u32
  v_flags :: u8
  v_ty :: u8
  v_extra :: u16

record Copied =
  cp_total :: nat
  cp_all :: bool
  cp_nul :: bool

definition is_fixed_type :: "u8 \<Rightarrow> bool" where
  "is_fixed_type ty \<longleftrightarrow> \<not> (ty = TEXT_STRING \<or> ty = BYTE_STRING \<or> ty = ARRAY \<or> ty = MAP)"

definition read_be :: "bytes \<Rightarrow> u64" where
  "read_be bs = foldl (\<lambda>a b. push_bit 8 a OR ucast b) 0 bs"

definition can_read :: "Value \<Rightarrow> nat \<Rightarrow> bool" where
  "can_read v n \<longleftrightarrow> n \<le> length (v_buf v) - v_pos v"

definition v_at :: "Value \<Rightarrow> nat \<Rightarrow> bytes" where
  "v_at v offset = drop (v_pos v + offset) (v_buf v)"

definition at_end :: "Value \<Rightarrow> bool" where
  "at_end v \<longleftrightarrow> v_remaining v = 0"

definition is_container :: "Value \<Rightarrow> bool" where
  "is_container v \<longleftrightarrow> v_ty v = ARRAY \<or> v_ty v = MAP"

definition is_map :: "Value \<Rightarrow> bool" where "is_map v \<longleftrightarrow> v_ty v = MAP"
definition is_text_string :: "Value \<Rightarrow> bool" where "is_text_string v \<longleftrightarrow> v_ty v = TEXT_STRING"
definition is_byte_string :: "Value \<Rightarrow> bool" where "is_byte_string v \<longleftrightarrow> v_ty v = BYTE_STRING"
definition is_float :: "Value \<Rightarrow> bool" where "is_float v \<longleftrightarrow> v_ty v = FLOAT"
definition is_double :: "Value \<Rightarrow> bool" where "is_double v \<longleftrightarrow> v_ty v = DOUBLE"
definition is_tag :: "Value \<Rightarrow> bool" where "is_tag v \<longleftrightarrow> v_ty v = TAG"
definition is_valid :: "Value \<Rightarrow> bool" where "is_valid v \<longleftrightarrow> v_ty v \<noteq> INVALID"

definition is_unsigned_integer :: "Value \<Rightarrow> bool" where
  "is_unsigned_integer v \<longleftrightarrow> v_ty v = INTEGER \<and> v_flags v AND NEGATIVE_INTEGER = 0"

definition is_length_known :: "Value \<Rightarrow> bool" where
  "is_length_known v \<longleftrightarrow> v_flags v AND UNKNOWN_LENGTH = 0"

definition next_byte :: "Value \<Rightarrow> nat" where "next_byte v = v_pos v"

definition rebind :: "Value \<Rightarrow> bytes \<Rightarrow> Value" where
  "rebind v buf = v\<lparr>v_buf := buf\<rparr>"

text \<open>\<open>?\<close> on the result of a method that updates the value: an error is returned with the
  value as it is, success continues.\<close>

type_synonym 'a stepped = "(Value \<times> (CborError, 'a) result) option"

definition and_then :: "'a stepped \<Rightarrow> (Value \<Rightarrow> 'a \<Rightarrow> 'b stepped) \<Rightarrow> 'b stepped" where
  "and_then m k = do {
     (v, r) \<leftarrow> m;
     (case r of Err e \<Rightarrow> Some (v, Err e) | Ok x \<Rightarrow> k v x) }"

section \<open>Reading an item's head\<close>

text \<open>How many bytes of argument follow a head: \<open>needed\<close> of the source.\<close>

definition arg_bytes :: "u8 \<Rightarrow> nat" where
  "arg_bytes info = (if info < 24 then 0 else 2 ^ unat (info - 24))"

definition preparse_reserved :: "Value \<Rightarrow> u8 \<Rightarrow> u8 \<Rightarrow> unit stepped" where
  "preparse_reserved v ty info =
     (if info \<noteq> 31 then
        Some (v, Err (if ty = SIMPLE then UnknownType else IllegalNumber))
      else if \<not> is_fixed_type ty then
        Some (v\<lparr>v_flags := v_flags v OR UNKNOWN_LENGTH\<rparr>, Ok ())
      else Some (v, Err (if ty = SIMPLE then UnexpectedBreak else IllegalNumber)))"

definition preparse_argument :: "Value \<Rightarrow> u8 \<Rightarrow> unit stepped" where
  "preparse_argument v info =
     (let needed = arg_bytes info in
      if 0 < needed then
        if \<not> can_read v (needed + 1) then Some (v, Err UnexpectedEof)
        else if needed = 1 \<or> needed = 2 then do {
          arg \<leftarrow> range_at (v_at v 1) 0 needed;
          Some (v\<lparr>v_extra := ucast (read_be arg)\<rparr>, Ok ()) }
        else Some (v\<lparr>v_extra := 0, v_flags := v_flags v OR (info AND 3)\<rparr>, Ok ())
      else Some (v, Ok ()))"

definition preparse_type :: "Value \<Rightarrow> u8 \<Rightarrow> u8 \<Rightarrow> u8 \<Rightarrow> unit stepped" where
  "preparse_type v descriptor ty info =
     (if drop_bit 5 ty = 1 then
        Some (v\<lparr>v_flags := v_flags v OR NEGATIVE_INTEGER, v_ty := INTEGER\<rparr>, Ok ())
      else if drop_bit 5 ty = 7 then
        if info = 20 then Some (v\<lparr>v_extra := 0, v_ty := BOOLEAN\<rparr>, Ok ())
        else if info = 26 \<or> info = 27 then
          Some (v\<lparr>v_flags := v_flags v OR INTEGER_TOO_LARGE, v_ty := descriptor\<rparr>, Ok ())
        else if info = 21 \<or> info = 22 \<or> info = 23 \<or> info = 25 then
          Some (v\<lparr>v_ty := descriptor\<rparr>, Ok ())
        else if info = 24 \<and> v_extra v < 32 then
          Some (v\<lparr>v_ty := INVALID\<rparr>, Err IllegalSimpleType)
        else Some (v, Ok ())
      else Some (v, Ok ()))"

definition preparse_value :: "Value \<Rightarrow> unit stepped" where
  "preparse_value v =
     (let v = v\<lparr>v_ty := INVALID,
                v_flags := v_flags v AND (CONTAINER_IS_MAP OR NEXT_IS_MAP_KEY)\<rparr> in
      case v_at v 0 of
        [] \<Rightarrow> Some (v, Err UnexpectedEof)
      | descriptor # _ \<Rightarrow>
          let ty = descriptor AND 0xe0;
              info = descriptor AND 0x1f;
              v = v\<lparr>v_ty := ty, v_extra := ucast info\<rparr> in
          if 27 < info then preparse_reserved v ty info
          else and_then (preparse_argument v info) (\<lambda>v _. preparse_type v descriptor ty info))"

definition preparse_next_value_nodecrement :: "Value \<Rightarrow> unit stepped" where
  "preparse_next_value_nodecrement v =
     (if v_remaining v = - 1 \<and> take 1 (v_at v 0) = [BREAK] then
        let expecting_value =
              v_flags v AND CONTAINER_IS_MAP \<noteq> 0 \<and> v_flags v AND NEXT_IS_MAP_KEY \<noteq> 0 in
        if expecting_value \<or> v_ty v = TAG then Some (v, Err UnexpectedBreak)
        else Some (v\<lparr>v_ty := INVALID, v_remaining := 0,
                     v_flags := v_flags v OR UNKNOWN_LENGTH\<rparr>, Ok ())
      else preparse_value v)"

definition preparse_next_value :: "Value \<Rightarrow> unit stepped" where
  "preparse_next_value v =
     (let counts = v_ty v \<noteq> TAG;
          v = (if v_remaining v \<noteq> - 1 \<and> counts
               then v\<lparr>v_remaining := v_remaining v - 1\<rparr> else v) in
      if v_remaining v = 0 \<and> counts then
        Some (v\<lparr>v_ty := INVALID, v_flags := v_flags v AND NOT UNKNOWN_LENGTH\<rparr>, Ok ())
      else preparse_next_value_nodecrement
        (if counts then v\<lparr>v_flags := v_flags v XOR NEXT_IS_MAP_KEY\<rparr> else v))"

definition cbor_parse :: "bytes \<Rightarrow> (CborError, Value) result option" where
  "cbor_parse buf = do {
     (v, r) \<leftarrow> preparse_value
       \<lparr>v_buf = buf, v_pos = 0, v_remaining = 1, v_flags = 0, v_ty = INVALID, v_extra = 0\<rparr>;
     (case r of Err e \<Rightarrow> Some (Err e) | Ok _ \<Rightarrow> Some (Ok v)) }"

section \<open>Numbers\<close>

definition value_extract :: "Value \<Rightarrow> u64 option" where
  "value_extract v =
     (if v_flags v AND INTEGER_TOO_LARGE = 0 then Some (ucast (v_extra v))
      else do {
        let width = (if v_flags v AND INTEGER_IS_64_BIT \<noteq> 0 then 8 else 4);
        arg \<leftarrow> range_at (v_at v 1) 0 width;
        Some (read_be arg) })"

definition get_int64 :: "Value \<Rightarrow> u64 option" where
  "get_int64 v = do {
     n \<leftarrow> value_extract v;
     Some (if v_flags v AND NEGATIVE_INTEGER \<noteq> 0 then - n - 1 else n) }"

definition get_float :: "Value \<Rightarrow> (CborError, u32) result option" where
  "get_float v =
     (if v_flags v AND INTEGER_TOO_LARGE = 0 then Some (Err Unreachable)
      else do { n \<leftarrow> value_extract v; Some (Ok (ucast n)) })"

text \<open>\<open>usize::try_from\<close> of a \<open>u64\<close>.\<close>

definition usize_of :: "nat \<Rightarrow> u64 \<Rightarrow> (CborError, nat) result" where
  "usize_of um n = (if unat n \<le> um then Ok (unat n) else Err DataTooLarge)"

definition string_length :: "nat \<Rightarrow> Value \<Rightarrow> (CborError, nat) result option" where
  "string_length um v =
     (if \<not> is_text_string v \<and> \<not> is_byte_string v then Some (Err Unreachable)
      else if \<not> is_length_known v then Some (Err UnknownLength)
      else do { n \<leftarrow> value_extract v; Some (usize_of um n) })"

definition map_length :: "nat \<Rightarrow> Value \<Rightarrow> (CborError, nat) result option" where
  "map_length um v =
     (if \<not> is_map v then Some (Err Unreachable)
      else if \<not> is_length_known v then Some (Err UnknownLength)
      else do { n \<leftarrow> value_extract v; Some (usize_of um n) })"

definition extract_number_and_advance :: "Value \<Rightarrow> (Value \<times> u64) option" where
  "extract_number_and_advance v = do {
     n \<leftarrow> value_extract v;
     descriptor \<leftarrow> get_at (v_at v 0) 0;
     Some (v\<lparr>v_pos := v_pos v + (arg_bytes (descriptor AND 0x1f) + 1)\<rparr>, n) }"

definition advance_internal :: "Value \<Rightarrow> unit stepped" where
  "advance_internal v = do {
     (v, _) \<leftarrow> extract_number_and_advance v;
     preparse_next_value v }"

section \<open>Strings\<close>

lemma arg_in_range [simp]:
  "can_read v (Suc n) \<Longrightarrow> range_at (v_at v (Suc 0)) 0 n = Some (subslice (v_buf v) (v_pos v + 1) n)"
  by (auto simp: can_read_def v_at_def range_at_def subslice_def)

lemma v_at_Cons:
  assumes "v_at v 0 = d # ds"
  shows "v_pos v < length (v_buf v)" "d = v_buf v ! v_pos v"
proof -
  show "v_pos v < length (v_buf v)"
    using assms by (cases "v_pos v < length (v_buf v)") (auto simp: v_at_def)
  then show "d = v_buf v ! v_pos v"
    using assms by (simp add: v_at_def Cons_nth_drop_Suc [symmetric])
qed

text \<open>\<open>get_string_chunk\<close>: the length and the size of a chunk's head, then
  \<open>transfer_string\<close>.\<close>

definition chunk_head :: "nat \<Rightarrow> Value \<Rightarrow> u8 \<Rightarrow> (CborError, nat \<times> nat) result option" where
  "chunk_head um v info =
     (if info < 24 then Some (Ok (unat info, 1))
      else if 27 < info then Some (Err IllegalNumber)
      else do {
        let n = arg_bytes info;
        (if \<not> can_read v (1 + n) then Some (Err UnexpectedEof)
         else do {
           arg \<leftarrow> range_at (v_at v 1) 0 n;
           Some (case usize_of um (read_be arg) of
               Err e \<Rightarrow> Err e | Ok len \<Rightarrow> Ok (len, n + 1)) }) })"

definition transfer_string :: "Value \<Rightarrow> nat \<Rightarrow> nat \<Rightarrow> Value \<times> (CborError, Chunk) result" where
  "transfer_string v len offset =
     (let v = v\<lparr>v_pos := v_pos v + offset\<rparr> in
      if \<not> can_read v len then (v, Err UnexpectedEof)
      else (v\<lparr>v_pos := v_pos v + len,
              v_flags := v_flags v AND NOT BEFORE_FIRST_STRING_CHUNK\<rparr>,
            Ok (More (v_pos v) len)))"

definition string_chunk :: "nat \<Rightarrow> Value \<Rightarrow> Chunk stepped" where
  "string_chunk um v =
     (if is_length_known v \<and> v_flags v AND BEFORE_FIRST_STRING_CHUNK = 0 then Some (v, Ok End)
      else case v_at v 0 of
        [] \<Rightarrow> Some (v, Err UnexpectedEof)
      | descriptor # _ \<Rightarrow>
          if descriptor = BREAK then Some (v, Ok End)
          else if descriptor AND 0xe0 \<noteq> v_ty v then Some (v, Err IllegalType)
          else do {
            head \<leftarrow> chunk_head um v (descriptor AND 0x1f);
            Some (case head of
                Err e \<Rightarrow> (v, Err e)
              | Ok (len, offset) \<Rightarrow> transfer_string v len offset) })"

lemma chunk_head_total: "\<exists>r. chunk_head um v info = Some r"
  by (simp add: chunk_head_def Let_def)

lemma chunk_head_Ok:
  "chunk_head um v info = Some (Ok (len, offset)) \<Longrightarrow> v_pos v < length (v_buf v) \<Longrightarrow>
   0 < offset \<and> v_pos v + offset \<le> length (v_buf v)"
  by (auto simp: chunk_head_def can_read_def Let_def split: if_splits result.splits)

lemma string_chunk_total: "\<exists>p. string_chunk um v = Some p"
proof (cases "v_at v 0")
  case (Cons d ds)
  obtain r where "chunk_head um v (d AND 0x1f) = Some r" using chunk_head_total by blast
  with Cons show ?thesis by (simp add: string_chunk_def)
qed (simp add: string_chunk_def)

text \<open>A chunk is at least its head long and ends inside the buffer, so the loop over the chunks
  ends.\<close>

lemma string_chunk_More:
  assumes "string_chunk um v = Some (v', Ok (More start len))"
  shows "v_pos v < start" "start + len \<le> length (v_buf v)"
    "v' = v\<lparr>v_pos := start + len, v_flags := v_flags v AND NOT BEFORE_FIRST_STRING_CHUNK\<rparr>"
proof -
  obtain d ds where at: "v_at v 0 = d # ds"
    using assms by (cases "v_at v 0") (auto simp: string_chunk_def split: if_splits)
  obtain r where r: "chunk_head um v (d AND 0x1f) = Some r" using chunk_head_total by blast
  have "(case r of Err e \<Rightarrow> (v, Err e) | Ok (l, offset) \<Rightarrow> transfer_string v l offset) =
      (v', Ok (More start len))"
    using assms at r by (simp add: string_chunk_def split: if_splits)
  then obtain l offset where "r = Ok (l, offset)"
    and t: "transfer_string v l offset = (v', Ok (More start len))"
    by (cases r) auto
  then have "0 < offset \<and> v_pos v + offset \<le> length (v_buf v)"
    using r chunk_head_Ok v_at_Cons [OF at] by blast
  with t show "v_pos v < start" "start + len \<le> length (v_buf v)"
    "v' = v\<lparr>v_pos := start + len, v_flags := v_flags v AND NOT BEFORE_FIRST_STRING_CHUNK\<rparr>"
    by (auto simp: transfer_string_def can_read_def Let_def split: if_splits)
qed

lemma string_chunk_progress:
  assumes "string_chunk um v = Some (v', Ok (More start len))"
  shows "length (v_buf v') - v_pos v' < length (v_buf v) - v_pos v"
  using string_chunk_More [OF assms] by auto

text \<open>The loop of \<open>iterate_string\<close>, with the closure's state \<open>s\<close>. Its result is the value
  after the last chunk, \<open>total\<close> and \<open>all\<close>.\<close>

type_synonym 's copier = "nat \<Rightarrow> bytes \<Rightarrow> 's \<Rightarrow> 's option"

function chunk_loop ::
  "nat \<Rightarrow> nat \<Rightarrow> 's copier \<Rightarrow> Value \<Rightarrow> nat \<Rightarrow> bool \<Rightarrow> 's \<Rightarrow>
     ('s \<times> (CborError, Value \<times> nat \<times> bool) result) option" where
  "chunk_loop um buflen copy v tot all s =
     (case string_chunk um v of
        None \<Rightarrow> None
      | Some (_, Err e) \<Rightarrow> Some (s, Err e)
      | Some (v', Ok End) \<Rightarrow> Some (s, Ok (v', tot, all))
      | Some (v', Ok (More start len)) \<Rightarrow>
          if um < tot + len then Some (s, Err DataTooLarge)
          else if all \<and> tot + len \<le> buflen then
            (case Option.bind (range_at (v_buf v) start (start + len)) (\<lambda>chunk. copy tot chunk s) of
               None \<Rightarrow> None
             | Some s' \<Rightarrow> chunk_loop um buflen copy v' (tot + len) all s')
          else chunk_loop um buflen copy v' (tot + len) False s)"
  by pat_completeness auto
termination chunk_loop
  by (relation "measure (\<lambda>(_, _, _, v, _). length (v_buf v) - v_pos v)")
    (auto dest: string_chunk_progress)

declare chunk_loop.simps [simp del]

definition iterate_string ::
  "nat \<Rightarrow> Value \<Rightarrow> nat \<Rightarrow> 's copier \<Rightarrow> 's \<Rightarrow> ('s \<times> (CborError, Copied \<times> Value) result) option" where
  "iterate_string um v buflen copy s =
     (if \<not> is_text_string v \<and> \<not> is_byte_string v then Some (s, Err Unreachable)
      else do {
        let v = v\<lparr>v_flags := v_flags v OR (ITERATING_STRING_CHUNKS OR BEFORE_FIRST_STRING_CHUNK)\<rparr>;
        let v = (if \<not> is_length_known v then v\<lparr>v_pos := v_pos v + 1\<rparr> else v);
        (s, r) \<leftarrow> chunk_loop um buflen copy v 0 True s;
        (case r of
           Err e \<Rightarrow> Some (s, Err e)
         | Ok (v, tot, all) \<Rightarrow> do {
             let v = (if \<not> is_length_known v then v\<lparr>v_pos := v_pos v + 1\<rparr> else v);
             (v, r) \<leftarrow> preparse_next_value v;
             (case r of
                Err e \<Rightarrow> Some (s, Err e)
              | Ok _ \<Rightarrow> Some (s, Ok (\<lparr>cp_total = tot, cp_all = all,
                                     cp_nul = (all \<and> tot < buflen)\<rparr>, v))) }) })"

definition copy_nothing :: "unit copier" where "copy_nothing at chunk s = Some ()"

definition copy_string ::
  "nat \<Rightarrow> Value \<Rightarrow> nat \<Rightarrow> 's copier \<Rightarrow> 's \<Rightarrow> ('s \<times> (CborError, Copied) result) option" where
  "copy_string um v buflen copy s = do {
     (s, r) \<leftarrow> iterate_string um v buflen copy s;
     Some (s, case r of Err e \<Rightarrow> Err e | Ok (copied, _) \<Rightarrow> Ok copied) }"

section \<open>Containers and stepping over items\<close>

definition enter_items :: "Value \<Rightarrow> (CborError, Value) result option" where
  "enter_items recursed = do {
     (recursed, r) \<leftarrow> preparse_next_value_nodecrement
       (recursed\<lparr>v_flags := v_ty recursed AND CONTAINER_IS_MAP\<rparr>);
     Some (case r of Err e \<Rightarrow> Err e | Ok _ \<Rightarrow> Ok recursed) }"

definition enter_container :: "Value \<Rightarrow> (CborError, Value) result option" where
  "enter_container v =
     (if \<not> is_container v then Some (Err Unreachable)
      else if v_flags v AND UNKNOWN_LENGTH \<noteq> 0 then
        enter_items (v\<lparr>v_remaining := - 1, v_pos := v_pos v + 1\<rparr>)
      else do {
        (recursed, len) \<leftarrow> extract_number_and_advance v;
        let recursed = recursed\<lparr>v_remaining := ucast len\<rparr>;
        (if ucast (v_remaining recursed) \<noteq> len \<or> len = ucast (- 1 :: u32) then Some (Err DataTooLarge)
         else if v_ty recursed = MAP \<and> (- 1) div 2 < v_remaining recursed then
           Some (Err DataTooLarge)
         else do {
           let recursed =
             (if v_ty recursed = MAP then recursed\<lparr>v_remaining := v_remaining recursed * 2\<rparr>
              else recursed);
           (if len = 0 then Some (Ok (recursed\<lparr>v_ty := INVALID\<rparr>))
            else enter_items recursed) }) })"

definition leave_container :: "Value \<Rightarrow> Value \<Rightarrow> unit stepped" where
  "leave_container v recursed =
     (if \<not> is_container v \<or> v_ty recursed \<noteq> INVALID then Some (v, Err Unreachable)
      else preparse_next_value
        (v\<lparr>v_pos := v_pos recursed + (if v_flags recursed AND UNKNOWN_LENGTH \<noteq> 0 then 1 else 0)\<rparr>))"

text \<open>\<open>while !recursed.at_end() { recursed.advance_recursive(nesting - 1)?; }\<close>, with the call as
  \<open>step\<close>. A loop that does not end is \<open>None\<close>.\<close>

partial_function (option) advance_items ::
  "(Value \<Rightarrow> (Value \<times> (CborError, unit) result) option) \<Rightarrow> Value \<Rightarrow>
     (Value \<times> (CborError, unit) result) option" where
  "advance_items step v =
     (if at_end v then Some (v, Ok ())
      else Option.bind (step v) (\<lambda>p.
        case snd p of Err e \<Rightarrow> Some (fst p, Err e) | Ok _ \<Rightarrow> advance_items step (fst p)))"

fun advance_recursive :: "nat \<Rightarrow> nat \<Rightarrow> Value \<Rightarrow> unit stepped" where
  "advance_recursive um nesting v =
     (if is_fixed_type (v_ty v) then advance_internal v
      else if \<not> is_container v then do {
        (_, r) \<leftarrow> iterate_string um v um copy_nothing ();
        Some (case r of Err e \<Rightarrow> (v, Err e) | Ok (_, after) \<Rightarrow> (after, Ok ())) }
      else (case nesting of
          0 \<Rightarrow> Some (v, Err NestingTooDeep)
        | Suc inner \<Rightarrow> do {
            r \<leftarrow> enter_container v;
            (case r of
               Err e \<Rightarrow> Some (v, Err e)
             | Ok recursed \<Rightarrow> do {
                 (recursed, r) \<leftarrow> advance_items (\<lambda>w. advance_recursive um inner w) recursed;
                 (case r of
                    Err e \<Rightarrow> Some (v, Err e)
                  | Ok _ \<Rightarrow> leave_container v recursed) }) }))"

declare advance_recursive.simps [simp del]

definition advance :: "nat \<Rightarrow> Value \<Rightarrow> unit stepped" where
  "advance um v =
     (if v_ty v = INVALID then Some (v, Err Unreachable)
      else if v_remaining v = 0 then Some (v, Err AdvancePastEof)
      else advance_recursive um MAX_RECURSIONS v)"

definition validate_basic :: "nat \<Rightarrow> Value \<Rightarrow> (CborError, unit) result option" where
  "validate_basic um v = do { (_, r) \<leftarrow> advance um v; Some r }"

section \<open>Borrowed strings\<close>

record CborString =
  cs_at :: Value
  cs_len :: nat

definition value_string :: "nat \<Rightarrow> Value \<Rightarrow> (CborError, CborString) result option" where
  "value_string um v =
     (if \<not> is_text_string v \<and> \<not> is_byte_string v then Some (Err Unreachable)
      else do {
        (_, r) \<leftarrow> copy_string um v um copy_nothing ();
        Some (case r of Err e \<Rightarrow> Err e
              | Ok copied \<Rightarrow> Ok \<lparr>cs_at = v, cs_len = cp_total copied\<rparr>) })"

definition cs_is_empty :: "CborString \<Rightarrow> bool" where
  "cs_is_empty c \<longleftrightarrow> cs_len c = 0"

text \<open>\<open>for_each_chunk\<close>: \<open>f\<close> is called with each chunk; the result of the copy is dropped.\<close>

definition for_each_chunk :: "nat \<Rightarrow> CborString \<Rightarrow> (bytes \<Rightarrow> 's \<Rightarrow> 's option) \<Rightarrow> 's \<Rightarrow> 's option" where
  "for_each_chunk um c f s = do {
     (s, _) \<leftarrow> copy_string um (cs_at c) um (\<lambda>_ chunk s. f chunk s) s;
     Some s }"

definition copy_chunk :: "bytes \<Rightarrow> nat \<times> bytes \<Rightarrow> (nat \<times> bytes) option" where
  "copy_chunk chunk s = (case s of (at, dst) \<Rightarrow> do {
     dst \<leftarrow> copy_at dst at chunk;
     Some (at + length chunk, dst) })"

text \<open>\<open>copy_to\<close>: the new contents of \<open>out\<close> and the length, or no length when \<open>out\<close> is too
  short.\<close>

definition cs_copy_to :: "nat \<Rightarrow> CborString \<Rightarrow> bytes \<Rightarrow> (bytes \<times> nat option) option" where
  "cs_copy_to um c out =
     (if length out < cs_len c then Some (out, None)
      else do {
        (_, dst) \<leftarrow> for_each_chunk um c copy_chunk (0, take (cs_len c) out);
        Some (dst @ drop (cs_len c) out, Some (cs_len c)) })"

definition eq_chunk :: "bytes \<Rightarrow> bytes \<Rightarrow> nat \<times> bool \<Rightarrow> (nat \<times> bool) option" where
  "eq_chunk key chunk s = (case s of (at, eq) \<Rightarrow> do {
     part \<leftarrow> range_at key at (at + length chunk);
     Some (at + length chunk, eq \<and> part = chunk) })"

definition cs_eq_bytes :: "nat \<Rightarrow> CborString \<Rightarrow> bytes \<Rightarrow> bool option" where
  "cs_eq_bytes um c key =
     (if length key \<noteq> cs_len c then Some False
      else do {
        (_, eq) \<leftarrow> for_each_chunk um c (eq_chunk key) (0, True);
        Some eq })"

section \<open>What a head says\<close>

text \<open>The head at the start of some bytes: whether \<open>preparse_value\<close> accepts it, how long it is,
  its argument, the type it gives.\<close>

definition info_of :: "u8 \<Rightarrow> u8" where "info_of d = d AND 0x1f"

definition head_len :: "u8 \<Rightarrow> nat" where "head_len d = arg_bytes (info_of d) + 1"

definition head_arg :: "bytes \<Rightarrow> u64" where
  "head_arg bs =
     (let info = info_of (hd bs) in
      if info < 24 then ucast info else read_be (take (arg_bytes info) (tl bs)))"

definition head_ok :: "bytes \<Rightarrow> bool" where
  "head_ok bs \<longleftrightarrow>
     (case bs of [] \<Rightarrow> False
      | d # ds \<Rightarrow>
          if info_of d = 31 then \<not> is_fixed_type (d AND 0xe0)
          else info_of d \<le> 27 \<and> head_len d \<le> length bs \<and>
            \<not> (d = 0xf8 \<and> (ucast (read_be (take 1 ds)) :: u16) < 32))"

definition head_ty :: "u8 \<Rightarrow> u8" where
  "head_ty d =
     (let ty = d AND 0xe0; info = info_of d in
      if ty = 0x20 then INTEGER
      else if ty = SIMPLE \<and>
        (info = 20 \<or> info = 21 \<or> info = 22 \<or> info = 23 \<or> info = 25 \<or> info = 26 \<or> info = 27) then
        if info = 20 then BOOLEAN else d
      else ty)"

text \<open>The value \<open>preparse_value\<close> leaves on a head it accepts.\<close>

definition start_head :: "Value \<Rightarrow> u8 \<Rightarrow> Value" where
  "start_head v d = v\<lparr>v_flags := v_flags v AND 0x60, v_ty := d AND 0xe0, v_extra := ucast (info_of d)\<rparr>"

definition load_head :: "Value \<Rightarrow> Value" where
  "load_head v =
     (let bs = v_at v 0; d = hd bs; info = info_of d in
      v\<lparr>v_flags := (v_flags v AND 0x60) OR
            (if info = 31 then UNKNOWN_LENGTH
             else if info = 26 then INTEGER_TOO_LARGE
             else if info = 27 then INTEGER_TOO_LARGE OR INTEGER_IS_64_BIT else 0) OR
            (if d AND 0xe0 = 0x20 then NEGATIVE_INTEGER else 0),
         v_ty := head_ty d,
         v_extra :=
           (if info = 26 \<or> info = 27 \<or> (d AND 0xe0 = SIMPLE \<and> info = 20) then 0
            else if info = 31 then 31 else ucast (head_arg bs))\<rparr>)"

lemma info_cases:
  obtains "info_of d < 24" | "info_of d = 24" | "info_of d = 25" | "info_of d = 26" | "info_of d = 27"
  | "27 < info_of d"
proof -
  have "unat (info_of d) < 24 \<or> unat (info_of d) = 24 \<or> unat (info_of d) = 25 \<or>
      unat (info_of d) = 26 \<or> unat (info_of d) = 27 \<or> 27 < unat (info_of d)" by arith
  then have "info_of d < 24 \<or> info_of d = 24 \<or> info_of d = 25 \<or> info_of d = 26 \<or>
      info_of d = 27 \<or> 27 < info_of d"
    by (simp add: word_less_nat_alt word_unat_eq_iff)
  then show ?thesis using that by blast
qed

lemma preparse_value_empty:
  "v_at v 0 = [] \<Longrightarrow> preparse_value v =
     Some (v\<lparr>v_ty := INVALID, v_flags := v_flags v AND 0x60\<rparr>, Err UnexpectedEof)"
  by (simp add: preparse_value_def v_at_def CONTAINER_IS_MAP_def NEXT_IS_MAP_KEY_def)

lemma preparse_value_reserved:
  "v_at v 0 = d # ds \<Longrightarrow> 27 < info_of d \<Longrightarrow>
   preparse_value v = preparse_reserved (start_head v d) (d AND 0xe0) (info_of d)"
  by (simp add: preparse_value_def start_head_def info_of_def Let_def v_at_def
      CONTAINER_IS_MAP_def NEXT_IS_MAP_KEY_def)

lemma preparse_value_plain:
  "v_at v 0 = d # ds \<Longrightarrow> \<not> 27 < info_of d \<Longrightarrow>
   preparse_value v = and_then (preparse_argument (start_head v d) (info_of d))
     (\<lambda>v _. preparse_type v d (d AND 0xe0) (info_of d))"
  by (simp add: preparse_value_def start_head_def info_of_def Let_def v_at_def
      CONTAINER_IS_MAP_def NEXT_IS_MAP_KEY_def)

lemma arg_bytes_simps [simp]:
  "info < 24 \<Longrightarrow> arg_bytes info = 0"
  "arg_bytes 24 = 1" "arg_bytes 25 = 2" "arg_bytes 26 = 4" "arg_bytes 27 = 8"
  by (simp_all add: arg_bytes_def)


lemma split_head: "(d AND 0xe0) OR info_of d = d"
proof -
  have "(d AND 0xe0) OR (d AND 0x1f) = d AND (0xe0 OR 0x1f)" by (simp only: bit.conj_disj_distrib)
  also have "(0xe0 :: u8) OR 0x1f = - 1" by simp
  finally show ?thesis by (simp add: info_of_def)
qed

lemma head_from_parts: "d AND 0xe0 = t \<Longrightarrow> info_of d = i \<Longrightarrow> d = t OR i"
  using split_head [of d] by simp

lemma d_f8: "d = 0xf8 \<longleftrightarrow> d AND 0xe0 = 0xe0 \<and> info_of d = 24"
  using head_from_parts [of d] by (auto simp: info_of_def)

lemma major_simps:
  "drop_bit 5 (d AND 0xe0) = 1 \<longleftrightarrow> d AND 0xe0 = (0x20 :: u8)"
  "drop_bit 5 (d AND 0xe0) = 7 \<longleftrightarrow> d AND 0xe0 = (0xe0 :: u8)"
proof -
  have "mask 5 = (0x1f :: u8)" by (simp add: mask_eq_exp_minus_1)
  then have low: "take_bit 5 (d AND 0xe0) = (0 :: u8)" by (simp add: take_bit_eq_mask and.assoc)
  have eq: "drop_bit 5 x = k \<longleftrightarrow> x = push_bit 5 k"
    if "take_bit 5 x = (0 :: u8)" "drop_bit 5 (push_bit 5 k) = k" for x k
    using that bits_ident [of 5 x] by auto
  show "drop_bit 5 (d AND 0xe0) = 1 \<longleftrightarrow> d AND 0xe0 = (0x20 :: u8)"
    by (subst eq [OF low]) simp_all
  show "drop_bit 5 (d AND 0xe0) = 7 \<longleftrightarrow> d AND 0xe0 = (0xe0 :: u8)"
    by (subst eq [OF low]) simp_all
qed

text \<open>\<open>preparse_value\<close> accepts exactly the heads of \<open>head_ok\<close>.\<close>

lemma can_read_start [simp]: "can_read (start_head v d) n = can_read v n"
  by (simp add: can_read_def start_head_def)

lemma v_at_start [simp]: "v_at (start_head v d) n = v_at v n"
  by (simp add: v_at_def start_head_def)

lemma v_at_next: "v_at v 0 = d # ds \<Longrightarrow> v_at v (Suc 0) = ds"
  by (metis add.right_neutral add_Suc_right drop_Suc list.sel(3) tl_drop v_at_def)

lemma can_read_length: "v_at v 0 = d # ds \<Longrightarrow> can_read v n \<longleftrightarrow> n \<le> Suc (length ds)"
  by (drule arg_cong [of _ _ length]) (auto simp: can_read_def v_at_def)


lemma read_be_Nil [simp]: "read_be [] = 0"
  by (simp add: read_be_def)

lemma preparse_argument_short:
  "info < 24 \<Longrightarrow> preparse_argument v info = Some (v, Ok ())"
  by (simp add: preparse_argument_def)

lemma preparse_argument_small:
  assumes "v_at v 0 = d # ds" "info = 24 \<or> info = 25" "arg_bytes info \<le> length ds"
  shows "preparse_argument v info =
    Some (v\<lparr>v_extra := ucast (read_be (take (arg_bytes info) ds))\<rparr>, Ok ())"
  using assms by (auto simp: preparse_argument_def can_read_length v_at_next range_at_def subslice_def)

lemma preparse_argument_large:
  assumes "v_at v 0 = d # ds" "info = 26 \<or> info = 27" "arg_bytes info \<le> length ds"
  shows "preparse_argument v info =
    Some (v\<lparr>v_flags := v_flags v OR (info AND 3), v_extra := 0\<rparr>, Ok ())"
  using assms by (auto simp: preparse_argument_def can_read_length)

lemma preparse_argument_eof:
  assumes "v_at v 0 = d # ds" "\<not> arg_bytes info \<le> length ds"
  shows "preparse_argument v info = Some (v, Err UnexpectedEof)"
  using assms by (auto simp: preparse_argument_def can_read_length)

lemma head_ok_info: "head_ok (d # ds) \<Longrightarrow> info_of d = 31 \<or> \<not> 27 < info_of d"
  by (auto simp: head_ok_def split: if_splits)

lemma preparse_type_ok:
  assumes "v_ty v = d AND 0xe0"
    and "\<not> (d AND 0xe0 = SIMPLE \<and> info_of d = 24 \<and> v_extra v < 32)"
  shows "preparse_type v d (d AND 0xe0) (info_of d) = Some (v\<lparr>
      v_flags := v_flags v OR (if d AND 0xe0 = 0x20 then NEGATIVE_INTEGER else 0) OR
        (if d AND 0xe0 = SIMPLE \<and> (info_of d = 26 \<or> info_of d = 27) then INTEGER_TOO_LARGE else 0),
      v_ty := head_ty d,
      v_extra := (if d AND 0xe0 = SIMPLE \<and> info_of d = 20 then 0 else v_extra v)\<rparr>, Ok ())"
proof -
  consider "d AND 0xe0 = 0x20" | "d AND 0xe0 = 0xe0" | "d AND 0xe0 \<noteq> 0x20" "d AND 0xe0 \<noteq> 0xe0"
    by blast
  then show ?thesis
    by cases (cases v; use assms in
      \<open>simp add: preparse_type_def major_simps head_ty_def Let_def SIMPLE_def del: drop_bit_and\<close>)+
qed

lemma preparse_plain_ok:
  assumes "v_at v 0 = d # ds" "\<not> 27 < info_of d"
    and "preparse_argument (start_head v d) (info_of d) = Some (w, Ok ())" "v_ty w = d AND 0xe0"
    and "\<not> (d AND 0xe0 = SIMPLE \<and> info_of d = 24 \<and> v_extra w < 32)"
  shows "preparse_value v = Some (w\<lparr>
      v_flags := v_flags w OR (if d AND 0xe0 = 0x20 then NEGATIVE_INTEGER else 0) OR
        (if d AND 0xe0 = SIMPLE \<and> (info_of d = 26 \<or> info_of d = 27) then INTEGER_TOO_LARGE else 0),
      v_ty := head_ty d,
      v_extra := (if d AND 0xe0 = SIMPLE \<and> info_of d = 20 then 0 else v_extra w)\<rparr>, Ok ())"
  using assms(3) unfolding preparse_value_plain [OF assms(1,2)]
  by (simp add: and_then_def preparse_type_ok [OF assms(4,5)])

lemma ucast_8_64_16: "ucast (ucast (x :: u8) :: u64) = (ucast x :: u16)"
  by (rule bit_word_eqI) (auto simp: bit_simps)

lemma preparse_value_ok:
  assumes at: "v_at v 0 = d # ds" and ok: "head_ok (d # ds)"
  shows "preparse_value v = Some (load_head v, Ok ())"
proof -
  have at': "v_at (start_head v d) 0 = d # ds" using at by simp
  have ns: "\<not> (ucast (read_be (take 1 ds)) :: u16) < 32"
    if "info_of d = 24" "d AND 0xe0 = SIMPLE"
    using ok that d_f8 [of d] by (auto simp: head_ok_def SIMPLE_def)
  have len: "arg_bytes (info_of d) \<le> length ds" if "info_of d \<noteq> 31"
    using ok that by (simp add: head_ok_def head_len_def)
  note rules = load_head_def at Let_def head_arg_def start_head_def
  show ?thesis
  proof (cases d rule: info_cases)
    case 1
    then have "\<not> 27 < info_of d" "info_of d \<noteq> 24" "info_of d \<noteq> 26" "info_of d \<noteq> 27" "info_of d \<noteq> 31"
      by (auto simp: word_less_nat_alt)
    with 1 show ?thesis
      using preparse_plain_ok [OF at _ preparse_argument_short] by (simp add: rules ucast_8_64_16)
  next
    case 2
    then show ?thesis
      using len ns preparse_plain_ok [OF at _ preparse_argument_small [OF at']]
      by (simp add: rules)
  next
    case 3
    then show ?thesis
      using len preparse_plain_ok [OF at _ preparse_argument_small [OF at']] by (simp add: rules)
  next
    case 4
    then show ?thesis
      using len preparse_plain_ok [OF at _ preparse_argument_large [OF at']]
      by (simp add: rules cbor_flags or.assoc)
  next
    case 5
    then show ?thesis
      using len preparse_plain_ok [OF at _ preparse_argument_large [OF at']]
      by (simp add: rules cbor_flags or.assoc)
  next
    case 6
    then have "info_of d = 31" "\<not> is_fixed_type (d AND 0xe0)"
      using ok head_ok_info [OF ok] by (auto simp: head_ok_def split: if_splits)
    then have "d AND 0xe0 \<noteq> 0x20" "d AND 0xe0 \<noteq> SIMPLE"
      by (auto simp: is_fixed_type_def cbor_consts)
    with 6 \<open>info_of d = 31\<close> \<open>\<not> is_fixed_type (d AND 0xe0)\<close> show ?thesis
      by (simp add: preparse_value_reserved [OF at] preparse_reserved_def load_head_def at Let_def
        start_head_def head_ty_def)
  qed
qed

definition place_kept :: "Value \<Rightarrow> Value \<Rightarrow> bool" where
  "place_kept v w \<longleftrightarrow> v_buf w = v_buf v \<and> v_pos w = v_pos v \<and> v_remaining w = v_remaining v"

lemma start_head_sel [simp]:
  "v_flags (start_head v d) = v_flags v AND 0x60" "v_ty (start_head v d) = d AND 0xe0"
  "place_kept v (start_head v d)"
  by (simp_all add: start_head_def place_kept_def)

lemma preparse_value_err:
  assumes no: "\<not> head_ok (v_at v 0)"
  obtains w e where "preparse_value v = Some (w, Err e)" "place_kept v w"
    "v_ty w \<noteq> INVALID \<Longrightarrow> v_at v 0 \<noteq> [] \<and> v_flags w AND INTEGER_TOO_LARGE = 0"
proof (cases "v_at v 0")
  case Nil
  then show ?thesis using that by (fastforce simp: preparse_value_empty place_kept_def)
next
  case (Cons d ds)
  then have at': "v_at (start_head v d) 0 = d # ds" by simp
  let ?goal = "\<exists>w e. preparse_value v = Some (w, Err e) \<and> place_kept v w \<and>
      (v_ty w = INVALID \<or> v_flags w AND INTEGER_TOO_LARGE = 0)"
  have eof: ?goal if "\<not> arg_bytes (info_of d) \<le> length ds" "\<not> 27 < info_of d"
    using that Cons
    by (auto simp: preparse_value_plain preparse_argument_eof [OF at'] and_then_def
        INTEGER_TOO_LARGE_def and.assoc)
  have ?goal
  proof (cases d rule: info_cases)
    case 1
    then have "info_of d \<le> 27" "info_of d \<noteq> 31" "info_of d \<noteq> 24"
      by (auto simp: word_le_nat_alt word_less_nat_alt)
    with 1 show ?thesis using no Cons d_f8 [of d] by (simp add: head_ok_def head_len_def)
  next
    case 2
    let ?w = "(start_head v d)\<lparr>v_extra := ucast (read_be (take 1 ds))\<rparr>"
    show ?thesis
    proof (cases "1 \<le> length ds")
      case True
      then have "preparse_value v = preparse_type ?w d (d AND 0xe0) 24" using 2 Cons
        by (simp add: preparse_value_plain preparse_argument_small [OF at'] and_then_def)
      moreover have "d AND 0xe0 = 0xe0" "v_extra ?w < 32"
        using True no Cons 2 d_f8 [of d] by (auto simp: head_ok_def head_len_def)
      ultimately have "preparse_value v = Some (?w\<lparr>v_ty := INVALID\<rparr>, Err IllegalSimpleType)"
        by (simp add: preparse_type_def)
      then show ?thesis by (fastforce simp: place_kept_def start_head_def)
    next
      case False
      then show ?thesis using 2 eof by simp
    qed
  next
    case 3
    then show ?thesis using no Cons d_f8 [of d] eof by (simp add: head_ok_def head_len_def)
  next
    case 4
    then show ?thesis using no Cons d_f8 [of d] eof by (simp add: head_ok_def head_len_def)
  next
    case 5
    then show ?thesis using no Cons d_f8 [of d] eof by (simp add: head_ok_def head_len_def)
  next
    case 6
    then have "\<not> info_of d \<le> 27" by (simp add: not_le)
    with 6 show ?thesis using no Cons
      by (auto simp: head_ok_def preparse_value_reserved preparse_reserved_def
        INTEGER_TOO_LARGE_def and.assoc split: if_splits)
  qed
  then show ?thesis using that Cons by auto
qed


section \<open>Values at rest\<close>

text \<open>A value is \<open>on_head\<close> when it is what reading an acceptable head at its position gives,
  and \<open>live\<close> when it is that or at the end of its container. \<open>readable\<close> is what reading a
  number and stepping over a head need. Every value a successful call returns is \<open>sound\<close>.\<close>

definition on_head :: "Value \<Rightarrow> bool" where
  "on_head v \<longleftrightarrow> head_ok (v_at v 0) \<and> load_head v = v"

definition live :: "Value \<Rightarrow> bool" where
  "live v \<longleftrightarrow> (if v_remaining v = 0 then v_ty v = INVALID else on_head v)"

definition readable :: "Value \<Rightarrow> bool" where
  "readable v \<longleftrightarrow> v_at v 0 \<noteq> [] \<and>
     (v_flags v AND INTEGER_TOO_LARGE \<noteq> 0 \<longrightarrow>
        (if v_flags v AND INTEGER_IS_64_BIT \<noteq> 0 then 8 else 4) < length (v_at v 0))"

definition sound :: "Value \<Rightarrow> bool" where
  "sound v \<longleftrightarrow> v_ty v = INVALID \<or> on_head v"

lemma load_head_sel [simp]:
  "v_buf (load_head v) = v_buf v" "v_pos (load_head v) = v_pos v"
  "v_remaining (load_head v) = v_remaining v" "v_at (load_head v) n = v_at v n"
  "can_read (load_head v) n = can_read v n" "v_ty (load_head v) = head_ty (hd (v_at v 0))"
  by (simp_all add: load_head_def Let_def v_at_def can_read_def)

lemma load_head_flags:
  "v_flags (load_head v) AND INTEGER_TOO_LARGE = 0 \<longleftrightarrow>
     info_of (hd (v_at v 0)) \<noteq> 26 \<and> info_of (hd (v_at v 0)) \<noteq> 27"
  "v_flags (load_head v) AND INTEGER_IS_64_BIT = 0 \<longleftrightarrow> info_of (hd (v_at v 0)) \<noteq> 27"
  "v_flags (load_head v) AND UNKNOWN_LENGTH = 0 \<longleftrightarrow> info_of (hd (v_at v 0)) \<noteq> 31"
  "v_flags (load_head v) AND 0x60 = v_flags v AND 0x60"
  by (simp_all add: load_head_def Let_def cbor_flags bit.conj_disj_distrib2 and.assoc)

lemma load_head_idem [simp]: "load_head (load_head v) = load_head v"
proof -
  have "load_head (v\<lparr>v_flags := f, v_ty := t, v_extra := x\<rparr>) = load_head v"
    if "f AND 0x60 = v_flags v AND 0x60" for f t x
    using that by (simp add: load_head_def Let_def v_at_def)
  then show ?thesis
    using load_head_flags(4) [of v] unfolding load_head_def [of v] Let_def by simp
qed

lemma head_ty_not_INVALID: "head_ok bs \<Longrightarrow> head_ty (hd bs) \<noteq> INVALID"
proof
  assume ok: "head_ok bs" and ty: "head_ty (hd bs) = INVALID"
  obtain d ds where bs: "bs = d # ds" using ok by (cases bs) (auto simp: head_ok_def)
  have "d AND 0xe0 \<noteq> 0xff"
  proof
    assume ff: "d AND 0xe0 = 0xff"
    have "(d AND 0xe0) AND 0xe0 = d AND 0xe0" by (simp add: and.assoc)
    then show False unfolding ff by simp
  qed
  then have "d = 0xff" using ty bs
    by (auto simp: head_ty_def Let_def cbor_consts split: if_splits)
  then show False using ok bs by (simp add: head_ok_def info_of_def is_fixed_type_def cbor_consts)
qed

lemma on_head_load: "head_ok (v_at v 0) \<Longrightarrow> on_head (load_head v)"
  by (simp add: on_head_def)

lemma on_head_readable:
  assumes "on_head v"
  shows "readable v" "v_ty v \<noteq> INVALID"
proof -
  obtain d ds where at: "v_at v 0 = d # ds"
    using assms by (cases "v_at v 0") (auto simp: on_head_def head_ok_def)
  have v: "load_head v = v" and ok: "head_ok (d # ds)" using assms at by (auto simp: on_head_def)
  show "v_ty v \<noteq> INVALID"
    using head_ty_not_INVALID [OF ok] load_head_sel(6) [of v] v at by simp
  show "readable v"
    using load_head_flags [of v] v at ok
    by (auto simp: readable_def head_ok_def head_len_def)
qed

lemma live_sound: "live v \<Longrightarrow> sound v"
  by (auto simp: live_def sound_def split: if_splits)

section \<open>No panic and no endless loop\<close>

text \<open>Reading the next head never panics and keeps the place; when it succeeds the value is
  sound, and live if it was not at its end before.\<close>

lemma load_head_place [simp]: "place_kept v (load_head v)"
  by (simp add: place_kept_def)

lemma preparse_value_cases:
  obtains (ok) "head_ok (v_at v 0)" "preparse_value v = Some (load_head v, Ok ())"
  | (err) w e where "\<not> head_ok (v_at v 0)" "preparse_value v = Some (w, Err e)" "place_kept v w"
proof (cases "head_ok (v_at v 0)")
  case True
  moreover then obtain d ds where "v_at v 0 = d # ds" by (cases "v_at v 0") (auto simp: head_ok_def)
  ultimately show ?thesis using ok preparse_value_ok by simp
next
  case False
  then show ?thesis using preparse_value_err err by metis
qed

definition stays :: "Value \<Rightarrow> unit stepped \<Rightarrow> bool" where
  "stays v m \<longleftrightarrow> (\<exists>w r. m = Some (w, r) \<and> v_buf w = v_buf v \<and> v_pos w = v_pos v)"

lemma preparse_value_stays: "stays v (preparse_value v)"
  by (cases v rule: preparse_value_cases) (auto simp: stays_def place_kept_def)

lemma preparse_value_on_head: "preparse_value v = Some (w, Ok ()) \<Longrightarrow> on_head w \<and> place_kept v w"
  by (cases v rule: preparse_value_cases) (auto simp: on_head_load)

lemma nodecrement_stays: "stays v (preparse_next_value_nodecrement v)"
  using preparse_value_stays [of v]
  by (simp add: preparse_next_value_nodecrement_def stays_def Let_def)

lemma nodecrement_live:
  assumes "preparse_next_value_nodecrement v = Some (w, Ok ())"
  shows "sound w" "v_remaining v \<noteq> 0 \<Longrightarrow> live w"
  using assms preparse_value_on_head [of v w]
  by (auto simp: preparse_next_value_nodecrement_def live_def sound_def Let_def place_kept_def
      split: if_splits)

lemma preparse_next_tag: "v_ty v = TAG \<Longrightarrow> preparse_next_value v = preparse_next_value_nodecrement v"
  by (simp add: preparse_next_value_def)

lemma preparse_next_end:
  "v_ty v \<noteq> TAG \<Longrightarrow> v_remaining v = 1 \<Longrightarrow> preparse_next_value v =
     Some (v\<lparr>v_remaining := 0, v_flags := v_flags v AND NOT UNKNOWN_LENGTH, v_ty := INVALID\<rparr>, Ok ())"
  by (cases v) (simp add: preparse_next_value_def)

definition count_item :: "Value \<Rightarrow> Value" where
  "count_item v = v\<lparr>v_remaining := (if v_remaining v = - 1 then - 1 else v_remaining v - 1),
     v_flags := v_flags v XOR NEXT_IS_MAP_KEY\<rparr>"

lemma preparse_next_more:
  assumes "v_ty v \<noteq> TAG" "v_remaining v \<noteq> 1"
  shows "preparse_next_value v = preparse_next_value_nodecrement (count_item v)"
proof (cases "v_remaining v = - 1")
  case True
  then show ?thesis using assms(1) by (cases v) (simp add: preparse_next_value_def count_item_def)
next
  case False
  then show ?thesis using assms by (cases v) (simp add: preparse_next_value_def count_item_def)
qed

lemma count_item_sel [simp]:
  "v_buf (count_item v) = v_buf v" "v_pos (count_item v) = v_pos v" "v_ty (count_item v) = v_ty v"
  "v_at (count_item v) n = v_at v n"
  "v_remaining v \<noteq> 1 \<Longrightarrow> v_remaining (count_item v) \<noteq> 0"
  by (auto simp: count_item_def v_at_def)

lemma preparse_next_cases:
  obtains (tag) "v_ty v = TAG" "preparse_next_value v = preparse_next_value_nodecrement v"
  | (last_item) "v_ty v \<noteq> TAG" "v_remaining v = 1" "preparse_next_value v =
      Some (v\<lparr>v_remaining := 0, v_flags := v_flags v AND NOT UNKNOWN_LENGTH, v_ty := INVALID\<rparr>, Ok ())"
  | (more) "v_ty v \<noteq> TAG" "v_remaining v \<noteq> 1"
      "preparse_next_value v = preparse_next_value_nodecrement (count_item v)"
  using preparse_next_tag preparse_next_end preparse_next_more by metis

lemma preparse_next_stays: "stays v (preparse_next_value v)"
proof (cases v rule: preparse_next_cases)
  case last_item
  then show ?thesis by (simp add: stays_def)
next
  case more
  then show ?thesis using nodecrement_stays [of "count_item v"] by (simp add: stays_def)
qed (simp add: nodecrement_stays)

lemma preparse_next_live:
  assumes ok: "preparse_next_value v = Some (w, Ok ())"
  shows "sound w" "v_remaining v \<noteq> 0 \<or> v_ty v \<noteq> TAG \<Longrightarrow> live w"
proof -
  have "sound w \<and> (v_remaining v \<noteq> 0 \<or> v_ty v \<noteq> TAG \<longrightarrow> live w)"
  proof (cases v rule: preparse_next_cases)
    case tag
    then show ?thesis using ok nodecrement_live [of v] by simp
  next
    case last_item
    then show ?thesis using ok by (auto simp: live_def sound_def)
  next
    case more
    then show ?thesis using ok nodecrement_live [of "count_item v"] by simp
  qed
  then show "sound w" "v_remaining v \<noteq> 0 \<or> v_ty v \<noteq> TAG \<Longrightarrow> live w" by blast+
qed

text \<open>Stepping over a head.\<close>

lemma extract_readable:
  assumes "readable v"
  shows "\<exists>n. value_extract v = Some n"
proof -
  have "range_at (v_at v (Suc 0)) 0 w = Some (take w (v_at v (Suc 0)))"
    if "w < length (v_at v 0)" for w
    using that by (auto simp: v_at_def range_at_def subslice_def)
  then show ?thesis using assms
    by (auto simp: value_extract_def readable_def Let_def split: if_splits)
qed

lemma extract_advance:
  assumes "readable v"
  shows "\<exists>n. extract_number_and_advance v = Some (v\<lparr>v_pos := v_pos v + head_len (hd (v_at v 0))\<rparr>, n)"
proof -
  obtain d ds where at: "v_at v 0 = d # ds" using assms by (cases "v_at v 0") (auto simp: readable_def)
  then show ?thesis using extract_readable [OF assms]
    by (auto simp: extract_number_and_advance_def get_at_def head_len_def info_of_def)
qed

lemma advance_internal_eq:
  assumes "readable v"
  shows "advance_internal v =
    preparse_next_value (v\<lparr>v_pos := v_pos v + head_len (hd (v_at v 0))\<rparr>)"
  using extract_advance [OF assms] by (auto simp: advance_internal_def)


text \<open>The chunks of a string.\<close>

definition copier_ok :: "nat \<Rightarrow> 's copier \<Rightarrow> bool" where
  "copier_ok buflen copy \<longleftrightarrow>
     (\<forall>at chunk s. at + length chunk \<le> buflen \<longrightarrow> copy at chunk s \<noteq> None)"

definition moved :: "Value \<Rightarrow> Value \<Rightarrow> bool" where
  "moved v w \<longleftrightarrow> v_buf w = v_buf v \<and> v_pos v \<le> v_pos w \<and> v_remaining w = v_remaining v \<and>
     v_ty w = v_ty v \<and> is_length_known w = is_length_known v"

lemma moved_trans: "moved u v \<Longrightarrow> moved v w \<Longrightarrow> moved u w"
  by (auto simp: moved_def)

lemma string_chunk_End:
  assumes "string_chunk um v = Some (v', Ok End)"
  shows "v' = v" "is_length_known v \<and> v_flags v AND BEFORE_FIRST_STRING_CHUNK = 0 \<or>
    v_at v 0 \<noteq> [] \<and> hd (v_at v 0) = BREAK"
proof -
  have no: "transfer_string v l offset \<noteq> (w, Ok End)" for l offset w
    by (simp add: transfer_string_def Let_def)
  have "v' = v \<and> (is_length_known v \<and> v_flags v AND BEFORE_FIRST_STRING_CHUNK = 0 \<or>
    v_at v 0 \<noteq> [] \<and> hd (v_at v 0) = BREAK)"
  proof (cases "v_at v 0")
    case Nil
    then show ?thesis using assms by (auto simp: string_chunk_def split: if_splits)
  next
    case (Cons d ds)
    obtain r where "chunk_head um v (d AND 0x1f) = Some r" using chunk_head_total by blast
    then show ?thesis using assms Cons no
      by (auto simp: string_chunk_def split: if_splits result.splits)
  qed
  then show "v' = v" "is_length_known v \<and> v_flags v AND BEFORE_FIRST_STRING_CHUNK = 0 \<or>
    v_at v 0 \<noteq> [] \<and> hd (v_at v 0) = BREAK" by blast+
qed

lemma string_chunk_moved:
  assumes "string_chunk um v = Some (v', Ok (More start len))"
  shows "moved v v'"
  using string_chunk_More [OF assms]
  by (simp add: moved_def is_length_known_def cbor_flags and.assoc)

lemma chunk_loop_total:
  assumes "copier_ok buflen copy"
  shows "\<exists>s' r. chunk_loop um buflen copy v tot all s = Some (s', r) \<and>
    (\<forall>w t a. r = Ok (w, t, a) \<longrightarrow> moved v w)"
  using assms
proof (induction um buflen copy v tot all s rule: chunk_loop.induct)
  case (1 um buflen copy v tot all s)
  obtain v' c where c: "string_chunk um v = Some (v', c)" using string_chunk_total by fastforce
  show ?case
  proof (cases c)
    case (Err e)
    then show ?thesis using c by (subst chunk_loop.simps) simp
  next
    case (Ok k)
    show ?thesis
    proof (cases k)
      case End
      then show ?thesis using c Ok string_chunk_End [of um v v']
        by (subst chunk_loop.simps) (simp add: moved_def)
    next
      case (More start len)
      note c' = c [unfolded Ok More]
      have mv: "moved v v'" using string_chunk_moved [OF c'] .
      have "range_at (v_buf v) start (start + len) = Some (subslice (v_buf v) start len)"
        using string_chunk_More [OF c'] by (simp add: range_at_def)
      then obtain s' where s': "tot + len \<le> buflen \<Longrightarrow>
          Option.bind (range_at (v_buf v) start (start + len)) (\<lambda>chunk. copy tot chunk s) = Some s'"
        using "1.prems" string_chunk_More [OF c'] unfolding copier_ok_def
        by (metis bind.bind_lunit length_subslice option.exhaust)
      have tr: "moved v' w \<Longrightarrow> moved v w" for w using mv by (rule moved_trans)
      consider "um < tot + len" | "\<not> um < tot + len" "all \<and> tot + len \<le> buflen"
        | "\<not> um < tot + len" "\<not> (all \<and> tot + len \<le> buflen)" by blast
      then show ?thesis
      proof cases
        case 1
        then show ?thesis using c' by (subst chunk_loop.simps) simp
      next
        case 2
        with "1.IH"(1) [OF c' refl refl refl _ _ s' "1.prems"] s' c' show ?thesis
          by (subst chunk_loop.simps) (clarsimp, rule tr, assumption)
      next
        case 3
        with "1.IH"(2) [OF c' refl refl refl _ _ "1.prems"] c' show ?thesis
          by (subst chunk_loop.simps) (auto, (rule tr, assumption)+)
      qed
    qed
  qed
qed


text \<open>A string item: its iteration ends, does not panic, and the value it returns is past the
  string.\<close>

definition passes :: "Value \<Rightarrow> Value \<Rightarrow> bool" where
  "passes v w \<longleftrightarrow> v_buf w = v_buf v \<and> v_pos v < v_pos w \<and> sound w \<and> (v_remaining v \<noteq> 0 \<longrightarrow> live w)"

lemma on_headE:
  assumes "on_head v"
  obtains d ds where "v_at v 0 = d # ds" "head_ok (d # ds)" "v_ty v = head_ty d" "load_head v = v"
proof -
  have ok: "head_ok (v_at v 0)" and l: "load_head v = v" using assms by (auto simp: on_head_def)
  from ok obtain d ds where at: "v_at v 0 = d # ds" by (cases "v_at v 0") (auto simp: head_ok_def)
  have "v_ty v = head_ty d" using l at load_head_sel(6) [of v] by simp
  then show ?thesis using that at ok l by simp
qed

lemma head_ty_variable:
  assumes "\<not> is_fixed_type (head_ty d)"
  shows "d AND 0xe0 = head_ty d"
  using assms by (auto simp: head_ty_def is_fixed_type_def Let_def cbor_consts split: if_splits)

lemma string_head_not_break:
  assumes "on_head v" "is_text_string v \<or> is_byte_string v"
  shows "v_at v 0 \<noteq> []" "hd (v_at v 0) \<noteq> BREAK"
proof -
  obtain d ds where at: "v_at v 0 = d # ds" "v_ty v = head_ty d" using assms(1) by (rule on_headE)
  have "d AND 0xe0 = v_ty v"
    using assms(2) at head_ty_variable [of d]
    by (auto simp: is_text_string_def is_byte_string_def is_fixed_type_def)
  then show "v_at v 0 \<noteq> []" "hd (v_at v 0) \<noteq> BREAK"
    using assms(2) at by (auto simp: is_text_string_def is_byte_string_def cbor_consts)
qed

lemma chunk_loop_moves:
  assumes ok: "chunk_loop um buflen copy v tot all s = Some (s', Ok (w, t, a))"
    and copy: "copier_ok buflen copy"
    and start: "v_flags v AND BEFORE_FIRST_STRING_CHUNK \<noteq> 0" "v_at v 0 \<noteq> []" "hd (v_at v 0) \<noteq> BREAK"
  shows "v_pos v < v_pos w"
proof -
  obtain v' c where c: "string_chunk um v = Some (v', Ok c)"
    using ok string_chunk_total [of um v] by (subst (asm) chunk_loop.simps) (auto split: result.splits)
  then obtain st len where "c = More st len"
    using string_chunk_End [of um v v'] start by (cases c) auto
  then have m: "v_pos v < v_pos v'" using c string_chunk_More [of um v v' st len] by simp
  obtain al s2 where "chunk_loop um buflen copy v' (tot + len) al s2 = Some (s', Ok (w, t, a))"
    using ok c \<open>c = More st len\<close> by (subst (asm) chunk_loop.simps) (auto split: if_splits option.splits)
  then have "moved v' w"
    using chunk_loop_total [OF copy, of um v' "tot + len" al s2] by auto
  with m show ?thesis by (simp add: moved_def)
qed


lemma preparse_next_passes:
  assumes "v_buf u = v_buf v" "v_pos v < v_pos u" "v_remaining u = v_remaining v" "v_ty u = v_ty v"
  shows "\<exists>w r. preparse_next_value u = Some (w, r) \<and> (r = Ok () \<longrightarrow> passes v w)"
  using preparse_next_stays [of u] preparse_next_live [of u] assms
  by (fastforce simp: stays_def passes_def)

lemma string_begin:
  fixes v defines "u \<equiv> v\<lparr>v_flags := v_flags v OR (ITERATING_STRING_CHUNKS OR BEFORE_FIRST_STRING_CHUNK)\<rparr>"
  shows "is_length_known u = is_length_known v" "v_flags u AND BEFORE_FIRST_STRING_CHUNK \<noteq> 0"
  by (simp_all add: u_def is_length_known_def cbor_flags bit.conj_disj_distrib2)

lemma iterate_string_total:
  assumes v: "on_head v" and copy: "copier_ok buflen copy"
  shows "\<exists>s' r. iterate_string um v buflen copy s = Some (s', r) \<and>
    (\<forall>c w. r = Ok (c, w) \<longrightarrow> passes v w)"
proof (cases "is_text_string v \<or> is_byte_string v")
  case True
  define u where "u = v\<lparr>v_flags := v_flags v OR (ITERATING_STRING_CHUNKS OR BEFORE_FIRST_STRING_CHUNK)\<rparr>"
  define u' where "u' = (if \<not> is_length_known u then u\<lparr>v_pos := v_pos u + 1\<rparr> else u)"
  have u': "v_buf u' = v_buf v" "v_remaining u' = v_remaining v" "v_ty u' = v_ty v"
    "is_length_known u' = is_length_known u" "v_pos v \<le> v_pos u'"
    "is_length_known u \<Longrightarrow> u' = u" "\<not> is_length_known u \<Longrightarrow> v_pos v < v_pos u'"
    by (simp_all add: u'_def u_def is_length_known_def)
  obtain s' r where loop: "chunk_loop um buflen copy u' 0 True s = Some (s', r)"
    and mv: "\<And>w t a. r = Ok (w, t, a) \<Longrightarrow> moved u' w"
    using chunk_loop_total [OF copy] by blast
  have eq: "iterate_string um v buflen copy s = (case r of
        Err e \<Rightarrow> Some (s', Err e)
      | Ok (w, t, a) \<Rightarrow> do {
          (w, x) \<leftarrow> preparse_next_value
            (if \<not> is_length_known w then w\<lparr>v_pos := v_pos w + 1\<rparr> else w);
          (case x of Err e \<Rightarrow> Some (s', Err e)
           | Ok _ \<Rightarrow> Some (s', Ok (\<lparr>cp_total = t, cp_all = a, cp_nul = (a \<and> t < buflen)\<rparr>, w))) })"
    using True loop unfolding iterate_string_def Let_def u'_def u_def
    by (auto split: result.splits)
  show ?thesis
  proof (cases r)
    case (Err e)
    then show ?thesis using eq by simp
  next
    case (Ok p)
    obtain w t a where p: "p = (w, t, a)" by (cases p)
    have m: "moved u' w" using mv Ok p by simp
    have "v_pos v < v_pos w"
    proof (cases "is_length_known u")
      case True
      have "v_pos u < v_pos w"
        using chunk_loop_moves [of um buflen copy u 0 True s s' w t a] loop Ok p copy u'(6) True
          string_begin(2) [of v] string_head_not_break [OF v] \<open>is_text_string v \<or> is_byte_string v\<close>
        by (simp add: u_def v_at_def)
      then show ?thesis by (simp add: u_def)
    next
      case False
      then show ?thesis using m u' by (simp add: moved_def)
    qed
    then obtain w' x where "preparse_next_value
        (if \<not> is_length_known w then w\<lparr>v_pos := v_pos w + 1\<rparr> else w) = Some (w', x)"
      "x = Ok () \<Longrightarrow> passes v w'"
      using preparse_next_passes [of "if \<not> is_length_known w then w\<lparr>v_pos := v_pos w + 1\<rparr> else w" v] m u'
      by (auto simp: moved_def)
    then show ?thesis using eq Ok p by (auto split: result.splits)
  qed
qed (simp add: iterate_string_def)


text \<open>Containers.\<close>

definition within :: "Value \<Rightarrow> Value \<Rightarrow> bool" where
  "within v w \<longleftrightarrow> v_buf w = v_buf v \<and> v_pos v < v_pos w \<and> live w"

lemma enter_items_total:
  assumes "v_remaining u \<noteq> 0" "v_buf u = v_buf v" "v_pos v < v_pos u"
  shows "\<exists>r. enter_items u = Some r \<and> (\<forall>w. r = Ok w \<longrightarrow> within v w)"
  using nodecrement_stays [of "u\<lparr>v_flags := v_ty u AND CONTAINER_IS_MAP\<rparr>"]
    nodecrement_live(2) [of "u\<lparr>v_flags := v_ty u AND CONTAINER_IS_MAP\<rparr>"] assms
  by (auto simp: enter_items_def stays_def within_def split: result.splits)

lemma twice_not_zero:
  assumes "\<not> (- 1) div 2 < (x :: u32)" "x \<noteq> 0"
  shows "x * 2 \<noteq> 0"
proof -
  have "(- 1 :: u32) div 2 = 2147483647" by simp
  then have "unat x \<le> 2147483647" using assms(1) by (simp add: word_less_nat_alt)
  then have "unat (x * 2) = unat x * 2" by (simp add: unat_word_ariths)
  moreover have "unat x \<noteq> 0" using assms(2) by (simp add: unat_eq_0)
  ultimately show ?thesis by (metis mult_eq_0_iff unsigned_0 zero_neq_numeral)
qed

lemma enter_container_total:
  assumes v: "on_head v"
  shows "\<exists>r. enter_container v = Some r \<and> (\<forall>w. r = Ok w \<longrightarrow> within v w)"
proof -
  obtain len where len: "extract_number_and_advance v =
      Some (v\<lparr>v_pos := v_pos v + head_len (hd (v_at v 0))\<rparr>, len)"
    using extract_advance [OF on_head_readable(1) [OF v]] by blast
  let ?u = "v\<lparr>v_pos := v_pos v + head_len (hd (v_at v 0)), v_remaining := ucast len\<rparr>"
  let ?t = "if v_ty v = MAP then ?u\<lparr>v_remaining := v_remaining ?u * 2\<rparr> else ?u"
  have nz: "v_remaining ?t \<noteq> 0"
    if "ucast (ucast len :: u32) = len" "len \<noteq> 0" "\<not> (v_ty v = MAP \<and> (- 1) div 2 < (ucast len :: u32))"
  proof -
    have "(ucast len :: u32) \<noteq> 0"
    proof
      assume "(ucast len :: u32) = 0"
      then show False using that(1,2) by simp
    qed
    then show ?thesis using that(3) twice_not_zero [of "ucast len"] by auto
  qed
  have e: "\<exists>r. enter_items ?t = Some r \<and> (\<forall>w. r = Ok w \<longrightarrow> within v w)"
    if "ucast (ucast len :: u32) = len" "len \<noteq> 0" "\<not> (v_ty v = MAP \<and> (- 1) div 2 < (ucast len :: u32))"
    by (rule enter_items_total [OF nz [OF that]]) (auto simp: head_len_def)
  have z: "live (?t\<lparr>v_ty := INVALID\<rparr>)" if "len = 0"
    using that by (simp add: live_def)
  have i: "\<exists>r. enter_items (v\<lparr>v_remaining := - 1, v_pos := v_pos v + 1\<rparr>) = Some r \<and>
      (\<forall>w. r = Ok w \<longrightarrow> within v w)"
    by (rule enter_items_total) auto
  show ?thesis
    using e z i unfolding enter_container_def Let_def len
    by (auto simp: within_def head_len_def)
qed

lemma leave_container_total:
  "\<exists>w r. leave_container v u = Some (w, r)"
  using preparse_next_stays [of "v\<lparr>v_pos := v_pos u + (if v_flags u AND UNKNOWN_LENGTH \<noteq> 0 then 1 else 0)\<rparr>"]
  by (auto simp: leave_container_def stays_def)

lemma leave_container_passes:
  assumes "leave_container v u = Some (w, Ok ())" "within v u"
  shows "passes v w"
proof -
  let ?v = "v\<lparr>v_pos := v_pos u + (if v_flags u AND UNKNOWN_LENGTH \<noteq> 0 then 1 else 0)\<rparr>"
  have "preparse_next_value ?v = Some (w, Ok ())"
    using assms(1) by (simp add: leave_container_def split: if_splits)
  then show ?thesis using preparse_next_passes [of ?v v] assms(2) by (auto simp: within_def)
qed

text \<open>The loop over the items of a container ends, because every item is at least a byte.\<close>

lemma live_not_end: "live w \<Longrightarrow> v_remaining w \<noteq> 0 \<Longrightarrow> on_head w \<and> v_pos w < length (v_buf w)"
  by (auto simp: live_def v_at_Cons elim!: on_headE)

lemma advance_items_total:
  assumes step: "\<And>w. on_head w \<Longrightarrow> \<exists>w' r. step w = Some (w', r) \<and> (r = Ok () \<longrightarrow> passes w w')"
  shows "live v \<Longrightarrow> \<exists>w r. advance_items step v = Some (w, r) \<and>
    (r = Ok () \<longrightarrow> v_buf w = v_buf v \<and> v_pos v \<le> v_pos w \<and> live w \<and> at_end w)"
proof (induction "length (v_buf v) - v_pos v" arbitrary: v rule: less_induct)
  case less
  show ?case
  proof (cases "at_end v")
    case True
    then show ?thesis using less.prems by (simp add: advance_items.simps)
  next
    case False
    then have nz: "v_remaining v \<noteq> 0" by (simp add: at_end_def)
    obtain w r where s: "step v = Some (w, r)" and p: "r = Ok () \<Longrightarrow> passes v w"
      using step live_not_end [OF less.prems nz] by blast
    show ?thesis
    proof (cases r)
      case (Err e)
      then show ?thesis using s False by (simp add: advance_items.simps)
    next
      case (Ok x)
      then have pw: "v_buf w = v_buf v" "v_pos v < v_pos w" "live w"
        using p nz by (auto simp: passes_def)
      with less.hyps [of w] live_not_end [OF less.prems nz] obtain w' r' where
        "advance_items step w = Some (w', r')"
        "r' = Ok () \<Longrightarrow> v_buf w' = v_buf w \<and> v_pos w \<le> v_pos w' \<and> live w' \<and> at_end w'"
        by fastforce
      then show ?thesis
        using s False Ok pw by (subst advance_items.simps) auto
    qed
  qed
qed

lemma advance_internal_total:
  assumes "on_head v"
  shows "\<exists>w r. advance_internal v = Some (w, r) \<and>
    (r = Ok () \<longrightarrow> v_buf w = v_buf v \<and> v_pos v < v_pos w \<and> sound w \<and> (v_remaining v \<noteq> 0 \<longrightarrow> live w))"
  using preparse_next_passes [of "v\<lparr>v_pos := v_pos v + head_len (hd (v_at v 0))\<rparr>" v]
    advance_internal_eq [OF on_head_readable(1) [OF assms]]
  by (auto simp: head_len_def passes_def)

lemma advance_recursive_total:
  "on_head v \<Longrightarrow> \<exists>w r. advance_recursive um nesting v = Some (w, r) \<and> (r = Ok () \<longrightarrow> passes v w)"
proof (induction nesting arbitrary: v)
  case 0
  obtain w r where "advance_internal v = Some (w, r) \<and> (r = Ok () \<longrightarrow> passes v w)"
    using advance_internal_total [OF 0] by (auto simp: passes_def)
  moreover obtain s' r' where "iterate_string um v um copy_nothing () = Some (s', r') \<and>
      (\<forall>c w. r' = Ok (c, w) \<longrightarrow> passes v w)"
    using iterate_string_total [OF 0] by (metis copier_ok_def copy_nothing_def option.distinct(1))
  ultimately show ?case
    by (subst advance_recursive.simps) (auto split: result.splits)
next
  case (Suc n)
  obtain w r where "advance_internal v = Some (w, r) \<and> (r = Ok () \<longrightarrow> passes v w)"
    using advance_internal_total [OF Suc.prems] by (auto simp: passes_def)
  moreover obtain s' r' where "iterate_string um v um copy_nothing () = Some (s', r') \<and>
      (\<forall>c w. r' = Ok (c, w) \<longrightarrow> passes v w)"
    using iterate_string_total [OF Suc.prems]
    by (metis copier_ok_def copy_nothing_def option.distinct(1))
  moreover obtain e where e: "enter_container v = Some e" "\<And>u. e = Ok u \<Longrightarrow> within v u"
    using enter_container_total [OF Suc.prems] by blast
  moreover have "\<exists>w r. Option.bind (advance_items (\<lambda>w. advance_recursive um n w) u)
      (\<lambda>(recursed, r). case r of Err e \<Rightarrow> Some (v, Err e) | Ok _ \<Rightarrow> leave_container v recursed) =
      Some (w, r) \<and> (r = Ok () \<longrightarrow> passes v w)" if "e = Ok u" for u
  proof -
    have u: "within v u" using e that by simp
    then obtain x r where x: "advance_items (\<lambda>w. advance_recursive um n w) u = Some (x, r)"
      "r = Ok () \<Longrightarrow> v_buf x = v_buf u \<and> v_pos u \<le> v_pos x \<and> live x"
      using advance_items_total [OF Suc.IH] unfolding within_def by blast
    show ?thesis
    proof (cases r)
      case (Ok y)
      then have "within v x" using x u by (auto simp: within_def)
      then show ?thesis using x(1) Ok leave_container_total [of v x] leave_container_passes [of v x]
        by fastforce
    qed (use x in simp)
  qed
  ultimately show ?case
    by (subst advance_recursive.simps) (auto split: result.splits)
qed

lemma advance_total:
  assumes "sound v"
  shows "\<exists>w r. advance um v = Some (w, r) \<and> (r = Ok () \<longrightarrow> passes v w \<and> live w)"
  using advance_recursive_total [of v um MAX_RECURSIONS] assms
  by (auto simp: advance_def sound_def passes_def)


section \<open>Tags and finding a key\<close>

text \<open>\<open>skip_tag\<close>. A tag's head is stepped over each time round.\<close>

lemma advance_internal_progress:
  assumes "advance_internal v = Some (w, r)"
  shows "length (v_buf w) - v_pos w < length (v_buf v) - v_pos v"
proof -
  obtain u n where u: "extract_number_and_advance v = Some (u, n)" "preparse_next_value u = Some (w, r)"
    using assms by (auto simp: advance_internal_def bind_eq_Some_conv)
  then have "v_buf u = v_buf v \<and> v_pos v < v_pos u \<and> v_pos v < length (v_buf v)"
    by (auto simp: extract_number_and_advance_def bind_eq_Some_conv get_at_def v_at_def split: if_splits)
  then show ?thesis using u(2) preparse_next_stays [of u] by (auto simp: stays_def)
qed

function skip_tag :: "Value \<Rightarrow> unit stepped" where
  "skip_tag v =
     (if is_tag v then
        if v_remaining v = 0 then Some (v, Err AdvancePastEof)
        else (case advance_internal v of
            None \<Rightarrow> None
          | Some (w, Err e) \<Rightarrow> Some (w, Err e)
          | Some (w, Ok _) \<Rightarrow> skip_tag w)
      else Some (v, Ok ()))"
  by pat_completeness auto
termination skip_tag
  by (relation "measure (\<lambda>v. length (v_buf v) - v_pos v)") (auto dest: advance_internal_progress)

declare skip_tag.simps [simp del]

definition compare_key :: "bytes \<Rightarrow> bool copier" where
  "compare_key key at chunk equal = do {
     part \<leftarrow> range_at key at (at + length chunk);
     Some (equal \<and> part = chunk) }"

text \<open>One round of the loop of \<open>map_find_value\<close>: \<open>Inl\<close> the value found, or \<open>Inr\<close> the
  element after the entry.\<close>

definition find_rest :: "nat \<Rightarrow> Value \<Rightarrow> (CborError, Value + Value) result option" where
  "find_rest um element = do {
     (element, r) \<leftarrow> skip_tag element;
     (case r of Err e \<Rightarrow> Some (Err e) | Ok _ \<Rightarrow> do {
       (element, r) \<leftarrow> advance um element;
       Some (case r of Err e \<Rightarrow> Err e | Ok _ \<Rightarrow> Ok (Inr element)) }) }"

definition find_step :: "nat \<Rightarrow> bytes \<Rightarrow> Value \<Rightarrow> (CborError, Value + Value) result option" where
  "find_step um key element = do {
     (element, r) \<leftarrow> skip_tag element;
     (case r of Err e \<Rightarrow> Some (Err e) | Ok _ \<Rightarrow>
       if is_text_string element then do {
         (equal, r) \<leftarrow> iterate_string um element (length key) (compare_key key) True;
         (case r of Err e \<Rightarrow> Some (Err e) | Ok (copied, element) \<Rightarrow>
           if equal \<and> cp_all copied \<and> cp_total copied = length key then do {
             (element, r) \<leftarrow> preparse_value element;
             Some (case r of Err e \<Rightarrow> Err e | Ok _ \<Rightarrow> Ok (Inl element)) }
           else find_rest um element) }
       else do {
         (element, r) \<leftarrow> advance um element;
         (case r of Err e \<Rightarrow> Some (Err e) | Ok _ \<Rightarrow> find_rest um element) }) }"

partial_function (option) find_loop ::
  "nat \<Rightarrow> bytes \<Rightarrow> Value \<Rightarrow> (CborError, Value) result option" where
  "find_loop um key element =
     (if at_end element then Some (Ok (element\<lparr>v_ty := INVALID\<rparr>))
      else Option.bind (find_step um key element) (\<lambda>r. case r of
          Err e \<Rightarrow> Some (Err e)
        | Ok (Inl found) \<Rightarrow> Some (Ok found)
        | Ok (Inr element) \<Rightarrow> find_loop um key element))"

definition map_find_value :: "nat \<Rightarrow> Value \<Rightarrow> bytes \<Rightarrow> (CborError, Value) result option" where
  "map_find_value um v key =
     (if \<not> is_map v then Some (Err Unreachable)
      else do {
        r \<leftarrow> enter_container v;
        (case r of Err e \<Rightarrow> Some (Err e) | Ok element \<Rightarrow> find_loop um key element) })"

text \<open>\<open>passes\<close> from a live value composes.\<close>

definition reaches :: "Value \<Rightarrow> Value \<Rightarrow> bool" where
  "reaches v w \<longleftrightarrow> v_buf w = v_buf v \<and> v_pos v \<le> v_pos w \<and> live w"

lemma skip_tag_total:
  "live v \<Longrightarrow> \<exists>w r. skip_tag v = Some (w, r) \<and> (r = Ok () \<longrightarrow> reaches v w)"
proof (induction v rule: skip_tag.induct)
  case (1 v)
  show ?case
  proof (cases "is_tag v \<and> v_remaining v \<noteq> 0")
    case True
    then have "on_head v" using "1.prems" by (simp add: live_def)
    then obtain w r where a: "advance_internal v = Some (w, r)"
      "r = Ok () \<Longrightarrow> v_buf w = v_buf v \<and> v_pos v < v_pos w \<and> live w"
      using advance_internal_total True by blast
    show ?thesis
    proof (cases r)
      case (Ok x)
      then show ?thesis
        using a True "1.IH" [OF _ _ a(1) refl] by (subst skip_tag.simps) (fastforce simp: reaches_def)
    qed (use a True in \<open>simp add: skip_tag.simps\<close>)
  qed (use "1.prems" in \<open>auto simp: skip_tag.simps [of v] reaches_def\<close>)
qed

lemma compare_key_ok: "copier_ok (length key) (compare_key key)"
  by (simp add: copier_ok_def compare_key_def range_at_def)


lemma advance_passes:
  "live v \<Longrightarrow> \<exists>w r. advance um v = Some (w, r) \<and> (r = Ok () \<longrightarrow> v_pos v < v_pos w \<and> reaches v w)"
  using advance_total [OF live_sound] by (fastforce simp: passes_def reaches_def)

lemma find_rest_total:
  assumes "live v"
  shows "\<exists>r. find_rest um v = Some r \<and>
    (\<forall>x. r = Ok x \<longrightarrow> (\<exists>w. x = Inr w \<and> v_pos v < v_pos w \<and> reaches v w))"
proof -
  obtain w r where s: "skip_tag v = Some (w, r)" "r = Ok () \<Longrightarrow> reaches v w"
    using skip_tag_total [OF assms] by blast
  show ?thesis
  proof (cases r)
    case (Ok x)
    then have w: "reaches v w" using s by simp
    then obtain u q where "advance um w = Some (u, q)" "q = Ok () \<Longrightarrow> v_pos w < v_pos u \<and> reaches w u"
      using advance_passes [of w um] by (auto simp: reaches_def)
    then show ?thesis using s Ok w
      by (auto simp: find_rest_def reaches_def split: result.splits)
  qed (use s in \<open>simp add: find_rest_def\<close>)
qed

definition found_ok :: "Value \<Rightarrow> Value \<Rightarrow> bool" where
  "found_ok v w \<longleftrightarrow> v_buf w = v_buf v \<and> sound w"

lemma find_step_total:
  assumes "live v"
  shows "\<exists>r. find_step um key v = Some r \<and>
    (\<forall>w. r = Ok (Inl w) \<longrightarrow> found_ok v w) \<and>
    (\<forall>w. r = Ok (Inr w) \<longrightarrow> v_pos v < v_pos w \<and> reaches v w)"
proof -
  obtain w r where s: "skip_tag v = Some (w, r)" "r = Ok () \<Longrightarrow> reaches v w"
    using skip_tag_total [OF assms] by blast
  show ?thesis
  proof (cases r)
    case (Ok x)
    then have w: "reaches v w" using s by simp
    have rest: "\<exists>q. find_rest um u = Some q \<and> (\<forall>y. q = Ok (Inl y) \<longrightarrow> found_ok v y) \<and>
        (\<forall>y. q = Ok (Inr y) \<longrightarrow> v_pos v < v_pos y \<and> reaches v y)"
      if "v_pos w < v_pos u" "reaches w u" for u
      using find_rest_total [of u um] that w by (fastforce simp: reaches_def)
    show ?thesis
    proof (cases "is_text_string w")
      case True
      then have nz: "v_remaining w \<noteq> 0" "on_head w" using w
        by (auto simp: reaches_def live_def is_text_string_def cbor_consts split: if_splits)
      obtain eq q where it: "iterate_string um w (length key) (compare_key key) True = Some (eq, q)"
        "\<And>c u. q = Ok (c, u) \<Longrightarrow> passes w u"
        using iterate_string_total [OF nz(2) compare_key_ok] by blast
      show ?thesis
      proof (cases q)
        case (Ok p)
        obtain c u where p: "p = (c, u)" by (cases p)
        have u: "v_pos w < v_pos u" "reaches w u"
          using it(2) [of c u] Ok p nz(1) by (auto simp: passes_def reaches_def)
        have f: "found_ok v y" if "preparse_value u = Some (y, Ok ())" for y
          using preparse_value_on_head [OF that] u w
          by (auto simp: found_ok_def sound_def place_kept_def reaches_def)
        obtain y z where "preparse_value u = Some (y, z)"
          using preparse_value_stays [of u] by (auto simp: stays_def)
        then show ?thesis using s \<open>r = Ok x\<close> True it(1) Ok p f rest [OF u]
          by (auto simp: find_step_def split: result.splits)
      qed (use s \<open>r = Ok x\<close> True it in \<open>simp add: find_step_def\<close>)
    next
      case False
      obtain u q where a: "advance um w = Some (u, q)" "q = Ok () \<Longrightarrow> v_pos w < v_pos u \<and> reaches w u"
        using advance_passes [of w um] w by (auto simp: reaches_def)
      then show ?thesis using s Ok False rest [of u]
        by (cases q) (auto simp: find_step_def)
    qed
  qed (use s in \<open>simp add: find_step_def\<close>)
qed

lemma find_loop_total:
  "live v \<Longrightarrow> \<exists>r. find_loop um key v = Some r \<and> (\<forall>w. r = Ok w \<longrightarrow> found_ok v w)"
proof (induction "length (v_buf v) - v_pos v" arbitrary: v rule: less_induct)
  case less
  obtain r where r: "find_step um key v = Some r" "\<And>w. r = Ok (Inl w) \<Longrightarrow> found_ok v w"
    "\<And>w. r = Ok (Inr w) \<Longrightarrow> v_pos v < v_pos w \<and> reaches v w"
    using find_step_total [OF less.prems] by blast
  show ?case
  proof (cases "at_end v")
    case True
    then show ?thesis by (subst find_loop.simps) (simp add: found_ok_def sound_def)
  next
    case False
    then have v: "v_pos v < length (v_buf v)"
      using live_not_end [OF less.prems] by (simp add: at_end_def)
    have "\<exists>q. find_loop um key w = Some q \<and> (\<forall>y. q = Ok y \<longrightarrow> found_ok v y)" if "r = Ok (Inr w)" for w
      using less.hyps [of w] r(3) [OF that] v by (auto simp: reaches_def found_ok_def)
    then show ?thesis using False r
      by (subst find_loop.simps) (auto split: result.splits sum.splits)
  qed
qed

lemma map_find_value_total:
  assumes "sound v"
  shows "\<exists>r. map_find_value um v key = Some r \<and> (\<forall>w. r = Ok w \<longrightarrow> found_ok v w)"
proof (cases "is_map v")
  case True
  then have "on_head v" using assms by (auto simp: sound_def is_map_def cbor_consts)
  then obtain e where e: "enter_container v = Some e" "\<And>w. e = Ok w \<Longrightarrow> within v w"
    using enter_container_total by blast
  show ?thesis
  proof (cases e)
    case (Ok w)
    then have w: "within v w" using e by blast
    then obtain r where r: "find_loop um key w = Some r" "\<And>u. r = Ok u \<Longrightarrow> found_ok w u"
      using find_loop_total [of w um key] unfolding within_def by blast
    have "map_find_value um v key = Some r" using True e(1) Ok r(1) by (simp add: map_find_value_def)
    then show ?thesis using r(2) w unfolding found_ok_def within_def by metis
  qed (use True e in \<open>simp add: map_find_value_def\<close>)
qed (simp add: map_find_value_def)


section \<open>Every value a program can obtain\<close>

text \<open>The values successful calls produce from a buffer.\<close>

inductive cbor_reach :: "nat \<Rightarrow> bytes \<Rightarrow> Value \<Rightarrow> bool" for um :: nat and buf :: bytes where
  parsed: "cbor_parse buf = Some (Ok v) \<Longrightarrow> cbor_reach um buf v"
| advanced: "cbor_reach um buf v \<Longrightarrow> advance um v = Some (w, Ok ()) \<Longrightarrow> cbor_reach um buf w"
| entered: "cbor_reach um buf v \<Longrightarrow> enter_container v = Some (Ok w) \<Longrightarrow> cbor_reach um buf w"
| left: "cbor_reach um buf v \<Longrightarrow> cbor_reach um buf u \<Longrightarrow>
    leave_container v u = Some (w, Ok ()) \<Longrightarrow> cbor_reach um buf w"
| untagged: "cbor_reach um buf v \<Longrightarrow> skip_tag v = Some (w, Ok ()) \<Longrightarrow> cbor_reach um buf w"
| found: "cbor_reach um buf v \<Longrightarrow> map_find_value um v key = Some (Ok w) \<Longrightarrow> cbor_reach um buf w"

lemma cbor_parse_total:
  "\<exists>r. cbor_parse buf = Some r \<and> (\<forall>v. r = Ok v \<longrightarrow> v_buf v = buf \<and> v_pos v = 0 \<and> live v \<and> on_head v)"
proof -
  let ?v = "\<lparr>v_buf = buf, v_pos = 0, v_remaining = 1, v_flags = 0, v_ty = INVALID, v_extra = 0\<rparr>"
  show ?thesis
    using preparse_value_on_head [of ?v]
    by (cases ?v rule: preparse_value_cases) (auto simp: cbor_parse_def live_def place_kept_def)
qed


lemma skip_tag_sound:
  assumes "sound v"
  shows "\<exists>w r. skip_tag v = Some (w, r) \<and> (r = Ok () \<longrightarrow> v_buf w = v_buf v \<and> sound w)"
proof (cases "is_tag v \<and> v_remaining v \<noteq> 0")
  case True
  then have "live v" using assms by (auto simp: live_def sound_def is_tag_def cbor_consts)
  then obtain w r where "skip_tag v = Some (w, r)" "r = Ok () \<Longrightarrow> reaches v w"
    using skip_tag_total by blast
  then show ?thesis using live_sound [of w] by (auto simp: reaches_def)
next
  case False
  then show ?thesis using assms by (auto simp: skip_tag.simps [of v])
qed

lemma leave_container_sound:
  assumes "leave_container v u = Some (w, Ok ())"
  shows "v_buf w = v_buf v" "sound w"
proof -
  let ?v = "v\<lparr>v_pos := v_pos u + (if v_flags u AND UNKNOWN_LENGTH \<noteq> 0 then 1 else 0)\<rparr>"
  have "preparse_next_value ?v = Some (w, Ok ())"
    using assms by (simp add: leave_container_def split: if_splits)
  then show "v_buf w = v_buf v" "sound w"
    using preparse_next_stays [of ?v] preparse_next_live(1) [of ?v w] by (auto simp: stays_def)
qed

lemma enter_container_sound:
  assumes "sound v"
  shows "\<exists>r. enter_container v = Some r \<and> (\<forall>w. r = Ok w \<longrightarrow> v_buf w = v_buf v \<and> live w)"
proof (cases "is_container v")
  case True
  then have "on_head v" using assms by (auto simp: sound_def is_container_def cbor_consts)
  then show ?thesis using enter_container_total [of v] unfolding within_def by blast
qed (simp add: enter_container_def)

lemma cbor_reach_sound: "cbor_reach um buf v \<Longrightarrow> v_buf v = buf \<and> sound v"
proof (induction rule: cbor_reach.induct)
  case (parsed v)
  then show ?case using cbor_parse_total [of buf] live_sound by force
next
  case (advanced v w)
  then show ?case using advance_total [of v um] by (auto simp: passes_def)
next
  case (entered v w)
  then show ?case using enter_container_sound [of v] live_sound by auto
next
  case (left v u w)
  then show ?case using leave_container_sound by auto
next
  case (untagged v w)
  then show ?case using skip_tag_sound [of v] by auto
next
  case (found v key w)
  then show ?case using map_find_value_total [of v um key] by (auto simp: found_ok_def)
qed

text \<open>A number can be read off every valid value.\<close>

lemma extract_sound: "sound v \<Longrightarrow> v_ty v \<noteq> INVALID \<Longrightarrow> \<exists>n. value_extract v = Some n"
  using extract_readable on_head_readable by (auto simp: sound_def)

text \<open>Property C21. The CBOR parser never panics and always ends. Take any bytes at all, and any
  value a program obtains from them by successful calls of parse, advance, enter_container,
  leave_container, skip_tag and map_find_value, in any order: each of these operations, applied
  again, returns (a result or an error), and so do reading a number off an item that is valid, the
  two length queries and validating the item, whatever follows in the buffer.\<close>

theorem cbor_never_panics:
  assumes "cbor_reach um buf v"
  shows "(\<exists>p. advance um v = Some p) \<and> (\<exists>r. validate_basic um v = Some r) \<and>
    (\<exists>r. enter_container v = Some r) \<and> (\<forall>u. \<exists>p. leave_container v u = Some p) \<and>
    (\<exists>p. skip_tag v = Some p) \<and> (\<forall>key. \<exists>r. map_find_value um v key = Some r) \<and>
    (is_valid v \<longrightarrow> (\<exists>n. value_extract v = Some n)) \<and>
    (\<exists>r. string_length um v = Some r) \<and> (\<exists>r. map_length um v = Some r) \<and>
    (\<exists>r. value_string um v = Some r)"
proof -
  have v: "sound v" using cbor_reach_sound [OF assms] by blast
  obtain p where p: "advance um v = Some p" using advance_total [OF v] by blast
  have n: "v_ty v = INVALID \<or> (\<exists>n. value_extract v = Some n)" using extract_sound [OF v] by blast
  have s: "\<exists>r. value_string um v = Some r"
  proof (cases "is_text_string v \<or> is_byte_string v")
    case True
    then have "on_head v" using v by (auto simp: sound_def is_text_string_def is_byte_string_def cbor_consts)
    then obtain s' r where "iterate_string um v um copy_nothing () = Some (s', r)"
      using iterate_string_total [of v um copy_nothing um "()"]
      by (auto simp: copier_ok_def copy_nothing_def)
    then show ?thesis by (simp add: value_string_def copy_string_def)
  qed (simp add: value_string_def)
  have e: "\<exists>r. enter_container v = Some r" using enter_container_sound [OF v] by blast
  have l: "\<exists>p. leave_container v u = Some p" for u using leave_container_total [of v u] by blast
  have t: "\<exists>p. skip_tag v = Some p" using skip_tag_sound [OF v] by blast
  have m: "\<exists>r. map_find_value um v key = Some r" for key
    using map_find_value_total [OF v] by blast
  have q: "\<exists>r. string_length um v = Some r" "\<exists>r. map_length um v = Some r"
    using n by (auto simp: string_length_def map_length_def is_text_string_def is_byte_string_def
        is_map_def cbor_consts)
  have b: "\<exists>r. validate_basic um v = Some r"
    using p by (simp add: validate_basic_def case_prod_beta)
  show ?thesis using p n s e l t m q b unfolding is_valid_def by blast
qed

text \<open>The buffer is \<open>{_ "a": [1, 2.0]}\<close> with an indefinite-length map; the value is the one on the
  array.\<close>

theorem cbor_never_panics_witness:
  "let buf = [0xbf, 0x61, 0x61, 0x82, 0x01, 0xfb, 0x40, 0, 0, 0, 0, 0, 0, 0, 0xff];
       v = \<lparr>v_buf = buf, v_pos = 3, v_remaining = - 1, v_flags = 0x60, v_ty = ARRAY, v_extra = 2\<rparr>
   in cbor_reach 255 buf v \<and> (\<exists>p. advance 255 v = Some p)"
proof -
  define buf :: bytes where
    "buf = [0xbf, 0x61, 0x61, 0x82, 0x01, 0xfb, 0x40, 0, 0, 0, 0, 0, 0, 0, 0xff]"
  define m where
    "m = \<lparr>v_buf = buf, v_pos = 0, v_remaining = 1, v_flags = 0x10, v_ty = MAP, v_extra = 31\<rparr>"
  define k where
    "k = \<lparr>v_buf = buf, v_pos = 1, v_remaining = - 1, v_flags = 0x20, v_ty = TEXT_STRING, v_extra = 1\<rparr>"
  define v where
    "v = \<lparr>v_buf = buf, v_pos = 3, v_remaining = - 1, v_flags = 0x60, v_ty = ARRAY, v_extra = 2\<rparr>"
  have "cbor_parse buf = Some (Ok m)" unfolding buf_def m_def by code_simp
  then have 1: "cbor_reach 255 buf m" by (rule parsed)
  have "enter_container m = Some (Ok k)" unfolding buf_def m_def k_def by code_simp
  with 1 have 2: "cbor_reach 255 buf k" by (rule entered)
  have "advance 255 k = Some (v, Ok ())" unfolding buf_def v_def k_def by code_simp
  with 2 have 3: "cbor_reach 255 buf v" by (rule advanced)
  show ?thesis
    using 3 cbor_never_panics [OF 3] unfolding v_def buf_def by (simp add: Let_def)
qed

end
