(* ===== verification/Cbor_Grammar.thy ===== *)
theory Cbor_Grammar
  imports Cbor
begin

text \<open>
  The grammar of the items \<open>cbor/parser.rs\<close> steps over, as inductive definitions over byte
  lists, and the proof that \<open>advance\<close> accepts exactly those items and stops behind them. The
  grammar has no iterator, no flags and no counters: heads, string chunks, counted and open
  containers, tags, and the nesting bound.
\<close>

lemma unit_result [simp]: "(\<forall>e. r \<noteq> Err e) \<longleftrightarrow> r = Ok ()" for r :: "('e, unit) result"
  by (cases r) auto

section \<open>The grammar\<close>

definition is_head :: "bytes \<Rightarrow> bool" where
  "is_head h \<longleftrightarrow> h \<noteq> [] \<and> info_of (hd h) \<le> 27 \<and> length h = head_len (hd h)"

text \<open>A string chunk \<open>b\<close> with body \<open>c\<close>.\<close>

definition chunk :: "nat \<Rightarrow> u8 \<Rightarrow> bytes \<Rightarrow> bytes \<Rightarrow> bool" where
  "chunk um ty c b \<longleftrightarrow> (\<exists>h. b = h @ c \<and> is_head h \<and> hd h AND 0xe0 = ty \<and>
     unat (head_arg h) = length c \<and> length c \<le> um)"

inductive chunk_list :: "nat \<Rightarrow> u8 \<Rightarrow> bytes list \<Rightarrow> bytes \<Rightarrow> bool" for um :: nat and ty :: u8 where
  Nil: "chunk_list um ty [] []"
| Cons: "chunk um ty c b \<Longrightarrow> chunk_list um ty cs bs \<Longrightarrow> chunk_list um ty (c # cs) (b @ bs)"

definition string_item :: "nat \<Rightarrow> u8 \<Rightarrow> bytes list \<Rightarrow> bytes \<Rightarrow> bool" where
  "string_item um ty cs b \<longleftrightarrow>
     (\<exists>c. cs = [c] \<and> chunk um ty c b) \<or>
     (\<exists>bs. b = (ty OR 31) # bs @ [BREAK] \<and> chunk_list um ty cs bs \<and> length (concat cs) \<le> um)"

text \<open>\<open>cbor_item um n b\<close>: \<open>b\<close> is one item, with at most \<open>n\<close> containers inside one another.
  \<open>cbor_elems um n k b\<close>: \<open>b\<close> is \<open>k\<close> items in a row, each behind any number of tags.\<close>

inductive cbor_item :: "nat \<Rightarrow> nat \<Rightarrow> bytes \<Rightarrow> bool"
  and cbor_elems :: "nat \<Rightarrow> nat \<Rightarrow> nat \<Rightarrow> bytes \<Rightarrow> bool" for um :: nat where
  fixed: "is_head h \<Longrightarrow> head_ok h \<Longrightarrow> is_fixed_type (head_ty (hd h)) \<Longrightarrow> head_ty (hd h) \<noteq> TAG \<Longrightarrow>
    cbor_item um n h"
| str: "ty = TEXT_STRING \<or> ty = BYTE_STRING \<Longrightarrow> string_item um ty cs b \<Longrightarrow> cbor_item um n b"
| counted: "is_head h \<Longrightarrow> ty = ARRAY \<or> ty = MAP \<Longrightarrow> head_ty (hd h) = ty \<Longrightarrow>
    k = unat (head_arg h) * (if ty = MAP then 2 else 1) \<Longrightarrow> k < 2 ^ 32 - 1 \<Longrightarrow>
    cbor_elems um n k b \<Longrightarrow> cbor_item um (Suc n) (h @ b)"
| uncounted: "ty = ARRAY \<or> ty = MAP \<Longrightarrow> cbor_elems um n k b \<Longrightarrow> ty = MAP \<longrightarrow> even k \<Longrightarrow>
    cbor_item um (Suc n) ((ty OR 31) # b @ [BREAK])"
| none: "cbor_elems um n 0 []"
| tag: "is_head h \<Longrightarrow> head_ty (hd h) = TAG \<Longrightarrow> cbor_elems um n (Suc k) b \<Longrightarrow>
    cbor_elems um n (Suc k) (h @ b)"
| more: "cbor_item um n b \<Longrightarrow> cbor_elems um n k c \<Longrightarrow> cbor_elems um n (Suc k) (b @ c)"

section \<open>Strings\<close>

lemma info_OR_31:
  "ty = TEXT_STRING \<or> ty = BYTE_STRING \<or> ty = ARRAY \<or> ty = MAP \<Longrightarrow>
   info_of (ty OR 31) = 31 \<and> head_ty (ty OR 31) = ty \<and> (ty OR 31) AND 0xe0 = ty"
  by (auto simp: info_of_def head_ty_def Let_def cbor_consts)

lemma unat_ucast_8_64: "unat (ucast (x :: u8) :: u64) = unat x"
proof -
  have "unat x < 2 ^ LENGTH(8)" by (rule unsigned_less)
  then have "unat x < 2 ^ 64" by simp
  then show ?thesis by (simp add: unsigned_ucast_eq take_bit_nat_eq_self)
qed

lemma head_arg_append: "is_head h \<Longrightarrow> head_arg (h @ r) = head_arg h"
  by (cases h) (simp_all add: is_head_def head_arg_def head_len_def Let_def)

lemma info_le_27: "info_of d \<le> 27 \<Longrightarrow> \<not> 27 < info_of d \<and> info_of d \<noteq> 31"
  by auto

lemma chunk_head_eq:
  assumes h: "is_head h" and at: "v_at v 0 = h @ r" and n: "unat (head_arg h) \<le> um"
  shows "chunk_head um v (info_of (hd h)) = Some (Ok (unat (head_arg h), length h))"
proof -
  obtain d ds where hd: "h = d # ds" "info_of d \<le> 27" "length ds = arg_bytes (info_of d)"
    using h by (cases h) (auto simp: is_head_def head_len_def)
  have cr: "can_read v (Suc (arg_bytes (info_of d)))"
    using can_read_length [of v d "ds @ r"] at hd by simp
  have sub: "subslice (v_buf v) (v_pos v + 1) (arg_bytes (info_of d)) = ds"
    using at hd v_at_next [of v d "ds @ r"] by (simp add: subslice_def v_at_def)
  show ?thesis
  proof (cases "info_of d < 24")
    case True
    then have "ds = []" using hd by simp
    moreover have "unat (ucast (info_of d) :: u64) = unat (info_of d)"
      by (rule unat_ucast_8_64)
    ultimately show ?thesis using True hd by (simp add: chunk_head_def head_arg_def)
  next
    case False
    then show ?thesis using hd cr sub n info_le_27 [OF hd(2)]
      by (simp add: chunk_head_def head_arg_def usize_of_def Let_def)
  qed
qed

lemma string_chunk_chunk:
  assumes c: "chunk um ty c b" and at: "v_at v 0 = b @ r" and ty: "v_ty v = ty"
    and str: "ty = TEXT_STRING \<or> ty = BYTE_STRING"
    and on: "\<not> is_length_known v \<or> v_flags v AND BEFORE_FIRST_STRING_CHUNK \<noteq> 0"
  shows "string_chunk um v = Some (v\<lparr>v_pos := v_pos v + length b,
      v_flags := v_flags v AND NOT BEFORE_FIRST_STRING_CHUNK\<rparr>,
    Ok (More (v_pos v + length b - length c) (length c)))"
proof -
  obtain h where h: "b = h @ c" "is_head h" "hd h AND 0xe0 = ty" "unat (head_arg h) = length c"
    "length c \<le> um"
    using c by (auto simp: chunk_def)
  then obtain d ds where hd: "h = d # ds" by (cases h) (auto simp: is_head_def)
  have at': "v_at v 0 = d # ds @ c @ r" using at h hd by simp
  have len: "v_pos v + length h + length c \<le> length (v_buf v)"
    using arg_cong [OF at, of length] v_at_Cons [OF at'] h by (simp add: v_at_def)
  have nb: "d \<noteq> BREAK" using h(3) hd str by (auto simp: cbor_consts)
  have "chunk_head um v (info_of d) = Some (Ok (length c, length h))"
    using chunk_head_eq [OF h(2), of v "c @ r" um] at h hd by simp
  then show ?thesis
    using on at' nb h hd ty len
    by (auto simp: string_chunk_def transfer_string_def can_read_def info_of_def Let_def)
qed


text \<open>What the closure sees: the chunks' bodies in order, each while everything so far fits.\<close>

fun feed :: "'s copier \<Rightarrow> nat \<Rightarrow> nat \<Rightarrow> bool \<Rightarrow> bytes list \<Rightarrow> 's \<Rightarrow> ('s \<times> nat \<times> bool) option" where
  "feed copy buflen n all [] s = Some (s, n, all)"
| "feed copy buflen n all (c # cs) s =
     (if all \<and> n + length c \<le> buflen
      then Option.bind (copy n c s) (feed copy buflen (n + length c) True cs)
      else feed copy buflen (n + length c) False cs s)"

definition after_chunk :: "Value \<Rightarrow> nat \<Rightarrow> Value" where
  "after_chunk v n = v\<lparr>v_pos := v_pos v + n,
     v_flags := v_flags v AND NOT BEFORE_FIRST_STRING_CHUNK\<rparr>"

lemma after_chunk_sel [simp]:
  "v_buf (after_chunk v n) = v_buf v" "v_pos (after_chunk v n) = v_pos v + n"
  "v_remaining (after_chunk v n) = v_remaining v" "v_ty (after_chunk v n) = v_ty v"
  "is_length_known (after_chunk v n) = is_length_known v"
  "v_flags (after_chunk v n) AND BEFORE_FIRST_STRING_CHUNK = 0"
  "v_flags (after_chunk v n) AND 0x60 = v_flags v AND 0x60"
  "v_at (after_chunk v n) k = v_at v (n + k)"
  by (simp_all add: after_chunk_def is_length_known_def cbor_flags and.assoc v_at_def add.assoc)

lemma v_at_add: "v_at v 0 = b @ r \<Longrightarrow> v_at v (length b) = r"
proof -
  have "v_at v (length b) = drop (length b) (v_at v 0)" by (simp add: v_at_def add.commute)
  then show "v_at v 0 = b @ r \<Longrightarrow> v_at v (length b) = r" by simp
qed

text \<open>One round of the loop on a chunk.\<close>

lemma chunk_loop_chunk:
  assumes c: "chunk um ty c b" and at: "v_at v 0 = b @ r" and ty: "v_ty v = ty"
    and str: "ty = TEXT_STRING \<or> ty = BYTE_STRING"
    and on: "\<not> is_length_known v \<or> v_flags v AND BEFORE_FIRST_STRING_CHUNK \<noteq> 0"
    and fit: "n + length c \<le> um"
  shows "chunk_loop um buflen copy v n all s =
    (if all \<and> n + length c \<le> buflen
     then Option.bind (copy n c s) (chunk_loop um buflen copy (after_chunk v (length b)) (n + length c) True)
     else chunk_loop um buflen copy (after_chunk v (length b)) (n + length c) False s)"
proof -
  have len: "v_pos v + length b \<le> length (v_buf v)" "length c \<le> length b"
    using arg_cong [OF at, of length] c
    by (cases "v_pos v \<le> length (v_buf v)"; auto simp: v_at_def chunk_def is_head_def)+
  have "subslice (v_buf v) (v_pos v + length b - length c) (length c) = c"
  proof -
    obtain h where "b = h @ c" using c by (auto simp: chunk_def)
    then have "v_at v (length h) = c @ r" using v_at_add [of v h "c @ r"] at by simp
    then show ?thesis using \<open>b = h @ c\<close> by (simp add: v_at_def subslice_def)
  qed
  then have rng: "range_at (v_buf v) (v_pos v + length b - length c)
      (v_pos v + length b - length c + length c) = Some c"
    using len by (simp add: range_at_def)
  show ?thesis
    using string_chunk_chunk [OF c at ty str on] rng fit
    by (subst chunk_loop.simps) (auto simp: after_chunk_def split: option.splits)
qed

lemma chunk_loop_feed:
  assumes "chunk_list um ty cs b" "v_at v 0 = b @ BREAK # r" "v_ty v = ty" "\<not> is_length_known v"
    and "ty = TEXT_STRING \<or> ty = BYTE_STRING" "n + length (concat cs) \<le> um"
  shows "\<exists>w. (cs = [] \<and> w = v \<or> w = after_chunk v (length b)) \<and>
    chunk_loop um buflen copy v n all s =
      (case feed copy buflen n all cs s of
         None \<Rightarrow> None | Some (s', t, a) \<Rightarrow> Some (s', Ok (w, t, a)))"
  using assms
proof (induction arbitrary: v n all s rule: chunk_list.induct)
  case Nil
  then have "string_chunk um v = Some (v, Ok End)" by (simp add: string_chunk_def)
  then show ?case by (subst chunk_loop.simps) simp
next
  case (Cons c b cs bs)
  let ?v = "after_chunk v (length b)"
  have at: "v_at v 0 = b @ bs @ BREAK # r" using Cons.prems by simp
  have at': "v_at ?v 0 = bs @ BREAK # r" using v_at_add [OF at] by simp
  have eq: "after_chunk ?v (length bs) = after_chunk v (length (b @ bs))"
    by (simp add: after_chunk_def and.assoc add.assoc)
  have IH: "\<exists>w. w = after_chunk v (length (b @ bs)) \<and>
      chunk_loop um buflen copy ?v (n + length c) all s =
      (case feed copy buflen (n + length c) all cs s of
         None \<Rightarrow> None | Some (s', t, a) \<Rightarrow> Some (s', Ok (w, t, a)))" for all s
  proof -
    have "cs = [] \<Longrightarrow> bs = []" using Cons.hyps(2) by (auto elim: chunk_list.cases)
    then show ?thesis
      using Cons.IH [of ?v "n + length c" all s] at' Cons.prems eq by auto
  qed
  have step: "chunk_loop um buflen copy v n all s =
    (if all \<and> n + length c \<le> buflen
     then Option.bind (copy n c s) (chunk_loop um buflen copy ?v (n + length c) True)
     else chunk_loop um buflen copy ?v (n + length c) False s)"
    using Cons.prems by (intro chunk_loop_chunk [OF Cons.hyps(1) at]) auto
  show ?case
    using IH unfolding step by (auto split: option.splits bind_splits)
qed


text \<open>\<open>behind v n u\<close>: \<open>u\<close> is \<open>v\<close> moved on by \<open>n\<close> bytes, with the next head still unread.\<close>

definition behind :: "Value \<Rightarrow> nat \<Rightarrow> Value \<Rightarrow> bool" where
  "behind v n u \<longleftrightarrow> v_buf u = v_buf v \<and> v_pos u = v_pos v + n \<and> v_remaining u = v_remaining v \<and>
     v_ty u = v_ty v \<and> v_flags u AND 0x60 = v_flags v AND 0x60"

lemma on_head_known:
  assumes "on_head v"
  shows "is_length_known v \<longleftrightarrow> info_of (hd (v_at v 0)) \<noteq> 31"
  using assms load_head_flags(3) [of v] by (simp add: on_head_def is_length_known_def)

lemma head_ty_of_major:
  "d AND 0xe0 = ty \<Longrightarrow> ty \<noteq> 0x20 \<Longrightarrow> ty \<noteq> SIMPLE \<Longrightarrow> head_ty d = ty"
  by (simp add: head_ty_def Let_def)

lemma on_head_ty: "on_head v \<Longrightarrow> v_ty v = head_ty (hd (v_at v 0))"
  by (elim on_headE) simp

definition string_result ::
  "nat \<Rightarrow> 's copier \<Rightarrow> bytes list \<Rightarrow> 's \<Rightarrow> Value \<Rightarrow>
     ('s \<times> (CborError, Copied \<times> Value) result) option" where
  "string_result buflen copy cs s u =
     (case feed copy buflen 0 True cs s of None \<Rightarrow> None
      | Some (s', t, a) \<Rightarrow>
         (case preparse_next_value u of None \<Rightarrow> None
          | Some (w, Err e) \<Rightarrow> Some (s', Err e)
          | Some (w, Ok _) \<Rightarrow>
              Some (s', Ok (\<lparr>cp_total = t, cp_all = a, cp_nul = (a \<and> t < buflen)\<rparr>, w))))"

lemma iterate_string_item:
  assumes v: "on_head v" and item: "string_item um ty cs b" and at: "v_at v 0 = b @ r"
    and str: "ty = TEXT_STRING \<or> ty = BYTE_STRING"
  shows "v_ty v = ty \<and> (\<exists>u. behind v (length b) u \<and>
    iterate_string um v buflen copy s = string_result buflen copy cs s u)"
proof -
  define u where "u = v\<lparr>v_flags := v_flags v OR (ITERATING_STRING_CHUNKS OR BEFORE_FIRST_STRING_CHUNK)\<rparr>"
  have u: "v_buf u = v_buf v" "v_pos u = v_pos v" "v_remaining u = v_remaining v" "v_ty u = v_ty v"
    "v_flags u AND 0x60 = v_flags v AND 0x60" "is_length_known u = is_length_known v"
    "v_flags u AND BEFORE_FIRST_STRING_CHUNK \<noteq> 0" "\<And>n. v_at u n = v_at v n"
    by (simp_all add: u_def is_length_known_def cbor_flags bit.conj_disj_distrib2 v_at_def)
  from item consider (one) c where "cs = [c]" "chunk um ty c b"
    | (many) bs where "b = (ty OR 31) # bs @ [BREAK]" "chunk_list um ty cs bs" "length (concat cs) \<le> um"
    by (auto simp: string_item_def)
  then show ?thesis
  proof cases
    case one
    then obtain h where h: "b = h @ c" "is_head h" "hd h AND 0xe0 = ty" "length c \<le> um"
      by (auto simp: chunk_def)
    have hd: "hd (v_at v 0) = hd h" using at h by (cases h) (auto simp: is_head_def)
    have ty: "v_ty v = ty"
      using on_head_ty [OF v] hd h(3) head_ty_of_major [of "hd h" ty] str by (auto simp: cbor_consts)
    have known: "is_length_known v"
      using on_head_known [OF v] hd h(2) info_le_27 by (simp add: is_head_def)
    have e: "string_chunk um (after_chunk u (length b)) = Some (after_chunk u (length b), Ok End)"
      using known u(6) by (simp add: string_chunk_def)
    have loop: "chunk_loop um buflen copy (after_chunk u (length b)) n all s =
        Some (s, Ok (after_chunk u (length b), n, all))" for n all s
      using e by (subst chunk_loop.simps) simp
    have "chunk_loop um buflen copy u 0 True s =
        (case feed copy buflen 0 True cs s of
           None \<Rightarrow> None | Some (s', t, a) \<Rightarrow> Some (s', Ok (after_chunk u (length b), t, a)))"
      using chunk_loop_chunk [OF one(2), of u r 0 buflen copy True s] at u ty str h(4) one(1)
      by (auto simp: loop split: option.splits bind_splits)
    moreover have "behind v (length b) (after_chunk u (length b))"
      using u by (simp add: behind_def)
    ultimately show ?thesis
      using ty str known u(6)
      by (intro conjI exI [of _ "after_chunk u (length b)"])
        (auto simp: iterate_string_def string_result_def is_text_string_def is_byte_string_def
          u_def [symmetric] Let_def split: option.splits result.splits)
  next
    case many
    have hd: "hd (v_at v 0) = ty OR 31" using at many by simp
    have ty: "v_ty v = ty" using on_head_ty [OF v] hd info_OR_31 [of ty] str by auto
    have open': "\<not> is_length_known v" using on_head_known [OF v] hd info_OR_31 [of ty] str by auto
    let ?u = "u\<lparr>v_pos := v_pos u + 1\<rparr>"
    have "v_at v (Suc 0) = bs @ BREAK # r" using v_at_next [of v "ty OR 31"] at many by simp
    then have at': "v_at ?u 0 = bs @ BREAK # r" using u by (simp add: v_at_def)
    have open'': "\<not> is_length_known ?u" using open' u(6) by (simp add: is_length_known_def)
    obtain w where w: "cs = [] \<and> w = ?u \<or> w = after_chunk ?u (length bs)"
      "chunk_loop um buflen copy ?u 0 True s =
        (case feed copy buflen 0 True cs s of
           None \<Rightarrow> None | Some (s', t, a) \<Rightarrow> Some (s', Ok (w, t, a)))"
      using chunk_loop_feed [OF many(2) at' _ open'' str, of 0 buflen copy True s] many(3) u(4) ty by auto
    have emp: "cs = [] \<Longrightarrow> bs = []" using many(2) by (auto elim: chunk_list.cases)
    have "\<not> is_length_known w" "behind v (length b) (w\<lparr>v_pos := v_pos w + 1\<rparr>)"
      using w(1) emp open'' u many(1) by (auto simp: behind_def)
    then show ?thesis
      using ty str open' u(6) w(2)
      by (intro conjI exI [of _ "w\<lparr>v_pos := v_pos w + 1\<rparr>"])
        (auto simp: iterate_string_def string_result_def is_text_string_def is_byte_string_def
          u_def [symmetric] Let_def split: option.splits result.splits)
  qed
qed


section \<open>Every item of the grammar is stepped over\<close>

lemma is_headE:
  assumes "is_head h"
  obtains d ds where "h = d # ds" "info_of d \<le> 27" "length ds = arg_bytes (info_of d)"
    "head_len d = length h" "info_of d \<noteq> 31"
  using assms info_le_27 by (cases h) (auto simp: is_head_def head_len_def)

lemma head_ok_append: "is_head h \<Longrightarrow> head_ok h \<Longrightarrow> head_ok (h @ r)"
  by (auto simp: head_ok_def d_f8 elim!: is_headE)

lemma is_head_ok:
  assumes "is_head h" "hd h AND 0xe0 \<noteq> SIMPLE"
  shows "head_ok (h @ r)"
  using assms d_f8 [of "hd h"] by (auto simp: head_ok_def SIMPLE_def elim!: is_headE)

lemma head_ty_major:
  assumes "head_ty d = ty" "ty = TEXT_STRING \<or> ty = BYTE_STRING \<or> ty = ARRAY \<or> ty = MAP \<or> ty = TAG"
  shows "d AND 0xe0 = ty"
proof -
  have "d = ty \<Longrightarrow> d AND 0xe0 = ty" using assms(2) by (auto simp: cbor_consts)
  then show ?thesis using assms
    by (auto simp: head_ty_def Let_def cbor_consts split: if_splits)
qed

lemma open_head_ok:
  "ty = TEXT_STRING \<or> ty = BYTE_STRING \<or> ty = ARRAY \<or> ty = MAP \<Longrightarrow> head_ok ((ty OR 31) # r)"
  using info_OR_31 [of ty] by (auto simp: head_ok_def is_fixed_type_def)

lemma item_head:
  assumes "cbor_item um n b"
  shows "b \<noteq> [] \<and> head_ok (b @ r) \<and> head_ty (hd b) \<noteq> TAG"
  using assms
proof (cases rule: cbor_item.cases)
  case fixed
  then show ?thesis using head_ok_append by (auto simp: is_head_def)
next
  case (str ty cs)
  have st: "d AND 0xe0 = ty \<Longrightarrow> head_ty d = ty" for d
    using str head_ty_of_major [of d ty] by (auto simp: cbor_consts)
  from str(2) consider (one) h c where "b = h @ c" "is_head h" "hd h AND 0xe0 = ty"
    | (many) bs where "b = (ty OR 31) # bs @ [BREAK]"
    by (auto simp: string_item_def chunk_def)
  then show ?thesis
  proof cases
    case one
    then show ?thesis using str st [of "hd h"] is_head_ok [of h "c @ r"]
      by (auto simp: is_head_def cbor_consts)
  next
    case many
    then show ?thesis using str open_head_ok [of ty] info_OR_31 [of ty] by (auto simp: cbor_consts)
  qed
next
  case (counted h ty k n b')
  then have "hd h AND 0xe0 = ty" using head_ty_major [of "hd h" ty] by auto
  then show ?thesis using counted is_head_ok [of h "b' @ r"]
    by (auto simp: is_head_def cbor_consts)
next
  case (uncounted ty n k b')
  then show ?thesis using open_head_ok [of ty] info_OR_31 [of ty] by (auto simp: cbor_consts)
qed

text \<open>The number of a head that is not a simple value.\<close>

lemma bit_u8: "bit (a :: u8) n \<Longrightarrow> n < 16" "bit (a :: u8) (n - 8) \<Longrightarrow> n < 16"
  using bit_imp_le_length [of a n] bit_imp_le_length [of a "n - 8"] by simp_all

lemma ucast_8_16_64: "ucast (ucast (ucast (x :: u8) :: u64) :: u16) = (ucast x :: u64)"
  by (rule bit_word_eqI) (auto simp: bit_simps dest: bit_u8)

lemma read_be_two:
  assumes "length xs \<le> 2"
  shows "ucast (ucast (read_be xs) :: u16) = read_be xs"
proof -
  consider "xs = []" | a where "xs = [a]" | a b where "xs = [a, b]"
    using assms by (cases xs; cases "tl xs") (auto simp: Suc_le_eq)
  then show ?thesis
    by cases (auto simp: read_be_def intro!: bit_word_eqI simp: bit_simps dest: bit_u8)
qed

lemma extract_head:
  assumes v: "on_head v" and h: "is_head h" and at: "v_at v 0 = h @ r"
    and ns: "hd h AND 0xe0 \<noteq> SIMPLE"
  shows "value_extract v = Some (head_arg h)"
proof -
  obtain d ds where hd: "h = d # ds" "info_of d \<le> 27" "length ds = arg_bytes (info_of d)" "info_of d \<noteq> 31"
    using is_headE [OF h] by blast
  have l: "load_head v = v" using v by (simp add: on_head_def)
  have arg: "head_arg (d # ds @ r) = head_arg h" using head_arg_append [OF h, of r] hd by simp
  have at1: "v_at v (Suc 0) = ds @ r" using v_at_next [of v d "ds @ r"] at hd by simp
  show ?thesis
  proof (cases "info_of d = 26 \<or> info_of d = 27")
    case True
    have big: "v_flags v AND INTEGER_TOO_LARGE \<noteq> 0"
      "v_flags v AND INTEGER_IS_64_BIT = 0 \<longleftrightarrow> info_of d \<noteq> 27"
      using load_head_flags(1,2) [of v] l at hd True by auto
    have "range_at (v_at v (Suc 0)) 0 (length ds) = Some ds"
      using at1 by (simp add: range_at_def subslice_def)
    then show ?thesis using True big hd
      by (auto simp: value_extract_def head_arg_def Let_def)
  next
    case False
    then have small: "v_flags v AND INTEGER_TOO_LARGE = 0"
      using load_head_flags(1) [of v] l at hd by auto
    have "v_extra v = v_extra (load_head v)" using l by simp
    then have ex: "v_extra v = ucast (head_arg h)"
      using False hd at ns arg by (simp add: load_head_def Let_def)
    have "ucast (ucast (head_arg h) :: u16) = head_arg h"
    proof (cases "info_of d < 24")
      case True
      then show ?thesis using hd by (simp add: head_arg_def ucast_8_16_64)
    next
      case F: False
      then have "length ds \<le> 2" using False hd
        by (cases d rule: info_cases) auto
      then show ?thesis using F hd read_be_two [of ds] by (simp add: head_arg_def)
    qed
    then show ?thesis using small ex by (simp add: value_extract_def)
  qed
qed

lemma extract_advance_head:
  assumes v: "on_head v" and h: "is_head h" and at: "v_at v 0 = h @ r"
    and ns: "hd h AND 0xe0 \<noteq> SIMPLE"
  shows "extract_number_and_advance v = Some (v\<lparr>v_pos := v_pos v + length h\<rparr>, head_arg h)"
proof -
  have "get_at (v_at v 0) 0 = Some (hd h)" "arg_bytes (hd h AND 0x1f) + 1 = length h"
    using h at by (auto simp: get_at_def info_of_def head_len_def elim!: is_headE)
  then show ?thesis
    using extract_head [OF assms] by (simp add: extract_number_and_advance_def)
qed

lemma advance_internal_head:
  assumes "on_head v" "is_head h" "v_at v 0 = h @ r"
  shows "advance_internal v = preparse_next_value (v\<lparr>v_pos := v_pos v + length h\<rparr>)"
  using advance_internal_eq [OF on_head_readable(1) [OF assms(1)]] assms(2,3)
  by (auto elim!: is_headE)


text \<open>What the loop over a container's items does, from the value before the first head is
  read.\<close>

definition runs :: "(Value \<Rightarrow> unit stepped) \<Rightarrow> Value \<Rightarrow> nat \<Rightarrow> bool \<Rightarrow> bool" where
  "runs step u n known \<longleftrightarrow>
     (\<exists>v w. preparse_next_value_nodecrement u = Some (v, Ok ()) \<and>
        advance_items step v = Some (w, Ok ()) \<and> v_buf w = v_buf u \<and> v_pos w = v_pos u + n \<and>
        v_ty w = INVALID \<and> is_length_known w = known)"

lemma nodecrement_head:
  assumes "head_ok (v_at u 0)"
  shows "preparse_next_value_nodecrement u = Some (load_head u, Ok ())"
proof -
  obtain d ds where at: "v_at u 0 = d # ds" using assms by (cases "v_at u 0") (auto simp: head_ok_def)
  have "d \<noteq> BREAK"
    using assms at by (auto simp: head_ok_def info_of_def is_fixed_type_def cbor_consts)
  then show ?thesis
    using preparse_value_ok [OF at] assms at by (simp add: preparse_next_value_nodecrement_def)
qed

lemma nodecrement_break:
  assumes "v_at u 0 = BREAK # r" "v_remaining u = - 1" "v_ty u \<noteq> TAG"
    and "v_flags u AND CONTAINER_IS_MAP \<noteq> 0 \<longrightarrow> v_flags u AND NEXT_IS_MAP_KEY = 0"
  shows "preparse_next_value_nodecrement u = Some (u\<lparr>v_remaining := 0,
    v_flags := v_flags u OR UNKNOWN_LENGTH, v_ty := INVALID\<rparr>, Ok ())"
  using assms by (cases u) (auto simp: preparse_next_value_nodecrement_def Let_def)

definition outcome :: "unit stepped \<Rightarrow> (CborError, Value) result option" where
  "outcome m = (case m of None \<Rightarrow> None | Some (w, Ok _) \<Rightarrow> Some (Ok w) | Some (_, Err e) \<Rightarrow> Some (Err e))"

lemma outcome_Ok [simp]: "outcome m = Some (Ok w) \<longleftrightarrow> m = Some (w, Ok ())"
  by (auto simp: outcome_def split: option.splits result.splits)

lemma runs_step:
  assumes "head_ok (v_at u 0)" "v_remaining u \<noteq> 0"
    and "outcome (step (load_head u)) = outcome (preparse_next_value_nodecrement x)"
    and "runs step x n known" "v_buf x = v_buf u" "v_pos x = v_pos u + m"
  shows "runs step u (m + n) known"
proof -
  obtain v w where x: "preparse_next_value_nodecrement x = Some (v, Ok ())"
    "advance_items step v = Some (w, Ok ())" "v_buf w = v_buf x" "v_pos w = v_pos x + n"
    "v_ty w = INVALID" "is_length_known w = known"
    using assms(4) by (auto simp: runs_def)
  have "step (load_head u) = Some (v, Ok ())"
    using assms(3) x(1) by (metis outcome_Ok)
  then have "advance_items step (load_head u) = Some (w, Ok ())"
    using assms(2) x(2) by (subst advance_items.simps) (simp add: at_end_def)
  then show ?thesis
    using nodecrement_head [OF assms(1)] x(3-) assms(5,6) by (auto simp: runs_def)
qed

lemma flag_bits:
  "f AND CONTAINER_IS_MAP \<noteq> 0 \<longleftrightarrow> bit f 5" "f AND NEXT_IS_MAP_KEY \<noteq> 0 \<longleftrightarrow> bit f 6"
  using bit_iff_and_push_bit_not_eq_0 [of f 5] bit_iff_and_push_bit_not_eq_0 [of f 6]
  by (simp_all add: cbor_flags)

lemma masked_bits:
  assumes "f AND 0x60 = (g :: u8) AND 0x60"
  shows "bit f 5 = bit g 5" "bit f 6 = bit g 6"
proof -
  have "bit (f AND 0x60) 5 = bit (g AND 0x60) 5" "bit (f AND 0x60) 6 = bit (g AND 0x60) 6"
    using assms by simp_all
  then show "bit f 5 = bit g 5" "bit f 6 = bit g 6" by (simp_all add: bit_simps)
qed

lemma count_item_bits:
  "bit (v_flags (count_item v)) 5 = bit (v_flags v) 5"
  "bit (v_flags (count_item v)) 6 = (\<not> bit (v_flags v) 6)"
  by (simp_all add: count_item_def cbor_flags bit_simps)

lemma of_nat_u32:
  assumes "Suc k < 2 ^ 32 - 1"
  shows "of_nat (Suc k) \<noteq> (- 1 :: u32)" "of_nat (Suc k) \<noteq> (0 :: u32)"
    "(of_nat (Suc k) = (1 :: u32)) = (k = 0)" "of_nat (Suc k) - 1 = (of_nat k :: u32)"
proof -
  have u: "unat (of_nat (Suc k) :: u32) = Suc k"
    using assms by (simp add: unsigned_of_nat take_bit_nat_eq_self del: of_nat_Suc)
  have m: "unat (- 1 :: u32) = 2 ^ 32 - 1" by (simp add: unsigned_minus_1_eq_mask mask_eq_exp_minus_1)
  show "of_nat (Suc k) \<noteq> (- 1 :: u32)"
  proof
    assume eq: "of_nat (Suc k) = (- 1 :: u32)"
    show False using u m assms unfolding eq by linarith
  qed
  show "of_nat (Suc k) \<noteq> (0 :: u32)"
  proof
    assume eq: "of_nat (Suc k) = (0 :: u32)"
    show False using u unfolding eq by simp
  qed
  show "(of_nat (Suc k) = (1 :: u32)) = (k = 0)"
  proof
    assume eq: "of_nat (Suc k) = (1 :: u32)"
    show "k = 0" using u unfolding eq by simp
  qed simp
  show "of_nat (Suc k) - 1 = (of_nat k :: u32)" by simp
qed


text \<open>The two statements of the induction: an item is stepped over, and a row of items is run
  through, counted (\<open>k\<close> to go) or up to a break.\<close>

definition stepped_over :: "nat \<Rightarrow> nat \<Rightarrow> bytes \<Rightarrow> bool" where
  "stepped_over um n b \<longleftrightarrow> (\<forall>v r. on_head v \<longrightarrow> v_at v 0 = b @ r \<longrightarrow>
     (\<exists>u. behind v (length b) u \<and> outcome (advance_recursive um n v) = outcome (preparse_next_value u)))"

definition run_counted :: "nat \<Rightarrow> nat \<Rightarrow> nat \<Rightarrow> bytes \<Rightarrow> bool" where
  "run_counted um n k b \<longleftrightarrow> (\<forall>u r. 0 < k \<longrightarrow> v_remaining u = of_nat k \<longrightarrow> k < 2 ^ 32 - 1 \<longrightarrow>
     v_at u 0 = b @ r \<longrightarrow> runs (\<lambda>w. advance_recursive um n w) u (length b) True)"

definition run_open :: "nat \<Rightarrow> nat \<Rightarrow> nat \<Rightarrow> bytes \<Rightarrow> bool" where
  "run_open um n k b \<longleftrightarrow> (\<forall>u r. v_remaining u = - 1 \<longrightarrow> v_at u 0 = b @ BREAK # r \<longrightarrow>
     (k = 0 \<longrightarrow> v_ty u \<noteq> TAG) \<longrightarrow> (bit (v_flags u) 5 \<longrightarrow> bit (v_flags u) 6 = odd k) \<longrightarrow>
     runs (\<lambda>w. advance_recursive um n w) u (length b) False)"

lemma step_fixed:
  assumes "is_head h" "head_ok h" "is_fixed_type (head_ty (hd h))"
  shows "stepped_over um n h"
  unfolding stepped_over_def
proof (intro allI impI)
  fix v r assume v: "on_head v" and at: "v_at v 0 = h @ r"
  have "v_ty v = head_ty (hd h)"
    using on_head_ty [OF v] at assms(1) by (auto elim!: is_headE)
  then have "advance_recursive um n v = preparse_next_value (v\<lparr>v_pos := v_pos v + length h\<rparr>)"
    using advance_internal_head [OF v assms(1) at] assms(3)
    by (subst advance_recursive.simps) simp
  then show "\<exists>u. behind v (length h) u \<and>
      outcome (advance_recursive um n v) = outcome (preparse_next_value u)"
    by (intro exI [of _ "v\<lparr>v_pos := v_pos v + length h\<rparr>"]) (simp add: behind_def)
qed

lemma feed_nothing: "\<exists>t a. feed copy_nothing um n all cs () = Some ((), t, a)"
  by (induction cs arbitrary: n all) (simp_all add: copy_nothing_def)

lemma advance_recursive_string:
  assumes "\<not> is_fixed_type (v_ty v)" "\<not> is_container v"
    and "iterate_string um v um copy_nothing () = Some (s, r)"
  shows "advance_recursive um n v =
    Some (case r of Err e \<Rightarrow> (v, Err e) | Ok (_, w) \<Rightarrow> (w, Ok ()))"
  using assms by (simp add: advance_recursive.simps [of um n v])

lemma step_string:
  assumes "ty = TEXT_STRING \<or> ty = BYTE_STRING" "string_item um ty cs b"
  shows "stepped_over um n b"
  unfolding stepped_over_def
proof (intro allI impI)
  fix v r assume v: "on_head v" and at: "v_at v 0 = b @ r"
  obtain u where u: "v_ty v = ty" "behind v (length b) u"
    "iterate_string um v um copy_nothing () = string_result um copy_nothing cs () u"
    using iterate_string_item [OF v assms(2) at assms(1), of um copy_nothing "()"] by auto
  obtain w x where w: "preparse_next_value u = Some (w, x)"
    using preparse_next_stays [of u] by (auto simp: stays_def)
  have ty: "\<not> is_fixed_type (v_ty v)" "\<not> is_container v"
    using u(1) assms(1) by (auto simp: is_fixed_type_def is_container_def cbor_consts)
  obtain t a where f: "feed copy_nothing um 0 True cs () = Some ((), t, a)"
    using feed_nothing by blast
  have it: "iterate_string um v um copy_nothing () = Some ((), case x of Err e \<Rightarrow> Err e
      | Ok _ \<Rightarrow> Ok (\<lparr>cp_total = t, cp_all = a, cp_nul = (a \<and> t < um)\<rparr>, w))"
    unfolding u(3) string_result_def f w by (cases x) simp_all
  have "outcome (advance_recursive um n v) = outcome (preparse_next_value u)"
    unfolding advance_recursive_string [OF ty it] w by (cases x) (simp_all add: outcome_def)
  then show "\<exists>u. behind v (length b) u \<and>
      outcome (advance_recursive um n v) = outcome (preparse_next_value u)"
    using u(2) by blast
qed


lemma elems_0: "cbor_elems um n 0 b \<Longrightarrow> b = []"
  by (auto elim: cbor_elems.cases)

lemma tag_head:
  assumes "is_head h" "head_ty (hd h) = TAG" "v_at u 0 = h @ b"
  shows "head_ok (v_at u 0)"
    and "\<exists>x. outcome (advance_recursive um n (load_head u)) = outcome (preparse_next_value_nodecrement x) \<and>
      v_buf x = v_buf u \<and> v_pos x = v_pos u + length h \<and> v_remaining x = v_remaining u \<and>
      v_ty x = TAG \<and> v_flags x AND 0x60 = v_flags u AND 0x60 \<and> v_at x 0 = b"
proof -
  have m: "hd h AND 0xe0 = TAG" using head_ty_major assms(2) by blast
  have ok: "head_ok h" "head_ok (h @ b)" using is_head_ok [OF assms(1), of "[]"] is_head_ok [OF assms(1), of b] m
    by (auto simp: cbor_consts)
  then show "head_ok (v_at u 0)" using assms(3) by simp
  have fixed: "is_fixed_type (head_ty (hd h))"
    using assms(2) by (simp add: is_fixed_type_def cbor_consts)
  have v: "on_head (load_head u)" using on_head_load ok assms(3) by simp
  obtain y where y: "behind (load_head u) (length h) y"
    "outcome (advance_recursive um n (load_head u)) = outcome (preparse_next_value y)"
    using step_fixed [OF assms(1) ok(1) fixed, of um n] v assms(3) unfolding stepped_over_def by auto
  have ty: "v_ty y = TAG"
    using y(1) assms(1-3) by (auto simp: behind_def elim!: is_headE)
  have at: "v_at y 0 = b"
    using y(1) v_at_add [OF assms(3)] by (simp add: behind_def v_at_def)
  show "\<exists>x. outcome (advance_recursive um n (load_head u)) = outcome (preparse_next_value_nodecrement x) \<and>
      v_buf x = v_buf u \<and> v_pos x = v_pos u + length h \<and> v_remaining x = v_remaining u \<and>
      v_ty x = TAG \<and> v_flags x AND 0x60 = v_flags u AND 0x60 \<and> v_at x 0 = b"
    using y ty at preparse_next_tag [of y] load_head_flags(4) [of u]
    by (intro exI [of _ y]) (simp add: behind_def)
qed

lemma item_step:
  assumes "cbor_item um n b" "stepped_over um n b" "v_at u 0 = b @ c"
  shows "head_ok (v_at u 0)"
    and "\<exists>x. outcome (advance_recursive um n (load_head u)) = outcome (preparse_next_value x) \<and>
      v_buf x = v_buf u \<and> v_pos x = v_pos u + length b \<and> v_remaining x = v_remaining u \<and>
      v_ty x \<noteq> TAG \<and> v_flags x AND 0x60 = v_flags u AND 0x60 \<and> v_at x 0 = c"
proof -
  have h: "b \<noteq> []" "head_ok (b @ c)" "head_ty (hd b) \<noteq> TAG" using item_head [OF assms(1)] by auto
  then show "head_ok (v_at u 0)" using assms(3) by simp
  then have v: "on_head (load_head u)" by (rule on_head_load)
  obtain y where y: "behind (load_head u) (length b) y"
    "outcome (advance_recursive um n (load_head u)) = outcome (preparse_next_value y)"
    using assms(2,3) v unfolding stepped_over_def by auto
  have at: "v_at y 0 = c" using y(1) v_at_add [OF assms(3)] by (simp add: behind_def v_at_def)
  have "v_ty y \<noteq> TAG" using y(1) h assms(3) by (auto simp: behind_def)
  then show "\<exists>x. outcome (advance_recursive um n (load_head u)) = outcome (preparse_next_value x) \<and>
      v_buf x = v_buf u \<and> v_pos x = v_pos u + length b \<and> v_remaining x = v_remaining u \<and>
      v_ty x \<noteq> TAG \<and> v_flags x AND 0x60 = v_flags u AND 0x60 \<and> v_at x 0 = c"
    using y at load_head_flags(4) [of u] by (intro exI [of _ y]) (simp add: behind_def)
qed

lemma runs_last:
  assumes "head_ok (v_at u 0)" "v_remaining u = 1"
    and "outcome (step (load_head u)) = outcome (preparse_next_value x)"
    and "v_buf x = v_buf u" "v_pos x = v_pos u + m" "v_remaining x = 1" "v_ty x \<noteq> TAG"
  shows "runs step u m True"
proof -
  let ?w = "x\<lparr>v_remaining := 0, v_flags := v_flags x AND NOT UNKNOWN_LENGTH, v_ty := INVALID\<rparr>"
  have "step (load_head u) = Some (?w, Ok ())"
    using assms(3) preparse_next_end [OF assms(7,6)] by (metis outcome_Ok)
  then have "advance_items step (load_head u) = Some (?w, Ok ())"
    using assms(2) by (subst advance_items.simps) (simp add: at_end_def advance_items.simps)
  then show ?thesis
    using nodecrement_head [OF assms(1)] assms(4,5)
    by (auto simp: runs_def is_length_known_def cbor_flags and.assoc)
qed

lemma more_counted:
  assumes item: "cbor_item um n b" "stepped_over um n b" and elems: "cbor_elems um n k c"
    and run: "run_counted um n k c"
    and u: "v_remaining u = of_nat (Suc k)" "Suc k < 2 ^ 32 - 1" "v_at u 0 = b @ c @ r"
  shows "runs (\<lambda>w. advance_recursive um n w) u (length (b @ c)) True"
proof -
  obtain x where x: "outcome (advance_recursive um n (load_head u)) = outcome (preparse_next_value x)"
    "v_buf x = v_buf u" "v_pos x = v_pos u + length b" "v_remaining x = v_remaining u"
    "v_ty x \<noteq> TAG" "v_at x 0 = c @ r"
    using item_step(2) [OF item u(3)] by blast
  note hd = item_step(1) [OF item u(3)]
  show ?thesis
  proof (cases "k = 0")
    case True
    then have "v_remaining u = 1" "c = []" using u(1) elems elems_0 by auto
    then show ?thesis using runs_last [where step = "\<lambda>w. advance_recursive um n w", OF hd _ x(1,2,3) _ x(5)] x(4) by simp
  next
    case False
    then have r: "v_remaining x \<noteq> 1" "v_remaining x \<noteq> - 1" "v_remaining x - 1 = of_nat k"
      using of_nat_u32 [OF u(2)] u(1) x(4) by auto
    have next': "preparse_next_value x = preparse_next_value_nodecrement (count_item x)"
      using preparse_next_more [OF x(5) r(1)] .
    have "v_remaining (count_item x) = of_nat k" using r by (simp add: count_item_def)
    then have "runs (\<lambda>w. advance_recursive um n w) (count_item x) (length c) True"
      using run False u(2) x(6) unfolding run_counted_def by auto
    then show ?thesis
      using runs_step [where step = "\<lambda>w. advance_recursive um n w", OF hd _ x(1) [unfolded next']] of_nat_u32(2) [OF u(2)] u(1) x(2,3) by simp
  qed
qed

lemma more_open:
  assumes item: "cbor_item um n b" "stepped_over um n b" and run: "run_open um n k c"
    and u: "v_remaining u = - 1" "v_at u 0 = b @ c @ BREAK # r"
      "bit (v_flags u) 5 \<longrightarrow> bit (v_flags u) 6 = odd (Suc k)"
  shows "runs (\<lambda>w. advance_recursive um n w) u (length (b @ c)) False"
proof -
  obtain x where x: "outcome (advance_recursive um n (load_head u)) = outcome (preparse_next_value x)"
    "v_buf x = v_buf u" "v_pos x = v_pos u + length b" "v_remaining x = v_remaining u"
    "v_ty x \<noteq> TAG" "v_flags x AND 0x60 = v_flags u AND 0x60" "v_at x 0 = c @ BREAK # r"
    using item_step(2) [OF item u(2)] by blast
  note hd = item_step(1) [OF item u(2)]
  have next': "preparse_next_value x = preparse_next_value_nodecrement (count_item x)"
    using preparse_next_more [OF x(5)] x(4) u(1) by simp
  have "v_remaining (count_item x) = - 1" using x(4) u(1) by (simp add: count_item_def)
  then have "runs (\<lambda>w. advance_recursive um n w) (count_item x) (length c) False"
    using run x(5,7) u(3) count_item_bits [of x] masked_bits [OF x(6)] unfolding run_open_def by auto
  then show ?thesis
    using runs_step [where step = "\<lambda>w. advance_recursive um n w", OF hd _ x(1) [unfolded next']] u(1) x(2,3) by simp
qed

lemma advance_recursive_container:
  assumes "is_container v" "enter_container v = Some (Ok w)"
    and "advance_items (\<lambda>w. advance_recursive um n w) w = Some (x, Ok ())"
  shows "advance_recursive um (Suc n) v = leave_container v x"
proof -
  have "\<not> is_fixed_type (v_ty v)" using assms(1) by (auto simp: is_container_def is_fixed_type_def)
  then show ?thesis using assms by (simp add: advance_recursive.simps [of um "Suc n" v])
qed

lemma leave_behind:
  assumes "is_container v" "v_ty x = INVALID"
    and "v_pos x + (if is_length_known x then 0 else 1) = v_pos v + m"
  shows "\<exists>u. behind v m u \<and> leave_container v x = preparse_next_value u"
  using assms
  by (intro exI [of _ "v\<lparr>v_pos := v_pos v + m\<rparr>"])
    (auto simp: leave_container_def behind_def is_length_known_def split: if_splits)

lemma enter_runs:
  assumes v: "is_container v" "enter_container v = enter_items u"
    and run: "runs (\<lambda>w. advance_recursive um n w) (u\<lparr>v_flags := v_ty u AND CONTAINER_IS_MAP\<rparr>) l known"
    and pos: "v_pos u + l + (if known then 0 else 1) = v_pos v + m"
  shows "\<exists>u. behind v m u \<and> outcome (advance_recursive um (Suc n) v) = outcome (preparse_next_value u)"
proof -
  obtain w x where w: "preparse_next_value_nodecrement (u\<lparr>v_flags := v_ty u AND CONTAINER_IS_MAP\<rparr>) =
      Some (w, Ok ())" "advance_items (\<lambda>w. advance_recursive um n w) w = Some (x, Ok ())"
    "v_pos x = v_pos u + l" "v_ty x = INVALID" "is_length_known x = known"
    using run by (auto simp: runs_def)
  have "enter_container v = Some (Ok w)" using v(2) w(1) by (simp add: enter_items_def)
  then have "advance_recursive um (Suc n) v = leave_container v x"
    using advance_recursive_container [OF v(1) _ w(2)] by simp
  then show ?thesis using leave_behind [OF v(1) w(4), of m] w(3,5) pos by auto
qed

lemma ucast_64_32_64:
  assumes "unat (x :: u64) < 2 ^ 32"
  shows "ucast (ucast x :: u32) = x"
proof -
  have "ucast (ucast x :: u32) = take_bit 32 x" by (rule bit_word_eqI) (auto simp: bit_simps)
  also have "\<dots> = x"
    using assms by (simp add: word_unat_eq_iff unsigned_take_bit_eq take_bit_nat_eq_self)
  finally show ?thesis .
qed

lemma enter_counted:
  assumes v: "on_head v" and h: "is_head h" "ty = ARRAY \<or> ty = MAP" "head_ty (hd h) = ty"
    and k: "k = unat (head_arg h) * (if ty = MAP then 2 else 1)" "k < 2 ^ 32 - 1"
    and at: "v_at v 0 = h @ r"
  defines "u \<equiv> v\<lparr>v_pos := v_pos v + length h, v_remaining := of_nat k\<rparr>"
  shows "is_container v" "v_ty v = ty" "is_length_known v"
    "enter_container v = (if k = 0 then Some (Ok (u\<lparr>v_ty := INVALID\<rparr>)) else enter_items u)"
proof -
  have hd: "hd (v_at v 0) = hd h" using at h(1) by (auto elim!: is_headE)
  show ty: "v_ty v = ty" using on_head_ty [OF v] hd h(3) by simp
  show cont: "is_container v" using ty h(2) by (auto simp: is_container_def)
  have maj: "hd h AND 0xe0 = ty" using head_ty_major [of "hd h" ty] h by blast
  show known: "is_length_known v" using on_head_known [OF v] hd h(1) by (auto elim!: is_headE)
  have ext: "extract_number_and_advance v = Some (v\<lparr>v_pos := v_pos v + length h\<rparr>, head_arg h)"
    using extract_advance_head [OF v h(1) at] maj h(2) by (auto simp: cbor_consts)
  let ?n = "head_arg h"
  have small: "unat ?n < 2 ^ 32 - 1" "ty = MAP \<Longrightarrow> unat ?n < 2 ^ 31"
    using k by (auto split: if_splits)
  have uu: "unat (ucast ?n :: u32) = unat ?n"
    using small by (simp add: unsigned_ucast_eq take_bit_nat_eq_self)
  have same: "ucast (ucast ?n :: u32) = ?n"
    using small(1) by (intro ucast_64_32_64) simp
  have nmax: "?n \<noteq> ucast (- 1 :: u32)"
    using small(1)
    by (auto simp: unsigned_ucast_eq unsigned_minus_1_eq_mask mask_eq_exp_minus_1 take_bit_nat_eq_self)
  have nbig: "\<not> (v_ty v = MAP \<and> (- 1) div 2 < (ucast ?n :: u32))"
    using small(2) uu ty by (auto simp: word_less_nat_alt)
  have rem: "(if ty = MAP then ucast ?n * 2 else ucast ?n :: u32) = of_nat k"
    using k(1) uu by (auto simp: word_unat_eq_iff)
  have "k = 0 \<longleftrightarrow> ?n = 0" using k(1) by (auto simp: unat_eq_0)
  then show "enter_container v = (if k = 0 then Some (Ok (u\<lparr>v_ty := INVALID\<rparr>)) else enter_items u)"
    using cont known ext same nmax nbig rem ty
    by (auto simp: enter_container_def is_length_known_def Let_def u_def)
qed

lemma step_counted:
  assumes h: "is_head h" "ty = ARRAY \<or> ty = MAP" "head_ty (hd h) = ty"
    and k: "k = unat (head_arg h) * (if ty = MAP then 2 else 1)" "k < 2 ^ 32 - 1"
    and elems: "cbor_elems um n k b" and run: "run_counted um n k b \<and> run_open um n k b"
  shows "stepped_over um (Suc n) (h @ b)"
  unfolding stepped_over_def
proof (intro allI impI)
  fix v r assume v: "on_head v" and "v_at v 0 = (h @ b) @ r"
  then have at: "v_at v 0 = h @ b @ r" by simp
  let ?u = "v\<lparr>v_pos := v_pos v + length h, v_remaining := of_nat k\<rparr>"
  note cont = enter_counted(1) [OF v h k at] and known = enter_counted(3) [OF v h k at]
    and enter = enter_counted(4) [OF v h k at]
  show "\<exists>u. behind v (length (h @ b)) u \<and>
      outcome (advance_recursive um (Suc n) v) = outcome (preparse_next_value u)"
  proof (cases "k = 0")
    case True
    then have "b = []" using elems elems_0 by simp
    let ?x = "?u\<lparr>v_ty := INVALID\<rparr>"
    have "advance_items (\<lambda>w. advance_recursive um n w) ?x = Some (?x, Ok ())"
      using True by (subst advance_items.simps) (simp add: at_end_def)
    then have "advance_recursive um (Suc n) v = leave_container v ?x"
      using advance_recursive_container [OF cont] enter True by simp
    then show ?thesis
      using leave_behind [OF cont, of ?x "length h"] known \<open>b = []\<close>
      by (auto simp: is_length_known_def)
  next
    case False
    have "v_at (?u\<lparr>v_flags := v_ty ?u AND CONTAINER_IS_MAP\<rparr>) 0 = b @ r"
      using v_at_add [OF at] by (simp add: v_at_def)
    then have "runs (\<lambda>w. advance_recursive um n w) (?u\<lparr>v_flags := v_ty ?u AND CONTAINER_IS_MAP\<rparr>)
        (length b) True"
      using run False k(2) unfolding run_counted_def by auto
    then show ?thesis
      using enter False enter_runs [OF cont, of ?u um n "length b" True "length (h @ b)"] by simp
  qed
qed

lemma step_uncounted:
  assumes ty: "ty = ARRAY \<or> ty = MAP" and even: "ty = MAP \<longrightarrow> even k"
    and run: "run_counted um n k b \<and> run_open um n k b"
  shows "stepped_over um (Suc n) ((ty OR 31) # b @ [BREAK])"
  unfolding stepped_over_def
proof (intro allI impI)
  fix v r assume v: "on_head v" and "v_at v 0 = ((ty OR 31) # b @ [BREAK]) @ r"
  then have at: "v_at v 0 = (ty OR 31) # b @ BREAK # r" by simp
  have vty: "v_ty v = ty" using on_head_ty [OF v] at info_OR_31 [of ty] ty by auto
  then have cont: "is_container v" using ty by (auto simp: is_container_def)
  have known: "\<not> is_length_known v" using on_head_known [OF v] at info_OR_31 [of ty] ty by auto
  let ?u = "v\<lparr>v_remaining := - 1, v_pos := v_pos v + 1\<rparr>"
  let ?w = "?u\<lparr>v_flags := v_ty ?u AND CONTAINER_IS_MAP\<rparr>"
  have enter: "enter_container v = enter_items ?u"
    using cont known by (simp add: enter_container_def is_length_known_def)
  have "v_at ?w 0 = b @ BREAK # r"
    using v_at_next [OF at] by (simp add: v_at_def)
  moreover have "bit (v_flags ?w) 5 \<longrightarrow> bit (v_flags ?w) 6 = odd k"
    using ty even vty by (auto simp: cbor_consts cbor_flags)
  moreover have "v_ty ?w \<noteq> TAG" using ty vty by (auto simp: cbor_consts)
  ultimately have "runs (\<lambda>w. advance_recursive um n w) ?w (length b) False"
    using run unfolding run_open_def by auto
  then show "\<exists>u. behind v (length ((ty OR 31) # b @ [BREAK])) u \<and>
      outcome (advance_recursive um (Suc n) v) = outcome (preparse_next_value u)"
    using enter_runs [OF cont enter, of um n "length b" False "length ((ty OR 31) # b @ [BREAK])"] by simp
qed

lemma elems_run:
  "cbor_item um n b \<Longrightarrow> stepped_over um n b"
  "cbor_elems um n k b \<Longrightarrow> run_counted um n k b \<and> run_open um n k b"
proof (induction rule: cbor_item_cbor_elems.inducts)
  case (fixed h n)
  then show ?case by (intro step_fixed)
next
  case (str ty cs b n)
  then show ?case by (intro step_string)
next
  case (counted h ty k n b)
  then show ?case by (intro step_counted)
next
  case (uncounted ty n k b)
  then show ?case by (intro step_uncounted)
next
  case (none n)
  have "runs (\<lambda>w. advance_recursive um n w) u 0 False"
    if "v_remaining u = - 1" "v_at u 0 = BREAK # r" "v_ty u \<noteq> TAG"
      "bit (v_flags u) 5 \<longrightarrow> \<not> bit (v_flags u) 6" for u r
  proof -
    let ?w = "u\<lparr>v_remaining := 0, v_flags := v_flags u OR UNKNOWN_LENGTH, v_ty := INVALID\<rparr>"
    have "preparse_next_value_nodecrement u = Some (?w, Ok ())"
      using nodecrement_break [OF that(2,1,3)] that(4) flag_bits by blast
    moreover have "advance_items (\<lambda>w. advance_recursive um n w) ?w = Some (?w, Ok ())"
      by (subst advance_items.simps) (simp add: at_end_def)
    ultimately show ?thesis
      by (auto simp: runs_def is_length_known_def cbor_flags bit.conj_disj_distrib2)
  qed
  then show ?case by (simp add: run_counted_def run_open_def)
next
  case (tag h n k b)
  have c: "runs (\<lambda>w. advance_recursive um n w) u (length (h @ b)) True"
    if u: "v_remaining u = of_nat (Suc k)" "Suc k < 2 ^ 32 - 1" "v_at u 0 = (h @ b) @ r" for u r
  proof -
    have at: "v_at u 0 = h @ b @ r" using u by simp
    obtain x where x: "outcome (advance_recursive um n (load_head u)) = outcome (preparse_next_value_nodecrement x)"
      "v_buf x = v_buf u" "v_pos x = v_pos u + length h" "v_remaining x = v_remaining u" "v_at x 0 = b @ r"
      using tag_head(2) [OF tag.hyps(1,2) at] by blast
    have "runs (\<lambda>w. advance_recursive um n w) x (length b) True"
      using tag.IH x u unfolding run_counted_def by auto
    then show ?thesis
      using runs_step [where step = "\<lambda>w. advance_recursive um n w", OF tag_head(1) [OF tag.hyps(1,2) at] _ x(1) _ x(2,3)] of_nat_u32(2) [OF u(2)] u(1)
      by simp
  qed
  have o: "runs (\<lambda>w. advance_recursive um n w) u (length (h @ b)) False"
    if u: "v_remaining u = - 1" "v_at u 0 = (h @ b) @ BREAK # r"
      "bit (v_flags u) 5 \<longrightarrow> bit (v_flags u) 6 = odd (Suc k)" for u r
  proof -
    have at: "v_at u 0 = h @ b @ BREAK # r" using u by simp
    obtain x where x: "outcome (advance_recursive um n (load_head u)) = outcome (preparse_next_value_nodecrement x)"
      "v_buf x = v_buf u" "v_pos x = v_pos u + length h" "v_remaining x = v_remaining u"
      "v_flags x AND 0x60 = v_flags u AND 0x60" "v_at x 0 = b @ BREAK # r"
      using tag_head(2) [OF tag.hyps(1,2) at] by blast
    have "runs (\<lambda>w. advance_recursive um n w) x (length b) False"
      using tag.IH x u masked_bits [OF x(5)] unfolding run_open_def by auto
    then show ?thesis
      using runs_step [where step = "\<lambda>w. advance_recursive um n w", OF tag_head(1) [OF tag.hyps(1,2) at] _ x(1) _ x(2,3)] u(1) by simp
  qed
  show ?case using c o unfolding run_counted_def run_open_def by blast
next
  case (more n b k c)
  show ?case
    using more_counted [OF more(1) more(2) more(3)] more_open [OF more(1) more(2)] more(4)
    unfolding run_counted_def [of um n "Suc k"] run_open_def [of um n "Suc k"] append_assoc by blast
qed


section \<open>Whatever is stepped over is an item of the grammar\<close>

lemma head_split:
  assumes "head_ok bs" "info_of (hd bs) \<noteq> 31"
  obtains h r where "bs = h @ r" "is_head h" "head_ok h" "hd h = hd bs"
proof -
  obtain d ds where bs: "bs = d # ds" using assms(1) by (cases bs) (auto simp: head_ok_def)
  then have d: "info_of d \<le> 27" "arg_bytes (info_of d) \<le> length ds"
    "\<not> (d = 0xf8 \<and> (ucast (read_be (take 1 ds)) :: u16) < 32)"
    using assms by (auto simp: head_ok_def head_len_def)
  let ?h = "d # take (arg_bytes (info_of d)) ds"
  have h: "is_head ?h" using d by (simp add: is_head_def head_len_def min_def)
  have "d = 0xf8 \<Longrightarrow> arg_bytes (info_of d) = 1" using d_f8 [of d] by simp
  then have "head_ok ?h" using h d by (auto simp: head_ok_def is_head_def)
  then show ?thesis using that [of ?h "drop (arg_bytes (info_of d)) ds"] h bs by simp
qed

lemma string_chunk_sound:
  assumes c: "string_chunk um v = Some (v', Ok (More start len))"
    and str: "v_ty v = TEXT_STRING \<or> v_ty v = BYTE_STRING" and um: "len \<le> um"
  shows "\<exists>c b r. v_at v 0 = b @ r \<and> chunk um (v_ty v) c b \<and> length c = len \<and> v' = after_chunk v (length b)"
proof -
  obtain d ds where at: "v_at v 0 = d # ds"
    using c by (cases "v_at v 0") (auto simp: string_chunk_def split: if_splits)
  have pos: "v_pos v < length (v_buf v)" using v_at_Cons [OF at] by simp
  obtain q where q: "chunk_head um v (d AND 0x1f) = Some q" using chunk_head_total by blast
  have m: "d AND 0xe0 = v_ty v" "(case q of Err e \<Rightarrow> (v, Err e) | Ok (l, offset) \<Rightarrow> transfer_string v l offset) =
      (v', Ok (More start len))"
    using c at q by (simp_all add: string_chunk_def split: if_splits)
  then obtain l offset where q': "q = Ok (l, offset)"
    and t: "transfer_string v l offset = (v', Ok (More start len))"
    by (cases q) auto
  have "info_of d \<le> 27 \<and> arg_bytes (info_of d) \<le> length ds \<and> offset = head_len d \<and>
      l = unat (head_arg (d # ds))"
  proof (cases "info_of d < 24")
    case True
    then show ?thesis using q q' unat_ucast_8_64
      by (auto simp: chunk_head_def head_len_def head_arg_def info_of_def word_le_nat_alt word_less_nat_alt)
  next
    case False
    then show ?thesis
      using q q' can_read_length [OF at] v_at_next [OF at]
      by (auto simp: chunk_head_def usize_of_def head_len_def head_arg_def info_of_def Let_def
          range_at_def subslice_def v_at_def add.commute split: if_splits result.splits)
  qed
  then have i: "info_of d \<le> 27" and cr: "arg_bytes (info_of d) \<le> length ds" and off: "offset = head_len d"
    and l: "l = unat (head_arg (d # ds))" by auto
  let ?h = "d # take (arg_bytes (info_of d)) ds" and ?ds = "drop (arg_bytes (info_of d)) ds"
  have h: "is_head ?h" using i cr by (simp add: is_head_def head_len_def min_def)
  have split: "v_at v 0 = ?h @ ?ds" using at by simp
  have len_h: "length ?h = head_len d" using cr by (simp add: head_len_def min_def)
  have ll: "l = len" "start = v_pos v + head_len d" "len \<le> length ?ds"
    "v' = v\<lparr>v_pos := v_pos v + head_len d + len,
       v_flags := v_flags v AND NOT BEFORE_FIRST_STRING_CHUNK\<rparr>"
    using t off arg_cong [OF split, of length] len_h pos
    by (auto simp: transfer_string_def can_read_def v_at_def Let_def split: if_splits)
  let ?c = "take len ?ds"
  have arg: "head_arg ?h = head_arg (d # ds)" using head_arg_append [OF h, of ?ds] by simp
  have "chunk um (v_ty v) ?c (?h @ ?c)"
    using h m(1) arg l ll(1,3) um unfolding chunk_def by (intro exI [of _ ?h]) (simp add: min_def)
  moreover have "v_at v 0 = (?h @ ?c) @ drop len ?ds"
    using split by (metis append.assoc append_take_drop_id)
  moreover have "v' = after_chunk v (length (?h @ ?c))"
    using ll(3,4) len_h by (simp add: after_chunk_def min_def add.assoc)
  moreover have "length ?c = len" using ll(3) by (simp add: min_def)
  ultimately show ?thesis by blast
qed

lemma chunk_loop_sound:
  assumes "chunk_loop um buflen copy v n all s = Some (s', Ok (w, t, a))"
    and "\<not> is_length_known v" "v_ty v = TEXT_STRING \<or> v_ty v = BYTE_STRING" "n \<le> um"
  shows "\<exists>cs b r. v_at v 0 = b @ BREAK # r \<and> chunk_list um (v_ty v) cs b \<and> n + length (concat cs) \<le> um"
  using assms
proof (induction "length (v_buf v) - v_pos v" arbitrary: v n all s rule: less_induct)
  case less
  obtain v' c where c: "string_chunk um v = Some (v', Ok c)"
    using less.prems(1) string_chunk_total [of um v]
    by (subst (asm) chunk_loop.simps) (auto split: result.splits)
  show ?case
  proof (cases c)
    case End
    then have "v_at v 0 \<noteq> []" "hd (v_at v 0) = BREAK"
      using string_chunk_End [of um v v'] c less.prems(2) by auto
    then have "v_at v 0 = [] @ BREAK # tl (v_at v 0)" by (cases "v_at v 0") auto
    then show ?thesis using less.prems(4) chunk_list.Nil by fastforce
  next
    case (More start len)
    note c' = c [unfolded More]
    have fit: "n + len \<le> um"
      using less.prems(1) c' by (subst (asm) chunk_loop.simps) (auto split: if_splits)
    then have "len \<le> um" by simp
    then obtain cb b r where b: "v_at v 0 = b @ r" "chunk um (v_ty v) cb b" "length cb = len"
      "v' = after_chunk v (length b)"
      using string_chunk_sound [OF c' less.prems(3)] by blast
    have step: "chunk_loop um buflen copy v n all s =
      (if all \<and> n + length cb \<le> buflen
       then Option.bind (copy n cb s) (chunk_loop um buflen copy (after_chunk v (length b)) (n + length cb) True)
       else chunk_loop um buflen copy (after_chunk v (length b)) (n + length cb) False s)"
      by (rule chunk_loop_chunk [OF b(2,1) refl less.prems(3)]) (use less.prems(2) fit b(3) in auto)
    have at': "v_at v' 0 = r" using v_at_add [OF b(1)] b(4) by simp
    have ex: "\<exists>cs b r. v_at v' 0 = b @ BREAK # r \<and> chunk_list um (v_ty v) cs b \<and>
        n + len + length (concat cs) \<le> um"
    proof -
      obtain al s2 where "chunk_loop um buflen copy v' (n + len) al s2 = Some (s', Ok (w, t, a))"
        using less.prems(1) b(3,4) unfolding step
        by (cases "copy n cb s") (auto split: if_splits)
      then show ?thesis
        using less.hyps [OF string_chunk_progress [OF c']] fit b(4) less.prems(2,3) by auto
    qed
    then obtain cs b2 r2 where "r = b2 @ BREAK # r2" "chunk_list um (v_ty v) cs b2"
      "n + len + length (concat cs) \<le> um" using at' by auto
    then show ?thesis
      using chunk_list.Cons [OF b(2)] b(1,3)
      by (intro exI [of _ "cb # cs"] exI [of _ "b @ b2"] exI [of _ r2]) auto
  qed
qed


lemma variable_head:
  assumes v: "on_head v" and ty: "\<not> is_fixed_type (v_ty v)"
  obtains d ds where "v_at v 0 = d # ds" "d AND 0xe0 = v_ty v" "is_length_known v \<longleftrightarrow> info_of d \<noteq> 31"
    "info_of d = 31 \<longrightarrow> d = v_ty v OR 31"
proof -
  obtain d ds where d: "v_at v 0 = d # ds" "v_ty v = head_ty d" using on_headE [OF v] by metis
  then have m: "d AND 0xe0 = v_ty v" using head_ty_variable [of d] ty by simp
  have "is_length_known v \<longleftrightarrow> info_of d \<noteq> 31" using on_head_known [OF v] d(1) by simp
  moreover have "info_of d = 31 \<longrightarrow> d = v_ty v OR 31" using head_from_parts [OF m, of 31] by blast
  ultimately show ?thesis using that d(1) m by blast
qed

lemma iterate_string_loop:
  assumes it: "iterate_string um v buflen copy s = Some (s', Ok (c, w))"
  defines "u \<equiv> v\<lparr>v_flags := v_flags v OR (ITERATING_STRING_CHUNKS OR BEFORE_FIRST_STRING_CHUNK)\<rparr>"
  shows "\<exists>x. chunk_loop um buflen copy
    (if is_length_known v then u else u\<lparr>v_pos := v_pos v + 1\<rparr>) 0 True s = Some (s', Ok x)"
proof -
  have k: "is_length_known u = is_length_known v" unfolding u_def by (rule string_begin(1))
  have p: "v_pos u = v_pos v" by (simp add: u_def)
  obtain s2 q where l: "chunk_loop um buflen copy
      (if \<not> is_length_known u then u\<lparr>v_pos := v_pos u + 1\<rparr> else u) 0 True s = Some (s2, q)"
    and rest: "(case q of Err e \<Rightarrow> Some (s2, Err e)
      | Ok (v, tot, all) \<Rightarrow> do {
          (v, r) \<leftarrow> preparse_next_value (if \<not> is_length_known v then v\<lparr>v_pos := v_pos v + 1\<rparr> else v);
          (case r of Err e \<Rightarrow> Some (s2, Err e)
           | Ok _ \<Rightarrow> Some (s2, Ok (\<lparr>cp_total = tot, cp_all = all, cp_nul = (all \<and> tot < buflen)\<rparr>, v))) })
      = Some (s', Ok (c, w))"
    using it unfolding iterate_string_def Let_def u_def
    by (auto simp: bind_eq_Some_conv split: if_splits)
  obtain x where "q = Ok x" using rest by (cases q) auto
  moreover have "s2 = s'"
    using rest \<open>q = Ok x\<close>
    by (auto simp: bind_eq_Some_conv split: result.splits prod.splits)
  ultimately show ?thesis using l k p by (cases x; cases "is_length_known v") auto
qed

lemma iterate_string_sound:
  assumes v: "on_head v" and it: "iterate_string um v buflen copy s = Some (s', Ok (c, w))"
  shows "\<exists>cs b r. v_at v 0 = b @ r \<and> string_item um (v_ty v) cs b"
proof -
  define u where "u = v\<lparr>v_flags := v_flags v OR (ITERATING_STRING_CHUNKS OR BEFORE_FIRST_STRING_CHUNK)\<rparr>"
  have str: "v_ty v = TEXT_STRING \<or> v_ty v = BYTE_STRING"
    using it by (auto simp: iterate_string_def is_text_string_def is_byte_string_def split: if_splits)
  have ty: "\<not> is_fixed_type (v_ty v)" using str by (auto simp: is_fixed_type_def)
  obtain d ds where d: "v_at v 0 = d # ds" "d AND 0xe0 = v_ty v" "is_length_known v \<longleftrightarrow> info_of d \<noteq> 31"
    "info_of d = 31 \<longrightarrow> d = v_ty v OR 31"
    using variable_head [OF v ty] by blast
  obtain w' t a where loop: "chunk_loop um buflen copy
    (if is_length_known v then u else u\<lparr>v_pos := v_pos v + 1\<rparr>) 0 True s = Some (s', Ok (w', t, a))"
    using iterate_string_loop [OF it] unfolding u_def by auto
  show ?thesis
  proof (cases "is_length_known v")
    case True
    obtain v' k where k: "string_chunk um u = Some (v', Ok k)"
      using loop True string_chunk_total [of um u]
      by (subst (asm) chunk_loop.simps) (auto split: result.splits)
    have nb: "v_at u 0 \<noteq> []" "hd (v_at u 0) \<noteq> BREAK" "v_flags u AND BEFORE_FIRST_STRING_CHUNK \<noteq> 0"
      using string_begin(2) [of v] string_head_not_break [OF v] str
      by (auto simp: u_def v_at_def is_text_string_def is_byte_string_def)
    then obtain st len where m: "k = More st len"
      using string_chunk_End [of um u v'] k by (cases k) auto
    have "len \<le> um"
      using loop True k m by (subst (asm) chunk_loop.simps) (auto split: if_splits)
    then obtain cb b r where "v_at u 0 = b @ r" "chunk um (v_ty u) cb b"
      using string_chunk_sound [of um u v' st len] k m str by (auto simp: u_def)
    then show ?thesis
      unfolding string_item_def by (intro exI [of _ "[cb]"] exI [of _ b] exI [of _ r])
        (simp add: u_def v_at_def)
  next
    case False
    let ?u = "u\<lparr>v_pos := v_pos v + 1\<rparr>"
    have "\<not> is_length_known ?u"
      using False string_begin(1) [of v] by (simp add: u_def is_length_known_def)
    then obtain cs b r where b: "v_at ?u 0 = b @ BREAK # r" "chunk_list um (v_ty ?u) cs b"
      "0 + length (concat cs) \<le> um"
      using chunk_loop_sound [of um buflen copy ?u 0 True s s' w' t a] loop False str
      by (auto simp: u_def)
    have "v_at v (Suc 0) = b @ BREAK # r" using b(1) by (simp add: u_def v_at_def)
    then have "v_at v 0 = ((v_ty v OR 31) # b @ [BREAK]) @ r"
      using d False v_at_next [OF d(1)] by simp
    moreover have "string_item um (v_ty v) cs ((v_ty v OR 31) # b @ [BREAK])"
      using b(2,3) unfolding string_item_def by (simp add: u_def)
    ultimately show ?thesis by blast
  qed
qed


text \<open>The two directions meet in the loop over a container's items.\<close>

definition steps_items :: "nat \<Rightarrow> nat \<Rightarrow> bool" where
  "steps_items um n \<longleftrightarrow> (\<forall>v w. on_head v \<longrightarrow> v_ty v \<noteq> TAG \<longrightarrow>
     advance_recursive um n v = Some (w, Ok ()) \<longrightarrow>
     (\<exists>b r. v_at v 0 = b @ r \<and> cbor_item um n b))"

definition row :: "nat \<Rightarrow> nat \<Rightarrow> Value \<Rightarrow> bool" where
  "row um n u \<longleftrightarrow>
     (if v_remaining u = - 1 then
        \<exists>b r k. v_at u 0 = b @ BREAK # r \<and> cbor_elems um n k b \<and>
          (bit (v_flags u) 5 \<longrightarrow> bit (v_flags u) 6 = odd k) \<and> (v_ty u = TAG \<longrightarrow> 0 < k)
      else \<exists>b r. v_at u 0 = b @ r \<and> cbor_elems um n (unat (v_remaining u)) b)"

lemma row_openI:
  "v_remaining u = - 1 \<Longrightarrow> v_at u 0 = b @ BREAK # r \<Longrightarrow> cbor_elems um n k b \<Longrightarrow>
   (bit (v_flags u) 5 \<longrightarrow> bit (v_flags u) 6 = odd k) \<Longrightarrow> (v_ty u = TAG \<longrightarrow> 0 < k) \<Longrightarrow> row um n u"
  unfolding row_def by auto

lemma row_countedI:
  "v_remaining u \<noteq> - 1 \<Longrightarrow> v_at u 0 = b @ r \<Longrightarrow> cbor_elems um n (unat (v_remaining u)) b \<Longrightarrow>
   row um n u"
  unfolding row_def by auto

lemma row_openE:
  assumes "row um n u" "v_remaining u = - 1"
  obtains b r k where "v_at u 0 = b @ BREAK # r" "cbor_elems um n k b"
    "bit (v_flags u) 5 \<longrightarrow> bit (v_flags u) 6 = odd k" "v_ty u = TAG \<longrightarrow> 0 < k"
  using assms unfolding row_def by auto

lemma row_countedE:
  assumes "row um n u" "v_remaining u \<noteq> - 1"
  obtains b r where "v_at u 0 = b @ r" "cbor_elems um n (unat (v_remaining u)) b"
  using assms unfolding row_def by auto

lemma row_tag:
  assumes h: "is_head h" "head_ty (hd h) = TAG" "v_at u 0 = h @ r"
    and x: "row um n x" "v_remaining x = v_remaining u" "v_remaining u \<noteq> 0"
      "v_flags x AND 0x60 = v_flags u AND 0x60" "v_at x 0 = r" "v_ty x = TAG"
  shows "row um n u"
proof (cases "v_remaining u = - 1")
  case True
  then obtain b r' k where b: "r = b @ BREAK # r'" "cbor_elems um n k b" "0 < k"
    "bit (v_flags x) 5 \<longrightarrow> bit (v_flags x) 6 = odd k"
    using x row_openE [OF x(1)] by metis
  then obtain j where "k = Suc j" by (cases k) auto
  then have "cbor_elems um n k (h @ b)" using b tag [OF h(1,2)] by simp
  then show ?thesis using row_openI [OF True, of "h @ b" r'] b h(3) masked_bits [OF x(4)] by simp
next
  case False
  then obtain b r' where b: "r = b @ r'" "cbor_elems um n (unat (v_remaining u)) b"
    using x row_countedE [OF x(1)] by metis
  obtain j where "unat (v_remaining u) = Suc j"
    using x(3) by (cases "unat (v_remaining u)") (auto simp: unat_eq_0)
  then have "cbor_elems um n (unat (v_remaining u)) (h @ b)" using b tag [OF h(1,2)] by simp
  then show ?thesis using row_countedI [OF False, of "h @ b" r'] b h(3) by simp
qed

lemma row_item:
  assumes item: "cbor_item um n b" "v_at u 0 = b @ r" and nz: "v_remaining u \<noteq> 0"
    and x: "v_remaining x = v_remaining u" "v_flags x AND 0x60 = v_flags u AND 0x60" "v_at x 0 = r"
    and cont: "v_remaining u \<noteq> 1 \<Longrightarrow> row um n (count_item x)"
  shows "row um n u"
proof (cases "v_remaining u = - 1")
  case True
  then have rw: "row um n (count_item x)" using cont by simp
  have rem: "v_remaining (count_item x) = - 1" using x True by (simp add: count_item_def)
  obtain c r' k where c: "v_at (count_item x) 0 = c @ BREAK # r'" "cbor_elems um n k c"
    "bit (v_flags (count_item x)) 5 \<longrightarrow> bit (v_flags (count_item x)) 6 = odd k"
    using row_openE [OF rw rem] by blast
  have "cbor_elems um n (Suc k) (b @ c)" using more [OF item(1) c(2)] .
  moreover have "v_at u 0 = (b @ c) @ BREAK # r'" using c(1) x(3) item(2) by simp
  moreover have "bit (v_flags u) 5 \<longrightarrow> bit (v_flags u) 6 = odd (Suc k)"
    using c(3) count_item_bits [of x] masked_bits [OF x(2)] by simp
  ultimately show ?thesis using row_openI [OF True] by blast
next
  case False
  obtain k where k: "unat (v_remaining u) = Suc k"
    using nz by (cases "unat (v_remaining u)") (auto simp: unat_eq_0)
  show ?thesis
  proof (cases "v_remaining u = 1")
    case True
    then have "cbor_elems um n (unat (v_remaining u)) (b @ [])" using more [OF item(1) none] by simp
    then show ?thesis using row_countedI [OF False] item(2) by simp
  next
    case no: False
    have dec: "unat (v_remaining u - 1) = k" using k by (simp add: unat_minus_one [OF nz])
    have rem: "v_remaining (count_item x) = v_remaining u - 1" "v_remaining (count_item x) \<noteq> - 1"
      using x False nz by (simp_all add: count_item_def)
    obtain c r' where c: "v_at (count_item x) 0 = c @ r'" "cbor_elems um n k c"
      using row_countedE [OF cont [OF no] rem(2)] rem(1) dec by auto
    have "cbor_elems um n (unat (v_remaining u)) (b @ c)" using more [OF item(1) c(2)] k by simp
    moreover have "v_at u 0 = (b @ c) @ r'" using c(1) x(3) item(2) by simp
    ultimately show ?thesis using row_countedI [OF False] by blast
  qed
qed

lemma advance_items_step:
  assumes "advance_items step v = Some (y, Ok ())" "v_remaining v \<noteq> 0"
  obtains w where "step v = Some (w, Ok ())" "advance_items step w = Some (y, Ok ())"
proof -
  have "Option.bind (step v) (\<lambda>p. case snd p of Err e \<Rightarrow> Some (fst p, Err e)
      | Ok _ \<Rightarrow> advance_items step (fst p)) = Some (y, Ok ())"
    using assms advance_items.simps [of step v] by (simp add: at_end_def)
  then show ?thesis using that by (auto simp: bind_eq_Some_conv split: result.splits)
qed

lemma loop_sound:
  assumes step: "steps_items um n"
  shows "preparse_next_value_nodecrement u = Some (v, Ok ()) \<Longrightarrow>
    advance_items (\<lambda>w. advance_recursive um n w) v = Some (y, Ok ()) \<Longrightarrow> v_remaining u \<noteq> 0 \<Longrightarrow> row um n u"
proof (induction "length (v_buf u) - v_pos u" arbitrary: u v rule: less_induct)
  case less
  show ?case
  proof (cases "v_remaining u = - 1 \<and> take 1 (v_at u 0) = [BREAK]")
    case True
    then have "v_ty u \<noteq> TAG" "bit (v_flags u) 5 \<longrightarrow> \<not> bit (v_flags u) 6"
      using less.prems(1) flag_bits by (auto simp: preparse_next_value_nodecrement_def Let_def split: if_splits)
    moreover obtain r where "v_at u 0 = [] @ BREAK # r" using True by (cases "v_at u 0") auto
    ultimately show ?thesis using True row_openI [of u "[]" r um n 0] none by auto
  next
    case False
    then have p: "preparse_value u = Some (v, Ok ())"
      using less.prems(1) by (auto simp: preparse_next_value_nodecrement_def)
    have ok: "head_ok (v_at u 0)" and v: "v = load_head u"
      using p by (cases u rule: preparse_value_cases; simp)+
    obtain v2 where v2: "advance_recursive um n v = Some (v2, Ok ())"
      "advance_items (\<lambda>w. advance_recursive um n w) v2 = Some (y, Ok ())"
      using advance_items_step [OF less.prems(2)] less.prems(3) v by auto
    have vo: "on_head v" using on_head_load [OF ok] v by simp
    have pos: "v_pos u < length (v_buf u)" using ok v_at_Cons [of u] by (cases "v_at u 0") (auto simp: head_ok_def)
    have hty: "v_ty v = head_ty (hd (v_at u 0))" using v by simp
    show ?thesis
    proof (cases "v_ty v = TAG")
      case True
      have "hd (v_at u 0) AND 0xe0 = TAG" using head_ty_major hty True by metis
      then have "info_of (hd (v_at u 0)) \<noteq> 31"
        using ok by (cases "v_at u 0") (auto simp: head_ok_def is_fixed_type_def cbor_consts)
      then obtain h r where h: "v_at u 0 = h @ r" "is_head h" "hd h = hd (v_at u 0)"
        using head_split [OF ok] by metis
      have ht: "head_ty (hd h) = TAG" using hty True h(3) by simp
      obtain x where x: "outcome (advance_recursive um n (load_head u)) =
          outcome (preparse_next_value_nodecrement x)"
        "v_buf x = v_buf u" "v_pos x = v_pos u + length h" "v_remaining x = v_remaining u"
        "v_ty x = TAG" "v_flags x AND 0x60 = v_flags u AND 0x60" "v_at x 0 = r"
        using tag_head(2) [OF h(2) ht h(1)] by blast
      have "preparse_next_value_nodecrement x = Some (v2, Ok ())"
        using x(1) v2(1) v by (metis outcome_Ok)
      moreover have "length (v_buf x) - v_pos x < length (v_buf u) - v_pos u"
        using x(2,3) pos h(2) by (cases h) (auto simp: is_head_def)
      ultimately have "row um n x" using less.hyps [of x v2] v2(2) x(4) less.prems(3) by simp
      then show ?thesis using row_tag [OF h(2) ht h(1)] x less.prems(3) by blast
    next
      case no: False
      then obtain b r where b: "v_at u 0 = b @ r" "cbor_item um n b"
        using step [unfolded steps_items_def, rule_format, OF vo no v2(1)] v by auto
      obtain x where x: "outcome (advance_recursive um n (load_head u)) = outcome (preparse_next_value x)"
        "v_buf x = v_buf u" "v_pos x = v_pos u + length b" "v_remaining x = v_remaining u"
        "v_ty x \<noteq> TAG" "v_flags x AND 0x60 = v_flags u AND 0x60" "v_at x 0 = r"
        using item_step(2) [OF b(2) elems_run(1) [OF b(2)] b(1)] by blast
      have nx: "preparse_next_value x = Some (v2, Ok ())" using x(1) v2(1) v by (metis outcome_Ok)
      have "row um n (count_item x)" if "v_remaining u \<noteq> 1"
      proof -
        have "preparse_next_value_nodecrement (count_item x) = Some (v2, Ok ())"
          using preparse_next_more [OF x(5)] x(4) that nx by simp
        moreover have "length (v_buf (count_item x)) - v_pos (count_item x) < length (v_buf u) - v_pos u"
          using x(2,3) pos item_head [OF b(2)] by (cases b) simp_all
        moreover have "v_remaining (count_item x) \<noteq> 0" using x(4) that by simp
        ultimately show ?thesis using less.hyps v2(2) by blast
      qed
      then show ?thesis using row_item [OF b(2,1) less.prems(3) x(4,6,7)] by blast
    qed
  qed
qed


lemma elems_enter:
  assumes "steps_items um n" "enter_items u = Some (Ok w)"
    and "advance_items (\<lambda>w. advance_recursive um n w) w = Some (y, Ok ())" "v_remaining u \<noteq> 0"
  shows "row um n (u\<lparr>v_flags := v_ty u AND CONTAINER_IS_MAP\<rparr>)"
proof -
  have "preparse_next_value_nodecrement (u\<lparr>v_flags := v_ty u AND CONTAINER_IS_MAP\<rparr>) = Some (w, Ok ())"
    using assms(2) by (auto simp: enter_items_def bind_eq_Some_conv split: result.splits)
  then show ?thesis using loop_sound [OF assms(1) _ assms(3)] assms(4) by simp
qed

lemma unat_ucast_32_64: "unat (ucast (x :: u32) :: u64) = unat x"
proof -
  have "unat x < 2 ^ LENGTH(32)" by (rule unsigned_less)
  then have "unat x < 2 ^ 64" by simp
  then show ?thesis by (simp add: unsigned_ucast_eq take_bit_nat_eq_self)
qed

lemma count_bounds:
  fixes x :: u32
  assumes "(ucast x :: u64) \<noteq> ucast (- 1 :: u32)" "\<not> (m \<and> (- 1) div 2 < x)"
  shows "unat (if m then x * 2 else x) = unat x * (if m then 2 else 1)"
    "unat x * (if m then 2 else 1) < 2 ^ 32 - 1"
proof -
  have "x \<noteq> - 1" using assms(1) by auto
  then have "unat x \<noteq> unat (- 1 :: u32)" by (simp add: word_unat_eq_iff)
  then have n: "unat x \<noteq> 2 ^ 32 - 1" by (simp add: unsigned_minus_1_eq_mask mask_eq_exp_minus_1)
  have l: "unat x < 2 ^ LENGTH(32)" by (rule unsigned_less)
  have h: "unat x \<le> 2147483647" if m
  proof -
    have "(- 1 :: u32) div 2 = 2147483647" by simp
    then show ?thesis using assms(2) that by (simp add: word_less_nat_alt)
  qed
  show "unat x * (if m then 2 else 1) < 2 ^ 32 - 1" using n l h by auto
  show "unat (if m then x * 2 else x) = unat x * (if m then 2 else 1)"
    using h by (auto simp: unat_word_ariths)
qed

lemma container_sound:
  assumes step: "steps_items um n" and v: "on_head v" and c: "is_container v"
    and e: "enter_container v = Some (Ok w)"
    and l: "advance_items (\<lambda>w. advance_recursive um n w) w = Some (y, Ok ())"
  shows "\<exists>b r. v_at v 0 = b @ r \<and> cbor_item um (Suc n) b"
proof -
  have ty: "v_ty v = ARRAY \<or> v_ty v = MAP" using c by (simp add: is_container_def)
  have nf: "\<not> is_fixed_type (v_ty v)" using ty by (auto simp: is_fixed_type_def)
  obtain d ds where d: "v_at v 0 = d # ds" "d AND 0xe0 = v_ty v" "is_length_known v \<longleftrightarrow> info_of d \<noteq> 31"
    "info_of d = 31 \<longrightarrow> d = v_ty v OR 31"
    using variable_head [OF v nf] by blast
  show ?thesis
  proof (cases "is_length_known v")
    case False
    let ?u = "v\<lparr>v_remaining := - 1, v_pos := v_pos v + 1\<rparr>"
    have "enter_items ?u = Some (Ok w)"
      using e c False by (simp add: enter_container_def is_length_known_def)
    then have "row um n (?u\<lparr>v_flags := v_ty ?u AND CONTAINER_IS_MAP\<rparr>)"
      using elems_enter [OF step _ l, of ?u] by simp
    then obtain b r k where b: "v_at (?u\<lparr>v_flags := v_ty ?u AND CONTAINER_IS_MAP\<rparr>) 0 = b @ BREAK # r"
      "cbor_elems um n k b" "v_ty v = MAP \<longrightarrow> even k"
    proof (elim row_openE, goal_cases)
      case (2 b r k)
      have "v_ty v = MAP \<Longrightarrow> bit (v_ty v AND CONTAINER_IS_MAP) 5 \<and> \<not> bit (v_ty v AND CONTAINER_IS_MAP) 6"
        by (simp add: cbor_consts cbor_flags)
      moreover have "bit (v_ty v AND CONTAINER_IS_MAP) 5 \<longrightarrow>
          bit (v_ty v AND CONTAINER_IS_MAP) 6 = odd k" using 2(4) by simp
      ultimately have "v_ty v = MAP \<longrightarrow> even k" by blast
      then show ?case using 2(1) [OF 2(2,3)] by blast
    qed simp
    have "v_at v (Suc 0) = b @ BREAK # r" using b(1) by (simp add: v_at_def)
    then have "v_at v 0 = ((v_ty v OR 31) # b @ [BREAK]) @ r"
      using d False v_at_next [OF d(1)] by simp
    then show ?thesis using uncounted [OF ty b(2,3)] by blast
  next
    case True
    have ok: "head_ok (v_at v 0)" using v by (simp add: on_head_def)
    obtain h r where h: "v_at v 0 = h @ r" "is_head h" "hd h = d"
    proof -
      have "info_of (hd (v_at v 0)) \<noteq> 31" "hd (v_at v 0) = d" using d True by auto
      then show ?thesis using head_split [OF ok] that by metis
    qed
    have hty: "head_ty (hd h) = v_ty v" using on_head_ty [OF v] h(3) d(1) by simp
    have ext: "extract_number_and_advance v = Some (v\<lparr>v_pos := v_pos v + length h\<rparr>, head_arg h)"
      using extract_advance_head [OF v h(2,1)] d(2) h(3) ty by (auto simp: cbor_consts)
    let ?n = "head_arg h"
    let ?u = "v\<lparr>v_pos := v_pos v + length h, v_remaining :=
        (if v_ty v = MAP then ucast ?n * 2 else ucast ?n)\<rparr>"
    have enter: "ucast (ucast ?n :: u32) = ?n" "?n \<noteq> ucast (- 1 :: u32)"
      "\<not> (v_ty v = MAP \<and> (- 1) div 2 < (ucast ?n :: u32))"
      "(if ?n = 0 then Some (Ok (?u\<lparr>v_ty := INVALID\<rparr>)) else enter_items ?u) = Some (Ok w)"
      using e c True ext by (auto simp: enter_container_def is_length_known_def Let_def split: if_splits)
    define x :: u32 where "x = ucast ?n"
    have wide: "unat ?n = unat x" using enter(1) unat_ucast_32_64 [of x] unfolding x_def by simp
    define k where "k = unat ?n * (if v_ty v = MAP then 2 else 1)"
    have k: "unat (v_remaining ?u) = k" "k < 2 ^ 32 - 1"
      using count_bounds [of x "v_ty v = MAP"] enter(2,3) wide enter(1)
      unfolding x_def [symmetric] k_def by auto
    have "\<exists>b r'. r = b @ r' \<and> cbor_elems um n k b"
    proof (cases "?n = 0")
      case True
      then show ?thesis using none by (auto simp: k_def)
    next
      case False
      then have nz: "v_remaining ?u \<noteq> 0" using k(1) by (auto simp: k_def unat_eq_0 split: if_splits)
      have nm: "v_remaining ?u \<noteq> - 1"
        using k by (auto simp: unsigned_minus_1_eq_mask mask_eq_exp_minus_1)
      have "row um n (?u\<lparr>v_flags := v_ty ?u AND CONTAINER_IS_MAP\<rparr>)"
        using elems_enter [OF step _ l, of ?u] enter(4) False nz by simp
      then obtain b r' where "v_at (?u\<lparr>v_flags := v_ty ?u AND CONTAINER_IS_MAP\<rparr>) 0 = b @ r'"
        "cbor_elems um n k b"
        using nm k(1) by (elim row_countedE) auto
      moreover from this(1) have "r = b @ r'" using v_at_add [OF h(1)] by (simp add: v_at_def)
      ultimately show ?thesis by blast
    qed
    then obtain b r' where b: "r = b @ r'" "cbor_elems um n k b" by blast
    have "cbor_item um (Suc n) (h @ b)"
      using counted [OF h(2) ty hty k_def k(2) b(2)] .
    then show ?thesis using h(1) b(1) by (intro exI [of _ "h @ b"] exI [of _ r']) simp
  qed
qed


lemma fixed_sound:
  assumes v: "on_head v" and ty: "is_fixed_type (v_ty v)" "v_ty v \<noteq> TAG"
  shows "\<exists>b r. v_at v 0 = b @ r \<and> cbor_item um n b"
proof -
  have ok: "head_ok (v_at v 0)" using v by (simp add: on_head_def)
  obtain d ds where d: "v_at v 0 = d # ds" "v_ty v = head_ty d" using on_headE [OF v] by metis
  have "info_of d \<noteq> 31"
  proof
    assume i: "info_of d = 31"
    then have "\<not> is_fixed_type (d AND 0xe0)" using ok d(1) by (simp add: head_ok_def)
    moreover from this have "head_ty d = d AND 0xe0"
      by (intro head_ty_of_major) (auto simp: is_fixed_type_def cbor_consts)
    ultimately show False using ty d by simp
  qed
  then have "info_of (hd (v_at v 0)) \<noteq> 31" using d(1) by simp
  then obtain h r where h: "v_at v 0 = h @ r" "is_head h" "head_ok h" "hd h = d"
    using head_split [OF ok] d(1) by (metis list.sel(1))
  then have "cbor_item um n h" using fixed [OF h(2,3)] ty d by simp
  then show ?thesis using h(1) by blast
qed

lemma string_sound:
  assumes v: "on_head v" and ty: "\<not> is_fixed_type (v_ty v)" "\<not> is_container v"
    and a: "advance_recursive um n v = Some (w, Ok ())"
  shows "\<exists>b r. v_at v 0 = b @ r \<and> cbor_item um n b"
proof -
  have str: "v_ty v = TEXT_STRING \<or> v_ty v = BYTE_STRING"
    using ty by (auto simp: is_fixed_type_def is_container_def)
  obtain s y where y: "iterate_string um v um copy_nothing () = Some (s, y)"
    using iterate_string_total [OF v, of um copy_nothing um "()"]
    by (metis copier_ok_def copy_nothing_def option.distinct(1))
  moreover obtain q where "y = Ok q"
    using a ty y by (cases y) (simp_all add: advance_recursive.simps [of um n v])
  ultimately have "iterate_string um v um copy_nothing () = Some (s, Ok q)" by simp
  then obtain cs b r where "v_at v 0 = b @ r" "string_item um (v_ty v) cs b"
    using iterate_string_sound [OF v] by (metis surj_pair)
  then show ?thesis using cbor_item_cbor_elems.str [OF str] by blast
qed

lemma advance_sound: "steps_items um n"
proof (induction n)
  case 0
  show ?case unfolding steps_items_def
  proof (intro allI impI)
    fix v w assume v: "on_head v" "v_ty v \<noteq> TAG" and a: "advance_recursive um 0 v = Some (w, Ok ())"
    then have "is_fixed_type (v_ty v) \<or> \<not> is_container v"
      by (auto simp: advance_recursive.simps [of um 0 v])
    then show "\<exists>b r. v_at v 0 = b @ r \<and> cbor_item um 0 b"
      using fixed_sound [OF v(1) _ v(2)] string_sound [OF v(1) _ _ a] by blast
  qed
next
  case (Suc n)
  show ?case unfolding steps_items_def
  proof (intro allI impI)
    fix v w assume v: "on_head v" "v_ty v \<noteq> TAG" and a: "advance_recursive um (Suc n) v = Some (w, Ok ())"
    show "\<exists>b r. v_at v 0 = b @ r \<and> cbor_item um (Suc n) b"
    proof (cases "is_fixed_type (v_ty v) \<or> \<not> is_container v")
      case True
      then show ?thesis
        using fixed_sound [OF v(1) _ v(2)] string_sound [OF v(1) _ _ a] by blast
    next
      case False
      obtain e where e: "enter_container v = Some e" using enter_container_total [OF v(1)] by blast
      obtain u where u: "e = Ok u"
        using a e False by (cases e) (simp_all add: advance_recursive.simps [of um "Suc n" v])
      have "\<exists>y. advance_items (\<lambda>w. advance_recursive um n w) u = Some (y, Ok ())"
      proof (cases "advance_items (\<lambda>w. advance_recursive um n w) u")
        case None
        then show ?thesis using a e u False by (simp add: advance_recursive.simps [of um "Suc n" v])
      next
        case (Some p)
        then show ?thesis using a e u False
          by (cases p; cases "snd p") (simp_all add: advance_recursive.simps [of um "Suc n" v])
      qed
      then obtain y where "enter_container v = Some (Ok u)"
        "advance_items (\<lambda>w. advance_recursive um n w) u = Some (y, Ok ())" using e u by blast
      then show ?thesis using container_sound [OF Suc v(1)] False by blast
    qed
  qed
qed

section \<open>The equivalence\<close>

definition start_value :: "bytes \<Rightarrow> Value" where
  "start_value buf = load_head
     \<lparr>v_buf = buf, v_pos = 0, v_remaining = 1, v_flags = 0, v_ty = INVALID, v_extra = 0\<rparr>"

lemma item_accepted:
  assumes item: "cbor_item um MAX_RECURSIONS b" and buf: "buf = b @ r"
  shows "cbor_parse buf = Some (Ok (start_value buf))" "on_head (start_value buf)"
    "v_remaining (start_value buf) = 1" "v_at (start_value buf) 0 = buf"
    "\<exists>w. advance um (start_value buf) = Some (w, Ok ()) \<and> v_pos w = length b \<and> at_end w"
proof -
  define i where
    "i = \<lparr>v_buf = buf, v_pos = 0, v_remaining = 1, v_flags = 0, v_ty = INVALID, v_extra = 0\<rparr>"
  have s: "start_value buf = load_head i" by (simp add: start_value_def i_def)
  have at: "v_at i 0 = buf" by (simp add: i_def v_at_def)
  have hd: "b \<noteq> []" "head_ok buf" "head_ty (hd b) \<noteq> TAG" using item_head [OF item, of r] buf by auto
  then obtain d ds where d: "buf = d # ds" "hd b = d" using buf by (cases b) auto
  show v: "on_head (start_value buf)" unfolding s using on_head_load at hd(2) by simp
  have "cbor_parse buf = Some (Ok (load_head i))"
    using preparse_value_ok [of i d ds] at d(1) hd(2) by (simp add: cbor_parse_def i_def)
  then show "cbor_parse buf = Some (Ok (start_value buf))" unfolding s .
  show "v_remaining (start_value buf) = 1" "v_at (start_value buf) 0 = buf" using at by (simp_all add: s i_def)
  obtain u where u: "behind (load_head i) (length b) u"
    "outcome (advance_recursive um MAX_RECURSIONS (load_head i)) = outcome (preparse_next_value u)"
    using elems_run(1) [OF item] v at buf unfolding stepped_over_def s by fastforce
  have "v_ty u \<noteq> TAG" "v_remaining u = 1"
    using u(1) at d hd(3) by (simp_all add: behind_def i_def)
  then obtain w where w: "preparse_next_value u = Some (w, Ok ())" "v_pos w = v_pos u" "at_end w"
    using preparse_next_end [of u] by (auto simp: at_end_def)
  have "advance um (load_head i) = advance_recursive um MAX_RECURSIONS (load_head i)"
    using on_head_readable(2) [OF v] by (simp add: advance_def i_def s)
  then have "advance um (load_head i) = Some (w, Ok ())" using u(2) w(1) by (metis outcome_Ok)
  then show "\<exists>w. advance um (start_value buf) = Some (w, Ok ()) \<and> v_pos w = length b \<and> at_end w"
    using w u(1) by (auto simp: behind_def i_def s)
qed

text \<open>More nesting is allowed where less suffices.\<close>

lemma cbor_item_mono:
  "cbor_item um n b \<Longrightarrow> cbor_item um (n + m) b"
  "cbor_elems um n k b \<Longrightarrow> cbor_elems um (n + m) k b"
proof (induction rule: cbor_item_cbor_elems.inducts)
  case (counted h ty k n b)
  then show ?case using cbor_item_cbor_elems.counted [of h ty k um "n + m" b] by simp
next
  case (uncounted ty n k b)
  then show ?case using cbor_item_cbor_elems.uncounted [of ty um "n + m" k b] by simp
qed (auto intro: fixed str none tag more)

text \<open>Property C34. The validator accepts exactly the grammar. For any bytes whose first item is not a
  tag, parsing them and advancing over the first item succeeds if and only if they begin with an
  item of the grammar with at most ten containers inside one another; and then the value stops
  exactly behind that item, at its end, whatever bytes follow.\<close>

theorem validator_accepts_the_grammar:
  assumes "buf = [] \<or> head_ty (hd buf) \<noteq> TAG"
  shows "(\<exists>v w. cbor_parse buf = Some (Ok v) \<and> advance um v = Some (w, Ok ()) \<and> v_pos w = n \<and> at_end w) \<longleftrightarrow>
    (\<exists>rest. buf = take n buf @ rest \<and> length (take n buf) = n \<and> cbor_item um MAX_RECURSIONS (take n buf))"
    (is "?run \<longleftrightarrow> ?item")
proof
  assume ?run
  then obtain v w where vw: "cbor_parse buf = Some (Ok v)" "advance um v = Some (w, Ok ())" "v_pos w = n"
    by blast
  have v: "on_head v" "v_at v 0 = buf" "v_buf v = buf"
    using cbor_parse_total [of buf] vw(1) by (auto simp: v_at_def)
  have "v_ty v \<noteq> TAG"
    using assms on_head_ty [OF v(1)] v(1,2) by (auto simp: on_head_def head_ok_def)
  moreover have "advance_recursive um MAX_RECURSIONS v = Some (w, Ok ())"
    using vw(2) by (simp add: advance_def split: if_splits)
  ultimately obtain b r where b: "buf = b @ r" "cbor_item um MAX_RECURSIONS b"
    using advance_sound [of um MAX_RECURSIONS] v unfolding steps_items_def by metis
  have "n = length b" using vw item_accepted(1,5) [OF b(2,1)] by auto
  then show ?item using b by simp
next
  assume ?item
  then show ?run using item_accepted(1,5) by metis
qed

text \<open>The map \<open>{"a": 1}\<close> in front of two more bytes.\<close>

theorem validator_accepts_the_grammar_witness:
  "\<exists>v w. cbor_parse [0xa1, 0x61, 0x61, 1, 0xff, 0xff] = Some (Ok v) \<and> advance 255 v = Some (w, Ok ()) \<and>
     v_pos w = 4 \<and> at_end w"
proof -
  let ?buf = "[0xa1, 0x61, 0x61, 1, 0xff, 0xff] :: bytes"
  have "chunk 255 TEXT_STRING [0x61] ([0x61] @ [0x61])"
    unfolding chunk_def by (rule exI [of _ "[0x61]"]) code_simp
  then have key: "cbor_item 255 9 [0x61, 0x61]"
    by (intro str [of TEXT_STRING 255 "[[0x61]]"]) (auto simp: string_item_def)
  have "is_head [1] \<and> head_ok [1] \<and> is_fixed_type (head_ty (hd [1])) \<and> head_ty (hd [1]) \<noteq> TAG" by code_simp
  then have val: "cbor_item 255 9 [1]" by (intro fixed) auto
  have "cbor_elems 255 9 (Suc (Suc 0)) ([0x61, 0x61] @ [1] @ [])"
    by (intro more key val none)
  moreover have "is_head [0xa1] \<and> head_ty (hd [0xa1]) = MAP \<and> Suc (Suc 0) = unat (head_arg [0xa1]) * 2"
    by code_simp
  ultimately have "cbor_item 255 (Suc 9) ([0xa1] @ [0x61, 0x61, 1])"
    by (intro counted [where ty = MAP and k = "Suc (Suc 0)"]) auto
  then have "cbor_item 255 MAX_RECURSIONS (take 4 ?buf)" by (simp add: MAX_RECURSIONS_def)
  moreover have "head_ty (hd ?buf) \<noteq> TAG" by code_simp
  ultimately show ?thesis
    using validator_accepts_the_grammar [of ?buf 255 4] by simp
qed

end
