(* ===== verification/Cbor_Encode.thy ===== *)
theory Cbor_Encode
  imports Cbor_Grammar
begin

text \<open>
  Writing CBOR. The heads are written by the crate \<open>cbor2\<close>, which is not part of the
  repository: its encoder is a parameter, a record of two functions over the unwritten tail
  of a caller's buffer, and \<open>cbor2_ok\<close> states what is documented of it, that a head is the
  shortest one of RFC 8949 and that a write happens in full or is refused. \<open>cbor.rs\<close> adds the
  wide float; the lemmas say that what is written are heads and items of the grammar.
\<close>

section \<open>The encoder of cbor2\<close>

datatype Header = Positive u64 | Negative u64 | Bytes "nat option" | Text "nat option" | Map "nat option"

text \<open>Both functions take the tail to write into and return it with what they wrote, the number
  of bytes they advanced by, and whether they succeeded.\<close>

record cbor2 =
  push :: "Header \<Rightarrow> bytes \<Rightarrow> bytes \<times> nat \<times> bool"
  write_all :: "bytes \<Rightarrow> bytes \<Rightarrow> bytes \<times> nat \<times> bool"

definition shortest_head :: "u8 \<Rightarrow> u64 \<Rightarrow> bytes" where
  "shortest_head major n =
     (if n < 24 then [major OR ucast n]
      else if n < 0x100 then (major OR 24) # to_be 1 n
      else if n < 0x10000 then (major OR 25) # to_be 2 n
      else if n < 0x100000000 then (major OR 26) # to_be 4 n
      else (major OR 27) # to_be 8 n)"

fun rfc_head :: "Header \<Rightarrow> bytes" where
  "rfc_head (Positive n) = shortest_head INTEGER n"
| "rfc_head (Negative n) = shortest_head 0x20 n"
| "rfc_head (Bytes (Some n)) = shortest_head BYTE_STRING (of_nat n)"
| "rfc_head (Bytes None) = [BYTE_STRING OR 31]"
| "rfc_head (Text (Some n)) = shortest_head TEXT_STRING (of_nat n)"
| "rfc_head (Text None) = [TEXT_STRING OR 31]"
| "rfc_head (Map (Some n)) = shortest_head MAP (of_nat n)"
| "rfc_head (Map None) = [MAP OR 31]"

definition writes :: "(bytes \<Rightarrow> bytes \<times> nat \<times> bool) \<Rightarrow> bytes \<Rightarrow> bool" where
  "writes w xs \<longleftrightarrow> (\<forall>tail.
     (length xs \<le> length tail \<longrightarrow> w tail = (put tail 0 xs, length xs, True)) \<and>
     (length tail < length xs \<longrightarrow>
        \<not> snd (snd (w tail)) \<and> fst (snd (w tail)) \<le> length tail \<and> length (fst (w tail)) = length tail))"

definition cbor2_ok :: "cbor2 \<Rightarrow> bool" where
  "cbor2_ok C \<longleftrightarrow> (\<forall>h. writes (push C h) (rfc_head h)) \<and> (\<forall>xs. writes (write_all C xs) xs)"

text \<open>An encoder that meets it: it writes nothing when there is no room.\<close>

definition slice_writer :: "bytes \<Rightarrow> bytes \<Rightarrow> bytes \<times> nat \<times> bool" where
  "slice_writer xs tail =
     (if length xs \<le> length tail then (put tail 0 xs, length xs, True) else (tail, 0, False))"

definition slice_cbor2 :: cbor2 where
  "slice_cbor2 = \<lparr>push = (\<lambda>h. slice_writer (rfc_head h)), write_all = slice_writer\<rparr>"

lemma slice_cbor2_ok: "cbor2_ok slice_cbor2"
  by (simp add: cbor2_ok_def slice_cbor2_def writes_def slice_writer_def)

section \<open>Wide floats\<close>

text \<open>\<open>push_f32_wide\<close>, on the bits of the float.\<close>

definition push_f32_wide :: "cbor2 \<Rightarrow> u32 \<Rightarrow> bytes \<Rightarrow> bytes \<times> nat \<times> bool" where
  "push_f32_wide C bits tail = write_all C (0xfa # to_be 4 bits) tail"

lemma push_f32_wide_writes: "cbor2_ok C \<Longrightarrow> writes (push_f32_wide C bits) (0xfa # to_be 4 bits)"
  by (simp add: cbor2_ok_def push_f32_wide_def [abs_def])

section \<open>The heads written\<close>

lemma read_be_eq: "read_be bs = from_be bs"
proof (induction bs rule: rev_induct)
  case (snoc b bs)
  then show ?case by (simp add: read_be_def from_be_def or.commute)
qed (simp add: read_be_def from_be_def)

lemma read_to_be:
  assumes "unat (n :: u64) < 2 ^ (8 * k)"
  shows "read_be (to_be k n) = n"
proof -
  have "take_bit (8 * k) n = n"
    using assms by (simp add: word_unat_eq_iff unsigned_take_bit_eq take_bit_nat_eq_self)
  then show ?thesis by (simp add: read_be_eq from_be_def to_be_def from_to_le_take_bit)
qed

definition is_major :: "u8 \<Rightarrow> bool" where
  "is_major m \<longleftrightarrow> m = INTEGER \<or> m = 0x20 \<or> m = BYTE_STRING \<or> m = TEXT_STRING \<or> m = ARRAY \<or> m = MAP \<or> m = TAG"

lemma major_info:
  assumes "is_major m" "i = 24 \<or> i = 25 \<or> i = 26 \<or> i = 27"
  shows "info_of (m OR i) = i" "(m OR i) AND 0xe0 = m"
  using assms by (auto simp: is_major_def info_of_def cbor_consts)

lemma major_small:
  assumes "is_major m" "n < (24 :: u64)"
  shows "info_of (m OR ucast n) = ucast n" "(m OR ucast n) AND 0xe0 = m" "ucast (ucast n :: u8) = n"
    "(ucast n :: u8) < 24"
proof -
  have u: "unat n < 24" using assms(2) by (simp add: word_less_nat_alt)
  then have bits: "\<not> bit n i" if "5 \<le> i" for i
  proof -
    have "unat n < 2 ^ i" using u power_increasing [OF that, of "2 :: nat"] by simp
    then show ?thesis by (metis bit_take_bit_iff linorder_not_less order_refl take_bit_nat_eq_self
        unsigned_take_bit_eq word_unat_eq_iff)
  qed
  have m: "m AND 0x1f = 0" "m AND 0xe0 = m" using assms(1) by (auto simp: is_major_def cbor_consts)
  have low: "i < 8" if "bit n i" for i using bits [of i] that by (cases "5 \<le> i") auto
  have masks: "(0x1f :: u8) = mask 5" "(0xe0 :: u8) = NOT (mask 5)" by (simp_all add: mask_eq_exp_minus_1)
  have n: "(ucast n :: u8) AND 0x1f = ucast n" "(ucast n :: u8) AND 0xe0 = 0" "ucast (ucast n :: u8) = n"
    unfolding masks
    by (rule bit_word_eqI, use bits in \<open>auto simp: bit_simps linorder_not_less [symmetric] intro: low\<close>)+
  show "info_of (m OR ucast n) = ucast n" "(m OR ucast n) AND 0xe0 = m" "ucast (ucast n :: u8) = n"
    using n by (simp_all add: info_of_def m bit.conj_disj_distrib2)
  show "(ucast n :: u8) < 24"
    using u by (simp add: word_less_nat_alt unsigned_ucast_eq unsigned_take_bit_eq take_bit_nat_eq_self)
qed

lemma shortest_head_cases:
  obtains "n < 24" "shortest_head m n = [m OR ucast n]"
  | i k where "i = 24 \<and> k = 1 \<or> i = 25 \<and> k = 2 \<or> i = 26 \<and> k = 4 \<or> i = 27 \<and> k = (8 :: nat)"
      "unat n < 2 ^ (8 * k)" "shortest_head m n = (m OR i) # to_be k n"
proof -
  have "unat n < 2 ^ LENGTH(64)" by (rule unsigned_less)
  then have n: "unat n < 2 ^ (8 * 8)" by simp
  consider "n < 24" | "\<not> n < 24" "n < 0x100" | "\<not> n < 24" "\<not> n < 0x100" "n < 0x10000"
    | "\<not> n < 24" "\<not> n < 0x100" "\<not> n < 0x10000" "n < 0x100000000"
    | "\<not> n < 24" "\<not> n < 0x100" "\<not> n < 0x10000" "\<not> n < 0x100000000" by blast
  then show ?thesis
  proof cases
    case 1
    then show ?thesis using that(1) by (simp add: shortest_head_def)
  next
    case 2
    then show ?thesis using that(2) [of 24 1] by (simp add: shortest_head_def word_less_nat_alt)
  next
    case 3
    then show ?thesis using that(2) [of 25 2] by (simp add: shortest_head_def word_less_nat_alt)
  next
    case 4
    then show ?thesis using that(2) [of 26 4] by (simp add: shortest_head_def word_less_nat_alt)
  next
    case 5
    then show ?thesis using that(2) [of 27 8] n by (simp add: shortest_head_def)
  qed
qed

lemma shortest_head:
  assumes m: "is_major m"
  shows "is_head (shortest_head m n)" "hd (shortest_head m n) AND 0xe0 = m" "head_arg (shortest_head m n) = n"
    "length (shortest_head m n) \<le> 9" "shortest_head m n \<noteq> []"
proof -
  have "is_head (shortest_head m n) \<and> hd (shortest_head m n) AND 0xe0 = m \<and> head_arg (shortest_head m n) = n \<and>
    length (shortest_head m n) \<le> 9 \<and> shortest_head m n \<noteq> []"
  proof (cases rule: shortest_head_cases [of n m])
    case 1
    have "(ucast n :: u8) \<le> 27" using major_small(4) [OF m 1(1)] by (simp add: word_less_nat_alt word_le_nat_alt)
    then show ?thesis using 1 major_small [OF m 1(1)]
      by (simp add: is_head_def head_len_def arg_bytes_def head_arg_def)
  next
    case (2 i k)
    have "arg_bytes i = k" "i \<le> 27" "\<not> i < 24" using 2(1) by (auto simp: arg_bytes_def)
    moreover have "i = 24 \<or> i = 25 \<or> i = 26 \<or> i = 27" "k \<le> 8" using 2(1) by auto
    ultimately show ?thesis using 2(2,3) major_info [OF m, of i]
      by (simp add: is_head_def head_len_def head_arg_def Let_def read_to_be)
  qed
  then show "is_head (shortest_head m n)" "hd (shortest_head m n) AND 0xe0 = m" "head_arg (shortest_head m n) = n"
    "length (shortest_head m n) \<le> 9" "shortest_head m n \<noteq> []" by blast+
qed

lemma shortest_head_ty:
  assumes "is_major m"
  shows "head_ty (hd (shortest_head m n)) = (if m = 0x20 then INTEGER else m)"
    "head_ok (shortest_head m n @ r)"
proof -
  have m: "m \<noteq> SIMPLE" using assms by (auto simp: is_major_def cbor_consts)
  then show "head_ty (hd (shortest_head m n)) = (if m = 0x20 then INTEGER else m)"
    using shortest_head(2) [OF assms] by (simp add: head_ty_def Let_def)
  show "head_ok (shortest_head m n @ r)"
    using is_head_ok shortest_head(1,2) [OF assms] m by simp
qed

lemma is_major_simps [simp]:
  "is_major INTEGER" "is_major 0x20" "is_major BYTE_STRING" "is_major TEXT_STRING" "is_major MAP"
  by (simp_all add: is_major_def)

lemma length_rfc_head: "length (rfc_head h) \<le> 9"
  by (cases h rule: rfc_head.cases) (simp_all add: shortest_head(4))

text \<open>A string that is there can be borrowed.\<close>

lemma value_string_total: "on_head v \<Longrightarrow> \<exists>r. value_string um v = Some r"
  using iterate_string_total [of v um copy_nothing um "()"]
  by (fastforce simp: value_string_def copy_string_def copier_ok_def copy_nothing_def)

section \<open>Items written\<close>

lemma integer_item:
  assumes "m = INTEGER \<or> m = 0x20"
  shows "cbor_item um d (shortest_head m n)"
proof -
  have m: "is_major m" using assms by auto
  have "head_ty (hd (shortest_head m n)) = INTEGER" using shortest_head_ty(1) [OF m] assms by auto
  then show ?thesis
    using shortest_head(1) [OF m] shortest_head_ty(2) [OF m, of n "[]"]
    by (intro fixed) (simp_all add: is_fixed_type_def cbor_consts)
qed

lemma float_item: "cbor_item um d (0xfa # to_be 4 bits)"
proof -
  have "info_of 0xfa = 26" "head_ty 0xfa = 0xfa"
    by (simp_all add: info_of_def head_ty_def Let_def SIMPLE_def)
  moreover from this(1) have "is_head (0xfa # to_be 4 bits)" "head_ok (0xfa # to_be 4 bits)"
    by (simp_all add: is_head_def head_ok_def head_len_def arg_bytes_def)
  ultimately show ?thesis by (intro fixed) (simp_all add: is_fixed_type_def cbor_consts)
qed

lemma unat_of_nat_64: "n < 2 ^ 64 \<Longrightarrow> unat (of_nat n :: u64) = n"
  by (simp add: unsigned_of_nat take_bit_nat_eq_self)

lemma string_chunk_written:
  assumes "ty = TEXT_STRING \<or> ty = BYTE_STRING" "length c \<le> um" "length c < 2 ^ 64"
  shows "chunk um ty c (shortest_head ty (of_nat (length c)) @ c)"
proof -
  have "is_major ty" using assms(1) by auto
  then show ?thesis
    using shortest_head [of ty "of_nat (length c)"] assms(2,3) unfolding chunk_def
    by (intro exI [of _ "shortest_head ty (of_nat (length c))"]) (simp add: unat_of_nat_64)
qed

lemma string_item_written:
  assumes "ty = TEXT_STRING \<or> ty = BYTE_STRING" "length c \<le> um" "length c < 2 ^ 64"
  shows "string_item um ty [c] (shortest_head ty (of_nat (length c)) @ c)"
  using string_chunk_written [OF assms] by (simp add: string_item_def)

lemma text_item:
  assumes "ty = TEXT_STRING \<or> ty = BYTE_STRING" "length c \<le> um" "length c < 2 ^ 64"
  shows "cbor_item um d (shortest_head ty (of_nat (length c)) @ c)"
  using str [OF assms(1) string_item_written [OF assms]] .

lemma map_item:
  assumes "cbor_elems um d (2 * n) b" "2 * n < 2 ^ 32 - 1"
  shows "cbor_item um (Suc d) (shortest_head MAP (of_nat n) @ b)"
proof -
  have n: "n < 2 ^ 64" using assms(2) by simp
  have "head_ty (hd (shortest_head MAP (of_nat n))) = MAP"
    using shortest_head_ty(1) [of MAP "of_nat n"] is_major_simps(5) by (auto simp: MAP_def)
  then show ?thesis
    using assms shortest_head [of MAP "of_nat n"] n
    by (intro counted [of _ MAP "2 * n"]) (simp_all add: unat_of_nat_64)
qed

end
