(* ===== verification/Service_Cbor.thy ===== *)
theory Service_Cbor
  imports Cbor_Encode "HOL-Library.Char_ord"
begin

text \<open>
  What the service bodies share (\<open>service.rs\<close>): a map being written into a caller's buffer and
  the steps every decoder is made of. The lemmas say which bytes a writer has written, and that a
  decoder reading a row of items of the grammar moves from each to the next.
\<close>

text \<open>\<open>b"..."\<close> of the source.\<close>

definition ascii :: "string \<Rightarrow> bytes" where
  "ascii s = map of_char s"

lemma length_ascii [simp]: "length (ascii s) = length s"
  by (simp add: ascii_def)

section \<open>Writing a map\<close>

text \<open>The encoder's \<open>&mut &mut [u8]\<close> is the buffer and how far the slice has advanced into it.\<close>

record MapWriter =
  mw_out :: bytes
  mw_pos :: nat
  mw_full :: bool

definition mw_put :: "(bytes \<Rightarrow> bytes \<times> nat \<times> bool) \<Rightarrow> MapWriter \<Rightarrow> MapWriter" where
  "mw_put f w =
     (case f (drop (mw_pos w) (mw_out w)) of (tail, n, ok) \<Rightarrow>
        w\<lparr>mw_out := take (mw_pos w) (mw_out w) @ tail, mw_pos := mw_pos w + n,
          mw_full := mw_full w \<or> \<not> ok\<rparr>)"

definition mw_push :: "cbor2 \<Rightarrow> Header \<Rightarrow> MapWriter \<Rightarrow> MapWriter" where
  "mw_push C h = mw_put (push C h)"

definition mw_write :: "cbor2 \<Rightarrow> bytes \<Rightarrow> MapWriter \<Rightarrow> MapWriter" where
  "mw_write C bytes = mw_put (write_all C bytes)"

definition mw_new :: "cbor2 \<Rightarrow> bytes \<Rightarrow> nat \<Rightarrow> MapWriter" where
  "mw_new C tail pairs = mw_push C (Map (Some pairs)) \<lparr>mw_out = tail, mw_pos = 0, mw_full = False\<rparr>"

definition mw_text :: "cbor2 \<Rightarrow> bytes \<Rightarrow> MapWriter \<Rightarrow> MapWriter" where
  "mw_text C text w = mw_write C text (mw_push C (Text (Some (length text))) w)"

definition mw_uint :: "cbor2 \<Rightarrow> bytes \<Rightarrow> u64 \<Rightarrow> MapWriter \<Rightarrow> MapWriter" where
  "mw_uint C key value w = mw_push C (Positive value) (mw_text C key w)"

definition mw_positive :: "cbor2 \<Rightarrow> u64 \<Rightarrow> MapWriter \<Rightarrow> MapWriter" where
  "mw_positive C value = mw_push C (Positive value)"

definition mw_map :: "cbor2 \<Rightarrow> nat \<Rightarrow> MapWriter \<Rightarrow> MapWriter" where
  "mw_map C len = mw_push C (Map (Some len))"

text \<open>Floats by their bits.\<close>

definition mw_float :: "cbor2 \<Rightarrow> u32 \<Rightarrow> MapWriter \<Rightarrow> MapWriter" where
  "mw_float C bits w = mw_write C (to_be 4 bits) (mw_write C [0xfa] w)"

definition mw_double :: "cbor2 \<Rightarrow> u64 \<Rightarrow> MapWriter \<Rightarrow> MapWriter" where
  "mw_double C bits w = mw_write C (to_be 8 bits) (mw_write C [0xfb] w)"

definition mw_bytes_head :: "cbor2 \<Rightarrow> nat \<Rightarrow> MapWriter \<Rightarrow> MapWriter" where
  "mw_bytes_head C len = mw_push C (Bytes (Some len))"

definition encode_map ::
  "cbor2 \<Rightarrow> bytes \<Rightarrow> nat \<Rightarrow> (MapWriter \<Rightarrow> MapWriter) \<Rightarrow> bytes \<times> (CborError, nat) result" where
  "encode_map C out pairs body =
     (let w = body (mw_new C out pairs) in
      (mw_out w, if mw_full w then Err OutOfMemory else Ok (mw_pos w)))"

section \<open>The steps of a decoder\<close>

text \<open>\<open>?\<close> in a method that has updated \<open>self\<close> to \<open>s\<close>: an error is returned with it.\<close>

definition attempt ::
  "('e, 'a) result option \<Rightarrow> 's \<Rightarrow> ('a \<Rightarrow> ('s \<times> ('e, 'b) result) option) \<Rightarrow> ('s \<times> ('e, 'b) result) option" where
  "attempt m s k = do { r \<leftarrow> m; (case r of Err e \<Rightarrow> Some (s, Err e) | Ok x \<Rightarrow> k x) }"

definition attempt_step ::
  "'a stepped \<Rightarrow> 's \<Rightarrow> (Value \<Rightarrow> 'a \<Rightarrow> ('s \<times> (CborError, 'b) result) option) \<Rightarrow>
     ('s \<times> (CborError, 'b) result) option" where
  "attempt_step m s k = do { (v, r) \<leftarrow> m; (case r of Err e \<Rightarrow> Some (s, Err e) | Ok x \<Rightarrow> k v x) }"

definition enter_map :: "nat \<Rightarrow> bytes \<Rightarrow> nat \<Rightarrow> (CborError, Value \<times> Value) result option" where
  "enter_map um buf pairs = do {
     r \<leftarrow> cbor_parse buf;
     (case r of Err e \<Rightarrow> Some (Err e) | Ok m \<Rightarrow> do {
       r \<leftarrow> validate_basic um m;
       (case r of Err e \<Rightarrow> Some (Err e) | Ok _ \<Rightarrow>
         if \<not> is_map m then Some (Err IllegalType)
         else do {
           r \<leftarrow> map_length um m;
           (case r of Err e \<Rightarrow> Some (Err e) | Ok n \<Rightarrow>
             if n \<noteq> pairs then Some (Err UnknownLength)
             else do {
               r \<leftarrow> enter_container m;
               Some (case r of Err e \<Rightarrow> Err e | Ok value \<Rightarrow> Ok (m, value)) }) }) }) }"

definition skip_key :: "nat \<Rightarrow> Value \<Rightarrow> unit stepped" where
  "skip_key um value = (if \<not> is_text_string value then Some (value, Err IllegalType) else advance um value)"

definition leave_map :: "Value \<Rightarrow> Value \<Rightarrow> unit stepped" where
  "leave_map m value = and_then (leave_container m value) (\<lambda>m _.
     Some (m, if \<not> at_end m then Err GarbageAtEnd else Ok ()))"

text \<open>The three lines \<open>skip_key(&mut value)?; self.x = value.extract(); value.advance()?;\<close> of the
  decoders, with what is assigned as \<open>upd\<close>.\<close>

definition take_uint ::
  "nat \<Rightarrow> Value \<Rightarrow> 's \<Rightarrow> (u64 \<Rightarrow> 's \<Rightarrow> 's) \<Rightarrow> (Value \<Rightarrow> 's \<Rightarrow> ('s \<times> (CborError, 'b) result) option) \<Rightarrow>
     ('s \<times> (CborError, 'b) result) option" where
  "take_uint um value s upd k =
     attempt_step (skip_key um value) s (\<lambda>value _. do {
       n \<leftarrow> value_extract value;
       let s = upd n s;
       attempt_step (advance um value) s (\<lambda>value _. k value s) })"

section \<open>What a writer has written\<close>

text \<open>\<open>wrote out bs w\<close>: \<open>w\<close> started on the buffer \<open>out\<close> and was given the bytes \<open>bs\<close>.\<close>

definition wrote :: "bytes \<Rightarrow> bytes \<Rightarrow> MapWriter \<Rightarrow> bool" where
  "wrote out bs w \<longleftrightarrow> length (mw_out w) = length out \<and> mw_pos w \<le> length out \<and>
     (if length bs \<le> length out
      then \<not> mw_full w \<and> mw_pos w = length bs \<and> mw_out w = put out 0 bs
      else mw_full w)"

lemma wrote_start: "wrote out [] \<lparr>mw_out = out, mw_pos = 0, mw_full = False\<rparr>"
  by (simp add: wrote_def put_def)

lemma wrote_put:
  assumes f: "writes f xs" and w: "wrote out bs w"
  shows "wrote out (bs @ xs) (mw_put f w)"
proof -
  let ?t = "drop (mw_pos w) (mw_out w)"
  have len: "length ?t = length out - mw_pos w" using w by (simp add: wrote_def)
  show ?thesis
  proof (cases "length xs \<le> length ?t")
    case True
    then have "f ?t = (put ?t 0 xs, length xs, True)" using f by (simp add: writes_def)
    then show ?thesis using True w len
      by (cases "length bs \<le> length out") (auto simp: wrote_def mw_put_def put_def add.commute)
  next
    case False
    then have "\<not> snd (snd (f ?t)) \<and> fst (snd (f ?t)) \<le> length ?t \<and> length (fst (f ?t)) = length ?t"
      using f unfolding writes_def by (meson not_le_imp_less)
    then obtain tail n where "f ?t = (tail, n, False)" "n \<le> length ?t" "length tail = length ?t"
      by (cases "f ?t") auto
    then show ?thesis using False w len
      by (auto simp: wrote_def mw_put_def split: if_splits)
  qed
qed

named_theorems written \<open>what each operation of the map writer adds\<close>

lemma wrote_push [written]: "cbor2_ok C \<Longrightarrow> wrote out bs w \<Longrightarrow> wrote out (bs @ rfc_head h) (mw_push C h w)"
  by (simp add: mw_push_def wrote_put cbor2_ok_def)

lemma wrote_write [written]: "cbor2_ok C \<Longrightarrow> wrote out bs w \<Longrightarrow> wrote out (bs @ xs) (mw_write C xs w)"
  by (simp add: mw_write_def wrote_put cbor2_ok_def)

definition text_bytes :: "bytes \<Rightarrow> bytes" where
  "text_bytes t = rfc_head (Text (Some (length t))) @ t"

lemma wrote_text [written]:
  assumes C: "cbor2_ok C" and w: "wrote out bs w"
  shows "wrote out (bs @ text_bytes t) (mw_text C t w)"
  using wrote_write [OF C wrote_push [OF C w, of "Text (Some (length t))"], of t] by (simp add: mw_text_def text_bytes_def)

lemma wrote_uint [written]:
  assumes C: "cbor2_ok C" and w: "wrote out bs w"
  shows "wrote out (bs @ text_bytes key @ rfc_head (Positive n)) (mw_uint C key n w)"
  using wrote_push [OF C wrote_text [OF C w, of key], of "Positive n"] by (simp add: mw_uint_def)

lemma wrote_positive [written]:
  "cbor2_ok C \<Longrightarrow> wrote out bs w \<Longrightarrow> wrote out (bs @ rfc_head (Positive n)) (mw_positive C n w)"
  unfolding mw_positive_def by (rule wrote_push)

lemma wrote_map [written]:
  "cbor2_ok C \<Longrightarrow> wrote out bs w \<Longrightarrow> wrote out (bs @ rfc_head (Map (Some n))) (mw_map C n w)"
  unfolding mw_map_def by (rule wrote_push)

lemma wrote_bytes_head [written]:
  "cbor2_ok C \<Longrightarrow> wrote out bs w \<Longrightarrow> wrote out (bs @ rfc_head (Bytes (Some n))) (mw_bytes_head C n w)"
  unfolding mw_bytes_head_def by (rule wrote_push)

lemma wrote_float [written]:
  assumes C: "cbor2_ok C" and w: "wrote out bs w"
  shows "wrote out (bs @ 0xfa # to_be 4 b) (mw_float C b w)"
  using wrote_write [OF C wrote_write [OF C w, of "[0xfa]"], of "to_be 4 b"] by (simp add: mw_float_def)

lemma wrote_double [written]:
  assumes C: "cbor2_ok C" and w: "wrote out bs w"
  shows "wrote out (bs @ 0xfb # to_be 8 b) (mw_double C b w)"
  using wrote_write [OF C wrote_write [OF C w, of "[0xfb]"], of "to_be 8 b"] by (simp add: mw_double_def)

lemma wrote_new: "cbor2_ok C \<Longrightarrow> wrote out (rfc_head (Map (Some n))) (mw_new C out n)"
  using wrote_push [OF _ wrote_start, of C out "Map (Some n)"] by (simp add: mw_new_def)

definition map_bytes :: "nat \<Rightarrow> bytes list \<Rightarrow> bytes" where
  "map_bytes n items = rfc_head (Map (Some n)) @ concat items"

text \<open>The outcome of writing \<open>b\<close> to the front of \<open>out\<close>, or of finding that it does not fit.\<close>

definition encoded :: "bytes \<Rightarrow> bytes \<Rightarrow> bytes \<times> (CborError, nat) result \<Rightarrow> bool" where
  "encoded b out res \<longleftrightarrow>
     (if length b \<le> length out then res = (put out 0 b, Ok (length b))
      else snd res = Err OutOfMemory \<and> length (fst res) = length out)"

text \<open>So a body that writes some items gives the map of them.\<close>

lemma encode_map_eq:
  assumes C: "cbor2_ok C" and body: "\<And>w xs. wrote out xs w \<Longrightarrow> wrote out (xs @ concat items) (body w)"
  shows "encoded (map_bytes pairs items) out (encode_map C out pairs body)"
  using body [OF wrote_new [OF C, of out pairs]] unfolding map_bytes_def [symmetric]
  by (cases "length (map_bytes pairs items) \<le> length out") (auto simp: encode_map_def encoded_def wrote_def Let_def)

section \<open>Reading a row of items\<close>

text \<open>\<open>reading um v items r\<close>: the bytes at \<open>v\<close> are these items, then \<open>r\<close>, and \<open>v\<close> is on the first
  of them, or at the end.\<close>

definition reading :: "nat \<Rightarrow> Value \<Rightarrow> bytes list \<Rightarrow> bytes \<Rightarrow> bool" where
  "reading um v items r \<longleftrightarrow> v_at v 0 = concat items @ r \<and> v_remaining v = of_nat (length items) \<and>
     length items < 2 ^ 32 - 1 \<and> (\<forall>b \<in> set items. cbor_item um 9 b) \<and>
     (if items = [] then v_ty v = INVALID \<and> is_length_known v else on_head v)"

lemma items_head:
  assumes "\<forall>b \<in> set items. cbor_item um 9 b" "items \<noteq> []"
  shows "head_ok (concat items @ r)" "head_ty (hd (concat items @ r)) \<noteq> TAG"
proof -
  obtain b bs where i: "items = b # bs" using assms(2) by (cases items) auto
  then have "b \<noteq> []" "head_ok (b @ concat bs @ r)" "head_ty (hd b) \<noteq> TAG"
    using item_head [of um 9 b "concat bs @ r"] assms(1) by auto
  then show "head_ok (concat items @ r)" "head_ty (hd (concat items @ r)) \<noteq> TAG"
    using i by (auto simp: hd_append)
qed

lemma reading_on_head: "reading um v (b # bs) r \<Longrightarrow> on_head v \<and> v_ty v \<noteq> TAG \<and> v_ty v = head_ty (hd b) \<and>
    cbor_item um 9 b \<and> v_at v 0 = b @ concat bs @ r"
  using items_head(2) [of "b # bs" um r] on_head_ty [of v] item_head [of um 9 b "[]"]
  by (auto simp: reading_def)

text \<open>Behind an item, the next head is read, or the end is reached.\<close>

lemma reading_behind:
  assumes v: "reading um v (b # bs) r" and u: "behind v (length b) u"
  shows "\<exists>w. preparse_next_value u = Some (w, Ok ()) \<and> reading um w bs r \<and> v_buf w = v_buf v"
proof -
  have ty: "v_ty u \<noteq> TAG" using reading_on_head [OF v] u unfolding behind_def by metis
  have rem: "v_remaining u = of_nat (Suc (length bs))" "Suc (length bs) < 2 ^ 32 - 1"
    using v u by (simp_all add: reading_def behind_def)
  have at: "v_at u 0 = concat bs @ r"
    using v_at_add [of v b "concat bs @ r"] reading_on_head [OF v] u by (simp add: behind_def v_at_def)
  note bits = of_nat_u32 [OF rem(2)]
  show ?thesis
  proof (cases "bs = []")
    case True
    then have "v_remaining u = 1" using rem(1) by simp
    then have "preparse_next_value u =
        Some (u\<lparr>v_remaining := 0, v_flags := v_flags u AND NOT UNKNOWN_LENGTH, v_ty := INVALID\<rparr>, Ok ())"
      using preparse_next_end ty by blast
    then show ?thesis using True at u
      by (simp add: reading_def v_at_def behind_def is_length_known_def and.assoc)
  next
    case False
    have one: "v_remaining u \<noteq> 1" "v_remaining u \<noteq> - 1" using False rem(1) bits by auto
    have items: "\<forall>b \<in> set bs. cbor_item um 9 b" using v by (simp add: reading_def)
    have hd: "head_ok (v_at (count_item u) 0)" using items_head(1) [OF items False, of r] at by simp
    have "preparse_next_value u = Some (load_head (count_item u), Ok ())"
      using preparse_next_more [OF ty one(1)] nodecrement_head [OF hd] by simp
    moreover have "v_remaining (count_item u) = of_nat (length bs)"
      using one(2) rem(1) bits(4) by (simp add: count_item_def)
    ultimately show ?thesis
      using False items rem(2) at u on_head_load [OF hd] by (simp add: reading_def behind_def)
  qed
qed

text \<open>Stepping over an item.\<close>

lemma reading_advance:
  assumes v: "reading um v (b # bs) r"
  shows "\<exists>w. advance um v = Some (w, Ok ()) \<and> reading um w bs r \<and> v_buf w = v_buf v"
proof -
  note h = reading_on_head [OF v]
  have "cbor_item um MAX_RECURSIONS b"
    using cbor_item_mono(1) [of um 9 b 1] h by (simp add: MAX_RECURSIONS_def)
  then obtain u where u: "behind v (length b) u"
    "outcome (advance_recursive um MAX_RECURSIONS v) = outcome (preparse_next_value u)"
    using elems_run(1) h unfolding stepped_over_def by blast
  obtain w where w: "preparse_next_value u = Some (w, Ok ())" "reading um w bs r" "v_buf w = v_buf v"
    using reading_behind [OF v u(1)] by blast
  have "v_remaining v \<noteq> 0" using v of_nat_u32(2) [of "length bs"] by (simp add: reading_def)
  then have "advance um v = advance_recursive um MAX_RECURSIONS v"
    using h on_head_readable(2) [of v] unfolding advance_def by argo
  then have "advance um v = Some (w, Ok ())" using u(2) w(1) by (metis outcome_Ok)
  then show ?thesis using w by blast
qed

lemma elems_of_items:
  "\<forall>b \<in> set items. cbor_item um n b \<Longrightarrow> cbor_elems um n (length items) (concat items)"
  by (induction items) (auto intro: none more)

lemma head_ty_written:
  "m = TEXT_STRING \<or> m = BYTE_STRING \<or> m = MAP \<or> m = INTEGER \<Longrightarrow> head_ty (hd (shortest_head m n)) = m"
  using shortest_head_ty(1) [of m n] by (auto simp: is_major_def cbor_consts)

lemma negative_flag: "v_flags (load_head v) AND NEGATIVE_INTEGER = 0 \<longleftrightarrow> hd (v_at v 0) AND 0xe0 \<noteq> 0x20"
  by (simp add: load_head_def Let_def cbor_flags bit.conj_disj_distrib2 and.assoc)

text \<open>Entering the map and leaving it.\<close>

lemma start_map:
  assumes items: "\<forall>b \<in> set items. cbor_item um 9 b" "length items = 2 * n" "2 * n < 2 ^ 32 - 1"
    and buf: "buf = rfc_head (Map (Some n)) @ concat items @ r"
  shows "cbor_parse buf = Some (Ok (start_value buf))" "validate_basic um (start_value buf) = Some (Ok ())"
    "on_head (start_value buf)" "v_remaining (start_value buf) = 1" "v_at (start_value buf) 0 = buf"
    "v_ty (start_value buf) = MAP" "value_extract (start_value buf) = Some (of_nat n)"
proof -
  have h: "is_head (rfc_head (Map (Some n)))" "hd (rfc_head (Map (Some n))) AND 0xe0 = MAP"
    "head_arg (rfc_head (Map (Some n))) = of_nat n" "rfc_head (Map (Some n)) \<noteq> []"
    using shortest_head [of MAP "of_nat n"] by simp_all
  have "cbor_elems um 9 (2 * n) (concat items)" using elems_of_items [OF items(1)] items(2) by simp
  then have item: "cbor_item um MAX_RECURSIONS (rfc_head (Map (Some n)) @ concat items)"
    using map_item [of um 9 n "concat items", OF _ items(3)] by (simp add: MAX_RECURSIONS_def)
  note a = item_accepted [OF item, of buf r]
  show "cbor_parse buf = Some (Ok (start_value buf))" "on_head (start_value buf)"
    "v_remaining (start_value buf) = 1" "v_at (start_value buf) 0 = buf"
    using a(1,2,3,4) buf by simp_all
  show "validate_basic um (start_value buf) = Some (Ok ())"
    using a(5) buf by (auto simp: validate_basic_def)
  have "hd buf = hd (rfc_head (Map (Some n)))" using h(4) buf by (metis hd_append2)
  then show "v_ty (start_value buf) = MAP"
    using on_head_ty [of "start_value buf"] a(2,4) buf h(2) head_ty_of_major [OF h(2)]
    by (simp add: cbor_consts)
  show "value_extract (start_value buf) = Some (of_nat n)"
    using extract_head [OF a(2) h(1)] a(4) buf h(2,3) by (simp add: cbor_consts)
qed

lemma enter_reading:
  assumes items: "\<forall>b \<in> set items. cbor_item um 9 b" "length items = 2 * n" "2 * n < 2 ^ 32 - 1"
    and v: "on_head v" "v_at v 0 = rfc_head (Map (Some n)) @ concat items @ r"
  shows "is_map v" "is_length_known v"
    "\<exists>w. enter_container v = Some (Ok w) \<and> reading um w items r \<and> v_buf w = v_buf v"
proof -
  let ?h = "rfc_head (Map (Some n))"
  have h: "is_head ?h" "head_ty (hd ?h) = MAP" "head_arg ?h = of_nat n"
    using shortest_head [of MAP "of_nat n"] head_ty_written by simp_all
  have un: "unat (of_nat n :: u64) = n" using items(3) by (simp add: unat_of_nat_64)
  have k: "2 * n = unat (head_arg ?h) * (if MAP = MAP then 2 else 1)" using h(3) un by simp
  note e = enter_counted [OF v(1) h(1) _ h(2) k items(3) v(2)]
  let ?u = "v\<lparr>v_pos := v_pos v + length ?h, v_remaining := of_nat (2 * n)\<rparr>"
  show "is_map v" using e(2) by (simp add: is_map_def)
  show known: "is_length_known v" using e(3) by simp
  have at': "v_at ?u 0 = concat items @ r" using v_at_add [OF v(2)] by (simp add: v_at_def)
  show "\<exists>w. enter_container v = Some (Ok w) \<and> reading um w items r \<and> v_buf w = v_buf v"
  proof (cases "n = 0")
    case True
    then have "enter_container v = Some (Ok (?u\<lparr>v_ty := INVALID\<rparr>))" using e(4) by simp
    then show ?thesis using True items at' known
      by (simp add: reading_def v_at_def is_length_known_def)
  next
    case False
    let ?x = "?u\<lparr>v_flags := v_ty ?u AND CONTAINER_IS_MAP\<rparr>"
    have ne: "items \<noteq> []" using False items(2) by auto
    have at'': "v_at ?x 0 = concat items @ r" using at' by (simp add: v_at_def)
    then have ok: "head_ok (v_at ?x 0)" using items_head(1) [OF items(1) ne] by simp
    have "enter_container v = enter_items ?u" using e(4) False by simp
    then have "enter_container v = Some (Ok (load_head ?x))"
      using nodecrement_head [OF ok] by (simp add: enter_items_def)
    moreover have "reading um (load_head ?x) items r" unfolding reading_def
      using at'' items ne on_head_load [OF ok] by (simp del: One_nat_def)
    ultimately show ?thesis by auto
  qed
qed

lemma enter_map_reading:
  assumes items: "\<forall>b \<in> set items. cbor_item um 9 b" "length items = 2 * n" "2 * n < 2 ^ 32 - 1"
    and buf: "buf = rfc_head (Map (Some n)) @ concat items @ r" and um: "n \<le> um"
  shows "\<exists>w. enter_map um buf n = Some (Ok (start_value buf, w)) \<and> reading um w items r \<and> v_buf w = buf"
proof -
  let ?v = "start_value buf"
  note s = start_map [OF items buf]
  have at: "v_at ?v 0 = rfc_head (Map (Some n)) @ concat items @ r" using s(5) buf by simp
  note e = enter_reading [OF items s(3) at]
  have "map_length um ?v = Some (Ok n)"
    using e(1,2) s(7) um items(3) by (simp add: map_length_def usize_of_def unat_of_nat_64)
  moreover have "v_buf ?v = buf" by (simp add: start_value_def)
  ultimately show ?thesis using s(1,2) e(1,3) by (auto simp: enter_map_def)
qed

lemma leave_map_reading:
  assumes w: "reading um w [] r" and v: "v_ty v = MAP" "v_remaining v = 1"
  shows "\<exists>m. leave_map v w = Some (m, Ok ())"
proof -
  let ?u = "v\<lparr>v_pos := v_pos w\<rparr>"
  have "leave_container v w = preparse_next_value ?u"
    using w v by (simp add: reading_def leave_container_def is_container_def is_length_known_def)
  then show ?thesis using preparse_next_end [of ?u] v
    by (simp add: leave_map_def and_then_def at_end_def MAP_def TAG_def)
qed

section \<open>Reading the values written\<close>

lemma text_bytes_item:
  assumes "length t \<le> um" "length t < 2 ^ 64"
  shows "cbor_item um d (text_bytes t)" "head_ty (hd (text_bytes t)) = TEXT_STRING"
    "string_item um TEXT_STRING [t] (text_bytes t)"
proof -
  show "cbor_item um d (text_bytes t)" "string_item um TEXT_STRING [t] (text_bytes t)"
    using text_item [of TEXT_STRING t um d] string_item_written [of TEXT_STRING t um] assms
    by (simp_all add: text_bytes_def)
  have "shortest_head TEXT_STRING (of_nat (length t)) \<noteq> []" by (rule shortest_head(5)) simp
  then show "head_ty (hd (text_bytes t)) = TEXT_STRING"
    using head_ty_written [of TEXT_STRING] by (simp add: text_bytes_def)
qed

lemma skip_key_reading:
  assumes v: "reading um v (text_bytes t # bs) r" and t: "length t \<le> um" "length t < 2 ^ 64"
  shows "\<exists>w. skip_key um v = Some (w, Ok ()) \<and> reading um w bs r \<and> v_buf w = v_buf v"
  using reading_advance [OF v] reading_on_head [OF v] text_bytes_item(2) [OF t]
  by (simp add: skip_key_def is_text_string_def)

lemma uint_reading:
  assumes v: "reading um v (rfc_head (Positive n) # bs) r"
  shows "value_extract v = Some n" "is_unsigned_integer v"
proof -
  let ?h = "rfc_head (Positive n)"
  have h: "is_head ?h" "hd ?h AND 0xe0 = INTEGER" "head_arg ?h = n" "?h \<noteq> []"
    using shortest_head [of INTEGER n] by simp_all
  have o: "on_head v" "v_at v 0 = ?h @ concat bs @ r" "v_ty v = head_ty (hd ?h)"
    using reading_on_head [OF v] by simp_all
  show "value_extract v = Some n"
    using extract_head [OF o(1) h(1) o(2)] h(2,3) by (simp add: cbor_consts)
  have "hd (v_at v 0) = hd ?h" using o(2) h(4) by (metis hd_append2)
  then have "v_flags v AND NEGATIVE_INTEGER = 0"
    using o(1) h(2) negative_flag [of v] by (simp add: on_head_def INTEGER_def)
  then show "is_unsigned_integer v"
    using o(3) head_ty_written [of INTEGER n] by (simp add: is_unsigned_integer_def)
qed

lemma string_reading:
  assumes v: "reading um v (b # bs) r" and b: "string_item um ty [c] b" "ty = TEXT_STRING \<or> ty = BYTE_STRING"
  shows "\<exists>w. iterate_string um v buflen copy s =
    (case (if length c \<le> buflen then copy 0 c s else Some s) of None \<Rightarrow> None
     | Some s' \<Rightarrow> Some (s', Ok (\<lparr>cp_total = length c, cp_all = (length c \<le> buflen), cp_nul = (length c < buflen)\<rparr>, w)))"
proof -
  have o: "on_head v" "v_at v 0 = b @ concat bs @ r" using reading_on_head [OF v] by simp_all
  obtain u where u: "behind v (length b) u"
    "iterate_string um v buflen copy s = string_result buflen copy [c] s u"
    using iterate_string_item [OF o(1) b(1) o(2) b(2), of buflen copy s] by blast
  obtain w where "preparse_next_value u = Some (w, Ok ())" using reading_behind [OF v u(1)] by blast
  moreover have "feed copy buflen 0 True [c] s =
      (case (if length c \<le> buflen then copy 0 c s else Some s) of None \<Rightarrow> None
       | Some s' \<Rightarrow> Some (s', length c, length c \<le> buflen))"
    by (cases "copy 0 c s") auto
  ultimately show ?thesis unfolding u(2) string_result_def
    by (intro exI [of _ w]) (simp split: option.split)
qed

section \<open>No step panics\<close>

text \<open>\<open>owed v n\<close>: at least \<open>n\<close> more items can be stepped over before the end of the map.\<close>

definition owed :: "Value \<Rightarrow> nat \<Rightarrow> bool" where
  "owed v n \<longleftrightarrow> live v \<and> n \<le> unat (v_remaining v) \<and> v_remaining v \<noteq> - 1"

lemma owed_head: "owed v (Suc n) \<Longrightarrow> on_head v"
  by (auto simp: owed_def live_def split: if_splits)

lemma preparse_next_counts:
  assumes "preparse_next_value u = Some (w, Ok ())" "v_remaining u \<noteq> - 1" "v_remaining u \<noteq> 0"
  shows "v_remaining w = v_remaining u \<or> v_remaining w = v_remaining u - 1"
proof (cases u rule: preparse_next_cases)
  case tag
  then show ?thesis
    using assms preparse_value_on_head [of u w]
    by (simp add: preparse_next_value_nodecrement_def place_kept_def)
next
  case last_item
  then show ?thesis using assms by auto
next
  case more
  have "v_remaining (count_item u) \<noteq> - 1"
  proof
    assume "v_remaining (count_item u) = - 1"
    then have "v_remaining u - 1 = - 1" using assms(2) by (simp add: count_item_def)
    then show False using assms(3) by (metis diff_add_cancel add.left_inverse)
  qed
  then have "preparse_value (count_item u) = Some (w, Ok ())"
    using more assms(1) by (simp add: preparse_next_value_nodecrement_def)
  then show ?thesis using preparse_value_on_head assms(2)
    by (auto simp: place_kept_def count_item_def)
qed

text \<open>However an item is stepped over, the next head is read from a value of the same container.\<close>

lemma advance_recursive_ends:
  assumes v: "on_head v" and ok: "advance_recursive um n v = Some (w, Ok ())"
  shows "\<exists>u. v_remaining u = v_remaining v \<and> preparse_next_value u = Some (w, Ok ())"
proof -
  consider (fixed) "is_fixed_type (v_ty v)"
    | (str) "\<not> is_fixed_type (v_ty v)" "\<not> is_container v"
    | (cont) m where "\<not> is_fixed_type (v_ty v)" "is_container v" "n = Suc m"
    using ok by (cases n) (auto simp: advance_recursive.simps [of um 0] split: if_splits)
  then show ?thesis
  proof cases
    case fixed
    then have "preparse_next_value (v\<lparr>v_pos := v_pos v + head_len (hd (v_at v 0))\<rparr>) = Some (w, Ok ())"
      using ok advance_internal_eq [OF on_head_readable(1) [OF v]]
      by (simp add: advance_recursive.simps [of um n])
    then show ?thesis by (intro exI [of _ "v\<lparr>v_pos := v_pos v + head_len (hd (v_at v 0))\<rparr>"]) simp
  next
    case str
    have copy: "copier_ok um copy_nothing" by (simp add: copier_ok_def copy_nothing_def)
    obtain s y where y: "iterate_string um v um copy_nothing () = Some (s, y)"
      using iterate_string_total [OF v copy] by blast
    have "advance_recursive um n v = Some (case y of Err e \<Rightarrow> (v, Err e) | Ok (_, w) \<Rightarrow> (w, Ok ()))"
      using advance_recursive_string [OF str y] .
    then obtain c where it: "iterate_string um v um copy_nothing () = Some (s, Ok (c, w))"
      using ok y by (auto split: result.splits prod.splits)
    define u where "u = v\<lparr>v_flags := v_flags v OR (ITERATING_STRING_CHUNKS OR BEFORE_FIRST_STRING_CHUNK)\<rparr>"
    define u' where "u' = (if \<not> is_length_known u then u\<lparr>v_pos := v_pos u + 1\<rparr> else u)"
    have rem: "v_remaining u' = v_remaining v" by (simp add: u'_def u_def)
    obtain s' q where l: "chunk_loop um um copy_nothing u' 0 True () = Some (s', q)"
      "\<And>x t a. q = Ok (x, t, a) \<Longrightarrow> moved u' x"
      using chunk_loop_total [OF copy] by blast
    have str': "is_text_string v \<or> is_byte_string v"
      using it by (auto simp: iterate_string_def split: if_splits)
    obtain x t a where q: "q = Ok (x, t, a)"
      "preparse_next_value (if \<not> is_length_known x then x\<lparr>v_pos := v_pos x + 1\<rparr> else x) = Some (w, Ok ())"
      using it l(1) str' unfolding iterate_string_def Let_def u_def [symmetric] u'_def [symmetric]
      by (cases q) (auto simp: bind_eq_Some_conv split: result.splits)
    have "v_remaining x = v_remaining v" using l(2) [OF q(1)] rem by (simp add: moved_def)
    then show ?thesis using q(2)
      by (intro exI [of _ "if \<not> is_length_known x then x\<lparr>v_pos := v_pos x + 1\<rparr> else x"]) auto
  next
    case cont
    obtain y where "enter_container v = Some y" using enter_container_total [OF v] by blast
    then obtain x where "leave_container v x = Some (w, Ok ())"
      using ok cont
      by (cases y; subst (asm) advance_recursive.simps) (auto simp: bind_eq_Some_conv split: result.splits)
    then have "preparse_next_value (v\<lparr>v_pos := v_pos x + (if v_flags x AND UNKNOWN_LENGTH \<noteq> 0 then 1 else 0)\<rparr>) =
        Some (w, Ok ())" by (simp add: leave_container_def split: if_splits)
    then show ?thesis
      by (intro exI [of _ "v\<lparr>v_pos := v_pos x + (if v_flags x AND UNKNOWN_LENGTH \<noteq> 0 then 1 else 0)\<rparr>"]) simp
  qed
qed

lemma owed_advance:
  assumes v: "owed v (Suc n)"
  shows "\<exists>w r. advance um v = Some (w, r) \<and> (r = Ok () \<longrightarrow> owed w n \<and> v_buf w = v_buf v)"
proof -
  have o: "on_head v" using owed_head [OF v] .
  have nz: "v_remaining v \<noteq> 0" "v_remaining v \<noteq> - 1" "Suc n \<le> unat (v_remaining v)" using v by (auto simp: owed_def)
  obtain w r where a: "advance um v = Some (w, r)" "r = Ok () \<Longrightarrow> passes v w \<and> live w"
    using advance_total [of v um] o unfolding sound_def by blast
  have "owed w n \<and> v_buf w = v_buf v" if ok: "r = Ok ()"
  proof -
    have "advance_recursive um MAX_RECURSIONS v = Some (w, Ok ())"
      using a(1) ok by (simp add: advance_def split: if_splits)
    then obtain u where u: "v_remaining u = v_remaining v" "preparse_next_value u = Some (w, Ok ())"
      using advance_recursive_ends [OF o] by blast
    then have "v_remaining w = v_remaining v \<or> v_remaining w = v_remaining v - 1"
      using preparse_next_counts [of u w] nz by simp
    moreover have "unat (v_remaining v - 1) = unat (v_remaining v) - 1" using nz(1) by (rule unat_minus_one)
    moreover have "v_remaining v - 1 \<noteq> - 1" using nz(1) by (metis diff_add_cancel add.left_inverse)
    ultimately show ?thesis using a(2) [OF ok] nz by (auto simp: owed_def passes_def)
  qed
  then show ?thesis using a(1) by blast
qed

lemma enter_map_owed:
  "\<exists>x. enter_map um buf n = Some x \<and> (\<forall>m w. x = Ok (m, w) \<longrightarrow> owed w (2 * n) \<and> v_buf w = buf)"
proof -
  obtain x where x: "cbor_parse buf = Some x" "\<And>m. x = Ok m \<Longrightarrow> v_buf m = buf \<and> on_head m \<and> live m"
    using cbor_parse_total [of buf] by blast
  show ?thesis
  proof (cases x)
    case (Err e)
    then show ?thesis using x(1) by (simp add: enter_map_def)
  next
    case (Ok m)
    have m: "on_head m" "v_buf m = buf" using x(2) [OF Ok] by simp_all
    obtain y z where y: "advance um m = Some (y, z)" using advance_total [OF live_sound] x(2) [OF Ok] by blast
    have valid: "validate_basic um m = Some z" using y by (simp add: validate_basic_def)
    obtain len where len: "value_extract m = Some len" using extract_readable on_head_readable(1) [OF m(1)] by blast
    obtain c where c: "enter_container m = Some c" "\<And>w. c = Ok w \<Longrightarrow> within m w"
      using enter_container_total [OF m(1)] by blast
    have "owed w (2 * n)" if map: "is_map m" "is_length_known m" "usize_of um len = Ok n" and cw: "c = Ok w" for w
    proof -
      have n: "unat len = n" using map(3) by (simp add: usize_of_def split: if_splits)
      obtain u where u: "extract_number_and_advance m = Some (u, len)" "v_ty u = v_ty m"
        using extract_advance [OF on_head_readable(1) [OF m(1)]] len
        by (auto simp: extract_number_and_advance_def bind_eq_Some_conv)
      let ?r = "ucast len :: u32"
      let ?t = "u\<lparr>v_remaining := ?r * 2\<rparr>"
      have ok: "ucast ?r = len" "\<not> (- 1) div 2 < ?r"
        and e: "(if len = 0 then Some (Ok (?t\<lparr>v_ty := INVALID\<rparr>)) else enter_items ?t) = Some (Ok w)"
        using c(1) cw u map(1,2) unfolding enter_container_def is_map_def is_container_def is_length_known_def
        by (auto simp: Let_def split: if_splits)
      have "unat ?r < 2 ^ LENGTH(32)" by (rule unsigned_less)
      then have "unat (ucast ?r :: u64) = unat ?r" by (simp add: unsigned_ucast_eq unsigned_take_bit_eq take_bit_nat_eq_self)
      then have r: "unat ?r = n" using n ok(1) by simp
      then have small: "n \<le> 2147483647" using ok(2) by (simp add: word_less_nat_alt)
      then have twice: "unat (?r * 2) = 2 * n" using r by (simp add: unat_word_ariths)
      then have odd: "?r * 2 \<noteq> - 1"
        using small by (auto simp: word_unat_eq_iff unsigned_minus_1_eq_mask mask_eq_exp_minus_1)
      have "v_remaining w = ?r * 2"
      proof (cases "len = 0")
        case True
        then show ?thesis using e by auto
      next
        case False
        let ?x = "?t\<lparr>v_flags := v_ty ?t AND CONTAINER_IS_MAP\<rparr>"
        have "preparse_next_value_nodecrement ?x = Some (w, Ok ())"
          using e False by (auto simp: enter_items_def bind_eq_Some_conv split: result.splits)
        then have "preparse_value ?x = Some (w, Ok ())"
          using odd by (simp add: preparse_next_value_nodecrement_def)
        then show ?thesis using preparse_value_on_head [of ?x w] by (simp add: place_kept_def)
      qed
      then show ?thesis using c(2) [OF cw] twice odd by (simp add: owed_def within_def)
    qed
    then show ?thesis using x(1) Ok valid len c m(2)
      by (cases z; cases "usize_of um len"; cases c)
        (auto simp: enter_map_def map_length_def within_def)
  qed
qed

lemma attempt_map_total:
  assumes k: "\<And>m w. owed w (2 * n) \<Longrightarrow> \<exists>p. k (m, w) = Some p"
  shows "\<exists>p. attempt (enter_map um buf n) s k = Some p"
proof -
  obtain x where x: "enter_map um buf n = Some x" "\<And>m w. x = Ok (m, w) \<Longrightarrow> owed w (2 * n)"
    using enter_map_owed by blast
  show ?thesis
  proof (cases x)
    case (Ok y)
    then show ?thesis using x k by (cases y) (simp add: attempt_def)
  qed (use x in \<open>simp add: attempt_def\<close>)
qed

lemma attempt_advance_total:
  "owed v (Suc n) \<Longrightarrow> (\<And>w x. owed w n \<Longrightarrow> \<exists>p. k w x = Some p) \<Longrightarrow> \<exists>p. attempt_step (advance um v) s k = Some p"
  using owed_advance [of v n um] by (auto simp: attempt_step_def split: result.split)

lemma attempt_key_total:
  "owed v (Suc n) \<Longrightarrow> (\<And>w x. owed w n \<Longrightarrow> \<exists>p. k w x = Some p) \<Longrightarrow> \<exists>p. attempt_step (skip_key um v) s k = Some p"
  using attempt_advance_total [of v n k um s] by (simp add: skip_key_def attempt_step_def)

lemma attempt_leave_total: "(\<And>w x. \<exists>p. k w x = Some p) \<Longrightarrow> \<exists>p. attempt_step (leave_map m v) s k = Some p"
  using leave_container_total [of m v]
  by (auto simp: leave_map_def attempt_step_def and_then_def split: result.split)

lemma take_uint_total:
  assumes v: "owed v (Suc (Suc n))" and k: "\<And>w s. owed w n \<Longrightarrow> \<exists>p. k w s = Some p"
  shows "\<exists>p. take_uint um v s upd k = Some p"
  unfolding take_uint_def
proof (rule attempt_key_total [OF v])
  fix w :: Value and x :: unit
  assume w: "owed w (Suc n)"
  obtain y where y: "value_extract w = Some y"
    using extract_readable on_head_readable(1) [OF owed_head [OF w]] by blast
  have "\<exists>p. attempt_step (advance um w) (upd y s) (\<lambda>value _. k value (upd y s)) = Some p"
    by (rule attempt_advance_total [OF w]) (rule k)
  with y show "\<exists>p. do { n \<leftarrow> value_extract w; let s = upd n s; attempt_step (advance um w) s (\<lambda>value _. k value s) } = Some p"
    by (simp add: Let_def)
qed

section \<open>What the steps do on a row of items\<close>

text \<open>Rules that run a decoder, each from the item it expects to the next.\<close>

definition yields :: "'r option \<Rightarrow> ('r \<Rightarrow> bool) \<Rightarrow> bool" where
  "yields m P \<longleftrightarrow> (\<exists>x. m = Some x \<and> P x)"

lemma yields_Some: "P x \<Longrightarrow> yields (Some x) P"
  by (simp add: yields_def)

lemma map_run:
  assumes items: "\<forall>b \<in> set items. cbor_item um 9 b" "length items = 2 * n" "2 * n < 2 ^ 32 - 1" and um: "n \<le> um"
    and k: "\<And>m w. v_ty m = MAP \<Longrightarrow> v_remaining m = 1 \<Longrightarrow> reading um w items r \<Longrightarrow> yields (k (m, w)) P"
  shows "yields (attempt (enter_map um (map_bytes n items @ r) n) s k) P"
proof -
  have buf: "map_bytes n items @ r = rfc_head (Map (Some n)) @ concat items @ r"
    by (simp add: map_bytes_def del: rfc_head.simps)
  obtain w where "enter_map um (map_bytes n items @ r) n = Some (Ok (start_value (map_bytes n items @ r), w))"
    "reading um w items r" using enter_map_reading [OF items buf um] by blast
  then show ?thesis using k start_map(4,6) [OF items buf] by (simp add: attempt_def)
qed

lemma advance_run:
  assumes "reading um v (b # bs) r" "\<And>w. reading um w bs r \<Longrightarrow> yields (k w ()) P"
  shows "yields (attempt_step (advance um v) s k) P"
  using reading_advance [OF assms(1)] assms(2) by (auto simp: attempt_step_def)

lemma key_run:
  assumes "reading um v (text_bytes t # bs) r" "length t \<le> um" "length t < 2 ^ 64"
    and "\<And>w. reading um w bs r \<Longrightarrow> yields (k w ()) P"
  shows "yields (attempt_step (skip_key um v) s k) P"
  using skip_key_reading [OF assms(1-3)] assms(4) by (auto simp: attempt_step_def)

lemma leave_run:
  assumes "reading um w [] r" "v_ty m = MAP" "v_remaining m = 1" "\<And>x. yields (k x ()) P"
  shows "yields (attempt_step (leave_map m w) s k) P"
  using leave_map_reading [OF assms(1-3)] assms(4) by (auto simp: attempt_step_def)

lemma take_uint_run:
  assumes v: "reading um v (text_bytes t # rfc_head (Positive n) # bs) r" and t: "length t \<le> um" "length t < 2 ^ 64"
    and k: "\<And>w. reading um w bs r \<Longrightarrow> yields (k w (upd n s)) P"
  shows "yields (take_uint um v s upd k) P"
  unfolding take_uint_def
proof (rule key_run [OF v t])
  fix w assume w: "reading um w (rfc_head (Positive n) # bs) r"
  have "yields (attempt_step (advance um w) (upd n s) (\<lambda>v _. k v (upd n s))) P"
    by (rule advance_run [OF w]) (rule k)
  then show "yields (do { n \<leftarrow> value_extract w; let s = upd n s; attempt_step (advance um w) s (\<lambda>v _. k v s) }) P"
    using uint_reading(1) [OF w] by (simp add: Let_def)
qed

text \<open>A borrowed string holds the bytes of the item it is on.\<close>

definition holds_string :: "nat \<Rightarrow> CborString \<Rightarrow> bytes \<Rightarrow> bool" where
  "holds_string um c t \<longleftrightarrow> cs_len c = length t \<and>
     (\<forall>out. length t \<le> length out \<longrightarrow> cs_copy_to um c out = Some (t @ drop (length t) out, Some (length t))) \<and>
     (\<forall>key. cs_eq_bytes um c key = Some (key = t))"

lemma string_borrowed:
  assumes v: "reading um v (b # bs) r" and b: "string_item um ty [c] b" "ty = TEXT_STRING \<or> ty = BYTE_STRING"
    and c: "length c \<le> um"
  shows "\<exists>z. value_string um v = Some (Ok z) \<and> holds_string um z c"
    "copy_string um v n copy_nothing () = Some ((), Ok \<lparr>cp_total = length c, cp_all = (length c \<le> n),
       cp_nul = (length c < n)\<rparr>)"
proof -
  have ty: "is_text_string v \<or> is_byte_string v"
    using iterate_string_item [OF _ b(1) _ b(2), of v "concat bs @ r" um copy_nothing "()"] reading_on_head [OF v] b(2)
    by (auto simp: is_text_string_def is_byte_string_def)
  have copied: "copy_string um v n copy s = (case (if length c \<le> n then copy 0 c s else Some s) of None \<Rightarrow> None
      | Some s' \<Rightarrow> Some (s', Ok \<lparr>cp_total = length c, cp_all = (length c \<le> n), cp_nul = (length c < n)\<rparr>))"
    for n copy and s :: 's
  proof -
    obtain w where "iterate_string um v n copy s = (case (if length c \<le> n then copy 0 c s else Some s) of None \<Rightarrow> None
      | Some s' \<Rightarrow> Some (s', Ok (\<lparr>cp_total = length c, cp_all = (length c \<le> n), cp_nul = (length c < n)\<rparr>, w)))"
      using string_reading [OF v b, of n copy s] by blast
    then show ?thesis unfolding copy_string_def by (simp split: option.split)
  qed
  show "copy_string um v n copy_nothing () = Some ((), Ok \<lparr>cp_total = length c, cp_all = (length c \<le> n),
       cp_nul = (length c < n)\<rparr>)" by (simp add: copied copy_nothing_def)
  let ?z = "\<lparr>cs_at = v, cs_len = length c\<rparr>"
  have "value_string um v = Some (Ok ?z)" using ty c by (auto simp: value_string_def copied copy_nothing_def)
  moreover have "cs_copy_to um ?z out = Some (c @ drop (length c) out, Some (length c))" if "length c \<le> length out" for out
    using c that by (simp add: cs_copy_to_def for_each_chunk_def copied copy_chunk_def copy_at_def put_def)
  moreover have "cs_eq_bytes um ?z key = Some (key = c)" for key
    using c by (auto simp: cs_eq_bytes_def for_each_chunk_def copied eq_chunk_def range_at_def subslice_def)
  ultimately show "\<exists>z. value_string um v = Some (Ok z) \<and> holds_string um z c"
    by (intro exI [of _ ?z]) (simp add: holds_string_def)
qed

end
