(* ===== verification/Service_Info.thy ===== *)
theory Service_Info
  imports Service_Cbor Bounded_Array
begin

text \<open>
  The bodies of \<open>sys_info\<close> (\<open>service/sys_info.rs\<close>) and \<open>power_info\<close> (\<open>service/power_info.rs\<close>)
  with their handlers, and the queue of reply callbacks of \<open>power_info\<close>. A decoder returns \<open>self\<close>
  as it left it, also with an error.
\<close>

section \<open>sys_info\<close>

definition SYS_INFO_NUM_FIELDS :: nat where "SYS_INFO_NUM_FIELDS = 5"
definition SYS_INFO_SUFFIX :: bytes where "SYS_INFO_SUFFIX = ascii ''/sys_info''"

record SysInfoReply =
  si_node_id :: u64
  si_git_sha :: u32
  si_sys_config_crc :: u32
  si_app_name_strlen :: u32
  si_app_name :: bytes

definition sys_info_reply :: "u64 \<Rightarrow> u32 \<Rightarrow> u32 \<Rightarrow> bytes \<Rightarrow> SysInfoReply" where
  "sys_info_reply node_id git_sha sys_config_crc app_name =
     \<lparr>si_node_id = node_id, si_git_sha = git_sha, si_sys_config_crc = sys_config_crc,
      si_app_name_strlen = of_nat (length app_name), si_app_name = app_name\<rparr>"

definition sys_info_body :: "cbor2 \<Rightarrow> SysInfoReply \<Rightarrow> MapWriter \<Rightarrow> MapWriter" where
  "sys_info_body C r w =
    (let w = mw_uint C (ascii ''node_id'') (si_node_id r) w;
         w = mw_uint C (ascii ''git_sha'') (ucast (si_git_sha r)) w;
         w = mw_uint C (ascii ''sys_config_crc'') (ucast (si_sys_config_crc r)) w;
         w = mw_uint C (ascii ''app_name_strlen'') (ucast (si_app_name_strlen r)) w;
         w = mw_text C (ascii ''app_name'') w
     in mw_text C (si_app_name r) w)"

definition sys_info_encode :: "cbor2 \<Rightarrow> SysInfoReply \<Rightarrow> bytes \<Rightarrow> bytes \<times> (CborError, nat) result" where
  "sys_info_encode C r out = encode_map C out SYS_INFO_NUM_FIELDS (sys_info_body C r)"

text \<open>\<open>handle\<close>, also of the other services: the buffer and the length of the reply, if any.\<close>

definition sys_info_handle :: "cbor2 \<Rightarrow> bytes \<Rightarrow> SysInfoReply \<Rightarrow> bytes \<Rightarrow> bytes \<times> nat option" where
  "sys_info_handle C request reply out =
     (if request \<noteq> [] then (out, None)
      else (case sys_info_encode C reply out of
          (out, Ok n) \<Rightarrow> (out, Some n)
        | (out, Err e) \<Rightarrow> (out, None)))"

record DecodedSysInfoReply =
  ds_node_id :: u64
  ds_git_sha :: u32
  ds_sys_config_crc :: u32
  ds_app_name_strlen :: u32
  ds_app_name :: "CborString option"

text \<open>\<open>as usize\<close> of a \<open>u32\<close>.\<close>

definition as_usize :: "nat \<Rightarrow> u32 \<Rightarrow> nat" where
  "as_usize um n = unat n mod (um + 1)"

text \<open>The last value, \<open>app_name\<close>.\<close>

definition sys_info_take_name ::
  "nat \<Rightarrow> Value \<Rightarrow> Value \<Rightarrow> DecodedSysInfoReply \<Rightarrow> (DecodedSysInfoReply \<times> (CborError, unit) result) option" where
  "sys_info_take_name um m value d =
     (if \<not> is_text_string value then Some (d, Err IllegalType)
      else do {
        (_, copied) \<leftarrow> copy_string um value (as_usize um (ds_app_name_strlen d + 1)) copy_nothing ();
        attempt (Some copied) d (\<lambda>copied.
        if \<not> cp_all copied then Some (d, Err OutOfMemory)
        else attempt (value_string um value) d (\<lambda>name.
          let d = d\<lparr>ds_app_name := Some name\<rparr> in
          attempt_step (advance um value) d (\<lambda>value _.
          attempt_step (leave_map m value) d (\<lambda>_ _. Some (d, Ok ()))))) })"

definition sys_info_decode ::
  "nat \<Rightarrow> bytes \<Rightarrow> DecodedSysInfoReply \<Rightarrow> (DecodedSysInfoReply \<times> (CborError, unit) result) option" where
  "sys_info_decode um buf d =
     (let d = d\<lparr>ds_app_name := None\<rparr> in
      attempt (enter_map um buf SYS_INFO_NUM_FIELDS) d (\<lambda>(m, value).
      take_uint um value d (\<lambda>n d. d\<lparr>ds_node_id := n\<rparr>) (\<lambda>value d.
      take_uint um value d (\<lambda>n d. d\<lparr>ds_git_sha := ucast n\<rparr>) (\<lambda>value d.
      take_uint um value d (\<lambda>n d. d\<lparr>ds_sys_config_crc := ucast n\<rparr>) (\<lambda>value d.
      take_uint um value d (\<lambda>n d. d\<lparr>ds_app_name_strlen := ucast n\<rparr>) (\<lambda>value d.
      attempt_step (skip_key um value) d (\<lambda>value _.
      sys_info_take_name um m value d)))))))"

section \<open>power_info\<close>

definition POWER_INFO_NUM_FIELDS :: nat where "POWER_INFO_NUM_FIELDS = 3"
definition POWER_INFO_SERVICE :: bytes where "POWER_INFO_SERVICE = ascii ''bus_power_controller/timing''"

record PowerInfoReply =
  pi_total_on_s :: u32
  pi_remaining_on_s :: u32
  pi_upcoming_off_s :: u32

definition power_info_default :: PowerInfoReply where
  "power_info_default = \<lparr>pi_total_on_s = 0, pi_remaining_on_s = 0, pi_upcoming_off_s = 0\<rparr>"

definition power_info_body :: "cbor2 \<Rightarrow> PowerInfoReply \<Rightarrow> MapWriter \<Rightarrow> MapWriter" where
  "power_info_body C r w =
    (let w = mw_uint C (ascii ''total_on_s'') (ucast (pi_total_on_s r)) w;
         w = mw_uint C (ascii ''remaining_on_s'') (ucast (pi_remaining_on_s r)) w
     in mw_uint C (ascii ''upcoming_off_s'') (ucast (pi_upcoming_off_s r)) w)"

definition power_info_encode :: "cbor2 \<Rightarrow> PowerInfoReply \<Rightarrow> bytes \<Rightarrow> bytes \<times> (CborError, nat) result" where
  "power_info_encode C r out = encode_map C out POWER_INFO_NUM_FIELDS (power_info_body C r)"

definition power_info_handle ::
  "cbor2 \<Rightarrow> bytes \<Rightarrow> PowerInfoReply option \<Rightarrow> bytes \<Rightarrow> bytes \<times> nat option" where
  "power_info_handle C request stats out =
     (if request \<noteq> [] then (out, None)
      else (case stats of
          None \<Rightarrow> (out, None)
        | Some r \<Rightarrow> (case power_info_encode C r out of
            (out, Ok n) \<Rightarrow> (out, Some n)
          | (out, Err e) \<Rightarrow> (out, None))))"

definition power_info_uint32 ::
  "nat \<Rightarrow> Value \<Rightarrow> 's \<Rightarrow> (u32 \<Rightarrow> 's \<Rightarrow> 's) \<Rightarrow> (Value \<Rightarrow> 's \<Rightarrow> ('s \<times> (CborError, unit) result) option) \<Rightarrow>
     ('s \<times> (CborError, unit) result) option" where
  "power_info_uint32 um value s upd k =
     attempt_step (skip_key um value) s (\<lambda>value _.
     if \<not> is_unsigned_integer value then Some (s, Err IllegalType)
     else do {
       v \<leftarrow> value_extract value;
       attempt_step (advance um value) s (\<lambda>value _. k value (upd (ucast v) s)) })"

definition power_info_decode ::
  "nat \<Rightarrow> bytes \<Rightarrow> PowerInfoReply \<Rightarrow> (PowerInfoReply \<times> (CborError, unit) result) option" where
  "power_info_decode um buf d =
     attempt (enter_map um buf POWER_INFO_NUM_FIELDS) d (\<lambda>(m, value).
     power_info_uint32 um value d (\<lambda>n d. d\<lparr>pi_total_on_s := n\<rparr>) (\<lambda>value d.
     power_info_uint32 um value d (\<lambda>n d. d\<lparr>pi_remaining_on_s := n\<rparr>) (\<lambda>value d.
     power_info_uint32 um value d (\<lambda>n d. d\<lparr>pi_upcoming_off_s := n\<rparr>) (\<lambda>value d.
     attempt_step (leave_map m value) d (\<lambda>_ _. Some (d, Ok ()))))))"

section \<open>The reply callbacks of power_info\<close>

text \<open>The arrays of \<open>N\<close> ids and how many are used.\<close>

record Callbacks =
  cb_queue :: "u32 list"
  cb_waiting :: "u32 list"
  cb_len :: nat

datatype Ended = Other | Dropped u32 | Called u32 PowerInfoReply

definition callbacks_new :: "nat \<Rightarrow> Callbacks" where
  "callbacks_new n = \<lparr>cb_queue = replicate n 0, cb_waiting = replicate n 0, cb_len = 0\<rparr>"

definition callbacks_queued :: "Callbacks \<Rightarrow> u32 list option" where
  "callbacks_queued c = range_at (cb_queue c) 0 (cb_len c)"

definition callbacks_is_waiting :: "Callbacks \<Rightarrow> u32 \<Rightarrow> bool option" where
  "callbacks_is_waiting c ident = do { w \<leftarrow> range_at (cb_waiting c) 0 (cb_len c); Some (ident \<in> set w) }"

text \<open>\<open>CallbacksFull\<close> is \<open>Err ()\<close>.\<close>

definition callbacks_push :: "u32 \<Rightarrow> Callbacks \<Rightarrow> (Callbacks \<times> (unit, unit) result) option" where
  "callbacks_push ident c =
     (if cb_len c = length (cb_queue c) then Some (c, Err ())
      else do {
        q \<leftarrow> set_at (cb_queue c) (cb_len c) ident;
        w \<leftarrow> set_at (cb_waiting c) (cb_len c) ident;
        Some (c\<lparr>cb_queue := q, cb_waiting := w, cb_len := cb_len c + 1\<rparr>, Ok ()) })"

definition callbacks_on_end :: "nat \<Rightarrow> u32 \<Rightarrow> bytes option \<Rightarrow> Callbacks \<Rightarrow> (Callbacks \<times> Ended) option" where
  "callbacks_on_end um ident reply c = do {
     waiting \<leftarrow> range_at (cb_waiting c) 0 (cb_len c);
     (case find_index (\<lambda>w. w = ident) waiting of
        None \<Rightarrow> Some (c, Other)
      | Some index \<Rightarrow> do {
          w \<leftarrow> rotate_range (cb_waiting c) index (cb_len c);
          callback \<leftarrow> get_at (cb_queue c) 0;
          q \<leftarrow> rotate_range (cb_queue c) 0 (cb_len c);
          let c = c\<lparr>cb_waiting := w, cb_queue := q, cb_len := cb_len c - 1\<rparr>;
          (case reply of
             None \<Rightarrow> Some (c, Dropped callback)
           | Some data \<Rightarrow> do {
               (d, r) \<leftarrow> power_info_decode um data power_info_default;
               Some (c, case r of Ok _ \<Rightarrow> Called callback d | Err e \<Rightarrow> Dropped callback) }) }) }"

section \<open>The bodies written\<close>

definition sys_info_items :: "SysInfoReply \<Rightarrow> bytes list" where
  "sys_info_items r =
     [text_bytes (ascii ''node_id''), rfc_head (Positive (si_node_id r)),
      text_bytes (ascii ''git_sha''), rfc_head (Positive (ucast (si_git_sha r))),
      text_bytes (ascii ''sys_config_crc''), rfc_head (Positive (ucast (si_sys_config_crc r))),
      text_bytes (ascii ''app_name_strlen''), rfc_head (Positive (ucast (si_app_name_strlen r))),
      text_bytes (ascii ''app_name''), text_bytes (si_app_name r)]"

lemma sys_info_encode_eq:
  assumes C: "cbor2_ok C"
  shows "encoded (map_bytes SYS_INFO_NUM_FIELDS (sys_info_items r)) out (sys_info_encode C r out)"
proof -
  have "wrote out (xs @ concat (sys_info_items r)) (sys_info_body C r w)" if w: "wrote out xs w" for w xs
    using wrote_text [OF C wrote_text [OF C wrote_uint [OF C wrote_uint [OF C wrote_uint [OF C wrote_uint [OF C w]]]]]]
    by (simp add: sys_info_items_def sys_info_body_def del: rfc_head.simps)
  then show ?thesis unfolding sys_info_encode_def by (rule encode_map_eq [OF C])
qed

definition power_info_items :: "PowerInfoReply \<Rightarrow> bytes list" where
  "power_info_items r =
     [text_bytes (ascii ''total_on_s''), rfc_head (Positive (ucast (pi_total_on_s r))),
      text_bytes (ascii ''remaining_on_s''), rfc_head (Positive (ucast (pi_remaining_on_s r))),
      text_bytes (ascii ''upcoming_off_s''), rfc_head (Positive (ucast (pi_upcoming_off_s r)))]"

lemma power_info_encode_eq:
  assumes C: "cbor2_ok C"
  shows "encoded (map_bytes POWER_INFO_NUM_FIELDS (power_info_items r)) out (power_info_encode C r out)"
proof -
  have "wrote out (xs @ concat (power_info_items r)) (power_info_body C r w)" if w: "wrote out xs w" for w xs
    using wrote_uint [OF C wrote_uint [OF C wrote_uint [OF C w]]]
    by (simp add: power_info_items_def power_info_body_def del: rfc_head.simps)
  then show ?thesis unfolding power_info_encode_def by (rule encode_map_eq [OF C])
qed

section \<open>Decoding never panics\<close>

lemma sys_info_take_name_total:
  assumes v: "owed v 1"
  shows "\<exists>p. sys_info_take_name um m v d = Some p"
proof -
  have o: "on_head v" using owed_head [of v 0] v by simp
  obtain n where n: "as_usize um (ds_app_name_strlen d + 1) = n" by blast
  have "copier_ok n copy_nothing" by (simp add: copier_ok_def copy_nothing_def)
  then obtain x y where x: "iterate_string um v n copy_nothing () = Some (x, y)"
    using iterate_string_total [OF o, of n copy_nothing um "()"] by blast
  obtain z where z: "value_string um v = Some z" using value_string_total [OF o] by blast
  have a: "\<exists>p. attempt_step (advance um v) d (\<lambda>w _. attempt_step (leave_map m w) d (\<lambda>_ _. Some (d, Ok ()))) = Some p"
    for d :: DecodedSysInfoReply
    by (rule attempt_advance_total [of v 0], use v in simp, rule attempt_leave_total) simp
  show ?thesis
  proof (cases z)
    case (Ok nm)
    then show ?thesis using a [of "d\<lparr>ds_app_name := Some nm\<rparr>"] x z
      by (cases y) (simp_all add: sys_info_take_name_def n copy_string_def attempt_def Let_def case_prod_beta)
  qed (use x z in \<open>cases y; simp add: sys_info_take_name_def n copy_string_def attempt_def case_prod_beta\<close>)
qed

lemma sys_info_decode_total: "\<exists>d' r. sys_info_decode um buf d = Some (d', r)"
proof -
  have "\<exists>p. sys_info_decode um buf d = Some p"
    unfolding sys_info_decode_def Let_def [of "d\<lparr>ds_app_name := None\<rparr>"]
    by (rule attempt_map_total, simp only: prod.case, rule take_uint_total [where n = 8],
        simp add: SYS_INFO_NUM_FIELDS_def, rule take_uint_total [where n = 6], simp,
        rule take_uint_total [where n = 4], simp, rule take_uint_total [where n = 2], simp,
        rule attempt_key_total [where n = 1], simp add: numeral_2_eq_2, rule sys_info_take_name_total)
  then show ?thesis by simp
qed

lemma power_info_uint32_total:
  assumes v: "owed v (Suc (Suc n))" and k: "\<And>w s. owed w n \<Longrightarrow> \<exists>p. k w s = Some p"
  shows "\<exists>p. power_info_uint32 um v s upd k = Some p"
  unfolding power_info_uint32_def
proof (rule attempt_key_total [OF v])
  fix w :: Value and x :: unit
  assume w: "owed w (Suc n)"
  obtain y where y: "value_extract w = Some y"
    using extract_readable on_head_readable(1) [OF owed_head [OF w]] by blast
  have "\<exists>p. attempt_step (advance um w) s (\<lambda>value _. k value (upd (ucast y) s)) = Some p"
    by (rule attempt_advance_total [OF w]) (rule k)
  with y show "\<exists>p. (if \<not> is_unsigned_integer w then Some (s, Err IllegalType)
      else do { v \<leftarrow> value_extract w; attempt_step (advance um w) s (\<lambda>value _. k value (upd (ucast v) s)) }) = Some p"
    by simp
qed

lemma power_info_decode_total: "\<exists>d' r. power_info_decode um buf d = Some (d', r)"
proof -
  have "\<exists>p. power_info_decode um buf d = Some p"
    unfolding power_info_decode_def
    by (rule attempt_map_total, simp only: prod.case, rule power_info_uint32_total [where n = 4],
        simp add: POWER_INFO_NUM_FIELDS_def, rule power_info_uint32_total [where n = 2], simp,
        rule power_info_uint32_total [where n = 0], simp add: numeral_2_eq_2, rule attempt_leave_total) simp
  then show ?thesis by simp
qed

section \<open>Decoding what was encoded\<close>

lemma info_items:
  "50 \<le> um \<Longrightarrow> \<forall>b \<in> set (power_info_items r). cbor_item um 9 b"
  "50 \<le> um \<Longrightarrow> length (si_app_name q) \<le> um \<Longrightarrow> length (si_app_name q) < 2 ^ 64 \<Longrightarrow>
     \<forall>b \<in> set (sys_info_items q). cbor_item um 9 b"
  using text_bytes_item(1) integer_item [of INTEGER um 9]
  by (auto simp: power_info_items_def sys_info_items_def)

lemma power_info_uint32_run:
  assumes v: "reading um v (text_bytes t # rfc_head (Positive n) # bs) r" and t: "length t \<le> um" "length t < 2 ^ 64"
    and k: "\<And>w. reading um w bs r \<Longrightarrow> yields (k w (upd (ucast n) s)) P"
  shows "yields (power_info_uint32 um v s upd k) P"
  unfolding power_info_uint32_def
proof (rule key_run [OF v t])
  fix w assume w: "reading um w (rfc_head (Positive n) # bs) r"
  have "yields (attempt_step (advance um w) s (\<lambda>v _. k v (upd (ucast n) s))) P"
    by (rule advance_run [OF w]) (rule k)
  then show "yields (if \<not> is_unsigned_integer w then Some (s, Err IllegalType)
      else do { v \<leftarrow> value_extract w; attempt_step (advance um w) s (\<lambda>value _. k value (upd (ucast v) s)) }) P"
    using uint_reading [OF w] by simp
qed

lemma ucast_64_32: "ucast (ucast (x :: u32) :: u64) = x"
  by (rule bit_word_eqI) (auto simp: bit_simps)

lemma power_info_decode_encoded:
  assumes um: "50 \<le> um"
  shows "yields (power_info_decode um (map_bytes POWER_INFO_NUM_FIELDS (power_info_items r) @ tail) d) (\<lambda>x. x = (r, Ok ()))"
proof -
  have items: "\<forall>b \<in> set (power_info_items r). cbor_item um 9 b"
    "length (power_info_items r) = 2 * POWER_INFO_NUM_FIELDS" "2 * POWER_INFO_NUM_FIELDS < 2 ^ 32 - 1"
    "POWER_INFO_NUM_FIELDS \<le> um"
    using info_items(1) [OF um] um by (simp_all add: power_info_items_def POWER_INFO_NUM_FIELDS_def)
  note short = order_trans [OF _ um]
  show ?thesis unfolding power_info_decode_def
    apply (rule map_run [OF items], unfold prod.case power_info_items_def)
    apply (rule power_info_uint32_run, assumption, rule short, simp, simp)+
    apply (rule leave_run, assumption+)
    by (rule yields_Some) (simp add: ucast_64_32)
qed

lemma sys_info_name_encoded:
  assumes v: "reading um v [text_bytes t] tail" and m: "v_ty m = MAP" "v_remaining m = 1"
    and t: "length t < um" "length t < 2 ^ 32 - 1" and d: "ds_app_name_strlen d = of_nat (length t)"
  shows "yields (sys_info_take_name um m v d) (\<lambda>x. \<exists>c. x = (d\<lparr>ds_app_name := Some c\<rparr>, Ok ()) \<and> holds_string um c t)"
proof -
  have len: "length t \<le> um" "length t < 2 ^ 64" using t by simp_all
  have "unat (of_nat (length t) + 1 :: u32) = length t + 1"
    using t(2) by (simp add: unat_word_ariths unsigned_of_nat take_bit_nat_eq_self)
  then have room: "length t \<le> as_usize um (ds_app_name_strlen d + 1)" using t(1) d by (simp add: as_usize_def)
  note str = text_bytes_item(3) [OF len]
  obtain z where z: "value_string um v = Some (Ok z)" "holds_string um z t"
    using string_borrowed(1) [OF v str _ len(1)] by blast
  have "is_text_string v"
    using reading_on_head [OF v] text_bytes_item(2) [OF len] by (simp add: is_text_string_def)
  moreover have "yields (attempt_step (advance um v) e (\<lambda>w _. attempt_step (leave_map m w) e (\<lambda>_ _. Some (e, Ok ()))))
      (\<lambda>x. x = (e, Ok ()))" for e :: DecodedSysInfoReply
    by (rule advance_run [OF v], rule leave_run [OF _ m], assumption, rule yields_Some) simp
  ultimately show ?thesis
    using z string_borrowed(2) [OF v str _ len(1)] room
    by (auto simp: sys_info_take_name_def attempt_def yields_def)
qed

lemma sys_info_decode_encoded:
  assumes um: "50 \<le> um" and name: "length (si_app_name r) < um" "length (si_app_name r) < 2 ^ 32 - 1"
    and strlen: "si_app_name_strlen r = of_nat (length (si_app_name r))"
  shows "yields (sys_info_decode um (map_bytes SYS_INFO_NUM_FIELDS (sys_info_items r) @ tail) d) (\<lambda>x. \<exists>c. x =
      (\<lparr>ds_node_id = si_node_id r, ds_git_sha = si_git_sha r, ds_sys_config_crc = si_sys_config_crc r,
        ds_app_name_strlen = si_app_name_strlen r, ds_app_name = Some c\<rparr>, Ok ()) \<and> holds_string um c (si_app_name r))"
proof -
  let ?items = "sys_info_items r"
  have len: "length (si_app_name r) \<le> um" "length (si_app_name r) < 2 ^ 64" using name by simp_all
  have items: "\<forall>b \<in> set ?items. cbor_item um 9 b" "length ?items = 2 * SYS_INFO_NUM_FIELDS"
    "2 * SYS_INFO_NUM_FIELDS < 2 ^ 32 - 1" "SYS_INFO_NUM_FIELDS \<le> um"
    using info_items(2) [OF um len] um by (simp_all add: sys_info_items_def SYS_INFO_NUM_FIELDS_def)
  note short = order_trans [OF _ um]
  have *: "yields (sys_info_take_name um m v e) (\<lambda>x. \<exists>c. x =
      (\<lparr>ds_node_id = si_node_id r, ds_git_sha = si_git_sha r, ds_sys_config_crc = si_sys_config_crc r,
        ds_app_name_strlen = si_app_name_strlen r, ds_app_name = Some c\<rparr>, Ok ()) \<and> holds_string um c (si_app_name r))"
    if "reading um v [text_bytes (si_app_name r)] tail" "v_ty m = MAP" "v_remaining m = 1"
      "e = \<lparr>ds_node_id = si_node_id r, ds_git_sha = si_git_sha r, ds_sys_config_crc = si_sys_config_crc r,
        ds_app_name_strlen = si_app_name_strlen r, ds_app_name = None\<rparr>" for m v e
    using sys_info_name_encoded [OF that(1-3) name, of e] that(4) strlen by simp
  show ?thesis unfolding sys_info_decode_def Let_def
    apply (rule map_run [OF items], unfold prod.case sys_info_items_def)
    apply (rule take_uint_run, assumption, rule short, simp, simp)+
    apply (rule key_run, assumption, rule short, simp, simp)
    by (rule *, assumption+) (simp add: ucast_64_32)
qed

section \<open>The callbacks are a queue\<close>

definition cb_wf :: "Callbacks \<Rightarrow> bool" where
  "cb_wf c \<longleftrightarrow> length (cb_waiting c) = length (cb_queue c) \<and> cb_len c \<le> length (cb_queue c)"

text \<open>The callbacks, oldest first, and the requests waiting.\<close>

definition cb_abs :: "Callbacks \<Rightarrow> u32 list \<times> u32 list" where
  "cb_abs c = (take (cb_len c) (cb_queue c), take (cb_len c) (cb_waiting c))"

lemma callbacks_push_eq:
  assumes "cb_wf c"
  shows "\<exists>c' r. callbacks_push ident c = Some (c', r) \<and> cb_wf c' \<and> length (cb_queue c') = length (cb_queue c) \<and>
    (if cb_len c = length (cb_queue c) then r = Err () \<and> c' = c
     else r = Ok () \<and> cb_abs c' = (fst (cb_abs c) @ [ident], snd (cb_abs c) @ [ident]))"
  using assms by (auto simp: callbacks_push_def cb_wf_def cb_abs_def set_at_def take_Suc_conv_app_nth)

lemma callbacks_on_end_eq:
  assumes wf: "cb_wf c"
  shows "\<exists>c' ev. callbacks_on_end um ident reply c = Some (c', ev) \<and> cb_wf c' \<and>
    length (cb_queue c') = length (cb_queue c) \<and>
    (if ident \<in> set (snd (cb_abs c)) then
       (\<exists>cb. fst (cb_abs c) = cb # fst (cb_abs c') \<and> snd (cb_abs c') = remove1 ident (snd (cb_abs c)) \<and>
          ev = (case reply of None \<Rightarrow> Dropped cb
             | Some data \<Rightarrow> (case power_info_decode um data power_info_default of
                 Some (d, Ok _) \<Rightarrow> Called cb d | _ \<Rightarrow> Dropped cb)))
     else c' = c \<and> ev = Other)"
proof -
  let ?n = "cb_len c" and ?w = "take (cb_len c) (cb_waiting c)"
  have n: "?n \<le> length (cb_waiting c)" "?n \<le> length (cb_queue c)" using wf by (simp_all add: cb_wf_def)
  have at: "range_at (cb_waiting c) 0 ?n = Some ?w" using n by (simp add: range_at_def subslice_def)
  show ?thesis
  proof (cases "find_index (\<lambda>w. w = ident) ?w")
    case None
    then have "ident \<notin> set ?w" by (auto simp: find_index_None)
    then show ?thesis using None at wf by (simp add: callbacks_on_end_def cb_abs_def)
  next
    case (Some i)
    have i: "i < ?n" using find_index_Some(1) [OF Some] by simp
    have inw: "ident \<in> set ?w" using find_index_Some(1,2) [OF Some] nth_mem by metis
    have rm: "remove1 ident xs = remove_first (\<lambda>w. w = ident) xs" for xs by (induction xs) auto
    obtain w where w: "rotate_range (cb_waiting c) i ?n = Some w" "length w = length (cb_waiting c)"
      "take (?n - 1) w = take i (cb_waiting c) @ drop (Suc i) ?w" using rotate_range_eq [OF i n(1)] by blast
    have "remove1 ident ?w = take i ?w @ drop (Suc i) ?w" unfolding rm by (rule find_index_Some(4) [OF Some])
    then have w': "take (?n - 1) w = remove1 ident ?w" using w(3) i by (simp add: min_def)
    have pos: "0 < ?n" using i by simp
    obtain q where q: "rotate_range (cb_queue c) 0 ?n = Some q" "length q = length (cb_queue c)"
      "take (?n - 1) q = drop (Suc 0) (take ?n (cb_queue c))" using rotate_range_eq [OF pos n(2)] by auto
    let ?cb = "cb_queue c ! 0"
    have hd: "get_at (cb_queue c) 0 = Some ?cb" using less_le_trans [OF pos n(2)] by (simp add: get_at_def)
    have ne: "cb_queue c \<noteq> []" using less_le_trans [OF pos n(2)] by simp
    have split: "take ?n (cb_queue c) = ?cb # take (?n - 1) q"
      using pos ne Cons_nth_drop_Suc [of 0 "take ?n (cb_queue c)"] unfolding q(3) by simp
    let ?c = "c\<lparr>cb_waiting := w, cb_queue := q, cb_len := ?n - 1\<rparr>"
    have c': "cb_wf ?c" "cb_abs ?c = (take (?n - 1) q, remove1 ident ?w)"
      using w(2) q(2) n w' wf by (auto simp: cb_wf_def cb_abs_def)
    obtain ev where ev: "callbacks_on_end um ident reply c = Some (?c, ev)" "ev = (case reply of None \<Rightarrow> Dropped ?cb
        | Some data \<Rightarrow> (case power_info_decode um data power_info_default of
            Some (d, Ok _) \<Rightarrow> Called ?cb d | _ \<Rightarrow> Dropped ?cb))"
    proof (cases reply)
      case None
      then show ?thesis using that Some at w(1) q(1) hd by (simp add: callbacks_on_end_def)
    next
      case (Some data)
      obtain d r where "power_info_decode um data power_info_default = Some (d, r)"
        using power_info_decode_total by blast
      then show ?thesis using that Some \<open>find_index _ _ = Some i\<close> at w(1) q(1) hd
        by (cases r) (simp_all add: callbacks_on_end_def)
    qed
    then show ?thesis using c' inw split q(2) by (simp add: cb_abs_def)
  qed
qed

section \<open>What the services promise\<close>


text \<open>What sys_info answers is what the asker decodes. Whenever the handler replies to a
  request without data, the decoder of this crate reads the reply back, whatever follows it in the
  buffer: the node id, the git sha and the configuration CRC come back exactly, and the borrowed
  application name holds the bytes of the provider's name.\<close>

theorem sys_info_service_delivers:
  assumes C: "cbor2_ok C" and um: "50 \<le> um" and name: "length name < um" "length name < 2 ^ 32 - 1"
    and handled: "sys_info_handle C request (sys_info_reply node sha crc name) out = (out', Some n)"
  shows "request = [] \<and> (\<exists>d c. sys_info_decode um (take n out' @ tail) d0 = Some (d, Ok ()) \<and>
    ds_node_id d = node \<and> ds_git_sha d = sha \<and> ds_sys_config_crc d = crc \<and>
    ds_app_name d = Some c \<and> holds_string um c name)"
proof -
  let ?r = "sys_info_reply node sha crc name"
  have req: "request = []" using handled by (simp add: sys_info_handle_def split: if_splits)
  have "take n out' = map_bytes SYS_INFO_NUM_FIELDS (sys_info_items ?r)"
    using sys_info_encode_eq [OF C, of ?r out] handled req
    by (auto simp: sys_info_handle_def encoded_def put_def split: prod.splits result.splits if_splits)
  then show ?thesis
    using sys_info_decode_encoded [OF um, of ?r tail d0] name req by (auto simp: yields_def sys_info_reply_def)
qed

theorem sys_info_service_delivers_witness:
  "\<exists>out' n d c. sys_info_handle slice_cbor2 [] (sys_info_reply 7 8 9 (ascii ''app'')) (replicate 90 0) = (out', Some n) \<and>
     sys_info_decode 255 (take n out') \<lparr>ds_node_id = 0, ds_git_sha = 0, ds_sys_config_crc = 0,
       ds_app_name_strlen = 0, ds_app_name = None\<rparr> = Some (d, Ok ()) \<and> ds_app_name d = Some c \<and>
     holds_string 255 c (ascii ''app'')"
proof -
  let ?r = "sys_info_reply 7 8 9 (ascii ''app'')"
  have len: "length (map_bytes SYS_INFO_NUM_FIELDS (sys_info_items ?r)) \<le> 90" by code_simp
  then obtain out' n where h: "sys_info_handle slice_cbor2 [] ?r (replicate 90 0) = (out', Some n)"
    using sys_info_encode_eq [OF slice_cbor2_ok, of ?r "replicate 90 0"]
    by (simp add: sys_info_handle_def encoded_def)
  have um: "50 \<le> (255 :: nat)" "length (ascii ''app'') < 255" "length (ascii ''app'') < 2 ^ 32 - 1" by simp_all
  show ?thesis using h sys_info_service_delivers [OF slice_cbor2_ok um h, of "[]"] by fastforce
qed

text \<open>The reply callbacks of power_info are a FIFO. \<open>push\<close> appends the callback and the
  request and is refused, with nothing changed, exactly when every place is taken. When a waiting request
  ends, the oldest callback leaves the queue, whichever request ended, and that request leaves the waiting
  list; the callback is called only with a reply that decodes, and with the very statistics the
  provider's \<open>handle\<close> encoded. Any other request changes nothing.\<close>

theorem power_info_callbacks_fifo:
  assumes C: "cbor2_ok C" and um: "50 \<le> um" and wf: "cb_wf c"
  shows "(\<exists>c' r. callbacks_push ident c = Some (c', r) \<and> cb_wf c' \<and>
      (if cb_len c = length (cb_queue c) then r = Err () \<and> c' = c
       else r = Ok () \<and> cb_abs c' = (fst (cb_abs c) @ [ident], snd (cb_abs c) @ [ident]))) \<and>
    (\<exists>c' ev. callbacks_on_end um ident reply c = Some (c', ev) \<and> cb_wf c' \<and>
      (if ident \<in> set (snd (cb_abs c)) then
         (\<exists>cb. fst (cb_abs c) = cb # fst (cb_abs c') \<and> snd (cb_abs c') = remove1 ident (snd (cb_abs c)) \<and>
            (ev = Dropped cb \<or> (\<exists>d. ev = Called cb d)) \<and>
            (\<forall>stats out out' n. power_info_handle C [] (Some stats) out = (out', Some n) \<longrightarrow>
               reply = Some (take n out') \<longrightarrow> ev = Called cb stats))
       else c' = c \<and> ev = Other))"
proof (rule conjI)
  show "\<exists>c' r. callbacks_push ident c = Some (c', r) \<and> cb_wf c' \<and>
      (if cb_len c = length (cb_queue c) then r = Err () \<and> c' = c
       else r = Ok () \<and> cb_abs c' = (fst (cb_abs c) @ [ident], snd (cb_abs c) @ [ident]))"
    using callbacks_push_eq [OF wf, of ident] by blast
  have decoded: "\<exists>u. power_info_decode um (take n out') power_info_default = Some (stats, Ok u)"
    if "power_info_handle C [] (Some stats) out = (out', Some n)" for stats out out' n
  proof -
    have "take n out' = map_bytes POWER_INFO_NUM_FIELDS (power_info_items stats)"
      using power_info_encode_eq [OF C, of stats out] that
      by (auto simp: power_info_handle_def encoded_def put_def split: prod.splits result.splits if_splits)
    then show ?thesis
      using power_info_decode_encoded [OF um, of stats "[]" power_info_default] by (auto simp: yields_def)
  qed
  obtain c' ev where e: "callbacks_on_end um ident reply c = Some (c', ev)" "cb_wf c'"
    "if ident \<in> set (snd (cb_abs c)) then
       (\<exists>cb. fst (cb_abs c) = cb # fst (cb_abs c') \<and> snd (cb_abs c') = remove1 ident (snd (cb_abs c)) \<and>
          ev = (case reply of None \<Rightarrow> Dropped cb
             | Some data \<Rightarrow> (case power_info_decode um data power_info_default of
                 Some (d, Ok _) \<Rightarrow> Called cb d | _ \<Rightarrow> Dropped cb)))
     else c' = c \<and> ev = Other" using callbacks_on_end_eq [OF wf] by blast
  show "\<exists>c' ev. callbacks_on_end um ident reply c = Some (c', ev) \<and> cb_wf c' \<and>
      (if ident \<in> set (snd (cb_abs c)) then
         (\<exists>cb. fst (cb_abs c) = cb # fst (cb_abs c') \<and> snd (cb_abs c') = remove1 ident (snd (cb_abs c)) \<and>
            (ev = Dropped cb \<or> (\<exists>d. ev = Called cb d)) \<and>
            (\<forall>stats out out' n. power_info_handle C [] (Some stats) out = (out', Some n) \<longrightarrow>
               reply = Some (take n out') \<longrightarrow> ev = Called cb stats))
       else c' = c \<and> ev = Other)"
  proof (cases "ident \<in> set (snd (cb_abs c))")
    case True
    then obtain cb where cb: "fst (cb_abs c) = cb # fst (cb_abs c')" "snd (cb_abs c') = remove1 ident (snd (cb_abs c))"
      "ev = (case reply of None \<Rightarrow> Dropped cb
             | Some data \<Rightarrow> (case power_info_decode um data power_info_default of
                 Some (d, Ok _) \<Rightarrow> Called cb d | _ \<Rightarrow> Dropped cb))" using e(3) by auto
    have "ev = Dropped cb \<or> (\<exists>d. ev = Called cb d)"
      unfolding cb(3) by (auto split: option.split result.split)
    moreover have "ev = Called cb stats"
      if "power_info_handle C [] (Some stats) out = (out', Some n)" "reply = Some (take n out')" for stats out out' n
      using decoded [OF that(1)] that(2) cb(3) by auto
    ultimately show ?thesis using e(1,2) cb(1,2) True by auto
  qed (use e in auto)
qed

text \<open>A queue of one callback, whose request ends with a reply.\<close>

theorem power_info_callbacks_fifo_witness:
  "\<exists>c c' out' n. callbacks_push 9 (callbacks_new 2) = Some (c, Ok ()) \<and>
     power_info_handle slice_cbor2 [] (Some power_info_default) (replicate 60 0) = (out', Some n) \<and>
     callbacks_on_end 255 9 (Some (take n out')) c = Some (c', Called 9 power_info_default) \<and> fst (cb_abs c') = []"
proof -
  have um: "50 \<le> (255 :: nat)" by simp
  have wf0: "cb_wf (callbacks_new 2)" by (simp add: cb_wf_def callbacks_new_def)
  note push = conjunct1 [OF power_info_callbacks_fifo [OF slice_cbor2_ok um]]
  note ended = conjunct2 [OF power_info_callbacks_fifo [OF slice_cbor2_ok um]]
  obtain c where c: "callbacks_push 9 (callbacks_new 2) = Some (c, Ok ())" "cb_wf c" "cb_abs c = ([9], [9])"
    using push [OF wf0, of 9] by (auto simp: callbacks_new_def cb_abs_def)
  have len: "length (map_bytes POWER_INFO_NUM_FIELDS (power_info_items power_info_default)) \<le> 60" by code_simp
  then obtain out' n where h: "power_info_handle slice_cbor2 [] (Some power_info_default) (replicate 60 0) = (out', Some n)"
    using power_info_encode_eq [OF slice_cbor2_ok, of power_info_default "replicate 60 0"]
    by (simp add: power_info_handle_def encoded_def)
  then show ?thesis using ended [OF c(2), of 9 "Some (take n out')"] c(1,3) by auto
qed

end
