(* ===== verification/Config.thy ===== *)
theory Config
  imports Cbor_Encode Crc Le Bounded_Array
begin

text \<open>
  \<open>configuration.rs\<close>: the local config store. A partition is the bytes of the C struct it is
  saved as, and every operation edits those bytes: a header (CRC, version, number of keys), 50
  key records and 50 value slots of 50 bytes. Values are CBOR items. The theory models the
  layout, keys, heads, the readers and writers and the map a partition is published as.
\<close>

section \<open>Layout\<close>

definition MAX_NUM_KV :: nat where "MAX_NUM_KV = 50"
definition MAX_KEY_LEN_BYTES :: nat where "MAX_KEY_LEN_BYTES = 32"
definition MAX_CONFIG_BUFFER_SIZE_BYTES :: nat where "MAX_CONFIG_BUFFER_SIZE_BYTES = 50"
definition CONFIG_VERSION :: u32 where "CONFIG_VERSION = 0"
definition HEADER_LEN :: nat where "HEADER_LEN = 9"
definition CONFIG_LOAD_TIMEOUT_MS :: u32 where "CONFIG_LOAD_TIMEOUT_MS = 5000"
definition KEY_BUF_LEN :: nat where "KEY_BUF_LEN = MAX_KEY_LEN_BYTES"
definition SLOT :: nat where "SLOT = MAX_CONFIG_BUFFER_SIZE_BYTES"

datatype CfgPartition = User | System | Hardware

definition ALL_partitions :: "CfgPartition list" where
  "ALL_partitions = [User, System, Hardware]"

definition partition_from_u8 :: "u8 \<Rightarrow> CfgPartition option" where
  "partition_from_u8 n =
     (if unat n < length ALL_partitions then Some (ALL_partitions ! unat n) else None)"

fun partition_index :: "CfgPartition \<Rightarrow> nat" where
  "partition_index User = 0"
| "partition_index System = 1"
| "partition_index Hardware = 2"

datatype ValueType = Uint32 | Int32 | Float | Str | ByteStr | Array

fun value_type_code :: "ValueType \<Rightarrow> u64" where
  "value_type_code Uint32 = 0"
| "value_type_code Int32 = 1"
| "value_type_code Float = 2"
| "value_type_code Str = 3"
| "value_type_code ByteStr = 4"
| "value_type_code Array = 5"

record Layout =
  key_len_width :: nat
  value_type_width :: nat

definition LP64 :: Layout where
  "LP64 = \<lparr>key_len_width = 8, value_type_width = 4\<rparr>"

definition ARM_EABI_GCC :: Layout where
  "ARM_EABI_GCC = \<lparr>key_len_width = 4, value_type_width = 1\<rparr>"

definition layout_new :: "nat \<Rightarrow> nat \<Rightarrow> Layout option" where
  "layout_new kw vw =
     (let size_ok = (kw = 4 \<or> kw = 8); enum_ok = (vw = 1 \<or> vw = 2 \<or> vw = 4) in
      if size_ok \<and> enum_ok then Some \<lparr>key_len_width = kw, value_type_width = vw\<rparr> else None)"

definition key_size :: "Layout \<Rightarrow> nat" where
  "key_size L = KEY_BUF_LEN + key_len_width L + value_type_width L"

definition image_len :: "Layout \<Rightarrow> nat" where
  "image_len L = HEADER_LEN + MAX_NUM_KV * key_size L + MAX_NUM_KV * SLOT"

definition key_offset :: "Layout \<Rightarrow> nat \<Rightarrow> nat" where
  "key_offset L i = HEADER_LEN + i * key_size L"

definition value_offset :: "Layout \<Rightarrow> nat \<Rightarrow> nat" where
  "value_offset L i = HEADER_LEN + MAX_NUM_KV * key_size L + i * SLOT"

definition MAX_IMAGE_LEN :: nat where "MAX_IMAGE_LEN = image_len LP64"

section \<open>Keys\<close>

record Key =
  k_text :: bytes
  k_len :: nat

definition key_new :: "bytes \<Rightarrow> Key" where
  "key_new key = \<lparr>k_text = key, k_len = length key\<rparr>"

definition key_with_len :: "bytes \<Rightarrow> nat \<Rightarrow> Key" where
  "key_with_len text len = \<lparr>k_text = text, k_len = len\<rparr>"

definition key_is_empty :: "Key \<Rightarrow> bool" where
  "key_is_empty k \<longleftrightarrow> k_len k = 0"

definition key_byte :: "Key \<Rightarrow> nat \<Rightarrow> u8" where
  "key_byte k i = (case get_at (k_text k) i of Some b \<Rightarrow> b | None \<Rightarrow> 0)"

definition key_strlen :: "Key \<Rightarrow> nat" where
  "key_strlen k = (case find_index (\<lambda>b. b = 0) (k_text k) of Some n \<Rightarrow> n | None \<Rightarrow> length (k_text k))"

definition is_ascii_alphanumeric :: "u8 \<Rightarrow> bool" where
  "is_ascii_alphanumeric b \<longleftrightarrow>
     (0x30 \<le> b \<and> b \<le> 0x39) \<or> (0x41 \<le> b \<and> b \<le> 0x5a) \<or> (0x61 \<le> b \<and> b \<le> 0x7a)"

definition key_is_valid :: "Key \<Rightarrow> bool" where
  "key_is_valid k \<longleftrightarrow>
     (\<forall>i \<in> set [0..<k_len k].
        let b = key_byte k i in is_ascii_alphanumeric b \<or> b = 0x5f \<or> b = 0)"

record StoredKey =
  key_buf :: bytes
  key_len :: u64
  value_type :: u32

datatype CopyError = Refused | TooSmall nat

section \<open>Heads of stored values\<close>

record Head =
  hd_major :: u8
  hd_info :: u8
  hd_arg :: u64

text \<open>\<open>bytes.iter().fold(0, |a, &b| (a << 8) | u64::from(b))\<close> is \<^const>\<open>read_be\<close>, and
  \<open>1usize << (info - 24)\<close> is \<^const>\<open>arg_bytes\<close>.\<close>

definition parse_head :: "bytes \<Rightarrow> Head option" where
  "parse_head buf = do {
     descriptor \<leftarrow> get_at buf 0;
     let major = drop_bit 5 descriptor;
     let info = descriptor AND 0x1f;
     (if 27 < info then
        (if info = 31 \<and> 2 \<le> major \<and> major \<le> 5
         then Some \<lparr>hd_major = major, hd_info = info, hd_arg = 0\<rparr> else None)
      else do {
        arg \<leftarrow> (if info < 24 then Some (ucast info)
                else do {
                  let n = arg_bytes info;
                  bytes \<leftarrow> range_at buf 1 (n + 1);
                  Some (read_be bytes) });
        (if major = 7 \<and> info = 24 \<and> arg < 32 then None
         else Some \<lparr>hd_major = major, hd_info = info, hd_arg = arg\<rparr>) }) }"

definition head_length_known :: "Head \<Rightarrow> bool" where
  "head_length_known h \<longleftrightarrow> hd_info h \<noteq> 31"

definition config_type :: "Head \<Rightarrow> ValueType option" where
  "config_type h =
     (if hd_major h = 0 then Some Uint32
      else if hd_major h = 1 then Some Int32
      else if hd_major h = 2 then Some ByteStr
      else if hd_major h = 3 then Some Str
      else if hd_major h = 7 \<and> hd_info h = 26 then Some Float
      else if hd_major h = 4 then Some Array
      else None)"

definition head_length :: "nat \<Rightarrow> Head \<Rightarrow> nat option" where
  "head_length um h =
     (if \<not> head_length_known h then None
      else if unat (hd_arg h) \<le> um then Some (unat (hd_arg h)) else None)"

section \<open>Copying a stored string\<close>

text \<open>One round of the loop of \<open>copy_string\<close>: the length of the chunk at \<open>pos\<close> and where its
  body starts, nothing at the break, or the refusal.\<close>

definition slot_chunk :: "nat \<Rightarrow> bytes \<Rightarrow> u8 \<Rightarrow> nat \<Rightarrow> (CopyError, (nat \<times> nat) option) result" where
  "slot_chunk um slot kind pos =
     (case get_at slot pos of
        None \<Rightarrow> Err Refused
      | Some descriptor \<Rightarrow>
          if descriptor = 0xff then Ok None
          else if descriptor AND 0xe0 \<noteq> kind then Err Refused
          else
            let info = descriptor AND 0x1f;
                head =
                  (if info < 24 then Ok (ucast info, 1)
                   else if 27 < info then Err Refused
                   else let n = arg_bytes info in
                     case range_at slot (pos + 1) (pos + n + 1) of
                       None \<Rightarrow> Err Refused
                     | Some bytes \<Rightarrow> Ok (read_be bytes, 1 + n)) in
            (case head of
               Err e \<Rightarrow> Err e
             | Ok (len, hlen) \<Rightarrow>
                 if um < unat len then Err Refused
                 else Ok (Some (unat len, pos + hlen))))"

lemma slot_chunk_Some:
  assumes "slot_chunk um slot kind pos = Ok (Some (len, start))"
  shows "pos < start \<and> pos < length slot"
  using assms
  by (auto simp: slot_chunk_def get_at_def Let_def split: option.splits if_splits result.splits)

text \<open>The loop: \<open>out\<close> is the caller's buffer. It returns the buffer, \<open>total\<close> and \<open>fits\<close>.\<close>

function copy_loop ::
  "nat \<Rightarrow> bytes \<Rightarrow> u8 \<Rightarrow> bool \<Rightarrow> bool \<Rightarrow> nat \<Rightarrow> nat \<Rightarrow> bool \<Rightarrow> bytes \<Rightarrow>
     bytes \<times> (CopyError, nat \<times> bool) result" where
  "copy_loop um slot kind chunked first pos tot fits out =
     (if \<not> chunked \<and> \<not> first then (out, Ok (tot, fits))
      else case slot_chunk um slot kind pos of
        Err e \<Rightarrow> (out, Err e)
      | Ok None \<Rightarrow> (out, Ok (tot, fits))
      | Ok (Some (len, start)) \<Rightarrow>
          (case range_at slot start (start + len) of
             None \<Rightarrow> (out, Err Refused)
           | Some body \<Rightarrow>
               if um < tot + len then (out, Err Refused)
               else if fits \<and> tot + len \<le> length out then
                 copy_loop um slot kind chunked False (start + len) (tot + len) fits (put out tot body)
               else copy_loop um slot kind chunked False (start + len) (tot + len) False out))"
  by pat_completeness auto
termination copy_loop
  by (relation "measure (\<lambda>(_, slot, _, _, _, pos, _). length slot - pos)")
    (auto dest!: slot_chunk_Some)

declare copy_loop.simps [simp del]

definition slot_copy_string :: "nat \<Rightarrow> bytes \<Rightarrow> bytes \<Rightarrow> bytes \<times> (CopyError, nat) result" where
  "slot_copy_string um slot out =
     (case parse_head slot of
        None \<Rightarrow> (out, Err Refused)
      | Some head \<Rightarrow>
          let kind = push_bit 5 (hd_major head);
              chunked = (\<not> head_length_known head);
              pos = (if chunked then 1 else 0) in
          (case copy_loop um slot kind chunked True pos 0 True out of
             (out, Err e) \<Rightarrow> (out, Err e)
           | (out, Ok (tot, fits)) \<Rightarrow>
               let out = (if fits \<and> tot < length out then out[tot := 0] else out) in
               (out, if fits then Ok tot else Err (TooSmall tot))))"

section \<open>A partition\<close>

text \<open>\<open>read_le\<close> folds a byte list from its last byte; \<open>write_le\<close> fills one.\<close>

definition read_le :: "bytes \<Rightarrow> u64" where
  "read_le bs = foldl (\<lambda>a b. push_bit 8 a OR ucast b) 0 (rev bs)"

definition le_bytes :: "nat \<Rightarrow> u64 \<Rightarrow> bytes" where
  "le_bytes n v = map (\<lambda>i. ucast (drop_bit (8 * i) v)) [0..<n]"

definition write_le :: "bytes \<Rightarrow> nat \<Rightarrow> nat \<Rightarrow> u64 \<Rightarrow> bytes option" where
  "write_le img a b v = do {
     dst \<leftarrow> range_at img a b;
     copy_at img a (le_bytes (length dst) v) }"

record ConfigPartition =
  cp_layout :: Layout
  cp_image :: bytes
  cp_needs_commit :: bool

definition conf_new :: "Layout \<Rightarrow> ConfigPartition" where
  "conf_new L = \<lparr>cp_layout = L, cp_image = replicate MAX_IMAGE_LEN 0, cp_needs_commit = False\<rparr>"

definition conf_image :: "ConfigPartition \<Rightarrow> bytes option" where
  "conf_image p = range_at (cp_image p) 0 (image_len (cp_layout p))"

definition conf_u32_at :: "ConfigPartition \<Rightarrow> nat \<Rightarrow> u32 option" where
  "conf_u32_at p off = do {
     a \<leftarrow> get_at (cp_image p) off;
     b \<leftarrow> get_at (cp_image p) (off + 1);
     c \<leftarrow> get_at (cp_image p) (off + 2);
     d \<leftarrow> get_at (cp_image p) (off + 3);
     Some (from_le [a, b, c, d]) }"

definition conf_put_u32 :: "ConfigPartition \<Rightarrow> nat \<Rightarrow> u32 \<Rightarrow> ConfigPartition option" where
  "conf_put_u32 p off v = do {
     img \<leftarrow> copy_at (cp_image p) off (to_le 4 v);
     Some (p\<lparr>cp_image := img\<rparr>) }"

definition conf_crc32 :: "ConfigPartition \<Rightarrow> u32 option" where
  "conf_crc32 p = conf_u32_at p 0"

definition conf_version :: "ConfigPartition \<Rightarrow> u32 option" where
  "conf_version p = conf_u32_at p 4"

definition num_keys :: "ConfigPartition \<Rightarrow> nat option" where
  "num_keys p = map_option unat (get_at (cp_image p) 8)"

definition set_num_keys :: "ConfigPartition \<Rightarrow> (u8 \<Rightarrow> u8 option) \<Rightarrow> ConfigPartition option" where
  "set_num_keys p f = do {
     n \<leftarrow> get_at (cp_image p) 8;
     n \<leftarrow> f n;
     img \<leftarrow> set_at (cp_image p) 8 n;
     Some (p\<lparr>cp_image := img\<rparr>) }"

text \<open>The checked \<open>+= 1\<close> and \<open>-= 1\<close> on the count.\<close>

definition one_more :: "u8 \<Rightarrow> u8 option" where
  "one_more n = (if n = - 1 then None else Some (n + 1))"

definition one_less :: "u8 \<Rightarrow> u8 option" where
  "one_less n = (if n = 0 then None else Some (n - 1))"

text \<open>\<open>read\<close> fills the image in place and reports whether it succeeded.\<close>

definition load_with :: "(bytes \<Rightarrow> bytes \<times> bool) \<Rightarrow> ConfigPartition \<Rightarrow> (ConfigPartition \<times> bool) option" where
  "load_with read p = do {
     let len = image_len (cp_layout p);
     front \<leftarrow> range_at (cp_image p) 0 len;
     (let (front, ok) = read front in do {
     img \<leftarrow> copy_at (cp_image p) 0 front;
     let p = p\<lparr>cp_image := img\<rparr>;
     ok \<leftarrow> (if \<not> ok then Some False
            else do {
              body \<leftarrow> range_at (cp_image p) 4 len;
              crc \<leftarrow> conf_crc32 p;
              n \<leftarrow> num_keys p;
              Some (crc32_ieee body = crc \<and> n \<le> MAX_NUM_KV) });
     (if ok then Some (p, True)
      else do {
        p \<leftarrow> set_num_keys p (\<lambda>_. Some 0);
        p \<leftarrow> conf_put_u32 p 4 CONFIG_VERSION;
        Some (p, False) }) }) }"

definition stored_key :: "ConfigPartition \<Rightarrow> nat \<Rightarrow> StoredKey option" where
  "stored_key p i = do {
     let off = key_offset (cp_layout p) i;
     buf \<leftarrow> range_at (cp_image p) off (off + KEY_BUF_LEN);
     let kw = key_len_width (cp_layout p);
     let vw = value_type_width (cp_layout p);
     len \<leftarrow> range_at (cp_image p) (off + KEY_BUF_LEN) (off + KEY_BUF_LEN + kw);
     ty \<leftarrow> range_at (cp_image p) (off + KEY_BUF_LEN + kw) (off + KEY_BUF_LEN + kw + vw);
     Some \<lparr>key_buf = buf, key_len = read_le len, value_type = ucast (read_le ty)\<rparr> }"

text \<open>The first list of results of a function that may panic.\<close>

primrec collect :: "('a \<Rightarrow> 'b option) \<Rightarrow> 'a list \<Rightarrow> 'b list option" where
  "collect f [] = Some []"
| "collect f (x # xs) = do { y \<leftarrow> f x; ys \<leftarrow> collect f xs; Some (y # ys) }"

definition stored_keys :: "ConfigPartition \<Rightarrow> StoredKey list option" where
  "stored_keys p = do { n \<leftarrow> num_keys p; collect (stored_key p) [0..<n] }"

section \<open>Looking up a key\<close>

text \<open>The comparison of \<open>find\<close>: the bytes at \<open>off\<close>, those past the image reading as zero,
  against the key's, up to a zero in both. \<open>n\<close> characters are left, \<open>j\<close> is the next.\<close>

fun key_matches :: "bytes \<Rightarrow> nat \<Rightarrow> Key \<Rightarrow> nat \<Rightarrow> nat \<Rightarrow> bool" where
  "key_matches img off k 0 j = True"
| "key_matches img off k (Suc n) j =
     (let a = key_byte k j;
          b = (case get_at img (off + j) of Some b \<Rightarrow> b | None \<Rightarrow> 0) in
      if a \<noteq> b then False
      else if a = 0 then True
      else key_matches img off k n (j + 1))"

primrec find_in :: "(nat \<Rightarrow> bool option) \<Rightarrow> nat list \<Rightarrow> nat option option" where
  "find_in f [] = Some None"
| "find_in f (i # is) = do { b \<leftarrow> f i; (if b then Some (Some i) else find_in f is) }"

definition conf_find :: "ConfigPartition \<Rightarrow> Key \<Rightarrow> nat option option" where
  "conf_find p k = do {
     n \<leftarrow> num_keys p;
     find_in (\<lambda>i. do {
        let off = key_offset (cp_layout p) i;
        stored \<leftarrow> stored_key p i;
        Some (key_len stored = of_nat (k_len k) \<and> key_matches (cp_image p) off k (k_len k) 0) })
       [0..<n] }"

definition conf_slot :: "ConfigPartition \<Rightarrow> nat \<Rightarrow> bytes option" where
  "conf_slot p idx =
     (let off = value_offset (cp_layout p) idx in range_at (cp_image p) off (off + SLOT))"

definition parsed :: "ConfigPartition \<Rightarrow> Key \<Rightarrow> (nat \<times> Head) option option" where
  "parsed p k =
     (if MAX_KEY_LEN_BYTES < k_len k then Some None
      else do {
        found \<leftarrow> conf_find p k;
        (case found of
           None \<Rightarrow> Some None
         | Some idx \<Rightarrow> do {
             s \<leftarrow> conf_slot p idx;
             Some (map_option (\<lambda>head. (idx, head)) (parse_head s)) }) })"

section \<open>Getters\<close>

definition get_uint :: "ConfigPartition \<Rightarrow> Key \<Rightarrow> u32 option option" where
  "get_uint p k = do {
     r \<leftarrow> parsed p k;
     Some (case r of None \<Rightarrow> None
       | Some (_, head) \<Rightarrow> if hd_major head = 0 then Some (ucast (hd_arg head)) else None) }"

text \<open>Integers are given by their bits: \<open>- x\<close> wraps, like \<open>wrapping_neg\<close>.\<close>

definition get_int :: "ConfigPartition \<Rightarrow> Key \<Rightarrow> u32 option option" where
  "get_int p k = do {
     r \<leftarrow> parsed p k;
     Some (case r of None \<Rightarrow> None
       | Some (_, head) \<Rightarrow>
           if hd_major head = 0 then Some (ucast (hd_arg head))
           else if hd_major head = 1 then Some (ucast (- hd_arg head - 1))
           else None) }"

definition conf_get_float :: "ConfigPartition \<Rightarrow> Key \<Rightarrow> u32 option option" where
  "conf_get_float p k = do {
     r \<leftarrow> parsed p k;
     Some (case r of None \<Rightarrow> None
       | Some (_, head) \<Rightarrow>
           if hd_major head = 7 \<and> hd_info head = 26 then Some (ucast (hd_arg head)) else None) }"

definition get_str_like ::
  "nat \<Rightarrow> ConfigPartition \<Rightarrow> Key \<Rightarrow> u8 \<Rightarrow> bytes \<Rightarrow> (bytes \<times> (CopyError, nat) result) option" where
  "get_str_like um p k major out = do {
     r \<leftarrow> parsed p k;
     (case r of
        None \<Rightarrow> Some (out, Err Refused)
      | Some (idx, head) \<Rightarrow>
          if hd_major head \<noteq> major then Some (out, Err Refused)
          else do { s \<leftarrow> conf_slot p idx; Some (slot_copy_string um s out) }) }"

definition get_string :: "nat \<Rightarrow> ConfigPartition \<Rightarrow> Key \<Rightarrow> bytes \<Rightarrow> (bytes \<times> (CopyError, nat) result) option" where
  "get_string um p k out = get_str_like um p k 3 out"

definition get_buffer :: "nat \<Rightarrow> ConfigPartition \<Rightarrow> Key \<Rightarrow> bytes \<Rightarrow> (bytes \<times> (CopyError, nat) result) option" where
  "get_buffer um p k out = get_str_like um p k 2 out"

definition get_cbor :: "ConfigPartition \<Rightarrow> Key \<Rightarrow> bytes \<Rightarrow> (bytes \<times> nat option) option" where
  "get_cbor p k out = do {
     r \<leftarrow> parsed p k;
     (case r of
        None \<Rightarrow> Some (out, None)
      | Some (idx, _) \<Rightarrow>
          if length out < SLOT then Some (out, None)
          else do { s \<leftarrow> conf_slot p idx; out \<leftarrow> copy_at out 0 s; Some (out, Some SLOT) }) }"

definition value_size :: "nat \<Rightarrow> ConfigPartition \<Rightarrow> Key \<Rightarrow> nat option option" where
  "value_size um p k = do {
     r \<leftarrow> parsed p k;
     Some (case r of None \<Rightarrow> None
       | Some (_, head) \<Rightarrow>
           (case config_type head of
              None \<Rightarrow> None
            | Some ty \<Rightarrow>
                if ty = Uint32 \<or> ty = Int32 \<or> ty = Float then Some 4 else head_length um head)) }"

section \<open>Setters\<close>

definition write_key_buf :: "ConfigPartition \<Rightarrow> nat \<Rightarrow> Key \<Rightarrow> ConfigPartition option" where
  "write_key_buf p idx k = do {
     let off = key_offset (cp_layout p) idx;
     let n = min (key_strlen k) (KEY_BUF_LEN - 1);
     text \<leftarrow> range_at (k_text k) 0 n;
     img \<leftarrow> copy_at (cp_image p) off text;
     img \<leftarrow> set_at img (off + n) 0;
     Some (p\<lparr>cp_image := img\<rparr>) }"

definition write_key_meta :: "ConfigPartition \<Rightarrow> nat \<Rightarrow> Key \<Rightarrow> ValueType \<Rightarrow> ConfigPartition option" where
  "write_key_meta p idx k ty = do {
     let off = key_offset (cp_layout p) idx + KEY_BUF_LEN;
     let kw = key_len_width (cp_layout p);
     let vw = value_type_width (cp_layout p);
     img \<leftarrow> write_le (cp_image p) (off + kw) (off + kw + vw) (value_type_code ty);
     img \<leftarrow> write_le img off (off + kw) (of_nat (k_len k));
     Some (p\<lparr>cp_image := img\<rparr>) }"

text \<open>\<open>encode\<close> rewrites the slot and reports success.\<close>

definition set_typed ::
  "ConfigPartition \<Rightarrow> Key \<Rightarrow> ValueType \<Rightarrow> (bytes \<Rightarrow> (bytes \<times> bool) option) \<Rightarrow>
     (ConfigPartition \<times> bool) option" where
  "set_typed p k ty encode =
     (if MAX_KEY_LEN_BYTES < k_len k then Some (p, False)
      else do {
        n \<leftarrow> num_keys p;
        (if MAX_NUM_KV \<le> n then Some (p, False)
         else do {
           found \<leftarrow> conf_find p k;
           (case (case found of Some idx \<Rightarrow> Some (idx, True)
                  | None \<Rightarrow> if key_is_valid k then Some (n, False) else None) of
              None \<Rightarrow> Some (p, False)
            | Some (idx, exists) \<Rightarrow> do {
                p \<leftarrow> write_key_buf p idx k;
                let off = value_offset (cp_layout p) idx;
                s \<leftarrow> range_at (cp_image p) off (off + SLOT);
                (s, ok) \<leftarrow> encode s;
                img \<leftarrow> copy_at (cp_image p) off s;
                let p = p\<lparr>cp_image := img\<rparr>;
                (if \<not> ok then Some (p, False)
                 else do {
                   p \<leftarrow> write_key_meta p idx k ty;
                   p \<leftarrow> (if exists then Some p else set_num_keys p one_more);
                   Some (p\<lparr>cp_needs_commit := True\<rparr>, True) }) }) }) })"

definition slot_push :: "cbor2 \<Rightarrow> bytes \<Rightarrow> Header \<Rightarrow> (bytes \<times> bool) option" where
  "slot_push C slot header =
     (case push C header slot of (slot, _, ok) \<Rightarrow> Some (slot, ok))"

definition slot_push_string :: "cbor2 \<Rightarrow> bytes \<Rightarrow> Header \<Rightarrow> bytes \<Rightarrow> (bytes \<times> bool) option" where
  "slot_push_string C slot header body =
     (case push C header (replicate 9 0) of (head, hlen, ok) \<Rightarrow>
        if \<not> ok then Some (slot, False)
        else do {
          front \<leftarrow> range_at head 0 hlen;
          slot \<leftarrow> copy_at slot 0 front;
          Some (case copy_at slot hlen body of
              Some slot \<Rightarrow> (slot, True)
            | None \<Rightarrow> (slot, False)) })"

definition set_uint :: "cbor2 \<Rightarrow> ConfigPartition \<Rightarrow> Key \<Rightarrow> u32 \<Rightarrow> (ConfigPartition \<times> bool) option" where
  "set_uint C p k value = set_typed p k Uint32 (\<lambda>s. slot_push C s (Positive (ucast value)))"

definition int_header :: "u32 \<Rightarrow> Header" where
  "int_header value =
     (let v = (scast value :: u64) in if v <s 0 then Negative (NOT v) else Positive v)"

definition set_int :: "cbor2 \<Rightarrow> ConfigPartition \<Rightarrow> Key \<Rightarrow> u32 \<Rightarrow> (ConfigPartition \<times> bool) option" where
  "set_int C p k value = set_typed p k Int32 (\<lambda>s. slot_push C s (int_header value))"

definition set_float :: "cbor2 \<Rightarrow> ConfigPartition \<Rightarrow> Key \<Rightarrow> u32 \<Rightarrow> (ConfigPartition \<times> bool) option" where
  "set_float C p k bits =
     set_typed p k Float (\<lambda>s. case push_f32_wide C bits s of (s, _, ok) \<Rightarrow> Some (s, ok))"

definition set_string :: "cbor2 \<Rightarrow> ConfigPartition \<Rightarrow> Key \<Rightarrow> bytes \<Rightarrow> (ConfigPartition \<times> bool) option" where
  "set_string C p k value =
     set_typed p k Str (\<lambda>s. slot_push_string C s (Text (Some (length value))) value)"

definition set_buffer :: "cbor2 \<Rightarrow> ConfigPartition \<Rightarrow> Key \<Rightarrow> bytes \<Rightarrow> (ConfigPartition \<times> bool) option" where
  "set_buffer C p k value =
     set_typed p k ByteStr (\<lambda>s. slot_push_string C s (Bytes (Some (length value))) value)"

definition set_cbor :: "ConfigPartition \<Rightarrow> Key \<Rightarrow> bytes \<Rightarrow> (ConfigPartition \<times> bool) option" where
  "set_cbor p k value =
     (if MAX_KEY_LEN_BYTES < k_len k then Some (p, False)
      else if SLOT < length value \<or> value = [] then Some (p, False)
      else case parse_head value of
        None \<Rightarrow> Some (p, False)
      | Some head \<Rightarrow> do {
          n \<leftarrow> num_keys p;
          found \<leftarrow> conf_find p k;
          placed \<leftarrow> (case found of
              Some idx \<Rightarrow> Some (Some (p, idx))
            | None \<Rightarrow>
                if \<not> key_is_valid k \<or> MAX_NUM_KV \<le> n then Some None
                else do { p \<leftarrow> write_key_buf p n k; Some (Some (p, n)) });
          (case placed of
             None \<Rightarrow> Some (p, False)
           | Some (p, idx) \<Rightarrow>
               (case config_type head of
                  None \<Rightarrow> Some (p, False)
                | Some ty \<Rightarrow> do {
                    p \<leftarrow> write_key_meta p idx k ty;
                    let off = value_offset (cp_layout p) idx;
                    img \<leftarrow> copy_at (cp_image p) off value;
                    let p = p\<lparr>cp_image := img\<rparr>;
                    p \<leftarrow> (if idx = n then set_num_keys p one_more else Some p);
                    Some (p\<lparr>cp_needs_commit := True\<rparr>, True) })) })"

text \<open>\<open>copy_within(from..to, dest)\<close>.\<close>

definition move_within :: "'a list \<Rightarrow> nat \<Rightarrow> nat \<Rightarrow> nat \<Rightarrow> 'a list option" where
  "move_within xs from to dest = do { part \<leftarrow> range_at xs from to; copy_at xs dest part }"

definition remove_key :: "ConfigPartition \<Rightarrow> Key \<Rightarrow> (ConfigPartition \<times> bool) option" where
  "remove_key p k = do {
     found \<leftarrow> conf_find p k;
     (case found of
        None \<Rightarrow> Some (p, False)
      | Some idx \<Rightarrow> do {
          n \<leftarrow> num_keys p;
          img \<leftarrow>
            (if n = 0 then None
             else if idx < n - 1 then do {
               let ks = key_size (cp_layout p);
               let from = key_offset (cp_layout p) (idx + 1);
               img \<leftarrow> move_within (cp_image p) from (from + (n - 1 - idx) * ks) (from - ks);
               let from = value_offset (cp_layout p) (idx + 1);
               move_within img from (from + (n - 1 - idx) * SLOT) (from - SLOT) }
             else Some (cp_image p));
          p \<leftarrow> set_num_keys (p\<lparr>cp_image := img\<rparr>) one_less;
          Some (p\<lparr>cp_needs_commit := True\<rparr>, True) }) }"

definition conf_clear :: "ConfigPartition \<Rightarrow> ConfigPartition option" where
  "conf_clear p = do {
     p \<leftarrow> conf_put_u32 (p\<lparr>cp_image := replicate MAX_IMAGE_LEN 0\<rparr>) 4 CONFIG_VERSION;
     Some (p\<lparr>cp_needs_commit := True\<rparr>) }"

definition seal :: "ConfigPartition \<Rightarrow> (ConfigPartition \<times> bytes) option" where
  "seal p = do {
     let len = image_len (cp_layout p);
     body \<leftarrow> range_at (cp_image p) 4 len;
     p \<leftarrow> conf_put_u32 p 0 (crc32_ieee body);
     img \<leftarrow> range_at (cp_image p) 0 len;
     Some (p, img) }"

definition mark_saved :: "ConfigPartition \<Rightarrow> ConfigPartition" where
  "mark_saved p = p\<lparr>cp_needs_commit := False\<rparr>"

section \<open>The shape of a partition\<close>

definition layout_ok :: "Layout \<Rightarrow> bool" where
  "layout_ok L \<longleftrightarrow> (key_len_width L = 4 \<or> key_len_width L = 8) \<and>
     (value_type_width L = 1 \<or> value_type_width L = 2 \<or> value_type_width L = 4)"

definition conf_wf :: "ConfigPartition \<Rightarrow> bool" where
  "conf_wf p \<longleftrightarrow> layout_ok (cp_layout p) \<and> length (cp_image p) = MAX_IMAGE_LEN \<and>
     unat (cp_image p ! 8) \<le> MAX_NUM_KV"

lemmas conf_consts = MAX_NUM_KV_def MAX_KEY_LEN_BYTES_def MAX_CONFIG_BUFFER_SIZE_BYTES_def
  HEADER_LEN_def KEY_BUF_LEN_def SLOT_def

lemma layout_new_ok: "layout_new kw vw = Some L \<longleftrightarrow>
    layout_ok L \<and> L = \<lparr>key_len_width = kw, value_type_width = vw\<rparr>"
  by (auto simp: layout_new_def layout_ok_def Let_def)

lemma key_size_bounds: "layout_ok L \<Longrightarrow> 37 \<le> key_size L \<and> key_size L \<le> 44"
  by (auto simp: layout_ok_def key_size_def conf_consts)

lemma MAX_IMAGE_LEN_eq: "MAX_IMAGE_LEN = 4709"
  by (simp add: MAX_IMAGE_LEN_def image_len_def key_size_def LP64_def conf_consts)

lemma image_len_eq: "image_len L = 2509 + 50 * key_size L"
  by (simp add: image_len_def conf_consts)

lemma image_len_bound: "layout_ok L \<Longrightarrow> 4359 \<le> image_len L \<and> image_len L \<le> MAX_IMAGE_LEN"
  using key_size_bounds [of L] by (simp add: image_len_eq MAX_IMAGE_LEN_eq)

text \<open>The regions of the image: the header, the key records and the slots, in this order and
  apart from one another.\<close>

lemma key_region:
  assumes "i < 50"
  shows "9 \<le> key_offset L i" "key_offset L i + key_size L \<le> 9 + 50 * key_size L"
proof -
  have "(i + 1) * key_size L \<le> 50 * key_size L" using assms by (intro mult_le_mono1) simp
  then show "9 \<le> key_offset L i" "key_offset L i + key_size L \<le> 9 + 50 * key_size L"
    by (simp_all add: key_offset_def conf_consts)
qed

lemma slot_region:
  assumes "i < 50"
  shows "9 + 50 * key_size L \<le> value_offset L i" "value_offset L i + 50 \<le> image_len L"
  using assms by (simp_all add: value_offset_def image_len_eq conf_consts)

lemma key_regions_apart:
  assumes "i < j"
  shows "key_offset L i + key_size L \<le> key_offset L j"
proof -
  have "(i + 1) * key_size L \<le> j * key_size L" using assms by (intro mult_le_mono1) simp
  then show ?thesis by (simp add: key_offset_def)
qed

lemma slot_regions_apart: "i < j \<Longrightarrow> value_offset L i + 50 \<le> value_offset L j"
  by (simp add: value_offset_def conf_consts)

section \<open>Reading the rows of a partition\<close>

definition stored :: "ConfigPartition \<Rightarrow> nat \<Rightarrow> StoredKey" where
  "stored p i =
     (let off = key_offset (cp_layout p) i; kw = key_len_width (cp_layout p);
          vw = value_type_width (cp_layout p) in
      \<lparr>key_buf = subslice (cp_image p) off 32,
       key_len = read_le (subslice (cp_image p) (off + 32) kw),
       value_type = ucast (read_le (subslice (cp_image p) (off + 32 + kw) vw))\<rparr>)"

definition slot_of :: "ConfigPartition \<Rightarrow> nat \<Rightarrow> bytes" where
  "slot_of p i = subslice (cp_image p) (value_offset (cp_layout p) i) 50"

definition n_keys :: "ConfigPartition \<Rightarrow> nat" where
  "n_keys p = unat (cp_image p ! 8)"

lemma num_keys_eq: "conf_wf p \<Longrightarrow> num_keys p = Some (n_keys p)"
  by (simp add: num_keys_def n_keys_def conf_wf_def MAX_IMAGE_LEN_eq buf_simps)

lemma n_keys_le: "conf_wf p \<Longrightarrow> n_keys p \<le> 50"
  by (simp add: conf_wf_def n_keys_def conf_consts)

lemma conf_wf_bounds:
  assumes "conf_wf p" "i < 50"
  shows "key_offset (cp_layout p) i + key_size (cp_layout p) \<le> length (cp_image p)"
    "value_offset (cp_layout p) i + 50 \<le> length (cp_image p)"
    "9 < length (cp_image p)"
proof -
  have L: "layout_ok (cp_layout p)" "length (cp_image p) = MAX_IMAGE_LEN"
    using assms(1) by (simp_all add: conf_wf_def)
  show "value_offset (cp_layout p) i + 50 \<le> length (cp_image p)"
    using slot_region(2) [OF assms(2), of "cp_layout p"] image_len_bound [OF L(1)] L(2) by simp
  show "key_offset (cp_layout p) i + key_size (cp_layout p) \<le> length (cp_image p)"
    using key_region(2) [OF assms(2), of "cp_layout p"] image_len_bound [OF L(1)] L(2)
    by (simp add: image_len_eq)
  show "9 < length (cp_image p)" using L(2) by (simp add: MAX_IMAGE_LEN_eq)
qed

lemma stored_key_eq:
  assumes "conf_wf p" "i < 50"
  shows "stored_key p i = Some (stored p i)"
  using conf_wf_bounds(1) [OF assms]
  by (simp add: stored_key_def stored_def Let_def key_size_def conf_consts buf_simps)

lemma conf_slot_eq:
  assumes "conf_wf p" "i < 50"
  shows "conf_slot p i = Some (slot_of p i)"
  using conf_wf_bounds(2) [OF assms] by (simp add: conf_slot_def slot_of_def conf_consts buf_simps)

lemma length_stored [simp]:
  assumes "conf_wf p" "i < 50"
  shows "length (key_buf (stored p i)) = 32" "length (slot_of p i) = 50"
  using conf_wf_bounds [OF assms] by (simp_all add: stored_def slot_of_def Let_def key_size_def conf_consts)

section \<open>Comparing keys\<close>

definition cstr :: "bytes \<Rightarrow> bytes" where "cstr bs = takeWhile (\<lambda>b. b \<noteq> 0) bs"

lemma key_matches_cstr:
  "key_matches img off k n j \<longleftrightarrow> take n (cstr (drop j (k_text k))) = take n (cstr (drop (off + j) img))"
proof (induction n arbitrary: j)
  case (Suc n)
  have byte: "(case get_at xs i of Some b \<Rightarrow> b | None \<Rightarrow> 0) =
      (case drop i xs of [] \<Rightarrow> 0 | b # _ \<Rightarrow> b)" for xs :: bytes and i
    by (cases "i < length xs") (simp_all add: get_at_def Cons_nth_drop_Suc [symmetric])
  have tail: "drop (Suc i) xs = tl (drop i xs)" for xs :: bytes and i
    by (simp add: drop_Suc drop_tl)
  show ?case using Suc.IH [of "j + 1"]
    by (cases "drop j (k_text k)"; cases "drop (off + j) img")
      (auto simp: key_byte_def byte tail cstr_def Let_def)
qed simp

text \<open>What identifies a key: its length and its first characters.\<close>

definition key_id :: "Key \<Rightarrow> u64 \<times> bytes" where
  "key_id k = (of_nat (k_len k), take (k_len k) (cstr (k_text k)))"

definition stored_id :: "StoredKey \<Rightarrow> u64 \<times> bytes" where
  "stored_id sk = (key_len sk, take (unat (key_len sk)) (cstr (key_buf sk)))"

lemma take_takeWhile_prefix: "n \<le> m \<Longrightarrow> take n (takeWhile P (take m xs)) = take n (takeWhile P xs)"
proof (induction xs arbitrary: n m)
  case (Cons x xs)
  then show ?case by (cases m; cases n) auto
qed simp

lemma key_matches_stored:
  assumes "conf_wf p" "i < 50" "k_len k \<le> 32"
  shows "key_len (stored p i) = of_nat (k_len k) \<and>
      key_matches (cp_image p) (key_offset (cp_layout p) i) k (k_len k) 0 \<longleftrightarrow>
    stored_id (stored p i) = key_id k"
proof -
  have "unat (of_nat (k_len k) :: u64) = k_len k" using assms(3) by (simp add: unat_of_nat_64)
  moreover have "take (k_len k) (cstr (drop (key_offset (cp_layout p) i) (cp_image p))) =
      take (k_len k) (cstr (key_buf (stored p i)))"
    using take_takeWhile_prefix [OF assms(3), of "\<lambda>b. b \<noteq> 0" "drop (key_offset (cp_layout p) i) (cp_image p)"]
    by (simp add: cstr_def stored_def Let_def subslice_def)
  ultimately show ?thesis
    by (auto simp: key_matches_cstr stored_id_def key_id_def)
qed

section \<open>The partition as a list of rows\<close>

text \<open>Of each key its identity, its type and its slot.\<close>

definition conf_abs :: "ConfigPartition \<Rightarrow> ((u64 \<times> bytes) \<times> u32 \<times> bytes) list" where
  "conf_abs p = map (\<lambda>i. (stored_id (stored p i), value_type (stored p i), slot_of p i)) [0..<n_keys p]"

lemma find_in_total:
  assumes "\<And>i. i \<in> set is \<Longrightarrow> f i = Some (P i)"
  shows "find_in f is = Some (List.find P is)"
  using assms by (induction "is") auto

lemma find_index_snoc:
  "find_index P (xs @ [x]) =
    (case find_index P xs of Some i \<Rightarrow> Some i | None \<Rightarrow> if P x then Some (length xs) else None)"
proof (cases "\<exists>y\<in>set xs. P y")
  case True
  then have "length (takeWhile (\<lambda>x. \<not> P x) xs) < length xs"
    using find_index_None [of P xs] unfolding find_index_def Let_def by metis
  then show ?thesis using True by (auto simp: find_index_def Let_def takeWhile_append1)
next
  case False
  then have "find_index P xs = None" using find_index_None by blast
  moreover have "takeWhile (\<lambda>x. \<not> P x) (xs @ [x]) = xs @ takeWhile (\<lambda>x. \<not> P x) [x]"
    using False by (intro takeWhile_append2) blast
  ultimately show ?thesis by (simp add: find_index_def Let_def)
qed

lemma find_upt:
  assumes "\<And>i. i < n \<Longrightarrow> P i = Q (g i)"
  shows "List.find P [0..<n] = find_index Q (map g [0..<n])"
  using assms
proof (induction n)
  case (Suc n)
  have snoc: "List.find P (xs @ [x]) = (case List.find P xs of Some i \<Rightarrow> Some i | None \<Rightarrow> if P x then Some x else None)"
    for xs and x :: nat by (induction xs) auto
  show ?case using Suc by (simp add: snoc find_index_snoc split: option.split)
qed (simp add: find_index_def)

lemma conf_find_eq:
  assumes wf: "conf_wf p" and k: "k_len k \<le> 32"
  shows "conf_find p k = Some (find_index (\<lambda>r. fst r = key_id k) (conf_abs p))"
proof -
  have "conf_find p k = Some (List.find (\<lambda>i. stored_id (stored p i) = key_id k) [0..<n_keys p])"
    using n_keys_le [OF wf] key_matches_stored [OF wf _ k]
    by (simp add: conf_find_def num_keys_eq [OF wf])
      (intro find_in_total, simp add: stored_key_eq [OF wf])
  then show ?thesis by (simp add: conf_abs_def find_upt [where g = "\<lambda>i. (stored_id (stored p i), _ i)"])
qed

text \<open>\<open>remove_key\<close> does not bound the length of its key.\<close>

lemma conf_find_total:
  assumes wf: "conf_wf p"
  shows "\<exists>r. conf_find p k = Some r \<and> (\<forall>i. r = Some i \<longrightarrow> i < n_keys p)"
proof -
  define P where "P i = (key_len (stored p i) = of_nat (k_len k) \<and>
    key_matches (cp_image p) (key_offset (cp_layout p) i) k (k_len k) 0)" for i
  have "conf_find p k = Some (List.find P [0..<n_keys p])"
    using n_keys_le [OF wf]
    by (simp add: conf_find_def num_keys_eq [OF wf])
      (intro find_in_total, simp add: stored_key_eq [OF wf] P_def)
  then show ?thesis by (auto simp: find_Some_iff)
qed

section \<open>Editing a partition\<close>

lemma subslice_put_apart:
  "a + length xs \<le> length buf \<Longrightarrow> a + length xs \<le> b \<or> b + n \<le> a \<Longrightarrow>
   subslice (put buf a xs) b n = subslice buf b n"
  by auto

lemma subslice_put_inside:
  assumes "b \<le> a" "a + length xs \<le> b + n" "b + n \<le> length buf"
  shows "subslice (put buf a xs) b n = put (subslice buf b n) (a - b) xs"
  using assms by (intro nth_equalityI) (auto simp: nth_put add.commute)

lemma read_le_eq: "read_le bs = from_le bs"
  by (induction bs) (simp_all add: read_le_def or.commute)

lemma le_bytes_eq: "le_bytes n v = to_le n v"
proof (induction n arbitrary: v)
  case (Suc n)
  have "le_bytes (Suc n) v = ucast v # le_bytes n (drop_bit 8 v)"
    by (auto simp: le_bytes_def upt_conv_Cons map_Suc_upt [symmetric] add.commute simp del: upt_Suc)
  then show ?case using Suc by simp
qed (simp add: le_bytes_def)

lemma read_le_bytes:
  assumes "unat (v :: u64) < 2 ^ (8 * n)"
  shows "read_le (le_bytes n v) = v"
proof -
  have "take_bit (8 * n) v = v"
    using assms by (simp add: word_unat_eq_iff unsigned_take_bit_eq take_bit_nat_eq_self)
  then show ?thesis by (simp add: read_le_eq le_bytes_eq from_to_le_take_bit)
qed

lemma length_le_bytes [simp]: "length (le_bytes n v) = n"
  by (simp add: le_bytes_def)

text \<open>A key record as a whole.\<close>

definition krec :: "ConfigPartition \<Rightarrow> nat \<Rightarrow> bytes" where
  "krec p i = subslice (cp_image p) (key_offset (cp_layout p) i) (key_size (cp_layout p))"

definition key_of :: "Layout \<Rightarrow> bytes \<Rightarrow> StoredKey" where
  "key_of L b = \<lparr>key_buf = subslice b 0 32, key_len = read_le (subslice b 32 (key_len_width L)),
     value_type = ucast (read_le (subslice b (32 + key_len_width L) (value_type_width L)))\<rparr>"

lemma stored_krec: "stored p i = key_of (cp_layout p) (krec p i)"
  by (simp add: stored_def key_of_def krec_def key_size_def conf_consts Let_def add.assoc)

lemma length_krec: "conf_wf p \<Longrightarrow> i < 50 \<Longrightarrow> length (krec p i) = key_size (cp_layout p)"
  using conf_wf_bounds(1) [of p i] by (simp add: krec_def)

text \<open>\<open>p'\<close> is \<open>p\<close> with other rows, as far as the layout allows.\<close>

definition same_shape :: "ConfigPartition \<Rightarrow> ConfigPartition \<Rightarrow> bool" where
  "same_shape p p' \<longleftrightarrow> cp_layout p' = cp_layout p \<and> length (cp_image p') = length (cp_image p) \<and>
     take 9 (cp_image p') = take 9 (cp_image p)"

lemma same_shape_wf: "same_shape p p' \<Longrightarrow> conf_wf p \<Longrightarrow> conf_wf p'"
  and same_shape_keys: "same_shape p p' \<Longrightarrow> n_keys p' = n_keys p"
proof -
  have "cp_image p' ! 8 = cp_image p ! 8" if "same_shape p p'"
    using that nth_take [of 8 9 "cp_image p'"] nth_take [of 8 9 "cp_image p"] by (simp add: same_shape_def)
  then show "same_shape p p' \<Longrightarrow> conf_wf p \<Longrightarrow> conf_wf p'" "same_shape p p' \<Longrightarrow> n_keys p' = n_keys p"
    by (simp_all add: same_shape_def conf_wf_def n_keys_def)
qed

lemma same_shape_trans: "same_shape p q \<Longrightarrow> same_shape q r \<Longrightarrow> same_shape p r"
  by (simp add: same_shape_def)

lemma edit_key:
  assumes wf: "conf_wf p" and idx: "idx < 50" and d: "d + length xs \<le> key_size (cp_layout p)"
    and a: "a = key_offset (cp_layout p) idx + d"
  defines "p' \<equiv> p\<lparr>cp_image := put (cp_image p) a xs\<rparr>"
  shows "copy_at (cp_image p) a xs = Some (cp_image p')" "same_shape p p'"
    "i < 50 \<Longrightarrow> krec p' i = (if i = idx then put (krec p idx) d xs else krec p i)"
    "i < 50 \<Longrightarrow> slot_of p' i = slot_of p i"
proof -
  have l: "a + length xs \<le> length (cp_image p)" using conf_wf_bounds(1) [OF wf idx] d a by simp
  then show "copy_at (cp_image p) a xs = Some (cp_image p')" by (simp add: p'_def copy_at_def)
  have "9 \<le> a" using key_region(1) [OF idx, of "cp_layout p"] a by simp
  then show "same_shape p p'" using l by (simp add: same_shape_def p'_def put_def)
  show "slot_of p' i = slot_of p i" if "i < 50"
    using slot_region(1) [OF that, of "cp_layout p"] key_region(2) [OF idx, of "cp_layout p"] l a d
    by (simp add: p'_def slot_of_def)
  show "krec p' i = (if i = idx then put (krec p idx) d xs else krec p i)" if i: "i < 50"
  proof (cases i idx rule: linorder_cases)
    case equal
    then show ?thesis using subslice_put_inside [of "key_offset (cp_layout p) idx" a xs] a d
        conf_wf_bounds(1) [OF wf idx] by (simp add: p'_def krec_def)
  next
    case less
    then show ?thesis using key_regions_apart [OF less, of "cp_layout p"] a l by (simp add: p'_def krec_def)
  next
    case greater
    then show ?thesis using key_regions_apart [OF greater, of "cp_layout p"] a l d
      by (simp add: p'_def krec_def)
  qed
qed

lemma edit_slot:
  assumes wf: "conf_wf p" and idx: "idx < 50" and d: "length xs \<le> 50"
  defines "p' \<equiv> p\<lparr>cp_image := put (cp_image p) (value_offset (cp_layout p) idx) xs\<rparr>"
  shows "copy_at (cp_image p) (value_offset (cp_layout p) idx) xs = Some (cp_image p')" "same_shape p p'"
    "i < 50 \<Longrightarrow> krec p' i = krec p i"
    "i < 50 \<Longrightarrow> slot_of p' i = (if i = idx then put (slot_of p idx) 0 xs else slot_of p i)"
proof -
  let ?a = "value_offset (cp_layout p) idx"
  have l: "?a + length xs \<le> length (cp_image p)" using conf_wf_bounds(2) [OF wf idx] d by simp
  then show "copy_at (cp_image p) ?a xs = Some (cp_image p')" by (simp add: p'_def copy_at_def)
  have "9 \<le> ?a" using slot_region(1) [OF idx, of "cp_layout p"] by simp
  then show "same_shape p p'" using l by (simp add: same_shape_def p'_def put_def)
  show "krec p' i = krec p i" if "i < 50"
    using slot_region(1) [OF idx, of "cp_layout p"] key_region(2) [OF that, of "cp_layout p"] l
    by (simp add: p'_def krec_def)
  show "slot_of p' i = (if i = idx then put (slot_of p idx) 0 xs else slot_of p i)" if i: "i < 50"
  proof (cases i idx rule: linorder_cases)
    case equal
    then show ?thesis using subslice_put_inside [of ?a ?a xs 50 "cp_image p"] d
        conf_wf_bounds(2) [OF wf idx] by (simp add: p'_def slot_of_def)
  next
    case less
    then show ?thesis using slot_regions_apart [OF less, of "cp_layout p"] l by (simp add: p'_def slot_of_def)
  next
    case greater
    then show ?thesis using slot_regions_apart [OF greater, of "cp_layout p"] l d
      by (simp add: p'_def slot_of_def)
  qed
qed

lemma edit_header:
  assumes wf: "conf_wf p" and a: "a + length xs \<le> 9"
  defines "p' \<equiv> p\<lparr>cp_image := put (cp_image p) a xs\<rparr>"
  shows "copy_at (cp_image p) a xs = Some (cp_image p')"
    "i < 50 \<Longrightarrow> krec p' i = krec p i" "i < 50 \<Longrightarrow> slot_of p' i = slot_of p i"
    "length (cp_image p') = MAX_IMAGE_LEN"
    "a + length xs \<le> 8 \<Longrightarrow> cp_image p' ! 8 = cp_image p ! 8"
proof -
  have l: "a + length xs \<le> length (cp_image p)" using conf_wf_bounds(3) [OF wf, of 0] a by simp
  then show "copy_at (cp_image p) a xs = Some (cp_image p')" "length (cp_image p') = MAX_IMAGE_LEN"
    using wf by (simp_all add: p'_def copy_at_def conf_wf_def)
  show "krec p' i = krec p i" if "i < 50"
    using key_region(1) [OF that, of "cp_layout p"] a l by (simp add: p'_def krec_def)
  show "slot_of p' i = slot_of p i" if "i < 50"
    using slot_region(1) [OF that, of "cp_layout p"] a l by (simp add: p'_def slot_of_def)
  show "cp_image p' ! 8 = cp_image p ! 8" if "a + length xs \<le> 8"
    using that l by (simp add: p'_def nth_put)
qed

lemma set_num_keys_eq:
  assumes wf: "conf_wf p" and f: "f (cp_image p ! 8) = Some n" "unat n \<le> 50"
  defines "p' \<equiv> p\<lparr>cp_image := (cp_image p)[8 := n]\<rparr>"
  shows "set_num_keys p f = Some p'" "conf_wf p'" "n_keys p' = unat n"
    "i < 50 \<Longrightarrow> krec p' i = krec p i" "i < 50 \<Longrightarrow> slot_of p' i = slot_of p i"
proof -
  have l: "8 < length (cp_image p)" using conf_wf_bounds(3) [OF wf, of 0] by simp
  then show "set_num_keys p f = Some p'" using f(1) by (simp add: set_num_keys_def p'_def buf_simps)
  show "conf_wf p'" "n_keys p' = unat n" using wf f(2) l by (simp_all add: conf_wf_def p'_def n_keys_def conf_consts)
  have "p' = p\<lparr>cp_image := put (cp_image p) 8 [n]\<rparr>" using l by (simp add: p'_def put_singleton)
  then show "i < 50 \<Longrightarrow> krec p' i = krec p i" "i < 50 \<Longrightarrow> slot_of p' i = slot_of p i"
    using edit_header(2,3) [OF wf, of 8 "[n]"] by simp_all
qed

section \<open>What the writers leave\<close>

definition key_text :: "Key \<Rightarrow> bytes" where
  "key_text k = take 31 (cstr (k_text k)) @ [0]"

lemma key_strlen_eq: "key_strlen k = length (cstr (k_text k))"
  using length_takeWhile_le [of "\<lambda>b. b \<noteq> 0" "k_text k"]
  by (auto simp: key_strlen_def find_index_def cstr_def Let_def split: option.split)

lemma cstr_prefix: "n \<le> length (cstr xs) \<Longrightarrow> take n xs = take n (cstr xs)"
  unfolding cstr_def by (metis takeWhile_eq_take take_take min_absorb1)

lemma length_key_text: "length (key_text k) \<le> 32"
  by (simp add: key_text_def)

lemma write_key_buf_eq:
  assumes wf: "conf_wf p" and idx: "idx < 50"
  shows "write_key_buf p idx k =
    Some (p\<lparr>cp_image := put (cp_image p) (key_offset (cp_layout p) idx) (key_text k)\<rparr>)"
proof -
  let ?n = "min (length (cstr (k_text k))) 31" and ?off = "key_offset (cp_layout p) idx"
  have le: "length (cstr (k_text k)) \<le> length (k_text k)" by (simp add: cstr_def length_takeWhile_le)
  have t: "take ?n (k_text k) = take 31 (cstr (k_text k))" by (subst cstr_prefix) (simp_all add: min_def)
  have ks: "37 \<le> key_size (cp_layout p)" using wf key_size_bounds by (simp add: conf_wf_def)
  then have b: "?off + 32 < length (cp_image p)" using conf_wf_bounds(1) [OF wf idx] by simp
  have "range_at (k_text k) 0 ?n = Some (take 31 (cstr (k_text k)))"
    using le t by (simp add: range_at_def subslice_def)
  then show ?thesis using b
    by (simp add: write_key_buf_def key_strlen_eq conf_consts Let_def buf_simps key_text_def put_update_seq)
qed

definition put_meta :: "Layout \<Rightarrow> Key \<Rightarrow> ValueType \<Rightarrow> bytes \<Rightarrow> bytes" where
  "put_meta L k ty b =
     put (put b (32 + key_len_width L) (le_bytes (value_type_width L) (value_type_code ty)))
       32 (le_bytes (key_len_width L) (of_nat (k_len k)))"

lemma write_le_eq: "b = a + n \<Longrightarrow> b \<le> length img \<Longrightarrow> write_le img a b v = Some (put img a (le_bytes n v))"
  by (simp add: write_le_def buf_simps)

lemma write_key_meta_eq:
  assumes wf: "conf_wf p" and idx: "idx < 50"
  shows "\<exists>p'. write_key_meta p idx k ty = Some p' \<and> same_shape p p' \<and> cp_needs_commit p' = cp_needs_commit p \<and>
    (\<forall>i < 50. krec p' i = (if i = idx then put_meta (cp_layout p) k ty (krec p idx) else krec p i) \<and>
      slot_of p' i = slot_of p i)"
proof -
  let ?L = "cp_layout p"
  let ?off = "key_offset ?L idx" and ?kw = "key_len_width ?L" and ?vw = "value_type_width ?L"
  let ?q = "p\<lparr>cp_image := put (cp_image p) (?off + (32 + ?kw)) (le_bytes ?vw (value_type_code ty))\<rparr>"
  let ?r = "?q\<lparr>cp_image := put (cp_image ?q) (?off + 32) (le_bytes ?kw (of_nat (k_len k)))\<rparr>"
  have ks: "key_size ?L = 32 + ?kw + ?vw" by (simp add: key_size_def conf_consts)
  have b: "?off + 32 + ?kw + ?vw \<le> length (cp_image p)" using conf_wf_bounds(1) [OF wf idx] ks by simp
  note q = edit_key [OF wf idx, of "32 + ?kw" "le_bytes ?vw (value_type_code ty)", OF _ refl]
  have wfq: "conf_wf ?q" using q(2) same_shape_wf [OF _ wf] ks by simp
  note r = edit_key [OF wfq idx, of 32 "le_bytes ?kw (of_nat (k_len k))", OF _ refl]
  have "write_key_meta p idx k ty = Some ?r"
    using b by (simp add: write_key_meta_def conf_consts Let_def write_le_eq add.assoc)
  moreover have "same_shape p ?r" using q(2) r(2) ks by (simp add: same_shape_def)
  moreover have "krec ?r i = (if i = idx then put_meta ?L k ty (krec p idx) else krec p i) \<and>
      slot_of ?r i = slot_of p i" if "i < 50" for i
    using q(3,4) [OF _ that] r(3,4) [OF _ that] q(3) [OF _ idx] ks by (simp add: put_meta_def)
  ultimately show ?thesis by auto
qed

lemma key_of_buf:
  assumes "length b = key_size L" "length xs \<le> 32"
  shows "key_of L (put b 0 xs) = (key_of L b)\<lparr>key_buf := put (key_buf (key_of L b)) 0 xs\<rparr>"
proof -
  have b: "length b = 32 + key_len_width L + value_type_width L"
    using assms(1) by (simp add: key_size_def conf_consts)
  then have "subslice (put b 0 xs) 0 32 = put (subslice b 0 32) 0 xs"
    using subslice_put_inside [of 0 0 xs 32 b] assms(2) by simp
  then show ?thesis using b assms(2) by (simp add: key_of_def)
qed

lemma key_of_meta:
  assumes L: "layout_ok L" and b: "length b = key_size L" and k: "k_len k \<le> 32"
  shows "key_of L (put_meta L k ty b) =
    \<lparr>key_buf = key_buf (key_of L b), key_len = of_nat (k_len k), value_type = ucast (value_type_code ty)\<rparr>"
proof -
  let ?kw = "key_len_width L" and ?vw = "value_type_width L"
  have b: "length b = 32 + ?kw + ?vw" using b by (simp add: key_size_def conf_consts)
  have u: "unat (of_nat (k_len k) :: u64) = k_len k" using k by (simp add: unat_of_nat_64)
  have len: "unat (of_nat (k_len k) :: u64) < 2 ^ (8 * ?kw)"
    unfolding u using k L by (auto simp: layout_ok_def)
  have ty: "unat (value_type_code ty) < 2 ^ (8 * ?vw)" using L by (cases ty) (auto simp: layout_ok_def)
  let ?c = "put b (32 + ?kw) (le_bytes ?vw (value_type_code ty))"
  have c: "length ?c = length b" using b by simp
  have "subslice (put_meta L k ty b) 0 32 = subslice b 0 32"
    "subslice (put_meta L k ty b) 32 ?kw = le_bytes ?kw (of_nat (k_len k))"
    "subslice (put_meta L k ty b) (32 + ?kw) ?vw = le_bytes ?vw (value_type_code ty)"
    using b c unfolding put_meta_def by simp_all
  then show ?thesis using read_le_bytes [OF len] read_le_bytes [OF ty] by (simp add: key_of_def)
qed

definition new_key :: "Key \<Rightarrow> ValueType \<Rightarrow> StoredKey \<Rightarrow> StoredKey" where
  "new_key k ty old = \<lparr>key_buf = put (key_buf old) 0 (key_text k), key_len = of_nat (k_len k),
     value_type = ucast (value_type_code ty)\<rparr>"

lemma num_keys_more:
  assumes wf: "conf_wf p" and n: "n_keys p < 50"
  shows "\<exists>q. set_num_keys p one_more = Some q \<and> conf_wf q \<and> n_keys q = Suc (n_keys p) \<and> cp_layout q = cp_layout p \<and>
    (\<forall>i < 50. krec q i = krec p i \<and> slot_of q i = slot_of p i)"
proof -
  have u: "unat (cp_image p ! 8 + 1) = Suc (n_keys p)"
    using n by (simp add: n_keys_def unat_word_ariths)
  moreover have "cp_image p ! 8 \<noteq> - 1"
  proof
    assume "cp_image p ! 8 = - 1"
    then have "n_keys p = 255"
      unfolding n_keys_def by (simp add: unsigned_minus_1_eq_mask mask_eq_exp_minus_1)
    then show False using n by simp
  qed
  ultimately show ?thesis
    using set_num_keys_eq [OF wf, of one_more "cp_image p ! 8 + 1"] n by (auto simp: one_more_def)
qed

text \<open>The common tail of the typed setters, when the encoder writes the slot.\<close>

lemma set_typed_ok:
  assumes wf: "conf_wf p" and k: "k_len k \<le> 32" and n: "n_keys p < 50"
    and found: "conf_find p k = Some found"
    and at: "(case found of Some i \<Rightarrow> i | None \<Rightarrow> n_keys p) = idx" "found = None \<longrightarrow> key_is_valid k"
    and enc: "encode (slot_of p idx) = Some (s, True)" "length s = 50"
  shows "\<exists>p'. set_typed p k ty encode = Some (p', True) \<and> conf_wf p' \<and> cp_layout p' = cp_layout p \<and>
    n_keys p' = (if found = None then Suc (n_keys p) else n_keys p) \<and>
    (\<forall>i < 50. stored p' i = (if i = idx then new_key k ty (stored p idx) else stored p i) \<and>
      slot_of p' i = (if i = idx then s else slot_of p i))"
proof -
  let ?L = "cp_layout p"
  have L: "layout_ok ?L" using wf by (simp add: conf_wf_def)
  have idx: "idx < 50"
    using conf_find_total [OF wf, of k] found at(1) n by (auto split: option.splits)
  let ?p1 = "p\<lparr>cp_image := put (cp_image p) (key_offset ?L idx) (key_text k)\<rparr>"
  have ks: "0 + length (key_text k) \<le> key_size ?L"
    using length_key_text [of k] key_size_bounds [OF L] by simp
  note e1 = edit_key [OF wf idx ks, simplified, OF refl]
  have wf1: "conf_wf ?p1" using same_shape_wf e1(2) wf by blast
  have slot1: "slot_of ?p1 idx = slot_of p idx" using e1(4) idx by blast
  let ?p2 = "?p1\<lparr>cp_image := put (cp_image ?p1) (value_offset ?L idx) s\<rparr>"
  note e2 = edit_slot [OF wf1 idx, of s, simplified enc(2), OF order_refl]
  have wf2: "conf_wf ?p2" using same_shape_wf e2(2) wf1 by simp
  obtain p3 where p3: "write_key_meta ?p2 idx k ty = Some p3" "same_shape ?p2 p3"
    "\<And>i. i < 50 \<Longrightarrow> krec p3 i = (if i = idx then put_meta ?L k ty (krec ?p2 idx) else krec ?p2 i) \<and>
      slot_of p3 i = slot_of ?p2 i"
    using write_key_meta_eq [OF wf2 idx, of k ty] by auto
  have wf3: "conf_wf p3" and n3: "n_keys p3 = n_keys p" and l3: "cp_layout p3 = ?L"
    using same_shape_wf [OF p3(2) wf2] same_shape_keys [OF p3(2)] same_shape_keys [OF e2(2)]
      same_shape_keys [OF e1(2)] p3(2) by (simp, simp, simp add: same_shape_def)
  have rows: "stored p3 i = (if i = idx then new_key k ty (stored p idx) else stored p i) \<and>
      slot_of p3 i = (if i = idx then s else slot_of p i)" if i: "i < 50" for i
  proof -
    have "key_of ?L (put_meta ?L k ty (put (krec p idx) 0 (key_text k))) = new_key k ty (stored p idx)"
      using key_of_meta [OF L _ k] key_of_buf [OF length_krec [OF wf idx] length_key_text] ks
        length_krec [OF wf idx]
      by (simp add: new_key_def stored_krec)
    moreover have "put (slot_of p idx) 0 s = s" using wf idx enc(2) by (simp add: put_0)
    ultimately show ?thesis
      using p3(3) [OF i] e1(3,4) [OF i] e2(3,4) [OF i] e1(3,4) [OF idx] e2(3) [OF idx] l3
      by (auto simp: stored_krec)
  qed
  obtain q where q: "(if found = None then set_num_keys p3 one_more else Some p3) = Some q" "conf_wf q"
    "n_keys q = (if found = None then Suc (n_keys p) else n_keys p)" "cp_layout q = ?L"
    "\<And>i. i < 50 \<Longrightarrow> krec q i = krec p3 i \<and> slot_of q i = slot_of p3 i"
    using num_keys_more [OF wf3] n n3 l3 wf3 by (cases found) auto
  have "range_at (cp_image ?p1) (value_offset ?L idx) (value_offset ?L idx + SLOT) = Some (slot_of ?p1 idx)"
    using conf_slot_eq [OF wf1 idx] by (simp add: conf_slot_def Let_def)
  then have "set_typed p k ty encode = Some (q\<lparr>cp_needs_commit := True\<rparr>, True)"
    using k n found at enc slot1 e2(1) p3(1) q(1) write_key_buf_eq [OF wf idx, of k]
    by (cases found) (simp_all add: set_typed_def num_keys_eq [OF wf] conf_consts Let_def)
  moreover have "conf_wf (q\<lparr>cp_needs_commit := True\<rparr>)" "n_keys (q\<lparr>cp_needs_commit := True\<rparr>) = n_keys q"
    "stored (q\<lparr>cp_needs_commit := True\<rparr>) i = stored q i" "slot_of (q\<lparr>cp_needs_commit := True\<rparr>) i = slot_of q i" for i
    using q(2) by (simp_all add: conf_wf_def n_keys_def stored_def slot_of_def)
  moreover have "stored q i = stored p3 i" if "i < 50" for i using q(4,5) l3 that by (simp add: stored_krec)
  ultimately show ?thesis using q rows by auto
qed

end
