(* ===== verification/Config_Access.thy ===== *)
theory Config_Access
  imports Config
begin

text \<open>
  What the getters and setters of \<open>configuration.rs\<close> promise each other. A partition is read
  as the list of its rows (\<^const>\<open>conf_abs\<close>); a setter updates or appends a row, a removal drops
  one, and every getter is a function of the row its key selects.
\<close>

section \<open>Heads\<close>

lemma major_shift: "d AND 0xe0 = push_bit 5 (drop_bit 5 (d :: u8))"
proof -
  have "(0xe0 :: u8) = NOT (mask 5)" by (simp add: mask_eq_exp_minus_1)
  show ?thesis unfolding \<open>0xe0 = NOT (mask 5)\<close> by (rule bit_word_eqI) (auto simp: bit_simps)
qed

lemma major_small_word: "unat (drop_bit 5 (d :: u8)) < 8"
proof -
  have "unat d < 2 ^ LENGTH(8)" by (rule unsigned_less)
  then have "unat d < 8 * 32" by simp
  then show ?thesis by (simp add: drop_bit_eq_div unat_div less_mult_imp_div_less)
qed

lemma major_values:
  "drop_bit 5 (d :: u8) = 0 \<or> drop_bit 5 d = 1 \<or> drop_bit 5 d = 2 \<or> drop_bit 5 d = 3 \<or> drop_bit 5 d = 4 \<or>
   drop_bit 5 d = 5 \<or> drop_bit 5 d = 6 \<or> drop_bit 5 d = 7"
proof -
  have "unat (drop_bit 5 d) = 0 \<or> unat (drop_bit 5 d) = 1 \<or> unat (drop_bit 5 d) = 2 \<or> unat (drop_bit 5 d) = 3 \<or>
      unat (drop_bit 5 d) = 4 \<or> unat (drop_bit 5 d) = 5 \<or> unat (drop_bit 5 d) = 6 \<or> unat (drop_bit 5 d) = 7"
    using major_small_word [of d] by arith
  then show ?thesis by (simp add: word_unat_eq_iff)
qed

lemma variable_major: "2 \<le> drop_bit 5 d \<and> drop_bit 5 d \<le> 5 \<longleftrightarrow> \<not> is_fixed_type (d AND 0xe0)"
  unfolding major_shift using major_values [of d]
  by (elim disjE) (simp_all add: is_fixed_type_def cbor_consts word_le_nat_alt)

lemma major_of: "drop_bit 5 (d :: u8) = drop_bit 5 (d AND 0xe0)"
  unfolding major_shift using major_values [of d] by (elim disjE) simp_all

lemma f8_major: "drop_bit 5 d = 7 \<and> info_of d = 24 \<longleftrightarrow> d = (0xf8 :: u8)"
  using d_f8 [of d] major_of [of d] major_simps(2) [of d] by simp

lemma small_argument: "(ucast (read_be (take 1 ds)) :: u16) < 32 \<longleftrightarrow> read_be (take 1 ds) < 32"
proof (cases ds)
  case (Cons d es)
  have "unat d < 2 ^ LENGTH(8)" by (rule unsigned_less)
  then have "unat d < 65536" "unat d < 2 ^ 64" by simp_all
  moreover have "(ucast (ucast d :: u64) :: u16) = ucast d"
    by (rule bit_word_eqI) (auto simp: bit_simps dest: bit_u8)
  ultimately have "unat (ucast (ucast d :: u64) :: u16) = unat d"
    by (simp add: unsigned_ucast_eq take_bit_nat_eq_self)
  then show ?thesis using Cons
    by (simp add: read_be_def word_less_nat_alt unat_ucast_8_64)
qed simp

text \<open>\<open>Head::parse\<close> accepts a head exactly when the parser of \<open>cbor/parser.rs\<close> does.\<close>

lemma parse_head_eq:
  "parse_head buf =
    (if head_ok buf then Some \<lparr>hd_major = drop_bit 5 (hd buf), hd_info = info_of (hd buf),
       hd_arg = (if info_of (hd buf) = 31 then 0 else head_arg buf)\<rparr> else None)"
proof (cases buf)
  case Nil
  then show ?thesis by (simp add: parse_head_def get_at_def head_ok_def)
next
  case (Cons d ds)
  have d: "get_at buf 0 = Some d" "hd buf = d" "d AND 0x1f = info_of d"
    using Cons by (simp_all add: get_at_def info_of_def)
  have ok: "head_ok buf \<longleftrightarrow> (if info_of d = 31 then \<not> is_fixed_type (d AND 0xe0)
      else info_of d \<le> 27 \<and> head_len d \<le> length buf \<and>
        \<not> (d = 0xf8 \<and> (ucast (read_be (take 1 ds)) :: u16) < 32))"
    using Cons by (simp add: head_ok_def)
  show ?thesis
  proof (cases "27 < info_of d")
    case True
    then have "\<not> info_of d \<le> 27" by simp
    then show ?thesis using True variable_major [of d]
      by (auto simp: parse_head_def d ok Let_def)
  next
    case False
    then have i: "info_of d \<noteq> 31" "info_of d \<le> 27" by auto
    have arg: "(if info_of d < 24 then Some (ucast (info_of d))
        else Option.bind (range_at buf 1 (arg_bytes (info_of d) + 1)) (\<lambda>bytes. Some (read_be bytes))) =
      (if head_len d \<le> length buf then Some (head_arg buf) else None)"
      using Cons by (auto simp: head_len_def head_arg_def range_at_def subslice_def Let_def)
    have small: "(drop_bit 5 d = 7 \<and> info_of d = 24 \<and> head_arg buf < 32) =
        (d = 0xf8 \<and> (ucast (read_be (take 1 ds)) :: u16) < 32)"
    proof (cases "d = 0xf8")
      case True
      then have "info_of d = 24" "head_arg buf = read_be (take 1 ds)"
        using f8_major [of d] Cons by (auto simp: head_arg_def)
      then show ?thesis using True f8_major [of d] small_argument [of ds] by simp
    next
      case False
      then show ?thesis using f8_major [of d] by auto
    qed
    have "parse_head buf = Option.bind
        (if info_of d < 24 then Some (ucast (info_of d))
         else Option.bind (range_at buf 1 (arg_bytes (info_of d) + 1)) (\<lambda>bytes. Some (read_be bytes)))
        (\<lambda>arg. if drop_bit 5 d = 7 \<and> info_of d = 24 \<and> arg < 32 then None
          else Some \<lparr>hd_major = drop_bit 5 d, hd_info = info_of d, hd_arg = arg\<rparr>)"
      using False by (simp only: parse_head_def d Let_def bind.simps if_False)
    then show ?thesis unfolding arg using i small ok d(2) by auto
  qed
qed

lemma parse_shortest:
  assumes "is_major m"
  shows "\<exists>info. parse_head (shortest_head m n @ r) = Some \<lparr>hd_major = drop_bit 5 m, hd_info = info, hd_arg = n\<rparr> \<and>
    info \<noteq> 31"
proof -
  note h = shortest_head [OF assms, of n]
  then have "hd (shortest_head m n @ r) = hd (shortest_head m n)" by simp
  moreover have "info_of (hd (shortest_head m n)) \<noteq> 31"
    using h(1) info_le_27 by (auto simp: is_head_def)
  moreover have "drop_bit 5 (hd (shortest_head m n)) = drop_bit 5 m" using major_of h(2) by metis
  ultimately show ?thesis
    using shortest_head_ty(2) [OF assms] h(3) head_arg_append [OF h(1)] by (simp add: parse_head_eq)
qed

section \<open>Reading a row\<close>

definition conf_row :: "ConfigPartition \<Rightarrow> Key \<Rightarrow> (u32 \<times> bytes) option" where
  "conf_row p k = (if 32 < k_len k then None else map_of (conf_abs p) (key_id k))"

lemma length_conf_abs [simp]: "length (conf_abs p) = n_keys p"
  by (simp add: conf_abs_def)

lemma nth_conf_abs: "i < n_keys p \<Longrightarrow>
    conf_abs p ! i = (stored_id (stored p i), value_type (stored p i), slot_of p i)"
  by (simp add: conf_abs_def)

lemma map_of_find_index:
  "map_of xs key = (case find_index (\<lambda>r. fst r = key) xs of None \<Rightarrow> None | Some i \<Rightarrow> Some (snd (xs ! i)))"
proof (induction xs)
  case (Cons r xs)
  have "find_index P (r # xs) = (if P r then Some 0 else map_option Suc (find_index P xs))" for P
    by (simp add: find_index_def Let_def)
  then show ?case using Cons by (cases r) (auto split: option.splits)
qed (simp add: find_index_def)

lemma find_index_bound: "find_index P xs = Some i \<Longrightarrow> i < length xs \<and> P (xs ! i)"
  using find_index_Some(1,2) by blast

text \<open>\<open>prepare_cbor_parser\<close>: the getters see only the slot of the key's row.\<close>

lemma parsed_cases:
  assumes wf: "conf_wf p"
  obtains "conf_row p k = None" "parsed p k = Some None"
  | i where "i < n_keys p" "conf_row p k = Some (value_type (stored p i), slot_of p i)"
      "parsed p k = Some (map_option (\<lambda>h. (i, h)) (parse_head (slot_of p i)))"
proof (cases "32 < k_len k")
  case True
  then show ?thesis using that(1) by (simp add: parsed_def conf_row_def conf_consts)
next
  case False
  then have f: "conf_find p k = Some (find_index (\<lambda>r. fst r = key_id k) (conf_abs p))"
    using conf_find_eq [OF wf] by simp
  show ?thesis
  proof (cases "find_index (\<lambda>r. fst r = key_id k) (conf_abs p)")
    case None
    then show ?thesis using that(1) f False by (simp add: parsed_def conf_row_def conf_consts map_of_find_index)
  next
    case (Some i)
    then have i: "i < n_keys p" using find_index_bound by fastforce
    then have "conf_slot p i = Some (slot_of p i)" using conf_slot_eq [OF wf] n_keys_le [OF wf] by simp
    then show ?thesis using that(2) [OF i] f False Some i
      by (simp add: parsed_def conf_row_def conf_consts map_of_find_index nth_conf_abs)
  qed
qed

text \<open>The head of the row a key selects.\<close>

definition row_head :: "ConfigPartition \<Rightarrow> Key \<Rightarrow> (bytes \<times> Head) option" where
  "row_head p k = do { (_, s) \<leftarrow> conf_row p k; h \<leftarrow> parse_head s; Some (s, h) }"

lemma parsed_row_head:
  assumes wf: "conf_wf p"
  shows "\<exists>r. parsed p k = Some r \<and>
    row_head p k = map_option (\<lambda>(i, h). (slot_of p i, h)) r \<and>
    (\<forall>i h. r = Some (i, h) \<longrightarrow> conf_slot p i = Some (slot_of p i) \<and> length (slot_of p i) = 50)"
proof (cases rule: parsed_cases [OF wf, of k])
  case 1
  then show ?thesis by (simp add: row_head_def)
next
  case (2 i)
  then have "i < 50" using n_keys_le [OF wf] by simp
  then show ?thesis using 2 conf_slot_eq [OF wf] wf
    by (cases "parse_head (slot_of p i)") (simp_all add: row_head_def)
qed

text \<open>Every getter, as a function of that.\<close>

lemma getters_eq:
  assumes wf: "conf_wf p"
  shows "get_uint p k = Some (do { (_, h) \<leftarrow> row_head p k; if hd_major h = 0 then Some (ucast (hd_arg h)) else None })"
    "get_int p k = Some (do { (_, h) \<leftarrow> row_head p k;
        if hd_major h = 0 then Some (ucast (hd_arg h))
        else if hd_major h = 1 then Some (ucast (- hd_arg h - 1)) else None })"
    "conf_get_float p k = Some (do { (_, h) \<leftarrow> row_head p k;
        if hd_major h = 7 \<and> hd_info h = 26 then Some (ucast (hd_arg h)) else None })"
    "get_str_like um p k major out = Some (case row_head p k of None \<Rightarrow> (out, Err Refused)
      | Some (s, h) \<Rightarrow> if hd_major h \<noteq> major then (out, Err Refused) else slot_copy_string um s out)"
    "get_cbor p k out = Some (case row_head p k of None \<Rightarrow> (out, None)
      | Some (s, _) \<Rightarrow> if length out < 50 then (out, None) else (put out 0 s, Some 50))"
    "value_size um p k = Some (do { (_, h) \<leftarrow> row_head p k; ty \<leftarrow> config_type h;
        if ty = Uint32 \<or> ty = Int32 \<or> ty = Float then Some 4 else head_length um h })"
proof -
  obtain r where r: "parsed p k = Some r" "row_head p k = map_option (\<lambda>(i, h). (slot_of p i, h)) r"
    "\<And>i h. r = Some (i, h) \<Longrightarrow> conf_slot p i = Some (slot_of p i) \<and> length (slot_of p i) = 50"
    using parsed_row_head [OF wf] by metis
  have None: "r = None \<Longrightarrow> row_head p k = None" and Some: "\<And>i h. r = Some (i, h) \<Longrightarrow> row_head p k = Some (slot_of p i, h)"
    using r(2) by auto
  show "get_uint p k = Some (do { (_, h) \<leftarrow> row_head p k; if hd_major h = 0 then Some (ucast (hd_arg h)) else None })"
    "get_int p k = Some (do { (_, h) \<leftarrow> row_head p k;
        if hd_major h = 0 then Some (ucast (hd_arg h))
        else if hd_major h = 1 then Some (ucast (- hd_arg h - 1)) else None })"
    "conf_get_float p k = Some (do { (_, h) \<leftarrow> row_head p k;
        if hd_major h = 7 \<and> hd_info h = 26 then Some (ucast (hd_arg h)) else None })"
    "value_size um p k = Some (do { (_, h) \<leftarrow> row_head p k; ty \<leftarrow> config_type h;
        if ty = Uint32 \<or> ty = Int32 \<or> ty = Float then Some 4 else head_length um h })"
    using r(1) None Some
    by (cases r; auto simp: get_uint_def get_int_def conf_get_float_def value_size_def split: option.splits)+
  show "get_str_like um p k major out = Some (case row_head p k of None \<Rightarrow> (out, Err Refused)
      | Some (s, h) \<Rightarrow> if hd_major h \<noteq> major then (out, Err Refused) else slot_copy_string um s out)"
    "get_cbor p k out = Some (case row_head p k of None \<Rightarrow> (out, None)
      | Some (s, _) \<Rightarrow> if length out < 50 then (out, None) else (put out 0 s, Some 50))"
    using r(1,3) None Some
    by (cases r; auto simp: get_str_like_def get_cbor_def conf_consts copy_at_def split: option.splits)+
qed

section \<open>A key stored is found again\<close>

text \<open>\<open>snprintf\<close> cuts a key of 32 characters, which is then never found.\<close>

definition storable :: "Key \<Rightarrow> bool" where
  "storable k \<longleftrightarrow> k_len k \<le> 32 \<and> (k_len k \<le> 31 \<or> length (cstr (k_text k)) \<le> 31)"

lemma cstr_append_zero: "0 \<notin> set xs \<Longrightarrow> cstr (xs @ 0 # ys) = xs"
  by (induction xs) (auto simp: cstr_def)

lemma zero_not_in_cstr: "0 \<notin> set (cstr xs)"
  unfolding cstr_def using set_takeWhileD by fastforce

lemma cstr_key_text:
  assumes "length buf = 32"
  shows "cstr (put buf 0 (key_text k)) = take 31 (cstr (k_text k))"
proof -
  have "put buf 0 (key_text k) = key_text k @ drop (length (key_text k)) buf"
    using length_key_text [of k] assms by (intro put_0) simp
  moreover have "0 \<notin> set (take 31 (cstr (k_text k)))"
    using zero_not_in_cstr in_set_takeD by fastforce
  ultimately show ?thesis by (simp add: key_text_def cstr_append_zero)
qed

lemma new_key_id:
  assumes "storable k" "length (key_buf old) = 32"
  shows "stored_id (new_key k ty old) = key_id k"
proof -
  have u: "unat (of_nat (k_len k) :: u64) = k_len k" using assms(1) by (simp add: storable_def unat_of_nat_64)
  have "take (k_len k) (take 31 (cstr (k_text k))) = take (k_len k) (cstr (k_text k))"
    using assms(1) by (auto simp: storable_def min_def)
  then show ?thesis using u by (simp add: stored_id_def key_id_def new_key_def cstr_key_text [OF assms(2)])
qed

lemma map_of_update_first:
  "find_index (\<lambda>r. fst r = k) xs = Some i \<Longrightarrow> map_of (xs[i := (k, v)]) = (map_of xs)(k \<mapsto> v)"
proof (induction xs arbitrary: i)
  case (Cons r xs)
  have "find_index P (r # xs) = (if P r then Some 0 else map_option Suc (find_index P xs))" for P
    by (simp add: find_index_def Let_def)
  then show ?case using Cons by (cases r) (auto split: if_splits)
qed (simp add: find_index_def)

lemma map_of_append_new:
  "find_index (\<lambda>r. fst r = k) xs = None \<Longrightarrow> map_of (xs @ [(k, v)]) = (map_of xs)(k \<mapsto> v)"
  by (induction xs) (auto simp: find_index_None)

lemma set_typed_abs:
  assumes wf: "conf_wf p" and k: "storable k" and n: "n_keys p < 50"
    and found: "conf_find p k = Some found" "found = None \<longrightarrow> key_is_valid k"
    and enc: "encode (slot_of p (case found of Some i \<Rightarrow> i | None \<Rightarrow> n_keys p)) = Some (s, True)" "length s = 50"
  shows "\<exists>p'. set_typed p k ty encode = Some (p', True) \<and> conf_wf p' \<and> cp_layout p' = cp_layout p \<and>
    n_keys p' = (if found = None then Suc (n_keys p) else n_keys p) \<and>
    map_of (conf_abs p') = (map_of (conf_abs p))(key_id k \<mapsto> (ucast (value_type_code ty), s))"
proof -
  let ?idx = "case found of Some i \<Rightarrow> i | None \<Rightarrow> n_keys p"
  let ?row = "(key_id k, ucast (value_type_code ty) :: u32, s)"
  have k32: "k_len k \<le> 32" using k by (simp add: storable_def)
  have fi: "found = find_index (\<lambda>r. fst r = key_id k) (conf_abs p)"
    using conf_find_eq [OF wf k32] found(1) by simp
  have idx: "?idx < 50" "\<And>i. found = Some i \<Longrightarrow> i < n_keys p"
    using fi find_index_bound [of "\<lambda>r. fst r = key_id k" "conf_abs p"] n by (auto split: option.split)
  obtain p' where p': "set_typed p k ty encode = Some (p', True)" "conf_wf p'" "cp_layout p' = cp_layout p"
    "n_keys p' = (if found = None then Suc (n_keys p) else n_keys p)"
    "\<And>i. i < 50 \<Longrightarrow> stored p' i = (if i = ?idx then new_key k ty (stored p ?idx) else stored p i) \<and>
      slot_of p' i = (if i = ?idx then s else slot_of p i)"
    using set_typed_ok [where encode = encode, OF wf k32 n found(1) refl found(2) enc, of ty] by blast
  have row: "(stored_id (stored p' i), value_type (stored p' i), slot_of p' i) = (if i = ?idx then ?row else
      (stored_id (stored p i), value_type (stored p i), slot_of p i))" if "i < n_keys p'" for i
  proof -
    have "i < 50" using that n_keys_le [OF p'(2)] by simp
    moreover have "length (key_buf (stored p ?idx)) = 32" using wf idx(1) by simp
    ultimately show ?thesis using p'(5) new_key_id [OF k] by (simp add: new_key_def)
  qed
  have abs: "conf_abs p' = (if found = None then conf_abs p @ [?row] else (conf_abs p)[?idx := ?row])"
  proof (cases found)
    case None
    then show ?thesis using row p'(4) by (intro nth_equalityI) (auto simp: nth_conf_abs nth_append less_Suc_eq)
  next
    case (Some i)
    then show ?thesis using row p'(4) by (intro nth_equalityI) (auto simp: nth_conf_abs nth_list_update)
  qed
  have "map_of (conf_abs p') = (map_of (conf_abs p))(key_id k \<mapsto> snd ?row)"
    using map_of_update_first [of "key_id k" "conf_abs p" _ "snd ?row"] map_of_append_new [of "key_id k" "conf_abs p" "snd ?row"]
    unfolding abs by (cases found) (simp_all add: fi [symmetric])
  then show ?thesis using p' by auto
qed

section \<open>What the setters write is what the getters read\<close>

lemma slot_push_eq:
  assumes "cbor2_ok C" "length s = 50"
  shows "slot_push C s h = Some (put s 0 (rfc_head h), True)"
  using assms length_rfc_head [of h] by (simp add: slot_push_def cbor2_ok_def writes_def)

lemma slot_push_string_eq:
  assumes C: "cbor2_ok C" and s: "length s = 50"
  shows "length (rfc_head h) + length body \<le> 50 \<Longrightarrow>
      slot_push_string C s h body = Some (put s 0 (rfc_head h @ body), True)"
    and "50 < length (rfc_head h) + length body \<Longrightarrow>
      slot_push_string C s h body = Some (put s 0 (rfc_head h), False)"
proof -
  let ?h = "rfc_head h"
  have l: "length ?h \<le> 9" by (rule length_rfc_head)
  then have "push C h (replicate 9 0) = (put (replicate 9 0) 0 ?h, length ?h, True)"
    using C by (simp add: cbor2_ok_def writes_def)
  then have "slot_push_string C s h body = Some (case copy_at (put s 0 ?h) (length ?h) body of
      Some slot \<Rightarrow> (slot, True) | None \<Rightarrow> (put s 0 ?h, False))"
    using l s by (simp add: slot_push_string_def buf_simps)
  then show "length ?h + length body \<le> 50 \<Longrightarrow> slot_push_string C s h body = Some (put s 0 (?h @ body), True)"
    "50 < length ?h + length body \<Longrightarrow> slot_push_string C s h body = Some (put s 0 ?h, False)"
    using l s by (simp_all add: copy_at_def put_put_seq)
qed

lemma slot_chunk_head:
  assumes h: "is_head h" "hd h AND 0xe0 = kind" "kind \<noteq> 0xe0" "unat (head_arg h) \<le> um"
  shows "slot_chunk um (h @ r) kind 0 = Ok (Some (unat (head_arg h), length h))"
proof -
  obtain d ds where d: "h = d # ds" "info_of d \<le> 27" "length ds = arg_bytes (info_of d)"
    using is_headE [OF h(1)] by metis
  have "d \<noteq> 0xff" using h(2,3) d(1) by auto
  moreover have "\<not> 27 < info_of d" "get_at (h @ r) 0 = Some d" "d AND 0x1f = info_of d"
    using d by (auto simp: get_at_def info_of_def)
  moreover have "range_at (h @ r) 1 (arg_bytes (info_of d) + 1) = Some ds"
    using d by (simp add: range_at_def subslice_def)
  moreover have "head_arg h = (if info_of d < 24 then ucast (info_of d) else read_be ds)"
    "length h = (if info_of d < 24 then 1 else 1 + arg_bytes (info_of d))"
    using d by (simp_all add: head_arg_def Let_def)
  ultimately show ?thesis using h(2,4) d(1)
    by (cases "info_of d < 24") (simp_all add: slot_chunk_def Let_def)
qed

lemma copy_string_written:
  assumes ty: "ty = TEXT_STRING \<or> ty = BYTE_STRING" and um: "length v \<le> um" "length v < 2 ^ 64"
    and out: "length v \<le> length out"
  shows "\<exists>out'. slot_copy_string um (shortest_head ty (of_nat (length v)) @ v @ r) out = (out', Ok (length v)) \<and>
    take (length v) out' = v"
proof -
  let ?h = "shortest_head ty (of_nat (length v))"
  have m: "is_major ty" using ty by auto
  have arg: "unat (head_arg ?h) = length v" using shortest_head(3) [OF m] um(2) by (simp add: unat_of_nat_64)
  have kind: "push_bit 5 (drop_bit 5 ty) = ty" using ty by (auto simp: cbor_consts)
  have chunk: "slot_chunk um (?h @ v @ r) ty 0 = Ok (Some (length v, length ?h))"
    using slot_chunk_head [OF shortest_head(1,2) [OF m], of "of_nat (length v)" um "v @ r"] arg um(1) ty
    by (auto simp: cbor_consts)
  have "range_at (?h @ v @ r) (length ?h) (length ?h + length v) = Some v"
    by (simp add: range_at_def subslice_def)
  then have loop: "copy_loop um (?h @ v @ r) ty False True 0 0 True out = (put out 0 v, Ok (length v, True))"
    using chunk um(1) out by (simp add: copy_loop.simps [where first = True] copy_loop.simps [where first = False])
  obtain info where p: "parse_head (?h @ v @ r) =
      Some \<lparr>hd_major = drop_bit 5 ty, hd_info = info, hd_arg = of_nat (length v)\<rparr>" "info \<noteq> 31"
    using parse_shortest [OF m] by metis
  show ?thesis using p loop out kind
    by (simp add: slot_copy_string_def head_length_known_def Let_def put_0)
qed

text \<open>A value of any of the five kinds, its setter, and reading it.\<close>

datatype CfgValue = VUint u32 | VInt u32 | VFloat u32 | VStr bytes | VBytes bytes

fun cfg_set :: "cbor2 \<Rightarrow> ConfigPartition \<Rightarrow> Key \<Rightarrow> CfgValue \<Rightarrow> (ConfigPartition \<times> bool) option" where
  "cfg_set C p k (VUint v) = set_uint C p k v"
| "cfg_set C p k (VInt v) = set_int C p k v"
| "cfg_set C p k (VFloat v) = set_float C p k v"
| "cfg_set C p k (VStr v) = set_string C p k v"
| "cfg_set C p k (VBytes v) = set_buffer C p k v"

fun cfg_reads :: "nat \<Rightarrow> ConfigPartition \<Rightarrow> Key \<Rightarrow> CfgValue \<Rightarrow> bool" where
  "cfg_reads um p k (VUint v) \<longleftrightarrow> get_uint p k = Some (Some v)"
| "cfg_reads um p k (VInt v) \<longleftrightarrow> get_int p k = Some (Some v)"
| "cfg_reads um p k (VFloat v) \<longleftrightarrow> conf_get_float p k = Some (Some v)"
| "cfg_reads um p k (VStr v) \<longleftrightarrow> (\<forall>out. length v \<le> length out \<longrightarrow>
     (\<exists>out'. get_string um p k out = Some (out', Ok (length v)) \<and> take (length v) out' = v))"
| "cfg_reads um p k (VBytes v) \<longleftrightarrow> (\<forall>out. length v \<le> length out \<longrightarrow>
     (\<exists>out'. get_buffer um p k out = Some (out', Ok (length v)) \<and> take (length v) out' = v))"

text \<open>The bytes of a value, and the type it is stored with.\<close>

fun cfg_wire :: "CfgValue \<Rightarrow> bytes" where
  "cfg_wire (VUint v) = rfc_head (Positive (ucast v))"
| "cfg_wire (VInt v) = rfc_head (int_header v)"
| "cfg_wire (VFloat v) = 0xfa # to_be 4 v"
| "cfg_wire (VStr v) = rfc_head (Text (Some (length v))) @ v"
| "cfg_wire (VBytes v) = rfc_head (Bytes (Some (length v))) @ v"

fun cfg_type :: "CfgValue \<Rightarrow> ValueType" where
  "cfg_type (VUint v) = Uint32"
| "cfg_type (VInt v) = Int32"
| "cfg_type (VFloat v) = Float"
| "cfg_type (VStr v) = Str"
| "cfg_type (VBytes v) = ByteStr"

lemma cfg_set_typed:
  assumes C: "cbor2_ok C"
  shows "\<exists>encode. cfg_set C p k v = set_typed p k (cfg_type v) encode \<and>
    (\<forall>s. length s = 50 \<longrightarrow> (if length (cfg_wire v) \<le> 50 then encode s = Some (put s 0 (cfg_wire v), True)
       else \<exists>b. length b \<le> 50 \<and> encode s = Some (put s 0 b, False)))"
proof (cases v)
  case (VUint x)
  then show ?thesis using slot_push_eq [OF C] length_rfc_head [of "Positive (ucast x)"] by (fastforce simp: set_uint_def)
next
  case (VInt x)
  then show ?thesis using slot_push_eq [OF C] length_rfc_head [of "int_header x"] by (fastforce simp: set_int_def)
next
  case (VFloat x)
  then show ?thesis using push_f32_wide_writes [OF C, of x] by (fastforce simp: set_float_def writes_def)
next
  case (VStr x)
  let ?h = "Text (Some (length x))"
  have "length (rfc_head ?h) \<le> 50" using length_rfc_head [of ?h] by simp
  then show ?thesis using VStr slot_push_string_eq [OF C, of _ ?h x]
    by (intro exI [of _ "\<lambda>s. slot_push_string C s ?h x"]) (auto simp: set_string_def simp del: rfc_head.simps)
next
  case (VBytes x)
  let ?h = "Bytes (Some (length x))"
  have "length (rfc_head ?h) \<le> 50" using length_rfc_head [of ?h] by simp
  then show ?thesis using VBytes slot_push_string_eq [OF C, of _ ?h x]
    by (intro exI [of _ "\<lambda>s. slot_push_string C s ?h x"]) (auto simp: set_buffer_def simp del: rfc_head.simps)
qed

lemma sign_extend_low: "ucast (scast (v :: u32) :: u64) = v"
  by (rule bit_word_eqI) (auto simp: bit_simps)

lemma to_le_widen: "to_le n (x :: u32) = to_le n (ucast x :: u64)"
proof (induction n arbitrary: x)
  case (Suc n)
  have "(ucast (ucast x :: u64) :: u8) = ucast x" "drop_bit 8 (ucast x :: u64) = ucast (drop_bit 8 x)"
    by (rule bit_word_eqI, auto simp: bit_simps dest: bit_imp_le_length)+
  then show ?case using Suc.IH [of "drop_bit 8 x"] by simp
qed simp

lemma read_wide: "read_be (to_be 4 (x :: u32)) = ucast x"
proof -
  have "unat x < 2 ^ LENGTH(32)" by (rule unsigned_less)
  then have "unat (ucast x :: u64) < 2 ^ (8 * 4)" by (simp add: unat_ucast_32_64)
  then show ?thesis using read_to_be [of "ucast x" 4] by (simp add: to_be_def to_le_widen del: to_le_numeral)
qed

lemma row_head_Some:
  assumes "conf_row p k = Some (ty, b @ r)" "parse_head (b @ r) = Some h"
  shows "row_head p k = Some (b @ r, h)"
  using assms by (simp add: row_head_def)

lemma row_reads:
  assumes wf: "conf_wf p" and row: "conf_row p k = Some (ty, cfg_wire v @ r)"
    and um: "50 \<le> um" "length (cfg_wire v) \<le> 50"
  shows "cfg_reads um p k v"
proof -
  have head: "row_head p k = Some (cfg_wire v @ r, h)" if "parse_head (cfg_wire v @ r) = Some h" for h
    using row_head_Some [OF row that] .
  have major: "\<exists>info. row_head p k = Some (cfg_wire v @ r, \<lparr>hd_major = drop_bit 5 m, hd_info = info, hd_arg = n\<rparr>)"
    if "cfg_wire v = shortest_head m n @ x" "is_major m" for m n x
    using parse_shortest [OF that(2), of n "x @ r"] head that(1) by auto
  have low: "ucast (ucast (x :: u32) :: u64) = x" for x by (rule bit_word_eqI) (auto simp: bit_simps)
  have shifts: "drop_bit 5 INTEGER = 0" "drop_bit 5 (0x20 :: u8) = 1" "drop_bit 5 TEXT_STRING = 3" "drop_bit 5 BYTE_STRING = 2"
    by (simp_all add: cbor_consts)
  show ?thesis
  proof (cases v)
    case (VUint x)
    then show ?thesis
      using major [of INTEGER "ucast x" "[]"] getters_eq(1) [OF wf, of k] low [of x] by (auto simp: shifts)
  next
    case (VInt x)
    let ?v = "scast x :: u64"
    have low: "ucast ?v = x" by (rule sign_extend_low)
    show ?thesis
    proof (cases "?v <s 0")
      case True
      have "- NOT ?v - 1 = ?v" by (simp add: not_eq_complement)
      then show ?thesis using True VInt low major [of "0x20" "NOT ?v" "[]"] getters_eq(2) [OF wf, of k]
        by (auto simp: int_header_def shifts)
    next
      case False
      then show ?thesis using VInt low major [of INTEGER ?v "[]"] getters_eq(2) [OF wf, of k]
        by (auto simp: int_header_def shifts)
    qed
  next
    case (VFloat x)
    have i: "info_of 0xfa = 26" by (simp add: info_of_def)
    have arg: "read_be (to_be 4 x) = ucast x" by (rule read_wide)
    have "parse_head (cfg_wire v @ r) = Some \<lparr>hd_major = 7, hd_info = 26, hd_arg = ucast x\<rparr>"
      using VFloat i arg by (simp add: parse_head_eq head_ok_def head_len_def head_arg_def)
    then show ?thesis using VFloat head getters_eq(3) [OF wf, of k] low [of x] by simp
  next
    case (VStr x)
    then have l: "length x \<le> 50" using um(2) by simp
    then obtain info where "row_head p k = Some (shortest_head TEXT_STRING (of_nat (length x)) @ x @ r,
        \<lparr>hd_major = 3, hd_info = info, hd_arg = of_nat (length x)\<rparr>)"
      using major [of TEXT_STRING "of_nat (length x)" x] VStr by (auto simp: shifts)
    then show ?thesis
      using VStr l um(1) copy_string_written [of TEXT_STRING x um _ r] getters_eq(4) [OF wf, of um k 3]
      by (simp add: get_string_def)
  next
    case (VBytes x)
    then have l: "length x \<le> 50" using um(2) by simp
    then obtain info where "row_head p k = Some (shortest_head BYTE_STRING (of_nat (length x)) @ x @ r,
        \<lparr>hd_major = 2, hd_info = info, hd_arg = of_nat (length x)\<rparr>)"
      using major [of BYTE_STRING "of_nat (length x)" x] VBytes by (auto simp: shifts)
    then show ?thesis
      using VBytes l um(1) copy_string_written [of BYTE_STRING x um _ r] getters_eq(4) [OF wf, of um k 2]
      by (simp add: get_buffer_def)
  qed
qed

text \<open>Two partitions no getter tells apart at a key.\<close>

definition same_reads :: "nat \<Rightarrow> ConfigPartition \<Rightarrow> ConfigPartition \<Rightarrow> Key \<Rightarrow> bool" where
  "same_reads um p p' k \<longleftrightarrow> get_uint p' k = get_uint p k \<and> get_int p' k = get_int p k \<and>
     conf_get_float p' k = conf_get_float p k \<and> get_string um p' k = get_string um p k \<and>
     get_buffer um p' k = get_buffer um p k \<and> get_cbor p' k = get_cbor p k \<and>
     value_size um p' k = value_size um p k"

lemma same_reads_row:
  assumes "conf_wf p" "conf_wf p'" "conf_row p' k = conf_row p k"
  shows "same_reads um p p' k"
proof -
  have "row_head p' k = row_head p k" using assms(3) by (simp add: row_head_def)
  then show ?thesis
    unfolding same_reads_def get_string_def [abs_def] get_buffer_def [abs_def]
    using getters_eq [OF assms(1)] getters_eq [OF assms(2)] by (simp add: fun_eq_iff)
qed

section \<open>The map a partition is\<close>

lemma list_changed_at:
  "length xs = length ys \<Longrightarrow> i < length ys \<Longrightarrow> (\<And>j. j < length ys \<Longrightarrow> j \<noteq> i \<Longrightarrow> xs ! j = ys ! j) \<Longrightarrow>
   xs = ys[i := xs ! i]"
  by (intro nth_equalityI) (auto simp: nth_list_update)

text \<open>A setter whose encoder fails has written the key's characters and what the encoder left of
  the slot.\<close>

lemma set_typed_failed:
  assumes wf: "conf_wf p" and k32: "k_len k \<le> 32" and n: "n_keys p < 50"
    and found: "conf_find p k = Some found" "found = None \<longrightarrow> key_is_valid k"
    and at: "(case found of Some i \<Rightarrow> i | None \<Rightarrow> n_keys p) = idx"
    and enc: "encode (slot_of p idx) = Some (s, False)" "length s = 50"
  shows "\<exists>p'. set_typed p k ty encode = Some (p', False) \<and> conf_wf p' \<and> cp_layout p' = cp_layout p \<and>
    n_keys p' = n_keys p \<and> (\<forall>i < 50. krec p' i = (if i = idx then put (krec p idx) 0 (key_text k) else krec p i) \<and>
      slot_of p' i = (if i = idx then s else slot_of p i))"
proof -
  let ?L = "cp_layout p"
  have L: "layout_ok ?L" using wf by (simp add: conf_wf_def)
  have idx: "idx < 50" using conf_find_total [OF wf, of k] found(1) at n by (auto split: option.splits)
  let ?p1 = "p\<lparr>cp_image := put (cp_image p) (key_offset ?L idx) (key_text k)\<rparr>"
  have ks: "0 + length (key_text k) \<le> key_size ?L"
    using length_key_text [of k] key_size_bounds [OF L] by simp
  note e1 = edit_key [OF wf idx ks, simplified, OF refl]
  have wf1: "conf_wf ?p1" using same_shape_wf e1(2) wf by blast
  let ?p2 = "?p1\<lparr>cp_image := put (cp_image ?p1) (value_offset ?L idx) s\<rparr>"
  note e2 = edit_slot [OF wf1 idx, of s, simplified enc(2), OF order_refl]
  have shape: "conf_wf ?p2" "n_keys ?p2 = n_keys p"
    using same_shape_wf [OF e2(2)] wf1 same_shape_keys [OF e2(2)] same_shape_keys [OF e1(2)] by simp_all
  have "range_at (cp_image ?p1) (value_offset ?L idx) (value_offset ?L idx + SLOT) = Some (slot_of ?p1 idx)"
    using conf_slot_eq [OF wf1 idx] by (simp add: conf_slot_def Let_def)
  moreover have slot1: "slot_of ?p1 idx = slot_of p idx" using e1(4) idx by blast
  ultimately have "set_typed p k ty encode = Some (?p2, False)"
    using k32 n found at enc e2(1) write_key_buf_eq [OF wf idx, of k]
    by (cases found) (simp_all add: set_typed_def num_keys_eq [OF wf] conf_consts Let_def)
  moreover have "krec ?p2 i = (if i = idx then put (krec p idx) 0 (key_text k) else krec p i) \<and>
      slot_of ?p2 i = (if i = idx then s else slot_of p i)" if "i < 50" for i
  proof -
    have "put (slot_of ?p1 idx) 0 s = s" using slot1 wf idx enc(2) by (simp add: put_0)
    then show ?thesis using e1(3,4) [OF that] e2(3,4) [OF that] by simp
  qed
  ultimately show ?thesis using shape by (intro exI [of _ ?p2]) simp
qed

text \<open>No other key notices.\<close>

lemma failed_rows:
  assumes wf: "conf_wf p" and k: "storable k" and p': "cp_layout p' = cp_layout p" "n_keys p' = n_keys p"
    and found: "conf_find p k = Some found" "(case found of Some i \<Rightarrow> i | None \<Rightarrow> n_keys p) = idx"
    and rows: "\<And>i. i < 50 \<Longrightarrow> krec p' i = (if i = idx then put (krec p idx) 0 (key_text k) else krec p i) \<and>
      slot_of p' i = (if i = idx then s else slot_of p i)"
    and k': "key_id k' \<noteq> key_id k"
  shows "conf_row p' k' = conf_row p k'"
proof -
  have k32: "k_len k \<le> 32" using k by (simp add: storable_def)
  have fi: "found = find_index (\<lambda>r. fst r = key_id k) (conf_abs p)"
    using conf_find_eq [OF wf k32] found(1) by simp
  have same: "conf_abs p' ! i = conf_abs p ! i" if "i < n_keys p" "i \<noteq> idx" for i
    using that n_keys_le [OF wf] rows [of i] p' by (simp add: nth_conf_abs stored_krec)
  have "map_of (conf_abs p') key = map_of (conf_abs p) key" if "key \<noteq> key_id k" for key
  proof (cases found)
    case None
    then have "conf_abs p' = conf_abs p" using same p'(2) found(2) by (intro nth_equalityI) auto
    then show ?thesis by simp
  next
    case (Some i)
    then have i: "find_index (\<lambda>r. fst r = key_id k) (conf_abs p) = Some i" "i = idx" using fi found(2) by auto
    have at: "i < n_keys p" "stored_id (stored p i) = key_id k"
      using find_index_bound [OF i(1)] by (auto simp: nth_conf_abs)
    have b: "length (krec p i) = key_size (cp_layout p)" "length (key_buf (stored p i)) = 32"
      using at n_keys_le [OF wf] wf by (simp_all add: length_krec)
    have "stored p' i = (stored p i)\<lparr>key_buf := put (key_buf (stored p i)) 0 (key_text k)\<rparr>"
      using i at n_keys_le [OF wf] rows [of i] key_of_buf [OF b(1) length_key_text] p'(1)
      by (simp add: stored_krec)
    moreover have "key_len (stored p i) = of_nat (k_len k)" using at(2) by (simp add: stored_id_def key_id_def)
    ultimately have "stored_id (stored p' i) = stored_id (new_key k Uint32 (stored p i))"
      by (simp add: stored_id_def new_key_def)
    then have "fst (conf_abs p' ! i) = key_id k" using new_key_id [OF k b(2)] at p'(2) by (simp add: nth_conf_abs)
    then have "conf_abs p' ! i = (key_id k, snd (conf_abs p' ! i))" by (metis prod.collapse)
    moreover have "conf_abs p' = (conf_abs p)[i := conf_abs p' ! i]"
      using same p'(2) at i(2) by (intro list_changed_at) simp_all
    ultimately have "conf_abs p' = (conf_abs p)[i := (key_id k, snd (conf_abs p' ! i))]" by metis
    then have "map_of (conf_abs p') = (map_of (conf_abs p))(key_id k \<mapsto> snd (conf_abs p' ! i))"
      using map_of_update_first [OF i(1)] by metis
    then show ?thesis using that by simp
  qed
  then show ?thesis using k' by (simp add: conf_row_def)
qed

text \<open>Property C22. A config partition is a map. The five setters never panic; one reports success
  exactly when the partition is not full, the key is stored or valid, and the encoded value fits
  the slot. Then the matching getter returns the value stored. Every getter of every other key
  returns what it returned before, whether the setter succeeded or not, and the partition stays
  well formed. The key has to be one the store can hold: \<open>snprintf\<close> cuts the last character of
  one with 32.\<close>

theorem config_set_get:
  assumes C: "cbor2_ok C" and wf: "conf_wf p" and k: "storable k" and um: "50 \<le> um"
  shows "\<exists>p' ok. cfg_set C p k v = Some (p', ok) \<and> conf_wf p' \<and>
    (ok \<longleftrightarrow> n_keys p < 50 \<and> (key_id k \<in> fst ` set (conf_abs p) \<or> key_is_valid k) \<and> length (cfg_wire v) \<le> 50) \<and>
    (ok \<longrightarrow> cfg_reads um p' k v) \<and> (\<forall>k'. key_id k' \<noteq> key_id k \<longrightarrow> same_reads um p p' k')"
proof -
  obtain encode where set: "cfg_set C p k v = set_typed p k (cfg_type v) encode"
    and enc: "\<And>s. length s = 50 \<Longrightarrow> if length (cfg_wire v) \<le> 50 then encode s = Some (put s 0 (cfg_wire v), True)
       else \<exists>b. length b \<le> 50 \<and> encode s = Some (put s 0 b, False)"
    using cfg_set_typed [OF C] by metis
  have k32: "k_len k \<le> 32" using k by (simp add: storable_def)
  define found where "found = find_index (\<lambda>r. fst r = key_id k) (conf_abs p)"
  have find: "conf_find p k = Some found" using conf_find_eq [OF wf k32] by (simp add: found_def)
  have known: "found \<noteq> None \<longleftrightarrow> key_id k \<in> fst ` set (conf_abs p)"
    unfolding found_def using find_index_None [of "\<lambda>r. fst r = key_id k" "conf_abs p"] by force
  show ?thesis
  proof (cases "n_keys p < 50 \<and> (found = None \<longrightarrow> key_is_valid k)")
    case False
    then have "cfg_set C p k v = Some (p, False)"
      using find k32 unfolding set
      by (auto simp: set_typed_def num_keys_eq [OF wf] conf_consts split: option.split)
    moreover have "same_reads um p p k'" for k' by (rule same_reads_row [OF wf wf refl])
    ultimately show ?thesis using False known wf by blast
  next
    case True
    let ?s = "slot_of p (case found of Some i \<Rightarrow> i | None \<Rightarrow> n_keys p)"
    have "(case found of Some i \<Rightarrow> i | None \<Rightarrow> n_keys p) < 50"
      using conf_find_total [OF wf, of k] find True n_keys_le [OF wf] by (auto split: option.split)
    then have l: "length ?s = 50" using wf by simp
    show ?thesis
    proof (cases "length (cfg_wire v) \<le> 50")
      case fits: True
      then have e: "encode ?s = Some (put ?s 0 (cfg_wire v), True)" using enc [OF l] by simp
      have put: "put ?s 0 (cfg_wire v) = cfg_wire v @ drop (length (cfg_wire v)) ?s" using fits l by (simp add: put_0)
      obtain q where q: "set_typed p k (cfg_type v) encode = Some (q, True)" "conf_wf q"
        "map_of (conf_abs q) = (map_of (conf_abs p))(key_id k \<mapsto> (ucast (value_type_code (cfg_type v)), put ?s 0 (cfg_wire v)))"
        using set_typed_abs [where encode = encode, OF wf k _ find _ e, of "cfg_type v"] fits l True by auto
      have "conf_row q k = Some (ucast (value_type_code (cfg_type v)), cfg_wire v @ drop (length (cfg_wire v)) ?s)"
        using q(3) k32 put by (simp add: conf_row_def)
      then have "cfg_reads um q k v" using row_reads [OF q(2) _ um fits] by blast
      moreover have "same_reads um p q k'" if "key_id k' \<noteq> key_id k" for k'
        using same_reads_row [OF wf q(2), of k'] q(3) that by (simp add: conf_row_def)
      ultimately show ?thesis using q set True fits known by auto
    next
      case big: False
      then obtain b where "length b \<le> 50" and e: "encode ?s = Some (put ?s 0 b, False)"
        using enc [OF l] by auto
      then have b: "length (put ?s 0 b) = 50" "encode ?s = Some (put ?s 0 b, False)" using l by simp_all
      have "n_keys p < 50" "found = None \<longrightarrow> key_is_valid k" using True by blast+
      then obtain q where q: "set_typed p k (cfg_type v) encode = Some (q, False)" "conf_wf q"
        "\<And>k'. key_id k' \<noteq> key_id k \<Longrightarrow> conf_row q k' = conf_row p k'"
        using set_typed_failed [where encode = encode, OF wf k32 _ find _ refl b(2,1), of "cfg_type v"]
          failed_rows [OF wf k _ _ find refl] by metis
      then have "same_reads um p q k'" if "key_id k' \<noteq> key_id k" for k'
        using same_reads_row [OF wf q(2)] that by simp
      then show ?thesis using q set big by auto
    qed
  qed
qed

lemma conf_new_wf: "layout_ok L \<Longrightarrow> conf_wf (conf_new L)" and conf_new_keys: "n_keys (conf_new L) = 0"
  by (simp_all add: conf_wf_def conf_new_def n_keys_def MAX_IMAGE_LEN_eq)

theorem config_set_get_witness:
  "\<exists>p'. cfg_set slice_cbor2 (conf_new LP64) (key_new [0x61, 0x62]) (VStr [0x68, 0x69]) = Some (p', True) \<and>
     cfg_reads 255 p' (key_new [0x61, 0x62]) (VStr [0x68, 0x69])"
proof -
  let ?p = "conf_new LP64" and ?k = "key_new [0x61, 0x62]" and ?v = "VStr [0x68, 0x69]"
  have "layout_ok LP64" by code_simp
  then have wf: "conf_wf ?p" by (rule conf_new_wf)
  have k: "storable ?k" "key_is_valid ?k" "length (cfg_wire ?v) \<le> 50" by code_simp+
  have "(50 :: nat) \<le> 255" by simp
  from config_set_get [OF slice_cbor2_ok wf k(1) this, of ?v] show ?thesis
    using k(2,3) conf_new_keys [of LP64] by auto
qed

end
