(* ===== verification/Config_Store.thy ===== *)
theory Config_Store
  imports Config_Access
begin

text \<open>
  The remaining operations of a config partition: raw CBOR values, removal, clearing, saving and
  loading, and the three partitions of \<open>ConfigStore\<close>. A removal drops the first row of its
  key, what is sealed loads again, and no sequence of operations panics, whatever image was
  loaded.
\<close>

section \<open>Totality of the setters\<close>

definition keeps_slot :: "(bytes \<Rightarrow> (bytes \<times> bool) option) \<Rightarrow> bool" where
  "keeps_slot encode \<longleftrightarrow> (\<forall>s. length s = 50 \<longrightarrow> (\<exists>s' ok. encode s = Some (s', ok) \<and> length s' = 50))"

lemma set_typed_total:
  assumes wf: "conf_wf p" and enc: "keeps_slot encode"
  shows "\<exists>p' ok. set_typed p k ty encode = Some (p', ok) \<and> conf_wf p' \<and> cp_layout p' = cp_layout p"
proof -
  obtain found where found: "conf_find p k = Some found" "\<And>i. found = Some i \<Longrightarrow> i < n_keys p"
    using conf_find_total [OF wf] by blast
  show ?thesis
  proof (cases "k_len k \<le> 32 \<and> n_keys p < 50 \<and> (found = None \<longrightarrow> key_is_valid k)")
    case True
    let ?s = "slot_of p (case found of Some i \<Rightarrow> i | None \<Rightarrow> n_keys p)"
    have "(case found of Some i \<Rightarrow> i | None \<Rightarrow> n_keys p) < 50"
      using found True n_keys_le [OF wf] by (auto split: option.split dest: less_le_trans)
    then have "length ?s = 50" using wf by simp
    then obtain s' ok where e: "encode ?s = Some (s', ok)" "length s' = 50"
      using enc unfolding keeps_slot_def by blast
    have k: "k_len k \<le> 32" "n_keys p < 50" "found = None \<longrightarrow> key_is_valid k" using True by auto
    show ?thesis
    proof (cases ok)
      case True
      then show ?thesis
        using set_typed_ok [where encode = encode, OF wf k(1,2) found(1) refl k(3) _ e(2), of ty] e(1) by auto
    next
      case False
      then show ?thesis
        using set_typed_failed [where encode = encode, OF wf k(1,2) found(1) k(3) refl _ e(2), of ty] e(1) by auto
    qed
  next
    case False
    then have "set_typed p k ty encode = Some (p, False)"
      using found(1) by (auto simp: set_typed_def num_keys_eq [OF wf] conf_consts split: option.split)
    then show ?thesis using wf by (intro exI [of _ p] exI [of _ False]) simp
  qed
qed

lemma cfg_set_total:
  assumes C: "cbor2_ok C" and wf: "conf_wf p"
  shows "\<exists>p' ok. cfg_set C p k v = Some (p', ok) \<and> conf_wf p' \<and> cp_layout p' = cp_layout p"
proof -
  obtain encode where e: "cfg_set C p k v = set_typed p k (cfg_type v) encode"
    "\<And>s. length s = 50 \<Longrightarrow> if length (cfg_wire v) \<le> 50 then encode s = Some (put s 0 (cfg_wire v), True)
       else \<exists>b. length b \<le> 50 \<and> encode s = Some (put s 0 b, False)"
    using cfg_set_typed [OF C] by metis
  have "keeps_slot encode" unfolding keeps_slot_def
  proof (intro allI impI)
    fix s :: bytes assume "length s = 50"
    then show "\<exists>s' ok. encode s = Some (s', ok) \<and> length s' = 50"
      using e(2) [of s] by (cases "length (cfg_wire v) \<le> 50") auto
  qed
  then show ?thesis using set_typed_total [OF wf] e(1) by simp
qed

section \<open>Raw values\<close>

text \<open>\<open>set_config_cbor\<close> stores any item whose head has a config type, in an existing row even of a
  full partition.\<close>

lemma set_cbor_ok:
  assumes wf: "conf_wf p" and k: "k_len k \<le> 32" and v: "value \<noteq> []" "length value \<le> 50"
    and head: "parse_head value = Some h" "config_type h = Some ty"
    and found: "conf_find p k = Some found" "found = None \<longrightarrow> key_is_valid k \<and> n_keys p < 50"
    and at: "(case found of Some i \<Rightarrow> i | None \<Rightarrow> n_keys p) = idx"
  shows "\<exists>p'. set_cbor p k value = Some (p', True) \<and> conf_wf p' \<and> cp_layout p' = cp_layout p \<and>
    n_keys p' = (if found = None then Suc (n_keys p) else n_keys p) \<and>
    (\<forall>i < 50. slot_of p' i = (if i = idx then put (slot_of p idx) 0 value else slot_of p i) \<and>
      stored p' i = (if i = idx then (if found = None then new_key k ty (stored p idx)
          else \<lparr>key_buf = key_buf (stored p idx), key_len = of_nat (k_len k), value_type = ucast (value_type_code ty)\<rparr>)
        else stored p i))"
proof -
  let ?L = "cp_layout p"
  have L: "layout_ok ?L" using wf by (simp add: conf_wf_def)
  have idx: "idx < 50" and new: "found \<noteq> None \<Longrightarrow> idx \<noteq> n_keys p"
    using conf_find_total [OF wf, of k] found at n_keys_le [OF wf]
    by (auto split: option.splits dest: less_le_trans)
  have ks: "0 + length (key_text k) \<le> key_size ?L"
    using length_key_text [of k] key_size_bounds [OF L] by simp
  note e1 = edit_key [OF wf idx ks, simplified, OF refl]
  define p1 where "p1 = (if found = None then p\<lparr>cp_image := put (cp_image p) (key_offset ?L idx) (key_text k)\<rparr> else p)"
  have p1: "conf_wf p1" "cp_layout p1 = ?L" "n_keys p1 = n_keys p"
    "\<And>i. i < 50 \<Longrightarrow> krec p1 i = (if i = idx \<and> found = None then put (krec p idx) 0 (key_text k) else krec p i) \<and>
      slot_of p1 i = slot_of p i"
    using e1(3,4) same_shape_wf [OF e1(2) wf] same_shape_keys [OF e1(2)] wf by (auto simp: p1_def)
  obtain p2 where p2: "write_key_meta p1 idx k ty = Some p2" "same_shape p1 p2"
    "\<And>i. i < 50 \<Longrightarrow> krec p2 i = (if i = idx then put_meta ?L k ty (krec p1 idx) else krec p1 i) \<and>
      slot_of p2 i = slot_of p1 i"
    using write_key_meta_eq [OF p1(1) idx, of k ty] p1(2) by auto
  have wf2: "conf_wf p2" and l2: "cp_layout p2 = ?L" and n2: "n_keys p2 = n_keys p"
    using same_shape_wf [OF p2(2) p1(1)] same_shape_keys [OF p2(2)] p1(2,3) p2(2)
    by (simp, simp add: same_shape_def, simp)
  let ?p3 = "p2\<lparr>cp_image := put (cp_image p2) (value_offset ?L idx) value\<rparr>"
  note e3 = edit_slot [OF wf2 idx v(2), unfolded l2]
  have wf3: "conf_wf ?p3" and n3: "n_keys ?p3 = n_keys p"
    using same_shape_wf [OF e3(2) wf2] same_shape_keys [OF e3(2)] n2 by simp_all
  have rows: "slot_of ?p3 i = (if i = idx then put (slot_of p idx) 0 value else slot_of p i) \<and>
      stored ?p3 i = (if i = idx then (if found = None then new_key k ty (stored p idx)
          else \<lparr>key_buf = key_buf (stored p idx), key_len = of_nat (k_len k), value_type = ucast (value_type_code ty)\<rparr>)
        else stored p i)" if i: "i < 50" for i
  proof -
    have b: "length (krec p idx) = key_size ?L" using length_krec [OF wf idx] .
    have "key_of ?L (put_meta ?L k ty (put (krec p idx) 0 (key_text k))) = new_key k ty (stored p idx)"
      using key_of_meta [OF L _ k] key_of_buf [OF b length_key_text] ks b
      by (simp add: new_key_def stored_krec)
    moreover have "key_of ?L (put_meta ?L k ty (krec p idx)) =
        \<lparr>key_buf = key_buf (stored p idx), key_len = of_nat (k_len k), value_type = ucast (value_type_code ty)\<rparr>"
      using key_of_meta [OF L b k] by (simp add: stored_krec)
    ultimately show ?thesis
      using p1(4) [OF i] p1(4) [OF idx] p2(3) [OF i] p2(3) [OF idx] e3(3,4) [OF i] l2
      by (auto simp: stored_krec)
  qed
  obtain q where q: "(if idx = n_keys p then set_num_keys ?p3 one_more else Some ?p3) = Some q" "conf_wf q"
    "n_keys q = (if found = None then Suc (n_keys p) else n_keys p)" "cp_layout q = ?L"
    "\<And>i. i < 50 \<Longrightarrow> krec q i = krec ?p3 i \<and> slot_of q i = slot_of ?p3 i"
    using num_keys_more [OF wf3] n3 l2 wf3 found(2) at new by (cases found) auto
  have w: "write_key_buf p (n_keys p) k = Some p1" if "found = None"
    using write_key_buf_eq [OF wf idx, of k] that at by (simp add: p1_def)
  have "set_cbor p k value = Some (q\<lparr>cp_needs_commit := True\<rparr>, True)"
    using k v head found at w e3(1) p2(1) q(1) l2 n_keys_le [OF wf]
    by (cases found) (auto simp: set_cbor_def num_keys_eq [OF wf] conf_consts Let_def p1_def)
  moreover have "conf_wf (q\<lparr>cp_needs_commit := True\<rparr>)" "n_keys (q\<lparr>cp_needs_commit := True\<rparr>) = n_keys q"
    "stored (q\<lparr>cp_needs_commit := True\<rparr>) i = stored q i" "slot_of (q\<lparr>cp_needs_commit := True\<rparr>) i = slot_of q i" for i
    using q(2) by (simp_all add: conf_wf_def n_keys_def stored_def slot_of_def)
  moreover have "stored q i = stored ?p3 i" if "i < 50" for i using q(4,5) l2 that by (simp add: stored_krec)
  ultimately show ?thesis using q rows by auto
qed

lemma set_cbor_total:
  assumes wf: "conf_wf p"
  shows "\<exists>p' ok. set_cbor p k value = Some (p', ok) \<and> conf_wf p' \<and> cp_layout p' = cp_layout p"
proof -
  obtain found where found: "conf_find p k = Some found"
    using conf_find_total [OF wf] by blast
  show ?thesis
  proof (cases "k_len k \<le> 32 \<and> length value \<le> 50 \<and> value \<noteq> [] \<and> parse_head value \<noteq> None \<and>
      (found = None \<longrightarrow> key_is_valid k \<and> n_keys p < 50)")
    case False
    then have "set_cbor p k value = Some (p, False)"
      using found n_keys_le [OF wf]
      by (auto simp: set_cbor_def num_keys_eq [OF wf] conf_consts split: option.split)
    then show ?thesis using wf by (intro exI [of _ p] exI [of _ False]) simp
  next
    case True
    then obtain h where h: "parse_head value = Some h" by blast
    show ?thesis
    proof (cases "config_type h")
      case None
      have "write_key_buf p (n_keys p) k = Some
          (p\<lparr>cp_image := put (cp_image p) (key_offset (cp_layout p) (n_keys p)) (key_text k)\<rparr>)" (is "_ = Some ?p1")
        if "n_keys p < 50" using write_key_buf_eq [OF wf that] .
      moreover have "conf_wf ?p1" if n: "n_keys p < 50"
      proof -
        have ks: "0 + length (key_text k) \<le> key_size (cp_layout p)"
          using length_key_text [of k] key_size_bounds [of "cp_layout p"] wf by (simp add: conf_wf_def)
        then show ?thesis using edit_key(2) [OF wf n ks] same_shape_wf wf by simp
      qed
      ultimately show ?thesis using True found h None wf
        by (cases found) (auto simp: set_cbor_def num_keys_eq [OF wf] conf_consts)
    next
      case (Some ty)
      then show ?thesis using set_cbor_ok [OF wf _ _ _ h Some found _ refl] True by blast
    qed
  qed
qed

section \<open>Removal\<close>

lemma move_down:
  assumes "from + len \<le> length xs" "d \<le> from"
  shows "move_within xs from (from + len) (from - d) = Some (put xs (from - d) (subslice xs from len))"
  using assms by (simp add: move_within_def buf_simps)

text \<open>Moving the tail of a row of \<open>n\<close> equal cells down by one.\<close>

lemma move_cells:
  assumes b: "base + n * w \<le> length xs" and j: "j < n"
  defines "ys \<equiv> put xs (base + j * w) (subslice xs (base + Suc j * w) ((n - 1 - j) * w))"
  shows "length ys = length xs"
    and "i < n - 1 \<Longrightarrow> subslice ys (base + i * w) w = subslice xs (base + (if i < j then i else Suc i) * w) w"
    and "c + m \<le> base \<or> base + n * w \<le> c \<Longrightarrow> subslice ys c m = subslice xs c m"
proof -
  let ?m = "(n - 1 - j) * w"
  have m: "base + Suc j * w + ?m = base + n * w"
  proof -
    have "Suc j + (n - 1 - j) = n" using j by simp
    then show ?thesis by (metis add.assoc add_mult_distrib)
  qed
  then have fit: "base + Suc j * w + ?m \<le> length xs" using b by simp
  then have l: "length (subslice xs (base + Suc j * w) ?m) = ?m" by simp
  then have fit': "base + j * w + length (subslice xs (base + Suc j * w) ?m) \<le> length xs" using fit by simp
  then show "length ys = length xs" by (simp add: ys_def)
  show "subslice ys c m = subslice xs c m" if "c + m \<le> base \<or> base + n * w \<le> c"
  proof -
    have "base + j * w + ?m \<le> base + n * w" using m by simp
    then show ?thesis using that fit' l unfolding ys_def by (intro subslice_put_apart) auto
  qed
  show "subslice ys (base + i * w) w = subslice xs (base + (if i < j then i else Suc i) * w) w" if i: "i < n - 1"
  proof (cases "i < j")
    case True
    then have "i * w + w \<le> j * w" using mult_le_mono1 [of "Suc i" j w] by simp
    then show ?thesis using True fit' l unfolding ys_def by (simp add: subslice_put_apart)
  next
    case False
    then have jw: "j * w \<le> i * w" by simp
    have "Suc (i - j) \<le> n - 1 - j" using i False j by arith
    then have "(i - j) * w + w \<le> ?m" using mult_le_mono1 [of "Suc (i - j)" "n - 1 - j" w] by simp
    moreover have off: "(i - j) * w = i * w - j * w" by (simp add: diff_mult_distrib)
    ultimately have fits: "i * w - j * w + w \<le> ?m" by simp
    have "subslice ys (base + i * w) w = subslice (subslice ys (base + j * w) ?m) (i * w - j * w) w"
      using fits jw by simp
    also have "subslice ys (base + j * w) ?m = subslice xs (base + Suc j * w) ?m"
      unfolding ys_def using fit' l by (intro subslice_put_same) simp_all
    also have "subslice \<dots> (i * w - j * w) w = subslice xs (base + Suc i * w) w"
      using fits jw by (simp add: add.commute add.left_commute)
    finally show ?thesis using False by simp
  qed
qed

lemma num_keys_less:
  assumes wf: "conf_wf p" and n: "0 < n_keys p"
  shows "\<exists>q. set_num_keys p one_less = Some q \<and> conf_wf q \<and> n_keys q = n_keys p - 1 \<and> cp_layout q = cp_layout p \<and>
    (\<forall>i < 50. krec q i = krec p i \<and> slot_of q i = slot_of p i)"
proof -
  have nz: "cp_image p ! 8 \<noteq> 0" using n by (auto simp: n_keys_def)
  then have u: "unat (cp_image p ! 8 - 1) = n_keys p - 1" by (simp add: n_keys_def unat_minus_one)
  show ?thesis
    using set_num_keys_eq [OF wf, of one_less "cp_image p ! 8 - 1"] n_keys_le [OF wf] nz u by (auto simp: one_less_def)
qed

text \<open>The gap is closed: rows behind the removed one move down.\<close>

lemma remove_key_ok:
  assumes wf: "conf_wf p" and found: "conf_find p k = Some (Some idx)"
  shows "\<exists>p'. remove_key p k = Some (p', True) \<and> conf_wf p' \<and> cp_layout p' = cp_layout p \<and>
    n_keys p' = n_keys p - 1 \<and> (\<forall>i < n_keys p - 1. stored p' i = stored p (if i < idx then i else Suc i) \<and>
      slot_of p' i = slot_of p (if i < idx then i else Suc i))"
proof -
  let ?L = "cp_layout p" and ?n = "n_keys p"
  let ?ks = "key_size ?L" and ?vb = "9 + 50 * key_size ?L"
  have L: "layout_ok ?L" using wf by (simp add: conf_wf_def)
  have idx: "idx < ?n" "?n \<le> 50" using conf_find_total [OF wf, of k] found n_keys_le [OF wf] by auto
  have len: "?vb + 50 * 50 \<le> length (cp_image p)"
    using wf image_len_bound [OF L] by (simp add: conf_wf_def image_len_eq)
  have cells: "9 + ?n * ?ks \<le> ?vb" using mult_le_mono1 [OF idx(2), of ?ks] by simp
  define a where "a = put (cp_image p) (9 + idx * ?ks) (subslice (cp_image p) (9 + Suc idx * ?ks) ((?n - 1 - idx) * ?ks))"
  have keys_fit: "9 + ?n * ?ks \<le> length (cp_image p)" using cells len by linarith
  note ka = move_cells [where xs = "cp_image p" and w = ?ks, OF keys_fit idx(1), folded a_def]
  have la: "length a = length (cp_image p)" by (rule ka(1))
  define b where "b = put a (?vb + idx * 50) (subslice a (?vb + Suc idx * 50) ((?n - 1 - idx) * 50))"
  have vcells: "?vb + ?n * 50 \<le> length a" using la len idx(2) by simp
  note kb = move_cells [where xs = a and w = 50, OF vcells idx(1), folded b_def]
  let ?q = "p\<lparr>cp_image := b\<rparr>"
  have lb: "length b = length (cp_image p)" using kb(1) la by simp
  have krec_q: "krec ?q i = krec p (if i < idx then i else Suc i)" if i: "i < ?n - 1" for i
  proof -
    have "Suc i \<le> 50" using i idx(2) by linarith
    then have "9 + i * ?ks + ?ks \<le> ?vb" using mult_le_mono1 [of "Suc i" 50 ?ks] by simp
    then have "subslice b (9 + i * ?ks) ?ks = subslice a (9 + i * ?ks) ?ks" by (intro kb(3)) simp
    then show ?thesis using ka(2) [OF i] by (simp add: krec_def key_offset_def conf_consts)
  qed
  have slot_q: "slot_of ?q i = slot_of p (if i < idx then i else Suc i)" if i: "i < ?n - 1" for i
  proof -
    let ?j = "if i < idx then i else Suc i"
    have "subslice b (?vb + i * 50) 50 = subslice a (?vb + ?j * 50) 50" using kb(2) [OF i] by simp
    also have "\<dots> = subslice (cp_image p) (?vb + ?j * 50) 50"
      using cells by (intro ka(3) disjI2) linarith
    finally show ?thesis by (simp add: slot_of_def value_offset_def conf_consts)
  qed
  have wfq: "conf_wf ?q" "n_keys ?q = ?n"
  proof -
    have "subslice b 0 9 = subslice (cp_image p) 0 9" using kb(3) [of 0 9] ka(3) [of 0 9] by simp
    then have "take 9 b = take 9 (cp_image p)" by (simp add: subslice_def)
    then have "same_shape p ?q" using lb by (simp add: same_shape_def)
    then show "conf_wf ?q" "n_keys ?q = ?n" using same_shape_wf [OF _ wf] same_shape_keys by blast+
  qed
  have moved: "(if idx < ?n - 1 then do {
       img \<leftarrow> move_within (cp_image p) (9 + Suc idx * ?ks) (9 + Suc idx * ?ks + (?n - 1 - idx) * ?ks) (9 + Suc idx * ?ks - ?ks);
       move_within img (?vb + Suc idx * 50) (?vb + Suc idx * 50 + (?n - 1 - idx) * 50) (?vb + Suc idx * 50 - 50) }
     else Some (cp_image p)) = Some b"
  proof (cases "idx < ?n - 1")
    case True
    have s: "Suc idx + (?n - 1 - idx) = ?n" using idx(1) by simp
    then have "9 + Suc idx * ?ks + (?n - 1 - idx) * ?ks = 9 + ?n * ?ks" by (metis add.assoc add_mult_distrib)
    then have "9 + Suc idx * ?ks + (?n - 1 - idx) * ?ks \<le> length (cp_image p)" using keys_fit by simp
    then have "move_within (cp_image p) (9 + Suc idx * ?ks) (9 + Suc idx * ?ks + (?n - 1 - idx) * ?ks)
        (9 + Suc idx * ?ks - ?ks) = Some (put (cp_image p) (9 + Suc idx * ?ks - ?ks)
          (subslice (cp_image p) (9 + Suc idx * ?ks) ((?n - 1 - idx) * ?ks)))" by (intro move_down) simp_all
    then have 1: "move_within (cp_image p) (9 + Suc idx * ?ks) (9 + Suc idx * ?ks + (?n - 1 - idx) * ?ks)
        (9 + Suc idx * ?ks - ?ks) = Some a" by (simp add: a_def)
    have "?vb + Suc idx * 50 + (?n - 1 - idx) * 50 \<le> length a" using vcells idx(1) by simp
    then have "move_within a (?vb + Suc idx * 50) (?vb + Suc idx * 50 + (?n - 1 - idx) * 50)
        (?vb + Suc idx * 50 - 50) = Some (put a (?vb + Suc idx * 50 - 50)
          (subslice a (?vb + Suc idx * 50) ((?n - 1 - idx) * 50)))" by (intro move_down) simp_all
    then have 2: "move_within a (?vb + Suc idx * 50) (?vb + Suc idx * 50 + (?n - 1 - idx) * 50)
        (?vb + Suc idx * 50 - 50) = Some b"
      by (simp only: b_def) (simp only: mult_Suc diff_add_inverse add.left_commute [of _ "50 :: nat"])
    show ?thesis using True 1 2 by simp
  next
    case False
    then have z: "?n - 1 - idx = 0" using idx(1) by simp
    have "a = cp_image p" unfolding a_def z by (simp add: put_def)
    moreover have "b = a" unfolding b_def z by (simp add: put_def)
    ultimately show ?thesis using False by simp
  qed
  obtain p' where p': "set_num_keys ?q one_less = Some p'" "conf_wf p'" "n_keys p' = ?n - 1" "cp_layout p' = ?L"
    "\<And>i. i < 50 \<Longrightarrow> krec p' i = krec ?q i \<and> slot_of p' i = slot_of ?q i"
    using num_keys_less [OF wfq(1)] wfq(2) idx(1) by auto
  have offs: "key_offset ?L i = 9 + i * ?ks" "value_offset ?L i = ?vb + i * 50" "SLOT = 50" for i
    by (simp_all add: key_offset_def value_offset_def conf_consts)
  have nz: "(?n = 0) = False" using idx(1) by simp
  have "remove_key p k = Some (p'\<lparr>cp_needs_commit := True\<rparr>, True)"
    by (simp only: remove_key_def found num_keys_eq [OF wf] bind.simps option.case Let_def nz if_False offs
        Suc_eq_plus1 [symmetric] moved p'(1))
  moreover have "conf_wf (p'\<lparr>cp_needs_commit := True\<rparr>)" "n_keys (p'\<lparr>cp_needs_commit := True\<rparr>) = n_keys p'"
    "stored (p'\<lparr>cp_needs_commit := True\<rparr>) i = stored p' i" "slot_of (p'\<lparr>cp_needs_commit := True\<rparr>) i = slot_of p' i" for i
    using p'(2) by (simp_all add: conf_wf_def n_keys_def stored_def slot_of_def)
  moreover have "stored p' i = stored p (if i < idx then i else Suc i) \<and> slot_of p' i = slot_of p (if i < idx then i else Suc i)"
    if "i < ?n - 1" for i
    using krec_q [OF that] slot_q [OF that] p'(4,5) idx(2) that by (simp add: stored_krec)
  ultimately show ?thesis using p'(3,4) by auto
qed

lemma remove_key_abs:
  assumes wf: "conf_wf p" and k: "k_len k \<le> 32"
  shows "\<exists>p' ok. remove_key p k = Some (p', ok) \<and> conf_wf p' \<and> cp_layout p' = cp_layout p \<and>
    (ok \<longleftrightarrow> key_id k \<in> fst ` set (conf_abs p)) \<and>
    conf_abs p' = remove_first (\<lambda>r. fst r = key_id k) (conf_abs p)"
proof (cases "find_index (\<lambda>r. fst r = key_id k) (conf_abs p)")
  case None
  then have "conf_find p k = Some None" using conf_find_eq [OF wf k] by simp
  moreover have none: "\<forall>r \<in> set (conf_abs p). fst r \<noteq> key_id k"
    using None find_index_None [of "\<lambda>r. fst r = key_id k" "conf_abs p"] by blast
  moreover have "remove_first P xs = xs" if "\<forall>r \<in> set xs. \<not> P r" for P and xs :: "((u64 \<times> bytes) \<times> u32 \<times> bytes) list"
    using that by (induction xs) auto
  ultimately show ?thesis using wf by (force simp: remove_key_def)
next
  case (Some idx)
  then have f: "conf_find p k = Some (Some idx)" using conf_find_eq [OF wf k] by simp
  have idx: "idx < n_keys p" "fst (conf_abs p ! idx) = key_id k" using find_index_bound [OF Some] by auto
  obtain p' where p': "remove_key p k = Some (p', True)" "conf_wf p'" "cp_layout p' = cp_layout p"
    "n_keys p' = n_keys p - 1"
    "\<And>i. i < n_keys p - 1 \<Longrightarrow> stored p' i = stored p (if i < idx then i else Suc i) \<and>
      slot_of p' i = slot_of p (if i < idx then i else Suc i)"
    using remove_key_ok [OF wf f] by blast
  have "conf_abs p' = take idx (conf_abs p) @ drop (Suc idx) (conf_abs p)"
    using p'(4,5) idx(1) by (intro nth_equalityI) (auto simp: nth_conf_abs nth_append)
  then have "conf_abs p' = remove_first (\<lambda>r. fst r = key_id k) (conf_abs p)"
    using find_index_Some(4) [OF Some] by simp
  moreover have "key_id k \<in> fst ` set (conf_abs p)"
    using idx nth_mem [of idx "conf_abs p"] by (metis imageI length_conf_abs)
  ultimately show ?thesis using p' by blast
qed

lemma remove_key_total:
  assumes wf: "conf_wf p"
  shows "\<exists>p' ok. remove_key p k = Some (p', ok) \<and> conf_wf p' \<and> cp_layout p' = cp_layout p"
proof -
  obtain found where f: "conf_find p k = Some found" using conf_find_total [OF wf] by blast
  show ?thesis
  proof (cases found)
    case None
    then show ?thesis using f wf by (intro exI [of _ p] exI [of _ False]) (simp add: remove_key_def)
  next
    case (Some idx)
    then show ?thesis using remove_key_ok [OF wf] f by blast
  qed
qed

section \<open>Saving and loading\<close>

lemma conf_u32_at_eq:
  assumes "off + 4 \<le> length (cp_image p)"
  shows "conf_u32_at p off = Some (from_le (subslice (cp_image p) off 4))"
proof -
  have "subslice (cp_image p) off 4 = [cp_image p ! off, cp_image p ! (off + 1), cp_image p ! (off + 2), cp_image p ! (off + 3)]"
    using assms by (intro nth_equalityI) (auto simp: nth_Cons' less_Suc_eq numeral_eq_Suc)
  then show ?thesis using assms by (simp add: conf_u32_at_def buf_simps)
qed

lemma conf_put_u32_eq:
  assumes wf: "conf_wf p" and off: "off + 4 \<le> 8"
  shows "conf_put_u32 p off v = Some (p\<lparr>cp_image := put (cp_image p) off (to_le 4 v)\<rparr>)"
    "conf_wf (p\<lparr>cp_image := put (cp_image p) off (to_le 4 v)\<rparr>)"
proof -
  have l: "off + length (to_le 4 v) \<le> 9" "off + length (to_le 4 v) \<le> 8" using off by simp_all
  note e = edit_header [OF wf l(1)]
  show "conf_put_u32 p off v = Some (p\<lparr>cp_image := put (cp_image p) off (to_le 4 v)\<rparr>)"
    using e(1) by (simp add: conf_put_u32_def)
  show "conf_wf (p\<lparr>cp_image := put (cp_image p) off (to_le 4 v)\<rparr>)"
    using e(4) e(5) [OF l(2)] wf by (simp add: conf_wf_def del: to_le_numeral)
qed

text \<open>What \<open>read\<close> left of the image.\<close>

definition read_image :: "(bytes \<Rightarrow> bytes \<times> bool) \<Rightarrow> ConfigPartition \<Rightarrow> ConfigPartition" where
  "read_image read p = p\<lparr>cp_image :=
     put (cp_image p) 0 (fst (read (take (image_len (cp_layout p)) (cp_image p))))\<rparr>"

definition image_good :: "ConfigPartition \<Rightarrow> bool" where
  "image_good p \<longleftrightarrow> crc32_ieee (subslice (cp_image p) 4 (image_len (cp_layout p) - 4)) =
     from_le (subslice (cp_image p) 0 4) \<and> n_keys p \<le> 50"

lemma load_with_eq:
  assumes wf: "conf_wf p"
    and read: "length (fst (read (take (image_len (cp_layout p)) (cp_image p)))) = image_len (cp_layout p)"
  defines "q \<equiv> read_image read p"
  shows "\<exists>p' ok. load_with read p = Some (p', ok) \<and> conf_wf p' \<and> cp_layout p' = cp_layout p \<and>
    (ok \<longleftrightarrow> snd (read (take (image_len (cp_layout p)) (cp_image p))) \<and> image_good q) \<and>
    (if ok then p' = q else n_keys p' = 0)"
proof -
  let ?L = "cp_layout p"
  have L: "layout_ok ?L" "length (cp_image p) = MAX_IMAGE_LEN" using wf by (simp_all add: conf_wf_def)
  note il = image_len_bound [OF L(1)]
  obtain front ok where r: "read (take (image_len ?L) (cp_image p)) = (front, ok)" by fastforce
  have lf: "length front = image_len ?L"
    using read r by simp
  have q: "q = p\<lparr>cp_image := put (cp_image p) 0 front\<rparr>" by (simp add: q_def read_image_def r)
  have lq: "length (cp_image q) = MAX_IMAGE_LEN" "cp_layout q = ?L" using lf il L(2) by (simp_all add: q)
  have wfq: "conf_wf q" if "n_keys q \<le> 50"
    using that lq L(1) by (simp add: conf_wf_def n_keys_def conf_consts)
  have copied: "copy_at (cp_image p) 0 front = Some (cp_image q)" "range_at (cp_image p) 0 (image_len ?L) =
      Some (take (image_len ?L) (cp_image p))"
    using lf il L(2) by (simp_all add: q copy_at_def range_at_def subslice_def)
  have reads: "range_at (cp_image q) 4 (image_len ?L) = Some (subslice (cp_image q) 4 (image_len ?L - 4))"
    "conf_crc32 q = Some (from_le (subslice (cp_image q) 0 4))" "num_keys q = Some (n_keys q)"
    using lq il by (simp_all add: range_at_def conf_crc32_def conf_u32_at_eq num_keys_def n_keys_def get_at_def MAX_IMAGE_LEN_eq)
  have reset: "\<exists>p'. Option.bind (set_num_keys q (\<lambda>_. Some 0)) (\<lambda>p. conf_put_u32 p 4 CONFIG_VERSION) = Some p' \<and>
      conf_wf p' \<and> cp_layout p' = ?L \<and> n_keys p' = 0"
  proof -
    let ?z = "q\<lparr>cp_image := (cp_image q)[8 := 0]\<rparr>"
    have z: "set_num_keys q (\<lambda>_. Some 0) = Some ?z"
      using lq by (simp add: set_num_keys_def buf_simps MAX_IMAGE_LEN_eq)
    have "conf_wf ?z" using lq L(1) by (simp add: conf_wf_def MAX_IMAGE_LEN_eq)
    note put = conf_put_u32_eq [OF this, of 4 CONFIG_VERSION, simplified]
    moreover have "n_keys (?z\<lparr>cp_image := put (cp_image ?z) 4 (to_le 4 CONFIG_VERSION)\<rparr>) = 0"
      using lq by (simp add: n_keys_def nth_put MAX_IMAGE_LEN_eq del: to_le_numeral)
    ultimately show ?thesis using z lq(2) by simp
  qed
  have decide: "load_with read p = (if ok \<and> image_good q then Some (q, True)
      else Option.bind (Option.bind (set_num_keys q (\<lambda>_. Some 0)) (\<lambda>p. conf_put_u32 p 4 CONFIG_VERSION)) (\<lambda>p. Some (p, False)))"
    using copied reads r lq(2) q
    by (simp add: load_with_def Let_def image_good_def conf_consts)
  show ?thesis
  proof (cases "ok \<and> image_good q")
    case True
    then show ?thesis using decide r lq(2) wfq
      by (intro exI [of _ q] exI [of _ True]) (simp add: image_good_def)
  next
    case False
    obtain z where z: "Option.bind (set_num_keys q (\<lambda>_. Some 0)) (\<lambda>p. conf_put_u32 p 4 CONFIG_VERSION) = Some z"
      "conf_wf z" "cp_layout z = ?L" "n_keys z = 0" using reset by blast
    have "load_with read p = Some (z, False)" by (simp only: decide if_not_P [OF False] z(1) bind.simps)
    then show ?thesis using z(2-) False r by (intro exI [of _ z] exI [of _ False]) simp
  qed
qed

lemma seal_eq:
  assumes wf: "conf_wf p"
  shows "\<exists>p'. seal p = Some (p', take (image_len (cp_layout p)) (cp_image p')) \<and> conf_wf p' \<and>
    cp_layout p' = cp_layout p \<and> image_good p' \<and> conf_abs p' = conf_abs p"
proof -
  let ?L = "cp_layout p"
  let ?body = "subslice (cp_image p) 4 (image_len ?L - 4)"
  let ?p' = "p\<lparr>cp_image := put (cp_image p) 0 (to_le 4 (crc32_ieee ?body))\<rparr>"
  have L: "layout_ok ?L" "length (cp_image p) = MAX_IMAGE_LEN" using wf by (simp_all add: conf_wf_def)
  note il = image_len_bound [OF L(1)]
  have z: "0 + 4 \<le> (8 :: nat)" by simp
  note put = conf_put_u32_eq [OF wf z, of "crc32_ieee ?body"]
  have l: "0 + length (to_le 4 (crc32_ieee ?body)) \<le> 9" "0 + length (to_le 4 (crc32_ieee ?body)) \<le> 8" by simp_all
  note e = edit_header [OF wf l(1)]
  have range: "range_at (cp_image p) 4 (image_len ?L) = Some ?body" using il L(2) by (simp add: range_at_def)
  have wf': "conf_wf ?p'" by (rule put(2))
  have n: "n_keys ?p' = n_keys p" using e(5) [OF l(2)] by (simp add: n_keys_def del: to_le_numeral)
  have abs: "conf_abs ?p' = conf_abs p"
  proof -
    have "stored ?p' i = stored p i \<and> slot_of ?p' i = slot_of p i" if "i < n_keys p" for i
      using e(2,3) [of i] that n_keys_le [OF wf] by (simp add: stored_krec del: to_le_numeral)
    then show ?thesis using n unfolding conf_abs_def by (intro map_cong) auto
  qed
  have "subslice (cp_image ?p') 4 (image_len ?L - 4) = ?body"
    using il L(2) MAX_IMAGE_LEN_eq by (simp del: to_le_numeral)
  moreover have "subslice (cp_image ?p') 0 4 = to_le 4 (crc32_ieee ?body)"
    using L(2) MAX_IMAGE_LEN_eq by (simp del: to_le_numeral)
  ultimately have good: "image_good ?p'"
    using n n_keys_le [OF wf] by (simp add: image_good_def del: to_le_numeral)
  have "seal p = Some (?p', take (image_len ?L) (cp_image ?p'))"
    using range put(1) il e(4) by (simp add: seal_def Let_def range_at_def subslice_def del: to_le_numeral)
  then show ?thesis using wf' good abs by (intro exI [of _ ?p']) simp
qed

lemma subslice_take: "a + n \<le> m \<Longrightarrow> subslice (take m xs) a n = subslice xs a n"
  by (simp add: subslice_def drop_take min_def)

lemma same_front_abs:
  assumes wf: "conf_wf p" "conf_wf q" and L: "cp_layout q = cp_layout p"
    and front: "take (image_len (cp_layout p)) (cp_image q) = take (image_len (cp_layout p)) (cp_image p)"
  shows "conf_abs q = conf_abs p"
proof -
  have lo: "layout_ok (cp_layout p)" "length (cp_image p) = MAX_IMAGE_LEN" "length (cp_image q) = MAX_IMAGE_LEN"
    using wf by (simp_all add: conf_wf_def)
  note il = image_len_bound [OF lo(1)]
  have sub: "subslice (cp_image q) a n = subslice (cp_image p) a n" if "a + n \<le> image_len (cp_layout p)" for a n
    using subslice_take [OF that, of "cp_image q"] subslice_take [OF that, of "cp_image p"] front by simp
  have "cp_image q ! 8 = cp_image p ! 8"
    using front il lo nth_take [of 8 "image_len (cp_layout p)" "cp_image q"] nth_take [of 8 "image_len (cp_layout p)" "cp_image p"]
    by simp
  then have n: "n_keys q = n_keys p" by (simp add: n_keys_def)
  have "stored q i = stored p i \<and> slot_of q i = slot_of p i" if "i < n_keys p" for i
  proof -
    have "i < 50" using that n_keys_le [OF wf(1)] by simp
    then show ?thesis
      using sub key_region(2) [of i "cp_layout p"] slot_region(2) [of i "cp_layout p"] L
      by (simp add: stored_krec krec_def slot_of_def image_len_eq)
  qed
  then show ?thesis using n unfolding conf_abs_def by (intro map_cong) auto
qed

text \<open>Property C23. What is saved loads again. The image \<open>seal\<close> hands to storage, copied into any
  other well-formed partition of the same layout, is accepted by \<open>load_with\<close>, and every getter of
  the loaded partition returns for every key what the saved one's returns; and whatever else is
  read into a partition, a failed load leaves it well formed and empty.\<close>

theorem config_save_load:
  assumes p: "conf_wf p" and q: "conf_wf q" and L: "cp_layout q = cp_layout p"
  shows "\<exists>p' img q'. seal p = Some (p', img) \<and> load_with (\<lambda>_. (img, True)) q = Some (q', True) \<and>
      (\<forall>um k. same_reads um p q' k) \<and>
    (\<forall>read. length (fst (read (take (image_len (cp_layout q)) (cp_image q)))) = image_len (cp_layout q) \<longrightarrow>
      (\<exists>r ok. load_with read q = Some (r, ok) \<and> conf_wf r \<and> (\<not> ok \<longrightarrow> stored_keys r = Some [])))"
proof -
  let ?n = "image_len (cp_layout p)"
  obtain p' where p': "seal p = Some (p', take ?n (cp_image p'))" "conf_wf p'"
    "cp_layout p' = cp_layout p" "image_good p'" "conf_abs p' = conf_abs p"
    using seal_eq [OF p] by blast
  let ?img = "take ?n (cp_image p')" and ?read = "\<lambda>_. (take ?n (cp_image p'), True)"
  have lo: "layout_ok (cp_layout p)" "length (cp_image p') = MAX_IMAGE_LEN" "length (cp_image q) = MAX_IMAGE_LEN"
    using p p'(2) q by (simp_all add: conf_wf_def)
  note il = image_len_bound [OF lo(1)]
  have len: "length ?img = ?n" using il lo by simp
  have front: "take ?n (cp_image (read_image ?read q)) = ?img"
    using len il lo L by (simp add: read_image_def put_0)
  have crc: "subslice (cp_image (read_image ?read q)) a m = subslice (cp_image p') a m" if "a + m \<le> ?n" for a m
    using subslice_take [OF that, of "cp_image (read_image ?read q)"] subslice_take [OF that, of "cp_image p'"] front
    by simp
  have "cp_image (read_image ?read q) ! 8 = cp_image p' ! 8"
    using front il nth_take [of 8 ?n "cp_image (read_image ?read q)"] nth_take [of 8 ?n "cp_image p'"] by simp
  then have good: "image_good (read_image ?read q)"
    using p'(3,4) crc il L by (simp add: image_good_def n_keys_def read_image_def)
  have lr: "length (fst (?read (take (image_len (cp_layout q)) (cp_image q)))) = image_len (cp_layout q)"
    using len L by simp
  obtain q' where q': "load_with ?read q = Some (q', True)" "conf_wf q'" "cp_layout q' = cp_layout p"
    "q' = read_image ?read q"
    using load_with_eq [where read = ?read, OF q lr] good L by auto
  have "conf_abs q' = conf_abs p'" using same_front_abs [OF p'(2) q'(2)] q'(3,4) p'(3) front by simp
  then have reads: "same_reads um p q' k" for um k
    using same_reads_row [OF p q'(2)] p'(5) by (simp add: conf_row_def)
  have "\<exists>r ok. load_with read q = Some (r, ok) \<and> conf_wf r \<and> (\<not> ok \<longrightarrow> stored_keys r = Some [])"
    if fits: "length (fst (read (take (image_len (cp_layout q)) (cp_image q)))) = image_len (cp_layout q)" for read
  proof -
    obtain r ok where r: "load_with read q = Some (r, ok)" "conf_wf r"
      "if ok then r = read_image read q else n_keys r = 0"
      using load_with_eq [where read = read, OF q fits] by blast
    then have "\<not> ok \<longrightarrow> stored_keys r = Some []" by (simp add: stored_keys_def num_keys_eq)
    then show ?thesis using r by blast
  qed
  then show ?thesis using p'(1) q'(1) reads by blast
qed

theorem config_save_load_witness:
  "\<exists>p' img q'. seal (conf_new ARM_EABI_GCC) = Some (p', img) \<and>
     load_with (\<lambda>_. (img, True)) (conf_new ARM_EABI_GCC) = Some (q', True)"
proof -
  have "layout_ok ARM_EABI_GCC" by code_simp
  then have "conf_wf (conf_new ARM_EABI_GCC)" by (rule conf_new_wf)
  from config_save_load [OF this this refl] show ?thesis by blast
qed

section \<open>Every partition a program can have\<close>

lemma conf_clear_eq:
  assumes "conf_wf p"
  shows "\<exists>p'. conf_clear p = Some p' \<and> conf_wf p' \<and> cp_layout p' = cp_layout p \<and> n_keys p' = 0"
proof -
  let ?z = "p\<lparr>cp_image := replicate MAX_IMAGE_LEN 0\<rparr>"
  have z: "conf_wf ?z" "n_keys ?z = 0" using assms by (simp_all add: conf_wf_def n_keys_def MAX_IMAGE_LEN_eq)
  have four: "4 + 4 \<le> (8 :: nat)" by simp
  note put = conf_put_u32_eq [OF z(1) four, of CONFIG_VERSION]
  let ?q = "?z\<lparr>cp_image := put (cp_image ?z) 4 (to_le 4 CONFIG_VERSION)\<rparr>"
  have "n_keys ?q = 0" using z(2) by (simp add: n_keys_def nth_put MAX_IMAGE_LEN_eq del: to_le_numeral)
  moreover have "conf_clear p = Some (?q\<lparr>cp_needs_commit := True\<rparr>)"
    using put(1) by (simp add: conf_clear_def del: to_le_numeral)
  moreover have "conf_wf (?q\<lparr>cp_needs_commit := True\<rparr>)" using put(2) by (simp add: conf_wf_def)
  ultimately show ?thesis by (intro exI [of _ "?q\<lparr>cp_needs_commit := True\<rparr>"]) (simp add: n_keys_def)
qed

definition keeps_length :: "(bytes \<Rightarrow> bytes \<times> bool) \<Rightarrow> bool" where
  "keeps_length read \<longleftrightarrow> (\<forall>b. length (fst (read b)) = length b)"

lemma load_with_total:
  assumes wf: "conf_wf p" and "keeps_length read"
  shows "\<exists>p' ok. load_with read p = Some (p', ok) \<and> conf_wf p' \<and> cp_layout p' = cp_layout p"
proof -
  have "image_len (cp_layout p) \<le> length (cp_image p)" using wf image_len_bound by (simp add: conf_wf_def)
  then have "length (fst (read (take (image_len (cp_layout p)) (cp_image p)))) = image_len (cp_layout p)"
    using assms(2) by (simp add: keeps_length_def)
  then show ?thesis using load_with_eq [where read = read, OF wf] by blast
qed

inductive conf_reach :: "cbor2 \<Rightarrow> Layout \<Rightarrow> ConfigPartition \<Rightarrow> bool" for C :: cbor2 and L :: Layout where
  start: "conf_reach C L (conf_new L)"
| loaded: "conf_reach C L p \<Longrightarrow> keeps_length read \<Longrightarrow> load_with read p = Some (p', ok) \<Longrightarrow> conf_reach C L p'"
| set_value: "conf_reach C L p \<Longrightarrow> cfg_set C p k v = Some (p', ok) \<Longrightarrow> conf_reach C L p'"
| set_raw: "conf_reach C L p \<Longrightarrow> set_cbor p k value = Some (p', ok) \<Longrightarrow> conf_reach C L p'"
| removed: "conf_reach C L p \<Longrightarrow> remove_key p k = Some (p', ok) \<Longrightarrow> conf_reach C L p'"
| cleared: "conf_reach C L p \<Longrightarrow> conf_clear p = Some p' \<Longrightarrow> conf_reach C L p'"
| sealed: "conf_reach C L p \<Longrightarrow> seal p = Some (p', img) \<Longrightarrow> conf_reach C L p'"
| saved: "conf_reach C L p \<Longrightarrow> conf_reach C L (mark_saved p)"

lemma conf_reach_wf:
  assumes "cbor2_ok C" "layout_ok L" "conf_reach C L p"
  shows "conf_wf p \<and> cp_layout p = L"
  using assms(3)
proof (induction rule: conf_reach.induct)
  case start
  then show ?case using conf_new_wf [OF assms(2)] by (simp add: conf_new_def)
next
  case (loaded p read p' ok)
  then show ?case using load_with_total [of p read] by auto
next
  case (set_value p k v p' ok)
  then show ?case using cfg_set_total [OF assms(1), of p k v] by auto
next
  case (set_raw p k b p' ok)
  then show ?case using set_cbor_total [of p k b] by auto
next
  case (removed p k p' ok)
  then show ?case using remove_key_total [of p k] by auto
next
  case (cleared p p')
  then show ?case using conf_clear_eq [of p] by auto
next
  case (sealed p p' img)
  then show ?case using seal_eq [of p] by auto
next
  case (saved p)
  then show ?case by (auto simp: mark_saved_def conf_wf_def)
qed

text \<open>Removing a key drops its first row and no other. For any key the store can look
  up, \<open>remove_key\<close> reports whether the key was there, the rows left are the old ones without the
  first of that key, in order, and no getter of another key notices.\<close>

theorem config_remove:
  assumes wf: "conf_wf p" and k: "k_len k \<le> 32"
  shows "\<exists>p' ok. remove_key p k = Some (p', ok) \<and> conf_wf p' \<and> (ok \<longleftrightarrow> key_id k \<in> fst ` set (conf_abs p)) \<and>
    conf_abs p' = remove_first (\<lambda>r. fst r = key_id k) (conf_abs p) \<and>
    (distinct (map fst (conf_abs p)) \<longrightarrow> get_cbor p' k out = Some (out, None)) \<and>
    (\<forall>um k'. key_id k' \<noteq> key_id k \<longrightarrow> same_reads um p p' k')"
proof -
  obtain p' ok where p': "remove_key p k = Some (p', ok)" "conf_wf p'" "ok \<longleftrightarrow> key_id k \<in> fst ` set (conf_abs p)"
    "conf_abs p' = remove_first (\<lambda>r. fst r = key_id k) (conf_abs p)"
    using remove_key_abs [OF wf k] by blast
  have other: "map_of (remove_first (\<lambda>r. fst r = key) xs) key' = map_of xs key'" if "key' \<noteq> key"
    for key key' and xs :: "((u64 \<times> bytes) \<times> u32 \<times> bytes) list"
    using that by (induction xs) auto
  have gone: "map_of (remove_first (\<lambda>r. fst r = key) xs) key = None" if "distinct (map fst xs)"
    for key and xs :: "((u64 \<times> bytes) \<times> u32 \<times> bytes) list"
    using that by (induction xs) (auto simp: map_of_eq_None_iff)
  have "same_reads um p p' k'" if "key_id k' \<noteq> key_id k" for um k'
    using same_reads_row [OF wf p'(2)] other [OF that] p'(4) by (simp add: conf_row_def)
  moreover have "get_cbor p' k out = Some (out, None)" if "distinct (map fst (conf_abs p))"
    using gone [OF that] p'(4) getters_eq(5) [OF p'(2)] by (simp add: row_head_def conf_row_def)
  ultimately show ?thesis using p' by blast
qed

theorem config_remove_witness:
  "\<exists>p' ok. remove_key (conf_new LP64) (key_new [0x61]) = Some (p', ok) \<and> \<not> ok"
proof -
  have "layout_ok LP64" "k_len (key_new [0x61]) \<le> 32" by code_simp+
  from config_remove [OF conf_new_wf [OF this(1)] this(2), of "[]"] show ?thesis
    using conf_new_keys [of LP64] by (auto simp: conf_abs_def)
qed

end
