(* ===== verification/Cbor_Copy.thy ===== *)
theory Cbor_Copy
  imports Cbor_Encode
begin

text \<open>
  Copying a CBOR string into a buffer of fixed length, as \<open>configuration.rs\<close> and
  \<open>service/metrics.rs\<close> do with the closure \<open>|at, chunk| tmp[at..at + chunk.len()].copy_from_slice(chunk)\<close>:
  whatever the item, the copy does not panic and keeps the buffer's length.
\<close>

definition copy_tmp :: "bytes copier" where "copy_tmp at part tmp = copy_at tmp at part"

text \<open>\<open>tmp\<close> keeps its length, so the copy of a chunk that fits is in range.\<close>

definition guarded :: "nat \<Rightarrow> bytes copier" where
  "guarded m at part tmp = (if length tmp = m then copy_at tmp at part else Some tmp)"

lemma guarded_ok: "b \<le> m \<Longrightarrow> copier_ok b (guarded m)"
  by (simp add: copier_ok_def guarded_def copy_at_def)

lemma chunk_loop_guarded:
  "length tmp = m \<Longrightarrow> chunk_loop um b copy_tmp v n a tmp = chunk_loop um b (guarded m) v n a tmp \<and>
    (\<forall>tmp' r. chunk_loop um b copy_tmp v n a tmp = Some (tmp', r) \<longrightarrow> length tmp' = m)"
proof (induction "length (v_buf v) - v_pos v" arbitrary: v n a tmp rule: less_induct)
  case less
  obtain w c where c: "string_chunk um v = Some (w, c)" using string_chunk_total [of um v] by fastforce
  show ?case
  proof (cases "\<exists>start len. c = Ok (More start len)")
    case False
    then show ?thesis using c less.prems
      by (cases c; cases "the_ok c")
        (simp_all add: chunk_loop.simps [of um b copy_tmp v] chunk_loop.simps [of um b "guarded m" v])
  next
    case True
    then obtain start len where m: "c = Ok (More start len)" by blast
    have IH: "length t = m \<Longrightarrow> chunk_loop um b copy_tmp w n' a' t = chunk_loop um b (guarded m) w n' a' t \<and>
        (\<forall>tmp' r. chunk_loop um b copy_tmp w n' a' t = Some (tmp', r) \<longrightarrow> length tmp' = m)" for n' a' t
      using less.hyps [of w] string_chunk_progress c m by blast
    have copied: "Option.bind x (\<lambda>part. copy_tmp n part tmp) = Option.bind x (\<lambda>part. guarded m n part tmp)"
      "Option.bind x (\<lambda>part. copy_tmp n part tmp) = Some t \<Longrightarrow> length t = m" for x t
      using less.prems by (auto simp: copy_tmp_def guarded_def copy_at_def bind_eq_Some_conv split: if_splits)
    have unfold: "chunk_loop um b copy v n a t =
       (if um < n + len then Some (t, Err DataTooLarge)
        else if a \<and> n + len \<le> b then
          (case Option.bind (range_at (v_buf v) start (start + len)) (\<lambda>part. copy n part t) of
             None \<Rightarrow> None | Some t \<Rightarrow> chunk_loop um b copy w (n + len) a t)
        else chunk_loop um b copy w (n + len) False t)" for copy :: "bytes copier" and t
      using c m by (simp add: chunk_loop.simps [of um b copy v])
    show ?thesis
    proof (cases "\<not> um < n + len \<and> a \<and> n + len \<le> b")
      case True
      let ?x = "Option.bind (range_at (v_buf v) start (start + len)) (\<lambda>part. copy_tmp n part tmp)"
      show ?thesis
      proof (cases ?x)
        case None
        then show ?thesis using True
          unfolding unfold [of copy_tmp tmp] unfold [of "guarded m" tmp] copied(1) [symmetric] by simp
      next
        case (Some t)
        then show ?thesis using True IH [OF copied(2) [OF Some]]
          unfolding unfold [of copy_tmp tmp] unfold [of "guarded m" tmp] copied(1) [symmetric] by simp
      qed
    next
      case False
      then show ?thesis using IH [OF less.prems] less.prems unfolding unfold [of copy_tmp tmp] unfold [of "guarded m" tmp]
        by auto
    qed
  qed
qed

lemma iterate_string_state:
  assumes "iterate_string um v b copy s = Some (s', r)"
  shows "s' = s \<or> (\<exists>v' r'. chunk_loop um b copy v' 0 True s = Some (s', r'))"
proof (cases "is_text_string v \<or> is_byte_string v")
  case False
  then show ?thesis using assms by (simp add: iterate_string_def)
next
  case True
  define u where "u = v\<lparr>v_flags := v_flags v OR (ITERATING_STRING_CHUNKS OR BEFORE_FIRST_STRING_CHUNK)\<rparr>"
  define w where "w = (if \<not> is_length_known u then u\<lparr>v_pos := v_pos u + 1\<rparr> else u)"
  have it: "iterate_string um v b copy s = Option.bind (chunk_loop um b copy w 0 True s) (\<lambda>(s, r).
      case r of Err e \<Rightarrow> Some (s, Err e)
      | Ok (v, tot, all) \<Rightarrow> Option.bind (preparse_next_value (if \<not> is_length_known v then v\<lparr>v_pos := v_pos v + 1\<rparr> else v))
          (\<lambda>(v, r). case r of Err e \<Rightarrow> Some (s, Err e)
            | Ok _ \<Rightarrow> Some (s, Ok (\<lparr>cp_total = tot, cp_all = all, cp_nul = (all \<and> tot < b)\<rparr>, v))))"
    using True unfolding iterate_string_def w_def u_def Let_def by auto
  obtain s1 r1 where l: "chunk_loop um b copy w 0 True s = Some (s1, r1)"
    using assms unfolding it by (cases "chunk_loop um b copy w 0 True s") auto
  have "s1 = s'"
  proof (cases r1)
    case (Err e)
    then show ?thesis using assms l by (simp add: it)
  next
    case (Ok x)
    obtain y t a where x: "x = (y, t, a)" by (cases x)
    let ?z = "if \<not> is_length_known y then y\<lparr>v_pos := v_pos y + 1\<rparr> else y"
    have k: "Option.bind (preparse_next_value ?z)
          (\<lambda>(v, r). case r of Err e \<Rightarrow> Some (s1, Err e)
            | Ok _ \<Rightarrow> Some (s1, Ok (\<lparr>cp_total = t, cp_all = a, cp_nul = (a \<and> t < b)\<rparr>, v))) = Some (s', r)"
      using assms unfolding it l Ok x by simp
    then show ?thesis
      by (cases "preparse_next_value ?z") (auto split: result.splits)
  qed
  then show ?thesis using l by blast
qed

lemma copy_string_tmp:
  assumes "on_head v" "n \<le> m"
  shows "\<exists>tmp r. copy_string um v n copy_tmp (replicate m 0) = Some (tmp, r) \<and> length tmp = m"
proof -
  have t: "length (replicate m (0 :: u8)) = m" by simp
  have same: "iterate_string um v n copy_tmp (replicate m 0) = iterate_string um v n (guarded m) (replicate m 0)"
    unfolding iterate_string_def using chunk_loop_guarded [OF t] by (simp add: Let_def)
  obtain tmp r where r: "iterate_string um v n copy_tmp (replicate m 0) = Some (tmp, r)"
    using iterate_string_total [OF assms(1) guarded_ok [OF assms(2)]] same by metis
  have "length tmp = m" using iterate_string_state [OF r] chunk_loop_guarded [OF t] t by metis
  then show ?thesis using r by (simp add: copy_string_def)
qed

end
