(* ===== verification/Config_Map.thy ===== *)
theory Config_Map
  imports Config_Store Cbor_Copy
begin

text \<open>
  A config partition as one CBOR map (\<open>cbor_map\<close>, \<open>cbor_map_crc32\<close> of \<open>configuration.rs\<close>), its
  rows for display (\<open>configuration/entry.rs\<close>) and the store of three partitions. Where the map
  goes is an interface, \<open>sink\<close>: a buffer or a running CRC. Whatever goes to a sink is one item of
  the grammar, and the CRC is the CRC of the bytes the buffer gets.
\<close>

section \<open>Sinks\<close>

datatype MapError = NoMap | MapTooSmall nat | MapUnreachable

record BufSink =
  bs_out :: bytes
  bs_len :: nat

definition buf_put :: "bytes \<Rightarrow> BufSink \<Rightarrow> BufSink" where
  "buf_put bytes s =
     (let stop = bs_len s + length bytes in
      (case copy_at (bs_out s) (bs_len s) bytes of
         Some out \<Rightarrow> s\<lparr>bs_out := out, bs_len := stop\<rparr>
       | None \<Rightarrow> s\<lparr>bs_len := stop\<rparr>))"

definition crc_put :: "bytes \<Rightarrow> u32 \<Rightarrow> u32" where
  "crc_put bytes crc = crc32_ieee_update crc bytes"

text \<open>\<open>putf\<close> is the sink's \<open>put\<close>.\<close>

definition put_head :: "(bytes \<Rightarrow> 's \<Rightarrow> 's) \<Rightarrow> cbor2 \<Rightarrow> Header \<Rightarrow> 's \<Rightarrow> 's option" where
  "put_head putf C header sink =
     (case push C header (replicate 9 0) of (head, len, _) \<Rightarrow> do {
        front \<leftarrow> range_at head 0 len;
        Some (putf front sink) })"

section \<open>Encoding the map\<close>

text \<open>One value, read as \<open>value_type\<close> says. The result says whether a value was written.\<close>

definition map_value ::
  "(bytes \<Rightarrow> 's \<Rightarrow> 's) \<Rightarrow> cbor2 \<Rightarrow> nat \<Rightarrow> u32 \<Rightarrow> Value \<Rightarrow> 's \<Rightarrow> ('s \<times> (MapError, bool) result) option" where
  "map_value putf C um ty v sink =
     (if ty = 0 then do {
        n \<leftarrow> value_extract v;
        sink \<leftarrow> put_head putf C (Positive (ucast (ucast n :: u32))) sink;
        Some (sink, Ok True) }
      else if ty = 1 then do {
        n \<leftarrow> get_int64 v;
        sink \<leftarrow> put_head putf C (int_header (ucast n)) sink;
        Some (sink, Ok True) }
      else if ty = 2 then do {
        r \<leftarrow> get_float v;
        Some (case r of
            Err e \<Rightarrow> (sink, Err MapUnreachable)
          | Ok bits \<Rightarrow> (putf (to_be 4 bits) (putf [0xfa] sink), Ok True)) }
      else if ty = 3 \<or> ty = 4 then do {
        (tmp, copied) \<leftarrow> copy_string um v SLOT copy_tmp (replicate SLOT 0);
        (case copied of
           Ok c \<Rightarrow>
             if cp_all c \<and> cp_total c < SLOT then do {
               sink \<leftarrow> put_head putf C
                 (if ty = 3 then Text (Some (cp_total c)) else Bytes (Some (cp_total c))) sink;
               body \<leftarrow> range_at tmp 0 (cp_total c);
               Some (putf body sink, Ok True) }
             else Some (sink, Ok False)
         | Err e \<Rightarrow>
             if e = Unreachable then Some (sink, Err MapUnreachable) else Some (sink, Ok False)) }
      else Some (sink, Ok False))"

text \<open>One round of the loop over the stored keys, with \<open>it\<close> and \<open>complete\<close>.\<close>

definition map_entry ::
  "(bytes \<Rightarrow> 's \<Rightarrow> 's) \<Rightarrow> cbor2 \<Rightarrow> nat \<Rightarrow> ConfigPartition \<Rightarrow> StoredKey \<Rightarrow> 's \<times> Value option \<times> bool \<Rightarrow>
     ('s \<times> (MapError, Value option \<times> bool) result) option" where
  "map_entry putf C um p sk st =
     (case st of (sink, it, complete) \<Rightarrow>
        if um < unat (key_len sk) \<or> KEY_BUF_LEN < unat (key_len sk) then Some (sink, Err MapUnreachable)
        else do {
          let len = unat (key_len sk);
          text \<leftarrow> range_at (key_buf sk) 0 len;
          sink \<leftarrow> put_head putf C (Text (Some len)) sink;
          let sink = putf text sink;
          found \<leftarrow> parsed p (key_with_len (key_buf sk) len);
          fresh \<leftarrow> (case found of
              None \<Rightarrow> Some None
            | Some (idx, _) \<Rightarrow> do {
                s \<leftarrow> conf_slot p idx;
                r \<leftarrow> cbor_parse s;
                Some (case r of Ok v \<Rightarrow> Some v | Err e \<Rightarrow> None) });
          (case (case fresh of
                Some v \<Rightarrow> Some (v, Some v)
              | None \<Rightarrow> map_option (\<lambda>v. (rebind v (replicate SLOT 0), it)) it) of
             None \<Rightarrow> Some (sink, Err MapUnreachable)
           | Some (v, it) \<Rightarrow> do {
               (sink, r) \<leftarrow> map_value putf C um (value_type sk) v sink;
               Some (sink, case r of
                   Err e \<Rightarrow> Err e
                 | Ok written \<Rightarrow> Ok (it, complete \<and> written)) }) })"

fun map_entries ::
  "(bytes \<Rightarrow> 's \<Rightarrow> 's) \<Rightarrow> cbor2 \<Rightarrow> nat \<Rightarrow> ConfigPartition \<Rightarrow> StoredKey list \<Rightarrow> 's \<times> Value option \<times> bool \<Rightarrow>
     ('s \<times> (MapError, unit) result) option" where
  "map_entries putf C um p [] (sink, it, complete) =
     Some (sink, if complete then Ok () else Err NoMap)"
| "map_entries putf C um p (sk # sks) st = do {
     (sink, r) \<leftarrow> map_entry putf C um p sk st;
     (case r of
        Err e \<Rightarrow> Some (sink, Err e)
      | Ok st \<Rightarrow> map_entries putf C um p sks (sink, st)) }"

definition conf_encode_map ::
  "(bytes \<Rightarrow> 's \<Rightarrow> 's) \<Rightarrow> cbor2 \<Rightarrow> nat \<Rightarrow> ConfigPartition \<Rightarrow> 's \<Rightarrow> ('s \<times> (MapError, unit) result) option" where
  "conf_encode_map putf C um p sink = do {
     n \<leftarrow> num_keys p;
     sink \<leftarrow> put_head putf C (Map (Some n)) sink;
     sks \<leftarrow> stored_keys p;
     map_entries putf C um p sks (sink, None, True) }"

definition cbor_map :: "cbor2 \<Rightarrow> nat \<Rightarrow> ConfigPartition \<Rightarrow> bytes \<Rightarrow> (bytes \<times> (MapError, nat) result) option" where
  "cbor_map C um p out = do {
     (sink, r) \<leftarrow> conf_encode_map buf_put C um p \<lparr>bs_out = out, bs_len = 0\<rparr>;
     Some (bs_out sink, case r of
         Err e \<Rightarrow> Err e
       | Ok _ \<Rightarrow> if length (bs_out sink) < bs_len sink then Err (MapTooSmall (bs_len sink)) else Ok (bs_len sink)) }"

definition cbor_map_crc32 :: "cbor2 \<Rightarrow> nat \<Rightarrow> ConfigPartition \<Rightarrow> u32 option" where
  "cbor_map_crc32 C um p = do {
     (crc, r) \<leftarrow> conf_encode_map crc_put C um p 0;
     Some (case r of Ok _ \<Rightarrow> crc | Err e \<Rightarrow> 0) }"

section \<open>Rows for display\<close>

text \<open>Floats and signed integers by their bits, like everywhere.\<close>

datatype EntryValue = EUint u32 | EInt u32 | EFloat u32 | EStr CborString | EBytes CborString
  | EArray bytes | Unreadable

record Entry =
  e_key :: bytes
  e_type :: u32
  e_value :: EntryValue

definition entry_value :: "nat \<Rightarrow> ConfigPartition \<Rightarrow> nat \<Rightarrow> u32 \<Rightarrow> EntryValue option" where
  "entry_value um p i ty = do {
     s \<leftarrow> conf_slot p i;
     parsed \<leftarrow> cbor_parse s;
     (case (parse_head s, parsed) of
        (Some head, Ok v) \<Rightarrow>
          let arg = hd_arg head in
          if ty = 0 \<and> hd_major head = 0 then Some (EUint (ucast arg))
          else if ty = 1 \<and> hd_major head = 0 then Some (EInt (ucast arg))
          else if ty = 1 \<and> hd_major head = 1 then Some (EInt (ucast (- arg - 1)))
          else if ty = 2 \<and> hd_major head = 7 \<and> hd_info head = 26 then Some (EFloat (ucast arg))
          else if ty = 3 \<and> hd_major head = 3 then do {
            r \<leftarrow> value_string um v;
            Some (case r of Ok c \<Rightarrow> EStr c | Err e \<Rightarrow> Unreadable) }
          else if ty = 4 \<and> hd_major head = 2 then do {
            r \<leftarrow> value_string um v;
            Some (case r of Ok c \<Rightarrow> EBytes c | Err e \<Rightarrow> Unreadable) }
          else if ty = 5 \<and> hd_major head = 4 then do {
            (stop, r) \<leftarrow> advance um v;
            Some (case r of
                Ok _ \<Rightarrow> (case range_at s 0 (next_byte stop) of Some b \<Rightarrow> EArray b | None \<Rightarrow> Unreadable)
              | Err e \<Rightarrow> Unreadable) }
          else Some Unreadable
      | _ \<Rightarrow> Some Unreadable) }"

definition entry :: "nat \<Rightarrow> ConfigPartition \<Rightarrow> nat \<Rightarrow> Entry option" where
  "entry um p i = do {
     sk \<leftarrow> stored_key p i;
     let off = key_offset (cp_layout p) i;
     let len = (if um < unat (key_len sk) then KEY_BUF_LEN else min (unat (key_len sk)) KEY_BUF_LEN);
     key \<leftarrow> range_at (cp_image p) off (off + len);
     v \<leftarrow> entry_value um p i (value_type sk);
     Some \<lparr>e_key = takeWhile (\<lambda>b. b \<noteq> 0) key, e_type = value_type sk, e_value = v\<rparr> }"

definition entries :: "nat \<Rightarrow> ConfigPartition \<Rightarrow> Entry list option" where
  "entries um p = do { n \<leftarrow> num_keys p; collect (entry um p) [0..<n] }"

definition type_name :: "u32 \<Rightarrow> string option" where
  "type_name ty = map_of
     [(0, ''uint32''), (1, ''int32''), (2, ''float''), (3, ''str''), (4, ''bytes''), (5, ''array'')] ty"

section \<open>The three partitions\<close>

record ConfigStore =
  st_partitions :: "ConfigPartition list"

definition store_new :: "Layout \<Rightarrow> ConfigStore" where
  "store_new L = \<lparr>st_partitions = [conf_new L, conf_new L, conf_new L]\<rparr>"

definition store_partition :: "ConfigStore \<Rightarrow> CfgPartition \<Rightarrow> ConfigPartition option" where
  "store_partition st p = get_at (st_partitions st) (partition_index p)"

text \<open>\<open>partition_mut\<close>, with what is done to the partition.\<close>

definition store_partition_mut ::
  "ConfigStore \<Rightarrow> CfgPartition \<Rightarrow> (ConfigPartition \<Rightarrow> (ConfigPartition \<times> 'a) option) \<Rightarrow>
     (ConfigStore \<times> 'a) option" where
  "store_partition_mut st p f = do {
     part \<leftarrow> get_at (st_partitions st) (partition_index p);
     (part, r) \<leftarrow> f part;
     ps \<leftarrow> set_at (st_partitions st) (partition_index p) part;
     Some (st\<lparr>st_partitions := ps\<rparr>, r) }"

section \<open>The interface of a sink\<close>

text \<open>A sink holds the bytes that were put into it, in order. \<open>holds\<close> says how.\<close>

definition list_put :: "bytes \<Rightarrow> bytes \<Rightarrow> bytes" where "list_put xs bs = bs @ xs"

lemma put_head_eq:
  assumes "cbor2_ok C"
  shows "put_head putf C h s = Some (putf (rfc_head h) s)"
proof -
  have l: "length (rfc_head h) \<le> 9" by (rule length_rfc_head)
  then have "push C h (replicate 9 0) = (put (replicate 9 0) 0 (rfc_head h), length (rfc_head h), True)"
    using assms by (simp add: cbor2_ok_def writes_def)
  then show ?thesis using l by (simp add: put_head_def buf_simps)
qed

locale sink =
  fixes putf :: "bytes \<Rightarrow> 's \<Rightarrow> 's"
    and holds :: "bytes \<Rightarrow> 's \<Rightarrow> bool"
  assumes put_holds: "holds bs s \<Longrightarrow> holds (bs @ xs) (putf xs s)"
begin

abbreviation agree :: "(bytes \<times> 'r) option \<Rightarrow> ('s \<times> 'r) option \<Rightarrow> bool" where
  "agree \<equiv> rel_option (rel_prod holds (=))"

lemma bind_agree:
  "agree x y \<Longrightarrow> (\<And>bs s r. holds bs s \<Longrightarrow> agree (f (bs, r)) (g (s, r))) \<Longrightarrow> agree (Option.bind x f) (Option.bind y g)"
  by (auto simp: option_rel_Some1 elim!: option.rel_cases)

lemma same_bind_agree:
  "(\<And>a. x = Some a \<Longrightarrow> agree (f a) (g a)) \<Longrightarrow> agree (Option.bind x f) (Option.bind x g)"
  by (cases x) simp_all

lemma put_holds2: "holds bs s \<Longrightarrow> holds (bs @ xs @ ys) (putf ys (putf xs s))"
  using put_holds [OF put_holds, of bs s xs ys] by simp

lemma put_holds3: "holds bs s \<Longrightarrow> holds (bs @ xs @ ys @ zs) (putf zs (putf ys (putf xs s)))"
  using put_holds [OF put_holds2, of bs s xs ys zs] by simp

lemma map_value_agree:
  assumes C: "cbor2_ok C" and h: "holds bs s"
  shows "agree (map_value list_put C um ty v bs) (map_value putf C um ty v s)"
proof -
  have strings: "agree
     (do { (tmp, copied) \<leftarrow> x;
        (case copied of
           Ok c \<Rightarrow>
             if cp_all c \<and> cp_total c < SLOT then do {
               bs \<leftarrow> put_head list_put C (H c) bs; body \<leftarrow> range_at tmp 0 (cp_total c); Some (list_put body bs, Ok True) }
             else Some (bs, Ok False)
         | Err e \<Rightarrow> if e = Unreachable then Some (bs, Err MapUnreachable) else Some (bs, Ok False)) })
     (do { (tmp, copied) \<leftarrow> x;
        (case copied of
           Ok c \<Rightarrow>
             if cp_all c \<and> cp_total c < SLOT then do {
               s \<leftarrow> put_head putf C (H c) s; body \<leftarrow> range_at tmp 0 (cp_total c); Some (putf body s, Ok True) }
             else Some (s, Ok False)
         | Err e \<Rightarrow> if e = Unreachable then Some (s, Err MapUnreachable) else Some (s, Ok False)) })"
    for x :: "(bytes \<times> (CborError, Copied) result) option" and H
  proof (rule same_bind_agree)
    fix a :: "bytes \<times> (CborError, Copied) result"
    obtain tmp r where "a = (tmp, r)" by fastforce
    then show "agree
       (case a of (tmp, copied) \<Rightarrow> (case copied of
           Ok c \<Rightarrow>
             if cp_all c \<and> cp_total c < SLOT then do {
               bs \<leftarrow> put_head list_put C (H c) bs; body \<leftarrow> range_at tmp 0 (cp_total c); Some (list_put body bs, Ok True) }
             else Some (bs, Ok False)
         | Err e \<Rightarrow> if e = Unreachable then Some (bs, Err MapUnreachable) else Some (bs, Ok False)))
       (case a of (tmp, copied) \<Rightarrow> (case copied of
           Ok c \<Rightarrow>
             if cp_all c \<and> cp_total c < SLOT then do {
               s \<leftarrow> put_head putf C (H c) s; body \<leftarrow> range_at tmp 0 (cp_total c); Some (putf body s, Ok True) }
             else Some (s, Ok False)
         | Err e \<Rightarrow> if e = Unreachable then Some (s, Err MapUnreachable) else Some (s, Ok False)))"
      using h by (cases r; cases "range_at tmp 0 (cp_total (the_ok r))")
        (simp_all add: put_head_eq [OF C] list_put_def put_holds2)
  qed
  have numbers: "agree (Option.bind x (\<lambda>n. Option.bind (put_head list_put C (H n) bs) (\<lambda>bs. Some (bs, Ok True))))
      (Option.bind x (\<lambda>n. Option.bind (put_head putf C (H n) s) (\<lambda>s. Some (s, Ok True :: (MapError, bool) result))))"
    for x :: "u64 option" and H
    using h by (cases x) (simp_all add: put_head_eq [OF C] list_put_def put_holds)
  have floats: "agree (Option.bind x (\<lambda>r. Some (case r of Err e \<Rightarrow> (bs, Err MapUnreachable)
        | Ok bits \<Rightarrow> (list_put (to_be 4 bits) (list_put [0xfa] bs), Ok True))))
      (Option.bind x (\<lambda>r. Some (case r of Err e \<Rightarrow> (s, Err MapUnreachable)
        | Ok bits \<Rightarrow> (putf (to_be 4 bits) (putf [0xfa] s), Ok True :: (MapError, bool) result))))"
    for x :: "(CborError, u32) result option"
    using h put_holds2 [of bs s "[0xfa]"] by (cases x; cases "the x") (simp_all add: list_put_def)
  consider "ty = 0" | "ty = 1" | "ty = 2" | "ty \<noteq> 0" "ty \<noteq> 1" "ty \<noteq> 2" "ty = 3 \<or> ty = 4"
    | "ty \<noteq> 0" "ty \<noteq> 1" "ty \<noteq> 2" "\<not> (ty = 3 \<or> ty = 4)"
    by blast
  then show ?thesis
  proof cases
    case 1
    then show ?thesis using numbers [of "value_extract v"] by (simp add: map_value_def)
  next
    case 2
    then show ?thesis using numbers [of "get_int64 v"] by (simp add: map_value_def)
  next
    case 3
    then show ?thesis using floats [of "get_float v"] by (simp add: map_value_def)
  next
    case 4
    show ?thesis
      unfolding map_value_def if_not_P [OF 4(1)] if_not_P [OF 4(2)] if_not_P [OF 4(3)] if_P [OF 4(4)]
      by (rule strings)
  next
    case 5
    then show ?thesis using h by (simp add: map_value_def)
  qed
qed

lemma map_entry_agree:
  assumes C: "cbor2_ok C" and h: "holds bs s"
  shows "agree (map_entry list_put C um p sk (bs, it, c)) (map_entry putf C um p sk (s, it, c))"
proof -
  have v: "agree (Option.bind (map_value list_put C um ty v (bs @ xs @ ys)) (\<lambda>(s, r). Some (s, f r)))
     (Option.bind (map_value putf C um ty v (putf ys (putf xs s))) (\<lambda>(s, r). Some (s, f r)))"
    for ty v xs ys and f :: "(MapError, bool) result \<Rightarrow> (MapError, Value option \<times> bool) result"
    using map_value_agree [OF C put_holds2 [OF h]] by (intro bind_agree) simp_all
  show ?thesis
    unfolding map_entry_def prod.case put_head_eq [OF C] Let_def
    by (auto simp: h put_holds2 list_put_def v intro!: same_bind_agree split: option.split)
qed

lemma map_entries_agree:
  assumes C: "cbor2_ok C"
  shows "holds bs s \<Longrightarrow> agree (map_entries list_put C um p sks (bs, st)) (map_entries putf C um p sks (s, st))"
proof (induction sks arbitrary: bs s st)
  case Nil
  then show ?case by (cases st) simp
next
  case (Cons sk sks)
  obtain it c where st: "st = (it, c)" by fastforce
  show ?case unfolding map_entries.simps st
    by (rule bind_agree [OF map_entry_agree [OF C Cons.prems]])
      (auto simp: Cons.IH split: result.split)
qed

text \<open>So every sink ends holding the same bytes, with the same result.\<close>

lemma encode_map_agree:
  assumes C: "cbor2_ok C" and h: "holds [] s"
  shows "agree (conf_encode_map list_put C um p []) (conf_encode_map putf C um p s)"
  unfolding conf_encode_map_def put_head_eq [OF C]
  using map_entries_agree [OF C] put_holds [OF h, of "rfc_head (Map (Some n))" for n]
  by (auto simp: list_put_def intro!: same_bind_agree)

end

interpretation crc: sink crc_put "\<lambda>bs crc. crc = crc32_ieee bs"
  by unfold_locales (simp add: crc_put_def crc32_ieee_def crc32_append)

definition buf_holds :: "nat \<Rightarrow> bytes \<Rightarrow> BufSink \<Rightarrow> bool" where
  "buf_holds n bs s \<longleftrightarrow> length (bs_out s) = n \<and> bs_len s = length bs \<and>
     (length bs \<le> n \<longrightarrow> take (length bs) (bs_out s) = bs)"

interpretation buf: sink buf_put "buf_holds n" for n
  by unfold_locales (auto simp: buf_holds_def buf_put_def copy_at_def put_def Let_def)

section \<open>Every value can be read\<close>

text \<open>A stale value is read over a zeroed buffer: a number is in range, a string's head is not one.\<close>

lemma before_flag: "(f OR (ITERATING_STRING_CHUNKS OR BEFORE_FIRST_STRING_CHUNK)) AND BEFORE_FIRST_STRING_CHUNK \<noteq> (0 :: u8)"
proof -
  have "bit (f OR (ITERATING_STRING_CHUNKS OR BEFORE_FIRST_STRING_CHUNK)) 2" by (simp add: cbor_flags bit_simps)
  then show ?thesis
    using bit_iff_and_push_bit_not_eq_0 [of "f OR (ITERATING_STRING_CHUNKS OR BEFORE_FIRST_STRING_CHUNK)" 2]
    by (simp add: cbor_flags)
qed

lemma copy_string_stale:
  assumes "v_pos v = 0"
  shows "\<exists>e. copy_string um (rebind v (replicate SLOT 0)) b copy s = Some (s, Err e)"
proof (cases "v_ty v = TEXT_STRING \<or> v_ty v = BYTE_STRING")
  case False
  then show ?thesis
    by (simp add: copy_string_def iterate_string_def is_text_string_def is_byte_string_def rebind_def)
next
  case True
  define u where "u = (rebind v (replicate SLOT 0))\<lparr>v_flags := v_flags v OR (ITERATING_STRING_CHUNKS OR BEFORE_FIRST_STRING_CHUNK)\<rparr>"
  define w where "w = (if \<not> is_length_known u then u\<lparr>v_pos := v_pos u + 1\<rparr> else u)"
  have at: "v_at w 0 = 0 # v_at w 1"
  proof -
    have "v_buf w = replicate 50 0" "v_pos w < 50" using assms by (simp_all add: w_def u_def rebind_def conf_consts)
    then show ?thesis
      using Cons_nth_drop_Suc [of "v_pos w" "replicate 50 (0 :: u8)"] by (simp add: v_at_def del: drop_replicate)
  qed
  have ty: "v_ty w = v_ty v" by (simp add: w_def u_def rebind_def)
  have "v_flags w AND BEFORE_FIRST_STRING_CHUNK \<noteq> 0" using before_flag by (simp add: w_def u_def rebind_def)
  then have "string_chunk um w = Some (w, Err IllegalType)"
    using True unfolding string_chunk_def at ty by (auto simp: cbor_consts)
  then have "chunk_loop um b copy w 0 True s = Some (s, Err IllegalType)"
    by (simp add: chunk_loop.simps [of um b copy w])
  moreover have "is_text_string (rebind v (replicate SLOT 0)) \<or> is_byte_string (rebind v (replicate SLOT 0))"
    using True by (simp add: is_text_string_def is_byte_string_def rebind_def)
  moreover have f: "v_flags (rebind v (replicate SLOT 0)) = v_flags v" by (simp add: rebind_def)
  ultimately have "iterate_string um (rebind v (replicate SLOT 0)) b copy s = Some (s, Err IllegalType)"
    unfolding iterate_string_def Let_def f u_def [symmetric] w_def [symmetric] by auto
  then show ?thesis by (simp add: copy_string_def)
qed

definition value_ok :: "Value \<Rightarrow> bool" where
  "value_ok v \<longleftrightarrow> (\<exists>n. value_extract v = Some n) \<and>
     (\<forall>um. \<exists>tmp r. copy_string um v SLOT copy_tmp (replicate SLOT 0) = Some (tmp, r) \<and> length tmp = 50)"

lemma fresh_value_ok: "on_head v \<Longrightarrow> value_ok v"
  using copy_string_tmp [where n = 50 and m = 50] extract_readable on_head_readable(1)
  by (simp add: value_ok_def conf_consts)

lemma stale_value_ok:
  assumes "v_pos v = 0"
  shows "value_ok (rebind v (replicate SLOT 0))"
proof -
  have "\<exists>n. value_extract (rebind v (replicate SLOT 0)) = Some n"
    using assms by (simp add: value_extract_def rebind_def v_at_def range_at_def conf_consts)
  moreover have "\<exists>tmp r. copy_string um (rebind v (replicate SLOT 0)) SLOT copy_tmp (replicate SLOT 0) = Some (tmp, r) \<and>
      length tmp = 50" for um
    using copy_string_stale [OF assms, of um SLOT copy_tmp "replicate SLOT 0"] by (auto simp: conf_consts)
  ultimately show ?thesis by (simp add: value_ok_def)
qed

section \<open>What is written is an item\<close>

lemma map_value_item:
  assumes C: "cbor2_ok C" and v: "value_ok v" and um: "50 \<le> um"
  shows "\<exists>bs' r. map_value list_put C um ty v bs = Some (bs', r) \<and>
    (r = Ok True \<longrightarrow> (\<exists>b. bs' = bs @ b \<and> cbor_item um 0 b))"
proof -
  obtain n where n: "value_extract v = Some n" using v by (auto simp: value_ok_def)
  obtain tmp r where t: "copy_string um v SLOT copy_tmp (replicate SLOT 0) = Some (tmp, r)" "length tmp = 50"
    using v unfolding value_ok_def by metis
  have int: "cbor_item um 0 (rfc_head (int_header x))" for x
    by (simp add: int_header_def Let_def integer_item)
  consider "ty = 0" | "ty = 1" | "ty = 2" | "ty \<noteq> 0" "ty \<noteq> 1" "ty \<noteq> 2" "ty = 3 \<or> ty = 4"
    | "ty \<noteq> 0" "ty \<noteq> 1" "ty \<noteq> 2" "\<not> (ty = 3 \<or> ty = 4)"
    by blast
  then show ?thesis
  proof cases
    case 1
    then show ?thesis using n integer_item by (simp add: map_value_def put_head_eq [OF C] list_put_def)
  next
    case 2
    then show ?thesis using n int by (simp add: map_value_def put_head_eq [OF C] list_put_def get_int64_def)
  next
    case 3
    then show ?thesis using n by (simp add: map_value_def list_put_def get_float_def float_item)
  next
    case 4
    show ?thesis
    proof (cases r)
      case (Err e)
      then show ?thesis using 4 t by (simp add: map_value_def)
    next
      case (Ok c)
      show ?thesis
      proof (cases "cp_all c \<and> cp_total c < SLOT")
        case False
        then show ?thesis using 4 t Ok by (auto simp: map_value_def)
      next
        case True
        then have l: "cp_total c < 50" by (simp add: conf_consts)
        then have body: "range_at tmp 0 (cp_total c) = Some (take (cp_total c) tmp)" "length (take (cp_total c) tmp) = cp_total c"
          using t(2) by (simp_all add: range_at_def subslice_def)
        have "cbor_item um 0 (rfc_head (if ty = 3 then Text (Some (cp_total c)) else Bytes (Some (cp_total c))) @ take (cp_total c) tmp)"
          using text_item [of TEXT_STRING "take (cp_total c) tmp" um 0] text_item [of BYTE_STRING "take (cp_total c) tmp" um 0]
            l um body(2) by simp
        then show ?thesis using 4 t Ok True body
          by (auto simp: map_value_def put_head_eq [OF C] list_put_def)
      qed
    qed
  next
    case 5
    then show ?thesis by (simp add: map_value_def)
  qed
qed

lemma map_entry_item:
  assumes C: "cbor2_ok C" and wf: "conf_wf p" and um: "50 \<le> um" and sk: "length (key_buf sk) = 32"
    and it: "\<And>u. it = Some u \<Longrightarrow> v_pos u = 0"
  shows "\<exists>bs' r. map_entry list_put C um p sk (bs, it, complete) = Some (bs', r) \<and>
    (\<forall>it' complete'. r = Ok (it', complete') \<longrightarrow> (\<forall>u. it' = Some u \<longrightarrow> v_pos u = 0) \<and>
      (complete' \<longrightarrow> complete \<and> (\<exists>b c. bs' = bs @ b @ c \<and> cbor_item um 0 b \<and> cbor_item um 0 c)))"
proof (cases "um < unat (key_len sk) \<or> KEY_BUF_LEN < unat (key_len sk)")
  case True
  then show ?thesis by (simp add: map_entry_def)
next
  case False
  let ?len = "unat (key_len sk)"
  have len: "?len \<le> 32" using False by (simp add: conf_consts)
  have name: "range_at (key_buf sk) 0 ?len = Some (take ?len (key_buf sk))"
    using sk len by (simp add: range_at_def subslice_def)
  let ?key = "rfc_head (Text (Some ?len)) @ take ?len (key_buf sk)"
  have key: "cbor_item um 0 ?key"
    using text_item [of TEXT_STRING "take ?len (key_buf sk)" um 0] sk len um by simp
  obtain f where f: "parsed p (key_with_len (key_buf sk) ?len) = Some f"
    "\<And>i h. f = Some (i, h) \<Longrightarrow> conf_slot p i = Some (slot_of p i)"
    using parsed_row_head [OF wf] by metis
  have "\<exists>fresh. (case f of None \<Rightarrow> Some None
      | Some (idx, _) \<Rightarrow> do { s \<leftarrow> conf_slot p idx; r \<leftarrow> cbor_parse s;
          Some (case r of Ok v \<Rightarrow> Some v | Err e \<Rightarrow> None) }) = Some fresh \<and>
      (\<forall>v. fresh = Some v \<longrightarrow> on_head v \<and> v_pos v = 0)"
  proof (cases f)
    case (Some x)
    obtain i h where x: "x = (i, h)" by fastforce
    obtain r where "cbor_parse (slot_of p i) = Some r" "\<And>v. r = Ok v \<Longrightarrow> on_head v \<and> v_pos v = 0"
      using cbor_parse_total [of "slot_of p i"] by blast
    then show ?thesis using Some x f(2) by (cases r) simp_all
  qed simp
  then obtain fresh where fresh: "(case f of None \<Rightarrow> Some None
      | Some (idx, _) \<Rightarrow> do { s \<leftarrow> conf_slot p idx; r \<leftarrow> cbor_parse s;
          Some (case r of Ok v \<Rightarrow> Some v | Err e \<Rightarrow> None) }) = Some fresh"
    "\<And>v. fresh = Some v \<Longrightarrow> on_head v \<and> v_pos v = 0" by blast
  let ?next = "case fresh of Some v \<Rightarrow> Some (v, Some v)
    | None \<Rightarrow> map_option (\<lambda>v. (rebind v (replicate SLOT 0), it)) it"
  show ?thesis
  proof (cases ?next)
    case None
    then show ?thesis using False name f(1) fresh(1)
      by (simp add: map_entry_def put_head_eq [OF C] Let_def)
  next
    case (Some x)
    obtain v it' where x: "x = (v, it')" by fastforce
    have v: "value_ok v" "\<And>u. it' = Some u \<Longrightarrow> v_pos u = 0"
      using Some x fresh(2) it fresh_value_ok stale_value_ok by (auto split: option.splits)
    obtain bs' r where m: "map_value list_put C um (value_type sk) v (bs @ ?key) = Some (bs', r)"
      "r = Ok True \<Longrightarrow> \<exists>b. bs' = (bs @ ?key) @ b \<and> cbor_item um 0 b"
      using map_value_item [OF C v(1) um] by blast
    have "map_entry list_put C um p sk (bs, it, complete) =
        Some (bs', case r of Err e \<Rightarrow> Err e | Ok written \<Rightarrow> Ok (it', complete \<and> written))"
      using False name f(1) fresh(1) Some x m(1)
      by (simp add: map_entry_def put_head_eq [OF C] list_put_def Let_def)
    moreover have "\<exists>b c. bs' = bs @ b @ c \<and> cbor_item um 0 b \<and> cbor_item um 0 c" if written: "r = Ok True"
      using m(2) [OF written] key by (metis append.assoc)
    ultimately show ?thesis using v(2) by (cases r) (auto simp del: append_assoc)
  qed
qed

lemma map_entries_item:
  assumes C: "cbor2_ok C" and wf: "conf_wf p" and um: "50 \<le> um"
  shows "(\<forall>sk \<in> set sks. length (key_buf sk) = 32) \<Longrightarrow> (\<forall>u. it = Some u \<longrightarrow> v_pos u = 0) \<Longrightarrow>
    \<exists>bs' r. map_entries list_put C um p sks (bs, it, complete) = Some (bs', r) \<and>
      (r = Ok () \<longrightarrow> complete \<and> (\<exists>b. bs' = bs @ b \<and> cbor_elems um 0 (2 * length sks) b))"
proof (induction sks arbitrary: bs it complete)
  case Nil
  then show ?case by (auto intro: none)
next
  case (Cons sk sks)
  obtain bs1 r1 where e: "map_entry list_put C um p sk (bs, it, complete) = Some (bs1, r1)"
    "\<And>it' c'. r1 = Ok (it', c') \<Longrightarrow> (\<forall>u. it' = Some u \<longrightarrow> v_pos u = 0) \<and>
      (c' \<longrightarrow> complete \<and> (\<exists>b c. bs1 = bs @ b @ c \<and> cbor_item um 0 b \<and> cbor_item um 0 c))"
    using map_entry_item [OF C wf um, of sk it bs complete] Cons.prems by auto
  show ?case
  proof (cases r1)
    case (Err x)
    then show ?thesis using e(1) by simp
  next
    case (Ok x)
    obtain it1 c1 where x: "x = (it1, c1)" by fastforce
    obtain bs2 r2 where i: "map_entries list_put C um p sks (bs1, it1, c1) = Some (bs2, r2)"
      "r2 = Ok () \<Longrightarrow> c1 \<and> (\<exists>b. bs2 = bs1 @ b \<and> cbor_elems um 0 (2 * length sks) b)"
      using Cons.IH [of it1 bs1 c1] e(2) [of it1 c1] Cons.prems(1) Ok x by auto
    have "complete \<and> (\<exists>b. bs2 = bs @ b \<and> cbor_elems um 0 (2 * length (sk # sks)) b)" if ok: "r2 = Ok ()"
    proof -
      obtain d where d: "c1" "bs2 = bs1 @ d" "cbor_elems um 0 (2 * length sks) d" using i(2) [OF ok] by blast
      then obtain b c where bc: "complete" "bs1 = bs @ b @ c" "cbor_item um 0 b" "cbor_item um 0 c"
        using e(2) [of it1 c1] Ok x by blast
      have "cbor_elems um 0 (Suc (Suc (2 * length sks))) (b @ c @ d)" using bc(3,4) d(3) by (intro more)
      then show ?thesis using bc d by auto
    qed
    then show ?thesis using e(1) i(1) Ok x by simp
  qed
qed

lemma collect_total:
  assumes "\<And>x. x \<in> set xs \<Longrightarrow> \<exists>y. f x = Some y \<and> P y"
  shows "\<exists>ys. collect f xs = Some ys \<and> (\<forall>y \<in> set ys. P y) \<and> length ys = length xs"
  using assms
proof (induction xs)
  case (Cons x xs)
  obtain y where "f x = Some y" "P y" using Cons.prems by force
  moreover obtain ys where "collect f xs = Some ys" "\<forall>y \<in> set ys. P y" "length ys = length xs"
    using Cons.IH Cons.prems by force
  ultimately show ?case by simp
qed simp

lemma encode_map_item:
  assumes C: "cbor2_ok C" and wf: "conf_wf p" and um: "50 \<le> um"
  shows "\<exists>b r. conf_encode_map list_put C um p [] = Some (b, r) \<and> (r = Ok () \<longrightarrow> cbor_item um 1 b)"
proof -
  let ?h = "rfc_head (Map (Some (n_keys p)))"
  have "\<exists>sks. collect (stored_key p) [0..<n_keys p] = Some sks \<and> (\<forall>sk \<in> set sks. length (key_buf sk) = 32) \<and>
      length sks = length [0..<n_keys p]"
    using stored_key_eq [OF wf] n_keys_le [OF wf] wf by (intro collect_total) auto
  then obtain sks where sks: "stored_keys p = Some sks" "\<forall>sk \<in> set sks. length (key_buf sk) = 32" "length sks = n_keys p"
    by (auto simp: stored_keys_def num_keys_eq [OF wf])
  obtain b r where e: "map_entries list_put C um p sks (?h, None, True) = Some (b, r)"
    "r = Ok () \<longrightarrow> (\<exists>c. b = ?h @ c \<and> cbor_elems um 0 (2 * length sks) c)"
    using map_entries_item [OF C wf um sks(2), of None ?h True] by auto
  have "cbor_item um 1 b" if ok: "r = Ok ()"
  proof -
    obtain c where c: "b = ?h @ c" "cbor_elems um 0 (2 * n_keys p) c" using e(2) ok sks(3) by auto
    have "2 * n_keys p < 2 ^ 32 - 1" using n_keys_le [OF wf] by simp
    then show ?thesis using map_item [OF c(2)] c(1) by simp
  qed
  moreover have "conf_encode_map list_put C um p [] = Some (b, r)"
    using e(1) sks(1) by (simp add: conf_encode_map_def num_keys_eq [OF wf] put_head_eq [OF C] list_put_def)
  ultimately show ?thesis by blast
qed

text \<open>What the two entry points return, in terms of the bytes put into the sink.\<close>

lemma cbor_map_eq:
  assumes C: "cbor2_ok C" and wf: "conf_wf p" and um: "50 \<le> um"
  shows "\<exists>b r. (r = Ok () \<longrightarrow> cbor_item um 1 b) \<and>
    (\<forall>out. \<exists>out'. length out' = length out \<and> (length b \<le> length out \<longrightarrow> take (length b) out' = b) \<and>
       cbor_map C um p out = Some (out', case r of Err e \<Rightarrow> Err e
         | Ok _ \<Rightarrow> if length out < length b then Err (MapTooSmall (length b)) else Ok (length b))) \<and>
    cbor_map_crc32 C um p = Some (case r of Ok _ \<Rightarrow> crc32_ieee b | Err e \<Rightarrow> 0)"
proof -
  obtain b r where b: "conf_encode_map list_put C um p [] = Some (b, r)" "r = Ok () \<longrightarrow> cbor_item um 1 b"
    using encode_map_item [OF C wf um] by blast
  have "\<exists>out'. length out' = length out \<and> (length b \<le> length out \<longrightarrow> take (length b) out' = b) \<and>
      cbor_map C um p out = Some (out', case r of Err e \<Rightarrow> Err e
        | Ok _ \<Rightarrow> if length out < length b then Err (MapTooSmall (length b)) else Ok (length b))" for out
  proof -
    have start: "buf_holds (length out) [] \<lparr>bs_out = out, bs_len = 0\<rparr>" by (simp add: buf_holds_def)
    obtain s where s: "conf_encode_map buf_put C um p \<lparr>bs_out = out, bs_len = 0\<rparr> = Some (s, r)"
      "length (bs_out s) = length out" "bs_len s = length b"
      "length b \<le> length out \<longrightarrow> take (length b) (bs_out s) = b"
      using buf.encode_map_agree [OF C start, of um p] b(1) by (auto simp: option_rel_Some1 buf_holds_def)
    then show ?thesis by (intro exI [of _ "bs_out s"]) (simp add: cbor_map_def split: result.split)
  qed
  moreover have "conf_encode_map crc_put C um p 0 = Some (crc32_ieee b, r)"
    using crc.encode_map_agree [OF C, of 0 um p] b(1)
    by (auto simp: option_rel_Some1 crc32_ieee_def crc32_ieee_update_def)
  ultimately show ?thesis using b(2) by (intro exI [of _ b] exI [of _ r]) (simp add: cbor_map_crc32_def)
qed

text \<open>Property C24. The map a partition is published as is well-formed CBOR. Whatever bytes the
  partition holds, \<open>cbor_map\<close> does not panic, and when it returns a length, that many bytes of the
  buffer are exactly one item of the grammar, the validator of the crate accepts them, and
  \<open>cbor_map_crc32\<close>, which writes no buffer, is the CRC-32 of those bytes.\<close>

theorem published_map_is_cbor:
  assumes C: "cbor2_ok C" and wf: "conf_wf p" and um: "50 \<le> um"
  shows "\<exists>out' r crc. cbor_map C um p out = Some (out', r) \<and> cbor_map_crc32 C um p = Some crc \<and>
    (\<forall>n. r = Ok n \<longrightarrow> n \<le> length out' \<and> length out' = length out \<and> cbor_item um 1 (take n out') \<and>
      crc = crc32_ieee (take n out') \<and>
      (\<exists>v w. cbor_parse out' = Some (Ok v) \<and> advance um v = Some (w, Ok ()) \<and> v_pos w = n))"
proof -
  obtain b r out' where b: "r = Ok () \<longrightarrow> cbor_item um 1 b" "length out' = length out"
    "length b \<le> length out \<longrightarrow> take (length b) out' = b"
    "cbor_map C um p out = Some (out', case r of Err e \<Rightarrow> Err e
       | Ok _ \<Rightarrow> if length out < length b then Err (MapTooSmall (length b)) else Ok (length b))"
    "cbor_map_crc32 C um p = Some (case r of Ok _ \<Rightarrow> crc32_ieee b | Err e \<Rightarrow> 0)"
    using cbor_map_eq [OF C wf um] by metis
  have accepted: "\<exists>v w. cbor_parse buf = Some (Ok v) \<and> advance um v = Some (w, Ok ()) \<and> v_pos w = length b"
    if item: "cbor_item um 1 b" and buf: "take (length b) buf = b" for buf
  proof -
    have "cbor_item um MAX_RECURSIONS b" using cbor_item_mono(1) [OF item, of 9] by (simp add: MAX_RECURSIONS_def)
    moreover have "buf = b @ drop (length b) buf" using buf append_take_drop_id [of "length b" buf] by simp
    ultimately show ?thesis using item_accepted(1,5) by metis
  qed
  show ?thesis using b accepted [of out'] by (cases r) auto
qed

theorem published_map_is_cbor_witness:
  "\<exists>out' r crc. cbor_map slice_cbor2 255 (conf_new LP64) [0, 0] = Some (out', r) \<and>
     cbor_map_crc32 slice_cbor2 255 (conf_new LP64) = Some crc"
proof -
  have "layout_ok LP64" by code_simp
  then have "conf_wf (conf_new LP64)" by (rule conf_new_wf)
  from published_map_is_cbor [OF slice_cbor2_ok this, of 255 "[0, 0]"] show ?thesis by auto
qed

section \<open>Nothing panics\<close>

lemma entry_total:
  assumes wf: "conf_wf p" and i: "i < 50"
  shows "\<exists>e. entry um p i = Some e"
proof -
  let ?off = "key_offset (cp_layout p) i" and ?sk = "stored p i"
  let ?len = "if um < unat (key_len ?sk) then KEY_BUF_LEN else min (unat (key_len ?sk)) KEY_BUF_LEN"
  have "37 \<le> key_size (cp_layout p)" using wf key_size_bounds by (simp add: conf_wf_def)
  moreover have "?len \<le> 32" by (simp add: conf_consts)
  ultimately have "?off + ?len \<le> length (cp_image p)"
    using conf_wf_bounds(1) [OF wf i] by linarith
  then obtain key where key: "range_at (cp_image p) ?off (?off + ?len) = Some key" by (simp add: range_at_def)
  obtain r where r: "cbor_parse (slot_of p i) = Some r" "\<And>v. r = Ok v \<Longrightarrow> live v \<and> on_head v"
    using cbor_parse_total [of "slot_of p i"] by blast
  have "\<exists>e. entry_value um p i ty = Some e" for ty
  proof (cases r)
    case (Err x)
    then show ?thesis using r(1) by (simp add: entry_value_def conf_slot_eq [OF wf i] split: option.split)
  next
    case (Ok v)
    obtain s where s: "value_string um v = Some s" using value_string_total r(2) [OF Ok] by blast
    obtain w a where a: "advance um v = Some (w, a)" using advance_total [OF live_sound] r(2) [OF Ok] by blast
    show ?thesis
      by (cases "parse_head (slot_of p i)")
        (simp_all add: entry_value_def conf_slot_eq [OF wf i] r(1) Ok s a Let_def)
  qed
  then obtain e where "entry_value um p i (value_type ?sk) = Some e" by blast
  then show ?thesis using key by (simp add: entry_def stored_key_eq [OF wf i] Let_def)
qed

lemma entries_total:
  assumes wf: "conf_wf p"
  shows "\<exists>es. entries um p = Some es \<and> length es = n_keys p"
proof -
  have "\<exists>e. entry um p i = Some e \<and> True" if "i \<in> set [0..<n_keys p]" for i
    using entry_total [OF wf] n_keys_le [OF wf] that by simp
  then show ?thesis
    using collect_total [of "[0..<n_keys p]" "entry um p" "\<lambda>_. True"] by (simp add: entries_def num_keys_eq [OF wf])
qed

text \<open>Property C25. No operation of the config store panics. Take any partition a program can have,
  from an empty one by any sequence of loads (of whatever bytes the flash returns), sets, removals,
  clears and saves: every setter, getter, encoder and lister returns, for any key, any value, any
  output buffer, and as many rows are listed as \<open>num_keys\<close> says.\<close>

theorem config_never_panics:
  assumes C: "cbor2_ok C" and L: "layout_ok L" and p: "conf_reach C L p" and um: "50 \<le> um"
  shows "cfg_set C p k v \<noteq> None \<and> set_cbor p k raw \<noteq> None \<and> remove_key p k \<noteq> None \<and>
    conf_clear p \<noteq> None \<and> seal p \<noteq> None \<and> (keeps_length read \<longrightarrow> load_with read p \<noteq> None) \<and>
    get_uint p k \<noteq> None \<and> get_int p k \<noteq> None \<and> conf_get_float p k \<noteq> None \<and>
    get_string um p k out \<noteq> None \<and> get_buffer um p k out \<noteq> None \<and> get_cbor p k out \<noteq> None \<and>
    value_size um p k \<noteq> None \<and> cbor_map C um p out \<noteq> None \<and> cbor_map_crc32 C um p \<noteq> None \<and>
    (\<exists>n sks es. num_keys p = Some n \<and> n \<le> MAX_NUM_KV \<and> stored_keys p = Some sks \<and> length sks = n \<and>
      entries um p = Some es \<and> length es = n)"
proof -
  have wf: "conf_wf p" using conf_reach_wf [OF C L p] by simp
  have "\<exists>sks. collect (stored_key p) [0..<n_keys p] = Some sks \<and> (\<forall>sk \<in> set sks. True) \<and>
      length sks = length [0..<n_keys p]"
    using stored_key_eq [OF wf] n_keys_le [OF wf] by (intro collect_total) auto
  then have lists: "\<exists>n sks es. num_keys p = Some n \<and> n \<le> MAX_NUM_KV \<and> stored_keys p = Some sks \<and> length sks = n \<and>
      entries um p = Some es \<and> length es = n"
    using entries_total [OF wf, of um] n_keys_le [OF wf]
    by (auto simp: stored_keys_def num_keys_eq [OF wf] conf_consts)
  have published: "cbor_map C um p out \<noteq> None \<and> cbor_map_crc32 C um p \<noteq> None"
    using cbor_map_eq [OF C wf um] by (metis option.distinct(1))
  show ?thesis
    using cfg_set_total [OF C wf, of k v] set_cbor_total [OF wf, of k raw] remove_key_total [OF wf, of k]
      conf_clear_eq [OF wf] seal_eq [OF wf] load_with_total [OF wf, of read] getters_eq [OF wf] lists
      published
    by (auto simp: get_string_def get_buffer_def)
qed

theorem config_never_panics_witness:
  "cfg_set slice_cbor2 (conf_new LP64) (key_new [0x61]) (VUint 7) \<noteq> None \<and>
     cbor_map slice_cbor2 255 (conf_new LP64) [] \<noteq> None"
proof -
  have "layout_ok LP64" by code_simp
  from config_never_panics [OF slice_cbor2_ok this start, of 255 "key_new [0x61]" "VUint 7" "[]" "\<lambda>b. (b, True)" "[]"]
  show ?thesis by simp
qed

end
