(* ===== verification/Service_Config_Map.thy ===== *)
theory Service_Config_Map
  imports Service_Info Config_Map
begin

text \<open>
  The \<open>config_map\<close> service (\<open>service/config_map.rs\<close>): its request and reply bodies and the handler,
  which writes a partition's CBOR map straight into the reply.
\<close>

section \<open>Bodies\<close>

definition REQUEST_NUM_FIELDS :: nat where "REQUEST_NUM_FIELDS = 1"
definition REPLY_NUM_FIELDS :: nat where "REPLY_NUM_FIELDS = 5"
definition PARTITION_ID_SYS :: u32 where "PARTITION_ID_SYS = 1"
definition PARTITION_ID_HW :: u32 where "PARTITION_ID_HW = 2"
definition PARTITION_ID_USER :: u32 where "PARTITION_ID_USER = 3"
definition CONFIG_MAP_SUFFIX :: bytes where "CONFIG_MAP_SUFFIX = ascii ''/config_map''"

definition config_map_partition :: "u32 \<Rightarrow> CfgPartition option" where
  "config_map_partition n =
     (if n = PARTITION_ID_SYS then Some System
      else if n = PARTITION_ID_HW then Some Hardware
      else if n = PARTITION_ID_USER then Some User
      else None)"

text \<open>A request is its \<open>partition_id\<close>.\<close>

definition config_map_request_encode :: "cbor2 \<Rightarrow> u32 \<Rightarrow> bytes \<Rightarrow> bytes \<times> (CborError, nat) result" where
  "config_map_request_encode C partition_id out =
     encode_map C out REQUEST_NUM_FIELDS (mw_uint C (ascii ''partition_id'') (ucast partition_id))"

definition config_map_request_decode :: "nat \<Rightarrow> bytes \<Rightarrow> u32 \<Rightarrow> (u32 \<times> (CborError, unit) result) option" where
  "config_map_request_decode um buf partition_id =
     attempt (enter_map um buf REQUEST_NUM_FIELDS) partition_id (\<lambda>(m, value).
     take_uint um value partition_id (\<lambda>n _. ucast n) (\<lambda>value partition_id.
     attempt_step (leave_map m value) partition_id (\<lambda>_ _. Some (partition_id, Ok ()))))"

definition config_map_head_body :: "cbor2 \<Rightarrow> u64 \<Rightarrow> u32 \<Rightarrow> bool \<Rightarrow> nat \<Rightarrow> MapWriter \<Rightarrow> MapWriter" where
  "config_map_head_body C node_id partition_id success len w =
    (let w = mw_uint C (ascii ''node_id'') node_id w;
         w = mw_uint C (ascii ''partition_id'') (ucast partition_id) w;
         w = mw_uint C (ascii ''success'') (if success then 1 else 0) w;
         w = mw_uint C (ascii ''cbor_encoded_map_len'') (of_nat len) w;
         w = mw_text C (ascii ''cbor_data'') w
     in mw_bytes_head C len w)"

definition config_map_encode_head ::
  "cbor2 \<Rightarrow> u64 \<Rightarrow> u32 \<Rightarrow> bool \<Rightarrow> nat \<Rightarrow> bytes \<Rightarrow> bytes \<times> (CborError, nat) result" where
  "config_map_encode_head C node_id partition_id success len out =
     (if 2 ^ 32 \<le> len then (out, Err OutOfMemory)
      else encode_map C out REPLY_NUM_FIELDS (config_map_head_body C node_id partition_id success len))"

record ConfigMapReply =
  cr_node_id :: u64
  cr_partition_id :: u32
  cr_success :: bool
  cr_cbor_data :: bytes

definition config_map_reply_encode :: "cbor2 \<Rightarrow> ConfigMapReply \<Rightarrow> bytes \<Rightarrow> bytes \<times> (CborError, nat) result" where
  "config_map_reply_encode C r out =
     (case config_map_encode_head C (cr_node_id r) (cr_partition_id r) (cr_success r) (length (cr_cbor_data r)) out of
        (out, Err e) \<Rightarrow> (out, Err e)
      | (out, Ok head) \<Rightarrow>
          (case copy_at out head (cr_cbor_data r) of
             None \<Rightarrow> (out, Err OutOfMemory)
           | Some out \<Rightarrow> (out, Ok (head + length (cr_cbor_data r)))))"

record DecodedConfigMapReply =
  dc_node_id :: u64
  dc_partition_id :: u32
  dc_success :: bool
  dc_cbor_encoded_map_len :: u32
  dc_cbor_data :: "CborString option"

text \<open>The last value, \<open>cbor_data\<close>.\<close>

definition config_map_take_data ::
  "nat \<Rightarrow> Value \<Rightarrow> Value \<Rightarrow> DecodedConfigMapReply \<Rightarrow> (DecodedConfigMapReply \<times> (CborError, unit) result) option" where
  "config_map_take_data um m value d =
     (if dc_cbor_encoded_map_len d = 0 \<or> \<not> dc_success d then Some (d, Ok ())
      else if \<not> is_byte_string value then Some (d, Err Unreachable)
      else do {
        let len = as_usize um (dc_cbor_encoded_map_len d);
        (_, copied) \<leftarrow> copy_string um value len copy_nothing ();
        attempt (Some copied) d (\<lambda>copied.
        if \<not> cp_all copied then Some (d, Err OutOfMemory)
        else if cp_total copied \<noteq> len then Some (d, Err IllegalType)
        else attempt (value_string um value) d (\<lambda>body.
          attempt_step (advance um value) d (\<lambda>value _.
          attempt_step (leave_map m value) d (\<lambda>_ _. Some (d\<lparr>dc_cbor_data := Some body\<rparr>, Ok ()))))) })"

definition config_map_reply_decode ::
  "nat \<Rightarrow> bytes \<Rightarrow> DecodedConfigMapReply \<Rightarrow> (DecodedConfigMapReply \<times> (CborError, unit) result) option" where
  "config_map_reply_decode um buf d =
     (let d = d\<lparr>dc_cbor_data := None\<rparr> in
      attempt (enter_map um buf REPLY_NUM_FIELDS) d (\<lambda>(m, value).
      take_uint um value d (\<lambda>n d. d\<lparr>dc_node_id := n\<rparr>) (\<lambda>value d.
      take_uint um value d (\<lambda>n d. d\<lparr>dc_partition_id := ucast n\<rparr>) (\<lambda>value d.
      take_uint um value d (\<lambda>n d. d\<lparr>dc_success := (n \<noteq> 0)\<rparr>) (\<lambda>value d.
      take_uint um value d (\<lambda>n d. d\<lparr>dc_cbor_encoded_map_len := ucast n\<rparr>) (\<lambda>value d.
      attempt_step (skip_key um value) d (\<lambda>value _.
      config_map_take_data um m value d)))))))"

section \<open>The handler\<close>

type_synonym map_source = "CfgPartition \<Rightarrow> bytes \<Rightarrow> (bytes \<times> (MapError, nat) result) option"

text \<open>The reply once the partition and its map's length are known: \<open>found\<close>.\<close>

definition config_map_reply ::
  "cbor2 \<Rightarrow> nat \<Rightarrow> u64 \<Rightarrow> u32 \<Rightarrow> map_source \<Rightarrow> (CfgPartition \<times> nat) option \<Rightarrow> bytes \<Rightarrow>
     (bytes \<times> nat option) option" where
  "config_map_reply C um node_id partition_id source found out =
     (let len = (case found of Some (_, len) \<Rightarrow> len | None \<Rightarrow> 0) in
      case config_map_encode_head C node_id partition_id (found \<noteq> None) len out of
        (out, Err e) \<Rightarrow> Some (out, None)
      | (out, Ok head) \<Rightarrow>
          if um < head + len \<or> length out < head + len then Some (out, None)
          else (case found of
              None \<Rightarrow> Some (out, Some (head + len))
            | Some (p, _) \<Rightarrow> do {
                room \<leftarrow> range_at out head (head + len);
                (room, r) \<leftarrow> source p room;
                out \<leftarrow> copy_at out head room;
                Some (out, case r of Ok _ \<Rightarrow> Some (head + len) | Err e \<Rightarrow> None) }))"

definition config_map_handle ::
  "cbor2 \<Rightarrow> nat \<Rightarrow> bytes \<Rightarrow> u64 \<Rightarrow> map_source \<Rightarrow> bytes \<Rightarrow> (bytes \<times> nat option) option" where
  "config_map_handle C um request node_id source out = do {
     (partition_id, r) \<leftarrow> config_map_request_decode um request 0;
     (case r of
        Err e \<Rightarrow> Some (out, None)
      | Ok _ \<Rightarrow>
          (case config_map_partition partition_id of
             None \<Rightarrow> config_map_reply C um node_id partition_id source None out
           | Some p \<Rightarrow> do {
               (_, r) \<leftarrow> source p [];
               (case r of
                  Ok len \<Rightarrow> config_map_reply C um node_id partition_id source (Some (p, len)) out
                | Err (MapTooSmall len) \<Rightarrow> config_map_reply C um node_id partition_id source (Some (p, len)) out
                | Err NoMap \<Rightarrow> config_map_reply C um node_id partition_id source None out
                | Err MapUnreachable \<Rightarrow> Some (out, None)) })) }"

section \<open>The bytes of the bodies\<close>

definition config_map_request_items :: "u32 \<Rightarrow> bytes list" where
  "config_map_request_items n = [text_bytes (ascii ''partition_id''), rfc_head (Positive (ucast n))]"

definition config_map_reply_items :: "u64 \<Rightarrow> u32 \<Rightarrow> bool \<Rightarrow> nat \<Rightarrow> bytes list" where
  "config_map_reply_items node_id partition_id success len =
     [text_bytes (ascii ''node_id''), rfc_head (Positive node_id),
      text_bytes (ascii ''partition_id''), rfc_head (Positive (ucast partition_id)),
      text_bytes (ascii ''success''), rfc_head (Positive (if success then 1 else 0)),
      text_bytes (ascii ''cbor_encoded_map_len''), rfc_head (Positive (of_nat len)),
      text_bytes (ascii ''cbor_data'')]"

text \<open>The whole reply, with the data.\<close>

definition config_map_reply_bytes :: "u64 \<Rightarrow> u32 \<Rightarrow> bool \<Rightarrow> bytes \<Rightarrow> bytes" where
  "config_map_reply_bytes node_id partition_id success body =
     map_bytes REPLY_NUM_FIELDS (config_map_reply_items node_id partition_id success (length body) @
       [rfc_head (Bytes (Some (length body))) @ body])"

lemma config_map_request_encode_eq:
  assumes C: "cbor2_ok C"
  shows "encoded (map_bytes REQUEST_NUM_FIELDS (config_map_request_items n)) out (config_map_request_encode C n out)"
  unfolding config_map_request_encode_def
  by (rule encode_map_eq [OF C])
    (simp add: config_map_request_items_def wrote_uint [OF C] del: rfc_head.simps)

lemma config_map_encode_head_eq:
  assumes C: "cbor2_ok C" and len: "len < 2 ^ 32"
  shows "encoded (map_bytes REPLY_NUM_FIELDS (config_map_reply_items node_id pid success len @ [rfc_head (Bytes (Some len))]))
    out (config_map_encode_head C node_id pid success len out)"
proof -
  have "wrote out (xs @ concat (config_map_reply_items node_id pid success len @ [rfc_head (Bytes (Some len))]))
      (config_map_head_body C node_id pid success len w)" if w: "wrote out xs w" for w xs
    using wrote_bytes_head [OF C wrote_text [OF C wrote_uint [OF C wrote_uint [OF C wrote_uint [OF C wrote_uint [OF C w]]]]]]
    by (simp add: config_map_reply_items_def config_map_head_body_def del: rfc_head.simps)
  from encode_map_eq [OF C this] show ?thesis
    using len by (simp add: config_map_encode_head_def del: rfc_head.simps)
qed

section \<open>Decoding\<close>

lemma config_map_request_decode_total: "\<exists>n r. config_map_request_decode um buf d = Some (n, r)"
proof -
  have "\<exists>p. config_map_request_decode um buf d = Some p"
    unfolding config_map_request_decode_def
    by (rule attempt_map_total, simp only: prod.case, rule take_uint_total [where n = 0],
        simp add: REQUEST_NUM_FIELDS_def numeral_2_eq_2, rule attempt_leave_total) simp
  then show ?thesis by simp
qed

lemma config_map_take_data_total:
  assumes v: "owed v 1"
  shows "\<exists>p. config_map_take_data um m v d = Some p"
proof -
  have o: "on_head v" using owed_head [of v 0] v by simp
  obtain n where n: "as_usize um (dc_cbor_encoded_map_len d) = n" by blast
  have "copier_ok n copy_nothing" by (simp add: copier_ok_def copy_nothing_def)
  then obtain x y where x: "iterate_string um v n copy_nothing () = Some (x, y)"
    using iterate_string_total [OF o, of n copy_nothing um "()"] by blast
  obtain z where z: "value_string um v = Some z" using value_string_total [OF o] by blast
  have a: "\<exists>p. attempt_step (advance um v) d (\<lambda>w _. attempt_step (leave_map m w) d (\<lambda>_ _. Some (e, Ok ()))) = Some p"
    for d e :: DecodedConfigMapReply
    by (rule attempt_advance_total [of v 0], use v in simp, rule attempt_leave_total) simp
  show ?thesis
  proof (cases z)
    case (Ok b)
    then show ?thesis using a [of d "d\<lparr>dc_cbor_data := Some b\<rparr>"] x z
      by (cases y) (simp_all add: config_map_take_data_def n copy_string_def attempt_def Let_def case_prod_beta)
  qed (use x z in \<open>cases y; simp add: config_map_take_data_def n copy_string_def attempt_def Let_def case_prod_beta\<close>)
qed

lemma config_map_reply_decode_total: "\<exists>d' r. config_map_reply_decode um buf d = Some (d', r)"
proof -
  have "\<exists>p. config_map_reply_decode um buf d = Some p"
    unfolding config_map_reply_decode_def Let_def [of "d\<lparr>dc_cbor_data := None\<rparr>"]
    by (rule attempt_map_total, simp only: prod.case, rule take_uint_total [where n = 8],
        simp add: REPLY_NUM_FIELDS_def, rule take_uint_total [where n = 6], simp,
        rule take_uint_total [where n = 4], simp, rule take_uint_total [where n = 2], simp,
        rule attempt_key_total [where n = 1], simp add: numeral_2_eq_2, rule config_map_take_data_total)
  then show ?thesis by simp
qed

lemma config_map_request_decode_encoded:
  assumes um: "50 \<le> um"
  shows "config_map_request_decode um (map_bytes REQUEST_NUM_FIELDS (config_map_request_items n) @ tail) d = Some (n, Ok ())"
proof -
  have items: "\<forall>b \<in> set (config_map_request_items n). cbor_item um 9 b"
    "length (config_map_request_items n) = 2 * REQUEST_NUM_FIELDS" "2 * REQUEST_NUM_FIELDS < 2 ^ 32 - 1"
    "REQUEST_NUM_FIELDS \<le> um"
    using text_bytes_item(1) integer_item [of INTEGER um 9] um
    by (auto simp: config_map_request_items_def REQUEST_NUM_FIELDS_def)
  note short = order_trans [OF _ um]
  have "yields (config_map_request_decode um (map_bytes REQUEST_NUM_FIELDS (config_map_request_items n) @ tail) d)
      (\<lambda>x. x = (n, Ok ()))"
    unfolding config_map_request_decode_def
    apply (rule map_run [OF items], unfold prod.case config_map_request_items_def)
    apply (rule take_uint_run, assumption, rule short, simp, simp)
    apply (rule leave_run, assumption+)
    by (rule yields_Some) (simp add: ucast_64_32)
  then show ?thesis by (simp add: yields_def)
qed

text \<open>The data of a reply is held, unless the reply is a refusal or the data is empty.\<close>

definition holds_data :: "nat \<Rightarrow> bool \<Rightarrow> bytes \<Rightarrow> CborString option \<Rightarrow> bool" where
  "holds_data um success body c \<longleftrightarrow>
     (if success \<and> body \<noteq> [] then \<exists>z. c = Some z \<and> holds_string um z body else c = None)"

lemma config_map_data_decoded:
  assumes v: "reading um v [rfc_head (Bytes (Some (length b))) @ b] tail" and m: "v_ty m = MAP" "v_remaining m = 1"
    and b: "length b \<le> um" "length b < 2 ^ 32"
    and d: "dc_cbor_encoded_map_len d = of_nat (length b)" "dc_cbor_data d = None"
  shows "yields (config_map_take_data um m v d) (\<lambda>x. \<exists>c. x = (d\<lparr>dc_cbor_data := c\<rparr>, Ok ()) \<and> holds_data um (dc_success d) b c)"
proof (cases "dc_success d \<and> b \<noteq> []")
  case False
  then have "dc_cbor_encoded_map_len d = 0 \<or> \<not> dc_success d" using d(1) by auto
  moreover have "d\<lparr>dc_cbor_data := None\<rparr> = d" using d(2) by simp
  ultimately show ?thesis using False by (auto simp: config_map_take_data_def yields_def holds_data_def)
next
  case True
  have len: "length b < 2 ^ 64" using b(2) by simp
  have u: "unat (of_nat (length b) :: u32) = length b" using b(2) by (simp add: unsigned_of_nat take_bit_nat_eq_self)
  then have "(of_nat (length b) :: u32) \<noteq> 0" using True by (metis length_0_conv unsigned_0)
  moreover have room: "as_usize um (of_nat (length b)) = length b" using u b(1) by (simp add: as_usize_def)
  have str: "string_item um BYTE_STRING [b] (rfc_head (Bytes (Some (length b))) @ b)"
    using string_item_written [of BYTE_STRING b um] b(1) len by simp
  obtain z where z: "value_string um v = Some (Ok z)" "holds_string um z b"
    using string_borrowed(1) [OF v str _ b(1)] by blast
  have "shortest_head BYTE_STRING (of_nat (length b)) \<noteq> []" by (rule shortest_head(5)) simp
  then have "is_byte_string v"
    using reading_on_head [OF v] head_ty_written [of BYTE_STRING] by (simp add: is_byte_string_def)
  moreover have "yields (attempt_step (advance um v) e (\<lambda>w _. attempt_step (leave_map m w) e (\<lambda>_ _. Some (f, Ok ()))))
      (\<lambda>x. x = (f, Ok ()))" for e f :: DecodedConfigMapReply
    by (rule advance_run [OF v], rule leave_run [OF _ m], assumption, rule yields_Some) simp
  ultimately show ?thesis
    using z string_borrowed(2) [OF v str _ b(1)] room True d(1)
    by (auto simp: config_map_take_data_def attempt_def yields_def holds_data_def Let_def)
qed

lemma config_map_reply_decode_encoded:
  assumes um: "50 \<le> um" and b: "length b \<le> um" "length b < 2 ^ 32"
  shows "yields (config_map_reply_decode um (config_map_reply_bytes node pid success b @ tail) d) (\<lambda>x. \<exists>c. x =
      (\<lparr>dc_node_id = node, dc_partition_id = pid, dc_success = success,
        dc_cbor_encoded_map_len = of_nat (length b), dc_cbor_data = c\<rparr>, Ok ()) \<and> holds_data um success b c)"
proof -
  let ?items = "config_map_reply_items node pid success (length b) @ [rfc_head (Bytes (Some (length b))) @ b]"
  have "cbor_item um 9 (rfc_head (Bytes (Some (length b))) @ b)"
    using text_item [of BYTE_STRING b um 9] b by simp
  then have items: "\<forall>b \<in> set ?items. cbor_item um 9 b" "length ?items = 2 * REPLY_NUM_FIELDS"
    "2 * REPLY_NUM_FIELDS < 2 ^ 32 - 1" "REPLY_NUM_FIELDS \<le> um"
    using text_bytes_item(1) integer_item [of INTEGER um 9] um
    by (auto simp: config_map_reply_items_def REPLY_NUM_FIELDS_def)
  note short = order_trans [OF _ um]
  have *: "yields (config_map_take_data um m v e) (\<lambda>x. \<exists>c. x =
      (\<lparr>dc_node_id = node, dc_partition_id = pid, dc_success = success,
        dc_cbor_encoded_map_len = of_nat (length b), dc_cbor_data = c\<rparr>, Ok ()) \<and> holds_data um success b c)"
    if "reading um v [rfc_head (Bytes (Some (length b))) @ b] tail" "v_ty m = MAP" "v_remaining m = 1"
      "e = \<lparr>dc_node_id = node, dc_partition_id = pid, dc_success = success,
        dc_cbor_encoded_map_len = of_nat (length b), dc_cbor_data = None\<rparr>" for m v e
    using config_map_data_decoded [OF that(1-3) b, of e] that(4) by simp
  have n: "ucast (of_nat (length b) :: u64) = (of_nat (length b) :: u32)"
    using b(2) by (simp add: unsigned_of_nat take_bit_nat_eq_self)
  show ?thesis unfolding config_map_reply_decode_def config_map_reply_bytes_def Let_def
    apply (rule map_run [OF items], unfold prod.case config_map_reply_items_def append.simps)
    apply (rule take_uint_run, assumption, rule short, simp, simp)+
    apply (rule key_run, assumption, rule short, simp, simp)
    by (rule *, assumption+) (simp add: ucast_64_32 n)
qed

section \<open>The service over a store\<close>

definition store_source :: "cbor2 \<Rightarrow> nat \<Rightarrow> ConfigStore \<Rightarrow> map_source" where
  "store_source C um st p out = do { part \<leftarrow> store_partition st p; cbor_map C um part out }"

definition store_wf :: "ConfigStore \<Rightarrow> bool" where
  "store_wf st \<longleftrightarrow> length (st_partitions st) = 3 \<and> (\<forall>p \<in> set (st_partitions st). conf_wf p)"

lemma store_partition_wf: "store_wf st \<Longrightarrow> \<exists>part. store_partition st p = Some part \<and> conf_wf part"
  by (cases p) (simp_all add: store_partition_def store_wf_def get_at_def)

text \<open>The reply is the encoded body, when it fits.\<close>

lemma config_map_reply_eq:
  assumes C: "cbor2_ok C" and found: "found = None \<and> b = [] \<or> (\<exists>p. found = Some (p, length b) \<and>
      (\<forall>out. length out = length b \<longrightarrow> (\<exists>len. source p out = Some (b, Ok len))))"
  shows "\<exists>out' r. config_map_reply C um node pid source found out = Some (out', r) \<and>
    (\<forall>n. r = Some n \<longrightarrow> length b < 2 ^ 32 \<and> length b \<le> um \<and> n \<le> length out' \<and>
       take n out' = config_map_reply_bytes node pid (found \<noteq> None) b) \<and>
    (r = None \<longrightarrow> 2 ^ 32 \<le> length b \<or> min um (length out) < length (config_map_reply_bytes node pid (found \<noteq> None) b))"
proof -
  have len: "(case found of Some (_, len) \<Rightarrow> len | None \<Rightarrow> 0) = length b" using found by auto
  obtain out1 r1 where e: "config_map_encode_head C node pid (found \<noteq> None) (length b) out = (out1, r1)" by fastforce
  let ?hb = "map_bytes REPLY_NUM_FIELDS (config_map_reply_items node pid (found \<noteq> None) (length b) @
      [rfc_head (Bytes (Some (length b)))])"
  have whole: "config_map_reply_bytes node pid (found \<noteq> None) b = ?hb @ b"
    by (simp add: config_map_reply_bytes_def map_bytes_def del: rfc_head.simps)
  show ?thesis
  proof (cases r1)
    case (Err x)
    have "length out < length ?hb" if "length b < 2 ^ 32"
      using config_map_encode_head_eq [OF C that, of node pid "found \<noteq> None" out] e Err
      by (auto simp: encoded_def simp del: rfc_head.simps split: if_splits)
    then have "2 ^ 32 \<le> length b \<or> min um (length out) < length (config_map_reply_bytes node pid (found \<noteq> None) b)"
      unfolding whole by fastforce
    moreover have "config_map_reply C um node pid source found out = Some (out1, None)"
      using e len Err by (simp add: config_map_reply_def)
    ultimately show ?thesis by blast
  next
    case (Ok head)
    have l32: "length b < 2 ^ 32" using e Ok by (auto simp: config_map_encode_head_def split: if_splits)
    have enc: "encoded ?hb out (out1, Ok head)" using config_map_encode_head_eq [OF C l32] e Ok by metis
    have h: "length ?hb \<le> length out" "out1 = put out 0 ?hb" "head = length ?hb"
      using enc by (auto simp: encoded_def simp del: rfc_head.simps split: if_splits)
    then have front: "take head out1 = ?hb" "length out1 = length out" by (simp_all add: put_def)
    show ?thesis
    proof (cases "um < head + length b \<or> length out1 < head + length b")
      case True
      then have "min um (length out) < length (config_map_reply_bytes node pid (found \<noteq> None) b)"
        unfolding whole using front(2) h(3) by auto
      moreover have "config_map_reply C um node pid source found out = Some (out1, None)"
        using e len Ok True by (simp add: config_map_reply_def)
      ultimately show ?thesis by blast
    next
      case False
      then have fits: "head + length b \<le> length out1" "length b \<le> um" by auto
      show ?thesis
      proof (cases found)
        case None
        then have "b = []" using found by auto
        then show ?thesis using e Ok len None False l32 front whole fits
          by (simp add: config_map_reply_def del: rfc_head.simps)
      next
        case (Some y)
        then obtain p where p: "found = Some (p, length b)"
          "\<forall>out. length out = length b \<longrightarrow> (\<exists>len. source p out = Some (b, Ok len))" using found by auto
        obtain room where room: "range_at out1 head (head + length b) = Some room" "length room = length b"
          using fits(1) by (simp add: range_at_def)
        then obtain k where "source p room = Some (b, Ok k)" using p(2) by blast
        then have "config_map_reply C um node pid source found out = Some (put out1 head b, Some (head + length b))"
          using e Ok len p(1) False room(1) fits(1) by (simp add: config_map_reply_def copy_at_def)
        moreover have "take (head + length b) (put out1 head b) = ?hb @ b"
          using fits(1) front(1) h(3) by (simp add: put_def del: rfc_head.simps)
        ultimately show ?thesis using l32 fits whole by (simp del: rfc_head.simps)
      qed
    qed
  qed
qed

lemma config_map_reply_found:
  assumes "config_map_reply C um node pid source (Some (p, l)) out = Some (out', Some n)"
  shows "\<exists>room room' m. source p room = Some (room', Ok m)"
  using assms
  by (auto simp: config_map_reply_def bind_eq_Some_conv split: prod.splits result.splits if_splits)
    (metis result.exhaust)+

text \<open>The config_map service delivers a partition's map. A node that sends a request
  encoded by this crate and answers it with \<open>handle\<close> from its three partitions produces a reply that
  the decoder of this crate accepts, whatever follows it in the buffer: the node and partition ids come
  back, \<open>success\<close> is set only for a partition that has a map, and then the data is exactly one item
  of CBOR, whose CRC-32 is the one \<open>cbor_map_crc32\<close> announces for that partition.\<close>

theorem config_map_service_delivers:
  assumes C: "cbor2_ok C" and um: "50 \<le> um" and st: "store_wf st"
    and request: "config_map_request_encode C pid buf = (buf', Ok k)"
    and handled: "config_map_handle C um (take k buf') node (store_source C um st) out = Some (out', Some n)"
  shows "\<exists>d. config_map_reply_decode um (take n out' @ tail) d0 = Some (d, Ok ()) \<and>
    dc_node_id d = node \<and> dc_partition_id d = pid \<and>
    (case config_map_partition pid of
       None \<Rightarrow> \<not> dc_success d \<and> dc_cbor_data d = None
     | Some p \<Rightarrow> (\<exists>part. store_partition st p = Some part \<and>
         (if dc_success d then \<exists>c b. dc_cbor_data d = Some c \<and> holds_string um c b \<and> cbor_item um 1 b \<and>
            cbor_map_crc32 C um part = Some (crc32_ieee b)
          else dc_cbor_data d = None \<and> cbor_map_crc32 C um part = Some 0)))"
proof -
  have req: "take k buf' = map_bytes REQUEST_NUM_FIELDS (config_map_request_items pid) @ []"
    using config_map_request_encode_eq [OF C, of pid buf] request
    by (auto simp: encoded_def put_def simp del: rfc_head.simps split: if_splits)
  have asked: "config_map_request_decode um (take k buf') 0 = Some (pid, Ok ())"
    unfolding req by (rule config_map_request_decode_encoded [OF um])
  have decoded: "\<exists>c. config_map_reply_decode um (take n out' @ tail) d0 = Some (\<lparr>dc_node_id = node, dc_partition_id = pid,
      dc_success = success, dc_cbor_encoded_map_len = of_nat (length b), dc_cbor_data = c\<rparr>, Ok ()) \<and> holds_data um success b c"
    if "take n out' = config_map_reply_bytes node pid success b" "length b \<le> um" "length b < 2 ^ 32" for success b
    using config_map_reply_decode_encoded [OF um that(2,3), of node pid success tail d0] that(1)
    by (auto simp: yields_def)
  show ?thesis
  proof (cases "config_map_partition pid")
    case None
    then have "config_map_reply C um node pid (store_source C um st) None out = Some (out', Some n)"
      using handled asked by (simp add: config_map_handle_def)
    then have "take n out' = config_map_reply_bytes node pid False []"
      using config_map_reply_eq [OF C, of None "[]" "store_source C um st" um node pid out] by auto
    then show ?thesis using None decoded [of False "[]"] by (auto simp: holds_data_def)
  next
    case (Some p)
    obtain part where part: "store_partition st p = Some part" "conf_wf part" using store_partition_wf [OF st] by blast
    obtain b r where b: "r = Ok () \<longrightarrow> cbor_item um 1 b"
      "\<forall>out. \<exists>out'. length out' = length out \<and> (length b \<le> length out \<longrightarrow> take (length b) out' = b) \<and>
         cbor_map C um part out = Some (out', case r of Err e \<Rightarrow> Err e
           | Ok _ \<Rightarrow> if length out < length b then Err (MapTooSmall (length b)) else Ok (length b))"
      "cbor_map_crc32 C um part = Some (case r of Ok _ \<Rightarrow> crc32_ieee b | Err e \<Rightarrow> 0)"
      using cbor_map_eq [OF C part(2) um] by blast
    obtain e where e: "store_source C um st p [] = Some (e, case r of Err e \<Rightarrow> Err e
        | Ok _ \<Rightarrow> if [] = b then Ok 0 else Err (MapTooSmall (length b)))"
      using b(2) [rule_format, of "[]"] part(1) by (auto simp: store_source_def split: result.splits)
    show ?thesis
    proof (cases r)
      case (Err x)
      have fails: "snd (the (store_source C um st p out)) = Err x" for out
        using b(2) [rule_format, of out] part(1) Err by (auto simp: store_source_def)
      have "x \<noteq> MapUnreachable" using handled asked Some e Err by (auto simp: config_map_handle_def)
      moreover have "x \<noteq> MapTooSmall l" for l
      proof
        assume x: "x = MapTooSmall l"
        then have "config_map_reply C um node pid (store_source C um st) (Some (p, l)) out = Some (out', Some n)"
          using handled asked Some e Err by (simp add: config_map_handle_def)
        then obtain room room' m where "store_source C um st p room = Some (room', Ok m)"
          using config_map_reply_found by blast
        then show False using fails [of room] by simp
      qed
      ultimately have "x = NoMap" by (cases x) auto
      then have "config_map_reply C um node pid (store_source C um st) None out = Some (out', Some n)"
        using handled asked Some e Err by (simp add: config_map_handle_def)
      then have "take n out' = config_map_reply_bytes node pid False []"
        using config_map_reply_eq [OF C, of None "[]" "store_source C um st" um node pid out] by auto
      then show ?thesis using Some part(1) b(3) Err decoded [of False "[]"] by (auto simp: holds_data_def)
    next
      case (Ok x)
      have item: "cbor_item um 1 b" using b(1) Ok by simp
      then have ne: "b \<noteq> []" using item_head by blast
      have src: "\<exists>len. store_source C um st p out = Some (b, Ok len)" if "length out = length b" for out
        using b(2) [rule_format, of out] part(1) Ok that by (auto simp: store_source_def)
      have "config_map_reply C um node pid (store_source C um st) (Some (p, length b)) out = Some (out', Some n)"
        using handled asked Some e Ok ne by (simp add: config_map_handle_def)
      then have "take n out' = config_map_reply_bytes node pid True b" "length b \<le> um" "length b < 2 ^ 32"
        using config_map_reply_eq [OF C, of "Some (p, length b)" b "store_source C um st" um node pid out] src by auto
      then obtain c where "config_map_reply_decode um (take n out' @ tail) d0 = Some (\<lparr>dc_node_id = node, dc_partition_id = pid,
          dc_success = True, dc_cbor_encoded_map_len = of_nat (length b), dc_cbor_data = c\<rparr>, Ok ())" "holds_data um True b c"
        using decoded by blast
      then show ?thesis using Some part(1) item b(3) Ok ne by (auto simp: holds_data_def)
    qed
  qed
qed

text \<open>A store of three empty partitions, asked for the second.\<close>

theorem config_map_service_delivers_witness:
  "\<exists>buf' k out' n d. config_map_request_encode slice_cbor2 1 (replicate 20 0) = (buf', Ok k) \<and>
     config_map_handle slice_cbor2 255 (take k buf') 7 (store_source slice_cbor2 255 (store_new LP64)) (replicate 100 0) =
       Some (out', Some n) \<and>
     config_map_reply_decode 255 (take n out') \<lparr>dc_node_id = 0, dc_partition_id = 0, dc_success = False,
       dc_cbor_encoded_map_len = 0, dc_cbor_data = None\<rparr> = Some (d, Ok ()) \<and> dc_node_id d = 7"
proof -
  have L: "layout_ok LP64" by code_simp
  have st: "store_wf (store_new LP64)" using conf_new_wf [OF L] by (simp add: store_wf_def store_new_def)
  have um: "50 \<le> (255 :: nat)" by simp
  let ?d = "\<lparr>dc_node_id = 0, dc_partition_id = 0, dc_success = False, dc_cbor_encoded_map_len = 0, dc_cbor_data = None\<rparr>"
  have "length (map_bytes REQUEST_NUM_FIELDS (config_map_request_items 1)) \<le> 20"
    "length (config_map_reply_bytes 7 1 True [0xa0]) \<le> 100" by code_simp+
  note short = this
  obtain buf' k where req: "config_map_request_encode slice_cbor2 1 (replicate 20 0) = (buf', Ok k)"
    "take k buf' = map_bytes REQUEST_NUM_FIELDS (config_map_request_items 1) @ []"
    using config_map_request_encode_eq [OF slice_cbor2_ok, of 1 "replicate 20 0"] short(1)
    by (simp add: encoded_def put_def)
  have p: "store_partition (store_new LP64) System = Some (conf_new LP64)"
    by (simp add: store_partition_def store_new_def get_at_def)
  have "num_keys (conf_new LP64) = Some 0" using num_keys_eq conf_new_wf [OF L] conf_new_keys by simp
  then have enc: "conf_encode_map putf slice_cbor2 255 (conf_new LP64) s = Some (putf [0xa0] s, Ok ())" for putf s
    by (simp add: conf_encode_map_def stored_keys_def put_head_eq [OF slice_cbor2_ok] shortest_head_def MAP_def)
  have src: "store_source slice_cbor2 255 (store_new LP64) System [] = Some ([], Err (MapTooSmall 1))"
    "\<forall>out. length out = 1 \<longrightarrow> (\<exists>len. store_source slice_cbor2 255 (store_new LP64) System out = Some ([0xa0], Ok len))"
    using p by (auto simp: store_source_def cbor_map_def enc buf_put_def copy_at_def put_def length_Suc_conv)
  have asked: "config_map_request_decode 255 (take k buf') 0 = Some (1, Ok ())"
    unfolding req(2) by (rule config_map_request_decode_encoded) simp
  obtain out' r where reply: "config_map_reply slice_cbor2 255 7 1 (store_source slice_cbor2 255 (store_new LP64))
      (Some (System, 1)) (replicate 100 0) = Some (out', r)" "r \<noteq> None"
    using config_map_reply_eq [OF slice_cbor2_ok, of "Some (System, 1)" "[0xa0]"
        "store_source slice_cbor2 255 (store_new LP64)" 255 7 1 "replicate 100 0"] src(2) short(2) by auto
  then obtain n where handled: "config_map_handle slice_cbor2 255 (take k buf') 7
      (store_source slice_cbor2 255 (store_new LP64)) (replicate 100 0) = Some (out', Some n)"
    using asked src(1) by (auto simp: config_map_handle_def config_map_partition_def PARTITION_ID_SYS_def)
  show ?thesis
    using req(1) handled config_map_service_delivers [OF slice_cbor2_ok um st req(1) handled, of "[]" ?d] by auto
qed

end
