(* ===== verification/Service_Metrics.thy ===== *)
theory Service_Metrics
  imports Service_Config_Map Cbor_Copy
begin

text \<open>
  The \<open>metrics\<close> service (\<open>service/metrics.rs\<close>): tables of typed fields, grouped into components,
  written as a map of maps and read back by key into the same tables.
\<close>

section \<open>Tables\<close>

definition MAX_KEY_LEN :: nat where "MAX_KEY_LEN = 64"
definition METRICS_VERSION :: u8 where "METRICS_VERSION = 1"
definition METRICS_NUM_FIELDS :: nat where "METRICS_NUM_FIELDS = 4"
definition METRICS_SUFFIX :: bytes where "METRICS_SUFFIX = ascii ''/metrics''"

text \<open>Floats by their bits; keys as the bytes of the string.\<close>

datatype Field = FU8 u8 | FU16 u16 | FU32 u32 | FU64 u64 | FFloat u32 | FDouble u64 | FString

record FieldEntry =
  fe_key :: bytes
  fe_field :: Field

text \<open>\<open>Component\<close> and \<open>ComponentMut\<close>.\<close>

record Component =
  mc_key :: bytes
  mc_fields :: "FieldEntry list"

record MetricsReply =
  mr_version :: u8
  mr_node_id :: u64
  mr_uptime_ms :: u32

definition c_str :: "bytes \<Rightarrow> bytes" where
  "c_str key =
     (case find_index (\<lambda>b. b = 0) key of Some n \<Rightarrow> take n key | None \<Rightarrow> key)"

section \<open>Encoding\<close>

definition string_entries :: "FieldEntry list \<Rightarrow> (CborError, unit) result" where
  "string_entries table =
     (if table \<noteq> [] \<and> fe_field (last table) = FString then Err UnsupportedType
      else if \<exists>e \<in> set table. fe_field e = FString then Err TooFewItems
      else Ok ())"

fun check_components :: "Component list \<Rightarrow> (CborError, unit) result" where
  "check_components [] = Ok ()"
| "check_components (c # cs) =
     (case string_entries (mc_fields c) of Err e \<Rightarrow> Err e | Ok _ \<Rightarrow> check_components cs)"

fun encode_value :: "cbor2 \<Rightarrow> Field \<Rightarrow> MapWriter \<Rightarrow> MapWriter" where
  "encode_value C (FU8 v) w = mw_positive C (ucast v) w"
| "encode_value C (FU16 v) w = mw_positive C (ucast v) w"
| "encode_value C (FU32 v) w = mw_positive C (ucast v) w"
| "encode_value C (FU64 v) w = mw_positive C v w"
| "encode_value C (FFloat v) w = mw_float C v w"
| "encode_value C (FDouble v) w = mw_double C v w"
| "encode_value C FString w = w"

fun encode_fields :: "cbor2 \<Rightarrow> FieldEntry list \<Rightarrow> MapWriter \<Rightarrow> MapWriter" where
  "encode_fields C [] w = w"
| "encode_fields C (e # es) w =
     encode_fields C es (encode_value C (fe_field e) (mw_text C (c_str (fe_key e)) w))"

fun encode_components :: "cbor2 \<Rightarrow> Component list \<Rightarrow> MapWriter \<Rightarrow> MapWriter" where
  "encode_components C [] w = w"
| "encode_components C (c # cs) w =
     (let w = mw_text C (c_str (mc_key c)) w;
          w = mw_map C (length (mc_fields c)) w;
          w = encode_fields C (mc_fields c) w
      in encode_components C cs w)"

definition metrics_body :: "cbor2 \<Rightarrow> MetricsReply \<Rightarrow> Component list \<Rightarrow> MapWriter \<Rightarrow> MapWriter" where
  "metrics_body C reply cs w =
     (let w = mw_uint C (ascii ''version'') (ucast (mr_version reply)) w;
          w = mw_uint C (ascii ''node_id'') (mr_node_id reply) w;
          w = mw_uint C (ascii ''uptime_ms'') (ucast (mr_uptime_ms reply)) w;
          w = mw_text C (ascii ''data'') w;
          w = mw_map C (length cs) w
      in encode_components C cs w)"

definition metrics_encode :: "cbor2 \<Rightarrow> MetricsReply \<Rightarrow> Component list \<Rightarrow> bytes \<Rightarrow> bytes \<times> (CborError, nat) result" where
  "metrics_encode C reply cs buf =
     (case check_components cs of
        Err e \<Rightarrow> (buf, Err e)
      | Ok _ \<Rightarrow> encode_map C buf METRICS_NUM_FIELDS (metrics_body C reply cs))"

definition metrics_handle :: "cbor2 \<Rightarrow> u64 \<Rightarrow> u32 \<Rightarrow> Component list \<Rightarrow> bytes \<Rightarrow> bytes \<times> nat option" where
  "metrics_handle C node_id uptime_ms cs out =
     (case metrics_encode C \<lparr>mr_version = METRICS_VERSION, mr_node_id = node_id, mr_uptime_ms = uptime_ms\<rparr> cs out of
        (out, Ok n) \<Rightarrow> (out, Some n)
      | (out, Err e) \<Rightarrow> (out, None))"

section \<open>Decoding the fields of a component\<close>

text \<open>The \<open>match\<close> on the entry's field: the field after it, and whether the type did not match.\<close>

definition take_field :: "Value \<Rightarrow> Field \<Rightarrow> (Field \<times> bool) option" where
  "take_field v f =
     (let uint = is_unsigned_integer v;
          set = (\<lambda>ok make. if ok then do { n \<leftarrow> value_extract v; Some (make n, False) } else Some (f, True)) in
      case f of
        FU8 d \<Rightarrow> set uint (\<lambda>n. FU8 (ucast n))
      | FU16 d \<Rightarrow> set uint (\<lambda>n. FU16 (ucast n))
      | FU32 d \<Rightarrow> set uint (\<lambda>n. FU32 (ucast n))
      | FU64 d \<Rightarrow> set uint FU64
      | FFloat d \<Rightarrow> set (is_float v) (\<lambda>n. FFloat (ucast n))
      | FDouble d \<Rightarrow> set (is_double v) FDouble
      | FString \<Rightarrow> Some (FString, False))"

text \<open>One round of the loop: the entries, and the value, \<open>unknown_key\<close> and \<open>type_mismatch\<close> after it.\<close>

definition field_round ::
  "nat \<Rightarrow> Value \<Rightarrow> FieldEntry list \<Rightarrow> bool \<Rightarrow> bool \<Rightarrow>
     (FieldEntry list \<times> (CborError, Value \<times> bool \<times> bool) result) option" where
  "field_round um value table unknown mismatch =
     (if \<not> is_text_string value then Some (table, Err IllegalType)
      else attempt (string_length um value) table (\<lambda>key_len.
        if MAX_KEY_LEN - 1 < key_len then
          attempt_step (advance um value) table (\<lambda>value _.
          attempt_step (advance um value) table (\<lambda>value _.
          Some (table, Ok (value, unknown, mismatch))))
        else do {
          (key, copied) \<leftarrow> copy_string um value key_len copy_tmp (replicate MAX_KEY_LEN 0);
          attempt (Some copied) table (\<lambda>copied.
          if \<not> cp_all copied then Some (table, Err OutOfMemory)
          else do {
            key \<leftarrow> range_at key 0 (case find_index (\<lambda>b. b = 0) key of Some n \<Rightarrow> n | None \<Rightarrow> key_len);
            attempt_step (advance um value) table (\<lambda>value _.
              (case find_index (\<lambda>e. c_str (fe_key e) = key) table of
                 Some i \<Rightarrow> do {
                   e \<leftarrow> get_at table i;
                   (f, mm) \<leftarrow> take_field value (fe_field e);
                   let table = table[i := e\<lparr>fe_field := f\<rparr>];
                   attempt_step (advance um value) table (\<lambda>value _.
                   Some (table, Ok (value, unknown, mismatch \<or> mm))) }
               | None \<Rightarrow>
                   attempt_step (advance um value) table (\<lambda>value _.
                   Some (table, Ok (value, True, mismatch))))) }) }))"

partial_function (option) fields_loop ::
  "nat \<Rightarrow> Value \<Rightarrow> FieldEntry list \<Rightarrow> bool \<Rightarrow> bool \<Rightarrow> (FieldEntry list \<times> (CborError, unit) result) option" where
  "fields_loop um value table unknown mismatch =
     (if at_end value then
        Some (table, if mismatch then Err ImproperValue else if unknown then Err UnsupportedType else Ok ())
      else Option.bind (field_round um value table unknown mismatch) (\<lambda>p.
        case snd p of
          Err e \<Rightarrow> Some (fst p, Err e)
        | Ok s \<Rightarrow> fields_loop um (fst s) (fst p) (fst (snd s)) (snd (snd s))))"

definition decode_fields ::
  "nat \<Rightarrow> Value \<Rightarrow> FieldEntry list \<Rightarrow> (FieldEntry list \<times> (CborError, unit) result) option" where
  "decode_fields um value table = fields_loop um value table False False"

section \<open>Decoding a reply\<close>

text \<open>\<open>key_value_uint\<close>, then the assignment of what it returns.\<close>

definition key_value_uint ::
  "nat \<Rightarrow> Value \<Rightarrow> 's \<Rightarrow> (u64 \<Rightarrow> 's \<Rightarrow> 's) \<Rightarrow> (Value \<Rightarrow> 's \<Rightarrow> ('s \<times> (CborError, unit) result) option) \<Rightarrow>
     ('s \<times> (CborError, unit) result) option" where
  "key_value_uint um value s upd k =
     attempt_step (skip_key um value) s (\<lambda>value _.
     if \<not> is_unsigned_integer value then Some (s, Err IllegalType)
     else do {
       v \<leftarrow> value_extract value;
       attempt_step (advance um value) s (\<lambda>value _. k value (upd v s)) })"

definition keep_component ::
  "Component \<Rightarrow> (Component list \<times> (CborError, unit) result) option \<Rightarrow>
     (Component list \<times> (CborError, unit) result) option" where
  "keep_component c m = do { (cs, r) \<leftarrow> m; Some (c # cs, r) }"

fun decode_components ::
  "nat \<Rightarrow> Value \<Rightarrow> Component list \<Rightarrow> (Component list \<times> (CborError, unit) result) option" where
  "decode_components um data [] = Some ([], Ok ())"
| "decode_components um data (c # cs) =
     attempt (map_find_value um data (c_str (mc_key c))) (c # cs) (\<lambda>comp.
     if \<not> is_valid comp then keep_component c (decode_components um data cs)
     else if \<not> is_map comp then Some (c # cs, Err IllegalType)
     else attempt (enter_container comp) (c # cs) (\<lambda>field. do {
       (fields, r) \<leftarrow> decode_fields um field (mc_fields c);
       let c = c\<lparr>mc_fields := fields\<rparr>;
       (if r = Ok () \<or> r = Err UnsupportedType then keep_component c (decode_components um data cs)
        else Some (c # cs, r)) }))"

definition metrics_decode ::
  "nat \<Rightarrow> bytes \<Rightarrow> MetricsReply \<Rightarrow> Component list \<Rightarrow>
     ((MetricsReply \<times> Component list) \<times> (CborError, unit) result) option" where
  "metrics_decode um buf reply cs =
     attempt (enter_map um buf METRICS_NUM_FIELDS) (reply, cs) (\<lambda>(_, value).
     key_value_uint um value (reply, cs) (\<lambda>n (r, cs). (r\<lparr>mr_version := ucast n\<rparr>, cs)) (\<lambda>value s.
     key_value_uint um value s (\<lambda>n (r, cs). (r\<lparr>mr_node_id := n\<rparr>, cs)) (\<lambda>value s.
     key_value_uint um value s (\<lambda>n (r, cs). (r\<lparr>mr_uptime_ms := ucast n\<rparr>, cs)) (\<lambda>value s.
     if \<not> is_text_string value then Some (s, Err IllegalType)
     else attempt_step (advance um value) s (\<lambda>data _.
       if \<not> is_map data then Some (s, Err IllegalType)
       else do {
         (cs, r) \<leftarrow> decode_components um data (snd s);
         Some ((fst s, cs), r) })))))"

section \<open>Decoding never panics\<close>

lemma attempt_live:
  assumes "live v" "\<And>w. v_pos v < v_pos w \<Longrightarrow> reaches v w \<Longrightarrow> yields (k w ()) Q" "\<And>e. Q (s, Err e)"
  shows "yields (attempt_step (advance um v) s k) Q"
proof -
  obtain w q where "advance um v = Some (w, q)" "q = Ok () \<Longrightarrow> v_pos v < v_pos w \<and> reaches v w"
    using advance_passes [OF assms(1)] by blast
  then show ?thesis using assms(2,3) by (cases q) (auto simp: attempt_step_def yields_def)
qed

lemma string_length_total: "on_head v \<Longrightarrow> \<exists>r. string_length um v = Some r"
  using extract_readable [of v] on_head_readable(1) [of v] by (auto simp: string_length_def)

lemma take_field_total: "sound v \<Longrightarrow> \<exists>f mm. take_field v d = Some (f, mm)"
proof -
  assume v: "sound v"
  have "\<exists>n. value_extract v = Some n" if "is_unsigned_integer v \<or> is_float v \<or> is_double v"
    by (rule extract_sound [OF v]) (use that in \<open>auto simp: is_unsigned_integer_def is_float_def is_double_def cbor_consts\<close>)
  then have "\<exists>p. take_field v d = Some p" 
    by (cases d) (auto simp: take_field_def Let_def simp del: split_paired_Ex)
  then show ?thesis by (metis surj_pair)
qed

definition round_ok :: "Value \<Rightarrow> FieldEntry list \<times> (CborError, Value \<times> bool \<times> bool) result \<Rightarrow> bool" where
  "round_ok v p \<longleftrightarrow> (\<forall>s. snd p = Ok s \<longrightarrow> v_pos v < v_pos (fst s) \<and> reaches v (fst s))"

lemma round_next:
  assumes v: "v_pos v < v_pos w" "reaches v w"
  shows "yields (attempt_step (advance um w) es (\<lambda>u _. Some (es, Ok (u, a, b)))) (round_ok v)"
  by (rule attempt_live) (use v in \<open>auto simp: reaches_def round_ok_def intro!: yields_Some\<close>)

lemma field_round_total:
  assumes v: "live v"
  shows "yields (field_round um v es unknown mismatch) (round_ok v)"
proof (cases "is_text_string v")
  case False
  then show ?thesis by (simp add: field_round_def yields_def round_ok_def)
next
  case True
  then have o: "on_head v" using live_sound [OF v] by (auto simp: sound_def is_text_string_def cbor_consts)
  obtain n where n: "string_length um v = Some n" using string_length_total [OF o] by blast
  show ?thesis
  proof (cases n)
    case (Err e)
    then show ?thesis using True n by (simp add: field_round_def attempt_def yields_def round_ok_def)
  next
    case (Ok len)
    show ?thesis
    proof (cases "MAX_KEY_LEN - 1 < len")
      case long: True
      have "yields (attempt_step (advance um v) es (\<lambda>w _. attempt_step (advance um w) es (\<lambda>u _.
          Some (es, Ok (u, unknown, mismatch))))) (round_ok v)"
        by (rule attempt_live [OF v], rule round_next) (simp_all add: round_ok_def)
      then show ?thesis using True n Ok long by (simp add: field_round_def attempt_def)
    next
      case False
      then have "len \<le> MAX_KEY_LEN" by simp
      then obtain key copied where c: "copy_string um v len copy_tmp (replicate MAX_KEY_LEN 0) = Some (key, copied)"
        "length key = MAX_KEY_LEN" using copy_string_tmp [OF o] by blast
      let ?stop = "case find_index (\<lambda>b. b = 0) key of Some n \<Rightarrow> n | None \<Rightarrow> len"
      have "?stop \<le> length key"
        using c(2) \<open>len \<le> _\<close> find_index_Some(1) [of _ key] by (auto split: option.split intro: less_imp_le)
      then obtain key' where key: "range_at key 0 ?stop = Some key'" by (simp add: range_at_def)
      have step: "yields (attempt_step (advance um v) es (\<lambda>w _.
          (case find_index (\<lambda>e. c_str (fe_key e) = key') es of
             Some i \<Rightarrow> do {
               e \<leftarrow> get_at es i;
               (f, mm) \<leftarrow> take_field w (fe_field e);
               let es = es[i := e\<lparr>fe_field := f\<rparr>];
               attempt_step (advance um w) es (\<lambda>u _. Some (es, Ok (u, unknown, mismatch \<or> mm))) }
           | None \<Rightarrow> attempt_step (advance um w) es (\<lambda>u _. Some (es, Ok (u, True, mismatch)))))) (round_ok v)"
      proof (rule attempt_live [OF v])
        fix w assume w: "v_pos v < v_pos w" "reaches v w"
        show "yields (case find_index (\<lambda>e. c_str (fe_key e) = key') es of
             Some i \<Rightarrow> do {
               e \<leftarrow> get_at es i;
               (f, mm) \<leftarrow> take_field w (fe_field e);
               let es = es[i := e\<lparr>fe_field := f\<rparr>];
               attempt_step (advance um w) es (\<lambda>u _. Some (es, Ok (u, unknown, mismatch \<or> mm))) }
           | None \<Rightarrow> attempt_step (advance um w) es (\<lambda>u _. Some (es, Ok (u, True, mismatch)))) (round_ok v)"
        proof (cases "find_index (\<lambda>e. c_str (fe_key e) = key') es")
          case None
          then show ?thesis using round_next [OF w] by simp
        next
          case (Some i)
          then have i: "i < length es" by (rule find_index_Some(1))
          have "sound w" using w(2) live_sound by (simp add: reaches_def)
          then obtain f mm where f: "take_field w (fe_field (es ! i)) = Some (f, mm)" using take_field_total by blast
          show ?thesis using Some i f round_next [OF w] by (simp add: get_at_def Let_def)
        qed
      qed (simp add: round_ok_def)
      show ?thesis
      proof (cases copied)
        case (Err e)
        then show ?thesis using True n Ok False c(1) by (simp add: field_round_def attempt_def yields_def round_ok_def)
      next
        case (Ok x)
        show ?thesis
        proof (cases "cp_all x")
          case True
          then show ?thesis
            using \<open>is_text_string v\<close> n \<open>n = Ok len\<close> False c(1) Ok key step
            by (simp add: field_round_def attempt_def)
        qed (use True n \<open>n = Ok len\<close> False c(1) Ok in \<open>simp add: field_round_def attempt_def yields_def round_ok_def\<close>)
      qed
    qed
  qed
qed

lemma fields_loop_total: "live v \<Longrightarrow> \<exists>es' r. fields_loop um v es unknown mismatch = Some (es', r)"
proof (induction "length (v_buf v) - v_pos v" arbitrary: v es unknown mismatch rule: less_induct)
  case less
  show ?case
  proof (cases "at_end v")
    case True
    then show ?thesis by (subst fields_loop.simps) simp
  next
    case False
    then have pos: "v_pos v < length (v_buf v)" using live_not_end [OF less.prems] by (simp add: at_end_def)
    obtain p where p: "field_round um v es unknown mismatch = Some p" "round_ok v p"
      using field_round_total [OF less.prems] unfolding yields_def by blast
    show ?thesis
    proof (cases "snd p")
      case (Err e)
      then show ?thesis using False p(1) by (subst fields_loop.simps) simp
    next
      case (Ok s)
      then have s: "v_pos v < v_pos (fst s)" "reaches v (fst s)" using p(2) by (simp_all add: round_ok_def)
      then show ?thesis using False p(1) Ok less.hyps [of "fst s"] pos
        by (subst fields_loop.simps) (simp add: reaches_def)
    qed
  qed
qed

lemma key_value_uint_total:
  assumes v: "owed v (Suc (Suc n))" and k: "\<And>w s. owed w n \<Longrightarrow> \<exists>p. k w s = Some p"
  shows "\<exists>p. key_value_uint um v s upd k = Some p"
  unfolding key_value_uint_def
proof (rule attempt_key_total [OF v])
  fix w :: Value and x :: unit
  assume w: "owed w (Suc n)"
  obtain y where y: "value_extract w = Some y"
    using extract_readable on_head_readable(1) [OF owed_head [OF w]] by blast
  have "\<exists>p. attempt_step (advance um w) s (\<lambda>value _. k value (upd y s)) = Some p"
    by (rule attempt_advance_total [OF w]) (rule k)
  with y show "\<exists>p. (if \<not> is_unsigned_integer w then Some (s, Err IllegalType)
      else do { v \<leftarrow> value_extract w; attempt_step (advance um w) s (\<lambda>value _. k value (upd v s)) }) = Some p"
    by simp
qed

lemma decode_components_total: "sound data \<Longrightarrow> \<exists>cs' r. decode_components um data cs = Some (cs', r)"
proof (induction cs)
  case (Cons c cs)
  then obtain cs' r where IH: "decode_components um data cs = Some (cs', r)" by blast
  obtain f where f: "map_find_value um data (c_str (mc_key c)) = Some f" "\<And>w. f = Ok w \<Longrightarrow> found_ok data w"
    using map_find_value_total [OF Cons.prems] by blast
  show ?case
  proof (cases "\<exists>w. f = Ok w \<and> is_valid w \<and> is_map w")
    case False
    then show ?thesis using f(1) IH by (cases f) (auto simp: attempt_def keep_component_def)
  next
    case True
    then obtain w where w: "f = Ok w" "is_valid w" "is_map w" by blast
    then have "on_head w" using f(2) by (auto simp: found_ok_def sound_def is_map_def cbor_consts)
    then obtain e where e: "enter_container w = Some e" "\<And>u. e = Ok u \<Longrightarrow> within w u"
      using enter_container_total by blast
    show ?thesis
    proof (cases e)
      case (Ok u)
      then obtain es q where "decode_fields um u (mc_fields c) = Some (es, q)"
        using e(2) fields_loop_total unfolding decode_fields_def within_def by blast
      then show ?thesis using f(1) w e(1) Ok IH by (simp add: attempt_def keep_component_def Let_def)
    qed (use f(1) w e(1) in \<open>simp add: attempt_def\<close>)
  qed
qed simp

lemma metrics_decode_total: "\<exists>s r. metrics_decode um buf reply cs = Some (s, r)"
proof -
  have last: "\<exists>p. (if \<not> is_text_string v then Some (s, Err IllegalType)
     else attempt_step (advance um v) s (\<lambda>data _.
       if \<not> is_map data then Some (s, Err IllegalType)
       else do { (cs, r) \<leftarrow> decode_components um data (snd s); Some ((fst s, cs), r) })) = Some p"
    if "owed v 2" for v and s :: "MetricsReply \<times> Component list"
  proof (cases "is_text_string v")
    case True
    have k: "\<exists>p. (if \<not> is_map w then Some (s, Err IllegalType)
       else do { (cs, r) \<leftarrow> decode_components um w (snd s); Some ((fst s, cs), r) }) = Some p" if "owed w 1" for w
      using decode_components_total [of w um "snd s"] live_sound that by (auto simp: owed_def)
    have "\<exists>p. attempt_step (advance um v) s (\<lambda>data _. if \<not> is_map data then Some (s, Err IllegalType)
       else do { (cs, r) \<leftarrow> decode_components um data (snd s); Some ((fst s, cs), r) }) = Some p"
      by (rule attempt_advance_total [of v 1]) (use that k in \<open>simp_all add: numeral_2_eq_2\<close>)
    then show ?thesis using True by simp
  qed simp
  have "\<exists>p. metrics_decode um buf reply cs = Some p"
    unfolding metrics_decode_def
    by (rule attempt_map_total, simp only: prod.case, rule key_value_uint_total [where n = 6],
        simp add: METRICS_NUM_FIELDS_def, rule key_value_uint_total [where n = 4], simp,
        rule key_value_uint_total [where n = 2], simp, rule last)
  then show ?thesis by simp
qed

text \<open>Property C33. No decoder of a service body panics, and each ends: whatever bytes arrive, the
  decoders of sys_info, power_info, config_map (request and reply) and metrics return, and so do the
  map lookups and the loop over the fields of a component that the metrics decoder is made of.\<close>

theorem service_decoders_never_panic:
  "(\<exists>d r. sys_info_decode um buf si = Some (d, r)) \<and>
   (\<exists>d r. power_info_decode um buf pi = Some (d, r)) \<and>
   (\<exists>n r. config_map_request_decode um buf pid = Some (n, r)) \<and>
   (\<exists>d r. config_map_reply_decode um buf cr = Some (d, r)) \<and>
   (\<exists>s r. metrics_decode um buf mr cs = Some (s, r))"
  using sys_info_decode_total power_info_decode_total config_map_request_decode_total
    config_map_reply_decode_total metrics_decode_total by blast

end
