(* ===== verification/Pubsub.thy ===== *)
theory Pubsub
  imports Le Util Bounded_Array
begin

text \<open>
  Publications and subscriptions (\<open>pubsub.rs\<close>). The list of subscriptions is refined to a list of
  topics with their callbacks; every operation is an operation on that list, and delivery is
  wildcard matching over it.
\<close>

section \<open>Publications\<close>

definition PUBSUB_PORT :: u16 where "PUBSUB_PORT = 4321"
definition PUBSUB_HEADER_LEN :: nat where "PUBSUB_HEADER_LEN = 5"
definition TOPIC_MAX_LEN :: nat where "TOPIC_MAX_LEN = 255"
definition COMMON_VERSION :: u8 where "COMMON_VERSION = 2"
definition MAX_MESSAGE_LEN :: nat where "MAX_MESSAGE_LEN = 1452"

record Publication =
  pb_header_type :: u8
  pb_flags :: u8
  pb_topic :: bytes
  pb_kind :: u8
  pb_version :: u8
  pb_data :: bytes

definition pubsub_encode ::
  "bytes \<Rightarrow> bytes \<Rightarrow> u8 \<Rightarrow> u8 \<Rightarrow> bytes \<Rightarrow> (bytes \<times> (BmWireError, nat) result) option" where
  "pubsub_encode buf topic kind version data =
     (if topic = [] \<or> TOPIC_MAX_LEN \<le> length topic then Some (buf, Err Invalid)
      else
        let len = PUBSUB_HEADER_LEN + length topic + length data in
        if length buf < len then Some (buf, Err Truncated)
        else do {
          buf \<leftarrow> copy_at buf 0 [0, 0, of_nat (length topic), kind, version];
          buf \<leftarrow> copy_at buf PUBSUB_HEADER_LEN topic;
          buf \<leftarrow> copy_at buf (PUBSUB_HEADER_LEN + length topic) data;
          Some (buf, Ok len) })"

fun pubsub_decode :: "bytes \<Rightarrow> (BmWireError, Publication) result" where
  "pubsub_decode (header_type # flags # topic_len # kind # version # rest) =
     (if length rest < unat topic_len then Err Truncated
      else Ok \<lparr>pb_header_type = header_type, pb_flags = flags, pb_topic = take (unat topic_len) rest,
             pb_kind = kind, pb_version = version, pb_data = drop (unat topic_len) rest\<rparr>)"
| "pubsub_decode payload = Err Truncated"

section \<open>Subscriptions\<close>

datatype SubscriptionError = EmptyTopic | TopicTooLong | Full | NotSubscribed | NoSuchSubscriber

datatype Subscriber = Application | Service | Reply

definition CALLBACKS :: nat where "CALLBACKS = 4"

record SubscriptionSlot =
  ss_topic :: bytes
  ss_len :: nat
  ss_callbacks :: "Subscriber list"
  ss_callbacks_len :: nat

record Subscriptions =
  sub_len :: nat
  sub_entries :: "SubscriptionSlot list"

text \<open>\<open>topic_cap\<close> is the parameter \<open>TOPIC\<close> of the type, the length of a slot's topic array.\<close>

definition slot_empty :: "nat \<Rightarrow> SubscriptionSlot" where
  "slot_empty topic_cap = \<lparr>ss_topic = replicate topic_cap 0, ss_len = 0,
     ss_callbacks = replicate CALLBACKS Application, ss_callbacks_len = 0\<rparr>"

definition slot_topic :: "SubscriptionSlot \<Rightarrow> bytes option" where
  "slot_topic e = range_at (ss_topic e) 0 (ss_len e)"

definition slot_callbacks :: "SubscriptionSlot \<Rightarrow> Subscriber list option" where
  "slot_callbacks e = range_at (ss_callbacks e) 0 (ss_callbacks_len e)"

definition subscriptions_new :: "nat \<Rightarrow> nat \<Rightarrow> Subscriptions" where
  "subscriptions_new n topic_cap = \<lparr>sub_len = 0, sub_entries = replicate n (slot_empty topic_cap)\<rparr>"

definition sub_is_empty :: "Subscriptions \<Rightarrow> bool" where "sub_is_empty s \<longleftrightarrow> sub_len s = 0"

text \<open>\<open>those\<close> collects what an iterator yields.\<close>

definition sub_iter :: "Subscriptions \<Rightarrow> bytes list option" where
  "sub_iter s = do { es \<leftarrow> range_at (sub_entries s) 0 (sub_len s); those (map slot_topic es) }"

definition sub_position :: "Subscriptions \<Rightarrow> bytes \<Rightarrow> nat option option" where
  "sub_position s topic = do { topics \<leftarrow> sub_iter s; Some (find_index (\<lambda>held. held = topic) topics) }"

definition sub_contains :: "Subscriptions \<Rightarrow> bytes \<Rightarrow> bool option" where
  "sub_contains s topic = do { i \<leftarrow> sub_position s topic; Some (i \<noteq> None) }"

definition sub_callbacks :: "Subscriptions \<Rightarrow> bytes \<Rightarrow> Subscriber list option option" where
  "sub_callbacks s topic = do {
     i \<leftarrow> sub_position s topic;
     (case i of
        None \<Rightarrow> Some None
      | Some i \<Rightarrow> do { e \<leftarrow> get_at (sub_entries s) i; cs \<leftarrow> slot_callbacks e; Some (Some cs) }) }"

definition check_topic :: "bytes \<Rightarrow> (SubscriptionError, unit) result" where
  "check_topic topic =
     (if topic = [] then Err EmptyTopic
      else if TOPIC_MAX_LEN \<le> length topic then Err TopicTooLong
      else Ok ())"

text \<open>A topic that is not held yet takes the next slot.\<close>

definition sub_append :: "bytes \<Rightarrow> Subscriber \<Rightarrow> Subscriptions \<Rightarrow> Subscriptions option" where
  "sub_append topic subscriber s = do {
     e \<leftarrow> get_at (sub_entries s) (sub_len s);
     held \<leftarrow> copy_at (ss_topic e) 0 topic;
     cs \<leftarrow> set_at (ss_callbacks e) 0 subscriber;
     es \<leftarrow> set_at (sub_entries s) (sub_len s)
       \<lparr>ss_topic = held, ss_len = length topic, ss_callbacks = cs, ss_callbacks_len = 1\<rparr>;
     Some (s\<lparr>sub_entries := es, sub_len := sub_len s + 1\<rparr>) }"

definition subscribe_as ::
  "nat \<Rightarrow> bytes \<Rightarrow> Subscriber \<Rightarrow> Subscriptions \<Rightarrow> (Subscriptions \<times> (SubscriptionError, unit) result) option" where
  "subscribe_as topic_cap topic subscriber s =
     (case check_topic topic of
        Err e \<Rightarrow> Some (s, Err e)
      | Ok _ \<Rightarrow> do {
          i \<leftarrow> sub_position s topic;
          (case i of
             Some index \<Rightarrow> do {
               e \<leftarrow> get_at (sub_entries s) index;
               head \<leftarrow> get_at (ss_callbacks e) 0;
               if head = subscriber then Some (s, Ok ())
               else if ss_callbacks_len e = CALLBACKS then Some (s, Err Full)
               else do {
                 cs \<leftarrow> set_at (ss_callbacks e) (ss_callbacks_len e) subscriber;
                 es \<leftarrow> set_at (sub_entries s) index (e\<lparr>ss_callbacks := cs, ss_callbacks_len := ss_callbacks_len e + 1\<rparr>);
                 Some (s\<lparr>sub_entries := es\<rparr>, Ok ()) } }
           | None \<Rightarrow>
               if sub_len s = length (sub_entries s) \<or> topic_cap < length topic then Some (s, Err Full)
               else do { s \<leftarrow> sub_append topic subscriber s; Some (s, Ok ()) }) })"

definition subscribe ::
  "nat \<Rightarrow> bytes \<Rightarrow> Subscriptions \<Rightarrow> (Subscriptions \<times> (SubscriptionError, unit) result) option" where
  "subscribe topic_cap topic s = subscribe_as topic_cap topic Application s"

text \<open>Closing the gap a topic leaves.\<close>

definition sub_delete :: "nat \<Rightarrow> Subscriptions \<Rightarrow> Subscriptions option" where
  "sub_delete index s = do {
     es \<leftarrow> rotate_range (sub_entries s) index (sub_len s);
     Some (s\<lparr>sub_entries := es, sub_len := sub_len s - 1\<rparr>) }"

definition unsubscribe_as ::
  "bytes \<Rightarrow> Subscriber \<Rightarrow> Subscriptions \<Rightarrow> (Subscriptions \<times> (SubscriptionError, unit) result) option" where
  "unsubscribe_as topic subscriber s =
     (case check_topic topic of
        Err e \<Rightarrow> Some (s, Err e)
      | Ok _ \<Rightarrow> do {
          i \<leftarrow> sub_position s topic;
          (case i of
             None \<Rightarrow> Some (s, Err NotSubscribed)
           | Some index \<Rightarrow> do {
               e \<leftarrow> get_at (sub_entries s) index;
               held \<leftarrow> slot_callbacks e;
               (case find_index (\<lambda>c. c = subscriber) held of
                  None \<Rightarrow> Some (s, Err NoSuchSubscriber)
                | Some at \<Rightarrow> do {
                    cs \<leftarrow> rotate_range (ss_callbacks e) at (ss_callbacks_len e);
                    let e = e\<lparr>ss_callbacks := cs, ss_callbacks_len := ss_callbacks_len e - 1\<rparr>;
                    es \<leftarrow> set_at (sub_entries s) index e;
                    let s = s\<lparr>sub_entries := es\<rparr>;
                    s \<leftarrow> (if ss_callbacks_len e = 0 then sub_delete index s else Some s);
                    Some (s, Ok ()) }) }) })"

definition unsubscribe :: "bytes \<Rightarrow> Subscriptions \<Rightarrow> (Subscriptions \<times> (SubscriptionError, unit) result) option" where
  "unsubscribe topic s = unsubscribe_as topic Application s"

text \<open>The filter closure on each entry, then the pair of its topic and callbacks.\<close>

definition match_entry :: "bytes \<Rightarrow> SubscriptionSlot \<Rightarrow> (bytes \<times> Subscriber list) list option" where
  "match_entry topic e = do {
     held \<leftarrow> slot_topic e;
     m \<leftarrow> bm_wildcard_match topic held;
     if m then do { cs \<leftarrow> slot_callbacks e; Some [(held, cs)] } else Some [] }"

definition matching_callbacks :: "Subscriptions \<Rightarrow> bytes \<Rightarrow> (bytes \<times> Subscriber list) list option" where
  "matching_callbacks s topic = do {
     es \<leftarrow> range_at (sub_entries s) 0 (sub_len s);
     ms \<leftarrow> those (map (match_entry topic) es);
     Some (concat ms) }"

definition sub_matching :: "Subscriptions \<Rightarrow> bytes \<Rightarrow> bytes list option" where
  "sub_matching s topic = do { ms \<leftarrow> matching_callbacks s topic; Some (map fst ms) }"

definition any_match :: "Subscriptions \<Rightarrow> bytes \<Rightarrow> bool option" where
  "any_match s topic = do { ms \<leftarrow> sub_matching s topic; Some (ms \<noteq> []) }"

section \<open>The list behind the array\<close>

definition slot_abs :: "SubscriptionSlot \<Rightarrow> bytes \<times> Subscriber list" where
  "slot_abs e = (take (ss_len e) (ss_topic e), take (ss_callbacks_len e) (ss_callbacks e))"

definition sub_abs :: "Subscriptions \<Rightarrow> (bytes \<times> Subscriber list) list" where
  "sub_abs s = map slot_abs (take (sub_len s) (sub_entries s))"

definition slot_ok :: "nat \<Rightarrow> SubscriptionSlot \<Rightarrow> bool" where
  "slot_ok cap e \<longleftrightarrow> length (ss_topic e) = cap \<and> ss_len e \<le> cap \<and>
     length (ss_callbacks e) = CALLBACKS \<and> ss_callbacks_len e \<le> CALLBACKS"

text \<open>The shape of the arrays, and the invariant: no topic is held without a callback, except while its
  last callback is being removed.\<close>

definition sub_shape :: "nat \<Rightarrow> Subscriptions \<Rightarrow> bool" where
  "sub_shape cap s \<longleftrightarrow> sub_len s \<le> length (sub_entries s) \<and> (\<forall>e \<in> set (sub_entries s). slot_ok cap e) \<and>
     (\<forall>p \<in> set (sub_abs s). check_topic (fst p) = Ok ()) \<and> distinct (map fst (sub_abs s))"

definition sub_wf :: "nat \<Rightarrow> Subscriptions \<Rightarrow> bool" where
  "sub_wf cap s \<longleftrightarrow> sub_shape cap s \<and> (\<forall>p \<in> set (sub_abs s). snd p \<noteq> [])"

lemma CALLBACKS_pos [simp]: "0 < CALLBACKS"
  by (simp add: CALLBACKS_def)

lemma slot_topic_eq: "slot_ok cap e \<Longrightarrow> slot_topic e = Some (fst (slot_abs e))"
  by (simp add: slot_topic_def slot_ok_def slot_abs_def range_at_def subslice_def)

lemma slot_callbacks_eq: "slot_ok cap e \<Longrightarrow> slot_callbacks e = Some (snd (slot_abs e))"
  by (simp add: slot_callbacks_def slot_ok_def slot_abs_def range_at_def subslice_def)

lemma sub_entry:
  assumes "sub_shape cap s" "i < length (sub_abs s)"
  shows "get_at (sub_entries s) i = Some (sub_entries s ! i)" "slot_ok cap (sub_entries s ! i)"
    "slot_abs (sub_entries s ! i) = sub_abs s ! i"
  using assms by (auto simp: sub_shape_def sub_abs_def get_at_def)

lemma sub_iter_eq:
  assumes "sub_shape cap s"
  shows "sub_iter s = Some (map fst (sub_abs s))"
proof -
  have "those (map slot_topic (take (sub_len s) (sub_entries s))) =
      Some (map (\<lambda>e. fst (slot_abs e)) (take (sub_len s) (sub_entries s)))"
    by (rule those_map) (use assms slot_topic_eq in \<open>auto simp: sub_shape_def dest: in_set_takeD\<close>)
  then show ?thesis using assms
    by (simp add: sub_iter_def sub_shape_def range_at_def subslice_def sub_abs_def comp_def)
qed

lemma sub_position_eq:
  "sub_shape cap s \<Longrightarrow> sub_position s topic = Some (find_index (\<lambda>p. fst p = topic) (sub_abs s))"
  by (simp add: sub_position_def sub_iter_eq find_index_map)

interpretation subs: counted_list "sub_shape cap" sub_abs "\<lambda>s. length (sub_entries s)"
  "\<lambda>s (t, cs). check_topic t = Ok () \<and> length t \<le> cap \<and> length cs = 1 \<and> t \<notin> fst ` set (sub_abs s)"
  "\<lambda>(t, cs). sub_append t (hd cs)" sub_delete for cap
proof unfold_locales
  show "length (sub_abs s) \<le> length (sub_entries s)" if "sub_shape cap s" for s
    using that by (simp add: sub_abs_def sub_shape_def)
  show "\<exists>s'. (case e of (t, cs) \<Rightarrow> sub_append t (hd cs)) s = Some s' \<and> sub_shape cap s' \<and> sub_abs s' = sub_abs s @ [e] \<and>
      length (sub_entries s') = length (sub_entries s)"
    if wf: "sub_shape cap s" and e: "case e of (t, cs) \<Rightarrow> check_topic t = Ok () \<and> length t \<le> cap \<and> length cs = 1 \<and>
        t \<notin> fst ` set (sub_abs s)" and room: "length (sub_abs s) < length (sub_entries s)" for s e
  proof -
    obtain t c where tc: "e = (t, [c])" "check_topic t = Ok ()" "length t \<le> cap" "t \<notin> fst ` set (sub_abs s)"
      using e by (cases e) (auto simp: length_Suc_conv)
    have n: "sub_len s < length (sub_entries s)" using wf room by (simp add: sub_abs_def sub_shape_def)
    let ?e = "sub_entries s ! sub_len s"
    have ok: "slot_ok cap ?e" using wf n by (simp add: sub_shape_def)
    have cs: "ss_callbacks ?e \<noteq> []" using ok by (auto simp: slot_ok_def CALLBACKS_def)
    let ?new = "\<lparr>ss_topic = put (ss_topic ?e) 0 t, ss_len = length t, ss_callbacks = (ss_callbacks ?e)[0 := c],
        ss_callbacks_len = 1\<rparr>"
    let ?s = "s\<lparr>sub_entries := (sub_entries s)[sub_len s := ?new], sub_len := sub_len s + 1\<rparr>"
    have "sub_append t c s = Some ?s"
      using n ok tc(3) cs by (simp add: sub_append_def get_at_def set_at_def copy_at_def slot_ok_def)
    moreover have abs: "sub_abs ?s = sub_abs s @ [(t, [c])]"
    proof -
      have "slot_abs ?new = (t, [c])" using ok tc(3) cs
        by (simp add: slot_abs_def slot_ok_def put_def take_Suc hd_conv_nth)
      then show ?thesis using append_live [OF n, of ?new] by (simp add: sub_abs_def)
    qed
    moreover have "sub_shape cap ?s"
      unfolding sub_shape_def
    proof (intro conjI)
      show "\<forall>e \<in> set (sub_entries ?s). slot_ok cap e"
        using wf ok tc(3) by (auto simp: sub_shape_def slot_ok_def CALLBACKS_def dest!: subsetD [OF set_update_subset_insert])
      show "\<forall>p \<in> set (sub_abs ?s). check_topic (fst p) = Ok ()"
        unfolding abs using wf tc(2) by (auto simp: sub_shape_def)
      show "distinct (map fst (sub_abs ?s))" unfolding abs using wf tc(4) by (auto simp: sub_shape_def)
    qed (use n in simp)
    ultimately show ?thesis using tc(1) by simp
  qed
  show "\<exists>s'. sub_delete i s = Some s' \<and> sub_shape cap s' \<and>
      sub_abs s' = take i (sub_abs s) @ drop (Suc i) (sub_abs s) \<and> length (sub_entries s') = length (sub_entries s)"
    if wf: "sub_shape cap s" and i: "i < length (sub_abs s)" for s i
  proof -
    have n: "sub_len s \<le> length (sub_entries s)" "i < sub_len s" using wf i by (simp_all add: sub_shape_def sub_abs_def)
    obtain es where es: "rotate_range (sub_entries s) i (sub_len s) = Some es" "length es = length (sub_entries s)"
      "take (sub_len s - 1) es = take i (sub_entries s) @ drop (Suc i) (take (sub_len s) (sub_entries s))" using rotate_range_eq [OF n(2,1)] by blast
    note same = rotate_range_set [OF es(1)]
    let ?s = "s\<lparr>sub_entries := es, sub_len := sub_len s - 1\<rparr>"
    have abs: "sub_abs ?s = take i (sub_abs s) @ drop (Suc i) (sub_abs s)"
      using es(3) n(2) by (simp add: sub_abs_def take_map [symmetric] drop_map [symmetric] min_def)
    have sub: "set (sub_abs ?s) \<subseteq> set (sub_abs s)"
      unfolding abs using set_take_subset set_drop_subset by fastforce
    have "sub_shape cap ?s"
      unfolding sub_shape_def
    proof (intro conjI)
      show "distinct (map fst (sub_abs ?s))" unfolding abs
        using wf by (intro distinct_delete) (simp add: sub_shape_def)
      show "\<forall>p \<in> set (sub_abs ?s). check_topic (fst p) = Ok ()"
        using sub wf unfolding sub_shape_def by blast
    qed (use wf es(2) same n in \<open>simp_all add: sub_shape_def\<close>)
    then show ?thesis using es(1,2) abs by (simp add: sub_delete_def)
  qed
qed

section \<open>The operations on the list\<close>

text \<open>What each operation does to the list of topics, with \<open>n\<close> slots for topics of \<open>cap\<close> bytes.\<close>

definition set_callbacks ::
  "bytes \<Rightarrow> Subscriber list \<Rightarrow> (bytes \<times> Subscriber list) list \<Rightarrow> (bytes \<times> Subscriber list) list" where
  "set_callbacks t cs = update_first (\<lambda>p. fst p = t) (\<lambda>p. (t, cs))"

definition subscribe_spec ::
  "nat \<Rightarrow> nat \<Rightarrow> bytes \<Rightarrow> Subscriber \<Rightarrow> (bytes \<times> Subscriber list) list \<Rightarrow>
     (bytes \<times> Subscriber list) list \<times> (SubscriptionError, unit) result" where
  "subscribe_spec n cap t c subs =
     (case check_topic t of
        Err e \<Rightarrow> (subs, Err e)
      | Ok _ \<Rightarrow>
          (case map_of subs t of
             None \<Rightarrow> if length subs = n \<or> cap < length t then (subs, Err Full) else (subs @ [(t, [c])], Ok ())
           | Some cs \<Rightarrow>
               if hd cs = c then (subs, Ok ())
               else if length cs = CALLBACKS then (subs, Err Full)
               else (set_callbacks t (cs @ [c]) subs, Ok ())))"

definition unsubscribe_spec ::
  "bytes \<Rightarrow> Subscriber \<Rightarrow> (bytes \<times> Subscriber list) list \<Rightarrow>
     (bytes \<times> Subscriber list) list \<times> (SubscriptionError, unit) result" where
  "unsubscribe_spec t c subs =
     (case check_topic t of
        Err e \<Rightarrow> (subs, Err e)
      | Ok _ \<Rightarrow>
          (case map_of subs t of
             None \<Rightarrow> (subs, Err NotSubscribed)
           | Some cs \<Rightarrow>
               if c \<notin> set cs then (subs, Err NoSuchSubscriber)
               else if cs = [c] then (remove_first (\<lambda>p. fst p = t) subs, Ok ())
               else (set_callbacks t (remove1 c cs) subs, Ok ())))"

lemma find_index_map_of:
  "map_of subs t = map_option (\<lambda>i. snd (subs ! i)) (find_index (\<lambda>p. fst p = t) subs)"
  by (induction subs) (auto simp: find_index_def Let_def)

lemma remove1_eq: "remove1 c xs = remove_first (\<lambda>x. x = c) xs"
  by (induction xs) auto

lemma slot_abs_length: "slot_ok cap e \<Longrightarrow> length (snd (slot_abs e)) = ss_callbacks_len e"
  by (simp add: slot_ok_def slot_abs_def)

text \<open>Replacing the slot of a topic by one with other callbacks.\<close>

lemma sub_replace:
  assumes wf: "sub_shape cap s" and i: "find_index (\<lambda>p. fst p = t) (sub_abs s) = Some i"
    and e: "slot_ok cap e" "slot_abs e = (t, cs)"
  shows "sub_shape cap (s\<lparr>sub_entries := (sub_entries s)[i := e]\<rparr>)"
    "sub_abs (s\<lparr>sub_entries := (sub_entries s)[i := e]\<rparr>) = set_callbacks t cs (sub_abs s)"
    "map fst (set_callbacks t cs (sub_abs s)) = map fst (sub_abs s)"
proof -
  let ?s = "s\<lparr>sub_entries := (sub_entries s)[i := e]\<rparr>"
  have len: "i < length (sub_abs s)" using find_index_Some(1) [OF i] .
  have upd: "set_callbacks t cs (sub_abs s) = (sub_abs s)[i := (t, cs)]"
    unfolding set_callbacks_def find_index_Some(3) [OF i] by simp
  show abs: "sub_abs ?s = set_callbacks t cs (sub_abs s)" unfolding upd
    using len e(2) wf by (simp add: sub_abs_def sub_shape_def take_update_swap map_update)
  have "fst (sub_abs s ! i) = t" using find_index_Some(2) [OF i] .
  then show topics: "map fst (set_callbacks t cs (sub_abs s)) = map fst (sub_abs s)"
    unfolding upd using len by (metis fst_conv list_update_id map_update)
  have "(\<forall>p \<in> set (sub_abs ?s). check_topic (fst p) = Ok ()) = (\<forall>t \<in> set (map fst (sub_abs ?s)). check_topic t = Ok ())"
    by simp
  then show "sub_shape cap ?s"
    using wf e(1) unfolding sub_shape_def abs topics
    by (auto dest!: subsetD [OF set_update_subset_insert])
qed

lemma set_callbacks_nonempty:
  "cs \<noteq> [] \<Longrightarrow> \<forall>p \<in> set subs. snd p \<noteq> [] \<Longrightarrow> \<forall>p \<in> set (set_callbacks t cs subs). snd p \<noteq> []"
  unfolding set_callbacks_def by (induction subs) auto

lemma subscribe_as_eq:
  assumes wf: "sub_wf cap s"
  shows "\<exists>s' r. subscribe_as cap t c s = Some (s', r) \<and> sub_wf cap s' \<and>
    length (sub_entries s') = length (sub_entries s) \<and>
    (sub_abs s', r) = subscribe_spec (length (sub_entries s)) cap t c (sub_abs s)"
proof (cases "check_topic t")
  case (Err e)
  then show ?thesis using wf by (simp add: subscribe_as_def subscribe_spec_def)
next
  case (Ok u)
  note shape = conjunct1 [OF wf [unfolded sub_wf_def]]
  note pos = sub_position_eq [OF shape, of t]
  show ?thesis
  proof (cases "find_index (\<lambda>p. fst p = t) (sub_abs s)")
    case None
    have len: "length (sub_abs s) = sub_len s" using wf by (simp add: sub_abs_def sub_wf_def sub_shape_def)
    have absent: "t \<notin> fst ` set (sub_abs s)" using None by (auto simp: find_index_None)
    have spec: "subscribe_spec n cap t c (sub_abs s) =
        (if length (sub_abs s) = n \<or> cap < length t then (sub_abs s, Err Full) else (sub_abs s @ [(t, [c])], Ok ()))" for n
      using Ok None by (simp add: subscribe_spec_def find_index_map_of)
    show ?thesis
    proof (cases "sub_len s = length (sub_entries s) \<or> cap < length t")
      case True
      then show ?thesis using Ok None pos wf len by (simp add: subscribe_as_def spec)
    next
      case False
      then have "length (sub_abs s) < length (sub_entries s)" using subs.bounded [OF shape] len by simp
      then obtain s' where "sub_append t c s = Some s'" "sub_shape cap s'" "sub_abs s' = sub_abs s @ [(t, [c])]"
        "length (sub_entries s') = length (sub_entries s)"
        using subs.push_live [OF shape, of "(t, [c])"] Ok absent False by auto
      then show ?thesis using Ok None pos False len wf by (simp add: subscribe_as_def spec sub_wf_def)
    qed
  next
    case (Some i)
    let ?e = "sub_entries s ! i" and ?cs = "snd (sub_abs s ! i)"
    note e = sub_entry [OF shape find_index_Some(1) [OF Some]]
    have t: "sub_abs s ! i = (t, ?cs)" using find_index_Some(2) [OF Some] by (metis prod.collapse)
    have cs: "?cs \<noteq> []"
      using wf find_index_Some(1) [OF Some] nth_mem unfolding sub_wf_def by blast
    have len: "length ?cs = ss_callbacks_len ?e" "?cs = take (ss_callbacks_len ?e) (ss_callbacks ?e)"
      unfolding e(3) [symmetric] using slot_abs_length [OF e(2)] by (simp_all add: slot_abs_def)
    have head: "get_at (ss_callbacks ?e) 0 = Some (hd ?cs)"
      using cs len e(2) by (auto simp: get_at_def slot_ok_def hd_conv_nth)
    have spec: "subscribe_spec n cap t c (sub_abs s) =
        (if hd ?cs = c then (sub_abs s, Ok ())
         else if length ?cs = CALLBACKS then (sub_abs s, Err Full)
         else (set_callbacks t (?cs @ [c]) (sub_abs s), Ok ()))" for n
      using Ok Some by (simp add: subscribe_spec_def find_index_map_of)
    show ?thesis
    proof (cases "hd ?cs = c \<or> length ?cs = CALLBACKS")
      case True
      then show ?thesis using Ok Some pos wf len(1) e(1) head by (auto simp: subscribe_as_def spec)
    next
      case False
      then have room: "ss_callbacks_len ?e < length (ss_callbacks ?e)" using e(2) len(1) by (simp add: slot_ok_def)
      let ?new = "?e\<lparr>ss_callbacks := (ss_callbacks ?e)[ss_callbacks_len ?e := c], ss_callbacks_len := ss_callbacks_len ?e + 1\<rparr>"
      have new: "slot_ok cap ?new" "slot_abs ?new = (t, ?cs @ [c])"
        using e(2,3) t len(2) room append_live [OF room] by (simp_all add: slot_ok_def slot_abs_def)
      have "i < length (sub_entries s)" using e(1) by (simp add: get_at_def split: if_splits)
      then have "subscribe_as cap t c s = Some (s\<lparr>sub_entries := (sub_entries s)[i := ?new]\<rparr>, Ok ())"
        using Ok Some pos False len(1) e(1) head room by (simp add: subscribe_as_def set_at_def)
      then show ?thesis using sub_replace [OF shape Some new] set_callbacks_nonempty [of "?cs @ [c]" "sub_abs s" t] wf False
        by (simp add: spec sub_wf_def)
    qed
  qed
qed

lemma unsubscribe_as_eq:
  assumes wf: "sub_wf cap s"
  shows "\<exists>s' r. unsubscribe_as t c s = Some (s', r) \<and> sub_wf cap s' \<and>
    length (sub_entries s') = length (sub_entries s) \<and> (sub_abs s', r) = unsubscribe_spec t c (sub_abs s)"
proof (cases "check_topic t")
  case (Err e)
  then show ?thesis using wf by (simp add: unsubscribe_as_def unsubscribe_spec_def)
next
  case (Ok u)
  note shape = conjunct1 [OF wf [unfolded sub_wf_def]]
  note pos = sub_position_eq [OF shape, of t]
  show ?thesis
  proof (cases "find_index (\<lambda>p. fst p = t) (sub_abs s)")
    case None
    then show ?thesis using Ok pos wf by (simp add: unsubscribe_as_def unsubscribe_spec_def find_index_map_of)
  next
    case (Some i)
    let ?e = "sub_entries s ! i" and ?cs = "snd (sub_abs s ! i)"
    note i = find_index_Some(1) [OF Some]
    note e = sub_entry [OF shape i]
    have t: "sub_abs s ! i = (t, ?cs)" using find_index_Some(2) [OF Some] by (metis prod.collapse)
    have len: "length ?cs = ss_callbacks_len ?e" "?cs = take (ss_callbacks_len ?e) (ss_callbacks ?e)"
      unfolding e(3) [symmetric] using slot_abs_length [OF e(2)] by (simp_all add: slot_abs_def)
    have held: "slot_callbacks ?e = Some ?cs" using slot_callbacks_eq [OF e(2)] e(3) by simp
    have spec: "unsubscribe_spec t c (sub_abs s) =
        (if c \<notin> set ?cs then (sub_abs s, Err NoSuchSubscriber)
         else if ?cs = [c] then (remove_first (\<lambda>p. fst p = t) (sub_abs s), Ok ())
         else (set_callbacks t (remove1 c ?cs) (sub_abs s), Ok ()))"
      using Ok Some by (simp add: unsubscribe_spec_def find_index_map_of)
    show ?thesis
    proof (cases "find_index (\<lambda>x. x = c) ?cs")
      case None
      then have "c \<notin> set ?cs" by (auto simp: find_index_None)
      then show ?thesis using Ok Some pos wf e(1) held None by (simp add: unsubscribe_as_def spec)
    next
      case at: (Some k)
      have k: "k < ss_callbacks_len ?e" "ss_callbacks_len ?e \<le> length (ss_callbacks ?e)"
        using find_index_Some(1) [OF at] len(1) e(2) by (simp_all add: slot_ok_def)
      have inn: "c \<in> set ?cs" using find_index_Some(1,2) [OF at] nth_mem by metis
      obtain cs where cs: "rotate_range (ss_callbacks ?e) k (ss_callbacks_len ?e) = Some cs"
        "length cs = length (ss_callbacks ?e)"
        "take (ss_callbacks_len ?e - 1) cs = take k (ss_callbacks ?e) @ drop (Suc k) ?cs"
        using rotate_range_eq [OF k] len(2) by auto
      have rest: "take (ss_callbacks_len ?e - 1) cs = remove1 c ?cs"
        unfolding cs(3) remove1_eq find_index_Some(4) [OF at] using k(1) len(2) by (metis min.strict_order_iff take_take)
      let ?new = "?e\<lparr>ss_callbacks := cs, ss_callbacks_len := ss_callbacks_len ?e - 1\<rparr>"
      have new: "slot_ok cap ?new" "slot_abs ?new = (t, remove1 c ?cs)"
      proof -
        show "slot_ok cap ?new" using e(2) cs(2) by (auto simp: slot_ok_def)
        have "take (ss_len ?e) (ss_topic ?e) = t" using e(3) t by (metis fst_conv slot_abs_def)
        then show "slot_abs ?new = (t, remove1 c ?cs)" using rest by (simp add: slot_abs_def)
      qed
      have ix: "i < length (sub_entries s)" using e(1) by (simp add: get_at_def split: if_splits)
      let ?s = "s\<lparr>sub_entries := (sub_entries s)[i := ?new]\<rparr>"
      have step: "unsubscribe_as t c s = Option.bind (if ss_callbacks_len ?new = 0 then sub_delete i ?s else Some ?s) (\<lambda>s. Some (s, Ok ()))"
        using Ok Some pos e(1) held at cs(1) ix by (simp add: unsubscribe_as_def set_at_def)
      have one: "ss_callbacks_len ?e - 1 = 0 \<longleftrightarrow> ?cs = [c]"
        using len(1) inn k(1) by (auto simp: length_Suc_conv Suc_le_eq le_Suc_eq)
      note r = sub_replace [OF shape Some new]
      show ?thesis
      proof (cases "?cs = [c]")
        case False
        have "remove1 c ?cs \<noteq> []" using len(1) False one inn k(1) by (metis diff_is_0_eq length_remove1 list.size(3) le_numeral_extra(3) diff_self_eq_0)
        then show ?thesis using set_callbacks_nonempty [of "remove1 c ?cs" "sub_abs s" t] r step False one wf inn
          by (simp add: spec sub_wf_def)
      next
        case True
        have r': "find_index (\<lambda>p. fst p = t) (sub_abs ?s) = Some i" using Some find_index_map [of "\<lambda>x. x = t" fst] r(2,3)
          by metis
        obtain s' where s': "sub_delete i ?s = Some s'" "sub_shape cap s'"
          "sub_abs s' = remove_first (\<lambda>p. fst p = t) (sub_abs ?s)" "length (sub_entries s') = length (sub_entries s)"
          using subs.delete_first [OF r(1) r'] by auto
        have gone: "remove_first (\<lambda>p. fst p = t) (set_callbacks t ds subs) = remove_first (\<lambda>p. fst p = t) subs" for ds subs
          unfolding set_callbacks_def by (induction subs) auto
        show ?thesis using s' step True one wf inn set_remove_first [of "\<lambda>p. fst p = t" "sub_abs s"]
          unfolding r(2) gone by (auto simp: spec sub_wf_def)
      qed
    qed
  qed
qed

section \<open>Delivery\<close>

text \<open>What \<open>bm_wildcard_match\<close> decides for a publication topic without a star.\<close>

definition topic_matches :: "bytes \<Rightarrow> bytes \<Rightarrow> bool" where
  "topic_matches topic held \<longleftrightarrow>
     glob held topic \<or> (42 \<notin> set held \<and> (\<exists>n \<le> length topic. glob held (take n topic)))"

lemma matching_callbacks_eq:
  assumes wf: "sub_wf cap s" and topic: "42 \<notin> set topic"
  shows "matching_callbacks s topic = Some (filter (\<lambda>(held, cs). topic_matches topic held) (sub_abs s))"
proof -
  let ?g = "\<lambda>e. if topic_matches topic (fst (slot_abs e)) then [slot_abs e] else []"
  have shape: "sub_shape cap s" using wf by (simp add: sub_wf_def)
  have "those (map (match_entry topic) (take (sub_len s) (sub_entries s))) = Some (map ?g (take (sub_len s) (sub_entries s)))"
  proof (rule those_map)
    fix e assume "e \<in> set (take (sub_len s) (sub_entries s))"
    then have "slot_ok cap e" using shape by (auto simp: sub_shape_def dest: in_set_takeD)
    then show "match_entry topic e = Some (?g e)"
      using slot_topic_eq slot_callbacks_eq bm_wildcard_match_spec [OF topic]
      by (simp add: match_entry_def topic_matches_def)
  qed
  moreover have "concat (map ?g es) = filter (\<lambda>(held, cs). topic_matches topic held) (map slot_abs es)" for es
    by (induction es) (auto simp: case_prod_beta)
  ultimately show ?thesis using shape
    by (simp add: matching_callbacks_def sub_shape_def range_at_def subslice_def sub_abs_def)
qed

lemma subscriptions_new_wf: "sub_wf cap (subscriptions_new n cap)" "sub_abs (subscriptions_new n cap) = []"
  by (auto simp: sub_wf_def sub_shape_def subscriptions_new_def sub_abs_def slot_ok_def slot_empty_def)

lemma subscriptions_new_slots: "sub_entries (subscriptions_new n cap) = [] \<longleftrightarrow> n = 0"
  by (simp add: subscriptions_new_def)

lemma publication_roundtrip:
  assumes "pubsub_encode buf topic kind version data = Some (buf', Ok n)"
  shows "pubsub_decode (take n buf') = Ok \<lparr>pb_header_type = 0, pb_flags = 0, pb_topic = topic, pb_kind = kind,
      pb_version = version, pb_data = data\<rparr>" "topic \<noteq> []" "length topic < TOPIC_MAX_LEN"
    "length buf' = length buf" "drop n buf' = drop n buf"
proof -
  let ?h = "[0, 0, of_nat (length topic), kind, version] :: bytes"
  have t: "topic \<noteq> []" "length topic < TOPIC_MAX_LEN" "PUBSUB_HEADER_LEN + length topic + length data \<le> length buf"
    using assms by (auto simp: pubsub_encode_def Let_def split: if_splits)
  have "pubsub_encode buf topic kind version data =
      Some (put buf 0 (?h @ topic @ data), Ok (PUBSUB_HEADER_LEN + length topic + length data))"
    using t by (simp add: pubsub_encode_def Let_def PUBSUB_HEADER_LEN_def copy_at_in put_put_seq)
  then have b: "buf' = put buf 0 (?h @ topic @ data)" "n = 5 + length topic + length data"
    using assms by (simp_all add: PUBSUB_HEADER_LEN_def)
  have "unat (of_nat (length topic) :: u8) = length topic"
    using t(2) by (simp add: TOPIC_MAX_LEN_def unsigned_of_nat take_bit_nat_eq_self)
  moreover have w: "take n buf' = ?h @ topic @ data" "drop n buf' = drop n buf"
  proof -
    have "n = length (?h @ topic @ data)" "n \<le> length buf" using t(3) b(2) by (simp_all add: PUBSUB_HEADER_LEN_def)
    then show "take n buf' = ?h @ topic @ data" "drop n buf' = drop n buf"
      unfolding b(1) by (simp_all only: put_0 take_append drop_append) simp_all
  qed
  ultimately show "pubsub_decode (take n buf') = Ok \<lparr>pb_header_type = 0, pb_flags = 0, pb_topic = topic, pb_kind = kind,
      pb_version = version, pb_data = data\<rparr>" by simp
  show "topic \<noteq> []" "length topic < TOPIC_MAX_LEN" using t by simp_all
  show "length buf' = length buf" using t(3) b(1) by (simp add: PUBSUB_HEADER_LEN_def)
  show "drop n buf' = drop n buf" by (rule w(2))
qed

lemma pubsub_encode_total: "\<exists>buf' r. pubsub_encode buf topic kind version data = Some (buf', r)"
  by (auto simp: pubsub_encode_def Let_def copy_at_def PUBSUB_HEADER_LEN_def)

lemma pubsub_decode_Ok:
  assumes "pubsub_decode payload = Ok p"
  shows "payload = [pb_header_type p, pb_flags p, of_nat (length (pb_topic p)), pb_kind p, pb_version p] @ pb_topic p @ pb_data p"
  using assms by (cases payload rule: pubsub_decode.cases) (auto split: if_splits simp: min_def)

section \<open>What publish and subscribe promise\<close>

text \<open>Property C13. The subscription list is a list. For every list the operations can reach, of any capacity,
  \<open>subscribe_as\<close> and \<open>unsubscribe_as\<close> never panic, keep the invariant (topics distinct, none empty or too
  long, none without a callback) and do to the list of topics with their callbacks exactly what the
  specification on lists says: a new topic goes to the end; a known one gains a callback unless its first
  one is the one given; the first matching callback is removed and the topic goes with its last; and every
  refusal changes nothing and is the documented error.\<close>

theorem subscriptions_refine_list:
  assumes "sub_wf cap s"
  shows "(\<exists>s' r. subscribe_as cap t c s = Some (s', r) \<and> sub_wf cap s' \<and>
      length (sub_entries s') = length (sub_entries s) \<and>
      (sub_abs s', r) = subscribe_spec (length (sub_entries s)) cap t c (sub_abs s)) \<and>
    (\<exists>s' r. unsubscribe_as t c s = Some (s', r) \<and> sub_wf cap s' \<and>
      length (sub_entries s') = length (sub_entries s) \<and>
      (sub_abs s', r) = unsubscribe_spec t c (sub_abs s))"
  using subscribe_as_eq [OF assms] unsubscribe_as_eq [OF assms] by simp

theorem subscriptions_refine_list_witness:
  "\<exists>s. subscribe_as 4 [116] Service (subscriptions_new 2 4) = Some (s, Ok ()) \<and> sub_abs s = [([116], [Service])]"
  using conjunct1 [OF subscriptions_refine_list [OF subscriptions_new_wf(1) [of 4 2], of "[116]" Service]]
  by (auto simp: subscriptions_new_wf(2) subscribe_spec_def check_topic_def TOPIC_MAX_LEN_def subscriptions_new_slots)

text \<open>Property C14. A publication reaches exactly its subscribers. What \<open>encode\<close> writes for a topic without a
  star decodes to the same topic, kind, version and data; and at a receiver it is delivered to exactly the
  subscribed topics that match it by the wildcard rules, in the order they were subscribed and with all
  their callbacks, while \<open>any_match\<close> says whether there is one.\<close>

theorem publication_reaches_subscribers:
  assumes "sub_wf cap s" and "42 \<notin> set topic"
    and "pubsub_encode buf topic kind version data = Some (buf', Ok n)"
  shows "\<exists>p. pubsub_decode (take n buf') = Ok p \<and> pb_topic p = topic \<and> pb_kind p = kind \<and>
    pb_version p = version \<and> pb_data p = data \<and>
    matching_callbacks s (pb_topic p) = Some (filter (\<lambda>(held, cs). topic_matches topic held) (sub_abs s)) \<and>
    any_match s (pb_topic p) = Some (\<exists>held cs. (held, cs) \<in> set (sub_abs s) \<and> topic_matches topic held)"
  using publication_roundtrip(1) [OF assms(3)] matching_callbacks_eq [OF assms(1,2)]
  by (auto simp: any_match_def sub_matching_def filter_empty_conv)

theorem publication_reaches_subscribers_witness:
  "\<exists>s buf' n p. subscribe_as 4 [116, 42] Service (subscriptions_new 2 4) = Some (s, Ok ()) \<and>
     pubsub_encode (replicate 10 0) [116, 117] 1 2 [9] = Some (buf', Ok n) \<and>
     pubsub_decode (take n buf') = Ok p \<and> pb_data p = [9] \<and>
     matching_callbacks s (pb_topic p) = Some (filter (\<lambda>(held, cs). topic_matches [116, 117] held) [([116, 42], [Service])])"
proof -
  obtain s where s: "subscribe_as 4 [116, 42] Service (subscriptions_new 2 4) = Some (s, Ok ())" "sub_wf 4 s"
    "sub_abs s = [([116, 42], [Service])]"
    using subscribe_as_eq [OF subscriptions_new_wf(1) [of 4 2], of "[116, 42]" Service]
    by (auto simp: subscriptions_new_wf(2) subscribe_spec_def check_topic_def TOPIC_MAX_LEN_def subscriptions_new_slots)
  have e: "pubsub_encode (replicate 10 0) [116, 117] 1 2 [9] = Some ([0, 0, 2, 1, 2, 116, 117, 9, 0, 0], Ok 8)"
    by code_simp
  have t: "42 \<notin> set [116, 117 :: u8]" by simp
  show ?thesis using s(1,3) e publication_reaches_subscribers [OF s(2) t e] by auto
qed

end
