(* ===== verification/Service_Table.thy ===== *)
theory Service_Table
  imports Pubsub
begin

text \<open>
  The services a node offers (\<open>service/table.rs\<close>): the two headers, names and topics, the table and
  the walk over it that a request is dispatched by, which compares names with \<open>strncmp\<close> against the
  topic and the data behind it.
\<close>

section \<open>Headers\<close>

definition REQUEST_SUFFIX :: bytes where "REQUEST_SUFFIX = [0x2f, 0x72, 0x65, 0x71]"
definition REPLY_SUFFIX :: bytes where "REPLY_SUFFIX = [0x2f, 0x72, 0x65, 0x70]"
definition MAX_DATA_SIZE :: nat where "MAX_DATA_SIZE = 1024"
definition REQUEST_HEADER_LEN :: nat where "REQUEST_HEADER_LEN = 8"
definition REPLY_HEADER_LEN :: nat where "REPLY_HEADER_LEN = 16"
definition REPLY_DATA_LEN :: nat where "REPLY_DATA_LEN = MAX_DATA_SIZE - REPLY_HEADER_LEN"
definition MAX_SERVICE_LEN :: nat where "MAX_SERVICE_LEN = TOPIC_MAX_LEN - length REQUEST_SUFFIX"

record RequestHeader =
  qh_id :: u32
  qh_data_size :: u32

definition request_header_decode :: "RequestHeader decoder" where
  "request_header_decode body = try_ok (prefix REQUEST_HEADER_LEN body) (\<lambda>b. do {
     i \<leftarrow> u32_at b 0;
     n \<leftarrow> u32_at b 4;
     Some (Ok \<lparr>qh_id = i, qh_data_size = n\<rparr>) })"

definition request_header_encode :: "RequestHeader encoder" where
  "request_header_encode h out =
     (if length out < REQUEST_HEADER_LEN then Some (out, Err Truncated)
      else do {
        out \<leftarrow> copy_at out 0 (to_le 4 (qh_id h));
        out \<leftarrow> copy_at out 4 (to_le 4 (qh_data_size h));
        Some (out, Ok ()) })"

record ReplyHeader =
  ph_target_node_id :: u64
  ph_id :: u32
  ph_data_size :: u32

definition reply_header_decode :: "ReplyHeader decoder" where
  "reply_header_decode body = try_ok (prefix REPLY_HEADER_LEN body) (\<lambda>b. do {
     t \<leftarrow> u64_at b 0;
     i \<leftarrow> u32_at b 8;
     n \<leftarrow> u32_at b 12;
     Some (Ok \<lparr>ph_target_node_id = t, ph_id = i, ph_data_size = n\<rparr>) })"

definition reply_header_encode :: "ReplyHeader encoder" where
  "reply_header_encode h out =
     (if length out < REPLY_HEADER_LEN then Some (out, Err Truncated)
      else do {
        out \<leftarrow> copy_at out 0 (to_le 8 (ph_target_node_id h));
        out \<leftarrow> copy_at out 8 (to_le 4 (ph_id h));
        out \<leftarrow> copy_at out 12 (to_le 4 (ph_data_size h));
        Some (out, Ok ()) })"

definition request_header_wire :: "RequestHeader \<Rightarrow> bytes" where
  "request_header_wire h = to_le 4 (qh_id h) @ to_le 4 (qh_data_size h)"

definition reply_header_wire :: "ReplyHeader \<Rightarrow> bytes" where
  "reply_header_wire h = to_le 8 (ph_target_node_id h) @ to_le 4 (ph_id h) @ to_le 4 (ph_data_size h)"

interpretation rqh: fixed_codec REQUEST_HEADER_LEN request_header_encode request_header_decode request_header_wire
proof unfold_locales
  have n: "REQUEST_HEADER_LEN = 8" by (simp add: REQUEST_HEADER_LEN_def)
  show "length (request_header_wire h) = REQUEST_HEADER_LEN" for h by (simp add: request_header_wire_def n)
  show "request_header_encode h buf = Some (buf, Err Truncated)" if "length buf < REQUEST_HEADER_LEN" for h buf
    using that by (simp add: request_header_encode_def)
  show "request_header_encode h buf = Some (put buf 0 (request_header_wire h), Ok ())"
    if "REQUEST_HEADER_LEN \<le> length buf" for h buf
    using that by (simp add: request_header_encode_def request_header_wire_def n buf_simps put_put_seq del: to_le_numeral)
  show "request_header_decode buf = Some (Err Truncated)" if "length buf < REQUEST_HEADER_LEN" for buf
    using that by (simp add: request_header_decode_def buf_simps)
  show "request_header_decode (request_header_wire h @ rest) = Some (Ok h)" for h rest
    by (simp add: request_header_decode_def request_header_wire_def n buf_simps del: to_le_numeral)
  show "\<exists>h. request_header_wire h = buf" if "length buf = REQUEST_HEADER_LEN" for buf
    using that
    by (intro exI [of _ "\<lparr>qh_id = from_le (subslice buf 0 4), qh_data_size = from_le (subslice buf 4 4)\<rparr>"])
       (simp add: request_header_wire_def n join_simps del: to_le_numeral)
qed

interpretation rph: fixed_codec REPLY_HEADER_LEN reply_header_encode reply_header_decode reply_header_wire
proof unfold_locales
  have n: "REPLY_HEADER_LEN = 16" by (simp add: REPLY_HEADER_LEN_def)
  show "length (reply_header_wire h) = REPLY_HEADER_LEN" for h by (simp add: reply_header_wire_def n)
  show "reply_header_encode h buf = Some (buf, Err Truncated)" if "length buf < REPLY_HEADER_LEN" for h buf
    using that by (simp add: reply_header_encode_def)
  show "reply_header_encode h buf = Some (put buf 0 (reply_header_wire h), Ok ())"
    if "REPLY_HEADER_LEN \<le> length buf" for h buf
    using that by (simp add: reply_header_encode_def reply_header_wire_def n buf_simps put_put_seq del: to_le_numeral)
  show "reply_header_decode buf = Some (Err Truncated)" if "length buf < REPLY_HEADER_LEN" for buf
    using that by (simp add: reply_header_decode_def buf_simps)
  show "reply_header_decode (reply_header_wire h @ rest) = Some (Ok h)" for h rest
    by (simp add: reply_header_decode_def reply_header_wire_def n buf_simps del: to_le_numeral)
  show "\<exists>h. reply_header_wire h = buf" if "length buf = REPLY_HEADER_LEN" for buf
    using that
    by (intro exI [of _ "\<lparr>ph_target_node_id = from_le (subslice buf 0 8), ph_id = from_le (subslice buf 8 4),
          ph_data_size = from_le (subslice buf 12 4)\<rparr>"])
       (simp add: reply_header_wire_def n join_simps del: to_le_numeral)
qed

section \<open>Names and topics\<close>

definition HEX :: bytes where
  "HEX = [0x30, 0x31, 0x32, 0x33, 0x34, 0x35, 0x36, 0x37, 0x38, 0x39, 0x61, 0x62, 0x63, 0x64, 0x65, 0x66]"

text \<open>The loop over the sixteen digits, from the \<open>i\<close>-th.\<close>

fun hex_digits :: "nat \<Rightarrow> nat \<Rightarrow> u64 \<Rightarrow> bytes \<Rightarrow> bytes option" where
  "hex_digits 0 i node_id out = Some out"
| "hex_digits (Suc n) i node_id out = do {
     d \<leftarrow> get_at HEX (unat (drop_bit (60 - 4 * i) node_id AND 0xf));
     out \<leftarrow> set_at out i d;
     hex_digits n (i + 1) node_id out }"

definition service_name :: "bytes \<Rightarrow> u64 \<Rightarrow> bytes \<Rightarrow> (bytes \<times> (BmWireError, nat) result) option" where
  "service_name out node_id suffix =
     (let len = 16 + length suffix in
      if length out < len then Some (out, Err Truncated)
      else do {
        out \<leftarrow> hex_digits 16 0 node_id out;
        out \<leftarrow> copy_at out 16 suffix;
        Some (out, Ok len) })"

definition service_topic :: "bytes \<Rightarrow> bytes \<Rightarrow> bytes \<Rightarrow> (bytes \<times> (BmWireError, nat) result) option" where
  "service_topic out service suffix =
     (let len = length service + length suffix in
      if length out < len then Some (out, Err Truncated)
      else do {
        out \<leftarrow> copy_at out 0 service;
        out \<leftarrow> copy_at out (length service) suffix;
        Some (out, Ok len) })"

definition echo :: "bytes \<Rightarrow> bytes \<Rightarrow> bytes \<times> nat option" where
  "echo request reply =
     (case copy_at reply 0 request of
        None \<Rightarrow> (reply, None)
      | Some reply \<Rightarrow> (reply, Some (length request)))"

section \<open>The table\<close>

text \<open>\<open>for (i, &x) in a.iter().enumerate().take(n)\<close>, from \<open>i\<close>.\<close>

fun strncmp_loop :: "bytes \<Rightarrow> nat \<Rightarrow> (nat \<Rightarrow> u8 option) \<Rightarrow> (unit, bool) result" where
  "strncmp_loop [] i b_at = Ok True"
| "strncmp_loop (x # a) i b_at =
     (case b_at i of
        None \<Rightarrow> Err ()
      | Some y \<Rightarrow> if x \<noteq> y then Ok False else if x = 0 then Ok True else strncmp_loop a (i + 1) b_at)"

definition strncmp_eq :: "bytes \<Rightarrow> nat \<Rightarrow> (nat \<Rightarrow> u8 option) \<Rightarrow> (unit, bool) result" where
  "strncmp_eq a n b_at = strncmp_loop (take n a) 0 b_at"

datatype 'h Lookup =
    NoService
  | OverRead nat
  | ShortRequest nat
  | LengthMismatch nat
  | TopicMismatch nat
  | Call nat bytes 'h RequestHeader bytes

record 'h HeldService =
  hs_name :: bytes
  hs_len :: nat
  hs_handler :: 'h

record 'h ServiceTable =
  svt_services :: "'h HeldService option list"
  svt_len :: nat

definition service_table_new :: "nat \<Rightarrow> 'h ServiceTable" where
  "service_table_new n = \<lparr>svt_services = replicate n None, svt_len = 0\<rparr>"

definition service_table_is_empty :: "'h ServiceTable \<Rightarrow> bool" where
  "service_table_is_empty t \<longleftrightarrow> svt_len t = 0"

text \<open>\<open>self.services[..self.len].iter().flatten()\<close>, and the name of a service.\<close>

definition service_list :: "'h ServiceTable \<Rightarrow> 'h HeldService list option" where
  "service_list t = do { ss \<leftarrow> range_at (svt_services t) 0 (svt_len t); Some (List.map_filter id ss) }"

definition held_name :: "'h HeldService \<Rightarrow> bytes option" where
  "held_name s = range_at (hs_name s) 0 (hs_len s)"

definition service_iter :: "'h ServiceTable \<Rightarrow> (bytes \<times> 'h) list option" where
  "service_iter t = do {
     ss \<leftarrow> service_list t;
     those (map (\<lambda>s. do { name \<leftarrow> held_name s; Some (name, hs_handler s) }) ss) }"

text \<open>\<open>name_cap\<close> is the parameter \<open>NAME\<close>; \<open>TableFull\<close> is \<open>Err ()\<close>.\<close>

definition service_append :: "nat \<Rightarrow> bytes \<Rightarrow> 'h \<Rightarrow> 'h ServiceTable \<Rightarrow> 'h ServiceTable option" where
  "service_append name_cap name handler t = do {
     held \<leftarrow> copy_at (replicate name_cap 0) 0 name;
     ss \<leftarrow> set_at (svt_services t) (svt_len t) (Some \<lparr>hs_name = held, hs_len = length name, hs_handler = handler\<rparr>);
     Some (t\<lparr>svt_services := ss, svt_len := svt_len t + 1\<rparr>) }"

definition service_add ::
  "nat \<Rightarrow> bytes \<Rightarrow> 'h \<Rightarrow> 'h ServiceTable \<Rightarrow> ('h ServiceTable \<times> (unit, unit) result) option" where
  "service_add name_cap name handler t =
     (if svt_len t = length (svt_services t) \<or> name_cap < length name then Some (t, Err ())
      else do { t \<leftarrow> service_append name_cap name handler t; Some (t, Ok ()) })"

text \<open>The closure of \<open>position\<close> in \<open>remove\<close>: a held name reads as NUL past its end.\<close>

definition name_matches :: "bytes \<Rightarrow> 'h HeldService \<Rightarrow> bool" where
  "name_matches name s =
     (case strncmp_eq name (length name) (\<lambda>i. Some (case get_at (hs_name s) i of Some b \<Rightarrow> b | None \<Rightarrow> 0)) of
        Ok b \<Rightarrow> b | Err _ \<Rightarrow> False)"

definition service_delete :: "nat \<Rightarrow> 'h ServiceTable \<Rightarrow> 'h ServiceTable option" where
  "service_delete index t = do {
     ss \<leftarrow> rotate_range (svt_services t) index (svt_len t);
     let len = svt_len t - 1;
     ss \<leftarrow> set_at ss len None;
     Some (t\<lparr>svt_services := ss, svt_len := len\<rparr>) }"

definition service_remove :: "bytes \<Rightarrow> 'h ServiceTable \<Rightarrow> ('h ServiceTable \<times> bool) option" where
  "service_remove name t = do {
     ss \<leftarrow> service_list t;
     (case find_index (name_matches name) ss of
        None \<Rightarrow> Some (t, False)
      | Some index \<Rightarrow> do { t \<leftarrow> service_delete index t; Some (t, True) }) }"

text \<open>The closure \<open>hay\<close>: the topic and, behind it, the data.\<close>

definition hay_at :: "bytes \<Rightarrow> bytes \<Rightarrow> nat \<Rightarrow> u8 option" where
  "hay_at topic data i = (if i < length topic then get_at topic i else get_at data (i - length topic))"

fun lookup_loop :: "bytes \<Rightarrow> bytes \<Rightarrow> nat \<Rightarrow> 'h HeldService list \<Rightarrow> 'h Lookup option" where
  "lookup_loop topic data index [] = Some NoService"
| "lookup_loop topic data index (s # ss) = do {
     name \<leftarrow> held_name s;
     (case strncmp_eq name (length name) (hay_at topic data) of
        Err _ \<Rightarrow> Some (OverRead index)
      | Ok False \<Rightarrow> lookup_loop topic data (index + 1) ss
      | Ok True \<Rightarrow> do {
          r \<leftarrow> request_header_decode data;
          (case r of
             Err _ \<Rightarrow> Some (ShortRequest index)
           | Ok header \<Rightarrow>
               if length data \<noteq> REQUEST_HEADER_LEN + unat (qh_data_size header) then Some (LengthMismatch index)
               else if length topic \<noteq> length name + length REQUEST_SUFFIX then Some (TopicMismatch index)
               else do {
                 rest \<leftarrow> range_at data REQUEST_HEADER_LEN (length data);
                 Some (Call index name (hs_handler s) header rest) }) }) }"

definition service_lookup :: "bytes \<Rightarrow> bytes \<Rightarrow> 'h ServiceTable \<Rightarrow> 'h Lookup option" where
  "service_lookup topic data t = do { ss \<leftarrow> service_list t; lookup_loop topic data 0 ss }"

section \<open>The list behind the table\<close>

definition held_ok :: "nat \<Rightarrow> 'h HeldService \<Rightarrow> bool" where
  "held_ok cap s \<longleftrightarrow> length (hs_name s) = cap \<and> hs_len s \<le> cap \<and> (\<forall>i. hs_len s \<le> i \<longrightarrow> i < cap \<longrightarrow> hs_name s ! i = 0)"

definition held_abs :: "'h HeldService \<Rightarrow> bytes \<times> 'h" where
  "held_abs s = (take (hs_len s) (hs_name s), hs_handler s)"

definition svt_live :: "'h ServiceTable \<Rightarrow> 'h HeldService list" where
  "svt_live t = map the (take (svt_len t) (svt_services t))"

definition svt_abs :: "'h ServiceTable \<Rightarrow> (bytes \<times> 'h) list" where
  "svt_abs t = map held_abs (svt_live t)"

definition svt_wf :: "nat \<Rightarrow> 'h ServiceTable \<Rightarrow> bool" where
  "svt_wf cap t \<longleftrightarrow> svt_len t \<le> length (svt_services t) \<and> None \<notin> set (take (svt_len t) (svt_services t)) \<and>
     (\<forall>s \<in> set (svt_live t). held_ok cap s)"

lemma map_filter_the: "None \<notin> set xs \<Longrightarrow> List.map_filter id xs = map the xs"
proof (induction xs)
  case (Cons x xs)
  then obtain y where "x = Some y" by (cases x) auto
  then show ?case using Cons by (simp add: map_filter_simps)
qed (simp add: map_filter_simps)

lemma service_list_eq: "svt_wf cap t \<Longrightarrow> service_list t = Some (svt_live t)"
  by (simp add: service_list_def svt_wf_def range_at_def subslice_def svt_live_def map_filter_the)

lemma held_name_eq: "held_ok cap s \<Longrightarrow> held_name s = Some (fst (held_abs s))"
  by (simp add: held_name_def held_ok_def held_abs_def range_at_def subslice_def)

lemma service_iter_eq:
  assumes "svt_wf cap t"
  shows "service_iter t = Some (svt_abs t)"
proof -
  have "those (map (\<lambda>s. do { name \<leftarrow> held_name s; Some (name, hs_handler s) }) (svt_live t)) = Some (map held_abs (svt_live t))"
  proof (rule those_map)
    fix s assume "s \<in> set (svt_live t)"
    then have "held_ok cap s" using assms by (simp add: svt_wf_def)
    then show "do { name \<leftarrow> held_name s; Some (name, hs_handler s) } = Some (held_abs s)"
      using held_name_eq [of cap s] by (simp add: held_abs_def)
  qed
  then show ?thesis using service_list_eq [OF assms] by (simp add: service_iter_def svt_abs_def)
qed

lemma service_table_new_wf: "svt_wf cap (service_table_new n)" "svt_abs (service_table_new n) = []"
  by (simp_all add: svt_wf_def service_table_new_def svt_live_def svt_abs_def)

interpretation svc: counted_list "svt_wf cap" svt_live "\<lambda>t. length (svt_services t)"
  "\<lambda>t s. \<exists>name. length name \<le> cap \<and> hs_name s = put (replicate cap 0) 0 name \<and> hs_len s = length name"
  "\<lambda>s. service_append cap (take (hs_len s) (hs_name s)) (hs_handler s)" service_delete for cap
proof unfold_locales
  show "length (svt_live t) \<le> length (svt_services t)" if "svt_wf cap t" for t :: "'h ServiceTable"
    using that by (simp add: svt_live_def svt_wf_def)
  show "\<exists>t'. service_append cap (take (hs_len s) (hs_name s)) (hs_handler s) t = Some t' \<and> svt_wf cap t' \<and>
      svt_live t' = svt_live t @ [s] \<and> length (svt_services t') = length (svt_services t)"
    if wf: "svt_wf cap t" and s: "\<exists>name. length name \<le> cap \<and> hs_name s = put (replicate cap 0) 0 name \<and> hs_len s = length name"
      and room: "length (svt_live t) < length (svt_services t)" for t :: "'h ServiceTable" and s
  proof -
    obtain name where name: "length name \<le> cap" "hs_name s = put (replicate cap 0) 0 name" "hs_len s = length name"
      using s by blast
    have n: "svt_len t < length (svt_services t)" using wf room by (simp add: svt_live_def svt_wf_def)
    have held: "take (hs_len s) (hs_name s) = name" using name by (simp add: put_def)
    have s': "\<lparr>hs_name = put (replicate cap 0) 0 name, hs_len = length name, hs_handler = hs_handler s\<rparr> = s"
      using name by (cases s) simp
    let ?t = "t\<lparr>svt_services := (svt_services t)[svt_len t := Some s], svt_len := svt_len t + 1\<rparr>"
    have "service_append cap name (hs_handler s) t = Some ?t"
      using n name(1) s' by (simp add: service_append_def copy_at_def set_at_def)
    moreover have live: "svt_live ?t = svt_live t @ [s]" using append_live [OF n, of "Some s"] by (simp add: svt_live_def)
    moreover have "held_ok cap s" using name by (auto simp: held_ok_def nth_put)
    then have "svt_wf cap ?t" using wf n append_live [OF n, of "Some s"] unfolding svt_wf_def live by auto
    ultimately show ?thesis using held by simp
  qed
  show "\<exists>t'. service_delete i t = Some t' \<and> svt_wf cap t' \<and>
      svt_live t' = take i (svt_live t) @ drop (Suc i) (svt_live t) \<and> length (svt_services t') = length (svt_services t)"
    if wf: "svt_wf cap t" and i: "i < length (svt_live t)" for t :: "'h ServiceTable" and i
  proof -
    have n: "svt_len t \<le> length (svt_services t)" "i < svt_len t" using wf i by (simp_all add: svt_wf_def svt_live_def)
    obtain ss where ss: "rotate_range (svt_services t) i (svt_len t) = Some ss" "length ss = length (svt_services t)"
      "take (svt_len t - 1) ss = take i (svt_services t) @ drop (Suc i) (take (svt_len t) (svt_services t))"
      using rotate_range_eq [OF n(2,1)] by blast
    let ?t = "t\<lparr>svt_services := ss[svt_len t - 1 := None], svt_len := svt_len t - 1\<rparr>"
    have lt: "svt_len t - 1 < length ss" using n ss(2) by simp
    have kept: "take (svt_len t - 1) (ss[svt_len t - 1 := None]) =
        take i (svt_services t) @ drop (Suc i) (take (svt_len t) (svt_services t))" using ss(3) by simp
    have live: "svt_live ?t = take i (svt_live t) @ drop (Suc i) (svt_live t)"
      using kept n(2) by (simp add: svt_live_def take_map drop_map min_def)
    have sub: "set (svt_live ?t) \<subseteq> set (svt_live t)"
      unfolding live using set_take_subset set_drop_subset by fastforce
    have "set (take (svt_len ?t) (svt_services ?t)) \<subseteq> set (take (svt_len t) (svt_services t))"
      using kept n(2) set_drop_subset [of "Suc i" "take (svt_len t) (svt_services t)"]
        set_take_subset_set_take [of i "svt_len t" "svt_services t"] by auto
    then have "svt_wf cap ?t" using wf sub n ss(2) unfolding svt_wf_def by auto
    moreover have "service_delete i t = Some ?t" using ss(1) lt by (simp add: service_delete_def set_at_def Let_def)
    ultimately show ?thesis using live ss(2) by auto
  qed
qed

section \<open>What the operations do to the list\<close>

lemma service_add_eq:
  assumes wf: "svt_wf cap t"
  shows "\<exists>t' r. service_add cap name h t = Some (t', r) \<and> svt_wf cap t' \<and> length (svt_services t') = length (svt_services t) \<and>
    (if length (svt_abs t) = length (svt_services t) \<or> cap < length name then r = Err () \<and> t' = t
     else r = Ok () \<and> svt_abs t' = svt_abs t @ [(name, h)])"
proof -
  have len: "length (svt_abs t) = svt_len t" using wf by (simp add: svt_abs_def svt_live_def svt_wf_def)
  show ?thesis
  proof (cases "svt_len t = length (svt_services t) \<or> cap < length name")
    case True
    then show ?thesis using wf len by (simp add: service_add_def)
  next
    case False
    let ?s = "\<lparr>hs_name = put (replicate cap 0) 0 name, hs_len = length name, hs_handler = h\<rparr>"
    have abs: "held_abs ?s = (name, h)" "take (hs_len ?s) (hs_name ?s) = name"
      using False by (simp_all add: held_abs_def put_def)
    have "length (svt_live t) < length (svt_services t)" using False svc.bounded [OF wf] len by (simp add: svt_abs_def)
    moreover have "\<exists>n. length n \<le> cap \<and> hs_name ?s = put (replicate cap 0) 0 n \<and> hs_len ?s = length n"
      using False by (intro exI [of _ name]) simp
    ultimately obtain t' where "service_append cap name h t = Some t'" "svt_wf cap t'" "svt_live t' = svt_live t @ [?s]"
      "length (svt_services t') = length (svt_services t)"
      using svc.push_live [OF wf, of ?s] unfolding abs(2) by auto
    then show ?thesis using False len abs(1) by (simp add: service_add_def svt_abs_def)
  qed
qed

text \<open>Comparing a name without a NUL is looking for it in front.\<close>

lemma strncmp_loop_eq:
  "0 \<notin> set a \<Longrightarrow> strncmp_loop a i (get_at hay) =
     (if take (length a) (drop i hay) = a then Ok True
      else if take (length (drop i hay)) a = drop i hay then Err () else Ok False)"
proof (induction a arbitrary: i)
  case (Cons x a)
  show ?case
  proof (cases "i < length hay")
    case True
    then have d: "drop i hay = hay ! i # drop (Suc i) hay" by (simp add: Cons_nth_drop_Suc)
    show ?thesis using Cons True unfolding d by (auto simp: get_at_def)
  qed (simp add: get_at_def)
qed simp

lemma strncmp_eq_hay:
  assumes "0 \<notin> set name"
  shows "strncmp_eq name (length name) (hay_at topic data) =
    (if take (length name) (topic @ data) = name then Ok True
     else if take (length (topic @ data)) name = topic @ data then Err () else Ok False)"
proof -
  have "hay_at topic data = get_at (topic @ data)" by (auto simp: fun_eq_iff hay_at_def get_at_def nth_append)
  then show ?thesis using strncmp_loop_eq [OF assms, of 0 "topic @ data"] by (simp add: strncmp_eq_def)
qed

lemma name_matches_eq:
  assumes s: "held_ok cap s" and name: "0 \<notin> set name"
  shows "name_matches name s \<longleftrightarrow> take (length name) (fst (held_abs s)) = name"
proof -
  let ?b = "\<lambda>i. Some (case get_at (hs_name s) i of Some b \<Rightarrow> b | None \<Rightarrow> 0)"
  let ?n = "take (hs_len s) (hs_name s)"
  have b: "?b i = Some (if i < length ?n then ?n ! i else 0)" for i
    using s by (auto simp: held_ok_def get_at_def)
  have loop: "0 \<notin> set a \<Longrightarrow> strncmp_loop a i ?b = Ok (take (length a) (drop i ?n) = a)" for a i
  proof (induction a arbitrary: i)
    case (Cons x a)
    show ?case
    proof (cases "i < length ?n")
      case True
      then have d: "drop i ?n = ?n ! i # drop (Suc i) ?n" by (metis Cons_nth_drop_Suc)
      have "strncmp_loop (x # a) i ?b = (if x \<noteq> ?n ! i then Ok False else strncmp_loop a (i + 1) ?b)"
        using Cons.prems b [of i] True by simp
      then show ?thesis using Cons.IH [of "i + 1"] Cons.prems unfolding d by simp
    next
      case False
      then have "strncmp_loop (x # a) i ?b = Ok False" using Cons.prems b [of i] by auto
      moreover have "drop i ?n = []" using False by (simp add: not_less min_le_iff_disj)
      ultimately show ?thesis by simp
    qed
  qed simp
  show ?thesis using loop [OF name, of 0] by (simp add: name_matches_def strncmp_eq_def held_abs_def)
qed

lemma service_remove_eq:
  assumes wf: "svt_wf cap t" and name: "0 \<notin> set name"
  shows "\<exists>t'. service_remove name t = Some (t', \<exists>p \<in> set (svt_abs t). take (length name) (fst p) = name) \<and>
    svt_wf cap t' \<and> length (svt_services t') = length (svt_services t) \<and>
    svt_abs t' = remove_first (\<lambda>p. take (length name) (fst p) = name) (svt_abs t)"
proof -
  have m: "name_matches name s \<longleftrightarrow> take (length name) (fst (held_abs s)) = name" if "s \<in> set (svt_live t)" for s
    using name_matches_eq [OF _ name] wf that by (auto simp: svt_wf_def)
  have rm: "map held_abs (remove_first (name_matches name) xs) = remove_first (\<lambda>p. take (length name) (fst p) = name) (map held_abs xs)"
    if "set xs \<subseteq> set (svt_live t)" for xs using that by (induction xs) (auto simp: m)
  show ?thesis
  proof (cases "find_index (name_matches name) (svt_live t)")
    case None
    then have no: "\<forall>s \<in> set (svt_live t). \<not> name_matches name s" by (simp add: find_index_None)
    then have "remove_first (name_matches name) (svt_live t) = svt_live t" by (rule remove_first_absent)
    then show ?thesis using None no m rm [of "svt_live t"] wf service_list_eq [OF wf]
      by (auto simp: service_remove_def svt_abs_def)
  next
    case (Some i)
    obtain t' where "service_delete i t = Some t'" "svt_wf cap t'" "svt_live t' = remove_first (name_matches name) (svt_live t)"
      "length (svt_services t') = length (svt_services t)" using svc.delete_first [OF wf Some] by blast
    moreover have "\<exists>s \<in> set (svt_live t). name_matches name s" using find_index_Some(1,2) [OF Some] nth_mem by blast
    ultimately show ?thesis using Some m rm [of "svt_live t"] service_list_eq [OF wf]
      by (auto simp: service_remove_def svt_abs_def)
  qed
qed

section \<open>Dispatch\<close>

text \<open>A service whose name is in front of the topic and the data, or which the two are in front of, ends
  the walk.\<close>

definition stops_at :: "bytes \<Rightarrow> bytes \<Rightarrow> bool" where
  "stops_at hay name \<longleftrightarrow> take (length name) hay = name \<or> take (length hay) name = hay"

lemma request_header_cases:
  obtains h rest where "data = request_header_wire h @ rest" "request_header_decode data = Some (Ok h)"
  | "length data < REQUEST_HEADER_LEN" "request_header_decode data = Some (Err Truncated)"
proof (cases "length data < REQUEST_HEADER_LEN")
  case True
  then show ?thesis using rqh.decode_short that(2) by blast
next
  case False
  then obtain h where h: "request_header_decode data = Some (Ok h)" "request_header_wire h = take REQUEST_HEADER_LEN data"
    using rqh.decode_long [of data] by auto
  then have "data = request_header_wire h @ drop REQUEST_HEADER_LEN data" by simp
  then show ?thesis using that(1) h(1) by blast
qed

text \<open>The check of the one service that stops the walk.\<close>

definition decide :: "nat \<Rightarrow> bytes \<Rightarrow> 'h \<Rightarrow> bytes \<Rightarrow> bytes \<Rightarrow> 'h Lookup \<Rightarrow> bool" where
  "decide i name h topic data r \<longleftrightarrow>
     (if take (length name) (topic @ data) \<noteq> name then r = OverRead i
      else if length data < REQUEST_HEADER_LEN then r = ShortRequest i
      else \<exists>header rest. data = request_header_wire header @ rest \<and>
        r = (if length rest \<noteq> unat (qh_data_size header) then LengthMismatch i
             else if length topic \<noteq> length name + 4 then TopicMismatch i
             else Call i name h header rest))"

lemma lookup_loop_eq:
  assumes "\<forall>s \<in> set ss. held_ok cap s \<and> 0 \<notin> set (fst (held_abs s))"
  shows "\<exists>r. lookup_loop topic data k ss = Some r \<and>
    (case find_index (\<lambda>s. stops_at (topic @ data) (fst (held_abs s))) ss of
       None \<Rightarrow> r = NoService
     | Some i \<Rightarrow> decide (k + i) (fst (held_abs (ss ! i))) (hs_handler (ss ! i)) topic data r)"
  using assms
proof (induction ss arbitrary: k)
  case Nil
  then show ?case by (simp add: find_index_def)
next
  case (Cons s ss)
  note [simp del] = take_append
  let ?name = "fst (held_abs s)"
  have s: "held_name s = Some ?name" "0 \<notin> set ?name" using Cons.prems held_name_eq by auto
  note cmp = strncmp_eq_hay [OF s(2), of topic data]
  have step: "find_index (\<lambda>s. stops_at (topic @ data) (fst (held_abs s))) (s # ss) =
      (if stops_at (topic @ data) ?name then Some 0
       else map_option Suc (find_index (\<lambda>s. stops_at (topic @ data) (fst (held_abs s))) ss))"
    by (simp add: find_index_def Let_def)
  consider (over) "take (length ?name) (topic @ data) \<noteq> ?name" "stops_at (topic @ data) ?name"
    | (pass) "\<not> stops_at (topic @ data) ?name" | (match) "take (length ?name) (topic @ data) = ?name"
    by (auto simp: stops_at_def)
  then show ?case
  proof cases
    case over
    then have "lookup_loop topic data k (s # ss) = Some (OverRead k)" using s(1) cmp by (simp add: stops_at_def)
    then show ?thesis using over by (simp add: step decide_def)
  next
    case pass
    then have "lookup_loop topic data k (s # ss) = lookup_loop topic data (k + 1) ss"
      using s(1) cmp by (auto simp: stops_at_def)
    then show ?thesis using Cons.IH [of "k + 1"] Cons.prems pass
      by (auto simp: step split: option.splits)
  next
    case match
    then have stop: "stops_at (topic @ data) ?name" by (simp add: stops_at_def)
    have go: "lookup_loop topic data k (s # ss) = do {
          r \<leftarrow> request_header_decode data;
          (case r of
             Err _ \<Rightarrow> Some (ShortRequest k)
           | Ok header \<Rightarrow>
               if length data \<noteq> REQUEST_HEADER_LEN + unat (qh_data_size header) then Some (LengthMismatch k)
               else if length topic \<noteq> length ?name + length REQUEST_SUFFIX then Some (TopicMismatch k)
               else do {
                 rest \<leftarrow> range_at data REQUEST_HEADER_LEN (length data);
                 Some (Call k ?name (hs_handler s) header rest) }) }"
      using s(1) cmp match by simp
    show ?thesis
    proof (cases data rule: request_header_cases)
      case (1 h rest)
      have len: "length (request_header_wire h) = REQUEST_HEADER_LEN" by (rule rqh.length_wire)
      have dl: "length data = REQUEST_HEADER_LEN + length rest" unfolding 1(1) using len by simp
      have "range_at data REQUEST_HEADER_LEN (length data) = Some rest"
        unfolding 1(1) using len by (simp add: range_at_def subslice_def take_append)
      let ?r = "if length rest \<noteq> unat (qh_data_size h) then LengthMismatch k
             else if length topic \<noteq> length ?name + 4 then TopicMismatch k
             else Call k ?name (hs_handler s) h rest"
      have "lookup_loop topic data k (s # ss) = Some ?r"
        unfolding go 1(2) using dl \<open>range_at _ _ _ = _\<close> by (auto simp: REQUEST_SUFFIX_def)
      moreover have "decide k ?name (hs_handler s) topic data ?r"
        unfolding decide_def using match dl 1(1) by (auto intro!: exI [of _ h] exI [of _ rest])
      ultimately show ?thesis using stop by (simp add: step)
    next
      case 2
      then show ?thesis using go match stop by (simp add: step decide_def)
    qed
  qed
qed

lemma service_lookup_eq:
  assumes wf: "svt_wf cap t" and nul: "\<forall>p \<in> set (svt_abs t). 0 \<notin> set (fst p)"
  shows "\<exists>r. service_lookup topic data t = Some r \<and>
    (case find_index (\<lambda>p. stops_at (topic @ data) (fst p)) (svt_abs t) of
       None \<Rightarrow> r = NoService
     | Some i \<Rightarrow> decide i (fst (svt_abs t ! i)) (snd (svt_abs t ! i)) topic data r)"
proof -
  have s: "\<forall>s \<in> set (svt_live t). held_ok cap s \<and> 0 \<notin> set (fst (held_abs s))"
    using wf nul by (auto simp: svt_wf_def svt_abs_def)
  obtain r where r: "lookup_loop topic data 0 (svt_live t) = Some r"
    "case find_index (\<lambda>s. stops_at (topic @ data) (fst (held_abs s))) (svt_live t) of
       None \<Rightarrow> r = NoService
     | Some i \<Rightarrow> decide (0 + i) (fst (held_abs (svt_live t ! i))) (hs_handler (svt_live t ! i)) topic data r"
    using lookup_loop_eq [OF s, of topic data 0] by blast
  have fi: "find_index (\<lambda>p. stops_at (topic @ data) (fst p)) (svt_abs t) =
      find_index (\<lambda>s. stops_at (topic @ data) (fst (held_abs s))) (svt_live t)"
    unfolding svt_abs_def by (rule find_index_map)
  have at: "fst (svt_abs t ! i) = fst (held_abs (svt_live t ! i)) \<and> snd (svt_abs t ! i) = hs_handler (svt_live t ! i)"
    if "find_index (\<lambda>s. stops_at (topic @ data) (fst (held_abs s))) (svt_live t) = Some i" for i
    using find_index_Some(1) [OF that] by (simp add: svt_abs_def held_abs_def)
  have "service_lookup topic data t = Some r" using service_list_eq [OF wf] r(1) by (simp add: service_lookup_def)
  then show ?thesis using r(2) at unfolding fi by (auto split: option.splits)
qed

end
