(* ===== verification/Service_Requests.thy ===== *)
theory Service_Requests
  imports Service_Table "HOL-Library.Multiset"
begin

text \<open>
  The requests a node has made and is waiting on (\<open>service/request.rs\<close>): listing one, matching a
  reply to it and the sweep that reports the expired ones; and the whole exchange of a request and
  its reply, through the table of the node that offers the service.
\<close>

section \<open>Requests\<close>

definition EXPIRY_PERIOD_MS :: u32 where "EXPIRY_PERIOD_MS = 500"

record Request =
  rr_service :: bytes
  rr_len :: nat
  rr_id :: u32
  rr_start_ms :: u32
  rr_timeout_ms :: u32

definition request_empty :: "nat \<Rightarrow> Request" where
  "request_empty name_cap =
     \<lparr>rr_service = replicate name_cap 0, rr_len = 0, rr_id = 0, rr_start_ms = 0, rr_timeout_ms = 0\<rparr>"

definition request_service :: "Request \<Rightarrow> bytes option" where
  "request_service r = range_at (rr_service r) 0 (rr_len r)"

definition request_expired_at :: "Request \<Rightarrow> u32 \<Rightarrow> bool" where
  "request_expired_at r now_ms \<longleftrightarrow> time_remaining (rr_start_ms r) now_ms (rr_timeout_ms r) = 0"

datatype ReplyOutcome = Short | OtherTarget | Unknown | Answered Request bytes

record Requests =
  rq_list :: "Request list"
  rq_len :: nat
  rq_request_count :: u32
  rq_next_sweep_ms :: u32

definition requests_resuming :: "nat \<Rightarrow> nat \<Rightarrow> u32 \<Rightarrow> u32 \<Rightarrow> Requests" where
  "requests_resuming n name_cap request_count next_sweep_ms =
     \<lparr>rq_list = replicate n (request_empty name_cap), rq_len = 0, rq_request_count = request_count,
      rq_next_sweep_ms = next_sweep_ms\<rparr>"

definition requests_new :: "nat \<Rightarrow> nat \<Rightarrow> Requests" where
  "requests_new n name_cap = requests_resuming n name_cap 0 EXPIRY_PERIOD_MS"

definition requests_started_at :: "nat \<Rightarrow> nat \<Rightarrow> u32 \<Rightarrow> Requests" where
  "requests_started_at n name_cap now_ms = requests_resuming n name_cap 0 (now_ms + EXPIRY_PERIOD_MS)"

definition requests_is_empty :: "Requests \<Rightarrow> bool" where "requests_is_empty q \<longleftrightarrow> rq_len q = 0"

definition requests_iter :: "Requests \<Rightarrow> Request list option" where
  "requests_iter q = range_at (rq_list q) 0 (rq_len q)"

definition request_push :: "Request \<Rightarrow> Requests \<Rightarrow> Requests option" where
  "request_push r q = do {
     rs \<leftarrow> set_at (rq_list q) (rq_len q) r;
     Some (q\<lparr>rq_list := rs, rq_len := rq_len q + 1\<rparr>) }"

text \<open>\<open>RequestsFull\<close> is \<open>Err ()\<close>.\<close>

definition requests_add ::
  "nat \<Rightarrow> bytes \<Rightarrow> u32 \<Rightarrow> u32 \<Rightarrow> Requests \<Rightarrow> (Requests \<times> (unit, u32) result) option" where
  "requests_add name_cap service timeout_s now_ms q =
     (if rq_len q = length (rq_list q) \<or> name_cap < length service then Some (q, Err ())
      else do {
        let ident = rq_request_count q;
        let q = q\<lparr>rq_request_count := rq_request_count q + 1\<rparr>;
        held \<leftarrow> copy_at (replicate name_cap 0) 0 service;
        q \<leftarrow> request_push \<lparr>rr_service = held, rr_len = length service, rr_id = ident, rr_start_ms = now_ms,
               rr_timeout_ms = timeout_s * 1000\<rparr> q;
        Some (q, Ok ident) })"

definition requests_remove :: "nat \<Rightarrow> Requests \<Rightarrow> (Requests \<times> Request) option" where
  "requests_remove index q = do {
     r \<leftarrow> get_at (rq_list q) index;
     rs \<leftarrow> rotate_range (rq_list q) index (rq_len q);
     Some (q\<lparr>rq_list := rs, rq_len := rq_len q - 1\<rparr>, r) }"

definition requests_take :: "u32 \<Rightarrow> Requests \<Rightarrow> (Requests \<times> Request option) option" where
  "requests_take ident q = do {
     rs \<leftarrow> requests_iter q;
     (case find_index (\<lambda>r. rr_id r = ident) rs of
        None \<Rightarrow> Some (q, None)
      | Some index \<Rightarrow> do { (q, r) \<leftarrow> requests_remove index q; Some (q, Some r) }) }"

text \<open>\<open>um\<close> is \<open>usize::MAX\<close>.\<close>

definition on_reply :: "nat \<Rightarrow> u64 \<Rightarrow> bytes \<Rightarrow> Requests \<Rightarrow> (Requests \<times> ReplyOutcome) option" where
  "on_reply um node_id body q = do {
     h \<leftarrow> reply_header_decode body;
     (case h of
        Err _ \<Rightarrow> Some (q, Short)
      | Ok header \<Rightarrow>
          if ph_target_node_id header \<noteq> node_id then Some (q, OtherTarget)
          else do {
            (q, found) \<leftarrow> requests_take (ph_id header) q;
            (case found of
               None \<Rightarrow> Some (q, Unknown)
             | Some request \<Rightarrow> do {
                 data \<leftarrow> range_at body REPLY_HEADER_LEN (length body);
                 let size = min (unat (ph_data_size header)) um;
                 data \<leftarrow> range_at data 0 (min size (length data));
                 Some (q, Answered request data) }) }) }"

lemma requests_remove_len: "requests_remove i q = Some (q', r) \<Longrightarrow> rq_len q' = rq_len q - 1"
  by (auto simp: requests_remove_def split: bind_splits)

text \<open>The loop of \<open>on_tick\<close>; the requests the closure is called with are collected.\<close>

function expire_loop :: "u32 \<Rightarrow> Requests \<Rightarrow> nat \<Rightarrow> Request list \<Rightarrow> (Requests \<times> Request list) option" where
  "expire_loop now_ms q index acc =
     (if index < rq_len q then
        case get_at (rq_list q) index of
          None \<Rightarrow> None
        | Some r \<Rightarrow>
            if request_expired_at r now_ms then
              (case requests_remove index q of
                 None \<Rightarrow> None
               | Some (q', _) \<Rightarrow> expire_loop now_ms q' index (acc @ [r]))
            else expire_loop now_ms q (index + 1) acc
      else Some (q, acc))"
  by pat_completeness auto
termination expire_loop
  by (relation "measure (\<lambda>(now, q, i, e). rq_len q - i)") (auto dest: requests_remove_len)

declare expire_loop.simps [simp del]

definition requests_on_tick :: "u32 \<Rightarrow> Requests \<Rightarrow> (Requests \<times> Request list) option" where
  "requests_on_tick now_ms q =
     (if sint (now_ms - rq_next_sweep_ms q) < 0 then Some (q, [])
      else
        let missed = (now_ms - rq_next_sweep_ms q) div EXPIRY_PERIOD_MS;
            q = q\<lparr>rq_next_sweep_ms := rq_next_sweep_ms q + EXPIRY_PERIOD_MS * (missed + 1)\<rparr>
        in expire_loop now_ms q 0 [])"

section \<open>The list behind the array\<close>

definition waiting :: "Requests \<Rightarrow> Request list" where
  "waiting q = take (rq_len q) (rq_list q)"

definition rq_wf :: "nat \<Rightarrow> Requests \<Rightarrow> bool" where
  "rq_wf cap q \<longleftrightarrow> rq_len q \<le> length (rq_list q) \<and>
     (\<forall>r \<in> set (waiting q). length (rr_service r) = cap \<and> rr_len r \<le> cap)"

text \<open>What neither adding nor removing a request touches.\<close>

definition same_clock :: "Requests \<Rightarrow> Requests \<Rightarrow> bool" where
  "same_clock q q' \<longleftrightarrow> rq_next_sweep_ms q' = rq_next_sweep_ms q \<and> rq_request_count q' = rq_request_count q \<and>
     length (rq_list q') = length (rq_list q)"

lemma requests_remove_eq:
  assumes wf: "rq_wf cap q" and i: "i < length (waiting q)"
  shows "\<exists>q'. requests_remove i q = Some (q', waiting q ! i) \<and> rq_wf cap q' \<and> same_clock q q' \<and>
    waiting q' = take i (waiting q) @ drop (Suc i) (waiting q)"
proof -
  have n: "rq_len q \<le> length (rq_list q)" "i < rq_len q" using wf i by (simp_all add: rq_wf_def waiting_def)
  obtain rs where rs: "rotate_range (rq_list q) i (rq_len q) = Some rs" "length rs = length (rq_list q)"
    "take (rq_len q - 1) rs = take i (rq_list q) @ drop (Suc i) (take (rq_len q) (rq_list q))"
    using rotate_range_eq [OF n(2,1)] by blast
  let ?q = "q\<lparr>rq_list := rs, rq_len := rq_len q - 1\<rparr>"
  have live: "waiting ?q = take i (waiting q) @ drop (Suc i) (waiting q)"
    using rs(3) n(2) by (simp add: waiting_def min_def)
  have "set (waiting ?q) \<subseteq> set (waiting q)"
    unfolding live using set_take_subset set_drop_subset by fastforce
  then have "rq_wf cap ?q" using wf n(1) rs(2) unfolding rq_wf_def by auto
  moreover have "requests_remove i q = Some (?q, waiting q ! i)"
    using rs(1) n by (simp add: requests_remove_def get_at_def waiting_def)
  ultimately show ?thesis using live rs(2) by (auto simp: same_clock_def)
qed

interpretation rqs: counted_list "rq_wf cap" waiting "\<lambda>q. length (rq_list q)"
  "\<lambda>q r. length (rr_service r) = cap \<and> rr_len r \<le> cap" request_push "\<lambda>i q. map_option fst (requests_remove i q)" for cap
proof unfold_locales
  show "length (waiting q) \<le> length (rq_list q)" if "rq_wf cap q" for q
    using that by (simp add: waiting_def rq_wf_def)
  show "\<exists>q'. request_push r q = Some q' \<and> rq_wf cap q' \<and> waiting q' = waiting q @ [r] \<and> length (rq_list q') = length (rq_list q)"
    if wf: "rq_wf cap q" and r: "length (rr_service r) = cap \<and> rr_len r \<le> cap" and room: "length (waiting q) < length (rq_list q)" for q r
  proof -
    have n: "rq_len q < length (rq_list q)" using wf room by (simp add: waiting_def rq_wf_def)
    have live: "waiting (q\<lparr>rq_list := (rq_list q)[rq_len q := r], rq_len := rq_len q + 1\<rparr>) = waiting q @ [r]"
      using append_live [OF n, of r] by (simp add: waiting_def)
    then show ?thesis using wf r n by (auto simp: request_push_def set_at_def rq_wf_def)
  qed
  show "\<exists>q'. map_option fst (requests_remove i q) = Some q' \<and> rq_wf cap q' \<and>
      waiting q' = take i (waiting q) @ drop (Suc i) (waiting q) \<and> length (rq_list q') = length (rq_list q)"
    if "rq_wf cap q" "i < length (waiting q)" for q i
    using requests_remove_eq [OF that] by (auto simp: same_clock_def)
qed

lemma requests_resuming_wf: "rq_wf cap (requests_resuming n cap c t)" "waiting (requests_resuming n cap c t) = []"
  by (simp_all add: rq_wf_def waiting_def requests_resuming_def)

text \<open>The request \<open>add\<close> lists.\<close>

definition listed :: "nat \<Rightarrow> bytes \<Rightarrow> u32 \<Rightarrow> u32 \<Rightarrow> u32 \<Rightarrow> Request" where
  "listed cap service ident timeout_s now_ms =
     \<lparr>rr_service = put (replicate cap 0) 0 service, rr_len = length service, rr_id = ident, rr_start_ms = now_ms,
      rr_timeout_ms = timeout_s * 1000\<rparr>"

lemma requests_add_eq:
  assumes wf: "rq_wf cap q"
  shows "\<exists>q' r. requests_add cap service timeout_s now q = Some (q', r) \<and> rq_wf cap q' \<and>
    length (rq_list q') = length (rq_list q) \<and> rq_next_sweep_ms q' = rq_next_sweep_ms q \<and>
    (if length (waiting q) = length (rq_list q) \<or> cap < length service then r = Err () \<and> q' = q
     else r = Ok (rq_request_count q) \<and> rq_request_count q' = rq_request_count q + 1 \<and>
       waiting q' = waiting q @ [listed cap service (rq_request_count q) timeout_s now])"
proof -
  have len: "length (waiting q) = rq_len q" using wf by (simp add: waiting_def rq_wf_def)
  show ?thesis
  proof (cases "rq_len q = length (rq_list q) \<or> cap < length service")
    case True
    then show ?thesis using wf len by (simp add: requests_add_def)
  next
    case False
    then have n: "rq_len q < length (rq_list q)" "length service \<le> cap" using wf by (simp_all add: rq_wf_def)
    let ?r = "listed cap service (rq_request_count q) timeout_s now"
    let ?q = "q\<lparr>rq_request_count := rq_request_count q + 1, rq_list := (rq_list q)[rq_len q := ?r], rq_len := rq_len q + 1\<rparr>"
    have "requests_add cap service timeout_s now q = Some (?q, Ok (rq_request_count q))"
      using False n by (simp add: requests_add_def copy_at_def request_push_def set_at_def listed_def Let_def)
    moreover have live: "waiting ?q = waiting q @ [?r]" using append_live [OF n(1), of ?r] by (simp add: waiting_def)
    moreover have "rq_wf cap ?q" using wf n live by (auto simp: rq_wf_def listed_def)
    ultimately show ?thesis using False len by auto
  qed
qed

lemma request_service_listed: "length service \<le> cap \<Longrightarrow> request_service (listed cap service i t s) = Some service"
  by (simp add: request_service_def listed_def range_at_def subslice_def put_def)

lemma requests_take_eq:
  assumes wf: "rq_wf cap q"
  shows "\<exists>q'. requests_take ident q = Some (q', List.find (\<lambda>r. rr_id r = ident) (waiting q)) \<and> rq_wf cap q' \<and> same_clock q q' \<and>
    waiting q' = remove_first (\<lambda>r. rr_id r = ident) (waiting q)"
proof -
  have it: "requests_iter q = Some (waiting q)"
    using wf by (simp add: requests_iter_def rq_wf_def range_at_def subslice_def waiting_def)
  show ?thesis
  proof (cases "find_index (\<lambda>r. rr_id r = ident) (waiting q)")
    case None
    then have no: "\<forall>r \<in> set (waiting q). \<not> rr_id r = ident" by (simp add: find_index_None)
    then have "List.find (\<lambda>r. rr_id r = ident) (waiting q) = None" by (simp add: find_None_iff)
    then show ?thesis using None it wf remove_first_absent [OF no] by (simp add: requests_take_def same_clock_def)
  next
    case (Some i)
    obtain q' where "requests_remove i q = Some (q', waiting q ! i)" "rq_wf cap q'" "same_clock q q'"
      "waiting q' = take i (waiting q) @ drop (Suc i) (waiting q)"
      using requests_remove_eq [OF wf find_index_Some(1) [OF Some]] by blast
    then show ?thesis
      using Some it find_index_find [OF Some] find_index_Some(4) [OF Some] by (simp add: requests_take_def)
  qed
qed

text \<open>A reply's body is its header and what arrived behind it.\<close>

lemma on_reply_eq:
  assumes wf: "rq_wf cap q"
  shows "\<exists>q'. on_reply um node (reply_header_wire h @ data) q = Some (q',
      if ph_target_node_id h \<noteq> node then OtherTarget
      else (case List.find (\<lambda>r. rr_id r = ph_id h) (waiting q) of
          None \<Rightarrow> Unknown
        | Some r \<Rightarrow> Answered r (take (min (unat (ph_data_size h)) um) data))) \<and> rq_wf cap q' \<and> same_clock q q' \<and>
    waiting q' = (if ph_target_node_id h \<noteq> node then waiting q else remove_first (\<lambda>r. rr_id r = ph_id h) (waiting q))"
proof -
  obtain q' where t: "requests_take (ph_id h) q = Some (q', List.find (\<lambda>r. rr_id r = ph_id h) (waiting q))" "rq_wf cap q'"
    "same_clock q q'" "waiting q' = remove_first (\<lambda>r. rr_id r = ph_id h) (waiting q)"
    using requests_take_eq [OF wf] by blast
  have len: "length (reply_header_wire h) = REPLY_HEADER_LEN" by (rule rph.length_wire)
  have rest: "range_at (reply_header_wire h @ data) REPLY_HEADER_LEN (length (reply_header_wire h @ data)) = Some data"
    using len by (simp add: range_at_def subslice_def)
  have cut: "range_at data 0 (min n (length data)) = Some (take n data)" for n
    by (simp add: range_at_def subslice_def min_def)
  show ?thesis
    using rph.decode_wire [of h data] t rest cut wf
    by (auto simp: on_reply_def Let_def same_clock_def split: option.split)
qed

lemma on_reply_total:
  assumes wf: "rq_wf cap q"
  shows "\<exists>q' o'. on_reply um node body q = Some (q', o') \<and> rq_wf cap q'"
proof (cases "length body < REPLY_HEADER_LEN")
  case True
  then show ?thesis using rph.decode_short wf by (simp add: on_reply_def)
next
  case False
  then obtain h where "reply_header_wire h = take REPLY_HEADER_LEN body" using rph.decode_long [of body] by auto
  then have "body = reply_header_wire h @ drop REPLY_HEADER_LEN body" by simp
  then show ?thesis using on_reply_eq [OF wf, of um node h "drop REPLY_HEADER_LEN body"] by metis
qed

lemma expire_loop_eq:
  "rq_wf cap q \<Longrightarrow> i \<le> length (waiting q) \<Longrightarrow>
   \<exists>q'. expire_loop now q i acc = Some (q', acc @ filter (\<lambda>r. request_expired_at r now) (drop i (waiting q))) \<and>
     rq_wf cap q' \<and> same_clock q q' \<and>
     waiting q' = take i (waiting q) @ filter (\<lambda>r. \<not> request_expired_at r now) (drop i (waiting q))"
proof (induction now q i acc rule: expire_loop.induct)
  case (1 now q i acc)
  note wf = "1.prems"(1)
  have len: "length (waiting q) = rq_len q" using wf by (simp add: waiting_def rq_wf_def)
  show ?case
  proof (cases "i < rq_len q")
    case False
    then show ?thesis using "1.prems" len by (subst expire_loop.simps) (simp add: same_clock_def)
  next
    case True
    let ?r = "waiting q ! i"
    have g: "get_at (rq_list q) i = Some ?r" using True wf by (simp add: get_at_def waiting_def rq_wf_def)
    have d: "drop i (waiting q) = ?r # drop (Suc i) (waiting q)" using True len by (simp add: Cons_nth_drop_Suc)
    have tk: "take (Suc i) (waiting q) = take i (waiting q) @ [?r]" using True len by (simp add: take_Suc_conv_app_nth)
    show ?thesis
    proof (cases "request_expired_at ?r now")
      case False
      then show ?thesis using "1.IH"(2) [OF True g False wf] True len g d tk
        by (subst expire_loop.simps) simp
    next
      case exp: True
      obtain q' where q': "requests_remove i q = Some (q', ?r)" "rq_wf cap q'" "same_clock q q'"
        "waiting q' = take i (waiting q) @ drop (Suc i) (waiting q)"
        using requests_remove_eq [OF wf, of i] True len by auto
      have "i \<le> length (waiting q')" "take i (waiting q') = take i (waiting q)" "drop i (waiting q') = drop (Suc i) (waiting q)"
        using q'(4) True len by simp_all
      then show ?thesis using "1.IH"(1) [OF True g exp q'(1) refl q'(2)] True g exp q' d
        by (subst expire_loop.simps) (auto simp: same_clock_def)
    qed
  qed
qed

lemma requests_on_tick_eq:
  assumes wf: "rq_wf cap q"
  shows "\<exists>q' e. requests_on_tick now q = Some (q', e) \<and> rq_wf cap q' \<and> rq_request_count q' = rq_request_count q \<and>
    length (rq_list q') = length (rq_list q) \<and>
    (if sint (now - rq_next_sweep_ms q) < 0 then q' = q \<and> e = []
     else e = filter (\<lambda>r. request_expired_at r now) (waiting q) \<and>
       waiting q' = filter (\<lambda>r. \<not> request_expired_at r now) (waiting q) \<and>
       rq_next_sweep_ms q' = rq_next_sweep_ms q + 500 * ((now - rq_next_sweep_ms q) div 500 + 1))"
proof (cases "sint (now - rq_next_sweep_ms q) < 0")
  case True
  then show ?thesis using wf by (simp add: requests_on_tick_def)
next
  case False
  let ?q = "q\<lparr>rq_next_sweep_ms := rq_next_sweep_ms q + 500 * ((now - rq_next_sweep_ms q) div 500 + 1)\<rparr>"
  have "rq_wf cap ?q" "waiting ?q = waiting q" using wf by (simp_all add: rq_wf_def waiting_def)
  then obtain q' where "expire_loop now ?q 0 [] = Some (q', filter (\<lambda>r. request_expired_at r now) (waiting q))"
    "rq_wf cap q'" "same_clock ?q q'" "waiting q' = filter (\<lambda>r. \<not> request_expired_at r now) (waiting q)"
    using expire_loop_eq [of cap ?q 0 now "[]"] by auto
  then show ?thesis using False
    by (simp add: requests_on_tick_def EXPIRY_PERIOD_MS_def same_clock_def Let_def)
qed

section \<open>Runs\<close>

text \<open>\<open>rq_run um cap q k ended q'\<close>: from \<open>q\<close>, any sequence of requests made, bodies received and ticks leads
  to \<open>q'\<close>; \<open>k\<close> requests were made and those in \<open>ended\<close> were answered or reported expired, in this order.\<close>

inductive rq_run :: "nat \<Rightarrow> nat \<Rightarrow> Requests \<Rightarrow> nat \<Rightarrow> Request list \<Rightarrow> Requests \<Rightarrow> bool" for um cap q where
  start: "rq_run um cap q 0 [] q"
| added: "rq_run um cap q k ended p \<Longrightarrow> requests_add cap service timeout_s now p = Some (p', Ok ident) \<Longrightarrow>
    rq_run um cap q (Suc k) ended p'"
| refused: "rq_run um cap q k ended p \<Longrightarrow> requests_add cap service timeout_s now p = Some (p', Err ()) \<Longrightarrow>
    rq_run um cap q k ended p'"
| received: "rq_run um cap q k ended p \<Longrightarrow> on_reply um node body p = Some (p', outcome) \<Longrightarrow>
    rq_run um cap q k (ended @ (case outcome of Answered r data \<Rightarrow> [r] | _ \<Rightarrow> [])) p'"
| ticked: "rq_run um cap q k ended p \<Longrightarrow> requests_on_tick now p = Some (p', expired) \<Longrightarrow>
    rq_run um cap q k (ended @ expired) p'"

lemma mset_remove_first:
  "List.find P xs = Some x \<Longrightarrow> mset xs = add_mset x (mset (remove_first P xs))"
  by (induction xs) (auto split: if_splits)

lemma on_reply_ends:
  assumes wf: "rq_wf cap q" and r: "on_reply um node body q = Some (q', outcome)"
  shows "rq_wf cap q' \<and> same_clock q q' \<and>
    mset (waiting q) = mset (case outcome of Answered r data \<Rightarrow> [r] | _ \<Rightarrow> []) + mset (waiting q')"
proof (cases "length body < REPLY_HEADER_LEN")
  case True
  then show ?thesis using rph.decode_short wf r by (auto simp: on_reply_def same_clock_def)
next
  case False
  then obtain h where h: "reply_header_wire h = take REPLY_HEADER_LEN body" using rph.decode_long [of body] by auto
  have body: "body = reply_header_wire h @ drop REPLY_HEADER_LEN body" using h by simp
  note e = on_reply_eq [OF wf, of um node h "drop REPLY_HEADER_LEN body", folded body]
  show ?thesis
  proof (cases "ph_target_node_id h \<noteq> node")
    case True
    then show ?thesis using e r by auto
  next
    case False
    show ?thesis
    proof (cases "List.find (\<lambda>r. rr_id r = ph_id h) (waiting q)")
      case None
      then have "remove_first (\<lambda>r. rr_id r = ph_id h) (waiting q) = waiting q"
        by (intro remove_first_absent) (simp add: find_None_iff)
      then show ?thesis using e r False None by auto
    next
      case (Some x)
      then show ?thesis using e r False mset_remove_first [OF Some] by auto
    qed
  qed
qed

lemma rq_run_conserves:
  assumes "rq_run um cap q k ended p" and wf: "rq_wf cap q" and q: "waiting q = []"
  shows "rq_wf cap p \<and> rq_request_count p = rq_request_count q + of_nat k \<and> length (rq_list p) = length (rq_list q) \<and>
    image_mset rr_id (mset ended + mset (waiting p)) = mset (map (\<lambda>i. rq_request_count q + of_nat i) [0..<k])"
  using assms(1)
proof induction
  case start
  then show ?case using wf q by simp
next
  case (added k ended p service timeout_s now p' ident)
  note IH = added.IH
  have "rq_request_count p' = rq_request_count p + 1" "rq_wf cap p'" "length (rq_list p') = length (rq_list p)"
    "waiting p' = waiting p @ [listed cap service (rq_request_count p) timeout_s now]"
    using requests_add_eq [of cap p service timeout_s now] IH added.hyps(2) by (auto split: if_splits)
  moreover have "rr_id (listed cap service (rq_request_count p) timeout_s now) = rq_request_count q + of_nat k"
    using IH by (simp add: listed_def)
  ultimately show ?case using IH by (simp add: add.assoc add.commute)
next
  case (refused k ended p service timeout_s now p')
  then show ?case using requests_add_eq [of cap p service timeout_s now] by (auto split: if_splits)
next
  case (received k ended p node body p' outcome)
  then have "rq_wf cap p'" "same_clock p p'"
    "mset (waiting p) = mset (case outcome of Answered r data \<Rightarrow> [r] | _ \<Rightarrow> []) + mset (waiting p')"
    using on_reply_ends [OF _ received.hyps(2)] by blast+
  then show ?case using received.IH by (simp add: same_clock_def add.assoc)
next
  case (ticked k ended p now p' expired)
  have "mset (waiting p) = mset expired + mset (waiting p')" "rq_wf cap p'" "rq_request_count p' = rq_request_count p"
    "length (rq_list p') = length (rq_list p)"
    using requests_on_tick_eq [of cap p now] ticked.IH ticked.hyps(2)
    by (auto split: if_splits simp: mset_filter)
  then show ?case using ticked.IH by (simp add: add.assoc)
qed

lemma distinct_issued:
  assumes "k \<le> 2 ^ 32"
  shows "distinct (map (\<lambda>i. c + of_nat i :: u32) [0..<k])"
proof -
  have "inj_on (\<lambda>i. c + of_nat i :: u32) {0..<k}"
  proof (rule inj_onI)
    fix i j assume ij: "i \<in> {0..<k}" "j \<in> {0..<k}" "c + of_nat i = (c + of_nat j :: u32)"
    then have "(of_nat i :: u32) = of_nat j" by simp
    then have "unat (of_nat i :: u32) = unat (of_nat j :: u32)" by simp
    moreover have "i < 2 ^ 32" "j < 2 ^ 32" using ij assms by auto
    ultimately show "i = j" by (simp add: unsigned_of_nat take_bit_nat_eq_self)
  qed
  then show ?thesis by (simp add: distinct_map)
qed

text \<open>The id \<open>add\<close> takes next is none of the run's.\<close>

lemma next_id_fresh:
  assumes "rq_run um cap (requests_resuming m cap c t) k ended q" "k < 2 ^ 32"
  shows "rq_request_count q \<notin> rr_id ` set (ended @ waiting q)"
proof -
  note c = rq_run_conserves [OF assms(1) requests_resuming_wf(1,2)]
  have q: "rq_request_count q = c + of_nat k"
    and m: "image_mset rr_id (mset ended + mset (waiting q)) = mset (map (\<lambda>i. c + of_nat i) [0..<k])"
    using c by (simp_all add: requests_resuming_def)
  have "rr_id ` set (ended @ waiting q) = set_mset (image_mset rr_id (mset ended + mset (waiting q)))"
    by (simp add: image_Un)
  then have ids: "rr_id ` set (ended @ waiting q) = (\<lambda>i. c + of_nat i) ` {0..<k}" unfolding m by simp
  have "distinct (map (\<lambda>i. c + of_nat i :: u32) [0..<Suc k])" using assms(2) by (intro distinct_issued) simp
  then show ?thesis unfolding ids q by simp
qed

section \<open>What the service layer promises\<close>

text \<open>Property C10. A request ends exactly once. In every run of a node's request list (requests made, bodies
  received of any content, ticks at any time), the requests that ended, by their reply or by the
  sweep, together with those still waiting are exactly the ones that were made: none is lost, none is
  reported twice; and while at most \<open>2 ^ 32\<close> were made, their ids are distinct. No operation panics
  in any state of the run, whatever the width of \<open>usize\<close>.\<close>

theorem requests_end_exactly_once:
  assumes "rq_run um cap (requests_resuming n cap c t) k ended q"
  shows "mset (map rr_id (ended @ waiting q)) = mset (map (\<lambda>i. c + of_nat i) [0..<k]) \<and>
    (k \<le> 2 ^ 32 \<longrightarrow> distinct (map rr_id (ended @ waiting q))) \<and>
    requests_add cap service timeout_s now q \<noteq> None \<and> on_reply um node body q \<noteq> None \<and>
    requests_on_tick now q \<noteq> None"
proof (intro conjI impI)
  show m: "mset (map rr_id (ended @ waiting q)) = mset (map (\<lambda>i. c + of_nat i) [0..<k])"
    using rq_run_conserves [OF assms(1) requests_resuming_wf(1) requests_resuming_wf(2)]
    by (simp add: requests_resuming_def)
  have wf: "rq_wf cap q"
    using rq_run_conserves [OF assms(1) requests_resuming_wf(1) requests_resuming_wf(2)] by blast
  show "requests_add cap service timeout_s now q \<noteq> None" "on_reply um node body q \<noteq> None"
    "requests_on_tick now q \<noteq> None"
    using requests_add_eq [OF wf] on_reply_total [OF wf] requests_on_tick_eq [OF wf]
    by (metis option.distinct(1))+
  assume "k \<le> 2 ^ 32"
  then show "distinct (map rr_id (ended @ waiting q))"
    using distinct_issued [of k c] mset_eq_imp_distinct_iff [OF m] by simp
qed

text \<open>One request, which a sweep after its timeout reports.\<close>

theorem requests_end_exactly_once_witness:
  "\<exists>q ended. rq_run (2 ^ 32 - 1) 4 (requests_resuming 2 4 7 500) 1 ended q \<and>
     mset (map rr_id (ended @ waiting q)) = {#7#} \<and> map rr_id ended = [7]"
proof -
  let ?q0 = "requests_resuming 2 4 7 500"
  have wf0: "rq_wf 4 ?q0" by (rule requests_resuming_wf)
  have n: "rq_request_count ?q0 = 7" "length (rq_list ?q0) = 2" "rq_next_sweep_ms ?q0 = 500"
    by (simp_all add: requests_resuming_def)
  obtain q1 where a: "requests_add 4 [97] 1 0 ?q0 = Some (q1, Ok 7)" "rq_wf 4 q1" "rq_next_sweep_ms q1 = 500"
    "waiting q1 = [listed 4 [97] 7 1 0]"
    using requests_add_eq [OF wf0, of "[97]" 1 0] n by (auto simp: requests_resuming_wf(2))
  have late: "request_expired_at (listed 4 [97] 7 1 0) 1000" by code_simp
  have due: "\<not> sint (1000 - 500 :: u32) < 0" by code_simp
  obtain q2 e where b: "requests_on_tick 1000 q1 = Some (q2, e)" "e = [listed 4 [97] 7 1 0]"
    using requests_on_tick_eq [OF a(2), of 1000] a(3,4) late due by auto
  have run: "rq_run (2 ^ 32 - 1) 4 ?q0 1 ([] @ e) q2"
    using rq_run.ticked [OF rq_run.added [OF rq_run.start a(1)] b(1)] by simp
  have "map rr_id e = [7]" using b(2) by (simp add: listed_def)
  moreover have "mset (map rr_id (e @ waiting q2)) = {#7#}"
    using conjunct1 [OF requests_end_exactly_once [OF run]] by simp
  ultimately show ?thesis using run by (intro exI [of _ q2] exI [of _ e]) simp
qed

text \<open>Property C11. A call is exactly a well-formed request for the first service that stands in front of the
  topic. In a table of names without a NUL the dispatch never panics, and it calls the handler of the \<open>i\<close>-th
  service with a header and data if and only if the body is that header and that data with the length the
  header announces, the topic has the length of the name and the request suffix, the name is in front of
  the topic, and no earlier service stops the walk.\<close>

theorem service_call_iff:
  assumes wf: "svt_wf cap t" and nul: "\<forall>p \<in> set (svt_abs t). 0 \<notin> set (fst p)"
  shows "(\<exists>r. service_lookup topic body t = Some r) \<and>
    (service_lookup topic body t = Some (Call i name h header data) \<longleftrightarrow>
       i < length (svt_abs t) \<and> svt_abs t ! i = (name, h) \<and>
       body = request_header_wire header @ data \<and> length data = unat (qh_data_size header) \<and>
       length topic = length name + length REQUEST_SUFFIX \<and> take (length name) topic = name \<and>
       (\<forall>j < i. \<not> stops_at (topic @ body) (fst (svt_abs t ! j))))"
proof -
  let ?P = "\<lambda>p. stops_at (topic @ body) (fst p)"
  obtain r where r: "service_lookup topic body t = Some r"
    "case find_index ?P (svt_abs t) of None \<Rightarrow> r = NoService
     | Some k \<Rightarrow> decide k (fst (svt_abs t ! k)) (snd (svt_abs t ! k)) topic body r"
    using service_lookup_eq [OF wf nul] by blast
  have len4: "length REQUEST_SUFFIX = 4" by (simp add: REQUEST_SUFFIX_def)
  have front: "take (length name) (topic @ body) = name \<longleftrightarrow> take (length name) topic = name"
    if "length topic = length name + 4" using that by simp
  have hdr: "length (request_header_wire g) = REQUEST_HEADER_LEN" for g by (rule rqh.length_wire)
  have inj: "request_header_wire g @ xs = request_header_wire g' @ ys \<longleftrightarrow> g = g' \<and> xs = ys" for g g' xs ys
    using hdr rqh.wire_inject by (metis append_eq_append_conv)
  have "r = Call i name h header data \<longleftrightarrow>
       i < length (svt_abs t) \<and> svt_abs t ! i = (name, h) \<and>
       body = request_header_wire header @ data \<and> length data = unat (qh_data_size header) \<and>
       length topic = length name + 4 \<and> take (length name) topic = name \<and>
       (\<forall>j < i. \<not> ?P (svt_abs t ! j))" (is "_ \<longleftrightarrow> ?R")
  proof
    assume c: "r = Call i name h header data"
    obtain k where k: "find_index ?P (svt_abs t) = Some k"
      "decide k (fst (svt_abs t ! k)) (snd (svt_abs t ! k)) topic body r"
      using r(2) c by (cases "find_index ?P (svt_abs t)") auto
    have d: "k = i" "fst (svt_abs t ! k) = name" "snd (svt_abs t ! k) = h" "body = request_header_wire header @ data"
      "length data = unat (qh_data_size header)" "length topic = length name + 4"
      "take (length name) (topic @ body) = name"
      using k(2) c by (auto simp: decide_def simp del: take_append split: if_splits)
    have "\<forall>j < i. \<not> ?P (svt_abs t ! j)" using find_index_first [OF k(1)] d(1) by simp
    then show ?R using d front find_index_Some(1) [OF k(1)] by (metis prod.collapse)
  next
    assume R: ?R
    have stop: "?P (svt_abs t ! i)" using R front by (simp add: stops_at_def del: take_append)
    then have k: "find_index ?P (svt_abs t) = Some i" using R by (intro find_indexI) auto
    then have "decide i name h topic body r" using r(2) R by simp
    moreover have "\<not> length body < REQUEST_HEADER_LEN" using R hdr by simp
    ultimately show "r = Call i name h header data"
      using R front inj unfolding decide_def by (auto simp del: take_append)
  qed
  then show ?thesis using r(1) len4 by simp
qed

text \<open>A table of two services, the first of which the topic does not reach.\<close>

theorem service_call_iff_witness:
  "\<exists>t :: nat ServiceTable. svt_abs t = [([98], 1), ([97], 2)] \<and>
     service_lookup [97, 0x2f, 0x72, 0x65, 0x71] [5, 0, 0, 0, 1, 0, 0, 0, 9] t =
       Some (Call 1 [97] 2 \<lparr>qh_id = 5, qh_data_size = 1\<rparr> [9])"
proof -
  let ?h = "\<lparr>qh_id = 5, qh_data_size = 1\<rparr>"
  have new: "svt_wf 4 (service_table_new 2 :: nat ServiceTable)" "svt_abs (service_table_new 2 :: nat ServiceTable) = []"
    by (rule service_table_new_wf)+
  obtain t1 where t1: "svt_wf 4 t1" "svt_abs t1 = [([98], 1 :: nat)]" "length (svt_services t1) = 2"
    using service_add_eq [OF new(1), of "[98]" 1] new(2) by (auto simp: service_table_new_def)
  obtain t where t: "svt_wf 4 t" "svt_abs t = [([98], 1), ([97], 2 :: nat)]"
    using service_add_eq [OF t1(1), of "[97]" 2] t1(2,3) by auto
  have nul: "\<forall>p \<in> set (svt_abs t). 0 \<notin> set (fst p)" using t(2) by simp
  have body: "[5, 0, 0, 0, 1, 0, 0, 0, 9] = request_header_wire ?h @ [9]" by code_simp
  have "service_lookup [97, 0x2f, 0x72, 0x65, 0x71] (request_header_wire ?h @ [9]) t = Some (Call 1 [97] 2 ?h [9])"
    using conjunct2 [OF service_call_iff [OF t(1) nul, of "[97, 0x2f, 0x72, 0x65, 0x71]" "request_header_wire ?h @ [9]" 1 "[97]" 2 ?h "[9]"]]
      t(2) by (simp add: REQUEST_SUFFIX_def stops_at_def)
  then show ?thesis using t(2) unfolding body by blast
qed

text \<open>Property C12. A request and its reply make a round trip. A node that made fewer than \<open>2 ^ 32\<close> requests, in
  whatever run of requests, bodies and ticks, and has room for one more takes an id no request of the run
  had; the request, its header encoded by this crate and published on the service's request topic, calls
  exactly that service's handler at a node where no other service stands in front of it, with the id and
  the data; and the reply, carrying that id to the asker, is matched to the request and to no other,
  hands over its data and takes the request off the list; the same reply again finds nothing. The name of
  the service is no longer than the list stores, no service of the handling node has a NUL in its name, data and answer are shorter than \<open>2 ^ 32\<close> bytes, as their
  headers count them, and the answer, a slice, is no longer than \<open>usize\<close> counts.\<close>

theorem service_exchange:
  assumes run: "rq_run um cap (requests_resuming m cap c t0) k ended q" "k < 2 ^ 32"
    and q: "length (waiting q) < m" "length service \<le> cap"
    and t: "svt_wf cap' t" "\<forall>p \<in> set (svt_abs t). 0 \<notin> set (fst p)" "i < length (svt_abs t)" "svt_abs t ! i = (service, h)"
    and sent: "request_header_encode \<lparr>qh_id = rq_request_count q, qh_data_size = of_nat (length data)\<rparr> (replicate 8 0) = Some (qh, Ok ())"
      "length data < 2 ^ 32" "service_topic (replicate (length service + 4) 0) service REQUEST_SUFFIX = Some (topic, Ok n)"
    and first: "\<forall>j < i. \<not> stops_at (topic @ qh @ data) (fst (svt_abs t ! j))"
    and answered: "reply_header_encode \<lparr>ph_target_node_id = node, ph_id = rq_request_count q, ph_data_size = of_nat (length answer)\<rparr>
        (replicate 16 0) = Some (ph, Ok ())" "length answer < 2 ^ 32" "length answer \<le> um"
  shows "\<exists>q1 q2 r. requests_add cap service timeout_s now q = Some (q1, Ok (rq_request_count q)) \<and>
    rq_request_count q \<notin> rr_id ` set (ended @ waiting q) \<and>
    service_lookup topic (qh @ data) t =
      Some (Call i service h \<lparr>qh_id = rq_request_count q, qh_data_size = of_nat (length data)\<rparr> data) \<and>
    on_reply um node (ph @ answer) q1 = Some (q2, Answered r answer) \<and> request_service r = Some service \<and>
    waiting q2 = waiting q \<and> (\<exists>q3. on_reply um node (ph @ answer) q2 = Some (q3, Unknown))"
proof -
  let ?id = "rq_request_count q"
  let ?qh = "\<lparr>qh_id = ?id, qh_data_size = of_nat (length data)\<rparr>"
  let ?ph = "\<lparr>ph_target_node_id = node, ph_id = ?id, ph_data_size = of_nat (length answer)\<rparr>"
  let ?r = "listed cap service ?id timeout_s now"
  note wf = conjunct1 [OF rq_run_conserves [OF run(1) requests_resuming_wf(1,2)]]
  have room: "length (waiting q) < length (rq_list q)"
    using rq_run_conserves [OF run(1) requests_resuming_wf(1,2)] q(1) by (simp add: requests_resuming_def)
  note new = next_id_fresh [OF run]
  then have fresh: "\<forall>r \<in> set (waiting q). rr_id r \<noteq> ?id" by (metis UnCI image_eqI set_append)
  have qh: "qh = request_header_wire ?qh"
    using sent(1) rqh.encode_ok [of "replicate 8 0" ?qh] rqh.length_wire [of ?qh] by (simp add: REQUEST_HEADER_LEN_def put_def)
  have ph: "ph = reply_header_wire ?ph"
    using answered(1) rph.encode_ok [of "replicate 16 0" ?ph] rph.length_wire [of ?ph] by (simp add: REPLY_HEADER_LEN_def put_def)
  have topic: "topic = service @ REQUEST_SUFFIX"
    using sent(3) by (simp add: service_topic_def REQUEST_SUFFIX_def copy_at_def put_def Let_def)
  have size: "unat (of_nat k :: u32) = k" if "k < 2 ^ 32" for k
    using that by (simp add: unsigned_of_nat take_bit_nat_eq_self)
  obtain q1 where q1: "requests_add cap service timeout_s now q = Some (q1, Ok ?id)" "rq_wf cap q1" "waiting q1 = waiting q @ [?r]"
    using requests_add_eq [OF wf, of service timeout_s now] room q(2) by (auto simp: not_less split: if_splits)
  have call: "service_lookup topic (qh @ data) t = Some (Call i service h ?qh data)"
    using conjunct2 [OF service_call_iff [OF t(1,2), of topic "qh @ data" i service h ?qh data]] t(3,4) first
      size [OF sent(2)] by (simp add: topic qh)
  have id: "rr_id ?r = ?id" by (simp add: listed_def)
  have find: "List.find (\<lambda>r. rr_id r = ?id) (waiting q1) = Some ?r"
    unfolding q1(3) by (rule find_snoc) (use fresh id in simp_all)
  have gone: "remove_first (\<lambda>r. rr_id r = ?id) (waiting q1) = waiting q"
    unfolding q1(3) by (rule remove_first_snoc) (use fresh id in simp_all)
  obtain q2 where q2: "on_reply um node (ph @ answer) q1 = Some (q2, Answered ?r answer)" "rq_wf cap q2" "waiting q2 = waiting q"
    using on_reply_eq [OF q1(2), of um node ?ph answer] find gone size [OF answered(2)] answered(3) by (auto simp: ph)
  have "List.find (\<lambda>r. rr_id r = ?id) (waiting q2) = None" using fresh q2(3) by (simp add: find_None_iff)
  then obtain q3 where "on_reply um node (ph @ answer) q2 = Some (q3, Unknown)"
    using on_reply_eq [OF q2(2), of um node ?ph answer] by (auto simp: ph)
  then show ?thesis using q1(1) call q2 request_service_listed [OF q(2)] new by blast
qed

text \<open>An empty list, a table of one service.\<close>

theorem service_exchange_witness:
  "\<exists>q1 q2 r t. requests_add 4 [97] 1 0 (requests_new 2 4) = Some (q1, Ok 0) \<and>
     service_add 4 [97] (3 :: nat) (service_table_new 2) = Some (t, Ok ()) \<and>
     service_lookup [97, 0x2f, 0x72, 0x65, 0x71] [0, 0, 0, 0, 1, 0, 0, 0, 9] t =
       Some (Call 0 [97] 3 \<lparr>qh_id = 0, qh_data_size = 1\<rparr> [9]) \<and>
     on_reply (2 ^ 32 - 1) 8 ([8, 0, 0, 0, 0, 0, 0, 0, 0, 0, 0, 0, 2, 0, 0, 0] @ [6, 7]) q1 = Some (q2, Answered r [6, 7]) \<and>
     waiting q2 = []"
proof -
  let ?q = "requests_new 2 4"
  have run: "rq_run (2 ^ 32 - 1) 4 (requests_resuming 2 4 0 500) 0 [] ?q"
    using rq_run.start by (simp add: requests_new_def EXPIRY_PERIOD_MS_def)
  have q: "(0 :: nat) < 2 ^ 32" "length (waiting ?q) < 2" "length [97 :: u8] \<le> 4" "rq_request_count ?q = 0" "waiting ?q = []"
    using requests_resuming_wf [of 4 2] by (simp_all add: requests_new_def requests_resuming_def waiting_def)
  have new: "svt_wf 4 (service_table_new 2 :: nat ServiceTable)" "svt_abs (service_table_new 2 :: nat ServiceTable) = []"
    by (rule service_table_new_wf)+
  obtain t where t: "service_add 4 [97] (3 :: nat) (service_table_new 2) = Some (t, Ok ())" "svt_wf 4 t" "svt_abs t = [([97], 3)]"
    using service_add_eq [OF new(1), of "[97]" 3] new(2) by (auto simp: service_table_new_def)
  have nul: "\<forall>p \<in> set (svt_abs t). 0 \<notin> set (fst p)" "0 < length (svt_abs t)" "svt_abs t ! 0 = ([97], 3)" using t(3) by simp_all
  have e: "request_header_encode \<lparr>qh_id = rq_request_count ?q, qh_data_size = of_nat (length [9 :: u8])\<rparr> (replicate 8 0) =
      Some ([0, 0, 0, 0, 1, 0, 0, 0], Ok ())"
    "service_topic (replicate (length [97 :: u8] + 4) 0) [97] REQUEST_SUFFIX = Some ([97, 0x2f, 0x72, 0x65, 0x71], Ok 5)"
    "reply_header_encode \<lparr>ph_target_node_id = 8, ph_id = rq_request_count ?q, ph_data_size = of_nat (length [6, 7 :: u8])\<rparr>
        (replicate 16 0) = Some ([8, 0, 0, 0, 0, 0, 0, 0, 0, 0, 0, 0, 2, 0, 0, 0], Ok ())"
    by code_simp+
  have l: "length [9 :: u8] < 2 ^ 32" "length [6, 7 :: u8] < 2 ^ 32" "length [6, 7 :: u8] \<le> 2 ^ 32 - 1" by simp_all
  have none: "\<forall>j < 0. \<not> stops_at ([97, 0x2f, 0x72, 0x65, 0x71] @ [0, 0, 0, 0, 1, 0, 0, 0] @ [9]) (fst (svt_abs t ! j))" by simp
  show ?thesis
    using service_exchange [OF run q(1-3) t(2) nul e(1) l(1) e(2) none e(3) l(2,3), of 1 0] t(1) q(4,5) by auto
qed

end
