(* ===== verification/Bcmp_Ping.thy ===== *)
theory Bcmp_Ping
  imports Le
begin

text \<open>
  Two families of BCMP bodies: the echo request and reply (\<open>bcmp/ping.rs\<close>), interpretations of
  \<open>message_codec\<close>, and the system-time messages (\<open>bcmp/time.rs\<close>), interpretations of
  \<open>fixed_codec\<close>; with the tests a node makes before it acts on one.
\<close>

section \<open>Echo\<close>

definition ECHO_HEADER_LEN :: nat where "ECHO_HEADER_LEN = 14"
definition MAX_ECHO_PAYLOAD :: nat where "MAX_ECHO_PAYLOAD = 65535"

text \<open>What both messages share is decoded and encoded by one pair of functions: the node id, \<open>id\<close>,
  \<open>seq_num\<close> and the payload.\<close>

definition echo_decode_parts :: "bytes \<Rightarrow> (BmWireError, u64 \<times> u16 \<times> u16 \<times> bytes) result option" where
  "echo_decode_parts buf = try_ok (prefix ECHO_HEADER_LEN buf) (\<lambda>head. do {
     node_id \<leftarrow> u64_at head 0;
     ident \<leftarrow> u16_at head 8;
     seq_num \<leftarrow> u16_at head 10;
     len \<leftarrow> u16_at head 12;
     let payload_len = unat len;
     (case range_at buf ECHO_HEADER_LEN (ECHO_HEADER_LEN + payload_len) of
        None \<Rightarrow> Some (Err Truncated)
      | Some payload \<Rightarrow> Some (Ok (node_id, ident, seq_num, payload))) })"

definition echo_encode_parts ::
  "bytes \<Rightarrow> u64 \<Rightarrow> u16 \<Rightarrow> u16 \<Rightarrow> bytes \<Rightarrow> (bytes \<times> (BmWireError, nat) result) option" where
  "echo_encode_parts buf node_id ident seq_num payload =
     (if MAX_ECHO_PAYLOAD < length payload then Some (buf, Err Invalid)
      else
        let stop = ECHO_HEADER_LEN + length payload in
        if length buf < stop then Some (buf, Err Truncated)
        else do {
          buf \<leftarrow> copy_at buf 0 (to_le 8 node_id);
          buf \<leftarrow> copy_at buf 8 (to_le 2 ident);
          buf \<leftarrow> copy_at buf 10 (to_le 2 seq_num);
          buf \<leftarrow> copy_at buf 12 (to_le 2 (of_nat (length payload) :: u16));
          buf \<leftarrow> copy_at buf ECHO_HEADER_LEN payload;
          Some (buf, Ok stop) })"

record EchoRequest =
  er_target_node_id :: u64
  er_id :: u16
  er_seq_num :: u16
  er_payload :: bytes

record EchoReply =
  ep_node_id :: u64
  ep_id :: u16
  ep_seq_num :: u16
  ep_payload :: bytes

definition echo_request_decode :: "EchoRequest decoder" where
  "echo_request_decode buf = do {
     r \<leftarrow> echo_decode_parts buf;
     try_ok r (\<lambda>(t, i, s, p). Some (Ok \<lparr>er_target_node_id = t, er_id = i, er_seq_num = s, er_payload = p\<rparr>)) }"

definition echo_request_encoded_len :: "EchoRequest \<Rightarrow> nat" where
  "echo_request_encoded_len r = ECHO_HEADER_LEN + length (er_payload r)"

definition echo_request_encode :: "EchoRequest msg_encoder" where
  "echo_request_encode r buf = echo_encode_parts buf (er_target_node_id r) (er_id r) (er_seq_num r) (er_payload r)"

definition into_reply :: "EchoRequest \<Rightarrow> u64 \<Rightarrow> EchoReply" where
  "into_reply r node_id = \<lparr>ep_node_id = node_id, ep_id = er_id r, ep_seq_num = er_seq_num r, ep_payload = er_payload r\<rparr>"

definition echo_reply_decode :: "EchoReply decoder" where
  "echo_reply_decode buf = do {
     r \<leftarrow> echo_decode_parts buf;
     try_ok r (\<lambda>(n, i, s, p). Some (Ok \<lparr>ep_node_id = n, ep_id = i, ep_seq_num = s, ep_payload = p\<rparr>)) }"

definition echo_reply_encoded_len :: "EchoReply \<Rightarrow> nat" where
  "echo_reply_encoded_len r = ECHO_HEADER_LEN + length (ep_payload r)"

definition echo_reply_encode :: "EchoReply msg_encoder" where
  "echo_reply_encode r buf = echo_encode_parts buf (ep_node_id r) (ep_id r) (ep_seq_num r) (ep_payload r)"

definition answers :: "EchoReply \<Rightarrow> u16 \<Rightarrow> bytes option \<Rightarrow> bool" where
  "answers r our_id expected_payload \<longleftrightarrow>
     (case expected_payload of None \<Rightarrow> 0 | Some e \<Rightarrow> length e) = length (ep_payload r) \<and>
     our_id = ep_id r \<and>
     (case expected_payload of None \<Rightarrow> True | Some e \<Rightarrow> e = ep_payload r)"

definition echo_wire :: "u64 \<Rightarrow> u16 \<Rightarrow> u16 \<Rightarrow> bytes \<Rightarrow> bytes" where
  "echo_wire n i s p = to_le 8 n @ to_le 2 i @ to_le 2 s @ to_le 2 (of_nat (length p) :: u16) @ p"

lemma length_echo_wire [simp]: "length (echo_wire n i s p) = 14 + length p"
  by (simp add: echo_wire_def del: to_le_numeral)

lemma echo_encode_parts_eq:
  "length p \<le> 65535 \<Longrightarrow> 14 + length p \<le> length buf \<Longrightarrow>
   echo_encode_parts buf n i s p = Some (put buf 0 (echo_wire n i s p), Ok (14 + length p))"
  by (simp add: echo_encode_parts_def ECHO_HEADER_LEN_def MAX_ECHO_PAYLOAD_def Let_def buf_simps put_put_seq echo_wire_def
      del: to_le_numeral)

lemma unat_u16_length: "length p \<le> 65535 \<Longrightarrow> unat (of_nat (length p) :: u16) = length p"
  by (simp add: unsigned_of_nat take_bit_nat_eq_self)

lemma echo_decode_parts_wire:
  assumes "length p \<le> 65535"
  shows "echo_decode_parts (echo_wire n i s p @ rest) = Some (Ok (n, i, s, p))"
proof -
  have h: "prefix ECHO_HEADER_LEN (echo_wire n i s p @ rest) =
      Ok (to_le 8 n @ to_le 2 i @ to_le 2 s @ to_le 2 (of_nat (length p) :: u16))"
    by (simp add: prefix_def echo_wire_def ECHO_HEADER_LEN_def del: to_le_numeral)
  have r: "range_at (echo_wire n i s p @ rest) 14 (14 + length p) = Some p"
    by (simp add: range_at_def echo_wire_def subslice_def del: to_le_numeral)
  show ?thesis
    unfolding echo_decode_parts_def h
    using r unat_u16_length [OF assms]
    by (simp add: buf_simps ECHO_HEADER_LEN_def del: to_le_numeral)
qed

interpretation echo_request: message_codec echo_request_encode echo_request_decode
  "\<lambda>r. echo_wire (er_target_node_id r) (er_id r) (er_seq_num r) (er_payload r)" "\<lambda>r. length (er_payload r) \<le> 65535"
  by unfold_locales
    (simp_all add: echo_request_encode_def echo_request_decode_def echo_encode_parts_eq echo_decode_parts_wire,
     simp_all add: echo_encode_parts_def MAX_ECHO_PAYLOAD_def ECHO_HEADER_LEN_def)

interpretation echo_reply: message_codec echo_reply_encode echo_reply_decode
  "\<lambda>r. echo_wire (ep_node_id r) (ep_id r) (ep_seq_num r) (ep_payload r)" "\<lambda>r. length (ep_payload r) \<le> 65535"
  by unfold_locales
    (simp_all add: echo_reply_encode_def echo_reply_decode_def echo_encode_parts_eq echo_decode_parts_wire,
     simp_all add: echo_encode_parts_def MAX_ECHO_PAYLOAD_def ECHO_HEADER_LEN_def)

lemma echo_decode_parts_total: "\<exists>r. echo_decode_parts buf = Some r"
  by (cases "14 \<le> length buf")
    (auto simp: echo_decode_parts_def ECHO_HEADER_LEN_def buf_simps Let_def split: option.split)

section \<open>System time\<close>

record SystemTimeHeader =
  th_target_node_id :: u64
  th_source_node_id :: u64

definition TIME_HEADER_LEN :: nat where "TIME_HEADER_LEN = 16"

definition time_header_decode :: "SystemTimeHeader decoder" where
  "time_header_decode buf = try_ok (prefix TIME_HEADER_LEN buf) (\<lambda>b. do {
     t \<leftarrow> u64_at b 0;
     s \<leftarrow> u64_at b 8;
     Some (Ok \<lparr>th_target_node_id = t, th_source_node_id = s\<rparr>) })"

definition time_header_encode :: "SystemTimeHeader encoder" where
  "time_header_encode h buf =
     (if length buf < TIME_HEADER_LEN then Some (buf, Err Truncated)
      else do {
        buf \<leftarrow> copy_at buf 0 (to_le 8 (th_target_node_id h));
        buf \<leftarrow> copy_at buf 8 (to_le 8 (th_source_node_id h));
        Some (buf, Ok ()) })"

definition time_is_local :: "SystemTimeHeader \<Rightarrow> u64 \<Rightarrow> bool" where
  "time_is_local h our_node_id \<longleftrightarrow> th_target_node_id h = our_node_id \<or> th_target_node_id h = 0"

definition is_addressed_exactly_to :: "SystemTimeHeader \<Rightarrow> u64 \<Rightarrow> bool" where
  "is_addressed_exactly_to h our_node_id \<longleftrightarrow> th_target_node_id h = our_node_id"

record SystemTimeRequest =
  tq_header :: SystemTimeHeader

definition time_request_decode :: "SystemTimeRequest decoder" where
  "time_request_decode buf = do {
     r \<leftarrow> time_header_decode buf;
     try_ok r (\<lambda>h. Some (Ok \<lparr>tq_header = h\<rparr>)) }"

definition time_request_encode :: "SystemTimeRequest encoder" where
  "time_request_encode r buf = time_header_encode (tq_header r) buf"

definition time_request_is_for :: "SystemTimeRequest \<Rightarrow> u64 \<Rightarrow> bool" where
  "time_request_is_for r our_node_id = is_addressed_exactly_to (tq_header r) our_node_id"

text \<open>\<open>SystemTimeResponse\<close> and \<open>SystemTimeSet\<close> have the same fields and take their codec from one macro.\<close>

record Timestamped =
  ts_header :: SystemTimeHeader
  ts_utc_time_us :: u64

type_synonym SystemTimeResponse = Timestamped
type_synonym SystemTimeSet = Timestamped

definition TIMESTAMPED_LEN :: nat where "TIMESTAMPED_LEN = TIME_HEADER_LEN + 8"

definition timestamped_decode :: "Timestamped decoder" where
  "timestamped_decode buf = try_ok (prefix TIMESTAMPED_LEN buf) (\<lambda>b. do {
     r \<leftarrow> time_header_decode b;
     try_ok r (\<lambda>h. do {
       t \<leftarrow> u64_at b TIME_HEADER_LEN;
       Some (Ok \<lparr>ts_header = h, ts_utc_time_us = t\<rparr>) }) })"

definition timestamped_encode :: "Timestamped encoder" where
  "timestamped_encode m buf =
     (if length buf < TIMESTAMPED_LEN then Some (buf, Err Truncated)
      else do {
        (buf, r) \<leftarrow> time_header_encode (ts_header m) buf;
        (case r of
           Err e \<Rightarrow> Some (buf, Err e)
         | Ok _ \<Rightarrow> do {
             buf \<leftarrow> copy_at buf TIME_HEADER_LEN (to_le 8 (ts_utc_time_us m));
             Some (buf, Ok ()) }) })"

definition time_response_is_for :: "SystemTimeResponse \<Rightarrow> u64 \<Rightarrow> bool" where
  "time_response_is_for m our_node_id = is_addressed_exactly_to (ts_header m) our_node_id"

definition time_set_is_for :: "SystemTimeSet \<Rightarrow> u64 \<Rightarrow> bool" where
  "time_set_is_for m our_node_id = time_is_local (ts_header m) our_node_id"

definition time_header_wire :: "SystemTimeHeader \<Rightarrow> bytes" where
  "time_header_wire h = to_le 8 (th_target_node_id h) @ to_le 8 (th_source_node_id h)"

definition timestamped_wire :: "Timestamped \<Rightarrow> bytes" where
  "timestamped_wire m = time_header_wire (ts_header m) @ to_le 8 (ts_utc_time_us m)"

lemma length_time_header_wire [simp]: "length (time_header_wire h) = 16"
  by (simp add: time_header_wire_def del: to_le_numeral)

interpretation time_header: fixed_codec TIME_HEADER_LEN time_header_encode time_header_decode time_header_wire
proof unfold_locales
  have n: "TIME_HEADER_LEN = 16" by (simp add: TIME_HEADER_LEN_def)
  show "length (time_header_wire h) = TIME_HEADER_LEN" for h by (simp add: n)
  show "time_header_encode h buf = Some (buf, Err Truncated)" if "length buf < TIME_HEADER_LEN" for h buf
    using that by (simp add: time_header_encode_def)
  show "time_header_encode h buf = Some (put buf 0 (time_header_wire h), Ok ())"
    if "TIME_HEADER_LEN \<le> length buf" for h buf
    using that by (simp add: time_header_encode_def time_header_wire_def n buf_simps put_put_seq del: to_le_numeral)
  show "time_header_decode buf = Some (Err Truncated)" if "length buf < TIME_HEADER_LEN" for buf
    using that by (simp add: time_header_decode_def buf_simps)
  show "time_header_decode (time_header_wire h @ rest) = Some (Ok h)" for h rest
    by (simp add: time_header_decode_def time_header_wire_def n buf_simps del: to_le_numeral)
  show "\<exists>h. time_header_wire h = buf" if "length buf = TIME_HEADER_LEN" for buf
    using that
    by (intro exI [of _ "\<lparr>th_target_node_id = from_le (subslice buf 0 8), th_source_node_id = from_le (subslice buf 8 8)\<rparr>"])
       (simp add: time_header_wire_def n join_simps del: to_le_numeral)
qed

interpretation timestamped: fixed_codec TIMESTAMPED_LEN timestamped_encode timestamped_decode timestamped_wire
proof unfold_locales
  have n: "TIMESTAMPED_LEN = 24" "TIME_HEADER_LEN = 16" by (simp_all add: TIMESTAMPED_LEN_def TIME_HEADER_LEN_def)
  show "length (timestamped_wire m) = TIMESTAMPED_LEN" for m by (simp add: timestamped_wire_def n del: to_le_numeral)
  show "timestamped_encode m buf = Some (buf, Err Truncated)" if "length buf < TIMESTAMPED_LEN" for m buf
    using that by (simp add: timestamped_encode_def)
  show "timestamped_encode m buf = Some (put buf 0 (timestamped_wire m), Ok ())" if "TIMESTAMPED_LEN \<le> length buf" for m buf
    using that time_header.encode_ok [of buf "ts_header m"]
    by (simp add: timestamped_encode_def timestamped_wire_def n buf_simps put_put_seq del: to_le_numeral)
  show "timestamped_decode buf = Some (Err Truncated)" if "length buf < TIMESTAMPED_LEN" for buf
    using that by (simp add: timestamped_decode_def buf_simps)
  show "timestamped_decode (timestamped_wire m @ rest) = Some (Ok m)" for m rest
    using time_header.decode_wire [of "ts_header m" "to_le 8 (ts_utc_time_us m)"]
    by (simp add: timestamped_decode_def timestamped_wire_def prefix_def n buf_simps del: to_le_numeral)
  show "\<exists>m. timestamped_wire m = buf" if "length buf = TIMESTAMPED_LEN" for buf
  proof -
    have "length (take 16 buf) = TIME_HEADER_LEN" using that n by simp
    from time_header.wire_surj [OF this] obtain h where "time_header_wire h = take 16 buf" by blast
    then have "timestamped_wire \<lparr>ts_header = h, ts_utc_time_us = from_le (drop 16 buf)\<rparr> = buf"
      using that n by (simp add: timestamped_wire_def del: to_le_numeral)
    then show ?thesis by blast
  qed
qed

end
