(* ===== verification/Bcmp_Neighbors.thy ===== *)
theory Bcmp_Neighbors
  imports Le Util Bounded_Array
begin

text \<open>
  \<open>bcmp/neighbors.rs\<close>: the neighbour-table request and reply, and the state of the node that asks:
  the target, the callback and the timer of one request.
\<close>

section \<open>The bodies\<close>

definition NEIGHBOR_TABLE_MAX_LEN :: nat where "NEIGHBOR_TABLE_MAX_LEN = 1024"
definition NEIGHBOR_REQUEST_TIMEOUT_MS :: u32 where "NEIGHBOR_REQUEST_TIMEOUT_MS = 1000"

record NeighborTableRequest =
  nq_target_node_id :: u64

definition TABLE_REQUEST_LEN :: nat where "TABLE_REQUEST_LEN = 8"

definition table_request_decode :: "NeighborTableRequest decoder" where
  "table_request_decode buf =
     try_ok (prefix TABLE_REQUEST_LEN buf) (\<lambda>b. Some (Ok \<lparr>nq_target_node_id = from_le b\<rparr>))"

definition table_request_encode :: "NeighborTableRequest encoder" where
  "table_request_encode r buf =
     (if length buf < TABLE_REQUEST_LEN then Some (buf, Err Truncated)
      else do {
        buf \<leftarrow> copy_at buf 0 (to_le 8 (nq_target_node_id r));
        Some (buf, Ok ()) })"

record PortInfo =
  po_state :: u8
  po_port_type :: u8

definition PORT_INFO_LEN :: nat where "PORT_INFO_LEN = 2"

definition port_is_up :: "PortInfo \<Rightarrow> bool" where "port_is_up p \<longleftrightarrow> po_state p \<noteq> 0"

record NeighborInfo =
  ne_node_id :: u64
  ne_port :: u8
  ne_online :: u8

definition NEIGHBOR_INFO_LEN :: nat where "NEIGHBOR_INFO_LEN = 10"

definition neighbor_is_online :: "NeighborInfo \<Rightarrow> bool" where "neighbor_is_online n \<longleftrightarrow> ne_online n \<noteq> 0"

definition neighbor_info_decode :: "bytes \<Rightarrow> NeighborInfo option" where
  "neighbor_info_decode buf = do {
     node_id \<leftarrow> u64_at buf 0;
     port \<leftarrow> get_at buf 8;
     online \<leftarrow> get_at buf 9;
     Some \<lparr>ne_node_id = node_id, ne_port = port, ne_online = online\<rparr> }"

definition neighbor_info_encode_into :: "NeighborInfo \<Rightarrow> bytes \<Rightarrow> bytes option" where
  "neighbor_info_encode_into n buf = do {
     buf \<leftarrow> copy_at buf 0 (to_le 8 (ne_node_id n));
     buf \<leftarrow> set_at buf 8 (ne_port n);
     set_at buf 9 (ne_online n) }"

record NeighborTableReply =
  nr_node_id :: u64
  nr_ports :: bytes
  nr_neighbors :: bytes

definition TABLE_HEADER_LEN :: nat where "TABLE_HEADER_LEN = 11"

definition table_reply_decode :: "NeighborTableReply decoder" where
  "table_reply_decode buf =
     (case range_at buf 0 TABLE_HEADER_LEN of
        None \<Rightarrow> Some (Err Truncated)
      | Some head \<Rightarrow> do {
          node_id \<leftarrow> u64_at head 0;
          p \<leftarrow> get_at head 8;
          n \<leftarrow> u16_at head 9;
          let ports_bytes = unat p * PORT_INFO_LEN;
          let neighbors_bytes = unat n * NEIGHBOR_INFO_LEN;
          (case range_at buf TABLE_HEADER_LEN (TABLE_HEADER_LEN + ports_bytes + neighbors_bytes) of
             None \<Rightarrow> Some (Err Truncated)
           | Some body \<Rightarrow> do {
               ports \<leftarrow> range_at body 0 ports_bytes;
               neighbors \<leftarrow> range_at body ports_bytes (length body);
               Some (Ok \<lparr>nr_node_id = node_id, nr_ports = ports, nr_neighbors = neighbors\<rparr>) }) })"

definition port_count :: "NeighborTableReply \<Rightarrow> u8" where
  "port_count r = of_nat (length (nr_ports r) div PORT_INFO_LEN)"

definition neighbor_count :: "NeighborTableReply \<Rightarrow> u16" where
  "neighbor_count r = of_nat (length (nr_neighbors r) div NEIGHBOR_INFO_LEN)"

definition reply_ports :: "NeighborTableReply \<Rightarrow> PortInfo list option" where
  "reply_ports r = those (map (\<lambda>c. do {
     s \<leftarrow> get_at c 0;
     t \<leftarrow> get_at c 1;
     Some \<lparr>po_state = s, po_port_type = t\<rparr> }) (chunks PORT_INFO_LEN (nr_ports r)))"

definition reply_neighbors :: "NeighborTableReply \<Rightarrow> NeighborInfo list option" where
  "reply_neighbors r = those (map neighbor_info_decode (chunks NEIGHBOR_INFO_LEN (nr_neighbors r)))"

definition table_reply_encoded_len :: "NeighborTableReply \<Rightarrow> nat" where
  "table_reply_encoded_len r = TABLE_HEADER_LEN + length (nr_ports r) + length (nr_neighbors r)"

definition write_head :: "bytes \<Rightarrow> u64 \<Rightarrow> u8 \<Rightarrow> u16 \<Rightarrow> bytes option" where
  "write_head buf node_id port_len neighbor_len = do {
     buf \<leftarrow> copy_at buf 0 (to_le 8 node_id);
     buf \<leftarrow> set_at buf 8 port_len;
     copy_at buf 9 (to_le 2 neighbor_len) }"

definition table_reply_encode :: "NeighborTableReply msg_encoder" where
  "table_reply_encode r buf =
     (let stop = table_reply_encoded_len r in
      if length buf < stop then Some (buf, Err Truncated)
      else do {
        buf \<leftarrow> write_head buf (nr_node_id r) (port_count r) (neighbor_count r);
        let split = TABLE_HEADER_LEN + length (nr_ports r);
        buf \<leftarrow> copy_at buf TABLE_HEADER_LEN (nr_ports r);
        buf \<leftarrow> copy_at buf split (nr_neighbors r);
        Some (buf, Ok stop) })"

definition neighbor_table_reply_len :: "nat \<Rightarrow> nat \<Rightarrow> nat" where
  "neighbor_table_reply_len ports neighbors =
     TABLE_HEADER_LEN + ports * PORT_INFO_LEN + neighbors * NEIGHBOR_INFO_LEN"

primrec write_ports :: "PortInfo list \<Rightarrow> bytes \<Rightarrow> nat \<Rightarrow> (bytes \<times> nat) option" where
  "write_ports [] buf at = Some (buf, at)"
| "write_ports (p # ps) buf at = do {
     buf \<leftarrow> set_at buf at (po_state p);
     buf \<leftarrow> set_at buf (at + 1) (po_port_type p);
     write_ports ps buf (at + PORT_INFO_LEN) }"

primrec write_neighbors :: "NeighborInfo list \<Rightarrow> bytes \<Rightarrow> nat \<Rightarrow> (bytes \<times> nat) option" where
  "write_neighbors [] buf at = Some (buf, at)"
| "write_neighbors (n # ns) buf at = do {
     slot \<leftarrow> range_at buf at (at + NEIGHBOR_INFO_LEN);
     slot \<leftarrow> neighbor_info_encode_into n slot;
     buf \<leftarrow> copy_at buf at slot;
     write_neighbors ns buf (at + NEIGHBOR_INFO_LEN) }"

definition encode_neighbor_table_reply_from ::
  "bytes \<Rightarrow> u64 \<Rightarrow> PortInfo list \<Rightarrow> NeighborInfo list \<Rightarrow> (bytes \<times> (BmWireError, nat) result) option" where
  "encode_neighbor_table_reply_from buf node_id ports neighbors =
     (if 255 < length ports \<or> 65535 < length neighbors then Some (buf, Err Invalid)
      else
        let stop = neighbor_table_reply_len (length ports) (length neighbors) in
        if length buf < stop then Some (buf, Err Truncated)
        else do {
          buf \<leftarrow> write_head buf node_id (of_nat (length ports)) (of_nat (length neighbors));
          (buf, at) \<leftarrow> write_ports ports buf TABLE_HEADER_LEN;
          (buf, at) \<leftarrow> write_neighbors neighbors buf at;
          Some (buf, Ok stop) })"

definition encode_neighbor_table_reply ::
  "bytes \<Rightarrow> u64 \<Rightarrow> PortInfo list \<Rightarrow> NeighborInfo list \<Rightarrow> (bytes \<times> (BmWireError, nat) result) option" where
  "encode_neighbor_table_reply buf node_id ports neighbors = encode_neighbor_table_reply_from buf node_id ports neighbors"

section \<open>The requester\<close>

datatype TableRequestKind = Ignore | Report
datatype TableReplyOutcome = Rejected | Accepted | Reported

record TableRequests =
  tr_target_node_id :: u64
  tr_armed :: bool
  tr_started_ms :: "u32 option"

definition table_requests_new :: TableRequests where
  "table_requests_new = \<lparr>tr_target_node_id = 0, tr_armed = False, tr_started_ms = None\<rparr>"

definition timer_running :: "TableRequests \<Rightarrow> bool" where
  "timer_running q \<longleftrightarrow> tr_started_ms q \<noteq> None"

definition remaining_ms :: "TableRequests \<Rightarrow> u32 \<Rightarrow> u32 option" where
  "remaining_ms q now_ms =
     map_option (\<lambda>started. time_remaining started now_ms NEIGHBOR_REQUEST_TIMEOUT_MS) (tr_started_ms q)"

definition table_record :: "u32 \<Rightarrow> u64 \<Rightarrow> TableRequestKind \<Rightarrow> TableRequests \<Rightarrow> TableRequests" where
  "table_record now_ms target_node_id kind q =
     q\<lparr>tr_target_node_id := target_node_id, tr_armed := (kind = Report), tr_started_ms := Some now_ms\<rparr>"

definition table_accept :: "u64 \<Rightarrow> TableRequests \<Rightarrow> TableRequests \<times> TableReplyOutcome" where
  "table_accept reply_node_id q =
     (if tr_target_node_id q \<noteq> reply_node_id then (q, Rejected)
      else
        let q = q\<lparr>tr_started_ms := None\<rparr> in
        if tr_armed q then (q\<lparr>tr_armed := False\<rparr>, Reported) else (q, Accepted))"

definition table_on_timer :: "u32 \<Rightarrow> TableRequests \<Rightarrow> TableRequests \<times> bool" where
  "table_on_timer now_ms q =
     (if remaining_ms q now_ms \<noteq> Some 0 then (q, False)
      else (q\<lparr>tr_started_ms := None\<rparr>, True))"

section \<open>The codecs\<close>

definition table_request_wire :: "NeighborTableRequest \<Rightarrow> bytes" where
  "table_request_wire r = to_le 8 (nq_target_node_id r)"

interpretation table_request: fixed_codec TABLE_REQUEST_LEN table_request_encode table_request_decode table_request_wire
proof unfold_locales
  have n: "TABLE_REQUEST_LEN = 8" by (simp add: TABLE_REQUEST_LEN_def)
  show "length (table_request_wire r) = TABLE_REQUEST_LEN" for r by (simp add: table_request_wire_def n del: to_le_numeral)
  show "table_request_encode r buf = Some (buf, Err Truncated)" if "length buf < TABLE_REQUEST_LEN" for r buf
    using that by (simp add: table_request_encode_def)
  show "table_request_encode r buf = Some (put buf 0 (table_request_wire r), Ok ())" if "TABLE_REQUEST_LEN \<le> length buf" for r buf
    using that by (simp add: table_request_encode_def table_request_wire_def n buf_simps del: to_le_numeral)
  show "table_request_decode buf = Some (Err Truncated)" if "length buf < TABLE_REQUEST_LEN" for buf
    using that by (simp add: table_request_decode_def buf_simps)
  show "table_request_decode (table_request_wire r @ rest) = Some (Ok r)" for r rest
    by (simp add: table_request_decode_def table_request_wire_def n buf_simps del: to_le_numeral)
  show "\<exists>r. table_request_wire r = buf" if "length buf = TABLE_REQUEST_LEN" for buf
    using that by (intro exI [of _ "\<lparr>nq_target_node_id = from_le buf\<rparr>"]) (simp add: table_request_wire_def n del: to_le_numeral)
qed

text \<open>The two arrays: what the iterators read is what the loops write.\<close>

definition port_wire :: "PortInfo \<Rightarrow> bytes" where "port_wire p = [po_state p, po_port_type p]"

definition neighbor_wire :: "NeighborInfo \<Rightarrow> bytes" where
  "neighbor_wire n = to_le 8 (ne_node_id n) @ [ne_port n, ne_online n]"

lemma length_entry_wires [simp]: "length (port_wire p) = 2" "length (neighbor_wire n) = 10"
  by (simp_all add: port_wire_def neighbor_wire_def del: to_le_numeral)

lemma length_concat_same: "(\<And>x. x \<in> set xs \<Longrightarrow> length (f x) = n) \<Longrightarrow> length (concat (map f xs)) = length xs * n"
  by (induction xs) auto

lemma write_ports_eq:
  "at + 2 * length ps \<le> length buf \<Longrightarrow>
   write_ports ps buf at = Some (put buf at (concat (map port_wire ps)), at + 2 * length ps)"
proof (induction ps arbitrary: buf at)
  case Nil
  then show ?case by (simp add: put_def)
next
  case (Cons p ps)
  have "put (buf[at := po_state p, Suc at := po_port_type p]) (at + 2) (concat (map port_wire ps)) =
      put buf at (port_wire p @ concat (map port_wire ps))"
    using Cons.prems by (simp add: put_2 [symmetric] put_put_seq port_wire_def)
  then show ?case using Cons.IH [of "at + 2" "buf[at := po_state p, Suc at := po_port_type p]"] Cons.prems
    by (simp add: set_at_def PORT_INFO_LEN_def)
qed

lemma neighbor_info_encode_into_eq: "length s = 10 \<Longrightarrow> neighbor_info_encode_into n s = Some (neighbor_wire n)"
proof -
  assume s: "length s = 10"
  then have "neighbor_info_encode_into n s = Some (put s 0 (neighbor_wire n))"
    by (simp add: neighbor_info_encode_into_def buf_simps put_update_seq put_put_seq neighbor_wire_def del: to_le_numeral)
  then show ?thesis using s by (simp add: put_0)
qed

lemma neighbor_info_decode_wire: "neighbor_info_decode (neighbor_wire n) = Some n"
  by (simp add: neighbor_info_decode_def neighbor_wire_def buf_simps nth_append del: to_le_numeral)

lemma write_neighbors_eq:
  "at + 10 * length ns \<le> length buf \<Longrightarrow>
   write_neighbors ns buf at = Some (put buf at (concat (map neighbor_wire ns)), at + 10 * length ns)"
proof (induction ns arbitrary: buf at)
  case Nil
  then show ?case by (simp add: put_def)
next
  case (Cons n ns)
  have "put (put buf at (neighbor_wire n)) (at + 10) (concat (map neighbor_wire ns)) =
      put buf at (neighbor_wire n @ concat (map neighbor_wire ns))"
    using Cons.prems by (simp add: put_put_seq)
  then show ?case using Cons.IH [of "at + 10" "put buf at (neighbor_wire n)"] Cons.prems
    by (simp add: range_at_def copy_at_def NEIGHBOR_INFO_LEN_def neighbor_info_encode_into_eq)
qed

record table =
  ta_node_id :: u64
  ta_ports :: "PortInfo list"
  ta_neighbors :: "NeighborInfo list"

definition table_wire :: "table \<Rightarrow> bytes" where
  "table_wire t = to_le 8 (ta_node_id t) @ [of_nat (length (ta_ports t))] @ to_le 2 (of_nat (length (ta_neighbors t)) :: u16) @
     concat (map port_wire (ta_ports t)) @ concat (map neighbor_wire (ta_neighbors t))"

text \<open>A table is sent with the function that takes lists, and read through the two iterators.\<close>

definition table_encode :: "table msg_encoder" where
  "table_encode t buf = encode_neighbor_table_reply buf (ta_node_id t) (ta_ports t) (ta_neighbors t)"

definition table_decode :: "table decoder" where
  "table_decode buf = do {
     r \<leftarrow> table_reply_decode buf;
     try_ok r (\<lambda>r. do {
       ps \<leftarrow> reply_ports r;
       ns \<leftarrow> reply_neighbors r;
       Some (Ok \<lparr>ta_node_id = nr_node_id r, ta_ports = ps, ta_neighbors = ns\<rparr>) }) }"

lemma length_table_wire: "length (table_wire t) = 11 + length (ta_ports t) * 2 + length (ta_neighbors t) * 10"
  by (simp add: table_wire_def length_concat_same del: to_le_numeral length_concat)

lemma write_head_eq:
  "11 \<le> length buf \<Longrightarrow> write_head buf n p m = Some (put buf 0 (to_le 8 n @ [p] @ to_le 2 m))"
  by (simp add: write_head_def buf_simps put_update_seq put_put_seq del: to_le_numeral)

lemma table_reply_decode_wire:
  assumes "length (ta_ports t) \<le> 255" "length (ta_neighbors t) \<le> 65535"
  shows "table_reply_decode (table_wire t @ rest) = Some (Ok \<lparr>nr_node_id = ta_node_id t,
    nr_ports = concat (map port_wire (ta_ports t)), nr_neighbors = concat (map neighbor_wire (ta_neighbors t))\<rparr>)"
proof -
  let ?p = "concat (map port_wire (ta_ports t))" and ?n = "concat (map neighbor_wire (ta_neighbors t))"
  let ?head = "to_le 8 (ta_node_id t) @ [of_nat (length (ta_ports t))] @ to_le 2 (of_nat (length (ta_neighbors t)) :: u16)"
  have l: "length ?p = length (ta_ports t) * 2" "length ?n = length (ta_neighbors t) * 10"
    by (simp_all add: length_concat_same del: length_concat)
  have u: "unat (of_nat (length (ta_ports t)) :: u8) = length (ta_ports t)"
    "unat (of_nat (length (ta_neighbors t)) :: u16) = length (ta_neighbors t)"
    using assms by (simp_all add: unsigned_of_nat take_bit_nat_eq_self)
  have h: "range_at (table_wire t @ rest) 0 11 = Some ?head"
    by (simp add: range_at_def table_wire_def subslice_def del: to_le_numeral)
  have b: "range_at (table_wire t @ rest) 11 (11 + length (ta_ports t) * 2 + length (ta_neighbors t) * 10) = Some (?p @ ?n)"
    using l by (simp add: range_at_def table_wire_def subslice_def del: to_le_numeral length_concat)
  have "range_at (?p @ ?n) 0 (length (ta_ports t) * 2) = Some ?p"
    "range_at (?p @ ?n) (length (ta_ports t) * 2) (length (?p @ ?n)) = Some ?n"
    using l by (simp_all add: range_at_def subslice_def del: length_concat)
  with h b u show ?thesis
    by (simp add: table_reply_decode_def TABLE_HEADER_LEN_def PORT_INFO_LEN_def NEIGHBOR_INFO_LEN_def buf_simps nth_append
        del: to_le_numeral length_concat)
qed

interpretation table: message_codec table_encode table_decode table_wire
  "\<lambda>t. length (ta_ports t) \<le> 255 \<and> length (ta_neighbors t) \<le> 65535"
proof unfold_locales
  note [simp del] = length_concat to_le_numeral
  have l: "neighbor_table_reply_len (length (ta_ports t)) (length (ta_neighbors t)) = length (table_wire t)" for t
    by (simp add: neighbor_table_reply_len_def length_table_wire TABLE_HEADER_LEN_def PORT_INFO_LEN_def NEIGHBOR_INFO_LEN_def)
  show "table_encode t buf = Some (put buf 0 (table_wire t), Ok (length (table_wire t)))"
    if ok: "length (ta_ports t) \<le> 255 \<and> length (ta_neighbors t) \<le> 65535" "length (table_wire t) \<le> length buf" for t buf
  proof -
    let ?h = "to_le 8 (ta_node_id t) @ [of_nat (length (ta_ports t))] @ to_le 2 (of_nat (length (ta_neighbors t)) :: u16)"
    let ?p = "concat (map port_wire (ta_ports t))" and ?n = "concat (map neighbor_wire (ta_neighbors t))"
    have len: "length ?p = length (ta_ports t) * 2" "length ?n = length (ta_neighbors t) * 10"
      by (simp_all add: length_concat_same)
    have b: "11 + length (ta_ports t) * 2 + length (ta_neighbors t) * 10 \<le> length buf" using ok(2) by (simp add: length_table_wire)
    let ?b1 = "put buf 0 ?h" let ?b2 = "put ?b1 11 ?p"
    have h: "write_head buf (ta_node_id t) (of_nat (length (ta_ports t))) (of_nat (length (ta_neighbors t))) = Some ?b1"
      using b by (simp add: write_head_eq)
    have l1: "length ?b1 = length buf" using b by simp
    have p: "write_ports (ta_ports t) ?b1 11 = Some (?b2, 11 + 2 * length (ta_ports t))"
      using b l1 by (intro write_ports_eq) simp
    have l2: "length ?b2 = length buf" using b l1 len by simp
    have n: "write_neighbors (ta_neighbors t) ?b2 (11 + 2 * length (ta_ports t)) =
        Some (put ?b2 (11 + 2 * length (ta_ports t)) ?n, 11 + 2 * length (ta_ports t) + 10 * length (ta_neighbors t))"
      using b l2 by (intro write_neighbors_eq) simp
    have "?b2 = put buf 0 (?h @ ?p)" using b by (intro put_put_seq) simp_all
    moreover have "put (put buf 0 (?h @ ?p)) (11 + 2 * length (ta_ports t)) ?n = put buf 0 ((?h @ ?p) @ ?n)"
      using b len by (intro put_put_seq) simp_all
    ultimately have "put ?b2 (11 + 2 * length (ta_ports t)) ?n = put buf 0 (table_wire t)" by (simp add: table_wire_def)
    then show ?thesis using ok h p n
      by (simp add: table_encode_def encode_neighbor_table_reply_def encode_neighbor_table_reply_from_def l TABLE_HEADER_LEN_def)
  qed
  show "table_encode t buf = Some (buf, Err Truncated)"
    if "length (ta_ports t) \<le> 255 \<and> length (ta_neighbors t) \<le> 65535" "length buf < length (table_wire t)" for t buf
    using that by (simp add: table_encode_def encode_neighbor_table_reply_def encode_neighbor_table_reply_from_def l)
  show "table_encode t buf = Some (buf, Err Invalid)"
    if "\<not> (length (ta_ports t) \<le> 255 \<and> length (ta_neighbors t) \<le> 65535)" for t buf
    using that by (auto simp: table_encode_def encode_neighbor_table_reply_def encode_neighbor_table_reply_from_def)
  show "table_decode (table_wire t @ rest) = Some (Ok t)"
    if "length (ta_ports t) \<le> 255 \<and> length (ta_neighbors t) \<le> 65535" for t rest
  proof -
    have "those (map (\<lambda>c. do { s \<leftarrow> get_at c 0; k \<leftarrow> get_at c 1; Some \<lparr>po_state = s, po_port_type = k\<rparr> })
        (map port_wire (ta_ports t))) = Some (map id (ta_ports t))"
      unfolding map_map by (rule those_map) (simp add: port_wire_def get_at_def)
    moreover have "those (map neighbor_info_decode (map neighbor_wire (ta_neighbors t))) = Some (map id (ta_neighbors t))"
      unfolding map_map by (rule those_map) (simp add: neighbor_info_decode_wire)
    ultimately show ?thesis
      using that by (simp add: table_decode_def table_reply_decode_wire reply_ports_def reply_neighbors_def
          PORT_INFO_LEN_def NEIGHBOR_INFO_LEN_def chunks_concat del: map_map)
  qed
qed


lemma table_reply_decode_shape:
  shows "\<exists>r. table_reply_decode buf = Some r"
    and "table_reply_decode buf = Some (Ok r) \<Longrightarrow> \<exists>p n. p \<le> 255 \<and> n \<le> 65535 \<and>
      length (nr_ports r) = p * 2 \<and> length (nr_neighbors r) = n * 10 \<and> 11 + p * 2 + n * 10 \<le> length buf \<and>
      take (11 + p * 2 + n * 10) buf =
        to_le 8 (nr_node_id r) @ [of_nat p] @ to_le 2 (of_nat n :: u16) @ nr_ports r @ nr_neighbors r"
proof -
  note [simp del] = to_le_numeral
  note defs = table_reply_decode_def TABLE_HEADER_LEN_def PORT_INFO_LEN_def NEIGHBOR_INFO_LEN_def
  let ?p = "unat (buf ! 8)" and ?n = "unat (from_le (subslice buf 9 2) :: u16)"
  let ?m = "11 + ?p * 2 + ?n * 10"
  show "\<exists>r. table_reply_decode buf = Some r"
    by (cases "11 \<le> length buf") (auto simp: defs range_at_def get_at_def buf_simps Let_def)
  show "\<exists>p n. p \<le> 255 \<and> n \<le> 65535 \<and>
      length (nr_ports r) = p * 2 \<and> length (nr_neighbors r) = n * 10 \<and> 11 + p * 2 + n * 10 \<le> length buf \<and>
      take (11 + p * 2 + n * 10) buf =
        to_le 8 (nr_node_id r) @ [of_nat p] @ to_le 2 (of_nat n :: u16) @ nr_ports r @ nr_neighbors r"
    if ok: "table_reply_decode buf = Some (Ok r)"
  proof -
    have 11: "11 \<le> length buf" using ok by (auto simp: defs range_at_def split: if_splits)
    have m: "?m \<le> length buf" using ok 11 by (auto simp: defs range_at_def get_at_def buf_simps Let_def split: if_splits)
    have r: "r = \<lparr>nr_node_id = from_le (subslice buf 0 8), nr_ports = subslice buf 11 (?p * 2),
        nr_neighbors = subslice buf (11 + ?p * 2) (?n * 10)\<rparr>"
      using ok 11 m by (auto simp: defs range_at_def get_at_def buf_simps Let_def)
    have "?p < 2 ^ LENGTH(8)" "?n < 2 ^ LENGTH(16)" by (rule unsigned_less)+
    then have b: "?p \<le> 255" "?n \<le> 65535" by simp_all
    have "take ?m buf = subslice buf 0 ?m" by (simp add: subslice_def)
    also have "\<dots> = to_le 8 (nr_node_id r) @ [of_nat ?p] @ to_le 2 (of_nat ?n :: u16) @ nr_ports r @ nr_neighbors r"
      using 11 m by (simp add: r join_simps add.assoc)
    finally show ?thesis using b m by (intro exI [of _ ?p] exI [of _ ?n]) (simp add: r)
  qed
qed

text \<open>A reply that is passed on is passed on unchanged.\<close>

lemma table_reply_reencode:
  assumes "table_reply_decode buf = Some (Ok r)"
  shows "table_reply_encode r buf = Some (buf, Ok (table_reply_encoded_len r))"
proof -
  note [simp del] = to_le_numeral
  obtain p n where b: "p \<le> 255" "n \<le> 65535" "length (nr_ports r) = p * 2" "length (nr_neighbors r) = n * 10"
    "11 + p * 2 + n * 10 \<le> length buf"
    "take (11 + p * 2 + n * 10) buf = to_le 8 (nr_node_id r) @ [of_nat p] @ to_le 2 (of_nat n :: u16) @ nr_ports r @ nr_neighbors r"
    using table_reply_decode_shape(2) [OF assms] by blast
  let ?w = "to_le 8 (nr_node_id r) @ [of_nat p] @ to_le 2 (of_nat n :: u16) @ nr_ports r @ nr_neighbors r"
  have "table_reply_encode r buf = Some (put buf 0 ?w, Ok (table_reply_encoded_len r))"
    using b(3-5)
    by (simp add: table_reply_encode_def table_reply_encoded_len_def TABLE_HEADER_LEN_def PORT_INFO_LEN_def NEIGHBOR_INFO_LEN_def
        port_count_def neighbor_count_def write_head_eq buf_simps put_put_seq)
  moreover have "put buf 0 ?w = buf" unfolding b(6) [symmetric] using b(5) by (simp add: put_def)
  ultimately show ?thesis by simp
qed

section \<open>One request and its replies\<close>

datatype table_event = Reply u64 | Tick u32
datatype table_output = Answer TableReplyOutcome | Fired bool

fun table_step :: "table_event \<Rightarrow> TableRequests \<Rightarrow> TableRequests \<times> table_output" where
  "table_step (Reply n) q = (let (q, a) = table_accept n q in (q, Answer a))"
| "table_step (Tick t) q = (let (q, f) = table_on_timer t q in (q, Fired f))"

primrec table_run :: "table_event list \<Rightarrow> TableRequests \<Rightarrow> TableRequests \<times> table_output list" where
  "table_run [] q = (q, [])"
| "table_run (e # es) q = (let (q, a) = table_step e q; (q, as) = table_run es q in (q, a # as))"

lemma table_run_disarmed:
  "\<not> tr_armed q \<Longrightarrow> Answer Reported \<notin> set (snd (table_run es q))"
proof (induction es arbitrary: q)
  case (Cons e es)
  then show ?case by (cases e) (auto simp: table_accept_def table_on_timer_def Let_def case_prod_unfold)
qed simp

lemma table_run_stopped:
  "tr_started_ms q = None \<Longrightarrow> Fired True \<notin> set (snd (table_run es q))"
proof (induction es arbitrary: q)
  case (Cons e es)
  then show ?case by (cases e) (auto simp: table_accept_def table_on_timer_def remaining_ms_def Let_def case_prod_unfold)
qed simp

lemma table_run_reports:
  "tr_armed q \<Longrightarrow>
   count_list (snd (table_run es q)) (Answer Reported) = (if Reply (tr_target_node_id q) \<in> set es then 1 else 0)"
proof (induction es arbitrary: q)
  case (Cons e es)
  have none: "count_list (snd (table_run es q')) (Answer Reported) = 0" if "\<not> tr_armed q'" for q'
    using table_run_disarmed [OF that] by (simp add: count_list_0_iff)
  from Cons show ?case
    by (cases e) (auto simp: table_accept_def table_on_timer_def Let_def case_prod_unfold none)
qed simp


lemma table_run_fires_once:
  "count_list (snd (table_run es q)) (Fired True) \<le> 1"
proof (induction es arbitrary: q)
  case (Cons e es)
  have none: "count_list (snd (table_run es q')) (Fired True) = 0" if "tr_started_ms q' = None" for q'
    using table_run_stopped [OF that] by (simp add: count_list_0_iff)
  show ?case
  proof (cases e)
    case (Reply n)
    then show ?thesis using Cons by (simp add: Let_def case_prod_unfold)
  next
    case (Tick t)
    then show ?thesis using Cons [of q] none by (simp add: table_on_timer_def Let_def case_prod_unfold)
  qed
qed simp

lemma table_run_fires:
  "tr_started_ms q = Some t0 \<Longrightarrow>
   Fired True \<in> set (snd (table_run es q)) \<longleftrightarrow>
     (\<exists>t. Tick t \<in> set (takeWhile (\<lambda>e. e \<noteq> Reply (tr_target_node_id q)) es) \<and>
       time_remaining t0 t NEIGHBOR_REQUEST_TIMEOUT_MS = 0)"
proof (induction es arbitrary: q)
  case (Cons e es)
  have none: "Fired True \<notin> set (snd (table_run es q'))" if "tr_started_ms q' = None" for q'
    using table_run_stopped [OF that] .
  show ?case
  proof (cases e)
    case (Reply n)
    then show ?thesis using Cons.IH [of q] Cons.prems none
      by (auto simp: table_accept_def Let_def case_prod_unfold)
  next
    case (Tick t)
    then show ?thesis using Cons.IH [of q] Cons.prems none
      by (auto simp: table_on_timer_def remaining_ms_def Let_def case_prod_unfold)
  qed
qed simp

text \<open>Property C18. A neighbour table is reported once and its timer fires once. After a request to a node, however
  replies and clock readings follow each other until the next request: the table of that node is reported
  exactly once if the request asked for it and a reply of that node arrives, even one that is late, and
  never otherwise; and the timeout fires at most once, and it fires exactly when a reading finds the request
  a second old before the node has answered.\<close>

theorem table_reported_once:
  "count_list (snd (table_run es (table_record t0 target kind q))) (Answer Reported) =
     (if kind = Report \<and> Reply target \<in> set es then 1 else 0) \<and>
   count_list (snd (table_run es (table_record t0 target kind q))) (Fired True) \<le> 1 \<and>
   (Fired True \<in> set (snd (table_run es (table_record t0 target kind q))) \<longleftrightarrow>
     (\<exists>t. Tick t \<in> set (takeWhile (\<lambda>e. e \<noteq> Reply target) es) \<and>
       time_remaining t0 t NEIGHBOR_REQUEST_TIMEOUT_MS = 0))"
proof -
  let ?q = "table_record t0 target kind q"
  have "count_list (snd (table_run es ?q)) (Answer Reported) = 0" if "kind = Ignore"
    using table_run_disarmed [of ?q es] that by (simp add: table_record_def count_list_0_iff)
  moreover have "count_list (snd (table_run es ?q)) (Answer Reported) = (if Reply target \<in> set es then 1 else 0)" if "kind = Report"
    using table_run_reports [of ?q es] that by (simp add: table_record_def)
  moreover have "Fired True \<in> set (snd (table_run es ?q)) \<longleftrightarrow>
      (\<exists>t. Tick t \<in> set (takeWhile (\<lambda>e. e \<noteq> Reply target) es) \<and> time_remaining t0 t NEIGHBOR_REQUEST_TIMEOUT_MS = 0)"
    using table_run_fires [of ?q t0 es] by (simp add: table_record_def)
  ultimately show ?thesis using table_run_fires_once [of es ?q] by (cases kind) auto
qed

end
