(* ===== verification/Bcmp_Info.thy ===== *)
theory Bcmp_Info
  imports Le Bounded_Array
begin

text \<open>
  \<open>bcmp/info.rs\<close>: the device-information request and reply, the list of requests a node has
  outstanding, and the cache of what its neighbours have said of themselves.
\<close>

section \<open>The bodies\<close>

record DeviceInfoRequest =
  dq_target_node_id :: u64

definition INFO_REQUEST_LEN :: nat where "INFO_REQUEST_LEN = 8"

definition info_request_decode :: "DeviceInfoRequest decoder" where
  "info_request_decode buf =
     try_ok (prefix INFO_REQUEST_LEN buf) (\<lambda>b. Some (Ok \<lparr>dq_target_node_id = from_le b\<rparr>))"

definition info_request_encode :: "DeviceInfoRequest encoder" where
  "info_request_encode r buf =
     (if length buf < INFO_REQUEST_LEN then Some (buf, Err Truncated)
      else do {
        buf \<leftarrow> copy_at buf 0 (to_le 8 (dq_target_node_id r));
        Some (buf, Ok ()) })"

text \<open>The array \<open>[u8; 16]\<close> of a serial number.\<close>

typedef serial = "{xs :: bytes. length xs = 16}" morphisms serial_bytes Serial
  by (intro exI [of _ "replicate 16 0"]) simp

lemma length_serial_bytes [simp]: "length (serial_bytes s) = 16"
  using serial_bytes by simp

lemma serial_bytes_Serial [simp]: "length xs = 16 \<Longrightarrow> serial_bytes (Serial xs) = xs"
  by (simp add: Serial_inverse)

declare serial_bytes_inverse [simp]

record DeviceInfo =
  di_node_id :: u64
  di_vendor_id :: u16
  di_product_id :: u16
  di_serial_num :: serial
  di_git_sha :: u32
  di_ver_major :: u8
  di_ver_minor :: u8
  di_ver_rev :: u8
  di_ver_hw :: u8

definition DEVICE_INFO_LEN :: nat where "DEVICE_INFO_LEN = 36"

definition device_info_decode :: "DeviceInfo decoder" where
  "device_info_decode buf = try_ok (prefix DEVICE_INFO_LEN buf) (\<lambda>b. do {
     serial \<leftarrow> range_at b 12 28;
     serial_num \<leftarrow> copy_at (replicate 16 0) 0 serial;
     node_id \<leftarrow> u64_at b 0;
     vendor_id \<leftarrow> u16_at b 8;
     product_id \<leftarrow> u16_at b 10;
     git_sha \<leftarrow> u32_at b 28;
     ver_major \<leftarrow> get_at b 32;
     ver_minor \<leftarrow> get_at b 33;
     ver_rev \<leftarrow> get_at b 34;
     ver_hw \<leftarrow> get_at b 35;
     Some (Ok \<lparr>di_node_id = node_id, di_vendor_id = vendor_id, di_product_id = product_id, di_serial_num = Serial serial_num,
       di_git_sha = git_sha, di_ver_major = ver_major, di_ver_minor = ver_minor, di_ver_rev = ver_rev,
       di_ver_hw = ver_hw\<rparr>) })"

definition device_info_encode :: "DeviceInfo encoder" where
  "device_info_encode d buf =
     (if length buf < DEVICE_INFO_LEN then Some (buf, Err Truncated)
      else do {
        buf \<leftarrow> copy_at buf 0 (to_le 8 (di_node_id d));
        buf \<leftarrow> copy_at buf 8 (to_le 2 (di_vendor_id d));
        buf \<leftarrow> copy_at buf 10 (to_le 2 (di_product_id d));
        buf \<leftarrow> copy_at buf 12 (serial_bytes (di_serial_num d));
        buf \<leftarrow> copy_at buf 28 (to_le 4 (di_git_sha d));
        buf \<leftarrow> set_at buf 32 (di_ver_major d);
        buf \<leftarrow> set_at buf 33 (di_ver_minor d);
        buf \<leftarrow> set_at buf 34 (di_ver_rev d);
        buf \<leftarrow> set_at buf 35 (di_ver_hw d);
        Some (buf, Ok ()) })"

record DeviceInfoReply =
  dp_info :: DeviceInfo
  dp_version_string :: bytes
  dp_device_name :: bytes

definition INFO_HEADER_LEN :: nat where "INFO_HEADER_LEN = DEVICE_INFO_LEN + 2"
definition MAX_STRING_LEN :: nat where "MAX_STRING_LEN = 255"

definition info_reply_decode :: "DeviceInfoReply decoder" where
  "info_reply_decode buf =
     (case range_at buf 0 INFO_HEADER_LEN of
        None \<Rightarrow> Some (Err Truncated)
      | Some head \<Rightarrow> do {
          r \<leftarrow> device_info_decode head;
          try_ok r (\<lambda>info. do {
            v \<leftarrow> get_at head DEVICE_INFO_LEN;
            n \<leftarrow> get_at head (DEVICE_INFO_LEN + 1);
            let version_len = unat v;
            let name_len = unat n;
            (case range_at buf INFO_HEADER_LEN (INFO_HEADER_LEN + version_len + name_len) of
               None \<Rightarrow> Some (Err Truncated)
             | Some strings \<Rightarrow> do {
                 version_string \<leftarrow> range_at strings 0 version_len;
                 device_name \<leftarrow> range_at strings version_len (length strings);
                 Some (Ok \<lparr>dp_info = info, dp_version_string = version_string, dp_device_name = device_name\<rparr>) }) }) })"

definition info_reply_encoded_len :: "DeviceInfoReply \<Rightarrow> nat" where
  "info_reply_encoded_len r = INFO_HEADER_LEN + length (dp_version_string r) + length (dp_device_name r)"

definition info_reply_encode :: "DeviceInfoReply msg_encoder" where
  "info_reply_encode r buf =
     (if MAX_STRING_LEN < length (dp_version_string r) \<or> MAX_STRING_LEN < length (dp_device_name r)
      then Some (buf, Err Invalid)
      else
        let stop = info_reply_encoded_len r in
        if length buf < stop then Some (buf, Err Truncated)
        else do {
          (buf, e) \<leftarrow> device_info_encode (dp_info r) buf;
          (case e of
             Err e \<Rightarrow> Some (buf, Err e)
           | Ok _ \<Rightarrow> do {
               buf \<leftarrow> set_at buf DEVICE_INFO_LEN (of_nat (length (dp_version_string r)));
               buf \<leftarrow> set_at buf (DEVICE_INFO_LEN + 1) (of_nat (length (dp_device_name r)));
               let split = INFO_HEADER_LEN + length (dp_version_string r);
               buf \<leftarrow> copy_at buf INFO_HEADER_LEN (dp_version_string r);
               buf \<leftarrow> copy_at buf split (dp_device_name r);
               Some (buf, Ok stop) }) })"

section \<open>The list of outstanding requests\<close>

datatype InfoRequestKind = CacheReply | ReportReply

text \<open>The list is generic in what it keeps beside the key: \<open>bcmp/resource.rs\<close> has the same list over its own kinds.\<close>

record 'k InfoRequests =
  ir_len :: nat
  ir_entries :: "(u32 \<times> 'k) list"

definition info_requests_new :: "nat \<Rightarrow> InfoRequestKind InfoRequests" where
  "info_requests_new n = \<lparr>ir_len = 0, ir_entries = replicate n (0, CacheReply)\<rparr>"

definition info_key :: "u64 \<Rightarrow> u32" where "info_key node_id = ucast node_id"

definition info_requests_is_empty :: "'k InfoRequests \<Rightarrow> bool" where
  "info_requests_is_empty q \<longleftrightarrow> ir_len q = 0"

definition info_requests_iter :: "'k InfoRequests \<Rightarrow> (u32 \<times> 'k) list option" where
  "info_requests_iter q = range_at (ir_entries q) 0 (ir_len q)"

definition info_requests_contains :: "'k InfoRequests \<Rightarrow> u64 \<Rightarrow> bool option" where
  "info_requests_contains q node_id = do {
     let key = info_key node_id;
     es \<leftarrow> info_requests_iter q;
     Some (list_ex (\<lambda>(k, _). k = key) es) }"

definition info_push :: "u32 \<times> 'k \<Rightarrow> 'k InfoRequests \<Rightarrow> 'k InfoRequests option" where
  "info_push e q = do {
     es \<leftarrow> set_at (ir_entries q) (ir_len q) e;
     Some (q\<lparr>ir_entries := es, ir_len := ir_len q + 1\<rparr>) }"

definition info_record :: "u64 \<Rightarrow> 'k \<Rightarrow> 'k InfoRequests \<Rightarrow> ('k InfoRequests \<times> bool) option" where
  "info_record target_node_id kind q =
     (if ir_len q = length (ir_entries q) then Some (q, False)
      else do { q \<leftarrow> info_push (info_key target_node_id, kind) q; Some (q, True) })"

definition info_delete :: "nat \<Rightarrow> 'k InfoRequests \<Rightarrow> 'k InfoRequests option" where
  "info_delete index q = do {
     es \<leftarrow> close_gap (ir_entries q) (ir_len q) index;
     Some (q\<lparr>ir_entries := es, ir_len := ir_len q - 1\<rparr>) }"

definition info_take :: "u64 \<Rightarrow> 'k InfoRequests \<Rightarrow> ('k InfoRequests \<times> 'k option) option" where
  "info_take node_id q = do {
     let key = info_key node_id;
     es \<leftarrow> info_requests_iter q;
     (case find_index (\<lambda>(k, _). k = key) es of
        None \<Rightarrow> Some (q, None)
      | Some index \<Rightarrow> do {
          (_, kind) \<leftarrow> get_at (ir_entries q) index;
          q \<leftarrow> info_delete index q;
          Some (q, Some kind) }) }"

section \<open>The cache\<close>

record CachedInfo =
  ci_info :: DeviceInfo
  ci_version_string :: bytes
  ci_device_name :: bytes

record CacheEntry =
  ce_node_id :: u64
  ce_info :: DeviceInfo
  ce_version_len :: nat
  ce_version :: bytes
  ce_name_len :: nat
  ce_name :: bytes

text \<open>\<open>str\<close> is the capacity \<open>STRING\<close> of the two string arrays.\<close>

definition cache_empty :: "nat \<Rightarrow> CacheEntry" where
  "cache_empty str = \<lparr>ce_node_id = 0,
     ce_info = \<lparr>di_node_id = 0, di_vendor_id = 0, di_product_id = 0, di_serial_num = Serial (replicate 16 0), di_git_sha = 0,
       di_ver_major = 0, di_ver_minor = 0, di_ver_rev = 0, di_ver_hw = 0\<rparr>,
     ce_version_len = 0, ce_version = replicate str 0, ce_name_len = 0, ce_name = replicate str 0\<rparr>"

definition cache_view :: "CacheEntry \<Rightarrow> CachedInfo option" where
  "cache_view e = do {
     v \<leftarrow> range_at (ce_version e) 0 (ce_version_len e);
     n \<leftarrow> range_at (ce_name e) 0 (ce_name_len e);
     Some \<lparr>ci_info = ce_info e, ci_version_string = v, ci_device_name = n\<rparr> }"

record InfoCache =
  ic_len :: nat
  ic_entries :: "CacheEntry list"

definition info_cache_new :: "nat \<Rightarrow> nat \<Rightarrow> InfoCache" where
  "info_cache_new n str = \<lparr>ic_len = 0, ic_entries = replicate n (cache_empty str)\<rparr>"

definition cache_is_empty :: "InfoCache \<Rightarrow> bool" where "cache_is_empty c \<longleftrightarrow> ic_len c = 0"

definition cache_held :: "InfoCache \<Rightarrow> CacheEntry list option" where
  "cache_held c = range_at (ic_entries c) 0 (ic_len c)"

definition cache_node_ids :: "InfoCache \<Rightarrow> u64 list option" where
  "cache_node_ids c = do { es \<leftarrow> cache_held c; Some (map ce_node_id es) }"

definition cache_get :: "InfoCache \<Rightarrow> u64 \<Rightarrow> CachedInfo option option" where
  "cache_get c node_id = do {
     es \<leftarrow> cache_held c;
     (case List.find (\<lambda>e. ce_node_id e = node_id) es of
        None \<Rightarrow> Some None
      | Some e \<Rightarrow> do { v \<leftarrow> cache_view e; Some (Some v) }) }"

definition cache_iter :: "InfoCache \<Rightarrow> CachedInfo list option" where
  "cache_iter c = do { es \<leftarrow> cache_held c; those (map cache_view es) }"

definition copy_truncating :: "bytes \<Rightarrow> bytes \<Rightarrow> (bytes \<times> nat) option" where
  "copy_truncating dst src = do {
     let len = min (length src) (length dst);
     part \<leftarrow> range_at src 0 len;
     dst \<leftarrow> copy_at dst 0 part;
     Some (dst, len) }"

text \<open>Taking the next slot for a node that is not held.\<close>

definition cache_push :: "nat \<Rightarrow> u64 \<Rightarrow> InfoCache \<Rightarrow> InfoCache option" where
  "cache_push str node_id c = do {
     es \<leftarrow> set_at (ic_entries c) (ic_len c) (cache_empty str);
     e \<leftarrow> get_at es (ic_len c);
     es \<leftarrow> set_at es (ic_len c) (e\<lparr>ce_node_id := node_id\<rparr>);
     Some (c\<lparr>ic_entries := es, ic_len := ic_len c + 1\<rparr>) }"

text \<open>Writing a reply over an entry.\<close>

definition cache_update :: "DeviceInfoReply \<Rightarrow> CacheEntry \<Rightarrow> CacheEntry option" where
  "cache_update reply e = do {
     let e = e\<lparr>ce_info := dp_info reply\<rparr>;
     e \<leftarrow> (if dp_version_string reply \<noteq> [] then do {
            (v, n) \<leftarrow> copy_truncating (ce_version e) (dp_version_string reply);
            Some (e\<lparr>ce_version := v, ce_version_len := n\<rparr>) } else Some e);
     (if dp_device_name reply \<noteq> [] then do {
        (v, n) \<leftarrow> copy_truncating (ce_name e) (dp_device_name reply);
        Some (e\<lparr>ce_name := v, ce_name_len := n\<rparr>) } else Some e) }"

definition cache_store :: "nat \<Rightarrow> DeviceInfoReply \<Rightarrow> InfoCache \<Rightarrow> (InfoCache \<times> bool) option" where
  "cache_store str reply c = do {
     let node_id = di_node_id (dp_info reply);
     es \<leftarrow> cache_held c;
     slot \<leftarrow> (case find_index (\<lambda>e. ce_node_id e = node_id) es of
        Some index \<Rightarrow> Some (Some (c, index))
      | None \<Rightarrow>
          if ic_len c = length (ic_entries c) then Some None
          else do { c \<leftarrow> cache_push str node_id c; Some (Some (c, ic_len c - 1)) });
     (case slot of
        None \<Rightarrow> Some (c, False)
      | Some (c, index) \<Rightarrow> do {
          e \<leftarrow> get_at (ic_entries c) index;
          e \<leftarrow> cache_update reply e;
          es \<leftarrow> set_at (ic_entries c) index e;
          Some (c\<lparr>ic_entries := es\<rparr>, True) }) }"

definition cache_delete :: "nat \<Rightarrow> InfoCache \<Rightarrow> InfoCache option" where
  "cache_delete index c = do {
     es \<leftarrow> close_gap (ic_entries c) (ic_len c) index;
     Some (c\<lparr>ic_entries := es, ic_len := ic_len c - 1\<rparr>) }"

definition cache_forget :: "u64 \<Rightarrow> InfoCache \<Rightarrow> (InfoCache \<times> bool) option" where
  "cache_forget node_id c = do {
     es \<leftarrow> cache_held c;
     (case find_index (\<lambda>e. ce_node_id e = node_id) es of
        None \<Rightarrow> Some (c, False)
      | Some index \<Rightarrow> do { c \<leftarrow> cache_delete index c; Some (c, True) }) }"


section \<open>The codecs\<close>

definition info_request_wire :: "DeviceInfoRequest \<Rightarrow> bytes" where
  "info_request_wire r = to_le 8 (dq_target_node_id r)"

interpretation info_request: fixed_codec INFO_REQUEST_LEN info_request_encode info_request_decode info_request_wire
proof unfold_locales
  have n: "INFO_REQUEST_LEN = 8" by (simp add: INFO_REQUEST_LEN_def)
  show "length (info_request_wire r) = INFO_REQUEST_LEN" for r by (simp add: info_request_wire_def n del: to_le_numeral)
  show "info_request_encode r buf = Some (buf, Err Truncated)" if "length buf < INFO_REQUEST_LEN" for r buf
    using that by (simp add: info_request_encode_def)
  show "info_request_encode r buf = Some (put buf 0 (info_request_wire r), Ok ())" if "INFO_REQUEST_LEN \<le> length buf" for r buf
    using that by (simp add: info_request_encode_def info_request_wire_def n buf_simps del: to_le_numeral)
  show "info_request_decode buf = Some (Err Truncated)" if "length buf < INFO_REQUEST_LEN" for buf
    using that by (simp add: info_request_decode_def buf_simps)
  show "info_request_decode (info_request_wire r @ rest) = Some (Ok r)" for r rest
    by (simp add: info_request_decode_def info_request_wire_def n buf_simps del: to_le_numeral)
  show "\<exists>r. info_request_wire r = buf" if "length buf = INFO_REQUEST_LEN" for buf
    using that by (intro exI [of _ "\<lparr>dq_target_node_id = from_le buf\<rparr>"]) (simp add: info_request_wire_def n del: to_le_numeral)
qed

definition device_info_wire :: "DeviceInfo \<Rightarrow> bytes" where
  "device_info_wire d = to_le 8 (di_node_id d) @ to_le 2 (di_vendor_id d) @ to_le 2 (di_product_id d) @
     serial_bytes (di_serial_num d) @ to_le 4 (di_git_sha d) @
     [di_ver_major d, di_ver_minor d, di_ver_rev d, di_ver_hw d]"

lemma length_device_info_wire [simp]: "length (device_info_wire d) = 36"
  by (simp add: device_info_wire_def del: to_le_numeral)

interpretation device_info: fixed_codec DEVICE_INFO_LEN device_info_encode device_info_decode device_info_wire
proof unfold_locales
  have n: "DEVICE_INFO_LEN = 36" by (simp add: DEVICE_INFO_LEN_def)
  show "length (device_info_wire d) = DEVICE_INFO_LEN" for d by (simp add: n)
  show "device_info_encode d buf = Some (buf, Err Truncated)" if "length buf < DEVICE_INFO_LEN" for d buf
    using that by (simp add: device_info_encode_def)
  show "device_info_encode d buf = Some (put buf 0 (device_info_wire d), Ok ())" if "DEVICE_INFO_LEN \<le> length buf" for d buf
    using that by (simp add: device_info_encode_def device_info_wire_def n buf_simps put_put_seq put_update_seq del: to_le_numeral)
  show "device_info_decode buf = Some (Err Truncated)" if "length buf < DEVICE_INFO_LEN" for buf
    using that by (simp add: device_info_decode_def buf_simps)
  show "device_info_decode (device_info_wire d @ rest) = Some (Ok d)" for d rest
    by (simp add: device_info_decode_def device_info_wire_def n buf_simps nth_append put_0 del: to_le_numeral)
  show "\<exists>d. device_info_wire d = buf" if "length buf = DEVICE_INFO_LEN" for buf
    using that
    by (intro exI [of _ "\<lparr>di_node_id = from_le (subslice buf 0 8), di_vendor_id = from_le (subslice buf 8 2),
        di_product_id = from_le (subslice buf 10 2), di_serial_num = Serial (subslice buf 12 16),
        di_git_sha = from_le (subslice buf 28 4), di_ver_major = buf ! 32, di_ver_minor = buf ! 33,
        di_ver_rev = buf ! 34, di_ver_hw = buf ! 35\<rparr>"])
      (simp add: device_info_wire_def n join_simps subslice_join_byte [of 35 32 3 _ "[]", simplified] del: to_le_numeral)
qed

definition info_reply_wire :: "DeviceInfoReply \<Rightarrow> bytes" where
  "info_reply_wire r = device_info_wire (dp_info r) @
     [of_nat (length (dp_version_string r)), of_nat (length (dp_device_name r))] @ dp_version_string r @ dp_device_name r"

lemma unat_u8_length: "length p \<le> 255 \<Longrightarrow> unat (of_nat (length p) :: u8) = length p"
  by (simp add: unsigned_of_nat take_bit_nat_eq_self)

interpretation info_reply: message_codec info_reply_encode info_reply_decode info_reply_wire
  "\<lambda>r. length (dp_version_string r) \<le> 255 \<and> length (dp_device_name r) \<le> 255"
proof unfold_locales
  have n: "INFO_HEADER_LEN = 38" "DEVICE_INFO_LEN = 36" "MAX_STRING_LEN = 255"
    by (simp_all add: INFO_HEADER_LEN_def DEVICE_INFO_LEN_def MAX_STRING_LEN_def)
  show "info_reply_encode r buf = Some (put buf 0 (info_reply_wire r), Ok (length (info_reply_wire r)))"
    if "length (dp_version_string r) \<le> 255 \<and> length (dp_device_name r) \<le> 255" "length (info_reply_wire r) \<le> length buf" for r buf
    using that device_info.encode_ok [of buf "dp_info r"]
    by (simp add: info_reply_encode_def info_reply_encoded_len_def info_reply_wire_def n Let_def buf_simps put_put_seq put_update_seq
        del: to_le_numeral)
  show "info_reply_encode r buf = Some (buf, Err Truncated)"
    if "length (dp_version_string r) \<le> 255 \<and> length (dp_device_name r) \<le> 255" "length buf < length (info_reply_wire r)" for r buf
    using that by (simp add: info_reply_encode_def info_reply_encoded_len_def info_reply_wire_def n)
  show "info_reply_encode r buf = Some (buf, Err Invalid)"
    if "\<not> (length (dp_version_string r) \<le> 255 \<and> length (dp_device_name r) \<le> 255)" for r buf
    using that by (auto simp: info_reply_encode_def n)
  show "info_reply_decode (info_reply_wire r @ rest) = Some (Ok r)"
    if l: "length (dp_version_string r) \<le> 255 \<and> length (dp_device_name r) \<le> 255" for r rest
  proof -
    let ?v = "dp_version_string r" and ?d = "dp_device_name r"
    let ?head = "device_info_wire (dp_info r) @ [of_nat (length ?v), of_nat (length ?d)]"
    have h: "range_at (info_reply_wire r @ rest) 0 38 = Some ?head"
      by (simp add: range_at_def info_reply_wire_def subslice_def)
    have s: "range_at (info_reply_wire r @ rest) 38 (38 + length ?v + length ?d) = Some (?v @ ?d)"
      by (simp add: range_at_def info_reply_wire_def subslice_def)
    show ?thesis
      unfolding info_reply_decode_def n
      using h s device_info.decode_wire [of "dp_info r"] unat_u8_length [of ?v] unat_u8_length [of ?d] l
      by (simp add: buf_simps nth_append subslice_def)
  qed
qed

lemma info_reply_decode_total: "\<exists>r. info_reply_decode buf = Some r"
proof (cases "38 \<le> length buf")
  case True
  let ?head = "take 38 buf"
  obtain d where d: "device_info_decode ?head = Some (Ok d)"
    using device_info.decode_long [of ?head] True by (auto simp: DEVICE_INFO_LEN_def)
  have h: "range_at buf 0 38 = Some ?head" using True by (simp add: range_at_def subslice_def)
  show ?thesis
    using True d h
    by (auto simp: info_reply_decode_def INFO_HEADER_LEN_def DEVICE_INFO_LEN_def get_at_def range_at_def Let_def)
qed (simp add: info_reply_decode_def INFO_HEADER_LEN_def DEVICE_INFO_LEN_def range_at_def)


section \<open>The list of outstanding requests, as a list\<close>

definition asked :: "'k InfoRequests \<Rightarrow> (u32 \<times> 'k) list" where
  "asked q = take (ir_len q) (ir_entries q)"

definition ir_wf :: "'k InfoRequests \<Rightarrow> bool" where "ir_wf q \<longleftrightarrow> ir_len q \<le> length (ir_entries q)"

interpretation irs: counted_list ir_wf asked "\<lambda>q. length (ir_entries q)" "\<lambda>q e. True" info_push info_delete
proof unfold_locales
  show "length (asked q) \<le> length (ir_entries q)" if "ir_wf q" for q
    using that by (simp add: asked_def ir_wf_def)
  show "\<exists>q'. info_push e q = Some q' \<and> ir_wf q' \<and> asked q' = asked q @ [e] \<and> length (ir_entries q') = length (ir_entries q)"
    if "ir_wf q" "length (asked q) < length (ir_entries q)" for q e
  proof -
    have n: "ir_len q < length (ir_entries q)" using that by (simp add: asked_def ir_wf_def)
    then show ?thesis using append_live [OF n, of e] by (simp add: info_push_def set_at_def asked_def ir_wf_def)
  qed
  show "\<exists>q'. info_delete i q = Some q' \<and> ir_wf q' \<and> asked q' = take i (asked q) @ drop (Suc i) (asked q) \<and>
      length (ir_entries q') = length (ir_entries q)"
    if "ir_wf q" "i < length (asked q)" for q i
  proof -
    have n: "ir_len q \<le> length (ir_entries q)" "i < ir_len q" using that by (simp_all add: asked_def ir_wf_def)
    show ?thesis using close_gap_live [OF n] n by (auto simp: info_delete_def asked_def ir_wf_def)
  qed
qed

lemma info_requests_iter_eq: "ir_wf q \<Longrightarrow> info_requests_iter q = Some (asked q)"
  by (simp add: info_requests_iter_def ir_wf_def asked_def range_at_def subslice_def)

lemma info_requests_new_wf: "ir_wf (info_requests_new n)" "asked (info_requests_new n) = []"
  "length (ir_entries (info_requests_new n)) = n"
  by (simp_all add: ir_wf_def asked_def info_requests_new_def)

lemma info_record_eq:
  assumes "ir_wf q"
  shows "\<exists>q'. info_record t k q = Some (q', length (asked q) < length (ir_entries q)) \<and> ir_wf q' \<and>
    length (ir_entries q') = length (ir_entries q) \<and>
    asked q' = asked q @ (if length (asked q) < length (ir_entries q) then [(info_key t, k)] else [])"
proof (cases "length (asked q) < length (ir_entries q)")
  case True
  then have "ir_len q \<noteq> length (ir_entries q)" by (auto simp: asked_def)
  then show ?thesis using irs.push_live [OF assms TrueI True, of "(info_key t, k)"] True
    by (auto simp: info_record_def)
next
  case False
  then have "ir_len q = length (ir_entries q)" using assms by (simp add: asked_def ir_wf_def)
  then show ?thesis using assms by (simp add: info_record_def asked_def)
qed

lemma info_take_eq:
  assumes wf: "ir_wf q"
  shows "\<exists>q'. info_take n q = Some (q', map_option snd (List.find (\<lambda>e. fst e = info_key n) (asked q))) \<and> ir_wf q' \<and>
    length (ir_entries q') = length (ir_entries q) \<and> asked q' = remove_first (\<lambda>e. fst e = info_key n) (asked q)"
proof (cases "find_index (\<lambda>e. fst e = info_key n) (asked q)")
  case None
  then have no: "\<forall>e \<in> set (asked q). \<not> fst e = info_key n" by (simp add: find_index_None)
  then have "List.find (\<lambda>e. fst e = info_key n) (asked q) = None" by (auto simp: find_None_iff)
  then show ?thesis using None wf remove_first_absent [OF no] info_requests_iter_eq [OF wf]
    by (simp add: info_take_def case_prod_unfold)
next
  case (Some i)
  obtain q' where q': "info_delete i q = Some q'" "ir_wf q'" "asked q' = remove_first (\<lambda>e. fst e = info_key n) (asked q)"
    "length (ir_entries q') = length (ir_entries q)"
    using irs.delete_first [OF wf Some] by blast
  have g: "get_at (ir_entries q) i = Some (asked q ! i)"
    using find_index_Some(1) [OF Some] wf by (auto simp: get_at_def asked_def ir_wf_def)
  then show ?thesis using q' Some info_requests_iter_eq [OF wf] find_index_find [OF Some]
    by (simp add: info_take_def case_prod_unfold)
qed

section \<open>The cache, as a list\<close>

text \<open>A node and what it last said of itself.\<close>

definition cached :: "CacheEntry \<Rightarrow> u64 \<times> CachedInfo" where
  "cached e = (ce_node_id e, \<lparr>ci_info = ce_info e, ci_version_string = take (ce_version_len e) (ce_version e),
     ci_device_name = take (ce_name_len e) (ce_name e)\<rparr>)"

definition cache_abs :: "InfoCache \<Rightarrow> (u64 \<times> CachedInfo) list" where
  "cache_abs c = map cached (take (ic_len c) (ic_entries c))"

definition entry_ok :: "nat \<Rightarrow> CacheEntry \<Rightarrow> bool" where
  "entry_ok str e \<longleftrightarrow> length (ce_version e) = str \<and> ce_version_len e \<le> str \<and>
     length (ce_name e) = str \<and> ce_name_len e \<le> str"

definition cache_shape :: "nat \<Rightarrow> InfoCache \<Rightarrow> bool" where
  "cache_shape str c \<longleftrightarrow> ic_len c \<le> length (ic_entries c) \<and> (\<forall>e \<in> set (take (ic_len c) (ic_entries c)). entry_ok str e) \<and>
     distinct (map fst (cache_abs c))"

text \<open>The invariant between operations: an entry is about the node it is filed under.\<close>

definition cache_wf :: "nat \<Rightarrow> InfoCache \<Rightarrow> bool" where
  "cache_wf str c \<longleftrightarrow> cache_shape str c \<and> (\<forall>(n, i) \<in> set (cache_abs c). di_node_id (ci_info i) = n)"

text \<open>What a node that is new to the cache is known to say.\<close>

definition nothing_said :: CachedInfo where
  "nothing_said = snd (cached (cache_empty 0))"

definition said :: "nat \<Rightarrow> DeviceInfoReply \<Rightarrow> CachedInfo \<Rightarrow> CachedInfo" where
  "said str r i = \<lparr>ci_info = dp_info r,
     ci_version_string = (if dp_version_string r = [] then ci_version_string i else take str (dp_version_string r)),
     ci_device_name = (if dp_device_name r = [] then ci_device_name i else take str (dp_device_name r))\<rparr>"

definition store_spec :: "nat \<Rightarrow> nat \<Rightarrow> DeviceInfoReply \<Rightarrow> (u64 \<times> CachedInfo) list \<Rightarrow> (u64 \<times> CachedInfo) list \<times> bool" where
  "store_spec n str r es =
     (let node = di_node_id (dp_info r) in
      if node \<in> fst ` set es then (update_first (\<lambda>e. fst e = node) (map_prod id (said str r)) es, True)
      else if length es = n then (es, False)
      else (es @ [(node, said str r nothing_said)], True))"

definition forget_spec :: "u64 \<Rightarrow> (u64 \<times> CachedInfo) list \<Rightarrow> (u64 \<times> CachedInfo) list \<times> bool" where
  "forget_spec node es = (remove_first (\<lambda>e. fst e = node) es, node \<in> fst ` set es)"

lemma copy_truncating_eq:
  "copy_truncating dst src = Some (put dst 0 (take (length dst) src), min (length src) (length dst))"
  by (simp add: copy_truncating_def range_at_def copy_at_def subslice_def min_def Let_def)

lemma cache_view_eq: "entry_ok str e \<Longrightarrow> cache_view e = Some (snd (cached e))"
  by (simp add: cache_view_def entry_ok_def cached_def range_at_def subslice_def)

lemma cache_update_eq:
  assumes "entry_ok str e"
  shows "\<exists>e'. cache_update r e = Some e' \<and> entry_ok str e' \<and> cached e' = map_prod id (said str r) (cached e)"
  using assms by (auto simp: cache_update_def copy_truncating_eq entry_ok_def cached_def said_def put_0 min_def Let_def)

lemma cache_held_eq: "cache_shape str c \<Longrightarrow> cache_held c = Some (take (ic_len c) (ic_entries c))"
  by (simp add: cache_held_def cache_shape_def range_at_def subslice_def)

lemma cache_empty_ok: "entry_ok str (cache_empty str\<lparr>ce_node_id := n\<rparr>)" "cached (cache_empty str\<lparr>ce_node_id := n\<rparr>) = (n, nothing_said)"
  by (simp_all add: entry_ok_def cache_empty_def cached_def nothing_said_def)

interpretation ics: counted_list "cache_shape str" cache_abs "\<lambda>c. length (ic_entries c)"
  "\<lambda>c (n, i). n \<notin> fst ` set (cache_abs c) \<and> i = nothing_said" "\<lambda>(n, i). cache_push str n" cache_delete for str
proof unfold_locales
  show "length (cache_abs c) \<le> length (ic_entries c)" if "cache_shape str c" for c
    using that by (simp add: cache_abs_def cache_shape_def)
  show "\<exists>c'. (case e of (n, i) \<Rightarrow> cache_push str n) c = Some c' \<and> cache_shape str c' \<and> cache_abs c' = cache_abs c @ [e] \<and>
      length (ic_entries c') = length (ic_entries c)"
    if wf: "cache_shape str c" and e: "case e of (n, i) \<Rightarrow> n \<notin> fst ` set (cache_abs c) \<and> i = nothing_said"
      and room: "length (cache_abs c) < length (ic_entries c)" for c e
  proof -
    obtain node where en: "e = (node, nothing_said)" "node \<notin> fst ` set (cache_abs c)" using e by (cases e) auto
    have n: "ic_len c < length (ic_entries c)" using wf room by (simp add: cache_abs_def cache_shape_def)
    let ?e = "cache_empty str\<lparr>ce_node_id := node\<rparr>"
    let ?c = "c\<lparr>ic_entries := (ic_entries c)[ic_len c := ?e], ic_len := ic_len c + 1\<rparr>"
    have live: "take (ic_len ?c) (ic_entries ?c) = take (ic_len c) (ic_entries c) @ [?e]"
      using append_live [OF n, of ?e] by simp
    have abs: "cache_abs ?c = cache_abs c @ [e]"
      unfolding cache_abs_def live using cache_empty_ok(2) en(1) by simp
    have "cache_shape str ?c"
      unfolding cache_shape_def abs live using wf n en cache_empty_ok(1) [of str node] by (auto simp: cache_shape_def)
    moreover have "cache_push str node c = Some ?c" using n by (simp add: cache_push_def set_at_def get_at_def)
    ultimately show ?thesis using abs en by auto
  qed
  show "\<exists>c'. cache_delete i c = Some c' \<and> cache_shape str c' \<and> cache_abs c' = take i (cache_abs c) @ drop (Suc i) (cache_abs c) \<and>
      length (ic_entries c') = length (ic_entries c)"
    if wf: "cache_shape str c" and i: "i < length (cache_abs c)" for c i
  proof -
    have n: "ic_len c \<le> length (ic_entries c)" "i < ic_len c" using wf i by (simp_all add: cache_shape_def cache_abs_def)
    obtain es where es: "close_gap (ic_entries c) (ic_len c) i = Some es" "length es = length (ic_entries c)"
      "take (ic_len c - 1) es = take i (take (ic_len c) (ic_entries c)) @ drop (Suc i) (take (ic_len c) (ic_entries c))"
      using close_gap_live [OF n] by blast
    let ?c = "c\<lparr>ic_entries := es, ic_len := ic_len c - 1\<rparr>"
    have abs: "cache_abs ?c = take i (cache_abs c) @ drop (Suc i) (cache_abs c)"
      using es(3) by (simp add: cache_abs_def take_map drop_map)
    have "set (take (ic_len ?c) (ic_entries ?c)) \<subseteq> set (take (ic_len c) (ic_entries c))"
      using es(3) set_take_subset [of i "take (ic_len c) (ic_entries c)"] set_drop_subset [of "Suc i" "take (ic_len c) (ic_entries c)"]
      by auto
    moreover have "distinct (map fst (cache_abs ?c))"
      unfolding abs using wf by (intro distinct_delete) (simp add: cache_shape_def)
    ultimately have "cache_shape str ?c" unfolding cache_shape_def using wf es(2) n by (auto simp: cache_shape_def)
    then show ?thesis using es(1,2) abs by (simp add: cache_delete_def)
  qed
qed


lemma cache_wf_store:
  assumes "cache_shape str c" "\<forall>(n, i) \<in> set (cache_abs c). di_node_id (ci_info i) = n"
    and "cache_abs c' = fst (store_spec m str r (cache_abs c))"
  shows "\<forall>(n, i) \<in> set (cache_abs c'). di_node_id (ci_info i) = n"
proof -
  have u: "\<forall>(n, i) \<in> set (update_first (\<lambda>e. fst e = di_node_id (dp_info r)) (map_prod id (said str r)) es).
      di_node_id (ci_info i) = n" if "\<forall>(n, i) \<in> set es. di_node_id (ci_info i) = n" for es
    using that by (induction es) (auto simp: said_def)
  show ?thesis using assms(2,3) u [OF assms(2)] by (auto simp: store_spec_def Let_def said_def)
qed

lemma cache_set_entry:
  assumes c: "cache_shape str c" and i: "find_index (\<lambda>e. fst e = node) (cache_abs c) = Some i"
  shows "\<exists>e. get_at (ic_entries c) i = Some (ic_entries c ! i) \<and> cache_update r (ic_entries c ! i) = Some e \<and>
    set_at (ic_entries c) i e = Some ((ic_entries c)[i := e]) \<and>
    cache_shape str (c\<lparr>ic_entries := (ic_entries c)[i := e]\<rparr>) \<and>
    cache_abs (c\<lparr>ic_entries := (ic_entries c)[i := e]\<rparr>) =
      update_first (\<lambda>e. fst e = node) (map_prod id (said str r)) (cache_abs c)"
proof -
  have n: "i < ic_len c" "ic_len c \<le> length (ic_entries c)"
    using find_index_Some(1) [OF i] c by (simp_all add: cache_abs_def cache_shape_def)
  have ok: "entry_ok str (ic_entries c ! i)"
    using c n nth_mem [of i "take (ic_len c) (ic_entries c)"] by (auto simp: cache_shape_def)
  obtain e where e: "cache_update r (ic_entries c ! i) = Some e" "entry_ok str e"
    "cached e = map_prod id (said str r) (cached (ic_entries c ! i))"
    using cache_update_eq [OF ok] by blast
  let ?c = "c\<lparr>ic_entries := (ic_entries c)[i := e]\<rparr>"
  have live: "take (ic_len ?c) (ic_entries ?c) = (take (ic_len c) (ic_entries c))[i := e]"
    using n by (simp add: take_update_swap)
  have abs: "cache_abs ?c = update_first (\<lambda>e. fst e = node) (map_prod id (said str r)) (cache_abs c)"
    unfolding find_index_Some(3) [OF i] using live n e(3) by (simp add: cache_abs_def map_update)
  have "map fst (cache_abs ?c) = map fst (cache_abs c)" unfolding abs by (rule map_update_first) simp
  then have "cache_shape str ?c"
    unfolding cache_shape_def live using c n e(2) by (auto simp: cache_shape_def dest!: subsetD [OF set_update_subset_insert])
  then show ?thesis using e(1) n abs by (auto simp: get_at_def set_at_def)
qed

lemma cache_index_eq:
  "cache_shape str c \<Longrightarrow>
   find_index (\<lambda>e. ce_node_id e = node) (take (ic_len c) (ic_entries c)) = find_index (\<lambda>e. fst e = node) (cache_abs c)"
  by (simp add: cache_abs_def find_index_map cached_def)

lemma cache_store_eq:
  assumes wf: "cache_wf str c"
  shows "\<exists>c'. cache_store str r c = Some (c', snd (store_spec (length (ic_entries c)) str r (cache_abs c))) \<and>
    cache_wf str c' \<and> length (ic_entries c') = length (ic_entries c) \<and>
    cache_abs c' = fst (store_spec (length (ic_entries c)) str r (cache_abs c))"
proof -
  let ?node = "di_node_id (dp_info r)"
  have sh: "cache_shape str c" and own: "\<forall>(n, i) \<in> set (cache_abs c). di_node_id (ci_info i) = n"
    using wf by (simp_all add: cache_wf_def)
  have len: "length (cache_abs c) = ic_len c" using sh by (simp add: cache_abs_def cache_shape_def)
  show ?thesis
  proof (cases "find_index (\<lambda>e. fst e = ?node) (cache_abs c)")
    case (Some i)
    obtain e where e: "get_at (ic_entries c) i = Some (ic_entries c ! i)" "cache_update r (ic_entries c ! i) = Some e"
      "set_at (ic_entries c) i e = Some ((ic_entries c)[i := e])" "cache_shape str (c\<lparr>ic_entries := (ic_entries c)[i := e]\<rparr>)"
      "cache_abs (c\<lparr>ic_entries := (ic_entries c)[i := e]\<rparr>) =
        update_first (\<lambda>e. fst e = ?node) (map_prod id (said str r)) (cache_abs c)"
      using cache_set_entry [OF sh Some] by blast
    have "?node \<in> fst ` set (cache_abs c)"
      using find_index_Some(1,2) [OF Some] by (metis image_eqI nth_mem)
    then have spec: "store_spec (length (ic_entries c)) str r (cache_abs c) =
        (cache_abs (c\<lparr>ic_entries := (ic_entries c)[i := e]\<rparr>), True)"
      using e(5) by (simp add: store_spec_def)
    have "cache_store str r c = Some (c\<lparr>ic_entries := (ic_entries c)[i := e]\<rparr>, True)"
      using e Some cache_index_eq [OF sh] by (simp add: cache_store_def cache_held_eq [OF sh] Let_def)
    then show ?thesis using e(4) spec cache_wf_store [OF sh own, of _ "length (ic_entries c)" r] by (simp add: cache_wf_def)
  next
    case None
    then have no: "?node \<notin> fst ` set (cache_abs c)" by (auto simp: find_index_None)
    show ?thesis
    proof (cases "ic_len c = length (ic_entries c)")
      case True
      then show ?thesis using None no wf len cache_index_eq [OF sh]
        by (simp add: cache_store_def cache_held_eq [OF sh] store_spec_def Let_def)
    next
      case False
      then have room: "length (cache_abs c) < length (ic_entries c)" using sh len by (simp add: cache_shape_def)
      have "case (?node, nothing_said) of (n, i) \<Rightarrow> n \<notin> fst ` set (cache_abs c) \<and> i = nothing_said" using no by simp
      from ics.push_live [OF sh this room] obtain d where d: "cache_push str ?node c = Some d" "cache_shape str d"
        "cache_abs d = cache_abs c @ [(?node, nothing_said)]" "length (ic_entries d) = length (ic_entries c)" by auto
      have i: "find_index (\<lambda>e. fst e = ?node) (cache_abs d) = Some (ic_len d - 1)"
      proof -
        have "length (cache_abs d) = ic_len d" using d(2) by (simp add: cache_abs_def cache_shape_def)
        then have "ic_len d - 1 = length (cache_abs c)" using d(3) by simp
        then show ?thesis using no d(3) by (intro find_indexI) (use nth_mem in \<open>fastforce simp: nth_append image_iff\<close>)+
      qed
      obtain e where e: "get_at (ic_entries d) (ic_len d - 1) = Some (ic_entries d ! (ic_len d - 1))"
        "cache_update r (ic_entries d ! (ic_len d - 1)) = Some e"
        "set_at (ic_entries d) (ic_len d - 1) e = Some ((ic_entries d)[ic_len d - 1 := e])"
        "cache_shape str (d\<lparr>ic_entries := (ic_entries d)[ic_len d - 1 := e]\<rparr>)"
        "cache_abs (d\<lparr>ic_entries := (ic_entries d)[ic_len d - 1 := e]\<rparr>) =
          update_first (\<lambda>e. fst e = ?node) (map_prod id (said str r)) (cache_abs d)"
        using cache_set_entry [OF d(2) i] by blast
      have "update_first (\<lambda>e. fst e = ?node) (map_prod id (said str r)) (cache_abs d) =
          cache_abs c @ [(?node, said str r nothing_said)]"
        unfolding d(3) using no by (subst update_first_snoc) (auto simp: image_iff)
      then have spec: "store_spec (length (ic_entries c)) str r (cache_abs c) =
          (cache_abs (d\<lparr>ic_entries := (ic_entries d)[ic_len d - 1 := e]\<rparr>), True)"
        using no room e(5) by (simp add: store_spec_def Let_def)
      have "cache_store str r c = Some (d\<lparr>ic_entries := (ic_entries d)[ic_len d - 1 := e]\<rparr>, True)"
        using e d(1) None False cache_index_eq [OF sh] by (simp add: cache_store_def cache_held_eq [OF sh] Let_def)
      then show ?thesis using e(4) d(4) spec cache_wf_store [OF sh own, of _ "length (ic_entries c)" r]
        by (simp add: cache_wf_def)
    qed
  qed
qed

lemma cache_forget_eq:
  assumes wf: "cache_wf str c"
  shows "\<exists>c'. cache_forget node c = Some (c', snd (forget_spec node (cache_abs c))) \<and> cache_wf str c' \<and>
    length (ic_entries c') = length (ic_entries c) \<and> cache_abs c' = fst (forget_spec node (cache_abs c))"
proof -
  have sh: "cache_shape str c" and own: "\<forall>(n, i) \<in> set (cache_abs c). di_node_id (ci_info i) = n"
    using wf by (simp_all add: cache_wf_def)
  show ?thesis
  proof (cases "find_index (\<lambda>e. fst e = node) (cache_abs c)")
    case None
    then have no: "\<forall>e \<in> set (cache_abs c). \<not> fst e = node" by (simp add: find_index_None)
    then have "node \<notin> fst ` set (cache_abs c)" by auto
    then show ?thesis using None wf remove_first_absent [OF no] cache_index_eq [OF sh]
      by (simp add: cache_forget_def cache_held_eq [OF sh] forget_spec_def)
  next
    case (Some i)
    obtain c' where c': "cache_delete i c = Some c'" "cache_shape str c'"
      "cache_abs c' = remove_first (\<lambda>e. fst e = node) (cache_abs c)" "length (ic_entries c') = length (ic_entries c)"
      using ics.delete_first [OF sh Some] by blast
    have "node \<in> fst ` set (cache_abs c)" using find_index_Some(1,2) [OF Some] by (metis image_eqI nth_mem)
    moreover have "cache_wf str c'" using c'(2,3) own set_remove_first [of "\<lambda>e. fst e = node" "cache_abs c"] unfolding cache_wf_def by fastforce
    ultimately show ?thesis using c' Some cache_index_eq [OF sh]
      by (simp add: cache_forget_def cache_held_eq [OF sh] forget_spec_def)
  qed
qed

lemma cache_get_eq:
  assumes sh: "cache_shape str c"
  shows "cache_get c node = Some (map_of (cache_abs c) node)"
proof -
  have "\<forall>e \<in> set es. entry_ok str e \<Longrightarrow>
      (case List.find (\<lambda>e. ce_node_id e = node) es of None \<Rightarrow> Some None
        | Some e \<Rightarrow> do { v \<leftarrow> cache_view e; Some (Some v) }) = Some (map_of (map cached es) node)" for es
    by (induction es) (auto simp: cache_view_eq cached_def)
  then show ?thesis using sh by (simp add: cache_get_def cache_held_eq [OF sh] cache_abs_def) (simp add: cache_shape_def)
qed

lemma info_cache_new_wf: "cache_wf str (info_cache_new n str)" "cache_abs (info_cache_new n str) = []"
  "length (ic_entries (info_cache_new n str)) = n"
  by (simp_all add: cache_wf_def cache_shape_def cache_abs_def info_cache_new_def)


section \<open>What the cache promises\<close>

text \<open>Property C20. The cache of device information is a table by node. For every cache the operations can reach, of
  any capacity, \<open>store\<close>, \<open>forget\<close> and \<open>get\<close> never panic, keep the invariant (one entry per node, filed under
  the node it describes) and do what the specification on lists says: a reply replaces the fixed part, and
  a string only if it carries one, cut to the capacity; a node that is new to a full cache changes nothing;
  forgetting takes the node's entry out and keeps the order of the others.\<close>

theorem info_cache_refines_list:
  assumes "cache_wf str c"
  shows "(\<exists>c'. cache_store str r c = Some (c', snd (store_spec (length (ic_entries c)) str r (cache_abs c))) \<and>
      cache_wf str c' \<and> cache_abs c' = fst (store_spec (length (ic_entries c)) str r (cache_abs c))) \<and>
    (\<exists>c'. cache_forget node c = Some (c', snd (forget_spec node (cache_abs c))) \<and> cache_wf str c' \<and>
      cache_abs c' = fst (forget_spec node (cache_abs c))) \<and>
    cache_get c node = Some (map_of (cache_abs c) node)"
  using cache_store_eq [OF assms] cache_forget_eq [OF assms] cache_get_eq assms unfolding cache_wf_def by blast

theorem info_cache_refines_list_witness:
  "\<exists>c c'. cache_store 4 \<lparr>dp_info = ce_info (cache_empty 0)\<lparr>di_node_id := 7\<rparr>, dp_version_string = [118, 49],
       dp_device_name = [1, 2, 3, 4, 5]\<rparr> (info_cache_new 1 4) = Some (c, True) \<and>
     map_option ci_device_name (map_of (cache_abs c) 7) = Some [1, 2, 3, 4] \<and>
     cache_forget 7 c = Some (c', True) \<and> cache_abs c' = []"
proof -
  let ?r = "\<lparr>dp_info = ce_info (cache_empty 0)\<lparr>di_node_id := 7\<rparr>, dp_version_string = [118, 49], dp_device_name = [1, 2, 3, 4, 5]\<rparr>"
  obtain c where c: "cache_store 4 ?r (info_cache_new 1 4) = Some (c, True)" "cache_wf 4 c"
    "cache_abs c = [(7, said 4 ?r nothing_said)]"
    using conjunct1 [OF info_cache_refines_list [OF info_cache_new_wf(1) [of 4 1], of ?r]]
    by (auto simp: info_cache_new_wf(2,3) store_spec_def)
  have "map_option ci_device_name (map_of (cache_abs c) 7) = Some [1, 2, 3, 4]" using c(3) by (simp add: said_def)
  then show ?thesis using c(1,3) conjunct1 [OF conjunct2 [OF info_cache_refines_list [OF c(2), of ?r 7]]]
    by (auto simp: forget_spec_def)
qed

end
