(* ===== verification/Bcmp_Resource.thy ===== *)
theory Bcmp_Resource
  imports Bcmp_Info
begin

text \<open>
  \<open>bcmp/resource.rs\<close>: the resource-table request and reply, whose records carry their own lengths,
  the table of the topics a node publishes and subscribes to, and the list of requests outstanding.
\<close>

section \<open>The bodies\<close>

datatype ResourceType = Publisher | SubscriberType

record ResourceTableRequest =
  sq_target_node_id :: u64

definition RESOURCE_REQUEST_LEN :: nat where "RESOURCE_REQUEST_LEN = 8"

definition resource_request_is_for :: "ResourceTableRequest \<Rightarrow> u64 \<Rightarrow> bool" where
  "resource_request_is_for r node_id \<longleftrightarrow> sq_target_node_id r = node_id"

definition resource_request_decode :: "ResourceTableRequest decoder" where
  "resource_request_decode buf =
     try_ok (prefix RESOURCE_REQUEST_LEN buf) (\<lambda>b. Some (Ok \<lparr>sq_target_node_id = from_le b\<rparr>))"

definition resource_request_encode :: "ResourceTableRequest encoder" where
  "resource_request_encode r buf =
     (if length buf < RESOURCE_REQUEST_LEN then Some (buf, Err Truncated)
      else do {
        buf \<leftarrow> copy_at buf 0 (to_le 8 (sq_target_node_id r));
        Some (buf, Ok ()) })"

record Resource =
  rs_name :: bytes

definition RESOURCE_HEADER_LEN :: nat where "RESOURCE_HEADER_LEN = 2"
definition MAX_NAME_LEN :: nat where "MAX_NAME_LEN = 65535"

definition resource_encoded_len :: "Resource \<Rightarrow> nat" where
  "resource_encoded_len r = RESOURCE_HEADER_LEN + length (rs_name r)"

definition resource_decode :: "bytes \<Rightarrow> (BmWireError, Resource \<times> nat) result option" where
  "resource_decode buf =
     (case range_at buf 0 RESOURCE_HEADER_LEN of
        None \<Rightarrow> Some (Err Truncated)
      | Some head \<Rightarrow> do {
          n \<leftarrow> u16_at head 0;
          let len = unat n;
          (case range_at buf RESOURCE_HEADER_LEN (RESOURCE_HEADER_LEN + len) of
             None \<Rightarrow> Some (Err Truncated)
           | Some name \<Rightarrow> Some (Ok (\<lparr>rs_name = name\<rparr>, RESOURCE_HEADER_LEN + len))) })"

record ResourceTableReply =
  sr_node_id :: u64
  sr_num_pubs :: u16
  sr_num_subs :: u16
  sr_publishers :: bytes
  sr_subscribers :: bytes

definition RESOURCE_TABLE_HEADER_LEN :: nat where "RESOURCE_TABLE_HEADER_LEN = 12"

text \<open>The loop of \<open>measure\<close>.\<close>

primrec measure_loop :: "bytes \<Rightarrow> nat \<Rightarrow> nat \<Rightarrow> (BmWireError, nat) result option" where
  "measure_loop buf 0 at = Some (Ok at)"
| "measure_loop buf (Suc k) at =
     (case range_at buf at (length buf) of
        None \<Rightarrow> Some (Err Truncated)
      | Some rest \<Rightarrow> do {
          r \<leftarrow> resource_decode rest;
          try_ok r (\<lambda>(_, len). measure_loop buf k (at + len)) })"

definition measure_records :: "bytes \<Rightarrow> u16 \<Rightarrow> (BmWireError, nat) result option" where
  "measure_records buf count = measure_loop buf (unat count) 0"

definition resource_reply_decode :: "ResourceTableReply decoder" where
  "resource_reply_decode buf =
     (case range_at buf 0 RESOURCE_TABLE_HEADER_LEN of
        None \<Rightarrow> Some (Err Truncated)
      | Some head \<Rightarrow> do {
          node_id \<leftarrow> u64_at head 0;
          num_pubs \<leftarrow> u16_at head 8;
          num_subs \<leftarrow> u16_at head 10;
          records \<leftarrow> range_at buf RESOURCE_TABLE_HEADER_LEN (length buf);
          m \<leftarrow> measure_records records num_pubs;
          try_ok m (\<lambda>pub_bytes. do {
            rest \<leftarrow> range_at records pub_bytes (length records);
            m \<leftarrow> measure_records rest num_subs;
            try_ok m (\<lambda>sub_bytes. do {
              publishers \<leftarrow> range_at records 0 pub_bytes;
              subscribers \<leftarrow> range_at records pub_bytes (pub_bytes + sub_bytes);
              Some (Ok \<lparr>sr_node_id = node_id, sr_num_pubs = num_pubs, sr_num_subs = num_subs,
                sr_publishers = publishers, sr_subscribers = subscribers\<rparr>) }) }) })"

text \<open>The \<open>Records\<close> iterator, run to its end; its \<open>expect\<close> panics.\<close>

lemma resource_decode_len: "resource_decode buf = Some (Ok (r, len)) \<Longrightarrow> 2 \<le> len \<and> len \<le> length buf"
  by (auto simp: resource_decode_def RESOURCE_HEADER_LEN_def range_at_def Let_def split: if_splits bind_splits)

function records :: "bytes \<Rightarrow> Resource list option" where
  "records rest =
     (if rest = [] then Some []
      else case resource_decode rest of
        Some (Ok (resource, len)) \<Rightarrow>
          (case records (drop len rest) of None \<Rightarrow> None | Some rs \<Rightarrow> Some (resource # rs))
      | _ \<Rightarrow> None)"
  by pat_completeness auto
termination by (relation "measure length") (auto dest: resource_decode_len)

declare records.simps [simp del]

definition reply_publishers :: "ResourceTableReply \<Rightarrow> Resource list option" where
  "reply_publishers r = records (sr_publishers r)"

definition reply_subscribers :: "ResourceTableReply \<Rightarrow> Resource list option" where
  "reply_subscribers r = records (sr_subscribers r)"

definition resource_reply_encoded_len :: "ResourceTableReply \<Rightarrow> nat" where
  "resource_reply_encoded_len r = RESOURCE_TABLE_HEADER_LEN + length (sr_publishers r) + length (sr_subscribers r)"

definition resource_write_head :: "bytes \<Rightarrow> u64 \<Rightarrow> u16 \<Rightarrow> u16 \<Rightarrow> bytes option" where
  "resource_write_head buf node_id num_pubs num_subs = do {
     buf \<leftarrow> copy_at buf 0 (to_le 8 node_id);
     buf \<leftarrow> copy_at buf 8 (to_le 2 num_pubs);
     copy_at buf 10 (to_le 2 num_subs) }"

definition resource_reply_encode :: "ResourceTableReply msg_encoder" where
  "resource_reply_encode r buf =
     (let stop = resource_reply_encoded_len r in
      if length buf < stop then Some (buf, Err Truncated)
      else do {
        buf \<leftarrow> resource_write_head buf (sr_node_id r) (sr_num_pubs r) (sr_num_subs r);
        let split = RESOURCE_TABLE_HEADER_LEN + length (sr_publishers r);
        buf \<leftarrow> copy_at buf RESOURCE_TABLE_HEADER_LEN (sr_publishers r);
        buf \<leftarrow> copy_at buf split (sr_subscribers r);
        Some (buf, Ok stop) })"

primrec write_records :: "bytes list \<Rightarrow> bytes \<Rightarrow> nat \<Rightarrow> u16 \<Rightarrow> (bytes \<times> nat \<times> (BmWireError, u16) result) option" where
  "write_records [] buf at count = Some (buf, at, Ok count)"
| "write_records (name # names) buf at count =
     (if MAX_NAME_LEN < length name then Some (buf, at, Err Invalid)
      else if count = 0xFFFF then Some (buf, at, Err Invalid)
      else
        let count = count + 1;
            stop = at + RESOURCE_HEADER_LEN + length name
        in (case range_at buf at stop of
             None \<Rightarrow> Some (buf, at, Err Truncated)
           | Some slot \<Rightarrow> do {
               slot \<leftarrow> copy_at slot 0 (to_le 2 (of_nat (length name) :: u16));
               slot \<leftarrow> copy_at slot RESOURCE_HEADER_LEN name;
               buf \<leftarrow> copy_at buf at slot;
               write_records names buf stop count }))"

definition encode_resource_table_reply ::
  "bytes \<Rightarrow> u64 \<Rightarrow> bytes list \<Rightarrow> bytes list \<Rightarrow> (bytes \<times> (BmWireError, nat) result) option" where
  "encode_resource_table_reply buf node_id publishers subscribers =
     (if length buf < RESOURCE_TABLE_HEADER_LEN then Some (buf, Err Truncated)
      else do {
        (buf, at, r) \<leftarrow> write_records publishers buf RESOURCE_TABLE_HEADER_LEN 0;
        (case r of
           Err e \<Rightarrow> Some (buf, Err e)
         | Ok num_pubs \<Rightarrow> do {
             (buf, at, r) \<leftarrow> write_records subscribers buf at 0;
             (case r of
                Err e \<Rightarrow> Some (buf, Err e)
              | Ok num_subs \<Rightarrow> do {
                  buf \<leftarrow> resource_write_head buf node_id num_pubs num_subs;
                  Some (buf, Ok at) }) }) })"

section \<open>The table of resources\<close>

datatype ResourceAddError = AlreadyPresent | TableFull

record FindReadsOutOfBounds =
  fo_entry :: nat
  fo_entry_len :: nat

record ResourceSlot =
  rt_kind :: ResourceType
  rt_len :: nat
  rt_name :: bytes

record ResourceTable =
  rl_len :: nat
  rl_entries :: "ResourceSlot list"

text \<open>\<open>cap\<close> is the capacity \<open>NAME\<close> of a name.\<close>

definition resource_slot_empty :: "nat \<Rightarrow> ResourceSlot" where
  "resource_slot_empty cap = \<lparr>rt_kind = Publisher, rt_len = 0, rt_name = replicate cap 0\<rparr>"

definition slot_name :: "ResourceSlot \<Rightarrow> bytes option" where
  "slot_name e = range_at (rt_name e) 0 (rt_len e)"

definition resource_table_new :: "nat \<Rightarrow> nat \<Rightarrow> ResourceTable" where
  "resource_table_new n cap = \<lparr>rl_len = 0, rl_entries = replicate n (resource_slot_empty cap)\<rparr>"

definition resource_table_is_empty :: "ResourceTable \<Rightarrow> bool" where
  "resource_table_is_empty t \<longleftrightarrow> rl_len t = 0"

definition resource_iter :: "ResourceTable \<Rightarrow> ResourceType \<Rightarrow> bytes list option" where
  "resource_iter t kind = do {
     es \<leftarrow> range_at (rl_entries t) 0 (rl_len t);
     those (map slot_name (filter (\<lambda>e. rt_kind e = kind) es)) }"

definition resource_count :: "ResourceTable \<Rightarrow> ResourceType \<Rightarrow> u16 option" where
  "resource_count t kind = map_option (\<lambda>ns. of_nat (length ns)) (resource_iter t kind)"

definition resource_find :: "ResourceTable \<Rightarrow> bytes \<Rightarrow> ResourceType \<Rightarrow> bool option" where
  "resource_find t name kind = do {
     ns \<leftarrow> resource_iter t kind;
     Some (list_ex (\<lambda>stored. length name \<le> length stored \<and> take (length name) stored = name) ns) }"

primrec over_reads :: "bytes \<Rightarrow> bytes list \<Rightarrow> nat \<Rightarrow> FindReadsOutOfBounds option" where
  "over_reads name [] index = None"
| "over_reads name (stored # ns) index =
     (if length stored < length name then Some \<lparr>fo_entry = index, fo_entry_len = length stored\<rparr>
      else if take (length name) stored = name then None
      else over_reads name ns (index + 1))"

definition find_over_reads :: "ResourceTable \<Rightarrow> bytes \<Rightarrow> ResourceType \<Rightarrow> FindReadsOutOfBounds option option" where
  "find_over_reads t name kind = do {
     ns \<leftarrow> resource_iter t kind;
     Some (over_reads name ns 0) }"

definition resource_add ::
  "nat \<Rightarrow> bytes \<Rightarrow> ResourceType \<Rightarrow> ResourceTable \<Rightarrow> (ResourceTable \<times> (ResourceAddError, unit) result) option" where
  "resource_add cap name kind t = do {
     found \<leftarrow> resource_find t name kind;
     (if found then Some (t, Err AlreadyPresent)
      else if rl_len t = length (rl_entries t) \<or> cap < length name then Some (t, Err TableFull)
      else do {
        e \<leftarrow> get_at (rl_entries t) (rl_len t);
        held \<leftarrow> copy_at (rt_name e) 0 name;
        es \<leftarrow> set_at (rl_entries t) (rl_len t) (e\<lparr>rt_kind := kind, rt_len := length name, rt_name := held\<rparr>);
        Some (t\<lparr>rl_entries := es, rl_len := rl_len t + 1\<rparr>, Ok ()) }) }"

definition reply_len :: "ResourceTable \<Rightarrow> nat option" where
  "reply_len t = do {
     es \<leftarrow> range_at (rl_entries t) 0 (rl_len t);
     Some (RESOURCE_TABLE_HEADER_LEN + sum_list (map (\<lambda>e. RESOURCE_HEADER_LEN + rt_len e) es)) }"

definition encode_reply :: "ResourceTable \<Rightarrow> bytes \<Rightarrow> u64 \<Rightarrow> (bytes \<times> (BmWireError, nat) result) option" where
  "encode_reply t buf node_id = do {
     ps \<leftarrow> resource_iter t Publisher;
     ss \<leftarrow> resource_iter t SubscriberType;
     encode_resource_table_reply buf node_id ps ss }"

section \<open>The list of outstanding requests\<close>

text \<open>The list of \<open>bcmp/info.rs\<close> over this module's kinds.\<close>

datatype ResourceRequestKind = IgnoreTable | ReportTable
datatype ResourceReplyOutcome = Mismatched | Unsolicited | AcceptedTable | ReportedTable

type_synonym ResourceRequests = "ResourceRequestKind InfoRequests"

definition resource_requests_new :: "nat \<Rightarrow> ResourceRequests" where
  "resource_requests_new n = \<lparr>ir_len = 0, ir_entries = replicate n (0, IgnoreTable)\<rparr>"

definition resource_requests_contains :: "ResourceRequests \<Rightarrow> u64 \<Rightarrow> bool option" where
  "resource_requests_contains q node_id = info_requests_contains q node_id"

definition resource_record :: "u64 \<Rightarrow> ResourceRequestKind \<Rightarrow> ResourceRequests \<Rightarrow> (ResourceRequests \<times> bool) option" where
  "resource_record target_node_id kind q = info_record target_node_id kind q"

definition resource_accept :: "u64 \<Rightarrow> u64 \<Rightarrow> ResourceRequests \<Rightarrow> (ResourceRequests \<times> ResourceReplyOutcome) option" where
  "resource_accept claimed_node_id source_node_id q =
     (if claimed_node_id \<noteq> source_node_id then Some (q, Mismatched)
      else do {
        (q, taken) \<leftarrow> info_take source_node_id q;
        Some (q, case taken of None \<Rightarrow> Unsolicited | Some ReportTable \<Rightarrow> ReportedTable | Some IgnoreTable \<Rightarrow> AcceptedTable) })"

section \<open>The codecs\<close>

declare length_concat [simp del]

definition resource_request_wire :: "ResourceTableRequest \<Rightarrow> bytes" where
  "resource_request_wire r = to_le 8 (sq_target_node_id r)"

interpretation resource_request: fixed_codec RESOURCE_REQUEST_LEN resource_request_encode resource_request_decode resource_request_wire
proof unfold_locales
  have n: "RESOURCE_REQUEST_LEN = 8" by (simp add: RESOURCE_REQUEST_LEN_def)
  show "length (resource_request_wire r) = RESOURCE_REQUEST_LEN" for r by (simp add: resource_request_wire_def n del: to_le_numeral)
  show "resource_request_encode r buf = Some (buf, Err Truncated)" if "length buf < RESOURCE_REQUEST_LEN" for r buf
    using that by (simp add: resource_request_encode_def)
  show "resource_request_encode r buf = Some (put buf 0 (resource_request_wire r), Ok ())" if "RESOURCE_REQUEST_LEN \<le> length buf" for r buf
    using that by (simp add: resource_request_encode_def resource_request_wire_def n buf_simps del: to_le_numeral)
  show "resource_request_decode buf = Some (Err Truncated)" if "length buf < RESOURCE_REQUEST_LEN" for buf
    using that by (simp add: resource_request_decode_def buf_simps)
  show "resource_request_decode (resource_request_wire r @ rest) = Some (Ok r)" for r rest
    by (simp add: resource_request_decode_def resource_request_wire_def n buf_simps del: to_le_numeral)
  show "\<exists>r. resource_request_wire r = buf" if "length buf = RESOURCE_REQUEST_LEN" for buf
    using that by (intro exI [of _ "\<lparr>sq_target_node_id = from_le buf\<rparr>"]) (simp add: resource_request_wire_def n del: to_le_numeral)
qed

definition record_wire :: "bytes \<Rightarrow> bytes" where
  "record_wire name = to_le 2 (of_nat (length name) :: u16) @ name"

abbreviation wires :: "bytes list \<Rightarrow> bytes" where "wires ns \<equiv> concat (map record_wire ns)"

abbreviation names_ok :: "bytes list \<Rightarrow> bool" where "names_ok ns \<equiv> \<forall>n \<in> set ns. length n \<le> 65535"

lemma length_record_wire [simp]: "length (record_wire n) = 2 + length n"
  by (simp add: record_wire_def del: to_le_numeral)

lemma resource_decode_wire:
  assumes "length n \<le> 65535"
  shows "resource_decode (record_wire n @ rest) = Some (Ok (\<lparr>rs_name = n\<rparr>, 2 + length n))"
proof -
  have u: "unat (of_nat (length n) :: u16) = length n" using assms by (simp add: unsigned_of_nat take_bit_nat_eq_self)
  have "range_at (record_wire n @ rest) 0 2 = Some (to_le 2 (of_nat (length n) :: u16))"
    "range_at (record_wire n @ rest) 2 (2 + length n) = Some n"
    by (simp_all add: range_at_def record_wire_def subslice_def del: to_le_numeral)
  then show ?thesis using u by (simp add: resource_decode_def RESOURCE_HEADER_LEN_def buf_simps del: to_le_numeral)
qed

lemma resource_decode_Ok:
  assumes "resource_decode buf = Some (Ok (r, len))"
  shows "length (rs_name r) \<le> 65535" "len = 2 + length (rs_name r)" "len \<le> length buf" "take len buf = record_wire (rs_name r)"
proof -
  note [simp del] = to_le_numeral
  have 2: "2 \<le> length buf" using assms resource_decode_len by fastforce
  let ?n = "unat (from_le (subslice buf 0 2) :: u16)"
  have m: "2 + ?n \<le> length buf" and r: "r = \<lparr>rs_name = subslice buf 2 ?n\<rparr>" "len = 2 + ?n"
    using assms 2 by (auto simp: resource_decode_def RESOURCE_HEADER_LEN_def range_at_def buf_simps Let_def split: if_splits)
  have "?n < 2 ^ LENGTH(16)" by (rule unsigned_less)
  then show "length (rs_name r) \<le> 65535" "len = 2 + length (rs_name r)" "len \<le> length buf" using m r by simp_all
  have "take len buf = subslice buf 0 len" by (simp add: subslice_def)
  also have "\<dots> = record_wire (rs_name r)" using m r by (simp add: record_wire_def join_simps)
  finally show "take len buf = record_wire (rs_name r)" .
qed

lemma resource_decode_total: "\<exists>r. resource_decode buf = Some r"
  by (cases "2 \<le> length buf") (auto simp: resource_decode_def RESOURCE_HEADER_LEN_def range_at_def buf_simps Let_def)

lemma records_wires: "names_ok ns \<Longrightarrow> records (wires ns) = Some (map (\<lambda>n. \<lparr>rs_name = n\<rparr>) ns)"
proof (induction ns)
  case Nil
  then show ?case by (simp add: records.simps)
next
  case (Cons n ns)
  have "record_wire n \<noteq> []" by (auto dest: arg_cong [of _ _ length])
  then show ?case using Cons resource_decode_wire [of n "wires ns"] by (subst records.simps) simp
qed

lemma measure_loop_wires:
  "names_ok ns \<Longrightarrow> measure_loop (pre @ wires ns @ rest) (length ns) (length pre) = Some (Ok (length pre + length (wires ns)))"
proof (induction ns arbitrary: pre)
  case (Cons n ns)
  have "range_at (pre @ wires (n # ns) @ rest) (length pre) (length (pre @ wires (n # ns) @ rest)) = Some (record_wire n @ wires ns @ rest)"
    by (simp add: range_at_def subslice_def)
  then show ?case
    using Cons.IH [of "pre @ record_wire n"] Cons.prems resource_decode_wire [of n "wires ns @ rest"]
    by (simp add: add.assoc)
qed simp

lemma measure_loop_Ok:
  "measure_loop buf k at = Some (Ok stop) \<Longrightarrow> at \<le> length buf \<Longrightarrow>
   \<exists>ns. length ns = k \<and> names_ok ns \<and> stop = at + length (wires ns) \<and> stop \<le> length buf \<and>
     subslice buf at (length (wires ns)) = wires ns"
proof (induction k arbitrary: at)
  case 0
  then show ?case by simp
next
  case (Suc k)
  have r: "range_at buf at (length buf) = Some (drop at buf)" using Suc.prems(2) by (simp add: range_at_def subslice_def)
  obtain x len where d: "resource_decode (drop at buf) = Some (Ok (x, len))"
    using Suc.prems r resource_decode_total [of "drop at buf"]
    by (auto simp: try_ok_def split: result.splits)
  note x = resource_decode_Ok [OF d]
  have "measure_loop buf k (at + len) = Some (Ok stop)" "at + len \<le> length buf" using Suc.prems r d x(3) by simp_all
  from Suc.IH [OF this] obtain ns where ns: "length ns = k" "names_ok ns" "stop = at + len + length (wires ns)" "stop \<le> length buf"
    "subslice buf (at + len) (length (wires ns)) = wires ns" by blast
  have "subslice buf at len = record_wire (rs_name x)" using x(4) by (simp add: subslice_def)
  then have "subslice buf at (len + length (wires ns)) = record_wire (rs_name x) @ wires ns"
    using ns(5) by (simp add: subslice_split)
  then show ?case using ns x by (intro exI [of _ "rs_name x # ns"]) (simp add: add.assoc)
qed

lemma measure_loop_total: "\<exists>r. measure_loop buf k at = Some r"
proof (induction k arbitrary: at)
  case (Suc k)
  show ?case
  proof (cases "range_at buf at (length buf)")
    case (Some rest)
    obtain d where "resource_decode rest = Some d" using resource_decode_total by blast
    then show ?thesis using Some Suc by (cases d) (auto simp: case_prod_unfold)
  qed simp
qed simp


text \<open>What the reply says, as two lists of names.\<close>

record resources =
  re_node_id :: u64
  re_publishers :: "bytes list"
  re_subscribers :: "bytes list"

definition resources_ok :: "resources \<Rightarrow> bool" where
  "resources_ok t \<longleftrightarrow> length (re_publishers t) \<le> 65535 \<and> names_ok (re_publishers t) \<and>
     length (re_subscribers t) \<le> 65535 \<and> names_ok (re_subscribers t)"

definition resources_wire :: "resources \<Rightarrow> bytes" where
  "resources_wire t = to_le 8 (re_node_id t) @ to_le 2 (of_nat (length (re_publishers t)) :: u16) @
     to_le 2 (of_nat (length (re_subscribers t)) :: u16) @ wires (re_publishers t) @ wires (re_subscribers t)"

definition resources_decode :: "resources decoder" where
  "resources_decode buf = do {
     r \<leftarrow> resource_reply_decode buf;
     try_ok r (\<lambda>r. do {
       ps \<leftarrow> reply_publishers r;
       ss \<leftarrow> reply_subscribers r;
       Some (Ok \<lparr>re_node_id = sr_node_id r, re_publishers = map rs_name ps, re_subscribers = map rs_name ss\<rparr>) }) }"

definition resources_encode :: "resources msg_encoder" where
  "resources_encode t buf = encode_resource_table_reply buf (re_node_id t) (re_publishers t) (re_subscribers t)"

lemma length_resources_wire: "length (resources_wire t) = 12 + length (wires (re_publishers t)) + length (wires (re_subscribers t))"
  by (simp add: resources_wire_def del: to_le_numeral)

lemma resource_write_head_eq:
  "12 \<le> length buf \<Longrightarrow> resource_write_head buf n p s = Some (put buf 0 (to_le 8 n @ to_le 2 p @ to_le 2 s))"
  by (simp add: resource_write_head_def buf_simps put_put_seq del: to_le_numeral)

lemma unat_u16_len: "n \<le> 65535 \<Longrightarrow> unat (of_nat n :: u16) = n"
  by (simp add: unsigned_of_nat take_bit_nat_eq_self)

lemma resource_reply_decode_wire:
  assumes "resources_ok t"
  shows "resource_reply_decode (resources_wire t @ rest) = Some (Ok \<lparr>sr_node_id = re_node_id t,
    sr_num_pubs = of_nat (length (re_publishers t)), sr_num_subs = of_nat (length (re_subscribers t)),
    sr_publishers = wires (re_publishers t), sr_subscribers = wires (re_subscribers t)\<rparr>)"
proof -
  note [simp del] = to_le_numeral
  let ?p = "wires (re_publishers t)" and ?s = "wires (re_subscribers t)"
  let ?head = "to_le 8 (re_node_id t) @ to_le 2 (of_nat (length (re_publishers t)) :: u16) @ to_le 2 (of_nat (length (re_subscribers t)) :: u16)"
  have h: "range_at (resources_wire t @ rest) 0 12 = Some ?head"
    and b: "range_at (resources_wire t @ rest) 12 (length (resources_wire t @ rest)) = Some (?p @ ?s @ rest)"
    by (simp_all add: range_at_def resources_wire_def subslice_def)
  have m: "measure_records (?p @ ?s @ rest) (of_nat (length (re_publishers t))) = Some (Ok (length ?p))"
    "measure_records (?s @ rest) (of_nat (length (re_subscribers t))) = Some (Ok (length ?s))"
    using assms measure_loop_wires [of _ "[]"] by (simp_all add: measure_records_def unat_u16_len resources_ok_def)
  have r: "range_at (?p @ ?s @ rest) (length ?p) (length (?p @ ?s @ rest)) = Some (?s @ rest)"
    "range_at (?p @ ?s @ rest) 0 (length ?p) = Some ?p"
    "range_at (?p @ ?s @ rest) (length ?p) (length ?p + length ?s) = Some ?s"
    by (simp_all add: range_at_def subslice_def)
  show ?thesis using h b m r by (simp add: resource_reply_decode_def RESOURCE_TABLE_HEADER_LEN_def buf_simps)
qed

lemma resource_reply_decode_body:
  assumes "12 \<le> length buf"
  defines "c \<equiv> subslice buf 12 (length buf - 12)"
  shows "resource_reply_decode buf = do {
      m \<leftarrow> measure_records c (from_le (subslice buf 8 2));
      try_ok m (\<lambda>pub_bytes. do {
        rest \<leftarrow> range_at c pub_bytes (length c);
        m \<leftarrow> measure_records rest (from_le (subslice buf 10 2));
        try_ok m (\<lambda>sub_bytes. do {
          publishers \<leftarrow> range_at c 0 pub_bytes;
          subscribers \<leftarrow> range_at c pub_bytes (pub_bytes + sub_bytes);
          Some (Ok \<lparr>sr_node_id = from_le (subslice buf 0 8), sr_num_pubs = from_le (subslice buf 8 2),
            sr_num_subs = from_le (subslice buf 10 2), sr_publishers = publishers, sr_subscribers = subscribers\<rparr>) }) }) }"
  using assms(1) range_at_in [of 12 "length buf" buf] range_at_in [of 0 12 buf]
  by (simp add: resource_reply_decode_def RESOURCE_TABLE_HEADER_LEN_def uN_at_in c_def)

lemma resource_reply_decode_shape:
  assumes ok: "resource_reply_decode buf = Some (Ok r)"
  shows "\<exists>t. resources_ok t \<and> re_node_id t = sr_node_id r \<and> sr_num_pubs r = of_nat (length (re_publishers t)) \<and>
    sr_num_subs r = of_nat (length (re_subscribers t)) \<and> sr_publishers r = wires (re_publishers t) \<and>
    sr_subscribers r = wires (re_subscribers t) \<and> length (resources_wire t) \<le> length buf \<and>
    take (length (resources_wire t)) buf = resources_wire t"
proof -
  note [simp del] = to_le_numeral
  note defs = resource_reply_decode_def RESOURCE_TABLE_HEADER_LEN_def
  have 12: "12 \<le> length buf" using ok by (auto simp: defs range_at_def split: if_splits)
  let ?c = "subslice buf 12 (length buf - 12)"
  let ?np = "from_le (subslice buf 8 2) :: u16" and ?ns = "from_le (subslice buf 10 2) :: u16"
  note c = resource_reply_decode_body [OF 12]
  have len: "length ?c = length buf - 12" by (simp add: subslice_def)
  obtain pb where pb: "measure_records ?c ?np = Some (Ok pb)"
    using ok unfolding c by (auto simp: try_ok_def split: result.splits bind_splits)
  from measure_loop_Ok [of ?c "unat ?np" 0 pb] pb obtain ps where ps: "length ps = unat ?np" "names_ok ps" "pb = length (wires ps)"
    "pb \<le> length ?c" "subslice ?c 0 (length (wires ps)) = wires ps"
    by (auto simp: measure_records_def)
  have d: "range_at ?c pb (length ?c) = Some (drop pb ?c)" using ps(4) by (simp add: range_at_def subslice_def)
  obtain sb where sb: "measure_records (drop pb ?c) ?ns = Some (Ok sb)"
    using ok pb d unfolding c by (auto simp: try_ok_def split: result.splits bind_splits)
  from measure_loop_Ok [of "drop pb ?c" "unat ?ns" 0 sb] sb obtain ss where ss: "length ss = unat ?ns" "names_ok ss" "sb = length (wires ss)"
    "sb \<le> length (drop pb ?c)" "subslice (drop pb ?c) 0 (length (wires ss)) = wires ss"
    by (auto simp: measure_records_def)
  have p: "subslice buf 12 pb = wires ps" using ps(3-5) len 12 by simp
  have s: "subslice buf (12 + pb) sb = wires ss"
    using ss(3-5) ps(4) by (simp add: subslice_def drop_drop add.commute)
  have fit: "12 + pb + sb \<le> length buf" using ps(4) ss(4) 12 len by simp
  have r: "r = \<lparr>sr_node_id = from_le (subslice buf 0 8), sr_num_pubs = ?np, sr_num_subs = ?ns, sr_publishers = wires ps, sr_subscribers = wires ss\<rparr>"
  proof -
    have "range_at ?c 0 pb = Some (wires ps)" "range_at ?c pb (pb + sb) = Some (wires ss)"
      using fit p s len by (simp_all add: range_at_def)
    then show ?thesis using ok pb d sb unfolding c by simp
  qed
  let ?t = "\<lparr>re_node_id = sr_node_id r, re_publishers = ps, re_subscribers = ss\<rparr>"
  have "unat ?np < 2 ^ LENGTH(16)" "unat ?ns < 2 ^ LENGTH(16)" by (rule unsigned_less)+
  then have okt: "resources_ok ?t" using ps ss by (simp add: resources_ok_def)
  have l: "length (resources_wire ?t) = 12 + pb + sb" using ps ss by (simp add: length_resources_wire)
  have "take (12 + pb + sb) buf = subslice buf 0 (12 + pb + sb)" by (simp add: subslice_def)
  also have "\<dots> = subslice buf 0 8 @ subslice buf 8 2 @ subslice buf 10 2 @ subslice buf 12 pb @ subslice buf (12 + pb) sb"
    using fit by (simp add: join_simps add.assoc)
  also have "\<dots> = resources_wire ?t" using 12 ps(1) ss(1) p s by (simp add: r resources_wire_def)
  finally show ?thesis using okt l fit r ps(1) ss(1) by (intro exI [of _ ?t]) simp
qed

lemma resource_reply_decode_total: "\<exists>r. resource_reply_decode buf = Some r"
proof (cases "12 \<le> length buf")
  case True
  let ?c = "subslice buf 12 (length buf - 12)"
  let ?np = "from_le (subslice buf 8 2) :: u16" and ?ns = "from_le (subslice buf 10 2) :: u16"
  note c = resource_reply_decode_body [OF True]
  obtain m where m: "measure_records ?c ?np = Some m" using measure_loop_total unfolding measure_records_def by blast
  show ?thesis
  proof (cases m)
    case (Ok pb)
    have pb: "pb \<le> length ?c" using measure_loop_Ok [of ?c "unat ?np" 0 pb] m Ok by (auto simp: measure_records_def)
    then have d: "range_at ?c pb (length ?c) = Some (drop pb ?c)" by (simp add: range_at_def subslice_def)
    obtain m2 where m2: "measure_records (drop pb ?c) ?ns = Some m2" using measure_loop_total unfolding measure_records_def by blast
    show ?thesis
    proof (cases m2)
      case (Ok sb)
      have "sb \<le> length (drop pb ?c)" using measure_loop_Ok [of "drop pb ?c" "unat ?ns" 0 sb] m2 Ok by (auto simp: measure_records_def)
      then have "pb + sb \<le> length ?c" using pb unfolding length_drop by linarith
      then have "range_at ?c 0 pb = Some (subslice ?c 0 pb)" "range_at ?c pb (pb + sb) = Some (subslice ?c pb sb)"
        by (simp_all add: range_at_def del: subslice_subslice)
      then show ?thesis unfolding c using m \<open>m = Ok pb\<close> d m2 Ok by simp
    qed (use m Ok d m2 c in simp)
  qed (use m c in simp)
qed (simp add: resource_reply_decode_def RESOURCE_TABLE_HEADER_LEN_def range_at_def)


text \<open>A reply that decodes can be walked to its end, and is passed on unchanged.\<close>

lemma resource_reply_lists:
  assumes "resource_reply_decode buf = Some (Ok r)"
  shows "\<exists>ps ss. reply_publishers r = Some ps \<and> length ps = unat (sr_num_pubs r) \<and>
    reply_subscribers r = Some ss \<and> length ss = unat (sr_num_subs r)"
  using resource_reply_decode_shape [OF assms]
  by (auto simp: reply_publishers_def reply_subscribers_def records_wires resources_ok_def unat_u16_len)

lemma resource_reply_reencode:
  assumes "resource_reply_decode buf = Some (Ok r)"
  shows "resource_reply_encode r buf = Some (buf, Ok (resource_reply_encoded_len r))"
proof -
  note [simp del] = to_le_numeral
  obtain t where t: "re_node_id t = sr_node_id r" "sr_num_pubs r = of_nat (length (re_publishers t))"
    "sr_num_subs r = of_nat (length (re_subscribers t))" "sr_publishers r = wires (re_publishers t)"
    "sr_subscribers r = wires (re_subscribers t)" "length (resources_wire t) \<le> length buf"
    "take (length (resources_wire t)) buf = resources_wire t"
    using resource_reply_decode_shape [OF assms] by blast
  have "resource_reply_encode r buf = Some (put buf 0 (resources_wire t), Ok (resource_reply_encoded_len r))"
    using t(6) unfolding length_resources_wire
    by (simp add: resource_reply_encode_def resource_reply_encoded_len_def RESOURCE_TABLE_HEADER_LEN_def
        resource_write_head_eq buf_simps put_put_seq t(1-5) resources_wire_def)
  moreover have "put buf 0 (resources_wire t) = buf"
    using t(6,7) by (metis append_take_drop_id put_0)
  ultimately show ?thesis by simp
qed

text \<open>Writing the records: it succeeds exactly when the counts and the lengths fit.\<close>

lemma write_records_step:
  "length name \<le> 65535 \<Longrightarrow> count \<noteq> 0xFFFF \<Longrightarrow> at + (2 + length name) \<le> length buf \<Longrightarrow>
   write_records (name # names) buf at count =
     write_records names (put buf at (record_wire name)) (at + (2 + length name)) (count + 1)"
proof -
  note [simp del] = to_le_numeral
  assume a: "length name \<le> 65535" "count \<noteq> 0xFFFF" "at + (2 + length name) \<le> length buf"
  let ?s = "subslice buf at (2 + length name)" and ?l = "to_le 2 (of_nat (length name) :: u16)"
  have l: "length ?s = 2 + length name" using a(3) by simp
  have "put (put ?s 0 ?l) 2 name = put ?s 0 (record_wire name)"
    using l by (subst put_put_seq) (simp_all add: record_wire_def)
  also have "\<dots> = record_wire name" using l by (simp add: put_0)
  finally show ?thesis using a l
    by (simp add: MAX_NAME_LEN_def RESOURCE_HEADER_LEN_def range_at_def copy_at_def add.assoc)
qed

lemma unat_Suc_u16: "count \<noteq> 0xFFFF \<Longrightarrow> unat (count + 1 :: u16) = Suc (unat count)"
proof -
  assume "count \<noteq> 0xFFFF"
  then have "unat count \<noteq> 65535" by (auto simp: word_unat_eq_iff)
  moreover have "unat count < 2 ^ LENGTH(16)" by (rule unsigned_less)
  ultimately show ?thesis by (simp add: unat_word_ariths)
qed

lemma write_records_eq:
  "names_ok ns \<Longrightarrow> unat count + length ns \<le> 65535 \<Longrightarrow> at + length (wires ns) \<le> length buf \<Longrightarrow>
   write_records ns buf at count = Some (put buf at (wires ns), at + length (wires ns), Ok (count + of_nat (length ns)))"
proof (induction ns arbitrary: buf at count)
  case Nil
  then show ?case by (simp add: put_def)
next
  case (Cons n ns)
  note [simp del] = write_records.simps
  have c: "count \<noteq> 0xFFFF" using Cons.prems(2) by auto
  have "put (put buf at (record_wire n)) (at + (2 + length n)) (wires ns) = put buf at (wires (n # ns))"
    using Cons.prems(3) by (subst put_put_seq) simp_all
  then show ?case
    using Cons.IH [of "count + 1" "at + (2 + length n)" "put buf at (record_wire n)"] Cons.prems c unat_Suc_u16 [OF c]
    by (simp add: write_records_step add.assoc)
qed

lemma write_records_total:
  "\<exists>buf' at' r. write_records ns buf at count = Some (buf', at', r) \<and> length buf' = length buf"
proof (induction ns arbitrary: buf at count)
  case Nil
  then show ?case by simp
next
  case (Cons n ns)
  show ?case
  proof (cases "length n \<le> 65535 \<and> count \<noteq> 0xFFFF \<and> at + (2 + length n) \<le> length buf")
    case True
    then show ?thesis using Cons [of "put buf at (record_wire n)" "at + (2 + length n)" "count + 1"]
      by (simp add: write_records_step del: write_records.simps)
  next
    case False
    then show ?thesis by (auto simp: MAX_NAME_LEN_def RESOURCE_HEADER_LEN_def range_at_def)
  qed
qed

lemma write_records_Ok:
  "write_records ns buf at count = Some (buf', at', Ok k) \<Longrightarrow> at \<le> length buf \<Longrightarrow>
   names_ok ns \<and> unat count + length ns \<le> 65535 \<and> at + length (wires ns) \<le> length buf"
proof (induction ns arbitrary: buf at count)
  case Nil
  have "unat count < 2 ^ LENGTH(16)" by (rule unsigned_less)
  then show ?case using Nil by simp
next
  case (Cons n ns)
  have fits: "length n \<le> 65535 \<and> count \<noteq> 0xFFFF \<and> at + (2 + length n) \<le> length buf"
    using Cons.prems by (auto simp: MAX_NAME_LEN_def RESOURCE_HEADER_LEN_def range_at_def split: if_splits)
  then have "write_records ns (put buf at (record_wire n)) (at + (2 + length n)) (count + 1) = Some (buf', at', Ok k)"
    using Cons.prems by (simp add: write_records_step del: write_records.simps)
  from Cons.IH [OF this] fits show ?case by (auto simp: unat_Suc_u16)
qed


lemma write_records_short:
  "names_ok ns \<Longrightarrow> unat count + length ns \<le> 65535 \<Longrightarrow> length buf < at + length (wires ns) \<Longrightarrow> at \<le> length buf \<Longrightarrow>
   \<exists>buf' at'. write_records ns buf at count = Some (buf', at', Err Truncated) \<and> length buf' = length buf"
proof (induction ns arbitrary: buf at count)
  case Nil
  then show ?case by simp
next
  case (Cons n ns)
  have c: "count \<noteq> 0xFFFF" using Cons.prems(2) by auto
  show ?case
  proof (cases "at + (2 + length n) \<le> length buf")
    case True
    then show ?thesis
      using Cons.IH [of "count + 1" "put buf at (record_wire n)" "at + (2 + length n)"] Cons.prems c unat_Suc_u16 [OF c]
      by (simp add: write_records_step add.assoc del: write_records.simps)
  next
    case False
    then show ?thesis using Cons.prems c by (simp add: MAX_NAME_LEN_def RESOURCE_HEADER_LEN_def range_at_def)
  qed
qed

lemma put_before: "a + length h = c \<Longrightarrow> c \<le> length buf \<Longrightarrow> put (put buf c xs) a h = put buf a (h @ xs)"
  by (auto simp: put_def add.assoc)

lemma resources_encode_eq:
  assumes "resources_ok t" "length (resources_wire t) \<le> length buf"
  shows "resources_encode t buf = Some (put buf 0 (resources_wire t), Ok (length (resources_wire t)))"
proof -
  note [simp del] = to_le_numeral
  let ?p = "wires (re_publishers t)" and ?s = "wires (re_subscribers t)"
  have fit: "12 + length ?p + length ?s \<le> length buf" using assms(2) by (simp add: length_resources_wire)
  have p: "write_records (re_publishers t) buf 12 0 = Some (put buf 12 ?p, 12 + length ?p, Ok (of_nat (length (re_publishers t))))"
    using assms(1) fit by (simp add: write_records_eq resources_ok_def)
  have s: "write_records (re_subscribers t) (put buf 12 ?p) (12 + length ?p) 0 =
      Some (put buf 12 (?p @ ?s), 12 + length ?p + length ?s, Ok (of_nat (length (re_subscribers t))))"
    using assms(1) fit by (simp add: write_records_eq resources_ok_def put_put_seq)
  show ?thesis using assms(2) fit p s
    by (simp add: resources_encode_def encode_resource_table_reply_def RESOURCE_TABLE_HEADER_LEN_def resource_write_head_eq
        put_before length_resources_wire resources_wire_def)
qed

lemma resources_encode_short:
  assumes "resources_ok t" "length buf < length (resources_wire t)"
  shows "\<exists>buf'. resources_encode t buf = Some (buf', Err Truncated) \<and> length buf' = length buf"
proof (cases "length buf < 12")
  case True
  then show ?thesis by (simp add: resources_encode_def encode_resource_table_reply_def RESOURCE_TABLE_HEADER_LEN_def)
next
  case False
  let ?p = "wires (re_publishers t)"
  show ?thesis
  proof (cases "length buf < 12 + length ?p")
    case True
    then show ?thesis using False assms(1) write_records_short [of "re_publishers t" 0 buf 12]
      by (auto simp: resources_encode_def encode_resource_table_reply_def RESOURCE_TABLE_HEADER_LEN_def resources_ok_def)
  next
    case fit: False
    have p: "write_records (re_publishers t) buf 12 0 = Some (put buf 12 ?p, 12 + length ?p, Ok (of_nat (length (re_publishers t))))"
      using assms(1) fit by (simp add: write_records_eq resources_ok_def)
    then show ?thesis
      using False fit assms write_records_short [of "re_subscribers t" 0 "put buf 12 ?p" "12 + length ?p"]
      by (auto simp: resources_encode_def encode_resource_table_reply_def RESOURCE_TABLE_HEADER_LEN_def resources_ok_def
          length_resources_wire)
  qed
qed

lemma resources_encode_Ok:
  assumes "resources_encode t buf = Some (buf', Ok n)"
  shows "resources_ok t" "length (resources_wire t) \<le> length buf"
proof -
  have 12: "12 \<le> length buf" using assms
    by (auto simp: resources_encode_def encode_resource_table_reply_def RESOURCE_TABLE_HEADER_LEN_def split: if_splits)
  obtain b1 a1 k1 where p: "write_records (re_publishers t) buf 12 0 = Some (b1, a1, Ok k1)"
    using assms 12 by (auto simp: resources_encode_def encode_resource_table_reply_def RESOURCE_TABLE_HEADER_LEN_def
        split: bind_splits result.splits)
  note po = write_records_Ok [OF p 12]
  have e: "b1 = put buf 12 (wires (re_publishers t))" "a1 = 12 + length (wires (re_publishers t))"
    using p write_records_eq [of "re_publishers t" 0 12 buf] po by simp_all
  obtain b2 a2 k2 where s: "write_records (re_subscribers t) b1 a1 0 = Some (b2, a2, Ok k2)"
    using assms 12 p by (auto simp: resources_encode_def encode_resource_table_reply_def RESOURCE_TABLE_HEADER_LEN_def
        split: bind_splits result.splits)
  have "a1 \<le> length b1" using e po by simp
  from write_records_Ok [OF s this] show "resources_ok t" "length (resources_wire t) \<le> length buf"
    using po e by (simp_all add: resources_ok_def length_resources_wire)
qed

lemma write_records_Err:
  "write_records ns buf at count = Some (buf', at', Err e) \<Longrightarrow> e = Truncated \<or> e = Invalid"
proof (induction ns arbitrary: buf at count)
  case (Cons n ns)
  show ?case
  proof (cases "length n \<le> 65535 \<and> count \<noteq> 0xFFFF \<and> at + (2 + length n) \<le> length buf")
    case True
    then show ?thesis using Cons by (simp add: write_records_step del: write_records.simps)
  next
    case False
    then show ?thesis using Cons.prems
      by (auto simp: MAX_NAME_LEN_def RESOURCE_HEADER_LEN_def range_at_def split: if_splits)
  qed
qed simp

lemma resources_encode_refused:
  assumes "\<not> resources_ok t"
  shows "\<exists>buf' e. resources_encode t buf = Some (buf', Err e) \<and> length buf' = length buf \<and> (e = Truncated \<or> e = Invalid)"
proof (cases "length buf < 12")
  case True
  then show ?thesis by (simp add: resources_encode_def encode_resource_table_reply_def RESOURCE_TABLE_HEADER_LEN_def)
next
  case False
  obtain b1 a1 r1 where p: "write_records (re_publishers t) buf 12 0 = Some (b1, a1, r1)" "length b1 = length buf"
    using write_records_total by blast
  obtain b2 a2 r2 where q: "write_records (re_subscribers t) b1 a1 0 = Some (b2, a2, r2)" "length b2 = length b1"
    using write_records_total by blast
  note enc = resources_encode_def encode_resource_table_reply_def RESOURCE_TABLE_HEADER_LEN_def
  consider (pubs) e where "r1 = Err e" | (subs) k e where "r1 = Ok k" "r2 = Err e" | (both) k l where "r1 = Ok k" "r2 = Ok l"
    by (cases r1; cases r2) auto
  then show ?thesis
  proof cases
    case pubs
    then show ?thesis using False p write_records_Err [of "re_publishers t" buf 12 0] by (auto simp: enc)
  next
    case subs
    then show ?thesis using False p q write_records_Err [of "re_subscribers t" b1 a1 0] by (auto simp: enc)
  next
    case both
    have "\<exists>buf' n. resources_encode t buf = Some (buf', Ok n)"
      using False p q both by (simp add: enc resource_write_head_eq)
    then show ?thesis using resources_encode_Ok(1) assms by blast
  qed
qed

lemma resources_decode_wire: "resources_ok t \<Longrightarrow> resources_decode (resources_wire t @ rest) = Some (Ok t)"
  by (simp add: resources_decode_def resource_reply_decode_wire reply_publishers_def reply_subscribers_def records_wires
      resources_ok_def comp_def)

lemma resources_roundtrip:
  assumes "resources_encode t buf = Some (buf', Ok n)"
  shows "resources_decode (take n buf' @ rest) = Some (Ok t)" "length buf' = length buf" "drop n buf' = drop n buf"
  using resources_encode_Ok [OF assms] resources_encode_eq [of t buf] assms resources_decode_wire [of t]
  by (auto simp: put_0)

section \<open>The table, as a list\<close>

definition held_resource :: "ResourceSlot \<Rightarrow> ResourceType \<times> bytes" where
  "held_resource e = (rt_kind e, take (rt_len e) (rt_name e))"

definition resources_held :: "ResourceTable \<Rightarrow> (ResourceType \<times> bytes) list" where
  "resources_held t = map held_resource (take (rl_len t) (rl_entries t))"

definition names_of :: "ResourceType \<Rightarrow> (ResourceType \<times> bytes) list \<Rightarrow> bytes list" where
  "names_of k es = map snd (filter (\<lambda>e. fst e = k) es)"

definition rt_wf :: "nat \<Rightarrow> ResourceTable \<Rightarrow> bool" where
  "rt_wf cap t \<longleftrightarrow> rl_len t \<le> length (rl_entries t) \<and>
     (\<forall>e \<in> set (rl_entries t). length (rt_name e) = cap \<and> rt_len e \<le> cap)"

text \<open>A name is refused when it is the beginning of one of its kind that is held.\<close>

definition covered :: "bytes \<Rightarrow> ResourceType \<Rightarrow> (ResourceType \<times> bytes) list \<Rightarrow> bool" where
  "covered name kind es \<longleftrightarrow> (\<exists>rest. (kind, name @ rest) \<in> set es)"

definition add_spec :: "nat \<Rightarrow> nat \<Rightarrow> bytes \<Rightarrow> ResourceType \<Rightarrow> (ResourceType \<times> bytes) list \<Rightarrow>
    (ResourceType \<times> bytes) list \<times> (ResourceAddError, unit) result" where
  "add_spec n cap name kind es =
     (if covered name kind es then (es, Err AlreadyPresent)
      else if length es = n \<or> cap < length name then (es, Err TableFull)
      else (es @ [(kind, name)], Ok ()))"

lemma resource_iter_eq:
  assumes "rt_wf cap t"
  shows "resource_iter t kind = Some (names_of kind (resources_held t))"
proof -
  let ?es = "take (rl_len t) (rl_entries t)"
  have "those (map slot_name (filter (\<lambda>e. rt_kind e = kind) ?es)) =
      Some (map (\<lambda>e. snd (held_resource e)) (filter (\<lambda>e. rt_kind e = kind) ?es))"
    by (rule those_map) (use assms in \<open>auto simp: rt_wf_def slot_name_def held_resource_def range_at_def subslice_def dest!: in_set_takeD\<close>)
  moreover have "names_of kind (resources_held t) = map (\<lambda>e. snd (held_resource e)) (filter (\<lambda>e. rt_kind e = kind) ?es)"
    by (simp add: names_of_def resources_held_def filter_map comp_def held_resource_def)
  moreover have "range_at (rl_entries t) 0 (rl_len t) = Some ?es"
    using assms by (simp add: rt_wf_def range_at_def subslice_def)
  ultimately show ?thesis by (simp add: resource_iter_def)
qed

lemma resource_find_eq:
  assumes "rt_wf cap t"
  shows "resource_find t name kind = Some (covered name kind (resources_held t))"
proof -
  have "list_ex (\<lambda>stored. length name \<le> length stored \<and> take (length name) stored = name) (names_of kind es) \<longleftrightarrow>
      covered name kind es" for es
  proof -
    have "length name \<le> length s \<and> take (length name) s = name \<longleftrightarrow> (\<exists>rest. s = name @ rest)" for s
      by (metis append_take_drop_id append_eq_conv_conj length_append le_add1)
    then show ?thesis by (auto simp: list_ex_iff names_of_def covered_def)
  qed
  then show ?thesis using assms by (simp add: resource_find_def resource_iter_eq)
qed

lemma resource_table_new_wf: "rt_wf cap (resource_table_new n cap)" "resources_held (resource_table_new n cap) = []"
  "length (rl_entries (resource_table_new n cap)) = n"
  by (auto simp: rt_wf_def resources_held_def resource_table_new_def resource_slot_empty_def)

lemma resource_add_eq:
  assumes wf: "rt_wf cap t"
  shows "\<exists>t'. resource_add cap name kind t = Some (t', snd (add_spec (length (rl_entries t)) cap name kind (resources_held t))) \<and>
    rt_wf cap t' \<and> length (rl_entries t') = length (rl_entries t) \<and>
    resources_held t' = fst (add_spec (length (rl_entries t)) cap name kind (resources_held t))"
proof -
  have len: "length (resources_held t) = rl_len t" using wf by (simp add: resources_held_def rt_wf_def)
  show ?thesis
  proof (cases "covered name kind (resources_held t) \<or> rl_len t = length (rl_entries t) \<or> cap < length name")
    case True
    then show ?thesis using wf len by (auto simp: resource_add_def resource_find_eq [OF wf] add_spec_def)
  next
    case False
    then have n: "rl_len t < length (rl_entries t)" "length name \<le> cap" using wf by (simp_all add: rt_wf_def)
    let ?e = "rl_entries t ! rl_len t"
    let ?new = "?e\<lparr>rt_kind := kind, rt_len := length name, rt_name := put (rt_name ?e) 0 name\<rparr>"
    let ?t = "t\<lparr>rl_entries := (rl_entries t)[rl_len t := ?new], rl_len := rl_len t + 1\<rparr>"
    have e: "length (rt_name ?e) = cap" using wf n(1) by (simp add: rt_wf_def)
    have "resource_add cap name kind t = Some (?t, Ok ())"
      using False n e by (simp add: resource_add_def resource_find_eq [OF wf] get_at_def copy_at_def set_at_def)
    moreover have "resources_held ?t = resources_held t @ [(kind, name)]"
      using append_live [OF n(1), of ?new] n(2) e by (simp add: resources_held_def held_resource_def put_0)
    moreover have "rt_wf cap ?t"
      using wf n e by (auto simp: rt_wf_def dest!: subsetD [OF set_update_subset_insert])
    ultimately show ?thesis using False len by (simp add: add_spec_def)
  qed
qed

lemma length_names_wire: "length (wires ns) = sum_list (map (\<lambda>n. 2 + length n) ns)"
  by (induction ns) simp_all

lemma reply_len_eq:
  assumes wf: "rt_wf cap t"
  shows "reply_len t = Some (12 + length (wires (names_of Publisher (resources_held t))) +
    length (wires (names_of SubscriberType (resources_held t))))"
proof -
  have "sum_list (map (\<lambda>e. 2 + rt_len e) es) =
      length (wires (names_of Publisher (map held_resource es))) + length (wires (names_of SubscriberType (map held_resource es)))"
    if "\<forall>e \<in> set es. rt_len e \<le> length (rt_name e)" for es
    using that
  proof (induction es)
    case (Cons e es)
    then show ?case by (cases "rt_kind e") (simp_all add: names_of_def held_resource_def)
  qed (simp add: names_of_def)
  moreover have "\<forall>e \<in> set (take (rl_len t) (rl_entries t)). rt_len e \<le> length (rt_name e)"
    using wf by (auto simp: rt_wf_def dest!: in_set_takeD)
  ultimately show ?thesis using wf
    by (simp add: reply_len_def rt_wf_def range_at_def subslice_def resources_held_def RESOURCE_TABLE_HEADER_LEN_def
        RESOURCE_HEADER_LEN_def)
qed

lemma encode_reply_eq:
  assumes "rt_wf cap t"
  shows "encode_reply t buf node = resources_encode \<lparr>re_node_id = node, re_publishers = names_of Publisher (resources_held t),
    re_subscribers = names_of SubscriberType (resources_held t)\<rparr> buf"
  using assms by (simp add: encode_reply_def resource_iter_eq resources_encode_def)

text \<open>What a reply can say: the number of each kind and the length of each name are sixteen bits wide.\<close>

definition advertisable :: "(ResourceType \<times> bytes) list \<Rightarrow> bool" where
  "advertisable es \<longleftrightarrow> length (names_of Publisher es) \<le> 65535 \<and> length (names_of SubscriberType es) \<le> 65535 \<and>
     list_all (\<lambda>(kind, name). length name \<le> 65535) es"

lemma resources_ok_advertisable:
  "resources_ok \<lparr>re_node_id = node, re_publishers = names_of Publisher es, re_subscribers = names_of SubscriberType es\<rparr>
     \<longleftrightarrow> advertisable es"
proof -
  have "names_ok (names_of Publisher es) \<and> names_ok (names_of SubscriberType es) \<longleftrightarrow>
      list_all (\<lambda>(kind, name). length name \<le> 65535) es"
  proof (induction es)
    case (Cons e es)
    then show ?case by (cases e, cases "fst e") (auto simp: names_of_def)
  qed (simp add: names_of_def)
  then show ?thesis by (auto simp: resources_ok_def advertisable_def)
qed

section \<open>What the module promises\<close>

text \<open>Property C15. A node advertises exactly the resources it has added. For every well-formed table, which is
  what a new one is and what \<open>add\<close> keeps, of any capacity, \<open>add\<close> never panics and does what the
  specification on lists says: a name that is the
  beginning of one held of its kind is already present, a full table or a name that is too long is refused,
  and any other name goes to the end. The reply built from the table never panics and takes \<open>reply_len\<close>
  bytes. The counts and the lengths of a reply are sixteen bits wide: a table that holds more than 65535 resources of a
  kind, or a name longer than 65535 bytes, gets an error in any buffer. Any other table gets \<open>Truncated\<close> in a
  buffer that is shorter than \<open>reply_len\<close>, and otherwise what is written decodes, whatever follows
  it, to the node and its two lists of names in the order they were added.\<close>

theorem resources_are_advertised:
  assumes "rt_wf cap t"
  shows "(\<exists>t'. resource_add cap name kind t =
        Some (t', snd (add_spec (length (rl_entries t)) cap name kind (resources_held t))) \<and> rt_wf cap t' \<and>
      resources_held t' = fst (add_spec (length (rl_entries t)) cap name kind (resources_held t))) \<and>
    (\<exists>m buf' res. reply_len t = Some m \<and> encode_reply t buf node = Some (buf', res) \<and> length buf' = length buf \<and>
      (if advertisable (resources_held t)
       then res = (if length buf < m then Err Truncated else Ok m) \<and>
         (length buf < m \<or> resources_decode (take m buf' @ rest) = Some (Ok \<lparr>re_node_id = node,
           re_publishers = names_of Publisher (resources_held t),
           re_subscribers = names_of SubscriberType (resources_held t)\<rparr>))
       else res = Err Truncated \<or> res = Err Invalid))"
proof (rule conjI)
  let ?r = "\<lparr>re_node_id = node, re_publishers = names_of Publisher (resources_held t),
      re_subscribers = names_of SubscriberType (resources_held t)\<rparr>"
  have ok: "resources_ok ?r \<longleftrightarrow> advertisable (resources_held t)" by (rule resources_ok_advertisable)
  have m: "reply_len t = Some (length (resources_wire ?r))"
    using reply_len_eq [OF assms] by (simp add: length_resources_wire)
  note e = encode_reply_eq [OF assms, of buf node]
  consider "\<not> advertisable (resources_held t)" | "advertisable (resources_held t)" "length buf < length (resources_wire ?r)"
    | "advertisable (resources_held t)" "\<not> length buf < length (resources_wire ?r)" by blast
  then show "\<exists>m buf' res. reply_len t = Some m \<and> encode_reply t buf node = Some (buf', res) \<and> length buf' = length buf \<and>
      (if advertisable (resources_held t)
       then res = (if length buf < m then Err Truncated else Ok m) \<and>
         (length buf < m \<or> resources_decode (take m buf' @ rest) = Some (Ok ?r))
       else res = Err Truncated \<or> res = Err Invalid)"
  proof cases
    case 1
    then show ?thesis using resources_encode_refused [of ?r buf] ok m e by auto
  next
    case 2
    then show ?thesis using resources_encode_short [of ?r buf] ok m e by auto
  next
    case 3
    then have "resources_encode ?r buf = Some (put buf 0 (resources_wire ?r), Ok (length (resources_wire ?r)))"
      using resources_encode_eq [of ?r buf] ok by simp
    then show ?thesis using 3 resources_roundtrip [of ?r buf] m e by auto
  qed
qed (use resource_add_eq [OF assms] in blast)

theorem resources_are_advertised_witness:
  "\<exists>t m buf'. resource_add 8 [116, 49] Publisher (resource_table_new 2 8) = Some (t, Ok ()) \<and>
     encode_reply t (replicate 20 0) 7 = Some (buf', Ok m) \<and>
     resources_decode (take m buf' @ [1, 2]) = Some (Ok \<lparr>re_node_id = 7, re_publishers = [[116, 49]], re_subscribers = []\<rparr>)"
proof -
  obtain t where t: "resource_add 8 [116, 49] Publisher (resource_table_new 2 8) = Some (t, Ok ())" "rt_wf 8 t"
    "resources_held t = [(Publisher, [116, 49])]"
    using conjunct1 [OF resources_are_advertised [OF resource_table_new_wf(1) [of 8 2], of "[116, 49]" Publisher]]
    by (auto simp: resource_table_new_wf(2,3) add_spec_def covered_def)
  have m: "reply_len t = Some 16" using reply_len_eq [OF t(2)] t(3) by (simp add: names_of_def)
  have "advertisable (resources_held t)" using t(3) by (simp add: advertisable_def names_of_def)
  with conjunct2 [OF resources_are_advertised [OF t(2), of _ _ "replicate 20 0" 7 "[1, 2]"]] m t(3)
  have "\<exists>buf'. encode_reply t (replicate 20 0) 7 = Some (buf', Ok 16) \<and>
     resources_decode (take 16 buf' @ [1, 2]) = Some (Ok \<lparr>re_node_id = 7, re_publishers = [[116, 49]], re_subscribers = []\<rparr>)"
    by (auto simp: names_of_def)
  then show ?thesis using t(1) by blast
qed

lemma resource_accept_eq:
  assumes "ir_wf q"
  shows "\<exists>q'. resource_accept c s q = Some (q', if c \<noteq> s then Mismatched
      else (case List.find (\<lambda>e. fst e = info_key s) (asked q) of
          None \<Rightarrow> Unsolicited | Some (_, ReportTable) \<Rightarrow> ReportedTable | Some (_, IgnoreTable) \<Rightarrow> AcceptedTable)) \<and>
    ir_wf q' \<and> asked q' = (if c \<noteq> s then asked q else remove_first (\<lambda>e. fst e = info_key s) (asked q))"
  using info_take_eq [OF assms, of s] assms
  by (auto simp: resource_accept_def split: option.split ResourceRequestKind.split)

end
