(* ===== verification/Bcmp_Config.thy ===== *)
theory Bcmp_Config
  imports Config_Store
begin

text \<open>
  \<open>bcmp/config.rs\<close>: the configuration messages. Their bodies, the status response a node builds from
  its partition, and the decoding of a value a node has answered with.
\<close>

section \<open>Shared steps\<close>

definition CONFIG_MAX_KEY_LEN :: nat where "CONFIG_MAX_KEY_LEN = MAX_KEY_LEN_BYTES"
definition MAX_VALUE_LEN :: nat where "MAX_VALUE_LEN = MAX_CONFIG_BUFFER_SIZE_BYTES"
definition STATUS_RESPONSE_MAX_LEN :: nat where "STATUS_RESPONSE_MAX_LEN = 1500"

definition slice :: "bytes \<Rightarrow> nat \<Rightarrow> nat \<Rightarrow> (BmWireError, bytes) result" where
  "slice buf at len =
     (case (case range_at buf at (length buf) of None \<Rightarrow> None | Some rest \<Rightarrow> range_at rest 0 len) of
        None \<Rightarrow> Err Truncated
      | Some bs \<Rightarrow> Ok bs)"

definition len_u8 :: "nat \<Rightarrow> (BmWireError, u8) result" where
  "len_u8 len = (if len \<le> 255 then Ok (of_nat len) else Err Invalid)"

definition len_u32 :: "nat \<Rightarrow> (BmWireError, u32) result" where
  "len_u32 len = (if len \<le> 4294967295 then Ok (of_nat len) else Err Invalid)"

text \<open>\<open>usize::try_from\<close> of a \<open>u32\<close>; \<open>um\<close> is \<open>usize::MAX\<close>.\<close>

definition len_usize :: "nat \<Rightarrow> u32 \<Rightarrow> (BmWireError, nat) result" where
  "len_usize um n = (if unat n \<le> um then Ok (unat n) else Err Truncated)"

section \<open>The bodies\<close>

record ConfigHeader =
  ch_target_node_id :: u64
  ch_source_node_id :: u64

definition CONFIG_HEADER_LEN :: nat where "CONFIG_HEADER_LEN = 16"

definition config_header_decode :: "ConfigHeader decoder" where
  "config_header_decode buf = try_ok (slice buf 0 CONFIG_HEADER_LEN) (\<lambda>b. do {
     t \<leftarrow> u64_at b 0;
     s \<leftarrow> u64_at b 8;
     Some (Ok \<lparr>ch_target_node_id = t, ch_source_node_id = s\<rparr>) })"

definition config_header_encode :: "ConfigHeader encoder" where
  "config_header_encode h buf =
     (if length buf < CONFIG_HEADER_LEN then Some (buf, Err Truncated)
      else do {
        buf \<leftarrow> copy_at buf 0 (to_le 8 (ch_target_node_id h));
        buf \<leftarrow> copy_at buf 8 (to_le 8 (ch_source_node_id h));
        Some (buf, Ok ()) })"

definition config_is_for :: "ConfigHeader \<Rightarrow> u64 \<Rightarrow> bool" where
  "config_is_for h our_node_id \<longleftrightarrow> ch_target_node_id h = our_node_id"

text \<open>The start every encoder makes: \<open>prefix_mut\<close>, the header, and then the rest of the body.\<close>

definition with_header ::
  "nat \<Rightarrow> ConfigHeader \<Rightarrow> bytes \<Rightarrow> (bytes \<Rightarrow> bytes option) \<Rightarrow> (bytes \<times> (BmWireError, nat) result) option" where
  "with_header len h buf body =
     (if length buf < len then Some (buf, Err Truncated)
      else do {
        (buf, r) \<leftarrow> config_header_encode h buf;
        (case r of
           Err e \<Rightarrow> Some (buf, Err e)
         | Ok _ \<Rightarrow> do { buf \<leftarrow> body buf; Some (buf, Ok len) }) })"

record ConfigKeyRequest =
  ck_header :: ConfigHeader
  ck_partition :: u8
  ck_key :: bytes

type_synonym ConfigGet = ConfigKeyRequest
type_synonym ConfigDeleteRequest = ConfigKeyRequest

definition KEY_REQUEST_HEAD_LEN :: nat where "KEY_REQUEST_HEAD_LEN = CONFIG_HEADER_LEN + 2"

definition key_request_len :: "ConfigKeyRequest \<Rightarrow> nat" where
  "key_request_len m = KEY_REQUEST_HEAD_LEN + length (ck_key m)"

definition key_request_decode :: "ConfigKeyRequest decoder" where
  "key_request_decode buf = do {
     h \<leftarrow> config_header_decode buf;
     try_ok h (\<lambda>header. try_ok (slice buf 0 KEY_REQUEST_HEAD_LEN) (\<lambda>head. do {
       n \<leftarrow> get_at head 17;
       try_ok (slice buf KEY_REQUEST_HEAD_LEN (unat n)) (\<lambda>key. do {
         partition \<leftarrow> get_at head 16;
         Some (Ok \<lparr>ck_header = header, ck_partition = partition, ck_key = key\<rparr>) }) })) }"

definition key_request_encode :: "ConfigKeyRequest msg_encoder" where
  "key_request_encode m buf =
     (case len_u8 (length (ck_key m)) of
        Err e \<Rightarrow> Some (buf, Err e)
      | Ok key_length \<Rightarrow> with_header (key_request_len m) (ck_header m) buf (\<lambda>buf. do {
          buf \<leftarrow> set_at buf 16 (ck_partition m);
          buf \<leftarrow> set_at buf 17 key_length;
          copy_at buf KEY_REQUEST_HEAD_LEN (ck_key m) }))"

record ConfigValue =
  cv_header :: ConfigHeader
  cv_partition :: u8
  cv_data :: bytes

definition VALUE_HEAD_LEN :: nat where "VALUE_HEAD_LEN = CONFIG_HEADER_LEN + 5"

definition config_value_len :: "ConfigValue \<Rightarrow> nat" where
  "config_value_len m = VALUE_HEAD_LEN + length (cv_data m)"

definition config_value_decode :: "nat \<Rightarrow> ConfigValue decoder" where
  "config_value_decode um buf = do {
     h \<leftarrow> config_header_decode buf;
     try_ok h (\<lambda>header. try_ok (slice buf 0 VALUE_HEAD_LEN) (\<lambda>head. do {
       n \<leftarrow> u32_at head 17;
       try_ok (len_usize um n) (\<lambda>data_length.
       try_ok (slice buf VALUE_HEAD_LEN data_length) (\<lambda>data. do {
         partition \<leftarrow> get_at head 16;
         Some (Ok \<lparr>cv_header = header, cv_partition = partition, cv_data = data\<rparr>) })) })) }"

definition config_value_encode :: "ConfigValue msg_encoder" where
  "config_value_encode m buf =
     (case len_u32 (length (cv_data m)) of
        Err e \<Rightarrow> Some (buf, Err e)
      | Ok data_length \<Rightarrow> with_header (config_value_len m) (cv_header m) buf (\<lambda>buf. do {
          buf \<leftarrow> set_at buf 16 (cv_partition m);
          buf \<leftarrow> copy_at buf 17 (to_le 4 data_length);
          copy_at buf VALUE_HEAD_LEN (cv_data m) }))"

record ConfigSet =
  ct_header :: ConfigHeader
  ct_partition :: u8
  ct_key :: bytes
  ct_data :: bytes

definition SET_HEAD_LEN :: nat where "SET_HEAD_LEN = CONFIG_HEADER_LEN + 6"

definition config_set_len :: "ConfigSet \<Rightarrow> nat" where
  "config_set_len m = SET_HEAD_LEN + length (ct_key m) + length (ct_data m)"

definition config_set_decode :: "nat \<Rightarrow> ConfigSet decoder" where
  "config_set_decode um buf = do {
     h \<leftarrow> config_header_decode buf;
     try_ok h (\<lambda>header. try_ok (slice buf 0 SET_HEAD_LEN) (\<lambda>head. do {
       k \<leftarrow> get_at head 17;
       let key_length = unat k;
       n \<leftarrow> u32_at head 18;
       try_ok (len_usize um n) (\<lambda>data_length.
       try_ok (slice buf SET_HEAD_LEN key_length) (\<lambda>key.
       try_ok (slice buf (SET_HEAD_LEN + key_length) data_length) (\<lambda>data. do {
         partition \<leftarrow> get_at head 16;
         Some (Ok \<lparr>ct_header = header, ct_partition = partition, ct_key = key, ct_data = data\<rparr>) }))) })) }"

definition config_set_encode :: "ConfigSet msg_encoder" where
  "config_set_encode m buf =
     (case len_u8 (length (ct_key m)) of
        Err e \<Rightarrow> Some (buf, Err e)
      | Ok key_length \<Rightarrow>
          (case len_u32 (length (ct_data m)) of
             Err e \<Rightarrow> Some (buf, Err e)
           | Ok data_length \<Rightarrow> with_header (config_set_len m) (ct_header m) buf (\<lambda>buf. do {
               buf \<leftarrow> set_at buf 16 (ct_partition m);
               buf \<leftarrow> set_at buf 17 key_length;
               buf \<leftarrow> copy_at buf 18 (to_le 4 data_length);
               buf \<leftarrow> copy_at buf SET_HEAD_LEN (ct_key m);
               copy_at buf (SET_HEAD_LEN + length (ct_key m)) (ct_data m) })))"

record ConfigPartitionRequest =
  cr_header :: ConfigHeader
  cr_partition :: u8

type_synonym ConfigCommit = ConfigPartitionRequest
type_synonym ConfigStatusRequest = ConfigPartitionRequest
type_synonym ConfigClearRequest = ConfigPartitionRequest

definition PARTITION_REQUEST_LEN :: nat where "PARTITION_REQUEST_LEN = CONFIG_HEADER_LEN + 1"

definition partition_request_decode :: "ConfigPartitionRequest decoder" where
  "partition_request_decode buf = do {
     h \<leftarrow> config_header_decode buf;
     try_ok h (\<lambda>header. try_ok (slice buf 0 PARTITION_REQUEST_LEN) (\<lambda>b. do {
       partition \<leftarrow> get_at b 16;
       Some (Ok \<lparr>cr_header = header, cr_partition = partition\<rparr>) })) }"

definition partition_request_encode :: "ConfigPartitionRequest msg_encoder" where
  "partition_request_encode m buf =
     with_header PARTITION_REQUEST_LEN (cr_header m) buf (\<lambda>buf. set_at buf 16 (cr_partition m))"

record ConfigStatusResponse =
  cs_header :: ConfigHeader
  cs_partition :: u8
  cs_committed :: bool
  cs_num_keys :: u8
  cs_key_data :: bytes

definition STATUS_HEAD_LEN :: nat where "STATUS_HEAD_LEN = CONFIG_HEADER_LEN + 3"

definition status_response_decode :: "ConfigStatusResponse decoder" where
  "status_response_decode buf = do {
     h \<leftarrow> config_header_decode buf;
     try_ok h (\<lambda>header. try_ok (slice buf 0 STATUS_HEAD_LEN) (\<lambda>head. do {
       partition \<leftarrow> get_at head 16;
       committed \<leftarrow> get_at head 17;
       num_keys \<leftarrow> get_at head 18;
       key_data \<leftarrow> range_at buf STATUS_HEAD_LEN (length buf);
       Some (Ok \<lparr>cs_header = header, cs_partition = partition, cs_committed = (committed \<noteq> 0),
         cs_num_keys = num_keys, cs_key_data = key_data\<rparr>) })) }"

text \<open>The \<open>StatusKeys\<close> iterator, run to its end.\<close>

primrec status_keys_loop :: "nat \<Rightarrow> bytes \<Rightarrow> (BmWireError, bytes) result list" where
  "status_keys_loop 0 rest = []"
| "status_keys_loop (Suc remaining) rest =
     (case rest of
        [] \<Rightarrow> [Err Truncated]
      | len # rest \<Rightarrow>
          (case range_at rest 0 (unat len) of
             None \<Rightarrow> [Err Truncated]
           | Some key \<Rightarrow> Ok key # status_keys_loop remaining (drop (length key) rest)))"

definition status_keys :: "ConfigStatusResponse \<Rightarrow> (BmWireError, bytes) result list" where
  "status_keys m = status_keys_loop (unat (cs_num_keys m)) (cs_key_data m)"

text \<open>The fold over the stored keys, with \<open>checked_add\<close> on 64 bits.\<close>

primrec add_key_lens :: "StoredKey list \<Rightarrow> nat \<Rightarrow> nat option" where
  "add_key_lens [] acc = Some acc"
| "add_key_lens (k # ks) acc =
     (if 2 ^ 64 \<le> acc + 1 then None
      else if 2 ^ 64 \<le> acc + 1 + unat (key_len k) then None
      else add_key_lens ks (acc + 1 + unat (key_len k)))"

definition status_response_len :: "ConfigPartition \<Rightarrow> nat option option" where
  "status_response_len store = do {
     ks \<leftarrow> stored_keys store;
     Some (case add_key_lens ks STATUS_HEAD_LEN of
        None \<Rightarrow> None
      | Some n \<Rightarrow> if n \<le> STATUS_RESPONSE_MAX_LEN then Some n else None) }"

primrec write_status_keys :: "bytes \<Rightarrow> Layout \<Rightarrow> nat \<Rightarrow> StoredKey list \<Rightarrow> bytes \<Rightarrow> nat \<Rightarrow> bytes option" where
  "write_status_keys img layout i [] buf at = Some buf"
| "write_status_keys img layout i (k # ks) buf at = do {
     let len = unat (key_len k);
     buf \<leftarrow> set_at buf at (ucast (key_len k));
     let at = at + 1;
     let from = key_offset layout i;
     buf \<leftarrow> copy_at buf at (map (\<lambda>j. case get_at img (from + j) of Some b \<Rightarrow> b | None \<Rightarrow> 0) [0..<len]);
     write_status_keys img layout (i + 1) ks buf (at + len) }"

definition encode_status_response ::
  "bytes \<Rightarrow> ConfigHeader \<Rightarrow> u8 \<Rightarrow> ConfigPartition \<Rightarrow> (bytes \<times> (BmWireError, nat) result) option" where
  "encode_status_response buf header part store = do {
     len \<leftarrow> status_response_len store;
     (case len of
        None \<Rightarrow> Some (buf, Err Invalid)
      | Some len \<Rightarrow> do {
          n \<leftarrow> num_keys store;
          img \<leftarrow> conf_image store;
          ks \<leftarrow> stored_keys store;
          with_header len header buf (\<lambda>buf. do {
            buf \<leftarrow> set_at buf 16 part;
            buf \<leftarrow> set_at buf 17 (if cp_needs_commit store then 1 else 0);
            buf \<leftarrow> set_at buf 18 (of_nat n);
            write_status_keys img (cp_layout store) 0 ks buf STATUS_HEAD_LEN }) }) }"

record ConfigDeleteResponse =
  cd_header :: ConfigHeader
  cd_success :: bool
  cd_partition :: u8
  cd_key :: bytes

definition DELETE_HEAD_LEN :: nat where "DELETE_HEAD_LEN = CONFIG_HEADER_LEN + 3"

definition delete_response_len :: "ConfigDeleteResponse \<Rightarrow> nat" where
  "delete_response_len m = DELETE_HEAD_LEN + length (cd_key m)"

definition delete_response_decode :: "ConfigDeleteResponse decoder" where
  "delete_response_decode buf = do {
     h \<leftarrow> config_header_decode buf;
     try_ok h (\<lambda>header. try_ok (slice buf 0 DELETE_HEAD_LEN) (\<lambda>head. do {
       n \<leftarrow> get_at head 18;
       try_ok (slice buf DELETE_HEAD_LEN (unat n)) (\<lambda>key. do {
         success \<leftarrow> get_at head 16;
         partition \<leftarrow> get_at head 17;
         Some (Ok \<lparr>cd_header = header, cd_success = (success \<noteq> 0), cd_partition = partition, cd_key = key\<rparr>) }) })) }"

definition delete_response_encode :: "ConfigDeleteResponse msg_encoder" where
  "delete_response_encode m buf =
     (case len_u8 (length (cd_key m)) of
        Err e \<Rightarrow> Some (buf, Err e)
      | Ok key_length \<Rightarrow> with_header (delete_response_len m) (cd_header m) buf (\<lambda>buf. do {
          buf \<leftarrow> set_at buf 16 (if cd_success m then 1 else 0);
          buf \<leftarrow> set_at buf 17 (cd_partition m);
          buf \<leftarrow> set_at buf 18 key_length;
          copy_at buf DELETE_HEAD_LEN (cd_key m) }))"

record ConfigClearResponse =
  cl_header :: ConfigHeader
  cl_success :: bool
  cl_partition :: u8

definition CLEAR_RESPONSE_LEN :: nat where "CLEAR_RESPONSE_LEN = CONFIG_HEADER_LEN + 2"

definition clear_response_decode :: "ConfigClearResponse decoder" where
  "clear_response_decode buf = do {
     h \<leftarrow> config_header_decode buf;
     try_ok h (\<lambda>header. try_ok (slice buf 0 CLEAR_RESPONSE_LEN) (\<lambda>b. do {
       success \<leftarrow> get_at b 16;
       partition \<leftarrow> get_at b 17;
       Some (Ok \<lparr>cl_header = header, cl_success = (success \<noteq> 0), cl_partition = partition\<rparr>) })) }"

definition clear_response_encode :: "ConfigClearResponse msg_encoder" where
  "clear_response_encode m buf =
     with_header CLEAR_RESPONSE_LEN (cl_header m) buf (\<lambda>buf. do {
       buf \<leftarrow> set_at buf 16 (if cl_success m then 1 else 0);
       set_at buf 17 (cl_partition m) })"

section \<open>Decoding a value\<close>

datatype DecodeError = InvalidArg | BadMessage | ValueTooSmall nat | WrongType

definition decode_scalar :: "bytes \<Rightarrow> u32 \<Rightarrow> bytes \<times> (DecodeError, nat) result" where
  "decode_scalar buf bits =
     (if length buf < 4 then (buf, Err BadMessage) else (put buf 0 (to_le 4 bits), Ok (length buf)))"

definition decode_value :: "nat \<Rightarrow> ValueType \<Rightarrow> bytes \<Rightarrow> bytes \<Rightarrow> bytes \<times> (DecodeError, nat) result" where
  "decode_value um ty data buf =
     (if data = [] \<or> buf = [] then (buf, Err InvalidArg)
      else case parse_head data of
        None \<Rightarrow> (buf, Err BadMessage)
      | Some head \<Rightarrow>
          (case config_type head of
             None \<Rightarrow> (buf, Err BadMessage)
           | Some found \<Rightarrow>
               if found \<noteq> ty then (buf, Err WrongType)
               else (case ty of
                   Uint32 \<Rightarrow> decode_scalar buf (ucast (hd_arg head))
                 | Float \<Rightarrow> decode_scalar buf (ucast (hd_arg head))
                 | Int32 \<Rightarrow> decode_scalar buf (ucast (- hd_arg head - 1))
                 | Array \<Rightarrow> (buf, Ok (length buf))
                 | _ \<Rightarrow>
                     (case slot_copy_string um data buf of
                        (buf, Ok len) \<Rightarrow> (buf, Ok len)
                      | (buf, Err (TooSmall len)) \<Rightarrow> (buf, Err (ValueTooSmall len))
                      | (buf, Err Refused) \<Rightarrow> (buf, Err BadMessage)))))"


section \<open>The codecs\<close>

lemmas config_lens = CONFIG_HEADER_LEN_def KEY_REQUEST_HEAD_LEN_def VALUE_HEAD_LEN_def SET_HEAD_LEN_def
  PARTITION_REQUEST_LEN_def STATUS_HEAD_LEN_def DELETE_HEAD_LEN_def CLEAR_RESPONSE_LEN_def

definition config_header_wire :: "ConfigHeader \<Rightarrow> bytes" where
  "config_header_wire h = to_le 8 (ch_target_node_id h) @ to_le 8 (ch_source_node_id h)"

lemma length_config_header_wire [simp]: "length (config_header_wire h) = 16"
  by (simp add: config_header_wire_def del: to_le_numeral)

lemma slice_eq: "slice buf at len = (if at + len \<le> length buf then Ok (subslice buf at len) else Err Truncated)"
  by (auto simp: slice_def range_at_def subslice_def)

lemma slice_app: "at = length a \<Longrightarrow> len = length b \<Longrightarrow> slice (a @ b @ c) at len = Ok b"
  by (simp add: slice_eq subslice_def)

interpretation config_header: fixed_codec CONFIG_HEADER_LEN config_header_encode config_header_decode config_header_wire
proof unfold_locales
  have n: "CONFIG_HEADER_LEN = 16" by (simp add: config_lens)
  show "length (config_header_wire h) = CONFIG_HEADER_LEN" for h by (simp add: n)
  show "config_header_encode h buf = Some (buf, Err Truncated)" if "length buf < CONFIG_HEADER_LEN" for h buf
    using that by (simp add: config_header_encode_def)
  show "config_header_encode h buf = Some (put buf 0 (config_header_wire h), Ok ())" if "CONFIG_HEADER_LEN \<le> length buf" for h buf
    using that by (simp add: config_header_encode_def config_header_wire_def n buf_simps put_put_seq del: to_le_numeral)
  show "config_header_decode buf = Some (Err Truncated)" if "length buf < CONFIG_HEADER_LEN" for buf
    using that by (simp add: config_header_decode_def slice_eq)
  show "config_header_decode (config_header_wire h @ rest) = Some (Ok h)" for h rest
    by (simp add: config_header_decode_def config_header_wire_def slice_eq n buf_simps del: to_le_numeral)
  show "\<exists>h. config_header_wire h = buf" if "length buf = CONFIG_HEADER_LEN" for buf
    using that
    by (intro exI [of _ "\<lparr>ch_target_node_id = from_le (subslice buf 0 8), ch_source_node_id = from_le (subslice buf 8 8)\<rparr>"])
       (simp add: config_header_wire_def n join_simps del: to_le_numeral)
qed

lemma with_header_ok:
  "16 \<le> len \<Longrightarrow> len \<le> length buf \<Longrightarrow> body (put buf 0 (config_header_wire h)) = Some buf' \<Longrightarrow>
   with_header len h buf body = Some (buf', Ok len)"
  using config_header.encode_ok [of buf h] by (simp add: with_header_def config_lens)

lemma with_header_short: "length buf < len \<Longrightarrow> with_header len h buf body = Some (buf, Err Truncated)"
  by (simp add: with_header_def)

lemma config_header_front: "16 \<le> length buf \<Longrightarrow> \<exists>h. config_header_decode buf = Some (Ok h)"
  using config_header.decode_long [of buf] by (auto simp: config_lens)

definition key_request_wire :: "ConfigKeyRequest \<Rightarrow> bytes" where
  "key_request_wire m = (config_header_wire (ck_header m) @ [ck_partition m, of_nat (length (ck_key m))]) @ ck_key m"

lemma nth_after_header: "(config_header_wire h @ xs) ! 16 = xs ! 0" "(config_header_wire h @ xs) ! 17 = xs ! 1"
  "(config_header_wire h @ xs) ! 18 = xs ! 2"
  by (simp_all add: nth_append)

lemma len_u8_ok: "n \<le> 255 \<Longrightarrow> len_u8 n = Ok (of_nat n)" and len_u8_refuses: "\<not> n \<le> 255 \<Longrightarrow> len_u8 n = Err Invalid"
  and len_u32_ok: "n \<le> 4294967295 \<Longrightarrow> len_u32 n = Ok (of_nat n)" and len_u32_refuses: "\<not> n \<le> 4294967295 \<Longrightarrow> len_u32 n = Err Invalid"
  by (simp_all add: len_u8_def len_u32_def)

lemma unat_len_u8: "n \<le> 255 \<Longrightarrow> unat (of_nat n :: u8) = n" and unat_len_u32: "n \<le> 4294967295 \<Longrightarrow> unat (of_nat n :: u32) = n"
  by (simp_all add: unsigned_of_nat take_bit_nat_eq_self)

interpretation key_request: message_codec key_request_encode key_request_decode key_request_wire "\<lambda>m. length (ck_key m) \<le> 255"
proof unfold_locales
  note [simp del] = to_le_numeral
  have len: "key_request_len m = length (key_request_wire m)" for m by (simp add: key_request_len_def key_request_wire_def config_lens)
  show "key_request_encode m buf = Some (put buf 0 (key_request_wire m), Ok (length (key_request_wire m)))"
    if "length (ck_key m) \<le> 255" "length (key_request_wire m) \<le> length buf" for m buf
  proof -
    have b: "18 + length (ck_key m) \<le> length buf" using that(2) by (simp add: key_request_wire_def)
    show ?thesis using that b unfolding key_request_encode_def len_u8_ok [OF that(1)] result.case len
      by (intro with_header_ok) (simp_all add: key_request_wire_def config_lens buf_simps put_put_seq put_update_seq)
  qed
  show "key_request_encode m buf = Some (buf, Err Truncated)"
    if "length (ck_key m) \<le> 255" "length buf < length (key_request_wire m)" for m buf
    using that by (simp add: key_request_encode_def len_u8_ok len with_header_short)
  show "key_request_encode m buf = Some (buf, Err Invalid)" if "\<not> length (ck_key m) \<le> 255" for m buf
    using that by (simp add: key_request_encode_def len_u8_refuses)
  show "key_request_decode (key_request_wire m @ rest) = Some (Ok m)" if "length (ck_key m) \<le> 255" for m rest
  proof -
    let ?h = "config_header_wire (ck_header m) @ [ck_partition m, of_nat (length (ck_key m))]"
    have "config_header_decode (key_request_wire m @ rest) = Some (Ok (ck_header m))"
      using config_header.decode_wire by (simp add: key_request_wire_def)
    moreover have "slice (key_request_wire m @ rest) 0 18 = Ok ?h"
      using slice_app [of 0 "[]" 18 ?h "ck_key m @ rest"] by (simp add: key_request_wire_def)
    moreover have "slice (key_request_wire m @ rest) 18 (length (ck_key m)) = Ok (ck_key m)"
      using slice_app [of 18 ?h "length (ck_key m)" "ck_key m" rest] by (simp add: key_request_wire_def)
    ultimately show ?thesis using that
      by (simp add: key_request_decode_def config_lens get_at_def nth_after_header unat_len_u8)
  qed
qed


text \<open>The decoders read the header, the fixed part and then what it announces.\<close>

lemma decode_parts:
  assumes "buf = (config_header_wire h @ fixed) @ rest"
  shows "config_header_decode buf = Some (Ok h)"
    "n = 16 + length fixed \<Longrightarrow> slice buf 0 n = Ok (config_header_wire h @ fixed)"
    "at = 16 + length fixed \<Longrightarrow> rest = b @ c \<Longrightarrow> m = length b \<Longrightarrow> slice buf at m = Ok b"
    "at = 16 + length fixed + length a \<Longrightarrow> rest = a @ b @ c \<Longrightarrow> m = length b \<Longrightarrow> slice buf at m = Ok b"
  using config_header.decode_wire [of h "fixed @ rest"] slice_app [of 0 "[]" n "config_header_wire h @ fixed" rest]
    slice_app [of at "config_header_wire h @ fixed" m b c] slice_app [of at "config_header_wire h @ fixed @ a" m b c]
  by (simp_all add: assms)

definition config_value_wire :: "ConfigValue \<Rightarrow> bytes" where
  "config_value_wire m = (config_header_wire (cv_header m) @ cv_partition m # to_le 4 (of_nat (length (cv_data m)) :: u32)) @ cv_data m"

text \<open>\<open>usize\<close> has at least 32 bits: \<open>um\<close> is \<open>2 ^ 32 - 1 + k\<close>.\<close>

lemma len_usize_ok: "n \<le> 4294967295 \<Longrightarrow> len_usize (4294967295 + k) (of_nat n) = Ok n"
  by (simp add: len_usize_def unat_len_u32)

lemma u32_after_header:
  "u32_at (config_header_wire h @ x # to_le 4 n) 17 = Some n"
  "u32_at (config_header_wire h @ x # y # to_le 4 n) 18 = Some n"
  by (simp_all add: buf_simps del: to_le_numeral)

interpretation config_value: message_codec config_value_encode "config_value_decode (4294967295 + k)" config_value_wire
  "\<lambda>m. length (cv_data m) \<le> 4294967295" for k
proof unfold_locales
  note [simp del] = to_le_numeral
  have len: "config_value_len m = length (config_value_wire m)" for m by (simp add: config_value_len_def config_value_wire_def config_lens)
  show "config_value_encode m buf = Some (put buf 0 (config_value_wire m), Ok (length (config_value_wire m)))"
    if "length (cv_data m) \<le> 4294967295" "length (config_value_wire m) \<le> length buf" for m buf
  proof -
    have b: "21 + length (cv_data m) \<le> length buf" using that(2) by (simp add: config_value_wire_def)
    show ?thesis using that b unfolding config_value_encode_def len_u32_ok [OF that(1)] result.case len
      by (intro with_header_ok) (simp_all add: config_value_wire_def config_lens buf_simps put_put_seq put_update_seq)
  qed
  show "config_value_encode m buf = Some (buf, Err Truncated)"
    if "length (cv_data m) \<le> 4294967295" "length buf < length (config_value_wire m)" for m buf
    using that by (simp add: config_value_encode_def len_u32_ok len with_header_short)
  show "config_value_encode m buf = Some (buf, Err Invalid)" if "\<not> length (cv_data m) \<le> 4294967295" for m buf
    using that by (simp add: config_value_encode_def len_u32_refuses)
  show "config_value_decode (4294967295 + k) (config_value_wire m @ rest) = Some (Ok m)"
    if "length (cv_data m) \<le> 4294967295" for m rest
  proof -
    let ?f = "cv_partition m # to_le 4 (of_nat (length (cv_data m)) :: u32)"
    have w: "config_value_wire m @ rest = (config_header_wire (cv_header m) @ ?f) @ cv_data m @ rest"
      by (simp add: config_value_wire_def)
    show ?thesis using that decode_parts(1,2) [OF w] decode_parts(3) [OF w _ refl refl] len_usize_ok [OF that]
      by (simp add: config_value_decode_def config_lens get_at_def nth_after_header u32_after_header)
  qed
qed

definition config_set_wire :: "ConfigSet \<Rightarrow> bytes" where
  "config_set_wire m = (config_header_wire (ct_header m) @ ct_partition m # of_nat (length (ct_key m)) #
     to_le 4 (of_nat (length (ct_data m)) :: u32)) @ ct_key m @ ct_data m"

interpretation config_set: message_codec config_set_encode "config_set_decode (4294967295 + k)" config_set_wire
  "\<lambda>m. length (ct_key m) \<le> 255 \<and> length (ct_data m) \<le> 4294967295" for k
proof unfold_locales
  note [simp del] = to_le_numeral
  have len: "config_set_len m = length (config_set_wire m)" for m by (simp add: config_set_len_def config_set_wire_def config_lens)
  show "config_set_encode m buf = Some (put buf 0 (config_set_wire m), Ok (length (config_set_wire m)))"
    if "length (ct_key m) \<le> 255 \<and> length (ct_data m) \<le> 4294967295" "length (config_set_wire m) \<le> length buf" for m buf
  proof -
    have b: "22 + length (ct_key m) + length (ct_data m) \<le> length buf" using that(2) by (simp add: config_set_wire_def)
    show ?thesis
      using that b
      unfolding config_set_encode_def len_u8_ok [OF conjunct1 [OF that(1)]] len_u32_ok [OF conjunct2 [OF that(1)]] result.case len
      by (intro with_header_ok) (simp_all add: config_set_wire_def config_lens buf_simps put_put_seq put_update_seq)
  qed
  show "config_set_encode m buf = Some (buf, Err Truncated)"
    if "length (ct_key m) \<le> 255 \<and> length (ct_data m) \<le> 4294967295" "length buf < length (config_set_wire m)" for m buf
    using that by (simp add: config_set_encode_def len_u8_ok len_u32_ok len with_header_short)
  show "config_set_encode m buf = Some (buf, Err Invalid)"
    if "\<not> (length (ct_key m) \<le> 255 \<and> length (ct_data m) \<le> 4294967295)" for m buf
    using that by (cases "length (ct_key m) \<le> 255") (simp_all add: config_set_encode_def len_u8_ok len_u8_refuses len_u32_refuses)
  show "config_set_decode (4294967295 + k) (config_set_wire m @ rest) = Some (Ok m)"
    if ok: "length (ct_key m) \<le> 255 \<and> length (ct_data m) \<le> 4294967295" for m rest
  proof -
    let ?f = "ct_partition m # of_nat (length (ct_key m)) # to_le 4 (of_nat (length (ct_data m)) :: u32)"
    have w: "config_set_wire m @ rest = (config_header_wire (ct_header m) @ ?f) @ ct_key m @ ct_data m @ rest"
      by (simp add: config_set_wire_def)
    show ?thesis
      using ok decode_parts(1,2) [OF w] decode_parts(3) [OF w _ refl refl] decode_parts(4) [OF w _ refl refl]
        len_usize_ok [of "length (ct_data m)" k]
      by (simp add: config_set_decode_def config_lens get_at_def nth_after_header u32_after_header unat_len_u8)
  qed
qed

definition partition_request_wire :: "ConfigPartitionRequest \<Rightarrow> bytes" where
  "partition_request_wire m = config_header_wire (cr_header m) @ [cr_partition m]"

interpretation partition_request: message_codec partition_request_encode partition_request_decode partition_request_wire "\<lambda>m. True"
proof unfold_locales
  show "partition_request_encode m buf = Some (put buf 0 (partition_request_wire m), Ok (length (partition_request_wire m)))"
    if "length (partition_request_wire m) \<le> length buf" for m buf
  proof -
    have b: "17 \<le> length buf" using that by (simp add: partition_request_wire_def)
    have l: "length (partition_request_wire m) = PARTITION_REQUEST_LEN" by (simp add: partition_request_wire_def config_lens)
    show ?thesis using b unfolding partition_request_encode_def l
      by (intro with_header_ok) (simp_all add: partition_request_wire_def config_lens buf_simps put_update_seq)
  qed
  show "partition_request_encode m buf = Some (buf, Err Truncated)" if "length buf < length (partition_request_wire m)" for m buf
    using that by (simp add: partition_request_encode_def with_header_short partition_request_wire_def config_lens)
  show "partition_request_decode (partition_request_wire m @ rest) = Some (Ok m)" for m rest
  proof -
    have w: "partition_request_wire m @ rest = (config_header_wire (cr_header m) @ [cr_partition m]) @ rest"
      by (simp add: partition_request_wire_def)
    show ?thesis using decode_parts(1,2) [OF w] by (simp add: partition_request_decode_def config_lens get_at_def nth_after_header)
  qed
qed simp

definition delete_response_wire :: "ConfigDeleteResponse \<Rightarrow> bytes" where
  "delete_response_wire m = (config_header_wire (cd_header m) @ [if cd_success m then 1 else 0, cd_partition m,
     of_nat (length (cd_key m))]) @ cd_key m"

interpretation delete_response: message_codec delete_response_encode delete_response_decode delete_response_wire
  "\<lambda>m. length (cd_key m) \<le> 255"
proof unfold_locales
  have len: "delete_response_len m = length (delete_response_wire m)" for m
    by (simp add: delete_response_len_def delete_response_wire_def config_lens)
  show "delete_response_encode m buf = Some (put buf 0 (delete_response_wire m), Ok (length (delete_response_wire m)))"
    if "length (cd_key m) \<le> 255" "length (delete_response_wire m) \<le> length buf" for m buf
  proof -
    have b: "19 + length (cd_key m) \<le> length buf" using that(2) by (simp add: delete_response_wire_def)
    show ?thesis using that b unfolding delete_response_encode_def len_u8_ok [OF that(1)] result.case len
      by (intro with_header_ok) (simp_all add: delete_response_wire_def config_lens buf_simps put_put_seq put_update_seq)
  qed
  show "delete_response_encode m buf = Some (buf, Err Truncated)"
    if "length (cd_key m) \<le> 255" "length buf < length (delete_response_wire m)" for m buf
    using that by (simp add: delete_response_encode_def len_u8_ok len with_header_short)
  show "delete_response_encode m buf = Some (buf, Err Invalid)" if "\<not> length (cd_key m) \<le> 255" for m buf
    using that by (simp add: delete_response_encode_def len_u8_refuses)
  show "delete_response_decode (delete_response_wire m @ rest) = Some (Ok m)" if "length (cd_key m) \<le> 255" for m rest
  proof -
    let ?f = "[if cd_success m then 1 else 0, cd_partition m, of_nat (length (cd_key m))]"
    have w: "delete_response_wire m @ rest = (config_header_wire (cd_header m) @ ?f) @ cd_key m @ rest"
      by (simp add: delete_response_wire_def)
    show ?thesis using that decode_parts(1,2) [OF w] decode_parts(3) [OF w _ refl refl]
      by (simp add: delete_response_decode_def config_lens get_at_def nth_after_header unat_len_u8)
  qed
qed

definition clear_response_wire :: "ConfigClearResponse \<Rightarrow> bytes" where
  "clear_response_wire m = config_header_wire (cl_header m) @ [if cl_success m then 1 else 0, cl_partition m]"

interpretation clear_response: message_codec clear_response_encode clear_response_decode clear_response_wire "\<lambda>m. True"
proof unfold_locales
  show "clear_response_encode m buf = Some (put buf 0 (clear_response_wire m), Ok (length (clear_response_wire m)))"
    if "length (clear_response_wire m) \<le> length buf" for m buf
  proof -
    have b: "18 \<le> length buf" using that by (simp add: clear_response_wire_def)
    have l: "length (clear_response_wire m) = CLEAR_RESPONSE_LEN" by (simp add: clear_response_wire_def config_lens)
    show ?thesis using b unfolding clear_response_encode_def l
      by (intro with_header_ok) (simp_all add: clear_response_wire_def config_lens buf_simps put_update_seq)
  qed
  show "clear_response_encode m buf = Some (buf, Err Truncated)" if "length buf < length (clear_response_wire m)" for m buf
    using that by (simp add: clear_response_encode_def with_header_short clear_response_wire_def config_lens)
  show "clear_response_decode (clear_response_wire m @ rest) = Some (Ok m)" for m rest
  proof -
    have w: "clear_response_wire m @ rest = (config_header_wire (cl_header m) @ [if cl_success m then 1 else 0, cl_partition m]) @ rest"
      by (simp add: clear_response_wire_def)
    show ?thesis using decode_parts(1,2) [OF w] by (simp add: clear_response_decode_def config_lens get_at_def nth_after_header)
  qed
qed simp


text \<open>No decoder panics.\<close>

lemma config_decoders_total:
  "key_request_decode buf \<noteq> None" "config_value_decode um buf \<noteq> None" "config_set_decode um buf \<noteq> None"
  "partition_request_decode buf \<noteq> None" "status_response_decode buf \<noteq> None" "delete_response_decode buf \<noteq> None"
  "clear_response_decode buf \<noteq> None"
proof -
  note defs = key_request_decode_def config_value_decode_def config_set_decode_def partition_request_decode_def
    status_response_decode_def delete_response_decode_def clear_response_decode_def config_lens
  consider "config_header_decode buf = Some (Err Truncated)" | h where "config_header_decode buf = Some (Ok h)"
    using config_header.decode_short [of buf] config_header_front [of buf] by (cases "length buf < 16") (auto simp: config_lens)
  then show "key_request_decode buf \<noteq> None" "config_value_decode um buf \<noteq> None" "config_set_decode um buf \<noteq> None"
    "partition_request_decode buf \<noteq> None" "status_response_decode buf \<noteq> None" "delete_response_decode buf \<noteq> None"
    "clear_response_decode buf \<noteq> None"
    by (cases; simp add: defs slice_eq len_usize_def get_at_def range_at_def buf_simps Let_def)+
qed

section \<open>Setting and getting over the wire\<close>

text \<open>The type a stored value is found to have, and what decoding it writes. An integer that is not negative
  is stored as an unsigned one.\<close>

fun answer_type :: "CfgValue \<Rightarrow> ValueType" where
  "answer_type (VInt v) = (if (scast v :: u64) <s 0 then Int32 else Uint32)"
| "answer_type v = cfg_type v"

fun value_bytes :: "CfgValue \<Rightarrow> bytes" where
  "value_bytes (VUint v) = to_le 4 v"
| "value_bytes (VInt v) = to_le 4 v"
| "value_bytes (VFloat v) = to_le 4 v"
| "value_bytes (VStr v) = v"
| "value_bytes (VBytes v) = v"

lemma config_type_simps:
  "config_type \<lparr>hd_major = 0, hd_info = i, hd_arg = a\<rparr> = Some Uint32"
  "config_type \<lparr>hd_major = 1, hd_info = i, hd_arg = a\<rparr> = Some Int32"
  "config_type \<lparr>hd_major = 2, hd_info = i, hd_arg = a\<rparr> = Some ByteStr"
  "config_type \<lparr>hd_major = 3, hd_info = i, hd_arg = a\<rparr> = Some Str"
  "config_type \<lparr>hd_major = 7, hd_info = 26, hd_arg = a\<rparr> = Some Float"
  by (simp_all add: config_type_def)

lemma answer_head:
  assumes "length (cfg_wire v) \<le> 50"
  shows "\<exists>h. parse_head (cfg_wire v @ r) = Some h \<and> config_type h = Some (answer_type v) \<and>
    (case v of VUint x \<Rightarrow> ucast (hd_arg h) = x | VFloat x \<Rightarrow> ucast (hd_arg h) = x
     | VInt x \<Rightarrow> ucast (if answer_type v = Int32 then - hd_arg h - 1 else hd_arg h) = x | _ \<Rightarrow> True)"
proof -
  have low: "ucast (ucast (x :: u32) :: u64) = x" for x by (rule bit_word_eqI) (auto simp: bit_simps)
  have shifts: "drop_bit 5 INTEGER = 0" "drop_bit 5 (0x20 :: u8) = 1" "drop_bit 5 TEXT_STRING = 3" "drop_bit 5 BYTE_STRING = 2"
    by (simp_all add: cbor_consts)
  have major: "\<exists>info. parse_head (cfg_wire v @ r) = Some \<lparr>hd_major = drop_bit 5 m, hd_info = info, hd_arg = n\<rparr>"
    if "cfg_wire v = shortest_head m n @ x" "is_major m" for m n x
    using parse_shortest [OF that(2), of n "x @ r"] that(1) by auto
  show ?thesis
  proof (cases v)
    case (VUint x)
    then show ?thesis using major [of INTEGER "ucast x" "[]"] low [of x] by (auto simp: shifts config_type_simps)
  next
    case (VInt x)
    let ?v = "scast x :: u64"
    have low: "ucast ?v = x" by (rule sign_extend_low)
    show ?thesis
    proof (cases "?v <s 0")
      case True
      have "- NOT ?v - 1 = ?v" by (simp add: not_eq_complement)
      then show ?thesis using True VInt low major [of "0x20" "NOT ?v" "[]"]
        by (auto simp: int_header_def shifts config_type_simps)
    next
      case False
      then show ?thesis using VInt low major [of INTEGER ?v "[]"] by (auto simp: int_header_def shifts config_type_simps)
    qed
  next
    case (VFloat x)
    have i: "info_of 0xfa = 26" by (simp add: info_of_def)
    have arg: "read_be (to_be 4 x) = ucast x" by (rule read_wide)
    have "parse_head (cfg_wire v @ r) = Some \<lparr>hd_major = 7, hd_info = 26, hd_arg = ucast x\<rparr>"
      using VFloat i arg by (simp add: parse_head_eq head_ok_def head_len_def head_arg_def)
    then show ?thesis using VFloat low [of x] by (simp add: config_type_simps)
  next
    case (VStr x)
    then show ?thesis using major [of TEXT_STRING "of_nat (length x)" x] by (auto simp: shifts config_type_simps)
  next
    case (VBytes x)
    then show ?thesis using major [of BYTE_STRING "of_nat (length x)" x] by (auto simp: shifts config_type_simps)
  qed
qed

lemma decode_scalar_eq: "4 \<le> length buf \<Longrightarrow> decode_scalar buf x = (put buf 0 (to_le 4 x), Ok (length buf))"
  by (simp add: decode_scalar_def)

lemma answer_decodes:
  assumes v: "length (cfg_wire v) \<le> 50" and um: "50 \<le> um" and buf: "buf \<noteq> []" "length (value_bytes v) \<le> length buf"
  shows "\<exists>buf' n. decode_value um (answer_type v) (cfg_wire v @ r) buf = (buf', Ok n) \<and>
      take (length (value_bytes v)) buf' = value_bytes v"
    and "ty \<noteq> answer_type v \<Longrightarrow> decode_value um ty (cfg_wire v @ r) buf = (buf, Err WrongType)"
proof -
  note [simp del] = to_le_numeral
  obtain h where h: "parse_head (cfg_wire v @ r) = Some h" "config_type h = Some (answer_type v)"
    "case v of VUint x \<Rightarrow> ucast (hd_arg h) = x | VFloat x \<Rightarrow> ucast (hd_arg h) = x
     | VInt x \<Rightarrow> ucast (if answer_type v = Int32 then - hd_arg h - 1 else hd_arg h) = x | _ \<Rightarrow> True"
    using answer_head [OF v] by blast
  have ne: "cfg_wire v @ r \<noteq> []" using h(1) by (auto simp: parse_head_def get_at_def)
  then show "ty \<noteq> answer_type v \<Longrightarrow> decode_value um ty (cfg_wire v @ r) buf = (buf, Err WrongType)"
    using buf(1) h by (auto simp: decode_value_def)
  have scalar: "\<exists>buf' n. decode_scalar buf x = (buf', Ok n) \<and> take 4 buf' = to_le 4 x" if "4 \<le> length buf" for x :: u32
    using that by (simp add: decode_scalar_eq put_0)
  have chars: "\<exists>buf' n. slot_copy_string um (cfg_wire v @ r) buf = (buf', Ok n) \<and> take (length x) buf' = x"
    if "v = VStr x \<or> v = VBytes x" for x
  proof -
    have l: "length x \<le> 50" "length x \<le> length buf" using v buf(2) that by auto
    then have "length x \<le> um" "length x < 2 ^ 64" using um by simp_all
    then show ?thesis
      using that l(2) copy_string_written [of TEXT_STRING x um buf r] copy_string_written [of BYTE_STRING x um buf r] by auto
  qed
  have dv: "decode_value um (answer_type v) (cfg_wire v @ r) buf = (case answer_type v of
                   Uint32 \<Rightarrow> decode_scalar buf (ucast (hd_arg h))
                 | Float \<Rightarrow> decode_scalar buf (ucast (hd_arg h))
                 | Int32 \<Rightarrow> decode_scalar buf (ucast (- hd_arg h - 1))
                 | Array \<Rightarrow> (buf, Ok (length buf))
                 | _ \<Rightarrow>
                     (case slot_copy_string um (cfg_wire v @ r) buf of
                        (buf, Ok len) \<Rightarrow> (buf, Ok len)
                      | (buf, Err (TooSmall len)) \<Rightarrow> (buf, Err (ValueTooSmall len))
                      | (buf, Err Refused) \<Rightarrow> (buf, Err BadMessage)))"
    using ne buf(1) h(1,2) by (simp add: decode_value_def del: append_is_Nil_conv)
  show "\<exists>buf' n. decode_value um (answer_type v) (cfg_wire v @ r) buf = (buf', Ok n) \<and>
      take (length (value_bytes v)) buf' = value_bytes v"
  proof (cases v)
    case (VStr x)
    then show ?thesis using chars [of x] unfolding dv by auto
  next
    case (VBytes x)
    then show ?thesis using chars [of x] unfolding dv by auto
  next
    case (VUint x)
    then show ?thesis using scalar [of x] h(3) buf(2) unfolding dv by simp
  next
    case (VInt x)
    then show ?thesis using scalar [of x] h(3) buf(2) unfolding dv by (auto split: if_splits)
  next
    case (VFloat x)
    then show ?thesis using scalar [of x] h(3) buf(2) unfolding dv by simp
  qed
qed

lemma set_cbor_row:
  assumes wf: "conf_wf p" and k: "storable k" "key_is_valid k" and n: "n_keys p < 50" and v: "value \<noteq> []" "length value \<le> 50"
    and head: "parse_head value = Some h" "config_type h = Some ty"
  shows "\<exists>p' s. set_cbor p k value = Some (p', True) \<and> conf_wf p' \<and> length s = 50 \<and>
    conf_row p' k = Some (ucast (value_type_code ty), put s 0 value)"
proof -
  have k32: "k_len k \<le> 32" using k(1) by (simp add: storable_def)
  define found where "found = find_index (\<lambda>r. fst r = key_id k) (conf_abs p)"
  have found: "conf_find p k = Some found" using conf_find_eq [OF wf k32] by (simp add: found_def)
  define idx where "idx = (case found of Some i \<Rightarrow> i | None \<Rightarrow> n_keys p)"
  obtain p' where p': "set_cbor p k value = Some (p', True)" "conf_wf p'"
    "n_keys p' = (if found = None then Suc (n_keys p) else n_keys p)"
    "\<And>i. i < 50 \<Longrightarrow> slot_of p' i = (if i = idx then put (slot_of p idx) 0 value else slot_of p i) \<and>
      stored p' i = (if i = idx then (if found = None then new_key k ty (stored p idx)
          else \<lparr>key_buf = key_buf (stored p idx), key_len = of_nat (k_len k), value_type = ucast (value_type_code ty)\<rparr>)
        else stored p i)"
    using set_cbor_ok [OF wf k32 v head found _ idx_def [symmetric]] k(2) n by blast
  have i: "idx < n_keys p'" "idx < 50"
    using p'(3) n_keys_le [OF p'(2)] find_index_Some(1) [of "\<lambda>r. fst r = key_id k" "conf_abs p"] n
    by (auto simp: idx_def found_def split: option.splits)
  have old: "length (key_buf (stored p idx)) = 32" using wf i(2) by simp
  have ident: "stored_id (stored p' idx) = key_id k" "value_type (stored p' idx) = ucast (value_type_code ty)"
  proof -
    have "stored_id \<lparr>key_buf = key_buf (stored p idx), key_len = of_nat (k_len k), value_type = x\<rparr> = key_id k" if "found = Some idx" for x
    proof -
      have "idx < length (conf_abs p)" "fst (conf_abs p ! idx) = key_id k"
        using find_index_Some(1,2) [of "\<lambda>r. fst r = key_id k" "conf_abs p" idx] that by (simp_all add: found_def)
      then have "stored_id (stored p idx) = key_id k" by (simp add: nth_conf_abs)
      moreover have "unat (of_nat (k_len k) :: u64) = k_len k" using k32 by (simp add: unat_of_nat_64)
      ultimately show ?thesis by (auto simp: stored_id_def key_id_def)
    qed
    then show "stored_id (stored p' idx) = key_id k" "value_type (stored p' idx) = ucast (value_type_code ty)"
      using p'(4) [OF i(2)] new_key_id [OF k(1) old] by (cases found; simp add: idx_def new_key_def)+
  qed
  have "find_index (\<lambda>r. fst r = key_id k) (conf_abs p') = Some idx"
  proof (rule find_indexI)
    show "fst (conf_abs p' ! idx) = key_id k" using ident(1) i(1) by (simp add: nth_conf_abs)
    show "fst (conf_abs p' ! j) \<noteq> key_id k" if j: "j < idx" for j
    proof -
      have b: "j < n_keys p'" "j < 50" "j < n_keys p" using j i p'(3) by (auto simp: idx_def split: option.splits if_splits)
      have "fst (conf_abs p ! j) \<noteq> key_id k"
      proof (cases found)
        case None
        then show ?thesis using b(3) nth_mem [of j "conf_abs p"] by (auto simp: found_def find_index_None)
      next
        case (Some i)
        then show ?thesis using j find_index_first [of "\<lambda>r. fst r = key_id k" "conf_abs p" i j] by (simp add: found_def idx_def)
      qed
      then show ?thesis using b j p'(4) [OF b(2)] by (simp add: nth_conf_abs)
    qed
  qed (use i in simp)
  then have "conf_row p' k = Some (ucast (value_type_code ty), put (slot_of p idx) 0 value)"
    using k32 i p'(4) [OF i(2)] ident(2) by (simp add: conf_row_def map_of_find_index nth_conf_abs)
  moreover have "length (slot_of p idx) = 50" using wf i(2) by simp
  ultimately show ?thesis using p'(1,2) by blast
qed


section \<open>The status response\<close>

text \<open>What the response says of a row: the length byte and that many bytes of the name.\<close>

definition status_name :: "ConfigPartition \<Rightarrow> nat \<Rightarrow> bytes" where
  "status_name p i = take (unat (key_len (stored p i))) (key_buf (stored p i))"

definition status_entry :: "ConfigPartition \<Rightarrow> nat \<Rightarrow> bytes" where
  "status_entry p i = ucast (key_len (stored p i)) # status_name p i"

text \<open>Every key is as long as the store allows.\<close>

definition keys_fit :: "ConfigPartition \<Rightarrow> bool" where
  "keys_fit p \<longleftrightarrow> (\<forall>i < n_keys p. unat (key_len (stored p i)) \<le> 32)"

definition status_total :: "ConfigPartition \<Rightarrow> nat" where
  "status_total p = 19 + sum_list (map (\<lambda>i. 1 + unat (key_len (stored p i))) [0..<n_keys p])"

lemma stored_keys_eq:
  assumes "conf_wf p"
  shows "stored_keys p = Some (map (stored p) [0..<n_keys p])"
proof -
  have "collect (stored_key p) is = Some (map (stored p) is)" if "\<forall>i \<in> set is. i < 50" for "is"
    using that stored_key_eq [OF assms] by (induction "is") auto
  then show ?thesis using num_keys_eq [OF assms] n_keys_le [OF assms] by (simp add: stored_keys_def)
qed

lemma add_key_lens_eq:
  "\<forall>k \<in> set ks. unat (key_len k) \<le> 32 \<Longrightarrow> acc + 33 * length ks < 2 ^ 64 \<Longrightarrow>
   add_key_lens ks acc = Some (acc + sum_list (map (\<lambda>k. 1 + unat (key_len k)) ks))"
proof (induction ks arbitrary: acc)
  case (Cons k ks)
  have u: "unat (key_len k) \<le> 32" using Cons.prems(1) by simp
  have "acc + 1 + unat (key_len k) + 33 * length ks < 2 ^ 64" using Cons.prems(2) u by simp
  moreover from this have "acc + 1 + unat (key_len k) < 2 ^ 64" by linarith
  ultimately show ?case using Cons.IH [of "acc + 1 + unat (key_len k)"] Cons.prems(1) by simp
qed simp

lemma status_response_len_eq:
  assumes wf: "conf_wf p" and k: "keys_fit p"
  shows "status_response_len p = Some (if status_total p \<le> 1500 then Some (status_total p) else None)"
proof -
  have "\<forall>k \<in> set (map (stored p) [0..<n_keys p]). unat (key_len k) \<le> 32" using k by (auto simp: keys_fit_def)
  moreover have "STATUS_HEAD_LEN + 33 * length (map (stored p) [0..<n_keys p]) < 2 ^ 64"
    using n_keys_le [OF wf] by (simp add: config_lens)
  ultimately show ?thesis
    using add_key_lens_eq [of "map (stored p) [0..<n_keys p]" STATUS_HEAD_LEN] stored_keys_eq [OF wf]
    by (simp add: status_response_len_def status_total_def config_lens STATUS_RESPONSE_MAX_LEN_def comp_def)
qed

lemma length_status_entry: "conf_wf p \<Longrightarrow> keys_fit p \<Longrightarrow> i < n_keys p \<Longrightarrow> length (status_entry p i) = 1 + unat (key_len (stored p i))"
  using n_keys_le [of p] length_stored [of p i] by (simp add: status_entry_def status_name_def keys_fit_def)

lemma status_chars:
  assumes wf: "conf_wf p" and i: "i < 50" and n: "n \<le> 32" and img: "conf_image p = Some img"
  shows "map (\<lambda>j. case get_at img (key_offset (cp_layout p) i + j) of Some b \<Rightarrow> b | None \<Rightarrow> 0) [0..<n] =
    take n (key_buf (stored p i))"
proof -
  have L: "layout_ok (cp_layout p)" using wf by (simp add: conf_wf_def)
  have img': "img = take (image_len (cp_layout p)) (cp_image p)"
    using img by (auto simp: conf_image_def range_at_def subslice_def split: if_splits)
  have off: "key_offset (cp_layout p) i + 32 \<le> image_len (cp_layout p)"
  proof -
    have "i * key_size (cp_layout p) \<le> 49 * key_size (cp_layout p)" using i by (intro mult_right_mono) simp_all
    then show ?thesis unfolding key_offset_def image_len_eq conf_consts by linarith
  qed
  have len: "image_len (cp_layout p) \<le> length (cp_image p)"
    using image_len_bound [OF L] wf by (simp add: conf_wf_def)
  have buf: "key_buf (stored p i) = subslice (cp_image p) (key_offset (cp_layout p) i) 32"
    by (simp add: stored_def Let_def)
  show ?thesis
    by (rule nth_equalityI) (use n off len in \<open>auto simp: buf img' get_at_def\<close>)
qed

lemma write_status_keys_eq:
  assumes wf: "conf_wf p" and k: "keys_fit p" and img: "conf_image p = Some img"
  shows "m = n_keys p - i \<Longrightarrow> i \<le> n_keys p \<Longrightarrow>
    at + length (concat (map (status_entry p) [i..<n_keys p])) \<le> length buf \<Longrightarrow>
    write_status_keys img (cp_layout p) i (map (stored p) [i..<n_keys p]) buf at =
      Some (put buf at (concat (map (status_entry p) [i..<n_keys p])))"
proof (induction m arbitrary: i buf at)
  case 0
  then show ?case by (simp add: put_def)
next
  case (Suc m)
  then have i: "i < n_keys p" by simp
  let ?n = "unat (key_len (stored p i))" and ?rest = "concat (map (status_entry p) [Suc i..<n_keys p])"
  have u: "[i..<n_keys p] = i # [Suc i..<n_keys p]" using i by (simp add: upt_conv_Cons)
  have n: "?n \<le> 32" "i < 50" using k i n_keys_le [OF wf] by (simp_all add: keys_fit_def)
  have c: "map (\<lambda>j. case get_at img (key_offset (cp_layout p) i + j) of Some b \<Rightarrow> b | None \<Rightarrow> 0) [0..<?n] = status_name p i"
    unfolding status_name_def by (rule status_chars [OF wf n(2,1) img])
  have l: "length (status_name p i) = ?n" using length_status_entry [OF wf k i] by (simp add: status_entry_def)
  have fit: "at + Suc ?n + length ?rest \<le> length buf"
    using Suc.prems(3) length_status_entry [OF wf k i] unfolding u by simp
  let ?b = "put buf at (status_entry p i)"
  have b: "put (buf[at := ucast (key_len (stored p i))]) (Suc at) (status_name p i) = ?b"
    using fit l by (simp add: put_singleton put_put_seq status_entry_def)
  have "write_status_keys img (cp_layout p) (Suc i) (map (stored p) [Suc i..<n_keys p]) ?b (at + Suc ?n) =
      Some (put ?b (at + Suc ?n) ?rest)"
    using Suc.IH [of "Suc i" "at + Suc ?n" ?b] Suc.prems(1) i fit length_status_entry [OF wf k i] by simp
  moreover have "put ?b (at + Suc ?n) ?rest = put buf at (status_entry p i @ ?rest)"
    using fit length_status_entry [OF wf k i] by (intro put_put_seq) simp_all
  ultimately show ?case using fit l b c unfolding u
    by (simp add: set_at_def copy_at_def)
qed

lemma status_keys_loop_entries:
  assumes wf: "conf_wf p" and k: "keys_fit p"
  shows "set is \<subseteq> {..<n_keys p} \<Longrightarrow>
    status_keys_loop (length is) (concat (map (status_entry p) is) @ rest) = map (\<lambda>i. Ok (status_name p i)) is"
proof (induction "is")
  case (Cons i "is")
  then have i: "i < n_keys p" by simp
  have l: "length (status_name p i) = unat (key_len (stored p i))"
    using length_status_entry [OF wf k i] by (simp add: status_entry_def)
  have n: "unat (key_len (stored p i)) \<le> 32" using k i by (simp add: keys_fit_def)
  have "unat (ucast (key_len (stored p i)) :: u8) = unat (key_len (stored p i))"
    using n by (simp add: unsigned_ucast_eq unsigned_take_bit_eq take_bit_nat_eq_self)
  then show ?case using Cons l by (simp add: status_entry_def range_at_def subslice_def)
qed simp


lemma take_put_0: "length w \<le> length buf \<Longrightarrow> n = length w \<Longrightarrow> take n (put buf 0 w) = w"
  by (simp add: put_0)

lemma encode_status_response_eq:
  fixes h :: ConfigHeader and part :: u8
  assumes wf: "conf_wf p" and k: "keys_fit p"
  defines "w \<equiv> config_header_wire h @ [part, if cp_needs_commit p then 1 else 0, of_nat (n_keys p)] @
      concat (map (status_entry p) [0..<n_keys p])"
  shows "length w = status_total p"
    and "status_total p \<le> 1500 \<Longrightarrow> status_total p \<le> length buf \<Longrightarrow>
      encode_status_response buf h part p = Some (put buf 0 w, Ok (status_total p))"
    and "status_total p \<le> 1500 \<Longrightarrow> length buf < status_total p \<Longrightarrow>
      encode_status_response buf h part p = Some (buf, Err Truncated)"
    and "1500 < status_total p \<Longrightarrow> encode_status_response buf h part p = Some (buf, Err Invalid)"
proof -
  let ?e = "concat (map (status_entry p) [0..<n_keys p])"
  have m: "map (\<lambda>i. length (status_entry p i)) [0..<n_keys p] = map (\<lambda>i. 1 + unat (key_len (stored p i))) [0..<n_keys p]"
    using length_status_entry [OF wf k] by simp
  have e: "length ?e = status_total p - 19" unfolding status_total_def length_concat map_map comp_def m by simp
  have ge: "19 \<le> status_total p" by (simp add: status_total_def)
  then show lw: "length w = status_total p" using e by (simp add: w_def del: length_concat)
  obtain img where img: "conf_image p = Some img"
    using image_len_bound [of "cp_layout p"] wf by (auto simp: conf_image_def range_at_def conf_wf_def)
  note len = status_response_len_eq [OF wf k] and ks = stored_keys_eq [OF wf] and num = num_keys_eq [OF wf]
  show "encode_status_response buf h part p = Some (buf, Err Invalid)" if "1500 < status_total p"
    using that len by (simp add: encode_status_response_def)
  show "encode_status_response buf h part p = Some (buf, Err Truncated)"
    if "status_total p \<le> 1500" "length buf < status_total p"
    using that len ks num img by (simp add: encode_status_response_def with_header_short)
  show "encode_status_response buf h part p = Some (put buf 0 w, Ok (status_total p))"
    if "status_total p \<le> 1500" "status_total p \<le> length buf"
  proof -
    let ?f = "[part, if cp_needs_commit p then 1 else 0, of_nat (n_keys p)]"
    let ?b = "put buf 0 (config_header_wire h @ ?f)"
    have b: "((put buf 0 (config_header_wire h))[16 := part, 17 := (if cp_needs_commit p then 1 else 0), 18 := of_nat (n_keys p)]) = ?b"
      using that(2) ge by (simp add: put_update_seq)
    have lb: "length ?b = length buf" using that(2) ge by simp
    let ?body = "\<lambda>buf. do {
            buf \<leftarrow> set_at buf 16 part;
            buf \<leftarrow> set_at buf 17 (if cp_needs_commit p then 1 else 0);
            buf \<leftarrow> set_at buf 18 (of_nat (n_keys p));
            write_status_keys img (cp_layout p) 0 (map (stored p) [0..<n_keys p]) buf STATUS_HEAD_LEN }"
    have "write_status_keys img (cp_layout p) 0 (map (stored p) [0..<n_keys p]) ?b 19 = Some (put ?b 19 ?e)"
      using write_status_keys_eq [OF wf k img refl, of 0 19 ?b] that(2) ge e lb by (simp del: length_concat)
    moreover have "put ?b 19 ?e = put buf 0 w"
      unfolding w_def using that(2) ge by (subst put_put_seq) simp_all
    ultimately have "?body (put buf 0 (config_header_wire h)) = Some (put buf 0 w)"
      using that(2) ge b by (simp add: set_at_def config_lens)
    then have "with_header (status_total p) h buf ?body = Some (put buf 0 w, Ok (status_total p))"
      using that(2) ge by (intro with_header_ok) simp_all
    then show ?thesis using that(1) len ks num img by (simp add: encode_status_response_def)
  qed
qed

lemma status_response_decode_wire:
  assumes wf: "conf_wf p" and k: "keys_fit p"
  shows "\<exists>m. status_response_decode ((config_header_wire h @ [part, if c then 1 else 0, of_nat (n_keys p)] @
        concat (map (status_entry p) [0..<n_keys p])) @ rest) = Some (Ok m) \<and>
      cs_header m = h \<and> cs_partition m = part \<and> cs_committed m = c \<and> unat (cs_num_keys m) = n_keys p \<and>
      status_keys m = map (\<lambda>i. Ok (status_name p i)) [0..<n_keys p]"
proof -
  let ?f = "[part, if c then 1 else 0, of_nat (n_keys p)]" and ?e = "concat (map (status_entry p) [0..<n_keys p])"
  let ?buf = "(config_header_wire h @ ?f @ ?e) @ rest"
  have w: "?buf = (config_header_wire h @ ?f) @ ?e @ rest" by simp
  have n: "unat (of_nat (n_keys p) :: u8) = n_keys p" using n_keys_le [OF wf] by (intro unat_len_u8) simp
  have r: "range_at ?buf 19 (length ?buf) = Some (?e @ rest)" by (simp add: range_at_def subslice_def)
  have "status_response_decode ?buf = Some (Ok \<lparr>cs_header = h, cs_partition = part, cs_committed = c,
      cs_num_keys = of_nat (n_keys p), cs_key_data = ?e @ rest\<rparr>)"
    using decode_parts(1,2) [OF w] r
    by (simp add: status_response_decode_def config_lens get_at_def nth_after_header del: append_assoc)
  moreover have "status_keys_loop (n_keys p) (?e @ rest) = map (\<lambda>i. Ok (status_name p i)) [0..<n_keys p]"
  proof -
    have "set [0..<n_keys p] \<subseteq> {..<n_keys p}" by auto
    from status_keys_loop_entries [OF wf k this, of rest] show ?thesis by simp
  qed
  ultimately show ?thesis using n by (simp add: status_keys_def)
qed

text \<open>Property C17. A status response lists the partition. For every well-formed partition whose keys are no longer
  than the store lets them be, the response never panics. Above 1500 bytes it is refused as invalid, and in a
  buffer that is too short as truncated, the buffer untouched; otherwise what is written decodes, whatever
  follows it, to the header and partition of the request, whether there are changes to commit, and the
  keys, every one and in the order of their rows.\<close>

theorem status_response_lists_partition:
  assumes "conf_wf p" and "keys_fit p"
  shows "(\<exists>buf'. encode_status_response buf h part p = Some (buf', if 1500 < status_total p then Err Invalid
        else if length buf < status_total p then Err Truncated else Ok (status_total p)) \<and>
      length buf' = length buf \<and>
      (if 1500 < status_total p \<or> length buf < status_total p then buf' = buf
       else \<exists>m. status_response_decode (take (status_total p) buf' @ rest) = Some (Ok m) \<and>
         cs_header m = h \<and> cs_partition m = part \<and> cs_committed m = cp_needs_commit p \<and>
         status_keys m = map (\<lambda>i. Ok (status_name p i)) [0..<n_keys p]))"
proof -
  note e = encode_status_response_eq [OF assms, where h = h and part = part]
  let ?w = "config_header_wire h @ [part, if cp_needs_commit p then 1 else 0, of_nat (n_keys p)] @
      concat (map (status_entry p) [0..<n_keys p])"
  consider (big) "1500 < status_total p" | (short) "status_total p \<le> 1500" "length buf < status_total p"
    | (fits) "status_total p \<le> 1500" "status_total p \<le> length buf" by linarith
  then show ?thesis
  proof cases
    case big
    then show ?thesis using e(4) [of buf] by simp
  next
    case short
    then show ?thesis using e(3) [of buf] by simp
  next
    case fits
    have "length (put buf 0 ?w) = length buf" using fits(2) e(1) by (intro length_put) (simp del: length_concat)
    moreover have "take (status_total p) (put buf 0 ?w) = ?w" using fits(2) e(1) by (intro take_put_0) (simp_all del: length_concat)
    ultimately show ?thesis
      using fits e(2) [OF fits] status_response_decode_wire [OF assms, of h part "cp_needs_commit p" rest] by auto
  qed
qed


theorem status_response_lists_partition_witness:
  "\<exists>p buf' m. set_cbor (conf_new LP64) (key_new [0x61, 0x62]) [0x18, 42] = Some (p, True) \<and>
     encode_status_response (replicate 30 0) \<lparr>ch_target_node_id = 7, ch_source_node_id = 9\<rparr> 1 p = Some (buf', Ok 22) \<and>
     status_response_decode (take 22 buf' @ [5]) = Some (Ok m) \<and> cs_partition m = 1 \<and> status_keys m = [Ok [0x61, 0x62]]"
proof -
  let ?p = "conf_new LP64" and ?k = "key_new [0x61, 0x62]"
  have "layout_ok LP64" by code_simp
  then have wf: "conf_wf ?p" by (rule conf_new_wf)
  have n: "n_keys ?p = 0" by (rule conf_new_keys)
  have k: "k_len ?k \<le> 32" "key_is_valid ?k" by code_simp+
  have found: "conf_find ?p ?k = Some None" using conf_find_eq [OF wf k(1)] n by (simp add: conf_abs_def find_index_def)
  have head: "parse_head [0x18, 42] = Some \<lparr>hd_major = 0, hd_info = 24, hd_arg = 42\<rparr>"
    "config_type \<lparr>hd_major = 0, hd_info = 24, hd_arg = 42\<rparr> = Some Uint32" by code_simp+
  obtain p where p: "set_cbor ?p ?k [0x18, 42] = Some (p, True)" "conf_wf p" "n_keys p = 1"
    "stored p 0 = new_key ?k Uint32 (stored ?p 0)"
    using set_cbor_ok [OF wf k(1) _ _ head found _ refl] k(2) n by auto
  have len: "key_len (stored p 0) = 2" unfolding p(4) by (simp add: new_key_def key_new_def)
  have fit: "keys_fit p" using p(3) len by (simp add: keys_fit_def)
  have total: "status_total p = 22" using p(3) len by (simp add: status_total_def)
  have "key_text ?k = [0x61, 0x62, 0]" by code_simp
  moreover have "length (key_buf (stored ?p 0)) = 32" using wf by simp
  ultimately have name: "status_name p 0 = [0x61, 0x62]"
    unfolding status_name_def len p(4) by (simp add: new_key_def put_0 key_new_def)
  from status_response_lists_partition [OF p(2) fit, of "replicate 30 0" "\<lparr>ch_target_node_id = 7, ch_source_node_id = 9\<rparr>" 1 "[5]"]
  show ?thesis using p(1,3) name unfolding total by auto
qed

text \<open>The key a node stores for a set message is the rest of the payload from the key on, with the length the message
  gives (\<open>Key::with_len\<close> in \<open>node/config.rs\<close>): what is stored reads on through the value to the
  first NUL, and it is found again under the key alone.\<close>

lemma payload_key:
  fixes rest :: bytes
  assumes "take n buf = config_set_wire m"
  defines "k \<equiv> key_with_len (drop SET_HEAD_LEN (take n buf @ rest)) (length (ct_key m))"
  shows "key_id k = key_id (key_new (ct_key m))" and "k_len k = k_len (key_new (ct_key m))"
    and "key_is_valid k \<longleftrightarrow> key_is_valid (key_new (ct_key m))"
    and "storable (key_new (ct_key m)) \<Longrightarrow> storable k"
proof -
  note [simp del] = to_le_numeral
  have k: "k = \<lparr>k_text = ct_key m @ ct_data m @ rest, k_len = length (ct_key m)\<rparr>"
    unfolding k_def assms(1) by (simp add: key_with_len_def config_set_wire_def config_lens)
  have prefix: "take (length xs) (cstr (xs @ ys)) = cstr xs" for xs ys
    by (induction xs) (auto simp: cstr_def)
  have stops: "length (cstr xs) < length xs \<Longrightarrow> cstr (xs @ ys) = cstr xs" for xs ys
    by (induction xs) (auto simp: cstr_def split: if_splits)
  show "k_len k = k_len (key_new (ct_key m))" by (simp add: k key_new_def)
  show "key_id k = key_id (key_new (ct_key m))"
    using prefix [of "ct_key m" "[]"] by (simp add: k key_new_def key_id_def prefix)
  have "key_byte k i = key_byte (key_new (ct_key m)) i" if "i < length (ct_key m)" for i
    using that by (simp add: k key_new_def key_byte_def get_at_def nth_append)
  then show "key_is_valid k \<longleftrightarrow> key_is_valid (key_new (ct_key m))"
    by (simp add: key_is_valid_def k key_new_def Let_def)
  assume st: "storable (key_new (ct_key m))"
  show "storable k"
  proof (cases "length (ct_key m) \<le> 31")
    case True
    then show ?thesis by (simp add: storable_def k)
  next
    case False
    then have "length (cstr (ct_key m)) < length (ct_key m)" using st by (simp add: storable_def key_new_def)
    then show ?thesis using st False stops [of "ct_key m" "ct_data m @ rest"] by (simp add: storable_def k key_new_def)
  qed
qed

text \<open>Property C16. A value set over the wire is the value got over the wire. Take a partition that is well formed and
  has a free row (fewer than 50 keys), a key the store takes (at most 32 characters, letters, digits, underscores and NUL, and not
  32 characters without a NUL), the encoding of a value of at most 50 bytes, and a machine whose \<open>usize\<close> has at
  least 32 bits. A message that sets the key to the encoding, encoded and followed by anything,
  decodes to itself. The node stores it under the key that starts at the payload's key and runs on through what
  follows, with the message's key length (\<open>Key::with_len\<close>); the store takes it, and asked for the message's key
  alone (\<open>Key::new\<close>) it answers with the slot. The
  slot, whole and with its stale tail, goes into a value message that decodes to that
  slot; and decoding the slot as the type the value has writes the value into any non-empty buffer that has room,
  while any other type is refused with the buffer untouched.\<close>

theorem remote_config_set_get:
  assumes "conf_wf p" and "n_keys p < 50"
    and "storable (key_new (ct_key m))" and "key_is_valid (key_new (ct_key m))"
    and "ct_data m = cfg_wire v" and "length (cfg_wire v) \<le> 50" and "2 ^ 32 \<le> um + 1"
    and "config_set_encode m buf = Some (buf', Ok n)"
  shows "config_set_decode um (take n buf' @ rest) = Some (Ok m) \<and>
    (\<exists>p' slot. set_cbor p (key_with_len (drop SET_HEAD_LEN (take n buf' @ rest)) (length (ct_key m))) (ct_data m) =
        Some (p', True) \<and> conf_wf p' \<and>
      get_cbor p' (key_new (ct_key m)) (replicate 50 0) = Some (slot, Some 50) \<and>
      (\<forall>h part buf buf' n. config_value_encode \<lparr>cv_header = h, cv_partition = part, cv_data = slot\<rparr> buf = Some (buf', Ok n) \<longrightarrow>
        config_value_decode um (take n buf' @ rest) = Some (Ok \<lparr>cv_header = h, cv_partition = part, cv_data = slot\<rparr>)) \<and>
      (\<forall>out. out \<noteq> [] \<and> length (value_bytes v) \<le> length out \<longrightarrow>
        (\<exists>out' l. decode_value um (answer_type v) slot out = (out', Ok l) \<and>
          take (length (value_bytes v)) out' = value_bytes v) \<and>
        (\<forall>ty. ty \<noteq> answer_type v \<longrightarrow> decode_value um ty slot out = (out, Err WrongType))))"
proof -
  let ?k = "key_new (ct_key m)" and ?sk = "key_with_len (drop SET_HEAD_LEN (take n buf' @ rest)) (length (ct_key m))"
  have wire: "take n buf' = config_set_wire m" using config_set.roundtrip(4) [OF assms(8)] .
  note sk = payload_key [OF wire, where rest = rest]
  obtain k where um: "um = 4294967295 + k" using assms(7) le_Suc_ex [of 4294967295 um] by auto
  obtain h where h: "parse_head (cfg_wire v) = Some h" "config_type h = Some (answer_type v)"
    using answer_head [OF assms(6), of "[]"] by auto
  have ne: "cfg_wire v \<noteq> []" using h(1) by (auto simp: parse_head_def get_at_def)
  obtain p' s where p': "set_cbor p ?sk (ct_data m) = Some (p', True)" "conf_wf p'" "length s = 50"
    "conf_row p' ?sk = Some (ucast (value_type_code (answer_type v)), put s 0 (cfg_wire v))"
    using set_cbor_row [OF assms(1) sk(4) [OF assms(3)] _ assms(2) ne assms(6) h] sk(3) assms(4,5) by auto
  have row: "conf_row p' ?k = conf_row p' ?sk" using sk(1,2) by (simp add: conf_row_def)
  let ?slot = "put s 0 (cfg_wire v)"
  have slot: "?slot = cfg_wire v @ drop (length (cfg_wire v)) s" using p'(3) assms(6) by (simp add: put_0)
  have len: "length ?slot = 50" using p'(3) assms(6) by simp
  obtain h' where h': "parse_head ?slot = Some h'" using answer_head [OF assms(6)] unfolding slot by blast
  have "row_head p' ?k = Some (?slot, h')" using p'(4) row h' by (simp add: row_head_def)
  then have "get_cbor p' ?k (replicate 50 0) = Some (put (replicate 50 0) 0 ?slot, Some 50)"
    using getters_eq(5) [OF p'(2), of ?k] by simp
  moreover have "put (replicate 50 0) 0 ?slot = ?slot" using len by (simp add: put_0)
  ultimately have get: "get_cbor p' ?k (replicate 50 0) = Some (?slot, Some 50)" by simp
  have um50: "50 \<le> um" using um by simp
  have "\<forall>out. out \<noteq> [] \<and> length (value_bytes v) \<le> length out \<longrightarrow>
        (\<exists>out' l. decode_value um (answer_type v) ?slot out = (out', Ok l) \<and>
          take (length (value_bytes v)) out' = value_bytes v) \<and>
        (\<forall>ty. ty \<noteq> answer_type v \<longrightarrow> decode_value um ty ?slot out = (out, Err WrongType))"
    unfolding slot using answer_decodes [OF assms(6) um50] by blast
  then show ?thesis
    using p'(1,2) get config_set.roundtrip(1) [OF assms(8), of k rest] config_value.roundtrip(1) [of _ _ _ _ k rest]
    unfolding um by blast
qed

theorem remote_config_set_get_witness:
  "\<exists>p' slot out' l. config_set_decode 65535000000 (take 26 (config_set_wire \<lparr>ct_header = \<lparr>ch_target_node_id = 7, ch_source_node_id = 9\<rparr>,
        ct_partition = 1, ct_key = [0x61, 0x62], ct_data = [0x18, 42]\<rparr>) @ [1]) =
      Some (Ok \<lparr>ct_header = \<lparr>ch_target_node_id = 7, ch_source_node_id = 9\<rparr>, ct_partition = 1, ct_key = [0x61, 0x62], ct_data = [0x18, 42]\<rparr>) \<and>
    set_cbor (conf_new LP64) (key_with_len [0x61, 0x62, 0x18, 42, 1] 2) [0x18, 42] = Some (p', True) \<and>
    get_cbor p' (key_new [0x61, 0x62]) (replicate 50 0) = Some (slot, Some 50) \<and>
    decode_value 65535000000 Uint32 slot [0, 0, 0, 0, 9] = (out', Ok l) \<and> take 4 out' = [42, 0, 0, 0]"
proof -
  let ?m = "\<lparr>ct_header = \<lparr>ch_target_node_id = 7, ch_source_node_id = 9\<rparr>, ct_partition = 1, ct_key = [0x61, 0x62],
      ct_data = [0x18, 42]\<rparr>"
  have "layout_ok LP64" by code_simp
  then have wf: "conf_wf (conf_new LP64)" by (rule conf_new_wf)
  have n: "n_keys (conf_new LP64) < 50" using conf_new_keys [of LP64] by simp
  have k: "storable (key_new (ct_key ?m))" "key_is_valid (key_new (ct_key ?m))" by code_simp+
  have v: "ct_data ?m = cfg_wire (VUint 42)" "length (cfg_wire (VUint 42)) \<le> 50" by code_simp+
  have um: "(2 :: nat) ^ 32 \<le> 65535000000 + 1" by simp
  have len: "length (config_set_wire ?m) = 26" by code_simp
  have "config_set_encode ?m (replicate 26 0) = Some (put (replicate 26 0) 0 (config_set_wire ?m), Ok (length (config_set_wire ?m)))"
    by (rule config_set.encode_ok) (simp_all add: len)
  then have e: "config_set_encode ?m (replicate 26 0) = Some (config_set_wire ?m, Ok 26)"
    using len by (simp add: put_0)
  have b: "length (value_bytes (VUint 42)) = 4" "value_bytes (VUint 42) = [42, 0, 0, 0]" "answer_type (VUint 42) = Uint32"
    by code_simp+
  note all = remote_config_set_get [OF wf n k v um e, of "[1]"]
  have "length (config_set_wire ?m) = 26" "drop SET_HEAD_LEN (config_set_wire ?m @ [1]) = [0x61, 0x62, 0x18, 42, 1]" by code_simp+
  then have pk: "drop SET_HEAD_LEN (take 26 (config_set_wire ?m) @ [1]) = [0x61, 0x62, 0x18, 42, 1]" by simp
  obtain p' slot where s: "set_cbor (conf_new LP64) (key_with_len (drop SET_HEAD_LEN (take 26 (config_set_wire ?m) @ [1]))
      (length (ct_key ?m))) (ct_data ?m) = Some (p', True)"
    "get_cbor p' (key_new (ct_key ?m)) (replicate 50 0) = Some (slot, Some 50)"
    "\<forall>out. out \<noteq> [] \<and> length (value_bytes (VUint 42)) \<le> length out \<longrightarrow>
       (\<exists>out' l. decode_value 65535000000 (answer_type (VUint 42)) slot out = (out', Ok l) \<and>
         take (length (value_bytes (VUint 42))) out' = value_bytes (VUint 42))"
    using all by blast
  from s(3) have "\<exists>out' l. decode_value 65535000000 Uint32 slot [0, 0, 0, 0, 9] = (out', Ok l) \<and> take 4 out' = [42, 0, 0, 0]"
    unfolding b(1) unfolding b(2,3) by (auto dest: spec [of _ "[0, 0, 0, 0, 9]"])
  then show ?thesis using conjunct1 [OF all] s(1,2) unfolding pk by (auto simp: numeral_2_eq_2)
qed

end
