(* ===== verification/Spotter.thy ===== *)
theory Spotter
  imports Pubsub
begin

text \<open>
  \<open>spotter.rs\<close>: the bodies a node publishes to a Spotter, a line for its console or a file and data for
  it to send on, with the limits the C code checks.
\<close>

section \<open>Definitions\<close>

definition PRINTF_TOPIC :: bytes where
  "PRINTF_TOPIC = map of_char ''spotter/printf''"

definition FPRINTF_TOPIC :: bytes where
  "FPRINTF_TOPIC = map of_char ''spotter/fprintf''"

definition TRANSMIT_DATA_TOPIC :: bytes where
  "TRANSMIT_DATA_TOPIC = map of_char ''spotter/transmit-data''"

definition SPOTTER_KIND :: u8 where "SPOTTER_KIND = 1"
definition USE_TIMESTAMP :: u8 where "USE_TIMESTAMP = 1"
definition NO_TIMESTAMP :: u8 where "NO_TIMESTAMP = 0"
definition LOG_HEADER_LEN :: nat where "LOG_HEADER_LEN = 13"
definition MAX_FILE_NAME_LEN :: nat where "MAX_FILE_NAME_LEN = 64"
definition LOG_BUDGET :: nat where "LOG_BUDGET = 1460"
definition MAX_LOG_LEN :: nat where "MAX_LOG_LEN = LOG_BUDGET + 1"

text \<open>The subtraction panics when the name alone is over the budget.\<close>

definition max_text_len :: "nat \<Rightarrow> nat option" where
  "max_text_len fname_len =
     (if LOG_BUDGET < LOG_HEADER_LEN + fname_len then None else Some (LOG_BUDGET - LOG_HEADER_LEN - fname_len))"

definition MAX_IRIDIUM_LEN :: nat where "MAX_IRIDIUM_LEN = 311"
definition MAX_CELLULAR_LEN :: nat where "MAX_CELLULAR_LEN = 1000"
definition TX_HEADER_LEN :: nat where "TX_HEADER_LEN = 1"
definition MAX_TX_LEN :: nat where "MAX_TX_LEN = TX_HEADER_LEN + MAX_CELLULAR_LEN"

type_synonym NetworkType = u8

definition CELLULAR_IRI_FALLBACK :: NetworkType where "CELLULAR_IRI_FALLBACK = push_bit 0 1"
definition CELLULAR_ONLY :: NetworkType where "CELLULAR_ONLY = push_bit 1 1"

definition network_max_len :: "NetworkType \<Rightarrow> nat" where
  "network_max_len n = (if n = CELLULAR_ONLY then MAX_CELLULAR_LEN else MAX_IRIDIUM_LEN)"

datatype EncodeError = NoData | MessageSize | BufferTruncated

definition log_topic :: "bytes option \<Rightarrow> bytes" where
  "log_topic file_name = (case file_name of Some _ \<Rightarrow> FPRINTF_TOPIC | None \<Rightarrow> PRINTF_TOPIC)"

definition encode_log ::
  "bytes \<Rightarrow> u64 \<Rightarrow> bytes option \<Rightarrow> u8 \<Rightarrow> bytes \<Rightarrow> (bytes \<times> (EncodeError, nat) result) option" where
  "encode_log buf target_node_id file_name print_time line =
     (if line = [] then Some (buf, Err NoData)
      else do {
        file_name \<leftarrow> (case file_name of None \<Rightarrow> Some [] | Some f \<Rightarrow> range_at f 0 (bm_strnlen f MAX_FILE_NAME_LEN));
        refused \<leftarrow> (if MAX_FILE_NAME_LEN \<le> length file_name then Some True
          else do { m \<leftarrow> max_text_len (length file_name); Some (m < length line) });
        (if refused then Some (buf, Err MessageSize)
         else
           let len = LOG_HEADER_LEN + length file_name + length line + 1 in
           if length buf < len then Some (buf, Err BufferTruncated)
           else do {
             buf \<leftarrow> copy_at buf 0 (to_le 8 target_node_id);
             buf \<leftarrow> copy_at buf 8 (to_le 2 (of_nat (length file_name) :: u16));
             buf \<leftarrow> copy_at buf 10 (to_le 2 (of_nat (length line) :: u16));
             buf \<leftarrow> set_at buf 12 print_time;
             buf \<leftarrow> copy_at buf LOG_HEADER_LEN file_name;
             buf \<leftarrow> copy_at buf (LOG_HEADER_LEN + length file_name) line;
             buf \<leftarrow> set_at buf (LOG_HEADER_LEN + length file_name + length line) 0;
             Some (buf, Ok len) }) })"

definition encode_tx_data :: "bytes \<Rightarrow> NetworkType \<Rightarrow> bytes \<Rightarrow> (bytes \<times> (EncodeError, nat) result) option" where
  "encode_tx_data buf network data =
     (if network_max_len network < length data then Some (buf, Err MessageSize)
      else
        let len = TX_HEADER_LEN + length data in
        if length buf < len then Some (buf, Err BufferTruncated)
        else do {
          buf \<leftarrow> set_at buf 0 network;
          buf \<leftarrow> copy_at buf TX_HEADER_LEN data;
          Some (buf, Ok len) })"


section \<open>What is written\<close>

definition log_name :: "bytes option \<Rightarrow> bytes" where
  "log_name file_name = (case file_name of None \<Rightarrow> [] | Some f \<Rightarrow> takeWhile (\<lambda>b. b \<noteq> 0) (take 64 f))"

definition log_wire :: "u64 \<Rightarrow> bytes option \<Rightarrow> u8 \<Rightarrow> bytes \<Rightarrow> bytes" where
  "log_wire t f print_time line = to_le 8 t @ to_le 2 (of_nat (length (log_name f)) :: u16) @
     to_le 2 (of_nat (length line) :: u16) @ [print_time] @ log_name f @ line @ [0]"

definition log_result :: "nat \<Rightarrow> bytes option \<Rightarrow> bytes \<Rightarrow> (EncodeError, nat) result" where
  "log_result room f line =
     (if line = [] then Err NoData
      else if 64 \<le> length (log_name f) \<or> 1447 < length (log_name f) + length line then Err MessageSize
      else if room < 14 + length (log_name f) + length line then Err BufferTruncated
      else Ok (14 + length (log_name f) + length line))"

lemma length_log_wire [simp]: "length (log_wire t f p line) = 14 + length (log_name f) + length line"
  by (simp add: log_wire_def del: to_le_numeral)

lemma log_name_eq:
  "(case f of None \<Rightarrow> Some [] | Some f \<Rightarrow> range_at f 0 (bm_strnlen f MAX_FILE_NAME_LEN)) = Some (log_name f)"
proof (cases f)
  case (Some s)
  let ?w = "takeWhile (\<lambda>b. b \<noteq> 0) (take 64 s)"
  have l: "length ?w \<le> 64 \<and> length ?w \<le> length s"
    using length_takeWhile_le [of "\<lambda>b. b \<noteq> 0" "take 64 s"] by simp
  then have "take (length ?w) s = take (length ?w) (take 64 s)" by simp
  also have "\<dots> = ?w" by (rule takeWhile_eq_take [symmetric])
  finally show ?thesis using Some l by (simp add: log_name_def bm_strnlen_eq MAX_FILE_NAME_LEN_def range_at_def subslice_def)
qed (simp add: log_name_def)

text \<open>The outcome in every case, in the order of the checks: a refusal leaves the buffer as it was, and a body that
  is written is at most \<open>MAX_LOG_LEN\<close> bytes.\<close>

lemma encode_log_eq:
  "encode_log buf t f p line = Some (if \<exists>n. log_result (length buf) f line = Ok n then put buf 0 (log_wire t f p line) else buf,
     log_result (length buf) f line)"
proof -
  note [simp del] = to_le_numeral
  let ?n = "log_name f"
  show ?thesis
  proof (cases "line = [] \<or> 64 \<le> length ?n \<or> 1447 < length ?n + length line \<or> length buf < 14 + length ?n + length line")
    case True
    then show ?thesis unfolding encode_log_def log_name_eq
      by (auto simp: log_result_def max_text_len_def LOG_BUDGET_def LOG_HEADER_LEN_def MAX_FILE_NAME_LEN_def Let_def)
  next
    case False
    then have b: "14 + length ?n + length line \<le> length buf" "length ?n < 64" "length ?n + length line \<le> 1447" "line \<noteq> []"
      by auto
    then show ?thesis unfolding encode_log_def log_name_eq
      by (simp add: log_result_def max_text_len_def LOG_BUDGET_def LOG_HEADER_LEN_def MAX_FILE_NAME_LEN_def Let_def buf_simps
          put_put_seq put_update_seq log_wire_def)
  qed
qed

lemma log_result_bound: "log_result room f line = Ok n \<Longrightarrow> n \<le> MAX_LOG_LEN \<and> n \<le> room"
  by (auto simp: log_result_def MAX_LOG_LEN_def LOG_BUDGET_def split: if_splits)

lemma log_room: "MAX_LOG_LEN \<le> room \<Longrightarrow> log_result room f line \<noteq> Err BufferTruncated"
  by (auto simp: log_result_def MAX_LOG_LEN_def LOG_BUDGET_def)

lemma encode_tx_data_eq:
  "encode_tx_data buf n data =
     Some (if length data \<le> network_max_len n \<and> 1 + length data \<le> length buf then put buf 0 (n # data) else buf,
       if network_max_len n < length data then Err MessageSize
       else if length buf < 1 + length data then Err BufferTruncated else Ok (1 + length data))"
  by (auto simp: encode_tx_data_def TX_HEADER_LEN_def set_at_def copy_at_def put_singleton put_put_seq)

lemma tx_bound: "length data \<le> network_max_len n \<Longrightarrow> 1 + length data \<le> MAX_TX_LEN"
  by (auto simp: network_max_len_def MAX_TX_LEN_def TX_HEADER_LEN_def MAX_CELLULAR_LEN_def MAX_IRIDIUM_LEN_def split: if_splits)

section \<open>A line and the subscribers of its topic\<close>

lemma topics_plain: "42 \<notin> set (log_topic f)"
proof -
  have "42 \<notin> set PRINTF_TOPIC" "42 \<notin> set FPRINTF_TOPIC" by code_simp+
  then show ?thesis by (simp add: log_topic_def split: option.split)
qed

text \<open>Property C19. A line for a Spotter reaches it as it was logged. Whatever file name, line and buffer: if the body is
  written and then published, the publication decodes to the topic of the file or the console, the Spotter
  kind and the body; and the body is the node, the lengths, the time flag, the file name up to its first zero,
  the line and a zero, of at most \<open>MAX_LOG_LEN\<close> bytes. A subscription list delivers it to exactly the topics
  that match.\<close>

theorem spotter_line_published:
  assumes "encode_log body t f print_time line = Some (body', Ok n)"
    and "pubsub_encode buf (log_topic f) SPOTTER_KIND COMMON_VERSION (take n body') = Some (buf', Ok m)"
    and "sub_wf cap s"
  shows "n \<le> MAX_LOG_LEN \<and> (\<exists>p. pubsub_decode (take m buf') = Ok p \<and> pb_topic p = log_topic f \<and> pb_kind p = SPOTTER_KIND \<and>
    pb_data p = log_wire t f print_time line \<and>
    matching_callbacks s (pb_topic p) = Some (filter (\<lambda>(held, cs). topic_matches (log_topic f) held) (sub_abs s)))"
proof -
  have r: "log_result (length body) f line = Ok n" "body' = put body 0 (log_wire t f print_time line)"
    using assms(1) unfolding encode_log_eq by auto
  have n: "n = length (log_wire t f print_time line)" using r(1) by (auto simp: log_result_def split: if_splits)
  have "take n body' = log_wire t f print_time line"
    using log_result_bound [OF r(1)] r(2) n by (simp add: put_0 del: length_log_wire)
  then show ?thesis
    using publication_roundtrip(1) [OF assms(2)] matching_callbacks_eq [OF assms(3) topics_plain] log_result_bound [OF r(1)] by auto
qed

theorem spotter_line_published_witness:
  "\<exists>body' buf' m p s. encode_log (replicate 30 0) 7 None 1 [104, 105] = Some (body', Ok 16) \<and>
     subscribe_as 16 PRINTF_TOPIC Service (subscriptions_new 1 16) = Some (s, Ok ()) \<and>
     pubsub_encode (replicate 60 0) (log_topic None) SPOTTER_KIND COMMON_VERSION (take 16 body') = Some (buf', Ok m) \<and>
     pubsub_decode (take m buf') = Ok p \<and> pb_data p = [7, 0, 0, 0, 0, 0, 0, 0, 0, 0, 2, 0, 1, 104, 105, 0] \<and>
     matching_callbacks s (pb_topic p) =
       Some (filter (\<lambda>(held, cs). topic_matches PRINTF_TOPIC held) [(PRINTF_TOPIC, [Service])])"
proof -
  have e: "encode_log (replicate 30 0) 7 None 1 [104, 105] =
      Some ([7, 0, 0, 0, 0, 0, 0, 0, 0, 0, 2, 0, 1, 104, 105, 0] @ replicate 14 0, Ok 16)" by code_simp
  obtain s where s: "subscribe_as 16 PRINTF_TOPIC Service (subscriptions_new 1 16) = Some (s, Ok ())" "sub_wf 16 s"
    "sub_abs s = [(PRINTF_TOPIC, [Service])]"
  proof -
    have "check_topic PRINTF_TOPIC = Ok ()" "length PRINTF_TOPIC \<le> 16" by code_simp+
    then show thesis using that subscribe_as_eq [OF subscriptions_new_wf(1) [of 16 1], of PRINTF_TOPIC Service]
      by (auto simp: subscriptions_new_wf(2) subscribe_spec_def subscriptions_new_slots)
  qed
  have w: "log_wire 7 None 1 [104, 105] = [7, 0, 0, 0, 0, 0, 0, 0, 0, 0, 2, 0, 1, 104, 105, 0]" by code_simp
  have "case pubsub_encode (replicate 60 0) (log_topic None) SPOTTER_KIND COMMON_VERSION
      (take 16 ([7, 0, 0, 0, 0, 0, 0, 0, 0, 0, 2, 0, 1, 104, 105, 0] @ replicate 14 0)) of
      Some (buf', Ok m) \<Rightarrow> True | _ \<Rightarrow> False" by code_simp
  then obtain buf' m where p: "pubsub_encode (replicate 60 0) (log_topic None) SPOTTER_KIND COMMON_VERSION
      (take 16 ([7, 0, 0, 0, 0, 0, 0, 0, 0, 0, 2, 0, 1, 104, 105, 0] @ replicate 14 0)) = Some (buf', Ok m)"
    by (auto split: option.splits result.splits) (metis result.exhaust)
  have t: "log_topic None = PRINTF_TOPIC" by (simp add: log_topic_def)
  show ?thesis using spotter_line_published [OF e p s(2)] e p s(1,3) unfolding w t by auto
qed

end
