(* ===== verification/Mcuboot_Image.thy ===== *)
theory Mcuboot_Image
  imports Le
begin

text \<open>
  The crate \<open>bm-mcuboot\<close>, \<open>image.rs\<close> and \<open>tlv.rs\<close>: the header of a firmware image, the
  type-length-value area behind its body, the two encoders and the iterator that reads an area
  back. What \<open>decode\<close>, \<open>parse\<close> and \<open>find\<close> answer with \<open>Option::None\<close> is a value here too; a panic
  is \<^const>\<open>None\<close> where an operation can index out of range.

  The area is specified by the list of its entries (\<open>tlv_area_bytes\<close>); the iterator is shown to
  read exactly that list, and to stay inside any area \<open>parse\<close> accepts.
\<close>

section \<open>The image header\<close>

definition IMAGE_MAGIC :: u32 where "IMAGE_MAGIC = 0x96f3b83d"
definition HEADER_SIZE :: nat where "HEADER_SIZE = 32"
definition BM_HDR_SIZE :: u16 where "BM_HDR_SIZE = 0x200"

record ImageVersion =
  iv_major :: u8
  iv_minor :: u8
  iv_revision :: u16
  iv_build_num :: u32

definition version_encode :: "ImageVersion \<Rightarrow> bytes" where
  "version_encode v = [iv_major v, iv_minor v] @ to_le 2 (iv_revision v) @ to_le 4 (iv_build_num v)"

text \<open>The argument is an array of eight bytes, by its type.\<close>

definition version_decode :: "bytes \<Rightarrow> ImageVersion" where
  "version_decode b = \<lparr>iv_major = b ! 0, iv_minor = b ! 1, iv_revision = from_le [b ! 2, b ! 3],
     iv_build_num = from_le [b ! 4, b ! 5, b ! 6, b ! 7]\<rparr>"

record ImageHeader =
  ih_magic :: u32
  ih_load_addr :: u32
  ih_hdr_size :: u16
  ih_protect_tlv_size :: u16
  ih_img_size :: u32
  ih_flags :: u32
  ih_ver :: ImageVersion
  ih_pad1 :: u32

definition image_header_new :: "u32 \<Rightarrow> ImageVersion \<Rightarrow> ImageHeader" where
  "image_header_new img_size v = \<lparr>ih_magic = IMAGE_MAGIC, ih_load_addr = 0, ih_hdr_size = BM_HDR_SIZE,
     ih_protect_tlv_size = 0, ih_img_size = img_size, ih_flags = 0, ih_ver = v, ih_pad1 = 0\<rparr>"

text \<open>The loop of \<open>put\<close>, which writes byte by byte and panics at the end of the buffer. Both files
  have it.\<close>

fun image_put :: "bytes \<Rightarrow> nat \<Rightarrow> bytes \<Rightarrow> bytes option" where
  "image_put out at [] = Some out"
| "image_put out at (b # bs) = do { out \<leftarrow> set_at out at b; image_put out (at + 1) bs }"

fun tlv_put :: "bytes \<Rightarrow> nat \<Rightarrow> bytes \<Rightarrow> bytes option" where
  "tlv_put out at [] = Some out"
| "tlv_put out at (b # bs) = do { out \<leftarrow> set_at out at b; tlv_put out (at + 1) bs }"

definition image_header_encode :: "ImageHeader \<Rightarrow> bytes option" where
  "image_header_encode h = do {
     let out = replicate HEADER_SIZE 0;
     out \<leftarrow> image_put out 0 (to_le 4 (ih_magic h));
     out \<leftarrow> image_put out 4 (to_le 4 (ih_load_addr h));
     out \<leftarrow> image_put out 8 (to_le 2 (ih_hdr_size h));
     out \<leftarrow> image_put out 10 (to_le 2 (ih_protect_tlv_size h));
     out \<leftarrow> image_put out 12 (to_le 4 (ih_img_size h));
     out \<leftarrow> image_put out 16 (to_le 4 (ih_flags h));
     out \<leftarrow> image_put out 20 (version_encode (ih_ver h));
     image_put out 28 (to_le 4 (ih_pad1 h))
   }"

definition image_header_decode :: "bytes \<Rightarrow> ImageHeader option" where
  "image_header_decode bytes = do {
     b \<leftarrow> range_at bytes 0 HEADER_SIZE;
     Some \<lparr>ih_magic = from_le [b ! 0, b ! 1, b ! 2, b ! 3],
       ih_load_addr = from_le [b ! 4, b ! 5, b ! 6, b ! 7],
       ih_hdr_size = from_le [b ! 8, b ! 9],
       ih_protect_tlv_size = from_le [b ! 10, b ! 11],
       ih_img_size = from_le [b ! 12, b ! 13, b ! 14, b ! 15],
       ih_flags = from_le [b ! 16, b ! 17, b ! 18, b ! 19],
       ih_ver = version_decode [b ! 20, b ! 21, b ! 22, b ! 23, b ! 24, b ! 25, b ! 26, b ! 27],
       ih_pad1 = from_le [b ! 28, b ! 29, b ! 30, b ! 31]\<rparr>
   }"

definition tlv_off :: "ImageHeader \<Rightarrow> u32 option" where
  "tlv_off h = (if unat (ih_img_size h) + unat (ih_hdr_size h) < 2 ^ 32
     then Some (ih_img_size h + ucast (ih_hdr_size h)) else None)"

section \<open>Encoding an area\<close>

definition INFO_MAGIC :: u16 where "INFO_MAGIC = 0x6907"
definition PROT_INFO_MAGIC :: u16 where "PROT_INFO_MAGIC = 0x6908"
definition INFO_SIZE :: nat where "INFO_SIZE = 4"
definition ENTRY_SIZE :: nat where "ENTRY_SIZE = 4"
definition KEYHASH :: u16 where "KEYHASH = 0x01"
definition SHA256 :: u16 where "SHA256 = 0x10"
definition ED25519 :: u16 where "ED25519 = 0x24"
definition SHA256_LEN :: nat where "SHA256_LEN = 32"
definition ED25519_LEN :: nat where "ED25519_LEN = 64"
definition UNSIGNED_SIZE :: nat where "UNSIGNED_SIZE = INFO_SIZE + ENTRY_SIZE + SHA256_LEN"
definition ED25519_SIZE :: nat where
  "ED25519_SIZE = UNSIGNED_SIZE + ENTRY_SIZE + SHA256_LEN + ENTRY_SIZE + ED25519_LEN"

lemmas tlv_sizes = INFO_SIZE_def ENTRY_SIZE_def SHA256_LEN_def ED25519_LEN_def UNSIGNED_SIZE_def ED25519_SIZE_def

definition tlv_info :: "bytes \<Rightarrow> u16 \<Rightarrow> (bytes \<times> nat) option" where
  "tlv_info out tot = do {
     out \<leftarrow> tlv_put out 0 (to_le 2 INFO_MAGIC);
     out \<leftarrow> tlv_put out 2 (to_le 2 tot);
     Some (out, INFO_SIZE)
   }"

definition tlv_entry :: "bytes \<Rightarrow> nat \<Rightarrow> u16 \<Rightarrow> bytes \<Rightarrow> (bytes \<times> nat) option" where
  "tlv_entry out at kind v = do {
     out \<leftarrow> tlv_put out at (to_le 2 kind);
     out \<leftarrow> tlv_put out (at + 2) (to_le 2 (of_nat (length v) :: u16));
     out \<leftarrow> tlv_put out (at + ENTRY_SIZE) v;
     Some (out, at + ENTRY_SIZE + length v)
   }"

definition encode_unsigned :: "bytes \<Rightarrow> bytes option" where
  "encode_unsigned sha256 = do {
     (out, at) \<leftarrow> tlv_info (replicate UNSIGNED_SIZE 0) (of_nat UNSIGNED_SIZE);
     (out, _) \<leftarrow> tlv_entry out at SHA256 sha256;
     Some out
   }"

definition encode_ed25519 :: "bytes \<Rightarrow> bytes \<Rightarrow> bytes \<Rightarrow> bytes option" where
  "encode_ed25519 sha256 keyhash signature = do {
     (out, at) \<leftarrow> tlv_info (replicate ED25519_SIZE 0) (of_nat ED25519_SIZE);
     (out, at) \<leftarrow> tlv_entry out at SHA256 sha256;
     (out, at) \<leftarrow> tlv_entry out at KEYHASH keyhash;
     (out, _) \<leftarrow> tlv_entry out at ED25519 signature;
     Some out
   }"

section \<open>Reading an area\<close>

datatype TlvError = TlvTruncated | BadMagic | ProtectedSize

record Tlv =
  tlv_kind :: u16
  tlv_value :: bytes
  tlv_protected :: bool

record TlvArea =
  ta_image :: bytes
  ta_start :: nat
  ta_first :: nat
  ta_prot_end :: nat
  ta_stop :: nat

definition tlv_pair :: "bytes \<Rightarrow> nat \<Rightarrow> (TlvError, u16 \<times> u16) result" where
  "tlv_pair bytes off = (case range_at bytes off (off + 4) of
     None \<Rightarrow> Err TlvTruncated
   | Some b \<Rightarrow> Ok (from_le [b ! 0, b ! 1], from_le [b ! 2, b ! 3]))"

text \<open>The second half of \<open>TlvArea::parse\<close>, from the test of the unprotected magic on.\<close>

definition tlv_parse_info :: "bytes \<Rightarrow> nat \<Rightarrow> nat \<Rightarrow> u16 \<times> u16 \<Rightarrow> (TlvError, TlvArea) result" where
  "tlv_parse_info img start protect info = (
     if fst info \<noteq> INFO_MAGIC then Err BadMagic
     else let prot_end = start + protect; stop = prot_end + unat (snd info) in
       if stop > length img then Err TlvTruncated
       else Ok \<lparr>ta_image = img, ta_start = start, ta_first = start + INFO_SIZE, ta_prot_end = prot_end,
         ta_stop = stop\<rparr>)"

definition tlv_parse :: "bytes \<Rightarrow> ImageHeader \<Rightarrow> (TlvError, TlvArea) result" where
  "tlv_parse img header = (case tlv_off header of
     None \<Rightarrow> Err TlvTruncated
   | Some off \<Rightarrow>
       let start = unat off; protect = unat (ih_protect_tlv_size header) in
       case tlv_pair img start of
         Err e \<Rightarrow> Err e
       | Ok info \<Rightarrow>
           if fst info = PROT_INFO_MAGIC then
             if protect \<noteq> unat (snd info) then Err ProtectedSize
             else (case tlv_pair img (start + protect) of
               Err e \<Rightarrow> Err e
             | Ok info' \<Rightarrow> tlv_parse_info img start protect info')
           else if protect \<noteq> 0 then Err ProtectedSize
           else tlv_parse_info img start protect info)"

text \<open>\<open>TlvIter::next\<close>: the item, and where the iterator goes on. \<^const>\<open>None\<close> is the panic of the
  slice that takes the value out of the image.\<close>

definition tlv_item :: "TlvArea \<Rightarrow> nat \<Rightarrow> (TlvError, Tlv \<times> nat) result option" where
  "tlv_item area off = (
     let value_off = off + ENTRY_SIZE in
     if value_off > ta_stop area then Some (Err TlvTruncated)
     else case tlv_pair (ta_image area) off of
       Err e \<Rightarrow> Some (Err e)
     | Ok (kind, len) \<Rightarrow>
         let value_end = value_off + unat len in
         if value_end > ta_stop area then Some (Err TlvTruncated)
         else do {
           v \<leftarrow> range_at (ta_image area) value_off value_end;
           Some (Ok (\<lparr>tlv_kind = kind, tlv_value = v, tlv_protected = off < ta_prot_end area\<rparr>, value_end))
         })"

definition tlv_next :: "TlvArea \<Rightarrow> nat \<Rightarrow> ((TlvError, Tlv) result option \<times> nat) option" where
  "tlv_next area off = (
     if off \<ge> ta_stop area then Some (None, off)
     else let off = (if ta_prot_end area \<noteq> ta_start area \<and> off = ta_prot_end area then off + INFO_SIZE else off) in
       do {
         item \<leftarrow> tlv_item area off;
         Some (case item of
           Ok (tlv, after) \<Rightarrow> (Some (Ok tlv), after)
         | Err e \<Rightarrow> (Some (Err e), ta_stop area))
       })"

lemma tlv_next_progress:
  assumes "tlv_next area off = Some (Some item, off')"
  shows "off < ta_stop area \<and> off < off'"
proof (cases "off < ta_stop area")
  case True
  then show ?thesis
    using assms by (auto simp: tlv_next_def tlv_item_def Let_def ENTRY_SIZE_def
        split: result.splits if_splits Option.bind_splits)
next
  case False
  then show ?thesis using assms by (simp add: tlv_next_def)
qed

text \<open>The iterator run to its end, and \<open>TlvArea::find\<close>, which stops at the first error or at the first
  entry of the kind.\<close>

function tlv_items :: "TlvArea \<Rightarrow> nat \<Rightarrow> (TlvError, Tlv) result list option" where
  "tlv_items area off = (case tlv_next area off of
     None \<Rightarrow> None
   | Some (None, _) \<Rightarrow> Some []
   | Some (Some item, off') \<Rightarrow> do { rest \<leftarrow> tlv_items area off'; Some (item # rest) })"
  by pat_completeness auto
termination
  by (relation "measure (\<lambda>(area, off). ta_stop area - off)") (auto dest: tlv_next_progress)

function tlv_find_from :: "TlvArea \<Rightarrow> u16 \<Rightarrow> nat \<Rightarrow> bytes option option" where
  "tlv_find_from area kind off = (case tlv_next area off of
     None \<Rightarrow> None
   | Some (None, _) \<Rightarrow> Some None
   | Some (Some (Err e), _) \<Rightarrow> Some None
   | Some (Some (Ok tlv), off') \<Rightarrow>
       if tlv_kind tlv = kind then Some (Some (tlv_value tlv)) else tlv_find_from area kind off')"
  by pat_completeness auto
termination
  by (relation "measure (\<lambda>(area, kind, off). ta_stop area - off)") (auto dest: tlv_next_progress)

declare tlv_items.simps [simp del] tlv_find_from.simps [simp del]

definition tlv_iter :: "TlvArea \<Rightarrow> (TlvError, Tlv) result list option" where
  "tlv_iter area = tlv_items area (ta_first area)"

definition tlv_find :: "TlvArea \<Rightarrow> u16 \<Rightarrow> bytes option option" where
  "tlv_find area kind = tlv_find_from area kind (ta_first area)"


section \<open>The header round trip\<close>

lemma image_put_in [buf_simps]: "at + length bs \<le> length out \<Longrightarrow> image_put out at bs = Some (put out at bs)"
  by (induction out at bs rule: image_put.induct)
    (simp_all add: buf_simps put_singleton put_put_seq, simp add: put_def)

lemma tlv_put_in [buf_simps]: "at + length bs \<le> length out \<Longrightarrow> tlv_put out at bs = Some (put out at bs)"
  by (induction out at bs rule: tlv_put.induct)
    (simp_all add: buf_simps put_singleton put_put_seq, simp add: put_def)

definition image_header_wire :: "ImageHeader \<Rightarrow> bytes" where
  "image_header_wire h = to_le 4 (ih_magic h) @ to_le 4 (ih_load_addr h) @ to_le 2 (ih_hdr_size h) @
     to_le 2 (ih_protect_tlv_size h) @ to_le 4 (ih_img_size h) @ to_le 4 (ih_flags h) @
     version_encode (ih_ver h) @ to_le 4 (ih_pad1 h)"

lemma length_version_encode [simp]: "length (version_encode v) = 8"
  by (simp add: version_encode_def del: to_le_numeral)

lemma length_image_header_wire [simp]: "length (image_header_wire h) = 32"
  by (simp add: image_header_wire_def del: to_le_numeral)

lemma put_all: "length xs = length out \<Longrightarrow> put out 0 xs = xs"
  by (simp add: put_0)

lemma image_header_encode_wire: "image_header_encode h = Some (image_header_wire h)"
  unfolding image_header_encode_def HEADER_SIZE_def
  by (simp add: buf_simps put_put_seq del: to_le_numeral)
    (subst put_all, simp_all add: image_header_wire_def del: to_le_numeral)

lemma version_decode_encode [simp]:
  "version_decode (version_encode v) = v"
  using from_to_le_widths(1) [of "iv_revision v"] from_to_le_widths(2) [of "iv_build_num v"]
  by (simp add: version_decode_def version_encode_def)

lemma subslice_4: "a + 4 \<le> length buf \<Longrightarrow> subslice buf a 4 = [buf ! a, buf ! Suc a, buf ! Suc (Suc a), buf ! Suc (Suc (Suc a))]"
  using subslice_split [of buf a 2 2] subslice_2 [of a buf] subslice_2 [of "a + 2" buf] by simp

lemma version_encode_decode:
  assumes "length b = 8"
  shows "version_encode (version_decode b) = b"
proof -
  have v: "version_decode b = \<lparr>iv_major = b ! 0, iv_minor = b ! 1, iv_revision = from_le (subslice b 2 2),
      iv_build_num = from_le (subslice b 4 4)\<rparr>"
    using assms by (simp add: version_decode_def subslice_2 subslice_4)
  have "version_encode (version_decode b) = subslice b 0 2 @ subslice b 2 2 @ subslice b 4 4"
    using assms subslice_2 [of 0 b] by (simp add: v version_encode_def to_from_le del: to_le_numeral)
  then show ?thesis using assms by (simp add: join_simps)
qed

lemma image_header_decode_long:
  assumes "32 \<le> length bytes"
  shows "image_header_decode bytes = Some \<lparr>ih_magic = from_le (subslice bytes 0 4),
    ih_load_addr = from_le (subslice bytes 4 4), ih_hdr_size = from_le (subslice bytes 8 2),
    ih_protect_tlv_size = from_le (subslice bytes 10 2), ih_img_size = from_le (subslice bytes 12 4),
    ih_flags = from_le (subslice bytes 16 4), ih_ver = version_decode (subslice bytes 20 8),
    ih_pad1 = from_le (subslice bytes 28 4)\<rparr>"
  using assms subslice_split [of bytes 20 4 4]
  by (simp add: image_header_decode_def HEADER_SIZE_def range_at_def subslice_2 subslice_4 numeral_3_eq_3)

lemma image_header_decode_short: "length bytes < 32 \<Longrightarrow> image_header_decode bytes = None"
  by (simp add: image_header_decode_def HEADER_SIZE_def range_at_def)

lemma image_header_decode_wire: "image_header_decode (image_header_wire h @ rest) = Some h"
  by (subst image_header_decode_long)
    (simp_all add: image_header_wire_def del: to_le_numeral)

lemma image_header_wire_decode:
  assumes "image_header_decode bytes = Some h"
  shows "image_header_wire h = take 32 bytes"
proof -
  have len: "32 \<le> length bytes" using assms image_header_decode_short [of bytes] by force
  have "take 32 bytes = subslice bytes 0 32" by (simp add: subslice_def)
  then show ?thesis
    using assms len unfolding image_header_decode_long [OF len] image_header_wire_def
    by (auto simp: to_from_le version_encode_decode join_simps simp del: to_le_numeral)
qed

text \<open>The image header keeps every field: encoding never fails and gives 32 bytes, decoding
  them with any bytes behind gives the header back, decoding refuses exactly the inputs shorter than 32
  bytes, and a header that was decoded encodes to the bytes it was read from.\<close>

theorem image_header_roundtrip:
  "(\<exists>b. image_header_encode h = Some b \<and> length b = HEADER_SIZE \<and> image_header_decode (b @ rest) = Some h) \<and>
   (image_header_decode bytes = None \<longleftrightarrow> length bytes < HEADER_SIZE) \<and>
   (\<forall>g. image_header_decode bytes = Some g \<longrightarrow> image_header_encode g = Some (take HEADER_SIZE bytes))"
  using image_header_decode_short [of bytes] image_header_decode_long [of bytes] linorder_not_less [of "length bytes" 32]
  by (auto simp: image_header_encode_wire image_header_decode_wire image_header_wire_decode HEADER_SIZE_def)

section \<open>The area as a list of entries\<close>

definition entry_wire :: "u16 \<times> bytes \<Rightarrow> bytes" where
  "entry_wire e = to_le 2 (fst e) @ to_le 2 (of_nat (length (snd e)) :: u16) @ snd e"

definition entries_wire :: "(u16 \<times> bytes) list \<Rightarrow> bytes" where
  "entries_wire es = concat (map entry_wire es)"

definition info_wire :: "u16 \<Rightarrow> nat \<Rightarrow> bytes" where
  "info_wire magic n = to_le 2 magic @ to_le 2 (of_nat n :: u16)"

text \<open>The bytes of an area with its entries, the protected ones first when there is such a part. A part
  counts its own info header, and the count has 16 bits.\<close>

definition part_len :: "(u16 \<times> bytes) list \<Rightarrow> nat" where
  "part_len es = INFO_SIZE + length (entries_wire es)"

definition part_wire :: "u16 \<Rightarrow> (u16 \<times> bytes) list \<Rightarrow> bytes" where
  "part_wire magic es = info_wire magic (part_len es) @ entries_wire es"

definition tlv_area_bytes :: "(u16 \<times> bytes) list option \<Rightarrow> (u16 \<times> bytes) list \<Rightarrow> bytes" where
  "tlv_area_bytes prot es =
     (case prot of None \<Rightarrow> [] | Some ps \<Rightarrow> part_wire PROT_INFO_MAGIC ps) @ part_wire INFO_MAGIC es"

definition prot_len :: "(u16 \<times> bytes) list option \<Rightarrow> nat" where
  "prot_len prot = (case prot of None \<Rightarrow> 0 | Some ps \<Rightarrow> part_len ps)"

definition prot_entries :: "(u16 \<times> bytes) list option \<Rightarrow> (u16 \<times> bytes) list" where
  "prot_entries prot = (case prot of None \<Rightarrow> [] | Some ps \<Rightarrow> ps)"

definition as_tlv :: "bool \<Rightarrow> u16 \<times> bytes \<Rightarrow> Tlv" where
  "as_tlv p e = \<lparr>tlv_kind = fst e, tlv_value = snd e, tlv_protected = p\<rparr>"

lemma as_tlv_simps [simp]: "tlv_kind (as_tlv p e) = fst e" "tlv_value (as_tlv p e) = snd e"
  by (simp_all add: as_tlv_def)

lemma length_entry_wire [simp]: "length (entry_wire e) = 4 + length (snd e)"
  by (simp add: entry_wire_def del: to_le_numeral)

lemma length_info_wire [simp]: "length (info_wire m n) = 4"
  by (simp add: info_wire_def del: to_le_numeral)

lemma length_part_wire [simp]: "length (part_wire m es) = part_len es"
  by (simp add: part_wire_def part_len_def INFO_SIZE_def)

lemma entries_wire_simps [simp]:
  "entries_wire [] = []" "entries_wire (e # es) = entry_wire e @ entries_wire es"
  by (simp_all add: entries_wire_def)

lemma tlv_pair_read:
  assumes "length xs = off"
  shows "tlv_pair (xs @ to_le 2 a @ to_le 2 b @ ys) off = Ok (a, b)"
proof -
  let ?b = "to_le 2 a @ to_le 2 b"
  have "range_at (xs @ ?b @ ys) off (off + 4) = Some ?b"
    using assms by (simp add: range_at_def subslice_def del: to_le_numeral)
  moreover have "[?b ! 0, ?b ! 1] = to_le 2 a" "[?b ! 2, ?b ! 3] = to_le 2 b" by simp_all
  ultimately show ?thesis by (simp add: tlv_pair_def del: to_le_numeral)
qed

lemma tlv_next_entry:
  assumes "ta_image area = xs @ entry_wire e @ ys" "length xs = off"
    and "off + length (entry_wire e) \<le> ta_stop area" "ta_stop area \<le> length (ta_image area)"
    and "ta_prot_end area = ta_start area \<or> off \<noteq> ta_prot_end area" "length (snd e) < 2 ^ 16"
  shows "tlv_next area off = Some (Some (Ok (as_tlv (off < ta_prot_end area) e)), off + length (entry_wire e))"
proof -
  have "tlv_pair (ta_image area) off = Ok (fst e, of_nat (length (snd e)))"
    using tlv_pair_read [OF assms(2)] assms(1) by (simp add: entry_wire_def del: to_le_numeral)
  moreover have "range_at (ta_image area) (off + 4) (off + 4 + length (snd e)) = Some (snd e)"
    using assms(1,2) by (simp add: range_at_def subslice_def entry_wire_def del: to_le_numeral)
  moreover have "unat (of_nat (length (snd e)) :: u16) = length (snd e)"
    using assms(6) by (simp add: unsigned_of_nat take_bit_nat_eq_self)
  ultimately show ?thesis
    using assms(3,5) by (auto simp: tlv_next_def tlv_item_def ENTRY_SIZE_def as_tlv_def Let_def add.assoc)
qed

lemma tlv_items_run:
  assumes "ta_image area = xs @ entries_wire es @ ys" "length xs = off"
    and "off + length (entries_wire es) \<le> ta_stop area" "ta_stop area \<le> length (ta_image area)"
    and "ta_prot_end area < off \<or> off + length (entries_wire es) \<le> ta_prot_end area"
    and "length (entries_wire es) < 2 ^ 16"
  shows "tlv_items area off = map_option ((@) (map (\<lambda>e. Ok (as_tlv (off < ta_prot_end area) e)) es))
    (tlv_items area (off + length (entries_wire es)))"
  using assms
proof (induction es arbitrary: xs off)
  case Nil
  then show ?case by (simp add: option.map_ident)
next
  case (Cons e es)
  let ?m = "length (entry_wire e)"
  have step: "tlv_next area off = Some (Some (Ok (as_tlv (off < ta_prot_end area) e)), off + ?m)"
    by (rule tlv_next_entry) (use Cons.prems in auto)
  have "tlv_items area (off + ?m) = map_option ((@) (map (\<lambda>e. Ok (as_tlv (off + ?m < ta_prot_end area) e)) es))
      (tlv_items area (off + ?m + length (entries_wire es)))"
    by (rule Cons.IH [of "xs @ entry_wire e"]) (use Cons.prems in auto)
  moreover have "es \<noteq> [] \<Longrightarrow> (off + ?m < ta_prot_end area) = (off < ta_prot_end area)"
    using Cons.prems(5) by (cases es) auto
  then have "map (\<lambda>e. Ok (as_tlv (off + ?m < ta_prot_end area) e)) es =
      (map (\<lambda>e. Ok (as_tlv (off < ta_prot_end area) e)) es :: (TlvError, Tlv) result list)"
    by (cases es) auto
  ultimately show ?case
    using step by (subst tlv_items.simps) (auto simp: add.assoc option.map_comp comp_def
        map_option_case split: option.splits)
qed

lemma tlv_items_skip:
  assumes "ta_prot_end area \<noteq> ta_start area" "off = ta_prot_end area" "off + 4 < ta_stop area"
  shows "tlv_items area off = tlv_items area (off + 4)"
proof -
  have "tlv_next area off = tlv_next area (off + 4)"
    using assms by (simp add: tlv_next_def INFO_SIZE_def Let_def)
  then show ?thesis by (subst (1 2) tlv_items.simps) simp
qed

lemma tlv_items_stop: "ta_stop area \<le> off \<Longrightarrow> tlv_items area off = Some []"
  by (subst tlv_items.simps) (simp add: tlv_next_def)

text \<open>\<open>find\<close> is the lookup in the items up to the first error.\<close>

definition items_ok :: "(TlvError, Tlv) result list \<Rightarrow> Tlv list" where
  "items_ok rs = map the_ok (takeWhile (\<lambda>r. case r of Ok _ \<Rightarrow> True | Err _ \<Rightarrow> False) rs)"

lemma items_ok_simps [simp]:
  "items_ok [] = []" "items_ok (Ok t # rs) = t # items_ok rs" "items_ok (Err e # rs) = []"
  by (simp_all add: items_ok_def)

lemma items_ok_all [simp]: "items_ok (map (\<lambda>e. Ok (f e)) es @ rs) = map f es @ items_ok rs"
  by (induction es) simp_all

lemma tlv_find_from_items:
  "tlv_items area off = Some rs \<Longrightarrow>
   tlv_find_from area kind off = Some (map_option tlv_value (find (\<lambda>t. tlv_kind t = kind) (items_ok rs)))"
proof (induction area off arbitrary: rs rule: tlv_items.induct)
  case (1 area off)
  show ?case
  proof (cases "tlv_next area off")
    case None
    with 1(2) show ?thesis by (subst (asm) tlv_items.simps) simp
  next
    case (Some p)
    then obtain it off' where p: "tlv_next area off = Some (it, off')" by (cases p) auto
    show ?thesis
    proof (cases it)
      case None
      with p 1(2) show ?thesis by (subst tlv_find_from.simps, subst (asm) tlv_items.simps) auto
    next
      case (Some item)
      with p 1(2) obtain rs' where r: "rs = item # rs'" "tlv_items area off' = Some rs'"
        by (subst (asm) tlv_items.simps) (auto split: Option.bind_splits)
      from 1(1) [OF p [unfolded Some] refl refl r(2)] show ?thesis
        using p Some r(1) by (subst tlv_find_from.simps) (auto split: result.splits)
    qed
  qed
qed

lemma find_map_of:
  "map_option tlv_value (find (\<lambda>t. tlv_kind t = kind) (map (as_tlv p) ps @ map (as_tlv q) qs)) =
   map_of (ps @ qs) kind"
proof -
  have "map_option tlv_value (find (\<lambda>t. tlv_kind t = kind) (map (as_tlv q) qs)) = map_of qs kind" for q qs
    by (induction qs) auto
  then show ?thesis by (induction ps) auto
qed

lemma tlv_pair_part:
  assumes "length xs = off"
  shows "tlv_pair (xs @ part_wire m es @ ys) off = Ok (m, of_nat (part_len es))"
  using tlv_pair_read [OF assms, of m "of_nat (part_len es)" "entries_wire es @ ys"]
  by (simp add: part_wire_def info_wire_def del: to_le_numeral)

lemma unat_of_nat_u16: "n < 2 ^ 16 \<Longrightarrow> unat (of_nat n :: u16) = n"
  by (simp add: unsigned_of_nat take_bit_nat_eq_self)

lemma part_len_prot: "unat (w :: u16) = prot_len (Some ps) \<Longrightarrow> part_len ps < 2 ^ 16"
proof -
  assume "unat w = prot_len (Some ps)"
  moreover have "unat w < 2 ^ LENGTH(16)" by (rule unsigned_less)
  ultimately show ?thesis by (simp add: prot_len_def)
qed

lemma tlv_parse_area:
  assumes "tlv_off h = Some off" "unat off = length pre"
    and "unat (ih_protect_tlv_size h) = prot_len prot" "part_len es < 2 ^ 16"
  shows "tlv_parse (pre @ tlv_area_bytes prot es @ rest) h =
    Ok \<lparr>ta_image = pre @ tlv_area_bytes prot es @ rest, ta_start = length pre, ta_first = length pre + INFO_SIZE,
      ta_prot_end = length pre + prot_len prot, ta_stop = length pre + length (tlv_area_bytes prot es)\<rparr>"
proof (cases prot)
  case None
  have "INFO_MAGIC \<noteq> PROT_INFO_MAGIC" by (simp add: INFO_MAGIC_def PROT_INFO_MAGIC_def)
  then show ?thesis
    using assms tlv_pair_part [of pre "length pre" INFO_MAGIC es rest] None
    by (simp add: tlv_parse_def tlv_parse_info_def tlv_area_bytes_def prot_len_def unat_of_nat_u16 Let_def)
next
  case (Some ps)
  have l: "unat (of_nat (part_len ps) :: u16) = part_len ps"
    using part_len_prot [of "ih_protect_tlv_size h" ps] assms(3) Some by (simp add: unat_of_nat_u16)
  show ?thesis
    using assms l Some tlv_pair_part [of pre "length pre" PROT_INFO_MAGIC ps "part_wire INFO_MAGIC es @ rest"]
      tlv_pair_part [of "pre @ part_wire PROT_INFO_MAGIC ps" "length pre + part_len ps" INFO_MAGIC es rest]
    by (simp add: tlv_parse_def tlv_parse_info_def tlv_area_bytes_def prot_len_def unat_of_nat_u16 Let_def)
qed

lemma tlv_items_part:
  assumes "ta_image area = xs @ part_wire m es @ ys" "ta_stop area \<le> length (ta_image area)"
    and "off = length xs" "off + part_len es \<le> ta_stop area" "part_len es < 2 ^ 16"
    and "ta_prot_end area \<le> off \<or> off + part_len es \<le> ta_prot_end area"
  shows "tlv_items area (off + 4) = map_option ((@) (map (\<lambda>e. Ok (as_tlv (off < ta_prot_end area) e)) es))
    (tlv_items area (off + part_len es))"
proof -
  have "tlv_items area (off + 4) = map_option ((@) (map (\<lambda>e. Ok (as_tlv (off + 4 < ta_prot_end area) e)) es))
      (tlv_items area (off + 4 + length (entries_wire es)))"
    by (rule tlv_items_run [of area "xs @ info_wire m (part_len es)" es ys])
      (use assms in \<open>auto simp: part_wire_def part_len_def INFO_SIZE_def\<close>)
  moreover have "es \<noteq> [] \<Longrightarrow> (off + 4 < ta_prot_end area) = (off < ta_prot_end area)"
    using assms(6) by (cases es) (auto simp: part_len_def INFO_SIZE_def)
  then have "map (\<lambda>e. Ok (as_tlv (off + 4 < ta_prot_end area) e)) es =
      (map (\<lambda>e. Ok (as_tlv (off < ta_prot_end area) e)) es :: (TlvError, Tlv) result list)"
    by (cases es) auto
  ultimately show ?thesis by (simp add: part_len_def INFO_SIZE_def add.assoc)
qed

lemma tlv_iter_area:
  assumes "area = \<lparr>ta_image = pre @ tlv_area_bytes prot es @ rest, ta_start = length pre, ta_first = length pre + INFO_SIZE,
      ta_prot_end = length pre + prot_len prot, ta_stop = length pre + length (tlv_area_bytes prot es)\<rparr>"
    and "prot_len prot < 2 ^ 16" "part_len es < 2 ^ 16"
  shows "tlv_iter area = Some (map (\<lambda>e. Ok (as_tlv True e)) (prot_entries prot) @ map (\<lambda>e. Ok (as_tlv False e)) es @
    (if prot \<noteq> None \<and> es = [] then [Err TlvTruncated] else []))"
proof (cases prot)
  case None
  have "tlv_items area (length pre + 4) = map_option ((@) (map (\<lambda>e. Ok (as_tlv (length pre < ta_prot_end area) e)) es))
      (tlv_items area (length pre + part_len es))"
    by (rule tlv_items_part) (use assms None in \<open>auto simp: tlv_area_bytes_def prot_len_def\<close>)
  then show ?thesis
    using assms None
    by (simp add: tlv_iter_def INFO_SIZE_def tlv_items_stop tlv_area_bytes_def prot_len_def prot_entries_def)
next
  case (Some ps)
  let ?mid = "length pre + part_len ps"
  have one: "tlv_items area (length pre + 4) = map_option ((@) (map (\<lambda>e. Ok (as_tlv (length pre < ta_prot_end area) e)) ps))
      (tlv_items area ?mid)"
    by (rule tlv_items_part) (use assms Some in \<open>auto simp: tlv_area_bytes_def prot_len_def\<close>)
  have pos: "0 < part_len ps" by (simp add: part_len_def INFO_SIZE_def)
  have two: "tlv_items area ?mid = Some (map (\<lambda>e. Ok (as_tlv False e)) es @ (if es = [] then [Err TlvTruncated] else []))"
  proof (cases es)
    case Nil
    then have "tlv_next area ?mid = Some (Some (Err TlvTruncated), ta_stop area)"
      using assms(1) Some pos
      by (auto simp: tlv_next_def tlv_item_def tlv_area_bytes_def prot_len_def part_len_def INFO_SIZE_def ENTRY_SIZE_def)
    with Nil show ?thesis by (subst tlv_items.simps) (simp add: tlv_items_stop)
  next
    case (Cons e es')
    have "tlv_items area (?mid + 4) = map_option ((@) (map (\<lambda>e. Ok (as_tlv (?mid < ta_prot_end area) e)) es))
        (tlv_items area (?mid + part_len es))"
      by (rule tlv_items_part [of area "pre @ part_wire PROT_INFO_MAGIC ps"])
        (use assms Some in \<open>auto simp: tlv_area_bytes_def prot_len_def\<close>)
    moreover have "tlv_items area ?mid = tlv_items area (?mid + 4)"
      by (rule tlv_items_skip)
        (use assms(1) Some Cons pos in \<open>auto simp: tlv_area_bytes_def prot_len_def part_len_def INFO_SIZE_def\<close>)
    ultimately show ?thesis
      using assms(1) Some Cons by (simp add: tlv_items_stop tlv_area_bytes_def prot_len_def add.assoc)
  qed
  show ?thesis
    using assms(1) Some one two pos
    by (simp add: tlv_iter_def INFO_SIZE_def prot_entries_def prot_len_def)
qed

lemma tlv_find_iter:
  "tlv_iter area = Some rs \<Longrightarrow>
   tlv_find area kind = Some (map_option tlv_value (find (\<lambda>t. tlv_kind t = kind) (items_ok rs)))"
  by (simp add: tlv_iter_def tlv_find_def tlv_find_from_items)

lemma tlv_area_parsed:
  assumes "tlv_off h = Some off" "unat off = length pre"
    and "unat (ih_protect_tlv_size h) = prot_len prot" "part_len es < 2 ^ 16"
  obtains area where "tlv_parse (pre @ tlv_area_bytes prot es @ rest) h = Ok area"
    "ta_start area = length pre" "ta_stop area = length pre + length (tlv_area_bytes prot es)"
    "tlv_iter area = Some (map (\<lambda>e. Ok (as_tlv True e)) (prot_entries prot) @ map (\<lambda>e. Ok (as_tlv False e)) es @
      (if prot \<noteq> None \<and> es = [] then [Err TlvTruncated] else []))"
    "\<And>kind. tlv_find area kind = Some (map_of (prot_entries prot @ es) kind)"
proof -
  have p: "prot_len prot < 2 ^ 16"
  proof -
    have "unat (ih_protect_tlv_size h) < 2 ^ LENGTH(16)" by (rule unsigned_less)
    then show ?thesis using assms(3) by simp
  qed
  note it = tlv_iter_area [OF refl p assms(4), of pre rest]
  note rd = tlv_find_iter [OF it]
  have "items_ok (map (\<lambda>e. Ok (as_tlv True e)) (prot_entries prot) @ map (\<lambda>e. Ok (as_tlv False e)) es @
      (if prot \<noteq> None \<and> es = [] then [Err TlvTruncated] else [])) =
      map (as_tlv True) (prot_entries prot) @ map (as_tlv False) es"
    by simp
  then have fd: "tlv_find area kind = Some (map_of (prot_entries prot @ es) kind)"
    if "tlv_parse (pre @ tlv_area_bytes prot es @ rest) h = Ok area" for area kind
    using that rd [of kind] find_map_of [of kind True "prot_entries prot" False es]
    unfolding tlv_parse_area [OF assms] by simp
  obtain area where area: "tlv_parse (pre @ tlv_area_bytes prot es @ rest) h = Ok area"
    using tlv_parse_area [OF assms] by blast
  moreover have "ta_start area = length pre" "ta_stop area = length pre + length (tlv_area_bytes prot es)"
    using area unfolding tlv_parse_area [OF assms] by auto
  moreover have "tlv_iter area = Some (map (\<lambda>e. Ok (as_tlv True e)) (prot_entries prot) @ map (\<lambda>e. Ok (as_tlv False e)) es @
      (if prot \<noteq> None \<and> es = [] then [Err TlvTruncated] else []))"
    using area it unfolding tlv_parse_area [OF assms] by simp
  ultimately show thesis using fd that by blast
qed

text \<open>Property C30. Whatever entries an area is written with, in a protected part, an unprotected part or
  both, the code reads back exactly them: \<open>parse\<close> finds the area behind the body and its end, the
  iterator gives the protected entries and then the others, in order, and \<open>find\<close> gives the value of the
  first entry of a kind. The one exception is a protected part followed by an empty unprotected one, where the
  iterator ends with \<open>Truncated\<close>, as its offset lands behind the area.\<close>

theorem tlv_area_reads_back:
  assumes "tlv_off h = Some off" "unat off = length pre"
    and "unat (ih_protect_tlv_size h) = prot_len prot" "part_len es < 2 ^ 16"
  shows "\<exists>area. tlv_parse (pre @ tlv_area_bytes prot es @ rest) h = Ok area \<and>
    ta_start area = length pre \<and> ta_stop area = length pre + length (tlv_area_bytes prot es) \<and>
    tlv_iter area = Some (map (\<lambda>e. Ok (as_tlv True e)) (prot_entries prot) @ map (\<lambda>e. Ok (as_tlv False e)) es @
      (if prot \<noteq> None \<and> es = [] then [Err TlvTruncated] else [])) \<and>
    (\<forall>kind. tlv_find area kind = Some (map_of (prot_entries prot @ es) kind))"
  using assms by (rule tlv_area_parsed) blast

theorem tlv_area_reads_back_witness:
  "\<exists>area. tlv_parse ([1, 2] @ tlv_area_bytes None [(KEYHASH, [7])] @ [9])
      (image_header_new 2 \<lparr>iv_major = 0, iv_minor = 0, iv_revision = 0, iv_build_num = 0\<rparr>\<lparr>ih_hdr_size := 0\<rparr>) = Ok area \<and>
    tlv_find area KEYHASH = Some (Some [7])"
  using tlv_area_reads_back [of "image_header_new 2 \<lparr>iv_major = 0, iv_minor = 0, iv_revision = 0, iv_build_num = 0\<rparr>\<lparr>ih_hdr_size := 0\<rparr>"
      2 "[1, 2]" None "[(KEYHASH, [7])]" "[9]"]
  by (auto simp: tlv_off_def image_header_new_def prot_len_def prot_entries_def part_len_def INFO_SIZE_def)

section \<open>Reading an area of any image\<close>

definition area_wf :: "TlvArea \<Rightarrow> bool" where
  "area_wf area \<longleftrightarrow> ta_stop area \<le> length (ta_image area) \<and> ta_first area = ta_start area + INFO_SIZE \<and>
     ta_start area \<le> ta_prot_end area \<and> ta_prot_end area \<le> ta_stop area"

text \<open>An item is read from the image at an offset of the area.\<close>

definition read_from :: "TlvArea \<Rightarrow> Tlv \<Rightarrow> nat \<Rightarrow> bool" where
  "read_from area t p \<longleftrightarrow> ta_first area \<le> p \<and> p + ENTRY_SIZE + length (tlv_value t) \<le> ta_stop area \<and>
     tlv_value t = subslice (ta_image area) (p + ENTRY_SIZE) (length (tlv_value t)) \<and>
     tlv_kind t = from_le (subslice (ta_image area) p 2) \<and> tlv_protected t = (p < ta_prot_end area)"

lemma tlv_parse_wf: "tlv_parse img h = Ok area \<Longrightarrow> area_wf area \<and> ta_image area = img"
  by (auto simp: tlv_parse_def tlv_parse_info_def area_wf_def Let_def split: option.splits result.splits if_splits)

lemma tlv_item_wf:
  assumes "area_wf area" "ta_first area \<le> off"
  shows "(\<exists>e. tlv_item area off = Some (Err e)) \<or>
    (\<exists>t. tlv_item area off = Some (Ok (t, off + ENTRY_SIZE + length (tlv_value t))) \<and> read_from area t off)"
proof -
  have "2 \<le> length b \<Longrightarrow> range_at (ta_image area) off (off + 4) = Some b \<Longrightarrow>
      [b ! 0, b ! 1] = subslice (ta_image area) off 2" for b
    by (auto simp: range_at_def subslice_2 split: if_splits)
  then show ?thesis
    using assms
    by (auto simp: tlv_item_def tlv_pair_def area_wf_def read_from_def range_at_def ENTRY_SIZE_def subslice_2 Let_def
        split: option.splits result.splits if_splits)
qed

lemma tlv_next_wf:
  assumes "area_wf area" "ta_first area \<le> off"
  obtains "tlv_next area off = Some (None, off)"
  | e where "tlv_next area off = Some (Some (Err e), ta_stop area)"
  | t p where "tlv_next area off = Some (Some (Ok t), p + ENTRY_SIZE + length (tlv_value t))" "read_from area t p" "off \<le> p"
proof -
  let ?p = "if ta_prot_end area \<noteq> ta_start area \<and> off = ta_prot_end area then off + INFO_SIZE else off"
  show thesis
  proof (cases "ta_stop area \<le> off")
    case True
    then show ?thesis using that(1) by (simp add: tlv_next_def)
  next
    case False
    consider e where "tlv_item area ?p = Some (Err e)"
      | t where "tlv_item area ?p = Some (Ok (t, ?p + ENTRY_SIZE + length (tlv_value t)))" "read_from area t ?p"
      using tlv_item_wf [OF assms(1), of ?p] assms(2) by fastforce
    then show ?thesis
    proof cases
      case 1
      with False show ?thesis using that(2) by (simp add: tlv_next_def Let_def)
    next
      case 2
      with False have "tlv_next area off = Some (Some (Ok t), ?p + ENTRY_SIZE + length (tlv_value t))"
        by (simp add: tlv_next_def Let_def)
      with 2(2) show ?thesis using that(3) [of t ?p] by simp
    qed
  qed
qed

text \<open>The offsets the items were read at, one entry behind the other, and an error only at the end.\<close>

fun items_at :: "TlvArea \<Rightarrow> nat \<Rightarrow> (TlvError, Tlv) result list \<Rightarrow> bool" where
  "items_at area off [] = True"
| "items_at area off (Err e # rs) = (rs = [])"
| "items_at area off (Ok t # rs) = (\<exists>p\<ge>off. read_from area t p \<and> items_at area (p + ENTRY_SIZE + length (tlv_value t)) rs)"

lemma tlv_items_wf:
  "area_wf area \<Longrightarrow> ta_first area \<le> off \<Longrightarrow> \<exists>rs. tlv_items area off = Some rs \<and> items_at area off rs"
proof (induction area off rule: tlv_items.induct)
  case (1 area off)
  show ?case
  proof (rule tlv_next_wf [OF 1(2,3)])
    assume "tlv_next area off = Some (None, off)"
    then show ?thesis by (subst tlv_items.simps) simp
  next
    fix e assume "tlv_next area off = Some (Some (Err e), ta_stop area)"
    then show ?thesis by (subst tlv_items.simps) (simp add: tlv_items_stop)
  next
    fix t p assume n: "tlv_next area off = Some (Some (Ok t), p + ENTRY_SIZE + length (tlv_value t))"
      and r: "read_from area t p" "off \<le> p"
    obtain rs where "tlv_items area (p + ENTRY_SIZE + length (tlv_value t)) = Some rs"
      "items_at area (p + ENTRY_SIZE + length (tlv_value t)) rs"
      using 1(1) [OF n refl refl 1(2)] 1(3) r by auto
    then show ?thesis using n r by (subst tlv_items.simps) auto
  qed
qed

text \<open>The bytes the entries take, and that at most one error follows them.\<close>

definition entries_size :: "Tlv list \<Rightarrow> nat" where
  "entries_size ts = sum_list (map (\<lambda>t. ENTRY_SIZE + length (tlv_value t)) ts)"

lemma entries_size_count: "ENTRY_SIZE * length ts \<le> entries_size ts"
  by (induction ts) (simp_all add: entries_size_def)

lemma items_at_bound: "items_at area off rs \<Longrightarrow> off \<le> ta_stop area \<Longrightarrow> entries_size (items_ok rs) \<le> ta_stop area - off"
proof (induction area off rs rule: items_at.induct)
  case (3 area off t rs)
  then obtain p where "off \<le> p" "read_from area t p" "items_at area (p + ENTRY_SIZE + length (tlv_value t)) rs" by auto
  with 3(1) [of p] show ?case by (auto simp: read_from_def entries_size_def)
qed (simp_all add: entries_size_def)

lemma items_at_length: "items_at area off rs \<Longrightarrow> length rs \<le> Suc (length (items_ok rs))"
  by (induction area off rs rule: items_at.induct) auto

text \<open>Property C31. Reading is safe on every image and header, also malformed ones: when \<open>parse\<close> accepts an
  area, it lies inside the image, the iterator ends and never indexes out of range, the entries it gives are
  read at increasing offsets of the area without overlap, an error is the last item, the entries with their
  headers fit together in the area after its first info header (so there are at most as many entries as headers of four bytes fit
  there, and with an error at the end one item more), and \<open>find\<close> gives the first entry of a kind before the error.\<close>

theorem tlv_reads_in_bounds:
  assumes "tlv_parse img h = Ok area"
  shows "ta_start area \<le> ta_stop area \<and> ta_stop area \<le> length img \<and>
    (\<exists>rs. tlv_iter area = Some rs \<and> items_at area (ta_first area) rs \<and>
      entries_size (items_ok rs) \<le> ta_stop area - ta_first area \<and>
      ENTRY_SIZE * length (items_ok rs) \<le> ta_stop area - ta_first area \<and> length rs \<le> Suc (length (items_ok rs)) \<and>
      (\<forall>kind. tlv_find area kind = Some (map_option tlv_value (find (\<lambda>t. tlv_kind t = kind) (items_ok rs)))))"
proof -
  have wf: "area_wf area" "ta_image area = img" using tlv_parse_wf [OF assms] by simp_all
  obtain rs where rs: "tlv_iter area = Some rs" "items_at area (ta_first area) rs"
    using tlv_items_wf [OF wf(1), of "ta_first area"] by (auto simp: tlv_iter_def)
  have "entries_size (items_ok rs) \<le> ta_stop area - ta_first area"
  proof (cases "ta_first area \<le> ta_stop area")
    case True
    then show ?thesis using items_at_bound [OF rs(2)] by simp
  next
    case False
    then have "rs = []" using rs(1) by (simp add: tlv_iter_def tlv_items_stop)
    then show ?thesis by (simp add: entries_size_def)
  qed
  then show ?thesis
    using rs tlv_find_iter [OF rs(1)] wf entries_size_count [of "items_ok rs"] items_at_length [OF rs(2)]
    by (auto simp: area_wf_def)
qed

theorem tlv_reads_in_bounds_witness:
  "\<exists>area rs. tlv_parse [7, 0x69, 8, 0, 1, 0, 9, 0]
      (image_header_new 0 \<lparr>iv_major = 0, iv_minor = 0, iv_revision = 0, iv_build_num = 0\<rparr>\<lparr>ih_hdr_size := 0\<rparr>) = Ok area \<and>
    tlv_iter area = Some rs"
proof -
  let ?h = "image_header_new 0 \<lparr>iv_major = 0, iv_minor = 0, iv_revision = 0, iv_build_num = 0\<rparr>\<lparr>ih_hdr_size := 0\<rparr>"
  have "\<exists>area. tlv_parse [7, 0x69, 8, 0, 1, 0, 9, 0] ?h = Ok area"
    by (simp add: tlv_parse_def tlv_parse_info_def tlv_pair_def tlv_off_def image_header_new_def range_at_def subslice_def
        INFO_MAGIC_def PROT_INFO_MAGIC_def INFO_SIZE_def Let_def)
  then show ?thesis using tlv_reads_in_bounds [of "[7, 0x69, 8, 0, 1, 0, 9, 0]" ?h] by blast
qed

section \<open>The encoders write areas\<close>

lemma tlv_info_put: "4 \<le> length out \<Longrightarrow> tlv_info out (of_nat n) = Some (put out 0 (info_wire INFO_MAGIC n), INFO_SIZE)"
  by (simp add: tlv_info_def info_wire_def buf_simps put_put_seq del: to_le_numeral)

lemma tlv_entry_put:
  "at + 4 + length v \<le> length out \<Longrightarrow>
   tlv_entry out at kind v = Some (put out at (entry_wire (kind, v)), at + ENTRY_SIZE + length v)"
  by (simp add: tlv_entry_def entry_wire_def ENTRY_SIZE_def buf_simps put_put_seq del: to_le_numeral)

lemma encode_unsigned_wire:
  assumes "length sha = 32"
  shows "encode_unsigned sha = Some (tlv_area_bytes None [(SHA256, sha)])"
  using assms
  by (simp add: encode_unsigned_def tlv_info_put tlv_entry_put tlv_sizes put_put_seq del: of_nat_numeral)
    (subst put_all, simp_all add: tlv_area_bytes_def part_wire_def part_len_def INFO_SIZE_def)

lemma encode_ed25519_wire:
  assumes "length sha = 32" "length keyhash = 32" "length sig = 64"
  shows "encode_ed25519 sha keyhash sig = Some (tlv_area_bytes None [(SHA256, sha), (KEYHASH, keyhash), (ED25519, sig)])"
  using assms
  by (simp add: encode_ed25519_def tlv_info_put tlv_entry_put tlv_sizes put_put_seq del: of_nat_numeral)
    (subst put_all, simp_all add: tlv_area_bytes_def part_wire_def part_len_def INFO_SIZE_def)

end
