(* ===== verification/Mcuboot_Trailer.thy ===== *)
theory Mcuboot_Trailer
  imports BM_Prelude
begin

text \<open>
  The crate \<open>bm-mcuboot\<close>, \<open>trailer.rs\<close>: where the fields at the end of a slot are, how they are read,
  and the two operations a running image has on them, marking the secondary slot for a swap
  (\<open>set_pending\<close>) and keeping the image in the primary one (\<open>set_confirmed\<close>). \<open>swap_type\<close> is the
  decision of the boot loader over both trailers.

  The trait \<open>Flash\<close> is the record \<open>Flash\<close> of its three methods over a state of the implementation;
  \<open>&mut buf\<close> is an argument and a result. The repository's implementation on bytes in RAM
  (\<open>bm-mcuboot-diff\<close>, \<open>RamSlot\<close>) is modelled at the end. The locale \<open>slot_flash\<close> is what the two
  operations rely on; \<open>RamSlot\<close> is its interpretation. Arithmetic on \<open>u32\<close> that would overflow is a
  panic, \<^const>\<open>None\<close>.
\<close>

section \<open>Constants and errors\<close>

definition MAGIC_SIZE :: nat where "MAGIC_SIZE = 16"
definition ERASED :: u8 where "ERASED = 0xFF"
definition FLAG_SET :: u8 where "FLAG_SET = 1"
definition MAX_ALIGN :: nat where "MAX_ALIGN = 32"

definition MAGIC_ALIGN_8 :: bytes where
  "MAGIC_ALIGN_8 = [0x77, 0xc2, 0x95, 0xf3, 0x60, 0xd2, 0xef, 0x7f, 0x35, 0x52, 0x50, 0x0f, 0x2c, 0xb6, 0x79, 0x80]"

definition MAGIC_TAIL :: bytes where
  "MAGIC_TAIL = [0x2d, 0xe1, 0x5d, 0x29, 0x41, 0x0b, 0x8d, 0x77, 0x67, 0x9c, 0x11, 0x0f, 0x1f, 0x8a]"

datatype FlashError = FlashError

record 'f Flash =
  fl_read :: "'f \<Rightarrow> u32 \<Rightarrow> bytes \<Rightarrow> 'f \<times> bytes \<times> (FlashError, unit) result"
  fl_write :: "'f \<Rightarrow> u32 \<Rightarrow> bytes \<Rightarrow> 'f \<times> (FlashError, unit) result"
  fl_erase :: "'f \<Rightarrow> u32 \<Rightarrow> u32 \<Rightarrow> 'f \<times> (FlashError, unit) result"

datatype BootError = FlashFailed | BadImage | BadVect

fun boot_error_code :: "BootError \<Rightarrow> int" where
  "boot_error_code FlashFailed = 1"
| "boot_error_code BadImage = 3"
| "boot_error_code BadVect = 4"

definition boot_error_from :: "FlashError \<Rightarrow> BootError" where "boot_error_from e = FlashFailed"

section \<open>The layout\<close>

definition u32_add :: "u32 \<Rightarrow> u32 \<Rightarrow> u32 option" where
  "u32_add a b = (if unat a + unat b < 2 ^ 32 then Some (a + b) else None)"

definition u32_sub :: "u32 \<Rightarrow> u32 \<Rightarrow> u32 option" where
  "u32_sub a b = (if b \<le> a then Some (a - b) else None)"

definition u32_mul :: "u32 \<Rightarrow> u32 \<Rightarrow> u32 option" where
  "u32_mul a b = (if unat a * unat b < 2 ^ 32 then Some (a * b) else None)"

record Trailer =
  tr_slot_size :: u32
  tr_align :: u32

definition BM_TRAILER :: Trailer where "BM_TRAILER = \<lparr>tr_slot_size = 0xF2000, tr_align = 16\<rparr>"

definition magic_align_size :: "Trailer \<Rightarrow> u32" where
  "magic_align_size t = (if tr_align t > of_nat MAGIC_SIZE then tr_align t else of_nat MAGIC_SIZE)"

definition trailer_info_size :: "Trailer \<Rightarrow> u32 option" where
  "trailer_info_size t = do { fields \<leftarrow> u32_mul (tr_align t) 4; u32_add fields (magic_align_size t) }"

definition trailer_new :: "u32 \<Rightarrow> u32 \<Rightarrow> Trailer option option" where
  "trailer_new slot_size align = (
     if align \<notin> {8, 16, 32} \<or> slot_size mod align \<noteq> 0 then Some None
     else do {
       let t = \<lparr>tr_slot_size = slot_size, tr_align = align\<rparr>;
       n \<leftarrow> trailer_info_size t;
       Some (if slot_size < n then None else Some t)
     })"

text \<open>In the next two \<^term>\<open>Some None\<close> is the \<open>None\<close> the code returns.\<close>

definition trailer_size :: "Trailer \<Rightarrow> u32 \<Rightarrow> u32 option option" where
  "trailer_size t max_sectors = do {
     entry \<leftarrow> u32_mul 3 (tr_align t);
     case u32_mul max_sectors entry of
       Some status \<Rightarrow> do { info \<leftarrow> trailer_info_size t; Some (u32_add status info) }
     | None \<Rightarrow> Some None
   }"

definition trailer_status_off :: "Trailer \<Rightarrow> u32 \<Rightarrow> u32 option option" where
  "trailer_status_off t max_sectors = do {
     size \<leftarrow> trailer_size t max_sectors;
     Some (case size of Some n \<Rightarrow> u32_sub (tr_slot_size t) n | None \<Rightarrow> None)
   }"

definition magic_off :: "Trailer \<Rightarrow> u32 option" where
  "magic_off t = u32_sub (tr_slot_size t) (of_nat MAGIC_SIZE)"

definition image_ok_off :: "Trailer \<Rightarrow> u32 option" where
  "image_ok_off t = do {
     m \<leftarrow> magic_off t;
     below \<leftarrow> u32_sub m (tr_align t);
     low \<leftarrow> u32_sub (tr_align t) 1;
     Some (below AND NOT low)
   }"

definition copy_done_off :: "Trailer \<Rightarrow> u32 option" where
  "copy_done_off t = do { off \<leftarrow> image_ok_off t; u32_sub off (tr_align t) }"

definition swap_info_off :: "Trailer \<Rightarrow> u32 option" where
  "swap_info_off t = do { off \<leftarrow> copy_done_off t; u32_sub off (tr_align t) }"

definition swap_size_off :: "Trailer \<Rightarrow> u32 option" where
  "swap_size_off t = do { off \<leftarrow> swap_info_off t; u32_sub off (tr_align t) }"

definition trailer_magic :: "Trailer \<Rightarrow> bytes" where
  "trailer_magic t = (if tr_align t = 8 then MAGIC_ALIGN_8
     else to_le 2 (ucast (tr_align t) :: u16) @ MAGIC_TAIL)"

section \<open>Reading the fields\<close>

datatype Magic = MagicGood | MagicBad | MagicUnset
datatype Flag = FlagSet | FlagBad | FlagUnset
datatype SwapType = SwapNone | SwapTest | SwapPerm | SwapRevert

fun swap_type_code :: "SwapType \<Rightarrow> u8" where
  "swap_type_code SwapNone = 1"
| "swap_type_code SwapTest = 2"
| "swap_type_code SwapPerm = 3"
| "swap_type_code SwapRevert = 4"

record SwapState =
  ss_magic :: Magic
  ss_swap_type :: u8
  ss_image_num :: u8
  ss_copy_done :: Flag
  ss_image_ok :: Flag

type_synonym ('f, 'a) flash_result = "('f \<times> (BootError, 'a) result) option"

text \<open>The question mark after a flash operation.\<close>

definition flash_try :: "('f, 'a) flash_result \<Rightarrow> ('a \<Rightarrow> 'f \<Rightarrow> ('f, 'b) flash_result) \<Rightarrow> ('f, 'b) flash_result" where
  "flash_try m k = (case m of
     None \<Rightarrow> None
   | Some (f, Err e) \<Rightarrow> Some (f, Err e)
   | Some (f, Ok a) \<Rightarrow> k a f)"

definition flash_read :: "'f Flash \<Rightarrow> u32 \<Rightarrow> bytes \<Rightarrow> 'f \<Rightarrow> ('f, bytes) flash_result" where
  "flash_read F off buf f = (case fl_read F f off buf of
     (f, buf, Ok _) \<Rightarrow> Some (f, Ok buf)
   | (f, _, Err e) \<Rightarrow> Some (f, Err (boot_error_from e)))"

definition flash_write :: "'f Flash \<Rightarrow> u32 \<Rightarrow> bytes \<Rightarrow> 'f \<Rightarrow> ('f, unit) flash_result" where
  "flash_write F off data f = (case fl_write F f off data of
     (f, Ok _) \<Rightarrow> Some (f, Ok ())
   | (f, Err e) \<Rightarrow> Some (f, Err (boot_error_from e)))"

definition classify_magic :: "Trailer \<Rightarrow> bytes \<Rightarrow> Magic" where
  "classify_magic t magic = (
     if magic = replicate MAGIC_SIZE ERASED then MagicUnset
     else if magic = trailer_magic t then MagicGood
     else MagicBad)"

definition split_swap_info :: "u8 \<Rightarrow> u8 \<times> u8" where
  "split_swap_info info = (
     if info = ERASED \<or> info AND 0x0F > swap_type_code SwapRevert then (swap_type_code SwapNone, 0)
     else (info AND 0x0F, drop_bit 4 info))"

definition classify_flag :: "u8 \<Rightarrow> Flag" where
  "classify_flag b = (if b = ERASED then FlagUnset else if b = FLAG_SET then FlagSet else FlagBad)"

definition read_flag :: "'f Flash \<Rightarrow> u32 \<Rightarrow> 'f \<Rightarrow> ('f, Flag) flash_result" where
  "read_flag F off f = flash_try (flash_read F off [0] f) (\<lambda>flag f. do {
     b \<leftarrow> get_at flag 0;
     Some (f, Ok (classify_flag b))
   })"

definition read_swap_state :: "'f Flash \<Rightarrow> Trailer \<Rightarrow> 'f \<Rightarrow> ('f, SwapState) flash_result" where
  "read_swap_state F t f = do {
     m_off \<leftarrow> magic_off t;
     flash_try (flash_read F m_off (replicate MAGIC_SIZE 0) f) (\<lambda>magic f. do {
       s_off \<leftarrow> swap_info_off t;
       flash_try (flash_read F s_off [0] f) (\<lambda>info f. do {
         info \<leftarrow> get_at info 0;
         c_off \<leftarrow> copy_done_off t;
         flash_try (read_flag F c_off f) (\<lambda>copy_done f. do {
           i_off \<leftarrow> image_ok_off t;
           flash_try (read_flag F i_off f) (\<lambda>image_ok f.
             Some (f, Ok \<lparr>ss_magic = classify_magic t magic, ss_swap_type = fst (split_swap_info info),
               ss_image_num = snd (split_swap_info info), ss_copy_done = copy_done, ss_image_ok = image_ok\<rparr>))
         })
       })
     })
   }"

section \<open>Writing\<close>

definition write_magic :: "'f Flash \<Rightarrow> Trailer \<Rightarrow> 'f \<Rightarrow> ('f, unit) flash_result" where
  "write_magic F t f = do {
     let len = unat (magic_align_size t);
     buf \<leftarrow> copy_at (replicate MAX_ALIGN ERASED) (len - MAGIC_SIZE) (trailer_magic t);
     m_off \<leftarrow> magic_off t;
     low \<leftarrow> u32_sub (tr_align t) 1;
     block \<leftarrow> range_at buf 0 len;
     flash_write F (m_off AND NOT low) block f
   }"

definition write_byte :: "'f Flash \<Rightarrow> Trailer \<Rightarrow> u32 \<Rightarrow> u8 \<Rightarrow> 'f \<Rightarrow> ('f, unit) flash_result" where
  "write_byte F t off b f = do {
     buf \<leftarrow> set_at (replicate MAX_ALIGN ERASED) 0 b;
     block \<leftarrow> range_at buf 0 (unat (tr_align t));
     flash_write F off block f
   }"

definition set_pending :: "'f Flash \<Rightarrow> Trailer \<Rightarrow> bool \<Rightarrow> 'f \<Rightarrow> ('f, unit) flash_result" where
  "set_pending F t permanent f = flash_try (read_swap_state F t f) (\<lambda>state f.
     case ss_magic state of
       MagicGood \<Rightarrow> Some (f, Ok ())
     | MagicUnset \<Rightarrow>
         flash_try (write_magic F t f) (\<lambda>_ f.
         flash_try (if permanent then do { off \<leftarrow> image_ok_off t; write_byte F t off FLAG_SET f } else Some (f, Ok ())) (\<lambda>_ f. do {
           off \<leftarrow> swap_info_off t;
           write_byte F t off (swap_type_code (if permanent then SwapPerm else SwapTest)) f
         }))
     | MagicBad \<Rightarrow> Some (fst (fl_erase F f 0 (tr_slot_size t)), Err BadImage))"

definition set_confirmed :: "'f Flash \<Rightarrow> Trailer \<Rightarrow> 'f \<Rightarrow> ('f, unit) flash_result" where
  "set_confirmed F t f = flash_try (read_swap_state F t f) (\<lambda>state f.
     case ss_magic state of
       MagicUnset \<Rightarrow> Some (f, Ok ())
     | MagicBad \<Rightarrow> Some (f, Err BadVect)
     | MagicGood \<Rightarrow>
         if ss_image_ok state \<noteq> FlagUnset then Some (f, Ok ())
         else do { off \<leftarrow> image_ok_off t; write_byte F t off FLAG_SET f })"

definition swap_type :: "SwapState \<Rightarrow> SwapState \<Rightarrow> SwapType" where
  "swap_type primary secondary = (
     if ss_magic secondary = MagicGood \<and> ss_image_ok secondary = FlagUnset then SwapTest
     else if ss_magic secondary = MagicGood \<and> ss_image_ok secondary = FlagSet then SwapPerm
     else if ss_magic primary = MagicGood \<and> ss_magic secondary = MagicUnset \<and>
       ss_image_ok primary = FlagUnset \<and> ss_copy_done primary = FlagSet then SwapRevert
     else SwapNone)"

section \<open>The slot in RAM\<close>

text \<open>\<open>RamSlot\<close>: a write clears bits, as flash does, and fails when the bytes do not read back as given;
  the page size is the constant of \<open>bm-mcuboot-sys\<close>.\<close>

definition PAGE_SIZE :: u32 where "PAGE_SIZE = 0x2000"

definition ram_range :: "bytes \<Rightarrow> u32 \<Rightarrow> nat \<Rightarrow> (FlashError, nat \<times> nat) result" where
  "ram_range bytes off n = (if unat off + n \<le> length bytes then Ok (unat off, unat off + n) else Err FlashError)"

definition ram_read :: "bytes \<Rightarrow> u32 \<Rightarrow> bytes \<Rightarrow> bytes \<times> bytes \<times> (FlashError, unit) result" where
  "ram_read bytes off buf = (case ram_range bytes off (length buf) of
     Ok (a, b) \<Rightarrow> (bytes, subslice bytes a (b - a), Ok ())
   | Err e \<Rightarrow> (bytes, buf, Err e))"

definition ram_write :: "bytes \<Rightarrow> u32 \<Rightarrow> bytes \<Rightarrow> bytes \<times> (FlashError, unit) result" where
  "ram_write bytes off data = (case ram_range bytes off (length data) of
     Ok (a, b) \<Rightarrow>
       let dst = map2 (\<lambda>d s. d AND s) (subslice bytes a (b - a)) data in
       (put bytes a dst, if dst = data then Ok () else Err FlashError)
   | Err e \<Rightarrow> (bytes, Err e))"

definition ram_erase :: "bytes \<Rightarrow> u32 \<Rightarrow> u32 \<Rightarrow> bytes \<times> (FlashError, unit) result" where
  "ram_erase bytes off n = (
     if off mod PAGE_SIZE \<noteq> 0 \<or> n mod PAGE_SIZE \<noteq> 0 then (bytes, Err FlashError)
     else case ram_range bytes off (unat n) of
       Ok (a, b) \<Rightarrow> (put bytes a (replicate (b - a) 0xFF), Ok ())
     | Err e \<Rightarrow> (bytes, Err e))"

definition ram_slot :: "bytes Flash" where
  "ram_slot = \<lparr>fl_read = ram_read, fl_write = ram_write, fl_erase = ram_erase\<rparr>"

section \<open>Where the fields are\<close>

lemma align_down: "unat (x AND NOT (mask k) :: u32) = unat x - unat x mod 2 ^ k"
proof -
  have "x AND NOT (mask k) = push_bit k (drop_bit k x)"
    by (rule bit_word_eqI) (auto simp: bit_simps)
  moreover have "unat (push_bit k (drop_bit k x)) = take_bit 32 (push_bit k (drop_bit k (unat x)))"
    using unsigned_less [of x, where ?'a = nat]
    by (simp only: unsigned_push_bit_eq unsigned_drop_bit_eq) (simp add: take_bit_nat_eq_self)
  ultimately have "unat (x AND NOT (mask k)) = take_bit 32 (unat x div 2 ^ k * 2 ^ k)"
    by (simp add: push_bit_eq_mult drop_bit_eq_div)
  moreover have "unat x div 2 ^ k * 2 ^ k = unat x - unat x mod 2 ^ k" by (simp add: minus_mod_eq_div_mult)
  moreover have "unat x - unat x mod 2 ^ k < 2 ^ 32"
    using unsigned_less [of x, where ?'a = nat] by (simp add: less_imp_diff_less)
  ultimately show ?thesis by (simp add: take_bit_nat_eq_self)
qed

text \<open>The trailers \<open>Trailer::new\<close> makes; the fields are private, and \<open>BM\<close> is one of them.\<close>

definition trailer_wf :: "Trailer \<Rightarrow> bool" where
  "trailer_wf t \<longleftrightarrow> tr_align t \<in> {8, 16, 32} \<and> unat (tr_slot_size t) mod unat (tr_align t) = 0 \<and>
     4 * unat (tr_align t) + max 16 (unat (tr_align t)) \<le> unat (tr_slot_size t)"

text \<open>The offsets as numbers, counted from the end of the slot. \<open>info_size_of\<close> is where the fields begin.\<close>

definition top_of :: "Trailer \<Rightarrow> nat" where
  "top_of t = unat (tr_slot_size t) - max 16 (unat (tr_align t))"

definition image_ok_at :: "Trailer \<Rightarrow> nat" where "image_ok_at t = top_of t - unat (tr_align t)"
definition copy_done_at :: "Trailer \<Rightarrow> nat" where "copy_done_at t = top_of t - 2 * unat (tr_align t)"
definition swap_info_at :: "Trailer \<Rightarrow> nat" where "swap_info_at t = top_of t - 3 * unat (tr_align t)"
definition swap_size_at :: "Trailer \<Rightarrow> nat" where "swap_size_at t = top_of t - 4 * unat (tr_align t)"
definition magic_at :: "Trailer \<Rightarrow> nat" where "magic_at t = unat (tr_slot_size t) - 16"

lemmas trailer_at_defs = top_of_def image_ok_at_def copy_done_at_def swap_info_at_def swap_size_at_def magic_at_def

lemma trailer_wf_cases:
  assumes "trailer_wf t"
  obtains (a8) q where "tr_align t = 8" "unat (tr_slot_size t) = 48 + 8 * q"
  | (a16) q where "tr_align t = 16" "unat (tr_slot_size t) = 80 + 16 * q"
  | (a32) q where "tr_align t = 32" "unat (tr_slot_size t) = 160 + 32 * q"
proof -
  let ?S = "unat (tr_slot_size t)" and ?A = "unat (tr_align t)" and ?m = "4 * unat (tr_align t) + max 16 (unat (tr_align t))"
  have dvd: "?A dvd ?S" "?A dvd ?m" and le: "?m \<le> ?S" using assms by (auto simp: trailer_wf_def mod_eq_0_iff_dvd)
  obtain q where "?S - ?m = ?A * q" using dvd_diff_nat [OF dvd] by blast
  then have "?S = ?m + ?A * q" using le by simp
  then show thesis using assms that by (auto simp: trailer_wf_def)
qed

lemma unat_u32: "n < 2 ^ 32 \<Longrightarrow> unat (of_nat n :: u32) = n"
  by (simp add: unsigned_of_nat take_bit_nat_eq_self)

lemma u32_sub_nat:
  assumes "n \<le> m" "m < 2 ^ 32"
  shows "u32_sub (of_nat m) (of_nat n) = Some (of_nat (m - n))"
  using assms by (simp add: u32_sub_def word_le_nat_alt unat_u32 of_nat_diff)

lemma slot_size_less: "unat (tr_slot_size t) < 2 ^ 32"
proof -
  have "unat (tr_slot_size t) < 2 ^ LENGTH(32)" by (rule unsigned_less)
  then show ?thesis by simp
qed

lemma magic_off_at:
  assumes "trailer_wf t"
  shows "magic_off t = Some (of_nat (magic_at t))"
proof -
  have "16 \<le> unat (tr_slot_size t)" using assms by (auto simp: trailer_wf_def)
  then show ?thesis using u32_sub_nat [OF _ slot_size_less, of 16 t]
    by (simp add: magic_off_def magic_at_def MAGIC_SIZE_def)
qed

lemma align_down_nat:
  assumes "trailer_wf t" "n < 2 ^ 32"
  shows "(of_nat n :: u32) AND NOT (tr_align t - 1) = of_nat (n - n mod unat (tr_align t))"
proof -
  obtain k where k: "tr_align t - 1 = mask k" "unat (tr_align t) = 2 ^ k"
  proof -
    have "tr_align t - 1 = mask 3 \<and> unat (tr_align t) = 2 ^ 3 \<or> tr_align t - 1 = mask 4 \<and> unat (tr_align t) = 2 ^ 4 \<or>
        tr_align t - 1 = mask 5 \<and> unat (tr_align t) = 2 ^ 5"
      using assms(1) by (auto simp: trailer_wf_def mask_eq_exp_minus_1)
    then show thesis using that by blast
  qed
  have "unat ((of_nat n :: u32) AND NOT (mask k)) = n - n mod 2 ^ k"
    using align_down [of "of_nat n" k] unat_u32 [OF assms(2)] by simp
  then have "(of_nat (unat ((of_nat n :: u32) AND NOT (mask k))) :: u32) = of_nat (n - n mod 2 ^ k)" by (simp only:)
  then show ?thesis unfolding k by simp
qed

lemma align_sub_1: "trailer_wf t \<Longrightarrow> u32_sub (tr_align t) 1 = Some (tr_align t - 1)"
  by (auto simp: u32_sub_def trailer_wf_def)

lemma image_ok_off_at:
  assumes "trailer_wf t"
  shows "image_ok_off t = Some (of_nat (image_ok_at t))"
proof -
  let ?n = "magic_at t - unat (tr_align t)"
  have b: "unat (tr_align t) \<le> magic_at t" "magic_at t < 2 ^ 32"
    using assms slot_size_less [of t] by (auto simp: trailer_wf_def magic_at_def)
  have "?n - ?n mod unat (tr_align t) = image_ok_at t"
    using assms by (cases rule: trailer_wf_cases) (simp_all add: magic_at_def image_ok_at_def top_of_def)
  moreover have "u32_sub (of_nat (magic_at t)) (tr_align t) = Some (of_nat ?n)"
    using u32_sub_nat [OF b] by simp
  ultimately show ?thesis
    using magic_off_at [OF assms] align_sub_1 [OF assms] align_down_nat [OF assms, of ?n] b(2)
    by (simp add: image_ok_off_def)
qed

lemma field_off_at:
  assumes "trailer_wf t"
  shows "copy_done_off t = Some (of_nat (copy_done_at t))" (is ?c)
    and "swap_info_off t = Some (of_nat (swap_info_at t))" (is ?i)
    and "swap_size_off t = Some (of_nat (swap_size_at t))" (is ?s)
proof -
  let ?A = "unat (tr_align t)"
  have b: "4 * ?A \<le> top_of t" "top_of t < 2 ^ 32"
    using assms slot_size_less [of t] by (auto simp: trailer_wf_def top_of_def)
  have step: "u32_sub (of_nat (top_of t - m)) (tr_align t) = Some (of_nat (top_of t - (m + ?A)))"
    if "m + ?A \<le> 4 * ?A" for m
    using u32_sub_nat [of ?A "top_of t - m"] b that by simp
  show ?c using step [of ?A] image_ok_off_at [OF assms] by (simp add: copy_done_off_def image_ok_at_def copy_done_at_def mult_2)
  then show ?i using step [of "2 * ?A"] by (simp add: swap_info_off_def swap_info_at_def copy_done_at_def)
  then show ?s using step [of "3 * ?A"] by (simp add: swap_size_off_def swap_info_at_def swap_size_at_def)
qed

lemma magic_pad_at:
  assumes "trailer_wf t"
  shows "(of_nat (magic_at t) :: u32) AND NOT (tr_align t - 1) = of_nat (top_of t)"
proof -
  have "magic_at t - magic_at t mod unat (tr_align t) = top_of t"
    using assms by (cases rule: trailer_wf_cases) (simp_all add: magic_at_def top_of_def)
  then show ?thesis using align_down_nat [OF assms, of "magic_at t"] slot_size_less [of t] by (simp add: magic_at_def)
qed

lemma trailer_info_size_wf:
  assumes "tr_align t \<in> {8, 16, 32}"
  shows "trailer_info_size t = Some (4 * tr_align t + magic_align_size t)"
    and "unat (4 * tr_align t + magic_align_size t) = 4 * unat (tr_align t) + max 16 (unat (tr_align t))"
    and "unat (magic_align_size t) = max 16 (unat (tr_align t))"
  using assms by (auto simp: trailer_info_size_def u32_mul_def u32_add_def magic_align_size_def MAGIC_SIZE_def)

lemma word_mod_eq_0: "(s :: u32) mod a = 0 \<longleftrightarrow> unat s mod unat a = 0"
proof -
  have "unat s mod unat a = unat (s mod a)" by (simp only: unat_mod)
  then show ?thesis by (simp add: unsigned_eq_0_iff del: mod_eq_0_iff_dvd)
qed

lemma trailer_new_iff:
  "trailer_new s a = Some (if trailer_wf \<lparr>tr_slot_size = s, tr_align = a\<rparr> then Some \<lparr>tr_slot_size = s, tr_align = a\<rparr> else None)"
proof (cases "a \<in> {8, 16, 32} \<and> unat s mod unat a = 0")
  case True
  then have "s mod a = 0" by (simp only: word_mod_eq_0)
  then show ?thesis
    using True trailer_info_size_wf [of "\<lparr>tr_slot_size = s, tr_align = a\<rparr>"]
    by (simp add: trailer_new_def trailer_wf_def word_less_nat_alt linorder_not_less)
next
  case False
  then have "a \<notin> {8, 16, 32} \<or> s mod a \<noteq> 0" by (simp only: word_mod_eq_0 simp_thms de_Morgan_conj)
  moreover have "\<not> trailer_wf \<lparr>tr_slot_size = s, tr_align = a\<rparr>" using False unfolding trailer_wf_def by auto
  ultimately show ?thesis by (simp only: trailer_new_def if_True if_False simp_thms)
qed

lemma bm_trailer_wf: "trailer_wf BM_TRAILER"
  by (simp add: trailer_wf_def BM_TRAILER_def)

text \<open>A trailer that \<open>Trailer::new\<close> makes has its fields inside the slot and none over
  another. No arithmetic of the offsets overflows; \<open>new\<close> refuses every other alignment and size; from the
  end of the slot the magic, the three flag blocks and the size block follow each other at the alignment, and
  every block but the magic starts at a multiple of it.\<close>

theorem trailer_layout:
  assumes "trailer_new slot align = Some (Some t)"
  shows "(\<exists>m i c w s. magic_off t = Some m \<and> image_ok_off t = Some i \<and> copy_done_off t = Some c \<and>
     swap_info_off t = Some w \<and> swap_size_off t = Some s \<and>
     unat m + MAGIC_SIZE = unat slot \<and> unat i + unat align \<le> unat m \<and> unat c + unat align = unat i \<and>
     unat w + unat align = unat c \<and> unat s + unat align = unat w \<and>
     (\<forall>x\<in>{i, c, w, s}. unat x mod unat align = 0) \<and>
     (\<exists>n. trailer_info_size t = Some n \<and> unat s + unat n = unat slot))"
proof -
  from assms have wf: "trailer_wf t" and t: "tr_slot_size t = slot" "tr_align t = align"
    unfolding trailer_new_iff by (auto split: if_splits)
  note offs = magic_off_at [OF wf] image_ok_off_at [OF wf] field_off_at [OF wf]
  have al: "align \<in> {8, 16, 32}" using wf t by (simp add: trailer_wf_def)
  have us: "unat (of_nat (magic_at t) :: u32) = magic_at t" "unat (of_nat (image_ok_at t) :: u32) = image_ok_at t"
    "unat (of_nat (copy_done_at t) :: u32) = copy_done_at t" "unat (of_nat (swap_info_at t) :: u32) = swap_info_at t"
    "unat (of_nat (swap_size_at t) :: u32) = swap_size_at t"
    using slot_size_less [of t] by (simp_all add: unat_u32 trailer_at_defs)
  have n: "trailer_info_size t = Some (4 * align + magic_align_size t)"
    "unat (4 * align + magic_align_size t) = 4 * unat align + max 16 (unat align)"
    using trailer_info_size_wf [of t] al t by simp_all
  have arith: "magic_at t + MAGIC_SIZE = unat slot" "image_ok_at t + unat align \<le> magic_at t"
    "copy_done_at t + unat align = image_ok_at t" "swap_info_at t + unat align = copy_done_at t"
    "swap_size_at t + unat align = swap_info_at t" "swap_size_at t + (4 * unat align + max 16 (unat align)) = unat slot"
    using wf t by (auto simp: trailer_wf_def trailer_at_defs MAGIC_SIZE_def)
  have "image_ok_at t mod unat align = 0 \<and> copy_done_at t mod unat align = 0 \<and> swap_info_at t mod unat align = 0 \<and>
      swap_size_at t mod unat align = 0"
    using wf by (cases rule: trailer_wf_cases) (simp_all add: trailer_at_defs t [symmetric])
  then show ?thesis using offs us n arith by auto
qed

theorem trailer_layout_witness: "\<exists>m. magic_off BM_TRAILER = Some m \<and> unat m + MAGIC_SIZE = 0xF2000"
proof -
  have "trailer_new 0xF2000 16 = Some (Some BM_TRAILER)"
    using bm_trailer_wf by (simp add: trailer_new_iff BM_TRAILER_def)
  from trailer_layout [OF this] show ?thesis by auto
qed

section \<open>What the operations rely on\<close>

text \<open>A slot whose bytes are \<open>contents\<close>. Reading inside the slot fills the buffer. Writing inside it changes
  the addressed bytes at most, stores the data when it reports success, and succeeds on erased bytes. Erasing the
  whole slot does so or changes nothing.\<close>

locale slot_flash =
  fixes F :: "'f Flash"
    and contents :: "'f \<Rightarrow> bytes"
  assumes read_fills: "unat off + length buf \<le> length (contents f) \<Longrightarrow>
      \<exists>f'. fl_read F f off buf = (f', subslice (contents f) (unat off) (length buf), Ok ()) \<and> contents f' = contents f"
    and write_local: "unat off + length data \<le> length (contents f) \<Longrightarrow>
      \<exists>f' r blk. fl_write F f off data = (f', r) \<and> contents f' = put (contents f) (unat off) blk \<and>
        length blk = length data \<and> (r = Ok () \<longrightarrow> blk = data) \<and>
        (subslice (contents f) (unat off) (length data) = replicate (length data) ERASED \<longrightarrow> r = Ok ())"
    and erase_whole: "unat n = length (contents f) \<Longrightarrow>
      \<exists>f' r. fl_erase F f 0 n = (f', r) \<and>
        (contents f' = replicate (length (contents f)) ERASED \<or> contents f' = contents f)"

text \<open>The state the bytes of a slot stand for, and the blocks the operations write.\<close>

definition swap_state_of :: "Trailer \<Rightarrow> bytes \<Rightarrow> SwapState" where
  "swap_state_of t c = \<lparr>ss_magic = classify_magic t (subslice c (magic_at t) 16),
     ss_swap_type = fst (split_swap_info (c ! swap_info_at t)), ss_image_num = snd (split_swap_info (c ! swap_info_at t)),
     ss_copy_done = classify_flag (c ! copy_done_at t), ss_image_ok = classify_flag (c ! image_ok_at t)\<rparr>"

definition block_erased :: "nat \<Rightarrow> nat \<Rightarrow> bytes \<Rightarrow> bool" where
  "block_erased off n c \<longleftrightarrow> subslice c off n = replicate n ERASED"

definition byte_block :: "Trailer \<Rightarrow> u8 \<Rightarrow> bytes" where
  "byte_block t b = b # replicate (unat (tr_align t) - 1) ERASED"

definition magic_block :: "Trailer \<Rightarrow> bytes" where
  "magic_block t = replicate (max 16 (unat (tr_align t)) - 16) ERASED @ trailer_magic t"

text \<open>A slot of the trailer's size, and the order of its fields.\<close>

definition trailer_slot :: "Trailer \<Rightarrow> bytes \<Rightarrow> bool" where
  "trailer_slot t c \<longleftrightarrow> trailer_wf t \<and> length c = unat (tr_slot_size t)"

lemma trailer_order:
  assumes "trailer_wf t"
  shows "8 \<le> unat (tr_align t)" "unat (tr_align t) \<le> 32" "swap_info_at t + unat (tr_align t) = copy_done_at t"
    "copy_done_at t + unat (tr_align t) = image_ok_at t" "image_ok_at t + unat (tr_align t) = top_of t"
    "top_of t + max 16 (unat (tr_align t)) = unat (tr_slot_size t)" "magic_at t + 16 = unat (tr_slot_size t)"
    "top_of t \<le> magic_at t" "unat (tr_slot_size t) < 2 ^ 32"
  using assms slot_size_less [of t] by (auto simp: trailer_wf_def trailer_at_defs)

lemma length_trailer_magic [simp]: "length (trailer_magic t) = 16"
  by (simp add: trailer_magic_def MAGIC_ALIGN_8_def MAGIC_TAIL_def del: to_le_numeral)

lemma length_blocks:
  assumes "trailer_wf t"
  shows "length (byte_block t b) = unat (tr_align t)" "length (magic_block t) = max 16 (unat (tr_align t))"
  using trailer_order [OF assms] by (simp_all add: byte_block_def magic_block_def)

lemma magic_buffer:
  assumes "16 \<le> m" "m \<le> 32"
  shows "take m (put (replicate 32 e) (m - 16) (trailer_magic t)) = replicate (m - 16) e @ trailer_magic t"
  using assms by (simp add: put_def)

lemma trailer_magic_not_erased: "trailer_magic t \<noteq> replicate 16 ERASED"
proof -
  have "last (trailer_magic t) \<noteq> ERASED"
    by (simp add: trailer_magic_def MAGIC_ALIGN_8_def MAGIC_TAIL_def ERASED_def del: to_le_numeral)
  moreover have "last (replicate 16 ERASED) = ERASED" by (simp add: last_replicate)
  ultimately show ?thesis by metis
qed

text \<open>What \<open>set_pending\<close> writes, and the blocks it needs erased.\<close>

definition pended :: "Trailer \<Rightarrow> bool \<Rightarrow> bytes \<Rightarrow> bytes" where
  "pended t permanent c = (
     let marked = put c (top_of t) (magic_block t);
       kept = (if permanent then put marked (image_ok_at t) (byte_block t FLAG_SET) else marked)
     in put kept (swap_info_at t) (byte_block t (swap_type_code (if permanent then SwapPerm else SwapTest))))"

definition pend_erased :: "Trailer \<Rightarrow> bool \<Rightarrow> bytes \<Rightarrow> bool" where
  "pend_erased t permanent c \<longleftrightarrow> block_erased (top_of t) (max 16 (unat (tr_align t))) c \<and>
     (permanent \<longrightarrow> block_erased (image_ok_at t) (unat (tr_align t)) c) \<and>
     block_erased (swap_info_at t) (unat (tr_align t)) c"

lemma take_put: "n \<le> a \<Longrightarrow> a \<le> length buf \<Longrightarrow> take n (put buf a xs) = take n buf"
  by (simp add: put_def min_def)

lemma subslice_Suc_0: "i < length buf \<Longrightarrow> subslice buf i (Suc 0) = [buf ! i]"
  by (simp add: subslice_def take_Suc hd_drop_conv_nth)

context slot_flash
begin

lemma flash_read_in:
  assumes "unat off + length buf \<le> length (contents f)"
  obtains f' where "flash_read F off buf f = Some (f', Ok (subslice (contents f) (unat off) (length buf)))"
    "contents f' = contents f"
  using read_fills [OF assms] by (auto simp: flash_read_def)

lemma read_flag_in:
  assumes "unat off < length (contents f)"
  obtains f' where "read_flag F off f = Some (f', Ok (classify_flag (contents f ! unat off)))" "contents f' = contents f"
proof -
  obtain f' where "flash_read F off [0] f = Some (f', Ok (subslice (contents f) (unat off) (length [0 :: u8])))"
    "contents f' = contents f"
    using assms by (rule_tac flash_read_in [of off "[0]" f]) auto
  then show ?thesis
    using that assms by (simp add: read_flag_def flash_try_def get_at_def subslice_Suc_0)
qed

lemma read_state:
  assumes "trailer_slot t (contents f)"
  obtains f' where "read_swap_state F t f = Some (f', Ok (swap_state_of t (contents f)))" "contents f' = contents f"
proof -
  let ?c = "contents f"
  from assms have wf: "trailer_wf t" and len: "length ?c = unat (tr_slot_size t)" by (auto simp: trailer_slot_def)
  note ord = trailer_order [OF wf]
  obtain f1 where 1: "flash_read F (of_nat (magic_at t)) (replicate 16 0) f = Some (f1, Ok (subslice ?c (magic_at t) 16))"
      "contents f1 = ?c"
    using flash_read_in [of "of_nat (magic_at t)" "replicate 16 0" f] ord len by (auto simp: unat_u32)
  obtain f2 where 2: "flash_read F (of_nat (swap_info_at t)) [0] f1 = Some (f2, Ok [?c ! swap_info_at t])" "contents f2 = ?c"
    using flash_read_in [of "of_nat (swap_info_at t)" "[0]" f1] ord len 1(2)
    by (auto simp: unat_u32 subslice_Suc_0)
  obtain f3 where 3: "read_flag F (of_nat (copy_done_at t)) f2 = Some (f3, Ok (classify_flag (?c ! copy_done_at t)))" "contents f3 = ?c"
    using read_flag_in [of "of_nat (copy_done_at t)" f2] ord len 2(2) by (auto simp: unat_u32)
  obtain f4 where 4: "read_flag F (of_nat (image_ok_at t)) f3 = Some (f4, Ok (classify_flag (?c ! image_ok_at t)))" "contents f4 = ?c"
    using read_flag_in [of "of_nat (image_ok_at t)" f3] ord len 3(2) by (auto simp: unat_u32)
  show thesis
    by (rule that [of f4]) (use 1 2 3 4 magic_off_at [OF wf] image_ok_off_at [OF wf] field_off_at [OF wf] in
      \<open>simp_all add: read_swap_state_def flash_try_def swap_state_of_def MAGIC_SIZE_def get_at_def\<close>)
qed

lemma flash_write_local:
  assumes "unat off + length data \<le> length (contents f)"
  obtains f' r blk where "flash_write F off data f = Some (f', r)" "contents f' = put (contents f) (unat off) blk"
    "length blk = length data" "r = Ok () \<and> blk = data \<or> r = Err FlashFailed \<and> \<not> block_erased (unat off) (length data) (contents f)"
proof -
  obtain f' r blk where w: "fl_write F f off data = (f', r)" "contents f' = put (contents f) (unat off) blk"
    "length blk = length data" "r = Ok () \<longrightarrow> blk = data"
    "subslice (contents f) (unat off) (length data) = replicate (length data) ERASED \<longrightarrow> r = Ok ()"
    using write_local [OF assms] by blast
  show thesis
  proof (cases r)
    case (Ok u)
    with w show ?thesis by (intro that [of f' "Ok ()" blk]) (auto simp: flash_write_def)
  next
    case (Err e)
    with w show ?thesis
      by (intro that [of f' "Err FlashFailed" blk]) (auto simp: flash_write_def boot_error_from_def block_erased_def)
  qed
qed

lemma write_byte_local:
  assumes "trailer_slot t (contents f)" "off + unat (tr_align t) \<le> unat (tr_slot_size t)"
  obtains f' r blk where "write_byte F t (of_nat off) b f = Some (f', r)" "contents f' = put (contents f) off blk"
    "length blk = unat (tr_align t)"
    "r = Ok () \<and> blk = byte_block t b \<or> r = Err FlashFailed \<and> \<not> block_erased off (unat (tr_align t)) (contents f)"
proof -
  from assms(1) have wf: "trailer_wf t" and len: "length (contents f) = unat (tr_slot_size t)" by (auto simp: trailer_slot_def)
  note ord = trailer_order [OF wf]
  have off: "unat (of_nat off :: u32) = off" using assms(2) ord by (simp add: unat_u32)
  have "set_at (replicate MAX_ALIGN ERASED) 0 b = Some (b # replicate 31 ERASED)"
    by (simp add: set_at_def MAX_ALIGN_def numeral_eq_Suc)
  moreover have "range_at (b # replicate 31 ERASED) 0 (unat (tr_align t)) = Some (byte_block t b)"
    using ord(1,2) by (simp add: range_at_def subslice_def byte_block_def take_Cons' min_def)
  ultimately have w: "write_byte F t (of_nat off) b f = flash_write F (of_nat off) (byte_block t b) f"
    by (simp add: write_byte_def)
  have "unat (of_nat off :: u32) + length (byte_block t b) \<le> length (contents f)"
    using assms(2) len off by (simp add: length_blocks [OF wf])
  then show thesis
    by (rule flash_write_local) (use w off that in \<open>auto simp: length_blocks [OF wf]\<close>)
qed

lemma write_magic_local:
  assumes "trailer_slot t (contents f)"
  obtains f' r blk where "write_magic F t f = Some (f', r)" "contents f' = put (contents f) (top_of t) blk"
    "length blk = max 16 (unat (tr_align t))"
    "r = Ok () \<and> blk = magic_block t \<or> r = Err FlashFailed \<and> \<not> block_erased (top_of t) (max 16 (unat (tr_align t))) (contents f)"
proof -
  from assms(1) have wf: "trailer_wf t" and len: "length (contents f) = unat (tr_slot_size t)" by (auto simp: trailer_slot_def)
  note ord = trailer_order [OF wf]
  let ?M = "max 16 (unat (tr_align t))"
  have off: "unat (of_nat (top_of t) :: u32) = top_of t" using ord by (simp add: unat_u32)
  have M: "unat (magic_align_size t) = ?M" using trailer_info_size_wf(3) wf by (simp add: trailer_wf_def)
  have b: "16 \<le> ?M" "?M \<le> 32" using ord(2) by simp_all
  have "copy_at (replicate MAX_ALIGN ERASED) (?M - MAGIC_SIZE) (trailer_magic t) =
      Some (put (replicate 32 ERASED) (?M - 16) (trailer_magic t))"
    using b by (simp add: copy_at_def MAX_ALIGN_def MAGIC_SIZE_def)
  moreover have "range_at (put (replicate 32 ERASED) (?M - 16) (trailer_magic t)) 0 ?M = Some (magic_block t)"
    using b magic_buffer [OF b, of ERASED t] by (simp add: range_at_def subslice_def magic_block_def)
  ultimately have w: "write_magic F t f = flash_write F (of_nat (top_of t)) (magic_block t) f"
    using magic_off_at [OF wf] align_sub_1 [OF wf] magic_pad_at [OF wf] by (simp add: write_magic_def M Let_def)
  have "unat (of_nat (top_of t) :: u32) + length (magic_block t) \<le> length (contents f)"
    using len off ord by (simp add: length_blocks [OF wf])
  then show thesis
    by (rule flash_write_local) (use w off that in \<open>auto simp: length_blocks [OF wf]\<close>)
qed

lemma set_confirmed_confirms:
  assumes "trailer_slot t (contents f)" "ss_magic (swap_state_of t (contents f)) = MagicGood"
    "block_erased (image_ok_at t) (unat (tr_align t)) (contents f)"
  obtains f' where "set_confirmed F t f = Some (f', Ok ())"
    "contents f' = put (contents f) (image_ok_at t) (byte_block t FLAG_SET)"
proof -
  from assms(1) have wf: "trailer_wf t" and len: "length (contents f) = unat (tr_slot_size t)" by (auto simp: trailer_slot_def)
  note ord = trailer_order [OF wf]
  obtain f1 where 1: "read_swap_state F t f = Some (f1, Ok (swap_state_of t (contents f)))" "contents f1 = contents f"
    using read_state [OF assms(1)] by blast
  have "contents f ! image_ok_at t = subslice (contents f) (image_ok_at t) (unat (tr_align t)) ! 0"
    using ord len by (subst nth_subslice) auto
  then have "contents f ! image_ok_at t = ERASED" using assms(3) ord(1) by (simp add: block_erased_def)
  then have un: "ss_image_ok (swap_state_of t (contents f)) = FlagUnset" by (simp add: swap_state_of_def classify_flag_def)
  have s1: "trailer_slot t (contents f1)" and bound: "image_ok_at t + unat (tr_align t) \<le> unat (tr_slot_size t)"
    using assms(1) 1(2) ord by simp_all
  show thesis
    by (rule write_byte_local [OF s1 bound, of FLAG_SET])
      (use that assms(2,3) 1 un image_ok_off_at [OF wf] in \<open>auto simp: set_confirmed_def flash_try_def\<close>)
qed

lemma set_confirmed_keeps:
  assumes "trailer_slot t (contents f)"
    "ss_magic (swap_state_of t (contents f)) = MagicUnset \<or>
     ss_magic (swap_state_of t (contents f)) = MagicGood \<and> ss_image_ok (swap_state_of t (contents f)) \<noteq> FlagUnset"
  shows "\<exists>f'. set_confirmed F t f = Some (f', Ok ()) \<and> contents f' = contents f"
  using assms(2) by (rule_tac read_state [OF assms(1)]) (auto simp: set_confirmed_def flash_try_def)

lemma set_confirmed_bad:
  assumes "trailer_slot t (contents f)" "ss_magic (swap_state_of t (contents f)) = MagicBad"
  shows "\<exists>f'. set_confirmed F t f = Some (f', Err BadVect) \<and> contents f' = contents f"
  using assms(2) by (rule_tac read_state [OF assms(1)]) (auto simp: set_confirmed_def flash_try_def)

lemma set_confirmed_total:
  assumes "trailer_slot t (contents f)" "ss_magic (swap_state_of t (contents f)) = MagicGood"
  obtains f' r where "set_confirmed F t f = Some (f', r)" "length (contents f') = length (contents f)"
    "if ss_image_ok (swap_state_of t (contents f)) \<noteq> FlagUnset then contents f' = contents f \<and> r = Ok ()
     else r = Ok () \<and> contents f' = put (contents f) (image_ok_at t) (byte_block t FLAG_SET) \<or>
       r = Err FlashFailed \<and> \<not> block_erased (image_ok_at t) (unat (tr_align t)) (contents f)"
proof (cases "ss_image_ok (swap_state_of t (contents f)) = FlagUnset")
  case True
  from assms(1) have wf: "trailer_wf t" and len: "length (contents f) = unat (tr_slot_size t)" by (auto simp: trailer_slot_def)
  obtain f1 where 1: "read_swap_state F t f = Some (f1, Ok (swap_state_of t (contents f)))" "contents f1 = contents f"
    using read_state [OF assms(1)] by blast
  have s1: "trailer_slot t (contents f1)" and bound: "image_ok_at t + unat (tr_align t) \<le> unat (tr_slot_size t)"
    using assms(1) 1(2) trailer_order [OF wf] by simp_all
  show thesis
    by (rule write_byte_local [OF s1 bound, of FLAG_SET])
      (use that assms(2) 1 True bound len image_ok_off_at [OF wf] in \<open>auto simp: set_confirmed_def flash_try_def\<close>)
next
  case False
  then show thesis using that set_confirmed_keeps [OF assms(1)] assms(2) by auto
qed

lemma set_pending_good:
  assumes "trailer_slot t (contents f)" "ss_magic (swap_state_of t (contents f)) = MagicGood"
  shows "\<exists>f'. set_pending F t permanent f = Some (f', Ok ()) \<and> contents f' = contents f"
  using assms(2) by (rule_tac read_state [OF assms(1)]) (auto simp: set_pending_def flash_try_def)

lemma set_pending_bad:
  assumes "trailer_slot t (contents f)" "ss_magic (swap_state_of t (contents f)) = MagicBad"
  shows "\<exists>f1 f' r. contents f1 = contents f \<and> fl_erase F f1 0 (tr_slot_size t) = (f', r) \<and>
    set_pending F t permanent f = Some (f', Err BadImage) \<and>
    (contents f' = replicate (length (contents f)) ERASED \<or> contents f' = contents f)"
proof -
  obtain f1 where 1: "read_swap_state F t f = Some (f1, Ok (swap_state_of t (contents f)))" "contents f1 = contents f"
    using read_state [OF assms(1)] by blast
  obtain f' r where "fl_erase F f1 0 (tr_slot_size t) = (f', r)"
      "contents f' = replicate (length (contents f)) ERASED \<or> contents f' = contents f"
    using erase_whole [of "tr_slot_size t" f1] assms(1) 1(2) by (auto simp: trailer_slot_def)
  moreover from this(1) have "set_pending F t permanent f = Some (f', Err BadImage)"
    using assms(2) 1 by (simp add: set_pending_def flash_try_def)
  ultimately show ?thesis using 1(2) by blast
qed

lemma write_image_ok_if:
  assumes "trailer_slot t (contents f)"
  obtains f' r blk where "(if permanent then do { off \<leftarrow> image_ok_off t; write_byte F t off FLAG_SET f }
      else Some (f, Ok ())) = Some (f', r)"
    "contents f' = (if permanent then put (contents f) (image_ok_at t) blk else contents f)" "length blk = unat (tr_align t)"
    "r = Ok () \<and> (permanent \<longrightarrow> blk = byte_block t FLAG_SET) \<or>
     r = Err FlashFailed \<and> permanent \<and> \<not> block_erased (image_ok_at t) (unat (tr_align t)) (contents f)"
proof (cases permanent)
  case True
  from assms have wf: "trailer_wf t" by (simp add: trailer_slot_def)
  have "image_ok_at t + unat (tr_align t) \<le> unat (tr_slot_size t)" using trailer_order [OF wf] by simp
  then show ?thesis
    by (rule_tac write_byte_local [OF assms, of "image_ok_at t" FLAG_SET]) (use that True image_ok_off_at [OF wf] in auto)
next
  case False
  then show ?thesis using that [of f "Ok ()" "replicate (unat (tr_align t)) 0"] by simp
qed

text \<open>Marking a slot whose magic is erased: either every write succeeds, or one fails on bytes that were not
  erased; the bytes below the \<open>swap_info\<close> block are never touched.\<close>

lemma set_pending_unset:
  assumes "trailer_slot t (contents f)" "ss_magic (swap_state_of t (contents f)) = MagicUnset"
  obtains f' r where "set_pending F t permanent f = Some (f', r)" "length (contents f') = length (contents f)"
    "take (swap_info_at t) (contents f') = take (swap_info_at t) (contents f)"
    "r = Ok () \<and> contents f' = pended t permanent (contents f) \<or>
     r = Err FlashFailed \<and> \<not> pend_erased t permanent (contents f)"
proof -
  let ?c = "contents f" and ?A = "unat (tr_align t)" and ?M = "max 16 (unat (tr_align t))"
  from assms(1) have wf: "trailer_wf t" and len: "length ?c = unat (tr_slot_size t)" by (auto simp: trailer_slot_def)
  note ord = trailer_order [OF wf]
  have fit: "top_of t + ?M \<le> length ?c" "image_ok_at t + ?A \<le> length ?c" "swap_info_at t + ?A \<le> length ?c"
    using ord len by simp_all
  obtain f0 where r0: "read_swap_state F t f = Some (f0, Ok (swap_state_of t ?c))" "contents f0 = ?c"
    using read_state [OF assms(1)] by blast
  have s0: "trailer_slot t (contents f0)" using assms(1) r0(2) by simp
  obtain f1 r1 b1 where w1: "write_magic F t f0 = Some (f1, r1)" "contents f1 = put ?c (top_of t) b1" "length b1 = ?M"
      "r1 = Ok () \<and> b1 = magic_block t \<or> r1 = Err FlashFailed \<and> \<not> block_erased (top_of t) ?M ?c"
    by (rule write_magic_local [OF s0, unfolded r0(2)]) (rule that)
  have l1: "length (contents f1) = length ?c" using w1 fit by simp
  have s1: "trailer_slot t (contents f1)" using wf len l1 by (simp add: trailer_slot_def)
  obtain f2 r2 b2 where w2: "(if permanent then do { off \<leftarrow> image_ok_off t; write_byte F t off FLAG_SET f1 }
        else Some (f1, Ok ())) = Some (f2, r2)"
      "contents f2 = (if permanent then put (contents f1) (image_ok_at t) b2 else contents f1)" "length b2 = ?A"
      "r2 = Ok () \<and> (permanent \<longrightarrow> b2 = byte_block t FLAG_SET) \<or>
       r2 = Err FlashFailed \<and> permanent \<and> \<not> block_erased (image_ok_at t) ?A (contents f1)"
    by (rule write_image_ok_if [OF s1, of permanent]) (rule that)
  have e2: "block_erased (image_ok_at t) ?A (contents f1) = block_erased (image_ok_at t) ?A ?c"
    using w1 ord fit by (simp add: block_erased_def)
  have l2: "length (contents f2) = length ?c" using l1 w2 fit by simp
  have s2: "trailer_slot t (contents f2)" using wf len l2 by (simp add: trailer_slot_def)
  let ?code = "swap_type_code (if permanent then SwapPerm else SwapTest)"
  have b3: "swap_info_at t + ?A \<le> unat (tr_slot_size t)" using fit len by simp
  obtain f3 r3 b3 where w3: "write_byte F t (of_nat (swap_info_at t)) ?code f2 = Some (f3, r3)"
      "contents f3 = put (contents f2) (swap_info_at t) b3" "length b3 = ?A"
      "r3 = Ok () \<and> b3 = byte_block t ?code \<or> r3 = Err FlashFailed \<and> \<not> block_erased (swap_info_at t) ?A (contents f2)"
    by (rule write_byte_local [OF s2 b3]) (rule that)
  have e3: "block_erased (swap_info_at t) ?A (contents f2) = block_erased (swap_info_at t) ?A ?c"
    using w1 w2 ord fit by (simp add: block_erased_def)
  have "take (swap_info_at t) (contents f1) = take (swap_info_at t) ?c"
    unfolding w1(2) by (rule take_put) (use ord fit in linarith)+
  moreover have "take (swap_info_at t) (contents f2) = take (swap_info_at t) (contents f1)"
    unfolding w2(2) using take_put [of "swap_info_at t" "image_ok_at t" "contents f1" b2] ord l1 fit by auto
  moreover have "take (swap_info_at t) (contents f3) = take (swap_info_at t) (contents f2)"
    unfolding w3(2) by (rule take_put) (use l2 fit in linarith)+
  ultimately have keep: "take (swap_info_at t) (contents f1) = take (swap_info_at t) ?c"
      "take (swap_info_at t) (contents f2) = take (swap_info_at t) ?c"
      "take (swap_info_at t) (contents f3) = take (swap_info_at t) ?c"
    by simp_all
  have run: "set_pending F t permanent f = flash_try (Some (f1, r1)) (\<lambda>_ f1'.
      flash_try (if permanent then do { off \<leftarrow> image_ok_off t; write_byte F t off FLAG_SET f1' } else Some (f1', Ok ()))
        (\<lambda>_ f2'. write_byte F t (of_nat (swap_info_at t)) ?code f2'))"
    using r0(1) assms(2) w1(1) field_off_at(2) [OF wf] by (simp add: set_pending_def flash_try_def)
  show thesis
  proof (cases "r1 = Ok ()")
    case False
    then show ?thesis
      using w1 keep run fit by (intro that [of f1 "Err FlashFailed"]) (auto simp: flash_try_def pend_erased_def)
  next
    case one: True
    show ?thesis
    proof (cases "r2 = Ok ()")
      case False
      with one show ?thesis
        using w2 e2 keep run l2 by (intro that [of f2 "Err FlashFailed"]) (auto simp: flash_try_def pend_erased_def)
    next
      case True
      with one show ?thesis
        using w1 w2 w3 e3 keep run l2 fit
        by (intro that [of f3 r3]) (auto simp: flash_try_def pend_erased_def pended_def)
    qed
  qed
qed

end

section \<open>The slot in RAM satisfies it\<close>

lemma map2_and_erased: "n = length data \<Longrightarrow> map2 (\<lambda>d s. d AND s) (replicate n ERASED) data = data"
proof -
  have e: "ERASED AND s = s" for s
  proof (rule bit_word_eqI)
    fix n assume "n < LENGTH(8)"
    then have "bit (mask 8 :: u8) n" by (simp add: bit_mask_iff)
    then have "bit ERASED n" by (simp add: ERASED_def mask_eq_exp_minus_1)
    then show "bit (ERASED AND s) n = bit s n" by (simp add: bit_and_iff)
  qed
  show "n = length data \<Longrightarrow> map2 (\<lambda>d s. d AND s) (replicate n ERASED) data = data"
    by (rule nth_equalityI) (simp_all add: e)
qed

lemma ram_slot_simps [simp]:
  "fl_read ram_slot = ram_read" "fl_write ram_slot = ram_write" "fl_erase ram_slot = ram_erase"
  by (simp_all add: ram_slot_def)

interpretation ram: slot_flash ram_slot "\<lambda>c. c"
proof unfold_locales
  fix off :: u32 and buf c :: bytes
  assume "unat off + length buf \<le> length c"
  then show "\<exists>c'. fl_read ram_slot c off buf = (c', subslice c (unat off) (length buf), Ok ()) \<and> c' = c"
    by (simp add: ram_read_def ram_range_def)
next
  fix off :: u32 and data c :: bytes
  assume l: "unat off + length data \<le> length c"
  let ?dst = "map2 (\<lambda>d s. d AND s) (subslice c (unat off) (length data)) data"
  have "ram_write c off data = (put c (unat off) ?dst, if ?dst = data then Ok () else Err FlashError)"
    using l by (simp add: ram_write_def ram_range_def Let_def)
  moreover have "length ?dst = length data" using l by simp
  moreover have "subslice c (unat off) (length data) = replicate (length data) ERASED \<Longrightarrow> ?dst = data"
    by (simp only: map2_and_erased)
  ultimately show "\<exists>c' r blk. fl_write ram_slot c off data = (c', r) \<and> c' = put c (unat off) blk \<and>
      length blk = length data \<and> (r = Ok () \<longrightarrow> blk = data) \<and>
      (subslice c (unat off) (length data) = replicate (length data) ERASED \<longrightarrow> r = Ok ())"
    by (intro exI [of _ "put c (unat off) ?dst"] exI [of _ "if ?dst = data then Ok () else Err FlashError"] exI [of _ ?dst])
      (simp only: ram_slot_simps, auto)
next
  fix n :: u32 and c :: bytes
  assume "unat n = length c"
  then show "\<exists>c' r. fl_erase ram_slot c 0 n = (c', r) \<and> (c' = replicate (length c) ERASED \<or> c' = c)"
    by (simp add: ram_erase_def ram_range_def put_def ERASED_def)
qed

text \<open>On \<open>RamSlot\<close> the erase of a whole slot succeeds when the slot is a number of pages, and then nothing of the
  old bytes is left.\<close>

lemma ram_set_pending_bad:
  assumes "trailer_slot t c" "ss_magic (swap_state_of t c) = MagicBad"
  shows "set_pending ram_slot t permanent c =
    Some (if tr_slot_size t mod PAGE_SIZE = 0 then replicate (length c) ERASED else c, Err BadImage)"
proof -
  have "length c = unat (tr_slot_size t)" using assms(1) by (simp add: trailer_slot_def)
  then have fst: "fst (ram_erase c 0 (tr_slot_size t)) =
      (if tr_slot_size t mod PAGE_SIZE = 0 then replicate (length c) ERASED else c)"
    by (simp add: ram_erase_def ram_range_def put_def ERASED_def)
  obtain c' r where e: "ram_erase c 0 (tr_slot_size t) = (c', r)" "set_pending ram_slot t permanent c = Some (c', Err BadImage)"
    using ram.set_pending_bad [OF assms, of permanent] by auto
  then have "c' = (if tr_slot_size t mod PAGE_SIZE = 0 then replicate (length c) ERASED else c)" using fst by simp
  then show ?thesis using e(2) by (simp only:)
qed

text \<open>The same slot, whose every write and every erase fails: what succeeds on it writes nothing, not even the
  bytes that are there.\<close>

definition read_only_slot :: "bytes Flash" where
  "read_only_slot = ram_slot\<lparr>fl_write := \<lambda>c off data. (c, Err FlashError), fl_erase := \<lambda>c off n. (c, Err FlashError)\<rparr>"

lemma read_only_state: "read_swap_state read_only_slot t c = read_swap_state ram_slot t c"
  by (simp add: read_swap_state_def read_flag_def flash_read_def read_only_slot_def)

lemma read_only_good:
  assumes "read_swap_state ram_slot t c = Some (c, Ok s)" "ss_magic s = MagicGood"
  shows "set_pending read_only_slot t permanent c = Some (c, Ok ())"
    and "ss_image_ok s \<noteq> FlagUnset \<Longrightarrow> set_confirmed read_only_slot t c = Some (c, Ok ())"
  using assms by (simp_all add: set_pending_def set_confirmed_def read_only_state flash_try_def)

lemma read_only_unmarked:
  assumes "read_swap_state ram_slot t c = Some (c, Ok s)" "ss_magic s \<noteq> MagicGood"
  shows "set_confirmed read_only_slot t c = set_confirmed ram_slot t c"
  using assms by (cases "ss_magic s") (simp_all add: set_confirmed_def read_only_state flash_try_def)

section \<open>What the boot loader does next\<close>

lemma pended_state:
  assumes "trailer_slot t c" "permanent \<or> c ! image_ok_at t = ERASED"
  shows "swap_state_of t (pended t permanent c) =
    \<lparr>ss_magic = MagicGood, ss_swap_type = swap_type_code (if permanent then SwapPerm else SwapTest), ss_image_num = 0,
     ss_copy_done = classify_flag (c ! copy_done_at t), ss_image_ok = (if permanent then FlagSet else FlagUnset)\<rparr>"
proof -
  from assms(1) have wf: "trailer_wf t" and len: "length c = unat (tr_slot_size t)" by (auto simp: trailer_slot_def)
  note ord = trailer_order [OF wf] and lens = length_blocks [OF wf]
  let ?c = "pended t permanent c" and ?M = "max 16 (unat (tr_align t))"
  have fit: "top_of t + ?M \<le> length c" "image_ok_at t + unat (tr_align t) \<le> length c" "swap_info_at t + unat (tr_align t) \<le> length c"
    using ord len by simp_all
  have "subslice ?c (top_of t) ?M = magic_block t"
    using ord fit lens by (auto simp: pended_def Let_def)
  then have "subslice (subslice ?c (top_of t) ?M) (?M - 16) 16 = trailer_magic t" by (simp add: magic_block_def subslice_def)
  moreover have "top_of t + (?M - 16) = magic_at t" using ord(6,7) by linarith
  ultimately have m: "subslice ?c (magic_at t) 16 = trailer_magic t" by (simp del: take_subslice drop_subslice)
  have b: "byte_block t x ! 0 = x" for x by (simp add: byte_block_def)
  have "?c ! swap_info_at t = swap_type_code (if permanent then SwapPerm else SwapTest)"
    using ord fit lens b by (auto simp: pended_def Let_def nth_put)
  moreover have "?c ! copy_done_at t = c ! copy_done_at t"
    using ord fit lens by (auto simp: pended_def Let_def nth_put)
  moreover have "?c ! image_ok_at t = (if permanent then FLAG_SET else c ! image_ok_at t)"
    using ord fit lens b by (auto simp: pended_def Let_def nth_put)
  ultimately show ?thesis
    using m assms(2) trailer_magic_not_erased [of t]
    by (auto simp: swap_state_of_def classify_magic_def MAGIC_SIZE_def split_swap_info_def classify_flag_def ERASED_def FLAG_SET_def)
qed

lemma trailer_new_slot:
  assumes "trailer_new slot align = Some (Some t)" "length c = unat slot"
  shows "trailer_slot t c"
  using assms by (auto simp: trailer_new_iff trailer_slot_def split: if_splits)

lemma ram_read_state: "trailer_slot t c \<Longrightarrow> read_swap_state ram_slot t c = Some (c, Ok (swap_state_of t c))"
  by (rule ram.read_state) auto

lemma erased_below:
  assumes "drop a c = replicate (length c - a) ERASED" "a \<le> off" "off + n \<le> length c"
  shows "block_erased off n c"
proof -
  have "subslice c off n = take n (drop (off - a) (drop a c))" using assms(2) by (simp add: subslice_def)
  also have "\<dots> = replicate n ERASED" unfolding assms(1) using assms(2,3) by (simp add: min_def)
  finally show ?thesis by (simp add: block_erased_def)
qed

lemma block_erased_nth: "block_erased off n c \<Longrightarrow> i < n \<Longrightarrow> off + n \<le> length c \<Longrightarrow> c ! (off + i) = ERASED"
  by (metis block_erased_def nth_replicate nth_subslice)

text \<open>Property C27. Marking a slot whose trailer is erased asks the boot loader for a swap: \<open>set_pending\<close>
  succeeds, touches no byte below the trailer fields, and whatever the primary slot says the boot loader then tests
  the new image, or keeps it when the mark is permanent. Marking again writes nothing, also when a permanent
  mark is asked of a slot that is pending a test.\<close>

theorem set_pending_requests_swap:
  assumes "trailer_new slot align = Some (Some t)" "length c = unat slot"
    and "drop (swap_info_at t) c = replicate (length c - swap_info_at t) ERASED"
  shows "\<exists>c' s. set_pending ram_slot t permanent c = Some (c', Ok ()) \<and> length c' = length c \<and>
    take (swap_info_at t) c' = take (swap_info_at t) c \<and>
    read_swap_state ram_slot t c' = Some (c', Ok s) \<and>
    ss_swap_type s = swap_type_code (if permanent then SwapPerm else SwapTest) \<and>
    (\<forall>primary. swap_type primary s = (if permanent then SwapPerm else SwapTest)) \<and>
    (\<forall>again. set_pending ram_slot t again c' = Some (c', Ok ()))"
proof -
  note slot = trailer_new_slot [OF assms(1,2)]
  then have wf: "trailer_wf t" and len: "length c = unat (tr_slot_size t)" by (auto simp: trailer_slot_def)
  note ord = trailer_order [OF wf]
  have er: "block_erased (top_of t) (max 16 (unat (tr_align t))) c" "block_erased (image_ok_at t) (unat (tr_align t)) c"
      "block_erased (swap_info_at t) (unat (tr_align t)) c" "block_erased (magic_at t) 16 c"
    by (rule erased_below [OF assms(3)], use ord len in linarith, use ord len in linarith)+
  have iok: "c ! image_ok_at t = ERASED" using block_erased_nth [OF er(2), of 0] ord len by simp
  have "ss_magic (swap_state_of t c) = MagicUnset"
    using er(4) by (simp add: swap_state_of_def classify_magic_def MAGIC_SIZE_def block_erased_def)
  then obtain c' r where p: "set_pending ram_slot t permanent c = Some (c', r)" "length c' = length c"
      "take (swap_info_at t) c' = take (swap_info_at t) c"
      "r = Ok () \<and> c' = pended t permanent c \<or> r = Err FlashFailed \<and> \<not> pend_erased t permanent c"
    using ram.set_pending_unset [OF slot] by metis
  have r: "r = Ok ()" "c' = pended t permanent c" using p(4) er by (auto simp: pend_erased_def)
  have slot': "trailer_slot t c'" using slot p(2) by (simp add: trailer_slot_def)
  have st: "swap_state_of t c' = \<lparr>ss_magic = MagicGood, ss_swap_type = swap_type_code (if permanent then SwapPerm else SwapTest),
      ss_image_num = 0, ss_copy_done = classify_flag (c ! copy_done_at t), ss_image_ok = (if permanent then FlagSet else FlagUnset)\<rparr>"
    unfolding r(2) by (rule pended_state [OF slot]) (use iok in simp)
  then have "set_pending ram_slot t again c' = Some (c', Ok ())" for again
    using ram.set_pending_good [OF slot', of again] by simp
  then show ?thesis using p r(1) st ram_read_state [OF slot'] by (auto simp: swap_type_def)
qed

theorem set_pending_requests_swap_witness:
  "\<exists>c' s. set_pending ram_slot \<lparr>tr_slot_size = 48, tr_align = 8\<rparr> True (replicate 48 0xFF) = Some (c', Ok ()) \<and>
    read_swap_state ram_slot \<lparr>tr_slot_size = 48, tr_align = 8\<rparr> c' = Some (c', Ok s) \<and>
    (\<forall>primary. swap_type primary s = SwapPerm)"
  using set_pending_requests_swap [of 48 8 "\<lparr>tr_slot_size = 48, tr_align = 8\<rparr>" "replicate 48 0xFF" True]
  by (simp add: trailer_new_iff trailer_wf_def trailer_at_defs ERASED_def) metis

text \<open>Property C28. A confirmed image is kept. Take a primary slot after a test swap (its magic good, the copy done, the block of
  its \<open>image_ok\<close> erased) and a secondary slot in which no further update is pending (its magic erased): the next boot
  would revert; after \<open>set_confirmed\<close> on \<open>RamSlot\<close> the boot loader leaves the image in
  place. Only the \<open>image_ok\<close> block changes. Confirming again writes nothing: it succeeds and leaves the bytes on
  \<open>RamSlot\<close>, and also on the same slot when every write and every erase of it fails.\<close>

theorem set_confirmed_stops_revert:
  assumes "trailer_new slot align = Some (Some t)" "length c = unat slot"
    and "read_swap_state ram_slot t c = Some (c, Ok before)"
    and "ss_magic before = MagicGood" "ss_copy_done before = FlagSet" "block_erased (image_ok_at t) (unat align) c"
    and "ss_magic secondary = MagicUnset"
  shows "swap_type before secondary = SwapRevert \<and>
    (\<exists>c' after. set_confirmed ram_slot t c = Some (c', Ok ()) \<and> read_swap_state ram_slot t c' = Some (c', Ok after) \<and>
      swap_type after secondary = SwapNone \<and> c' = put c (image_ok_at t) (byte_block t FLAG_SET) \<and>
      length c' = length c \<and> set_confirmed ram_slot t c' = Some (c', Ok ()) \<and>
      set_confirmed read_only_slot t c' = Some (c', Ok ()))"
proof -
  note slot = trailer_new_slot [OF assms(1,2)]
  then have wf: "trailer_wf t" and len: "length c = unat (tr_slot_size t)" by (auto simp: trailer_slot_def)
  have al: "tr_align t = align" using assms(1) by (auto simp: trailer_new_iff split: if_splits)
  note ord = trailer_order [OF wf]
  have b: "before = swap_state_of t c" using ram_read_state [OF slot] assms(3) by simp
  have er: "block_erased (image_ok_at t) (unat (tr_align t)) c" using assms(6) al by simp
  have fit: "image_ok_at t + unat (tr_align t) \<le> length c" using ord len by simp
  obtain c' where c': "set_confirmed ram_slot t c = Some (c', Ok ())" "c' = put c (image_ok_at t) (byte_block t FLAG_SET)"
    using ram.set_confirmed_confirms [OF slot _ er] assms(4) b by metis
  have l: "length c' = length c" unfolding c'(2) using fit by (simp add: length_blocks [OF wf])
  then have slot': "trailer_slot t c'" using slot by (simp add: trailer_slot_def)
  have m: "subslice c' (magic_at t) 16 = subslice c (magic_at t) 16"
    unfolding c'(2) using ord len fit by (simp add: length_blocks [OF wf])
  have n: "c' ! image_ok_at t = FLAG_SET" "c' ! copy_done_at t = c ! copy_done_at t"
    unfolding c'(2) using ord fit by (auto simp: nth_put length_blocks [OF wf]) (simp add: byte_block_def)
  have st: "ss_magic (swap_state_of t c') = MagicGood" "ss_image_ok (swap_state_of t c') = FlagSet"
    using m n assms(4) b by (simp_all add: swap_state_of_def classify_flag_def ERASED_def FLAG_SET_def)
  have "c ! image_ok_at t = ERASED" using block_erased_nth [OF er, of 0] ord len by simp
  then have "ss_image_ok before = FlagUnset" using b by (simp add: swap_state_of_def classify_flag_def)
  moreover have "set_confirmed ram_slot t c' = Some (c', Ok ())"
    using ram.set_confirmed_keeps [OF slot'] st by simp
  moreover have "set_confirmed read_only_slot t c' = Some (c', Ok ())"
    using read_only_good(2) [OF ram_read_state [OF slot'] st(1)] st(2) by simp
  ultimately show ?thesis
    using assms(4,5,7) c' l st ram_read_state [OF slot'] by (simp add: swap_type_def)
qed

theorem set_confirmed_stops_revert_witness:
  "let c = replicate 16 0xFF @ 1 # replicate 15 0xFF @ MAGIC_ALIGN_8; t = \<lparr>tr_slot_size = 48, tr_align = 8\<rparr>;
       before = \<lparr>ss_magic = MagicGood, ss_swap_type = 1, ss_image_num = 0, ss_copy_done = FlagSet, ss_image_ok = FlagUnset\<rparr>;
       secondary = \<lparr>ss_magic = MagicUnset, ss_swap_type = 1, ss_image_num = 0, ss_copy_done = FlagUnset, ss_image_ok = FlagUnset\<rparr>
   in swap_type before secondary = SwapRevert \<and> (\<exists>c' after. set_confirmed ram_slot t c = Some (c', Ok ()) \<and>
     read_swap_state ram_slot t c' = Some (c', Ok after) \<and> swap_type after secondary = SwapNone)"
proof -
  let ?c = "replicate 16 0xFF @ 1 # replicate 15 0xFF @ MAGIC_ALIGN_8" and ?t = "\<lparr>tr_slot_size = 48, tr_align = 8\<rparr>"
    and ?b = "\<lparr>ss_magic = MagicGood, ss_swap_type = 1, ss_image_num = 0, ss_copy_done = FlagSet, ss_image_ok = FlagUnset\<rparr>"
    and ?s = "\<lparr>ss_magic = MagicUnset, ss_swap_type = 1, ss_image_num = 0, ss_copy_done = FlagUnset, ss_image_ok = FlagUnset\<rparr>"
  have "trailer_new 48 8 = Some (Some ?t)" by (simp add: trailer_new_iff trailer_wf_def)
  moreover have "length ?c = unat (48 :: u32)" by (simp add: MAGIC_ALIGN_8_def)
  moreover have "read_swap_state ram_slot ?t ?c = Some (?c, Ok ?b)" by code_simp
  moreover have "block_erased (image_ok_at ?t) (unat (8 :: u32)) ?c" by code_simp
  ultimately show ?thesis
    using set_confirmed_stops_revert [of 48 8 ?t ?c ?b ?s] by (simp add: Let_def) metis
qed

text \<open>Property C29. On every slot of \<open>RamSlot\<close>, whatever its bytes, both operations return (no arithmetic overflows, no
  index is out of range), keep its size, and answer by the magic as the table of the module says. A good one makes
  \<open>set_pending\<close> a success that writes nothing, which also succeeds when every write and erase fails; \<open>set_confirmed\<close>
  is that too when \<open>image_ok\<close> is already written, and otherwise writes the \<open>image_ok\<close> block, which only a block that is
  not erased makes fail. A bad one makes \<open>set_pending\<close> erase the
  whole slot (every byte, when the slot is a number of pages; otherwise \<open>RamSlot\<close> refuses the erase and the bytes stay) and
  report \<open>BadImage\<close>, and \<open>set_confirmed\<close> leave it and report \<open>BadVect\<close>. An erased one makes
  \<open>set_confirmed\<close> do nothing and \<open>set_pending\<close> write the mark, where only bytes that were not erased make it fail,
  and never touches the bytes below the trailer fields.\<close>

theorem trailer_operations_total:
  assumes "trailer_new slot align = Some (Some t)" "length c = unat slot"
  shows "\<exists>s p r d q. read_swap_state ram_slot t c = Some (c, Ok s) \<and>
    set_pending ram_slot t permanent c = Some (p, r) \<and> set_confirmed ram_slot t c = Some (d, q) \<and>
    length p = length c \<and> length d = length c \<and>
    (case ss_magic s of
      MagicGood \<Rightarrow> p = c \<and> r = Ok () \<and> set_pending read_only_slot t permanent c = Some (c, Ok ()) \<and>
        (if ss_image_ok s \<noteq> FlagUnset then d = c \<and> q = Ok () \<and> set_confirmed read_only_slot t c = Some (c, Ok ())
         else q = Ok () \<and> d = put c (image_ok_at t) (byte_block t FLAG_SET) \<or>
           q = Err FlashFailed \<and> \<not> block_erased (image_ok_at t) (unat (tr_align t)) c)
    | MagicBad \<Rightarrow> p = (if tr_slot_size t mod PAGE_SIZE = 0 then replicate (length c) ERASED else c) \<and> r = Err BadImage \<and>
        d = c \<and> q = Err BadVect \<and> set_confirmed read_only_slot t c = Some (c, Err BadVect)
    | MagicUnset \<Rightarrow> take (swap_info_at t) p = take (swap_info_at t) c \<and>
        (r = Ok () \<and> p = pended t permanent c \<or> r = Err FlashFailed \<and> \<not> pend_erased t permanent c) \<and>
        d = c \<and> q = Ok () \<and> set_confirmed read_only_slot t c = Some (c, Ok ()))"
proof -
  note slot = trailer_new_slot [OF assms]
  note read = ram_read_state [OF slot]
  show ?thesis
  proof (cases "ss_magic (swap_state_of t c)")
    case MagicGood
    obtain d q where "set_confirmed ram_slot t c = Some (d, q)" "length d = length c"
      "if ss_image_ok (swap_state_of t c) \<noteq> FlagUnset then d = c \<and> q = Ok ()
       else q = Ok () \<and> d = put c (image_ok_at t) (byte_block t FLAG_SET) \<or>
         q = Err FlashFailed \<and> \<not> block_erased (image_ok_at t) (unat (tr_align t)) c"
      by (rule ram.set_confirmed_total [OF slot MagicGood]) (rule that)
    then show ?thesis
      using read ram.set_pending_good [OF slot MagicGood, of permanent] MagicGood read_only_good [OF read MagicGood]
      by (auto split: if_splits)
  next
    case MagicBad
    have "set_confirmed read_only_slot t c = set_confirmed ram_slot t c"
      using read_only_unmarked [OF read] MagicBad by simp
    then show ?thesis
      using read ram_set_pending_bad [OF slot MagicBad, of permanent] ram.set_confirmed_bad [OF slot MagicBad] MagicBad slot
      by (simp add: trailer_slot_def)
  next
    case MagicUnset
    obtain p r where "set_pending ram_slot t permanent c = Some (p, r)" "length p = length c"
        "take (swap_info_at t) p = take (swap_info_at t) c"
        "r = Ok () \<and> p = pended t permanent c \<or> r = Err FlashFailed \<and> \<not> pend_erased t permanent c"
      using ram.set_pending_unset [OF slot MagicUnset] by metis
    moreover have "set_confirmed read_only_slot t c = set_confirmed ram_slot t c"
      using read_only_unmarked [OF read] MagicUnset by simp
    ultimately show ?thesis using read ram.set_confirmed_keeps [OF slot] MagicUnset by auto
  qed
qed

theorem trailer_operations_total_witness:
  "set_pending ram_slot \<lparr>tr_slot_size = 0x2000, tr_align = 16\<rparr> False (replicate 8192 0) =
      Some (replicate 8192 ERASED, Err BadImage) \<and>
    set_confirmed ram_slot \<lparr>tr_slot_size = 0x2000, tr_align = 16\<rparr> (replicate 8192 0) = Some (replicate 8192 0, Err BadVect)"
proof -
  let ?t = "\<lparr>tr_slot_size = 0x2000, tr_align = 16\<rparr> :: Trailer" and ?c = "replicate 8192 0 :: bytes"
  have t: "trailer_new 0x2000 16 = Some (Some ?t)" by (simp add: trailer_new_iff trailer_wf_def)
  have len: "length ?c = unat (0x2000 :: u32)" by simp
  have "subslice ?c 8176 16 = replicate 16 0" by (simp add: subslice_def)
  moreover have "replicate 16 0 \<noteq> replicate 16 ERASED" "replicate 16 0 \<noteq> trailer_magic ?t"
    by (simp_all add: ERASED_def) code_simp
  ultimately have "ss_magic (swap_state_of ?t ?c) = MagicBad"
    by (simp add: swap_state_of_def classify_magic_def MAGIC_SIZE_def magic_at_def)
  then show ?thesis
    using trailer_operations_total [OF t len, of False] ram_read_state [OF trailer_new_slot [OF t len]]
    by (simp add: PAGE_SIZE_def)
qed

end
