(* ===== verification/Elf_Flat.thy ===== *)
theory Elf_Flat
  imports Le Bounded_Array Mcuboot_Image Mcuboot_Trailer "HOL-Library.Multiset"
begin

text \<open>
  The crate \<open>bm-image\<close>, \<open>elf.rs\<close>: the loaded sections of an ELF file, and the flat binary made of them. The
  errors of the crate (\<open>lib.rs\<close>) are here too. A read past a table entry, a slice out of range and an addition
  that overflows are panics, \<^const>\<open>None\<close>. The loaded sections are specified a second time, from the raw
  fields at their offsets in the file, and the routine gives exactly those.
\<close>

section \<open>Errors\<close>

datatype ImageError =
  ElfBad string
| NothingAt u32
| SectionBelow u32 u32
| Overlap u32
| NoVersion
| TooLong nat nat
| BootloaderTooLong nat
| NotAnImage
| TlvBad TlvError
| KeyBad string

type_synonym 'a image_result = "(ImageError, 'a) result option"

section \<open>Reading the file\<close>

definition SHT_NOBITS :: u32 where "SHT_NOBITS = 8"
definition SHF_ALLOC :: u32 where "SHF_ALLOC = 2"
definition PT_LOAD :: u32 where "PT_LOAD = 1"
definition PHDR_SIZE :: nat where "PHDR_SIZE = 32"
definition SHDR_SIZE :: nat where "SHDR_SIZE = 40"

definition is_elf :: "bytes \<Rightarrow> bool" where
  "is_elf file \<longleftrightarrow> take 4 file = [0x7F, 0x45, 0x4C, 0x46]"

definition elf_word :: "bytes \<Rightarrow> nat \<Rightarrow> u32 option" where "elf_word b at = u32_at b at"
definition elf_half :: "bytes \<Rightarrow> nat \<Rightarrow> u16 option" where "elf_half b at = u16_at b at"

definition elf_table :: "bytes \<Rightarrow> nat \<Rightarrow> nat \<Rightarrow> nat \<Rightarrow> nat \<Rightarrow> bytes list image_result" where
  "elf_table elf off_at size_at count_at min_size = (case range_at elf 0 52 of
     None \<Rightarrow> Some (Err (ElfBad ''shorter than its header''))
   | Some header \<Rightarrow> do {
       off \<leftarrow> elf_word header off_at;
       esize \<leftarrow> elf_half header size_at;
       count \<leftarrow> elf_half header count_at;
       if count = 0 then Some (Ok [])
       else if unat esize < min_size then Some (Err (ElfBad ''a header table's entries are too short''))
       else case range_at elf (unat off) (unat off + unat esize * unat count) of
         None \<Rightarrow> Some (Err (ElfBad ''a header table is outside the file''))
       | Some b \<Rightarrow> Some (Ok (chunks (unat esize) b))
     })"

text \<open>The address of a section in the first \<open>PT_LOAD\<close> segment that holds its bytes; \<open>Some None\<close> when none does.\<close>

fun find_load :: "bytes list \<Rightarrow> u32 \<Rightarrow> nat \<Rightarrow> u32 option option" where
  "find_load [] offset stop = Some None"
| "find_load (ph # phs) offset stop = do {
     kind \<leftarrow> elf_word ph 0;
     if kind \<noteq> PT_LOAD then find_load phs offset stop
     else do {
       p_offset \<leftarrow> elf_word ph 4;
       p_paddr \<leftarrow> elf_word ph 12;
       p_filesz \<leftarrow> elf_word ph 16;
       if offset \<ge> p_offset \<and> stop \<le> unat p_offset + unat p_filesz then Some (Some (p_paddr + (offset - p_offset)))
       else find_load phs offset stop
     }
   }"

text \<open>The loop over the section headers.\<close>

fun collect_sections :: "bytes \<Rightarrow> bytes list \<Rightarrow> bytes list \<Rightarrow> (u32 \<times> bytes) list image_result" where
  "collect_sections elf segments [] = Some (Ok [])"
| "collect_sections elf segments (sh # headers) = do {
     kind \<leftarrow> elf_word sh 4;
     flags \<leftarrow> elf_word sh 8;
     addr \<leftarrow> elf_word sh 12;
     offset \<leftarrow> elf_word sh 16;
     size' \<leftarrow> elf_word sh 20;
     if flags AND SHF_ALLOC = 0 \<or> kind = SHT_NOBITS \<or> size' = 0 then collect_sections elf segments headers
     else let stop = unat offset + unat size' in
       case range_at elf (unat offset) stop of
         None \<Rightarrow> Some (Err (ElfBad ''a section's bytes are outside the file''))
       | Some data \<Rightarrow> do {
           found \<leftarrow> find_load segments offset stop;
           let load = (case found of Some l \<Rightarrow> l | None \<Rightarrow> addr);
           if unat load + unat size' > 2 ^ 32 then Some (Err (ElfBad ''a section wraps the address space''))
           else do {
             rest \<leftarrow> collect_sections elf segments headers;
             try_ok rest (\<lambda>rest. Some (Ok ((load, data) # rest)))
           }
         }
   }"

definition elf_sections :: "bytes \<Rightarrow> (u32 \<times> bytes) list image_result" where
  "elf_sections elf = (
     if \<not> is_elf elf then Some (Err (ElfBad ''no ELF magic''))
     else if range_at elf 4 6 \<noteq> Some [1, 1] then Some (Err (ElfBad ''not 32-bit little-endian''))
     else do {
       segments \<leftarrow> elf_table elf 28 42 44 PHDR_SIZE;
       try_ok segments (\<lambda>segments. do {
         headers \<leftarrow> elf_table elf 32 46 48 SHDR_SIZE;
         try_ok headers (\<lambda>headers. do {
           out \<leftarrow> collect_sections elf segments headers;
           try_ok out (\<lambda>out. Some (Ok (sort_key fst out)))
         })
       })
     })"

section \<open>The flat binary\<close>

definition flat_len :: "u32 \<Rightarrow> (u32 \<times> bytes) list \<Rightarrow> nat" where
  "flat_len base secs = fold (\<lambda>(addr, data) n. max n (unat (addr - base) + length data)) secs 0"

fun place_sections :: "u32 \<Rightarrow> bytes \<Rightarrow> u32 \<Rightarrow> (u32 \<times> bytes) list \<Rightarrow> bytes image_result" where
  "place_sections base out stop [] = Some (Ok out)"
| "place_sections base out stop ((addr, data) # secs) = (
     if addr < stop then Some (Err (Overlap addr))
     else do {
       out \<leftarrow> copy_at out (unat (addr - base)) data;
       stop \<leftarrow> u32_add addr (of_nat (length data));
       place_sections base out stop secs
     })"

definition elf_flat :: "bytes \<Rightarrow> u32 \<Rightarrow> u8 \<Rightarrow> nat \<Rightarrow> bytes image_result" where
  "elf_flat elf base fill max_len = do {
     secs \<leftarrow> elf_sections elf;
     try_ok secs (\<lambda>secs.
       case find (\<lambda>s. fst s < base) secs of
         Some s \<Rightarrow> Some (Err (SectionBelow (fst s) base))
       | None \<Rightarrow>
           if \<not> list_ex (\<lambda>s. fst s = base) secs then Some (Err (NothingAt base))
           else let n = flat_len base secs in
             if n > max_len then Some (Err (TooLong n max_len))
             else place_sections base (replicate n fill) base secs)
   }"

section \<open>No panic while reading\<close>

lemma elf_word_in: "at + 4 \<le> length b \<Longrightarrow> \<exists>w. elf_word b at = Some w"
  by (simp add: elf_word_def buf_simps)

lemma elf_half_in: "at + 2 \<le> length b \<Longrightarrow> \<exists>w. elf_half b at = Some w"
  by (simp add: elf_half_def buf_simps)

lemma chunks_lengths: "x \<in> set (chunks n xs) \<Longrightarrow> length x = n"
proof (induction n xs rule: chunks.induct)
  case (1 n xs)
  then show ?case by (subst (asm) (2) chunks.simps) (auto split: if_splits)
qed

lemma elf_table_ok:
  assumes "off_at + 4 \<le> 52" "size_at + 2 \<le> 52" "count_at + 2 \<le> 52"
  obtains e where "elf_table elf off_at size_at count_at m = Some (Err e)"
  | es where "elf_table elf off_at size_at count_at m = Some (Ok es)" "\<forall>x\<in>set es. m \<le> length x"
proof (cases "range_at elf 0 52")
  case None
  then show ?thesis using that(1) by (simp add: elf_table_def)
next
  case (Some header)
  then have l: "length header = 52" by (auto simp: range_at_def split: if_splits)
  obtain off es count where r: "elf_word header off_at = Some off" "elf_half header size_at = Some es"
      "elf_half header count_at = Some count"
    using elf_word_in [of off_at header] elf_half_in [of size_at header] elf_half_in [of count_at header] l assms by auto
  have big: "\<not> unat es < m \<Longrightarrow> \<forall>x\<in>set (chunks (unat es) b). m \<le> length x" for b
    using chunks_lengths [of _ "unat es" b] by auto
  show ?thesis
    using that Some r big
    by (cases "count = 0"; cases "unat es < m"; cases "range_at elf (unat off) (unat off + unat es * unat count)")
      (auto simp: elf_table_def)
qed

lemma find_load_total: "(\<And>x. x \<in> set phs \<Longrightarrow> 32 \<le> length x) \<Longrightarrow> \<exists>r. find_load phs offset stop = Some r"
proof (induction phs)
  case Nil
  then show ?case by simp
next
  case (Cons ph phs)
  have l: "32 \<le> length ph" using Cons.prems by simp
  obtain a b c d where "elf_word ph 0 = Some a" "elf_word ph 4 = Some b" "elf_word ph 12 = Some c" "elf_word ph 16 = Some d"
    using elf_word_in [of 0 ph] elf_word_in [of 4 ph] elf_word_in [of 12 ph] elf_word_in [of 16 ph] l by auto
  with Cons show ?case by simp
qed

text \<open>What a collected section is: bytes of the file, not empty, and an address from which they do not pass the
  top of the address space.\<close>

definition section_wf :: "bytes \<Rightarrow> u32 \<times> bytes \<Rightarrow> bool" where
  "section_wf elf s \<longleftrightarrow> snd s \<noteq> [] \<and> length (snd s) < 2 ^ 32 \<and> unat (fst s) + length (snd s) \<le> 2 ^ 32 \<and>
     (\<exists>p. p + length (snd s) \<le> length elf \<and> snd s = subslice elf p (length (snd s)))"

lemma collect_sections_wf:
  assumes "\<And>x. x \<in> set phs \<Longrightarrow> 32 \<le> length x"
  shows "(\<And>x. x \<in> set shs \<Longrightarrow> 40 \<le> length x) \<Longrightarrow>
    \<exists>r. collect_sections elf phs shs = Some r \<and> (\<forall>secs. r = Ok secs \<longrightarrow> (\<forall>s\<in>set secs. section_wf elf s))"
proof (induction shs)
  case Nil
  then show ?case by simp
next
  case (Cons sh shs)
  have l: "40 \<le> length sh" using Cons.prems by simp
  obtain kind flags addr offset n where w: "elf_word sh 4 = Some kind" "elf_word sh 8 = Some flags"
      "elf_word sh 12 = Some addr" "elf_word sh 16 = Some offset" "elf_word sh 20 = Some n"
    using elf_word_in [of 4 sh] elf_word_in [of 8 sh] elf_word_in [of 12 sh] elf_word_in [of 16 sh] elf_word_in [of 20 sh] l by auto
  obtain r where r: "collect_sections elf phs shs = Some r" "\<forall>secs. r = Ok secs \<longrightarrow> (\<forall>s\<in>set secs. section_wf elf s)"
    using Cons by auto
  show ?case
  proof (cases "flags AND SHF_ALLOC = 0 \<or> kind = SHT_NOBITS \<or> n = 0")
    case True
    then show ?thesis using w r by simp
  next
    case keep: False
    show ?thesis
    proof (cases "range_at elf (unat offset) (unat offset + unat n)")
      case None
      then show ?thesis using w keep by simp
    next
      case (Some data)
      obtain found where f: "find_load phs offset (unat offset + unat n) = Some found"
        using find_load_total [of phs offset "unat offset + unat n"] assms by auto
      have d: "length data = unat n" "data = subslice elf (unat offset) (unat n)" "unat offset + unat n \<le> length elf"
        using Some by (auto simp: range_at_def split: if_splits)
      have n32: "unat n < 2 ^ 32"
      proof -
        have "unat n < 2 ^ LENGTH(32)" by (rule unsigned_less)
        then show ?thesis by simp
      qed
      have "0 < unat n" using keep by (simp add: unat_gt_0)
      then have "data \<noteq> []" using d(1) by auto
      then have wf: "unat a + unat n \<le> 2 ^ 32 \<Longrightarrow> section_wf elf (a, data)" for a
        using d n32 by (auto simp: section_wf_def)
      show ?thesis using w keep Some f r wf by (cases r) (auto split: option.splits)
    qed
  qed
qed

lemma elf_sections_wf:
  obtains e where "elf_sections elf = Some (Err e)"
  | secs where "elf_sections elf = Some (Ok secs)" "sorted (map fst secs)" "\<forall>s\<in>set secs. section_wf elf s"
proof (cases "is_elf elf \<and> range_at elf 4 6 = Some [1, 1]")
  case False
  then have "\<exists>e. elf_sections elf = Some (Err e)" by (simp add: elf_sections_def)
  then show ?thesis using that(1) by blast
next
  case True
  show ?thesis
  proof (rule elf_table_ok [of 28 42 44 elf PHDR_SIZE])
    fix e assume "elf_table elf 28 42 44 PHDR_SIZE = Some (Err e)"
    then show ?thesis using True that(1) by (simp add: elf_sections_def)
  next
    fix phs assume p: "elf_table elf 28 42 44 PHDR_SIZE = Some (Ok phs)" "\<forall>x\<in>set phs. PHDR_SIZE \<le> length x"
    show ?thesis
    proof (rule elf_table_ok [of 32 46 48 elf SHDR_SIZE])
      fix e assume "elf_table elf 32 46 48 SHDR_SIZE = Some (Err e)"
      then show ?thesis using True p that(1) by (simp add: elf_sections_def)
    next
      fix shs assume s: "elf_table elf 32 46 48 SHDR_SIZE = Some (Ok shs)" "\<forall>x\<in>set shs. SHDR_SIZE \<le> length x"
      obtain r where "collect_sections elf phs shs = Some r" "\<forall>secs. r = Ok secs \<longrightarrow> (\<forall>s\<in>set secs. section_wf elf s)"
        using collect_sections_wf [of phs shs elf] p(2) s(2) by (auto simp: PHDR_SIZE_def SHDR_SIZE_def)
      then have "elf_sections elf = Some (case r of Ok secs \<Rightarrow> Ok (sort_key fst secs) | Err e \<Rightarrow> Err e)"
          "\<forall>secs. r = Ok secs \<longrightarrow> (\<forall>s\<in>set (sort_key fst secs). section_wf elf s)"
        using True p(1) s(1) by (simp_all add: elf_sections_def split: result.splits)
      then show ?thesis using that(1) that(2) [of "sort_key fst (the_ok r)"] by (cases r) simp_all
    qed auto
  qed auto
qed

section \<open>What the flat binary holds\<close>

text \<open>Section \<open>s\<close> ends before \<open>t\<close> starts; the place of a section in the binary.\<close>

definition ends_before :: "u32 \<times> bytes \<Rightarrow> u32 \<times> bytes \<Rightarrow> bool" where
  "ends_before s t \<longleftrightarrow> unat (fst s) + length (snd s) \<le> unat (fst t)"

definition place_of :: "u32 \<Rightarrow> u32 \<times> bytes \<Rightarrow> nat" where
  "place_of base s = unat (fst s) - unat base"

lemma unat_minus: "b \<le> a \<Longrightarrow> unat (a - b :: u32) = unat a - unat b"
  by (simp add: unat_sub)

lemma flat_len_ge_acc: "n \<le> fold (\<lambda>(addr, data) n. max n (unat (addr - base) + length data)) secs n"
proof (induction secs arbitrary: n)
  case (Cons s secs)
  from Cons [of "max n (unat (fst s - base) + length (snd s))"] show ?case by (cases s) auto
qed simp

lemma flat_len_fits:
  "s \<in> set secs \<Longrightarrow> unat (fst s - base) + length (snd s) \<le> fold (\<lambda>(addr, data) n. max n (unat (addr - base) + length data)) secs n"
proof (induction secs arbitrary: n)
  case (Cons t secs)
  show ?case
  proof (cases "s = t")
    case True
    then show ?thesis using flat_len_ge_acc [of "max n (unat (fst s - base) + length (snd s))" base secs] by (cases t) auto
  next
    case False
    with Cons.prems have "s \<in> set secs" by simp
    from Cons.IH [OF this, of "max n (unat (fst t - base) + length (snd t))"] show ?thesis by (cases t) simp
  qed
qed simp

lemma place_sections_ok:
  assumes "place_sections base out stop secs = Some (Ok out')" "base \<le> stop" "\<forall>s\<in>set secs. length (snd s) < 2 ^ 32"
  shows "length out' = length out \<and> take (unat stop - unat base) out' = take (unat stop - unat base) out \<and>
    sorted_wrt ends_before secs \<and>
    (\<forall>s\<in>set secs. stop \<le> fst s \<and> subslice out' (place_of base s) (length (snd s)) = snd s) \<and>
    (\<forall>i<length out. (\<forall>s\<in>set secs. i < place_of base s \<or> place_of base s + length (snd s) \<le> i) \<longrightarrow> out' ! i = out ! i)"
  using assms
proof (induction base out stop secs rule: place_sections.induct)
  case (1 base out stop)
  then show ?case by simp
next
  case (2 base out stop addr data secs)
  let ?p = "unat addr - unat base"
  have a: "stop \<le> addr" using "2.prems"(1) by (auto split: if_splits)
  then have b: "base \<le> addr" using "2.prems"(2) by simp
  note p = unat_minus [OF b]
  have l32: "unat (of_nat (length data) :: u32) = length data"
    using "2.prems"(3) by (simp add: unat_u32)
  from "2.prems"(1) a p obtain stop' where c: "?p + length data \<le> length out" "u32_add addr (of_nat (length data)) = Some stop'"
      "place_sections base (put out ?p data) stop' secs = Some (Ok out')"
    by (auto simp: copy_at_def split: if_splits Option.bind_splits)
  have e: "unat stop' = unat addr + length data" "stop' = addr + of_nat (length data)"
    using c(2) l32 by (auto simp: u32_add_def unat_word_ariths split: if_splits)
  have bs: "base \<le> stop'" using b e(1) by (simp add: word_le_nat_alt)
  have ca: "copy_at out (unat (addr - base)) data = Some (put out ?p data)" using c(1) p by (simp add: copy_at_def)
  have ih: "length out' = length (put out ?p data)" "take (unat stop' - unat base) out' = take (unat stop' - unat base) (put out ?p data)"
      "sorted_wrt ends_before secs"
      "\<forall>s\<in>set secs. stop' \<le> fst s \<and> subslice out' (place_of base s) (length (snd s)) = snd s"
      "\<forall>i<length (put out ?p data). (\<forall>s\<in>set secs. i < place_of base s \<or> place_of base s + length (snd s) \<le> i) \<longrightarrow>
        out' ! i = put out ?p data ! i"
    using "2.IH" [OF _ ca c(2) c(3) bs] a "2.prems"(3) by (auto simp: linorder_not_less)
  have q: "unat base \<le> unat addr" "unat stop \<le> unat addr" using a b by (simp_all add: word_le_nat_alt)
  have "take (unat stop - unat base) out' = take (unat stop - unat base) (take (unat stop' - unat base) out')"
    using q e by (simp add: min_def)
  also have "\<dots> = take (unat stop - unat base) (put out ?p data)" unfolding ih(2) using q e by (simp add: min_def)
  also have "\<dots> = take (unat stop - unat base) out" by (rule take_put) (use q c(1) in linarith)+
  finally have keep: "take (unat stop - unat base) out' = take (unat stop - unat base) out" .
  have "subslice out' ?p (length data) = subslice (take (unat stop' - unat base) out') ?p (length data)"
    using q e by (simp add: subslice_def drop_take min_def)
  also have "\<dots> = subslice (put out ?p data) ?p (length data)" unfolding ih(2) using q e by (simp add: subslice_def drop_take min_def)
  finally have here: "subslice out' ?p (length data) = data" using c(1) by simp
  have "\<forall>s\<in>set secs. ends_before (addr, data) s" using ih(4) e(1) by (auto simp: ends_before_def word_le_nat_alt)
  moreover have "\<forall>s\<in>set secs. stop \<le> fst s" using ih(4) e(1) q by (auto simp: word_le_nat_alt)
  moreover have "out' ! i = out ! i"
    if "i < length out" "\<forall>s\<in>set ((addr, data) # secs). i < place_of base s \<or> place_of base s + length (snd s) \<le> i" for i
    using ih(5) that c(1) by (auto simp: nth_put place_of_def)
  ultimately show ?case using ih keep here a c(1) by (auto simp: place_of_def)
qed

lemma place_sections_total:
  "\<forall>s\<in>set secs. base \<le> fst s \<and> unat (fst s) + length (snd s) < 2 ^ 32 \<and> place_of base s + length (snd s) \<le> length out \<Longrightarrow>
   \<exists>r. place_sections base out stop secs = Some r"
proof (induction base out stop secs rule: place_sections.induct)
  case (1 base out stop)
  then show ?case by simp
next
  case (2 base out stop addr data secs)
  have h: "base \<le> addr" "unat addr + length data < 2 ^ 32" "unat addr - unat base + length data \<le> length out"
    using "2.prems" by (auto simp: place_of_def)
  have "copy_at out (unat (addr - base)) data = Some (put out (unat addr - unat base) data)"
    using h(3) unat_minus [OF h(1)] by (simp add: copy_at_def)
  moreover have "u32_add addr (of_nat (length data)) = Some (addr + of_nat (length data))"
    using h(2) by (simp add: u32_add_def unat_u32)
  moreover have "\<not> addr < stop \<Longrightarrow> \<exists>r. place_sections base (put out (unat addr - unat base) data) (addr + of_nat (length data)) secs = Some r"
    using "2.IH" calculation "2.prems" h(3) by auto
  ultimately show ?case by auto
qed

lemma elf_flat_cases:
  assumes "unat base + max_len < 2 ^ 32"
  obtains e where "elf_flat elf base fill max_len = Some (Err e)"
  | out secs where "elf_flat elf base fill max_len = Some (Ok out)" "elf_sections elf = Some (Ok secs)"
    "sorted (map fst secs)" "sorted_wrt ends_before secs" "\<exists>s\<in>set secs. fst s = base"
    "length out = flat_len base secs" "length out \<le> max_len"
    "\<forall>s\<in>set secs. base \<le> fst s \<and> section_wf elf s \<and> subslice out (place_of base s) (length (snd s)) = snd s"
    "\<forall>i<length out. (\<forall>s\<in>set secs. i < place_of base s \<or> place_of base s + length (snd s) \<le> i) \<longrightarrow> out ! i = fill"
proof (rule elf_sections_wf [of elf])
  fix e assume "elf_sections elf = Some (Err e)"
  then show ?thesis using that(1) by (simp add: elf_flat_def)
next
  fix secs assume secs: "elf_sections elf = Some (Ok secs)" "sorted (map fst secs)" "\<forall>s\<in>set secs. section_wf elf s"
  show ?thesis
  proof (cases "(\<exists>s\<in>set secs. fst s < base) \<or> \<not> list_ex (\<lambda>s. fst s = base) secs \<or> flat_len base secs > max_len")
    case True
    then have "\<exists>e. elf_flat elf base fill max_len = Some (Err e)"
      using secs(1) by (auto simp: elf_flat_def Let_def find_None_iff split: option.splits)
    then show ?thesis using that(1) by blast
  next
    case False
    then have low: "\<forall>s\<in>set secs. base \<le> fst s" and at: "\<exists>s\<in>set secs. fst s = base" and n: "flat_len base secs \<le> max_len"
      by (auto simp: list_ex_iff)
    let ?out = "replicate (flat_len base secs) fill"
    have "find (\<lambda>s. fst s < base) secs = None" using low by (auto simp: find_None_iff)
    then have f: "elf_flat elf base fill max_len = place_sections base ?out base secs"
      using secs(1) False by (simp add: elf_flat_def Let_def)
    have fits: "place_of base s + length (snd s) \<le> flat_len base secs" if "s \<in> set secs" for s
      using flat_len_fits [OF that, of base 0] unat_minus [of base "fst s"] low that by (simp add: flat_len_def place_of_def)
    have "\<forall>s\<in>set secs. base \<le> fst s \<and> unat (fst s) + length (snd s) < 2 ^ 32 \<and> place_of base s + length (snd s) \<le> length ?out"
      using fits low n assms by (fastforce simp: place_of_def word_le_nat_alt)
    then obtain r where r: "place_sections base ?out base secs = Some r" using place_sections_total by blast
    have len: "\<forall>s\<in>set secs. length (snd s) < 2 ^ 32" using secs(3) by (simp add: section_wf_def)
    show ?thesis
    proof (cases r)
      case (Err e)
      then show ?thesis using f r that(1) by simp
    next
      case (Ok out)
      with r have p: "place_sections base ?out base secs = Some (Ok out)" by simp
      show ?thesis
        by (rule that(2) [of out secs]) (use place_sections_ok [OF p _ len] f p secs low at n in auto)
    qed
  qed
qed

section \<open>The sections, from the raw fields of the file\<close>

text \<open>What the format says, as functions of the bytes of the file: the fields at their offsets, the loaded sections by the
  number of their header, and when the file has them. Nothing here runs over entries or stops at one.\<close>

definition raw16 :: "bytes \<Rightarrow> nat \<Rightarrow> nat" where "raw16 b p = unat (from_le (subslice b p 2) :: u16)"
definition raw32 :: "bytes \<Rightarrow> nat \<Rightarrow> u32" where "raw32 b p = from_le (subslice b p 4)"

definition ph_at :: "bytes \<Rightarrow> nat \<Rightarrow> nat" where "ph_at elf k = unat (raw32 elf 28) + k * raw16 elf 42"
definition sh_at :: "bytes \<Rightarrow> nat \<Rightarrow> nat" where "sh_at elf i = unat (raw32 elf 32) + i * raw16 elf 46"

text \<open>A section header is loaded when it is \<open>SHF_ALLOC\<close> (bit 1 of the flags), not \<open>SHT_NOBITS\<close> (8) and not empty.\<close>

definition sh_loaded :: "bytes \<Rightarrow> nat \<Rightarrow> bool" where
  "sh_loaded elf i \<longleftrightarrow> bit (raw32 elf (sh_at elf i + 8)) 1 \<and> raw32 elf (sh_at elf i + 4) \<noteq> 8 \<and> raw32 elf (sh_at elf i + 20) \<noteq> 0"

definition sh_offset :: "bytes \<Rightarrow> nat \<Rightarrow> nat" where "sh_offset elf i = unat (raw32 elf (sh_at elf i + 16))"
definition sh_bytes :: "bytes \<Rightarrow> nat \<Rightarrow> nat" where "sh_bytes elf i = unat (raw32 elf (sh_at elf i + 20))"

text \<open>A \<open>PT_LOAD\<close> (1) segment holds the bytes of a section; the section is at the physical address the first
  such segment gives it, or at its own address.\<close>

definition ph_holds :: "bytes \<Rightarrow> nat \<Rightarrow> nat \<Rightarrow> bool" where
  "ph_holds elf i k \<longleftrightarrow> raw32 elf (ph_at elf k) = 1 \<and> unat (raw32 elf (ph_at elf k + 4)) \<le> sh_offset elf i \<and>
     sh_offset elf i + sh_bytes elf i \<le> unat (raw32 elf (ph_at elf k + 4)) + unat (raw32 elf (ph_at elf k + 16))"

definition load_addr :: "bytes \<Rightarrow> nat \<Rightarrow> u32" where
  "load_addr elf i = (case find (ph_holds elf i) [0..<raw16 elf 44] of
     Some k \<Rightarrow> raw32 elf (ph_at elf k + 12) + (of_nat (sh_offset elf i) - raw32 elf (ph_at elf k + 4))
   | None \<Rightarrow> raw32 elf (sh_at elf i + 12))"

definition section_at :: "bytes \<Rightarrow> nat \<Rightarrow> u32 \<times> bytes" where
  "section_at elf i = (load_addr elf i, subslice elf (sh_offset elf i) (sh_bytes elf i))"

definition loaded_sections :: "bytes \<Rightarrow> (u32 \<times> bytes) list" where
  "loaded_sections elf = sort_key fst (map (section_at elf) (filter (sh_loaded elf) [0..<raw16 elf 48]))"

text \<open>The file is what the reader takes: ELF, 32 bits, little-endian, both tables inside it and their entries long
  enough, and every loaded section inside the file and below the top of the address space.\<close>

definition section_ok :: "bytes \<Rightarrow> nat \<Rightarrow> bool" where
  "section_ok elf i \<longleftrightarrow> sh_offset elf i + sh_bytes elf i \<le> length elf \<and> unat (load_addr elf i) + sh_bytes elf i \<le> 2 ^ 32"

definition elf_valid :: "bytes \<Rightarrow> bool" where
  "elf_valid elf \<longleftrightarrow> take 6 elf = [0x7F, 0x45, 0x4C, 0x46, 1, 1] \<and> 52 \<le> length elf \<and>
     (raw16 elf 44 = 0 \<or> 32 \<le> raw16 elf 42 \<and> ph_at elf (raw16 elf 44) \<le> length elf) \<and>
     (raw16 elf 48 = 0 \<or> 40 \<le> raw16 elf 46 \<and> sh_at elf (raw16 elf 48) \<le> length elf) \<and>
     (\<forall>i<raw16 elf 48. sh_loaded elf i \<longrightarrow> section_ok elf i)"

lemma chunks_subslice:
  assumes "0 < n" "off + n * m \<le> length elf"
  shows "chunks n (subslice elf off (n * m)) = map (\<lambda>k. subslice elf (off + k * n) n) [0..<m]"
proof -
  have "subslice elf off (n * m) = concat (map (\<lambda>k. subslice elf (off + k * n) n) [0..<m])"
  proof (induction m)
    case (Suc m)
    have "subslice elf off (n * m + n) = subslice elf off (n * m) @ subslice elf (off + n * m) n" by (rule subslice_split)
    then show ?case using Suc by (simp add: mult.commute add.commute)
  qed simp
  moreover have "off + k * n + n \<le> length elf" if "k < m" for k
  proof -
    have "Suc k * n \<le> m * n" by (rule mult_le_mono1) (use that in simp)
    then show ?thesis using assms(2) by (simp add: mult.commute)
  qed
  moreover have "chunks n (concat (map (\<lambda>k. subslice elf (off + k * n) n) [0..<m])) = map (\<lambda>k. subslice elf (off + k * n) n) [0..<m]"
    by (rule chunks_concat) (use calculation assms(1) in auto)
  ultimately show ?thesis by simp
qed

lemma elf_word_raw: "p + n \<le> length elf \<Longrightarrow> at + 4 \<le> n \<Longrightarrow> elf_word (subslice elf p n) at = Some (raw32 elf (p + at))"
  by (simp add: elf_word_def raw32_def buf_simps)

lemma elf_half_raw: "p + n \<le> length elf \<Longrightarrow> at + 2 \<le> n \<Longrightarrow> elf_half (subslice elf p n) at = Some (from_le (subslice elf (p + at) 2))"
  by (simp add: elf_half_def buf_simps)

lemma elf_table_eq:
  fixes elf :: bytes
  assumes "off_at + 4 \<le> 52" "size_at + 2 \<le> 52" "count_at + 2 \<le> 52" "0 < m"
  defines "at \<equiv> \<lambda>k. unat (raw32 elf off_at) + k * raw16 elf size_at"
  shows "if 52 \<le> length elf \<and> (raw16 elf count_at = 0 \<or> m \<le> raw16 elf size_at \<and> at (raw16 elf count_at) \<le> length elf)
    then elf_table elf off_at size_at count_at m =
      Some (Ok (map (\<lambda>k. subslice elf (at k) (raw16 elf size_at)) [0..<raw16 elf count_at]))
    else \<exists>e. elf_table elf off_at size_at count_at m = Some (Err e)"
proof (cases "52 \<le> length elf")
  case False
  then show ?thesis by (simp add: elf_table_def range_at_def)
next
  case True
  let ?off = "raw32 elf off_at" and ?n = "raw16 elf size_at" and ?m = "raw16 elf count_at"
  have h: "range_at elf 0 52 = Some (subslice elf 0 52)" using True by (simp add: range_at_def)
  have "elf_table elf off_at size_at count_at m =
      (if ?m = 0 then Some (Ok []) else if ?n < m then Some (Err (ElfBad ''a header table's entries are too short''))
       else case range_at elf (unat ?off) (unat ?off + ?n * ?m) of
         None \<Rightarrow> Some (Err (ElfBad ''a header table is outside the file''))
       | Some b \<Rightarrow> Some (Ok (chunks ?n b)))"
    using True assms(1-3) elf_word_raw [of 0 52 elf off_at] elf_half_raw [of 0 52 elf size_at] elf_half_raw [of 0 52 elf count_at]
    unfolding raw16_def by (simp add: elf_table_def h unat_eq_0)
  moreover have "m \<le> ?n \<Longrightarrow> at ?m \<le> length elf \<Longrightarrow> chunks ?n (subslice elf (unat ?off) (?n * ?m)) = map (\<lambda>k. subslice elf (at k) ?n) [0..<?m]"
    using chunks_subslice [of ?n "unat ?off" ?m elf] assms(4) by (simp add: at_def mult.commute)
  ultimately show ?thesis
    using True by (auto simp: at_def range_at_def mult.commute)
qed

lemma find_load_eq:
  assumes "\<And>k. k \<in> set ks \<Longrightarrow> ph_at elf k + n \<le> length elf \<and> 32 \<le> n"
  shows "find_load (map (\<lambda>k. subslice elf (ph_at elf k) n) ks) (raw32 elf (sh_at elf i + 16)) (sh_offset elf i + sh_bytes elf i) =
    Some (map_option (\<lambda>k. raw32 elf (ph_at elf k + 12) + (of_nat (sh_offset elf i) - raw32 elf (ph_at elf k + 4)))
      (find (ph_holds elf i) ks))"
  using assms
proof (induction ks)
  case (Cons k ks)
  have l: "ph_at elf k + n \<le> length elf" and n: "32 \<le> n" using Cons.prems [of k] by simp_all
  note w = elf_word_raw [OF l]
  have "raw32 elf (ph_at elf k + 4) \<le> raw32 elf (sh_at elf i + 16) \<longleftrightarrow> unat (raw32 elf (ph_at elf k + 4)) \<le> sh_offset elf i"
    by (simp add: sh_offset_def word_le_nat_alt)
  then show ?case using Cons n w [of 0] w [of 4] w [of 12] w [of 16]
    by (auto simp: ph_holds_def PT_LOAD_def sh_offset_def)
qed simp

lemma collect_sections_eq:
  assumes load: "\<And>i. find_load phs (raw32 elf (sh_at elf i + 16)) (sh_offset elf i + sh_bytes elf i) =
      Some (map_option (\<lambda>k. raw32 elf (ph_at elf k + 12) + (of_nat (sh_offset elf i) - raw32 elf (ph_at elf k + 4)))
        (find (ph_holds elf i) [0..<raw16 elf 44]))"
    and sn: "40 \<le> n"
  shows "(\<And>i. i \<in> set js \<Longrightarrow> sh_at elf i + n \<le> length elf) \<Longrightarrow>
    (if \<forall>i\<in>set js. sh_loaded elf i \<longrightarrow> section_ok elf i
     then collect_sections elf phs (map (\<lambda>i. subslice elf (sh_at elf i) n) js) = Some (Ok (map (section_at elf) (filter (sh_loaded elf) js)))
     else \<exists>e. collect_sections elf phs (map (\<lambda>i. subslice elf (sh_at elf i) n) js) = Some (Err e))"
proof (induction js)
  case Nil
  then show ?case by simp
next
  case (Cons i js)
  have l: "sh_at elf i + n \<le> length elf" using Cons.prems by simp
  note w = elf_word_raw [OF l]
  let ?rest = "collect_sections elf phs (map (\<lambda>i. subslice elf (sh_at elf i) n) js)"
  have skip: "sh_loaded elf i \<longleftrightarrow> \<not> (raw32 elf (sh_at elf i + 8) AND SHF_ALLOC = 0 \<or> raw32 elf (sh_at elf i + 4) = SHT_NOBITS \<or>
      raw32 elf (sh_at elf i + 20) = 0)"
    using and_exp_eq_0_iff_not_bit [of "raw32 elf (sh_at elf i + 8)" 1]
    by (auto simp: sh_loaded_def SHF_ALLOC_def SHT_NOBITS_def)
  have step: "collect_sections elf phs (map (\<lambda>i. subslice elf (sh_at elf i) n) (i # js)) =
      (if \<not> sh_loaded elf i then ?rest
       else if length elf < sh_offset elf i + sh_bytes elf i then Some (Err (ElfBad ''a section's bytes are outside the file''))
       else if unat (load_addr elf i) + sh_bytes elf i > 2 ^ 32 then Some (Err (ElfBad ''a section wraps the address space''))
       else do { rest \<leftarrow> ?rest; try_ok rest (\<lambda>rest. Some (Ok (section_at elf i # rest))) })"
    using sn w [of 4] w [of 8] w [of 12] w [of 16] w [of 20] load [of i]
    by (auto simp: skip range_at_def section_at_def load_addr_def sh_offset_def sh_bytes_def split: option.splits)
  have ih: "if \<forall>i\<in>set js. sh_loaded elf i \<longrightarrow> section_ok elf i
     then ?rest = Some (Ok (map (section_at elf) (filter (sh_loaded elf) js)))
     else \<exists>e. ?rest = Some (Err e)"
    using Cons by simp
  show ?case unfolding step using ih by (auto simp: section_ok_def split: if_splits)
qed

lemma elf_sections_eq:
  "if elf_valid elf then elf_sections elf = Some (Ok (loaded_sections elf)) else \<exists>e. elf_sections elf = Some (Err e)"
proof (cases "take 6 elf = [0x7F, 0x45, 0x4C, 0x46, 1, 1]")
  case False
  have "is_elf elf \<and> range_at elf 4 6 = Some [1, 1] \<Longrightarrow> take 6 elf = [0x7F, 0x45, 0x4C, 0x46, 1, 1]"
    using subslice_split [of elf 0 4 2] by (auto simp: is_elf_def range_at_def subslice_def split: if_splits)
  then show ?thesis using False by (auto simp: elf_valid_def elf_sections_def)
next
  case True
  have "6 \<le> length elf" using arg_cong [OF True, of length] by simp
  have "take 4 elf = take 4 (take 6 elf)" "subslice elf 4 2 = drop 4 (take 6 elf)" by (simp_all add: subslice_def drop_take)
  then have magic: "is_elf elf" "range_at elf 4 6 = Some [1, 1]"
    using \<open>6 \<le> length elf\<close> by (simp_all add: True is_elf_def range_at_def)
  let ?pn = "raw16 elf 42" and ?sn = "raw16 elf 46" and ?p = "raw16 elf 44" and ?s = "raw16 elf 48"
  note pt = elf_table_eq [of 28 42 44 PHDR_SIZE elf, simplified, folded ph_at_def]
    and st = elf_table_eq [of 32 46 48 SHDR_SIZE elf, simplified, folded sh_at_def]
  show ?thesis
  proof (cases "52 \<le> length elf \<and> (?p = 0 \<or> 32 \<le> ?pn \<and> ph_at elf ?p \<le> length elf) \<and> (?s = 0 \<or> 40 \<le> ?sn \<and> sh_at elf ?s \<le> length elf)")
    case False
    then show ?thesis using pt st magic
      by (auto simp: elf_valid_def elf_sections_def PHDR_SIZE_def SHDR_SIZE_def split: if_splits)
  next
    case tables: True
    let ?phs = "map (\<lambda>k. subslice elf (ph_at elf k) ?pn) [0..<?p]" and ?shs = "map (\<lambda>i. subslice elf (sh_at elf i) ?sn) [0..<?s]"
    have t: "elf_table elf 28 42 44 PHDR_SIZE = Some (Ok ?phs)" "elf_table elf 32 46 48 SHDR_SIZE = Some (Ok ?shs)"
      using pt st tables by (auto simp: PHDR_SIZE_def SHDR_SIZE_def)
    have inside: "k < m \<Longrightarrow> b + m * n \<le> length elf \<Longrightarrow> b + k * n + n \<le> length elf" for k m b n
      using mult_le_mono1 [of "Suc k" m n] by simp
    have pn: "k < ?p \<Longrightarrow> ph_at elf k + ?pn \<le> length elf" "k < ?p \<Longrightarrow> 32 \<le> ?pn" for k
      using tables inside [of k ?p "unat (raw32 elf 28)" ?pn] by (auto simp: ph_at_def)
    have sn: "i < ?s \<Longrightarrow> sh_at elf i + ?sn \<le> length elf" "i < ?s \<Longrightarrow> 40 \<le> ?sn" for i
      using tables inside [of i ?s "unat (raw32 elf 32)" ?sn] by (auto simp: sh_at_def)
    have "if \<forall>i\<in>set [0..<?s]. sh_loaded elf i \<longrightarrow> section_ok elf i
       then collect_sections elf ?phs ?shs = Some (Ok (map (section_at elf) (filter (sh_loaded elf) [0..<?s])))
       else \<exists>e. collect_sections elf ?phs ?shs = Some (Err e)"
    proof (cases "?s = 0")
      case False
      then have "40 \<le> ?sn" using sn(2) [of 0] by simp
      moreover have "find_load ?phs (raw32 elf (sh_at elf i + 16)) (sh_offset elf i + sh_bytes elf i) =
          Some (map_option (\<lambda>k. raw32 elf (ph_at elf k + 12) + (of_nat (sh_offset elf i) - raw32 elf (ph_at elf k + 4)))
            (find (ph_holds elf i) [0..<?p]))" for i
        by (rule find_load_eq) (use pn in auto)
      ultimately show ?thesis by (rule_tac collect_sections_eq) (use sn in auto)
    qed simp
    then show ?thesis using True magic t tables
      by (auto simp: elf_valid_def elf_sections_def loaded_sections_def split: if_splits)
  qed
qed

text \<open>When the sections lie in the binary: none below the base, one at it, none beyond the limit, and no two overlap.\<close>

definition lies_flat :: "u32 \<Rightarrow> nat \<Rightarrow> (u32 \<times> bytes) list \<Rightarrow> bool" where
  "lies_flat base max_len secs \<longleftrightarrow> (\<forall>s\<in>set secs. base \<le> fst s \<and> place_of base s + length (snd s) \<le> max_len) \<and>
     (\<exists>s\<in>set secs. fst s = base) \<and> sorted_wrt ends_before secs"

lemma flat_len_bounded:
  "n \<le> m \<Longrightarrow> \<forall>s\<in>set secs. unat (fst s - base) + length (snd s) \<le> m \<Longrightarrow>
   fold (\<lambda>(addr, data) n. max n (unat (addr - base) + length data)) secs n \<le> m"
  by (induction secs arbitrary: n) auto

lemma flat_len_reached:
  "fold (\<lambda>(addr, data) n. max n (unat (addr - base) + length data)) secs n = n \<or>
   (\<exists>s\<in>set secs. fold (\<lambda>(addr, data) n. max n (unat (addr - base) + length data)) secs n = unat (fst s - base) + length (snd s))"
proof (induction secs arbitrary: n)
  case (Cons s secs)
  define m where "m = max n (unat (fst s - base) + length (snd s))"
  have "m = n \<or> m = unat (fst s - base) + length (snd s)" by (simp add: m_def max_def)
  moreover have "fold (\<lambda>(addr, data) n. max n (unat (addr - base) + length data)) (s # secs) n =
      fold (\<lambda>(addr, data) n. max n (unat (addr - base) + length data)) secs m"
    by (simp add: m_def split_beta)
  ultimately show ?case using Cons [of m] by auto
qed simp

lemma place_sections_done:
  "sorted_wrt ends_before secs \<Longrightarrow> \<forall>s\<in>set secs. stop \<le> fst s \<Longrightarrow> place_sections base out stop secs = Some r \<Longrightarrow>
   \<forall>s\<in>set secs. length (snd s) < 2 ^ 32 \<Longrightarrow> \<exists>out'. r = Ok out'"
proof (induction base out stop secs rule: place_sections.induct)
  case (2 base out stop addr data secs)
  from "2.prems"(2,3) obtain out1 stop1 where c: "copy_at out (unat (addr - base)) data = Some out1"
      "u32_add addr (of_nat (length data)) = Some stop1" "place_sections base out1 stop1 secs = Some r"
    by (auto split: if_splits Option.bind_splits)
  have "unat (of_nat (length data) :: u32) = length data" using "2.prems"(4) by (simp add: unat_u32)
  then have "unat stop1 = unat addr + length data" using c(2) by (auto simp: u32_add_def unat_word_ariths split: if_splits)
  then have "\<forall>s\<in>set secs. stop1 \<le> fst s" using "2.prems"(1) by (auto simp: ends_before_def word_le_nat_alt)
  then show ?case using "2.IH" [OF _ c(1,2) _ _ c(3)] "2.prems" by (auto simp: linorder_not_less)
qed auto

lemma elf_flat_ok_iff:
  assumes bound: "unat base + max_len < 2 ^ 32"
  shows "(\<exists>out. elf_flat elf base fill max_len = Some (Ok out)) \<longleftrightarrow> elf_valid elf \<and> lies_flat base max_len (loaded_sections elf)"
proof
  assume ok: "\<exists>out. elf_flat elf base fill max_len = Some (Ok out)"
  show "elf_valid elf \<and> lies_flat base max_len (loaded_sections elf)"
  proof (rule elf_flat_cases [OF bound, of elf fill])
    fix e assume "elf_flat elf base fill max_len = Some (Err e)"
    then show ?thesis using ok by simp
  next
    fix out secs
    assume f: "elf_sections elf = Some (Ok secs)" "sorted_wrt ends_before secs" "\<exists>s\<in>set secs. fst s = base"
      "length out = flat_len base secs" "length out \<le> max_len"
      "\<forall>s\<in>set secs. base \<le> fst s \<and> section_wf elf s \<and> subslice out (place_of base s) (length (snd s)) = snd s"
    then have v: "elf_valid elf" "secs = loaded_sections elf" using elf_sections_eq [of elf] by (auto split: if_splits)
    have "base \<le> fst s \<and> place_of base s + length (snd s) \<le> max_len" if "s \<in> set secs" for s
      using flat_len_fits [OF that, of base 0] unat_minus [of base "fst s"] f(4-6) that by (simp add: flat_len_def place_of_def)
    then show ?thesis using v f(2,3) by (simp add: lies_flat_def)
  qed
next
  let ?secs = "loaded_sections elf"
  assume a: "elf_valid elf \<and> lies_flat base max_len ?secs"
  then have s: "elf_sections elf = Some (Ok ?secs)" using elf_sections_eq [of elf] by simp
  have wf: "\<forall>s\<in>set ?secs. length (snd s) < 2 ^ 32"
    by (rule elf_sections_wf [of elf]) (use s in \<open>auto simp: section_wf_def\<close>)
  have low: "\<forall>s\<in>set ?secs. base \<le> fst s" and at: "list_ex (\<lambda>s. fst s = base) ?secs" using a by (auto simp: lies_flat_def list_ex_iff)
  then have "find (\<lambda>s. fst s < base) ?secs = None" by (auto simp: find_None_iff)
  moreover have "flat_len base ?secs \<le> max_len"
    unfolding flat_len_def using a unat_minus low by (intro flat_len_bounded) (auto simp: lies_flat_def place_of_def)
  ultimately have f: "elf_flat elf base fill max_len = place_sections base (replicate (flat_len base ?secs) fill) base ?secs"
    using s at by (simp add: elf_flat_def Let_def)
  have "\<exists>r. elf_flat elf base fill max_len = Some r" by (rule elf_flat_cases [OF bound, of elf fill]) auto
  then obtain r where r: "elf_flat elf base fill max_len = Some r" by blast
  then show "\<exists>out. elf_flat elf base fill max_len = Some (Ok out)"
    using place_sections_done [of ?secs base base _ r] a low wf f by (auto simp: lies_flat_def)
qed

text \<open>Property C32. The flat binary of an ELF file, for every file, base and limit whose sum stays below the top of the
  address space: \<open>flat\<close> never panics, also on malformed files. It gives a binary exactly when the file is a valid ELF
  file and its loaded sections lie flat: none below the base, one at it, none past the limit and no two overlapping. The
  loaded sections are, in the order of their addresses, those of exactly the section headers that are allocated, not
  \<open>NOBITS\<close> and not empty, each with the bytes its header names and the address the first \<open>PT_LOAD\<close> segment that holds
  them gives (its own address if none does), all read from the raw fields of the file. In the binary each
  section is at its address less the base, every other byte is the fill byte, and the binary is as long as its last
  section needs and no longer: some section ends at its end.\<close>

theorem flat_places_sections:
  assumes "unat base + max_len < 2 ^ 32"
  shows "\<exists>r. elf_flat elf base fill max_len = Some r \<and>
    ((\<exists>out. r = Ok out) \<longleftrightarrow> elf_valid elf \<and> lies_flat base max_len (loaded_sections elf)) \<and>
    (\<forall>out. r = Ok out \<longrightarrow> (let secs = loaded_sections elf in
      elf_sections elf = Some (Ok secs) \<and> sorted (map fst secs) \<and> sorted_wrt ends_before secs \<and>
      mset secs = image_mset (section_at elf) (mset (filter (sh_loaded elf) [0..<raw16 elf 48])) \<and>
      (\<forall>s\<in>set secs. subslice out (place_of base s) (length (snd s)) = snd s \<and> place_of base s + length (snd s) \<le> length out) \<and>
      (\<exists>s\<in>set secs. place_of base s + length (snd s) = length out) \<and> length out \<le> max_len \<and>
      (\<forall>i<length out. (\<forall>s\<in>set secs. i < place_of base s \<or> place_of base s + length (snd s) \<le> i) \<longrightarrow> out ! i = fill)))"
proof (rule elf_flat_cases [OF assms, of elf fill])
  fix e assume e: "elf_flat elf base fill max_len = Some (Err e)"
  then show ?thesis using elf_flat_ok_iff [OF assms, of elf fill] by simp
next
  fix out secs
  assume f: "elf_flat elf base fill max_len = Some (Ok out)" and s: "elf_sections elf = Some (Ok secs)"
    and ord: "sorted (map fst secs)" "sorted_wrt ends_before secs" and at: "\<exists>s\<in>set secs. fst s = base"
    and len: "length out = flat_len base secs" "length out \<le> max_len"
    and wf: "\<forall>s\<in>set secs. base \<le> fst s \<and> section_wf elf s \<and> subslice out (place_of base s) (length (snd s)) = snd s"
    and rest: "\<forall>i<length out. (\<forall>s\<in>set secs. i < place_of base s \<or> place_of base s + length (snd s) \<le> i) \<longrightarrow> out ! i = fill"
  have secs: "secs = loaded_sections elf" using s elf_sections_eq [of elf] by (auto split: if_splits)
  have p: "unat (fst s - base) = place_of base s" if "s \<in> set secs" for s
    using wf that unat_minus by (simp add: place_of_def)
  have fits: "\<forall>s\<in>set secs. place_of base s + length (snd s) \<le> length out"
    using flat_len_fits [of _ secs base 0] p len by (auto simp: flat_len_def)
  obtain t where t: "t \<in> set secs" "snd t \<noteq> []" using at wf by (auto simp: section_wf_def)
  then have "place_of base t + length (snd t) \<le> length out" using fits by blast
  then have "0 < length out" using t(2) by (cases "snd t") auto
  then have "\<exists>s\<in>set secs. flat_len base secs = unat (fst s - base) + length (snd s)"
    using flat_len_reached [of base secs 0] len(1) unfolding flat_len_def by linarith
  then obtain s0 where s0: "s0 \<in> set secs" "length out = unat (fst s0 - base) + length (snd s0)" using len(1) by metis
  have stop: "\<exists>s\<in>set secs. place_of base s + length (snd s) = length out"
    by (rule bexI [OF _ s0(1)]) (simp add: s0(2) p [OF s0(1)])
  have ms: "mset secs = image_mset (section_at elf) (mset (filter (sh_loaded elf) [0..<raw16 elf 48]))"
    by (simp add: secs loaded_sections_def)
  have here: "\<forall>s\<in>set secs. subslice out (place_of base s) (length (snd s)) = snd s \<and> place_of base s + length (snd s) \<le> length out"
    using wf fits by blast
  have "elf_valid elf \<and> lies_flat base max_len (loaded_sections elf)"
    using f elf_flat_ok_iff [OF assms, of elf fill] by blast
  then have iff: "(\<exists>out'. Ok out = Ok out') \<longleftrightarrow> elf_valid elf \<and> lies_flat base max_len (loaded_sections elf)" by simp
  show ?thesis
  proof (intro exI [of _ "Ok out"] conjI allI impI)
    fix out' assume "Ok out = Ok out'"
    then have out': "out' = out" by simp
    show "let secs = loaded_sections elf in
      elf_sections elf = Some (Ok secs) \<and> sorted (map fst secs) \<and> sorted_wrt ends_before secs \<and>
      mset secs = image_mset (section_at elf) (mset (filter (sh_loaded elf) [0..<raw16 elf 48])) \<and>
      (\<forall>s\<in>set secs. subslice out' (place_of base s) (length (snd s)) = snd s \<and> place_of base s + length (snd s) \<le> length out') \<and>
      (\<exists>s\<in>set secs. place_of base s + length (snd s) = length out') \<and> length out' \<le> max_len \<and>
      (\<forall>i<length out'. (\<forall>s\<in>set secs. i < place_of base s \<or> place_of base s + length (snd s) \<le> i) \<longrightarrow> out' ! i = fill)"
      unfolding Let_def secs [symmetric] out' using s ord ms here stop len(2) rest by (intro conjI)
  qed (fact f iff)+
qed

definition tiny_elf :: bytes where
  "tiny_elf = [127, 69, 76, 70, 1, 1, 0, 0, 0, 0, 0, 0, 0, 0, 0, 0, 0, 0, 0, 0, 0, 0, 0, 0, 0, 0, 0, 0, 0, 0, 0, 0,
    52, 0, 0, 0, 0, 0, 0, 0, 0, 0, 0, 0, 0, 0, 40, 0, 1, 0, 0, 0, 0, 0, 0, 0, 1, 0, 0, 0, 2, 0, 0, 0, 0,
    1, 0, 0, 92, 0, 0, 0, 2, 0, 0, 0, 0, 0, 0, 0, 0, 0, 0, 0, 0, 0, 0, 0, 0, 0, 0, 0, 7, 8]"

theorem flat_places_sections_witness:
  "elf_sections tiny_elf = Some (Ok [(0x100, [7, 8])]) \<and> (\<exists>out. elf_flat tiny_elf 0x100 0xFF 16 = Some (Ok out) \<and> length out = 2 \<and>
    subslice out 0 2 = [7, 8])"
proof -
  have r: "elf_table tiny_elf 28 42 44 PHDR_SIZE = Some (Ok [])"
    by (simp add: elf_table_def elf_word_def elf_half_def range_at_def subslice_def u32_at_def u16_at_def array_at_def tiny_elf_def)
  moreover have "elf_table tiny_elf 32 46 48 SHDR_SIZE = Some (Ok [subslice tiny_elf 52 40])"
    by (simp add: elf_table_def elf_word_def elf_half_def range_at_def subslice_def u32_at_def u16_at_def array_at_def tiny_elf_def
        SHDR_SIZE_def chunks.simps)
  moreover have "collect_sections tiny_elf [] [subslice tiny_elf 52 40] = Some (Ok [(0x100, [7, 8])])"
    by (simp add: elf_word_def range_at_def subslice_def u32_at_def array_at_def tiny_elf_def SHF_ALLOC_def SHT_NOBITS_def)
  moreover have "is_elf tiny_elf" "range_at tiny_elf 4 6 = Some [1, 1]"
    by (simp_all add: is_elf_def range_at_def subslice_def tiny_elf_def)
  ultimately have s: "elf_sections tiny_elf = Some (Ok [(0x100, [7, 8])])"
    by (simp add: elf_sections_def del: collect_sections.simps)
  have "elf_flat tiny_elf 0x100 0xFF 16 = Some (Ok [7, 8])"
    by (simp add: elf_flat_def s flat_len_def copy_at_def put_def u32_add_def)
  then show ?thesis using s flat_places_sections [of "0x100" 16 tiny_elf "0xFF"]
    by (auto simp: flat_len_def place_of_def)
qed

text \<open>The bound on the base is needed. A section that ends at the top of the address space is accepted by
  \<open>sections\<close>, whose test allows the end \<open>2 ^ 32\<close>, and then \<open>addr + data.len() as u32\<close> overflows in \<open>flat\<close>. The
  bases and limits the crate itself passes are far below.\<close>

theorem flat_panics_at_the_top:
  assumes "elf_sections elf = Some (Ok [(0xFFFFFFFF, [b])])"
  shows "section_wf elf (0xFFFFFFFF, [b]) \<and> elf_flat elf 0xFFFFFFFF fill 1 = None"
proof (rule elf_sections_wf [of elf])
  fix e assume "elf_sections elf = Some (Err e)"
  then show ?thesis using assms by simp
next
  fix secs assume "elf_sections elf = Some (Ok secs)" "\<forall>s\<in>set secs. section_wf elf s"
  then have "section_wf elf (0xFFFFFFFF, [b])" using assms by auto
  then show ?thesis using assms by (simp add: elf_flat_def flat_len_def copy_at_def put_def u32_add_def)
qed

end
