(* ===== verification/Bm_Image.thy ===== *)
theory Bm_Image
  imports Crc Elf_Flat
begin

text \<open>
  The crate \<open>bm-image\<close>, \<open>version.rs\<close>, \<open>key.rs\<close>, \<open>image.rs\<close> and \<open>info.rs\<close>: building the update file of a node from
  an ELF file or a flat binary, and reading one. SHA-256 and ed25519 are crates outside the repository; they are
  the record \<open>Crypto\<close>, an argument of the definitions, and \<open>crypto_ok\<close> states the lengths of their outputs, which
  the Rust types fix. The text of a version note is kept as its bytes; the lossy conversion to a string is not
  modelled.
\<close>

section \<open>The version note\<close>

definition VERSION_MAGIC :: u64 where "VERSION_MAGIC = 0xDF7F9AFDEC06627C"
definition FIXED_LEN :: nat where "FIXED_LEN = 22"
definition MAX_VERSION_STR_LEN :: nat where "MAX_VERSION_STR_LEN = 96"

record VersionInfo =
  vi_git_sha :: u32
  vi_major :: u8
  vi_minor :: u8
  vi_revision :: u8
  vi_hw_version :: u8
  vi_flags :: u32
  vi_version_str :: bytes

text \<open>\<open>bytes.windows(n)\<close>, for a positive \<open>n\<close>.\<close>

definition windows :: "nat \<Rightarrow> bytes \<Rightarrow> bytes list" where
  "windows n bytes = map (\<lambda>i. subslice bytes i n) [0..<length bytes + 1 - n]"

text \<open>\<open>Some None\<close> is the \<open>None\<close> of the code.\<close>

definition version_find :: "bytes \<Rightarrow> (nat \<times> VersionInfo) option option" where
  "version_find bytes = (
     let magic = to_le 8 VERSION_MAGIC in
     case find_index (\<lambda>w. take (length magic) w = magic) (windows FIXED_LEN bytes) of
       None \<Rightarrow> Some None
     | Some at \<Rightarrow> do {
         b \<leftarrow> range_at bytes at (length bytes);
         str_len \<leftarrow> u16_at b 20;
         let n = min (unat str_len) MAX_VERSION_STR_LEN;
         txt \<leftarrow> range_at b FIXED_LEN (length b);
         txt \<leftarrow> range_at txt 0 (min n (length txt));
         git_sha \<leftarrow> u32_at b 8;
         maj \<leftarrow> get_at b 12;
         mi \<leftarrow> get_at b 13;
         rev \<leftarrow> get_at b 14;
         hw \<leftarrow> get_at b 15;
         flags \<leftarrow> u32_at b 16;
         Some (Some (at, \<lparr>vi_git_sha = git_sha, vi_major = maj, vi_minor = mi, vi_revision = rev, vi_hw_version = hw,
           vi_flags = flags, vi_version_str = txt\<rparr>))
       })"

definition mcuboot_version :: "VersionInfo \<Rightarrow> ImageVersion" where
  "mcuboot_version vi = (
     let (maj, mi, rev) = (if (vi_major vi, vi_minor vi, vi_revision vi) = (0xFF, 0xFF, 0xFF) then (0, 0, 0)
       else (vi_major vi, vi_minor vi, vi_revision vi))
     in \<lparr>iv_major = maj, iv_minor = mi, iv_revision = ucast rev, iv_build_num = vi_git_sha vi\<rparr>)"

section \<open>The key\<close>

record 'k Crypto =
  cr_sha256 :: "bytes \<Rightarrow> bytes"
  cr_public :: "'k \<Rightarrow> bytes"
  cr_sign :: "'k \<Rightarrow> bytes \<Rightarrow> bytes"

definition crypto_ok :: "'k Crypto \<Rightarrow> bool" where
  "crypto_ok C \<longleftrightarrow> (\<forall>x. length (cr_sha256 C x) = 32) \<and> (\<forall>k. length (cr_public C k) = 32) \<and>
     (\<forall>k d. length (cr_sign C k d) = 64)"

definition SPKI_PREFIX :: bytes where
  "SPKI_PREFIX = [0x30, 0x2a, 0x30, 0x05, 0x06, 0x03, 0x2b, 0x65, 0x70, 0x03, 0x21, 0x00]"

definition keyhash :: "'k Crypto \<Rightarrow> 'k \<Rightarrow> bytes" where
  "keyhash C k = cr_sha256 C (SPKI_PREFIX @ cr_public C k)"

section \<open>Building\<close>

definition BOOTLOADER_BASE :: u32 where "BOOTLOADER_BASE = 0x08000000"
definition BOOTLOADER_SIZE :: nat where "BOOTLOADER_SIZE = 0xC000"
definition BODY_BASE :: u32 where "BODY_BASE = BOOTLOADER_BASE + of_nat BOOTLOADER_SIZE + ucast BM_HDR_SIZE"
definition IMGTOOL_MAX_SECTORS :: u32 where "IMGTOOL_MAX_SECTORS = 128"
definition HDR_SIZE :: nat where "HDR_SIZE = unat BM_HDR_SIZE"

text \<open>A constant; its other case does not compile.\<close>

definition MCU_MAX_IMAGE_LEN :: nat where
  "MCU_MAX_IMAGE_LEN = (case trailer_status_off BM_TRAILER IMGTOOL_MAX_SECTORS of Some (Some off) \<Rightarrow> unat off | _ \<Rightarrow> 0)"

definition resize :: "bytes \<Rightarrow> nat \<Rightarrow> u8 \<Rightarrow> bytes" where
  "resize xs n v = take n xs @ replicate (n - length xs) v"

definition tlv_size_for :: "'k option \<Rightarrow> nat" where
  "tlv_size_for key = (case key of Some _ \<Rightarrow> ED25519_SIZE | None \<Rightarrow> UNSIGNED_SIZE)"

definition build_image :: "'k Crypto \<Rightarrow> bytes \<Rightarrow> ImageVersion \<Rightarrow> 'k option \<Rightarrow> bytes image_result" where
  "build_image C body version key = (
     let n = HDR_SIZE + length body + tlv_size_for key in
     if n > MCU_MAX_IMAGE_LEN then Some (Err (TooLong n MCU_MAX_IMAGE_LEN))
     else do {
       header \<leftarrow> image_header_encode (image_header_new (of_nat (length body)) version);
       let img = resize header HDR_SIZE 0xFF @ body;
       let digest = cr_sha256 C img;
       tlvs \<leftarrow> (case key of
           Some k \<Rightarrow> encode_ed25519 digest (keyhash C k) (cr_sign C k digest)
         | None \<Rightarrow> encode_unsigned digest);
       Some (Ok (img @ tlvs))
     })"

definition from_body :: "'k Crypto \<Rightarrow> bytes \<Rightarrow> 'k option \<Rightarrow> bytes image_result" where
  "from_body C body key = do {
     found \<leftarrow> version_find body;
     case found of
       None \<Rightarrow> Some (Err NoVersion)
     | Some (_, vi) \<Rightarrow> build_image C body (mcuboot_version vi) key
   }"

definition dfu_file :: "'k Crypto \<Rightarrow> bytes \<Rightarrow> 'k option \<Rightarrow> bytes image_result" where
  "dfu_file C elf key = (
     let overhead = HDR_SIZE + tlv_size_for key in
     if MCU_MAX_IMAGE_LEN < overhead then None
     else do {
       body \<leftarrow> elf_flat elf BODY_BASE 0xFF (MCU_MAX_IMAGE_LEN - overhead);
       case body of
         Err (TooLong n _) \<Rightarrow> Some (Err (TooLong (n + overhead) MCU_MAX_IMAGE_LEN))
       | Err e \<Rightarrow> Some (Err e)
       | Ok body \<Rightarrow> from_body C body key
     })"

definition bootloader_bytes :: "bytes \<Rightarrow> bytes image_result" where
  "bootloader_bytes bootloader = (
     if is_elf bootloader then do {
       out \<leftarrow> elf_flat bootloader BOOTLOADER_BASE 0xFF BOOTLOADER_SIZE;
       Some (case out of Err (TooLong n _) \<Rightarrow> Err (BootloaderTooLong n) | r \<Rightarrow> r)
     }
     else Some (Ok bootloader))"

definition unified :: "bytes \<Rightarrow> bytes \<Rightarrow> bytes image_result" where
  "unified bootloader dfu = do {
     out \<leftarrow> bootloader_bytes bootloader;
     try_ok out (\<lambda>out.
       if length out > BOOTLOADER_SIZE then Some (Err (BootloaderTooLong (length out)))
       else if (case image_header_decode dfu of None \<Rightarrow> True | Some h \<Rightarrow> ih_magic h \<noteq> IMAGE_MAGIC) then Some (Err NotAnImage)
       else if length dfu > MCU_MAX_IMAGE_LEN then Some (Err (TooLong (length dfu) MCU_MAX_IMAGE_LEN))
       else Some (Ok (resize out BOOTLOADER_SIZE 0xFF @ dfu)))
   }"

section \<open>Reading\<close>

record Info =
  in_size :: u32
  in_crc16 :: u16
  in_header :: ImageHeader
  in_tlvs :: "(u16 \<times> bytes) list"
  in_sha256_ok :: bool
  in_trailing :: nat
  in_version :: "(nat \<times> VersionInfo) option"

text \<open>Collecting the items into a \<open>Result\<close>: the first error, or all of them.\<close>

fun collect_tlvs :: "(TlvError, Tlv) result list \<Rightarrow> (TlvError, (u16 \<times> bytes) list) result" where
  "collect_tlvs [] = Ok []"
| "collect_tlvs (Err e # rs) = Err e"
| "collect_tlvs (Ok t # rs) = (case collect_tlvs rs of
     Ok ts \<Rightarrow> Ok ((tlv_kind t, tlv_value t) # ts)
   | Err e \<Rightarrow> Err e)"

definition info_read :: "'k Crypto \<Rightarrow> bytes \<Rightarrow> Info image_result" where
  "info_read C file = (case image_header_decode file of
     None \<Rightarrow> Some (Err NotAnImage)
   | Some header \<Rightarrow>
       if ih_magic header \<noteq> IMAGE_MAGIC then Some (Err NotAnImage)
       else case tlv_parse file header of
         Err e \<Rightarrow> Some (Err (TlvBad e))
       | Ok area \<Rightarrow> do {
           items \<leftarrow> tlv_iter area;
           case collect_tlvs items of
             Err e \<Rightarrow> Some (Err (TlvBad e))
           | Ok tlvs \<Rightarrow> do {
               hashed \<leftarrow> range_at file 0 (ta_start area);
               found \<leftarrow> tlv_find area SHA256;
               if length file \<ge> 2 ^ 32 then Some (Err NotAnImage)
               else do {
                 version \<leftarrow> version_find file;
                 Some (Ok \<lparr>in_size = of_nat (length file), in_crc16 = crc16_ccitt 0 file, in_header = header,
                   in_tlvs = tlvs, in_sha256_ok = (found = Some (cr_sha256 C hashed)),
                   in_trailing = length file - ta_stop area, in_version = version\<rparr>)
               }
             }
         })"

definition signed_by :: "Info \<Rightarrow> bytes option" where
  "signed_by info = (
     let look = (\<lambda>kind. find (\<lambda>t. fst t = kind) (in_tlvs info)) in do {
       _ \<leftarrow> look ED25519;
       t \<leftarrow> look KEYHASH;
       Some (snd t)
     })"

section \<open>Lengths and constants\<close>

lemma HDR_SIZE_val: "HDR_SIZE = 512"
  by (simp add: HDR_SIZE_def BM_HDR_SIZE_def)

lemma MCU_MAX_IMAGE_LEN_val: "MCU_MAX_IMAGE_LEN = 0xF07B0"
  by (simp add: MCU_MAX_IMAGE_LEN_def trailer_status_off_def trailer_size_def trailer_info_size_def magic_align_size_def
      u32_mul_def u32_add_def u32_sub_def BM_TRAILER_def IMGTOOL_MAX_SECTORS_def MAGIC_SIZE_def)

lemma BASES_val: "unat BODY_BASE = 0x0800C200" "unat BOOTLOADER_BASE = 0x08000000"
  by (simp_all add: BODY_BASE_def BOOTLOADER_BASE_def BOOTLOADER_SIZE_def BM_HDR_SIZE_def)

lemma tlv_size_for_le: "40 \<le> tlv_size_for key" "tlv_size_for key \<le> 144"
  by (simp_all add: tlv_size_for_def tlv_sizes split: option.splits)

lemma windows_find:
  assumes "find_index P (windows n bytes) = Some at" "0 < n"
  shows "at + n \<le> length bytes" "P (subslice bytes at n)"
  using find_index_Some(1,2) [OF assms(1)] assms(2) by (auto simp: windows_def)

lemma version_find_total: "\<exists>r. version_find bytes = Some r"
proof (cases "find_index (\<lambda>w. take 8 w = to_le 8 VERSION_MAGIC) (windows FIXED_LEN bytes)")
  case None
  then show ?thesis by (simp add: version_find_def Let_def del: to_le_numeral)
next
  case (Some at)
  have l: "at + 22 \<le> length bytes" using windows_find(1) [OF Some] by (simp add: FIXED_LEN_def)
  obtain b where b: "range_at bytes at (length bytes) = Some b" "22 \<le> length b" using l by (auto simp: range_at_def)
  show ?thesis using Some b
    by (simp add: version_find_def Let_def buf_simps FIXED_LEN_def del: to_le_numeral)
qed

section \<open>What is built\<close>

definition image_digest :: "'k Crypto \<Rightarrow> bytes \<Rightarrow> ImageVersion \<Rightarrow> bytes" where
  "image_digest C body v = cr_sha256 C
     (image_header_wire (image_header_new (of_nat (length body)) v) @ replicate 480 0xFF @ body)"

definition image_entries :: "'k Crypto \<Rightarrow> bytes \<Rightarrow> 'k option \<Rightarrow> (u16 \<times> bytes) list" where
  "image_entries C digest key = (SHA256, digest) #
     (case key of None \<Rightarrow> [] | Some k \<Rightarrow> [(KEYHASH, keyhash C k), (ED25519, cr_sign C k digest)])"

definition image_file :: "'k Crypto \<Rightarrow> bytes \<Rightarrow> ImageVersion \<Rightarrow> 'k option \<Rightarrow> bytes" where
  "image_file C body v key = (image_header_wire (image_header_new (of_nat (length body)) v) @ replicate 480 0xFF @ body) @
     tlv_area_bytes None (image_entries C (image_digest C body v) key)"

lemma image_entries_len:
  assumes "crypto_ok C"
  shows "part_len (image_entries C (image_digest C body v) key) = tlv_size_for key"
    "length (tlv_area_bytes None (image_entries C (image_digest C body v) key)) = tlv_size_for key"
  using assms
  by (auto simp: crypto_ok_def image_entries_def part_len_def tlv_area_bytes_def tlv_size_for_def tlv_sizes keyhash_def
      image_digest_def split: option.splits)

lemma length_image_file:
  "crypto_ok C \<Longrightarrow> length (image_file C body v key) = HDR_SIZE + length body + tlv_size_for key"
  by (simp add: image_file_def image_entries_len HDR_SIZE_val)

lemma build_image_eq:
  assumes "crypto_ok C"
  shows "build_image C body v key = Some (if HDR_SIZE + length body + tlv_size_for key > MCU_MAX_IMAGE_LEN
    then Err (TooLong (HDR_SIZE + length body + tlv_size_for key) MCU_MAX_IMAGE_LEN) else Ok (image_file C body v key))"
proof -
  let ?h = "image_header_wire (image_header_new (of_nat (length body)) v)"
  have r: "resize ?h HDR_SIZE 0xFF = ?h @ replicate 480 0xFF" by (simp add: resize_def HDR_SIZE_val)
  have "encode_unsigned (image_digest C body v) = Some (tlv_area_bytes None [(SHA256, image_digest C body v)])"
    by (rule encode_unsigned_wire) (use assms in \<open>simp add: crypto_ok_def image_digest_def\<close>)
  moreover have "encode_ed25519 (image_digest C body v) (keyhash C k) (cr_sign C k (image_digest C body v)) =
      Some (tlv_area_bytes None [(SHA256, image_digest C body v), (KEYHASH, keyhash C k), (ED25519, cr_sign C k (image_digest C body v))])" for k
    by (rule encode_ed25519_wire) (use assms in \<open>simp_all add: crypto_ok_def image_digest_def keyhash_def\<close>)
  ultimately show ?thesis
    by (cases key) (simp_all add: build_image_def image_header_encode_wire r image_file_def image_entries_def image_digest_def Let_def)
qed

lemma collect_tlvs_all: "collect_tlvs (map (\<lambda>e. Ok (as_tlv p e)) es) = Ok es"
  by (induction es) simp_all

lemma image_file_area:
  assumes "crypto_ok C" "length body < 2 ^ 31"
  obtains area where "tlv_parse (image_file C body v key) (image_header_new (of_nat (length body)) v) = Ok area"
    "ta_start area = HDR_SIZE + length body" "ta_stop area = length (image_file C body v key)"
    "tlv_iter area = Some (map (\<lambda>e. Ok (as_tlv False e)) (image_entries C (image_digest C body v) key))"
    "\<And>kind. tlv_find area kind = Some (map_of (image_entries C (image_digest C body v) key) kind)"
proof -
  let ?h = "image_header_new (of_nat (length body)) v" and ?es = "image_entries C (image_digest C body v) key"
  let ?pre = "image_header_wire ?h @ replicate 480 0xFF @ body"
  have lb: "unat (of_nat (length body) :: u32) = length body" using assms(2) by (simp add: unat_u32)
  have "unat (of_nat (length body) + 0x200 :: u32) = length body + 512"
    using lb assms(2) by (simp add: unat_word_ariths)
  then obtain off where off: "tlv_off ?h = Some off" "unat off = length ?pre"
    using lb assms(2) by (simp add: tlv_off_def image_header_new_def BM_HDR_SIZE_def)
  have "unat (ih_protect_tlv_size ?h) = prot_len None" by (simp add: image_header_new_def prot_len_def)
  moreover have "part_len ?es < 2 ^ 16" using image_entries_len(1) [OF assms(1)] tlv_size_for_le [of key] by simp
  ultimately show thesis
  proof (rule tlv_area_parsed [OF off, where rest = "[]"])
    fix area
    assume "tlv_parse (?pre @ tlv_area_bytes None ?es @ []) ?h = Ok area" "ta_start area = length ?pre"
      "ta_stop area = length ?pre + length (tlv_area_bytes None ?es)"
      "tlv_iter area = Some (map (\<lambda>e. Ok (as_tlv True e)) (prot_entries None) @ map (\<lambda>e. Ok (as_tlv False e)) ?es @
        (if None \<noteq> None \<and> ?es = [] then [Err TlvTruncated] else []))"
      "\<And>kind. tlv_find area kind = Some (map_of (prot_entries None @ ?es) kind)"
    then show thesis by (intro that [of area]) (simp_all add: image_file_def prot_entries_def HDR_SIZE_val)
  qed
qed

lemma info_read_image:
  assumes "crypto_ok C" "length (image_file C body v key) \<le> MCU_MAX_IMAGE_LEN"
  shows "\<exists>info. info_read C (image_file C body v key) = Some (Ok info) \<and>
    in_size info = of_nat (length (image_file C body v key)) \<and> in_crc16 info = crc16_ccitt 0 (image_file C body v key) \<and>
    in_header info = image_header_new (of_nat (length body)) v \<and>
    in_tlvs info = image_entries C (image_digest C body v) key \<and> in_sha256_ok info \<and> in_trailing info = 0 \<and>
    version_find (image_file C body v key) = Some (in_version info)"
proof -
  let ?file = "image_file C body v key"
  have lb: "length body < 2 ^ 31"
    using assms length_image_file [OF assms(1), of body v key] by (simp add: MCU_MAX_IMAGE_LEN_val)
  obtain area where a: "tlv_parse ?file (image_header_new (of_nat (length body)) v) = Ok area"
      "ta_start area = HDR_SIZE + length body" "ta_stop area = length ?file"
      "tlv_iter area = Some (map (\<lambda>e. Ok (as_tlv False e)) (image_entries C (image_digest C body v) key))"
      "\<And>kind. tlv_find area kind = Some (map_of (image_entries C (image_digest C body v) key) kind)"
    using image_file_area [OF assms(1) lb] by blast
  have d: "image_header_decode ?file = Some (image_header_new (of_nat (length body)) v)"
    using image_header_decode_wire by (simp add: image_file_def)
  have p: "range_at ?file 0 (HDR_SIZE + length body) =
      Some (image_header_wire (image_header_new (of_nat (length body)) v) @ replicate 480 0xFF @ body)"
    by (simp add: range_at_def subslice_def image_file_def HDR_SIZE_val)
  have f: "map_of (image_entries C (image_digest C body v) key) SHA256 = Some (image_digest C body v)"
    by (simp add: image_entries_def)
  obtain ver where ver: "version_find ?file = Some ver" using version_find_total by blast
  have m: "ih_magic (image_header_new (of_nat (length body)) v) = IMAGE_MAGIC" by (simp add: image_header_new_def)
  show ?thesis
    using d m a p f ver assms(2)
    by (simp add: info_read_def collect_tlvs_all image_digest_def MCU_MAX_IMAGE_LEN_val)
qed

lemma signed_by_entries:
  "in_tlvs info = image_entries C digest key \<Longrightarrow> signed_by info = map_option (keyhash C) key"
  by (cases key) (simp_all add: signed_by_def image_entries_def SHA256_def KEYHASH_def ED25519_def)

lemma built_cases:
  assumes "crypto_ok C" "build_image C body v key = Some (Ok file)"
  shows "file = image_file C body v key" "length file = HDR_SIZE + length body + tlv_size_for key" "length file \<le> MCU_MAX_IMAGE_LEN"
  using assms(2) length_image_file [OF assms(1), of body v key] by (auto simp: build_image_eq [OF assms(1)] split: if_splits)

section \<open>No panic\<close>

lemma flat_body_total: "\<exists>r. elf_flat elf BODY_BASE 0xFF (MCU_MAX_IMAGE_LEN - overhead) = Some r"
  by (rule elf_flat_cases [of BODY_BASE "MCU_MAX_IMAGE_LEN - overhead" elf "0xFF"]) (simp_all add: BASES_val MCU_MAX_IMAGE_LEN_val)

lemma bootloader_bytes_total: "\<exists>r. bootloader_bytes b = Some r"
proof (cases "is_elf b")
  case True
  then show ?thesis
    by (rule_tac elf_flat_cases [of BOOTLOADER_BASE BOOTLOADER_SIZE b "0xFF"])
      (simp_all add: BASES_val BOOTLOADER_SIZE_def bootloader_bytes_def)
next
  case False
  then show ?thesis by (simp add: bootloader_bytes_def)
qed

lemma from_body_total: "crypto_ok C \<Longrightarrow> \<exists>r. from_body C body key = Some r"
  using version_find_total [of body] by (auto simp: from_body_def build_image_eq split: option.splits)

lemma info_read_total: "\<exists>r. info_read C file = Some r"
proof (cases "image_header_decode file")
  case None
  then show ?thesis by (simp add: info_read_def)
next
  case (Some h)
  show ?thesis
  proof (cases "tlv_parse file h")
    case (Err e)
    then show ?thesis using Some by (simp add: info_read_def)
  next
    case (Ok area)
    have wf: "area_wf area" "ta_image area = file" using tlv_parse_wf [OF Ok] by simp_all
    obtain rs where rs: "tlv_iter area = Some rs"
      using tlv_items_wf [OF wf(1), of "ta_first area"] by (auto simp: tlv_iter_def)
    have "ta_start area \<le> length file" using wf by (auto simp: area_wf_def)
    then have "range_at file 0 (ta_start area) = Some (subslice file 0 (ta_start area))" by (simp add: range_at_def)
    then show ?thesis
      using Some Ok rs tlv_find_iter [OF rs] version_find_total [of "file"]
      by (auto simp: info_read_def split: result.splits)
  qed
qed

text \<open>\<open>unified\<close> puts the boot loader first, padded to its area, and the update file behind it.\<close>

theorem unified_layout:
  assumes "unified bootloader dfu = Some (Ok out)"
  shows "\<exists>boot. bootloader_bytes bootloader = Some (Ok boot) \<and> length boot \<le> BOOTLOADER_SIZE \<and>
    length out = BOOTLOADER_SIZE + length dfu \<and> take (length boot) out = boot \<and>
    (\<forall>i. length boot \<le> i \<and> i < BOOTLOADER_SIZE \<longrightarrow> out ! i = 0xFF) \<and> drop BOOTLOADER_SIZE out = dfu"
proof -
  obtain r where r: "bootloader_bytes bootloader = Some r" using bootloader_bytes_total by blast
  with assms obtain boot where b: "r = Ok boot" "length boot \<le> BOOTLOADER_SIZE" "out = resize boot BOOTLOADER_SIZE 0xFF @ dfu"
    by (cases r) (auto simp: unified_def split: if_splits)
  have e: "resize boot BOOTLOADER_SIZE 0xFF = boot @ replicate (BOOTLOADER_SIZE - length boot) 0xFF"
    using b(2) by (simp add: resize_def)
  show ?thesis using r b unfolding e by (auto simp: nth_append)
qed

section \<open>The update file of an application\<close>

text \<open>Property C26. An update file made from an application's ELF file is the one the node's boot loader expects: its body is
  the flat binary of the file at the address behind the header, the version of its header is the version note in that
  body, and reading the file back finds the header, a matching SHA-256 over header and body, the hash of the signing
  key exactly when one was given, and no byte behind the area. It ends below the trailer the boot loader keeps at the
  end of the slot. The tool never panics on the way, whatever the ELF file is, nor when it reads any other file.\<close>

theorem update_file_of_application:
  assumes "crypto_ok C"
  shows "dfu_file C elf key \<noteq> None \<and> (\<forall>file. info_read C file \<noteq> None) \<and>
    (\<forall>file. dfu_file C elf key = Some (Ok file) \<longrightarrow> (\<exists>body at vi info off.
      elf_flat elf BODY_BASE 0xFF (MCU_MAX_IMAGE_LEN - (HDR_SIZE + tlv_size_for key)) = Some (Ok body) \<and>
      version_find body = Some (Some (at, vi)) \<and> info_read C file = Some (Ok info) \<and>
      in_header info = image_header_new (of_nat (length body)) (mcuboot_version vi) \<and>
      in_sha256_ok info \<and> in_trailing info = 0 \<and> signed_by info = map_option (keyhash C) key \<and>
      in_size info = of_nat (length file) \<and> in_crc16 info = crc16_ccitt 0 file \<and>
      subslice file HDR_SIZE (length body) = body \<and>
      trailer_status_off BM_TRAILER 121 = Some (Some off) \<and> length file \<le> unat off))"
proof -
  have small: "\<not> MCU_MAX_IMAGE_LEN < HDR_SIZE + tlv_size_for key"
    using tlv_size_for_le [of key] by (simp add: MCU_MAX_IMAGE_LEN_val HDR_SIZE_val)
  obtain r where r: "elf_flat elf BODY_BASE 0xFF (MCU_MAX_IMAGE_LEN - (HDR_SIZE + tlv_size_for key)) = Some r"
    using flat_body_total by blast
  have off: "trailer_status_off BM_TRAILER 121 = Some (Some 0xF0900)"
    by (simp add: trailer_status_off_def trailer_size_def trailer_info_size_def magic_align_size_def u32_mul_def u32_add_def
        u32_sub_def BM_TRAILER_def MAGIC_SIZE_def)
  show ?thesis
  proof (cases r)
    case (Err e)
    then show ?thesis using r small info_read_total [of C] by (auto simp: dfu_file_def Let_def split: ImageError.splits)
  next
    case (Ok body)
    then have run: "dfu_file C elf key = from_body C body key" using r small by (simp add: dfu_file_def Let_def)
    have "\<exists>at vi info. version_find body = Some (Some (at, vi)) \<and> info_read C img = Some (Ok info) \<and>
        in_header info = image_header_new (of_nat (length body)) (mcuboot_version vi) \<and>
        in_sha256_ok info \<and> in_trailing info = 0 \<and> signed_by info = map_option (keyhash C) key \<and>
        in_size info = of_nat (length img) \<and> in_crc16 info = crc16_ccitt 0 img \<and>
        subslice img HDR_SIZE (length body) = body \<and> length img \<le> MCU_MAX_IMAGE_LEN"
      if made: "from_body C body key = Some (Ok img)" for img
    proof -
      obtain at vi where v: "version_find body = Some (Some (at, vi))" "build_image C body (mcuboot_version vi) key = Some (Ok img)"
        using made by (auto simp: from_body_def split: Option.bind_splits option.splits)
      note f = built_cases [OF assms v(2)]
      have "subslice img HDR_SIZE (length body) = body"
        by (simp add: f(1) image_file_def HDR_SIZE_val)
      then show ?thesis
        using info_read_image [OF assms, of body "mcuboot_version vi" key] f v(1) signed_by_entries by fastforce
    qed
    then show ?thesis
      using run from_body_total [OF assms, of body key] info_read_total [of C] r Ok off
      by (fastforce simp: MCU_MAX_IMAGE_LEN_val)
  qed
qed

text \<open>An ELF file whose one section is a version note, and ciphers of the right lengths.\<close>

definition note_bytes :: bytes where
  "note_bytes = [124, 98, 6, 236, 253, 154, 127, 223, 1, 2, 3, 4, 0, 13, 12, 1, 0, 0, 0, 0, 0, 0]"

definition note_elf :: bytes where
  "note_elf = [127, 69, 76, 70, 1, 1, 0, 0, 0, 0, 0, 0, 0, 0, 0, 0, 0, 0, 0, 0, 0, 0, 0, 0, 0, 0, 0, 0, 0, 0, 0, 0,
    52, 0, 0, 0, 0, 0, 0, 0, 0, 0, 0, 0, 0, 0, 40, 0, 1, 0, 0, 0, 0, 0, 0, 0, 1, 0, 0, 0, 2, 0, 0, 0, 0,
    194, 0, 8, 92, 0, 0, 0, 22, 0, 0, 0, 0, 0, 0, 0, 0, 0, 0, 0, 0, 0, 0, 0, 0, 0, 0, 0] @
    note_bytes"

definition zero_crypto :: "unit Crypto" where
  "zero_crypto = \<lparr>cr_sha256 = \<lambda>x. replicate 32 0, cr_public = \<lambda>k. replicate 32 0, cr_sign = \<lambda>k d. replicate 64 0\<rparr>"

lemma note_elf_sections: "elf_sections note_elf = Some (Ok [(0x0800C200, note_bytes)])"
proof -
  note ev = elf_word_def elf_half_def range_at_def subslice_def u32_at_def u16_at_def array_at_def note_elf_def note_bytes_def
  have "elf_table note_elf 28 42 44 PHDR_SIZE = Some (Ok [])" by (simp add: elf_table_def ev)
  moreover have "elf_table note_elf 32 46 48 SHDR_SIZE = Some (Ok [subslice note_elf 52 40])"
    by (simp add: elf_table_def ev SHDR_SIZE_def chunks.simps)
  moreover have "collect_sections note_elf [] [subslice note_elf 52 40] = Some (Ok [(0x0800C200, note_bytes)])"
    by (simp add: ev SHF_ALLOC_def SHT_NOBITS_def)
  moreover have "is_elf note_elf" "range_at note_elf 4 6 = Some [1, 1]"
    by (simp_all add: is_elf_def ev)
  ultimately show ?thesis by (simp add: elf_sections_def del: collect_sections.simps)
qed

lemma note_found: "\<exists>vi. version_find note_bytes = Some (Some (0, vi))"
proof -
  have "find_index (\<lambda>w. take 8 w = to_le 8 VERSION_MAGIC) (windows FIXED_LEN note_bytes) = Some 0"
    by (simp add: windows_def FIXED_LEN_def note_bytes_def find_index_def subslice_def VERSION_MAGIC_def)
  moreover have "length note_bytes = 22" by (simp add: note_bytes_def)
  ultimately show ?thesis
    by (simp add: version_find_def Let_def buf_simps FIXED_LEN_def del: to_le_numeral)
qed

theorem update_file_of_application_witness:
  "\<exists>img info. dfu_file zero_crypto note_elf (Some ()) = Some (Ok img) \<and> info_read zero_crypto img = Some (Ok info) \<and>
    in_sha256_ok info \<and> signed_by info = Some (replicate 32 0)"
proof -
  have ok: "crypto_ok zero_crypto" by (simp add: crypto_ok_def zero_crypto_def)
  have len: "length note_bytes = 22" by (simp add: note_bytes_def)
  have "elf_flat note_elf BODY_BASE 0xFF (MCU_MAX_IMAGE_LEN - (HDR_SIZE + tlv_size_for (Some ()))) = Some (Ok note_bytes)"
    by (simp add: elf_flat_def note_elf_sections flat_len_def copy_at_def put_def u32_add_def len BODY_BASE_def BOOTLOADER_BASE_def
        BOOTLOADER_SIZE_def BM_HDR_SIZE_def MCU_MAX_IMAGE_LEN_val HDR_SIZE_val tlv_size_for_def tlv_sizes)
  moreover obtain vi where "version_find note_bytes = Some (Some (0, vi))" using note_found by blast
  ultimately have "\<exists>img. dfu_file zero_crypto note_elf (Some ()) = Some (Ok img)"
    by (simp add: dfu_file_def from_body_def build_image_eq [OF ok] len MCU_MAX_IMAGE_LEN_val HDR_SIZE_val tlv_size_for_def tlv_sizes Let_def)
  then show ?thesis
    using update_file_of_application [OF ok, of note_elf "Some ()"] by (fastforce simp: keyhash_def zero_crypto_def)
qed

end
