(* ===== verification/Spec2Isabelle.thy ===== *)
theory Spec2Isabelle
  imports Util Crc Checksum Addr Frame Bcmp_Header Bcmp_Tx Bcmp_Rx L2 Bcmp_Forward Udp Neighbor Registry Dfu_Transfer Cbor Service_Metrics
    Service_Requests Bcmp_Ping Bcmp_Neighbors Bcmp_Resource Bcmp_Config Spotter Bm_Image
begin

text \<open>
  \<^bold>\<open>Verification of the Bristlemouth wire library.\<close>

  The repository is a Rust implementation of the Bristlemouth network stack. Its protocol logic
  is the crate \<open>src/bm-wire\<close>, which has no allocation, no I/O and no clock of its own: the
  functions take buffers, times and handlers as arguments. Beside it stand \<open>src/bm-mcuboot\<close>, the formats
  a node shares with its boot loader, and \<open>src/bm-image\<close>, the host tool that makes the update files. The other
  crates drive them (\<open>bm-stack\<close> runs \<open>bm-wire\<close> as async tasks over a network driver, \<open>bm-devkit\<close> is
  firmware) or test them. This development models \<open>bm-wire\<close>, \<open>bm-mcuboot\<close> and \<open>bm-image\<close>.

  \<^bold>\<open>How the program fits together.\<close> A frame is received by the L2 policy
  (\<open>l2_policy.rs\<close>), which learns its ingress port, decides whether it is submitted to the
  local stack and on which other ports it is forwarded; \<open>l2.rs\<close> stamps the egress port into
  the link-local frames it sends and patches their checksum. A submitted BCMP frame is verified
  and split by \<open>bcmp/rx.rs\<close>; its header selects a handler: heartbeats update the neighbour
  table (\<open>neighbor.rs\<close>), replies are matched with the pending requests of
  \<open>bcmp/registry.rs\<close>, DFU messages go to the update state machine (\<open>bcmp/dfu_core.rs\<close>
  with the roles \<open>bcmp/dfu_client.rs\<close> and \<open>bcmp/dfu_host.rs\<close>), the others may be
  forwarded (\<open>bcmp/forward.rs\<close>). Frames are built by \<open>bcmp/tx.rs\<close> and \<open>udp.rs\<close> over
  the layout of \<open>frame.rs\<close> and the checksum of \<open>checksum.rs\<close>. An update that the client has
  validated is handed to the boot loader by a mark in the trailer of the secondary slot, and kept by a mark in
  the primary one (\<open>bm-mcuboot/src/trailer.rs\<close>).

  \<^bold>\<open>Conventions\<close> (theory \<open>BM_Prelude\<close>). \<open>u8\<close>..\<open>u64\<close> are words of their width,
  buffers are lists of bytes. A panic (index out of range, overflow in a checked operation,
  \<open>unwrap\<close>) is \<^const>\<open>None\<close> of \<^typ>\<open>'a option\<close>; an error the code returns is
  \<open>Err e\<close> of \<open>result\<close>. A theorem "never panics" is that the model is \<^const>\<open>Some\<close>.
  \<open>&mut self\<close> methods return the updated record. A trait a caller implements
  (\<open>Effects\<close>, \<open>Roles\<close>, handlers, storage) is a record of functions, an argument of
  the model.

  \<^bold>\<open>Theories.\<close>
  \<^item> \<open>Util\<close> (\<open>util.rs\<close>): addresses, wrapping time, wildcard matching (a
    \<open>while_option\<close> loop, proved to end and to agree with a declarative matcher), UTC
    conversion (round trip), string helpers.
  \<^item> \<open>Crc\<close>, \<open>Checksum\<close>: table-driven and bitwise CRC, equal to a serial reference; the
    IPv6 checksum loop refines addition in ones' complement, and its checked additions do not overflow on any
    packet an IPv6 payload length can name.
  \<^item> \<open>Addr\<close>, \<open>Frame\<close>: derived addresses, text form, header offsets and writer.
  \<^item> \<open>Le\<close> (\<open>le.rs\<close>): the little-endian readers, and the two interfaces the codecs share:
    locale \<open>fixed_codec\<close> (a body of fixed length, encode and decode) and
    \<open>message_codec\<close>, which prove once that encoding then decoding is the identity, that
    decoding never panics and that short input is \<open>Truncated\<close>.
  \<^item> \<open>Bcmp_Header\<close>, \<open>Bcmp_Tx\<close>, \<open>Bcmp_Rx\<close>: the header and heartbeat codecs, building a
    frame in place and accepting one with every error branch; what is built is accepted.
  \<^item> \<open>L2\<close> (\<open>l2.rs\<close>, \<open>l2_policy.rs\<close>): receive policy, forwarding masks, stamping and
    restoring of the egress port, and exactly when a stamped frame is still accepted.
  \<^item> \<open>Bcmp_Forward\<close>, \<open>Udp\<close>: the two users of the frame layer.
  \<^item> \<open>Bounded_Array\<close>: searching, removing from and appending to the fixed-capacity arrays of the
    tables, and the locale \<open>counted_list\<close> (an array with a count refines a list), interpreted by the
    subscriptions of \<open>Pubsub\<close>, the services of \<open>Service_Table\<close>, the requests of \<open>Service_Requests\<close>
    and the two lists of \<open>Bcmp_Info\<close>.
  \<^item> \<open>Neighbor\<close> and \<open>Registry\<close>: the table invariants, heartbeat and lease behaviour, matching of
    replies, retries and the timing sweep.
  \<^item> \<open>Ring\<close>: ring-buffer lemmas and the locale \<open>bounded_fifo\<close>, interpreted by the event queue
    of \<open>Dfu_Core\<close> and the byte stream of \<open>Dfu_Host\<close>.
  \<^item> \<open>Dfu_Codec\<close> (\<open>bcmp/dfu.rs\<close>): the ten DFU bodies, interpretations of
    \<open>fixed_codec\<close>.
  \<^item> \<open>Dfu_Core\<close> (\<open>bcmp/dfu_core.rs\<close>): event queue, timers, errors, acceptance of messages and
    the run of the machine; the step relation \<open>dfu_move\<close>; locale \<open>dfu_roles\<close> states what
    the core relies on from the two roles.
  \<^item> \<open>Dfu_Client\<close>, \<open>Dfu_Host\<close>: the handlers of the two roles and the node holding both; locale
    \<open>guarded_activation\<close> (an extension of \<open>dfu_roles\<close>) carries the proof that the
    boot partition is switched only after a verified image, interpreted for the client alone
    and for the node. \<open>node_move\<close> is the step relation of the node, on whose runs from the start no operation
    panics (the slices of a stored message and the copy buffer of a chunk included) and a fatal error is final.
  \<^item> \<open>Dfu_Transfer\<close>: host, wire and client composed: a whole update delivers the image.

  \<^item> \<open>Cbor\<close> (\<open>cbor/parser.rs\<close>): the CBOR iterator, a value being a position in the
    buffer with its flags; nothing a caller does with a value it got from the parser panics.
    \<open>Cbor_Grammar\<close>: the grammar of items over byte lists, with no iterator, and the proof that
    the validator accepts exactly the items of the grammar and stops behind them.
  \<^item> \<open>Cbor_Encode\<close> (\<open>cbor.rs\<close>): the encoder of the third-party crate cbor2 is the parameter
    \<open>cbor2\<close>, two functions that write into what is left of a buffer; \<open>cbor2_ok\<close> is its documented
    contract, the shortest head of RFC 8949, or an error when it does not fit, and \<open>slice_cbor2\<close>
    satisfies it. Items written this way are in the grammar.
  \<^item> \<open>Config\<close>, \<open>Config_Access\<close>, \<open>Config_Store\<close>, \<open>Config_Map\<close> (\<open>configuration.rs\<close>,
    \<open>configuration/entry.rs\<close>): a partition as its flash image with a memory layout; \<open>conf_wf\<close> is the
    invariant of every operation. Getters and setters make it a map, saving and loading a round trip,
    removal drops one row, and the map it is published as is one item of the grammar. Sinks for the
    encoded map are a locale, interpreted by the buffer and the CRC. \<open>Cbor_Copy\<close> is the copy of a
    string into a buffer of fixed length, which configuration and metrics share.
  \<^item> \<open>Service_Cbor\<close> (\<open>service.rs\<close>): the map writer and the steps of a decoder. \<open>wrote\<close> says what a
    writer has written, \<open>reading\<close> that a value is on a row of items, \<open>owed\<close> how many items it has
    ahead; the rules over them run an encoder or a decoder item by item.
  \<^item> \<open>Service_Info\<close>, \<open>Service_Config_Map\<close>, \<open>Service_Metrics\<close> (\<open>service/sys_info.rs\<close>,
    \<open>power_info.rs\<close>, \<open>config_map.rs\<close>, \<open>metrics.rs\<close>): the bodies with their handlers. What a handler
    answers the decoder reads back; no decoder panics; the reply callbacks of power_info are a FIFO.
  \<^item> \<open>Service_Table\<close>, \<open>Service_Requests\<close> (\<open>service/table.rs\<close>, \<open>service/request.rs\<close>): the headers,
    names and topics of a service call, the services a node offers, and the pending requests of a
    client. A request ends exactly once, by its reply or by its expiry; a call put on the wire by one
    node is answered by the handler of the other and the reply reaches the callback.
  \<^item> \<open>Pubsub\<close> (\<open>pubsub.rs\<close>): the publication codec and the subscription table as a refinement of a
    list; a publication reaches exactly the subscribers whose pattern matches.
  \<^item> \<open>Bcmp_Ping\<close>, \<open>Bcmp_Info\<close>, \<open>Bcmp_Neighbors\<close>, \<open>Bcmp_Resource\<close>, \<open>Bcmp_Config\<close> (\<open>bcmp/ping.rs\<close>,
    \<open>time.rs\<close>, \<open>info.rs\<close>, \<open>neighbors.rs\<close>, \<open>resource.rs\<close>, \<open>config.rs\<close>): the bodies of the other BCMP
    messages with the state a node keeps for them, interpretations of \<open>fixed_codec\<close> and
    \<open>message_codec\<close>. Resources added are the ones a reply advertises (or the reply is refused, beyond its sixteen-bit
    counts), a table asked for is reported once, and a value set over the wire, stored under the key that starts
    in its payload, is the value read back from the partition.
  \<^item> \<open>Spotter\<close> (\<open>spotter.rs\<close>): log lines and data, from their text to the publication.
  \<^item> \<open>Mcuboot_Image\<close> (\<open>bm-mcuboot/src/image.rs\<close>, \<open>tlv.rs\<close>): the image header, and the area of entries behind the
    body, specified by the list of its entries: the iterator reads exactly them, and stays inside any area that
    is accepted.
  \<^item> \<open>Mcuboot_Trailer\<close> (\<open>bm-mcuboot/src/trailer.rs\<close>): the fields at the end of a slot over the locale
    \<open>slot_flash\<close>, interpreted by the flash in RAM of \<open>bm-mcuboot-diff\<close>. Marking asks the boot loader for a swap,
    confirming keeps the image, and both are total with the errors of the module's table.
  \<^item> \<open>Elf_Flat\<close>, \<open>Bm_Image\<close> (\<open>bm-image/src\<close>): the flat binary of an ELF file, specified by the raw fields of the file
    (\<open>elf_valid\<close>, \<open>loaded_sections\<close>, \<open>lies_flat\<close>), and the update file made
    of it; reading the file back finds the header, version, hash and signer. SHA-256 and ed25519 are the record
    \<open>Crypto\<close>, of which only the output lengths are assumed (\<open>crypto_ok\<close>).

  \<^bold>\<open>Loops, fuel and bounds.\<close> No model uses fuel. Slice loops are structural recursions; the
  timer loop of \<open>Dfu_Core\<close> (\<open>fire_loop\<close>) is a \<open>function\<close> whose measure is the number of
  armed timers; the sweep of the registry (\<open>sweep_loop\<close>) recurses on the length still to be
  visited; the wildcard loop is \<open>while_option\<close> and its termination is part of
  \<open>wildcard_match_correct\<close>; the iterator of \<open>Mcuboot_Image\<close> is a \<open>function\<close> on what is left of
  the area; the item loop and the key search of \<open>Cbor\<close> and the loop over the
  fields of \<open>Service_Metrics\<close> are \<open>partial_function (option)\<close>, proved to return on every value of
  the parser. Capacities are the constants of the source.

  \<^bold>\<open>Findings.\<close> \<open>l2.rs\<close> patches the checksum without the end-around carry, so
  \<open>egress_stamp_accepted_iff\<close> has a side condition; \<open>util.rs\<close> compares characters before it
  looks for a star, so \<open>wildcard_match_correct\<close> assumes strings without a star; the port of
  a neighbour is the one it was first heard on; \<open>bm-image/src/elf.rs\<close> overflows on a section that ends at the
  top of the address space (\<open>flat_panics_at_the_top\<close>), so \<open>flat_places_sections\<close> bounds the base.

  \<^bold>\<open>Not modelled.\<close> Of \<open>bm-wire\<close> only \<open>bcmp/mod.rs\<close>, which declares modules. The async runtime
  (\<open>bm-stack\<close>), whose tasks and channels are driven by an executor outside the repository; the firmware
  (\<open>bm-devkit\<close>) and the driver adapter (\<open>bm-phy-adin2111\<close>), which call hardware crates. Of \<open>bm-image\<close>, the
  command line, the printed output, reading a key from PEM and the lossy conversion of the version text. The
  tests, the differential harnesses (apart from the flash in RAM) and the bindings to the C implementation.
\<close>

end
